(* ===== verification/Prelude.thy ===== *)
theory Prelude
  imports Main "HOL-Library.Word" "HOL-Library.Signed_Division" "HOL-Library.Multiset"
begin

text \<open>
  Vocabulary shared by every theory of the development: the machine integer types of the C++
  code, the characters the protocols use, a \<open>std::map\<close> as a list of pairs in key order, and the
  small lemmas on lists and words that the component proofs rest on.

  Conventions. An unsigned integer of the code that is computed with is a word of its width, so
  that additions and subtractions wrap exactly as the code's do. A signed integer (a price, a
  position) is an \<open>int\<close>; a container size or an index (\<open>size_t\<close>) is a \<open>nat\<close>. A C++ \<open>char\<close> is its
  byte, a \<open>u8\<close>.
\<close>

unbundle bit_operations_syntax

type_synonym u8 = "8 word"
type_synonym u16 = "16 word"
type_synonym u32 = "32 word"
type_synonym u64 = "64 word"

named_theorems inv_simps \<open>unfolding of the invariants of the components\<close>
named_theorems frame_simps \<open>what an operation leaves alone\<close>

section \<open>Ordered association lists: \<open>std::map\<close>\<close>

type_synonym ('k, 'v) omap = "('k \<times> 'v) list"

fun om_set :: "('k::linorder) \<Rightarrow> 'v \<Rightarrow> ('k, 'v) omap \<Rightarrow> ('k, 'v) omap" where
  "om_set k v [] = [(k, v)]"
| "om_set k v ((a, w) # m) =
     (if k < a then (k, v) # (a, w) # m
      else if k = a then (k, v) # m
      else (a, w) # om_set k v m)"

definition om_get :: "('k::linorder) \<Rightarrow> ('k, 'v) omap \<Rightarrow> 'v option" where
  "om_get k m = map_of m k"

definition om_del :: "('k::linorder) \<Rightarrow> ('k, 'v) omap \<Rightarrow> ('k, 'v) omap" where
  "om_del k m = filter (\<lambda>p. fst p \<noteq> k) m"

definition om_wf :: "(('k::linorder) \<times> 'v) list \<Rightarrow> bool" where
  "om_wf m \<longleftrightarrow> sorted_wrt (<) (map fst m)"

lemma om_wf_Nil [simp]: "om_wf []"
  by (simp add: om_wf_def)

lemma om_wf_Cons: "om_wf ((a, w) # m) \<longleftrightarrow> om_wf m \<and> (\<forall>p \<in> set m. a < fst p)"
  by (auto simp: om_wf_def)

lemma om_wf_tl [simp]: "om_wf m \<Longrightarrow> om_wf (tl m)"
  by (cases m) (auto simp: om_wf_def)

lemma om_get_Nil [simp]: "om_get k [] = None"
  by (simp add: om_get_def)

lemma om_set_keys: "fst ` set (om_set k v m) = insert k (fst ` set m)"
  by (induction k v m rule: om_set.induct) auto

lemma om_wf_set [simp]: "om_wf m \<Longrightarrow> om_wf (om_set k v m)"
proof (induction k v m rule: om_set.induct)
  case (2 k v a w m)
  have keys: "\<And>p. p \<in> set (om_set k v m) \<Longrightarrow> fst p = k \<or> fst p \<in> fst ` set m"
    using om_set_keys [of k v m] by blast
  have above: "\<forall>p \<in> set m. a < fst p" and wf: "om_wf m"
    using "2.prems" by (simp_all add: om_wf_Cons)
  consider "k < a" | "k = a" | "a < k"
    by fastforce
  then show ?case
  proof cases
    case 1
    then show ?thesis using above wf by (auto simp: om_wf_Cons)
  next
    case 2
    then show ?thesis using above wf by (simp add: om_wf_Cons)
  next
    case 3
    have "om_wf (om_set k v m)"
      using "2.IH" wf 3 by simp
    then show ?thesis
      using 3 keys above by (fastforce simp: om_wf_Cons)
  qed
qed (simp add: om_wf_Cons)

lemma om_get_set: "om_wf m \<Longrightarrow> om_get j (om_set k v m) = (if j = k then Some v else om_get j m)"
proof (induction k v m rule: om_set.induct)
  case (2 k v a w m)
  then show ?case by (auto simp: om_wf_Cons om_get_def)
qed (simp add: om_get_def)

lemma om_wf_del [simp]: "om_wf m \<Longrightarrow> om_wf (om_del k m)"
  by (induction m) (auto simp: om_wf_Cons om_del_def)

lemma om_get_del: "om_wf m \<Longrightarrow> om_get j (om_del k m) = (if j = k then None else om_get j m)"
  by (induction m) (auto simp: om_wf_Cons om_get_def om_del_def)

lemma om_get_mem: "om_wf m \<Longrightarrow> om_get k m = Some v \<longleftrightarrow> (k, v) \<in> set m"
proof -
  assume "om_wf m"
  then have "distinct (map fst m)"
    by (simp add: om_wf_def strict_sorted_iff)
  then show ?thesis
    by (simp add: om_get_def)
qed

lemma om_get_None: "om_get k m = None \<longleftrightarrow> k \<notin> fst ` set m"
  by (simp add: om_get_def map_of_eq_None_iff)

lemma om_hd_least: "om_wf m \<Longrightarrow> m \<noteq> [] \<Longrightarrow> p \<in> set m \<Longrightarrow> fst (hd m) \<le> fst p"
  by (cases m) (auto simp: om_wf_def less_imp_le)

lemma om_last_greatest: "om_wf m \<Longrightarrow> m \<noteq> [] \<Longrightarrow> p \<in> set m \<Longrightarrow> fst p \<le> fst (last m)"
  by (induction m) (auto simp: om_wf_Cons less_imp_le)

section \<open>Lists\<close>

lemma sum_list_map_remove1:
  "x \<in> set xs \<Longrightarrow> sum_list (map f (remove1 x xs)) = sum_list (map f xs) - (f x :: 'a::ab_group_add)"
  by (induction xs) (auto simp: algebra_simps)

lemma map_cong_fun_upd: "p \<notin> set xs \<Longrightarrow> map (f(p := v)) xs = map f xs"
  by (auto intro: map_cong)

lemma distinct_length_remove1: "x \<in> set xs \<Longrightarrow> length (remove1 x xs) = length xs - 1"
  by (simp add: length_remove1)

section \<open>Words\<close>

lemma unat_and_mask_mod: "unat ((w :: 'a::len word) AND of_nat (2 ^ k - 1)) = unat w mod 2 ^ k"
proof -
  have "(of_nat (2 ^ k - 1) :: 'a word) = mask k"
    by (simp add: mask_eq_exp_minus_1 of_nat_diff)
  then show ?thesis
    by (metis take_bit_eq_mask take_bit_eq_mod unsigned_take_bit_eq)
qed

lemma nat_and_mask_mod: "(i :: nat) AND (2 ^ k - 1) = i mod 2 ^ k"
  by (metis mask_eq_exp_minus_1 take_bit_eq_mask take_bit_eq_mod)

section \<open>Signed 32 and 64 bit integers\<close>

definition to_i32 :: "int \<Rightarrow> int" where
  "to_i32 x = sint (word_of_int x :: u32)"

definition is_i32 :: "int \<Rightarrow> bool" where
  "is_i32 x \<longleftrightarrow> - (2 ^ 31) \<le> x \<and> x < 2 ^ 31"

lemma to_i32_id [simp]: "is_i32 x \<Longrightarrow> to_i32 x = x"
  unfolding to_i32_def is_i32_def
  by (simp add: signed_of_int signed_take_bit_int_eq_self)

lemma is_i32_to_i32 [simp]: "is_i32 (to_i32 x)"
  using sint_ge [of "word_of_int x :: u32"] sint_lt [of "word_of_int x :: u32"]
  by (simp add: is_i32_def to_i32_def)

lemma unat_ucast64 [simp]: "unat (ucast (w :: u32) :: u64) = unat w"
proof -
  have "unat w < 2 ^ 32" using unsigned_less [of w] by simp
  then have "unat w < 2 ^ 64" by (rule less_trans) simp
  then show ?thesis by (simp add: unsigned_ucast_eq take_bit_nat_eq_self)
qed

lemma unat_of_nat64: "n < 2 ^ 64 \<Longrightarrow> unat (of_nat n :: u64) = n"
  by (simp add: unsigned_of_nat take_bit_nat_eq_self)

lemma unat_of_nat32: "n < 2 ^ 32 \<Longrightarrow> unat (of_nat n :: u32) = n"
  by (simp add: unsigned_of_nat take_bit_nat_eq_self)

lemma unat_of_nat16: "n < 2 ^ 16 \<Longrightarrow> unat (of_nat n :: u16) = n"
  by (simp add: unsigned_of_nat take_bit_nat_eq_self)

lemma ucast_sub_le: "(b :: u32) \<le> a \<Longrightarrow> (ucast (a - b) :: u64) = ucast a - ucast b"
proof -
  assume "b \<le> a"
  then have n: "unat b \<le> unat a" "unat (a - b) = unat a - unat b"
    by (simp_all add: word_le_nat_alt unat_sub)
  then have "unat (ucast (a - b) :: u64) = unat (ucast a - ucast b :: u64)"
    by (simp add: unat_sub word_le_nat_alt)
  then show ?thesis by (simp add: word_unat_eq_iff)
qed

end
