(* ===== verification/RefMap.thy ===== *)
theory RefMap
  imports Prelude
begin

text \<open>
  The order reference table, class \<open>RefMap\<close> of include/itchbook/book/book.hpp: open addressing
  with linear probing over a vector of slots whose length is a power of two, growth at half full,
  and deletion by Knuth's backward shift.

  A slot with no pointer is empty. The probe loops of the code run until they meet an empty slot
  or the reference they look for; they are given as fuel the number of slots, and \<open>probe_cases\<close>
  shows that under the table's invariant they never use it up. The table is polymorphic in what a
  slot points to.

  The locale \<open>ref_table\<close> is what the book asks of a reference table: an invariant, a lookup, and
  an insertion and a deletion that act on the lookup as on a finite map.
\<close>

section \<open>State and operations\<close>

record 'p slot =
  s_ref :: u64
  s_ptr :: "'p option"

definition empty_slot :: "'p slot" where
  "empty_slot = \<lparr> s_ref = 0, s_ptr = None \<rparr>"

record 'p refmap =
  rm_slots :: "'p slot list"
  rm_mask :: nat
  rm_size :: nat

function cap_from :: "nat \<Rightarrow> nat \<Rightarrow> nat" where
  "cap_from cap capacity =
     (if 0 < cap \<and> cap < capacity then cap_from (2 * cap) capacity else cap)"
  by pat_completeness auto
termination
  by (relation "measure (\<lambda>(cap, capacity). capacity - cap)") auto

declare cap_from.simps [simp del]

definition rm_cleared :: "nat \<Rightarrow> 'p refmap" where
  "rm_cleared n = \<lparr> rm_slots = replicate n empty_slot, rm_mask = n - 1, rm_size = 0 \<rparr>"

definition rm_new :: "nat \<Rightarrow> 'p refmap" where
  "rm_new capacity = rm_cleared (cap_from 16 capacity)"

definition home :: "nat \<Rightarrow> u64 \<Rightarrow> nat" where
  "home msk r = unat r AND msk"

datatype probed = At nat | Vacant nat | Diverges

fun probe :: "nat \<Rightarrow> 'p slot list \<Rightarrow> nat \<Rightarrow> u64 \<Rightarrow> nat \<Rightarrow> probed" where
  "probe 0 ss msk r i = Diverges"
| "probe (Suc fuel) ss msk r i =
     (if s_ptr (ss ! i) \<noteq> None then
        (if s_ref (ss ! i) = r then At i
         else probe fuel ss msk r ((i + 1) AND msk))
      else Vacant i)"

definition rm_find_index :: "'p refmap \<Rightarrow> u64 \<Rightarrow> nat option" where
  "rm_find_index t r =
     (case probe (length (rm_slots t)) (rm_slots t) (rm_mask t) r (home (rm_mask t) r) of
        At i \<Rightarrow> Some i
      | _ \<Rightarrow> None)"

definition rm_at :: "'p refmap \<Rightarrow> nat \<Rightarrow> 'p option" where
  "rm_at t i = s_ptr (rm_slots t ! i)"

definition rm_find :: "'p refmap \<Rightarrow> u64 \<Rightarrow> 'p option" where
  "rm_find t r =
     (case rm_find_index t r of
        None \<Rightarrow> None
      | Some i \<Rightarrow> s_ptr (rm_slots t ! i))"

definition rm_put :: "u64 \<Rightarrow> 'p \<Rightarrow> 'p refmap \<Rightarrow> 'p refmap" where
  "rm_put r p t =
     (case probe (length (rm_slots t)) (rm_slots t) (rm_mask t) r (home (rm_mask t) r) of
        At i \<Rightarrow> t\<lparr> rm_slots := (rm_slots t)[i := (rm_slots t ! i)\<lparr> s_ptr := Some p \<rparr>] \<rparr>
      | Vacant i \<Rightarrow> t\<lparr> rm_slots := (rm_slots t)[i := \<lparr> s_ref = r, s_ptr = Some p \<rparr>],
                       rm_size := rm_size t + 1 \<rparr>
      | Diverges \<Rightarrow> t)"

definition put_slot :: "'p slot \<Rightarrow> 'p refmap \<Rightarrow> 'p refmap" where
  "put_slot s t = (case s_ptr s of None \<Rightarrow> t | Some p \<Rightarrow> rm_put (s_ref s) p t)"

definition rm_grow :: "'p refmap \<Rightarrow> 'p refmap" where
  "rm_grow t = fold put_slot (rm_slots t) (rm_cleared (length (rm_slots t) * 2))"

definition rm_full :: "'p refmap \<Rightarrow> bool" where
  "rm_full t \<longleftrightarrow> (rm_size t + 1) * 2 > length (rm_slots t)"

definition rm_insert :: "u64 \<Rightarrow> 'p \<Rightarrow> 'p refmap \<Rightarrow> 'p refmap" where
  "rm_insert r p t = rm_put r p (if rm_full t then rm_grow t else t)"

definition movable :: "nat \<Rightarrow> nat \<Rightarrow> nat \<Rightarrow> bool" where
  "movable i j k = (if j > i then k \<le> i \<or> k > j else k \<le> i \<and> k > j)"

fun shift_back :: "nat \<Rightarrow> nat \<Rightarrow> 'p slot list \<Rightarrow> nat \<Rightarrow> nat \<Rightarrow> 'p slot list" where
  "shift_back 0 msk ss i j = ss"
| "shift_back (Suc fuel) msk ss i j =
     (let j = (j + 1) AND msk in
      if s_ptr (ss ! j) = None then ss
      else if movable i j (home msk (s_ref (ss ! j)))
      then shift_back fuel msk (ss[i := ss ! j, j := (ss ! j)\<lparr> s_ptr := None \<rparr>]) j j
      else shift_back fuel msk ss i j)"

definition rm_erase_at :: "nat \<Rightarrow> 'p refmap \<Rightarrow> 'p refmap" where
  "rm_erase_at i t =
     t\<lparr> rm_slots := shift_back (length (rm_slots t)) (rm_mask t)
                      ((rm_slots t)[i := (rm_slots t ! i)\<lparr> s_ptr := None \<rparr>]) i i,
        rm_size := rm_size t - 1 \<rparr>"

definition rm_erase :: "u64 \<Rightarrow> 'p refmap \<Rightarrow> bool \<times> 'p refmap" where
  "rm_erase r t =
     (case rm_find_index t r of
        None \<Rightarrow> (False, t)
      | Some i \<Rightarrow> (True, rm_erase_at i t))"

section \<open>Cyclic distance\<close>

definition cdist :: "nat \<Rightarrow> nat \<Rightarrow> nat \<Rightarrow> nat" where
  "cdist n a b = (if a \<le> b then b - a else b + n - a)"

lemma cdist_less: "a < n \<Longrightarrow> b < n \<Longrightarrow> cdist n a b < n"
  by (auto simp: cdist_def)

lemma cdist_self [simp]: "cdist n a a = 0"
  by (simp add: cdist_def)

lemma cdist_eq_0: "a < n \<Longrightarrow> b < n \<Longrightarrow> cdist n a b = 0 \<longleftrightarrow> a = b"
  by (auto simp: cdist_def)

lemma cdist_step: "a < n \<Longrightarrow> d < n \<Longrightarrow> cdist n a ((a + d) mod n) = d"
proof -
  assume "a < n" "d < n"
  moreover have "(a + d) mod n = (if a + d < n then a + d else a + d - n)"
    using calculation by (simp add: mod_if)
  ultimately show ?thesis
    by (auto simp: cdist_def)
qed

lemma step_cdist: "a < n \<Longrightarrow> b < n \<Longrightarrow> (a + cdist n a b) mod n = b"
  by (auto simp: cdist_def)

lemma cdist_next:
  "i < n \<Longrightarrow> j < n \<Longrightarrow> Suc j mod n \<noteq> i \<Longrightarrow> cdist n i (Suc j mod n) = Suc (cdist n i j)"
  by (cases "Suc j = n") (auto simp: cdist_def)

lemma cdist_next_wrap: "i < n \<Longrightarrow> j < n \<Longrightarrow> Suc j mod n = i \<Longrightarrow> cdist n i j = n - 1"
  by (cases "Suc j = n") (auto simp: cdist_def)

lemma movable_cdist:
  "i < n \<Longrightarrow> j < n \<Longrightarrow> k < n \<Longrightarrow> i \<noteq> j \<Longrightarrow>
     movable i j k \<longleftrightarrow> \<not> (0 < cdist n i k \<and> cdist n i k \<le> cdist n i j)"
  by (auto simp: movable_def cdist_def)

section \<open>Invariant\<close>

definition occ :: "'p slot list \<Rightarrow> nat \<Rightarrow> bool" where
  "occ ss p \<longleftrightarrow> p < length ss \<and> s_ptr (ss ! p) \<noteq> None"

definition geom :: "'p slot list \<Rightarrow> nat \<Rightarrow> bool" where
  "geom ss m \<longleftrightarrow> (\<exists>k. length ss = 2 ^ k \<and> m = 2 ^ k - 1)"

definition chained :: "'p slot list \<Rightarrow> nat \<Rightarrow> bool" where
  "chained ss m \<longleftrightarrow>
     (\<forall>p. occ ss p \<longrightarrow>
        (\<forall>c < cdist (length ss) (home m (s_ref (ss ! p))) p.
           occ ss ((home m (s_ref (ss ! p)) + c) mod length ss)))"

definition distinct_refs :: "'p slot list \<Rightarrow> bool" where
  "distinct_refs ss \<longleftrightarrow>
     (\<forall>p q. occ ss p \<longrightarrow> occ ss q \<longrightarrow> s_ref (ss ! p) = s_ref (ss ! q) \<longrightarrow> p = q)"

definition entry :: "'p slot list \<Rightarrow> u64 \<Rightarrow> 'p \<Rightarrow> bool" where
  "entry ss r v \<longleftrightarrow> (\<exists>s \<in> set ss. s_ref s = r \<and> s_ptr s = Some v)"

definition rm_wf :: "'p refmap \<Rightarrow> bool" where
  "rm_wf t \<longleftrightarrow>
     geom (rm_slots t) (rm_mask t) \<and> chained (rm_slots t) (rm_mask t) \<and>
     distinct_refs (rm_slots t) \<and> rm_size t = card {p. occ (rm_slots t) p} \<and>
     rm_size t < length (rm_slots t)"

definition rm_inv :: "'p refmap \<Rightarrow> bool" where
  "rm_inv t \<longleftrightarrow> rm_wf t \<and> 2 * rm_size t \<le> length (rm_slots t)"

lemma finite_occ [simp]: "finite {p. occ ss p}"
  by (rule finite_subset [of _ "{..<length ss}"]) (auto simp: occ_def)

lemma occ_less [dest]: "occ ss p \<Longrightarrow> p < length ss"
  by (simp add: occ_def)

lemma entry_index: "entry ss r v \<longleftrightarrow> (\<exists>p < length ss. s_ref (ss ! p) = r \<and> s_ptr (ss ! p) = Some v)"
  unfolding entry_def by (metis in_set_conv_nth)

lemma geom_pos: "geom ss m \<Longrightarrow> 0 < length ss"
  by (auto simp: geom_def)

lemma geom_and: "geom ss m \<Longrightarrow> i AND m = i mod length ss"
  by (auto simp: geom_def nat_and_mask_mod [simplified])

lemma geom_home: "geom ss m \<Longrightarrow> home m r < length ss"
  unfolding home_def by (metis geom_and geom_pos mod_less_divisor)

lemma geom_update [simp]: "geom (ss[i := s]) m = geom ss m"
  by (simp add: geom_def)

lemma vacancy:
  assumes "card {p. occ ss p} < length ss"
  shows "\<exists>p < length ss. \<not> occ ss p"
proof (rule ccontr)
  assume "\<not> ?thesis"
  then have "{p. occ ss p} = {..<length ss}" by (auto simp: occ_def)
  with assms show False by simp
qed

section \<open>The probe\<close>

lemma probe_walk:
  assumes "geom ss m" and "h < length ss" and "d \<le> e" and "e < length ss"
    and "\<not> occ ss ((h + e) mod length ss)"
    and "\<forall>c < d. occ ss ((h + c) mod length ss) \<and> s_ref (ss ! ((h + c) mod length ss)) \<noteq> r"
    and "e < fuel + d"
  shows "\<exists>a \<le> e.
           (\<forall>c < a. occ ss ((h + c) mod length ss) \<and> s_ref (ss ! ((h + c) mod length ss)) \<noteq> r) \<and>
           (\<not> occ ss ((h + a) mod length ss) \<and>
              probe fuel ss m r ((h + d) mod length ss) = Vacant ((h + a) mod length ss)
            \<or> occ ss ((h + a) mod length ss) \<and> s_ref (ss ! ((h + a) mod length ss)) = r \<and>
              probe fuel ss m r ((h + d) mod length ss) = At ((h + a) mod length ss))"
  using assms(3,6,7)
proof (induction fuel arbitrary: d)
  case 0
  then show ?case by simp
next
  case (Suc fuel)
  let ?n = "length ss" and ?p = "(h + d) mod length ss"
  have p: "?p < ?n" using geom_pos [OF assms(1)] by simp
  have next_p: "(?p + 1) AND m = (h + Suc d) mod ?n"
    by (simp add: geom_and [OF assms(1)] mod_Suc_eq)
  show ?case
  proof (cases "occ ss ?p \<and> s_ref (ss ! ?p) \<noteq> r")
    case True
    have "d \<noteq> e" using True assms(5) by auto
    with True Suc.prems have "\<exists>a \<le> e.
           (\<forall>c < a. occ ss ((h + c) mod ?n) \<and> s_ref (ss ! ((h + c) mod ?n)) \<noteq> r) \<and>
           (\<not> occ ss ((h + a) mod ?n) \<and>
              probe fuel ss m r ((h + Suc d) mod ?n) = Vacant ((h + a) mod ?n)
            \<or> occ ss ((h + a) mod ?n) \<and> s_ref (ss ! ((h + a) mod ?n)) = r \<and>
              probe fuel ss m r ((h + Suc d) mod ?n) = At ((h + a) mod ?n))"
      by (intro Suc.IH) (auto simp: less_Suc_eq)
    moreover have "probe (Suc fuel) ss m r ?p = probe fuel ss m r ((h + Suc d) mod ?n)"
      using True next_p by (simp add: occ_def)
    ultimately show ?thesis by simp
  next
    case False
    with Suc.prems p show ?thesis
      by (intro exI [of _ d]) (auto simp: occ_def)
  qed
qed

lemma rm_wf_D:
  assumes "rm_wf t"
  shows "geom (rm_slots t) (rm_mask t)" "chained (rm_slots t) (rm_mask t)"
    "distinct_refs (rm_slots t)" "rm_size t = card {p. occ (rm_slots t) p}"
    "rm_size t < length (rm_slots t)"
  using assms by (simp_all add: rm_wf_def)

text \<open>
  Under the invariant the probe of the code ends: at the one slot that holds the reference, or at
  a vacant slot when no slot holds it.
\<close>

lemma probe_cases:
  assumes "rm_wf t"
  obtains (found) i where "probe (length (rm_slots t)) (rm_slots t) (rm_mask t) r
        (home (rm_mask t) r) = At i"
      "occ (rm_slots t) i" "s_ref (rm_slots t ! i) = r"
  | (vacant) i where "probe (length (rm_slots t)) (rm_slots t) (rm_mask t) r
        (home (rm_mask t) r) = Vacant i"
      "i < length (rm_slots t)" "\<not> occ (rm_slots t) i"
      "\<forall>c < cdist (length (rm_slots t)) (home (rm_mask t) r) i.
         occ (rm_slots t) ((home (rm_mask t) r + c) mod length (rm_slots t))"
      "\<forall>p. occ (rm_slots t) p \<longrightarrow> s_ref (rm_slots t ! p) \<noteq> r"
proof -
  let ?ss = "rm_slots t" and ?m = "rm_mask t"
  let ?n = "length ?ss" and ?h = "home ?m r"
  note wf = rm_wf_D [OF assms]
  have h: "?h < ?n" using geom_home [OF wf(1)] .
  obtain q where q: "q < ?n" "\<not> occ ?ss q"
    using vacancy wf(4,5) by metis
  let ?e = "cdist ?n ?h q"
  have e: "?e < ?n" "(?h + ?e) mod ?n = q"
    using cdist_less [OF h q(1)] step_cdist [OF h q(1)] by auto
  obtain a where a: "a \<le> ?e"
      "\<forall>c < a. occ ?ss ((?h + c) mod ?n) \<and> s_ref (?ss ! ((?h + c) mod ?n)) \<noteq> r"
      "\<not> occ ?ss ((?h + a) mod ?n) \<and> probe ?n ?ss ?m r ?h = Vacant ((?h + a) mod ?n)
       \<or> occ ?ss ((?h + a) mod ?n) \<and> s_ref (?ss ! ((?h + a) mod ?n)) = r \<and>
         probe ?n ?ss ?m r ?h = At ((?h + a) mod ?n)"
    using probe_walk [OF wf(1) h, of 0 ?e r ?n] e q(2) h by auto
  let ?i = "(?h + a) mod ?n"
  have a_n: "a < ?n" using a(1) e(1) by simp
  have i: "?i < ?n" "cdist ?n ?h ?i = a"
    using geom_pos [OF wf(1)] cdist_step [OF h a_n] by simp_all
  show thesis
  proof (cases "occ ?ss ?i")
    case True
    with a(3) found show thesis by blast
  next
    case False
    have none: "s_ref (?ss ! p) \<noteq> r" if p: "occ ?ss p" for p
    proof
      assume ref: "s_ref (?ss ! p) = r"
      let ?c = "cdist ?n ?h p"
      have p_n: "p < ?n" using p by (simp add: occ_def)
      have at: "(?h + ?c) mod ?n = p" using step_cdist [OF h p_n] .
      have "\<not> ?c < a" using a(2) at ref by metis
      moreover have "?c \<noteq> a" using at False p by metis
      ultimately have "a < ?c" by simp
      then have "occ ?ss ?i"
        using wf(2) p ref by (auto simp: chained_def)
      with False show False ..
    qed
    show thesis
      by (rule vacant [of ?i]) (use a i none False in auto)
  qed
qed

section \<open>Lookup and insertion\<close>

lemma find_index_iff:
  assumes "rm_wf t"
  shows "rm_find_index t r = Some i \<longleftrightarrow> occ (rm_slots t) i \<and> s_ref (rm_slots t ! i) = r"
using assms
proof (cases rule: probe_cases [where r = r])
  case (found j)
  then show ?thesis
    using rm_wf_D(3) [OF assms] by (auto simp: rm_find_index_def distinct_refs_def)
next
  case (vacant j)
  then show ?thesis by (auto simp: rm_find_index_def)
qed

lemma rm_find_iff:
  assumes "rm_wf t"
  shows "rm_find t r = Some v \<longleftrightarrow> entry (rm_slots t) r v"
proof
  assume "rm_find t r = Some v"
  then obtain i where "rm_find_index t r = Some i" "s_ptr (rm_slots t ! i) = Some v"
    by (auto simp: rm_find_def split: option.splits)
  with find_index_iff [OF assms] show "entry (rm_slots t) r v"
    by (auto simp: entry_index occ_def)
next
  assume "entry (rm_slots t) r v"
  then obtain i where "i < length (rm_slots t)" "s_ref (rm_slots t ! i) = r"
      "s_ptr (rm_slots t ! i) = Some v"
    by (auto simp: entry_index)
  with find_index_iff [OF assms, of r i] show "rm_find t r = Some v"
    by (simp add: rm_find_def occ_def)
qed

lemma rm_find_eqI:
  assumes "rm_wf t" and "\<And>v. entry (rm_slots t) r v \<longleftrightarrow> x = Some v"
  shows "rm_find t r = x"
  using assms rm_find_iff [OF assms(1)] by (metis not_Some_eq)

lemma occ_update:
  "i < length ss \<Longrightarrow> occ (ss[i := s]) p \<longleftrightarrow> (if p = i then s_ptr s \<noteq> None else occ ss p)"
  by (auto simp: occ_def nth_list_update)

lemma rm_put_overwrite:
  assumes wf: "rm_wf t" and i: "occ (rm_slots t) i" "s_ref (rm_slots t ! i) = r"
    and t': "t' = t\<lparr> rm_slots := (rm_slots t)[i := (rm_slots t ! i)\<lparr> s_ptr := Some v \<rparr>] \<rparr>"
  shows "rm_wf t' \<and> rm_find t' = (rm_find t)(r \<mapsto> v)"
proof -
  let ?ss = "rm_slots t" and ?ss' = "rm_slots t'"
  have i_n: "i < length ?ss" using i by (simp add: occ_def)
  have len: "length ?ss' = length ?ss" by (simp add: t')
  have occ': "occ ?ss' p = occ ?ss p" for p
    using i i_n by (simp add: t' occ_update)
  have ref': "s_ref (?ss' ! p) = s_ref (?ss ! p)" for p
    using i_n by (cases "p = i") (simp_all add: t')
  have wf': "rm_wf t'"
    using wf by (simp add: rm_wf_def chained_def distinct_refs_def occ' ref' len)
      (simp add: t')
  have "rm_find t' x = ((rm_find t)(r \<mapsto> v)) x" for x
  proof (rule rm_find_eqI [OF wf'])
    fix w
    have "entry ?ss' x w \<longleftrightarrow> (if x = r then w = v else entry ?ss x w)"
    proof (cases "x = r")
      case True
      have "entry ?ss' x w \<Longrightarrow> w = v"
        using rm_wf_D(3) [OF wf] i i_n True
        by (auto simp: entry_index t' nth_list_update distinct_refs_def occ_def split: if_splits)
      moreover have "entry ?ss' x v"
        using i_n i(2) True unfolding entry_index by (intro exI [of _ i]) (simp add: t')
      ultimately show ?thesis using True by auto
    next
      case False
      then have "x \<noteq> s_ref (?ss ! i)" using i(2) by simp
      with i_n False show ?thesis
        by (auto simp: entry_index t' nth_list_update split: if_splits)
    qed
    then show "entry ?ss' x w \<longleftrightarrow> ((rm_find t)(r \<mapsto> v)) x = Some w"
      using rm_find_iff [OF wf] by auto
  qed
  with wf' show ?thesis by blast
qed

lemma rm_put_fresh:
  assumes wf: "rm_wf t" and room: "rm_size t + 1 < length (rm_slots t)"
    and i: "i < length (rm_slots t)" "\<not> occ (rm_slots t) i"
    and path: "\<forall>c < cdist (length (rm_slots t)) (home (rm_mask t) r) i.
         occ (rm_slots t) ((home (rm_mask t) r + c) mod length (rm_slots t))"
    and fresh: "\<forall>p. occ (rm_slots t) p \<longrightarrow> s_ref (rm_slots t ! p) \<noteq> r"
    and t': "t' = t\<lparr> rm_slots := (rm_slots t)[i := \<lparr> s_ref = r, s_ptr = Some v \<rparr>],
                    rm_size := rm_size t + 1 \<rparr>"
  shows "rm_wf t' \<and> rm_find t' = (rm_find t)(r \<mapsto> v)"
proof -
  let ?ss = "rm_slots t" and ?ss' = "rm_slots t'"
  note wfD = rm_wf_D [OF wf]
  have len: "length ?ss' = length ?ss" and msk: "rm_mask t' = rm_mask t"
    by (simp_all add: t')
  have occ': "occ ?ss' p \<longleftrightarrow> p = i \<or> occ ?ss p" for p
    using i by (auto simp: t' occ_update)
  have nth': "?ss' ! p = (if p = i then \<lparr> s_ref = r, s_ptr = Some v \<rparr> else ?ss ! p)" for p
    using i by (simp add: t')
  have "chained ?ss' (rm_mask t')"
    using wfD(2) path i(2) by (auto simp: chained_def occ' nth' len msk)
  moreover have "distinct_refs ?ss'"
    using wfD(3) fresh i(2) by (auto simp: distinct_refs_def occ' nth')
  moreover have "{p. occ ?ss' p} = insert i {p. occ ?ss p}"
    by (auto simp: occ')
  then have "rm_size t' = card {p. occ ?ss' p}"
    using wfD(4) i(2) by (simp add: t')
  ultimately have wf': "rm_wf t'"
    using wfD(1) room by (simp add: rm_wf_def t')
  have "rm_find t' x = ((rm_find t)(r \<mapsto> v)) x" for x
  proof (rule rm_find_eqI [OF wf'])
    fix w
    have "entry ?ss' x w \<longleftrightarrow> (if x = r then w = v else entry ?ss x w)"
    proof (cases "x = r")
      case True
      have "entry ?ss' x w \<Longrightarrow> w = v"
        using fresh True by (auto simp: entry_index nth' len occ_def split: if_splits)
      moreover have "entry ?ss' x v"
        using i(1) True unfolding entry_index by (intro exI [of _ i]) (simp add: nth' len)
      ultimately show ?thesis using True by auto
    next
      case False
      then show ?thesis
        using i(2) unfolding entry_index
        by (auto simp: nth' len occ_def split: if_splits) (metis option.distinct(1))
    qed
    then show "entry ?ss' x w \<longleftrightarrow> ((rm_find t)(r \<mapsto> v)) x = Some w"
      using rm_find_iff [OF wf] by auto
  qed
  with wf' show ?thesis by blast
qed

lemma rm_put_spec:
  assumes wf: "rm_wf t" and room: "rm_size t + 1 < length (rm_slots t)"
  shows "rm_wf (rm_put r v t)" "rm_find (rm_put r v t) = (rm_find t)(r \<mapsto> v)"
    "rm_size (rm_put r v t) = (if rm_find t r = None then rm_size t + 1 else rm_size t)"
    "length (rm_slots (rm_put r v t)) = length (rm_slots t)"
proof -
  have "(rm_wf (rm_put r v t) \<and> rm_find (rm_put r v t) = (rm_find t)(r \<mapsto> v)) \<and>
    rm_size (rm_put r v t) = (if rm_find t r = None then rm_size t + 1 else rm_size t) \<and>
    length (rm_slots (rm_put r v t)) = length (rm_slots t)"
  using wf
proof (cases rule: probe_cases [where r = r])
    case (found i)
    then have "rm_find t r \<noteq> None"
      by (simp add: rm_find_def rm_find_index_def occ_def)
    with found rm_put_overwrite [OF wf found(2,3) refl, of v] show ?thesis
      by (simp add: rm_put_def)
  next
    case (vacant i)
    then have "rm_find t r = None"
      by (simp add: rm_find_def rm_find_index_def)
    with vacant rm_put_fresh [OF wf room vacant(2,3,4,5) refl, of v] show ?thesis
      by (simp add: rm_put_def)
  qed
  then show "rm_wf (rm_put r v t)" "rm_find (rm_put r v t) = (rm_find t)(r \<mapsto> v)"
    "rm_size (rm_put r v t) = (if rm_find t r = None then rm_size t + 1 else rm_size t)"
    "length (rm_slots (rm_put r v t)) = length (rm_slots t)"
    by blast+
qed

section \<open>Growth\<close>

lemma cap_from_pow2: "0 < cap \<Longrightarrow> cap = 2 ^ k \<Longrightarrow> \<exists>j. cap_from cap capacity = 2 ^ j"
proof (induction cap capacity arbitrary: k rule: cap_from.induct)
  case (1 cap capacity)
  show ?case
  proof (cases "cap < capacity")
    case True
    with 1(1) [of "Suc k"] 1(2,3) obtain j where "cap_from (2 * cap) capacity = 2 ^ j" by auto
    with True 1(2) show ?thesis by (subst cap_from.simps) auto
  next
    case False
    with 1(3) show ?thesis by (subst cap_from.simps) auto
  qed
qed

lemma cap_from_ge: "0 < cap \<Longrightarrow> cap \<le> cap_from cap capacity \<and> capacity \<le> cap_from cap capacity"
proof (induction cap capacity rule: cap_from.induct)
  case (1 cap capacity)
  show ?case
  proof (cases "cap < capacity")
    case True
    with 1 have "2 * cap \<le> cap_from (2 * cap) capacity \<and> capacity \<le> cap_from (2 * cap) capacity"
      by simp
    with True 1(2) cap_from.simps [of cap capacity] show ?thesis by simp
  next
    case False
    then show ?thesis using cap_from.simps [of cap capacity] by simp
  qed
qed

lemma occ_empty_slots [simp]: "\<not> occ (replicate n empty_slot) p"
  by (auto simp: occ_def empty_slot_def)

lemma rm_cleared_wf:
  assumes "n = 2 ^ k"
  shows "rm_wf (rm_cleared n)" "rm_find (rm_cleared n) r = None" "rm_size (rm_cleared n) = 0"
    "length (rm_slots (rm_cleared n)) = n"
proof -
  show wf: "rm_wf (rm_cleared n)"
    using assms by (auto simp: rm_wf_def rm_cleared_def geom_def chained_def distinct_refs_def)
  show "rm_find (rm_cleared n) r = None"
    by (rule rm_find_eqI [OF wf]) (auto simp: rm_cleared_def entry_def empty_slot_def)
qed (simp_all add: rm_cleared_def)

lemma cap_from_16: "\<exists>j. cap_from 16 capacity = 2 ^ j"
proof -
  have "0 < (16 :: nat)" "(16 :: nat) = 2 ^ 4" by simp_all
  then show ?thesis using cap_from_pow2 by blast
qed

lemma rm_new_inv [simp]: "rm_inv (rm_new capacity)"
  using cap_from_16 [of capacity]
  by (auto simp: rm_inv_def rm_new_def rm_cleared_wf(1) [OF refl] rm_cleared_wf(3,4) [OF refl])

lemma rm_find_new [simp]: "rm_find (rm_new capacity) r = None"
  using cap_from_16 [of capacity] by (auto simp: rm_new_def rm_cleared_wf(2) [OF refl])

definition occupied :: "'p slot list \<Rightarrow> nat" where
  "occupied ss = length (filter (\<lambda>s. s_ptr s \<noteq> None) ss)"

lemma card_occ: "card {p. occ ss p} = occupied ss"
  unfolding occupied_def occ_def length_filter_conv_card ..

lemma occupied_le: "occupied ss \<le> length ss"
  by (simp add: occupied_def)

definition overlay :: "'p slot \<Rightarrow> (u64 \<Rightarrow> 'p option) \<Rightarrow> u64 \<Rightarrow> 'p option" where
  "overlay s m = (case s_ptr s of None \<Rightarrow> m | Some v \<Rightarrow> m(s_ref s \<mapsto> v))"

text \<open>
  Growing inserts the old entries one by one. The guard of the code's \<open>insert\<close> is false at every one
  of these insertions, so a growth never grows again (the premise of the induction below).
\<close>

lemma put_slots_spec:
  assumes "rm_wf t" and "(rm_size t + occupied ss) * 2 \<le> length (rm_slots t)"
  shows "rm_wf (fold put_slot ss t) \<and> rm_find (fold put_slot ss t) = fold overlay ss (rm_find t) \<and>
    rm_size (fold put_slot ss t) \<le> rm_size t + occupied ss \<and>
    length (rm_slots (fold put_slot ss t)) = length (rm_slots t)"
  using assms
proof (induction ss arbitrary: t)
  case Nil
  then show ?case by (simp add: occupied_def)
next
  case (Cons s ss)
  show ?case
  proof (cases "s_ptr s")
    case None
    then show ?thesis
      using Cons by (auto simp: put_slot_def occupied_def overlay_def)
  next
    case (Some v)
    let ?t = "rm_put (s_ref s) v t"
    have room: "rm_size t + 1 < length (rm_slots t)" "\<not> rm_full t"
      using Cons.prems Some rm_wf_D(5) [OF Cons.prems(1)]
      by (auto simp: occupied_def rm_full_def)
    note put = rm_put_spec [OF Cons.prems(1) room(1), of "s_ref s" v]
    have sz: "rm_size ?t \<le> rm_size t + 1" using put(3) by simp
    have "(rm_size ?t + occupied ss) * 2 \<le> length (rm_slots ?t)"
      using Cons.prems(2) Some put(4) sz by (simp add: occupied_def)
    note IH = Cons.IH [OF put(1) this]
    have "occupied (s # ss) = Suc (occupied ss)" "put_slot s t = ?t"
        "overlay s (rm_find t) = rm_find ?t"
      using Some put(2) by (simp_all add: put_slot_def occupied_def overlay_def)
    with IH sz put(4) show ?thesis by simp
  qed
qed

lemma fold_overlay_other:
  "\<forall>s \<in> set ss. s_ptr s \<noteq> None \<longrightarrow> s_ref s \<noteq> r \<Longrightarrow> fold overlay ss m r = m r"
  by (induction ss arbitrary: m) (auto simp: overlay_def split: option.splits)

lemma fold_overlay:
  assumes "distinct_refs ss" and "m r = None"
  shows "fold overlay ss m r = Some v \<longleftrightarrow> entry ss r v"
proof (cases "\<forall>s \<in> set ss. s_ptr s \<noteq> None \<longrightarrow> s_ref s \<noteq> r")
  case True
  then show ?thesis using assms(2) fold_overlay_other [OF True] by (auto simp: entry_def)
next
  case False
  then obtain s w xs ys where s: "s_ref s = r" "s_ptr s = Some w" and ss: "ss = xs @ s # ys"
    by (metis not_None_eq split_list)
  have eq: "t = s" if t: "t \<in> set ss" "s_ref t = r" "s_ptr t \<noteq> None" for t
  proof -
    obtain p where p: "p < length ss" "ss ! p = t" using t(1) by (metis in_set_conv_nth)
    have "ss ! length xs = s" "length xs < length ss" by (simp_all add: ss)
    with p t s assms(1) have "p = length xs"
      unfolding distinct_refs_def occ_def by (metis option.distinct(1))
    with p show ?thesis by (simp add: ss)
  qed
  have "s_ref t \<noteq> r" if t: "t \<in> set ys" "s_ptr t \<noteq> None" for t
  proof
    assume "s_ref t = r"
    obtain j where j: "j < length ys" "ys ! j = t" using t(1) by (metis in_set_conv_nth)
    then have "ss ! (length xs + Suc j) = t" "length xs + Suc j < length ss"
      by (simp_all add: ss nth_append)
    moreover have "ss ! length xs = s" "length xs < length ss" by (simp_all add: ss)
    ultimately have "length xs + Suc j = length xs"
      using assms(1) s t \<open>s_ref t = r\<close> unfolding distinct_refs_def occ_def
      by (metis option.distinct(1))
    then show False by simp
  qed
  then have "fold overlay ss m r = Some w"
    using s fold_overlay_other [of ys r] by (simp add: ss overlay_def)
  moreover have "entry ss r v \<longleftrightarrow> v = w"
    using eq s ss unfolding entry_def by (metis in_set_conv_decomp option.distinct(1) option.inject)
  ultimately show ?thesis by auto
qed

lemma rm_grow_spec:
  fixes t :: "'p refmap"
  assumes "rm_wf t"
  shows "rm_wf (rm_grow t)" "rm_find (rm_grow t) = rm_find t" "rm_size (rm_grow t) \<le> rm_size t"
    "length (rm_slots (rm_grow t)) = 2 * length (rm_slots t)"
proof -
  note wf = rm_wf_D [OF assms]
  let ?t0 = "rm_cleared (length (rm_slots t) * 2) :: 'p refmap"
  obtain k where "length (rm_slots t) * 2 = 2 ^ k"
    using wf(1) by (metis geom_def power_Suc2)
  then have clear: "rm_wf ?t0" "\<And>r. rm_find ?t0 r = None" "rm_size ?t0 = 0"
      "length (rm_slots ?t0) = length (rm_slots t) * 2"
    using rm_cleared_wf by metis+
  have "(rm_size ?t0 + occupied (rm_slots t)) * 2 \<le> length (rm_slots ?t0)"
    using clear(3,4) occupied_le [of "rm_slots t"] by simp
  note all = put_slots_spec [OF clear(1) this, folded rm_grow_def]
  show "rm_wf (rm_grow t)" "length (rm_slots (rm_grow t)) = 2 * length (rm_slots t)"
    using all clear by auto
  show "rm_size (rm_grow t) \<le> rm_size t"
    using all clear wf(4) by (simp add: card_occ)
  show "rm_find (rm_grow t) = rm_find t"
  proof
    fix r
    have "fold overlay (rm_slots t) (rm_find ?t0) r = rm_find t r"
      using fold_overlay [OF wf(3), of "rm_find ?t0" r, OF clear(2)] rm_find_iff [OF assms, of r]
      by (metis not_Some_eq)
    then show "rm_find (rm_grow t) r = rm_find t r" using all by simp
  qed
qed

lemma rm_insert_spec:
  assumes "rm_inv t"
  shows "rm_inv (rm_insert r v t)" "rm_find (rm_insert r v t) = (rm_find t)(r \<mapsto> v)"
proof -
  let ?t = "if rm_full t then rm_grow t else t"
  have wf: "rm_wf t" "2 * rm_size t \<le> length (rm_slots t)"
    using assms by (simp_all add: rm_inv_def)
  have "rm_size (rm_grow t) + 1 \<le> length (rm_slots t)"
    using rm_grow_spec(3) [OF wf(1)] rm_wf_D(5) [OF wf(1)] by linarith
  then have "2 * (rm_size ?t + 1) \<le> length (rm_slots ?t)"
    using rm_grow_spec(4) [OF wf(1)] by (cases "rm_full t") (auto simp: rm_full_def)
  then have t: "rm_wf ?t" "rm_find ?t = rm_find t" "2 * (rm_size ?t + 1) \<le> length (rm_slots ?t)"
    using rm_grow_spec [OF wf(1)] wf by simp_all
  have "\<And>a n. 2 * (a + 1) \<le> n \<Longrightarrow> a + 1 < (n :: nat)" by simp
  from this [OF t(3)] have "rm_size ?t + 1 < length (rm_slots ?t)" .
  note put = rm_put_spec [OF t(1) this, of r v]
  show "rm_inv (rm_insert r v t)"
    using put t(3) by (simp add: rm_inv_def rm_insert_def)
  show "rm_find (rm_insert r v t) = (rm_find t)(r \<mapsto> v)"
    using put t(2) by (simp add: rm_insert_def)
qed

section \<open>Deletion by backward shift\<close>

text \<open>\<open>on_path n h p q\<close>: slot \<open>q\<close> lies on the probe path from \<open>h\<close> to \<open>p\<close>, before \<open>p\<close>.\<close>

definition on_path :: "nat \<Rightarrow> nat \<Rightarrow> nat \<Rightarrow> nat \<Rightarrow> bool" where
  "on_path n h p q \<longleftrightarrow> q < n \<and> cdist n h q < cdist n h p"

text \<open>\<open>beyond n i j q\<close>: slot \<open>q\<close> lies after \<open>i\<close>, up to and including \<open>j\<close>.\<close>

definition beyond :: "nat \<Rightarrow> nat \<Rightarrow> nat \<Rightarrow> nat \<Rightarrow> bool" where
  "beyond n i j q \<longleftrightarrow> q < n \<and> 0 < cdist n i q \<and> cdist n i q \<le> cdist n i j"

lemma chained_path:
  assumes "geom ss m"
  shows "chained ss m \<longleftrightarrow>
    (\<forall>p q. occ ss p \<longrightarrow> on_path (length ss) (home m (s_ref (ss ! p))) p q \<longrightarrow> occ ss q)"
proof -
  let ?n = "length ss"
  have "(\<forall>c < cdist ?n h p. occ ss ((h + c) mod ?n)) \<longleftrightarrow> (\<forall>q. on_path ?n h p q \<longrightarrow> occ ss q)"
    if "h < ?n" "p < ?n" for h p
  proof -
    have lt: "c < ?n" if "c < cdist ?n h p" for c
      using that cdist_less [OF \<open>h < ?n\<close> \<open>p < ?n\<close>] by simp
    show ?thesis
      unfolding on_path_def
      using cdist_step [OF \<open>h < ?n\<close>] step_cdist [OF \<open>h < ?n\<close>] lt geom_pos [OF assms]
      by (metis mod_less_divisor)
  qed
  then show ?thesis
    unfolding chained_def using geom_home [OF assms] occ_less by blast
qed

text \<open>
  The state of the shift: \<open>i\<close> is the hole, the slots after it up to \<open>j\<close> have been scanned and are
  occupied, and only entries that have not been scanned yet may have the hole on their path. \<open>w\<close> is
  a slot that stays vacant, where the scan ends.
\<close>

definition shift_inv :: "'p slot list \<Rightarrow> nat \<Rightarrow> nat \<Rightarrow> nat \<Rightarrow> nat \<Rightarrow> bool" where
  "shift_inv ss m i j w \<longleftrightarrow>
     geom ss m \<and> i < length ss \<and> j < length ss \<and> \<not> occ ss i \<and>
     w < length ss \<and> \<not> occ ss w \<and> w \<noteq> i \<and>
     (\<forall>q. beyond (length ss) i j q \<longrightarrow> occ ss q) \<and>
     (\<forall>p q. occ ss p \<longrightarrow> on_path (length ss) (home m (s_ref (ss ! p))) p q \<longrightarrow>
        occ ss q \<or> q = i \<and> \<not> beyond (length ss) i j p)"

lemma shift_inv_next:
  assumes "shift_inv ss m i j w"
  defines "j' \<equiv> Suc j mod length ss"
  shows "j' < length ss" "j' \<noteq> i" "j \<noteq> w" "cdist (length ss) j w = Suc (cdist (length ss) j' w)"
    "cdist (length ss) i j' = Suc (cdist (length ss) i j)"
proof -
  let ?n = "length ss"
  have b: "i < ?n" "j < ?n" "w < ?n" "\<not> occ ss w" "w \<noteq> i" "\<forall>q. beyond ?n i j q \<longrightarrow> occ ss q"
    using assms(1) by (simp_all add: shift_inv_def)
  have not_w: "\<not> beyond ?n i j w" using b by blast
  have iw: "0 < cdist ?n i w" "cdist ?n i w < ?n"
    using cdist_eq_0 [OF b(1,3)] cdist_less [OF b(1,3)] b(5) by auto
  have "0 < ?n" using b(1) by linarith
  then show j': "j' < ?n" unfolding j'_def by (rule mod_less_divisor)
  show "j' \<noteq> i"
    using cdist_next_wrap [OF b(1,2)] not_w iw b(3) unfolding j'_def beyond_def by force
  show jw: "j \<noteq> w" using not_w iw b(3) by (auto simp: beyond_def)
  show "cdist ?n i j' = Suc (cdist ?n i j)"
    using cdist_next [OF b(1,2)] \<open>j' \<noteq> i\<close> unfolding j'_def by simp
  show "cdist ?n j w = Suc (cdist ?n j' w)"
    using b(2,3) jw unfolding j'_def by (cases "Suc j = ?n") (auto simp: cdist_def)
qed

lemma on_path_not_wrap:
  assumes "h < n" "p < n" "i < n" "v < n" "on_path n h p i" "cdist n i v < cdist n i p" "v \<noteq> i"
  shows "on_path n h p v"
  using assms by (auto simp: on_path_def cdist_def split: if_splits)

lemma shift_done:
  assumes inv: "shift_inv ss m i j w" and stop: "\<not> occ ss (Suc j mod length ss)"
  shows "chained ss m"
proof -
  let ?n = "length ss" and ?j = "Suc j mod length ss"
  note nxt = shift_inv_next [OF inv]
  have g: "geom ss m" and i: "i < ?n" "\<not> occ ss i"
    and path: "\<And>p q. occ ss p \<Longrightarrow> on_path ?n (home m (s_ref (ss ! p))) p q \<Longrightarrow>
        occ ss q \<or> q = i \<and> \<not> beyond ?n i j p"
    using inv by (auto simp: shift_inv_def)
  have "occ ss q" if p: "occ ss p" and q: "on_path ?n (home m (s_ref (ss ! p))) p q" for p q
  proof (rule ccontr)
    assume "\<not> occ ss q"
    with path [OF p q] have qi: "q = i" "\<not> beyond ?n i j p" by auto
    have pn: "p < ?n" "p \<noteq> i" "p \<noteq> ?j" using p i(2) stop by (auto simp: occ_def)
    have "cdist ?n i p \<noteq> cdist ?n i ?j"
      using pn nxt(1) i(1) step_cdist by metis
    moreover have "0 < cdist ?n i p" using cdist_eq_0 [OF i(1) pn(1)] pn(2) by auto
    ultimately have "cdist ?n i ?j < cdist ?n i p"
      using qi(2) nxt(5) pn(1) by (auto simp: beyond_def)
    then have jpath: "on_path ?n (home m (s_ref (ss ! p))) p ?j"
      using on_path_not_wrap [OF geom_home [OF g] pn(1) i(1) nxt(1)] q qi nxt(2) by metis
    from path [OF p jpath] stop nxt(2) show False by simp
  qed
  then show ?thesis using chained_path [OF g] by blast
qed

lemma shift_keep:
  assumes inv: "shift_inv ss m i j w" and j': "j' = Suc j mod length ss" and "occ ss j'"
    and stay: "\<not> movable i j' (home m (s_ref (ss ! j')))"
  shows "shift_inv ss m i j' w"
proof -
  let ?n = "length ss" and ?k = "home m (s_ref (ss ! j'))"
  note nxt = shift_inv_next [OF inv, folded j']
  have g: "geom ss m" and i: "i < ?n" "\<not> occ ss i" using inv by (auto simp: shift_inv_def)
  have k: "?k < ?n" using geom_home [OF g] .
  have btw: "0 < cdist ?n i ?k" "cdist ?n i ?k \<le> cdist ?n i j'"
    using stay movable_cdist [OF i(1) nxt(1) k] nxt(2) by auto
  have new: "beyond ?n i j' q \<longleftrightarrow> beyond ?n i j q \<or> q = j'" for q
    using nxt(5) step_cdist [OF i(1), of q] step_cdist [OF i(1) nxt(1)] nxt(1)
    by (auto simp: beyond_def le_Suc_eq)
  have off: "\<not> on_path ?n ?k j' i"
    using i(1) nxt(1) k btw by (auto simp: on_path_def cdist_def split: if_splits)
  from inv assms(3) nxt(1) off show ?thesis
    unfolding shift_inv_def new by blast
qed

definition moved :: "'p slot list \<Rightarrow> nat \<Rightarrow> nat \<Rightarrow> 'p slot list" where
  "moved ss i j = ss[i := ss ! j, j := (ss ! j)\<lparr> s_ptr := None \<rparr>]"

lemma length_moved [simp]: "length (moved ss i j) = length ss"
  by (simp add: moved_def)

lemma moved_nth:
  "i < length ss \<Longrightarrow> j < length ss \<Longrightarrow>
     moved ss i j ! q = (if q = j then (ss ! j)\<lparr> s_ptr := None \<rparr> else if q = i then ss ! j else ss ! q)"
  by (simp add: moved_def nth_list_update)

lemma moved_occ:
  "i < length ss \<Longrightarrow> occ ss j \<Longrightarrow> occ (moved ss i j) q \<longleftrightarrow> q \<noteq> j \<and> (q = i \<or> occ ss q)"
  by (auto simp: occ_def moved_nth)

lemma moved_same:
  assumes i: "i < length ss" "\<not> occ ss i" and j: "occ ss j"
  shows "distinct_refs (moved ss i j) = distinct_refs ss" "entry (moved ss i j) = entry ss"
    "card {p. occ (moved ss i j) p} = card {p. occ ss p}"
proof -
  have jn: "j < length ss" "i \<noteq> j" using i j by (auto simp: occ_def)
  note nth = moved_nth [OF i(1) jn(1)] and oc = moved_occ [OF i(1) j]
  show "distinct_refs (moved ss i j) = distinct_refs ss"
  proof
    assume d: "distinct_refs (moved ss i j)"
    have "s_ref (ss ! p) = s_ref (ss ! q) \<Longrightarrow> occ ss p \<Longrightarrow> occ ss q \<Longrightarrow> p = q" for p q
    proof -
      assume a: "s_ref (ss ! p) = s_ref (ss ! q)" "occ ss p" "occ ss q"
      let ?f = "\<lambda>x. if x = j then i else x"
      have "occ (moved ss i j) (?f p)" "occ (moved ss i j) (?f q)"
          "s_ref (moved ss i j ! ?f p) = s_ref (moved ss i j ! ?f q)"
        using a i(2) jn(2) by (auto simp: oc nth)
      with d have "?f p = ?f q" unfolding distinct_refs_def by blast
      with a i(2) show "p = q" by (auto split: if_splits)
    qed
    then show "distinct_refs ss" by (auto simp: distinct_refs_def)
  next
    assume "distinct_refs ss"
    then show "distinct_refs (moved ss i j)"
      using i(2) j by (auto simp: distinct_refs_def oc nth)
  qed
  show "entry (moved ss i j) = entry ss"
  proof (intro ext)
    fix r v
    have "entry (moved ss i j) r v \<longleftrightarrow>
        (\<exists>p. occ (moved ss i j) p \<and> s_ref (moved ss i j ! p) = r \<and> s_ptr (moved ss i j ! p) = Some v)"
      by (auto simp: entry_index occ_def)
    also have "\<dots> \<longleftrightarrow> (\<exists>p. occ ss p \<and> s_ref (ss ! p) = r \<and> s_ptr (ss ! p) = Some v)"
    proof
      assume "\<exists>p. occ ss p \<and> s_ref (ss ! p) = r \<and> s_ptr (ss ! p) = Some v"
      then obtain p where "occ ss p" "s_ref (ss ! p) = r" "s_ptr (ss ! p) = Some v" by blast
      with i(2) jn(2) show "\<exists>p. occ (moved ss i j) p \<and> s_ref (moved ss i j ! p) = r \<and>
          s_ptr (moved ss i j ! p) = Some v"
        by (intro exI [of _ "if p = j then i else p"]) (auto simp: oc nth)
    qed (use i(2) j jn(2) in \<open>auto simp: oc nth split: if_splits\<close>)
    also have "\<dots> \<longleftrightarrow> entry ss r v"
      by (auto simp: entry_index occ_def)
    finally show "entry (moved ss i j) r v = entry ss r v" .
  qed
  have "{p. occ (moved ss i j) p} = insert i ({p. occ ss p} - {j})"
    using jn by (auto simp: oc)
  then show "card {p. occ (moved ss i j) p} = card {p. occ ss p}"
    using i(2) j card_Suc_Diff1 [of "{p. occ ss p}" j] by simp
qed

lemma shift_move:
  assumes inv: "shift_inv ss m i j w" and j': "j' = Suc j mod length ss" and occ: "occ ss j'"
    and go: "movable i j' (home m (s_ref (ss ! j')))"
  shows "shift_inv (moved ss i j') m j' j' w"
proof -
  let ?n = "length ss" and ?k = "home m (s_ref (ss ! j'))"
  note nxt = shift_inv_next [OF inv, folded j']
  have g: "geom ss m" and i: "i < ?n" "\<not> occ ss i" and w: "w < ?n" "\<not> occ ss w" "w \<noteq> i"
    and path: "\<And>p q. occ ss p \<Longrightarrow> on_path ?n (home m (s_ref (ss ! p))) p q \<Longrightarrow> occ ss q \<or> q = i"
    using inv by (auto simp: shift_inv_def)
  have k: "?k < ?n" using geom_home [OF g] .
  note nth = moved_nth [OF i(1) nxt(1)] and oc = moved_occ [OF i(1) occ]
  have far: "\<not> (0 < cdist ?n i ?k \<and> cdist ?n i ?k \<le> cdist ?n i j')"
    using go movable_cdist [OF i(1) nxt(1) k] nxt(2) by auto
  have "on_path ?n ?k j' q" if "on_path ?n ?k i q" for q
    using that far i(1) nxt(1,2) k by (auto simp: on_path_def cdist_def split: if_splits)
  then have "occ (moved ss i j') q \<or> q = j'"
    if p: "occ (moved ss i j') p" and "on_path ?n (home m (s_ref (moved ss i j' ! p))) p q" for p q
    using that path [of p q] path [OF occ, of q] by (auto simp: oc nth split: if_splits)
  moreover have "geom (moved ss i j') m" using g by (simp add: moved_def)
  moreover have "w \<noteq> j'" using occ w(2) by auto
  ultimately show ?thesis
    using nxt(1) w unfolding shift_inv_def by (auto simp: oc beyond_def)
qed

lemma shift_back_spec:
  assumes "shift_inv ss m i j w" and "cdist (length ss) j w \<le> fuel" and "distinct_refs ss"
  shows "chained (shift_back fuel m ss i j) m \<and> distinct_refs (shift_back fuel m ss i j) \<and>
    entry (shift_back fuel m ss i j) = entry ss \<and>
    length (shift_back fuel m ss i j) = length ss \<and>
    card {p. occ (shift_back fuel m ss i j) p} = card {p. occ ss p}"
  using assms
proof (induction fuel arbitrary: ss i j)
  case 0
  then show ?case using shift_inv_next(4) [OF 0(1)] by simp
next
  case (Suc fuel)
  let ?j = "Suc j mod length ss"
  have g: "geom ss m" using Suc.prems(1) by (simp add: shift_inv_def)
  have i: "i < length ss" "\<not> occ ss i" using Suc.prems(1) by (simp_all add: shift_inv_def)
  have and_j: "Suc j AND m = ?j" using geom_and [OF g] by simp
  note nxt = shift_inv_next [OF Suc.prems(1)]
  have fuel: "cdist (length ss) ?j w \<le> fuel" using nxt(4) Suc.prems(2) by simp
  show ?case
  proof (cases "occ ss ?j")
    case False
    then have "shift_back (Suc fuel) m ss i j = ss"
      using nxt(1) by (auto simp: and_j occ_def Let_def)
    with shift_done [OF Suc.prems(1) False] Suc.prems(3) show ?thesis by simp
  next
    case occ: True
    show ?thesis
    proof (cases "movable i ?j (home m (s_ref (ss ! ?j)))")
      case True
      note same = moved_same [OF i occ]
      have "shift_back (Suc fuel) m ss i j = shift_back fuel m (moved ss i ?j) ?j ?j"
        using occ True by (auto simp: and_j occ_def moved_def Let_def)
      with Suc.IH [OF shift_move [OF Suc.prems(1) refl occ True]] fuel Suc.prems(3) same
      show ?thesis by simp
    next
      case False
      have "shift_back (Suc fuel) m ss i j = shift_back fuel m ss i ?j"
        using occ False by (auto simp: and_j occ_def Let_def)
      with Suc.IH [OF shift_keep [OF Suc.prems(1) refl occ False] fuel Suc.prems(3)]
      show ?thesis by simp
    qed
  qed
qed

lemma erase_start:
  assumes inv: "rm_inv t" and i: "occ (rm_slots t) i"
  shows "\<exists>w. shift_inv ((rm_slots t)[i := (rm_slots t ! i)\<lparr> s_ptr := None \<rparr>]) (rm_mask t) i i w"
proof -
  let ?ss = "rm_slots t" and ?ss' = "(rm_slots t)[i := (rm_slots t ! i)\<lparr> s_ptr := None \<rparr>]"
  have wf: "rm_wf t" using inv by (simp add: rm_inv_def)
  note wfD = rm_wf_D [OF wf]
  have i_n: "i < length ?ss" using i by blast
  have occ': "occ ?ss' p \<longleftrightarrow> p \<noteq> i \<and> occ ?ss p" for p
    using i_n by (auto simp: occ_update)
  obtain w where w: "w < length ?ss" "\<not> occ ?ss w"
    using vacancy wfD(4,5) by metis
  have "shift_inv ?ss' (rm_mask t) i i w"
    unfolding shift_inv_def
    using wfD(2) [unfolded chained_path [OF wfD(1)]] wfD(1) i i_n w
    by (auto simp: occ' beyond_def)
  then show ?thesis ..
qed

lemma rm_erase_at_spec:
  assumes inv: "rm_inv t" and i: "rm_find_index t r = Some i"
  shows "rm_inv (rm_erase_at i t)" "rm_find (rm_erase_at i t) = (rm_find t)(r := None)"
    "length (rm_slots (rm_erase_at i t)) = length (rm_slots t)"
    "rm_size (rm_erase_at i t) = rm_size t - 1"
proof -
  let ?ss = "rm_slots t" and ?ss' = "(rm_slots t)[i := (rm_slots t ! i)\<lparr> s_ptr := None \<rparr>]"
    and ?t' = "rm_erase_at i t"
  have wf: "rm_wf t" and load: "2 * rm_size t \<le> length ?ss"
    using inv by (simp_all add: rm_inv_def)
  note wfD = rm_wf_D [OF wf]
  have at: "occ ?ss i" "s_ref (?ss ! i) = r" using i find_index_iff [OF wf] by auto
  then have i_n: "i < length ?ss" by blast
  have occ': "occ ?ss' p \<longleftrightarrow> p \<noteq> i \<and> occ ?ss p" for p
    using i_n by (auto simp: occ_update)
  have d: "distinct_refs ?ss'"
    using wfD(3) i_n by (auto simp: distinct_refs_def occ' nth_list_update)
  obtain w where w: "shift_inv ?ss' (rm_mask t) i i w"
    using erase_start [OF inv at(1)] by blast
  have "cdist (length ?ss') i w \<le> length ?ss"
    using w cdist_less [of i "length ?ss" w] by (simp add: shift_inv_def less_imp_le)
  note end' = shift_back_spec [OF w this d]
  have ss: "rm_slots ?t' = shift_back (length ?ss) (rm_mask t) ?ss' i i"
    by (simp add: rm_erase_at_def)
  have len: "length (rm_slots ?t') = length ?ss"
    using end' by (simp add: ss)
  have "{p. occ ?ss' p} = {p. occ ?ss p} - {i}" by (auto simp: occ')
  then have card: "card {p. occ ?ss' p} = rm_size t - 1"
    using wfD(4) at(1) by simp
  then have sz: "rm_size ?t' = card {p. occ (rm_slots ?t') p}"
    using end' by (simp add: ss rm_erase_at_def)
  have wf': "rm_wf ?t'"
    unfolding rm_wf_def
    using end' wfD(1,5) sz len by (simp add: ss geom_def) (simp add: rm_erase_at_def)
  then show "rm_inv ?t'" using load len by (simp add: rm_inv_def rm_erase_at_def)
  show "length (rm_slots ?t') = length ?ss" "rm_size ?t' = rm_size t - 1"
    using len by (simp_all add: rm_erase_at_def)
  show "rm_find ?t' = (rm_find t)(r := None)"
  proof
    fix x
    have ent: "entry ?ss' x v \<longleftrightarrow> x \<noteq> r \<and> entry ?ss x v" for v
      using wfD(3) at i_n
      by (auto simp: entry_index nth_list_update distinct_refs_def occ_def split: if_splits)
    show "rm_find ?t' x = ((rm_find t)(r := None)) x"
      by (rule rm_find_eqI [OF wf'])
        (use end' rm_find_iff [OF wf] in \<open>auto simp: ss ent\<close>)
  qed
qed

lemma rm_erase_spec:
  assumes "rm_inv t"
  shows "fst (rm_erase r t) \<longleftrightarrow> rm_find t r \<noteq> None" "rm_inv (snd (rm_erase r t))"
    "rm_find (snd (rm_erase r t)) = (rm_find t)(r := None)"
proof -
  have wf: "rm_wf t" using assms by (simp add: rm_inv_def)
  have "(fst (rm_erase r t) \<longleftrightarrow> rm_find t r \<noteq> None) \<and> rm_inv (snd (rm_erase r t)) \<and>
      rm_find (snd (rm_erase r t)) = (rm_find t)(r := None)"
  proof (cases "rm_find_index t r")
    case None
    then have "rm_find t r = None" by (simp add: rm_find_def)
    then have "(rm_find t)(r := None) = rm_find t" by auto
    with None assms \<open>rm_find t r = None\<close> show ?thesis by (simp add: rm_erase_def)
  next
    case (Some i)
    then have "rm_find t r \<noteq> None"
      using find_index_iff [OF wf, of r i] by (simp add: rm_find_def occ_def)
    with Some rm_erase_at_spec [OF assms Some] show ?thesis by (simp add: rm_erase_def)
  qed
  then show "fst (rm_erase r t) \<longleftrightarrow> rm_find t r \<noteq> None" "rm_inv (snd (rm_erase r t))"
    "rm_find (snd (rm_erase r t)) = (rm_find t)(r := None)"
    by blast+
qed

section \<open>The interface\<close>

locale ref_table =
  fixes inv :: "'t \<Rightarrow> bool"
    and lookup :: "'t \<Rightarrow> u64 \<Rightarrow> 'p option"
    and add :: "u64 \<Rightarrow> 'p \<Rightarrow> 't \<Rightarrow> 't"
    and del :: "u64 \<Rightarrow> 't \<Rightarrow> 't"
  assumes inv_add: "inv t \<Longrightarrow> inv (add r p t)"
    and inv_del: "inv t \<Longrightarrow> inv (del r t)"
    and lookup_add: "inv t \<Longrightarrow> lookup (add r p t) = (lookup t)(r \<mapsto> p)"
    and lookup_del: "inv t \<Longrightarrow> lookup (del r t) = (lookup t)(r := None)"
begin

lemma lookup_add_other: "inv t \<Longrightarrow> r \<noteq> r' \<Longrightarrow> lookup (add r p t) r' = lookup t r'"
  by (simp add: lookup_add)

lemma del_add_fresh: "inv t \<Longrightarrow> lookup t r = None \<Longrightarrow> lookup (del r (add r p t)) = lookup t"
  by (auto simp: lookup_add lookup_del inv_add)

lemma add_all_spec:
  "inv t \<Longrightarrow> inv (fold (\<lambda>(r, p). add r p) xs t) \<and>
     lookup (fold (\<lambda>(r, p). add r p) xs t) = lookup t ++ map_of (rev xs)"
  by (induction xs arbitrary: t) (auto simp: inv_add lookup_add map_add_def split: option.splits)

lemma del_all_spec:
  "inv t \<Longrightarrow> inv (fold del rs t) \<and> lookup (fold del rs t) = (\<lambda>r. if r \<in> set rs then None else lookup t r)"
  by (induction rs arbitrary: t) (auto simp: inv_del lookup_del)

end

interpretation rmap: ref_table rm_inv rm_find rm_insert "\<lambda>r t. snd (rm_erase r t)"
  by unfold_locales (simp_all add: rm_insert_spec rm_erase_spec)

end
