(* ===== verification/Links.thy ===== *)
theory Links
  imports Prelude
begin

text \<open>
  The order node and the price level: struct \<open>Order\<close> of include/itchbook/book/order.hpp and struct
  \<open>Level\<close> of include/itchbook/book/level.hpp, on an explicit heap of order nodes. A level is a
  doubly linked list threaded through the nodes; \<open>lv_ok h lv q\<close> says that the list of level \<open>lv\<close> in
  heap \<open>h\<close> is the queue \<open>q\<close>, front first, and that the share total and the count kept beside it are
  those of \<open>q\<close>. The lemmas of each operation give the queue it leaves and the part of the heap it
  does not touch.
\<close>

section \<open>Orders and levels\<close>

type_synonym ptr = nat

record order =
  o_ref :: u64
  o_next :: "ptr option"
  o_prev :: "ptr option"
  o_shares :: u32
  o_price :: int
  o_level_idx :: u32
  o_locate :: u16
  o_side :: u8

type_synonym heap = "ptr \<Rightarrow> order"

definition kOverflowLevel :: u32 where
  "kOverflowLevel = 0xFFFFFFFF"

record level =
  lv_head :: "ptr option"
  lv_tail :: "ptr option"
  lv_shares :: u64
  lv_count :: u32

definition lv_new :: level where
  "lv_new = \<lparr> lv_head = None, lv_tail = None, lv_shares = 0, lv_count = 0 \<rparr>"

definition lv_empty :: "level \<Rightarrow> bool" where
  "lv_empty lv \<longleftrightarrow> lv_count lv = 0"

definition set_next :: "ptr \<Rightarrow> ptr option \<Rightarrow> heap \<Rightarrow> heap" where
  "set_next p v h = h(p := (h p)\<lparr> o_next := v \<rparr>)"

definition set_prev :: "ptr \<Rightarrow> ptr option \<Rightarrow> heap \<Rightarrow> heap" where
  "set_prev p v h = h(p := (h p)\<lparr> o_prev := v \<rparr>)"

definition lv_push_back :: "ptr \<Rightarrow> heap \<times> level \<Rightarrow> heap \<times> level" where
  "lv_push_back x hl =
     (let (h, lv) = hl;
          h = set_next x None h;
          h = set_prev x (lv_tail lv) h;
          (h, lv) = (case lv_tail lv of
                       Some t \<Rightarrow> (set_next t (Some x) h, lv)
                     | None \<Rightarrow> (h, lv\<lparr> lv_head := Some x \<rparr>));
          lv = lv\<lparr> lv_tail := Some x \<rparr>;
          lv = lv\<lparr> lv_shares := lv_shares lv + ucast (o_shares (h x)) \<rparr>
      in (h, lv\<lparr> lv_count := lv_count lv + 1 \<rparr>))"

definition lv_unlink :: "ptr \<Rightarrow> heap \<times> level \<Rightarrow> heap \<times> level" where
  "lv_unlink x hl =
     (let (h, lv) = hl;
          (h, lv) = (case o_prev (h x) of
                       Some p \<Rightarrow> (set_next p (o_next (h x)) h, lv)
                     | None \<Rightarrow> (h, lv\<lparr> lv_head := o_next (h x) \<rparr>));
          (h, lv) = (case o_next (h x) of
                       Some s \<Rightarrow> (set_prev s (o_prev (h x)) h, lv)
                     | None \<Rightarrow> (h, lv\<lparr> lv_tail := o_prev (h x) \<rparr>));
          h = set_next x None (set_prev x None h);
          lv = lv\<lparr> lv_shares := lv_shares lv - ucast (o_shares (h x)) \<rparr>
      in (h, lv\<lparr> lv_count := lv_count lv - 1 \<rparr>))"

definition lv_resize :: "u32 \<Rightarrow> u32 \<Rightarrow> level \<Rightarrow> level" where
  "lv_resize old_shares new_shares lv =
     lv\<lparr> lv_shares := (lv_shares lv - ucast old_shares) + ucast new_shares \<rparr>"

fun ahead_walk :: "nat \<Rightarrow> heap \<Rightarrow> ptr option \<Rightarrow> ptr \<Rightarrow> u64 \<Rightarrow> u64" where
  "ahead_walk 0 h p x acc = acc"
| "ahead_walk (Suc fuel) h None x acc = acc"
| "ahead_walk (Suc fuel) h (Some p) x acc =
     (if p = x then acc else ahead_walk fuel h (o_next (h p)) x (acc + ucast (o_shares (h p))))"

definition lv_shares_ahead_of :: "heap \<Rightarrow> level \<Rightarrow> ptr \<Rightarrow> u64" where
  "lv_shares_ahead_of h lv x = ahead_walk (unat (lv_count lv) + 1) h (lv_head lv) x 0"

fun walk :: "nat \<Rightarrow> heap \<Rightarrow> ptr option \<Rightarrow> ptr list" where
  "walk 0 h p = []"
| "walk (Suc fuel) h None = []"
| "walk (Suc fuel) h (Some p) = p # walk fuel h (o_next (h p))"

definition lv_queue :: "heap \<Rightarrow> level \<Rightarrow> ptr list" where
  "lv_queue h lv = walk (unat (lv_count lv)) h (lv_head lv)"

section \<open>Linked segments\<close>

definition hd_or :: "ptr list \<Rightarrow> ptr option \<Rightarrow> ptr option" where
  "hd_or q d = (case q of [] \<Rightarrow> d | x # _ \<Rightarrow> Some x)"

definition last_or :: "ptr list \<Rightarrow> ptr option \<Rightarrow> ptr option" where
  "last_or q d = (if q = [] then d else Some (last q))"

lemma hd_or_simps [simp]: "hd_or [] d = d" "hd_or (x # q) d = Some x"
  "hd_or (q @ r) d = hd_or q (hd_or r d)"
  by (auto simp: hd_or_def split: list.splits)

lemma last_or_simps [simp]: "last_or [] d = d" "last_or (x # q) d = last_or q (Some x)"
  "last_or (q @ r) d = last_or r (last_or q d)"
  by (auto simp: last_or_def)

fun dseg :: "heap \<Rightarrow> ptr option \<Rightarrow> ptr list \<Rightarrow> ptr option \<Rightarrow> bool" where
  "dseg h pr [] nx \<longleftrightarrow> True"
| "dseg h pr (x # q) nx \<longleftrightarrow>
     o_prev (h x) = pr \<and> o_next (h x) = hd_or q nx \<and> dseg h (Some x) q nx"

lemma dseg_append [simp]:
  "dseg h pr (q @ r) nx \<longleftrightarrow> dseg h pr q (hd_or r nx) \<and> dseg h (last_or q pr) r nx"
  by (induction q arbitrary: pr) (auto simp: hd_or_def split: list.splits)

lemma dseg_frame:
  "dseg h pr q nx \<Longrightarrow> \<forall>x \<in> set q. o_next (h' x) = o_next (h x) \<and> o_prev (h' x) = o_prev (h x) \<Longrightarrow>
   dseg h' pr q nx"
  by (induction q arbitrary: pr) auto

lemma walk_dseg: "dseg h pr q None \<Longrightarrow> length q \<le> fuel \<Longrightarrow> walk fuel h (hd_or q None) = q"
proof (induction q arbitrary: pr fuel)
  case Nil
  then show ?case by (cases fuel) auto
next
  case (Cons x q)
  then show ?case by (cases fuel) auto
qed

definition payload :: "order \<Rightarrow> order" where
  "payload x = x\<lparr> o_next := None, o_prev := None \<rparr>"

lemma payload_eq: "payload x = payload y \<longleftrightarrow>
    o_ref x = o_ref y \<and> o_shares x = o_shares y \<and> o_price x = o_price y \<and>
    o_level_idx x = o_level_idx y \<and> o_locate x = o_locate y \<and> o_side x = o_side y"
  by (cases x; cases y) (auto simp: payload_def)

lemma payload_set [simp]: "payload (set_next p v h x) = payload (h x)"
  "payload (set_prev p v h x) = payload (h x)"
  by (auto simp: set_next_def set_prev_def payload_def)

definition qsum :: "heap \<Rightarrow> ptr list \<Rightarrow> u64" where
  "qsum h q = sum_list (map (\<lambda>x. ucast (o_shares (h x))) q)"

lemma qsum_simps [simp]: "qsum h [] = 0" "qsum h (x # q) = ucast (o_shares (h x)) + qsum h q"
  "qsum h (q @ r) = qsum h q + qsum h r"
  by (simp_all add: qsum_def)

lemma qsum_cong: "\<forall>x \<in> set q. o_shares (h' x) = o_shares (h x) \<Longrightarrow> qsum h' q = qsum h q"
  by (induction q) auto

definition fits32 :: "'a list \<Rightarrow> bool" where
  "fits32 q \<longleftrightarrow> length q < 2 ^ 32"

lemma fits32_unat: "fits32 q \<Longrightarrow> unat (of_nat (length q) :: u32) = length q"
  by (simp add: fits32_def unat_of_nat)

lemma fits32_remove: "fits32 (p @ x # q) \<Longrightarrow> fits32 (p @ q)"
  by (simp add: fits32_def)

definition lv_ok :: "heap \<Rightarrow> level \<Rightarrow> ptr list \<Rightarrow> bool" where
  "lv_ok h lv q \<longleftrightarrow>
     distinct q \<and> fits32 q \<and> dseg h None q None \<and>
     lv_head lv = hd_or q None \<and> lv_tail lv = last_or q None \<and>
     lv_shares lv = qsum h q \<and> lv_count lv = of_nat (length q)"

lemma lv_ok_count: "lv_ok h lv q \<Longrightarrow> unat (lv_count lv) = length q"
  by (simp add: lv_ok_def fits32_unat)

lemma lv_ok_queue: "lv_ok h lv q \<Longrightarrow> lv_queue h lv = q"
  using walk_dseg [of h None q "length q"] lv_ok_count [of h lv q]
  by (simp add: lv_ok_def lv_queue_def)

lemma lv_ok_empty: "lv_ok h lv q \<Longrightarrow> lv_empty lv \<longleftrightarrow> q = []"
  using lv_ok_count [of h lv q] unat_eq_zero [of "lv_count lv"] by (auto simp: lv_empty_def)

lemma lv_ok_new [simp]: "lv_ok h lv_new []"
  by (simp add: lv_ok_def lv_new_def fits32_def)

lemma lv_ok_frame:
  "lv_ok h lv q \<Longrightarrow> \<forall>x \<in> set q. h' x = h x \<Longrightarrow> lv_ok h' lv q"
  using dseg_frame [of h None q None h'] qsum_cong [of q h' h] by (simp add: lv_ok_def)

section \<open>The operations on queues\<close>

lemma lv_push_back_ok:
  assumes ok: "lv_ok h lv q" and x: "x \<notin> set q" and room: "fits32 (q @ [x])"
    and res: "lv_push_back x (h, lv) = (h', lv')"
  shows "lv_ok h' lv' (q @ [x])" "\<forall>y. payload (h' y) = payload (h y)"
    "\<forall>y. y \<notin> insert x (set q) \<longrightarrow> h' y = h y"
proof -
  have "lv_ok h' lv' (q @ [x]) \<and> (\<forall>y. payload (h' y) = payload (h y)) \<and>
    (\<forall>y. y \<notin> insert x (set q) \<longrightarrow> h' y = h y)"
  proof (cases q rule: rev_cases)
    case Nil
    then show ?thesis
      using assms by (auto simp: lv_push_back_def lv_ok_def set_next_def set_prev_def payload_def)
  next
    case (snoc r t)
    have tl: "lv_tail lv = Some t" using ok snoc by (simp add: lv_ok_def)
    let ?h1 = "set_prev x (Some t) (set_next x None h)"
    have h': "h' = set_next t (Some x) ?h1"
      using res tl by (simp add: lv_push_back_def Let_def)
    have lv': "lv' = lv\<lparr> lv_tail := Some x, lv_shares := lv_shares lv + ucast (o_shares (h x)),
        lv_count := lv_count lv + 1 \<rparr>"
      using res tl x snoc
      by (auto simp: lv_push_back_def Let_def set_next_def set_prev_def)
    have d: "t \<notin> set r" "x \<noteq> t" "x \<notin> set r" using ok snoc x by (auto simp: lv_ok_def)
    have seg: "dseg h None r (Some t)" "o_prev (h t) = last_or r None"
      using ok snoc by (simp_all add: lv_ok_def)
    have "dseg h' None r (Some t)"
      by (rule dseg_frame [OF seg(1)]) (use d in \<open>auto simp: h' set_next_def set_prev_def\<close>)
    moreover have "o_prev (h' t) = last_or r None" "o_next (h' t) = Some x"
        "o_prev (h' x) = Some t" "o_next (h' x) = None"
      using d seg by (simp_all add: h' set_next_def set_prev_def)
    moreover have pay: "payload (h' y) = payload (h y)" for y by (simp add: h')
    then have "o_shares (h' y) = o_shares (h y)" for y by (simp add: payload_eq)
    then have "qsum h' p = qsum h p" for p by (simp add: qsum_cong)
    ultimately have "lv_ok h' lv' (q @ [x])"
      using ok x room snoc \<open>\<And>y. o_shares (h' y) = o_shares (h y)\<close>
      by (auto simp: lv_ok_def lv' algebra_simps)
    moreover have "y \<notin> insert x (set q) \<Longrightarrow> h' y = h y" for y
      using snoc by (auto simp: h' set_next_def set_prev_def)
    ultimately show ?thesis using pay by blast
  qed
  then show "lv_ok h' lv' (q @ [x])" "\<forall>y. payload (h' y) = payload (h y)"
    "\<forall>y. y \<notin> insert x (set q) \<longrightarrow> h' y = h y" by blast+
qed

lemma lv_unlink_heap:
  assumes ok: "lv_ok h lv (p @ x # q)" and res: "lv_unlink x (h, lv) = (h', lv')"
  shows "h' = (\<lambda>y. if y = x then (h x)\<lparr> o_next := None, o_prev := None \<rparr>
      else let u = (if Some y = last_or p None then (h y)\<lparr> o_next := hd_or q None \<rparr> else h y)
           in if Some y = hd_or q None then u\<lparr> o_prev := last_or p None \<rparr> else u)"
    and "lv' = \<lparr> lv_head = hd_or (p @ q) None, lv_tail = last_or (p @ q) None,
      lv_shares = lv_shares lv - ucast (o_shares (h x)), lv_count = lv_count lv - 1 \<rparr>"
proof -
  have seg: "o_prev (h x) = last_or p None" "o_next (h x) = hd_or q None"
    and ends: "lv_head lv = hd_or (p @ [x]) None" "lv_tail lv = last_or (x # q) None"
    and d: "x \<notin> set p" "x \<notin> set q" "set p \<inter> set q = {}"
    using ok by (auto simp: lv_ok_def)
  have eqs: "h' = fst (lv_unlink x (h, lv))" "lv' = snd (lv_unlink x (h, lv))"
    using res by simp_all
  show "h' = (\<lambda>y. if y = x then (h x)\<lparr> o_next := None, o_prev := None \<rparr>
      else let u = (if Some y = last_or p None then (h y)\<lparr> o_next := hd_or q None \<rparr> else h y)
           in if Some y = hd_or q None then u\<lparr> o_prev := last_or p None \<rparr> else u)"
    unfolding eqs using seg ends d
    by (intro ext, cases p rule: rev_cases; cases q)
      (auto simp: lv_unlink_def set_next_def set_prev_def Let_def)
  show "lv' = \<lparr> lv_head = hd_or (p @ q) None, lv_tail = last_or (p @ q) None,
      lv_shares = lv_shares lv - ucast (o_shares (h x)), lv_count = lv_count lv - 1 \<rparr>"
    unfolding eqs using seg ends d
    by (cases p rule: rev_cases; cases q; cases lv)
      (auto simp: lv_unlink_def set_next_def set_prev_def Let_def)
qed

lemma dseg_init:
  "dseg h pr p nx \<Longrightarrow> distinct p \<Longrightarrow>
   \<forall>y \<in> set p. o_prev (h' y) = o_prev (h y) \<Longrightarrow>
   \<forall>y \<in> set p. o_next (h' y) = (if Some y = last_or p None then nx' else o_next (h y)) \<Longrightarrow>
   dseg h' pr p nx'"
proof (induction p rule: rev_induct)
  case (snoc t p)
  have "dseg h' pr p (Some t)"
    by (rule dseg_frame [of h]) (use snoc.prems in auto)
  then show ?case using snoc.prems by simp
qed simp

lemma dseg_tail:
  "dseg h pr q nx \<Longrightarrow> distinct q \<Longrightarrow>
   \<forall>y \<in> set q. o_next (h' y) = o_next (h y) \<Longrightarrow>
   \<forall>y \<in> set q. o_prev (h' y) = (if Some y = hd_or q None then pr' else o_prev (h y)) \<Longrightarrow>
   dseg h' pr' q nx"
proof (cases q)
  case (Cons z r)
  assume a: "dseg h pr q nx" "distinct q" "\<forall>y \<in> set q. o_next (h' y) = o_next (h y)"
    "\<forall>y \<in> set q. o_prev (h' y) = (if Some y = hd_or q None then pr' else o_prev (h y))"
  have "dseg h' (Some z) r nx"
    by (rule dseg_frame [of h]) (use a Cons in auto)
  with a Cons show ?thesis by simp
qed simp

lemma hd_or_mem: "hd_or q None = Some y \<Longrightarrow> y \<in> set q"
  by (cases q) auto

lemma last_or_mem: "last_or q None = Some y \<Longrightarrow> y \<in> set q"
  by (auto simp: last_or_def split: if_splits)

lemma lv_unlink_ok:
  assumes ok: "lv_ok h lv (p @ x # q)" and res: "lv_unlink x (h, lv) = (h', lv')"
  shows "lv_ok h' lv' (p @ q)" "\<forall>y. payload (h' y) = payload (h y)"
    "\<forall>y. y \<notin> set (p @ x # q) \<longrightarrow> h' y = h y"
proof -
  note h' = lv_unlink_heap(1) [OF assms] and lv' = lv_unlink_heap(2) [OF assms]
  have d: "x \<notin> set p" "x \<notin> set q" "set p \<inter> set q = {}" "distinct p" "distinct q"
    and seg: "dseg h None p (Some x)" "dseg h (Some x) q None"
    using ok by (auto simp: lv_ok_def)
  have pay: "payload (h' y) = payload (h y)" for y
    by (simp add: h' payload_def Let_def)
  then have sh: "o_shares (h' y) = o_shares (h y)" for y by (simp add: payload_eq)
  have "dseg h' None p (hd_or q None)"
    by (rule dseg_init [OF seg(1) d(4)])
      (use d hd_or_mem [of q] in \<open>auto simp: h' Let_def dest: sym\<close>)
  moreover have "dseg h' (last_or p None) q None"
    by (rule dseg_tail [OF seg(2) d(5)])
      (use d last_or_mem [of p] in \<open>auto simp: h' Let_def dest: sym\<close>)
  moreover have "qsum h' r = qsum h r" for r by (simp add: qsum_cong sh)
  moreover have "distinct (p @ q)" "fits32 (p @ q)"
    "lv_shares lv = qsum h p + ucast (o_shares (h x)) + qsum h q"
    "lv_count lv = of_nat (length (p @ q)) + 1"
    using ok fits32_remove by (auto simp: lv_ok_def algebra_simps)
  ultimately show "lv_ok h' lv' (p @ q)"
    by (simp add: lv_ok_def lv' del: hd_or_simps(3) last_or_simps(3))
  show "\<forall>y. payload (h' y) = payload (h y)" using pay by blast
  show "\<forall>y. y \<notin> set (p @ x # q) \<longrightarrow> h' y = h y"
    using hd_or_mem [of q] last_or_mem [of p] by (auto simp: h' Let_def dest: sym)
qed

definition set_shares :: "ptr \<Rightarrow> u32 \<Rightarrow> heap \<Rightarrow> heap" where
  "set_shares x s h = h(x := (h x)\<lparr> o_shares := s \<rparr>)"

lemma lv_resize_ok:
  assumes ok: "lv_ok h lv q" and x: "x \<in> set q"
  shows "lv_ok (set_shares x s h) (lv_resize (o_shares (h x)) s lv) q"
proof -
  obtain p r where q: "q = p @ x # r" using x by (meson split_list)
  have d: "x \<notin> set p" "x \<notin> set r" using ok q by (auto simp: lv_ok_def)
  have "dseg (set_shares x s h) None q None"
    by (rule dseg_frame [of h]) (use ok in \<open>auto simp: lv_ok_def set_shares_def\<close>)
  moreover have "qsum (set_shares x s h) p = qsum h p" "qsum (set_shares x s h) r = qsum h r"
    using d by (auto intro!: qsum_cong simp: set_shares_def)
  ultimately show ?thesis
    using ok by (simp add: lv_ok_def lv_resize_def q) (simp add: set_shares_def)
qed

lemma ahead_walk_spec:
  "dseg h pr (p @ x # q) None \<Longrightarrow> x \<notin> set p \<Longrightarrow> length p < fuel \<Longrightarrow>
   ahead_walk fuel h (hd_or (p @ x # q) None) x acc = acc + qsum h p"
proof (induction p arbitrary: pr fuel acc)
  case Nil
  then show ?case by (cases fuel) auto
next
  case (Cons y p)
  then show ?case by (cases fuel) (auto simp: algebra_simps)
qed

lemma lv_shares_ahead_ok:
  "lv_ok h lv (p @ x # q) \<Longrightarrow> lv_shares_ahead_of h lv x = qsum h p"
  using ahead_walk_spec [of h None p x q "unat (lv_count lv) + 1" 0] lv_ok_count [of h lv "p @ x # q"]
  by (simp add: lv_ok_def lv_shares_ahead_of_def)

text \<open>Two orders queued at a level of an otherwise blank store, on which the properties are applied.\<close>

definition blank_heap :: heap where
  "blank_heap = (\<lambda>_. \<lparr> o_ref = 0, o_next = None, o_prev = None, o_shares = 0, o_price = 0, o_level_idx = 0,
     o_locate = 0, o_side = 0 \<rparr>)"

definition two_orders :: "heap \<times> level" where
  "two_orders = lv_push_back 2 (lv_push_back 1 (blank_heap, lv_new))"

lemma two_orders_ok: "lv_ok (fst two_orders) (snd two_orders) [1, 2]"
proof -
  obtain h lv where 1: "lv_push_back 1 (blank_heap, lv_new) = (h, lv)" by (meson surj_pair)
  have "lv_ok blank_heap lv_new []" by simp
  from lv_push_back_ok(1) [OF this _ _ 1] have "lv_ok h lv [1]" by (simp add: fits32_def)
  moreover have "lv_push_back 2 (h, lv) = (fst two_orders, snd two_orders)" by (simp only: two_orders_def 1 prod.collapse)
  ultimately show ?thesis using lv_push_back_ok(1) [of h lv "[1]" 2] by (simp add: fits32_def)
qed

end
