(* ===== verification/Side.thy ===== *)
theory Side
  imports Links
begin

text \<open>
  One side of the book, class \<open>Side\<close> of include/itchbook/book/book.hpp: a dense vector of levels
  addressed by tick offset from \<open>base\<close>, an ordered overflow map for the prices off the band or
  off the grid, and a cursor on the best occupied dense level.

  The invariant \<open>side_ok h s Q\<close> relates a side to its contents \<open>Q\<close>, the queue at every price. The
  lemmas of the section on operations say that \<open>push\<close> appends at one price and \<open>pop\<close> removes at one
  price, and that \<open>best\<close> and \<open>top\<close> read the price order of \<open>Q\<close>.
\<close>

section \<open>State\<close>

definition side_B :: u8 where "side_B = 66"
definition side_S :: u8 where "side_S = 83"

record side =
  sd_side :: u8
  sd_tick :: int
  sd_base :: int
  sd_dense :: "level list"
  sd_overflow :: "(int, level) omap"
  sd_cursor :: int
  sd_nonempty :: nat
  sd_peak :: nat

definition side_new :: "u8 \<Rightarrow> int \<Rightarrow> side" where
  "side_new c tick = \<lparr> sd_side = c, sd_tick = tick, sd_base = 0, sd_dense = [], sd_overflow = [],
     sd_cursor = -1, sd_nonempty = 0, sd_peak = 0 \<rparr>"

definition is_bid :: "side \<Rightarrow> bool" where
  "is_bid s \<longleftrightarrow> sd_side s = side_B"

definition better :: "side \<Rightarrow> int \<Rightarrow> int \<Rightarrow> bool" where
  "better s a b = (if is_bid s then a > b else a < b)"

definition banded :: "side \<Rightarrow> bool" where
  "banded s \<longleftrightarrow> sd_dense s \<noteq> []"

definition price_at :: "side \<Rightarrow> nat \<Rightarrow> int" where
  "price_at s i = to_i32 (sd_base s + int i * sd_tick s)"

definition cursor_valid :: "side \<Rightarrow> bool" where
  "cursor_valid s \<longleftrightarrow> 0 \<le> sd_cursor s \<and> sd_cursor s < int (length (sd_dense s))"

definition reset_cursor :: "side \<Rightarrow> side" where
  "reset_cursor s = s\<lparr> sd_cursor := (if is_bid s then -1 else int (length (sd_dense s))) \<rparr>"

section \<open>The band\<close>

definition set_band_slots :: "int \<Rightarrow> nat \<Rightarrow> side \<Rightarrow> side" where
  "set_band_slots center levels s =
     (if center \<le> 0 \<or> sd_tick s \<le> 0 \<or> levels = 0 then s
      else
        let half_ticks = int (levels div 2);
            base = center - half_ticks * sd_tick s;
            base = (if base < 0 then 0 else base);
            base = base - base smod sd_tick s
        in reset_cursor (s\<lparr> sd_base := to_i32 base, sd_dense := replicate levels lv_new,
                            sd_nonempty := 0 \<rparr>))"

definition set_band :: "int \<Rightarrow> int \<Rightarrow> nat \<Rightarrow> side \<Rightarrow> side" where
  "set_band center frac_pct max_levels s =
     (if center \<le> 0 \<or> sd_tick s \<le> 0 \<or> banded s then s
      else
        let half_span = (center * frac_pct) sdiv 100;
            half_ticks = half_span sdiv sd_tick s;
            half_ticks = (if half_ticks < 1 then 1 else half_ticks);
            levels = nat (2 * half_ticks + 1);
            levels = (if levels > max_levels then max_levels else levels)
        in set_band_slots center levels s)"

definition clear_levels :: "side \<Rightarrow> side" where
  "clear_levels s = reset_cursor (s\<lparr> sd_dense := [], sd_overflow := [], sd_nonempty := 0 \<rparr>)"

definition index_of :: "side \<Rightarrow> int \<Rightarrow> u32" where
  "index_of s price =
     (if \<not> banded s \<or> price < sd_base s then kOverflowLevel
      else
        let diff = price - sd_base s in
        if diff smod sd_tick s \<noteq> 0 then kOverflowLevel
        else
          let idx = diff sdiv sd_tick s in
          if idx \<ge> int (length (sd_dense s)) then kOverflowLevel else word_of_int idx)"

section \<open>Operations\<close>

definition level_filled :: "nat \<Rightarrow> side \<Rightarrow> side" where
  "level_filled idx s =
     (let s = s\<lparr> sd_nonempty := sd_nonempty s + 1 \<rparr> in
      if sd_nonempty s = 1 \<or> \<not> cursor_valid s
         \<or> better s (price_at s idx) (price_at s (nat (sd_cursor s)))
      then s\<lparr> sd_cursor := int idx \<rparr> else s)"

fun scan_dense :: "nat \<Rightarrow> level list \<Rightarrow> int \<Rightarrow> int \<Rightarrow> int option" where
  "scan_dense 0 dense step i = None"
| "scan_dense (Suc fuel) dense step i =
     (if 0 \<le> i \<and> i < int (length dense) then
        (if \<not> lv_empty (dense ! nat i) then Some i else scan_dense fuel dense step (i + step))
      else None)"

definition level_emptied :: "nat \<Rightarrow> side \<Rightarrow> side" where
  "level_emptied idx s =
     (let s = s\<lparr> sd_nonempty := sd_nonempty s - 1 \<rparr> in
      if sd_nonempty s = 0 then reset_cursor s
      else if int idx \<noteq> sd_cursor s then s
      else
        let step = (if is_bid s then -1 else 1) in
        case scan_dense (length (sd_dense s)) (sd_dense s) step (sd_cursor s + step) of
          Some i \<Rightarrow> s\<lparr> sd_cursor := i \<rparr>
        | None \<Rightarrow> reset_cursor s)"

definition set_level_idx :: "ptr \<Rightarrow> u32 \<Rightarrow> heap \<Rightarrow> heap" where
  "set_level_idx x i h = h(x := (h x)\<lparr> o_level_idx := i \<rparr>)"

definition sd_push :: "ptr \<Rightarrow> heap \<times> side \<Rightarrow> heap \<times> side" where
  "sd_push x hs =
     (let (h, s) = hs;
          price = o_price (h x);
          idx = index_of s price;
          h = set_level_idx x idx h in
      if idx = kOverflowLevel then
        let lv = (case om_get price (sd_overflow s) of Some lv \<Rightarrow> lv | None \<Rightarrow> lv_new);
            (h, lv) = lv_push_back x (h, lv);
            s = s\<lparr> sd_overflow := om_set price lv (sd_overflow s) \<rparr>
        in (h, if length (sd_overflow s) > sd_peak s
               then s\<lparr> sd_peak := length (sd_overflow s) \<rparr> else s)
      else
        let lv = sd_dense s ! unat idx;
            was_empty = lv_empty lv;
            (h, lv) = lv_push_back x (h, lv);
            s = s\<lparr> sd_dense := (sd_dense s)[unat idx := lv] \<rparr>
        in (h, if was_empty then level_filled (unat idx) s else s))"

definition sd_pop :: "ptr \<Rightarrow> heap \<times> side \<Rightarrow> heap \<times> side" where
  "sd_pop x hs =
     (let (h, s) = hs in
      if o_level_idx (h x) = kOverflowLevel then
        (case om_get (o_price (h x)) (sd_overflow s) of
           None \<Rightarrow> (h, s)
         | Some lv \<Rightarrow>
             let price = o_price (h x);
                 (h, lv) = lv_unlink x (h, lv)
             in (h, s\<lparr> sd_overflow := (if lv_empty lv then om_del price (sd_overflow s)
                                       else om_set price lv (sd_overflow s)) \<rparr>))
      else
        let idx = unat (o_level_idx (h x));
            (h, lv) = lv_unlink x (h, sd_dense s ! idx);
            s = s\<lparr> sd_dense := (sd_dense s)[idx := lv] \<rparr>
        in (h, if lv_empty lv then level_emptied idx s else s))"

definition level_at :: "side \<Rightarrow> int \<Rightarrow> level option" where
  "level_at s price =
     (let idx = index_of s price in
      if idx \<noteq> kOverflowLevel then
        (if lv_empty (sd_dense s ! unat idx) then None else Some (sd_dense s ! unat idx))
      else om_get price (sd_overflow s))"

definition level_of :: "heap \<Rightarrow> side \<Rightarrow> ptr \<Rightarrow> level option" where
  "level_of h s x =
     (if o_level_idx (h x) = kOverflowLevel then om_get (o_price (h x)) (sd_overflow s)
      else Some (sd_dense s ! unat (o_level_idx (h x))))"

definition set_level_of :: "heap \<Rightarrow> ptr \<Rightarrow> level \<Rightarrow> side \<Rightarrow> side" where
  "set_level_of h x lv s =
     (if o_level_idx (h x) = kOverflowLevel
      then s\<lparr> sd_overflow := om_set (o_price (h x)) lv (sd_overflow s) \<rparr>
      else s\<lparr> sd_dense := (sd_dense s)[unat (o_level_idx (h x)) := lv] \<rparr>)"

definition has_levels :: "side \<Rightarrow> bool" where
  "has_levels s \<longleftrightarrow> sd_nonempty s > 0 \<or> sd_overflow s \<noteq> []"

definition best :: "side \<Rightarrow> int option" where
  "best s =
     (let dense_best = (if sd_nonempty s > 0 \<and> cursor_valid s
                        then Some (price_at s (nat (sd_cursor s))) else None) in
      if sd_overflow s \<noteq> [] then
        let p = (if is_bid s then fst (last (sd_overflow s)) else fst (hd (sd_overflow s))) in
        case dense_best of
          None \<Rightarrow> Some p
        | Some d \<Rightarrow> (if better s p d then Some p else Some d)
      else dense_best)"

definition best_level :: "side \<Rightarrow> level option" where
  "best_level s = (case best s of None \<Rightarrow> None | Some px \<Rightarrow> level_at s px)"

definition level_count :: "side \<Rightarrow> nat" where
  "level_count s = sd_nonempty s + length (sd_overflow s)"

definition sd_queue :: "heap \<Rightarrow> side \<Rightarrow> int \<Rightarrow> ptr list" where
  "sd_queue h s price = (case level_at s price of None \<Rightarrow> [] | Some lv \<Rightarrow> lv_queue h lv)"

fun each_node :: "nat \<Rightarrow> (ptr \<Rightarrow> 's \<Rightarrow> 's) \<Rightarrow> ('s \<Rightarrow> heap) \<Rightarrow> ptr option \<Rightarrow> 's \<Rightarrow> 's" where
  "each_node 0 fn hp p st = st"
| "each_node (Suc fuel) fn hp None st = st"
| "each_node (Suc fuel) fn hp (Some p) st =
     (let nx = o_next (hp st p) in each_node fuel fn hp nx (fn p st))"

fun each_dense :: "(ptr \<Rightarrow> 's \<Rightarrow> 's) \<Rightarrow> ('s \<Rightarrow> heap) \<Rightarrow> nat \<Rightarrow> level list \<Rightarrow> 's \<Rightarrow> 's" where
  "each_dense fn hp remaining [] st = st"
| "each_dense fn hp remaining (lv # dense) st =
     (if remaining = 0 then st
      else if lv_empty lv then each_dense fn hp remaining dense st
      else each_dense fn hp (remaining - 1) dense
             (each_node (unat (lv_count lv)) fn hp (lv_head lv) st))"

definition for_each_order_mut :: "(ptr \<Rightarrow> 's \<Rightarrow> 's) \<Rightarrow> ('s \<Rightarrow> heap) \<Rightarrow> side \<Rightarrow> 's \<Rightarrow> 's" where
  "for_each_order_mut fn hp s st =
     fold (\<lambda>(price, lv). each_node (unat (lv_count lv)) fn hp (lv_head lv)) (sd_overflow s)
       (each_dense fn hp (sd_nonempty s) (sd_dense s) st)"

record level_view =
  lw_price :: int
  lw_shares :: u64
  lw_count :: u32

definition view :: "int \<Rightarrow> level \<Rightarrow> level_view" where
  "view p lv = \<lparr> lw_price = p, lw_shares = lv_shares lv, lw_count = lv_count lv \<rparr>"

definition dense_has :: "side \<Rightarrow> int \<Rightarrow> bool" where
  "dense_has s di \<longleftrightarrow> sd_nonempty s > 0 \<and> 0 \<le> di \<and> di < int (length (sd_dense s))"

definition advance :: "side \<Rightarrow> int \<Rightarrow> int" where
  "advance s di = di + (if is_bid s then -1 else 1)"

fun settle_dense :: "nat \<Rightarrow> side \<Rightarrow> int \<Rightarrow> int" where
  "settle_dense 0 s di = di"
| "settle_dense (Suc fuel) s di =
     (if dense_has s di \<and> lv_empty (sd_dense s ! nat di)
      then settle_dense fuel s (advance s di) else di)"

fun top_loop :: "nat \<Rightarrow> side \<Rightarrow> int \<Rightarrow> (int \<times> level) list \<Rightarrow> level_view list" where
  "top_loop 0 s di ov = []"
| "top_loop (Suc n) s di ov =
     (if \<not> (dense_has s di \<or> ov \<noteq> []) then []
      else if ov = [] \<or> (dense_has s di \<and> better s (price_at s (nat di)) (fst (hd ov)))
      then view (price_at s (nat di)) (sd_dense s ! nat di) #
           top_loop n s (settle_dense (length (sd_dense s)) s (advance s di)) ov
      else view (fst (hd ov)) (snd (hd ov)) # top_loop n s di (tl ov))"

definition top_levels :: "nat \<Rightarrow> side \<Rightarrow> level_view list" where
  "top_levels levels s =
     top_loop levels s (settle_dense (length (sd_dense s)) s (sd_cursor s))
       (if is_bid s then rev (sd_overflow s) else sd_overflow s)"

section \<open>Invariant\<close>

definition grid :: "side \<Rightarrow> nat \<Rightarrow> int" where
  "grid s i = sd_base s + int i * sd_tick s"

definition geom_ok :: "side \<Rightarrow> bool" where
  "geom_ok s \<longleftrightarrow> (banded s \<longrightarrow> 0 < sd_tick s \<and> 0 \<le> sd_base s \<and> length (sd_dense s) < 2 ^ 32 - 1)"

definition filled :: "side \<Rightarrow> (int \<Rightarrow> ptr list) \<Rightarrow> nat set" where
  "filled s Q = {i. i < length (sd_dense s) \<and> Q (grid s i) \<noteq> []}"

definition cursor_ok :: "side \<Rightarrow> (int \<Rightarrow> ptr list) \<Rightarrow> bool" where
  "cursor_ok s Q \<longleftrightarrow>
     (if filled s Q = {} then \<not> cursor_valid s
      else cursor_valid s \<and> nat (sd_cursor s) \<in> filled s Q \<and>
        (\<forall>i \<in> filled s Q. if is_bid s then i \<le> nat (sd_cursor s) else nat (sd_cursor s) \<le> i))"

definition side_ok :: "heap \<Rightarrow> side \<Rightarrow> (int \<Rightarrow> ptr list) \<Rightarrow> bool" where
  "side_ok h s Q \<longleftrightarrow>
     geom_ok s \<and> om_wf (sd_overflow s) \<and>
     (\<forall>i < length (sd_dense s). lv_ok h (sd_dense s ! i) (Q (grid s i))) \<and>
     (\<forall>(p, lv) \<in> set (sd_overflow s). index_of s p = kOverflowLevel \<and> Q p \<noteq> [] \<and> lv_ok h lv (Q p)) \<and>
     (\<forall>p. index_of s p = kOverflowLevel \<longrightarrow> om_get p (sd_overflow s) = None \<longrightarrow> Q p = []) \<and>
     (\<forall>p. \<forall>x \<in> set (Q p). o_price (h x) = p \<and> o_level_idx (h x) = index_of s p \<and> is_i32 p) \<and>
     sd_nonempty s = card (filled s Q) \<and> cursor_ok s Q"

lemma kOverflow_unat: "unat kOverflowLevel = 2 ^ 32 - 1"
  by (simp add: kOverflowLevel_def)

lemma idx_small: "i < 2 ^ 32 - 1 \<Longrightarrow> unat (of_nat i :: u32) = i \<and> (of_nat i :: u32) \<noteq> kOverflowLevel"
proof -
  assume i: "i < 2 ^ 32 - 1"
  then have u: "unat (of_nat i :: u32) = i" by (simp add: unat_of_nat)
  moreover have "(of_nat i :: u32) \<noteq> kOverflowLevel"
    using i u kOverflow_unat by (metis less_irrefl)
  ultimately show ?thesis ..
qed

text \<open>
  A price is addressed by the dense vector exactly when it is one of its grid points; every other
  price goes to the overflow map.
\<close>

lemma smod_eq_mod: "(0::int) \<le> a \<Longrightarrow> 0 < b \<Longrightarrow> a smod b = a mod b"
  by (simp add: signed_modulo_int_def signed_divide_int_def sgn_if minus_div_mult_eq_mod)

lemma sdiv_eq_div: "(0::int) \<le> a \<Longrightarrow> 0 < b \<Longrightarrow> a sdiv b = a div b"
  by (simp add: signed_divide_int_def sgn_if)

lemma index_of_grid:
  assumes g: "geom_ok s" and i: "i < length (sd_dense s)"
  shows "index_of s (grid s i) = of_nat i" "unat (index_of s (grid s i)) = i"
    "index_of s (grid s i) \<noteq> kOverflowLevel"
proof -
  have b: "banded s" using i by (auto simp: banded_def)
  with g have t: "0 < sd_tick s" "length (sd_dense s) < 2 ^ 32 - 1" by (auto simp: geom_ok_def)
  have d: "grid s i - sd_base s = int i * sd_tick s" "sd_base s \<le> grid s i"
    using t by (auto simp: grid_def)
  then have "(grid s i - sd_base s) smod sd_tick s = 0" "(grid s i - sd_base s) sdiv sd_tick s = int i"
    using t by (simp_all add: smod_eq_mod sdiv_eq_div)
  then show *: "index_of s (grid s i) = of_nat i"
    using b d(2) i by (simp add: index_of_def Let_def)
  have "i < 2 ^ 32 - 1" using i t(2) by simp
  from idx_small [OF this] show "unat (index_of s (grid s i)) = i"
    "index_of s (grid s i) \<noteq> kOverflowLevel"
    by (simp_all add: *)
qed

lemma index_of_cases:
  assumes g: "geom_ok s"
  obtains (overflow) "index_of s p = kOverflowLevel" "\<forall>i < length (sd_dense s). p \<noteq> grid s i"
  | (dense) i where "i < length (sd_dense s)" "p = grid s i" "index_of s p = of_nat i"
      "unat (index_of s p) = i" "index_of s p \<noteq> kOverflowLevel"
proof (cases "index_of s p = kOverflowLevel")
  case True
  then show thesis using overflow index_of_grid(3) [OF g] by blast
next
  case False
  let ?d = "p - sd_base s"
  have b: "banded s" "sd_base s \<le> p" "?d smod sd_tick s = 0" "?d sdiv sd_tick s < int (length (sd_dense s))"
    using False by (auto simp: index_of_def Let_def split: if_splits)
  with g have t: "0 < sd_tick s" by (auto simp: geom_ok_def)
  let ?i = "nat (?d div sd_tick s)"
  have nn: "0 \<le> ?d div sd_tick s"
    using b t by (simp add: pos_imp_zdiv_nonneg_iff)
  have "?d = int ?i * sd_tick s" "?i < length (sd_dense s)"
    using b t nn by (auto simp: smod_eq_mod sdiv_eq_div nat_less_iff)
  then have "p = grid s ?i" "?i < length (sd_dense s)" by (simp_all add: grid_def)
  with index_of_grid [OF g, of ?i] show thesis
    using dense [of ?i] by metis
qed

lemma grid_inj: "geom_ok s \<Longrightarrow> i < length (sd_dense s) \<Longrightarrow> j < length (sd_dense s) \<Longrightarrow>
    grid s i = grid s j \<Longrightarrow> i = j"
  using index_of_grid(2) by metis

lemma grid_mono: "geom_ok s \<Longrightarrow> banded s \<Longrightarrow> grid s i \<le> grid s j \<longleftrightarrow> i \<le> j"
  by (auto simp: geom_ok_def grid_def)

lemma finite_filled [simp]: "finite (filled s Q)"
  by (rule finite_subset [of _ "{..<length (sd_dense s)}"]) (auto simp: filled_def)

lemma side_ok_D:
  assumes "side_ok h s Q"
  shows "geom_ok s" "om_wf (sd_overflow s)"
    "\<And>i. i < length (sd_dense s) \<Longrightarrow> lv_ok h (sd_dense s ! i) (Q (grid s i))"
    "\<And>p lv. om_get p (sd_overflow s) = Some lv \<Longrightarrow>
        index_of s p = kOverflowLevel \<and> Q p \<noteq> [] \<and> lv_ok h lv (Q p)"
    "\<And>p. index_of s p = kOverflowLevel \<Longrightarrow> om_get p (sd_overflow s) = None \<Longrightarrow> Q p = []"
    "\<And>p x. x \<in> set (Q p) \<Longrightarrow> o_price (h x) = p \<and> o_level_idx (h x) = index_of s p \<and> is_i32 p"
    "sd_nonempty s = card (filled s Q)" "cursor_ok s Q"
  using assms om_get_mem [of "sd_overflow s"] by (auto simp: side_ok_def)

lemma side_ok_I:
  assumes "geom_ok s" "om_wf (sd_overflow s)"
    "\<And>i. i < length (sd_dense s) \<Longrightarrow> lv_ok h (sd_dense s ! i) (Q (grid s i))"
    "\<And>p lv. om_get p (sd_overflow s) = Some lv \<Longrightarrow>
        index_of s p = kOverflowLevel \<and> Q p \<noteq> [] \<and> lv_ok h lv (Q p)"
    "\<And>p. index_of s p = kOverflowLevel \<Longrightarrow> om_get p (sd_overflow s) = None \<Longrightarrow> Q p = []"
    "\<And>p x. x \<in> set (Q p) \<Longrightarrow> o_price (h x) = p \<and> o_level_idx (h x) = index_of s p \<and> is_i32 p"
    "sd_nonempty s = card (filled s Q)" "cursor_ok s Q"
  shows "side_ok h s Q"
  using assms om_get_mem [of "sd_overflow s"] by (auto simp: side_ok_def)

lemma queues_disjoint:
  "side_ok h s Q \<Longrightarrow> x \<in> set (Q p) \<Longrightarrow> x \<in> set (Q p') \<Longrightarrow> p = p'"
  using side_ok_D(6) by metis

lemma side_ok_frame:
  assumes ok: "side_ok h s Q" and same: "\<And>p x. x \<in> set (Q p) \<Longrightarrow> h' x = h x"
  shows "side_ok h' s Q"
proof -
  have "lv_ok h lv (Q p) \<Longrightarrow> lv_ok h' lv (Q p)" for lv p
    using lv_ok_frame same by blast
  then show ?thesis
    by (intro side_ok_I) (use side_ok_D [OF ok] same in auto)
qed

lemma level_at_ok:
  assumes ok: "side_ok h s Q"
  shows "sd_queue h s p = Q p" "level_at s p = None \<longleftrightarrow> Q p = []"
    "level_at s p = Some lv \<Longrightarrow> lv_ok h lv (Q p)"
proof -
  note D = side_ok_D [OF ok]
  have "sd_queue h s p = Q p \<and> (level_at s p = None \<longleftrightarrow> Q p = []) \<and>
      (level_at s p = Some lv \<longrightarrow> lv_ok h lv (Q p))"
  proof (cases rule: index_of_cases [OF D(1), of p])
    case 1
    show ?thesis
    proof (cases "om_get p (sd_overflow s)")
      case None
      then show ?thesis using D(5) 1 by (simp add: sd_queue_def level_at_def)
    next
      case (Some lv')
      then show ?thesis using D(4) [OF Some] 1 lv_ok_queue
        by (auto simp: sd_queue_def level_at_def)
    qed
  next
    case (2 i)
    then have "lv_ok h (sd_dense s ! i) (Q p)" using D(3) by auto
    with 2 lv_ok_empty [OF this] lv_ok_queue [OF this] show ?thesis
      by (auto simp: sd_queue_def level_at_def)
  qed
  then show "sd_queue h s p = Q p" "level_at s p = None \<longleftrightarrow> Q p = []"
    "level_at s p = Some lv \<Longrightarrow> lv_ok h lv (Q p)"
    by blast+
qed

lemma level_of_ok:
  assumes ok: "side_ok h s Q" and x: "x \<in> set (Q p)"
  shows "level_of h s x = level_at s p" "o_price (h x) = p"
proof -
  note D = side_ok_D [OF ok]
  show "o_price (h x) = p" using D(6) [OF x] by blast
  have "level_at s p \<noteq> None" using level_at_ok(2) [OF ok] x by auto
  then show "level_of h s x = level_at s p"
    using D(6) [OF x] by (auto simp: level_of_def level_at_def Let_def split: if_splits)
qed

lemma side_new_ok [simp]: "side_ok h (side_new c t) (\<lambda>p. [])"
  by (rule side_ok_I) (auto simp: side_new_def geom_ok_def banded_def filled_def cursor_ok_def cursor_valid_def)

section \<open>The cursor\<close>

definition same_shape :: "side \<Rightarrow> side \<Rightarrow> bool" where
  "same_shape s s' \<longleftrightarrow> sd_side s' = sd_side s \<and> sd_tick s' = sd_tick s \<and> sd_base s' = sd_base s \<and>
     length (sd_dense s') = length (sd_dense s)"

lemma same_shapeD:
  assumes "same_shape s s'"
  shows "index_of s' = index_of s" "grid s' = grid s" "geom_ok s' = geom_ok s"
    "is_bid s' = is_bid s" "better s' = better s" "price_at s' = price_at s"
    "filled s' Q = filled s Q" "banded s' = banded s" "sd_side s' = sd_side s"
    "length (sd_dense s') = length (sd_dense s)"
proof -
  have e: "sd_side s' = sd_side s" "sd_tick s' = sd_tick s" "sd_base s' = sd_base s"
      "length (sd_dense s') = length (sd_dense s)"
    using assms by (simp_all add: same_shape_def)
  show "sd_side s' = sd_side s" "length (sd_dense s') = length (sd_dense s)"
    by (fact e)+
  show b: "banded s' = banded s"
    unfolding banded_def using e(4) by (metis length_0_conv)
  show "index_of s' = index_of s"
    by (rule ext) (simp add: index_of_def Let_def b e)
  show g: "grid s' = grid s" by (rule ext) (simp add: grid_def e)
  show "geom_ok s' = geom_ok s" by (simp add: geom_ok_def b e)
  show bid: "is_bid s' = is_bid s" by (simp add: is_bid_def e)
  show "better s' = better s" by (intro ext) (simp add: better_def bid)
  show "price_at s' = price_at s" by (rule ext) (simp add: price_at_def e)
  show "filled s' Q = filled s Q" by (simp add: filled_def g e)
qed

lemma same_shape_refl [simp]: "same_shape s s"
  by (simp add: same_shape_def)

lemma same_shape_trans: "same_shape s t \<Longrightarrow> same_shape t u \<Longrightarrow> same_shape s u"
  by (simp add: same_shape_def)

lemma same_shape_updates [simp]:
  "same_shape s (s\<lparr> sd_overflow := ov \<rparr>)" "same_shape s (s\<lparr> sd_peak := n \<rparr>)"
  "same_shape s (s\<lparr> sd_cursor := c \<rparr>)" "same_shape s (s\<lparr> sd_nonempty := n \<rparr>)"
  "same_shape s (s\<lparr> sd_dense := (sd_dense s)[i := lv] \<rparr>)" "same_shape s (reset_cursor s)"
  by (simp_all add: same_shape_def reset_cursor_def)

lemma level_filled_frame [simp]:
  "same_shape s (level_filled i s)" "sd_dense (level_filled i s) = sd_dense s"
  "sd_overflow (level_filled i s) = sd_overflow s" "sd_nonempty (level_filled i s) = sd_nonempty s + 1"
  "sd_peak (level_filled i s) = sd_peak s"
  by (simp_all add: level_filled_def Let_def same_shape_def)

lemma level_emptied_frame [simp]:
  "same_shape s (level_emptied i s)" "sd_dense (level_emptied i s) = sd_dense s"
  "sd_overflow (level_emptied i s) = sd_overflow s" "sd_nonempty (level_emptied i s) = sd_nonempty s - 1"
  "sd_peak (level_emptied i s) = sd_peak s"
  by (auto simp: level_emptied_def Let_def same_shape_def reset_cursor_def split: option.splits)

lemma cursor_valid_reset [simp]: "\<not> cursor_valid (reset_cursor s)"
  by (simp add: cursor_valid_def reset_cursor_def)

lemma price_at_grid: "is_i32 (grid s i) \<Longrightarrow> price_at s i = grid s i"
  by (simp add: price_at_def grid_def)

lemma level_filled_cursor:
  assumes g: "geom_ok s" and i: "i < length (sd_dense s)"
    and ins: "filled s Q' = insert i (filled s Q)" and fresh: "i \<notin> filled s Q"
    and n: "sd_nonempty s = card (filled s Q)" and cur: "cursor_ok s Q"
    and rng: "\<And>j. j \<in> filled s Q' \<Longrightarrow> is_i32 (grid s j)"
  shows "cursor_ok (level_filled i s) Q'"
proof -
  let ?s = "s\<lparr> sd_nonempty := sd_nonempty s + 1 \<rparr>"
  have b: "banded s" using i by (auto simp: banded_def)
  have t: "0 < sd_tick s" using g b by (simp add: geom_ok_def)
  have fs: "filled (level_filled i s) Q' = filled s Q'" and bd: "is_bid (level_filled i s) = is_bid s"
    using same_shapeD [OF level_filled_frame(1)] by blast+
  have len: "length (sd_dense (level_filled i s)) = length (sd_dense s)" by simp
  show ?thesis
  proof (cases "filled s Q = {}")
    case True
    then have "sd_cursor (level_filled i s) = int i"
      using n by (simp add: level_filled_def Let_def)
    with True i show ?thesis
      unfolding cursor_ok_def fs bd ins by (simp add: cursor_valid_def)
  next
    case False
    define c where "c = nat (sd_cursor s)"
    have c: "cursor_valid s" "c \<in> filled s Q"
      "\<forall>j \<in> filled s Q. if is_bid s then j \<le> c else c \<le> j"
      using cur False by (simp_all add: cursor_ok_def c_def)
    have cs: "sd_cursor s = int c" using c(1) by (simp add: c_def cursor_valid_def)
    have pr: "price_at s i = grid s i" "price_at s c = grid s c"
      using rng c(2) by (auto simp: ins price_at_grid)
    have "card (filled s Q) \<noteq> 0" using False by simp
    then have cur': "sd_cursor (level_filled i s) =
        (if better s (grid s i) (grid s c) then int i else int c)"
      using c(1) n pr by (simp add: level_filled_def Let_def c_def [symmetric] cs cursor_valid_def
          better_def is_bid_def price_at_def)
    have bet: "better s (grid s i) (grid s c) \<longleftrightarrow> (if is_bid s then c < i else i < c)"
      using t by (auto simp: better_def grid_def)
    have cn: "c < length (sd_dense s)" using c(2) by (simp add: filled_def)
    show ?thesis
      unfolding cursor_ok_def fs bd ins
      using i cn c(2,3) by (auto simp: cur' bet cursor_valid_def)
  qed
qed

lemma scan_up:
  "0 \<le> i \<Longrightarrow> length dense \<le> fuel + nat i \<Longrightarrow>
   (case scan_dense fuel dense 1 i of
      None \<Rightarrow> \<forall>j. nat i \<le> j \<and> j < length dense \<longrightarrow> lv_empty (dense ! j)
    | Some k \<Rightarrow> i \<le> k \<and> k < int (length dense) \<and> \<not> lv_empty (dense ! nat k) \<and>
        (\<forall>j. nat i \<le> j \<and> j < nat k \<longrightarrow> lv_empty (dense ! j)))"
proof (induction fuel arbitrary: i)
  case 0
  then show ?case by auto
next
  case (Suc fuel)
  have step: "nat i \<le> j \<longleftrightarrow> j = nat i \<or> nat (i + 1) \<le> j" for j using Suc.prems(1) by auto
  have "0 \<le> i + 1" "length dense \<le> fuel + nat (i + 1)" using Suc.prems by linarith+
  note IH = Suc.IH [OF this]
  show ?case
  proof (cases "scan_dense fuel dense 1 (i + 1)")
    case None
    with IH Suc.prems show ?thesis by (auto simp: step)
  next
    case (Some k)
    with IH have k: "i + 1 \<le> k" "k < int (length dense)" "\<not> lv_empty (dense ! nat k)"
      "\<And>j. nat (i + 1) \<le> j \<Longrightarrow> j < nat k \<Longrightarrow> lv_empty (dense ! j)" by auto
    then have "i \<le> k" "i < int (length dense)" by linarith+
    with k Some Suc.prems show ?thesis by (auto simp: step)
  qed
qed

lemma scan_down:
  "i < int (length dense) \<Longrightarrow> i < int fuel \<Longrightarrow>
   (case scan_dense fuel dense (-1) i of
      None \<Rightarrow> \<forall>j. int j \<le> i \<longrightarrow> lv_empty (dense ! j)
    | Some k \<Rightarrow> 0 \<le> k \<and> k \<le> i \<and> \<not> lv_empty (dense ! nat k) \<and>
        (\<forall>j. k < int j \<and> int j \<le> i \<longrightarrow> lv_empty (dense ! j)))"
proof (induction fuel arbitrary: i)
  case 0
  then show ?case by auto
next
  case (Suc fuel)
  show ?case
  proof (cases "0 \<le> i")
    case True
    then have step: "int j \<le> i \<longleftrightarrow> j = nat i \<or> int j \<le> i - 1" for j by auto
    show ?thesis
      using Suc.IH [of "i - 1"] Suc.prems True by (auto simp: step split: option.splits)
  qed (use Suc.prems in auto)
qed

lemma level_emptied_cursor:
  assumes i: "i \<in> filled s Q" and del: "filled s Q' = filled s Q - {i}"
    and n: "sd_nonempty s = card (filled s Q)" and cur: "cursor_ok s Q"
    and emp: "\<And>j. j < length (sd_dense s) \<Longrightarrow> lv_empty (sd_dense s ! j) \<longleftrightarrow> j \<notin> filled s Q'"
  shows "cursor_ok (level_emptied i s) Q'"
proof -
  let ?n = "length (sd_dense s)"
  have fs: "filled (level_emptied i s) Q' = filled s Q'" and bd: "is_bid (level_emptied i s) = is_bid s"
    using same_shapeD [OF level_emptied_frame(1)] by blast+
  define c where "c = nat (sd_cursor s)"
  have c: "cursor_valid s" "c \<in> filled s Q"
    "\<forall>j \<in> filled s Q. if is_bid s then j \<le> c else c \<le> j"
    using cur i by (auto simp: cursor_ok_def c_def split: if_splits)
  have cs: "sd_cursor s = int c" using c(1) by (simp add: c_def cursor_valid_def)
  have lt: "j \<in> filled s R \<Longrightarrow> j < ?n" for j R by (simp add: filled_def)
  have n': "sd_nonempty s - 1 = card (filled s Q')"
    using n i by (simp add: del)
  show ?thesis
  proof (cases "filled s Q' = {}")
    case True
    then have "level_emptied i s = reset_cursor (s\<lparr> sd_nonempty := sd_nonempty s - 1 \<rparr>)"
      using n' by (simp add: level_emptied_def Let_def)
    with True show ?thesis unfolding cursor_ok_def fs by simp
  next
    case False
    then have nz: "sd_nonempty s - 1 \<noteq> 0" using n' by simp
    show ?thesis
    proof (cases "i = c")
      case False
      then have "level_emptied i s = s\<lparr> sd_nonempty := sd_nonempty s - 1 \<rparr>"
        using nz cs by (simp add: level_emptied_def Let_def)
      with False c i \<open>filled s Q' \<noteq> {}\<close> show ?thesis
        unfolding cursor_ok_def fs bd by (auto simp: del c_def cursor_valid_def)
    next
      case True
      obtain d where d: "d \<in> filled s Q'" using False by blast
      let ?step = "if is_bid s then -1 else 1 :: int"
      have le: "level_emptied i s =
          (case scan_dense ?n (sd_dense s) ?step (int c + ?step) of
             Some k \<Rightarrow> s\<lparr> sd_nonempty := sd_nonempty s - 1, sd_cursor := k \<rparr>
           | None \<Rightarrow> reset_cursor (s\<lparr> sd_nonempty := sd_nonempty s - 1 \<rparr>))"
        using nz cs True by (auto simp: level_emptied_def Let_def is_bid_def split: option.splits)
      have cn: "c < ?n" using c(2) lt by blast
      have dn: "d < ?n" "d \<noteq> c" "if is_bid s then d \<le> c else c \<le> d"
        using d c(3) True lt by (auto simp: del)
      show ?thesis
      proof (cases "is_bid s")
        case bid: True
        have sd: "case scan_dense ?n (sd_dense s) (-1) (int c - 1) of
            None \<Rightarrow> \<forall>j. int j \<le> int c - 1 \<longrightarrow> lv_empty (sd_dense s ! j)
          | Some k \<Rightarrow> 0 \<le> k \<and> k \<le> int c - 1 \<and> \<not> lv_empty (sd_dense s ! nat k) \<and>
              (\<forall>j. k < int j \<and> int j \<le> int c - 1 \<longrightarrow> lv_empty (sd_dense s ! j))"
          by (rule scan_down) (use cn in auto)
        have nd: "\<not> lv_empty (sd_dense s ! d)" "int d \<le> int c - 1" using emp dn d bid by auto
        then obtain k where k: "scan_dense ?n (sd_dense s) (-1) (int c - 1) = Some k"
          using sd by (auto split: option.splits)
        with sd have kk: "0 \<le> k" "k \<le> int c - 1" "\<not> lv_empty (sd_dense s ! nat k)"
          "\<forall>j. k < int j \<and> int j \<le> int c - 1 \<longrightarrow> lv_empty (sd_dense s ! j)" by auto
        have "nat k \<in> filled s Q'" using emp [of "nat k"] kk cn by auto
        moreover have "j \<le> nat k" if j: "j \<in> filled s Q'" for j
        proof (rule ccontr)
          assume "\<not> j \<le> nat k"
          moreover have "j \<le> c" "j \<noteq> c" using j c(3) bid True by (auto simp: del)
          ultimately have "lv_empty (sd_dense s ! j)" using kk(1,4) by auto
          with emp [of j] j lt show False by blast
        qed
        ultimately show ?thesis
          using kk(1,2) cn bid k unfolding cursor_ok_def fs bd
          by (auto simp: le cursor_valid_def)
      next
        case ask: False
        have sd: "case scan_dense ?n (sd_dense s) 1 (int c + 1) of
            None \<Rightarrow> \<forall>j. nat (int c + 1) \<le> j \<and> j < ?n \<longrightarrow> lv_empty (sd_dense s ! j)
          | Some k \<Rightarrow> int c + 1 \<le> k \<and> k < int ?n \<and> \<not> lv_empty (sd_dense s ! nat k) \<and>
              (\<forall>j. nat (int c + 1) \<le> j \<and> j < nat k \<longrightarrow> lv_empty (sd_dense s ! j))"
          by (rule scan_up) auto
        have nd: "\<not> lv_empty (sd_dense s ! d)" "nat (int c + 1) \<le> d" using emp dn d ask by auto
        then obtain k where k: "scan_dense ?n (sd_dense s) 1 (int c + 1) = Some k"
          using sd dn(1) by (auto split: option.splits)
        with sd have kk: "int c + 1 \<le> k" "k < int ?n" "\<not> lv_empty (sd_dense s ! nat k)"
          "\<forall>j. nat (int c + 1) \<le> j \<and> j < nat k \<longrightarrow> lv_empty (sd_dense s ! j)" by auto
        have "nat k \<in> filled s Q'" using emp [of "nat k"] kk by auto
        moreover have "nat k \<le> j" if j: "j \<in> filled s Q'" for j
        proof (rule ccontr)
          assume "\<not> nat k \<le> j"
          moreover have "c \<le> j" "j \<noteq> c" using j c(3) ask True by (auto simp: del)
          ultimately have "lv_empty (sd_dense s ! j)" using kk(4) by auto
          with emp [of j] j lt show False by blast
        qed
        ultimately show ?thesis
          using kk(1,2) ask k unfolding cursor_ok_def fs bd
          by (auto simp: le cursor_valid_def)
      qed
    qed
  qed
qed

section \<open>Joining and leaving a queue\<close>

lemma filled_upd:
  assumes "geom_ok s" "i < length (sd_dense s)"
  shows "filled s (Q(grid s i := q)) = (if q = [] then filled s Q - {i} else insert i (filled s Q))"
  using assms grid_inj [OF assms(1)] by (auto simp: filled_def)

lemma filled_upd_overflow:
  assumes "geom_ok s" "index_of s p = kOverflowLevel"
  shows "filled s (Q(p := q)) = filled s Q"
  using assms index_of_grid(3) [OF assms(1)] by (auto simp: filled_def)

lemma set_level_idx_payload:
  "payload (set_level_idx x i h y) = (if y = x then (payload (h x))\<lparr> o_level_idx := i \<rparr> else payload (h y))"
  by (simp add: set_level_idx_def payload_def)

lemma set_level_idx_other: "y \<noteq> x \<Longrightarrow> set_level_idx x i h y = h y"
  by (simp add: set_level_idx_def)

lemma cursor_ok_cong:
  "same_shape s s' \<Longrightarrow> sd_cursor s' = sd_cursor s \<Longrightarrow> filled s Q' = filled s Q \<Longrightarrow>
   cursor_ok s' Q' = cursor_ok s Q"
  using same_shapeD [of s s'] by (simp add: cursor_ok_def cursor_valid_def)

lemma sd_push_ok:
  assumes ok: "side_ok h s Q" and x: "\<And>p. x \<notin> set (Q p)"
    and price: "o_price (h x) = p" "is_i32 p" and room: "fits32 (Q p @ [x])"
    and res: "sd_push x (h, s) = (h', s')"
  shows "side_ok h' s' (Q(p := Q p @ [x]))"
    "payload (h' x) = (payload (h x))\<lparr> o_level_idx := index_of s p \<rparr>"
    "\<And>y. y \<noteq> x \<Longrightarrow> payload (h' y) = payload (h y)"
    "\<And>y. y \<noteq> x \<Longrightarrow> y \<notin> set (Q p) \<Longrightarrow> h' y = h y"
    "same_shape s s'"
proof -
  note D = side_ok_D [OF ok]
  let ?Q = "Q(p := Q p @ [x])" and ?h = "set_level_idx x (index_of s p) h"
  have ok': "side_ok ?h s Q"
    by (rule side_ok_frame [OF ok]) (metis set_level_idx_other x)
  note D' = side_ok_D [OF ok']
  have other: "y \<notin> insert x (set (Q p))" if "y \<in> set (Q r)" "r \<noteq> p" for y r
    using queues_disjoint [OF ok that(1), of p] that x by blast
  have core: "side_ok h' s' ?Q \<and> (\<forall>y. payload (h' y) = payload (?h y)) \<and>
      (\<forall>y. y \<notin> insert x (set (Q p)) \<longrightarrow> h' y = ?h y) \<and> same_shape s s'"
  proof (cases rule: index_of_cases [OF D(1), of p])
    case 1
    define lv where "lv = (case om_get p (sd_overflow s) of Some lv \<Rightarrow> lv | None \<Rightarrow> lv_new)"
    obtain lv' where lv': "lv_push_back x (?h, lv) = (h', lv')"
      and s'1: "sd_overflow s' = om_set p lv' (sd_overflow s)"
      and s'2: "sd_dense s' = sd_dense s" "sd_cursor s' = sd_cursor s" "sd_nonempty s' = sd_nonempty s"
      and sh: "same_shape s s'"
      using res price(1) 1(1)
      by (auto simp: sd_push_def Let_def lv_def same_shape_def set_level_idx_def split: prod.splits if_splits)
    have lv: "lv_ok ?h lv (Q p)"
    proof (cases "om_get p (sd_overflow s)")
      case None
      with D'(5) [OF 1(1) None] show ?thesis by (simp add: lv_def)
    next
      case (Some lw)
      from D'(4) [OF Some] have "lv_ok ?h lw (Q p)" by blast
      then show ?thesis by (simp add: lv_def Some)
    qed
    note push = lv_push_back_ok [OF lv x room lv']
    note S = same_shapeD [OF sh]
    have pay: "payload (h' y) = payload (?h y)" for y using push(2) by blast
    have attr: "o_price (h' y) = o_price (?h y)" "o_level_idx (h' y) = o_level_idx (?h y)" for y
      using pay [of y] by (simp_all add: payload_eq)
    have fr: "lv_ok h' lw (Q r)" if "lv_ok ?h lw (Q r)" "r \<noteq> p" for lw r
      by (rule lv_ok_frame [OF that(1)]) (use push(3) other that(2) in blast)
    have fl: "filled s ?Q = filled s Q" by (rule filled_upd_overflow [OF D(1) 1(1)])
    have "side_ok h' s' ?Q"
    proof (rule side_ok_I)
      show "geom_ok s'" using D(1) S by simp
      show "om_wf (sd_overflow s')" using D(2) s'1 by simp
      show "lv_ok h' (sd_dense s' ! i) (?Q (grid s' i))" if "i < length (sd_dense s')" for i
        using that D'(3) fr 1(2) S s'2 by auto
      show "index_of s' r = kOverflowLevel \<and> ?Q r \<noteq> [] \<and> lv_ok h' lw (?Q r)"
        if "om_get r (sd_overflow s') = Some lw" for r lw
        using that push(1) D'(4) fr 1(1) by (auto simp: s'1 om_get_set [OF D(2)] S(1) split: if_splits)
      show "?Q r = []" if "index_of s' r = kOverflowLevel" "om_get r (sd_overflow s') = None" for r
        using that D(5) by (auto simp: s'1 om_get_set [OF D(2)] S(1) split: if_splits)
      show "o_price (h' y) = r \<and> o_level_idx (h' y) = index_of s' r \<and> is_i32 r"
        if "y \<in> set (?Q r)" for r y
        using that D(6) [of y r] price x
        by (auto simp: attr S(1) set_level_idx_def split: if_splits)
      show "sd_nonempty s' = card (filled s' ?Q)" using D(7) fl S(7) s'2 by simp
      show "cursor_ok s' ?Q" using D(8) cursor_ok_cong [OF sh s'2(2) fl] by simp
    qed
    with pay push(3) sh show ?thesis by blast
  next
    case (2 i)
    let ?lv = "sd_dense s ! i"
    define t where "t lv' = s\<lparr> sd_dense := (sd_dense s)[i := lv'] \<rparr>" for lv'
    obtain lv' where lv': "lv_push_back x (?h, ?lv) = (h', lv')"
      and s': "s' = (if lv_empty ?lv then level_filled i (t lv') else t lv')"
      using res price(1) 2
      by (auto simp: sd_push_def Let_def t_def set_level_idx_def split: prod.splits if_splits)
    have lv: "lv_ok ?h ?lv (Q p)" using D'(3) [OF 2(1)] 2(2) by simp
    note push = lv_push_back_ok [OF lv x room lv']
    have sh0: "same_shape s (t lv')" by (simp add: t_def)
    have sh: "same_shape s s'"
      using sh0 same_shape_trans [OF sh0 level_filled_frame(1)] by (simp add: s')
    note S = same_shapeD [OF sh] and S0 = same_shapeD [OF sh0]
    have s'2: "sd_dense s' = (sd_dense s)[i := lv']" "sd_overflow s' = sd_overflow s"
      by (simp_all add: s' t_def)
    have pay: "payload (h' y) = payload (?h y)" for y using push(2) by blast
    have attr: "o_price (h' y) = o_price (?h y)" "o_level_idx (h' y) = o_level_idx (?h y)" for y
      using pay [of y] by (simp_all add: payload_eq)
    have fr: "lv_ok h' lw (Q r)" if "lv_ok ?h lw (Q r)" "r \<noteq> p" for lw r
      by (rule lv_ok_frame [OF that(1)]) (use push(3) other that(2) in blast)
    have fl: "filled s ?Q = insert i (filled s Q)"
      using filled_upd [OF D(1) 2(1)] 2(2) by simp
    have emp: "lv_empty ?lv \<longleftrightarrow> i \<notin> filled s Q"
      using lv_ok_empty [OF lv] 2 by (simp add: filled_def)
    have attrs: "o_price (h' y) = r \<and> o_level_idx (h' y) = index_of s r \<and> is_i32 r"
      if "y \<in> set (?Q r)" for r y
      using that D(6) [of y r] price x
      by (auto simp: attr set_level_idx_def split: if_splits)
    have rng: "is_i32 (grid s j)" if "j \<in> filled s ?Q" for j
      using that attrs by (auto simp: filled_def) (metis last_in_set)
    have cur: "sd_nonempty s' = card (filled s' ?Q) \<and> cursor_ok s' ?Q"
    proof (cases "lv_empty ?lv")
      case True
      have nt: "sd_nonempty (t lv') = sd_nonempty s" by (simp add: t_def)
      have "cursor_ok (t lv') Q"
        using D(8) cursor_ok_cong [OF sh0, of Q Q] by (simp add: t_def)
      then have "cursor_ok (level_filled i (t lv')) ?Q"
        using D(1,7) 2(1) fl emp True rng
        by (intro level_filled_cursor [where Q = Q]) (simp_all add: S0 nt)
      moreover have "sd_nonempty s' = card (filled s' ?Q)"
        using D(7) emp True fl by (simp add: s' S0 same_shapeD [OF level_filled_frame(1)] nt)
      ultimately show ?thesis using True by (simp add: s')
    next
      case False
      then have "i \<in> filled s Q" using emp by blast
      with fl have f: "filled s ?Q = filled s Q" by auto
      have "cursor_ok (t lv') ?Q" "sd_nonempty (t lv') = sd_nonempty s"
        using D(8) cursor_ok_cong [OF sh0 _ f] by (simp_all add: t_def)
      with False D(7) f show ?thesis by (simp add: s' S0)
    qed
    have "side_ok h' s' ?Q"
    proof (rule side_ok_I)
      show "geom_ok s'" using D(1) S by simp
      show "om_wf (sd_overflow s')" using D(2) s'2 by simp
      show "lv_ok h' (sd_dense s' ! j) (?Q (grid s' j))" if "j < length (sd_dense s')" for j
        using that D'(3) [of j] fr push(1) 2 grid_inj [OF D(1)] S s'2
        by (cases "j = i") auto
      show "index_of s' r = kOverflowLevel \<and> ?Q r \<noteq> [] \<and> lv_ok h' lw (?Q r)"
        if "om_get r (sd_overflow s') = Some lw" for r lw
        using that D'(4) [of r lw] fr 2(5) by (auto simp: s'2 S(1))
      show "?Q r = []" if "index_of s' r = kOverflowLevel" "om_get r (sd_overflow s') = None" for r
        using that D(5) [of r] 2(5) by (auto simp: s'2 S(1))
      show "o_price (h' y) = r \<and> o_level_idx (h' y) = index_of s' r \<and> is_i32 r"
        if "y \<in> set (?Q r)" for r y
        using attrs [OF that] by (simp add: S(1))
    qed (use cur in auto)
    with pay push(3) sh show ?thesis by blast
  qed
  then show "side_ok h' s' ?Q" "same_shape s s'" by blast+
  show "payload (h' x) = (payload (h x))\<lparr> o_level_idx := index_of s p \<rparr>"
    "\<And>y. y \<noteq> x \<Longrightarrow> payload (h' y) = payload (h y)"
    using core by (auto simp: set_level_idx_payload)
  show "\<And>y. y \<noteq> x \<Longrightarrow> y \<notin> set (Q p) \<Longrightarrow> h' y = h y"
    using core by (auto simp: set_level_idx_other)
qed

lemma sd_pop_ok:
  assumes ok: "side_ok h s Q" and q: "Q p = l @ x # r"
    and res: "sd_pop x (h, s) = (h', s')"
  shows "side_ok h' s' (Q(p := l @ r))"
    "\<And>y. payload (h' y) = payload (h y)"
    "\<And>y. y \<notin> set (Q p) \<Longrightarrow> h' y = h y"
    "same_shape s s'"
proof -
  note D = side_ok_D [OF ok]
  let ?Q = "Q(p := l @ r)"
  have x: "x \<in> set (Q p)" using q by simp
  have at: "o_price (h x) = p" "o_level_idx (h x) = index_of s p"
    using D(6) [OF x] by auto
  have core: "side_ok h' s' ?Q \<and> (\<forall>y. payload (h' y) = payload (h y)) \<and>
      (\<forall>y. y \<notin> set (Q p) \<longrightarrow> h' y = h y) \<and> same_shape s s'"
  proof (cases rule: index_of_cases [OF D(1), of p])
    case 1
    obtain lv where lv: "om_get p (sd_overflow s) = Some lv"
      using D(5) [OF 1(1)] q by (cases "om_get p (sd_overflow s)") auto
    have lvok: "lv_ok h lv (l @ x # r)" using D(4) [OF lv] q by simp
    obtain lv' where lv': "lv_unlink x (h, lv) = (h', lv')"
      and s': "s' = s\<lparr> sd_overflow := (if lv_empty lv' then om_del p (sd_overflow s)
                                       else om_set p lv' (sd_overflow s)) \<rparr>"
      using res at 1(1) lv by (auto simp: sd_pop_def Let_def split: prod.splits)
    note unl = lv_unlink_ok [OF lvok lv']
    have sh: "same_shape s s'" by (simp add: s')
    note S = same_shapeD [OF sh]
    have attr: "o_price (h' y) = o_price (h y)" "o_level_idx (h' y) = o_level_idx (h y)" for y
      using unl(2) by (auto simp: payload_eq)
    have fr: "lv_ok h' lw (Q b)" if "lv_ok h lw (Q b)" "b \<noteq> p" for lw b
      by (rule lv_ok_frame [OF that(1)])
        (use unl(3) q that(2) queues_disjoint [OF ok] in metis)
    have emp: "lv_empty lv' \<longleftrightarrow> l @ r = []" by (rule lv_ok_empty [OF unl(1)])
    have get: "om_get b (sd_overflow s') =
        (if b = p then (if l @ r = [] then None else Some lv') else om_get b (sd_overflow s))" for b
      using emp by (simp add: s' om_get_set [OF D(2)] om_get_del [OF D(2)])
    have fl: "filled s ?Q = filled s Q" by (rule filled_upd_overflow [OF D(1) 1(1)])
    have "side_ok h' s' ?Q"
    proof (rule side_ok_I)
      show "geom_ok s'" using D(1) S by simp
      show "om_wf (sd_overflow s')" using D(2) by (simp add: s')
      show "lv_ok h' (sd_dense s' ! i) (?Q (grid s' i))" if "i < length (sd_dense s')" for i
        using that D(3) fr 1(2) S by (auto simp: s')
      show "index_of s' b = kOverflowLevel \<and> ?Q b \<noteq> [] \<and> lv_ok h' lw (?Q b)"
        if "om_get b (sd_overflow s') = Some lw" for b lw
        using that unl(1) D(4) fr 1(1) by (auto simp: get S(1) split: if_splits)
      show "?Q b = []" if "index_of s' b = kOverflowLevel" "om_get b (sd_overflow s') = None" for b
        using that D(5) by (auto simp: get S(1) split: if_splits)
      show "o_price (h' y) = b \<and> o_level_idx (h' y) = index_of s' b \<and> is_i32 b"
        if "y \<in> set (?Q b)" for b y
        using that D(6) [of y b] q by (auto simp: attr S(1) split: if_splits)
      show "sd_nonempty s' = card (filled s' ?Q)" using D(7) fl S(7) by (simp add: s')
      show "cursor_ok s' ?Q" using D(8) cursor_ok_cong [OF sh _ fl] by (simp add: s')
    qed
    with unl(2,3) q sh show ?thesis by auto
  next
    case (2 i)
    let ?lv = "sd_dense s ! i"
    define t where "t lv' = s\<lparr> sd_dense := (sd_dense s)[i := lv'] \<rparr>" for lv'
    obtain lv' where lv': "lv_unlink x (h, ?lv) = (h', lv')"
      and s': "s' = (if lv_empty lv' then level_emptied i (t lv') else t lv')"
      using res at 2 by (auto simp: sd_pop_def Let_def t_def split: prod.splits)
    have lvok: "lv_ok h ?lv (l @ x # r)" using D(3) [OF 2(1)] 2(2) q by simp
    note unl = lv_unlink_ok [OF lvok lv']
    have sh0: "same_shape s (t lv')" by (simp add: t_def)
    have sh: "same_shape s s'"
      using sh0 same_shape_trans [OF sh0 level_emptied_frame(1)] by (simp add: s')
    note S = same_shapeD [OF sh] and S0 = same_shapeD [OF sh0]
    have s'2: "sd_dense s' = (sd_dense s)[i := lv']" "sd_overflow s' = sd_overflow s"
      by (simp_all add: s' t_def)
    have attr: "o_price (h' y) = o_price (h y)" "o_level_idx (h' y) = o_level_idx (h y)" for y
      using unl(2) by (auto simp: payload_eq)
    have fr: "lv_ok h' lw (Q b)" if "lv_ok h lw (Q b)" "b \<noteq> p" for lw b
      by (rule lv_ok_frame [OF that(1)])
        (use unl(3) q that(2) queues_disjoint [OF ok] in metis)
    have emp: "lv_empty lv' \<longleftrightarrow> l @ r = []" by (rule lv_ok_empty [OF unl(1)])
    have inQ: "i \<in> filled s Q" using 2 q by (simp add: filled_def)
    have fl: "filled s ?Q = (if l @ r = [] then filled s Q - {i} else filled s Q)"
      using filled_upd [OF D(1) 2(1), of Q "l @ r"] 2(2) inQ by auto
    have lvs: "lv_ok h' (sd_dense s' ! j) (?Q (grid s j))" if "j < length (sd_dense s)" for j
      using that D(3) [of j] fr unl(1) 2 grid_inj [OF D(1)] s'2 by (cases "j = i") auto
    have cur: "sd_nonempty s' = card (filled s' ?Q) \<and> cursor_ok s' ?Q"
    proof (cases "lv_empty lv'")
      case True
      have nt: "sd_nonempty (t lv') = sd_nonempty s" "sd_dense (t lv') = (sd_dense s)[i := lv']"
        by (simp_all add: t_def)
      have c0: "cursor_ok (t lv') Q"
        using D(8) cursor_ok_cong [OF sh0, of Q Q] by (simp add: t_def)
      have e: "lv_empty (sd_dense (t lv') ! j) \<longleftrightarrow> j \<notin> filled (t lv') ?Q"
        if "j < length (sd_dense (t lv'))" for j
        using lv_ok_empty [OF lvs [of j]] that by (simp add: s'2 nt S0 filled_def)
      have "cursor_ok (level_emptied i (t lv')) ?Q"
        by (rule level_emptied_cursor [where Q = Q, OF _ _ _ c0 e])
          (use inQ fl emp True D(7) in \<open>simp_all add: S0 nt\<close>)
      moreover have "sd_nonempty s' = card (filled s' ?Q)"
        using D(7) emp True fl inQ by (simp add: s' S0 same_shapeD [OF level_emptied_frame(1)] nt)
      ultimately show ?thesis using True by (simp add: s')
    next
      case False
      with fl emp have f: "filled s ?Q = filled s Q" by auto
      have "cursor_ok (t lv') ?Q" "sd_nonempty (t lv') = sd_nonempty s"
        using D(8) cursor_ok_cong [OF sh0 _ f] by (simp_all add: t_def)
      with False D(7) f show ?thesis by (simp add: s' S0)
    qed
    have "side_ok h' s' ?Q"
    proof (rule side_ok_I)
      show "geom_ok s'" using D(1) S by simp
      show "om_wf (sd_overflow s')" using D(2) s'2 by simp
      show "lv_ok h' (sd_dense s' ! j) (?Q (grid s' j))" if "j < length (sd_dense s')" for j
        using lvs that by (simp add: S)
      show "index_of s' b = kOverflowLevel \<and> ?Q b \<noteq> [] \<and> lv_ok h' lw (?Q b)"
        if "om_get b (sd_overflow s') = Some lw" for b lw
        using that D(4) [of b lw] fr 2(5) by (auto simp: s'2 S(1))
      show "?Q b = []" if "index_of s' b = kOverflowLevel" "om_get b (sd_overflow s') = None" for b
        using that D(5) [of b] 2(5) by (auto simp: s'2 S(1))
      show "o_price (h' y) = b \<and> o_level_idx (h' y) = index_of s' b \<and> is_i32 b"
        if "y \<in> set (?Q b)" for b y
        using that D(6) [of y b] q by (auto simp: attr S(1) split: if_splits)
    qed (use cur in auto)
    with unl(2,3) q sh show ?thesis by auto
  qed
  then show "side_ok h' s' ?Q" "same_shape s s'" "\<And>y. payload (h' y) = payload (h y)"
    "\<And>y. y \<notin> set (Q p) \<Longrightarrow> h' y = h y" by blast+
qed

lemma sd_resize_ok:
  assumes ok: "side_ok h s Q" and x: "x \<in> set (Q p)" and lv: "level_of h s x = Some lv"
  shows "side_ok (set_shares x n h) (set_level_of h x (lv_resize (o_shares (h x)) n lv) s) Q"
    "same_shape s (set_level_of h x lv' s)"
proof -
  note D = side_ok_D [OF ok]
  let ?h = "set_shares x n h" and ?lv = "lv_resize (o_shares (h x)) n lv"
  let ?s = "set_level_of h x ?lv s"
  have at: "o_price (h x) = p" "o_level_idx (h x) = index_of s p"
    using D(6) [OF x] by auto
  have lvp: "lv_ok h lv (Q p)" using level_at_ok(3) [OF ok] level_of_ok [OF ok x] lv by simp
  have new: "lv_ok ?h ?lv (Q p)" by (rule lv_resize_ok [OF lvp x])
  have fr: "lv_ok ?h lw (Q b)" if "lv_ok h lw (Q b)" "b \<noteq> p" for lw b
  proof (rule lv_ok_frame [OF that(1)], rule ballI)
    fix y assume "y \<in> set (Q b)"
    then have "y \<noteq> x" using that(2) queues_disjoint [OF ok x, of b] by blast
    then show "?h y = h y" by (simp add: set_shares_def)
  qed
  have sh: "same_shape s (set_level_of h x lw s)" for lw by (simp add: set_level_of_def)
  show "same_shape s (set_level_of h x lv' s)" by (rule sh)
  note S = same_shapeD [OF sh [of ?lv]]
  have attr: "o_price (?h y) = o_price (h y)" "o_level_idx (?h y) = o_level_idx (h y)" for y
    by (simp_all add: set_shares_def)
  have cur: "sd_cursor ?s = sd_cursor s" "sd_nonempty ?s = sd_nonempty s"
    by (simp_all add: set_level_of_def)
  show "side_ok ?h ?s Q"
  proof (rule side_ok_I)
    show "geom_ok ?s" using D(1) S by simp
    show "om_wf (sd_overflow ?s)" using D(2) by (simp add: set_level_of_def)
    show "lv_ok ?h (sd_dense ?s ! i) (Q (grid ?s i))" if "i < length (sd_dense ?s)" for i
    proof (cases rule: index_of_cases [OF D(1), of p])
      case 1
      then show ?thesis using that D(3) [of i] fr S at by (auto simp: set_level_of_def)
    next
      case (2 j)
      have i: "i < length (sd_dense s)" using that S(10) by simp
      show ?thesis
      proof (cases "i = j")
        case True
        then show ?thesis using 2 at new i S(2) by (simp add: set_level_of_def)
      next
        case False
        then have "grid s i \<noteq> p" using grid_inj [OF D(1) i 2(1)] 2(2) by blast
        with fr [OF D(3) [OF i]] 2 at False S(2) show ?thesis by (simp add: set_level_of_def)
      qed
    qed
    show "index_of ?s b = kOverflowLevel \<and> Q b \<noteq> [] \<and> lv_ok ?h lw (Q b)"
      if g: "om_get b (sd_overflow ?s) = Some lw" for b lw
    proof (cases "b = p \<and> index_of s p = kOverflowLevel")
      case True
      with g at have "lw = ?lv" by (simp add: set_level_of_def om_get_set [OF D(2)])
      with new x True show ?thesis unfolding S(1) by auto
    next
      case False
      then have "om_get b (sd_overflow s) = Some lw"
        using g at by (auto simp: set_level_of_def om_get_set [OF D(2)] split: if_splits)
      with D(4) [OF this] fr False show ?thesis by (auto simp: S(1))
    qed
    show "Q b = []" if "index_of ?s b = kOverflowLevel" "om_get b (sd_overflow ?s) = None" for b
    proof -
      have "om_get b (sd_overflow s) = None"
        using that(2) by (auto simp: set_level_of_def om_get_set [OF D(2)] split: if_splits)
      with D(5) that(1) show ?thesis unfolding S(1) by blast
    qed
    show "o_price (?h y) = b \<and> o_level_idx (?h y) = index_of ?s b \<and> is_i32 b"
      if "y \<in> set (Q b)" for b y
      using D(6) [OF that] by (simp add: attr S(1))
    show "sd_nonempty ?s = card (filled ?s Q)" using D(7) by (simp add: S(7) cur)
    show "cursor_ok ?s Q" using D(8) cursor_ok_cong [OF sh cur(1) refl] by simp
  qed
qed

section \<open>Prices in order\<close>

lemma queue_priced: "side_ok h s Q \<Longrightarrow> Q p \<noteq> [] \<Longrightarrow> is_i32 p"
  using side_ok_D(6) [of h s Q "hd (Q p)" p] by simp

lemma overflow_keys:
  assumes ok: "side_ok h s Q"
  shows "p \<in> fst ` set (sd_overflow s) \<longleftrightarrow> index_of s p = kOverflowLevel \<and> Q p \<noteq> []"
proof -
  note D = side_ok_D [OF ok]
  have "p \<in> fst ` set (sd_overflow s) \<longleftrightarrow> (\<exists>lv. om_get p (sd_overflow s) = Some lv)"
    using om_get_None [of p "sd_overflow s"] by auto
  then show ?thesis using D(4) [of p] D(5) [of p] by (metis not_None_eq)
qed

lemma best_ok:
  assumes ok: "side_ok h s Q"
  shows "best s = None \<Longrightarrow> Q p = []"
    "best s = Some p \<Longrightarrow> Q p \<noteq> []"
    "best s = Some p \<Longrightarrow> Q p' \<noteq> [] \<Longrightarrow> p' = p \<or> better s p p'"
proof -
  note D = side_ok_D [OF ok]
  let ?ov = "sd_overflow s"
  define c where "c = nat (sd_cursor s)"
  have cur: "filled s Q \<noteq> {} \<Longrightarrow> cursor_valid s \<and> c \<in> filled s Q \<and> price_at s c = grid s c"
    using D(8) queue_priced [OF ok] price_at_grid
    by (auto simp: cursor_ok_def c_def filled_def split: if_splits)
  have ne: "sd_nonempty s > 0 \<longleftrightarrow> filled s Q \<noteq> {}"
    using D(7) by (simp add: card_gt_0_iff)
  have dense_le: "grid s i = grid s c \<or> better s (grid s c) (grid s i)" if "i \<in> filled s Q" for i
  proof -
    have "banded s" using that by (auto simp: filled_def banded_def)
    then have t: "0 < sd_tick s" using D(1) by (simp add: geom_ok_def)
    have "if is_bid s then i \<le> c else c \<le> i"
      using D(8) that by (auto simp: cursor_ok_def c_def split: if_splits)
    then show ?thesis using t by (auto simp: grid_def better_def split: if_splits)
  qed
  define ob where "ob = (if is_bid s then fst (last ?ov) else fst (hd ?ov))"
  have o_key: "?ov \<noteq> [] \<Longrightarrow> index_of s ob = kOverflowLevel \<and> Q ob \<noteq> []"
    using overflow_keys [OF ok, of ob] hd_in_set [of ?ov] last_in_set [of ?ov]
    unfolding ob_def by (metis imageI)
  have o_le: "p = ob \<or> better s ob p" if k: "p \<in> fst ` set ?ov" for p
  proof -
    obtain lv where m: "(p, lv) \<in> set ?ov" using k by force
    then have "?ov \<noteq> []" by auto
    then show ?thesis
      using om_hd_least [OF D(2) _ m] om_last_greatest [OF D(2) _ m]
      by (auto simp: ob_def better_def)
  qed
  have b: "best s = (if filled s Q \<noteq> {} then
        (if ?ov \<noteq> [] \<and> better s ob (grid s c) then Some ob else Some (grid s c))
      else if ?ov \<noteq> [] then Some ob else None)"
    using cur unfolding best_def ne c_def [symmetric] ob_def [symmetric]
    by (auto simp: Let_def)
  have where_is: "(\<exists>i \<in> filled s Q. p = grid s i) \<or> p \<in> fst ` set ?ov" if "Q p \<noteq> []" for p
    using that overflow_keys [OF ok, of p]
    by (cases rule: index_of_cases [OF D(1), of p]) (auto simp: filled_def)
  show "best s = None \<Longrightarrow> Q p = []"
    using where_is [of p] by (auto simp: b split: if_splits)
  show "best s = Some p \<Longrightarrow> Q p \<noteq> []"
    using cur o_key by (auto simp: b filled_def split: if_splits)
  have tr: "better s x y \<Longrightarrow> better s y z \<Longrightarrow> better s x z" for x y z
    by (auto simp: better_def split: if_splits)
  have lin: "better s x y \<or> x = y \<or> better s y x" for x y
    by (auto simp: better_def split: if_splits)
  show "p' = p \<or> better s p p'" if bs: "best s = Some p" and q: "Q p' \<noteq> []"
  proof -
    from where_is [OF q] show ?thesis
    proof
      assume "\<exists>i \<in> filled s Q. p' = grid s i"
      then obtain i where i: "i \<in> filled s Q" "p' = grid s i" by blast
      then have le: "p' = grid s c \<or> better s (grid s c) p'" using dense_le by blast
      have "p = grid s c \<or> better s p (grid s c)"
        using bs i(1) by (auto simp: b split: if_splits)
      with le tr show ?thesis by metis
    next
      assume m: "p' \<in> fst ` set ?ov"
      then have "?ov \<noteq> []" by auto
      with o_le [OF m] show ?thesis
        using bs tr lin by (metis b option.inject)
    qed
  qed
qed

lemma better_irrefl: "\<not> better s p p"
  by (simp add: better_def)

lemma best_iff:
  assumes ok: "side_ok h s Q"
  shows "best s = Some p \<longleftrightarrow> Q p \<noteq> [] \<and> (\<forall>p'. Q p' \<noteq> [] \<longrightarrow> p' = p \<or> better s p p')"
proof
  assume "best s = Some p"
  with best_ok(2,3) [OF ok] show "Q p \<noteq> [] \<and> (\<forall>p'. Q p' \<noteq> [] \<longrightarrow> p' = p \<or> better s p p')" by blast
next
  assume p: "Q p \<noteq> [] \<and> (\<forall>p'. Q p' \<noteq> [] \<longrightarrow> p' = p \<or> better s p p')"
  then obtain b where b: "best s = Some b" using best_ok(1) [OF ok, of p] by (cases "best s") auto
  with best_ok(2,3) [OF ok b] p have "b = p \<or> (better s p b \<and> better s b p)" by metis
  then show "best s = Some p" using b by (auto simp: better_def split: if_splits)
qed

section \<open>Visiting every order\<close>

definition side_orders :: "side \<Rightarrow> (int \<Rightarrow> ptr list) \<Rightarrow> ptr list" where
  "side_orders s Q =
     concat (map (\<lambda>i. Q (grid s i)) [0..<length (sd_dense s)]) @
     concat (map (\<lambda>e. Q (fst e)) (sd_overflow s))"

text \<open>A visitor keeps the links when it changes the successor of no node but the one it is given.\<close>

definition keeps_links :: "(ptr \<Rightarrow> 's \<Rightarrow> 's) \<Rightarrow> ('s \<Rightarrow> heap) \<Rightarrow> bool" where
  "keeps_links fn hp \<longleftrightarrow>
     (\<forall>x y st. y \<noteq> x \<longrightarrow> o_next (hp (fn x st) y) = o_next (hp st y))"

lemma each_node_fold:
  assumes fn: "keeps_links fn hp"
  shows "dseg h pr q None \<Longrightarrow> distinct q \<Longrightarrow> \<forall>x \<in> set q. o_next (hp st x) = o_next (h x) \<Longrightarrow>
    each_node (length q) fn hp (hd_or q None) st = fold fn q st"
proof (induction q arbitrary: pr st)
  case (Cons x q)
  have "o_next (hp st x) = hd_or q None" using Cons.prems by simp
  moreover have "\<forall>y \<in> set q. o_next (hp (fn x st) y) = o_next (h y)"
    using Cons.prems fn unfolding keeps_links_def by (metis distinct.simps(2) list.set_intros(2))
  then have "each_node (length q) fn hp (hd_or q None) (fn x st) = fold fn q (fn x st)"
    using Cons.prems by (intro Cons.IH [of "Some x"]) auto
  ultimately show ?case by simp
qed simp

lemma fold_next:
  assumes fn: "keeps_links fn hp"
  shows "y \<notin> set q \<Longrightarrow> o_next (hp (fold fn q st) y) = o_next (hp st y)"
proof (induction q arbitrary: st)
  case (Cons x q)
  then show ?case using fn by (simp add: keeps_links_def)
qed simp

lemma each_level_fold:
  assumes fn: "keeps_links fn hp"
    and ok: "lv_ok h lv q" and ag: "\<forall>x \<in> set q. o_next (hp st x) = o_next (h x)"
  shows "each_node (unat (lv_count lv)) fn hp (lv_head lv) st = fold fn q st"
proof -
  have "each_node (length q) fn hp (hd_or q None) st = fold fn q st"
    by (rule each_node_fold [OF fn]) (use ok ag in \<open>auto simp: lv_ok_def\<close>)
  with ok lv_ok_count [OF ok] show ?thesis by (simp add: lv_ok_def)
qed

lemma each_dense_fold:
  assumes fn: "keeps_links fn hp"
  shows "list_all2 (lv_ok h) dense qs \<Longrightarrow> distinct (concat qs) \<Longrightarrow>
    remaining = length (filter (\<lambda>q. q \<noteq> []) qs) \<Longrightarrow>
    \<forall>x \<in> set (concat qs). o_next (hp st x) = o_next (h x) \<Longrightarrow>
    each_dense fn hp remaining dense st = fold fn (concat qs) st"
proof (induction dense arbitrary: qs remaining st)
  case (Cons lv dense)
  obtain q qs' where qs: "qs = q # qs'" and q: "lv_ok h lv q" "list_all2 (lv_ok h) dense qs'"
    using Cons.prems(1) by (auto simp: list_all2_Cons1)
  show ?case
  proof (cases "q = []")
    case True
    have n: "remaining = length (filter (\<lambda>q. q \<noteq> []) qs')" using Cons.prems(3) True by (simp add: qs)
    show ?thesis
    proof (cases "remaining = 0")
      case True
      then have "concat qs' = []" using n by (simp add: filter_empty_conv)
      then have "fold fn (concat qs') st = st" by (simp only: fold_simps)
      with True \<open>q = []\<close> show ?thesis by (simp add: qs)
    next
      case False
      have "each_dense fn hp remaining dense st = fold fn (concat qs') st"
        by (rule Cons.IH [OF q(2) _ n]) (use Cons.prems in \<open>simp_all add: qs\<close>)
      with False True show ?thesis by (simp add: qs lv_ok_empty [OF q(1)])
    qed
  next
    case False
    have "each_node (unat (lv_count lv)) fn hp (lv_head lv) st = fold fn q st"
      by (rule each_level_fold [OF fn q(1)]) (use Cons.prems in \<open>auto simp: qs\<close>)
    moreover have "\<forall>x \<in> set (concat qs'). o_next (hp (fold fn q st) x) = o_next (h x)"
    proof
      fix x assume x: "x \<in> set (concat qs')"
      then have "x \<notin> set q" using Cons.prems(2) by (auto simp: qs)
      with fold_next [OF fn, of x q] Cons.prems(4) x
      show "o_next (hp (fold fn q st) x) = o_next (h x)" by (simp add: qs)
    qed
    then have "each_dense fn hp (remaining - 1) dense (fold fn q st) = fold fn (concat qs') (fold fn q st)"
      using Cons.prems False by (intro Cons.IH [OF q(2)]) (simp_all add: qs)
    moreover have "remaining \<noteq> 0" using Cons.prems(3) False by (simp add: qs)
    ultimately show ?thesis
      using False by (simp add: qs lv_ok_empty [OF q(1)])
  qed
qed (simp add: list_all2_Nil)

lemma each_overflow_fold:
  assumes fn: "keeps_links fn hp"
  shows "\<forall>(p, lv) \<in> set ov. lv_ok h lv (Q p) \<Longrightarrow> distinct (concat (map (\<lambda>e. Q (fst e)) ov)) \<Longrightarrow>
    \<forall>x \<in> set (concat (map (\<lambda>e. Q (fst e)) ov)). o_next (hp st x) = o_next (h x) \<Longrightarrow>
    fold (\<lambda>(p, lv). each_node (unat (lv_count lv)) fn hp (lv_head lv)) ov st =
    fold fn (concat (map (\<lambda>e. Q (fst e)) ov)) st"
proof (induction ov arbitrary: st)
  case (Cons e ov)
  obtain p lv where e: "e = (p, lv)" by (cases e)
  have "each_node (unat (lv_count lv)) fn hp (lv_head lv) st = fold fn (Q p) st"
    by (rule each_level_fold [OF fn, of h]) (use Cons.prems in \<open>auto simp: e\<close>)
  moreover have "\<forall>x \<in> set (concat (map (\<lambda>e. Q (fst e)) ov)).
      o_next (hp (fold fn (Q p) st) x) = o_next (h x)"
  proof
    fix x assume x: "x \<in> set (concat (map (\<lambda>e. Q (fst e)) ov))"
    then have "x \<notin> set (Q p)" using Cons.prems(2) by (auto simp: e)
    with fold_next [OF fn, of x "Q p"] Cons.prems(3) x
    show "o_next (hp (fold fn (Q p) st) x) = o_next (h x)" by (auto simp: e)
  qed
  ultimately show ?case using Cons by (simp add: e)
qed simp

lemma distinct_concat_map:
  "distinct xs \<Longrightarrow> \<forall>i \<in> set xs. distinct (f i) \<Longrightarrow>
   \<forall>i \<in> set xs. \<forall>j \<in> set xs. i \<noteq> j \<longrightarrow> set (f i) \<inter> set (f j) = {} \<Longrightarrow>
   distinct (concat (map f xs))"
  by (induction xs) auto

lemma om_wf_distinct: "om_wf m \<Longrightarrow> distinct (map fst m)"
  by (simp add: om_wf_def strict_sorted_iff)

lemma queue_distinct: "side_ok h s Q \<Longrightarrow> distinct (Q p)"
  using level_at_ok(2,3) [of h s Q p] by (cases "level_at s p") (auto simp: lv_ok_def)

lemma side_orders_ok:
  assumes ok: "side_ok h s Q"
  shows "distinct (side_orders s Q)" "set (side_orders s Q) = (\<Union>p. set (Q p))"
proof -
  note D = side_ok_D [OF ok]
  let ?A = "concat (map (\<lambda>i. Q (grid s i)) [0..<length (sd_dense s)])"
  let ?B = "concat (map (\<lambda>e. Q (fst e)) (sd_overflow s))"
  have A: "distinct ?A"
    by (rule distinct_concat_map)
      (use queue_distinct [OF ok] queues_disjoint [OF ok] grid_inj [OF D(1)] in \<open>auto 0 3\<close>)
  have "?B = concat (map Q (map fst (sd_overflow s)))"
    by (simp add: comp_def)
  moreover have "distinct (concat (map Q (map fst (sd_overflow s))))"
    by (rule distinct_concat_map)
      (use om_wf_distinct [OF D(2)] queue_distinct [OF ok] queues_disjoint [OF ok] in auto)
  ultimately have B: "distinct ?B" by simp
  have ovk: "(p, lv) \<in> set (sd_overflow s) \<Longrightarrow> index_of s p = kOverflowLevel" for p lv
    using overflow_keys [OF ok, of p] by force
  have "set ?A \<inter> set ?B = {}"
  proof (rule ccontr)
    assume "set ?A \<inter> set ?B \<noteq> {}"
    then obtain x i p lv where "i < length (sd_dense s)" "x \<in> set (Q (grid s i))"
        "(p, lv) \<in> set (sd_overflow s)" "x \<in> set (Q p)" by auto
    then show False
      using queues_disjoint [OF ok] ovk index_of_grid(3) [OF D(1)] by metis
  qed
  with A B show "distinct (side_orders s Q)" by (simp add: side_orders_def)
  show "set (side_orders s Q) = (\<Union>p. set (Q p))"
  proof
    show "set (side_orders s Q) \<subseteq> (\<Union>p. set (Q p))" by (auto simp: side_orders_def)
    show "(\<Union>p. set (Q p)) \<subseteq> set (side_orders s Q)"
    proof
      fix x assume "x \<in> (\<Union>p. set (Q p))"
      then obtain p where p: "x \<in> set (Q p)" by blast
      show "x \<in> set (side_orders s Q)"
      proof (cases rule: index_of_cases [OF D(1), of p])
        case 1
        then have "p \<in> fst ` set (sd_overflow s)" using overflow_keys [OF ok, of p] p by auto
        with p show ?thesis by (auto simp: side_orders_def)
      qed (use p in \<open>auto simp: side_orders_def\<close>)
    qed
  qed
qed

lemma length_filter_upt: "length (filter P [0..<n]) = card {i. i < n \<and> P i}"
proof -
  have "length (filter P [0..<n]) = card (set (filter P [0..<n]))"
    by (rule distinct_card [symmetric]) simp
  also have "set (filter P [0..<n]) = {i. i < n \<and> P i}" by auto
  finally show ?thesis .
qed

lemma for_each_ok:
  assumes fn: "keeps_links fn hp"
    and ok: "side_ok (hp st) s Q"
  shows "for_each_order_mut fn hp s st = fold fn (side_orders s Q) st"
proof -
  note D = side_ok_D [OF ok]
  let ?qs = "map (\<lambda>i. Q (grid s i)) [0..<length (sd_dense s)]"
  let ?B = "concat (map (\<lambda>e. Q (fst e)) (sd_overflow s))"
  have dist: "distinct (concat ?qs)" "distinct ?B" "set (concat ?qs) \<inter> set ?B = {}"
    using side_orders_ok(1) [OF ok] by (simp_all add: side_orders_def)
  have "filter (\<lambda>q. q \<noteq> []) ?qs = map (\<lambda>i. Q (grid s i)) (filter (\<lambda>i. Q (grid s i) \<noteq> []) [0..<length (sd_dense s)])"
    by (simp add: filter_map comp_def)
  then have "length (filter (\<lambda>q. q \<noteq> []) ?qs) = sd_nonempty s"
    using D(7) by (simp add: length_filter_upt filled_def)
  then have "each_dense fn hp (sd_nonempty s) (sd_dense s) st = fold fn (concat ?qs) st"
    using D(3) dist(1) by (intro each_dense_fold [OF fn, of "hp st"]) (auto simp: list_all2_conv_all_nth)
  moreover have "fold (\<lambda>(p, lv). each_node (unat (lv_count lv)) fn hp (lv_head lv)) (sd_overflow s)
      (fold fn (concat ?qs) st) = fold fn ?B (fold fn (concat ?qs) st)"
  proof (rule each_overflow_fold [OF fn, where h = "hp st"])
    show "\<forall>(p, lv) \<in> set (sd_overflow s). lv_ok (hp st) lv (Q p)"
      using ok by (auto simp: side_ok_def)
    show "\<forall>x \<in> set ?B. o_next (hp (fold fn (concat ?qs) st) x) = o_next (hp st x)"
      using fold_next [OF fn] dist(3) by blast
  qed (rule dist(2))
  ultimately show ?thesis
    by (simp add: for_each_order_mut_def side_orders_def)
qed

lemma side_orders_at:
  assumes ok: "side_ok h s Q"
  shows "filter (\<lambda>x. o_price (h x) = p) (side_orders s Q) = Q p"
proof -
  note D = side_ok_D [OF ok]
  let ?pick = "\<lambda>b. if b = p then Q b else []"
  have pr: "filter (\<lambda>x. o_price (h x) = p) (Q b) = ?pick b" for b
    using D(6) by (auto simp: filter_id_conv filter_empty_conv)
  have pick: "distinct bs \<Longrightarrow> concat (map ?pick bs) = (if p \<in> set bs then Q p else [])" for bs
    by (induction bs) auto
  have "filter (\<lambda>x. o_price (h x) = p) (side_orders s Q) =
      concat (map ?pick (map (grid s) [0..<length (sd_dense s)])) @
      concat (map ?pick (map fst (sd_overflow s)))"
    by (simp add: side_orders_def filter_concat comp_def pr)
  moreover have "distinct (map (grid s) [0..<length (sd_dense s)])"
    using grid_inj [OF D(1)] by (auto simp: distinct_map inj_on_def)
  moreover have "p \<in> set (map (grid s) [0..<length (sd_dense s)]) \<longleftrightarrow> index_of s p \<noteq> kOverflowLevel"
    using index_of_grid(3) [OF D(1)] by (cases rule: index_of_cases [OF D(1), of p]) auto
  moreover have "p \<in> set (map fst (sd_overflow s)) \<longleftrightarrow> index_of s p = kOverflowLevel \<and> Q p \<noteq> []"
    using overflow_keys [OF ok, of p] by simp
  ultimately show ?thesis
    by (simp only: pick om_wf_distinct [OF D(2)]) auto
qed

section \<open>The band on an empty side\<close>

lemma side_ok_empty_overflow:
  assumes ok: "side_ok h s (\<lambda>p. [])"
  shows "sd_overflow s = []"
  using side_ok_D(4) [OF ok] ok by (cases "sd_overflow s") (auto simp: side_ok_def)

lemma geom_emptyI:
  assumes "sd_overflow s = []" "geom_ok s" "\<forall>i < length (sd_dense s). sd_dense s ! i = lv_new"
    "sd_nonempty s = 0" "\<not> cursor_valid s"
  shows "side_ok h s (\<lambda>p. [])"
  by (rule side_ok_I) (use assms in \<open>auto simp: filled_def cursor_ok_def\<close>)

lemma clear_levels_ok: "side_ok h (clear_levels s) (\<lambda>p. [])"
  by (rule geom_emptyI)
    (auto simp: clear_levels_def geom_ok_def banded_def reset_cursor_def cursor_valid_def)

lemma clear_levels_frame [simp]:
  "sd_side (clear_levels s) = sd_side s" "sd_tick (clear_levels s) = sd_tick s"
  "banded (clear_levels s) = False"
  by (simp_all add: clear_levels_def reset_cursor_def banded_def)

lemma set_band_slots_ok:
  assumes ok: "side_ok h s (\<lambda>p. [])" and n: "levels < 2 ^ 32 - 1" and c: "is_i32 center"
  shows "side_ok h (set_band_slots center levels s) (\<lambda>p. [])"
proof (cases "center \<le> 0 \<or> sd_tick s \<le> 0 \<or> levels = 0")
  case True
  with ok show ?thesis by (auto simp: set_band_slots_def)
next
  case False
  let ?b0 = "center - int (levels div 2) * sd_tick s"
  let ?b1 = "if ?b0 < 0 then 0 else ?b0"
  let ?b = "?b1 - ?b1 smod sd_tick s"
  have t: "0 < sd_tick s" and "0 \<le> ?b1" using False by auto
  then have m: "?b1 smod sd_tick s = ?b1 mod sd_tick s" by (intro smod_eq_mod)
  have "?b1 mod sd_tick s \<le> ?b1" using \<open>0 \<le> ?b1\<close> t by (intro zmod_le_nonneg_dividend)
  moreover have "0 \<le> ?b1 mod sd_tick s" using t by simp
  moreover have "?b1 \<le> center" using False by auto
  ultimately have b: "0 \<le> ?b" "?b \<le> center" using m by linarith+
  then have "to_i32 ?b = ?b" using c by (intro to_i32_id) (auto simp: is_i32_def)
  with False have s': "set_band_slots center levels s =
      reset_cursor (s\<lparr> sd_base := ?b, sd_dense := replicate levels lv_new, sd_nonempty := 0 \<rparr>)"
    by (simp add: set_band_slots_def Let_def)
  show ?thesis
    unfolding s'
    by (rule geom_emptyI)
      (use side_ok_empty_overflow [OF ok] t b n in
        \<open>auto simp: reset_cursor_def geom_ok_def cursor_valid_def\<close>)
qed

lemma set_band_slots_frame [simp]:
  "sd_side (set_band_slots c n s) = sd_side s" "sd_tick (set_band_slots c n s) = sd_tick s"
  by (simp_all add: set_band_slots_def Let_def reset_cursor_def)

lemma set_band_slots_banded:
  "0 < c \<Longrightarrow> 0 < sd_tick s \<Longrightarrow> 0 < n \<Longrightarrow> banded (set_band_slots c n s)"
  by (simp add: set_band_slots_def Let_def reset_cursor_def banded_def)

lemma set_band_ok:
  assumes "side_ok h s (\<lambda>p. [])" and "m < 2 ^ 32 - 1" and "is_i32 center"
  shows "side_ok h (set_band center pct m s) (\<lambda>p. [])"
  using assms by (auto simp: set_band_def Let_def intro!: set_band_slots_ok)

lemma set_band_frame [simp]:
  "sd_side (set_band c pct m s) = sd_side s" "sd_tick (set_band c pct m s) = sd_tick s"
  by (simp_all add: set_band_def Let_def)

lemma set_band_banded:
  "0 < c \<Longrightarrow> 0 < sd_tick s \<Longrightarrow> 0 < m \<Longrightarrow> banded (set_band c pct m s)"
  by (auto simp: set_band_def Let_def intro!: set_band_slots_banded)

section \<open>The best levels\<close>

definition best_first :: "side \<Rightarrow> int set \<Rightarrow> int list" where
  "best_first s R = (if is_bid s then rev (sorted_list_of_set R) else sorted_list_of_set R)"

lemma best_first_empty [simp]: "best_first s {} = []"
  by (simp add: best_first_def)

lemma best_first_Cons:
  assumes "finite R" "b \<in> R" "\<And>r. r \<in> R \<Longrightarrow> r = b \<or> better s b r"
  shows "best_first s R = b # best_first s (R - {b})"
proof (cases "is_bid s")
  case True
  have le: "r \<le> b" if "r \<in> R" for r
    using assms(3) [OF that] True by (auto simp: better_def)
  have "sorted_list_of_set R = sorted_list_of_set (R - {b}) @ [b]"
  proof (rule sorted_distinct_set_unique)
    show "sorted (sorted_list_of_set (R - {b}) @ [b])"
      using assms(1) le by (auto simp: sorted_append)
  qed (use assms in auto)
  with True show ?thesis by (simp add: best_first_def)
next
  case False
  have "Min R = b"
    by (rule Min_eqI) (use assms False in \<open>auto simp: better_def less_imp_le\<close>, metis eq_iff less_imp_le)
  with assms False show ?thesis
    using sorted_list_of_set_nonempty [of R] by (auto simp: best_first_def)
qed

definition priced :: "(int \<Rightarrow> ptr list) \<Rightarrow> int set" where
  "priced Q = {p. Q p \<noteq> []}"

definition dense_rest :: "side \<Rightarrow> (int \<Rightarrow> ptr list) \<Rightarrow> int \<Rightarrow> nat set" where
  "dense_rest s Q di = {i \<in> filled s Q. if is_bid s then int i \<le> di else di \<le> int i}"

definition parked :: "side \<Rightarrow> (int \<Rightarrow> ptr list) \<Rightarrow> int \<Rightarrow> bool" where
  "parked s Q di \<longleftrightarrow> (if dense_has s di then nat di \<in> filled s Q else dense_rest s Q di = {})"

lemma settle_ok:
  assumes ok: "side_ok h s Q"
    and "if is_bid s then di < int fuel \<and> di < int (length (sd_dense s))
         else 0 \<le> di \<and> int (length (sd_dense s)) \<le> di + int fuel"
  shows "parked s Q (settle_dense fuel s di)"
    "dense_rest s Q (settle_dense fuel s di) = dense_rest s Q di"
proof -
  note D = side_ok_D [OF ok]
  have ne: "sd_nonempty s > 0 \<longleftrightarrow> filled s Q \<noteq> {}"
    using D(7) by (simp add: card_gt_0_iff)
  have emp: "i < length (sd_dense s) \<Longrightarrow> lv_empty (sd_dense s ! i) \<longleftrightarrow> i \<notin> filled s Q" for i
    using lv_ok_empty [OF D(3)] by (auto simp: filled_def)
  have "parked s Q (settle_dense fuel s di) \<and>
      dense_rest s Q (settle_dense fuel s di) = dense_rest s Q di"
    using assms(2)
  proof (induction fuel arbitrary: di)
    case 0
    then show ?case
      by (auto simp: parked_def dense_has_def dense_rest_def filled_def split: if_splits)
  next
    case (Suc fuel)
    show ?case
    proof (cases "dense_has s di \<and> lv_empty (sd_dense s ! nat di)")
      case True
      then have nf: "nat di \<notin> filled s Q" and di: "0 \<le> di" "di < int (length (sd_dense s))"
        using emp [of "nat di"] by (auto simp: dense_has_def nat_less_iff)
      have "dense_rest s Q (advance s di) = dense_rest s Q di"
      proof -
        have "int i \<noteq> di" if "i \<in> filled s Q" for i using nf that di by auto
        then have "i \<in> filled s Q \<Longrightarrow> int i \<le> di - 1 \<longleftrightarrow> int i \<le> di"
          "i \<in> filled s Q \<Longrightarrow> di + 1 \<le> int i \<longleftrightarrow> di \<le> int i" for i
          by fastforce+
        then show ?thesis by (auto simp: dense_rest_def advance_def)
      qed
      moreover have "if is_bid s then advance s di < int fuel \<and> advance s di < int (length (sd_dense s))
         else 0 \<le> advance s di \<and> int (length (sd_dense s)) \<le> advance s di + int fuel"
        using Suc.prems di by (auto simp: advance_def)
      ultimately show ?thesis using Suc.IH True by simp
    next
      case False
      then have "settle_dense (Suc fuel) s di = di" by auto
      moreover have "parked s Q di"
        using False emp [of "nat di"] ne Suc.prems
        by (auto simp: parked_def dense_has_def dense_rest_def filled_def split: if_splits)
      ultimately show ?thesis by simp
    qed
  qed
  then show "parked s Q (settle_dense fuel s di)"
    "dense_rest s Q (settle_dense fuel s di) = dense_rest s Q di" by blast+
qed

definition view_at :: "heap \<Rightarrow> (int \<Rightarrow> ptr list) \<Rightarrow> int \<Rightarrow> level_view" where
  "view_at h Q p = \<lparr> lw_price = p, lw_shares = qsum h (Q p), lw_count = of_nat (length (Q p)) \<rparr>"

lemma view_ok: "lv_ok h lv (Q p) \<Longrightarrow> view p lv = view_at h Q p"
  by (simp add: view_def view_at_def lv_ok_def)

definition in_walk_order :: "side \<Rightarrow> (int \<times> level) list \<Rightarrow> bool" where
  "in_walk_order s ov \<longleftrightarrow> sorted_wrt (\<lambda>a b. better s (fst a) (fst b)) ov"

lemma overflow_walk:
  assumes "om_wf (sd_overflow s)"
  shows "in_walk_order s (if is_bid s then rev (sd_overflow s) else sd_overflow s)"
  using assms
  by (auto simp: in_walk_order_def better_def om_wf_def sorted_wrt_map sorted_wrt_rev)

definition rest_prices :: "side \<Rightarrow> (int \<Rightarrow> ptr list) \<Rightarrow> int \<Rightarrow> (int \<times> level) list \<Rightarrow> int set" where
  "rest_prices s Q di ov = grid s ` dense_rest s Q di \<union> fst ` set ov"

lemma dense_rest_best:
  assumes ok: "side_ok h s Q" and pk: "parked s Q di" and dh: "dense_has s di"
  shows "nat di \<in> dense_rest s Q di" "nat di \<in> filled s Q"
    "i \<in> dense_rest s Q di \<Longrightarrow> grid s i = grid s (nat di) \<or> better s (grid s (nat di)) (grid s i)"
    "dense_rest s Q (advance s di) = dense_rest s Q di - {nat di}"
proof -
  show f: "nat di \<in> filled s Q" using pk dh by (simp add: parked_def)
  have di: "0 \<le> di" "di < int (length (sd_dense s))" using dh by (simp_all add: dense_has_def)
  then have t: "0 < sd_tick s" using side_ok_D(1) [OF ok] by (auto simp: geom_ok_def banded_def)
  show "nat di \<in> dense_rest s Q di" using f di by (simp add: dense_rest_def)
  show "i \<in> dense_rest s Q di \<Longrightarrow> grid s i = grid s (nat di) \<or> better s (grid s (nat di)) (grid s i)"
    using t di by (auto simp: dense_rest_def grid_def better_def nat_le_iff le_nat_iff split: if_splits)
  have "int i \<le> di - 1 \<longleftrightarrow> int i \<le> di \<and> i \<noteq> nat di" "di + 1 \<le> int i \<longleftrightarrow> di \<le> int i \<and> i \<noteq> nat di" for i
    using di by linarith+
  then show "dense_rest s Q (advance s di) = dense_rest s Q di - {nat di}"
    by (auto simp: dense_rest_def advance_def)
qed

lemma top_loop_ok:
  assumes ok: "side_ok h s Q"
  shows "parked s Q di \<Longrightarrow> in_walk_order s ov \<Longrightarrow> set ov \<subseteq> set (sd_overflow s) \<Longrightarrow>
    top_loop n s di ov = map (view_at h Q) (take n (best_first s (rest_prices s Q di ov)))"
proof (induction n arbitrary: di ov)
  case (Suc n)
  note D = side_ok_D [OF ok]
  let ?R = "rest_prices s Q di ov"
  have fin: "finite ?R" unfolding rest_prices_def dense_rest_def by simp
  have tr: "better s x y \<Longrightarrow> better s y z \<Longrightarrow> better s x z" for x y z
    by (auto simp: better_def split: if_splits)
  have ovs: "index_of s p = kOverflowLevel \<and> lv_ok h lv (Q p)" if "(p, lv) \<in> set ov" for p lv
    using that Suc.prems(3) ok by (auto simp: side_ok_def)
  have ov_le: "p = fst (hd ov) \<or> better s (fst (hd ov)) p" if "p \<in> fst ` set ov" for p
    using that Suc.prems(2) by (cases ov) (auto simp: in_walk_order_def)
  have apart: "grid s i \<noteq> p" if f: "i \<in> filled s Q" and k: "p \<in> fst ` set ov" for i p
  proof -
    obtain lv where "(p, lv) \<in> set ov" using k by force
    then show ?thesis using ovs [of p lv] index_of_grid(3) [OF D(1), of i] f by (auto simp: filled_def)
  qed
  show ?case
  proof (cases "dense_has s di \<or> ov \<noteq> []")
    case False
    then have "?R = {}" using Suc.prems(1) by (simp add: rest_prices_def parked_def)
    with False show ?thesis by simp
  next
    case go: True
    show ?thesis
    proof (cases "ov = [] \<or> (dense_has s di \<and> better s (price_at s (nat di)) (fst (hd ov)))")
      case True
      then have dh: "dense_has s di" using go by blast
      note DR = dense_rest_best [OF ok Suc.prems(1) dh]
      let ?i = "nat di" and ?di = "settle_dense (length (sd_dense s)) s (advance s di)"
      have pr: "price_at s ?i = grid s ?i"
        using DR(2) queue_priced [OF ok] by (simp add: price_at_grid filled_def)
      have bd: "if is_bid s then advance s di < int (length (sd_dense s)) \<and> advance s di < int (length (sd_dense s))
          else 0 \<le> advance s di \<and> int (length (sd_dense s)) \<le> advance s di + int (length (sd_dense s))"
        using dh by (auto simp: dense_has_def advance_def)
      note st = settle_ok [OF ok bd]
      have "best_first s ?R = grid s ?i # best_first s (?R - {grid s ?i})"
      proof (rule best_first_Cons [OF fin])
        show "grid s ?i \<in> ?R" using DR(1) by (simp add: rest_prices_def)
        show "r = grid s ?i \<or> better s (grid s ?i) r" if "r \<in> ?R" for r
        proof -
          have "(\<exists>i \<in> dense_rest s Q di. r = grid s i) \<or> r \<in> fst ` set ov"
            using that by (auto simp: rest_prices_def)
          then consider (d) i where "i \<in> dense_rest s Q di" "r = grid s i" | (o) "r \<in> fst ` set ov"
            by blast
          then show ?thesis
          proof cases
            case d
            with DR(3) show ?thesis by blast
          next
            case o
            then have "ov \<noteq> []" by auto
            then have "better s (grid s ?i) (fst (hd ov))" using True pr by simp
            with ov_le [OF o] tr show ?thesis by metis
          qed
        qed
      qed
      moreover have "?R - {grid s ?i} = rest_prices s Q ?di ov"
        unfolding rest_prices_def st(2) DR(4)
        using apart [OF DR(2)] grid_inj [OF D(1)] DR(2) by (auto simp: dense_rest_def filled_def)
      moreover have "view (price_at s ?i) (sd_dense s ! ?i) = view_at h Q (grid s ?i)"
        using view_ok D(3) DR(2) pr by (simp add: filled_def)
      ultimately show ?thesis
        using Suc.IH [OF st(1) Suc.prems(2,3)] go True by simp
    next
      case False
      then obtain e ov' where ov: "ov = e # ov'" by (cases ov) auto
      have best: "i \<in> dense_rest s Q di \<Longrightarrow> better s (fst e) (grid s i)" for i
      proof -
        assume i: "i \<in> dense_rest s Q di"
        then have dh: "dense_has s di" using Suc.prems(1) by (auto simp: parked_def split: if_splits)
        note DR = dense_rest_best [OF ok Suc.prems(1) dh]
        have pr: "price_at s (nat di) = grid s (nat di)"
          using DR(2) queue_priced [OF ok] by (simp add: price_at_grid filled_def)
        have "grid s (nat di) \<noteq> fst e" using apart [OF DR(2), of "fst e"] ov by simp
        then have "better s (fst e) (grid s (nat di))"
          using False dh pr ov by (auto simp: better_def split: if_splits)
        with DR(3) [OF i] tr show ?thesis by metis
      qed
      have "best_first s ?R = fst e # best_first s (?R - {fst e})"
      proof (rule best_first_Cons [OF fin])
        show "fst e \<in> ?R" by (simp add: rest_prices_def ov)
        show "r = fst e \<or> better s (fst e) r" if "r \<in> ?R" for r
          using that best ov_le unfolding rest_prices_def ov by auto
      qed
      moreover have "fst e \<notin> grid s ` dense_rest s Q di" "fst e \<notin> fst ` set ov'"
        using best better_irrefl [of s "fst e"] Suc.prems(2)
        by (auto simp: ov in_walk_order_def)
      then have "?R - {fst e} = rest_prices s Q di ov'"
        by (auto simp: rest_prices_def ov)
      moreover have "view (fst e) (snd e) = view_at h Q (fst e)"
        using ovs [of "fst e" "snd e"] by (intro view_ok) (simp add: ov)
      moreover have "in_walk_order s ov'" "set ov' \<subseteq> set (sd_overflow s)"
        using Suc.prems(2,3) by (auto simp: ov in_walk_order_def)
      ultimately show ?thesis
        using Suc.IH [OF Suc.prems(1), of ov'] False by (auto simp: ov)
    qed
  qed
qed simp

lemma top_levels_ok:
  assumes ok: "side_ok h s Q"
  shows "top_levels n s = map (view_at h Q) (take n (best_first s (priced Q)))"
proof -
  note D = side_ok_D [OF ok]
  let ?ov = "if is_bid s then rev (sd_overflow s) else sd_overflow s"
  let ?di = "settle_dense (length (sd_dense s)) s (sd_cursor s)"
  have rest: "parked s Q ?di \<and> dense_rest s Q ?di = filled s Q"
  proof (cases "filled s Q = {}")
    case True
    then have "\<not> dense_has s d" for d using D(7) by (simp add: dense_has_def)
    with True show ?thesis by (simp add: parked_def dense_rest_def)
  next
    case False
    then have c: "cursor_valid s" "dense_rest s Q (sd_cursor s) = filled s Q"
      using D(8) by (auto simp: cursor_ok_def dense_rest_def cursor_valid_def split: if_splits)
    have "if is_bid s then sd_cursor s < int (length (sd_dense s)) \<and> sd_cursor s < int (length (sd_dense s))
        else 0 \<le> sd_cursor s \<and> int (length (sd_dense s)) \<le> sd_cursor s + int (length (sd_dense s))"
      using c(1) by (auto simp: cursor_valid_def)
    with settle_ok [OF ok this] c(2) show ?thesis by simp
  qed
  have "rest_prices s Q ?di ?ov = priced Q"
  proof -
    have "fst ` set ?ov = fst ` set (sd_overflow s)" by simp
    then have R: "rest_prices s Q ?di ?ov = grid s ` filled s Q \<union> fst ` set (sd_overflow s)"
      using rest by (simp only: rest_prices_def)
    have "p \<in> grid s ` filled s Q \<union> fst ` set (sd_overflow s) \<longleftrightarrow> Q p \<noteq> []" for p
    proof (cases rule: index_of_cases [OF D(1), of p])
      case 1
      then have "p \<notin> grid s ` filled s Q" by (auto simp: filled_def)
      with overflow_keys [OF ok, of p] 1 show ?thesis by simp
    next
      case (2 i)
      have "p \<in> grid s ` filled s Q \<longleftrightarrow> Q p \<noteq> []" using 2 by (auto simp: filled_def)
      with overflow_keys [OF ok, of p] 2 show ?thesis by simp
    qed
    then have "p \<in> rest_prices s Q ?di ?ov \<longleftrightarrow> Q p \<noteq> []" for p unfolding R .
    then show ?thesis by (intro set_eqI) (simp only: priced_def mem_Collect_eq)
  qed
  moreover have "set ?ov \<subseteq> set (sd_overflow s)" by simp
  ultimately show ?thesis
    using top_loop_ok [OF ok, of ?di ?ov n] rest overflow_walk [OF D(2)]
    by (simp only: top_levels_def)
qed

end
