(* ===== verification/BookOps.thy ===== *)
theory BookOps
  imports Book
begin

text \<open>
  The mutating operations of the book refine their specifications on the contents of a book: adding
  appends to one queue, reducing takes shares off one order in place or removes it, and releasing
  empties the book; the orders of every other book are untouched.
\<close>

section \<open>Adding\<close>

lemma live_insert:
  assumes "rm_find refs' = (rm_find refs)(ref \<mapsto> x)" and "rm_find refs ref = None"
  shows "ran (rm_find refs') = insert x (ran (rm_find refs))"
  using assms by (simp add: ran_map_upd)

lemma book_okD:
  assumes "book_ok st b Q"
  shows "pair_ok (st_heap st) b Q" "all_of Q = mine st (bk_locate b)" "band_ok b (all_of Q)"
    "bk_resting_orders b = card (all_of Q)" "bk_resting_shares b = shares_of (st_heap st) (all_of Q)"
    "bk_resting_orders b < 2 ^ 32"
  using assms unfolding book_ok_def by blast+

lemma bk_add_ok:
  assumes st: "store_ok st" and bk: "book_ok st b Q" and fresh: "rm_find (st_refs st) ref = None"
    and pr: "is_i32 price" "0 < price" and room: "bk_resting_orders b + 1 < 2 ^ 32"
    and res: "bk_add ref c price shares (st, b) = (st', b')"
  shows "\<exists>x. x \<notin> live st \<and> store_ok st' \<and>
    book_ok st' b' (Q((c = side_B) := (Q (c = side_B))(price := Q (c = side_B) price @ [x]))) \<and>
    tag (st_heap st') x = (ref, shares) \<and> (\<forall>y \<in> live st. same_core (st_heap st' y) (st_heap st y)) \<and>
    frame (bk_locate b) st st' \<and> same_rest b b' \<and>
    rm_find (st_refs st') = (rm_find (st_refs st))(ref \<mapsto> x)"
proof -
  let ?h = "st_heap st" and ?l = "bk_locate b" and ?d = "c = side_B"
  note S = store_okD [OF st]
  note B = book_okD [OF bk]
  have few: "card (all_of Q) < 2 ^ 32" using B(4) room by simp
  have sub: "all_of Q \<subseteq> live st" using B(2) by (auto simp: mine_def)
  obtain h1 b1 where 1: "open_band c price (?h, b) = (h1, b1)" by (meson surj_pair)
  note P1 = open_band_ok [OF B(1,3) few pr 1]
  have pool1: "pool_ok h1 (st_pool st) (live st)"
    by (rule pool_ok_frame [OF S(3)]) (use P1(3) sub in blast)
  obtain x h2 pl where 2: "allocate (h1, st_pool st) = (x, h2, pl)" by (metis surj_pair)
  note P2 = allocate_ok [OF pool1 2]
  have xl: "x \<notin> live st" by (rule P2(1))
  define h3 where "h3 = h2(x := init_order ref shares price (bk_locate b1) c (h2 x))"
  have l1: "bk_locate b1 = ?l" using same_restD(1) [OF P1(5)] .
  have h3x: "o_ref (h3 x) = ref" "o_shares (h3 x) = shares" "o_price (h3 x) = price"
      "o_locate (h3 x) = ?l" "o_side (h3 x) = c"
    by (simp_all add: h3_def init_order_def l1)
  have h3: "h3 y = h1 y" if "y \<in> live st" for y
    using that P2(3) xl by (auto simp: h3_def)
  have xQ: "x \<notin> all_of Q" using xl sub by blast
  have ok3: "pair_ok h3 b1 Q"
    by (rule pair_ok_frame [OF P1(1)]) (use h3 sub in blast)
  obtain h4 b4 where 4: "push_order c x (h3, b1) = (h4, b4)" by (meson surj_pair)
  let ?Q = "Q(?d := (Q ?d)(price := Q ?d price @ [x]))"
  have "set (Q ?d price) \<subseteq> all_of Q" unfolding all_of_def by blast
  then have "length (Q ?d price) \<le> card (all_of Q)"
    using finite_mine [OF st] B(2) side_ok_D pair_okD(1) [OF B(1)] queue_distinct
    by (metis card_mono distinct_card)
  then have f32: "fits32 (Q ?d price @ [x])" using room B(4) by (simp add: fits32_def)
  note P4 = push_order_ok [OF ok3 xQ h3x(5) [symmetric] h3x(3) pr(1) f32 4]
  have allQ: "all_of ?Q = insert x (all_of Q)" by (rule all_of_append)
  define b5 where "b5 = (let b = b4\<lparr> bk_resting_orders := bk_resting_orders b4 + 1, bk_adds := bk_adds b4 + 1 \<rparr>;
       b = (if o_level_idx (h4 x) = kOverflowLevel
            then b\<lparr> bk_off_band_adds := bk_off_band_adds b + 1 \<rparr> else b)
     in b\<lparr> bk_resting_shares := bk_resting_shares b + ucast shares \<rparr>)"
  have b4: "b4 = b1\<lparr> bk_bids := bk_bids b4, bk_asks := bk_asks b4 \<rparr>"
      "same_shape (bk_bids b1) (bk_bids b4)" "same_shape (bk_asks b1) (bk_asks b4)"
    using P4(4) unfolding same_sides_def by blast+
  have f4: "bk_resting_orders b4 = bk_resting_orders b1" "bk_resting_shares b4 = bk_resting_shares b1"
      "bk_tick b4 = bk_tick b1" "bk_band_levels b4 = bk_band_levels b1"
      "bk_pending_bid b4 = bk_pending_bid b1" "bk_pending_ask b4 = bk_pending_ask b1"
    by (subst b4(1), simp)+
  have b5: "bk_bids b5 = bk_bids b4" "bk_asks b5 = bk_asks b4" "bk_tick b5 = bk_tick b4"
      "bk_resting_orders b5 = bk_resting_orders b + 1"
      "bk_resting_shares b5 = bk_resting_shares b + ucast shares" "same_rest b4 b5"
      "bk_band_levels b5 = bk_band_levels b4" "bk_pending_bid b5 = bk_pending_bid b4"
      "bk_pending_ask b5 = bk_pending_ask b4"
    using f4 P1(6,7) by (simp_all add: b5_def Let_def same_rest_def)
  have ok5: "pair_ok h4 b5 ?Q" by (rule pair_ok_cong [OF P4(1) b5(1,2,3)])
  have band5: "band_ok b5 (all_of ?Q)"
    using P1(4) [of "all_of ?Q"] same_shapeD(8) [OF b4(2)] same_shapeD(8) [OF b4(3)]
    by (auto simp: band_ok_def b5 f4)
  have few5: "card (all_of ?Q) < 2 ^ 32"
    using room B(2,4) xQ finite_mine [OF st] by (simp add: allQ)
  obtain h6 b6 where 6: "maybe_recentre (h4, b5) = (h6, b6)" by (meson surj_pair)
  note P6 = maybe_recentre_ok [OF ok5 band5 few5 6]
  have st': "st' = \<lparr> st_heap = h6, st_refs = rm_insert ref x (st_refs st), st_pool = pl \<rparr>" "b' = b6"
  proof -
    have "bk_add ref c price shares (st, b) =
        (\<lparr> st_heap = h6, st_refs = rm_insert ref x (st_refs st), st_pool = pl \<rparr>, b6)"
      using 1 2 4 6 by (simp add: bk_add_def Let_def h3_def b5_def)
    with res show "st' = \<lparr> st_heap = h6, st_refs = rm_insert ref x (st_refs st), st_pool = pl \<rparr>" "b' = b6"
      by simp_all
  qed
  have core: "same_core (h6 y) (h3 y)" for y using P6(2) P4(2) same_core_trans by blast
  have out: "h6 y = ?h y" if "y \<in> live st" "y \<notin> all_of Q" for y
  proof -
    have "y \<noteq> x" using that(1) xl by blast
    then have "h6 y = h4 y" using P6(3) that(2) by (simp add: allQ)
    also have "\<dots> = h3 y" using P4(3) that(2) \<open>y \<noteq> x\<close> by blast
    also have "\<dots> = ?h y" using h3 P1(3) that by simp
    finally show ?thesis .
  qed
  have corel: "same_core (h6 y) (?h y)" if "y \<in> live st" for y
    using core [of y] h3 [OF that] P1(2) [of y] same_core_trans by metis
  have find': "rm_find (st_refs st') = (rm_find (st_refs st))(ref \<mapsto> x)"
    using rm_insert_spec(2) [OF S(1)] by (simp add: st')
  have live': "live st' = insert x (live st)"
    unfolding live_def by (rule live_insert [OF find' fresh])
  have cx: "o_ref (h6 x) = ref" "o_shares (h6 x) = shares" "o_price (h6 x) = price"
      "o_locate (h6 x) = ?l" "o_side (h6 x) = c"
    using core [of x] h3x by (simp_all add: same_core_def)
  have pool6: "pool_ok h6 pl (insert x (live st))"
  proof (rule pool_ok_frame [OF P2(2)])
    fix y assume y: "y \<notin> insert x (live st)"
    then have "y \<notin> all_of ?Q" using sub allQ by auto
    then have "h6 y = h4 y" using P6(3) by blast
    also have "\<dots> = h3 y" using P4(3) y sub by blast
    also have "\<dots> = h2 y" using y by (simp add: h3_def)
    finally show "h6 y = h2 y" .
  qed
  have "store_ok st'"
    unfolding store_ok_def
  proof (intro conjI allI impI)
    show "rm_inv (st_refs st')" using rm_insert_spec(1) [OF S(1)] by (simp add: st')
    show "o_ref (st_heap st' y) = r" if "rm_find (st_refs st') r = Some y" for r y
    proof (cases "r = ref")
      case True
      with that find' cx show ?thesis by (simp add: st')
    next
      case False
      then have "rm_find (st_refs st) r = Some y" using that find' by simp
      then have "y \<in> live st" "o_ref (?h y) = r" using S(2) by (auto simp: live_def ran_def)
      with corel show ?thesis by (simp add: st' same_core_def)
    qed
    show "pool_ok (st_heap st') (st_pool st') (live st')"
      using pool6 by (simp add: live') (simp add: st')
  qed
  moreover have hp: "st_heap st' = h6" by (simp add: st')
  have loc: "o_locate (h6 y) = o_locate (?h y)" if "y \<in> live st" for y
    using corel [OF that] by (simp add: same_core_def)
  have mine': "mine st' l = (if l = ?l then insert x (mine st l) else mine st l)" for l
    unfolding mine_def live' hp using loc cx(4) xl by auto
  have "book_ok st' b' ?Q"
    unfolding book_ok_def
  proof (intro conjI)
    show "pair_ok (st_heap st') b' ?Q" using P6(1) by (simp add: st')
    have "bk_locate b' = ?l"
      using same_restD(1) [OF P6(5)] same_restD(1) [OF b5(6)] l1 st'(2) same_restD(1) [OF sides_rest [OF b4(1)]]
      by simp
    then show "all_of ?Q = mine st' (bk_locate b')" using mine' B(2) by (simp add: allQ)
    show "band_ok b' (all_of ?Q)" using P6(4) by (simp add: st')
    have ro: "bk_resting_orders b' = bk_resting_orders b + 1" using P6(6) b5(4) by (simp add: st')
    then show "bk_resting_orders b' = card (all_of ?Q)"
      using B(2,4) xQ finite_mine [OF st] by (simp add: allQ)
    show "bk_resting_orders b' < 2 ^ 32" using ro room by simp
    have "bk_resting_shares b' = bk_resting_shares b + ucast shares" using P6(7) b5(5) by (simp add: st')
    moreover have "shares_of h6 (all_of Q) = shares_of ?h (all_of Q)"
      by (rule shares_of_cong) (use corel sub in \<open>auto simp: same_core_def\<close>)
    ultimately show "bk_resting_shares b' = shares_of (st_heap st') (all_of ?Q)"
      using B(2,5) xQ finite_mine [OF st] cx by (simp add: allQ shares_of_insert st')
  qed
  moreover have "frame ?l st st'"
    unfolding frame_def hp using mine' out B(2) by (auto simp: mine_def)
  moreover have "same_rest b b'"
    using P1(5) sides_rest [OF b4(1)] b5(6) P6(5) same_rest_trans st'(2) by blast
  moreover have "\<forall>y \<in> live st. same_core (st_heap st' y) (?h y)" using corel by (simp add: st')
  moreover have "tag (st_heap st') x = (ref, shares)" using cx by (simp add: tag_def st')
  ultimately show ?thesis using xl find' by blast
qed

lemma view_of_cong:
  "(\<And>y. y \<in> all_of Q \<Longrightarrow> tag h' y = tag h y) \<Longrightarrow> view_of h' Q = view_of h Q"
  by (auto simp: view_of_def all_of_iff fun_eq_iff)

lemma bk_add_view:
  assumes "store_ok st" "book_ok st b Q" "rm_find (st_refs st) ref = None"
    "is_i32 price" "0 < price" "bk_resting_orders b + 1 < 2 ^ 32"
    and res: "bk_add ref c price shares (st, b) = (st', b')"
  obtains Q' where "store_ok st'" "book_ok st' b' Q'" "frame (bk_locate b) st st'" "same_rest b b'"
    "view_of (st_heap st') Q' = (\<lambda>d p. if d = (c = side_B) \<and> p = price
       then view_of (st_heap st) Q d p @ [(ref, shares)] else view_of (st_heap st) Q d p)"
    "dom (rm_find (st_refs st')) = insert ref (dom (rm_find (st_refs st)))"
proof -
  obtain x where x: "x \<notin> live st" "store_ok st'"
    "book_ok st' b' (Q((c = side_B) := (Q (c = side_B))(price := Q (c = side_B) price @ [x])))"
    "tag (st_heap st') x = (ref, shares)" "\<forall>y \<in> live st. same_core (st_heap st' y) (st_heap st y)"
    "frame (bk_locate b) st st'" "same_rest b b'"
    "rm_find (st_refs st') = (rm_find (st_refs st))(ref \<mapsto> x)"
    using bk_add_ok [OF assms] by blast
  have "all_of Q \<subseteq> live st" using assms(2) by (auto simp: book_ok_def mine_def)
  then have "tag (st_heap st') y = tag (st_heap st) y" if "y \<in> all_of Q" for y
    using x(5) that by (auto simp: tag_def same_core_def)
  from view_of_cong [OF this] have "map (tag (st_heap st')) (Q d p) = view_of (st_heap st) Q d p" for d p
    by (simp add: view_of_def fun_eq_iff)
  then have "view_of (st_heap st') (Q((c = side_B) := (Q (c = side_B))(price := Q (c = side_B) price @ [x]))) =
      (\<lambda>d p. if d = (c = side_B) \<and> p = price
       then view_of (st_heap st) Q d p @ [(ref, shares)] else view_of (st_heap st) Q d p)"
    using x(4) by (intro ext) (simp add: view_of_def)
  with that x(2,3,6,7) x(8) show thesis by (metis dom_fun_upd option.distinct(1))
qed

section \<open>Finding the order a message names\<close>

lemma rm_find_index_Some:
  "rm_inv t \<Longrightarrow> rm_find_index t r = Some i \<Longrightarrow> rm_find t r = Some (the (rm_at t i)) \<and> rm_find t r \<noteq> None"
  using find_index_iff [of t r i] by (auto simp: rm_inv_def rm_find_def rm_at_def occ_def)

lemma resolve_cases:
  assumes "store_ok st"
  obtains (unknown) "rm_find (st_refs st) ref = None"
      "resolve ref (st, b) = (None, st, b\<lparr> bk_unknown_ref := bk_unknown_ref b + 1 \<rparr>)"
  | (foreign) x where "rm_find (st_refs st) ref = Some x" "o_locate (st_heap st x) \<noteq> bk_locate b"
      "resolve ref (st, b) = (None, st, b\<lparr> bk_locate_mismatch := bk_locate_mismatch b + 1 \<rparr>)"
  | (named) slot x where "rm_find (st_refs st) ref = Some x" "o_locate (st_heap st x) = bk_locate b"
      "rm_find_index (st_refs st) ref = Some slot" "order_at (st, b) slot = x"
      "resolve ref (st, b) = (Some slot, st, b)"
proof (cases "rm_find_index (st_refs st) ref")
  case None
  then show thesis using unknown by (simp add: resolve_def rm_find_def)
next
  case (Some slot)
  let ?x = "the (rm_at (st_refs st) slot)"
  have "rm_find (st_refs st) ref = Some ?x"
    using rm_find_index_Some [OF store_okD(1) [OF assms] Some] by simp
  note find = this
  show thesis
  proof (cases "o_locate (st_heap st ?x) = bk_locate b")
    case True
    show thesis
      by (rule named [OF find True Some]) (use Some True in \<open>simp_all add: resolve_def order_at_def\<close>)
  next
    case False
    show thesis
      by (rule foreign [OF find False]) (use Some False in \<open>simp add: resolve_def\<close>)
  qed
qed

lemma named_place:
  assumes "store_ok st" "book_ok st b Q" "rm_find (st_refs st) ref = Some x"
    "o_locate (st_heap st x) = bk_locate b"
  obtains p l r where "Q (o_side (st_heap st x) = side_B) p = l @ x # r"
proof -
  have "x \<in> all_of Q" using assms by (auto simp: book_okD(2) mine_def live_def ran_def)
  then obtain d p where q: "x \<in> set (Q d p)" by (auto simp: all_of_iff)
  then obtain l r where "Q d p = l @ x # r" by (meson split_list)
  moreover have "(o_side (st_heap st x) = side_B) = d"
    by (rule pair_okD(2) [OF book_okD(1) [OF assms(2)] q])
  ultimately show thesis using that by blast
qed

lemma ref_unique:
  assumes "store_ok st" "book_ok st b Q" "rm_find (st_refs st) ref = Some x" "y \<in> all_of Q"
  shows "o_ref (st_heap st y) = ref \<longleftrightarrow> y = x"
proof -
  have "y \<in> live st" using assms(2,4) by (auto simp: book_okD(2) mine_def)
  then have "rm_find (st_refs st) (o_ref (st_heap st y)) = Some y" by (rule live_find [OF assms(1)])
  then show ?thesis using assms(3) store_okD(2) [OF assms(1) assms(3)] by (metis option.inject)
qed

lemma live_delete:
  assumes st: "store_ok st" and "rm_find refs' = (rm_find (st_refs st))(ref := None)"
    and "rm_find (st_refs st) ref = Some x"
  shows "ran (rm_find refs') = live st - {x}"
proof -
  have "r = ref" if "rm_find (st_refs st) r = Some x" for r
    using store_okD(2) [OF st] that assms(3) by metis
  then have "(\<exists>r. ((rm_find (st_refs st))(ref := None)) r = Some y) \<longleftrightarrow>
      (\<exists>r. rm_find (st_refs st) r = Some y) \<and> y \<noteq> x" for y
    using assms(3) by (metis fun_upd_apply option.distinct(1) option.inject)
  then show ?thesis unfolding assms(2) live_def ran_def by blast
qed

section \<open>Removing and reducing\<close>

lemma all_of_remove:
  assumes ok: "pair_ok h b Q" and q: "Q d p = l @ x # r"
  shows "all_of (Q(d := (Q d)(p := l @ r))) = all_of Q - {x}"
proof -
  have dist: "distinct (l @ x # r)" using queue_distinct [OF pair_okD(1) [OF ok]] q by metis
  have xdp: "x \<in> set (Q d p)" using q by simp
  have "y \<in> all_of (Q(d := (Q d)(p := l @ r))) \<longleftrightarrow> y \<in> all_of Q \<and> y \<noteq> x" for y
  proof
    assume "y \<in> all_of (Q(d := (Q d)(p := l @ r)))"
    then obtain d' p' where y: "y \<in> set ((Q(d := (Q d)(p := l @ r))) d' p')" by (auto simp: all_of_iff)
    show "y \<in> all_of Q \<and> y \<noteq> x"
    proof (cases "d' = d \<and> p' = p")
      case True
      with y have "y \<in> set (l @ r)" by simp
      with q dist have "y \<in> set (Q d p)" "y \<noteq> x" by auto
      then show ?thesis by (auto simp: all_of_iff)
    next
      case False
      with y have m: "y \<in> set (Q d' p')" by (auto split: if_splits)
      then have "y \<noteq> x" using pair_place [OF ok xdp] False by blast
      with m show ?thesis by (auto simp: all_of_iff)
    qed
  next
    assume "y \<in> all_of Q \<and> y \<noteq> x"
    then obtain d' p' where y: "y \<in> set (Q d' p')" "y \<noteq> x" by (auto simp: all_of_iff)
    then have "y \<in> set ((Q(d := (Q d)(p := l @ r))) d' p')" using q by auto
    then show "y \<in> all_of (Q(d := (Q d)(p := l @ r)))" unfolding all_of_iff by blast
  qed
  then show ?thesis by auto
qed

lemma destroy_ok:
  assumes st: "store_ok st" and bk: "book_ok st b Q"
    and x: "rm_find (st_refs st) ref = Some x" and ix: "rm_find_index (st_refs st) ref = Some slot"
    and d: "d = (o_side (st_heap st x) = side_B)" and q: "Q d p = l @ x # r"
    and res: "destroy x slot (st, b) = (st', b')"
  shows "store_ok st'" "book_ok st' b' (Q(d := (Q d)(p := l @ r)))"
    "\<And>y. y \<noteq> x \<Longrightarrow> same_core (st_heap st' y) (st_heap st y)"
    "frame (bk_locate b) st st'" "same_rest b b'"
    "rm_find (st_refs st') = (rm_find (st_refs st))(ref := None)"
    "bk_resting_orders b' = bk_resting_orders b - 1"
proof -
  let ?h = "st_heap st" and ?l = "bk_locate b" and ?Q = "Q(d := (Q d)(p := l @ r))"
  note S = store_okD [OF st] and B = book_okD [OF bk]
  define b0 where "b0 = b\<lparr> bk_resting_shares := bk_resting_shares b - ucast (o_shares (?h x)),
                 bk_resting_orders := bk_resting_orders b - 1 \<rparr>"
  obtain h1 b1 where 1: "pop_order (o_side (?h x)) x (?h, b0) = (h1, b1)" by (meson surj_pair)
  obtain h2 pl where 2: "deallocate x (h1, st_pool st) = (h2, pl)" by (meson surj_pair)
  have st': "st' = \<lparr> st_heap = h2, st_refs = rm_erase_at slot (st_refs st), st_pool = pl \<rparr>" "b' = b1"
    using res 1 2 by (auto simp: destroy_def b0_def Let_def)
  have ok0: "pair_ok ?h b0 Q" by (rule pair_ok_cong [OF B(1)]) (simp_all add: b0_def)
  note P = pop_order_ok [OF ok0 refl q [unfolded d] 1, folded d]
  have xQ: "x \<in> all_of Q" using q by (auto simp: all_of_iff intro!: exI [of _ d] exI [of _ p])
  have sub: "all_of Q \<subseteq> live st" using B(2) by (auto simp: mine_def)
  have xl: "x \<in> live st" using xQ sub by blast
  have pool1: "pool_ok h1 (st_pool st) (live st)"
    by (rule pool_ok_frame [OF S(3)]) (use P(3) sub in blast)
  note D = deallocate_ok [OF pool1 xl 2]
  have allQ: "all_of ?Q = all_of Q - {x}" by (rule all_of_remove [OF B(1) q])
  show core: "same_core (st_heap st' y) (?h y)" if "y \<noteq> x" for y
    using D(2) P(2) that by (simp add: st')
  note E = rm_erase_at_spec [OF S(1) ix]
  show find': "rm_find (st_refs st') = (rm_find (st_refs st))(ref := None)"
    using E(2) by (simp add: st')
  have live': "live st' = live st - {x}"
    unfolding live_def [of st'] by (rule live_delete [OF st find' x])
  have hp: "st_heap st' = h2" by (simp add: st')
  show "store_ok st'"
    unfolding store_ok_def
  proof (intro conjI allI impI)
    show "rm_inv (st_refs st')" using E(1) by (simp add: st')
    show "o_ref (st_heap st' y) = s" if f: "rm_find (st_refs st') s = Some y" for s y
    proof -
      have "s \<noteq> ref" "rm_find (st_refs st) s = Some y" using f find' by (auto split: if_splits)
      then have "o_ref (?h y) = s" "y \<noteq> x" using S(2) x by auto
      with core show ?thesis by (simp add: same_core_def)
    qed
    show "pool_ok (st_heap st') (st_pool st') (live st')"
      using D(1) by (simp add: live') (simp add: st')
  qed
  have loc: "o_locate (h2 y) = o_locate (?h y)" if "y \<noteq> x" for y
    using core [OF that] by (simp add: same_core_def hp)
  have mine': "mine st' l' = mine st l' - {x}" for l'
    unfolding mine_def live' hp using loc by auto
  have b1: "b1 = b0\<lparr> bk_bids := bk_bids b1, bk_asks := bk_asks b1 \<rparr>"
      "same_shape (bk_bids b0) (bk_bids b1)" "same_shape (bk_asks b0) (bk_asks b1)"
    using P(4) unfolding same_sides_def by blast+
  have f: "bk_resting_orders b1 = bk_resting_orders b - 1" "bk_tick b1 = bk_tick b"
      "bk_resting_shares b1 = bk_resting_shares b - ucast (o_shares (?h x))"
      "bk_band_levels b1 = bk_band_levels b" "bk_locate b1 = ?l"
      "bk_pending_bid b1 = bk_pending_bid b" "bk_pending_ask b1 = bk_pending_ask b"
    by (subst b1(1), simp add: b0_def)+
  show "bk_resting_orders b' = bk_resting_orders b - 1" using f by (simp add: st')
  have "same_rest b b0" by (simp add: b0_def same_rest_def)
  then show "same_rest b b'" using sides_rest [OF b1(1)] same_rest_trans st'(2) by blast
  have fin: "finite (all_of Q)" using finite_mine [OF st] B(2) by simp
  show "book_ok st' b' ?Q"
    unfolding book_ok_def
  proof (intro conjI)
    show "pair_ok (st_heap st') b' ?Q"
      unfolding st' store.simps by (rule pair_ok_frame [OF P(1)]) (use D(2) allQ in auto)
    show "all_of ?Q = mine st' (bk_locate b')" using allQ mine' B(2) f by (simp add: st')
    have "banded (bk_bids b1) = banded (bk_bids b)" "banded (bk_asks b1) = banded (bk_asks b)"
      using same_shapeD(8) [OF b1(2)] same_shapeD(8) [OF b1(3)] by (simp_all add: b0_def)
    then show "band_ok b' (all_of ?Q)"
      using B(3) f allQ by (auto simp: band_ok_def st')
    show "bk_resting_orders b' = card (all_of ?Q)" using B(4) f fin xQ by (simp add: allQ st')
    show "bk_resting_orders b' < 2 ^ 32" using B(6) f by (simp add: st')
    have "shares_of (st_heap st') (all_of Q - {x}) = shares_of ?h (all_of Q - {x})"
      by (rule shares_of_cong) (use core in \<open>auto simp: same_core_def\<close>)
    moreover have "shares_of ?h (all_of Q) = ucast (o_shares (?h x)) + shares_of ?h (all_of Q - {x})"
      using shares_of_insert [of "all_of Q - {x}" x ?h] fin xQ by (simp add: insert_absorb)
    ultimately show "bk_resting_shares b' = shares_of (st_heap st') (all_of ?Q)"
      using B(5) f by (simp add: allQ st')
  qed
  show "frame ?l st st'"
    unfolding frame_def
  proof (intro allI impI conjI ballI)
    fix l' assume l': "l' \<noteq> ?l"
    have "x \<notin> mine st l'" using xQ B(2) l' by (auto simp: mine_def)
    then show "mine st' l' = mine st l'" using mine' by simp
    fix y assume y: "y \<in> mine st l'"
    then have "y \<noteq> x" "y \<notin> all_of Q" using \<open>x \<notin> mine st l'\<close> B(2) l' by (auto simp: mine_def)
    then show "st_heap st' y = ?h y" using D(2) P(3) by (simp add: st')
  qed
qed

lemma reduce_part_ok:
  assumes st: "store_ok st" and bk: "book_ok st b Q"
    and x: "rm_find (st_refs st) ref = Some x"
    and d: "d = (o_side (st_heap st x) = side_B)" and q: "Q d p = l @ x # r"
    and less: "by < o_shares (st_heap st x)"
    and res: "reduce x by slot (st, b) = (st', b')"
  shows "store_ok st'" "book_ok st' b' Q"
    "st_heap st' = set_shares x (o_shares (st_heap st x) - by) (st_heap st)"
    "frame (bk_locate b) st st'" "same_rest b b'" "st_refs st' = st_refs st"
    "bk_resting_orders b' = bk_resting_orders b"
proof -
  let ?h = "st_heap st" and ?c = "o_side (st_heap st x)"
  note S = store_okD [OF st] and B = book_okD [OF bk]
  have xq: "x \<in> set (Q d p)" using q by simp
  have so: "side_ok ?h (side_for ?c b) (Q d)"
    using pair_okD(1) [OF B(1), of d] d by (simp add: side_for_the_side)
  obtain lv where lv: "level_of ?h (side_for ?c b) x = Some lv"
    using level_of_ok [OF so xq] level_at_ok(2) [OF so, of p] xq
    by (cases "level_at (side_for ?c b) p") auto
  define sd where "sd = set_level_of ?h x (lv_resize (o_shares (?h x)) (o_shares (?h x) - by) lv) (side_for ?c b)"
  have st': "st' = st\<lparr> st_heap := set_shares x (o_shares (?h x) - by) ?h \<rparr>"
    and b': "b' = (put_side ?c sd b)\<lparr> bk_resting_shares := bk_resting_shares b - ucast by \<rparr>"
  proof -
    have "\<not> o_shares (?h x) \<le> by" using less by (simp add: not_le)
    then have "reduce x by slot (st, b) = (st\<lparr> st_heap := set_shares x (o_shares (?h x) - by) ?h \<rparr>,
        (put_side ?c sd b)\<lparr> bk_resting_shares := bk_resting_shares b - ucast by \<rparr>)"
      using lv by (simp add: reduce_def Let_def sd_def put_side_def)
    with res show "st' = st\<lparr> st_heap := set_shares x (o_shares (?h x) - by) ?h \<rparr>"
        "b' = (put_side ?c sd b)\<lparr> bk_resting_shares := bk_resting_shares b - ucast by \<rparr>"
      by simp_all
  qed
  show hp: "st_heap st' = set_shares x (o_shares (?h x) - by) ?h" and "st_refs st' = st_refs st"
    by (simp_all add: st')
  have live': "live st' = live st" by (simp add: live_def st')
  have keep: "o_ref (st_heap st' y) = o_ref (?h y)" "o_locate (st_heap st' y) = o_locate (?h y)"
      "o_side (st_heap st' y) = o_side (?h y)" "o_next (st_heap st' y) = o_next (?h y)" for y
    by (simp_all add: hp set_shares_def)
  have other: "st_heap st' y = ?h y" if "y \<noteq> x" for y using that by (simp add: hp set_shares_def)
  have mine': "mine st' l' = mine st l'" for l' by (simp add: mine_def live' keep)
  have xQ: "x \<in> all_of Q" using xq by (auto simp: all_of_iff)
  have sub: "all_of Q \<subseteq> live st" using B(2) by (auto simp: mine_def)
  show "store_ok st'"
    unfolding store_ok_def live'
  proof (intro conjI)
    show "pool_ok (st_heap st') (st_pool st') (live st)"
    proof -
      have "pool_ok (st_heap st') (st_pool st) (live st)"
        by (rule pool_ok_frame [OF S(3)], rule other) (use xQ sub in blast)
      then show ?thesis by (simp add: st')
    qed
    show "rm_inv (st_refs st')" using S(1) by (simp add: st')
    show "\<forall>r x. rm_find (st_refs st') r = Some x \<longrightarrow> o_ref (st_heap st' x) = r"
      using S(2) by (simp add: keep \<open>st_refs st' = st_refs st\<close>)
  qed
  note R = sd_resize_ok(1) [OF so xq lv, of "o_shares (?h x) - by", folded sd_def hp]
  have sh: "same_shape (side_for ?c b) sd" unfolding sd_def by (rule sd_resize_ok(2) [OF so xq lv])
  have rest: "same_sides b (put_side ?c sd b)" by (rule put_side_sides [OF sh])
  then show "same_rest b b'"
    using sides_rest [of "put_side ?c sd b" b] same_rest_trans
    unfolding same_sides_def b' by (simp add: same_rest_def put_side_def)
  have ot: "side_ok (st_heap st') (the_side d' b) (Q d')" if "d' \<noteq> d" for d'
  proof (rule side_ok_frame [OF pair_okD(1) [OF B(1)]])
    fix p' y assume "y \<in> set (Q d' p')"
    then have "y \<noteq> x" using pair_place [OF B(1) xq] that by blast
    then show "st_heap st' y = ?h y" by (rule other)
  qed
  have "side_ok (st_heap st') (the_side d' b') (Q d')" for d'
    using R ot [of d'] d by (auto simp: b' the_side_def put_side_def split: if_splits)
  moreover have "sd_side (bk_bids b') = side_B" "sd_side (bk_asks b') = side_S"
      "sd_tick (bk_bids b') = bk_tick b'" "sd_tick (bk_asks b') = bk_tick b'"
    using B(1) sh by (auto simp: pair_ok_def b' put_side_def side_for_def same_shape_def split: if_splits)
  moreover have "(o_side (st_heap st' y) = side_B) = d'" if "y \<in> set (Q d' p')" for d' p' y
    using pair_okD(2) [OF B(1) that] by (simp add: keep)
  ultimately have ok': "pair_ok (st_heap st') b' Q" unfolding pair_ok_def by blast
  have f: "bk_resting_orders b' = bk_resting_orders b" "bk_tick b' = bk_tick b"
      "bk_band_levels b' = bk_band_levels b" "bk_locate b' = bk_locate b"
      "bk_pending_bid b' = bk_pending_bid b" "bk_pending_ask b' = bk_pending_ask b"
      "banded (bk_bids b') = banded (bk_bids b)" "banded (bk_asks b') = banded (bk_asks b)"
    using same_shapeD(8) [OF sh] by (auto simp: b' put_side_def side_for_def)
  then show "bk_resting_orders b' = bk_resting_orders b" by simp
  have fin: "finite (all_of Q)" using finite_mine [OF st] B(2) by simp
  have "shares_of (st_heap st') (all_of Q - {x}) = shares_of ?h (all_of Q - {x})"
    by (rule shares_of_cong) (simp add: other)
  moreover have "shares_of h (all_of Q) = ucast (o_shares (h x)) + shares_of h (all_of Q - {x})" for h
    using shares_of_insert [of "all_of Q - {x}" x h] fin xQ by (simp add: insert_absorb)
  moreover have "ucast (o_shares (?h x) - by) = (ucast (o_shares (?h x)) - ucast by :: u64)"
    using less by (intro ucast_sub_le) simp
  ultimately have "shares_of (st_heap st') (all_of Q) = shares_of ?h (all_of Q) - ucast by"
    by (simp add: hp set_shares_def)
  then show "book_ok st' b' Q"
    unfolding book_ok_def using ok' B f mine' by (auto simp: band_ok_def b')
  show "frame (bk_locate b) st st'"
    unfolding frame_def
  proof (intro allI impI conjI ballI)
    fix l' y assume "l' \<noteq> bk_locate b" "y \<in> mine st l'"
    then have "y \<noteq> x" using xQ B(2) by (auto simp: mine_def)
    then show "st_heap st' y = ?h y" by (rule other)
  qed (simp add: mine')
qed

section \<open>The operations on the contents of the book\<close>

text \<open>
  What a book promises: its contents are, for either side and price, the references and open sizes
  in queue order. The specification of an operation is a function on every queue.
\<close>

definition a_reduce :: "u64 \<Rightarrow> u32 \<Rightarrow> (u64 \<times> u32) list \<Rightarrow> (u64 \<times> u32) list" where
  "a_reduce ref by q =
     concat (map (\<lambda>(r, s). if r = ref then (if by \<ge> s then [] else [(r, s - by)]) else [(r, s)]) q)"

definition a_remove :: "u64 \<Rightarrow> (u64 \<times> u32) list \<Rightarrow> (u64 \<times> u32) list" where
  "a_remove ref q = filter (\<lambda>(r, s). r \<noteq> ref) q"

definition a_add :: "bool \<Rightarrow> int \<Rightarrow> u64 \<Rightarrow> u32 \<Rightarrow> (bool \<Rightarrow> int \<Rightarrow> (u64 \<times> u32) list) \<Rightarrow>
    bool \<Rightarrow> int \<Rightarrow> (u64 \<times> u32) list" where
  "a_add d p ref shares V = (\<lambda>d' p'. if d' = d \<and> p' = p then V d' p' @ [(ref, shares)] else V d' p')"

lemma a_reduce_simps [simp]: "a_reduce ref by [] = []"
  "a_reduce ref by (q @ r) = a_reduce ref by q @ a_reduce ref by r"
  "a_reduce ref by ((x, s) # q) =
     (if x = ref then (if by \<ge> s then [] else [(x, s - by)]) else [(x, s)]) @ a_reduce ref by q"
  by (auto simp: a_reduce_def)

lemma a_reduce_other: "\<forall>e \<in> set q. fst e \<noteq> ref \<Longrightarrow> a_reduce ref by q = q"
  by (induction q) auto

lemma a_remove_reduce: "\<forall>s. (ref, s) \<in> set q \<longrightarrow> by \<ge> s \<Longrightarrow> a_remove ref q = a_reduce ref by q"
  by (induction q) (auto simp: a_remove_def a_reduce_def)

lemma a_remove_other: "\<forall>e \<in> set q. fst e \<noteq> ref \<Longrightarrow> a_remove ref q = q"
  by (auto simp: a_remove_def filter_id_conv)

definition good :: "bstate \<Rightarrow> bool" where
  "good sb \<longleftrightarrow> store_ok (fst sb) \<and> (\<exists>Q. book_ok (fst sb) (snd sb) Q)"

text \<open>An operation on a good state: the contents it leaves, and the frame.\<close>

definition refines :: "bstate \<Rightarrow> bstate \<Rightarrow> (bool \<Rightarrow> int \<Rightarrow> (u64 \<times> u32) list) \<Rightarrow> bool" where
  "refines sb sb' V \<longleftrightarrow>
     good sb' \<and> book_view sb' = V \<and> frame (bk_locate (snd sb)) (fst sb) (fst sb') \<and>
     bk_locate (snd sb') = bk_locate (snd sb)"

lemma refinesI:
  assumes "store_ok st'" "book_ok st' b' Q'" "frame (bk_locate b) st st'" "bk_locate b' = bk_locate b"
    "view_of (st_heap st') Q' = V"
  shows "refines (st, b) (st', b') V"
  using assms book_view_ok by (auto simp: refines_def good_def)

lemma absent_view:
  assumes st: "store_ok st" and bk: "book_ok st b Q"
    and "\<And>x. rm_find (st_refs st) ref = Some x \<Longrightarrow> o_locate (st_heap st x) \<noteq> bk_locate b"
  shows "\<forall>e \<in> set (view_of (st_heap st) Q d p). fst e \<noteq> ref"
proof
  fix e assume "e \<in> set (view_of (st_heap st) Q d p)"
  then obtain y where y: "y \<in> set (Q d p)" "fst e = o_ref (st_heap st y)"
    by (auto simp: view_of_def tag_def)
  then have "y \<in> all_of Q" unfolding all_of_def by blast
  then have "y \<in> mine st (bk_locate b)" using book_okD(2) [OF bk] by simp
  then have "rm_find (st_refs st) (o_ref (st_heap st y)) = Some y" "o_locate (st_heap st y) = bk_locate b"
    using live_find [OF st] by (auto simp: mine_def)
  with assms(3) y show "fst e \<noteq> ref" by auto
qed

lemma split_view:
  assumes st: "store_ok st" and bk: "book_ok st b Q" and x: "rm_find (st_refs st) ref = Some x"
    and q: "Q d p = l @ x # r"
  shows "\<forall>y \<in> set l \<union> set r. o_ref (st_heap st y) \<noteq> ref"
    "(d', p') \<noteq> (d, p) \<Longrightarrow> \<forall>y \<in> set (Q d' p'). o_ref (st_heap st y) \<noteq> ref"
proof -
  note B = book_okD [OF bk]
  have dist: "distinct (l @ x # r)" using queue_distinct [OF pair_okD(1) [OF B(1)]] q by metis
  have U: "o_ref (st_heap st y) = ref \<longleftrightarrow> y = x" if "y \<in> set (Q d' p')" for y d' p'
    by (rule ref_unique [OF st bk x]) (use that in \<open>auto simp: all_of_iff\<close>)
  show "\<forall>y \<in> set l \<union> set r. o_ref (st_heap st y) \<noteq> ref"
  proof
    fix y assume "y \<in> set l \<union> set r"
    then have "y \<in> set (Q d p)" "y \<noteq> x" using q dist by auto
    with U show "o_ref (st_heap st y) \<noteq> ref" by blast
  qed
  show "\<forall>y \<in> set (Q d' p'). o_ref (st_heap st y) \<noteq> ref" if "(d', p') \<noteq> (d, p)"
  proof
    fix y assume y: "y \<in> set (Q d' p')"
    then have "y \<noteq> x" using pair_place [OF B(1), of y d' p' d p] that q by auto
    with U [OF y] show "o_ref (st_heap st y) \<noteq> ref" by blast
  qed
qed

lemma tags_other: "\<forall>y \<in> set q. o_ref (h y) \<noteq> ref \<Longrightarrow> \<forall>e \<in> set (map (tag h) q). fst e \<noteq> ref"
  by (auto simp: tag_def)

lemma destroy_view:
  assumes st: "store_ok st" and bk: "book_ok st b Q"
    and x: "rm_find (st_refs st) ref = Some x" "o_locate (st_heap st x) = bk_locate b"
    and ix: "rm_find_index (st_refs st) ref = Some slot"
    and res: "destroy x slot (st, b) = (st', b')"
  obtains Q' where "store_ok st'" "book_ok st' b' Q'" "frame (bk_locate b) st st'" "same_rest b b'"
    "view_of (st_heap st') Q' = (\<lambda>d p. a_remove ref (view_of (st_heap st) Q d p))"
    "rm_find (st_refs st') = (rm_find (st_refs st))(ref := None)"
    "bk_resting_orders b' + 1 = bk_resting_orders b"
proof -
  obtain p l r where q: "Q (o_side (st_heap st x) = side_B) p = l @ x # r"
    using named_place [OF st bk x] .
  let ?d = "o_side (st_heap st x) = side_B"
  let ?Q = "Q(?d := (Q ?d)(p := l @ r))"
  note D = destroy_ok [OF st bk x(1) ix refl q res]
  note B = book_okD [OF bk]
  have "x \<in> all_of Q" using q by (auto simp: all_of_iff intro!: exI [of _ ?d] exI [of _ p])
  then have "0 < bk_resting_orders b" using B(2,4) finite_mine [OF st] by (simp add: card_gt_0_iff) blast
  moreover have "view_of (st_heap st') ?Q = (\<lambda>d p. a_remove ref (view_of (st_heap st) Q d p))"
  proof (intro ext)
    fix d' p'
    note V = split_view [OF st bk x(1) q]
    have dist: "distinct (l @ x # r)" using queue_distinct [OF pair_okD(1) [OF B(1)]] q by metis
    have tg1: "tag (st_heap st') y = tag (st_heap st) y" if "y \<noteq> x" for y
      using D(3) [OF that] by (simp add: tag_def same_core_def)
    have tg: "map (tag (st_heap st')) q' = map (tag (st_heap st)) q'" if "x \<notin> set q'" for q'
      using tg1 that by (metis map_cong)
    show "view_of (st_heap st') ?Q d' p' = a_remove ref (view_of (st_heap st) Q d' p')"
    proof (cases "(d', p') = (?d, p)")
      case True
      have "view_of (st_heap st) Q ?d p = map (tag (st_heap st)) l @ tag (st_heap st) x # map (tag (st_heap st)) r"
        by (simp add: view_of_def q)
      moreover have "a_remove ref (map (tag (st_heap st)) l) = map (tag (st_heap st)) l"
          "a_remove ref (map (tag (st_heap st)) r) = map (tag (st_heap st)) r"
        using V(1) by (auto intro!: a_remove_other tags_other)
      ultimately have "a_remove ref (view_of (st_heap st) Q ?d p) = map (tag (st_heap st)) (l @ r)"
        using store_okD(2) [OF st x(1)] by (simp add: a_remove_def tag_def)
      with True tg [of "l @ r"] dist show ?thesis by (simp add: view_of_def)
    next
      case False
      have "a_remove ref (view_of (st_heap st) Q d' p') = view_of (st_heap st) Q d' p'"
        unfolding view_of_def using V(2) [OF False] by (intro a_remove_other tags_other)
      moreover have "x \<notin> set (Q d' p')" using V(2) [OF False] store_okD(2) [OF st x(1)] by blast
      ultimately show ?thesis using False tg by (auto simp: view_of_def)
    qed
  qed
  ultimately show thesis using that [of ?Q] D by simp
qed

lemma reduce_view:
  assumes st: "store_ok st" and bk: "book_ok st b Q"
    and x: "rm_find (st_refs st) ref = Some x" "o_locate (st_heap st x) = bk_locate b"
    and ix: "rm_find_index (st_refs st) ref = Some slot"
    and res: "reduce x by slot (st, b) = (st', b')"
  obtains Q' where "store_ok st'" "book_ok st' b' Q'" "frame (bk_locate b) st st'" "same_rest b b'"
    "view_of (st_heap st') Q' = (\<lambda>d p. a_reduce ref by (view_of (st_heap st) Q d p))"
proof (cases "by \<ge> o_shares (st_heap st x)")
  case True
  then have "destroy x slot (st, b) = (st', b')" using res by (simp add: reduce_def)
  from destroy_view [OF st bk x ix this] obtain Q' where Q': "store_ok st'" "book_ok st' b' Q'"
      "frame (bk_locate b) st st'" "same_rest b b'"
      "view_of (st_heap st') Q' = (\<lambda>d p. a_remove ref (view_of (st_heap st) Q d p))"
    by blast
  have "a_remove ref (view_of (st_heap st) Q d p) = a_reduce ref by (view_of (st_heap st) Q d p)" for d p
  proof -
    have "s = o_shares (st_heap st x)" if m: "(ref, s) \<in> set (view_of (st_heap st) Q d p)" for s
    proof -
      obtain y where y: "y \<in> set (Q d p)" "o_ref (st_heap st y) = ref" "s = o_shares (st_heap st y)"
        using m by (auto simp: view_of_def tag_def)
      then have "y = x" using ref_unique [OF st bk x(1), of y] by (auto simp: all_of_iff)
      with y show ?thesis by simp
    qed
    then have "\<forall>s. (ref, s) \<in> set (view_of (st_heap st) Q d p) \<longrightarrow> by \<ge> s" using True by blast
    then show ?thesis by (rule a_remove_reduce)
  qed
  with that Q' show thesis by simp
next
  case False
  then have less: "by < o_shares (st_heap st x)" by simp
  obtain p l r where q: "Q (o_side (st_heap st x) = side_B) p = l @ x # r"
    using named_place [OF st bk x] .
  let ?d = "o_side (st_heap st x) = side_B"
  note R = reduce_part_ok [OF st bk x(1) refl q less res]
  note V = split_view [OF st bk x(1) q]
  have tg: "map (tag (st_heap st')) q' = map (tag (st_heap st)) q'" if "x \<notin> set q'" for q'
    using that by (auto simp: tag_def R(3) set_shares_def)
  have "view_of (st_heap st') Q d' p' = a_reduce ref by (view_of (st_heap st) Q d' p')" for d' p'
  proof (cases "(d', p') = (?d, p)")
    case True
    have dist: "distinct (l @ x # r)"
      using queue_distinct [OF pair_okD(1) [OF book_okD(1) [OF bk]]] q by metis
    have "a_reduce ref by (map (tag (st_heap st)) l) = map (tag (st_heap st)) l"
        "a_reduce ref by (map (tag (st_heap st)) r) = map (tag (st_heap st)) r"
      using V(1) by (auto intro!: a_reduce_other tags_other)
    moreover have "tag (st_heap st) x = (ref, o_shares (st_heap st x))"
        "tag (st_heap st') x = (ref, o_shares (st_heap st x) - by)"
      using store_okD(2) [OF st x(1)] by (simp_all add: tag_def R(3) set_shares_def)
    ultimately show ?thesis
      using True dist tg [of l] tg [of r] False by (simp add: view_of_def q)
  next
    case other: False
    have "a_reduce ref by (view_of (st_heap st) Q d' p') = view_of (st_heap st) Q d' p'"
      unfolding view_of_def using V(2) [OF other] by (intro a_reduce_other tags_other)
    moreover have "x \<notin> set (Q d' p')" using V(2) [OF other] store_okD(2) [OF st x(1)] by blast
    ultimately show ?thesis using tg by (simp add: view_of_def)
  qed
  then have "view_of (st_heap st') Q = (\<lambda>d p. a_reduce ref by (view_of (st_heap st) Q d p))" by blast
  with that [of Q] R show thesis by blast
qed

lemma book_ok_cong:
  "book_ok st b Q \<Longrightarrow> bk_bids b' = bk_bids b \<Longrightarrow> bk_asks b' = bk_asks b \<Longrightarrow> bk_tick b' = bk_tick b \<Longrightarrow>
   bk_band_levels b' = bk_band_levels b \<Longrightarrow> bk_pending_bid b' = bk_pending_bid b \<Longrightarrow>
   bk_pending_ask b' = bk_pending_ask b \<Longrightarrow> bk_locate b' = bk_locate b \<Longrightarrow>
   bk_resting_orders b' = bk_resting_orders b \<Longrightarrow> bk_resting_shares b' = bk_resting_shares b \<Longrightarrow>
   book_ok st b' Q"
  using pair_ok_cong [of "st_heap st" b Q b'] by (auto simp: book_ok_def band_ok_def)

lemma record_trade_frame [simp]:
  "bk_bids (record_trade p n b) = bk_bids b" "bk_asks (record_trade p n b) = bk_asks b"
  "bk_tick (record_trade p n b) = bk_tick b" "bk_band_levels (record_trade p n b) = bk_band_levels b"
  "bk_pending_bid (record_trade p n b) = bk_pending_bid b"
  "bk_pending_ask (record_trade p n b) = bk_pending_ask b"
  "bk_locate (record_trade p n b) = bk_locate b"
  "bk_resting_orders (record_trade p n b) = bk_resting_orders b"
  "bk_resting_shares (record_trade p n b) = bk_resting_shares b"
  "bk_unknown_ref (record_trade p n b) = bk_unknown_ref b"
  "bk_locate_mismatch (record_trade p n b) = bk_locate_mismatch b"
  by (simp_all add: record_trade_def Let_def)

lemma book_ok_trade: "book_ok st b Q \<Longrightarrow> book_ok st (record_trade p n b) Q"
  by (erule book_ok_cong) simp_all

lemma refines_idle:
  assumes st: "store_ok st" and bk: "book_ok st b Q" and bk': "book_ok st b' Q" and "bk_locate b' = bk_locate b"
    and "\<And>d p. f (view_of (st_heap st) Q d p) = view_of (st_heap st) Q d p"
  shows "refines (st, b) (st, b') (\<lambda>d p. f (book_view (st, b) d p))"
  by (rule refinesI [OF st bk' frame_refl assms(4)]) (simp add: book_view_ok [OF bk] assms(5))

text \<open>
  Taking shares: the three ways a reference can resolve, for a book whose counters the operation may
  have moved before it touches the order.
\<close>

lemma reduce_refines:
  assumes g: "good (st, b)"
    and op: "op = (case resolve ref (st, b) of (None, sb) \<Rightarrow> sb
      | (Some slot, st, b) \<Rightarrow> reduce (order_at (st, b) slot) by slot (st, upd (order_at (st, b) slot) b))"
    and upd: "\<And>x st b Q. book_ok st b Q \<Longrightarrow> book_ok st (upd x b) Q \<and> bk_locate (upd x b) = bk_locate b"
  shows "refines (st, b) op (\<lambda>d p. a_reduce ref by (book_view (st, b) d p))"
proof -
  obtain Q where st: "store_ok st" and bk: "book_ok st b Q" using g by (auto simp: good_def)
  show ?thesis
    using st
  proof (cases rule: resolve_cases [where ref = ref and b = b])
    case unknown
    have "book_ok st (b\<lparr> bk_unknown_ref := bk_unknown_ref b + 1 \<rparr>) Q"
      by (rule book_ok_cong [OF bk]) simp_all
    moreover have "a_reduce ref by (view_of (st_heap st) Q d p) = view_of (st_heap st) Q d p" for d p
      by (rule a_reduce_other, rule absent_view [OF st bk]) (simp add: unknown)
    ultimately show ?thesis
      using refines_idle [OF st bk] by (simp add: op unknown)
  next
    case (foreign x)
    have "book_ok st (b\<lparr> bk_locate_mismatch := bk_locate_mismatch b + 1 \<rparr>) Q"
      by (rule book_ok_cong [OF bk]) simp_all
    moreover have "a_reduce ref by (view_of (st_heap st) Q d p) = view_of (st_heap st) Q d p" for d p
      by (rule a_reduce_other, rule absent_view [OF st bk]) (use foreign in simp)
    ultimately show ?thesis
      using refines_idle [OF st bk] by (simp add: op foreign)
  next
    case (named slot x)
    have bk1: "book_ok st (upd x b) Q" "bk_locate (upd x b) = bk_locate b" using upd [OF bk] by auto
    obtain st' b' where r: "reduce x by slot (st, upd x b) = (st', b')" by (meson surj_pair)
    from reduce_view [OF st bk1(1) named(1) _ named(3) r] named(2) bk1(2) obtain Q' where
      "store_ok st'" "book_ok st' b' Q'" "frame (bk_locate b) st st'" "same_rest (upd x b) b'"
      "view_of (st_heap st') Q' = (\<lambda>d p. a_reduce ref by (view_of (st_heap st) Q d p))"
      by auto
    then have "refines (st, b) (st', b') (\<lambda>d p. a_reduce ref by (view_of (st_heap st) Q d p))"
      using bk1(2) same_restD(1) by (intro refinesI) auto
    then show ?thesis using r named book_view_ok [OF bk] by (simp add: op)
  qed
qed

lemma execute_refines:
  "good (st, b) \<Longrightarrow> refines (st, b) (bk_execute ref n (st, b)) (\<lambda>d p. a_reduce ref n (book_view (st, b) d p))"
  by (erule reduce_refines [where upd = "\<lambda>x b. record_trade (o_price (st_heap st x)) (ucast n) b"])
    (auto simp: bk_execute_def Let_def resolve_def order_at_def book_ok_trade split: option.splits)

lemma execute_with_price_refines:
  "good (st, b) \<Longrightarrow> refines (st, b) (bk_execute_with_price ref n price printable (st, b))
     (\<lambda>d p. a_reduce ref n (book_view (st, b) d p))"
  by (erule reduce_refines [where upd = "\<lambda>x b. if printable then record_trade price (ucast n) b else b"])
    (auto simp: bk_execute_with_price_def Let_def resolve_def order_at_def book_ok_trade split: option.splits)

lemma cancel_refines:
  "good (st, b) \<Longrightarrow> refines (st, b) (bk_cancel ref n (st, b)) (\<lambda>d p. a_reduce ref n (book_view (st, b) d p))"
  by (erule reduce_refines [where upd = "\<lambda>x b. b"])
    (auto simp: bk_cancel_def split: option.splits prod.splits)

lemma take_refines:
  "good (st, b) \<Longrightarrow> refines (st, b) (bk_take ref n (st, b)) (\<lambda>d p. a_reduce ref n (book_view (st, b) d p))"
  by (erule reduce_refines [where upd = "\<lambda>x b. b"])
    (auto simp: bk_take_def split: option.splits prod.splits)

lemma remove_refines:
  assumes g: "good (st, b)"
  shows "refines (st, b) (bk_remove ref (st, b)) (\<lambda>d p. a_remove ref (book_view (st, b) d p))"
proof -
  obtain Q where st: "store_ok st" and bk: "book_ok st b Q" using g by (auto simp: good_def)
  show ?thesis
    using st
  proof (cases rule: resolve_cases [where ref = ref and b = b])
    case unknown
    have "book_ok st (b\<lparr> bk_unknown_ref := bk_unknown_ref b + 1 \<rparr>) Q"
      by (rule book_ok_cong [OF bk]) simp_all
    moreover have "a_remove ref (view_of (st_heap st) Q d p) = view_of (st_heap st) Q d p" for d p
      by (rule a_remove_other, rule absent_view [OF st bk]) (simp add: unknown)
    ultimately show ?thesis
      using refines_idle [OF st bk] by (simp add: bk_remove_def unknown)
  next
    case (foreign x)
    have "book_ok st (b\<lparr> bk_locate_mismatch := bk_locate_mismatch b + 1 \<rparr>) Q"
      by (rule book_ok_cong [OF bk]) simp_all
    moreover have "a_remove ref (view_of (st_heap st) Q d p) = view_of (st_heap st) Q d p" for d p
      by (rule a_remove_other, rule absent_view [OF st bk]) (use foreign in simp)
    ultimately show ?thesis
      using refines_idle [OF st bk] by (simp add: bk_remove_def foreign)
  next
    case (named slot x)
    obtain st' b' where r: "destroy x slot (st, b) = (st', b')" by (meson surj_pair)
    from destroy_view [OF st bk named(1,2,3) r] obtain Q' where
      "store_ok st'" "book_ok st' b' Q'" "frame (bk_locate b) st st'" "same_rest b b'"
      "view_of (st_heap st') Q' = (\<lambda>d p. a_remove ref (view_of (st_heap st) Q d p))" .
    then have "refines (st, b) (st', b') (\<lambda>d p. a_remove ref (view_of (st_heap st) Q d p))"
      using same_restD(1) by (intro refinesI) auto
    then show ?thesis using r named book_view_ok [OF bk] by (simp add: bk_remove_def)
  qed
qed

lemma add_refines:
  assumes g: "good (st, b)" and fresh: "rm_find (st_refs st) ref = None"
    and pr: "is_i32 price" "0 < price" and room: "bk_resting_orders b + 1 < 2 ^ 32"
  shows "refines (st, b) (bk_add ref c price n (st, b)) (a_add (c = side_B) price ref n (book_view (st, b)))"
proof -
  obtain Q where st: "store_ok st" and bk: "book_ok st b Q" using g by (auto simp: good_def)
  obtain st' b' where r: "bk_add ref c price n (st, b) = (st', b')" by (meson surj_pair)
  from bk_add_view [OF st bk fresh pr room r] obtain Q' where Q':
    "store_ok st'" "book_ok st' b' Q'" "frame (bk_locate b) st st'" "same_rest b b'"
    "view_of (st_heap st') Q' = (\<lambda>d p. if d = (c = side_B) \<and> p = price
       then view_of (st_heap st) Q d p @ [(ref, n)] else view_of (st_heap st) Q d p)" .
  show ?thesis
    unfolding r by (rule refinesI [OF Q'(1-3) same_restD(1) [OF Q'(4)]])
      (simp add: Q'(5) a_add_def book_view_ok [OF bk])
qed

lemma replace_refines:
  assumes g: "good (st, b)" and x: "bk_find orig (st, b) = Some x"
    and fresh: "rm_find (st_refs st) ref = None \<or> ref = orig"
    and pr: "is_i32 price" "0 < price"
  shows "refines (st, b) (bk_replace orig ref price n (st, b))
    (a_add (o_side (st_heap st x) = side_B) price ref n (\<lambda>d p. a_remove orig (book_view (st, b) d p)))"
proof -
  obtain Q where st: "store_ok st" and bk: "book_ok st b Q" using g by (auto simp: good_def)
  have f: "rm_find (st_refs st) orig = Some x" "o_locate (st_heap st x) = bk_locate b"
    using x by (auto simp: bk_find_def split: option.splits if_splits)
  show ?thesis
    using st
  proof (cases rule: resolve_cases [where ref = orig and b = b])
    case (named slot y)
    then have y: "y = x" using f by simp
    let ?c = "o_side (st_heap st x)"
    obtain st1 b1 where 1: "destroy x slot (st, b) = (st1, b1)" by (meson surj_pair)
    from destroy_view [OF st bk f named(3) 1] obtain Q1 where Q1:
      "store_ok st1" "book_ok st1 b1 Q1" "frame (bk_locate b) st st1" "same_rest b b1"
      "view_of (st_heap st1) Q1 = (\<lambda>d p. a_remove orig (view_of (st_heap st) Q d p))"
      "rm_find (st_refs st1) = (rm_find (st_refs st))(orig := None)"
      "bk_resting_orders b1 + 1 = bk_resting_orders b" .
    have fresh1: "rm_find (st_refs st1) ref = None" using fresh Q1(6) by auto
    have room: "bk_resting_orders b1 + 1 < 2 ^ 32" using Q1(7) book_okD(6) [OF bk] by simp
    have g1: "good (st1, b1)" using Q1(1,2) by (auto simp: good_def)
    have l1: "bk_locate b1 = bk_locate b" using same_restD(1) [OF Q1(4)] .
    have A: "refines (st1, b1) (bk_add ref ?c price n (st1, b1)) (a_add (?c = side_B) price ref n (book_view (st1, b1)))"
      by (rule add_refines [OF g1 fresh1 pr room])
    have "bk_replace orig ref price n (st, b) = bk_add ref ?c price n (st1, b1)"
      using named y 1 by (simp add: bk_replace_def Let_def)
    moreover have "book_view (st1, b1) = (\<lambda>d p. a_remove orig (book_view (st, b) d p))"
      using Q1(5) book_view_ok [OF Q1(2)] book_view_ok [OF bk] by simp
    ultimately show ?thesis
      using A frame_trans [OF Q1(3)] l1 by (simp add: refines_def)
  qed (use f in simp_all)
qed

lemma replace_unknown:
  assumes g: "good (st, b)" and x: "bk_find orig (st, b) = None"
  shows "refines (st, b) (bk_replace orig ref price n (st, b)) (book_view (st, b))"
proof -
  obtain Q where st: "store_ok st" and bk: "book_ok st b Q" using g by (auto simp: good_def)
  have *: "refines (st, b) (st, b') (book_view (st, b))" if "book_ok st b' Q" "bk_locate b' = bk_locate b" for b'
    by (rule refinesI [OF st that(1) frame_refl that(2)]) (simp add: book_view_ok [OF bk])
  show ?thesis
    using st
  proof (cases rule: resolve_cases [where ref = orig and b = b])
    case unknown
    have "book_ok st (b\<lparr> bk_unknown_ref := bk_unknown_ref b + 1 \<rparr>) Q"
      by (rule book_ok_cong [OF bk]) simp_all
    with * show ?thesis by (simp add: bk_replace_def unknown)
  next
    case (foreign x)
    have "book_ok st (b\<lparr> bk_locate_mismatch := bk_locate_mismatch b + 1 \<rparr>) Q"
      by (rule book_ok_cong [OF bk]) simp_all
    with * show ?thesis by (simp add: bk_replace_def foreign)
  next
    case (named slot y)
    with x show ?thesis by (simp add: bk_find_def)
  qed
qed

section \<open>Releasing every order\<close>

lemma release_links: "keeps_links release st_heap"
  by (simp add: keeps_links_def release_def Let_def deallocate_def set_next_def)

lemma release_ok:
  assumes st: "store_ok st" and x: "x \<in> live st"
  shows "store_ok (release x st)" "live (release x st) = live st - {x}"
    "y \<noteq> x \<Longrightarrow> st_heap (release x st) y = st_heap st y"
proof -
  note S = store_okD [OF st]
  let ?ref = "o_ref (st_heap st x)"
  obtain h pl where d: "deallocate x (st_heap st, st_pool st) = (h, pl)" by (meson surj_pair)
  have rel: "release x st = \<lparr> st_heap = h, st_refs = snd (rm_erase ?ref (st_refs st)), st_pool = pl \<rparr>"
    using d by (simp add: release_def Let_def)
  note D = deallocate_ok [OF S(3) x d] and E = rm_erase_spec [OF S(1), of ?ref]
  have f: "rm_find (st_refs st) ?ref = Some x" by (rule live_find [OF st x])
  have find': "rm_find (st_refs (release x st)) = (rm_find (st_refs st))(?ref := None)"
    using E(3) by (simp add: rel)
  show l: "live (release x st) = live st - {x}"
    unfolding live_def [of "release x st"] by (rule live_delete [OF st find' f])
  show keep: "st_heap (release x st) y = st_heap st y" if "y \<noteq> x" for y
    using D(2) that by (simp add: rel)
  show "store_ok (release x st)"
    unfolding store_ok_def
  proof (intro conjI allI impI)
    show "rm_inv (st_refs (release x st))" using E(2) by (simp add: rel)
    show "o_ref (st_heap (release x st) y) = r" if g: "rm_find (st_refs (release x st)) r = Some y" for r y
    proof -
      have "r \<noteq> ?ref" "rm_find (st_refs st) r = Some y" using g find' by (auto split: if_splits)
      then have "o_ref (st_heap st y) = r" "y \<noteq> x" using S(2) by auto
      with keep show ?thesis by simp
    qed
    show "pool_ok (st_heap (release x st)) (st_pool (release x st)) (live (release x st))"
      using D(1) by (simp add: l) (simp add: rel)
  qed
qed

lemma release_fold_ok:
  "store_ok st \<Longrightarrow> set xs \<subseteq> live st \<Longrightarrow> distinct xs \<Longrightarrow>
   store_ok (fold release xs st) \<and> live (fold release xs st) = live st - set xs \<and>
   (\<forall>y. y \<notin> set xs \<longrightarrow> st_heap (fold release xs st) y = st_heap st y)"
proof (induction xs arbitrary: st)
  case (Cons x xs)
  have x: "x \<in> live st" using Cons.prems by simp
  note R = release_ok [OF Cons.prems(1) x]
  have "set xs \<subseteq> live (release x st)" "distinct xs" using Cons.prems(2,3) R(2) by auto
  from Cons.IH [OF R(1) this] R show ?case by auto
qed simp

lemma clear_orders_refines:
  assumes g: "good (st, b)"
  shows "refines (st, b) (clear_orders (st, b)) (\<lambda>d p. [])"
    "bk_volume (snd (clear_orders (st, b))) = bk_volume b"
    "bk_notional (snd (clear_orders (st, b))) = bk_notional b"
    "bk_trades (snd (clear_orders (st, b))) = bk_trades b"
proof -
  obtain Q where st: "store_ok st" and bk: "book_ok st b Q" using g by (auto simp: good_def)
  note B = book_okD [OF bk]
  have bid: "side_ok (st_heap st) (bk_bids b) (Q True)" and ask: "side_ok (st_heap st) (bk_asks b) (Q False)"
    using pair_okD(1) [OF B(1), of True] pair_okD(1) [OF B(1), of False] by (simp_all add: the_side_def)
  let ?xs = "side_orders (bk_bids b) (Q True)" and ?ys = "side_orders (bk_asks b) (Q False)"
  let ?st1 = "fold release ?xs st"
  have sub: "all_of Q \<subseteq> live st" using B(2) by (auto simp: mine_def)
  note O = book_orders_ok(1,2) [OF B(1), unfolded book_orders_def]
  have 1: "for_each_order_mut release st_heap (bk_bids b) st = ?st1"
    by (rule for_each_ok [OF release_links bid])
  have X: "set ?xs \<subseteq> live st" "distinct ?xs" using O sub by auto
  note F1 = release_fold_ok [OF st X]
  have ask1: "side_ok (st_heap ?st1) (bk_asks b) (Q False)"
  proof (rule side_ok_frame [OF ask])
    fix p y assume "y \<in> set (Q False p)"
    then have "y \<in> set ?ys" using side_orders_ok(2) [OF ask] by auto
    then have "y \<notin> set ?xs" using O(1) by auto
    then show "st_heap ?st1 y = st_heap st y" using F1 by blast
  qed
  have 2: "for_each_order_mut release st_heap (bk_asks b) ?st1 = fold release (?xs @ ?ys) st"
    by (simp add: for_each_ok [OF release_links ask1])
  note F = release_fold_ok [OF st, of "?xs @ ?ys"]
  let ?st' = "fold release (?xs @ ?ys) st"
  define b' where "b' = b\<lparr> bk_bids := side_new side_B (bk_tick b), bk_asks := side_new side_S (bk_tick b),
                 bk_resting_orders := 0, bk_resting_shares := 0 \<rparr>"
  have res: "clear_orders (st, b) = (?st', b')"
    using 1 2 by (simp add: clear_orders_def release_all_orders_def Let_def b'_def)
  show "bk_volume (snd (clear_orders (st, b))) = bk_volume b"
    "bk_notional (snd (clear_orders (st, b))) = bk_notional b"
    "bk_trades (snd (clear_orders (st, b))) = bk_trades b"
    unfolding res by (simp_all add: b'_def)
  have set: "set (?xs @ ?ys) = all_of Q" using O(2) .
  have F': "store_ok ?st'" "live ?st' = live st - all_of Q"
      "\<And>y. y \<notin> all_of Q \<Longrightarrow> st_heap ?st' y = st_heap st y"
    using F O(1) sub unfolding set by auto
  have mine': "mine ?st' l = mine st l - all_of Q" for l
    using F'(2,3) by (auto simp: mine_def)
  have "book_ok ?st' b' (\<lambda>d p. [])"
    unfolding book_ok_def
  proof (intro conjI)
    show "pair_ok (st_heap ?st') b' (\<lambda>d p. [])"
      by (simp add: pair_ok_def the_side_def b'_def) (simp add: side_new_def)
    show "all_of (\<lambda>d p. []) = mine ?st' (bk_locate b')"
    proof -
      have "all_of (\<lambda>d p. []) = {}" "bk_locate b' = bk_locate b" by (simp_all add: all_of_def b'_def)
      then show ?thesis by (simp only: mine' B(2) Diff_cancel)
    qed
    show "band_ok b' (all_of (\<lambda>d p. []))"
      using B(3) by (auto simp: band_ok_def b'_def banded_def side_new_def all_of_def)
  qed (simp_all add: b'_def all_of_def shares_of_def)
  moreover have "frame (bk_locate b) st ?st'"
    unfolding frame_def using mine' F'(3) B(2) by (auto simp: mine_def)
  ultimately show "refines (st, b) (clear_orders (st, b)) (\<lambda>d p. [])"
    unfolding res using F'(1)
    by (intro refinesI) (auto simp: b'_def view_of_def fun_eq_iff)
qed

section \<open>Queries\<close>

definition shown :: "(u64 \<times> u32) list \<Rightarrow> u64" where
  "shown q = sum_list (map (\<lambda>(r, s). ucast s) q)"

lemma qsum_shown: "qsum h q = shown (map (tag h) q)"
  by (induction q) (auto simp: shown_def tag_def)

lemma the_side_ok:
  assumes "good (st, b)"
  obtains Q where "\<And>d. side_ok (st_heap st) (the_side d b) (Q d)" "book_view (st, b) = view_of (st_heap st) Q"
    "book_ok st b Q" "store_ok st"
proof -
  obtain Q where "store_ok st" "book_ok st b Q" using assms by (auto simp: good_def)
  with that [of Q] book_view_ok pair_okD(1) book_okD(1) show thesis by metis
qed

lemma shares_at_ok: "good (st, b) \<Longrightarrow> shares_at c p b = shown (book_view (st, b) (c = side_B) p)"
proof -
  assume "good (st, b)"
  then obtain Q where Q: "\<And>d. side_ok (st_heap st) (the_side d b) (Q d)" "book_view (st, b) = view_of (st_heap st) Q"
    by (rule the_side_ok) (rule that, assumption+)
  note L = level_at_ok [OF Q(1) [of "c = side_B"], of p]
  show ?thesis
  proof (cases "level_at (the_side (c = side_B) b) p")
    case None
    with L(2) show ?thesis by (simp add: shares_at_def side_for_the_side Q(2) view_of_def shown_def)
  next
    case (Some lv)
    with L(3) [OF Some] show ?thesis
      by (simp add: shares_at_def side_for_the_side Q(2) view_of_def lv_ok_def qsum_shown)
  qed
qed

lemma bid_side: "good (st, b) \<Longrightarrow> is_bid (the_side d b) = d"
  by (auto simp: good_def book_ok_def pair_ok_def is_bid_def the_side_def side_B_def side_S_def)

lemma best_side_ok:
  assumes g: "good (st, b)"
  shows "best (the_side d b) = Some p \<longleftrightarrow> book_view (st, b) d p \<noteq> [] \<and>
      (\<forall>p'. book_view (st, b) d p' \<noteq> [] \<longrightarrow> (if d then p' \<le> p else p \<le> p'))"
    "best (the_side d b) = None \<longleftrightarrow> (\<forall>p. book_view (st, b) d p = [])"
proof -
  obtain Q where Q: "\<And>d. side_ok (st_heap st) (the_side d b) (Q d)" "book_view (st, b) = view_of (st_heap st) Q"
    by (rule the_side_ok [OF g]) (rule that, assumption+)
  have e: "book_view (st, b) d p = [] \<longleftrightarrow> Q d p = []" for p by (simp add: Q(2) view_of_def)
  show "best (the_side d b) = Some p \<longleftrightarrow> book_view (st, b) d p \<noteq> [] \<and>
      (\<forall>p'. book_view (st, b) d p' \<noteq> [] \<longrightarrow> (if d then p' \<le> p else p \<le> p'))"
    unfolding best_iff [OF Q(1)] e better_def bid_side [OF g] by (auto simp: order.order_iff_strict)
  show "best (the_side d b) = None \<longleftrightarrow> (\<forall>p. book_view (st, b) d p = [])"
    unfolding e using best_ok(1,2) [OF Q(1)] by (metis not_Some_eq)
qed

lemma best_order_ok:
  assumes g: "good (st, b)" and bp: "best (the_side (c = side_B) b) = Some p"
  shows "\<exists>x. best_order c b = Some x \<and> o_price (st_heap st x) = p \<and>
    tag (st_heap st) x = hd (book_view (st, b) (c = side_B) p)"
proof -
  obtain Q where Q: "\<And>d. side_ok (st_heap st) (the_side d b) (Q d)" "book_view (st, b) = view_of (st_heap st) Q"
    by (rule the_side_ok [OF g]) (rule that, assumption+)
  let ?d = "c = side_B"
  have ne: "Q ?d p \<noteq> []" using best_ok(2) [OF Q(1) bp] .
  then obtain lv where lv: "level_at (the_side ?d b) p = Some lv" using level_at_ok(2) [OF Q(1)] by fastforce
  have "lv_ok (st_heap st) lv (Q ?d p)" by (rule level_at_ok(3) [OF Q(1) lv])
  then have "lv_head lv = Some (hd (Q ?d p))" using ne by (cases "Q ?d p") (auto simp: lv_ok_def)
  moreover have "o_price (st_heap st (hd (Q ?d p))) = p" using side_ok_D(6) [OF Q(1)] hd_in_set [OF ne] by blast
  ultimately show ?thesis
    using lv bp ne by (simp add: best_order_def best_level_def side_for_the_side Q(2) view_of_def hd_map)
qed

text \<open>The depth of a side, and moving the band.\<close>

definition depth_at :: "bstate \<Rightarrow> bool \<Rightarrow> int \<Rightarrow> level_view" where
  "depth_at sb d p = \<lparr> lw_price = p, lw_shares = shown (book_view sb d p),
     lw_count = of_nat (length (book_view sb d p)) \<rparr>"

lemma bk_top_ok:
  assumes g: "good (st, b)"
  shows "bk_top c n b =
    map (depth_at (st, b) (c = side_B)) (take n
      (let P = sorted_list_of_set {p. book_view (st, b) (c = side_B) p \<noteq> []}
       in if c = side_B then rev P else P))"
proof -
  obtain Q where Q: "\<And>d. side_ok (st_heap st) (the_side d b) (Q d)" "book_view (st, b) = view_of (st_heap st) Q"
    by (rule the_side_ok [OF g]) (rule that, assumption+)
  let ?d = "c = side_B"
  have "view_at (st_heap st) (Q ?d) p = depth_at (st, b) ?d p" for p
    by (simp add: view_at_def depth_at_def Q(2) view_of_def qsum_shown)
  then have v: "view_at (st_heap st) (Q ?d) = depth_at (st, b) ?d" by (rule ext)
  have pr: "priced (Q ?d) = {p. book_view (st, b) ?d p \<noteq> []}"
    by (simp add: priced_def Q(2) view_of_def)
  show ?thesis
    unfolding bk_top_def side_for_the_side top_levels_ok [OF Q(1)] v best_first_def bid_side [OF g] Let_def pr
    by (rule refl)
qed

lemma move_band_view:
  assumes g: "good (st, b)" and c: "is_i32 centre" and res: "move_band_to centre (st_heap st, b) = (h', b')"
  shows "book_view (st\<lparr> st_heap := h' \<rparr>, b') = book_view (st, b)"
proof -
  obtain Q where st: "store_ok st" and bk: "book_ok st b Q" using g by (auto simp: good_def)
  note B = book_okD [OF bk]
  have "bk_band_levels b < 2 ^ 32 - 1" using B(3) by (simp add: band_ok_def)
  moreover have "card (all_of Q) < 2 ^ 32" using B(4,6) by simp
  ultimately have M: "pair_ok h' b' Q" "\<And>y. same_core (h' y) (st_heap st y)"
    using move_band_to_ok [OF B(1) _ c _ res] by blast+
  have "side_ok h' (the_side d b') (Q d)" for d by (rule pair_okD(1) [OF M(1)])
  then have "sd_queue h' (the_side d b') p = Q d p" for d p by (rule level_at_ok(1))
  then have "book_view (st\<lparr> st_heap := h' \<rparr>, b') = view_of h' Q"
    by (intro ext) (simp add: book_view_def view_of_def)
  also have "\<dots> = view_of (st_heap st) Q"
    using M(2) by (intro ext) (simp add: view_of_def tag_def same_core_def)
  finally show ?thesis by (simp add: book_view_ok [OF bk])
qed

end
