(* ===== verification/Wire.thy ===== *)
theory Wire
  imports Prelude
begin

text \<open>
  The byte level of every protocol of the program: big-endian readers (\<open>be16\<close> .. \<open>be64\<close> of
  include/itchbook/itch/messages.hpp), big-endian writers (\<open>put16\<close> .. \<open>put64\<close> of
  include/itchbook/emit/itch_encode.hpp) and \<open>memcpy\<close>/\<open>memset\<close> on a buffer.

  A pointer \<open>const uint8_t* p\<close> is the list of the bytes it points at; \<open>be32(p + 20)\<close> is \<open>be32 p 20\<close>. A
  writer takes the offset, the value and the buffer and returns the buffer. Writing never changes
  the length of a buffer, and every theorem about a writer asks that the field lies inside it.

  The locale \<open>wire_field\<close> is the contract of a reader and the writer it is paired with. The readers
  and writers of the code are interpretations of it.
\<close>

section \<open>Buffers\<close>

fun memcpy :: "nat \<Rightarrow> u8 list \<Rightarrow> u8 list \<Rightarrow> u8 list" where
  "memcpy i [] buf = buf"
| "memcpy i (b # bs) buf = memcpy (Suc i) bs (buf[i := b])"

definition bytes_at :: "u8 list \<Rightarrow> nat \<Rightarrow> nat \<Rightarrow> u8 list" where
  "bytes_at p i n = map (\<lambda>k. p ! (i + k)) [0..<n]"

lemma length_memcpy [simp]: "length (memcpy i bs buf) = length buf"
  by (induction i bs buf rule: memcpy.induct) auto

lemma length_bytes_at [simp]: "length (bytes_at p i n) = n"
  by (simp add: bytes_at_def)

lemma nth_memcpy:
  "i + length bs \<le> length buf \<Longrightarrow>
   memcpy i bs buf ! j = (if i \<le> j \<and> j < i + length bs then bs ! (j - i) else buf ! j)"
proof (induction i bs buf rule: memcpy.induct)
  case (2 i b bs buf)
  show ?case
  proof (cases "j = i")
    case True
    then show ?thesis using 2 by auto
  next
    case False
    then show ?thesis using 2 by (auto simp: nth_Cons')
  qed
qed auto

lemma nth_memcpy_out [simp]: "j < i \<or> i + length bs \<le> j \<Longrightarrow> memcpy i bs buf ! j = buf ! j"
  by (induction i bs buf rule: memcpy.induct) auto

lemma nth_memcpy_in [simp]:
  "i + length bs \<le> length buf \<Longrightarrow> i \<le> j \<Longrightarrow> j < i + length bs \<Longrightarrow> memcpy i bs buf ! j = bs ! (j - i)"
  by (simp add: nth_memcpy)

lemma memcpy_append:
  "i + length bs \<le> length buf \<Longrightarrow> memcpy i bs buf = take i buf @ bs @ drop (i + length bs) buf"
  by (rule nth_equalityI) (auto simp: nth_memcpy nth_append)

lemma bytes_at_memcpy [simp]:
  "i + length bs \<le> length buf \<Longrightarrow> n = length bs \<Longrightarrow> bytes_at (memcpy i bs buf) i n = bs"
  by (auto simp: bytes_at_def intro!: nth_equalityI)

lemma bytes_at_frame [simp]:
  "i + n \<le> j \<or> j + length bs \<le> i \<Longrightarrow> bytes_at (memcpy j bs buf) i n = bytes_at buf i n"
  by (auto simp: bytes_at_def)

lemma update_memcpy: "buf[i := b] = memcpy i [b] buf"
  by simp

declare memcpy.simps(2) [simp del]

section \<open>Readers\<close>

definition be16 :: "u8 list \<Rightarrow> nat \<Rightarrow> u16" where
  "be16 p i = push_bit 8 (ucast (p ! i)) OR ucast (p ! (i + 1))"

definition be32 :: "u8 list \<Rightarrow> nat \<Rightarrow> u32" where
  "be32 p i = push_bit 24 (ucast (p ! i)) OR push_bit 16 (ucast (p ! (i + 1))) OR
     push_bit 8 (ucast (p ! (i + 2))) OR ucast (p ! (i + 3))"

definition be64 :: "u8 list \<Rightarrow> nat \<Rightarrow> u64" where
  "be64 p i = fold (\<lambda>k v. push_bit 8 v OR ucast (p ! (i + k))) [0..<8] 0"

definition be48 :: "u8 list \<Rightarrow> nat \<Rightarrow> u64" where
  "be48 p i = fold (\<lambda>k v. push_bit 8 v OR ucast (p ! (i + k))) [0..<6] 0"

section \<open>Writers\<close>

definition put16 :: "nat \<Rightarrow> u16 \<Rightarrow> u8 list \<Rightarrow> u8 list" where
  "put16 i v p = p[i := ucast (drop_bit 8 v), i + 1 := ucast v]"

definition put32 :: "nat \<Rightarrow> u32 \<Rightarrow> u8 list \<Rightarrow> u8 list" where
  "put32 i v p = p[i := ucast (drop_bit 24 v), i + 1 := ucast (drop_bit 16 v),
     i + 2 := ucast (drop_bit 8 v), i + 3 := ucast v]"

definition put48 :: "nat \<Rightarrow> u64 \<Rightarrow> u8 list \<Rightarrow> u8 list" where
  "put48 i v p = fold (\<lambda>k p. p[i + k := ucast (drop_bit (40 - 8 * k) v)]) [0..<6] p"

definition put64 :: "nat \<Rightarrow> u64 \<Rightarrow> u8 list \<Rightarrow> u8 list" where
  "put64 i v p = fold (\<lambda>k p. p[i + k := ucast (drop_bit (56 - 8 * k) v)]) [0..<8] p"

section \<open>The contract of a field\<close>

text \<open>
  \<open>enc\<close> lists the bytes a value is written as; \<open>fits\<close> says which values the field can hold (a 48 bit
  field does not hold every \<open>uint64_t\<close>).
\<close>

locale wire_field =
  fixes put :: "nat \<Rightarrow> 'v \<Rightarrow> u8 list \<Rightarrow> u8 list"
    and get :: "u8 list \<Rightarrow> nat \<Rightarrow> 'v"
    and enc :: "'v \<Rightarrow> u8 list"
    and width :: nat
    and fits :: "'v \<Rightarrow> bool"
  assumes put_enc: "put i v p = memcpy i (enc v) p"
    and enc_width: "length (enc v) = width"
    and get_local: "(\<And>k. k < width \<Longrightarrow> p ! (i + k) = q ! (j + k)) \<Longrightarrow> get p i = get q j"
    and get_enc: "fits v \<Longrightarrow> get (enc v) 0 = v"
begin

lemma put_length: "length (put i v p) = length p"
  by (simp add: put_enc)

lemma get_put: "fits v \<Longrightarrow> i + width \<le> length p \<Longrightarrow> get (put i v p) i = v"
proof -
  assume f: "fits v" and i: "i + width \<le> length p"
  have "get (put i v p) i = get (enc v) 0"
    by (rule get_local) (use i in \<open>simp add: put_enc enc_width\<close>)
  with f show ?thesis by (simp add: get_enc)
qed

lemma get_frame: "i + width \<le> j \<or> j + length bs \<le> i \<Longrightarrow> get (memcpy j bs p) i = get p i"
  by (rule get_local) auto

lemma get_memcpy: "i + length bs \<le> length p \<Longrightarrow> i \<le> j \<Longrightarrow> j + width \<le> i + length bs \<Longrightarrow>
  get (memcpy i bs p) j = get bs (j - i)"
  by (rule get_local) auto

lemma nth_put_out: "j < i \<or> i + width \<le> j \<Longrightarrow> put i v p ! j = p ! j"
  by (simp add: put_enc enc_width)

lemma get_append: "i + width \<le> length p \<Longrightarrow> get (p @ q) i = get p i"
  by (rule get_local) (simp add: nth_append)

lemma get_drop: "i + j + width \<le> length p \<Longrightarrow> get (drop j p) i = get p (j + i)"
  by (rule get_local) (simp add: add.assoc)

end

section \<open>The fields of the code\<close>

definition enc16 :: "u16 \<Rightarrow> u8 list" where "enc16 v = [ucast (drop_bit 8 v), ucast v]"

definition enc32 :: "u32 \<Rightarrow> u8 list" where
  "enc32 v = map (\<lambda>k. ucast (drop_bit (24 - 8 * k) v)) [0..<4]"

definition enc48 :: "u64 \<Rightarrow> u8 list" where
  "enc48 v = map (\<lambda>k. ucast (drop_bit (40 - 8 * k) v)) [0..<6]"

definition enc64 :: "u64 \<Rightarrow> u8 list" where
  "enc64 v = map (\<lambda>k. ucast (drop_bit (56 - 8 * k) v)) [0..<8]"

lemma upt_8: "[0..<8] = [0, 1, 2, 3, 4, 5, 6, 7 :: nat]" by (simp add: upt_rec)
lemma upt_6: "[0..<6] = [0, 1, 2, 3, 4, 5 :: nat]" by (simp add: upt_rec)
lemma upt_4: "[0..<4] = [0, 1, 2, 3 :: nat]" by (simp add: upt_rec)

lemma enc_lengths [simp]: "length (enc16 v) = 2" "length (enc32 w) = 4" "length (enc48 x) = 6"
  "length (enc64 x) = 8"
  by (simp_all add: enc16_def enc32_def enc48_def enc64_def)

lemma put16_enc: "put16 i v p = memcpy i (enc16 v) p"
  by (simp add: put16_def enc16_def memcpy.simps(2))

lemma put32_enc: "put32 i v p = memcpy i (enc32 v) p"
  by (simp add: put32_def enc32_def upt_4 eval_nat_numeral memcpy.simps(2))

lemma put48_enc: "put48 i v p = memcpy i (enc48 v) p"
  by (simp add: put48_def enc48_def upt_6 eval_nat_numeral memcpy.simps(2))

lemma put64_enc: "put64 i v p = memcpy i (enc64 v) p"
  by (simp add: put64_def enc64_def upt_8 eval_nat_numeral memcpy.simps(2))

lemma be16_enc16: "be16 (enc16 v) 0 = v"
  by (rule bit_word_eqI) (auto simp: be16_def enc16_def bit_simps)

lemma be32_enc32: "be32 (enc32 v) 0 = v"
proof (rule bit_word_eqI)
  fix n assume "n < LENGTH(32)"
  then show "bit (be32 (enc32 v) 0) n = bit v n"
    by (cases "n < 8"; cases "n < 16"; cases "n < 24") (auto simp: be32_def enc32_def upt_4 bit_simps)
qed

text \<open>Shifting the bytes of a word in, most significant first, rebuilds its low bytes.\<close>

lemma shift_in_step:
  "push_bit 8 (take_bit (8 * m) (drop_bit (j + 8) v)) OR ucast (ucast (drop_bit j v) :: u8) =
   take_bit (8 * m + 8) (drop_bit j (v :: u64))"
proof (rule bit_word_eqI)
  fix n assume n: "n < LENGTH(64)"
  have "j + 8 + (n - 8) = j + n" if "8 \<le> n" using that by simp
  then show "bit (push_bit 8 (take_bit (8 * m) (drop_bit (j + 8) v)) OR ucast (ucast (drop_bit j v) :: u8)) n =
      bit (take_bit (8 * m + 8) (drop_bit j v)) n"
    using n by (cases "n < 8") (auto simp: bit_simps)
qed

lemma shift_in:
  "m \<le> n \<Longrightarrow> fold (\<lambda>k acc. push_bit 8 acc OR ucast (ucast (drop_bit (8 * (n - Suc k)) (v :: u64)) :: u8)) [0..<m] 0 =
     take_bit (8 * m) (drop_bit (8 * (n - m)) v)"
proof (induction m)
  case (Suc m)
  have "8 * (n - m) = 8 * (n - Suc m) + 8" using Suc.prems by simp
  with Suc shift_in_step [of m "8 * (n - Suc m)" v] show ?case by (simp add: add.commute)
qed simp

lemma be64_enc64: "be64 (enc64 v) 0 = v"
proof -
  have "be64 (enc64 v) 0 = fold (\<lambda>k acc. push_bit 8 acc OR ucast (ucast (drop_bit (8 * (8 - Suc k)) v) :: u8)) [0..<8] 0"
    unfolding be64_def by (rule fold_cong) (auto simp: enc64_def diff_mult_distrib2)
  also have "\<dots> = take_bit 64 v" using shift_in [of 8 8 v] by simp
  also have "\<dots> = v" by (rule bit_word_eqI) (simp add: bit_simps)
  finally show ?thesis .
qed

lemma be48_enc48: "v < 2 ^ 48 \<Longrightarrow> be48 (enc48 v) 0 = v"
proof -
  assume v: "v < 2 ^ 48"
  have "be48 (enc48 v) 0 = fold (\<lambda>k acc. push_bit 8 acc OR ucast (ucast (drop_bit (8 * (6 - Suc k)) v) :: u8)) [0..<6] 0"
    unfolding be48_def by (rule fold_cong) (auto simp: enc48_def diff_mult_distrib2)
  also have "\<dots> = take_bit 48 v" using shift_in [of 6 6 v] by simp
  also have "\<dots> = v"
    using v by (simp add: word_unat_eq_iff unsigned_take_bit_eq take_bit_nat_eq_self word_less_nat_alt)
  finally show ?thesis .
qed

interpretation f16: wire_field put16 be16 enc16 2 "\<lambda>_. True"
proof unfold_locales
  fix p q :: "u8 list" and i j assume "\<And>k. k < 2 \<Longrightarrow> p ! (i + k) = q ! (j + k)"
  from this [of 0] this [of 1] show "be16 p i = be16 q j" by (simp add: be16_def)
qed (simp_all only: put16_enc be16_enc16 enc_lengths)

interpretation f32: wire_field put32 be32 enc32 4 "\<lambda>_. True"
proof unfold_locales
  fix p q :: "u8 list" and i j assume "\<And>k. k < 4 \<Longrightarrow> p ! (i + k) = q ! (j + k)"
  from this [of 0] this [of 1] this [of 2] this [of 3] show "be32 p i = be32 q j"
    by (simp add: be32_def)
qed (simp_all only: put32_enc be32_enc32 enc_lengths)

interpretation f48: wire_field put48 be48 enc48 6 "\<lambda>v. v < 2 ^ 48"
proof unfold_locales
  fix p q :: "u8 list" and i j assume "\<And>k. k < 6 \<Longrightarrow> p ! (i + k) = q ! (j + k)"
  then show "be48 p i = be48 q j" unfolding be48_def by (intro fold_cong) auto
qed (simp_all only: put48_enc be48_enc48 enc_lengths)

interpretation f64: wire_field put64 be64 enc64 8 "\<lambda>_. True"
proof unfold_locales
  fix p q :: "u8 list" and i j assume "\<And>k. k < 8 \<Longrightarrow> p ! (i + k) = q ! (j + k)"
  then show "be64 p i = be64 q j" unfolding be64_def by (intro fold_cong) auto
qed (simp_all only: put64_enc be64_enc64 enc_lengths)

text \<open>What the proofs about messages rewrite with: every write is a \<open>memcpy\<close>, every read skips the
  writes it does not touch and gives back the one it does.\<close>

lemmas wire_puts = put16_enc put32_enc put48_enc put64_enc

lemma wire_gets [simp]:
  "i + 2 \<le> length p \<Longrightarrow> be16 (memcpy i (enc16 a) p) i = a"
  "i + 4 \<le> length p \<Longrightarrow> be32 (memcpy i (enc32 b) p) i = b"
  "c < 2 ^ 48 \<Longrightarrow> i + 6 \<le> length p \<Longrightarrow> be48 (memcpy i (enc48 c) p) i = c"
  "i + 8 \<le> length p \<Longrightarrow> be64 (memcpy i (enc64 d) p) i = d"
  using f16.get_put [of i p a] f32.get_put [of i p b] f48.get_put [of c i p] f64.get_put [of i p d]
  by (simp_all add: wire_puts)

lemmas wire_frames [simp] = f16.get_frame f32.get_frame f48.get_frame f64.get_frame

end
