(* ===== verification/Itch.thy ===== *)
theory Itch
  imports Wire
begin

text \<open>
  The ITCH 5.0 wire format: the lengths and the field accessors of
  include/itchbook/itch/messages.hpp, the encoders of include/itchbook/emit/itch_encode.hpp, and
  the framing of a file (\<open>Reader::next\<close> of include/itchbook/itch/reader.hpp over the decompressed
  bytes, \<open>parse\<close> of include/itchbook/itch/parser.hpp).

  The lemmas show that every accessor reads back exactly what the encoder of its message wrote,
  that every encoder writes the length the specification table gives its type, and that a file of
  framed messages parses into exactly those messages.
\<close>

section \<open>Types and lengths\<close>

text \<open>A message type is its character.\<close>

abbreviation ch :: "char \<Rightarrow> u8" where "ch \<equiv> of_char"

definition spec_length :: "u8 \<Rightarrow> int" where
  "spec_length t =
    (if t = ch CHR ''S'' then 12
     else if t = ch CHR ''R'' then 39
     else if t = ch CHR ''A'' then 36
     else if t = ch CHR ''F'' then 40
     else if t = ch CHR ''E'' then 31
     else if t = ch CHR ''C'' then 36
     else if t = ch CHR ''X'' then 23
     else if t = ch CHR ''D'' then 19
     else if t = ch CHR ''U'' then 35
     else if t = ch CHR ''P'' then 44
     else if t = ch CHR ''Q'' then 40
     else if t = ch CHR ''H'' then 25
     else if t = ch CHR ''Y'' then 20
     else if t = ch CHR ''L'' then 26
     else if t = ch CHR ''V'' then 35
     else if t = ch CHR ''W'' then 12
     else if t = ch CHR ''K'' then 28
     else if t = ch CHR ''J'' then 35
     else if t = ch CHR ''h'' then 21
     else if t = ch CHR ''B'' then 19
     else if t = ch CHR ''I'' then 50
     else if t = ch CHR ''N'' then 20
     else if t = ch CHR ''O'' then 48
     else - 1)"

definition modelled :: "u8 \<Rightarrow> bool" where
  "modelled t \<longleftrightarrow> t \<in> set (map ch ''SRAFECXDUPQH'')"

definition type_name :: "u8 \<Rightarrow> string" where
  "type_name t =
    (if t = ch CHR ''S'' then ''System Event''
     else if t = ch CHR ''R'' then ''Stock Directory''
     else if t = ch CHR ''H'' then ''Stock Trading Action''
     else if t = ch CHR ''Y'' then ''Reg SHO Restriction''
     else if t = ch CHR ''L'' then ''Market Participant Position''
     else if t = ch CHR ''A'' then ''Add Order''
     else if t = ch CHR ''F'' then ''Add Order w/ MPID''
     else if t = ch CHR ''E'' then ''Order Executed''
     else if t = ch CHR ''C'' then ''Order Executed w/ Price''
     else if t = ch CHR ''X'' then ''Order Cancel''
     else if t = ch CHR ''D'' then ''Order Delete''
     else if t = ch CHR ''U'' then ''Order Replace''
     else if t = ch CHR ''P'' then ''Trade (non-cross)''
     else if t = ch CHR ''Q'' then ''Cross Trade''
     else if t = ch CHR ''B'' then ''Broken Trade''
     else if t = ch CHR ''I'' then ''NOII''
     else if t = ch CHR ''h'' then ''Operational Halt''
     else if t = ch CHR ''V'' then ''MWCB Decline Level''
     else if t = ch CHR ''W'' then ''MWCB Status''
     else if t = ch CHR ''K'' then ''IPO Quoting Period Update''
     else if t = ch CHR ''J'' then ''LULD Auction Collar''
     else if t = ch CHR ''N'' then ''Retail Price Improvement''
     else if t = ch CHR ''O'' then ''Direct Listing w/ Capital Raise''
     else '''')"

lemma ch_simps [simp]:
  "ch CHR ''S'' = 83" "ch CHR ''R'' = 82" "ch CHR ''A'' = 65" "ch CHR ''F'' = 70" "ch CHR ''E'' = 69"
  "ch CHR ''C'' = 67" "ch CHR ''X'' = 88" "ch CHR ''D'' = 68" "ch CHR ''U'' = 85" "ch CHR ''P'' = 80"
  "ch CHR ''Q'' = 81" "ch CHR ''H'' = 72" "ch CHR ''Y'' = 89" "ch CHR ''L'' = 76" "ch CHR ''V'' = 86"
  "ch CHR ''W'' = 87" "ch CHR ''K'' = 75" "ch CHR ''J'' = 74" "ch CHR ''h'' = 104" "ch CHR ''B'' = 66"
  "ch CHR ''I'' = 73" "ch CHR ''N'' = 78" "ch CHR ''O'' = 79" "ch CHR ''T'' = 84" "ch CHR '' '' = 32"
  by simp_all

section \<open>Accessors\<close>

definition msg_timestamp :: "u8 list \<Rightarrow> u64" where "msg_timestamp p = be48 p 5"
definition stock_locate :: "u8 list \<Rightarrow> u16" where "stock_locate p = be16 p 1"

definition add_order_ref :: "u8 list \<Rightarrow> u64" where "add_order_ref p = be64 p 11"
definition add_order_side :: "u8 list \<Rightarrow> u8" where "add_order_side p = p ! 19"
definition add_order_shares :: "u8 list \<Rightarrow> u32" where "add_order_shares p = be32 p 20"
definition add_order_stock :: "u8 list \<Rightarrow> u8 list" where "add_order_stock p = bytes_at p 24 8"
definition add_order_price :: "u8 list \<Rightarrow> int" where "add_order_price p = sint (be32 p 32)"

definition order_executed_ref :: "u8 list \<Rightarrow> u64" where "order_executed_ref p = be64 p 11"
definition order_executed_shares :: "u8 list \<Rightarrow> u32" where "order_executed_shares p = be32 p 19"
definition order_executed_match :: "u8 list \<Rightarrow> u64" where "order_executed_match p = be64 p 23"

definition order_cancel_ref :: "u8 list \<Rightarrow> u64" where "order_cancel_ref p = be64 p 11"
definition order_cancel_shares :: "u8 list \<Rightarrow> u32" where "order_cancel_shares p = be32 p 19"

definition order_delete_ref :: "u8 list \<Rightarrow> u64" where "order_delete_ref p = be64 p 11"

definition system_event_code :: "u8 list \<Rightarrow> u8" where "system_event_code p = p ! 11"

definition add_order_mpid_ref :: "u8 list \<Rightarrow> u64" where "add_order_mpid_ref p = be64 p 11"
definition add_order_mpid_side :: "u8 list \<Rightarrow> u8" where "add_order_mpid_side p = p ! 19"
definition add_order_mpid_shares :: "u8 list \<Rightarrow> u32" where "add_order_mpid_shares p = be32 p 20"
definition add_order_mpid_stock :: "u8 list \<Rightarrow> u8 list" where
  "add_order_mpid_stock p = bytes_at p 24 8"
definition add_order_mpid_price :: "u8 list \<Rightarrow> int" where "add_order_mpid_price p = sint (be32 p 32)"
definition add_order_mpid_attribution :: "u8 list \<Rightarrow> u8 list" where
  "add_order_mpid_attribution p = bytes_at p 36 4"

definition order_executed_price_ref :: "u8 list \<Rightarrow> u64" where
  "order_executed_price_ref p = be64 p 11"
definition order_executed_price_shares :: "u8 list \<Rightarrow> u32" where
  "order_executed_price_shares p = be32 p 19"
definition order_executed_price_match :: "u8 list \<Rightarrow> u64" where
  "order_executed_price_match p = be64 p 23"
definition order_executed_price_printable :: "u8 list \<Rightarrow> bool" where
  "order_executed_price_printable p = (p ! 31 = ch CHR ''Y'')"
definition order_executed_price_price :: "u8 list \<Rightarrow> int" where
  "order_executed_price_price p = sint (be32 p 32)"

definition order_replace_original_ref :: "u8 list \<Rightarrow> u64" where
  "order_replace_original_ref p = be64 p 11"
definition order_replace_new_ref :: "u8 list \<Rightarrow> u64" where "order_replace_new_ref p = be64 p 19"
definition order_replace_shares :: "u8 list \<Rightarrow> u32" where "order_replace_shares p = be32 p 27"
definition order_replace_price :: "u8 list \<Rightarrow> int" where "order_replace_price p = sint (be32 p 31)"

definition trade_ref :: "u8 list \<Rightarrow> u64" where "trade_ref p = be64 p 11"
definition trade_side :: "u8 list \<Rightarrow> u8" where "trade_side p = p ! 19"
definition trade_shares :: "u8 list \<Rightarrow> u32" where "trade_shares p = be32 p 20"
definition trade_stock :: "u8 list \<Rightarrow> u8 list" where "trade_stock p = bytes_at p 24 8"
definition trade_price :: "u8 list \<Rightarrow> int" where "trade_price p = sint (be32 p 32)"
definition trade_match :: "u8 list \<Rightarrow> u64" where "trade_match p = be64 p 36"

definition cross_trade_shares :: "u8 list \<Rightarrow> u64" where "cross_trade_shares p = be64 p 11"
definition cross_trade_stock :: "u8 list \<Rightarrow> u8 list" where "cross_trade_stock p = bytes_at p 19 8"
definition cross_trade_price :: "u8 list \<Rightarrow> int" where "cross_trade_price p = sint (be32 p 27)"
definition cross_trade_match :: "u8 list \<Rightarrow> u64" where "cross_trade_match p = be64 p 31"
definition cross_trade_type :: "u8 list \<Rightarrow> u8" where "cross_trade_type p = p ! 39"

definition trading_action_stock :: "u8 list \<Rightarrow> u8 list" where
  "trading_action_stock p = bytes_at p 11 8"
definition trading_action_state :: "u8 list \<Rightarrow> u8" where "trading_action_state p = p ! 19"
definition trading_action_reason :: "u8 list \<Rightarrow> u8 list" where
  "trading_action_reason p = bytes_at p 21 4"

definition stock_directory_stock :: "u8 list \<Rightarrow> u8 list" where
  "stock_directory_stock p = bytes_at p 11 8"
definition stock_directory_category :: "u8 list \<Rightarrow> u8" where "stock_directory_category p = p ! 19"
definition stock_directory_status :: "u8 list \<Rightarrow> u8" where "stock_directory_status p = p ! 20"
definition stock_directory_round_lot :: "u8 list \<Rightarrow> u32" where
  "stock_directory_round_lot p = be32 p 21"

definition operational_halt_stock :: "u8 list \<Rightarrow> u8 list" where
  "operational_halt_stock p = bytes_at p 11 8"
definition operational_halt_market :: "u8 list \<Rightarrow> u8" where "operational_halt_market p = p ! 19"
definition operational_halt_action :: "u8 list \<Rightarrow> u8" where "operational_halt_action p = p ! 20"
definition mwcb_status_level :: "u8 list \<Rightarrow> u8" where "mwcb_status_level p = p ! 11"
definition broken_trade_match :: "u8 list \<Rightarrow> u64" where "broken_trade_match p = be64 p 11"

lemmas accessor_defs = msg_timestamp_def stock_locate_def
  add_order_ref_def add_order_side_def add_order_shares_def add_order_stock_def add_order_price_def
  order_executed_ref_def order_executed_shares_def order_executed_match_def
  order_cancel_ref_def order_cancel_shares_def order_delete_ref_def system_event_code_def
  add_order_mpid_ref_def add_order_mpid_side_def add_order_mpid_shares_def add_order_mpid_stock_def
  add_order_mpid_price_def add_order_mpid_attribution_def order_executed_price_ref_def
  order_executed_price_shares_def order_executed_price_match_def order_executed_price_printable_def
  order_executed_price_price_def order_replace_original_ref_def order_replace_new_ref_def
  order_replace_shares_def order_replace_price_def trade_ref_def trade_side_def trade_shares_def
  trade_stock_def trade_price_def trade_match_def cross_trade_shares_def cross_trade_stock_def
  cross_trade_price_def cross_trade_match_def cross_trade_type_def trading_action_stock_def
  trading_action_state_def trading_action_reason_def stock_directory_stock_def
  stock_directory_category_def stock_directory_status_def stock_directory_round_lot_def
  operational_halt_stock_def operational_halt_market_def operational_halt_action_def
  mwcb_status_level_def broken_trade_match_def

section \<open>Encoders\<close>

text \<open>
  An encoder takes the buffer it writes into first, as the code does, and returns the buffer and the
  length of the message. A C string is the list of its bytes, and ends at its first NUL; a pointer
  that may be null is an option.
\<close>

definition put_stock :: "nat \<Rightarrow> u8 list option \<Rightarrow> nat \<Rightarrow> u8 list \<Rightarrow> u8 list" where
  "put_stock i str n p =
     (let body = (case str of None \<Rightarrow> [] | Some s \<Rightarrow> take n (takeWhile (\<lambda>c. c \<noteq> 0) s))
      in memcpy (i + length body) (replicate (n - length body) (ch CHR '' '')) (memcpy i body p))"

definition put_stock_raw :: "nat \<Rightarrow> u8 list option \<Rightarrow> nat \<Rightarrow> u8 list \<Rightarrow> u8 list" where
  "put_stock_raw i wire n p =
     (case wire of None \<Rightarrow> put_stock i None n p | Some w \<Rightarrow> memcpy i (bytes_at w 0 n) p)"

definition header :: "u8 \<Rightarrow> u16 \<Rightarrow> u16 \<Rightarrow> u64 \<Rightarrow> u8 list \<Rightarrow> u8 list" where
  "header t locate tracking ts p = put48 5 ts (put16 3 tracking (put16 1 locate (p[0 := t])))"

definition emit_system_event :: "u8 list \<Rightarrow> u16 \<Rightarrow> u16 \<Rightarrow> u64 \<Rightarrow> u8 \<Rightarrow> u8 list \<times> nat" where
  "emit_system_event out loc trk ts code =
     (let out = header (ch CHR ''S'') loc trk ts out;
          out = out[11 := code]
      in (out, 12))"

definition emit_stock_directory ::
    "u8 list \<Rightarrow> u16 \<Rightarrow> u16 \<Rightarrow> u64 \<Rightarrow> u8 list option \<Rightarrow> u8 \<Rightarrow> u8 \<Rightarrow> u32 \<Rightarrow> u8 list \<times> nat" where
  "emit_stock_directory out loc trk ts stock_wire category financial round_lot =
     (let out = memcpy 0 (replicate 39 0) out;
          out = header (ch CHR ''R'') loc trk ts out;
          out = put_stock_raw 11 stock_wire 8 out;
          out = out[19 := category];
          out = out[20 := financial];
          out = put32 21 round_lot out
      in (out, 39))"

definition emit_add_order ::
    "u8 list \<Rightarrow> u16 \<Rightarrow> u16 \<Rightarrow> u64 \<Rightarrow> u64 \<Rightarrow> u8 \<Rightarrow> u32 \<Rightarrow> u8 list option \<Rightarrow> int \<Rightarrow> u8 list \<times> nat" where
  "emit_add_order out loc trk ts ref side shares stock_wire price =
     (let out = header (ch CHR ''A'') loc trk ts out;
          out = put64 11 ref out;
          out = out[19 := side];
          out = put32 20 shares out;
          out = put_stock_raw 24 stock_wire 8 out;
          out = put32 32 (word_of_int price) out
      in (out, 36))"

definition emit_add_order_mpid ::
    "u8 list \<Rightarrow> u16 \<Rightarrow> u16 \<Rightarrow> u64 \<Rightarrow> u64 \<Rightarrow> u8 \<Rightarrow> u32 \<Rightarrow> u8 list option \<Rightarrow> int \<Rightarrow> u8 list option \<Rightarrow>
     u8 list \<times> nat" where
  "emit_add_order_mpid out loc trk ts ref side shares stock_wire price mpid_wire =
     (let out = header (ch CHR ''F'') loc trk ts out;
          out = put64 11 ref out;
          out = out[19 := side];
          out = put32 20 shares out;
          out = put_stock_raw 24 stock_wire 8 out;
          out = put32 32 (word_of_int price) out;
          out = (case mpid_wire of
                   Some m \<Rightarrow> memcpy 36 (bytes_at m 0 4) out
                 | None \<Rightarrow> memcpy 36 (replicate 4 (ch CHR '' '')) out)
      in (out, 40))"

definition emit_order_executed ::
    "u8 list \<Rightarrow> u16 \<Rightarrow> u16 \<Rightarrow> u64 \<Rightarrow> u64 \<Rightarrow> u32 \<Rightarrow> u64 \<Rightarrow> u8 list \<times> nat" where
  "emit_order_executed out loc trk ts ref shares match =
     (let out = header (ch CHR ''E'') loc trk ts out;
          out = put64 11 ref out;
          out = put32 19 shares out;
          out = put64 23 match out
      in (out, 31))"

definition emit_order_executed_price ::
    "u8 list \<Rightarrow> u16 \<Rightarrow> u16 \<Rightarrow> u64 \<Rightarrow> u64 \<Rightarrow> u32 \<Rightarrow> u64 \<Rightarrow> bool \<Rightarrow> int \<Rightarrow> u8 list \<times> nat" where
  "emit_order_executed_price out loc trk ts ref shares match printable price =
     (let out = header (ch CHR ''C'') loc trk ts out;
          out = put64 11 ref out;
          out = put32 19 shares out;
          out = put64 23 match out;
          out = out[31 := (if printable then ch CHR ''Y'' else ch CHR ''N'')];
          out = put32 32 (word_of_int price) out
      in (out, 36))"

definition emit_order_cancel ::
    "u8 list \<Rightarrow> u16 \<Rightarrow> u16 \<Rightarrow> u64 \<Rightarrow> u64 \<Rightarrow> u32 \<Rightarrow> u8 list \<times> nat" where
  "emit_order_cancel out loc trk ts ref shares =
     (let out = header (ch CHR ''X'') loc trk ts out;
          out = put64 11 ref out;
          out = put32 19 shares out
      in (out, 23))"

definition emit_order_delete :: "u8 list \<Rightarrow> u16 \<Rightarrow> u16 \<Rightarrow> u64 \<Rightarrow> u64 \<Rightarrow> u8 list \<times> nat" where
  "emit_order_delete out loc trk ts ref =
     (let out = header (ch CHR ''D'') loc trk ts out;
          out = put64 11 ref out
      in (out, 19))"

definition emit_order_replace ::
    "u8 list \<Rightarrow> u16 \<Rightarrow> u16 \<Rightarrow> u64 \<Rightarrow> u64 \<Rightarrow> u64 \<Rightarrow> u32 \<Rightarrow> int \<Rightarrow> u8 list \<times> nat" where
  "emit_order_replace out loc trk ts orig_ref new_ref shares price =
     (let out = header (ch CHR ''U'') loc trk ts out;
          out = put64 11 orig_ref out;
          out = put64 19 new_ref out;
          out = put32 27 shares out;
          out = put32 31 (word_of_int price) out
      in (out, 35))"

definition emit_trade ::
    "u8 list \<Rightarrow> u16 \<Rightarrow> u16 \<Rightarrow> u64 \<Rightarrow> u64 \<Rightarrow> u8 \<Rightarrow> u32 \<Rightarrow> u8 list option \<Rightarrow> int \<Rightarrow> u64 \<Rightarrow> u8 list \<times> nat" where
  "emit_trade out loc trk ts ref side shares stock_wire price match =
     (let out = header (ch CHR ''P'') loc trk ts out;
          out = put64 11 ref out;
          out = out[19 := side];
          out = put32 20 shares out;
          out = put_stock_raw 24 stock_wire 8 out;
          out = put32 32 (word_of_int price) out;
          out = put64 36 match out
      in (out, 44))"

definition emit_cross_trade ::
    "u8 list \<Rightarrow> u16 \<Rightarrow> u16 \<Rightarrow> u64 \<Rightarrow> u64 \<Rightarrow> u8 list option \<Rightarrow> int \<Rightarrow> u64 \<Rightarrow> u8 \<Rightarrow> u8 list \<times> nat" where
  "emit_cross_trade out loc trk ts shares stock_wire price match cross_type =
     (let out = header (ch CHR ''Q'') loc trk ts out;
          out = put64 11 shares out;
          out = put_stock_raw 19 stock_wire 8 out;
          out = put32 27 (word_of_int price) out;
          out = put64 31 match out;
          out = out[39 := cross_type]
      in (out, 40))"

definition emit_trading_action ::
    "u8 list \<Rightarrow> u16 \<Rightarrow> u16 \<Rightarrow> u64 \<Rightarrow> u8 list option \<Rightarrow> u8 \<Rightarrow> u8 list option \<Rightarrow> u8 list \<times> nat" where
  "emit_trading_action out loc trk ts stock_wire state reason_wire =
     (let out = header (ch CHR ''H'') loc trk ts out;
          out = put_stock_raw 11 stock_wire 8 out;
          out = out[19 := state];
          out = out[20 := ch CHR '' ''];
          out = (case reason_wire of
                   Some r \<Rightarrow> memcpy 21 (bytes_at r 0 4) out
                 | None \<Rightarrow> memcpy 21 (replicate 4 (ch CHR '' '')) out)
      in (out, 25))"

definition emit_operational_halt ::
    "u8 list \<Rightarrow> u16 \<Rightarrow> u16 \<Rightarrow> u64 \<Rightarrow> u8 list option \<Rightarrow> u8 \<Rightarrow> u8 \<Rightarrow> u8 list \<times> nat" where
  "emit_operational_halt out loc trk ts stock_wire market_code action =
     (let out = header (ch CHR ''h'') loc trk ts out;
          out = put_stock_raw 11 stock_wire 8 out;
          out = out[19 := market_code];
          out = out[20 := action]
      in (out, 21))"

definition emit_mwcb_status :: "u8 list \<Rightarrow> u16 \<Rightarrow> u16 \<Rightarrow> u64 \<Rightarrow> u8 \<Rightarrow> u8 list \<times> nat" where
  "emit_mwcb_status out loc trk ts lvl =
     (let out = header (ch CHR ''W'') loc trk ts out;
          out = out[11 := lvl]
      in (out, 12))"

definition emit_broken_trade :: "u8 list \<Rightarrow> u16 \<Rightarrow> u16 \<Rightarrow> u64 \<Rightarrow> u64 \<Rightarrow> u8 list \<times> nat" where
  "emit_broken_trade out loc trk ts match =
     (let out = header (ch CHR ''B'') loc trk ts out;
          out = put64 11 match out
      in (out, 19))"

definition kMaxMessage :: nat where "kMaxMessage = 64"

lemmas emit_defs = emit_system_event_def emit_stock_directory_def emit_add_order_def
  emit_add_order_mpid_def emit_order_executed_def emit_order_executed_price_def emit_order_cancel_def
  emit_order_delete_def emit_order_replace_def emit_trade_def emit_cross_trade_def
  emit_trading_action_def emit_operational_halt_def emit_mwcb_status_def emit_broken_trade_def

section \<open>The encoders invert the accessors\<close>

text \<open>A stock field holds eight bytes: those of the wire, or spaces.\<close>

definition stock_field :: "nat \<Rightarrow> u8 list option \<Rightarrow> u8 list" where
  "stock_field n wire = (case wire of None \<Rightarrow> replicate n 32 | Some w \<Rightarrow> bytes_at w 0 n)"

lemma length_stock_field [simp]: "length (stock_field n wire) = n"
  by (simp add: stock_field_def split: option.splits)

lemma put_stock_raw_field: "put_stock_raw i wire n p = memcpy i (stock_field n wire) p"
  by (simp add: put_stock_raw_def put_stock_def stock_field_def split: option.splits)

lemma option_field:
  "(case w of Some m \<Rightarrow> memcpy i (bytes_at m 0 n) p | None \<Rightarrow> memcpy i (replicate n (ch CHR '' '')) p) =
   memcpy i (stock_field n w) p"
  by (simp add: stock_field_def split: option.splits)

lemma sint_price [simp]: "is_i32 price \<Longrightarrow> sint (word_of_int price :: u32) = price"
  using to_i32_id [of price] by (simp add: to_i32_def)

lemma header_memcpy:
  "header t l k ts p = memcpy 5 (enc48 ts) (memcpy 3 (enc16 k) (memcpy 1 (enc16 l) (memcpy 0 [t] p)))"
  by (simp add: header_def wire_puts update_memcpy)

lemmas emit_simps = emit_defs Let_def put_stock_raw_field option_field header_memcpy wire_puts
  update_memcpy accessor_defs

lemma emit_lengths:
  "length (fst (emit_system_event out loc trk ts code)) = length out"
  "length (fst (emit_stock_directory out loc trk ts stock cat fin lot)) = length out"
  "length (fst (emit_add_order out loc trk ts ref side shares stock price)) = length out"
  "length (fst (emit_add_order_mpid out loc trk ts ref side shares stock price mpid)) = length out"
  "length (fst (emit_order_executed out loc trk ts ref shares match)) = length out"
  "length (fst (emit_order_executed_price out loc trk ts ref shares match printable price)) = length out"
  "length (fst (emit_order_cancel out loc trk ts ref shares)) = length out"
  "length (fst (emit_order_delete out loc trk ts ref)) = length out"
  "length (fst (emit_order_replace out loc trk ts orig ref shares price)) = length out"
  "length (fst (emit_trade out loc trk ts ref side shares stock price match)) = length out"
  "length (fst (emit_cross_trade out loc trk ts qty stock price match ct)) = length out"
  "length (fst (emit_trading_action out loc trk ts stock state reason)) = length out"
  "length (fst (emit_operational_halt out loc trk ts stock market action)) = length out"
  "length (fst (emit_mwcb_status out loc trk ts lvl)) = length out"
  "length (fst (emit_broken_trade out loc trk ts match)) = length out"
  by (simp_all add: emit_simps)

lemma system_event_round_trip:
  assumes "kMaxMessage \<le> length out" and "ts < 2 ^ 48"
    and "m = fst (emit_system_event out loc trk ts code)"
  shows "m ! 0 = ch CHR ''S''" "stock_locate m = loc" "msg_timestamp m = ts"
    "system_event_code m = code"
  using assms by (simp_all add: emit_simps kMaxMessage_def)

lemma stock_directory_round_trip:
  assumes "kMaxMessage \<le> length out" and "ts < 2 ^ 48"
    and "m = fst (emit_stock_directory out loc trk ts stock cat fin lot)"
  shows "m ! 0 = ch CHR ''R''" "stock_locate m = loc" "msg_timestamp m = ts"
    "stock_directory_stock m = stock_field 8 stock" "stock_directory_category m = cat"
    "stock_directory_status m = fin" "stock_directory_round_lot m = lot"
  using assms by (simp_all add: emit_simps kMaxMessage_def)

lemma add_order_round_trip:
  assumes "kMaxMessage \<le> length out" and "ts < 2 ^ 48" and "is_i32 price"
    and "m = fst (emit_add_order out loc trk ts ref side shares stock price)"
  shows "m ! 0 = ch CHR ''A''" "stock_locate m = loc" "msg_timestamp m = ts"
    "add_order_ref m = ref" "add_order_side m = side" "add_order_shares m = shares"
    "add_order_stock m = stock_field 8 stock" "add_order_price m = price"
  using assms by (simp_all add: emit_simps kMaxMessage_def)

lemma add_order_mpid_round_trip:
  assumes "kMaxMessage \<le> length out" and "ts < 2 ^ 48" and "is_i32 price"
    and "m = fst (emit_add_order_mpid out loc trk ts ref side shares stock price mpid)"
  shows "m ! 0 = ch CHR ''F''" "stock_locate m = loc" "msg_timestamp m = ts"
    "add_order_mpid_ref m = ref" "add_order_mpid_side m = side"
    "add_order_mpid_shares m = shares" "add_order_mpid_stock m = stock_field 8 stock"
    "add_order_mpid_price m = price" "add_order_mpid_attribution m = stock_field 4 mpid"
  using assms by (simp_all add: emit_simps kMaxMessage_def)

lemma order_executed_round_trip:
  assumes "kMaxMessage \<le> length out" and "ts < 2 ^ 48"
    and "m = fst (emit_order_executed out loc trk ts ref shares match)"
  shows "m ! 0 = ch CHR ''E''" "stock_locate m = loc" "msg_timestamp m = ts"
    "order_executed_ref m = ref" "order_executed_shares m = shares"
    "order_executed_match m = match"
  using assms by (simp_all add: emit_simps kMaxMessage_def)

lemma order_executed_price_round_trip:
  assumes "kMaxMessage \<le> length out" and "ts < 2 ^ 48" and "is_i32 price"
    and "m = fst (emit_order_executed_price out loc trk ts ref shares match printable price)"
  shows "m ! 0 = ch CHR ''C''" "stock_locate m = loc" "msg_timestamp m = ts"
    "order_executed_price_ref m = ref" "order_executed_price_shares m = shares"
    "order_executed_price_match m = match" "order_executed_price_printable m = printable"
    "order_executed_price_price m = price"
  using assms by (simp_all add: emit_simps kMaxMessage_def)

lemma order_cancel_round_trip:
  assumes "kMaxMessage \<le> length out" and "ts < 2 ^ 48"
    and "m = fst (emit_order_cancel out loc trk ts ref shares)"
  shows "m ! 0 = ch CHR ''X''" "stock_locate m = loc" "msg_timestamp m = ts"
    "order_cancel_ref m = ref" "order_cancel_shares m = shares"
  using assms by (simp_all add: emit_simps kMaxMessage_def)

lemma order_delete_round_trip:
  assumes "kMaxMessage \<le> length out" and "ts < 2 ^ 48"
    and "m = fst (emit_order_delete out loc trk ts ref)"
  shows "m ! 0 = ch CHR ''D''" "stock_locate m = loc" "msg_timestamp m = ts"
    "order_delete_ref m = ref"
  using assms by (simp_all add: emit_simps kMaxMessage_def)

lemma order_replace_round_trip:
  assumes "kMaxMessage \<le> length out" and "ts < 2 ^ 48" and "is_i32 price"
    and "m = fst (emit_order_replace out loc trk ts orig ref shares price)"
  shows "m ! 0 = ch CHR ''U''" "stock_locate m = loc" "msg_timestamp m = ts"
    "order_replace_original_ref m = orig" "order_replace_new_ref m = ref"
    "order_replace_shares m = shares" "order_replace_price m = price"
  using assms by (simp_all add: emit_simps kMaxMessage_def)

lemma trade_round_trip:
  assumes "kMaxMessage \<le> length out" and "ts < 2 ^ 48" and "is_i32 price"
    and "m = fst (emit_trade out loc trk ts ref side shares stock price match)"
  shows "m ! 0 = ch CHR ''P''" "stock_locate m = loc" "msg_timestamp m = ts" "trade_ref m = ref"
    "trade_side m = side" "trade_shares m = shares" "trade_stock m = stock_field 8 stock"
    "trade_price m = price" "trade_match m = match"
  using assms by (simp_all add: emit_simps kMaxMessage_def)

lemma cross_trade_round_trip:
  assumes "kMaxMessage \<le> length out" and "ts < 2 ^ 48" and "is_i32 price"
    and "m = fst (emit_cross_trade out loc trk ts qty stock price match ct)"
  shows "m ! 0 = ch CHR ''Q''" "stock_locate m = loc" "msg_timestamp m = ts"
    "cross_trade_shares m = qty" "cross_trade_stock m = stock_field 8 stock"
    "cross_trade_price m = price" "cross_trade_match m = match" "cross_trade_type m = ct"
  using assms by (simp_all add: emit_simps kMaxMessage_def)

lemma trading_action_round_trip:
  assumes "kMaxMessage \<le> length out" and "ts < 2 ^ 48"
    and "m = fst (emit_trading_action out loc trk ts stock state reason)"
  shows "m ! 0 = ch CHR ''H''" "stock_locate m = loc" "msg_timestamp m = ts"
    "trading_action_stock m = stock_field 8 stock" "trading_action_state m = state"
    "trading_action_reason m = stock_field 4 reason"
  using assms by (simp_all add: emit_simps kMaxMessage_def)

lemma operational_halt_round_trip:
  assumes "kMaxMessage \<le> length out" and "ts < 2 ^ 48"
    and "m = fst (emit_operational_halt out loc trk ts stock market action)"
  shows "m ! 0 = ch CHR ''h''" "stock_locate m = loc" "msg_timestamp m = ts"
    "operational_halt_stock m = stock_field 8 stock" "operational_halt_market m = market"
    "operational_halt_action m = action"
  using assms by (simp_all add: emit_simps kMaxMessage_def)

lemma mwcb_status_round_trip:
  assumes "kMaxMessage \<le> length out" and "ts < 2 ^ 48"
    and "m = fst (emit_mwcb_status out loc trk ts lvl)"
  shows "m ! 0 = ch CHR ''W''" "stock_locate m = loc" "msg_timestamp m = ts"
    "mwcb_status_level m = lvl"
  using assms by (simp_all add: emit_simps kMaxMessage_def)

lemma broken_trade_round_trip:
  assumes "kMaxMessage \<le> length out" and "ts < 2 ^ 48"
    and "m = fst (emit_broken_trade out loc trk ts match)"
  shows "m ! 0 = ch CHR ''B''" "stock_locate m = loc" "msg_timestamp m = ts"
    "broken_trade_match m = match"
  using assms by (simp_all add: emit_simps kMaxMessage_def)

text \<open>Every encoder returns the length the specification table has for the type it writes.\<close>

lemma emit_spec_lengths:
  assumes "kMaxMessage \<le> length out"
  shows "\<forall>m n. (m, n) \<in> {emit_system_event out loc trk ts code,
      emit_stock_directory out loc trk ts stock cat fin lot,
      emit_add_order out loc trk ts ref side shares stock price,
      emit_add_order_mpid out loc trk ts ref side shares stock price mpid,
      emit_order_executed out loc trk ts ref shares match,
      emit_order_executed_price out loc trk ts ref shares match printable price,
      emit_order_cancel out loc trk ts ref shares, emit_order_delete out loc trk ts ref,
      emit_order_replace out loc trk ts orig ref shares price,
      emit_trade out loc trk ts ref side shares stock price match,
      emit_cross_trade out loc trk ts qty stock price match ct,
      emit_trading_action out loc trk ts stock state reason,
      emit_operational_halt out loc trk ts stock market action,
      emit_mwcb_status out loc trk ts lvl, emit_broken_trade out loc trk ts match} \<longrightarrow>
    spec_length (m ! 0) = int n \<and> n \<le> kMaxMessage"
  using assms by (auto simp: emit_simps kMaxMessage_def spec_length_def)

section \<open>Framing\<close>

text \<open>
  \<open>Reader::next\<close> reads a two byte length and that many bytes from the stream \<open>gzread\<close> gives; the
  stream is the list of the bytes that are left. A read past its end gives what there is.
\<close>

datatype reader_error = TruncatedPrefix | TruncatedBody

record reader =
  rd_stream :: "u8 list"
  rd_bytes :: u64
  rd_messages :: u64

definition reader_open :: "u8 list \<Rightarrow> reader" where
  "reader_open bytes = \<lparr> rd_stream = bytes, rd_bytes = 0, rd_messages = 0 \<rparr>"

definition reader_next :: "reader \<Rightarrow> reader_error + (u8 list \<times> reader) option" where
  "reader_next r =
     (let len_buf = take 2 (rd_stream r); rest = drop 2 (rd_stream r) in
      if length len_buf = 0 then Inr None
      else if length len_buf \<noteq> 2 then Inl TruncatedPrefix
      else
        let len = push_bit 8 (ucast (len_buf ! 0)) OR ucast (len_buf ! 1) :: u16;
            out = take (unat len) rest
        in if length out \<noteq> unat len then Inl TruncatedBody
           else Inr (Some (out, r\<lparr> rd_stream := drop (unat len) rest,
                  rd_bytes := rd_bytes r + (2 + ucast len), rd_messages := rd_messages r + 1 \<rparr>)))"

text \<open>
  \<open>parse\<close>, with the handler as a function on its state. An empty message has no type byte (the code
  would read \<open>buf[0]\<close> of an empty vector); the model stops there with its own outcome.
\<close>

datatype parse_error = ReadError reader_error | Mismatch u8 nat int | NoTypeByte

function parse :: "('s \<Rightarrow> u8 \<Rightarrow> u8 list \<Rightarrow> u16 \<Rightarrow> 's) \<Rightarrow> reader \<Rightarrow> 's \<Rightarrow> u64 \<Rightarrow>
    (parse_error \<times> 's) + ('s \<times> u64)" where
  "parse on_message r s cnt =
     (case reader_next r of
        Inl e \<Rightarrow> Inl (ReadError e, s)
      | Inr None \<Rightarrow> Inr (s, cnt)
      | Inr (Some (buf, r')) \<Rightarrow>
          (if buf = [] then Inl (NoTypeByte, s) else
           let t = buf ! 0;
               len = of_nat (length buf) :: u16;
               expected = spec_length t
           in if expected > 0 \<and> uint len \<noteq> expected then Inl (Mismatch t (unat len) expected, s)
              else parse on_message r' (on_message s t buf len) (cnt + 1)))"
  by pat_completeness auto

lemma reader_next_shorter:
  "reader_next r = Inr (Some (buf, r')) \<Longrightarrow> length (rd_stream r') < length (rd_stream r)"
  by (auto simp: reader_next_def Let_def split: if_splits)

termination parse
  by (relation "measure (\<lambda>(f, r, s, c). length (rd_stream r))") (auto simp: reader_next_shorter)

declare parse.simps [simp del]

text \<open>The bytes of a file: every message behind its length.\<close>

definition frame_file :: "u8 list list \<Rightarrow> u8 list" where
  "frame_file ms = concat (map (\<lambda>m. enc16 (of_nat (length m)) @ m) ms)"

definition framed :: "u8 list \<Rightarrow> bool" where
  "framed m \<longleftrightarrow> m \<noteq> [] \<and> length m < 2 ^ 16 \<and>
     (spec_length (m ! 0) > 0 \<longrightarrow> int (length m) = spec_length (m ! 0))"

lemma reader_next_bytes:
  assumes m: "length m < 2 ^ 16" and "rd_stream r = enc16 (of_nat (length m)) @ m @ rest"
  shows "reader_next r = Inr (Some (m, r\<lparr> rd_stream := rest,
    rd_bytes := rd_bytes r + (2 + of_nat (length m)), rd_messages := rd_messages r + 1 \<rparr>))"
proof -
  let ?n = "of_nat (length m) :: u16"
  have n: "unat ?n = length m" by (rule unat_of_nat16 [OF m])
  have b: "push_bit 8 (ucast (enc16 ?n ! 0)) OR ucast (enc16 ?n ! 1) = ?n"
    using be16_enc16 [of ?n] by (simp add: be16_def)
  have t: "take 2 (rd_stream r) = enc16 ?n" "drop 2 (rd_stream r) = m @ rest"
    using assms(2) by simp_all
  have c: "(ucast ?n :: u64) = of_nat (length m)"
    by (metis n of_nat_unat)
  show ?thesis
    unfolding reader_next_def t Let_def by (simp only: b n) (simp add: n c)
qed

lemmas reader_next_frame = reader_next_bytes [OF conjunct1 [OF conjunct2 [OF framed_def [THEN iffD1]]]]

lemma parse_step:
  assumes "framed m" and "rd_stream r = enc16 (of_nat (length m)) @ m @ rest"
  shows "parse h r s n = parse h (r\<lparr> rd_stream := rest,
    rd_bytes := rd_bytes r + (2 + of_nat (length m)), rd_messages := rd_messages r + 1 \<rparr>)
    (h s (m ! 0) m (of_nat (length m))) (n + 1)"
proof -
  have u: "uint (of_nat (length m) :: u16) = int (length m)"
    using assms(1) by (simp add: framed_def uint_word_of_int unsigned_of_nat take_bit_nat_eq_self of_nat_take_bit flip: uint_nat)
  show ?thesis
    using assms(1) by (subst parse.simps) (auto simp add: reader_next_frame [OF assms] u framed_def Let_def)
qed

lemma parse_prefix:
  "\<forall>m \<in> set ms. framed m \<Longrightarrow> rd_stream r = frame_file ms @ rest \<Longrightarrow>
   \<exists>r'. rd_stream r' = rest \<and>
     parse h r s n = parse h r' (fold (\<lambda>m s. h s (m ! 0) m (of_nat (length m))) ms s) (n + of_nat (length ms))"
proof (induction ms arbitrary: r s n)
  case Nil
  then show ?case by (auto simp: frame_file_def)
next
  case (Cons m ms)
  have st: "rd_stream r = enc16 (of_nat (length m)) @ m @ frame_file ms @ rest"
    using Cons.prems(2) by (simp add: frame_file_def)
  note S = parse_step [OF _ st, of h s n]
  have "rd_stream (r\<lparr> rd_stream := frame_file ms @ rest, rd_bytes := rd_bytes r + (2 + of_nat (length m)),
      rd_messages := rd_messages r + 1 \<rparr>) = frame_file ms @ rest" by simp
  from Cons.IH [OF _ this, of "h s (m ! 0) m (of_nat (length m))" "n + 1"] Cons.prems(1) show ?case
    unfolding S [OF Cons.prems(1) [rule_format, OF list.set_intros(1)]]
    by (simp add: algebra_simps)
qed

lemma parse_frames:
  assumes "\<forall>m \<in> set ms. framed m" "rd_stream r = frame_file ms"
  shows "parse h r s n = Inr (fold (\<lambda>m s. h s (m ! 0) m (of_nat (length m))) ms s, n + of_nat (length ms))"
proof -
  obtain r' where r': "rd_stream r' = []" and p: "parse h r s n =
      parse h r' (fold (\<lambda>m s. h s (m ! 0) m (of_nat (length m))) ms s) (n + of_nat (length ms))"
    using parse_prefix [OF assms(1), of r "[]" h s n] assms(2) by auto
  have "reader_next r' = Inr None" using r' by (simp add: reader_next_def)
  then show ?thesis unfolding p by (subst parse.simps) simp
qed

text \<open>A frame whose length is not that of its type stops the parse there.\<close>

lemma parse_desync:
  assumes ms: "\<forall>m \<in> set ms. framed m"
    and m: "m \<noteq> []" "length m < 2 ^ 16" "spec_length (m ! 0) > 0" "int (length m) \<noteq> spec_length (m ! 0)"
    and r: "rd_stream r = frame_file ms @ enc16 (of_nat (length m)) @ m @ rest"
  shows "parse h r s n = Inl (Mismatch (m ! 0) (length m) (spec_length (m ! 0)),
    fold (\<lambda>m s. h s (m ! 0) m (of_nat (length m))) ms s)"
proof -
  obtain r' where r': "rd_stream r' = enc16 (of_nat (length m)) @ m @ rest" and p: "parse h r s n =
      parse h r' (fold (\<lambda>m s. h s (m ! 0) m (of_nat (length m))) ms s) (n + of_nat (length ms))"
    using parse_prefix [OF ms r, of h s n] by blast
  have u: "unat (of_nat (length m) :: u16) = length m" by (rule unat_of_nat16 [OF m(2)])
  then have u': "uint (of_nat (length m) :: u16) = int (length m)" by (simp only: uint_nat)
  show ?thesis
    unfolding p by (subst parse.simps) (use m in \<open>simp add: reader_next_bytes [OF m(2) r'] u u' Let_def\<close>)
qed

end
