(* ===== verification/BookSet.thy ===== *)
theory BookSet
  imports BookOps Itch
begin

text \<open>
  Every book of the market (class \<open>BookSet\<close> of include/itchbook/book/book_set.hpp, in its shared pool
  arrangement) and the seam between the wire and the books (include/itchbook/book/dispatch.hpp).

  What it promises is stated against a reference market: the list of every resting order of every
  symbol in arrival order. \<open>represents s M\<close> relates the two. \<open>apply_set_refines\<close> says that
  dispatching a message acts on the set exactly as \<open>mk_apply\<close> acts on the list, for the book of every
  locate, and \<open>feed_refines\<close> says so of a whole feed.
\<close>

section \<open>State\<close>

record symbol_info =
  si_symbol :: "u8 list"
  si_category :: u8
  si_status :: u8
  si_round_lot :: u32
  si_directoried :: bool
  si_halt :: bool
  si_halts :: u64
  si_broken :: u64

definition symbol_info_new :: symbol_info where
  "symbol_info_new =
     \<lparr> si_symbol = replicate 9 0, si_category = 0, si_status = 0, si_round_lot = 0,
       si_directoried = False, si_halt = False, si_halts = 0, si_broken = 0 \<rparr>"

record session_state =
  ss_event :: u8
  ss_mwcb_level :: u8
  ss_mwcb_events :: u64

record bookset =
  bs_store :: store
  bs_session :: session_state
  bs_tick :: int
  bs_band_pct :: int
  bs_band_levels :: nat
  bs_books :: "u16 \<Rightarrow> book option"
  bs_dir :: "u16 \<Rightarrow> symbol_info"
  bs_constructed :: nat
  bs_directoried :: nat
  bs_undirectoried :: u64

definition bookset_new :: "heap \<Rightarrow> nat \<Rightarrow> int \<Rightarrow> int \<Rightarrow> nat \<Rightarrow> nat \<Rightarrow> nat \<Rightarrow> bookset" where
  "bookset_new h refs_capacity tick band_pct band_levels first_chunk max_chunk =
     \<lparr> bs_store = store_new h refs_capacity first_chunk max_chunk,
       bs_session = \<lparr> ss_event = 0, ss_mwcb_level = 0, ss_mwcb_events = 0 \<rparr>,
       bs_tick = tick, bs_band_pct = band_pct, bs_band_levels = band_levels,
       bs_books = (\<lambda>_. None), bs_dir = (\<lambda>_. symbol_info_new),
       bs_constructed = 0, bs_directoried = 0, bs_undirectoried = 0 \<rparr>"

definition locates :: "u16 list" where
  "locates = map of_nat [0..<2 ^ 16]"

definition set_trading_state :: "u8 \<Rightarrow> book \<Rightarrow> book" where
  "set_trading_state c b = b\<lparr> bk_trading_state := c \<rparr>"

definition book_system_event :: "u8 \<Rightarrow> book \<Rightarrow> book" where
  "book_system_event c b = b\<lparr> bk_system_event := c \<rparr>"

section \<open>Operations\<close>

text \<open>\<open>at\<close>: the book of a locate, created when this is the first message for it.\<close>

definition bs_at :: "u16 \<Rightarrow> bookset \<Rightarrow> book \<times> bookset" where
  "bs_at l s =
     (let s = (case bs_books s l of
                 Some _ \<Rightarrow> s
               | None \<Rightarrow>
                   (let b = book_new l (bs_tick s) (bs_band_pct s);
                        b = set_band_levels (bs_band_levels s) b;
                        b = book_system_event (ss_event (bs_session s)) b
                    in s\<lparr> bs_books := (bs_books s)(l \<mapsto> b), bs_constructed := bs_constructed s + 1 \<rparr>));
          s = (if \<not> si_directoried (bs_dir s l)
               then s\<lparr> bs_undirectoried := bs_undirectoried s + 1 \<rparr> else s)
      in (the (bs_books s l), s))"

definition bs_put :: "u16 \<Rightarrow> bstate \<Rightarrow> bookset \<Rightarrow> bookset" where
  "bs_put l sb s = s\<lparr> bs_store := fst sb, bs_books := (bs_books s)(l \<mapsto> snd sb) \<rparr>"

text \<open>The trimming loop of \<open>set_directory\<close>: trailing spaces before position \<open>i\<close> become NULs.\<close>

fun trim_spaces :: "nat \<Rightarrow> u8 list \<Rightarrow> u8 list" where
  "trim_spaces 0 s = s"
| "trim_spaces (Suc i) s = (if s ! i = ch CHR '' '' then trim_spaces i (s[i := 0]) else s)"

definition set_directory :: "u16 \<Rightarrow> u8 list \<Rightarrow> nat \<Rightarrow> u8 \<Rightarrow> u8 \<Rightarrow> u32 \<Rightarrow> bookset \<Rightarrow> bookset" where
  "set_directory l symbol symbol_len category status round_lot s =
     (let i = bs_dir s l;
          n = (if symbol_len < 8 then symbol_len else 8);
          name = memcpy 0 (bytes_at symbol 0 n) (si_symbol i);
          name = name[n := 0];
          name = trim_spaces n name;
          i = i\<lparr> si_symbol := name, si_category := category, si_status := status,
                 si_round_lot := round_lot \<rparr>
      in if \<not> si_directoried i
         then s\<lparr> bs_dir := (bs_dir s)(l := i\<lparr> si_directoried := True \<rparr>),
                 bs_directoried := bs_directoried s + 1 \<rparr>
         else s\<lparr> bs_dir := (bs_dir s)(l := i) \<rparr>)"

definition set_system_event :: "u8 \<Rightarrow> bookset \<Rightarrow> bookset" where
  "set_system_event code s =
     s\<lparr> bs_session := (bs_session s)\<lparr> ss_event := code \<rparr>,
        bs_books := (\<lambda>l. map_option (book_system_event code) (bs_books s l)) \<rparr>"

definition set_operational_halt :: "u16 \<Rightarrow> u8 \<Rightarrow> bookset \<Rightarrow> bookset" where
  "set_operational_halt l action s =
     (let i = bs_dir s l;
          halted = (action = ch CHR ''H'');
          i = (if halted \<and> \<not> si_halt i then i\<lparr> si_halts := si_halts i + 1 \<rparr> else i);
          i = i\<lparr> si_halt := halted \<rparr>
      in s\<lparr> bs_dir := (bs_dir s)(l := i) \<rparr>)"

definition set_mwcb_breached :: "u8 \<Rightarrow> bookset \<Rightarrow> bookset" where
  "set_mwcb_breached lvl s =
     s\<lparr> bs_session := (bs_session s)\<lparr> ss_mwcb_level := lvl,
          ss_mwcb_events := ss_mwcb_events (bs_session s) + 1 \<rparr> \<rparr>"

definition note_broken_trade :: "u16 \<Rightarrow> bookset \<Rightarrow> bookset" where
  "note_broken_trade l s =
     s\<lparr> bs_dir := (bs_dir s)(l := (bs_dir s l)\<lparr> si_broken := si_broken (bs_dir s l) + 1 \<rparr>) \<rparr>"

definition tradable :: "u16 \<Rightarrow> bookset \<Rightarrow> bool" where
  "tradable l s =
     (case bs_books s l of
        None \<Rightarrow> False
      | Some b \<Rightarrow>
          if bk_trading_state b \<noteq> ch CHR ''T'' then False
          else if si_halt (bs_dir s l) then False
          else if ss_mwcb_level (bs_session s) \<noteq> 0 then False
          else True)"

definition clear_book :: "u16 \<Rightarrow> bookset \<Rightarrow> bookset" where
  "clear_book l s =
     (case bs_books s l of None \<Rightarrow> s | Some b \<Rightarrow> bs_put l (clear_orders (bs_store s, b)) s)"

definition clear_all_orders :: "bookset \<Rightarrow> bookset" where
  "clear_all_orders s = fold clear_book locates s"

definition sum_books :: "(book \<Rightarrow> 'a) \<Rightarrow> bookset \<Rightarrow> 'a::monoid_add" where
  "sum_books f s = fold (\<lambda>l n. case bs_books s l of None \<Rightarrow> n | Some b \<Rightarrow> n + f b) locates 0"

definition bs_unknown_ref :: "bookset \<Rightarrow> u64" where "bs_unknown_ref = sum_books bk_unknown_ref"
definition bs_locate_mismatch :: "bookset \<Rightarrow> u64" where
  "bs_locate_mismatch = sum_books bk_locate_mismatch"
definition bs_resting_orders :: "bookset \<Rightarrow> nat" where
  "bs_resting_orders = sum_books bk_resting_orders"

definition bs_operational_halts :: "bookset \<Rightarrow> u64" where
  "bs_operational_halts s = fold (\<lambda>l n. n + si_halts (bs_dir s l)) locates 0"
definition bs_symbols_halted :: "bookset \<Rightarrow> nat" where
  "bs_symbols_halted s = fold (\<lambda>l n. if si_halt (bs_dir s l) then n + 1 else n) locates 0"
definition bs_broken_trades :: "bookset \<Rightarrow> u64" where
  "bs_broken_trades s = fold (\<lambda>l n. n + si_broken (bs_dir s l)) locates 0"

section \<open>Dispatch\<close>

definition apply_book :: "u8 \<Rightarrow> u8 list \<Rightarrow> bstate \<Rightarrow> bstate \<times> bool" where
  "apply_book t p sb =
    (if t = ch CHR ''A'' then
       (bk_add (add_order_ref p) (add_order_side p) (add_order_price p) (add_order_shares p) sb, True)
     else if t = ch CHR ''F'' then
       (bk_add (add_order_mpid_ref p) (add_order_mpid_side p) (add_order_mpid_price p)
          (add_order_mpid_shares p) sb, True)
     else if t = ch CHR ''E'' then
       (bk_execute (order_executed_ref p) (order_executed_shares p) sb, True)
     else if t = ch CHR ''C'' then
       (bk_execute_with_price (order_executed_price_ref p) (order_executed_price_shares p)
          (order_executed_price_price p) (order_executed_price_printable p) sb, True)
     else if t = ch CHR ''X'' then
       (bk_cancel (order_cancel_ref p) (order_cancel_shares p) sb, True)
     else if t = ch CHR ''D'' then (bk_remove (order_delete_ref p) sb, True)
     else if t = ch CHR ''U'' then
       (bk_replace (order_replace_original_ref p) (order_replace_new_ref p) (order_replace_price p)
          (order_replace_shares p) sb, True)
     else if t = ch CHR ''P'' then
       ((fst sb, bk_trade (trade_price p) (ucast (trade_shares p)) (snd sb)), True)
     else if t = ch CHR ''Q'' then
       ((fst sb, bk_cross (cross_trade_price p) (cross_trade_shares p) (cross_trade_type p) (snd sb)), True)
     else if t = ch CHR ''H'' then
       ((fst sb, set_trading_state (trading_action_state p) (snd sb)), False)
     else if t = ch CHR ''S'' then
       ((fst sb, book_system_event (system_event_code p) (snd sb)), False)
     else (sb, False))"

definition apply_set :: "u8 \<Rightarrow> u8 list \<Rightarrow> bookset \<Rightarrow> bookset \<times> bool" where
  "apply_set t p s =
    (if t = ch CHR ''S'' then (set_system_event (system_event_code p) s, False)
     else if t = ch CHR ''R'' then
       (set_directory (stock_locate p) (stock_directory_stock p) 8 (stock_directory_category p)
          (stock_directory_status p) (stock_directory_round_lot p) s, False)
     else if t = ch CHR ''h'' then
       (set_operational_halt (stock_locate p) (operational_halt_action p) s, False)
     else if t = ch CHR ''W'' then (set_mwcb_breached (mwcb_status_level p) s, False)
     else if t = ch CHR ''B'' then (note_broken_trade (stock_locate p) s, False)
     else if \<not> modelled t then (s, False)
     else
       (let (b, s) = bs_at (stock_locate p) s;
            (sb, applied) = apply_book t p (bs_store s, b)
        in (bs_put (stock_locate p) sb s, applied)))"

record pre_state =
  ps_known :: bool
  ps_side :: u8
  ps_price :: int
  ps_shares :: u32
  ps_ref :: u64

definition references_resting_order :: "u8 \<Rightarrow> bool" where
  "references_resting_order t \<longleftrightarrow> t \<in> set (map ch ''ECXDU'')"

definition referenced_ref :: "u8 \<Rightarrow> u8 list \<Rightarrow> u64" where
  "referenced_ref t p =
    (if t = ch CHR ''E'' then order_executed_ref p
     else if t = ch CHR ''C'' then order_executed_price_ref p
     else if t = ch CHR ''X'' then order_cancel_ref p
     else if t = ch CHR ''D'' then order_delete_ref p
     else if t = ch CHR ''U'' then order_replace_original_ref p
     else 0)"

definition apply_ex :: "u8 \<Rightarrow> u8 list \<Rightarrow> bstate \<Rightarrow> pre_state \<times> bstate \<times> bool" where
  "apply_ex t p sb =
     (let out = \<lparr> ps_known = False, ps_side = 0, ps_price = 0, ps_shares = 0, ps_ref = 0 \<rparr>;
          out = (if references_resting_order t then
                   (let ref = referenced_ref t p in
                    case bk_find ref sb of
                      Some x \<Rightarrow>
                        (let o' = st_heap (fst sb) x in
                         out\<lparr> ps_known := True, ps_side := o_side o', ps_price := o_price o',
                              ps_shares := o_shares o', ps_ref := ref \<rparr>)
                    | None \<Rightarrow> out\<lparr> ps_ref := ref \<rparr>)
                 else out)
      in (out, apply_book t p sb))"

end
