(* ===== verification/Feed.thy ===== *)
theory Feed
  imports BookSet
begin

text \<open>
  The reference market and the refinement of the feed handler. The reference market is one list: the
  resting orders of every symbol, in the order they arrived. Each message is a small list operation
  on it. \<open>represents s M\<close> says that the book set \<open>s\<close> holds exactly the orders of \<open>M\<close>: the book of every
  locate shows, at every price of either side, the orders of \<open>M\<close> with that locate, side and price, in
  arrival order.

  The message stream is asked for what the protocol promises of it (\<open>msg_ok\<close>): an added order has a
  reference no resting order has and a positive price, and fewer than 2 ^ 32 orders rest.
\<close>

section \<open>The reference market\<close>

record resting =
  re_locate :: u16
  re_ref :: u64
  re_bid :: bool
  re_price :: int
  re_shares :: u32

definition names :: "u16 \<Rightarrow> u64 \<Rightarrow> resting \<Rightarrow> bool" where
  "names l ref e \<longleftrightarrow> re_locate e = l \<and> re_ref e = ref"

definition mview :: "u16 \<Rightarrow> resting list \<Rightarrow> bool \<Rightarrow> int \<Rightarrow> (u64 \<times> u32) list" where
  "mview l M d p =
     map (\<lambda>e. (re_ref e, re_shares e))
       (filter (\<lambda>e. re_locate e = l \<and> re_bid e = d \<and> re_price e = p) M)"

definition mk_add :: "u16 \<Rightarrow> u64 \<Rightarrow> bool \<Rightarrow> int \<Rightarrow> u32 \<Rightarrow> resting list \<Rightarrow> resting list" where
  "mk_add l ref d p n M =
     M @ [\<lparr> re_locate = l, re_ref = ref, re_bid = d, re_price = p, re_shares = n \<rparr>]"

definition mk_reduce :: "u16 \<Rightarrow> u64 \<Rightarrow> u32 \<Rightarrow> resting list \<Rightarrow> resting list" where
  "mk_reduce l ref n M =
     concat (map (\<lambda>e. if names l ref e
       then (if n \<ge> re_shares e then [] else [e\<lparr> re_shares := re_shares e - n \<rparr>]) else [e]) M)"

definition mk_remove :: "u16 \<Rightarrow> u64 \<Rightarrow> resting list \<Rightarrow> resting list" where
  "mk_remove l ref M = filter (\<lambda>e. \<not> names l ref e) M"

definition mk_replace :: "u16 \<Rightarrow> u64 \<Rightarrow> u64 \<Rightarrow> int \<Rightarrow> u32 \<Rightarrow> resting list \<Rightarrow> resting list" where
  "mk_replace l orig ref p n M =
     (case List.find (names l orig) M of
        None \<Rightarrow> M
      | Some e \<Rightarrow> mk_add l ref (re_bid e) p n (mk_remove l orig M))"

definition mk_apply :: "u8 list \<Rightarrow> resting list \<Rightarrow> resting list" where
  "mk_apply p M =
    (let t = p ! 0; l = stock_locate p in
     if t = ch CHR ''A'' then
       mk_add l (add_order_ref p) (add_order_side p = side_B) (add_order_price p) (add_order_shares p) M
     else if t = ch CHR ''F'' then
       mk_add l (add_order_mpid_ref p) (add_order_mpid_side p = side_B) (add_order_mpid_price p)
         (add_order_mpid_shares p) M
     else if t = ch CHR ''E'' then mk_reduce l (order_executed_ref p) (order_executed_shares p) M
     else if t = ch CHR ''C'' then
       mk_reduce l (order_executed_price_ref p) (order_executed_price_shares p) M
     else if t = ch CHR ''X'' then mk_reduce l (order_cancel_ref p) (order_cancel_shares p) M
     else if t = ch CHR ''D'' then mk_remove l (order_delete_ref p) M
     else if t = ch CHR ''U'' then
       mk_replace l (order_replace_original_ref p) (order_replace_new_ref p) (order_replace_price p)
         (order_replace_shares p) M
     else M)"

definition msg_ok :: "resting list \<Rightarrow> u8 list \<Rightarrow> bool" where
  "msg_ok M p \<longleftrightarrow>
    (let t = p ! 0 in
     if t = ch CHR ''A'' then
       add_order_ref p \<notin> re_ref ` set M \<and> 0 < add_order_price p \<and> length M + 1 < 2 ^ 32
     else if t = ch CHR ''F'' then
       add_order_mpid_ref p \<notin> re_ref ` set M \<and> 0 < add_order_mpid_price p \<and> length M + 1 < 2 ^ 32
     else if t = ch CHR ''U'' then
       (order_replace_new_ref p \<notin> re_ref ` set M \<or> order_replace_new_ref p = order_replace_original_ref p) \<and>
       0 < order_replace_price p
     else True)"

fun feed_ok :: "resting list \<Rightarrow> u8 list list \<Rightarrow> bool" where
  "feed_ok M [] \<longleftrightarrow> True"
| "feed_ok M (p # ps) \<longleftrightarrow> msg_ok M p \<and> feed_ok (mk_apply p M) ps"

text \<open>Running a feed: the handler the parser calls dispatches each message.\<close>

definition run_feed :: "u8 list list \<Rightarrow> bookset \<Rightarrow> bookset" where
  "run_feed ps s = fold (\<lambda>p s. fst (apply_set (p ! 0) p s)) ps s"

section \<open>What the operations do to the view of a symbol\<close>

lemma mview_Nil [simp]: "mview l [] d p = []"
  by (simp add: mview_def)

lemma mview_Cons: "mview l (e # M) d p =
   (if re_locate e = l \<and> re_bid e = d \<and> re_price e = p then (re_ref e, re_shares e) # mview l M d p
    else mview l M d p)"
  by (simp add: mview_def)

lemma mview_append: "mview l (M @ N) d p = mview l M d p @ mview l N d p"
  by (simp add: mview_def)

lemma mview_add: "mview l (mk_add l ref d p n M) = a_add d p ref n (mview l M)"
  by (auto simp: mk_add_def mview_append mview_Cons a_add_def fun_eq_iff)

lemma mview_reduce: "mview l (mk_reduce l ref n M) d p = a_reduce ref n (mview l M d p)"
  by (induction M) (auto simp: mk_reduce_def mview_append mview_Cons names_def)

lemma mview_remove: "mview l (mk_remove l ref M) d p = a_remove ref (mview l M d p)"
  by (induction M) (auto simp: mk_remove_def mview_Cons names_def a_remove_def)

text \<open>The orders of another symbol stay as they are.\<close>

definition others :: "u16 \<Rightarrow> resting list \<Rightarrow> resting list" where
  "others l M = filter (\<lambda>e. re_locate e \<noteq> l) M"

lemma others_add: "others l (mk_add l ref d p n M) = others l M"
  by (simp add: others_def mk_add_def)

lemma others_reduce: "others l (mk_reduce l ref n M) = others l M"
  by (induction M) (auto simp: mk_reduce_def others_def names_def)

lemma others_remove: "others l (mk_remove l ref M) = others l M"
  by (induction M) (auto simp: mk_remove_def others_def names_def)

lemma others_replace: "others l (mk_replace l orig ref p n M) = others l M"
  by (simp add: mk_replace_def others_add others_remove split: option.split)

lemma others_view: "others l M' = others l M \<Longrightarrow> l' \<noteq> l \<Longrightarrow> mview l' M' = mview l' M"
proof -
  assume o: "others l M' = others l M" and l: "l' \<noteq> l"
  have "mview l' N = mview l' (others l N)" for N
    using l by (induction N) (auto simp: mview_Cons others_def fun_eq_iff)
  with o show ?thesis by metis
qed

lemma others_mem: "others l M' = others l M \<Longrightarrow> l' \<noteq> l \<Longrightarrow> re_locate e = l' \<Longrightarrow> e \<in> set M' \<longleftrightarrow> e \<in> set M"
proof -
  assume o: "others l M' = others l M" and l: "l' \<noteq> l" "re_locate e = l'"
  have "e \<in> set N \<longleftrightarrow> e \<in> set (others l N)" for N using l by (auto simp: others_def)
  with o show ?thesis by metis
qed

lemma reduce_refs: "re_ref ` set (mk_reduce l ref n M) \<subseteq> re_ref ` set M"
  by (induction M) (auto simp: mk_reduce_def)

lemma distinct_reduce: "distinct (map re_ref M) \<Longrightarrow> distinct (map re_ref (mk_reduce l ref n M))"
proof (induction M)
  case (Cons e M)
  have "re_ref e \<notin> re_ref ` set (mk_reduce l ref n M)"
    using Cons.prems reduce_refs [of l ref n M] by auto
  with Cons show ?case by (auto simp: mk_reduce_def)
qed (simp add: mk_reduce_def)

lemma distinct_remove: "distinct (map re_ref M) \<Longrightarrow> distinct (map re_ref (mk_remove l ref M))"
  by (simp add: mk_remove_def distinct_map_filter)

lemma distinct_add:
  "distinct (map re_ref M) \<Longrightarrow> ref \<notin> re_ref ` set M \<Longrightarrow> distinct (map re_ref (mk_add l ref d p n M))"
  by (auto simp: mk_add_def)

section \<open>Representation\<close>

definition represents :: "bookset \<Rightarrow> resting list \<Rightarrow> bool" where
  "represents s M \<longleftrightarrow>
     store_ok (bs_store s) \<and> distinct (map re_ref M) \<and> 0 < bs_tick s \<and> bs_band_levels s < 2 ^ 32 - 1 \<and>
     (\<forall>l. case bs_books s l of
            None \<Rightarrow> mine (bs_store s) l = {} \<and> (\<forall>e \<in> set M. re_locate e \<noteq> l)
          | Some b \<Rightarrow> bk_locate b = l \<and> good (bs_store s, b) \<and> book_view (bs_store s, b) = mview l M)"

lemma representsD:
  assumes "represents s M"
  shows "store_ok (bs_store s)" "distinct (map re_ref M)" "0 < bs_tick s" "bs_band_levels s < 2 ^ 32 - 1"
    "bs_books s l = None \<Longrightarrow> mine (bs_store s) l = {}"
    "bs_books s l = None \<Longrightarrow> e \<in> set M \<Longrightarrow> re_locate e \<noteq> l"
    "bs_books s l = Some b \<Longrightarrow> bk_locate b = l"
    "bs_books s l = Some b \<Longrightarrow> good (bs_store s, b)"
    "bs_books s l = Some b \<Longrightarrow> book_view (bs_store s, b) = mview l M"
  using assms unfolding represents_def by (simp_all split: option.splits) (metis option.distinct(1))+

lemma representsI:
  assumes "store_ok (bs_store s)" "distinct (map re_ref M)" "0 < bs_tick s" "bs_band_levels s < 2 ^ 32 - 1"
    and "\<And>l. bs_books s l = None \<Longrightarrow> mine (bs_store s) l = {} \<and> (\<forall>e \<in> set M. re_locate e \<noteq> l)"
    and "\<And>l b. bs_books s l = Some b \<Longrightarrow>
      bk_locate b = l \<and> good (bs_store s, b) \<and> book_view (bs_store s, b) = mview l M"
  shows "represents s M"
  using assms unfolding represents_def by (simp split: option.split)

lemma mview_mem: "(ref, n) \<in> set (mview l M d p) \<Longrightarrow>
   \<exists>e \<in> set M. re_locate e = l \<and> re_ref e = ref \<and> re_bid e = d \<and> re_price e = p"
  by (auto simp: mview_def)

lemma found_in_view:
  assumes g: "good (st, b)" and x: "rm_find (st_refs st) ref = Some x" "o_locate (st_heap st x) = bk_locate b"
  shows "\<exists>p n. (ref, n) \<in> set (book_view (st, b) (o_side (st_heap st x) = side_B) p)"
proof -
  obtain Q where st: "store_ok st" and bk: "book_ok st b Q" using g by (auto simp: good_def)
  obtain p l r where "Q (o_side (st_heap st x) = side_B) p = l @ x # r"
    using named_place [OF st bk x] .
  then have "tag (st_heap st) x \<in> set (book_view (st, b) (o_side (st_heap st x) = side_B) p)"
    by (simp add: book_view_ok [OF bk] view_of_def)
  moreover have "o_ref (st_heap st x) = ref" using store_okD(2) [OF st x(1)] .
  ultimately show ?thesis unfolding tag_def by blast
qed

lemma view_found:
  assumes g: "good (st, b)" and m: "(ref, n) \<in> set (book_view (st, b) d p)"
  shows "\<exists>x. bk_find ref (st, b) = Some x \<and> (o_side (st_heap st x) = side_B) = d"
proof -
  obtain Q where st: "store_ok st" and bk: "book_ok st b Q" using g by (auto simp: good_def)
  from m obtain x where x: "x \<in> set (Q d p)" "o_ref (st_heap st x) = ref"
    by (auto simp: book_view_ok [OF bk] view_of_def tag_def)
  then have "x \<in> all_of Q" unfolding all_of_def by blast
  then have "x \<in> mine st (bk_locate b)" using book_okD(2) [OF bk] by simp
  then have "rm_find (st_refs st) ref = Some x" "o_locate (st_heap st x) = bk_locate b"
    using live_find [OF st, of x] x(2) by (auto simp: mine_def)
  moreover have "(o_side (st_heap st x) = side_B) = d"
    by (rule pair_okD(2) [OF book_okD(1) [OF bk] x(1)])
  ultimately show ?thesis by (simp add: bk_find_def)
qed

lemma live_represented:
  assumes r: "represents s M" and x: "rm_find (st_refs (bs_store s)) ref = Some x"
  shows "\<exists>e \<in> set M. re_ref e = ref \<and> re_locate e = o_locate (st_heap (bs_store s) x)"
proof -
  let ?st = "bs_store s" and ?l = "o_locate (st_heap (bs_store s) x)"
  have "x \<in> mine ?st ?l" using x by (auto simp: mine_def live_def ran_def)
  then obtain b where b: "bs_books s ?l = Some b" using representsD(5) [OF r] by fastforce
  have "o_locate (st_heap ?st x) = bk_locate b" using representsD(7) [OF r b] by simp
  from found_in_view [OF representsD(8) [OF r b] x this] obtain p n
    where "(ref, n) \<in> set (mview ?l M (o_side (st_heap ?st x) = side_B) p)"
    unfolding representsD(9) [OF r b] by blast
  then show ?thesis using mview_mem by blast
qed

lemma fresh_unbound:
  "represents s M \<Longrightarrow> ref \<notin> re_ref ` set M \<Longrightarrow> rm_find (st_refs (bs_store s)) ref = None"
  using live_represented by (metis image_eqI not_Some_eq)

lemma resting_bound:
  assumes r: "represents s M" and b: "bs_books s l = Some b"
  shows "bk_resting_orders b \<le> length M"
proof -
  let ?st = "bs_store s"
  obtain Q where bk: "book_ok ?st b Q" using representsD(8) [OF r b] by (auto simp: good_def)
  note st = representsD(1) [OF r]
  have inj: "inj_on (\<lambda>x. o_ref (st_heap ?st x)) (mine ?st l)"
    by (rule inj_onI) (metis (no_types, lifting) live_find [OF st] mem_Collect_eq mine_def option.inject)
  have sub: "(\<lambda>x. o_ref (st_heap ?st x)) ` mine ?st l \<subseteq> re_ref ` set M"
  proof
    fix a assume "a \<in> (\<lambda>x. o_ref (st_heap ?st x)) ` mine ?st l"
    then obtain x where "x \<in> live ?st" "a = o_ref (st_heap ?st x)" by (auto simp: mine_def)
    from live_represented [OF r live_find [OF st this(1)]] this(2) show "a \<in> re_ref ` set M" by force
  qed
  have "card (mine ?st l) = card ((\<lambda>x. o_ref (st_heap ?st x)) ` mine ?st l)"
    by (rule card_image [OF inj, symmetric])
  also have "\<dots> \<le> card (re_ref ` set M)" by (rule card_mono [OF _ sub]) simp
  also have "\<dots> \<le> length M" by (metis card_length length_map set_map)
  finally show ?thesis
    using book_okD(2,4) [OF bk] representsD(7) [OF r b] by simp
qed

section \<open>One operation of one book\<close>

lemma put_represents:
  assumes r: "represents s M" and b: "bs_books s l = Some b"
    and ref: "refines (bs_store s, b) sb' (mview l M')"
    and d: "distinct (map re_ref M')" and o: "others l M' = others l M"
  shows "represents (bs_put l sb' s) M'"
proof -
  obtain st' b' where sb': "sb' = (st', b')" by (cases sb')
  have loc: "bk_locate b = l" by (rule representsD(7) [OF r b])
  have F: "good (st', b')" "book_view (st', b') = mview l M'" "frame l (bs_store s) st'" "bk_locate b' = l"
    using ref loc by (simp_all add: refines_def sb')
  have st': "store_ok st'" using F(1) by (simp add: good_def)
  have "mine st' l' = {} \<and> (\<forall>e \<in> set M'. re_locate e \<noteq> l')" if "l' \<noteq> l" "bs_books s l' = None" for l'
    using representsD(5,6) [OF r that(2)] F(3) that(1) others_mem [OF o that(1)]
    unfolding frame_def by blast
  moreover have "bk_locate c = l' \<and> good (st', c) \<and> book_view (st', c) = mview l' M'"
    if "l' \<noteq> l" "bs_books s l' = Some c" for l' c
  proof -
    note D = representsD(7-9) [OF r that(2)]
    obtain Q where Q: "book_ok (bs_store s) c Q" using D(2) by (auto simp: good_def)
    have "bk_locate c \<noteq> l" using D(1) that(1) by simp
    note f = book_ok_frame [OF Q this F(3)]
    have "book_view (st', c) = mview l' M"
      using book_view_ok [OF f(1)] book_view_ok [OF Q] f(2) D(3) by simp
    then show ?thesis
      using D(1) f(1) st' others_view [OF o that(1)] by (auto simp: good_def)
  qed
  ultimately show ?thesis
    using F st' d representsD(3,4) [OF r] unfolding represents_def
    by (auto simp: bs_put_def sb' split: option.split)
qed

lemma refines_same: "good sb \<Longrightarrow> refines sb sb (book_view sb)"
  by (simp add: refines_def)

lemma refines_tape:
  assumes "good (st, b)" "bk_bids b' = bk_bids b" "bk_asks b' = bk_asks b" "bk_tick b' = bk_tick b"
    "bk_band_levels b' = bk_band_levels b" "bk_pending_bid b' = bk_pending_bid b"
    "bk_pending_ask b' = bk_pending_ask b" "bk_locate b' = bk_locate b"
    "bk_resting_orders b' = bk_resting_orders b" "bk_resting_shares b' = bk_resting_shares b"
  shows "refines (st, b) (st, b') (book_view (st, b))"
proof -
  obtain Q where st: "store_ok st" and bk: "book_ok st b Q" using assms(1) by (auto simp: good_def)
  have "book_ok st b' Q" by (rule book_ok_cong [OF bk]) (use assms in simp_all)
  from refinesI [OF st this frame_refl assms(8)] book_view_ok [OF bk] show ?thesis by simp
qed

lemma refines_cong: "refines sb sb' V \<Longrightarrow> V = W \<Longrightarrow> refines sb sb' W"
  by simp

lemma is_i32_sint [simp]: "is_i32 (sint (w :: u32))"
  using sint_ge [of w] sint_lt [of w] by (simp add: is_i32_def)

lemma apply_book_refines:
  assumes r: "represents s M" and b: "bs_books s (stock_locate p) = Some b" and ok: "msg_ok M p"
    and t: "t = p ! 0" "t \<noteq> ch CHR ''S''"
  shows "refines (bs_store s, b) (fst (apply_book t p (bs_store s, b))) (mview (stock_locate p) (mk_apply p M))"
proof -
  let ?l = "stock_locate p" and ?st = "bs_store s"
  note g = representsD(8) [OF r b] and v = representsD(9) [OF r b]
  have add: "refines (?st, b) (bk_add ref c price n (?st, b)) (mview ?l (mk_add ?l ref (c = side_B) price n M))"
    if "ref \<notin> re_ref ` set M" "0 < price" "is_i32 price" "length M + 1 < 2 ^ 32" for ref c price n
  proof (rule refines_cong, rule add_refines [OF g fresh_unbound [OF r that(1)] that(3,2)])
    show "bk_resting_orders b + 1 < 2 ^ 32" using resting_bound [OF r b] that(4) by linarith
    show "a_add (c = side_B) price ref n (book_view (?st, b)) =
        mview ?l (mk_add ?l ref (c = side_B) price n M)" by (simp add: mview_add v)
  qed
  have red: "(\<lambda>d q. a_reduce ref n (book_view (?st, b) d q)) = mview ?l (mk_reduce ?l ref n M)" for ref n
    by (simp add: fun_eq_iff mview_reduce v)
  have rem: "(\<lambda>d q. a_remove ref (book_view (?st, b) d q)) = mview ?l (mk_remove ?l ref M)" for ref
    by (simp add: fun_eq_iff mview_remove v)
  have rep: "refines (?st, b) (bk_replace orig ref price n (?st, b)) (mview ?l (mk_replace ?l orig ref price n M))"
    if fr: "ref \<notin> re_ref ` set M \<or> ref = orig" and pr: "0 < price" "is_i32 price" for orig ref price n
  proof (cases "List.find (names ?l orig) M")
    case None
    have "bk_find orig (?st, b) = None"
    proof (rule ccontr)
      assume "bk_find orig (?st, b) \<noteq> None"
      then obtain x where "rm_find (st_refs ?st) orig = Some x" "o_locate (st_heap ?st x) = bk_locate b"
        by (auto simp: bk_find_def split: option.splits if_splits)
      from found_in_view [OF g this] obtain d q k where "(orig, k) \<in> set (mview ?l M d q)"
        unfolding v by blast
      then show False using None mview_mem [of orig k ?l M d q] by (auto simp: find_None_iff names_def)
    qed
    from replace_unknown [OF g this, of ref price n] None v show ?thesis by (simp add: mk_replace_def)
  next
    case (Some e)
    then have e: "e \<in> set M" "names ?l orig e" by (auto simp: find_Some_iff)
    then have "(orig, re_shares e) \<in> set (mview ?l M (re_bid e) (re_price e))"
      by (force simp: mview_def names_def)
    from view_found [OF g this [folded v]] obtain x
      where x: "bk_find orig (?st, b) = Some x" "(o_side (st_heap ?st x) = side_B) = re_bid e" by blast
    have "rm_find (st_refs ?st) ref = None \<or> ref = orig" using fr fresh_unbound [OF r] by blast
    from replace_refines [OF g x(1) this pr(2,1), of n] Some x(2) show ?thesis
      by (simp add: mk_replace_def mview_add rem [unfolded fun_eq_iff, rule_format] v mview_remove [abs_def] a_add_def fun_eq_iff)
  qed
  have idle: "refines (?st, b) (?st, b) (mview ?l M)"
    using refines_same [OF g] v by simp
  have tape: "refines (?st, b) (?st, bk_trade pr n b) (mview ?l M)"
    "refines (?st, b) (?st, bk_cross pr n ct b) (mview ?l M)"
    "refines (?st, b) (?st, set_trading_state ct b) (mview ?l M)" for pr n ct
    using refines_tape [OF g] v by (simp_all add: bk_trade_def bk_cross_def set_trading_state_def Let_def)
  show ?thesis
    using ok add rep idle tape execute_refines [OF g, unfolded red] execute_with_price_refines [OF g, unfolded red]
      cancel_refines [OF g, unfolded red] remove_refines [OF g, unfolded rem] t
    by (auto simp: apply_book_def msg_ok_def mk_apply_def Let_def add_order_price_def
        add_order_mpid_price_def order_replace_price_def)
qed

section \<open>One message\<close>

lemma distinct_replace:
  assumes d: "distinct (map re_ref M)" and fr: "ref \<notin> re_ref ` set M \<or> ref = orig"
  shows "distinct (map re_ref (mk_replace l orig ref p n M))"
proof (cases "List.find (names l orig) M")
  case (Some e)
  then have e: "e \<in> set M" "re_ref e = orig" "re_locate e = l"
    by (auto simp: find_Some_iff names_def)
  have "ref \<notin> re_ref ` set (mk_remove l orig M)"
  proof
    assume "ref \<in> re_ref ` set (mk_remove l orig M)"
    then obtain e' where e': "e' \<in> set M" "re_ref e' = ref" "\<not> names l orig e'" by (auto simp: mk_remove_def)
    with fr e have "ref = orig" "re_ref e' = re_ref e" by auto
    then have "e' = e" using d e(1) e'(1) by (auto simp: distinct_map inj_on_def)
    with e e'(3) show False by (simp add: names_def)
  qed
  then show ?thesis using Some by (simp add: mk_replace_def distinct_add distinct_remove d)
qed (simp add: mk_replace_def d)

lemma mk_apply_ok:
  assumes "distinct (map re_ref M)" "msg_ok M p"
  shows "distinct (map re_ref (mk_apply p M))" "others (stock_locate p) (mk_apply p M) = others (stock_locate p) M"
  using assms by (auto simp: mk_apply_def msg_ok_def Let_def distinct_add distinct_reduce distinct_remove
      distinct_replace others_add others_reduce others_remove others_replace)

lemma book_new_ok:
  assumes "mine st l = {}" "0 < tick" "levels < 2 ^ 32 - 1"
  shows "book_ok st (set_band_levels levels (book_new l tick pct)) (\<lambda>d p. [])"
proof -
  have "\<not> banded (side_new c tick)" for c by (simp add: side_new_def banded_def)
  moreover have "sd_side (side_new c tick) = c" "sd_tick (side_new c tick) = tick" for c
    by (simp_all add: side_new_def)
  ultimately show ?thesis
    using assms by (simp add: book_ok_def pair_ok_def the_side_def all_of_def band_ok_def
        set_band_levels_def book_new_def shares_of_def is_i32_def)
qed

lemma bs_at_represents:
  assumes r: "represents s M" and at: "bs_at l s = (b, s')"
  shows "represents s' M" "bs_books s' l = Some b" "bs_store s' = bs_store s"
proof -
  have *: "represents (s\<lparr> bs_undirectoried := n \<rparr>) M" if "represents s M" for s n
    using that unfolding represents_def by (simp cong: option.case_cong)
  have new: "represents (s\<lparr> bs_books := (bs_books s)(l \<mapsto> b), bs_constructed := k \<rparr>) M"
    if none: "bs_books s l = None"
      and b: "b = book_system_event c (set_band_levels (bs_band_levels s) (book_new l (bs_tick s) (bs_band_pct s)))"
    for b c k
  proof -
    note R = representsD [OF r]
    have "book_ok (bs_store s) (set_band_levels (bs_band_levels s) (book_new l (bs_tick s) (bs_band_pct s))) (\<lambda>d p. [])"
      by (rule book_new_ok [OF R(5) [OF none] R(3,4)])
    then have bk: "book_ok (bs_store s) b (\<lambda>d p. [])"
      by (rule book_ok_cong) (simp_all add: b book_system_event_def)
    have "mview l M d p = []" for d p
      using R(6) [OF none] by (auto simp: mview_def filter_empty_conv)
    with book_view_ok [OF bk] have v: "book_view (bs_store s, b) = mview l M"
      by (simp add: fun_eq_iff view_of_def)
    have "bk_locate b = l" by (simp add: b book_system_event_def set_band_levels_def book_new_def)
    moreover have "good (bs_store s, b)" using bk R(1) by (auto simp: good_def)
    moreover have "mine (bs_store s) l' = {} \<and> (\<forall>e \<in> set M. re_locate e \<noteq> l')" if "bs_books s l' = None" for l'
      using representsD(5,6) [OF r that] by blast
    ultimately show ?thesis
      using v R(1-4) representsD(7-9) [OF r] by (intro representsI) (auto split: if_splits)
  qed
  show "represents s' M" "bs_books s' l = Some b" "bs_store s' = bs_store s"
    using at r new by (auto simp: bs_at_def Let_def * split: option.splits if_splits)
qed

lemma represents_cong:
  "represents s M \<Longrightarrow> bs_store s' = bs_store s \<Longrightarrow> bs_tick s' = bs_tick s \<Longrightarrow>
   bs_band_levels s' = bs_band_levels s \<Longrightarrow> bs_books s' = bs_books s \<Longrightarrow> represents s' M"
  unfolding represents_def by (simp cong: option.case_cong)

lemma set_system_event_represents:
  assumes r: "represents s M"
  shows "represents (set_system_event c s) M"
proof -
  have "bk_locate (book_system_event c b) = l \<and> good (bs_store s, book_system_event c b) \<and>
      book_view (bs_store s, book_system_event c b) = mview l M" if "bs_books s l = Some b" for l b
  proof -
    have "refines (bs_store s, b) (bs_store s, book_system_event c b) (book_view (bs_store s, b))"
      by (rule refines_tape [OF representsD(8) [OF r that]]) (simp_all add: book_system_event_def)
    then show ?thesis using representsD(7,9) [OF r that] by (simp add: refines_def)
  qed
  moreover have "mine (bs_store s) l = {} \<and> (\<forall>e \<in> set M. re_locate e \<noteq> l)" if "bs_books s l = None" for l
    using representsD(5,6) [OF r that] by blast
  ultimately show ?thesis
    using representsD(1-4) [OF r] by (intro representsI) (auto simp: set_system_event_def)
qed

theorem apply_set_refines:
  assumes r: "represents s M" and ok: "msg_ok M p"
  shows "represents (fst (apply_set (p ! 0) p s)) (mk_apply p M)"
proof -
  let ?l = "stock_locate p" and ?t = "p ! 0"
  consider "?t = ch CHR ''S''" | "?t \<in> {ch CHR ''R'', ch CHR ''h'', ch CHR ''W'', ch CHR ''B''}"
    | "\<not> modelled ?t" | "modelled ?t" "?t \<notin> {ch CHR ''S'', ch CHR ''R'', ch CHR ''h'', ch CHR ''W'', ch CHR ''B''}"
    by blast
  then show ?thesis
  proof cases
    case 1
    then show ?thesis using set_system_event_represents [OF r] by (simp add: apply_set_def mk_apply_def)
  next
    case 2
    have "represents (set_directory l sy n c st lot s) M" "represents (set_operational_halt l a s) M"
      "represents (set_mwcb_breached a s) M" "represents (note_broken_trade l s) M" for l sy n c st lot a
      by (rule represents_cong [OF r]; simp add: set_directory_def set_operational_halt_def
          set_mwcb_breached_def note_broken_trade_def Let_def)+
    with 2 show ?thesis by (auto simp: apply_set_def mk_apply_def Let_def)
  next
    case 3
    with r show ?thesis
      using set_system_event_represents [OF r] represents_cong [OF r]
      by (auto simp: apply_set_def mk_apply_def modelled_def Let_def set_directory_def
          set_operational_halt_def set_mwcb_breached_def note_broken_trade_def)
  next
    case 4
    obtain b s1 where at: "bs_at ?l s = (b, s1)" by (meson surj_pair)
    note A = bs_at_represents [OF r at]
    obtain sb k where ap: "apply_book ?t p (bs_store s1, b) = (sb, k)" by (meson surj_pair)
    have "refines (bs_store s1, b) sb (mview ?l (mk_apply p M))"
      using apply_book_refines [OF A(1,2) ok refl] 4(2) ap by simp
    from put_represents [OF A(1,2) this mk_apply_ok [OF representsD(2) [OF r] ok]]
    have "represents (bs_put ?l sb s1) (mk_apply p M)" .
    moreover have "fst (apply_set ?t p s) = bs_put ?l sb s1"
      using 4 by (simp add: apply_set_def at ap)
    ultimately show ?thesis by simp
  qed
qed

theorem feed_refines:
  "represents s M \<Longrightarrow> feed_ok M ps \<Longrightarrow> represents (run_feed ps s) (fold mk_apply ps M)"
proof (induction ps arbitrary: s M)
  case (Cons p ps)
  then show ?case using apply_set_refines [of s M p] by (simp add: run_feed_def)
qed (simp add: run_feed_def)

lemma bookset_new_represents:
  assumes "0 < tick" "levels < 2 ^ 32 - 1"
  shows "represents (bookset_new h cap tick pct levels first max_chunk) []"
proof -
  have "rm_find (rm_new cap :: ptr refmap) = Map.empty" by (rule ext) (simp add: rm_find_new)
  then have "ran (rm_find (rm_new cap :: ptr refmap)) = {}" by simp
  then show ?thesis
    using assms by (simp add: represents_def bookset_new_def store_new_def store_ok_def mine_def live_def
        rm_new_inv rm_find_new)
qed

section \<open>Rebuilding after a gap\<close>

lemma clear_book_represents:
  assumes r: "represents s M"
  shows "represents (clear_book l s) (others l M)"
proof (cases "bs_books s l")
  case None
  then have "others l M = M" using representsD(6) [OF r None] by (auto simp: others_def filter_id_conv)
  then show ?thesis using None r by (simp add: clear_book_def)
next
  case (Some b)
  have "refines (bs_store s, b) (clear_orders (bs_store s, b)) (mview l (others l M))"
    by (rule refines_cong [OF clear_orders_refines(1) [OF representsD(8) [OF r Some]]])
      (auto simp: fun_eq_iff mview_def others_def filter_empty_conv)
  moreover have "distinct (map re_ref (others l M))"
    using representsD(2) [OF r] by (simp add: others_def distinct_map_filter)
  moreover have "others l (others l M) = others l M" by (simp add: others_def)
  ultimately show ?thesis
    using put_represents [OF r Some] by (simp add: clear_book_def Some)
qed

lemma all_locates: "set locates = UNIV"
proof -
  have "l \<in> set locates" for l :: u16
  proof -
    have "unat l < 2 ^ 16" using unsigned_less [of l] by simp
    then have "of_nat (unat l) \<in> set locates" unfolding locates_def set_map by (intro imageI) simp
    then show ?thesis by simp
  qed
  then show ?thesis by blast
qed

theorem clear_all_represents:
  assumes "represents s M"
  shows "represents (clear_all_orders s) []"
proof -
  have "represents (fold clear_book ls s) (filter (\<lambda>e. re_locate e \<notin> set ls) M)"
    if "represents s M" for ls s M
    using that
  proof (induction ls arbitrary: s M)
    case (Cons l ls)
    from Cons.IH [OF clear_book_represents [OF Cons.prems, of l]]
    show ?case by (simp add: others_def conj_commute)
  qed simp
  from this [OF assms, of locates] show ?thesis by (simp add: clear_all_orders_def all_locates)
qed

section \<open>From the encoder to the book\<close>

text \<open>Dispatching what an encoder wrote is the book operation it was called for.\<close>

lemma dispatch_encoded:
  assumes "kMaxMessage \<le> length out" "ts < 2 ^ 48" "is_i32 price"
  shows
    "fst (apply_book (ch CHR ''A'') (fst (emit_add_order out l k ts ref sd n stk price)) sb) =
       bk_add ref sd price n sb"
    "fst (apply_book (ch CHR ''F'') (fst (emit_add_order_mpid out l k ts ref sd n stk price mpid)) sb) =
       bk_add ref sd price n sb"
    "fst (apply_book (ch CHR ''E'') (fst (emit_order_executed out l k ts ref n mno)) sb) =
       bk_execute ref n sb"
    "fst (apply_book (ch CHR ''C'') (fst (emit_order_executed_price out l k ts ref n mno pr price)) sb) =
       bk_execute_with_price ref n price pr sb"
    "fst (apply_book (ch CHR ''X'') (fst (emit_order_cancel out l k ts ref n)) sb) = bk_cancel ref n sb"
    "fst (apply_book (ch CHR ''D'') (fst (emit_order_delete out l k ts ref)) sb) = bk_remove ref sb"
    "fst (apply_book (ch CHR ''U'') (fst (emit_order_replace out l k ts orig ref n price)) sb) =
       bk_replace orig ref price n sb"
    "fst (apply_book (ch CHR ''P'') (fst (emit_trade out l k ts ref sd n stk price mno)) sb) =
       (fst sb, bk_trade price (ucast n) (snd sb))"
    "fst (apply_book (ch CHR ''Q'') (fst (emit_cross_trade out l k ts qty stk price mno ct)) sb) =
       (fst sb, bk_cross price qty ct (snd sb))"
  using assms add_order_round_trip(4-8) [OF assms refl]
    add_order_mpid_round_trip(4-8) [OF assms refl] order_executed_round_trip [OF assms(1,2) refl]
    order_executed_price_round_trip [OF assms refl] order_cancel_round_trip [OF assms(1,2) refl]
    order_delete_round_trip [OF assms(1,2) refl] order_replace_round_trip [OF assms refl]
    trade_round_trip [OF assms refl] cross_trade_round_trip [OF assms refl]
  by (simp_all add: apply_book_def)

text \<open>The pre-mutation state the simulator reads: what the book shows of the named order.\<close>

lemma apply_ex_known:
  assumes g: "good (st, b)" and t: "references_resting_order t"
    and r: "apply_ex t p (st, b) = (ps, res)"
  shows "ps_known ps \<longleftrightarrow> (\<exists>d q n. (referenced_ref t p, n) \<in> set (book_view (st, b) d q))"
    "ps_known ps \<Longrightarrow> (referenced_ref t p, ps_shares ps) \<in> set (book_view (st, b) (ps_side ps = side_B) (ps_price ps))"
proof -
  let ?ref = "referenced_ref t p"
  have "(ps_known ps \<longleftrightarrow> (\<exists>d q n. (?ref, n) \<in> set (book_view (st, b) d q))) \<and>
    (ps_known ps \<longrightarrow> (?ref, ps_shares ps) \<in> set (book_view (st, b) (ps_side ps = side_B) (ps_price ps)))"
  proof (cases "bk_find ?ref (st, b)")
    case None
    then have "\<not> (\<exists>d q n. (?ref, n) \<in> set (book_view (st, b) d q))"
      using view_found [OF g] by fastforce
    moreover have "\<not> ps_known ps" using r t None by (auto simp: apply_ex_def Let_def)
    ultimately show ?thesis by blast
  next
    case (Some x)
    then have x: "rm_find (st_refs st) ?ref = Some x" "o_locate (st_heap st x) = bk_locate b"
      by (auto simp: bk_find_def split: option.splits if_splits)
    have ps: "ps_known ps" "ps_side ps = o_side (st_heap st x)" "ps_price ps = o_price (st_heap st x)"
      "ps_shares ps = o_shares (st_heap st x)"
      using r t Some by (auto simp: apply_ex_def Let_def)
    obtain Q where st: "store_ok st" and bk: "book_ok st b Q" using g by (auto simp: good_def)
    obtain q l r where q: "Q (o_side (st_heap st x) = side_B) q = l @ x # r"
      using named_place [OF st bk x] .
    have "x \<in> set (Q (o_side (st_heap st x) = side_B) q)" unfolding q by simp
    from pair_okD(6) [OF book_okD(1) [OF bk] this] have "o_price (st_heap st x) = q" by blast
    then have "tag (st_heap st) x \<in> set (book_view (st, b) (ps_side ps = side_B) (ps_price ps))"
      using q by (simp add: book_view_ok [OF bk] view_of_def ps)
    moreover have "tag (st_heap st) x = (?ref, ps_shares ps)"
      using store_okD(2) [OF st x(1)] by (simp add: tag_def ps)
    ultimately show ?thesis using ps(1) by metis
  qed
  then show "ps_known ps \<longleftrightarrow> (\<exists>d q n. (referenced_ref t p, n) \<in> set (book_view (st, b) d q))"
    "ps_known ps \<Longrightarrow> (referenced_ref t p, ps_shares ps) \<in> set (book_view (st, b) (ps_side ps = side_B) (ps_price ps))"
    by blast+
qed

section \<open>A sample feed\<close>

text \<open>
  Two symbols: an order of locate 7 that is partly executed, one of locate 9, and one of locate 7
  that is replaced. The properties are applied to the state this feed leaves.
\<close>

definition buf :: "u8 list" where "buf = replicate 64 0"

lemma buf_room [simp]: "kMaxMessage \<le> length buf"
  by (simp add: buf_def kMaxMessage_def)

definition sample_feed :: "u8 list list" where
  "sample_feed =
     [fst (emit_add_order buf 7 0 0 1 (ch CHR ''B'') 100 None 1000),
      fst (emit_add_order buf 9 0 0 2 (ch CHR ''B'') 50 None 1000),
      fst (emit_add_order buf 7 0 0 3 (ch CHR ''B'') 30 None 1000),
      fst (emit_order_executed buf 7 0 0 1 40 0),
      fst (emit_order_replace buf 7 0 0 3 4 20 1000)]"

definition sample_market :: "resting list" where
  "sample_market =
     [\<lparr> re_locate = 7, re_ref = 1, re_bid = True, re_price = 1000, re_shares = 60 \<rparr>,
      \<lparr> re_locate = 9, re_ref = 2, re_bid = True, re_price = 1000, re_shares = 50 \<rparr>,
      \<lparr> re_locate = 7, re_ref = 4, re_bid = True, re_price = 1000, re_shares = 20 \<rparr>]"

definition sample_set :: "heap \<Rightarrow> bookset" where
  "sample_set h = run_feed sample_feed (bookset_new h 16 100 20 8 4 8)"

lemma emitted_add:
  "mk_apply (fst (emit_add_order buf l 0 0 ref c n None 1000)) M = mk_add l ref (c = side_B) 1000 n M"
  "msg_ok M (fst (emit_add_order buf l 0 0 ref c n None 1000)) \<longleftrightarrow> ref \<notin> re_ref ` set M \<and> length M + 1 < 2 ^ 32"
  using add_order_round_trip [OF buf_room _ _ refl, of 0 1000 l 0 ref c n None]
  by (simp_all add: mk_apply_def msg_ok_def is_i32_def)

lemma emitted_execute:
  "mk_apply (fst (emit_order_executed buf l 0 0 ref n m)) M = mk_reduce l ref n M"
  "msg_ok M (fst (emit_order_executed buf l 0 0 ref n m))"
  using order_executed_round_trip [OF buf_room _ refl, of 0 l 0 ref n m]
  by (simp_all add: mk_apply_def msg_ok_def)

lemma emitted_replace:
  "mk_apply (fst (emit_order_replace buf l 0 0 orig ref n 1000)) M = mk_replace l orig ref 1000 n M"
  "msg_ok M (fst (emit_order_replace buf l 0 0 orig ref n 1000)) \<longleftrightarrow> ref \<notin> re_ref ` set M \<or> ref = orig"
  using order_replace_round_trip [OF buf_room _ _ refl, of 0 1000 l 0 orig ref n]
  by (simp_all add: mk_apply_def msg_ok_def is_i32_def)

lemmas emitted = emitted_add emitted_execute emitted_replace mk_add_def mk_reduce_def mk_remove_def
  mk_replace_def names_def side_B_def

lemma sample_ok: "feed_ok [] sample_feed"
  by (simp add: sample_feed_def emitted)

lemma sample_market: "fold mk_apply sample_feed [] = sample_market"
  by (simp add: sample_feed_def sample_market_def emitted)

lemma sample_represents: "represents (sample_set h) sample_market"
  using feed_refines [OF bookset_new_represents sample_ok, of 100 8 h 16 20 4 8]
  by (simp add: sample_set_def sample_market)

lemma sample_book:
  obtains b where "bs_books (sample_set h) 7 = Some b" "bk_locate b = 7" "good (bs_store (sample_set h), b)"
    "book_view (bs_store (sample_set h), b) = mview 7 sample_market"
proof (cases "bs_books (sample_set h) 7")
  case None
  then have "\<forall>e \<in> set sample_market. re_locate e \<noteq> 7"
    using representsD(6) [OF sample_represents None] by blast
  then show thesis by (simp add: sample_market_def)
next
  case (Some b)
  show thesis by (rule that [OF Some representsD(7-9) [OF sample_represents Some]])
qed

end
