(* ===== verification/Resting.thy ===== *)
theory Resting
  imports Feed
begin

text \<open>
  What the components that trade rely on the book for, as an interface. An order rests at a place (a
  side and a price) with a number of shares; a reference is bound when the shared reference table
  holds it. The laws say what adding, taking and removing do to the resting orders and to the bound
  references, and that an order rests at one place only. The engine is proved against the laws; the
  interpretation at the end discharges them for the book.
\<close>

section \<open>The interface\<close>

locale resting_book =
  fixes ok :: "'s \<Rightarrow> bool"
    and rests :: "'s \<Rightarrow> u64 \<Rightarrow> bool \<Rightarrow> int \<Rightarrow> u32 \<Rightarrow> bool"
    and bound :: "'s \<Rightarrow> u64 \<Rightarrow> bool"
    and resting :: "'s \<Rightarrow> nat"
    and add :: "u64 \<Rightarrow> bool \<Rightarrow> int \<Rightarrow> u32 \<Rightarrow> 's \<Rightarrow> 's"
    and take :: "u64 \<Rightarrow> u32 \<Rightarrow> 's \<Rightarrow> 's"
    and remove :: "u64 \<Rightarrow> 's \<Rightarrow> 's"
  assumes one_place: "ok s \<Longrightarrow> rests s r d p n \<Longrightarrow> rests s r d' p' n' \<Longrightarrow> d' = d \<and> p' = p \<and> n' = n"
    and rests_bound: "ok s \<Longrightarrow> rests s r d p n \<Longrightarrow> bound s r"
    and resting_card: "ok s \<Longrightarrow> finite {r. \<exists>d p n. rests s r d p n} \<and>
      resting s = card {r. \<exists>d p n. rests s r d p n} \<and> resting s < 2 ^ 32"
    and price_i32: "ok s \<Longrightarrow> rests s r d p n \<Longrightarrow> is_i32 p"
    and add_ok: "ok s \<Longrightarrow> \<not> bound s r \<Longrightarrow> is_i32 p \<Longrightarrow> 0 < p \<Longrightarrow> resting s + 1 < 2 ^ 32 \<Longrightarrow> ok (add r d p n s)"
    and add_rests: "ok s \<Longrightarrow> \<not> bound s r \<Longrightarrow> is_i32 p \<Longrightarrow> 0 < p \<Longrightarrow> resting s + 1 < 2 ^ 32 \<Longrightarrow>
      rests (add r d p n s) r' d' p' n' \<longleftrightarrow> rests s r' d' p' n' \<or> (r', d', p', n') = (r, d, p, n)"
    and add_bound: "ok s \<Longrightarrow> \<not> bound s r \<Longrightarrow> is_i32 p \<Longrightarrow> 0 < p \<Longrightarrow> resting s + 1 < 2 ^ 32 \<Longrightarrow>
      \<not> bound s r' \<Longrightarrow> r' \<noteq> r \<Longrightarrow> \<not> bound (add r d p n s) r'"
    and take_ok: "ok s \<Longrightarrow> ok (take r k s)"
    and take_rests: "ok s \<Longrightarrow> rests (take r k s) r' d p n \<longleftrightarrow>
      (if r' = r then \<exists>m. rests s r d p m \<and> k < m \<and> n = m - k else rests s r' d p n)"
    and take_bound: "ok s \<Longrightarrow> \<not> bound s r' \<Longrightarrow> \<not> bound (take r k s) r'"
    and take_unbound: "ok s \<Longrightarrow> rests s r d p m \<Longrightarrow> m \<le> k \<Longrightarrow> \<not> bound (take r k s) r"
    and remove_ok: "ok s \<Longrightarrow> ok (remove r s)"
    and remove_rests: "ok s \<Longrightarrow> rests (remove r s) r' d p n \<longleftrightarrow> r' \<noteq> r \<and> rests s r' d p n"
    and remove_bound: "ok s \<Longrightarrow> \<not> bound s r' \<Longrightarrow> \<not> bound (remove r s) r'"
    and remove_unbound: "ok s \<Longrightarrow> rests s r d p m \<Longrightarrow> \<not> bound (remove r s) r"
begin

lemma gone:
  assumes ok: "ok s" "ok s'" and r: "rests s r d p m"
    and s': "\<And>r' d p n. rests s' r' d p n \<longleftrightarrow> r' \<noteq> r \<and> rests s r' d p n"
  shows "resting s' + 1 = resting s"
proof -
  let ?R = "{r. \<exists>d p n. rests s r d p n}"
  have "{r. \<exists>d p n. rests s' r d p n} = ?R - {r}" using s' by auto
  moreover have "r \<in> ?R" using r by blast
  ultimately show ?thesis
    using resting_card [OF ok(1)] resting_card [OF ok(2)] card_Suc_Diff1 [of ?R r] by simp
qed

lemma take_all:
  assumes "ok s" "rests s r d p m" "m \<le> k"
  shows "resting (take r k s) + 1 = resting s"
    "rests (take r k s) r' d' p' n' \<longleftrightarrow> r' \<noteq> r \<and> rests s r' d' p' n'"
proof -
  show *: "rests (take r k s) r' d' p' n' \<longleftrightarrow> r' \<noteq> r \<and> rests s r' d' p' n'" for r' d' p' n'
    using one_place [OF assms(1,2)] assms(3) by (auto simp: take_rests [OF assms(1)])
  show "resting (take r k s) + 1 = resting s"
    by (rule gone [OF assms(1) take_ok [OF assms(1)] assms(2) *])
qed

lemma take_part:
  assumes "ok s" "rests s r d p m" "k < m"
  shows "resting (take r k s) = resting s" "rests (take r k s) r d p (m - k)"
proof -
  have "rests (take r k s) r d p (m - k)" using assms(2,3) by (auto simp: take_rests [OF assms(1)])
  moreover have "(\<exists>d p n. rests (take r k s) r' d p n) \<longleftrightarrow> (\<exists>d p n. rests s r' d p n)" for r'
    using assms(2,3) by (cases "r' = r") (auto simp: take_rests [OF assms(1)])
  ultimately show "resting (take r k s) = resting s" "rests (take r k s) r d p (m - k)"
    using resting_card [OF assms(1)] resting_card [OF take_ok [OF assms(1)], of r k] by simp_all
qed

lemma take_other: "ok s \<Longrightarrow> r' \<noteq> r \<Longrightarrow> rests (take r k s) r' d p n \<longleftrightarrow> rests s r' d p n"
  by (simp add: take_rests)

lemma take_place: "ok s \<Longrightarrow> rests (take r k s) r' d p n \<Longrightarrow> \<exists>m. rests s r' d p m"
  by (auto simp: take_rests split: if_splits)

lemma remove_resting: "ok s \<Longrightarrow> rests s r d p m \<Longrightarrow> resting (remove r s) + 1 = resting s"
  by (rule gone [OF _ remove_ok]) (simp_all add: remove_rests)

lemma add_resting:
  assumes "ok s" "\<not> bound s r" "is_i32 p" "0 < p" "resting s + 1 < 2 ^ 32"
  shows "resting (add r d p n s) = resting s + 1"
proof -
  let ?R = "{r. \<exists>d p n. rests s r d p n}"
  have "{r'. \<exists>d' p' n'. rests (add r d p n s) r' d' p' n'} = insert r ?R"
    by (auto simp: add_rests [OF assms])
  moreover have "r \<notin> ?R" using rests_bound [OF assms(1)] assms(2) by blast
  ultimately show ?thesis
    using resting_card [OF assms(1)] resting_card [OF add_ok [OF assms], of d n] by simp
qed

end

section \<open>The book provides it\<close>

definition rests :: "bstate \<Rightarrow> u64 \<Rightarrow> bool \<Rightarrow> int \<Rightarrow> u32 \<Rightarrow> bool" where
  "rests sb r d p n \<longleftrightarrow> (r, n) \<in> set (book_view sb d p)"

definition bound :: "bstate \<Rightarrow> u64 \<Rightarrow> bool" where
  "bound sb r \<longleftrightarrow> rm_find (st_refs (fst sb)) r \<noteq> None"

definition side_char :: "bool \<Rightarrow> u8" where
  "side_char d = (if d then side_B else side_S)"

lemma side_char_B [simp]: "side_char d = side_B \<longleftrightarrow> d"
  by (simp add: side_char_def side_B_def side_S_def)

lemma rests_order:
  assumes g: "good (st, b)" and r: "rests (st, b) ref d p n"
  obtains x where "bk_find ref (st, b) = Some x" "rm_find (st_refs st) ref = Some x"
    "(o_side (st_heap st x) = side_B) = d" "o_price (st_heap st x) = p" "o_shares (st_heap st x) = n" "is_i32 p"
proof -
  obtain Q where st: "store_ok st" and bk: "book_ok st b Q" using g by (auto simp: good_def)
  from r obtain x where x: "x \<in> set (Q d p)" "o_ref (st_heap st x) = ref" "o_shares (st_heap st x) = n"
    by (auto simp: rests_def book_view_ok [OF bk] view_of_def tag_def)
  then have "x \<in> all_of Q" unfolding all_of_def by blast
  then have "x \<in> mine st (bk_locate b)" using book_okD(2) [OF bk] by simp
  then have f: "rm_find (st_refs st) ref = Some x" "o_locate (st_heap st x) = bk_locate b"
    using live_find [OF st, of x] x(2) by (auto simp: mine_def)
  moreover have "(o_side (st_heap st x) = side_B) = d"
    by (rule pair_okD(2) [OF book_okD(1) [OF bk] x(1)])
  moreover have "o_price (st_heap st x) = p \<and> is_i32 p"
    by (rule pair_okD(6) [OF book_okD(1) [OF bk] x(1)])
  ultimately show thesis using that x(3) by (simp add: bk_find_def)
qed

lemma order_rests:
  assumes g: "good (st, b)" and x: "bk_find ref (st, b) = Some x"
  shows "rests (st, b) ref (o_side (st_heap st x) = side_B) (o_price (st_heap st x)) (o_shares (st_heap st x))"
proof -
  have f: "rm_find (st_refs st) ref = Some x" "o_locate (st_heap st x) = bk_locate b"
    using x by (auto simp: bk_find_def split: option.splits if_splits)
  from found_in_view [OF g f] obtain p n where
    r: "rests (st, b) ref (o_side (st_heap st x) = side_B) p n" by (auto simp: rests_def)
  from rests_order [OF g this] f(1) r show ?thesis by (metis option.inject)
qed

lemma find_iff_rests:
  assumes g: "good (st, b)"
  shows "bk_find ref (st, b) = None \<longleftrightarrow> \<not> (\<exists>d p n. rests (st, b) ref d p n)"
  using rests_order [OF g, of ref] order_rests [OF g, of ref] by (metis not_None_eq)

lemma refs_counted:
  assumes g: "good (st, b)"
  shows "finite {r. \<exists>d p n. rests (st, b) r d p n}"
    "bk_resting_orders b = card {r. \<exists>d p n. rests (st, b) r d p n}"
proof -
  obtain Q where st: "store_ok st" and bk: "book_ok st b Q" using g by (auto simp: good_def)
  let ?f = "\<lambda>x. o_ref (st_heap st x)" and ?M = "mine st (bk_locate b)"
  have img: "{r. \<exists>d p n. rests (st, b) r d p n} = ?f ` ?M"
  proof (intro set_eqI iffI)
    fix r assume "r \<in> {r. \<exists>d p n. rests (st, b) r d p n}"
    then obtain x where "bk_find r (st, b) = Some x" using rests_order [OF g, of r] by blast
    then have "rm_find (st_refs st) r = Some x" "o_locate (st_heap st x) = bk_locate b"
      by (auto simp: bk_find_def split: option.splits if_splits)
    then show "r \<in> ?f ` ?M" using store_okD(2) [OF st] by (force simp: mine_def live_def ran_def)
  next
    fix r assume "r \<in> ?f ` ?M"
    then obtain x where "x \<in> live st" "o_locate (st_heap st x) = bk_locate b" "r = ?f x" by (auto simp: mine_def)
    then have "bk_find r (st, b) = Some x" using live_find [OF st] by (simp add: bk_find_def)
    from order_rests [OF g this] show "r \<in> {r. \<exists>d p n. rests (st, b) r d p n}" by blast
  qed
  have inj: "inj_on ?f ?M"
    by (rule inj_onI) (metis (no_types, lifting) live_find [OF st] mem_Collect_eq mine_def option.inject)
  have fin: "finite ?M" by (rule finite_mine [OF st])
  show "finite {r. \<exists>d p n. rests (st, b) r d p n}" unfolding img using fin by blast
  show "bk_resting_orders b = card {r. \<exists>d p n. rests (st, b) r d p n}"
    unfolding img card_image [OF inj] using book_okD(2,4) [OF bk] by simp
qed

lemma refines_bound:
  assumes g: "good (st, b)" and r: "refines (st, b) (st', b') V" 
    and u: "\<And>x. rm_find (st_refs st) ref = Some x \<Longrightarrow> o_locate (st_heap st x) = bk_locate b"
    and V: "\<And>d p n. (ref, n) \<notin> set (V d p)"
  shows "rm_find (st_refs st') ref = None"
proof (rule ccontr)
  assume "rm_find (st_refs st') ref \<noteq> None"
  then obtain x where x: "rm_find (st_refs st') ref = Some x" by blast
  have g': "good (st', b')" and l: "bk_locate b' = bk_locate b" and fr: "frame (bk_locate b) st st'"
    and v: "book_view (st', b') = V" using r by (simp_all add: refines_def)
  have st: "store_ok st" "store_ok st'" using g g' by (auto simp: good_def)
  show False
  proof (cases "o_locate (st_heap st' x) = bk_locate b'")
    case True
    then show False using found_in_view [OF g' x True] V v by auto
  next
    case False
    have m: "x \<in> mine st' (o_locate (st_heap st' x))" using x by (auto simp: mine_def live_def ran_def)
    then have "x \<in> mine st (o_locate (st_heap st' x))" "st_heap st' x = st_heap st x"
      using fr False l by (auto simp: frame_def)
    then have "rm_find (st_refs st) (o_ref (st_heap st' x)) = Some x"
      using live_find [OF st(1), of x] by (simp add: mine_def)
    then have "rm_find (st_refs st) ref = Some x"
      using store_okD(2) [OF st(2) x] \<open>st_heap st' x = st_heap st x\<close> by simp
    from u [OF this] show False using False l \<open>st_heap st' x = st_heap st x\<close> by simp
  qed
qed

lemma refines_unbound:
  assumes g: "good (st, b)" and r: "refines (st, b) sb' V"
    and u: "\<not> bound (st, b) ref \<or> (\<exists>d p n. rests (st, b) ref d p n)" and V: "\<And>d p n. (ref, n) \<notin> set (V d p)"
  shows "\<not> bound sb' ref"
proof -
  obtain st' b' where e: "sb' = (st', b')" by (meson surj_pair)
  have "o_locate (st_heap st x) = bk_locate b" if x: "rm_find (st_refs st) ref = Some x" for x
  proof -
    obtain d p n where "rests (st, b) ref d p n" using u x by (auto simp: bound_def)
    from rests_order [OF g this] obtain y where "bk_find ref (st, b) = Some y" by metis
    with x show ?thesis by (auto simp: bk_find_def split: if_splits)
  qed
  from refines_bound [OF g r [unfolded e] this V] show ?thesis by (simp add: e bound_def)
qed

lemma rests_unbound: "good (st, b) \<Longrightarrow> \<not> bound (st, b) r \<Longrightarrow> (r, n) \<notin> set (book_view (st, b) d p)"
  using rests_order [of st b r d p n] by (auto simp: bound_def rests_def)

lemma reduce_mem: "(r', n) \<in> set (a_reduce r k q) \<longleftrightarrow>
   (if r' = r then \<exists>m. (r, m) \<in> set q \<and> k < m \<and> n = m - k else (r', n) \<in> set q)"
  by (auto simp: a_reduce_def not_le split: if_splits)

lemma take_laws:
  assumes g: "good (st, b)"
  shows "good (bk_take r k (st, b))"
    "rests (bk_take r k (st, b)) r' d p n \<longleftrightarrow>
      (if r' = r then \<exists>m. rests (st, b) r d p m \<and> k < m \<and> n = m - k else rests (st, b) r' d p n)"
    "\<not> bound (st, b) r' \<Longrightarrow> \<not> bound (bk_take r k (st, b)) r'"
    "rests (st, b) r d p m \<Longrightarrow> m \<le> k \<Longrightarrow> \<not> bound (bk_take r k (st, b)) r"
proof -
  note R = take_refines [OF g, of r k]
  show "good (bk_take r k (st, b))" using R by (simp add: refines_def)
  show "rests (bk_take r k (st, b)) r' d p n \<longleftrightarrow>
      (if r' = r then \<exists>m. rests (st, b) r d p m \<and> k < m \<and> n = m - k else rests (st, b) r' d p n)"
    using R by (simp add: refines_def rests_def reduce_mem)
  show "\<not> bound (bk_take r k (st, b)) r'" if u: "\<not> bound (st, b) r'"
    by (rule refines_unbound [OF g R disjI1 [OF u]]) (use rests_unbound [OF g u] in \<open>auto simp: reduce_mem\<close>)
  show "\<not> bound (bk_take r k (st, b)) r" if m: "rests (st, b) r d p m" "m \<le> k"
  proof (rule refines_unbound [OF g R])
    show "\<not> bound (st, b) r \<or> (\<exists>d p n. rests (st, b) r d p n)" using m by blast
    fix d' p' n
    have "m' = m" if "(r, m') \<in> set (book_view (st, b) d' p')" for m'
      using rests_order [OF g, of r d' p' m'] rests_order [OF g m(1)] that by (metis option.inject rests_def)
    then show "(r, n) \<notin> set (a_reduce r k (book_view (st, b) d' p'))" using m(2) by (auto simp: reduce_mem)
  qed
qed

lemma remove_laws:
  assumes g: "good (st, b)"
  shows "good (bk_remove r (st, b))"
    "rests (bk_remove r (st, b)) r' d p n \<longleftrightarrow> r' \<noteq> r \<and> rests (st, b) r' d p n"
    "\<not> bound (st, b) r' \<Longrightarrow> \<not> bound (bk_remove r (st, b)) r'"
    "rests (st, b) r d p m \<Longrightarrow> \<not> bound (bk_remove r (st, b)) r"
proof -
  note R = remove_refines [OF g, of r]
  show "good (bk_remove r (st, b))" using R by (simp add: refines_def)
  show "rests (bk_remove r (st, b)) r' d p n \<longleftrightarrow> r' \<noteq> r \<and> rests (st, b) r' d p n"
    using R by (auto simp: refines_def rests_def a_remove_def)
  show "\<not> bound (bk_remove r (st, b)) r'" if u: "\<not> bound (st, b) r'"
    by (rule refines_unbound [OF g R disjI1 [OF u]]) (use rests_unbound [OF g u] in \<open>auto simp: a_remove_def\<close>)
  show "\<not> bound (bk_remove r (st, b)) r" if "rests (st, b) r d p m"
    by (rule refines_unbound [OF g R]) (use that in \<open>auto simp: a_remove_def\<close>)
qed

lemma add_laws:
  assumes g: "good (st, b)" and u: "\<not> bound (st, b) r" and p: "is_i32 p" "0 < p"
    and room: "bk_resting_orders b + 1 < 2 ^ 32"
  shows "good (bk_add r (side_char d) p n (st, b))"
    "rests (bk_add r (side_char d) p n (st, b)) r' d' p' n' \<longleftrightarrow>
      rests (st, b) r' d' p' n' \<or> (r', d', p', n') = (r, d, p, n)"
    "\<not> bound (st, b) r' \<Longrightarrow> r' \<noteq> r \<Longrightarrow> \<not> bound (bk_add r (side_char d) p n (st, b)) r'"
proof -
  have "rm_find (st_refs st) r = None" using u by (simp add: bound_def)
  note R = add_refines [OF g this p room, of "side_char d" n]
  show "good (bk_add r (side_char d) p n (st, b))" using R by (simp add: refines_def)
  show "rests (bk_add r (side_char d) p n (st, b)) r' d' p' n' \<longleftrightarrow>
      rests (st, b) r' d' p' n' \<or> (r', d', p', n') = (r, d, p, n)"
    using R by (auto simp: refines_def rests_def a_add_def)
  show "\<not> bound (bk_add r (side_char d) p n (st, b)) r'" if "\<not> bound (st, b) r'" "r' \<noteq> r"
    by (rule refines_unbound [OF g R disjI1 [OF that(1)]])
      (use rests_unbound [OF g that(1)] that(2) in \<open>auto simp: a_add_def\<close>)
qed

interpretation bk: resting_book good rests bound "\<lambda>sb. bk_resting_orders (snd sb)"
  "\<lambda>r d. bk_add r (side_char d)" bk_take bk_remove
proof unfold_locales
  fix sb :: bstate
  obtain st b where sb: "sb = (st, b)" by (meson surj_pair)
  assume g0: "good sb"
  then have g: "good (st, b)" by (simp add: sb)
  show "d' = d \<and> p' = p \<and> n' = n" if "rests sb r d p n" "rests sb r d' p' n'" for r d p n d' p' n'
    using rests_order [OF g, of r d p n] rests_order [OF g, of r d' p' n'] that unfolding sb by (metis option.inject)
  show "bound sb r" if "rests sb r d p n" for r d p n
    using rests_unbound [OF g] that by (auto simp: sb rests_def)
  show "finite {r. \<exists>d p n. rests sb r d p n} \<and> bk_resting_orders (snd sb) = card {r. \<exists>d p n. rests sb r d p n} \<and>
      bk_resting_orders (snd sb) < 2 ^ 32"
    using refs_counted [OF g] g by (auto simp: sb good_def dest: book_okD(6))
  show "is_i32 p" if "rests sb r d p n" for r d p n
    using rests_order [OF g, of r d p n] that by (auto simp: sb)
  show "good (bk_take r k sb)" "good (bk_remove r sb)" for r k
    using take_laws(1) [OF g] remove_laws(1) [OF g] by (simp_all add: sb)
  show "rests (bk_take r k sb) r' d p n \<longleftrightarrow>
      (if r' = r then \<exists>m. rests sb r d p m \<and> k < m \<and> n = m - k else rests sb r' d p n)" for r k r' d p n
    unfolding sb by (rule take_laws(2) [OF g])
  show "rests (bk_remove r sb) r' d p n \<longleftrightarrow> r' \<noteq> r \<and> rests sb r' d p n" for r r' d p n
    unfolding sb by (rule remove_laws(2) [OF g])
  show "\<not> bound (bk_take r k sb) r'" "\<not> bound (bk_remove r sb) r'" if "\<not> bound sb r'" for r k r'
    using take_laws(3) [OF g] remove_laws(3) [OF g] that by (simp_all add: sb)
  show "\<not> bound (bk_take r k sb) r" if "rests sb r d p m" "m \<le> k" for r d p m k
    using take_laws(4) [OF g] that by (simp add: sb)
  show "\<not> bound (bk_remove r sb) r" if "rests sb r d p m" for r d p m
    using remove_laws(4) [OF g] that by (simp add: sb)
  fix r p assume a: "\<not> bound sb r" "is_i32 p" "0 < p" "bk_resting_orders (snd sb) + 1 < 2 ^ 32"
  then have a': "\<not> bound (st, b) r" "bk_resting_orders b + 1 < 2 ^ 32" by (simp_all add: sb)
  note A = add_laws [OF g a'(1) a(2,3) a'(2)]
  show "good (bk_add r (side_char d) p n sb)" for d n using A(1) by (simp add: sb)
  show "rests (bk_add r (side_char d) p n sb) r' d' p' n' \<longleftrightarrow>
      rests sb r' d' p' n' \<or> (r', d', p', n') = (r, d, p, n)" for d n r' d' p' n'
    unfolding sb by (rule A(2))
  show "\<not> bound (bk_add r (side_char d) p n sb) r'" if "\<not> bound sb r'" "r' \<noteq> r" for d n r'
    using A(3) that by (simp add: sb)
qed

text \<open>The order at the front of a side, which the engine trades with.\<close>

lemma front_rests:
  assumes g: "good (st, b)"
  shows "best_order (side_char d) b = None \<longleftrightarrow> \<not> (\<exists>r p n. rests (st, b) r d p n)"
    "best_order (side_char d) b = Some x \<Longrightarrow>
      rests (st, b) (o_ref (st_heap st x)) d (o_price (st_heap st x)) (o_shares (st_heap st x)) \<and>
      (\<forall>r p n. rests (st, b) r d p n \<longrightarrow> (if d then p \<le> o_price (st_heap st x) else o_price (st_heap st x) \<le> p))"
proof -
  have best: "best (the_side d b) = None \<longleftrightarrow> \<not> (\<exists>r p n. rests (st, b) r d p n)"
    unfolding best_side_ok(2) [OF g] rests_def by (metis list.set_intros(1) list.exhaust empty_iff list.set(1) surj_pair)
  have at: "\<exists>x. best_order (side_char d) b = Some x \<and> o_price (st_heap st x) = p \<and>
      tag (st_heap st) x = hd (book_view (st, b) d p)" if "best (the_side d b) = Some p" for p
    using best_order_ok [OF g, of "side_char d"] that by simp
  show "best_order (side_char d) b = None \<longleftrightarrow> \<not> (\<exists>r p n. rests (st, b) r d p n)"
    using at best by (cases "best (the_side d b)") (auto simp: best_order_def best_level_def side_for_the_side)
  assume x: "best_order (side_char d) b = Some x"
  then obtain p where p: "best (the_side d b) = Some p"
    by (cases "best (the_side d b)") (auto simp: best_order_def best_level_def side_for_the_side)
  note S = best_side_ok(1) [OF g, THEN iffD1, OF p]
  have px: "o_price (st_heap st x) = p" and "tag (st_heap st) x = hd (book_view (st, b) d p)" using at [OF p] x by auto
  then have "tag (st_heap st) x \<in> set (book_view (st, b) d p)" using S hd_in_set by simp
  then have r: "rests (st, b) (o_ref (st_heap st x)) d (o_price (st_heap st x)) (o_shares (st_heap st x))"
    unfolding rests_def tag_def px .
  moreover have "if d then q \<le> o_price (st_heap st x) else o_price (st_heap st x) \<le> q"
    if "rests (st, b) r' d q n" for r' q n
  proof -
    have "book_view (st, b) d q \<noteq> []" using that by (auto simp: rests_def)
    then show ?thesis using S unfolding px by blast
  qed
  ultimately show "rests (st, b) (o_ref (st_heap st x)) d (o_price (st_heap st x)) (o_shares (st_heap st x)) \<and>
      (\<forall>r p n. rests (st, b) r d p n \<longrightarrow> (if d then p \<le> o_price (st_heap st x) else o_price (st_heap st x) \<le> p))"
    by blast
qed

end
