(* ===== verification/OrderTypes.thy ===== *)
theory OrderTypes
  imports Prelude
begin

text \<open>
  What an order of the engine is and what may happen to it
  (include/itchbook/engine/order_types.hpp).
\<close>

datatype eside = Buy | Sell

fun opposite :: "eside \<Rightarrow> eside" where
  "opposite Buy = Sell"
| "opposite Sell = Buy"

fun to_char :: "eside \<Rightarrow> u8" where
  "to_char Buy = 66"
| "to_char Sell = 83"

datatype otype = Limit | Market | IOC | FOK | StopMarket | StopLimit

definition is_stop :: "otype \<Rightarrow> bool" where
  "is_stop t \<longleftrightarrow> t = StopMarket \<or> t = StopLimit"

definition can_rest :: "otype \<Rightarrow> bool" where
  "can_rest t \<longleftrightarrow> t = Limit"

datatype ostate = New | Accepted | PartiallyFilled | Filled | Cancelled | Rejected

definition is_terminal :: "ostate \<Rightarrow> bool" where
  "is_terminal s \<longleftrightarrow> s = Filled \<or> s = Cancelled \<or> s = Rejected"

definition legal_transition :: "ostate \<Rightarrow> ostate \<Rightarrow> bool" where
  "legal_transition frm dest \<longleftrightarrow>
     (if is_terminal frm then False
      else case frm of
        New \<Rightarrow> dest = Accepted \<or> dest = PartiallyFilled \<or> dest = Filled \<or> dest = Cancelled \<or> dest = Rejected
      | Accepted \<Rightarrow> dest = PartiallyFilled \<or> dest = Filled \<or> dest = Cancelled
      | PartiallyFilled \<Rightarrow> dest = PartiallyFilled \<or> dest = Filled \<or> dest = Cancelled
      | _ \<Rightarrow> False)"

fun state_name :: "ostate \<Rightarrow> string" where
  "state_name New = ''New''"
| "state_name Accepted = ''Accepted''"
| "state_name PartiallyFilled = ''PartiallyFilled''"
| "state_name Filled = ''Filled''"
| "state_name Cancelled = ''Cancelled''"
| "state_name Rejected = ''Rejected''"

datatype stp = StpNone | CancelNewest | CancelOldest | CancelBoth

datatype reject = NoReject | ZeroQuantity | InvalidPrice | DisplayTooLarge | FokUnfillable | NoLiquidity
  | DuplicateId | UnknownOrder

fun reject_name :: "reject \<Rightarrow> string" where
  "reject_name NoReject = ''None''"
| "reject_name ZeroQuantity = ''ZeroQuantity''"
| "reject_name InvalidPrice = ''InvalidPrice''"
| "reject_name DisplayTooLarge = ''DisplayTooLarge''"
| "reject_name FokUnfillable = ''FokUnfillable''"
| "reject_name NoLiquidity = ''NoLiquidity''"
| "reject_name DuplicateId = ''DuplicateId''"
| "reject_name UnknownOrder = ''UnknownOrder''"

record request =
  rq_id :: u64
  rq_owner :: u64
  rq_side :: eside
  rq_type :: otype
  rq_price :: int
  rq_stop_price :: int
  rq_quantity :: u32
  rq_display :: u32
  rq_stp :: stp

definition request_new :: request where
  "request_new = \<lparr> rq_id = 0, rq_owner = 0, rq_side = Buy, rq_type = Limit, rq_price = 0, rq_stop_price = 0,
     rq_quantity = 0, rq_display = 0, rq_stp = StpNone \<rparr>"

record fill =
  fl_taker :: u64
  fl_maker :: u64
  fl_taker_owner :: u64
  fl_maker_owner :: u64
  fl_price :: int
  fl_shares :: u32
  fl_maker_sequence :: u64
  fl_match_number :: u64
  fl_external :: bool

record result =
  rs_state :: ostate
  rs_reject :: reject
  rs_filled :: u32
  rs_resting :: u32
  rs_cancelled :: u32
  rs_first_fill :: nat
  rs_fill_count :: nat
  rs_triggered_stops :: bool

definition result_new :: result where
  "result_new = \<lparr> rs_state = New, rs_reject = NoReject, rs_filled = 0, rs_resting = 0, rs_cancelled = 0,
     rs_first_fill = 0, rs_fill_count = 0, rs_triggered_stops = False \<rparr>"

definition rs_accepted :: "result \<Rightarrow> bool" where
  "rs_accepted r \<longleftrightarrow> rs_reject r = NoReject"

lemma legal_transition_simps [simp]:
  "legal_transition New s \<longleftrightarrow> s \<noteq> New"
  "legal_transition Accepted s \<longleftrightarrow> s \<in> {PartiallyFilled, Filled, Cancelled}"
  "legal_transition PartiallyFilled s \<longleftrightarrow> s \<in> {PartiallyFilled, Filled, Cancelled}"
  "is_terminal s \<Longrightarrow> \<not> legal_transition s s'"
  by (cases s; auto simp: legal_transition_def is_terminal_def)+

lemma is_terminal_simps [simp]:
  "\<not> is_terminal New" "\<not> is_terminal Accepted" "\<not> is_terminal PartiallyFilled"
  "is_terminal Filled" "is_terminal Cancelled" "is_terminal Rejected"
  by (simp_all add: is_terminal_def)

end
