(* ===== verification/Matcher.thy ===== *)
theory Matcher
  imports Resting OrderTypes "HOL-Library.Monad_Syntax"
begin

text \<open>
  The matching engine (class \<open>Matcher\<close> of include/itchbook/engine/matcher.hpp): order types, iceberg
  refresh, self-trade prevention, stops, fills by somebody else, and the share accounting.

  The book is the model of book.hpp; it may be shared with a feed replayer, whose orders the engine
  does not know. A reference to a \<open>Meta\<close> is the id under which it is stored. An assertion of
  \<open>transition\<close> that would stop the program clears \<open>mt_asserted\<close>. A loop of the code that might not end
  is a partial function, \<open>None\<close> when it does not.
\<close>

section \<open>State\<close>

record meta =
  m_req :: request
  m_state :: ostate
  m_filled :: u32
  m_cancelled :: u32
  m_resting :: u32
  m_hidden :: u32
  m_sequence :: u64
  m_in_book :: bool
  m_entered :: bool

definition meta_new :: meta where
  "meta_new = \<lparr> m_req = request_new, m_state = New, m_filled = 0, m_cancelled = 0, m_resting = 0, m_hidden = 0,
     m_sequence = 0, m_in_book = False, m_entered = False \<rparr>"

record matcher =
  mt_book :: bstate
  mt_orders :: "(u64, meta) omap"
  mt_fills :: "fill list"
  mt_pending_stops :: "u64 list"
  mt_seq :: u64
  mt_match_no :: u64
  mt_submitted :: u64
  mt_filled_total :: u64
  mt_external_filled :: u64
  mt_cancelled_total :: u64
  mt_last_trade :: int
  mt_has_last_trade :: bool
  mt_asserted :: bool

definition matcher_on :: "bstate \<Rightarrow> matcher" where
  "matcher_on sb = \<lparr> mt_book = sb, mt_orders = [], mt_fills = [], mt_pending_stops = [], mt_seq = 0, mt_match_no = 0,
     mt_submitted = 0, mt_filled_total = 0, mt_external_filled = 0, mt_cancelled_total = 0, mt_last_trade = 0,
     mt_has_last_trade = False, mt_asserted = True \<rparr>"

definition meta_of :: "matcher \<Rightarrow> u64 \<Rightarrow> meta" where
  "meta_of s i = (case om_get i (mt_orders s) of None \<Rightarrow> meta_new | Some m \<Rightarrow> m)"

definition upd_meta :: "u64 \<Rightarrow> (meta \<Rightarrow> meta) \<Rightarrow> matcher \<Rightarrow> matcher" where
  "upd_meta i f s = s\<lparr> mt_orders := om_set i (f (meta_of s i)) (mt_orders s) \<rparr>"

definition transition :: "u64 \<Rightarrow> ostate \<Rightarrow> matcher \<Rightarrow> matcher" where
  "transition i dest s =
     upd_meta i (\<lambda>m. m\<lparr> m_state := dest \<rparr>)
       (s\<lparr> mt_asserted := mt_asserted s \<and> legal_transition (m_state (meta_of s i)) dest \<rparr>)"

section \<open>Queries\<close>

definition volume_traded :: "matcher \<Rightarrow> u64" where
  "volume_traded s = (mt_filled_total s - mt_external_filled s) div 2 + mt_external_filled s"

definition shares_resting :: "matcher \<Rightarrow> u64" where
  "shares_resting s = (\<Sum>(i, m) \<leftarrow> mt_orders s. ucast (m_resting m + m_hidden m))"

definition agrees_with_book :: "matcher \<Rightarrow> bool" where
  "agrees_with_book s \<longleftrightarrow>
     (\<forall>(i, m) \<in> set (mt_orders s).
        case bk_find i (mt_book s) of
          Some x \<Rightarrow> m_in_book m \<and> o_shares (st_heap (fst (mt_book s)) x) = m_resting m
        | None \<Rightarrow> \<not> m_in_book m)"

definition conserves_shares :: "matcher \<Rightarrow> bool" where
  "conserves_shares s \<longleftrightarrow>
     (\<forall>(i, m) \<in> set (mt_orders s).
        if \<not> m_entered m then m_filled m = 0 \<and> m_cancelled m = 0 \<and> m_resting m = 0 \<and> m_hidden m = 0
        else m_filled m + m_cancelled m + m_resting m + m_hidden m = rq_quantity (m_req m)) \<and>
     (let entered = filter m_entered (map snd (mt_orders s));
          filled = (\<Sum>m \<leftarrow> entered. ucast (m_filled m));
          cancelled = (\<Sum>m \<leftarrow> entered. ucast (m_cancelled m));
          resting = (\<Sum>m \<leftarrow> entered. ucast (m_resting m + m_hidden m))
      in mt_submitted s = filled + cancelled + resting \<and>
         filled = mt_filled_total s \<and> cancelled = mt_cancelled_total s)"

section \<open>Validation\<close>

definition validate :: "request \<Rightarrow> matcher \<Rightarrow> reject" where
  "validate req s =
     (if om_get (rq_id req) (mt_orders s) \<noteq> None then DuplicateId
      else if rq_quantity req = 0 then ZeroQuantity
      else if rq_display req > rq_quantity req then DisplayTooLarge
      else if rq_type req \<noteq> Market \<and> rq_type req \<noteq> StopMarket \<and> rq_price req \<le> 0 then InvalidPrice
      else if is_stop (rq_type req) \<and> rq_stop_price req \<le> 0 then InvalidPrice
      else NoReject)"

definition effective_type :: "otype \<Rightarrow> otype" where
  "effective_type t = (if t = StopMarket then Market else Limit)"

definition stop_is_triggered :: "request \<Rightarrow> matcher \<Rightarrow> bool" where
  "stop_is_triggered req s \<longleftrightarrow>
     mt_has_last_trade s \<and>
     (if rq_side req = Buy then mt_last_trade s \<ge> rq_stop_price req else mt_last_trade s \<le> rq_stop_price req)"

section \<open>Matching\<close>

definition crosses :: "request \<Rightarrow> otype \<Rightarrow> int \<Rightarrow> bool" where
  "crosses req t resting_price \<longleftrightarrow>
     (if t = Market then True
      else if rq_side req = Buy then rq_price req \<ge> resting_price else rq_price req \<le> resting_price)"

definition has_liquidity :: "request \<Rightarrow> matcher \<Rightarrow> bool" where
  "has_liquidity req s \<longleftrightarrow> best_order (to_char (opposite (rq_side req))) (snd (mt_book s)) \<noteq> None"

fun available_loop :: "request \<Rightarrow> otype \<Rightarrow> level_view list \<Rightarrow> u32 \<Rightarrow> u32" where
  "available_loop req t [] acc = acc"
| "available_loop req t (lv # levels) acc =
     (if \<not> crosses req t (lw_price lv) then acc
      else let acc = acc + ucast (lw_shares lv)
           in if acc \<ge> rq_quantity req then acc else available_loop req t levels acc)"

definition available :: "request \<Rightarrow> otype \<Rightarrow> matcher \<Rightarrow> u32" where
  "available req t s = available_loop req t (bk_top (to_char (opposite (rq_side req))) 64 (snd (mt_book s))) 0"

definition book_add :: "request \<Rightarrow> u32 \<Rightarrow> matcher \<Rightarrow> matcher" where
  "book_add req shares s =
     s\<lparr> mt_book := bk_add (rq_id req) (to_char (rq_side req)) (rq_price req) shares (mt_book s) \<rparr>"

definition refresh_iceberg :: "u64 \<Rightarrow> matcher \<Rightarrow> matcher" where
  "refresh_iceberg i s =
     (let m = meta_of s i;
          slice = (if m_hidden m < rq_display (m_req m) then m_hidden m else rq_display (m_req m));
          s = s\<lparr> mt_seq := mt_seq s + 1 \<rparr>;
          s = upd_meta i (\<lambda>m. m\<lparr> m_hidden := m_hidden m - slice, m_resting := slice, m_sequence := mt_seq s \<rparr>) s;
          s = book_add (m_req m) slice s;
          s = upd_meta i (\<lambda>m. m\<lparr> m_in_book := True \<rparr>) s
      in transition i PartiallyFilled s)"

definition rest_order :: "u64 \<Rightarrow> u32 \<Rightarrow> matcher \<Rightarrow> matcher" where
  "rest_order i remaining s =
     (let req = m_req (meta_of s i);
          slice = (if rq_display req > 0 \<and> rq_display req < remaining then rq_display req else remaining);
          s = upd_meta i (\<lambda>m. m\<lparr> m_resting := slice, m_hidden := remaining - slice \<rparr>) s;
          s = book_add req slice s
      in upd_meta i (\<lambda>m. m\<lparr> m_in_book := True \<rparr>) s)"

definition cancel_meta :: "u64 \<Rightarrow> matcher \<Rightarrow> matcher" where
  "cancel_meta i s =
     (let m = meta_of s i;
          gone = m_resting m + m_hidden m;
          s = (if m_in_book m
               then upd_meta i (\<lambda>m. m\<lparr> m_in_book := False \<rparr>) (s\<lparr> mt_book := bk_remove (rq_id (m_req m)) (mt_book s) \<rparr>)
               else s);
          s = upd_meta i (\<lambda>m. m\<lparr> m_resting := 0, m_hidden := 0, m_cancelled := m_cancelled m + gone \<rparr>) s;
          s = s\<lparr> mt_cancelled_total := mt_cancelled_total s + ucast gone,
                 mt_pending_stops := remove1 (rq_id (m_req m)) (mt_pending_stops s) \<rparr>
      in transition i Cancelled s)"

definition note_trade :: "fill \<Rightarrow> matcher \<Rightarrow> matcher" where
  "note_trade f s = s\<lparr> mt_fills := mt_fills s @ [f], mt_last_trade := fl_price f, mt_has_last_trade := True \<rparr>"

text \<open>What happens to the maker once its displayed shares have been reduced.\<close>

definition settle_maker :: "u64 \<Rightarrow> matcher \<Rightarrow> matcher" where
  "settle_maker i s =
     (if m_resting (meta_of s i) = 0 then
        (let s = upd_meta i (\<lambda>m. m\<lparr> m_in_book := False \<rparr>) s
         in if m_hidden (meta_of s i) > 0 then refresh_iceberg i s else transition i Filled s)
      else transition i PartiallyFilled s)"

text \<open>One round of the loop of \<open>match\<close>: \<open>Inl\<close> leaves it with what remains and whether self-trade
  prevention killed the taker, \<open>Inr\<close> goes round again.\<close>

definition match_step :: "u64 \<Rightarrow> otype \<Rightarrow> u32 \<times> matcher \<Rightarrow> (u32 \<times> bool \<times> matcher) + (u32 \<times> matcher)" where
  "match_step tid t rs =
     (let (remaining, s) = rs; taker = m_req (meta_of s tid) in
      if remaining = 0 then Inl (remaining, False, s)
      else case best_order (to_char (opposite (rq_side taker))) (snd (mt_book s)) of
        None \<Rightarrow> Inl (remaining, False, s)
      | Some x \<Rightarrow>
          (let front = st_heap (fst (mt_book s)) x;
               maker_id = o_ref front;
               price = o_price front;
               qty = (if remaining < o_shares front then remaining else o_shares front) in
           if \<not> crosses taker t price then Inl (remaining, False, s)
           else case om_get maker_id (mt_orders s) of
             None \<Rightarrow>
               (let s = s\<lparr> mt_book := bk_take maker_id qty (mt_book s) \<rparr>;
                    s = upd_meta tid (\<lambda>m. m\<lparr> m_filled := m_filled m + qty \<rparr>) s;
                    s = s\<lparr> mt_filled_total := mt_filled_total s + ucast qty,
                           mt_external_filled := mt_external_filled s + ucast qty \<rparr>
                in Inr (remaining - qty, note_trade \<lparr> fl_taker = rq_id taker, fl_maker = maker_id,
                     fl_taker_owner = rq_owner taker, fl_maker_owner = 0, fl_price = price, fl_shares = qty,
                     fl_maker_sequence = 0, fl_match_number = mt_match_no s, fl_external = True \<rparr> s))
           | Some maker \<Rightarrow>
               if rq_stp taker = CancelNewest \<and> rq_owner (m_req maker) = rq_owner taker
               then Inl (remaining, True, s)
               else if rq_stp taker = CancelOldest \<and> rq_owner (m_req maker) = rq_owner taker
               then Inr (remaining, cancel_meta maker_id s)
               else if rq_stp taker = CancelBoth \<and> rq_owner (m_req maker) = rq_owner taker
               then Inl (remaining, True, cancel_meta maker_id s)
               else
                 (let s = s\<lparr> mt_book := bk_take maker_id qty (mt_book s) \<rparr>;
                      s = upd_meta maker_id (\<lambda>m. m\<lparr> m_resting := m_resting m - qty, m_filled := m_filled m + qty \<rparr>) s;
                      s = upd_meta tid (\<lambda>m. m\<lparr> m_filled := m_filled m + qty \<rparr>) s;
                      s = s\<lparr> mt_filled_total := mt_filled_total s + ucast (2 * qty) \<rparr>;
                      s = note_trade \<lparr> fl_taker = rq_id taker, fl_maker = maker_id, fl_taker_owner = rq_owner taker,
                            fl_maker_owner = rq_owner (m_req maker), fl_price = price, fl_shares = qty,
                            fl_maker_sequence = m_sequence maker, fl_match_number = mt_match_no s,
                            fl_external = False \<rparr> s
                  in Inr (remaining - qty, settle_maker maker_id s))))"

partial_function (option) match :: "u64 \<Rightarrow> otype \<Rightarrow> u32 \<times> matcher \<Rightarrow> (u32 \<times> bool \<times> matcher) option" where
  "match tid t rs = (case match_step tid t rs of Inl res \<Rightarrow> Some res | Inr rs' \<Rightarrow> match tid t rs')"

declare match.simps [code]

section \<open>Running an order, and the stops its trades elect\<close>

text \<open>What becomes of an order once it has matched all it can.\<close>

definition finish_order :: "u64 \<Rightarrow> result \<Rightarrow> otype \<Rightarrow> u32 \<Rightarrow> bool \<Rightarrow> matcher \<Rightarrow> result \<times> matcher" where
  "finish_order i r t remaining stp_killed s =
     (let r = r\<lparr> rs_filled := m_filled (meta_of s i), rs_fill_count := length (mt_fills s) - rs_first_fill r \<rparr>;
          (r, s) =
            (if remaining > 0 \<and> can_rest t \<and> \<not> stp_killed then
               (let s = rest_order i remaining s;
                    m = meta_of s i;
                    r = r\<lparr> rs_resting := m_resting m + m_hidden m \<rparr>;
                    want = (if m_filled m > 0 then PartiallyFilled else Accepted)
                in (r, if m_state m \<noteq> want then transition i want s else s))
             else if remaining > 0 then
               (let s = upd_meta i (\<lambda>m. m\<lparr> m_cancelled := m_cancelled m + remaining \<rparr>) s;
                    s = s\<lparr> mt_cancelled_total := mt_cancelled_total s + ucast remaining \<rparr>
                in (r\<lparr> rs_cancelled := remaining \<rparr>, transition i Cancelled s))
             else (r, transition i Filled s))
      in (r\<lparr> rs_state := m_state (meta_of s i) \<rparr>, s))"

text \<open>\<open>run\<close> up to the point where it fires stops; the flag says whether it gets there.\<close>

definition run_order :: "u64 \<Rightarrow> result \<Rightarrow> otype \<Rightarrow> matcher \<Rightarrow> (bool \<times> result \<times> matcher) option" where
  "run_order i r t s =
     (let m = meta_of s i;
          remaining = rq_quantity (m_req m);
          refused = (if m_state m = New then Rejected else Cancelled) in
      if t = FOK \<and> available (m_req m) t s < remaining
      then Some (False, r\<lparr> rs_state := refused, rs_reject := FokUnfillable \<rparr>, transition i refused s)
      else if t = Market \<and> \<not> has_liquidity (m_req m) s
      then Some (False, r\<lparr> rs_state := refused, rs_reject := NoLiquidity \<rparr>, transition i refused s)
      else
        let s = s\<lparr> mt_submitted := mt_submitted s + ucast (rq_quantity (m_req m)) \<rparr>;
            s = upd_meta i (\<lambda>m. m\<lparr> m_entered := True \<rparr>) s
        in do {
          (remaining, stp_killed, s) \<leftarrow> match i t (remaining, s);
          Some (True, finish_order i r t remaining stp_killed s)
        })"

text \<open>The scan of the parked stops for one that has triggered; those that are dead are dropped.\<close>

fun next_stop :: "matcher \<Rightarrow> u64 list \<Rightarrow> u64 list \<Rightarrow> u64 list \<times> u64 option" where
  "next_stop s kept [] = (kept, None)"
| "next_stop s kept (i # ids) =
     (case om_get i (mt_orders s) of
        None \<Rightarrow> next_stop s kept ids
      | Some m \<Rightarrow>
          if is_terminal (m_state m) then next_stop s kept ids
          else if \<not> stop_is_triggered (m_req m) s then next_stop s (kept @ [i]) ids
          else (kept @ ids, Some i))"

definition elect_stop :: "u64 \<Rightarrow> matcher \<Rightarrow> (bool \<times> result \<times> matcher) option" where
  "elect_stop i s =
     (let sub = result_new\<lparr> rs_first_fill := length (mt_fills s) \<rparr>;
          s = s\<lparr> mt_seq := mt_seq s + 1 \<rparr>;
          s = upd_meta i (\<lambda>m. m\<lparr> m_sequence := mt_seq s \<rparr>) s
      in run_order i sub (effective_type (rq_type (m_req (meta_of s i)))) s)"

partial_function (option) fire_stops :: "matcher \<Rightarrow> (bool \<times> matcher) option" where
  "fire_stops s =
     (case next_stop s [] (mt_pending_stops s) of
        (pending, None) \<Rightarrow> Some (False, s\<lparr> mt_pending_stops := pending \<rparr>)
      | (pending, Some i) \<Rightarrow>
          do {
            (ran, sub, s) \<leftarrow> elect_stop i (s\<lparr> mt_pending_stops := pending \<rparr>);
            (any, s) \<leftarrow> (if ran then fire_stops s else Some (False, s));
            (any, s) \<leftarrow> fire_stops s;
            Some (True, s)
          })"

text \<open>For evaluation: the recursion is unfolded only while a stop is parked.\<close>

lemma fire_stops_code [code]:
  "fire_stops s =
     (if mt_pending_stops s = [] then Some (False, s)
      else case next_stop s [] (mt_pending_stops s) of
        (pending, None) \<Rightarrow> Some (False, s\<lparr> mt_pending_stops := pending \<rparr>)
      | (pending, Some i) \<Rightarrow>
          do {
            (ran, sub, s) \<leftarrow> elect_stop i (s\<lparr> mt_pending_stops := pending \<rparr>);
            (any, s) \<leftarrow> (if ran then fire_stops s else Some (False, s));
            (any, s) \<leftarrow> fire_stops s;
            Some (True, s)
          })"
  by (cases s, subst fire_stops.simps) simp

definition run :: "u64 \<Rightarrow> result \<Rightarrow> otype \<Rightarrow> matcher \<Rightarrow> (result \<times> matcher) option" where
  "run i r t s =
     do {
       (ran, r, s) \<leftarrow> run_order i r t s;
       if ran then do {
         (any, s) \<leftarrow> fire_stops s;
         Some (r\<lparr> rs_triggered_stops := any \<rparr>, s)
       } else Some (r, s)
     }"

section \<open>The operations\<close>

definition submit :: "request \<Rightarrow> matcher \<Rightarrow> (result \<times> matcher) option" where
  "submit req s =
     (let r = result_new\<lparr> rs_first_fill := length (mt_fills s) \<rparr>;
          s = s\<lparr> mt_match_no := mt_match_no s + 1 \<rparr>;
          bad = validate req s in
      if bad \<noteq> NoReject then
        (let m = meta_new\<lparr> m_req := req, m_state := Rejected \<rparr>;
             s = (if om_get (rq_id req) (mt_orders s) = None
                  then s\<lparr> mt_orders := om_set (rq_id req) m (mt_orders s) \<rparr> else s)
         in Some (r\<lparr> rs_state := Rejected, rs_reject := bad \<rparr>, s))
      else
        let s = s\<lparr> mt_seq := mt_seq s + 1 \<rparr>;
            s = s\<lparr> mt_orders := om_set (rq_id req) (meta_new\<lparr> m_req := req, m_sequence := mt_seq s \<rparr>) (mt_orders s) \<rparr>
        in if is_stop (rq_type req) then
             if stop_is_triggered req s then run (rq_id req) r (effective_type (rq_type req)) s
             else
               let s = transition (rq_id req) Accepted s;
                   s = upd_meta (rq_id req) (\<lambda>m. m\<lparr> m_resting := 0 \<rparr>) s
               in Some (r\<lparr> rs_state := Accepted \<rparr>, s\<lparr> mt_pending_stops := mt_pending_stops s @ [rq_id req] \<rparr>)
           else run (rq_id req) r (rq_type req) s)"

definition cancel :: "u64 \<Rightarrow> matcher \<Rightarrow> bool \<times> matcher" where
  "cancel i s =
     (case om_get i (mt_orders s) of
        None \<Rightarrow> (False, s)
      | Some m \<Rightarrow> if is_terminal (m_state m) then (False, s) else (True, cancel_meta i s))"

definition apply_external_fill :: "u64 \<Rightarrow> u32 \<Rightarrow> int \<Rightarrow> u64 \<Rightarrow> matcher \<Rightarrow> u32 \<times> matcher" where
  "apply_external_fill i shares price match_number s =
     (if shares = 0 then (0, s)
      else case om_get i (mt_orders s) of
        None \<Rightarrow> (0, s)
      | Some m \<Rightarrow>
          if \<not> m_entered m \<or> is_terminal (m_state m) \<or> \<not> m_in_book m \<or> m_resting m = 0 then (0, s)
          else if bk_find i (mt_book s) = None then (0, s)
          else
            let qty = (if shares < m_resting m then shares else m_resting m);
                s = s\<lparr> mt_book := bk_take i qty (mt_book s) \<rparr>;
                s = upd_meta i (\<lambda>m. m\<lparr> m_resting := m_resting m - qty, m_filled := m_filled m + qty \<rparr>) s;
                s = s\<lparr> mt_filled_total := mt_filled_total s + ucast qty,
                       mt_external_filled := mt_external_filled s + ucast qty \<rparr>;
                s = note_trade \<lparr> fl_taker = 0, fl_maker = i, fl_taker_owner = 0, fl_maker_owner = rq_owner (m_req m),
                      fl_price = price, fl_shares = qty, fl_maker_sequence = m_sequence m,
                      fl_match_number = match_number, fl_external = True \<rparr> s
            in (qty, settle_maker i s))"

definition pump_stops :: "matcher \<Rightarrow> (bool \<times> matcher) option" where
  "pump_stops s = fire_stops s"

end
