(* ===== verification/MatcherOk.thy ===== *)
theory MatcherOk
  imports Matcher
begin

text \<open>
  The invariant of the engine and that every operation keeps it. For every order the engine knows, the
  shares filled, cancelled, resting and hidden add up to what was ordered; it is in the book exactly
  when its record says so, with the shares the record says, on its side and at its price; the totals
  are the sums of the records; and no assertion of the state machine has failed. While an order runs,
  the shares it has yet to place are in flight: \<open>fl i\<close> of them for the order \<open>i\<close>. The orders in \<open>X\<close> are
  exempt: a maker between the reduction of its slice and what follows from it.
\<close>

section \<open>Updating one order\<close>

lemma opposite_Buy [simp]: "opposite d = Buy \<longleftrightarrow> d \<noteq> Buy"
  by (cases d) simp_all

lemma to_char_side [simp]:
  "to_char d = side_char (d = Buy)"
  by (cases d) (simp_all add: side_char_def side_B_def side_S_def)

lemma upd_meta_fields [simp]:
  "mt_book (upd_meta i f s) = mt_book s" "mt_fills (upd_meta i f s) = mt_fills s"
  "mt_pending_stops (upd_meta i f s) = mt_pending_stops s" "mt_seq (upd_meta i f s) = mt_seq s"
  "mt_match_no (upd_meta i f s) = mt_match_no s" "mt_submitted (upd_meta i f s) = mt_submitted s"
  "mt_filled_total (upd_meta i f s) = mt_filled_total s"
  "mt_external_filled (upd_meta i f s) = mt_external_filled s"
  "mt_cancelled_total (upd_meta i f s) = mt_cancelled_total s" "mt_last_trade (upd_meta i f s) = mt_last_trade s"
  "mt_has_last_trade (upd_meta i f s) = mt_has_last_trade s" "mt_asserted (upd_meta i f s) = mt_asserted s"
  "mt_orders (upd_meta i f s) = om_set i (f (meta_of s i)) (mt_orders s)"
  by (simp_all add: upd_meta_def)

lemma om_set_set: "om_set k v (om_set k w m) = om_set k v m"
  by (induction k w m rule: om_set.induct) auto

lemma meta_of_known: "om_get i (mt_orders s) = Some m \<Longrightarrow> meta_of s i = m"
  by (simp add: meta_of_def)

lemma meta_of_set [simp]:
  "om_wf (mt_orders s) \<Longrightarrow> meta_of (upd_meta i f s) j = (if j = i then f (meta_of s i) else meta_of s j)"
  by (simp add: meta_of_def om_get_set)

lemma meta_of_cong: "mt_orders s' = mt_orders s \<Longrightarrow> meta_of s' i = meta_of s i"
  by (simp add: meta_of_def)

definition msum :: "(meta \<Rightarrow> u64) \<Rightarrow> (u64, meta) omap \<Rightarrow> u64" where
  "msum f xs = (\<Sum>(i, m) \<leftarrow> xs. f m)"

lemma om_sum_set:
  fixes f :: "'v \<Rightarrow> 'a::ab_group_add"
  shows "om_wf xs \<Longrightarrow> (\<Sum>(i, m) \<leftarrow> om_set k v xs. f m) =
    (\<Sum>(i, m) \<leftarrow> xs. f m) - (case om_get k xs of None \<Rightarrow> 0 | Some old \<Rightarrow> f old) + f v"
proof (induction k v xs rule: om_set.induct)
  case (2 k v a w m)
  have gt: "om_get k m = None" if "k \<le> a"
  proof (rule ccontr)
    assume "om_get k m \<noteq> None"
    then obtain y where "(k, y) \<in> set m" using "2.prems" om_get_mem by (metis not_None_eq om_wf_Cons)
    then show False using "2.prems" that by (auto simp: om_wf_Cons)
  qed
  have g: "om_get k ((a, w) # m) = (if k = a then Some w else om_get k m)" by (simp add: om_get_def)
  show ?case
  proof (cases "a < k")
    case True
    then show ?thesis using "2.IH" "2.prems" g by (auto simp: om_wf_Cons algebra_simps split: option.split)
  next
    case False
    then show ?thesis using gt g by (auto simp: algebra_simps)
  qed
qed (simp add: om_get_def)

lemma msum_set:
  "om_wf xs \<Longrightarrow> om_get k xs = Some old \<Longrightarrow> msum f (om_set k v xs) = msum f xs - f old + f v"
  "om_wf xs \<Longrightarrow> om_get k xs = None \<Longrightarrow> msum f (om_set k v xs) = msum f xs + f v"
  by (simp_all add: msum_def om_sum_set)

section \<open>The invariant\<close>

definition meta_ok :: "bstate \<Rightarrow> u64 \<Rightarrow> nat \<Rightarrow> meta \<Rightarrow> bool" where
  "meta_ok sb i k m \<longleftrightarrow>
     rq_id (m_req m) = i \<and> unat (rq_quantity (m_req m)) < 2 ^ 31 \<and>
     (if m_entered m
      then unat (m_filled m) + unat (m_cancelled m) + unat (m_resting m) + unat (m_hidden m) + k =
        unat (rq_quantity (m_req m))
      else k = 0 \<and> m_filled m = 0 \<and> m_cancelled m = 0 \<and> m_resting m = 0 \<and> m_hidden m = 0) \<and>
     (if m_in_book m
      then rests sb i (rq_side (m_req m) = Buy) (rq_price (m_req m)) (m_resting m) \<and> 0 < m_resting m \<and>
        m_entered m \<and> m_state m \<in> {Accepted, PartiallyFilled} \<and> 0 < rq_price (m_req m) \<and>
        (m_hidden m \<noteq> 0 \<longrightarrow> rq_display (m_req m) \<noteq> 0)
      else \<not> bound sb i \<and> m_resting m = 0 \<and> m_hidden m = 0)"

definition stop_parked :: "meta \<Rightarrow> bool" where
  "stop_parked m \<longleftrightarrow> m_state m = Accepted \<and> \<not> m_entered m \<and> \<not> m_in_book m \<and> is_stop (rq_type (m_req m)) \<and>
     is_i32 (rq_price (m_req m)) \<and> (rq_type (m_req m) = StopLimit \<longrightarrow> 0 < rq_price (m_req m))"

definition totals_ok :: "matcher \<Rightarrow> bool" where
  "totals_ok s \<longleftrightarrow>
     mt_submitted s = msum (\<lambda>m. if m_entered m then ucast (rq_quantity (m_req m)) else 0) (mt_orders s) \<and>
     mt_filled_total s = msum (\<lambda>m. ucast (m_filled m)) (mt_orders s) \<and>
     mt_cancelled_total s = msum (\<lambda>m. ucast (m_cancelled m)) (mt_orders s)"

definition engine_ok :: "u64 set \<Rightarrow> (u64 \<Rightarrow> nat) \<Rightarrow> matcher \<Rightarrow> bool" where
  "engine_ok X fl s \<longleftrightarrow>
     good (mt_book s) \<and> om_wf (mt_orders s) \<and> mt_asserted s \<and> totals_ok s \<and>
     (\<forall>i m. om_get i (mt_orders s) = Some m \<longrightarrow> i \<notin> X \<longrightarrow> meta_ok (mt_book s) i (fl i) m) \<and>
     distinct (mt_pending_stops s) \<and>
     (\<forall>i \<in> set (mt_pending_stops s). \<exists>m. om_get i (mt_orders s) = Some m \<and> stop_parked m)"

lemma engine_okD:
  assumes "engine_ok X fl s"
  shows "good (mt_book s)" "om_wf (mt_orders s)" "mt_asserted s" "totals_ok s" "distinct (mt_pending_stops s)"
    "om_get i (mt_orders s) = Some m \<Longrightarrow> i \<notin> X \<Longrightarrow> meta_ok (mt_book s) i (fl i) m"
    "i \<in> set (mt_pending_stops s) \<Longrightarrow> \<exists>m. om_get i (mt_orders s) = Some m \<and> stop_parked m"
  using assms unfolding engine_ok_def by blast+

definition undisturbed :: "bstate \<Rightarrow> bstate \<Rightarrow> u64 \<Rightarrow> bool" where
  "undisturbed sb sb' i \<longleftrightarrow> (\<forall>d p n. rests sb' i d p n \<longleftrightarrow> rests sb i d p n) \<and> (\<not> bound sb i \<longrightarrow> \<not> bound sb' i)"

lemma undisturbed_refl [simp]: "undisturbed sb sb i"
  by (simp add: undisturbed_def)

lemma meta_ok_undisturbed: "undisturbed sb sb' i \<Longrightarrow> meta_ok sb i k m \<Longrightarrow> meta_ok sb' i k m"
  by (auto simp: undisturbed_def meta_ok_def split: if_splits)

lemma undisturbed_take: "good sb \<Longrightarrow> i \<noteq> r \<Longrightarrow> undisturbed sb (bk_take r k sb) i"
  by (simp add: undisturbed_def bk.take_rests bk.take_bound)

lemma undisturbed_remove: "good sb \<Longrightarrow> i \<noteq> r \<Longrightarrow> undisturbed sb (bk_remove r sb) i"
  by (simp add: undisturbed_def bk.remove_rests bk.remove_bound)

lemma undisturbed_add:
  "good sb \<Longrightarrow> \<not> bound sb r \<Longrightarrow> is_i32 p \<Longrightarrow> 0 < p \<Longrightarrow> bk_resting_orders (snd sb) + 1 < 2 ^ 32 \<Longrightarrow> i \<noteq> r \<Longrightarrow>
   undisturbed sb (bk_add r (side_char d) p n sb) i"
  by (simp add: undisturbed_def bk.add_rests bk.add_bound)

text \<open>The one step all proofs take: an order gets a new record and the book moves on, around the others.\<close>

lemma engine_put:
  assumes ok: "engine_ok X fl s"
    and old: "om_get i (mt_orders s) = Some m"
    and ord: "mt_orders s' = om_set i m' (mt_orders s)"
    and book: "good (mt_book s')" "\<And>j n. om_get j (mt_orders s) = Some n \<Longrightarrow> j \<noteq> i \<Longrightarrow> undisturbed (mt_book s) (mt_book s') j"
    and tot: "mt_submitted s' = mt_submitted s - (if m_entered m then ucast (rq_quantity (m_req m)) else 0)
        + (if m_entered m' then ucast (rq_quantity (m_req m')) else 0)"
      "mt_filled_total s' = mt_filled_total s - ucast (m_filled m) + ucast (m_filled m')"
      "mt_cancelled_total s' = mt_cancelled_total s - ucast (m_cancelled m) + ucast (m_cancelled m')"
    and as: "mt_asserted s'"
    and pend: "distinct (mt_pending_stops s')" "set (mt_pending_stops s') \<subseteq> insert i (set (mt_pending_stops s))"
      "i \<in> set (mt_pending_stops s') \<Longrightarrow> stop_parked m'"
    and meta: "i \<notin> X' \<Longrightarrow> meta_ok (mt_book s') i k m'"
    and X: "X - {i} \<subseteq> X'"
  shows "engine_ok X' (fl(i := k)) s'"
proof -
  note D = engine_okD [OF ok]
  note [simp] = om_get_set [OF D(2)]
  have "totals_ok s'"
    using D(4) tot by (simp add: totals_ok_def ord msum_set(1) [OF D(2) old])
  moreover have "meta_ok (mt_book s') j ((fl(i := k)) j) n" if "om_get j (mt_orders s') = Some n" "j \<notin> X'" for j n
  proof (cases "j = i")
    case False
    then have "om_get j (mt_orders s) = Some n" "j \<notin> X" using that X by (auto simp: ord)
    with D(6) [OF this] book(2) [OF this(1) False] False show ?thesis by (simp add: meta_ok_undisturbed)
  qed (use that meta in \<open>simp add: ord\<close>)
  moreover have "\<exists>n. om_get j (mt_orders s') = Some n \<and> stop_parked n" if "j \<in> set (mt_pending_stops s')" for j
    using that pend D(7) [of j] by (cases "j = i") (auto simp: ord)
  ultimately show ?thesis using book(1) D(2) as pend(1) by (simp add: engine_ok_def ord)
qed

lemma engine_cong:
  assumes "engine_ok X fl s" "mt_book s' = mt_book s" "mt_orders s' = mt_orders s" "mt_asserted s' = mt_asserted s"
    "mt_submitted s' = mt_submitted s" "mt_filled_total s' = mt_filled_total s"
    "mt_cancelled_total s' = mt_cancelled_total s" "mt_pending_stops s' = mt_pending_stops s"
  shows "engine_ok X fl s'"
  using assms by (simp add: engine_ok_def totals_ok_def)

lemma transition_known:
  "om_get i (mt_orders s) = Some m \<Longrightarrow> transition i dest s =
     s\<lparr> mt_orders := om_set i (m\<lparr> m_state := dest \<rparr>) (mt_orders s),
        mt_asserted := mt_asserted s \<and> legal_transition (m_state m) dest \<rparr>"
  by (simp add: transition_def upd_meta_def meta_of_def)

section \<open>Makers\<close>

lemma if_min: "(if a < b then a else b) = min a (b :: 'a::linorder)"
  by (auto simp: min_def)

lemma refresh_known:
  assumes "om_wf (mt_orders s)" "om_get i (mt_orders s) = Some m"
  shows "refresh_iceberg i s =
    (let slice = min (m_hidden m) (rq_display (m_req m)) in
     s\<lparr> mt_orders := om_set i (m\<lparr> m_hidden := m_hidden m - slice, m_resting := slice, m_sequence := mt_seq s + 1,
            m_in_book := True, m_state := PartiallyFilled \<rparr>) (mt_orders s),
        mt_book := bk_add (rq_id (m_req m)) (side_char (rq_side (m_req m) = Buy)) (rq_price (m_req m)) slice (mt_book s),
        mt_seq := mt_seq s + 1, mt_asserted := mt_asserted s \<and> legal_transition (m_state m) PartiallyFilled \<rparr>)"
  using assms
  by (simp add: refresh_iceberg_def Let_def transition_def upd_meta_def book_add_def meta_of_def om_get_set om_set_set
      if_min)

lemma slice_laws:
  fixes h d :: u32
  assumes "h \<noteq> 0" "d \<noteq> 0"
  shows "0 < min h d" "unat (min h d) + unat (h - min h d) = unat h" "h - min h d \<noteq> 0 \<longrightarrow> d \<noteq> 0"
proof -
  show "0 < min h d" using assms by (simp add: min_def word_gt_0)
  have "min h d \<le> h" by simp
  then show "unat (min h d) + unat (h - min h d) = unat h"
    by (metis add_diff_inverse_nat not_less unat_sub word_le_nat_alt)
qed (use assms in simp)

definition unsettled :: "bstate \<Rightarrow> u64 \<Rightarrow> meta \<Rightarrow> bool" where
  "unsettled sb i m \<longleftrightarrow>
     rq_id (m_req m) = i \<and> unat (rq_quantity (m_req m)) < 2 ^ 31 \<and> m_entered m \<and> m_in_book m \<and>
     unat (m_filled m) + unat (m_cancelled m) + unat (m_resting m) + unat (m_hidden m) = unat (rq_quantity (m_req m)) \<and>
     m_state m \<in> {Accepted, PartiallyFilled} \<and> 0 < rq_price (m_req m) \<and> is_i32 (rq_price (m_req m)) \<and>
     (m_hidden m \<noteq> 0 \<longrightarrow> rq_display (m_req m) \<noteq> 0) \<and>
     (if m_resting m = 0 then \<not> bound sb i
      else rests sb i (rq_side (m_req m) = Buy) (rq_price (m_req m)) (m_resting m))"

lemma settle_known:
  assumes wf: "om_wf (mt_orders s)" and m: "om_get i (mt_orders s) = Some m"
  shows "settle_maker i s =
    (if m_resting m \<noteq> 0 then transition i PartiallyFilled s
     else if m_hidden m \<noteq> 0 then refresh_iceberg i (s\<lparr> mt_orders := om_set i (m\<lparr> m_in_book := False \<rparr>) (mt_orders s) \<rparr>)
     else transition i Filled (s\<lparr> mt_orders := om_set i (m\<lparr> m_in_book := False \<rparr>) (mt_orders s) \<rparr>))"
  using assms by (simp add: settle_maker_def Let_def meta_of_def upd_meta_def om_get_set word_gt_0)

lemma settle_maker_ok:
  assumes ok: "engine_ok {i} fl s" and m: "om_get i (mt_orders s) = Some m" and u: "unsettled (mt_book s) i m"
    and fl: "fl i = 0" and room: "m_resting m = 0 \<Longrightarrow> bk_resting_orders (snd (mt_book s)) + 1 < 2 ^ 32"
  shows "engine_ok {} fl (settle_maker i s)"
proof -
  note D = engine_okD [OF ok]
  note U = u [unfolded unsettled_def]
  have np: "i \<notin> set (mt_pending_stops s)" using D(7) [of i] m U by (auto simp: stop_parked_def)
  note [simp] = om_get_set [OF D(2)]
  have fl': "fl(i := 0) = fl" using fl by auto
  have "engine_ok {} (fl(i := 0)) (settle_maker i s)"
  proof (cases "m_resting m = 0")
    case False
    show ?thesis
      unfolding settle_known [OF D(2) m]
      by (rule engine_put [OF ok m, of _ "m\<lparr> m_state := PartiallyFilled \<rparr>"])
        (use False U D np in \<open>auto simp: transition_known [OF m] meta_ok_def word_gt_0\<close>)
  next
    case r0: True
    show ?thesis
    proof (cases "m_hidden m = 0")
      case True
      show ?thesis
        unfolding settle_known [OF D(2) m]
        by (rule engine_put [OF ok m, of _ "m\<lparr> m_in_book := False, m_state := Filled \<rparr>"])
          (use r0 True U D np in \<open>auto simp: transition_known [of i _ "m\<lparr> m_in_book := False \<rparr>"] om_set_set meta_ok_def\<close>)
    next
      case False
      let ?sl = "min (m_hidden m) (rq_display (m_req m))"
      let ?d = "rq_side (m_req m) = Buy" and ?p = "rq_price (m_req m)"
      have nb: "\<not> bound (mt_book s) i" and p: "is_i32 ?p" "0 < ?p" and ds: "rq_display (m_req m) \<noteq> 0" and rid: "rq_id (m_req m) = i"
        using U r0 False by auto
      note A = bk.add_ok [OF D(1) nb p room [OF r0], of ?d ?sl] bk.add_rests [OF D(1) nb p room [OF r0], of ?d ?sl]
      note sl = slice_laws [OF False ds]
      let ?m = "m\<lparr> m_hidden := m_hidden m - ?sl, m_resting := ?sl, m_sequence := mt_seq s + 1,
            m_in_book := True, m_state := PartiallyFilled \<rparr>"
      have mo: "meta_ok (bk_add i (side_char ?d) ?p ?sl (mt_book s)) i 0 ?m"
        using U r0 ds sl A(2) by (simp add: meta_ok_def)
      have "settle_maker i s = s\<lparr> mt_orders := om_set i ?m (mt_orders s),
          mt_book := bk_add i (side_char ?d) ?p ?sl (mt_book s), mt_seq := mt_seq s + 1,
          mt_asserted := mt_asserted s \<and> legal_transition (m_state m) PartiallyFilled \<rparr>"
        unfolding settle_known [OF D(2) m] using r0 False rid
        by (simp add: refresh_known [of _ i "m\<lparr> m_in_book := False \<rparr>"] D(2) Let_def om_set_set)
      moreover have "engine_ok {} (fl(i := 0)) \<dots>"
      proof (rule engine_put [OF ok m, where m' = ?m])
        show "mt_asserted (s\<lparr> mt_orders := om_set i ?m (mt_orders s),
          mt_book := bk_add i (side_char ?d) ?p ?sl (mt_book s), mt_seq := mt_seq s + 1,
          mt_asserted := mt_asserted s \<and> legal_transition (m_state m) PartiallyFilled \<rparr>)"
          using U D(3) by auto
      qed (simp_all add: A(1) mo undisturbed_add [OF D(1) nb p room [OF r0]] np D(5) subset_insertI)
      ultimately show ?thesis by simp
    qed
  qed
  then show ?thesis by (simp only: fl')
qed

section \<open>Trades\<close>

lemma unat_add_fits: "unat a + unat b < 2 ^ 32 \<Longrightarrow> unat (a + b :: u32) = unat a + unat b"
  by (simp add: unat_word_ariths)

lemma ucast_add_fits:
  assumes "unat a + unat b < 2 ^ 32"
  shows "(ucast (a + b :: u32) :: u64) = ucast a + ucast b"
proof -
  have "(ucast (a + b) :: u64) = of_nat (unat (a + b))" by (rule of_nat_unat [symmetric])
  also have "\<dots> = ucast a + ucast b" unfolding unat_add_fits [OF assms] of_nat_add of_nat_unat ..
  finally show ?thesis .
qed

lemma double_fits:
  assumes "unat q < 2 ^ 31"
  shows "(ucast (2 * q :: u32) :: u64) = ucast q + ucast q"
proof -
  have "2 * q = q + q" by simp
  then show ?thesis using ucast_add_fits [of q q] assms by simp
qed

lemma unat_sub_le: "b \<le> a \<Longrightarrow> unat (a - b :: u32) + unat b = unat a"
  by (simp add: unat_sub word_le_nat_alt)

definition runs :: "matcher \<Rightarrow> u64 \<Rightarrow> meta \<Rightarrow> bool" where
  "runs s i m \<longleftrightarrow>
     om_get i (mt_orders s) = Some m \<and> \<not> m_in_book m \<and> m_entered m \<and> m_state m \<in> {New, Accepted} \<and>
     i \<notin> set (mt_pending_stops s)"

lemma known_rests:
  assumes ok: "engine_ok {} fl s" and mk: "om_get r (mt_orders s) = Some mk" and r: "rests (mt_book s) r d p n"
  shows "m_in_book mk" "(rq_side (m_req mk) = Buy) = d" "rq_price (m_req mk) = p" "m_resting mk = n"
proof -
  note D = engine_okD [OF ok]
  have M: "meta_ok (mt_book s) r (fl r) mk" using D(6) [OF mk] by simp
  show "m_in_book mk" using M bk.rests_bound [OF D(1) r] by (auto simp: meta_ok_def split: if_splits)
  then have "rests (mt_book s) r (rq_side (m_req mk) = Buy) (rq_price (m_req mk)) (m_resting mk)"
    using M by (simp add: meta_ok_def)
  from bk.one_place [OF D(1) r this]
  show "(rq_side (m_req mk) = Buy) = d" "rq_price (m_req mk) = p" "m_resting mk = n" by blast+
qed

text \<open>Taking from a maker of the engine leaves it unsettled, and its record exempt.\<close>

lemma take_maker:
  assumes ok: "engine_ok {} fl s" and mk: "om_get r (mt_orders s) = Some mk" and r: "rests (mt_book s) r d p n"
    and fl: "fl r = 0" and q: "q \<le> n"
    and s': "mt_orders s' = om_set r (mk\<lparr> m_resting := m_resting mk - q, m_filled := m_filled mk + q \<rparr>) (mt_orders s)"
      "mt_book s' = bk_take r q (mt_book s)" "mt_filled_total s' = mt_filled_total s + ucast q"
      "mt_submitted s' = mt_submitted s" "mt_cancelled_total s' = mt_cancelled_total s"
      "mt_asserted s' = mt_asserted s" "mt_pending_stops s' = mt_pending_stops s"
  shows "engine_ok {r} fl s'"
    "unsettled (mt_book s') r (mk\<lparr> m_resting := m_resting mk - q, m_filled := m_filled mk + q \<rparr>)"
    "m_resting mk - q = 0 \<Longrightarrow> bk_resting_orders (snd (mt_book s')) + 1 < 2 ^ 32"
proof -
  note D = engine_okD [OF ok] and K = known_rests [OF ok mk r]
  have M: "meta_ok (mt_book s) r 0 mk" using D(6) [OF mk] fl by simp
  have qr: "unat q \<le> unat (m_resting mk)" using q K(4) by (simp add: word_le_nat_alt)
  have sum: "unat (m_filled mk) + unat (m_cancelled mk) + unat (m_resting mk) + unat (m_hidden mk) =
      unat (rq_quantity (m_req mk))" and lt: "unat (rq_quantity (m_req mk)) < 2 ^ 31"
    using M K(1) by (auto simp: meta_ok_def split: if_splits)
  have f: "unat (m_filled mk) + unat q < 2 ^ 32" using sum lt qr by simp
  let ?mk = "mk\<lparr> m_resting := m_resting mk - q, m_filled := m_filled mk + q \<rparr>"
  have np: "r \<notin> set (mt_pending_stops s)" using D(7) [of r] mk K(1) by (auto simp: stop_parked_def)
  have "engine_ok {r} (fl(r := 0)) s'"
    by (rule engine_put [OF ok mk, of _ ?mk])
      (use s' D np in \<open>auto simp: bk.take_ok undisturbed_take ucast_add_fits [OF f]\<close>)
  moreover have "fl(r := 0) = fl" using fl by auto
  ultimately show "engine_ok {r} fl s'" by simp
  have res: "unat (m_resting mk - q) + unat q = unat (m_resting mk)" by (rule unat_sub_le) (simp add: K(4) q)
  have place: "if m_resting mk - q = 0 then \<not> bound (bk_take r q (mt_book s)) r
      else rests (bk_take r q (mt_book s)) r (rq_side (m_req mk) = Buy) (rq_price (m_req mk)) (m_resting mk - q)"
  proof (cases "m_resting mk - q = 0")
    case True
    then have "n \<le> q" using K(4) by simp
    with bk.take_unbound [OF D(1) r] True show ?thesis by simp
  next
    case False
    then have "q < n" using K(4) q by (metis order_le_imp_less_or_eq right_minus_eq)
    with bk.take_part(2) [OF D(1) r this] False K(2-4) show ?thesis by simp
  qed
  show "unsettled (mt_book s') r ?mk"
    using M K(1,3) place sum f res bk.price_i32 [OF D(1) r]
    by (auto simp: unsettled_def meta_ok_def s' unat_add_fits)
  assume "m_resting mk - q = 0"
  then have "bk_resting_orders (snd (bk_take r q (mt_book s))) + 1 = bk_resting_orders (snd (mt_book s))"
    using bk.take_all(1) [OF D(1) r, of q] K(4) by simp
  then show "bk_resting_orders (snd (mt_book s')) + 1 < 2 ^ 32"
    using bk.resting_card [OF D(1)] by (simp add: s')
qed

text \<open>The taker's half of a fill.\<close>

lemma fill_taker:
  assumes ok: "engine_ok X fl s" and tk: "runs s i tk" and q: "q \<le> rem" and fl: "fl i = unat rem"
    and X: "i \<notin> X"
    and s': "mt_orders s' = om_set i (tk\<lparr> m_filled := m_filled tk + q \<rparr>) (mt_orders s)"
      "good (mt_book s')" "\<And>j n. om_get j (mt_orders s) = Some n \<Longrightarrow> undisturbed (mt_book s) (mt_book s') j"
      "mt_filled_total s' = mt_filled_total s + ucast q"
      "mt_submitted s' = mt_submitted s" "mt_cancelled_total s' = mt_cancelled_total s"
      "mt_asserted s' = mt_asserted s" "mt_pending_stops s' = mt_pending_stops s"
  shows "engine_ok X (fl(i := unat (rem - q))) s'" "runs s' i (tk\<lparr> m_filled := m_filled tk + q \<rparr>)"
proof -
  note D = engine_okD [OF ok] and T = tk [unfolded runs_def]
  have t: "om_get i (mt_orders s) = Some tk" using T by blast
  have M: "meta_ok (mt_book s') i (unat rem) tk"
    using D(6) [OF t X] fl meta_ok_undisturbed [OF s'(3) [OF t]] by simp
  have r: "unat (rem - q) + unat q = unat rem" by (rule unat_sub_le [OF q])
  have f: "unat (m_filled tk) + unat q < 2 ^ 32" using M T r by (auto simp: meta_ok_def split: if_splits)
  show "engine_ok X (fl(i := unat (rem - q))) s'"
    by (rule engine_put [OF ok t, of _ "tk\<lparr> m_filled := m_filled tk + q \<rparr>"])
      (use s' D T M r f in \<open>auto simp: ucast_add_fits [OF f] meta_ok_def unat_add_fits split: if_splits\<close>)
  show "runs s' i (tk\<lparr> m_filled := m_filled tk + q \<rparr>)" using T s' by (simp add: runs_def om_get_set D(2))
qed

section \<open>Cancelling\<close>

lemma cancel_known:
  assumes "om_wf (mt_orders s)" "om_get i (mt_orders s) = Some m"
  shows "cancel_meta i s =
    s\<lparr> mt_orders := om_set i (m\<lparr> m_in_book := False, m_resting := 0, m_hidden := 0,
          m_cancelled := m_cancelled m + (m_resting m + m_hidden m), m_state := Cancelled \<rparr>) (mt_orders s),
       mt_book := (if m_in_book m then bk_remove (rq_id (m_req m)) (mt_book s) else mt_book s),
       mt_cancelled_total := mt_cancelled_total s + ucast (m_resting m + m_hidden m),
       mt_pending_stops := remove1 (rq_id (m_req m)) (mt_pending_stops s),
       mt_asserted := mt_asserted s \<and> legal_transition (m_state m) Cancelled \<rparr>"
  using assms
  by (cases m) (simp add: cancel_meta_def Let_def transition_def upd_meta_def meta_of_def om_get_set om_set_set)

lemma cancel_meta_ok:
  assumes ok: "engine_ok {} fl s" and m: "om_get i (mt_orders s) = Some m" and nt: "\<not> is_terminal (m_state m)"
    and fl: "fl i = 0"
  shows "engine_ok {} fl (cancel_meta i s)"
proof -
  note D = engine_okD [OF ok]
  have M: "meta_ok (mt_book s) i 0 m" using D(6) [OF m] fl by simp
  have rid: "rq_id (m_req m) = i" using M by (simp add: meta_ok_def)
  let ?m = "m\<lparr> m_in_book := False, m_resting := 0, m_hidden := 0,
          m_cancelled := m_cancelled m + (m_resting m + m_hidden m), m_state := Cancelled \<rparr>"
  let ?sb = "if m_in_book m then bk_remove i (mt_book s) else mt_book s"
  have g: "good ?sb" using D(1) bk.remove_ok by simp
  have und: "undisturbed (mt_book s) ?sb j" if "j \<noteq> i" for j using undisturbed_remove [OF D(1) that] by simp
  have nb: "\<not> bound ?sb i" using M bk.remove_unbound [OF D(1)] by (auto simp: meta_ok_def)
  have leg: "legal_transition (m_state m) Cancelled" using nt by (cases "m_state m") auto
  have sum: "unat (m_filled m) + (unat (m_cancelled m) + (unat (m_resting m) + unat (m_hidden m))) =
      unat (rq_quantity (m_req m)) \<and> unat (rq_quantity (m_req m)) < 2 ^ 31" if "m_entered m"
    using M that by (simp add: meta_ok_def)
  have f1: "unat (m_resting m) + unat (m_hidden m) < 2 ^ 32"
    and f2: "unat (m_cancelled m) + unat (m_resting m + m_hidden m) < 2 ^ 32"
    using M sum by (cases "m_entered m"; simp add: meta_ok_def unat_add_fits)+
  have mo: "meta_ok ?sb i 0 ?m"
  proof (cases "m_entered m")
    case True
    then show ?thesis using M nb sum [OF True] by (simp add: meta_ok_def unat_add_fits [OF f2] unat_add_fits [OF f1])
  next
    case False
    then show ?thesis using M nb by (simp add: meta_ok_def)
  qed
  have np: "i \<notin> set (remove1 i (mt_pending_stops s))" using D(5) by simp
  have cb: "mt_book (cancel_meta i s) = ?sb" by (simp add: cancel_known [OF D(2) m] rid)
  have "engine_ok {} (fl(i := 0)) (cancel_meta i s)"
  proof (rule engine_put [OF ok m, where m' = ?m])
    show "good (mt_book (cancel_meta i s))" "meta_ok (mt_book (cancel_meta i s)) i 0 ?m"
      unfolding cb by (fact g, fact mo)
    show "undisturbed (mt_book s) (mt_book (cancel_meta i s)) j" if "j \<noteq> i" for j
      unfolding cb by (rule und [OF that])
    show "set (mt_pending_stops (cancel_meta i s)) \<subseteq> insert i (set (mt_pending_stops s))"
      by (auto simp: cancel_known [OF D(2) m] dest: notin_set_remove1)
  qed (simp_all add: cancel_known [OF D(2) m] rid D(3,5) leg np ucast_add_fits [OF f2] distinct_remove1)
  moreover have "fl(i := 0) = fl" using fl by auto
  ultimately show ?thesis by simp
qed

section \<open>What the loop makes progress on, and the places it leaves\<close>

definition hsum :: "(u64, meta) omap \<Rightarrow> int" where
  "hsum xs = (\<Sum>(i, m) \<leftarrow> xs. int (unat (m_hidden m)))"

lemma hsum_set: "om_wf xs \<Longrightarrow> om_get i xs = Some m \<Longrightarrow>
   hsum (om_set i m' xs) = hsum xs - int (unat (m_hidden m)) + int (unat (m_hidden m'))"
  by (simp add: hsum_def om_sum_set)

lemma hsum_nonneg: "0 \<le> hsum xs"
  unfolding hsum_def by (rule sum_list_nonneg) auto

abbreviation resting_of :: "matcher \<Rightarrow> nat" where
  "resting_of s \<equiv> bk_resting_orders (snd (mt_book s))"

definition effort :: "u32 \<Rightarrow> matcher \<Rightarrow> int" where
  "effort rem s = int (unat rem) + int (resting_of s) + hsum (mt_orders s)"

definition occupied :: "matcher \<Rightarrow> bool \<Rightarrow> int \<Rightarrow> bool" where
  "occupied s d p \<longleftrightarrow> (\<exists>r n. rests (mt_book s) r d p n)"

definition shrinks :: "matcher \<Rightarrow> matcher \<Rightarrow> bool" where
  "shrinks s s' \<longleftrightarrow> resting_of s' \<le> resting_of s \<and> (\<forall>d p. occupied s' d p \<longrightarrow> occupied s d p) \<and>
     mt_pending_stops s' = mt_pending_stops s"

lemma shrinks_refl [simp]: "shrinks s s"
  by (simp add: shrinks_def)

lemma shrinks_trans: "shrinks a b \<Longrightarrow> shrinks b c \<Longrightarrow> shrinks a c"
  by (auto simp: shrinks_def)

lemma settle_effort:
  assumes ok: "engine_ok {i} fl s" and m: "om_get i (mt_orders s) = Some m" and u: "unsettled (mt_book s) i m"
    and room: "m_resting m = 0 \<Longrightarrow> bk_resting_orders (snd (mt_book s)) + 1 < 2 ^ 32"
  shows "effort rem (settle_maker i s) \<le> effort rem s"
    "resting_of (settle_maker i s) \<le> resting_of s + (if m_resting m = 0 then 1 else 0)"
    "occupied (settle_maker i s) d p \<Longrightarrow>
       occupied s d p \<or> d = (rq_side (m_req m) = Buy) \<and> p = rq_price (m_req m)"
    "mt_pending_stops (settle_maker i s) = mt_pending_stops s"
    "j \<noteq> i \<Longrightarrow> om_get j (mt_orders (settle_maker i s)) = om_get j (mt_orders s)"
    "om_get i (mt_orders (settle_maker i s)) \<noteq> None"
proof -
  note D = engine_okD [OF ok]
  note U = u [unfolded unsettled_def]
  note [simp] = om_get_set [OF D(2)]
  let ?s = "settle_maker i s"
  have "effort rem ?s \<le> effort rem s \<and> resting_of ?s \<le> resting_of s + (if m_resting m = 0 then 1 else 0) \<and>
    (\<forall>d p. occupied ?s d p \<longrightarrow> occupied s d p \<or> d = (rq_side (m_req m) = Buy) \<and> p = rq_price (m_req m)) \<and>
    mt_pending_stops ?s = mt_pending_stops s \<and>
    (\<forall>j. j \<noteq> i \<longrightarrow> om_get j (mt_orders ?s) = om_get j (mt_orders s)) \<and> om_get i (mt_orders ?s) \<noteq> None"
  proof (cases "m_resting m = 0 \<and> m_hidden m \<noteq> 0")
    case False
    then show ?thesis
      unfolding settle_known [OF D(2) m]
      by (auto simp: transition_known [OF m] transition_known [of i _ "m\<lparr> m_in_book := False \<rparr>"] om_set_set
          effort_def hsum_set [OF D(2) m] occupied_def)
  next
    case True
    let ?sl = "min (m_hidden m) (rq_display (m_req m))"
    let ?d = "rq_side (m_req m) = Buy" and ?p = "rq_price (m_req m)"
    have nb: "\<not> bound (mt_book s) i" and p: "is_i32 ?p" "0 < ?p" and ds: "rq_display (m_req m) \<noteq> 0" and rid: "rq_id (m_req m) = i"
      using U True by auto
    have h: "m_hidden m \<noteq> 0" using True by simp
    note room' = room [OF True [THEN conjunct1]]
    note A = bk.add_resting [OF D(1) nb p room', of ?d ?sl] bk.add_rests [OF D(1) nb p room', of ?d ?sl]
    note sl = slice_laws [OF h ds]
    have "0 < unat ?sl" using sl(1) by (simp add: word_less_nat_alt)
    then have "1 + int (unat (m_hidden m - ?sl)) \<le> int (unat (m_hidden m))" using sl(2) by linarith
    then show ?thesis
      unfolding settle_known [OF D(2) m] using True rid A
      by (auto simp: refresh_known [of _ i "m\<lparr> m_in_book := False \<rparr>"] D(2) Let_def om_set_set
          effort_def hsum_set [OF D(2) m] occupied_def)
  qed
  then show "effort rem (settle_maker i s) \<le> effort rem s"
    "resting_of (settle_maker i s) \<le> resting_of s + (if m_resting m = 0 then 1 else 0)"
    "occupied (settle_maker i s) d p \<Longrightarrow>
       occupied s d p \<or> d = (rq_side (m_req m) = Buy) \<and> p = rq_price (m_req m)"
    "mt_pending_stops (settle_maker i s) = mt_pending_stops s"
    "j \<noteq> i \<Longrightarrow> om_get j (mt_orders (settle_maker i s)) = om_get j (mt_orders s)"
    "om_get i (mt_orders (settle_maker i s)) \<noteq> None"
    by blast+
qed

lemma effort_drop:
  fixes a b c h :: int
  assumes "a + b = c" "0 \<le> b" "0 < b \<or> P" "r' + (if P then 1 else 0) = (r :: nat)" "h' = h"
  shows "a + int r' + h' < c + int r + h"
  using assms by (cases P) auto

lemma int_unat_pos: "0 < unat q \<or> P \<Longrightarrow> 0 < int (unat q) \<or> P"
  by linarith

section \<open>The matching loop\<close>

text \<open>A fill against a maker the engine knows.\<close>

definition own_trade :: "u64 \<Rightarrow> u64 \<Rightarrow> meta \<Rightarrow> u32 \<Rightarrow> fill \<Rightarrow> matcher \<Rightarrow> matcher" where
  "own_trade tid r mk q f s =
     (let s = s\<lparr> mt_book := bk_take r q (mt_book s) \<rparr>;
          s = upd_meta r (\<lambda>m. m\<lparr> m_resting := m_resting m - q, m_filled := m_filled m + q \<rparr>) s;
          s = upd_meta tid (\<lambda>m. m\<lparr> m_filled := m_filled m + q \<rparr>) s;
          s = s\<lparr> mt_filled_total := mt_filled_total s + ucast (2 * q) \<rparr>
      in settle_maker r (note_trade f s))"

lemma own_trade_ok:
  assumes ok: "engine_ok {} fl s" and tk: "runs s tid tk" and fl: "fl tid = unat rem" "fl r = 0"
    and mk: "om_get r (mt_orders s) = Some mk" and r: "rests (mt_book s) r d p n" and q: "q = min rem n"
    and rem: "rem \<noteq> 0" and s': "s' = own_trade tid r mk q f s"
  shows "engine_ok {} (fl(tid := unat (rem - q))) s'" "runs s' tid (tk\<lparr> m_filled := m_filled tk + q \<rparr>)"
    "shrinks s s'" "effort (rem - q) s' < effort rem s"
proof -
  note D = engine_okD [OF ok] and K = known_rests [OF ok mk r] and T = tk [unfolded runs_def]
  note [simp] = om_get_set [OF D(2)]
  have ne: "tid \<noteq> r" using K(1) T mk by auto
  have t: "om_get tid (mt_orders s) = Some tk" using T by blast
  have qn: "q \<le> n" and qr: "q \<le> rem" using q by simp_all
  define s1 where "s1 = s\<lparr> mt_book := bk_take r q (mt_book s),
      mt_orders := om_set r (mk\<lparr> m_resting := m_resting mk - q, m_filled := m_filled mk + q \<rparr>) (mt_orders s),
      mt_filled_total := mt_filled_total s + ucast q \<rparr>"
  define s2 where "s2 = s1\<lparr> mt_orders := om_set tid (tk\<lparr> m_filled := m_filled tk + q \<rparr>) (mt_orders s1),
      mt_filled_total := mt_filled_total s1 + ucast q, mt_fills := mt_fills s1 @ [f],
      mt_last_trade := fl_price f, mt_has_last_trade := True \<rparr>"
  let ?mk = "mk\<lparr> m_resting := m_resting mk - q, m_filled := m_filled mk + q \<rparr>"
  note S1 = take_maker [OF ok mk r fl(2) qn, of s1]
  have 1: "engine_ok {r} fl s1" "unsettled (mt_book s1) r ?mk"
    "m_resting ?mk = 0 \<Longrightarrow> bk_resting_orders (snd (mt_book s1)) + 1 < 2 ^ 32"
    using S1 by (simp_all add: s1_def)
  have t1: "runs s1 tid tk" using T ne by (simp add: runs_def s1_def)
  have 2: "engine_ok {r} (fl(tid := unat (rem - q))) s2" "runs s2 tid (tk\<lparr> m_filled := m_filled tk + q \<rparr>)"
    using fill_taker [OF 1(1) t1 qr fl(1), of s2] ne engine_okD(1) [OF 1(1)] by (simp_all add: s2_def)
  have m2: "om_get r (mt_orders s2) = Some ?mk" and b2: "mt_book s2 = bk_take r q (mt_book s)"
    and p2: "mt_pending_stops s2 = mt_pending_stops s"
    using ne D(2) by (simp_all add: s2_def s1_def om_get_set)
  have u2: "unsettled (mt_book s2) r ?mk" and room2: "m_resting ?mk = 0 \<Longrightarrow> bk_resting_orders (snd (mt_book s2)) + 1 < 2 ^ 32"
    using 1(2,3) by (simp_all add: s2_def)
  have "meta_ok (mt_book s) r 0 mk" using D(6) [OF mk] fl(2) by simp
  then have "unat (m_resting mk) < 2 ^ 31" using K(1) by (auto simp: meta_ok_def split: if_splits)
  then have "unat q < 2 ^ 31" using qn K(4) by (simp add: word_le_nat_alt)
  note dbl = double_fits [OF this]
  have e: "s' = settle_maker r s2"
    unfolding s' own_trade_def Let_def
    by (simp add: note_trade_def upd_meta_def s1_def s2_def meta_of_def mk t ne dbl add.assoc)
  have flr: "(fl(tid := unat (rem - q))) r = 0" using fl(2) ne by simp
  show "engine_ok {} (fl(tid := unat (rem - q))) s'"
    unfolding e by (rule settle_maker_ok [OF 2(1) m2 u2 flr room2])
  note E = settle_effort [OF 2(1) m2 u2 room2]
  show "runs s' tid (tk\<lparr> m_filled := m_filled tk + q \<rparr>)"
    using 2(2) E(4,5) ne by (simp add: runs_def e)
  have place: "occupied s d p" using r by (auto simp: occupied_def)
  have res2: "resting_of s2 + (if m_resting ?mk = 0 then 1 else 0) = resting_of s"
  proof (cases "n \<le> q")
    case True
    then have "m_resting ?mk = 0" using K(4) qn by simp
    then show ?thesis using bk.take_all(1) [OF D(1) r True] by (simp add: b2)
  next
    case False
    then have "q < n" by simp
    then have "m_resting ?mk \<noteq> 0" using K(4) by auto
    then show ?thesis using bk.take_part(1) [OF D(1) r \<open>q < n\<close>] by (simp add: b2)
  qed
  show "shrinks s s'"
    unfolding shrinks_def
  proof (intro conjI allI impI)
    show "resting_of s' \<le> resting_of s" using E(2) res2 by (simp add: e)
    show "mt_pending_stops s' = mt_pending_stops s" using E(4) p2 by (simp add: e)
    fix d' p' assume "occupied s' d' p'"
    then consider "occupied s2 d' p'" | "d' = d" "p' = p" using E(3) [of d' p'] K by (auto simp: e)
    then show "occupied s d' p'"
    proof cases
      case 1
      then show ?thesis using bk.take_place [OF D(1)] unfolding occupied_def b2 by blast
    qed (use place in simp)
  qed
  have h2: "hsum (mt_orders s2) = hsum (mt_orders s)"
    using ne by (simp add: s2_def s1_def hsum_set [OF _ t] hsum_set [OF D(2) mk] D(2) hsum_set [of _ tid tk] t)
  have sum: "int (unat (rem - q)) + int (unat q) = int (unat rem)" using unat_sub_le [OF qr] by linarith
  have qpos: "0 < unat q \<or> m_resting ?mk = 0"
    using K(4) q rem by (auto simp: min_def unat_gt_0 split: if_splits)
  have "effort (rem - q) s2 < effort rem s"
    unfolding effort_def by (rule effort_drop [OF sum of_nat_0_le_iff int_unat_pos [OF qpos] res2 h2])
  with E(1) [of "rem - q"] show "effort (rem - q) s' < effort rem s" by (simp add: e)
qed

text \<open>A fill against an order of the book that is not of this engine.\<close>

lemma other_trade_ok:
  assumes ok: "engine_ok {} fl s" and tk: "runs s tid tk" and fl: "fl tid = unat rem"
    and mk: "om_get r (mt_orders s) = None" and r: "rests (mt_book s) r d p n" and q: "q = min rem n"
    and rem: "rem \<noteq> 0"
    and s': "mt_orders s' = om_set tid (tk\<lparr> m_filled := m_filled tk + q \<rparr>) (mt_orders s)"
      "mt_book s' = bk_take r q (mt_book s)" "mt_filled_total s' = mt_filled_total s + ucast q"
      "mt_submitted s' = mt_submitted s" "mt_cancelled_total s' = mt_cancelled_total s"
      "mt_asserted s' = mt_asserted s" "mt_pending_stops s' = mt_pending_stops s"
  shows "engine_ok {} (fl(tid := unat (rem - q))) s'" "runs s' tid (tk\<lparr> m_filled := m_filled tk + q \<rparr>)"
    "shrinks s s'" "effort (rem - q) s' < effort rem s"
proof -
  note D = engine_okD [OF ok] and T = tk [unfolded runs_def]
  have qn: "q \<le> n" and qr: "q \<le> rem" using q by simp_all
  have t: "om_get tid (mt_orders s) = Some tk" using T by blast
  have und: "undisturbed (mt_book s) (bk_take r q (mt_book s)) j" if "om_get j (mt_orders s) = Some m" for j m
    by (rule undisturbed_take [OF D(1)]) (use that mk in auto)
  show "engine_ok {} (fl(tid := unat (rem - q))) s'" "runs s' tid (tk\<lparr> m_filled := m_filled tk + q \<rparr>)"
    by (rule fill_taker [OF ok tk qr fl]; use s' und bk.take_ok [OF D(1)] in simp)+
  have res: "resting_of s' + (if n \<le> q then 1 else 0) = resting_of s"
    using bk.take_all(1) [OF D(1) r, of q] bk.take_part(1) [OF D(1) r, of q] s'(2) by simp
  moreover have "occupied s d p" if "occupied s' d p" for d p
    using that bk.take_place [OF D(1)] unfolding occupied_def s'(2) by blast
  ultimately show "shrinks s s'" using s'(7) by (auto simp: shrinks_def split: if_splits)
  have sum: "int (unat (rem - q)) + int (unat q) = int (unat rem)" using unat_sub_le [OF qr] by linarith
  have qpos: "0 < unat q \<or> n \<le> q" using q rem by (auto simp: min_def unat_gt_0 split: if_splits)
  have h: "hsum (mt_orders s') = hsum (mt_orders s)" by (simp add: s'(1) hsum_set [OF D(2) t])
  show "effort (rem - q) s' < effort rem s"
    unfolding effort_def by (rule effort_drop [OF sum of_nat_0_le_iff int_unat_pos [OF qpos] res h])
qed

lemma cancel_maker:
  assumes ok: "engine_ok {} fl s" and tk: "runs s tid tk" and fl: "fl r = 0"
    and mk: "om_get r (mt_orders s) = Some mk" and r: "rests (mt_book s) r d p n"
  shows "engine_ok {} fl (cancel_meta r s)" "runs (cancel_meta r s) tid tk" "shrinks s (cancel_meta r s)"
    "effort rem (cancel_meta r s) < effort rem s"
proof -
  note D = engine_okD [OF ok] and K = known_rests [OF ok mk r] and T = tk [unfolded runs_def]
  have M: "meta_ok (mt_book s) r 0 mk" using D(6) [OF mk] fl by simp
  have ne: "tid \<noteq> r" using K(1) T mk by auto
  have np: "r \<notin> set (mt_pending_stops s)" using D(7) [of r] mk K(1) by (auto simp: stop_parked_def)
  have rid: "rq_id (m_req mk) = r" and nt: "\<not> is_terminal (m_state mk)" using M K(1) by (auto simp: meta_ok_def)
  show "engine_ok {} fl (cancel_meta r s)" by (rule cancel_meta_ok [OF ok mk nt fl])
  note C = cancel_known [OF D(2) mk]
  have p: "remove1 r (mt_pending_stops s) = mt_pending_stops s" by (rule remove1_idem [OF np])
  show "runs (cancel_meta r s) tid tk" using T ne by (simp add: C runs_def om_get_set D(2) rid p)
  have res: "resting_of (cancel_meta r s) + 1 = resting_of s"
    using bk.remove_resting [OF D(1) r] K(1) by (simp add: C rid)
  then show "shrinks s (cancel_meta r s)"
    using K(1) by (auto simp: shrinks_def occupied_def C rid p bk.remove_rests [OF D(1)])
  show "effort rem (cancel_meta r s) < effort rem s"
  proof -
    have "hsum (mt_orders (cancel_meta r s)) \<le> hsum (mt_orders s)"
      by (simp add: C hsum_set [OF D(2) mk])
    then show ?thesis using res by (simp add: effort_def)
  qed
qed

text \<open>
  What a round may do: leave the loop, with nothing left to fill, with the opposite side out of reach,
  or with the taker killed by self-trade prevention; or go round again with less to do.
\<close>

definition out_of_reach :: "matcher \<Rightarrow> request \<Rightarrow> otype \<Rightarrow> bool" where
  "out_of_reach s req t \<longleftrightarrow> (\<forall>p. occupied s (rq_side req \<noteq> Buy) p \<longrightarrow> \<not> crosses req t p)"

lemma match_step_ok:
  assumes ok: "engine_ok {} fl s" and tk: "runs s tid tk" and fl: "fl tid = unat rem" "\<And>j. j \<noteq> tid \<Longrightarrow> fl j = 0"
  shows "case match_step tid t (rem, s) of
      Inl (rem', killed, s') \<Rightarrow> engine_ok {} fl s' \<and> rem' = rem \<and> runs s' tid tk \<and> shrinks s s' \<and>
        (rem' \<noteq> 0 \<longrightarrow> \<not> killed \<longrightarrow> out_of_reach s' (m_req tk) t)
    | Inr (rem', s') \<Rightarrow> \<exists>tk'. engine_ok {} (fl(tid := unat rem')) s' \<and> runs s' tid tk' \<and> m_req tk' = m_req tk \<and>
        m_state tk' = m_state tk \<and> m_cancelled tk' = m_cancelled tk \<and> shrinks s s' \<and> effort rem' s' < effort rem s"
proof -
  note D = engine_okD [OF ok] and T = tk [unfolded runs_def]
  have t: "om_get tid (mt_orders s) = Some tk" using T by blast
  have mt: "meta_of s tid = tk" by (rule meta_of_known [OF t])
  let ?d = "rq_side (m_req tk) \<noteq> Buy"
  obtain st b where sb: "mt_book s = (st, b)" by (meson surj_pair)
  have g: "good (st, b)" using D(1) sb by simp
  show ?thesis
  proof (cases "rem = 0")
    case True
    then have "match_step tid t (rem, s) = Inl (rem, False, s)" by (simp add: match_step_def mt Let_def)
    then show ?thesis using ok tk True by simp
  next
    case rem: False
    show ?thesis
    proof (cases "best_order (side_char ?d) b")
      case None
      then have "out_of_reach s (m_req tk) t"
        using front_rests(1) [OF g, of ?d] by (auto simp: out_of_reach_def occupied_def sb)
      moreover have "match_step tid t (rem, s) = Inl (rem, False, s)"
        using None rem by (simp add: match_step_def mt Let_def sb)
      ultimately show ?thesis using ok tk by simp
    next
      case (Some x)
      let ?r = "o_ref (st_heap st x)" and ?p = "o_price (st_heap st x)" and ?n = "o_shares (st_heap st x)"
      let ?q = "min rem ?n"
      note F = front_rests(2) [OF g Some]
      have r: "rests (mt_book s) ?r ?d ?p ?n" unfolding sb using F by blast
      have far: "if ?d then p \<le> ?p else ?p \<le> p" if "rests (mt_book s) r' ?d p n" for r' p n
        using F that unfolding sb by blast
      show ?thesis
      proof (cases "crosses (m_req tk) t ?p")
        case False
        then have "out_of_reach s (m_req tk) t"
          using far by (fastforce simp: out_of_reach_def occupied_def crosses_def split: if_splits)
        moreover have "match_step tid t (rem, s) = Inl (rem, False, s)"
          using Some rem False by (simp add: match_step_def mt Let_def sb)
        ultimately show ?thesis using ok tk by simp
      next
        case cr: True
        show ?thesis
        proof (cases "om_get ?r (mt_orders s)")
          case None
          define s' where "s' = snd (projr (match_step tid t (rem, s)))"
          have e: "match_step tid t (rem, s) = Inr (rem - ?q, s')"
            using rem Some cr None by (simp add: s'_def match_step_def mt Let_def sb if_min)
          have "mt_orders s' = om_set tid (tk\<lparr> m_filled := m_filled tk + ?q \<rparr>) (mt_orders s)"
            "mt_book s' = bk_take ?r ?q (mt_book s)" "mt_filled_total s' = mt_filled_total s + ucast ?q"
            "mt_submitted s' = mt_submitted s" "mt_cancelled_total s' = mt_cancelled_total s"
            "mt_asserted s' = mt_asserted s" "mt_pending_stops s' = mt_pending_stops s"
            using rem Some cr None by (simp_all add: s'_def match_step_def mt Let_def sb if_min note_trade_def meta_of_def t)
          note O = other_trade_ok [OF ok tk fl(1) None r refl rem this]
          show ?thesis unfolding e using O by (auto intro!: exI [of _ "tk\<lparr> m_filled := m_filled tk + ?q \<rparr>"])
        next
          case mk: (Some mk)
          have K: "m_in_book mk" using known_rests [OF ok mk r] by blast
          then have "?r \<noteq> tid" using T mk by auto
          then have flr: "fl ?r = 0" by (rule fl(2))
          note C = cancel_maker [OF ok tk flr mk r]
          let ?same = "rq_owner (m_req mk) = rq_owner (m_req tk)"
          consider "rq_stp (m_req tk) = CancelNewest \<and> ?same"
            | "rq_stp (m_req tk) = CancelOldest \<and> ?same" | "rq_stp (m_req tk) = CancelBoth \<and> ?same"
            | "\<not> (rq_stp (m_req tk) = CancelNewest \<and> ?same)" "\<not> (rq_stp (m_req tk) = CancelOldest \<and> ?same)"
              "\<not> (rq_stp (m_req tk) = CancelBoth \<and> ?same)" by blast
          then show ?thesis
          proof cases
            case 1
            then have "match_step tid t (rem, s) = Inl (rem, True, s)"
              using rem Some cr mk by (simp add: match_step_def mt Let_def sb)
            then show ?thesis using ok tk by simp
          next
            case 2
            then have "match_step tid t (rem, s) = Inr (rem, cancel_meta ?r s)"
              using rem Some cr mk by (simp add: match_step_def mt Let_def sb)
            moreover have "fl(tid := unat rem) = fl" using fl(1) by auto
            ultimately show ?thesis using C by auto
          next
            case 3
            then have "match_step tid t (rem, s) = Inl (rem, True, cancel_meta ?r s)"
              using rem Some cr mk by (simp add: match_step_def mt Let_def sb)
            then show ?thesis using C by simp
          next
            case 4
            obtain f where e: "match_step tid t (rem, s) = Inr (rem - ?q, own_trade tid ?r mk ?q f s)"
              using rem Some cr mk 4 by (simp add: match_step_def own_trade_def mt Let_def sb if_min)
            note O = own_trade_ok [where f = f, OF ok tk fl(1) flr mk r refl rem refl]
            show ?thesis unfolding e using O by (auto intro!: exI [of _ "tk\<lparr> m_filled := m_filled tk + ?q \<rparr>"])
          qed
        qed
      qed
    qed
  qed
qed

text \<open>So the loop ends, and leaves the taker with what it could not fill.\<close>

lemma match_ok:
  "engine_ok {} fl s \<Longrightarrow> runs s tid tk \<Longrightarrow> fl tid = unat rem \<Longrightarrow> (\<And>j. j \<noteq> tid \<Longrightarrow> fl j = 0) \<Longrightarrow>
   \<exists>rem' killed s' tk'. match tid t (rem, s) = Some (rem', killed, s') \<and> engine_ok {} (fl(tid := unat rem')) s' \<and>
     runs s' tid tk' \<and> m_req tk' = m_req tk \<and> m_state tk' = m_state tk \<and> m_cancelled tk' = m_cancelled tk \<and>
     shrinks s s' \<and> (rem' \<noteq> 0 \<longrightarrow> \<not> killed \<longrightarrow> out_of_reach s' (m_req tk) t)"
proof (induction "nat (effort rem s)" arbitrary: rem s fl tk rule: less_induct)
  case less
  note S = match_step_ok [OF less.prems, of t]
  show ?case
  proof (cases "match_step tid t (rem, s)")
    case (Inl res)
    obtain rem' killed s' where res: "res = (rem', killed, s')" by (cases res) auto
    have "match tid t (rem, s) = Some (rem', killed, s')" by (subst match.simps) (simp add: Inl res)
    moreover have "fl(tid := unat rem) = fl" using less.prems(3) by auto
    ultimately show ?thesis using S by (auto simp: Inl res)
  next
    case (Inr rs)
    obtain rem1 s1 where rs: "rs = (rem1, s1)" by (cases rs)
    from S obtain tk1 where 1: "engine_ok {} (fl(tid := unat rem1)) s1" "runs s1 tid tk1" "m_req tk1 = m_req tk"
      "m_state tk1 = m_state tk" "m_cancelled tk1 = m_cancelled tk" "shrinks s s1" "effort rem1 s1 < effort rem s"
      by (auto simp: Inr rs)
    have "0 \<le> effort rem1 s1" using hsum_nonneg [of "mt_orders s1"] by (simp add: effort_def)
    then have "nat (effort rem1 s1) < nat (effort rem s)" using 1(7) by linarith
    from less.hyps [OF this 1(1,2)] less.prems(4) obtain rem' killed s' tk' where
      2: "match tid t (rem1, s1) = Some (rem', killed, s')" "engine_ok {} (fl(tid := unat rem')) s'" "runs s' tid tk'"
        "m_req tk' = m_req tk" "m_state tk' = m_state tk" "m_cancelled tk' = m_cancelled tk" "shrinks s1 s'"
        "rem' \<noteq> 0 \<longrightarrow> \<not> killed \<longrightarrow> out_of_reach s' (m_req tk) t"
      using 1(3-5) by auto
    have "match tid t (rem, s) = Some (rem', killed, s')" by (subst match.simps) (simp add: Inr rs 2(1))
    with 2 shrinks_trans [OF 1(6) 2(7)] show ?thesis by blast
  qed
qed

section \<open>Running an order\<close>

abbreviation no_flight :: "u64 \<Rightarrow> nat" where
  "no_flight \<equiv> (\<lambda>_. 0)"

definition uncrossed :: "matcher \<Rightarrow> bool" where
  "uncrossed s \<longleftrightarrow> (\<forall>p q. occupied s True p \<longrightarrow> occupied s False q \<longrightarrow> p < q)"

lemma shrinks_uncrossed: "shrinks s s' \<Longrightarrow> uncrossed s \<Longrightarrow> uncrossed s'"
  by (auto simp: shrinks_def uncrossed_def)

definition slice_of :: "request \<Rightarrow> u32 \<Rightarrow> u32" where
  "slice_of req rem = (if rq_display req > 0 \<and> rq_display req < rem then rq_display req else rem)"

lemma slice_of_laws:
  assumes "rem \<noteq> 0"
  shows "0 < slice_of req rem" "unat (slice_of req rem) + unat (rem - slice_of req rem) = unat rem"
    "rem - slice_of req rem \<noteq> 0 \<longrightarrow> rq_display req \<noteq> 0"
proof -
  have "slice_of req rem \<le> rem" by (simp add: slice_of_def order.strict_implies_order)
  from unat_sub_le [OF this] show "unat (slice_of req rem) + unat (rem - slice_of req rem) = unat rem" by simp
qed (use assms in \<open>auto simp: slice_of_def word_gt_0\<close>)

lemma rest_known:
  assumes "om_wf (mt_orders s)" "om_get i (mt_orders s) = Some m"
  shows "rest_order i rem s =
    s\<lparr> mt_orders := om_set i (m\<lparr> m_resting := slice_of (m_req m) rem, m_hidden := rem - slice_of (m_req m) rem,
         m_in_book := True \<rparr>) (mt_orders s),
       mt_book := bk_add (rq_id (m_req m)) (side_char (rq_side (m_req m) = Buy)) (rq_price (m_req m))
         (slice_of (m_req m) rem) (mt_book s) \<rparr>"
  using assms
  by (simp add: rest_order_def Let_def upd_meta_def book_add_def meta_of_def om_get_set om_set_set slice_of_def)

lemma rest_ok:
  assumes ok: "engine_ok {} (no_flight(i := unat rem)) s" and tk: "runs s i m" and rem: "rem \<noteq> 0"
    and p: "is_i32 (rq_price (m_req m))" "0 < rq_price (m_req m)" and room: "resting_of s + 1 < 2 ^ 32"
    and far: "out_of_reach s (m_req m) Limit"
    and s': "mt_orders s' = om_set i (m\<lparr> m_resting := slice_of (m_req m) rem, m_hidden := rem - slice_of (m_req m) rem,
         m_in_book := True, m_state := (if m_filled m > 0 then PartiallyFilled else Accepted) \<rparr>) (mt_orders s)"
      "mt_book s' = bk_add (rq_id (m_req m)) (side_char (rq_side (m_req m) = Buy)) (rq_price (m_req m))
         (slice_of (m_req m) rem) (mt_book s)" "mt_filled_total s' = mt_filled_total s"
      "mt_submitted s' = mt_submitted s" "mt_cancelled_total s' = mt_cancelled_total s"
      "mt_asserted s'" "mt_pending_stops s' = mt_pending_stops s"
  shows "engine_ok {} no_flight s'" "resting_of s' = resting_of s + 1" "uncrossed s \<Longrightarrow> uncrossed s'"
proof -
  note D = engine_okD [OF ok] and T = tk [unfolded runs_def]
  have t: "om_get i (mt_orders s) = Some m" using T by blast
  have M: "meta_ok (mt_book s) i (unat rem) m" using D(6) [OF t] by simp
  let ?d = "rq_side (m_req m) = Buy" and ?p = "rq_price (m_req m)" and ?sl = "slice_of (m_req m) rem"
  have nb: "\<not> bound (mt_book s) i" and rid: "rq_id (m_req m) = i" using M T by (auto simp: meta_ok_def)
  note A = bk.add_ok [OF D(1) nb p room, of ?d ?sl] bk.add_rests [OF D(1) nb p room, of ?d ?sl]
    and U = undisturbed_add [OF D(1) nb p room]
  note sl = slice_of_laws [OF rem, of "m_req m"]
  let ?m = "m\<lparr> m_resting := ?sl, m_hidden := rem - ?sl, m_in_book := True,
      m_state := (if m_filled m > 0 then PartiallyFilled else Accepted) \<rparr>"
  have b: "mt_book s' = bk_add i (side_char ?d) ?p ?sl (mt_book s)" by (simp add: s'(2) rid)
  have "unat (m_filled m) + unat (m_cancelled m) + unat rem = unat (rq_quantity (m_req m))"
    using M T by (auto simp: meta_ok_def)
  then have mo: "meta_ok (mt_book s') i 0 ?m"
    using M T p(2) sl A(2) by (simp add: meta_ok_def b)
  have "engine_ok {} ((no_flight(i := unat rem))(i := 0)) s'"
    by (rule engine_put [OF ok t s'(1)])
      (use s'(3-7) T D(5) A(1) U mo in \<open>simp_all add: b subset_insertI\<close>)
  then show "engine_ok {} no_flight s'" by (simp add: fun_upd_idem)
  show "resting_of s' = resting_of s + 1" using bk.add_resting [OF D(1) nb p room] by (simp add: b)
  show "uncrossed s'" if "uncrossed s"
    unfolding uncrossed_def
  proof (intro allI impI)
    fix x y assume "occupied s' True x" "occupied s' False y"
    then have "occupied s True x \<or> ?d \<and> x = ?p" "occupied s False y \<or> \<not> ?d \<and> y = ?p"
      unfolding occupied_def b A(2) by auto
    moreover have "?p < y" if "occupied s False y" ?d
      using far that by (auto simp: out_of_reach_def crosses_def)
    moreover have "x < ?p" if "occupied s True x" "\<not> ?d"
      using far that by (auto simp: out_of_reach_def crosses_def)
    ultimately show "x < y" using \<open>uncrossed s\<close> unfolding uncrossed_def by blast
  qed
qed

definition ready :: "matcher \<Rightarrow> u64 \<Rightarrow> meta \<Rightarrow> bool" where
  "ready s i m \<longleftrightarrow>
     om_get i (mt_orders s) = Some m \<and> \<not> m_in_book m \<and> \<not> m_entered m \<and> m_state m \<in> {New, Accepted} \<and>
     i \<notin> set (mt_pending_stops s) \<and> is_i32 (rq_price (m_req m))"

definition accounts_for :: "result \<Rightarrow> request \<Rightarrow> bool" where
  "accounts_for r req \<longleftrightarrow>
     unat (rs_filled r) + unat (rs_resting r) + unat (rs_cancelled r) = unat (rq_quantity req)"

lemma refuse_ok:
  assumes ok: "engine_ok {} no_flight s" and m: "ready s i m"
  shows "engine_ok {} no_flight (transition i (if m_state m = New then Rejected else Cancelled) s)"
proof -
  note D = engine_okD [OF ok] and R = m [unfolded ready_def]
  have t: "om_get i (mt_orders s) = Some m" using R by blast
  have "engine_ok {} (no_flight(i := 0)) (transition i (if m_state m = New then Rejected else Cancelled) s)"
    by (rule engine_put [OF ok t, of _ "m\<lparr> m_state := (if m_state m = New then Rejected else Cancelled) \<rparr>"])
      (use R D D(6) [OF t] in \<open>auto simp: transition_known [OF t] meta_ok_def\<close>)
  then show ?thesis by (simp add: fun_upd_idem)
qed

text \<open>The end of a run that does not rest: what is left is cancelled.\<close>

lemma finish_ok:
  assumes ok: "engine_ok {} (no_flight(i := unat rem)) s" and tk: "runs s i m"
    and s': "mt_orders s' = om_set i (m\<lparr> m_cancelled := m_cancelled m + rem, m_state := st \<rparr>) (mt_orders s)"
      "mt_book s' = mt_book s" "mt_filled_total s' = mt_filled_total s" "mt_submitted s' = mt_submitted s"
      "mt_cancelled_total s' = mt_cancelled_total s + ucast rem" "mt_asserted s'"
      "mt_pending_stops s' = mt_pending_stops s"
  shows "engine_ok {} no_flight s'"
proof -
  note D = engine_okD [OF ok] and T = tk [unfolded runs_def]
  have t: "om_get i (mt_orders s) = Some m" using T by blast
  have M: "meta_ok (mt_book s) i (unat rem) m" using D(6) [OF t] by simp
  then have sum: "unat (m_filled m) + unat (m_cancelled m) + unat rem = unat (rq_quantity (m_req m))"
    and "unat (rq_quantity (m_req m)) < 2 ^ 31" using T by (auto simp: meta_ok_def)
  then have f: "unat (m_cancelled m) + unat rem < 2 ^ 32" by simp
  have "engine_ok {} ((no_flight(i := unat rem))(i := 0)) s'"
    by (rule engine_put [OF ok t s'(1)])
      (use s' T D M sum in \<open>auto simp: ucast_add_fits [OF f] meta_ok_def unat_add_fits [OF f]\<close>)
  then show ?thesis by (simp add: fun_upd_idem)
qed

lemma run_order_ok:
  assumes ok: "engine_ok {} no_flight s" and m: "ready s i m" and room: "resting_of s + 1 < 2 ^ 32"
    and pos: "can_rest t \<Longrightarrow> 0 < rq_price (m_req m)"
  shows "\<exists>ran r' s'. run_order i r t s = Some (ran, r', s') \<and> engine_ok {} no_flight s' \<and>
    resting_of s' \<le> resting_of s + 1 \<and> mt_pending_stops s' = mt_pending_stops s \<and>
    (uncrossed s \<longrightarrow> uncrossed s') \<and>
    (ran \<longrightarrow> rs_resting r = 0 \<longrightarrow> rs_cancelled r = 0 \<longrightarrow> accounts_for r' (m_req m)) \<and>
    rs_reject r' = (if ran then rs_reject r else if t = FOK then FokUnfillable else NoLiquidity)"
proof -
  note D = engine_okD [OF ok] and R = m [unfolded ready_def]
  have t: "om_get i (mt_orders s) = Some m" using R by blast
  have M: "meta_ok (mt_book s) i 0 m" using D(6) [OF t] by simp
  have mi: "meta_of s i = m" by (rule meta_of_known [OF t])
  let ?ref = "if m_state m = New then Rejected else Cancelled"
  note tr = transition_known [OF t, of ?ref]
  have refused: "resting_of (transition i ?ref s) = resting_of s"
    "mt_pending_stops (transition i ?ref s) = mt_pending_stops s"
    "uncrossed s \<longrightarrow> uncrossed (transition i ?ref s)"
    by (simp_all add: tr uncrossed_def occupied_def)
  consider "t = FOK \<and> available (m_req m) t s < rq_quantity (m_req m)"
    | "t = Market \<and> \<not> has_liquidity (m_req m) s"
    | "\<not> (t = FOK \<and> available (m_req m) t s < rq_quantity (m_req m))" "\<not> (t = Market \<and> \<not> has_liquidity (m_req m) s)"
    by blast
  then show ?thesis
  proof cases
    case 1
    then have "run_order i r t s = Some (False, r\<lparr> rs_state := ?ref, rs_reject := FokUnfillable \<rparr>, transition i ?ref s)"
      unfolding run_order_def mi Let_def by (rule if_P)
    with refuse_ok [OF ok m] refused 1 show ?thesis by (intro exI [of _ False]) simp
  next
    case 2
    then have "run_order i r t s = Some (False, r\<lparr> rs_state := ?ref, rs_reject := NoLiquidity \<rparr>, transition i ?ref s)"
      unfolding run_order_def mi Let_def by (subst if_not_P) (use 2 in simp, rule if_P [OF 2])
    with refuse_ok [OF ok m] refused 2 show ?thesis by (intro exI [of _ False]) simp
  next
    case 3
    let ?q = "rq_quantity (m_req m)"
    define s1 where "s1 = s\<lparr> mt_submitted := mt_submitted s + ucast ?q,
        mt_orders := om_set i (m\<lparr> m_entered := True \<rparr>) (mt_orders s) \<rparr>"
    have 1: "engine_ok {} (no_flight(i := unat ?q)) s1"
      by (rule engine_put [OF ok t, of _ "m\<lparr> m_entered := True \<rparr>"])
        (use R D M in \<open>auto simp: s1_def meta_ok_def\<close>)
    have r1: "runs s1 i (m\<lparr> m_entered := True \<rparr>)" using R by (simp add: runs_def s1_def om_get_set D(2))
    from match_ok [OF 1 r1, of ?q t] obtain rem killed s2 tk where
      2: "match i t (?q, s1) = Some (rem, killed, s2)" "engine_ok {} (no_flight(i := unat rem)) s2" "runs s2 i tk"
        "m_req tk = m_req m" "m_state tk = m_state m" "m_cancelled tk = m_cancelled m" "shrinks s1 s2"
        "rem \<noteq> 0 \<longrightarrow> \<not> killed \<longrightarrow> out_of_reach s2 (m_req m) t" by auto
    have res2: "resting_of s2 \<le> resting_of s" and p2: "mt_pending_stops s2 = mt_pending_stops s"
      and u2: "uncrossed s \<Longrightarrow> uncrossed s2"
      using 2(7) shrinks_uncrossed [OF 2(7)] by (auto simp: shrinks_def s1_def uncrossed_def occupied_def)
    note D2 = engine_okD [OF 2(2)]
    have t2: "om_get i (mt_orders s2) = Some tk" and T2: "m_state tk \<in> {New, Accepted}" using 2(3) by (auto simp: runs_def)
    have "meta_ok (mt_book s2) i (unat rem) tk" using D2(6) [OF t2] by simp
    then have sum: "unat (m_filled tk) + unat rem = unat ?q"
      using 2(3,4,6) R M by (auto simp: meta_ok_def runs_def)
    let ?r = "r\<lparr> rs_filled := m_filled tk, rs_fill_count := length (mt_fills s2) - rs_first_fill r \<rparr>"
    have s1': "upd_meta i (\<lambda>m. m\<lparr> m_entered := True \<rparr>) (s\<lparr> mt_submitted := mt_submitted s + ucast ?q \<rparr>) = s1"
      by (simp add: upd_meta_def s1_def meta_of_def t)
    have run: "run_order i r t s = Some (True, finish_order i r t rem killed s2)"
      unfolding run_order_def mi Let_def s1' if_not_P [OF 3(1)] if_not_P [OF 3(2)] by (simp add: 2(1))
    show ?thesis
    proof (cases "rem = 0")
      case True
      let ?s = "transition i Filled s2"
      have e: "run_order i r t s = Some (True, ?r\<lparr> rs_state := m_state (meta_of ?s i) \<rparr>, ?s)"
        unfolding run by (simp add: finish_order_def True meta_of_known [OF t2])
      have "engine_ok {} no_flight ?s"
        by (rule finish_ok [OF 2(2,3)]) (use True T2 D2(3) in \<open>auto simp: transition_known [OF t2]\<close>)
      moreover have "resting_of ?s = resting_of s2" "mt_pending_stops ?s = mt_pending_stops s2"
        "uncrossed s2 \<Longrightarrow> uncrossed ?s"
        by (simp_all add: transition_known [OF t2] uncrossed_def occupied_def)
      ultimately show ?thesis
        unfolding e using res2 p2 u2 sum True by (auto simp: accounts_for_def)
    next
      case rem: False
      then have rem': "rem > 0" by (simp add: word_gt_0)
      show ?thesis
      proof (cases "can_rest t \<and> \<not> killed")
        case False
        then have nc: "\<not> (rem > 0 \<and> can_rest t \<and> \<not> killed)" by blast
        let ?m = "tk\<lparr> m_cancelled := m_cancelled tk + rem, m_state := Cancelled \<rparr>"
        let ?s = "s2\<lparr> mt_orders := om_set i ?m (mt_orders s2), mt_cancelled_total := mt_cancelled_total s2 + ucast rem,
            mt_asserted := mt_asserted s2 \<and> legal_transition (m_state tk) Cancelled \<rparr>"
        have e: "run_order i r t s = Some (True, ?r\<lparr> rs_cancelled := rem, rs_state := m_state (meta_of ?s i) \<rparr>, ?s)"
          unfolding run finish_order_def Let_def if_not_P [OF nc] if_P [OF rem']
          by (simp add: transition_def upd_meta_def meta_of_def t2 om_get_set D2(2) om_set_set)
        have "engine_ok {} no_flight ?s"
          by (rule finish_ok [OF 2(2,3)]) (use T2 D2(3) in auto)
        moreover have "uncrossed s2 \<Longrightarrow> uncrossed ?s" by (simp add: uncrossed_def occupied_def)
        ultimately show ?thesis
          unfolding e using res2 p2 u2 sum by (auto simp: accounts_for_def)
      next
        case rest: True
        then have tl: "t = Limit" by (simp add: can_rest_def)
        let ?sl = "slice_of (m_req m) rem"
        let ?want = "if m_filled tk > 0 then PartiallyFilled else Accepted"
        let ?m = "tk\<lparr> m_resting := ?sl, m_hidden := rem - ?sl, m_in_book := True, m_state := ?want \<rparr>"
        define s3 where "s3 = (let s = rest_order i rem s2 in if m_state tk \<noteq> ?want then transition i ?want s else s)"
        have rk: "rest_order i rem s2 = s2\<lparr> mt_orders := om_set i (tk\<lparr> m_resting := ?sl, m_hidden := rem - ?sl,
             m_in_book := True \<rparr>) (mt_orders s2), mt_book := bk_add (rq_id (m_req m))
               (side_char (rq_side (m_req m) = Buy)) (rq_price (m_req m)) ?sl (mt_book s2) \<rparr>"
          using rest_known [OF D2(2) t2, of rem] 2(4) by simp
        have mr: "meta_of (rest_order i rem s2) i = tk\<lparr> m_resting := ?sl, m_hidden := rem - ?sl, m_in_book := True \<rparr>"
          by (simp add: rk meta_of_def om_get_set D2(2))
        have e: "run_order i r t s = Some (True, ?r\<lparr> rs_resting := ?sl + (rem - ?sl), rs_state := m_state (meta_of s3 i) \<rparr>, s3)"
          unfolding run finish_order_def s3_def Let_def mr using rem' rest by (simp add: meta_of_known [OF t2])
        have s3: "mt_orders s3 = om_set i ?m (mt_orders s2)"
          "mt_book s3 = bk_add (rq_id (m_req tk)) (side_char (rq_side (m_req tk) = Buy)) (rq_price (m_req tk))
             (slice_of (m_req tk) rem) (mt_book s2)"
          "mt_filled_total s3 = mt_filled_total s2" "mt_submitted s3 = mt_submitted s2"
          "mt_cancelled_total s3 = mt_cancelled_total s2" "mt_asserted s3" "mt_pending_stops s3 = mt_pending_stops s2"
          using T2 D2(3) 2(4)
          by (cases tk; auto simp: s3_def Let_def rk transition_def upd_meta_def meta_of_def om_get_set D2(2) om_set_set)+
        have p: "is_i32 (rq_price (m_req tk))" "0 < rq_price (m_req tk)" and room2: "resting_of s2 + 1 < 2 ^ 32"
          and far: "out_of_reach s2 (m_req tk) Limit"
          using R pos rest 2(4,8) rem room res2 tl by auto
        note O = rest_ok [OF 2(2,3) rem p room2 far]
        have O': "engine_ok {} no_flight s3" "resting_of s3 = resting_of s2 + 1" "uncrossed s2 \<Longrightarrow> uncrossed s3"
          by (rule O; use s3 2(4) in simp)+
        show ?thesis
          unfolding e using O' res2 p2 u2 sum s3(7) by (auto simp: accounts_for_def)
      qed
    qed
  qed
qed

end
