(* ===== verification/Engine.thy ===== *)
theory Engine
  imports MatcherOk
begin

text \<open>
  The operations of the engine keep its invariant, return, and leave the book uncrossed. An engine run
  is any sequence of submissions, cancels, fills applied from outside, stop pumps and changes of the
  shared book that leave the engine's own orders alone; every state of one balances its shares, agrees
  with the book and has tripped no assertion.
\<close>

section \<open>Stops\<close>

definition load :: "matcher \<Rightarrow> nat" where
  "load s = resting_of s + length (mt_pending_stops s)"

lemma next_stop_spec:
  "next_stop s kept ids = (pend, res) \<Longrightarrow> distinct (kept @ ids) \<Longrightarrow>
   set pend \<subseteq> set kept \<union> set ids \<and> distinct pend \<and> length pend \<le> length kept + length ids \<and>
   (\<forall>i. res = Some i \<longrightarrow> i \<in> set ids \<and> i \<notin> set pend \<and> length pend < length kept + length ids)"
proof (induction s kept ids rule: next_stop.induct)
  case (2 s kept i ids)
  show ?case
  proof (cases "om_get i (mt_orders s)")
    case None
    with 2 show ?thesis by auto
  next
    case (Some m)
    consider "is_terminal (m_state m)" | "\<not> is_terminal (m_state m)" "\<not> stop_is_triggered (m_req m) s"
      | "\<not> is_terminal (m_state m)" "stop_is_triggered (m_req m) s" by blast
    then show ?thesis
    proof cases
      case 1
      with 2(2) [OF Some 1] 2(4,5) Some show ?thesis by auto
    next
      case n: 2
      from 2(3) [OF Some n] 2(4,5) Some n have
        "set pend \<subseteq> set (kept @ [i]) \<union> set ids \<and> distinct pend \<and> length pend \<le> length (kept @ [i]) + length ids \<and>
         (\<forall>j. res = Some j \<longrightarrow> j \<in> set ids \<and> j \<notin> set pend \<and> length pend < length (kept @ [i]) + length ids)"
        by simp
      then show ?thesis by auto
    next
      case 3
      with 2(4,5) Some show ?thesis by auto
    qed
  qed
qed auto

lemma stop_ready:
  assumes ok: "engine_ok {} no_flight s" and i: "om_get i (mt_orders s) = Some m" "stop_parked m"
    and np: "i \<notin> set (mt_pending_stops s)"
  shows "ready s i m" "can_rest (effective_type (rq_type (m_req m))) \<Longrightarrow> 0 < rq_price (m_req m)"
  using i np by (auto simp: ready_def stop_parked_def can_rest_def effective_type_def is_stop_def split: if_splits)

lemma elect_ok:
  assumes ok: "engine_ok {} no_flight s" and i: "om_get i (mt_orders s) = Some m" "stop_parked m"
    and np: "i \<notin> set (mt_pending_stops s)" and room: "resting_of s + 1 < 2 ^ 32"
  shows "\<exists>ran r s'. elect_stop i s = Some (ran, r, s') \<and> engine_ok {} no_flight s' \<and>
    resting_of s' \<le> resting_of s + 1 \<and> mt_pending_stops s' = mt_pending_stops s \<and> (uncrossed s \<longrightarrow> uncrossed s')"
proof -
  note D = engine_okD [OF ok]
  let ?m = "m\<lparr> m_sequence := mt_seq s + 1 \<rparr>"
  define s1 where "s1 = s\<lparr> mt_seq := mt_seq s + 1, mt_orders := om_set i ?m (mt_orders s) \<rparr>"
  have "engine_ok {} (no_flight(i := 0)) s1"
    by (rule engine_put [OF ok i(1), of _ ?m]) (use D D(6) [OF i(1)] np in \<open>auto simp: s1_def meta_ok_def\<close>)
  then have 1: "engine_ok {} no_flight s1" by (simp add: fun_upd_idem)
  have i1: "om_get i (mt_orders s1) = Some ?m" "stop_parked ?m" "i \<notin> set (mt_pending_stops s1)"
    using i np by (simp_all add: s1_def om_get_set D(2) stop_parked_def)
  have e: "elect_stop i s = run_order i (result_new\<lparr> rs_first_fill := length (mt_fills s) \<rparr>)
      (effective_type (rq_type (m_req m))) s1"
    by (simp add: elect_stop_def Let_def upd_meta_def s1_def meta_of_def i om_get_set D(2))
  have "resting_of s1 + 1 < 2 ^ 32" "mt_pending_stops s1 = mt_pending_stops s" "resting_of s1 = resting_of s"
    "uncrossed s1 = uncrossed s"
    using room by (simp_all add: s1_def uncrossed_def occupied_def)
  moreover note run_order_ok [OF 1 stop_ready(1) [OF 1 i1] this(1), of "effective_type (rq_type (m_req m))"
      "result_new\<lparr> rs_first_fill := length (mt_fills s) \<rparr>"] stop_ready(2) [OF 1 i1]
  ultimately show ?thesis unfolding e by auto
qed

lemma fire_stops_ok:
  "engine_ok {} no_flight s \<Longrightarrow> load s < 2 ^ 32 \<Longrightarrow>
   \<exists>any s'. fire_stops s = Some (any, s') \<and> engine_ok {} no_flight s' \<and> load s' \<le> load s \<and>
     length (mt_pending_stops s') \<le> length (mt_pending_stops s) \<and> (uncrossed s \<longrightarrow> uncrossed s')"
proof (induction "length (mt_pending_stops s)" arbitrary: s rule: less_induct)
  case less
  note ok = less.prems(1) and D = engine_okD [OF less.prems(1)]
  obtain pend res where n: "next_stop s [] (mt_pending_stops s) = (pend, res)" by (meson surj_pair)
  have P: "set pend \<subseteq> set (mt_pending_stops s)" "distinct pend" "length pend \<le> length (mt_pending_stops s)"
    "\<And>i. res = Some i \<Longrightarrow> i \<in> set (mt_pending_stops s) \<and> i \<notin> set pend \<and> length pend < length (mt_pending_stops s)"
    using next_stop_spec [OF n] D(5) by auto
  define s0 where "s0 = s\<lparr> mt_pending_stops := pend \<rparr>"
  have 0: "engine_ok {} no_flight s0"
    using ok P(1,2) unfolding engine_ok_def totals_ok_def s0_def by auto
  have u0: "uncrossed s0 = uncrossed s" "resting_of s0 = resting_of s" "mt_pending_stops s0 = pend"
    "mt_orders s0 = mt_orders s"
    by (simp_all add: s0_def uncrossed_def occupied_def)
  show ?case
  proof (cases res)
    case None
    then have "fire_stops s = Some (False, s0)" by (subst fire_stops.simps) (simp add: n s0_def)
    with 0 u0 P(3) show ?thesis by (auto simp: load_def)
  next
    case (Some i)
    from P(4) [OF Some] D(7) obtain m where m: "om_get i (mt_orders s) = Some m" "stop_parked m" by blast
    have room: "resting_of s0 + 1 < 2 ^ 32" using less.prems(2) P(4) [OF Some] by (simp add: load_def u0)
    from elect_ok [OF 0, of i m] m P(4) [OF Some] room u0 obtain ran r s1 where
      1: "elect_stop i s0 = Some (ran, r, s1)" "engine_ok {} no_flight s1" "resting_of s1 \<le> resting_of s + 1"
        "mt_pending_stops s1 = pend" "uncrossed s \<longrightarrow> uncrossed s1" by auto
    have l1: "load s1 \<le> load s" "length (mt_pending_stops s1) < length (mt_pending_stops s)"
      using 1(3,4) P(4) [OF Some] by (simp_all add: load_def)
    obtain any s2 where 2: "(if ran then fire_stops s1 else Some (False, s1)) = Some (any, s2)"
      "engine_ok {} no_flight s2" "load s2 \<le> load s1" "length (mt_pending_stops s2) \<le> length (mt_pending_stops s1)"
      "uncrossed s1 \<longrightarrow> uncrossed s2"
    proof (cases ran)
      case True
      with less.hyps [OF l1(2) 1(2)] l1(1) less.prems(2) that show thesis by auto
    next
      case False
      with that [of False s1] 1(2) show thesis by simp
    qed
    have l2: "length (mt_pending_stops s2) < length (mt_pending_stops s)" "load s2 < 2 ^ 32"
      using 2(3,4) l1 less.prems(2) by linarith+
    from less.hyps [OF l2(1) 2(2) l2(2)] obtain any' s3 where 3: "fire_stops s2 = Some (any', s3)"
      "engine_ok {} no_flight s3" "load s3 \<le> load s2" "length (mt_pending_stops s3) \<le> length (mt_pending_stops s2)"
      "uncrossed s2 \<longrightarrow> uncrossed s3" by blast
    have "fire_stops s = Some (True, s3)"
      by (subst fire_stops.simps) (simp add: n Some s0_def [symmetric] 1(1) 2(1) 3(1))
    then show ?thesis using 3 2 1 l1 l2 by fastforce
  qed
qed

section \<open>Every operation\<close>

definition request_ok :: "matcher \<Rightarrow> request \<Rightarrow> bool" where
  "request_ok s req \<longleftrightarrow> is_i32 (rq_price req) \<and> unat (rq_quantity req) < 2 ^ 31 \<and>
     (om_get (rq_id req) (mt_orders s) = None \<longrightarrow> \<not> bound (mt_book s) (rq_id req)) \<and> load s + 1 < 2 ^ 32"

lemma engine_new:
  assumes ok: "engine_ok {} no_flight s" and new: "om_get i (mt_orders s) = None"
    and m: "meta_ok (mt_book s) i 0 m" "\<not> m_entered m"
    and s': "mt_orders s' = om_set i m (mt_orders s)" "mt_book s' = mt_book s" "mt_asserted s' = mt_asserted s"
      "mt_submitted s' = mt_submitted s" "mt_filled_total s' = mt_filled_total s"
      "mt_cancelled_total s' = mt_cancelled_total s" "mt_pending_stops s' = mt_pending_stops s"
  shows "engine_ok {} no_flight s'" "i \<notin> set (mt_pending_stops s')"
proof -
  note D = engine_okD [OF ok]
  have z: "m_filled m = 0" "m_cancelled m = 0" using m by (auto simp: meta_ok_def)
  show np: "i \<notin> set (mt_pending_stops s')" using D(7) [of i] new by (auto simp: s')
  have "totals_ok s'"
    using D(4) m(2) z by (simp add: totals_ok_def s' msum_set(2) [OF D(2) new])
  moreover have "\<exists>n. om_get j (mt_orders s') = Some n \<and> stop_parked n" if "j \<in> set (mt_pending_stops s')" for j
    using that D(7) [of j] np by (cases "j = i") (auto simp: s' om_get_set D(2))
  ultimately show "engine_ok {} no_flight s'"
    using D m(1) by (auto simp: engine_ok_def s' om_get_set)
qed

lemma run_ok:
  assumes ok: "engine_ok {} no_flight s" and m: "ready s i m" and room: "load s + 1 < 2 ^ 32"
    and pos: "can_rest t \<Longrightarrow> 0 < rq_price (m_req m)"
    and r: "rs_resting r = 0" "rs_cancelled r = 0" "rs_reject r = NoReject"
  shows "\<exists>r' s'. run i r t s = Some (r', s') \<and> engine_ok {} no_flight s' \<and> load s' \<le> load s + 1 \<and>
    (uncrossed s \<longrightarrow> uncrossed s') \<and> (rs_reject r' = NoReject \<longrightarrow> accounts_for r' (m_req m))"
proof -
  have "resting_of s + 1 < 2 ^ 32" using room by (simp add: load_def)
  from run_order_ok [OF ok m this pos, of t r] obtain ran r1 s1 where
    1: "run_order i r t s = Some (ran, r1, s1)" "engine_ok {} no_flight s1" "resting_of s1 \<le> resting_of s + 1"
      "mt_pending_stops s1 = mt_pending_stops s" "uncrossed s \<longrightarrow> uncrossed s1" "ran \<longrightarrow> accounts_for r1 (m_req m)"
      "rs_reject r1 = (if ran then NoReject else if t = FOK then FokUnfillable else NoLiquidity)"
    using r by auto
  have l1: "load s1 \<le> load s + 1" "load s1 < 2 ^ 32" using 1(3,4) room by (simp_all add: load_def)
  show ?thesis
  proof (cases ran)
    case False
    then have "run i r t s = Some (r1, s1)" by (simp add: run_def 1(1))
    with False 1 l1 show ?thesis by (auto split: if_splits)
  next
    case True
    from fire_stops_ok [OF 1(2) l1(2)] obtain any s2 where 2: "fire_stops s1 = Some (any, s2)"
      "engine_ok {} no_flight s2" "load s2 \<le> load s1" "uncrossed s1 \<longrightarrow> uncrossed s2" by blast
    have "run i r t s = Some (r1\<lparr> rs_triggered_stops := any \<rparr>, s2)" using True by (simp add: run_def 1(1) 2(1))
    moreover have "accounts_for (r1\<lparr> rs_triggered_stops := any \<rparr>) (m_req m)"
      using True 1(6) by (simp add: accounts_for_def)
    ultimately show ?thesis using 1 2 l1 by auto
  qed
qed

lemma submit_ok:
  assumes ok: "engine_ok {} no_flight s" and req: "request_ok s req"
  shows "\<exists>r s'. submit req s = Some (r, s') \<and> engine_ok {} no_flight s' \<and> load s' \<le> load s + 1 \<and>
    (uncrossed s \<longrightarrow> uncrossed s') \<and>
    (rs_reject r = NoReject \<longrightarrow> \<not> is_stop (rq_type req) \<longrightarrow> accounts_for r req)"
proof -
  note D = engine_okD [OF ok] and Q = req [unfolded request_ok_def]
  let ?i = "rq_id req"
  let ?r = "result_new\<lparr> rs_first_fill := length (mt_fills s) \<rparr>"
  define s0 where "s0 = s\<lparr> mt_match_no := mt_match_no s + 1 \<rparr>"
  have v: "validate req s0 = validate req s" by (simp add: s0_def validate_def)
  have 0: "engine_ok {} no_flight s0" "load s0 = load s" "uncrossed s0 = uncrossed s"
    by (rule engine_cong [OF ok]; simp add: s0_def) (simp_all add: s0_def load_def uncrossed_def occupied_def)
  show ?thesis
  proof (cases "validate req s = NoReject")
    case False
    let ?m = "meta_new\<lparr> m_req := req, m_state := Rejected \<rparr>"
    define s1 where "s1 = (if om_get ?i (mt_orders s) = None then s0\<lparr> mt_orders := om_set ?i ?m (mt_orders s0) \<rparr> else s0)"
    have "engine_ok {} no_flight s1"
    proof (cases "om_get ?i (mt_orders s) = None")
      case True
      have "meta_ok (mt_book s) ?i 0 ?m" using Q True by (simp add: meta_ok_def meta_new_def)
      from engine_new(1) [OF ok True this, of s1] True show ?thesis
        by (simp add: s1_def s0_def meta_new_def)
    next
      case False
      have "s1 = s0" unfolding s1_def by (rule if_not_P [OF False])
      then show ?thesis using 0(1) by simp
    qed
    moreover have "load s1 = load s" "uncrossed s1 = uncrossed s"
      by (simp_all add: s1_def s0_def load_def uncrossed_def occupied_def)
    moreover have "submit req s = Some (?r\<lparr> rs_state := Rejected, rs_reject := validate req s \<rparr>, s1)"
      using False v by (simp add: submit_def Let_def s1_def s0_def)
    ultimately show ?thesis using False by auto
  next
    case good: True
    then have new: "om_get ?i (mt_orders s) = None" and nb: "\<not> bound (mt_book s) ?i"
      and price: "rq_type req \<noteq> Market \<Longrightarrow> rq_type req \<noteq> StopMarket \<Longrightarrow> 0 < rq_price req"
      using Q by (auto simp: validate_def split: if_splits)
    let ?m = "meta_new\<lparr> m_req := req, m_sequence := mt_seq s + 1 \<rparr>"
    define s1 where "s1 = s\<lparr> mt_match_no := mt_match_no s + 1, mt_seq := mt_seq s + 1,
        mt_orders := om_set ?i ?m (mt_orders s) \<rparr>"
    have "meta_ok (mt_book s) ?i 0 ?m" using Q nb by (simp add: meta_ok_def meta_new_def)
    note N = engine_new [OF ok new this, of s1]
    have 1: "engine_ok {} no_flight s1" "?i \<notin> set (mt_pending_stops s1)"
      using N by (simp_all add: meta_new_def s1_def)
    have i1: "om_get ?i (mt_orders s1) = Some ?m" by (simp add: s1_def om_get_set D(2))
    have rd: "ready s1 ?i ?m" using 1(2) i1 Q by (simp add: ready_def meta_new_def)
    have l1: "load s1 = load s" "uncrossed s1 = uncrossed s" "load s1 + 1 < 2 ^ 32"
      using Q by (simp_all add: s1_def load_def uncrossed_def occupied_def)
    have e: "submit req s =
      (if is_stop (rq_type req) then
         if stop_is_triggered req s1 then run ?i ?r (effective_type (rq_type req)) s1
         else Some (?r\<lparr> rs_state := Accepted \<rparr>,
           (upd_meta ?i (\<lambda>m. m\<lparr> m_resting := 0 \<rparr>) (transition ?i Accepted s1))
             \<lparr> mt_pending_stops := mt_pending_stops s1 @ [?i] \<rparr>)
       else run ?i ?r (rq_type req) s1)"
      using good v
      by (simp add: submit_def Let_def s1_def s0_def stop_is_triggered_def transition_def)
    have R: "\<exists>r' s'. run ?i ?r t s1 = Some (r', s') \<and> engine_ok {} no_flight s' \<and> load s' \<le> load s + 1 \<and>
        (uncrossed s \<longrightarrow> uncrossed s') \<and> (rs_reject r' = NoReject \<longrightarrow> accounts_for r' req)"
      if "can_rest t \<longrightarrow> 0 < rq_price req" for t
      using run_ok [OF 1(1) rd l1(3), of t ?r] that l1 by (simp add: result_new_def)
    consider "is_stop (rq_type req)" "stop_is_triggered req s1" | "is_stop (rq_type req)" "\<not> stop_is_triggered req s1"
      | "\<not> is_stop (rq_type req)" by blast
    then show ?thesis
    proof cases
      case 1
      have "can_rest (effective_type (rq_type req)) \<longrightarrow> 0 < rq_price req"
        using price 1(1) by (auto simp: can_rest_def effective_type_def is_stop_def split: if_splits)
      from R [OF this] 1 show ?thesis unfolding e by auto
    next
      case 3
      have "can_rest (rq_type req) \<longrightarrow> 0 < rq_price req" using price by (simp add: can_rest_def)
      from R [OF this] 3 show ?thesis unfolding e by auto
    next
      case 2
      let ?m' = "?m\<lparr> m_state := Accepted \<rparr>"
      define s2 where "s2 = (upd_meta ?i (\<lambda>m. m\<lparr> m_resting := 0 \<rparr>) (transition ?i Accepted s1))
             \<lparr> mt_pending_stops := mt_pending_stops s1 @ [?i] \<rparr>"
      have s2: "s2 = s1\<lparr> mt_orders := om_set ?i ?m' (mt_orders s1), mt_pending_stops := mt_pending_stops s1 @ [?i] \<rparr>"
        using engine_okD(2) [OF 1(1)] engine_okD(3) [OF 1(1)]
        by (simp add: s2_def transition_known [OF i1] upd_meta_def meta_of_def om_get_set om_set_set)
          (simp add: meta_new_def)
      have "stop_parked ?m'" using 2(1) Q price by (auto simp: stop_parked_def meta_new_def)
      moreover have "meta_ok (mt_book s2) ?i 0 ?m'" using Q nb by (simp add: meta_ok_def meta_new_def s2 s1_def)
      ultimately have "engine_ok {} (no_flight(?i := 0)) s2"
        using engine_okD(1,3,5) [OF 1(1)] 1(2)
        by (intro engine_put [OF 1(1) i1, of s2 ?m']) (simp_all add: s2 meta_new_def)
      then have "engine_ok {} no_flight s2" by (simp add: fun_upd_idem)
      moreover have "load s2 = load s + 1" "uncrossed s2 = uncrossed s"
        using l1 by (simp_all add: s2 load_def uncrossed_def occupied_def)
      ultimately show ?thesis unfolding e s2_def [symmetric] using 2 by auto
    qed
  qed
qed

lemma cancel_ok:
  assumes ok: "engine_ok {} no_flight s"
  shows "engine_ok {} no_flight (snd (cancel i s))" "load (snd (cancel i s)) \<le> load s"
    "uncrossed s \<Longrightarrow> uncrossed (snd (cancel i s))"
proof -
  note D = engine_okD [OF ok]
  have "engine_ok {} no_flight (snd (cancel i s)) \<and> load (snd (cancel i s)) \<le> load s \<and>
    (uncrossed s \<longrightarrow> uncrossed (snd (cancel i s)))"
  proof (cases "\<exists>m. om_get i (mt_orders s) = Some m \<and> \<not> is_terminal (m_state m)")
    case False
    then have "snd (cancel i s) = s" by (auto simp: cancel_def split: option.splits)
    with ok show ?thesis by simp
  next
    case True
    then obtain m where m: "om_get i (mt_orders s) = Some m" "\<not> is_terminal (m_state m)" by blast
    then have e: "snd (cancel i s) = cancel_meta i s" by (simp add: cancel_def)
    have M: "meta_ok (mt_book s) i 0 m" using D(6) [OF m(1)] by simp
    have rid: "rq_id (m_req m) = i" using M by (simp add: meta_ok_def)
    note C = cancel_known [OF D(2) m(1)]
    have "resting_of (cancel_meta i s) \<le> resting_of s"
    proof (cases "m_in_book m")
      case True
      then have "rests (mt_book s) i (rq_side (m_req m) = Buy) (rq_price (m_req m)) (m_resting m)"
        using M by (simp add: meta_ok_def)
      from bk.remove_resting [OF D(1) this] True show ?thesis by (simp add: C rid)
    qed (simp add: C)
    moreover have "length (remove1 i (mt_pending_stops s)) \<le> length (mt_pending_stops s)"
      by (simp add: length_remove1)
    moreover have "occupied s d p" if "occupied (cancel_meta i s) d p" for d p
      using that by (auto simp: occupied_def C rid bk.remove_rests [OF D(1)] split: if_splits)
    ultimately show ?thesis
      unfolding e using cancel_meta_ok [OF ok m] by (auto simp: load_def uncrossed_def) (simp add: C rid)
  qed
  then show "engine_ok {} no_flight (snd (cancel i s))" "load (snd (cancel i s)) \<le> load s"
    "uncrossed s \<Longrightarrow> uncrossed (snd (cancel i s))" by blast+
qed

lemma external_fill_ok:
  assumes ok: "engine_ok {} no_flight s" and r: "apply_external_fill i n p x s = (q, s')"
  shows "engine_ok {} no_flight s'" "load s' \<le> load s" "uncrossed s \<Longrightarrow> uncrossed s'"
proof -
  note D = engine_okD [OF ok]
  have "engine_ok {} no_flight s' \<and> load s' \<le> load s \<and> (uncrossed s \<longrightarrow> uncrossed s')"
  proof (cases "s' = s")
    case False
    then obtain m where m: "om_get i (mt_orders s) = Some m" "m_in_book m" "m_resting m \<noteq> 0"
      using r by (auto simp: apply_external_fill_def split: option.splits if_splits)
    let ?q = "min n (m_resting m)"
    let ?m = "m\<lparr> m_resting := m_resting m - ?q, m_filled := m_filled m + ?q \<rparr>"
    let ?f = "\<lparr> fl_taker = 0, fl_maker = i, fl_taker_owner = 0, fl_maker_owner = rq_owner (m_req m),
                      fl_price = p, fl_shares = ?q, fl_maker_sequence = m_sequence m,
                      fl_match_number = x, fl_external = True \<rparr>"
    define s1 where "s1 = s\<lparr> mt_book := bk_take i ?q (mt_book s), mt_orders := om_set i ?m (mt_orders s),
        mt_filled_total := mt_filled_total s + ucast ?q, mt_external_filled := mt_external_filled s + ucast ?q,
        mt_fills := mt_fills s @ [?f], mt_last_trade := p, mt_has_last_trade := True \<rparr>"
    have "settle_maker i s1 = s'"
      using r False m
      by (auto simp: apply_external_fill_def Let_def if_min s1_def upd_meta_def meta_of_def note_trade_def
          split: option.splits if_splits)
    then have e: "s' = settle_maker i s1" by simp
    have M: "meta_ok (mt_book s) i 0 m" using D(6) [OF m(1)] by simp
    let ?d = "rq_side (m_req m) = Buy" and ?p = "rq_price (m_req m)"
    have R: "rests (mt_book s) i ?d ?p (m_resting m)" using M m(2) by (simp add: meta_ok_def)
    note T = take_maker [OF ok m(1) R, of ?q s1]
    have 1: "engine_ok {i} no_flight s1" "unsettled (mt_book s1) i ?m"
      "m_resting ?m = 0 \<Longrightarrow> bk_resting_orders (snd (mt_book s1)) + 1 < 2 ^ 32"
      using T by (simp_all add: s1_def)
    have i1: "om_get i (mt_orders s1) = Some ?m" by (simp add: s1_def om_get_set D(2))
    note E = settle_effort [OF 1(1) i1 1(2,3)]
    have res: "resting_of s1 + (if m_resting ?m = 0 then 1 else 0) = resting_of s"
    proof (cases "m_resting m \<le> ?q")
      case True
      then have "m_resting ?m = 0" by (simp add: min_def split: if_splits)
      then show ?thesis using bk.take_all(1) [OF D(1) R True] by (simp add: s1_def)
    next
      case False
      then have lt: "?q < m_resting m" by simp
      then have "m_resting ?m \<noteq> 0" by auto
      then show ?thesis using bk.take_part(1) [OF D(1) R lt] by (simp add: s1_def)
    qed
    have place: "occupied s ?d ?p" using R by (auto simp: occupied_def)
    have "occupied s d y" if o1: "occupied s' d y" for d y
    proof -
      from o1 consider "occupied s1 d y" | "d = ?d" "y = ?p" using E(3) [of d y] by (auto simp: e)
      then show ?thesis
      proof cases
        case 1
        then show ?thesis using bk.take_place [OF D(1)] by (auto simp: occupied_def s1_def) blast
      qed (use place in simp)
    qed
    moreover have "load s' \<le> load s" using E(2,4) res by (simp add: e load_def) (simp add: s1_def)
    ultimately show ?thesis using settle_maker_ok [OF 1(1) i1 1(2) refl 1(3)] by (auto simp: e uncrossed_def)
  qed (use ok in simp)
  then show "engine_ok {} no_flight s'" "load s' \<le> load s" "uncrossed s \<Longrightarrow> uncrossed s'" by blast+
qed

section \<open>Runs\<close>

inductive engine_run :: "matcher \<Rightarrow> bool" where
  start: "good sb \<Longrightarrow> engine_run (matcher_on sb)"
| submitted: "engine_run s \<Longrightarrow> request_ok s req \<Longrightarrow> submit req s = Some (r, s') \<Longrightarrow> engine_run s'"
| cancelled: "engine_run s \<Longrightarrow> cancel i s = (b, s') \<Longrightarrow> engine_run s'"
| filled: "engine_run s \<Longrightarrow> apply_external_fill i n p x s = (q, s') \<Longrightarrow> engine_run s'"
| pumped: "engine_run s \<Longrightarrow> load s < 2 ^ 32 \<Longrightarrow> pump_stops s = Some (b, s') \<Longrightarrow> engine_run s'"
| market: "engine_run s \<Longrightarrow> good sb \<Longrightarrow>
    (\<And>i m. om_get i (mt_orders s) = Some m \<Longrightarrow> undisturbed (mt_book s) sb i) \<Longrightarrow> engine_run (s\<lparr> mt_book := sb \<rparr>)"

lemma engine_run_ok: "engine_run s \<Longrightarrow> engine_ok {} no_flight s"
proof (induction rule: engine_run.induct)
  case (start sb)
  then show ?case by (simp add: engine_ok_def matcher_on_def totals_ok_def msum_def)
next
  case (submitted s req r s')
  from submit_ok [OF submitted.IH submitted.hyps(2)] submitted.hyps(3) show ?case by auto
next
  case (cancelled s i b s')
  from cancel_ok(1) [OF cancelled.IH, of i] cancelled.hyps(2) show ?case by simp
next
  case (filled s i n p x q s')
  from external_fill_ok(1) [OF filled.IH filled.hyps(2)] show ?case .
next
  case (pumped s b s')
  from fire_stops_ok [OF pumped.IH pumped.hyps(2)] pumped.hyps(3) show ?case by (auto simp: pump_stops_def)
next
  case (market s sb)
  note D = engine_okD [OF market.IH]
  have "meta_ok sb i 0 m" if "om_get i (mt_orders s) = Some m" for i m
    by (rule meta_ok_undisturbed [OF market.hyps(3) [OF that]]) (use D(6) [OF that] in simp)
  then show ?case using market.IH market.hyps(2) by (simp add: engine_ok_def totals_ok_def)
qed

section \<open>What the invariant says\<close>

lemma agrees_ok:
  assumes ok: "engine_ok {} no_flight s"
  shows "agrees_with_book s"
proof -
  note D = engine_okD [OF ok]
  obtain st b where sb: "mt_book s = (st, b)" by (meson surj_pair)
  have g: "good (st, b)" using D(1) sb by simp
  show ?thesis
    unfolding agrees_with_book_def
  proof (rule ballI, clarify)
    fix i m assume "(i, m) \<in> set (mt_orders s)"
    then have M: "meta_ok (st, b) i 0 m" using D(6) [of i m] om_get_mem [OF D(2)] sb by simp
    show "case bk_find i (mt_book s) of None \<Rightarrow> \<not> m_in_book m
       | Some x \<Rightarrow> m_in_book m \<and> o_shares (st_heap (fst (mt_book s)) x) = m_resting m"
    proof (cases "m_in_book m")
      case True
      then have "rests (st, b) i (rq_side (m_req m) = Buy) (rq_price (m_req m)) (m_resting m)"
        using M by (simp add: meta_ok_def)
      from rests_order [OF g this] obtain x where
        "bk_find i (st, b) = Some x" "o_shares (st_heap st x) = m_resting m" by metis
      with True show ?thesis by (simp add: sb)
    next
      case False
      then have "bk_find i (st, b) = None" using M by (auto simp: meta_ok_def bound_def bk_find_def)
      with False show ?thesis by (simp add: sb)
    qed
  qed
qed

lemma om_sum_entered:
  "(\<And>i m. (i, m) \<in> set xs \<Longrightarrow> \<not> P m \<Longrightarrow> f m = (0 :: u64)) \<Longrightarrow>
   (\<Sum>m \<leftarrow> filter P (map snd xs). f m) = msum f xs"
proof (induction xs)
  case (Cons x xs)
  have "(\<Sum>m \<leftarrow> filter P (map snd xs). f m) = msum f xs"
    by (rule Cons.IH) (use Cons.prems in auto)
  then show ?case using Cons.prems [of "fst x" "snd x"] by (cases x) (auto simp: msum_def)
qed (simp add: msum_def)

lemma msum_add: "msum (\<lambda>m. f m + g m) xs = msum f xs + msum g xs"
  by (induction xs) (auto simp: msum_def)

lemma msum_cong: "(\<And>i m. (i, m) \<in> set xs \<Longrightarrow> f m = g m) \<Longrightarrow> msum f xs = msum g xs"
  unfolding msum_def by (rule arg_cong [where f = sum_list], rule map_cong) auto

lemma conserves_ok:
  assumes ok: "engine_ok {} no_flight s"
  shows "conserves_shares s"
proof -
  note D = engine_okD [OF ok]
  have M: "meta_ok (mt_book s) i 0 m" if "(i, m) \<in> set (mt_orders s)" for i m
    using D(6) [of i m] om_get_mem [OF D(2)] that by simp
  have z: "m_filled m = 0 \<and> m_cancelled m = 0 \<and> m_resting m = 0 \<and> m_hidden m = 0"
    if "(i, m) \<in> set (mt_orders s)" "\<not> m_entered m" for i m
    using M [OF that(1)] that(2) by (simp add: meta_ok_def)
  have S: "unat (m_filled m) + unat (m_cancelled m) + (unat (m_resting m) + unat (m_hidden m)) = unat (rq_quantity (m_req m)) \<and>
      unat (rq_quantity (m_req m)) < 2 ^ 31"
    if "(i, m) \<in> set (mt_orders s)" "m_entered m" for i m
    using M [OF that(1)] that(2) by (simp add: meta_ok_def)
  have W: "m_filled m + m_cancelled m + m_resting m + m_hidden m = rq_quantity (m_req m) \<and>
      (ucast (rq_quantity (m_req m)) :: u64) = ucast (m_filled m) + ucast (m_cancelled m) + ucast (m_resting m + m_hidden m)"
    if m: "(i, m) \<in> set (mt_orders s)" "m_entered m" for i m
  proof -
    note S' = S [OF m]
    have a: "unat (m_resting m + m_hidden m) = unat (m_resting m) + unat (m_hidden m)"
      by (rule unat_add_fits) (use S' in simp)
    have b: "unat (m_filled m + m_cancelled m) = unat (m_filled m) + unat (m_cancelled m)"
      by (rule unat_add_fits) (use S' in simp)
    have c: "unat (m_filled m + m_cancelled m) + unat (m_resting m + m_hidden m) = unat (rq_quantity (m_req m))"
      using S' a b by simp
    then have d: "unat (m_filled m + m_cancelled m + (m_resting m + m_hidden m)) = unat (rq_quantity (m_req m))"
      using S' unat_add_fits [of "m_filled m + m_cancelled m" "m_resting m + m_hidden m"] by simp
    then have q: "m_filled m + m_cancelled m + (m_resting m + m_hidden m) = rq_quantity (m_req m)"
      by (simp only: word_unat_eq_iff)
    have "(ucast (m_filled m + m_cancelled m + (m_resting m + m_hidden m)) :: u64) =
        ucast (m_filled m) + ucast (m_cancelled m) + ucast (m_resting m + m_hidden m)"
      using ucast_add_fits [of "m_filled m + m_cancelled m" "m_resting m + m_hidden m"]
        ucast_add_fits [of "m_filled m" "m_cancelled m"] S' a b c by simp
    with q show ?thesis by (simp add: add.assoc)
  qed
  let ?xs = "mt_orders s"
  have sums: "(\<Sum>m \<leftarrow> filter m_entered (map snd ?xs). ucast (m_filled m)) = msum (\<lambda>m. ucast (m_filled m)) ?xs"
    "(\<Sum>m \<leftarrow> filter m_entered (map snd ?xs). ucast (m_cancelled m)) = msum (\<lambda>m. ucast (m_cancelled m)) ?xs"
    "(\<Sum>m \<leftarrow> filter m_entered (map snd ?xs). ucast (m_resting m + m_hidden m)) = msum (\<lambda>m. ucast (m_resting m + m_hidden m)) ?xs"
    by (rule om_sum_entered; use z in fastforce)+
  have "msum (\<lambda>m. if m_entered m then ucast (rq_quantity (m_req m)) else 0) ?xs =
      msum (\<lambda>m. ucast (m_filled m) + ucast (m_cancelled m) + ucast (m_resting m + m_hidden m)) ?xs"
    using W z by (intro msum_cong) (metis (no_types, lifting) add_0 ucast_0)
  also have "\<dots> = msum (\<lambda>m. ucast (m_filled m)) ?xs + msum (\<lambda>m. ucast (m_cancelled m)) ?xs +
      msum (\<lambda>m. ucast (m_resting m + m_hidden m)) ?xs"
    by (simp only: msum_add)
  finally show ?thesis
    using D(4) z W unfolding conserves_shares_def sums Let_def totals_ok_def by auto
qed

lemma uncrossed_iff:
  assumes g: "good (mt_book s)"
  shows "uncrossed s \<longleftrightarrow> \<not> crossed (snd (mt_book s))"
proof -
  obtain st b where sb: "mt_book s = (st, b)" by (meson surj_pair)
  have g': "good (st, b)" using g sb by simp
  have occ: "occupied s d p \<longleftrightarrow> book_view (st, b) d p \<noteq> []" for d p
    by (auto simp: occupied_def rests_def sb) (metis list.set_intros(1) list.exhaust surj_pair)
  have bb: "best_bid b = best (the_side True b)" "best_ask b = best (the_side False b)"
    by (simp_all add: best_bid_def best_ask_def the_side_def)
  note S = best_side_ok [OF g']
  show ?thesis
  proof (cases "best_bid b")
    case None
    then show ?thesis using S(2) [of True] by (auto simp: uncrossed_def occ crossed_def sb bb)
  next
    case bid: (Some p)
    show ?thesis
    proof (cases "best_ask b")
      case None
      then show ?thesis using S(2) [of False] by (auto simp: uncrossed_def occ crossed_def sb bb split: option.split)
    next
      case (Some q)
      have P: "book_view (st, b) True p \<noteq> []" "\<And>x. book_view (st, b) True x \<noteq> [] \<Longrightarrow> x \<le> p"
        using S(1) [of True p] bid by (simp_all add: bb)
      have Q: "book_view (st, b) False q \<noteq> []" "\<And>x. book_view (st, b) False x \<noteq> [] \<Longrightarrow> q \<le> x"
        using S(1) [of False q] Some by (simp_all add: bb)
      have "uncrossed s \<longleftrightarrow> p < q"
        unfolding uncrossed_def occ using P Q by (meson order_le_less_trans order_less_le_trans)
      then show ?thesis using bid Some by (auto simp: crossed_def sb)
    qed
  qed
qed

section \<open>A sample engine\<close>

text \<open>An engine on an empty book of its own, and the requests the properties are tried on.\<close>

definition sample_book0 :: bstate where
  "sample_book0 = (store_new blank_heap 1 2 2, set_band_levels 1 (book_new 1 100 20))"

definition sell_limit :: "u64 \<Rightarrow> u64 \<Rightarrow> int \<Rightarrow> u32 \<Rightarrow> request" where
  "sell_limit i owner price q =
     request_new\<lparr> rq_id := i, rq_owner := owner, rq_side := Sell, rq_price := price, rq_quantity := q \<rparr>"

definition buy_fok :: "u64 \<Rightarrow> u64 \<Rightarrow> int \<Rightarrow> u32 \<Rightarrow> stp \<Rightarrow> request" where
  "buy_fok i owner price q st =
     request_new\<lparr> rq_id := i, rq_owner := owner, rq_type := FOK, rq_price := price, rq_quantity := q, rq_stp := st \<rparr>"

fun submit_all :: "request list \<Rightarrow> matcher \<Rightarrow> (result list \<times> matcher) option" where
  "submit_all [] s = Some ([], s)"
| "submit_all (req # reqs) s =
     (case submit req s of
        None \<Rightarrow> None
      | Some (r, s) \<Rightarrow> (case submit_all reqs s of None \<Rightarrow> None | Some (rs, s) \<Rightarrow> Some (r # rs, s)))"

lemma sample_good: "good sample_book0"
proof -
  have "represents (bookset_new blank_heap 1 100 20 1 2 2) []" by (rule bookset_new_represents) simp_all
  then have st: "store_ok (store_new blank_heap 1 2 2)"
    using representsD(1) by (fastforce simp: bookset_new_def)
  have "mine (store_new blank_heap 1 2 2) 1 = {}"
    by (simp add: mine_def live_def store_new_def ran_def rm_find_new)
  from book_new_ok [OF this, of 100 1 20] st show ?thesis by (auto simp: good_def sample_book0_def)
qed

lemma sample_request:
  "request_ok (matcher_on sample_book0) (sell_limit 1 5 1000 50)"
  by (simp add: request_ok_def sell_limit_def request_new_def is_i32_def matcher_on_def load_def bound_def
      sample_book0_def store_new_def set_band_levels_def book_new_def rm_find_new)

end
