(* ===== verification/Money.thy ===== *)
theory Money
  imports Book
begin

text \<open>
  The units of the simulator and what it is charged: include/itchbook/sim/money.hpp, fees.hpp, mid.hpp
  and the vocabulary of event.hpp. Amounts are micro-dollars in \<open>int64\<close>, here \<open>int\<close>: signed overflow is
  undefined in the code, and the totals of a day stay far below it. A division truncates towards zero.
\<close>

section \<open>Micro-dollars\<close>

type_synonym money = int

definition kMicrosPerPrice4 :: money where "kMicrosPerPrice4 = 100"
definition kMicrosPerDollar :: money where "kMicrosPerDollar = 1000000"
definition kMicrosPerCent :: money where "kMicrosPerCent = 10000"

datatype liquidity = Added | Removed | Cross

definition notional :: "int \<Rightarrow> int \<Rightarrow> money" where
  "notional price signed_shares = price * kMicrosPerPrice4 * signed_shares"

definition divide_round :: "money \<Rightarrow> money \<Rightarrow> money" where
  "divide_round numerator denominator =
     (if denominator = 0 then 0
      else let half = denominator sdiv 2
           in if numerator \<ge> 0 then (numerator + half) sdiv denominator else (numerator - half) sdiv denominator)"

lemma sdiv_pos: "0 \<le> a \<Longrightarrow> 0 \<le> b \<Longrightarrow> a sdiv b = a div (b :: int)"
  by (auto simp: signed_divide_int_def sgn_if)

lemma sdiv_neg: "a \<le> 0 \<Longrightarrow> 0 \<le> b \<Longrightarrow> a sdiv b = - ((- a) div (b :: int))"
  by (auto simp: signed_divide_int_def sgn_if)

lemma divide_round_cases:
  assumes "0 < d"
  shows "0 \<le> n \<Longrightarrow> divide_round n d = (n + d div 2) div d" "n < 0 \<Longrightarrow> divide_round n d = - ((- n + d div 2) div d)"
  using assms sdiv_neg [of "n - d div 2" d] by (auto simp: divide_round_def Let_def sdiv_pos)

lemma divide_round_even: "0 < d \<Longrightarrow> divide_round (- n) d = - divide_round n d"
  using divide_round_cases [of d n] divide_round_cases [of d "- n"] by (cases "n = 0"; cases "n < 0") auto

lemma divide_round_near:
  assumes d: "0 < d"
  shows "2 * \<bar>n - d * divide_round n d\<bar> \<le> d"
proof -
  have pos: "2 * \<bar>m - d * ((m + d div 2) div d)\<bar> \<le> d" for m :: int
  proof -
    let ?r = "(m + d div 2) mod d"
    have e: "m - d * ((m + d div 2) div d) = ?r - d div 2"
      using mult_div_mod_eq [of d "m + d div 2"] by (simp add: algebra_simps)
    have "0 \<le> ?r" "?r < d" using d by simp_all
    moreover have "2 * (d div 2) = d - d mod 2" using mult_div_mod_eq [of 2 d] by linarith
    moreover have "0 \<le> d mod 2" "d mod 2 < 2" by simp_all
    ultimately show ?thesis unfolding e by (auto simp: abs_if)
  qed
  show ?thesis
  proof (cases "0 \<le> n")
    case True
    then show ?thesis using pos [of n] divide_round_cases(1) [OF d] by simp
  next
    case False
    then have "n - d * divide_round n d = - (- n - d * ((- n + d div 2) div d))"
      using divide_round_cases(2) [OF d, of n] by simp
    then show ?thesis using pos [of "- n"] by (simp only: abs_minus_cancel)
  qed
qed

section \<open>Fees\<close>

record exchange_fees =
  ef_maker :: money
  ef_taker :: money
  ef_cross :: money

definition exchange_fees_default :: exchange_fees where
  "exchange_fees_default = \<lparr> ef_maker = -2000, ef_taker = 3000, ef_cross = 1500 \<rparr>"

record regulatory_fees =
  rf_sec_per_million_dollars_centis :: int
  rf_taf_per_share :: money
  rf_taf_cap_per_trade :: money

definition regulatory_fees_default :: regulatory_fees where
  "regulatory_fees_default =
     \<lparr> rf_sec_per_million_dollars_centis = 2070, rf_taf_per_share = 119, rf_taf_cap_per_trade = 5950000 \<rparr>"

record fee_schedule =
  fs_exchange :: exchange_fees
  fs_regulatory :: regulatory_fees
  fs_name :: string

definition fee_schedule_default :: fee_schedule where
  "fee_schedule_default = \<lparr> fs_exchange = exchange_fees_default, fs_regulatory = regulatory_fees_default,
     fs_name = ''nasdaq-base-2019'' \<rparr>"

definition exchange_fee :: "fee_schedule \<Rightarrow> liquidity \<Rightarrow> u64 \<Rightarrow> money" where
  "exchange_fee f liq shares =
     (let rate = (if liq = Added then ef_maker (fs_exchange f)
                  else if liq = Removed then ef_taker (fs_exchange f) else ef_cross (fs_exchange f))
      in rate * uint shares)"

definition regulatory_fee :: "fee_schedule \<Rightarrow> bool \<Rightarrow> int \<Rightarrow> u64 \<Rightarrow> money" where
  "regulatory_fee f is_sell price shares =
     (if \<not> is_sell then 0
      else
        let proceeds = notional price (uint shares);
            sec = divide_round (proceeds * rf_sec_per_million_dollars_centis (fs_regulatory f)) (100 * kMicrosPerDollar);
            taf = rf_taf_per_share (fs_regulatory f) * uint shares;
            taf = min taf (rf_taf_cap_per_trade (fs_regulatory f))
        in sec + taf)"

definition total_fee :: "fee_schedule \<Rightarrow> liquidity \<Rightarrow> bool \<Rightarrow> int \<Rightarrow> u64 \<Rightarrow> money" where
  "total_fee f liq is_sell price shares = exchange_fee f liq shares + regulatory_fee f is_sell price shares"

definition nasdaq_top_tier_2019 :: fee_schedule where
  "nasdaq_top_tier_2019 =
     fee_schedule_default\<lparr> fs_exchange := exchange_fees_default\<lparr> ef_maker := -3050 \<rparr>, fs_name := ''nasdaq-top-tier-2019'' \<rparr>"

definition inverted_venue_2019 :: fee_schedule where
  "inverted_venue_2019 =
     fee_schedule_default\<lparr> fs_exchange := exchange_fees_default\<lparr> ef_maker := 1800, ef_taker := -1600 \<rparr>,
       fs_name := ''inverted-2019'' \<rparr>"

section \<open>Sides and prices\<close>

datatype sim_side = SBuy | SSell

fun sim_opposite :: "sim_side \<Rightarrow> sim_side" where
  "sim_opposite SBuy = SSell"
| "sim_opposite SSell = SBuy"

fun sim_to_char :: "sim_side \<Rightarrow> u8" where
  "sim_to_char SBuy = side_B"
| "sim_to_char SSell = side_S"

definition from_char :: "u8 \<Rightarrow> sim_side" where
  "from_char c = (if c = side_B then SBuy else SSell)"

definition at_or_through :: "sim_side \<Rightarrow> int \<Rightarrow> int \<Rightarrow> bool" where
  "at_or_through s limit px \<longleftrightarrow> (if s = SBuy then px \<le> limit else px \<ge> limit)"

definition better_than_ours :: "sim_side \<Rightarrow> int \<Rightarrow> int \<Rightarrow> bool" where
  "better_than_ours s limit px \<longleftrightarrow> (if s = SBuy then px > limit else px < limit)"

definition strictly_through :: "sim_side \<Rightarrow> int \<Rightarrow> int \<Rightarrow> bool" where
  "strictly_through s limit px \<longleftrightarrow> (if s = SBuy then px < limit else px > limit)"

datatype event_class = CNone | CTrade | CCancel | CAdd

record resolved =
  rv_type :: u8
  rv_cls :: event_class
  rv_known :: bool
  rv_ref :: u64
  rv_side :: sim_side
  rv_resting_price :: int
  rv_shares :: u32
  rv_printable :: bool
  rv_print_price :: int
  rv_ts :: u64

definition resolved_new :: resolved where
  "resolved_new = \<lparr> rv_type = 0, rv_cls = CNone, rv_known = False, rv_ref = 0, rv_side = SBuy, rv_resting_price = 0,
     rv_shares = 0, rv_printable = False, rv_print_price = 0, rv_ts = 0 \<rparr>"

definition rv_trades :: "resolved \<Rightarrow> bool" where "rv_trades r \<longleftrightarrow> rv_cls r = CTrade"
definition rv_cancels :: "resolved \<Rightarrow> bool" where "rv_cancels r \<longleftrightarrow> rv_cls r = CCancel"

datatype trigger = Execution | Lock | Through | Naive | Taking

record sim_fill =
  sf_order_id :: u64
  sf_side :: sim_side
  sf_price :: int
  sf_shares :: u32
  sf_ts :: u64
  sf_trigger :: trigger
  sf_liquidity :: liquidity
  sf_ahead_at_arrival :: u64

section \<open>The mid\<close>

datatype mid_status = Ok | Locked | OneSided | StrictlyCrossed | Halted | OutsideContinuous | MidEmpty

definition usable :: "mid_status \<Rightarrow> bool" where
  "usable s \<longleftrightarrow> s = Ok \<or> s = Locked"

record mid =
  two_mid :: int
  mid_status :: mid_status

definition mid_new :: mid where
  "mid_new = \<lparr> two_mid = 0, mid_status = MidEmpty \<rparr>"

definition mid_ok :: "mid \<Rightarrow> bool" where
  "mid_ok m \<longleftrightarrow> usable (mid_status m)"

definition mid_micros :: "mid \<Rightarrow> money" where
  "mid_micros m = two_mid m * (kMicrosPerPrice4 sdiv 2)"

definition observe_mid :: "book \<Rightarrow> bool \<Rightarrow> bool \<Rightarrow> mid" where
  "observe_mid b in_continuous can_trade =
     (let m = mid_new in
      if \<not> in_continuous then m\<lparr> mid_status := OutsideContinuous \<rparr>
      else if \<not> can_trade then m\<lparr> mid_status := Halted \<rparr>
      else case (best_bid b, best_ask b) of
        (None, None) \<Rightarrow> m\<lparr> mid_status := MidEmpty \<rparr>
      | (Some bid, Some ask) \<Rightarrow>
          if bid > ask then m\<lparr> mid_status := StrictlyCrossed \<rparr>
          else \<lparr> two_mid = bid + ask, mid_status = (if bid = ask then Locked else Ok) \<rparr>
      | _ \<Rightarrow> m\<lparr> mid_status := OneSided \<rparr>)"

lemma observe_mid_ok:
  "mid_ok (observe_mid b c t) \<longleftrightarrow>
     c \<and> t \<and> (\<exists>bid ask. best_bid b = Some bid \<and> best_ask b = Some ask \<and> bid \<le> ask \<and>
       two_mid (observe_mid b c t) = bid + ask)"
  by (auto simp: observe_mid_def mid_ok_def usable_def mid_new_def Let_def split: option.splits)

end
