(* ===== verification/Kill.thy ===== *)
theory Kill
  imports Money
begin

text \<open>
  The post-trade control of include/itchbook/risk/kill_switch.hpp: the rate window in ten buckets, the
  six limits and the latch. Counters are words, amounts and positions are \<open>int\<close>. The results: the
  rate window counts exactly the messages of the last ten buckets, a report once made never changes, a
  live switch has seen nothing beyond its limits, and the backlog limit trips exactly on a sustained
  backlog.
\<close>

section \<open>The configuration and the report\<close>

datatype trip = NoTrip | Position | Notional | MessageRate | OrderToFill | Drawdown | FeedBacklog

fun trip_name :: "trip \<Rightarrow> string" where
  "trip_name NoTrip = ''none''"
| "trip_name Position = ''position''"
| "trip_name Notional = ''notional''"
| "trip_name MessageRate = ''message-rate''"
| "trip_name OrderToFill = ''order-to-fill''"
| "trip_name Drawdown = ''drawdown''"
| "trip_name FeedBacklog = ''feed-backlog''"

record ks_config =
  max_position :: int
  max_notional :: money
  max_messages_per_second :: u64
  max_orders_per_fill :: u64
  ratio_min_orders :: u64
  max_drawdown :: money
  max_ring_occupancy :: u64
  backlog_sustained_ns :: u64

definition ks_config_default :: ks_config where
  "ks_config_default = \<lparr> max_position = 0, max_notional = 0, max_messages_per_second = 0, max_orders_per_fill = 0,
     ratio_min_orders = 100, max_drawdown = 0, max_ring_occupancy = 0, backlog_sustained_ns = 100000000 \<rparr>"

record trip_report =
  tr_reason :: trip
  tr_observed :: int
  tr_limit :: int
  tr_ts :: u64

definition no_report :: trip_report where
  "no_report = \<lparr> tr_reason = NoTrip, tr_observed = 0, tr_limit = 0, tr_ts = 0 \<rparr>"

definition report_tripped :: "trip_report \<Rightarrow> bool" where
  "report_tripped r \<longleftrightarrow> tr_reason r \<noteq> NoTrip"

section \<open>The rate window\<close>

definition kBuckets :: nat where "kBuckets = 10"
definition kBucketNs :: u64 where "kBucketNs = 100000000"
definition kNever :: u64 where "kNever = - 1"

record rate_window =
  rw_epoch :: "u64 list"
  rw_count :: "u64 list"
  rw_now :: u64

definition rw_new :: rate_window where
  "rw_new = \<lparr> rw_epoch = replicate kBuckets kNever, rw_count = replicate kBuckets 0, rw_now = kNever \<rparr>"

definition rw_add :: "u64 \<Rightarrow> rate_window \<Rightarrow> rate_window" where
  "rw_add ts w =
     (let idx = ts div kBucketNs;
          slot = unat idx mod kBuckets;
          w = (if rw_epoch w ! slot \<noteq> idx
               then w\<lparr> rw_epoch := (rw_epoch w)[slot := idx], rw_count := (rw_count w)[slot := 0] \<rparr> else w);
          w = w\<lparr> rw_count := (rw_count w)[slot := rw_count w ! slot + 1] \<rparr>
      in if idx > rw_now w \<or> rw_now w = kNever then w\<lparr> rw_now := idx \<rparr> else w)"

definition rw_rate :: "rate_window \<Rightarrow> u64" where
  "rw_rate w =
     (if rw_now w = kNever then 0
      else (\<Sum>i \<leftarrow> [0..<kBuckets]. if rw_now w - rw_epoch w ! i < of_nat kBuckets then rw_count w ! i else 0))"

definition rw_reset :: "rate_window \<Rightarrow> rate_window" where
  "rw_reset w = w\<lparr> rw_epoch := map (\<lambda>_. kNever) (rw_epoch w), rw_count := map (\<lambda>_. 0) (rw_count w), rw_now := kNever \<rparr>"

section \<open>The switch\<close>

definition kNoBacklog :: u64 where "kNoBacklog = - 1"

record kill_switch =
  ks_cfg :: ks_config
  ks_report :: trip_report
  ks_rate :: rate_window
  ks_messages :: u64
  ks_orders :: u64
  ks_fills :: u64
  ks_peak_seen :: bool
  ks_peak_equity :: money
  ks_backlog_since :: u64
  ks_peak_occupancy :: u64
  ks_last_equity :: money

definition ks_new :: "ks_config \<Rightarrow> kill_switch" where
  "ks_new cfg = \<lparr> ks_cfg = cfg, ks_report = no_report, ks_rate = rw_new, ks_messages = 0, ks_orders = 0, ks_fills = 0,
     ks_peak_seen = False, ks_peak_equity = 0, ks_backlog_since = kNoBacklog, ks_peak_occupancy = 0, ks_last_equity = 0 \<rparr>"

lemma new_cfg [simp]: "ks_cfg (ks_new cfg) = cfg"
  by (simp add: ks_new_def)

definition live :: "kill_switch \<Rightarrow> bool" where
  "live k \<longleftrightarrow> tr_reason (ks_report k) = NoTrip"

definition ks_drawdown :: "kill_switch \<Rightarrow> money" where
  "ks_drawdown k = (if ks_peak_seen k then ks_peak_equity k - ks_last_equity k else 0)"

definition backlogged :: "kill_switch \<Rightarrow> bool" where
  "backlogged k \<longleftrightarrow> ks_backlog_since k \<noteq> kNoBacklog"

definition trip_at :: "trip \<Rightarrow> int \<Rightarrow> int \<Rightarrow> u64 \<Rightarrow> kill_switch \<Rightarrow> kill_switch" where
  "trip_at reason observed limit ts k =
     (if tr_reason (ks_report k) \<noteq> NoTrip then k
      else k\<lparr> ks_report := \<lparr> tr_reason = reason, tr_observed = observed, tr_limit = limit, tr_ts = ts \<rparr> \<rparr>)"

definition check_position :: "u64 \<Rightarrow> int \<Rightarrow> kill_switch \<Rightarrow> kill_switch" where
  "check_position ts position k =
     (if max_position (ks_cfg k) \<le> 0 then k
      else let abs_pos = (if position < 0 then - position else position)
           in if abs_pos > max_position (ks_cfg k) then trip_at Position abs_pos (max_position (ks_cfg k)) ts k else k)"

definition check_notional :: "u64 \<Rightarrow> int \<Rightarrow> int \<Rightarrow> kill_switch \<Rightarrow> kill_switch" where
  "check_notional ts position mark k =
     (if max_notional (ks_cfg k) \<le> 0 \<or> mark \<le> 0 then k
      else let abs_pos = (if position < 0 then - position else position);
               exposure = notional mark abs_pos
           in if exposure > max_notional (ks_cfg k) then trip_at Notional exposure (max_notional (ks_cfg k)) ts k else k)"

definition check_rate :: "u64 \<Rightarrow> kill_switch \<Rightarrow> kill_switch" where
  "check_rate ts k =
     (if max_messages_per_second (ks_cfg k) = 0 then k
      else let r = rw_rate (ks_rate k)
           in if r > max_messages_per_second (ks_cfg k)
              then trip_at MessageRate (sint r) (sint (max_messages_per_second (ks_cfg k))) ts k else k)"

definition check_ratio :: "u64 \<Rightarrow> kill_switch \<Rightarrow> kill_switch" where
  "check_ratio ts k =
     (if max_orders_per_fill (ks_cfg k) = 0 then k
      else if ks_orders k < ratio_min_orders (ks_cfg k) then k
      else let over = (if ks_fills k = 0 then ks_orders k > max_orders_per_fill (ks_cfg k)
                       else ks_orders k > max_orders_per_fill (ks_cfg k) * ks_fills k)
           in if over
              then trip_at OrderToFill (sint (ks_orders k))
                     (sint (max_orders_per_fill (ks_cfg k) * (if ks_fills k = 0 then 1 else ks_fills k))) ts k
              else k)"

definition check_drawdown :: "u64 \<Rightarrow> kill_switch \<Rightarrow> kill_switch" where
  "check_drawdown ts k =
     (if max_drawdown (ks_cfg k) \<le> 0 \<or> \<not> ks_peak_seen k then k
      else let dd = ks_peak_equity k - ks_last_equity k
           in if dd > max_drawdown (ks_cfg k) then trip_at Drawdown dd (max_drawdown (ks_cfg k)) ts k else k)"

definition ks_observe :: "u64 \<Rightarrow> int \<Rightarrow> money \<Rightarrow> int \<Rightarrow> kill_switch \<Rightarrow> kill_switch" where
  "ks_observe ts position equity mark k =
     (let k = (if equity > ks_peak_equity k \<or> \<not> ks_peak_seen k
               then k\<lparr> ks_peak_equity := equity, ks_peak_seen := True \<rparr> else k);
          k = k\<lparr> ks_last_equity := equity \<rparr>
      in check_drawdown ts (check_notional ts position mark (check_position ts position k)))"

definition on_message_sent :: "u64 \<Rightarrow> bool \<Rightarrow> kill_switch \<Rightarrow> kill_switch" where
  "on_message_sent ts is_order k =
     (let k = k\<lparr> ks_messages := ks_messages k + 1 \<rparr>;
          k = (if is_order then k\<lparr> ks_orders := ks_orders k + 1 \<rparr> else k);
          k = k\<lparr> ks_rate := rw_add ts (ks_rate k) \<rparr>
      in check_ratio ts (check_rate ts k))"

definition ks_on_fill :: "u64 \<Rightarrow> int \<Rightarrow> money \<Rightarrow> int \<Rightarrow> kill_switch \<Rightarrow> kill_switch" where
  "ks_on_fill ts position equity mark k = ks_observe ts position equity mark (k\<lparr> ks_fills := ks_fills k + 1 \<rparr>)"

definition on_ring_occupancy :: "u64 \<Rightarrow> u64 \<Rightarrow> kill_switch \<Rightarrow> kill_switch" where
  "on_ring_occupancy ts occupancy k =
     (if max_ring_occupancy (ks_cfg k) = 0 then k
      else
        let k = (if occupancy > ks_peak_occupancy k then k\<lparr> ks_peak_occupancy := occupancy \<rparr> else k);
            backlog = trip_at FeedBacklog (sint occupancy) (sint (max_ring_occupancy (ks_cfg k))) ts
        in if occupancy \<le> max_ring_occupancy (ks_cfg k) then k\<lparr> ks_backlog_since := kNoBacklog \<rparr>
           else if ks_backlog_since k = kNoBacklog then
             (let k = k\<lparr> ks_backlog_since := ts \<rparr>
              in if backlog_sustained_ns (ks_cfg k) = 0 then backlog k else k)
           else if ts < ks_backlog_since k then k\<lparr> ks_backlog_since := ts \<rparr>
           else if ts - ks_backlog_since k \<ge> backlog_sustained_ns (ks_cfg k) then backlog k
           else k)"

definition ks_reset :: "kill_switch \<Rightarrow> kill_switch" where
  "ks_reset k = k\<lparr> ks_report := no_report, ks_rate := rw_reset (ks_rate k), ks_messages := 0, ks_orders := 0,
     ks_fills := 0, ks_peak_seen := False, ks_peak_equity := 0, ks_backlog_since := kNoBacklog, ks_peak_occupancy := 0 \<rparr>"

text \<open>What the system tells the switch, other than the operator's reset.\<close>

datatype ks_event =
  Sent u64 bool
| Filled u64 int money int
| Marked u64 int money int
| Occupied u64 u64

fun ks_step :: "ks_event \<Rightarrow> kill_switch \<Rightarrow> kill_switch" where
  "ks_step (Sent ts is_order) k = on_message_sent ts is_order k"
| "ks_step (Filled ts position eq mark) k = ks_on_fill ts position eq mark k"
| "ks_step (Marked ts position eq mark) k = ks_observe ts position eq mark k"
| "ks_step (Occupied ts occupancy) k = on_ring_occupancy ts occupancy k"

definition ks_run :: "ks_event list \<Rightarrow> kill_switch \<Rightarrow> kill_switch" where
  "ks_run es k = fold ks_step es k"

lemma ks_run_simps [simp]:
  "ks_run [] k = k" "ks_run (e # es) k = ks_run es (ks_step e k)" "ks_run (es @ fs) k = ks_run fs (ks_run es k)"
  by (simp_all add: ks_run_def)

section \<open>The rate window counts the last ten buckets\<close>

definition bucket_of :: "u64 \<Rightarrow> nat" where
  "bucket_of ts = unat ts div 100000000"

lemma unat_idx: "unat (ts div kBucketNs) = bucket_of ts"
  by (simp add: kBucketNs_def bucket_of_def unat_div)

lemma bucket_small: "bucket_of ts < 2 ^ 38"
proof -
  have "unat ts < 2 ^ 64" using unsigned_less [of ts] by simp
  then show ?thesis by (simp add: bucket_of_def)
qed

lemma bucket_eq: "unat e = bucket_of ts \<longleftrightarrow> e = ts div kBucketNs"
  by (metis unat_idx word_unat_eq_iff)

lemma unat_kNever: "unat kNever = 2 ^ 64 - 1"
  by (simp add: kNever_def unsigned_minus_1_eq_mask mask_eq_exp_minus_1)

lemma idx_not_never: "ts div kBucketNs \<noteq> kNever"
proof
  assume "ts div kBucketNs = kNever"
  then have "bucket_of ts = 2 ^ 64 - 1" by (metis unat_idx unat_kNever)
  with bucket_small [of ts] show False by simp
qed

lemma bucket_mono: "unat s \<le> unat t \<Longrightarrow> bucket_of s \<le> bucket_of t"
  by (simp add: bucket_of_def div_le_mono)

text \<open>What a slot holds: nothing, or the messages of the latest bucket that falls on it.\<close>

definition slot_ok :: "u64 list \<Rightarrow> nat \<Rightarrow> u64 \<Rightarrow> u64 \<Rightarrow> bool" where
  "slot_ok ts i e c \<longleftrightarrow>
     (e = kNever \<and> c = 0 \<and> (\<forall>t \<in> set ts. bucket_of t mod kBuckets \<noteq> i)) \<or>
     (unat e mod kBuckets = i \<and> (\<exists>t \<in> set ts. unat e = bucket_of t) \<and>
      c = of_nat (length (filter (\<lambda>t. bucket_of t = unat e) ts)) \<and>
      (\<forall>t \<in> set ts. bucket_of t mod kBuckets = i \<longrightarrow> bucket_of t \<le> unat e))"

definition rw_ok :: "u64 list \<Rightarrow> rate_window \<Rightarrow> bool" where
  "rw_ok ts w \<longleftrightarrow> length (rw_epoch w) = kBuckets \<and> length (rw_count w) = kBuckets \<and>
     (\<forall>i < kBuckets. slot_ok ts i (rw_epoch w ! i) (rw_count w ! i)) \<and>
     (if ts = [] then rw_now w = kNever
      else unat (rw_now w) = bucket_of (last ts) \<and> (\<forall>t \<in> set ts. unat t \<le> unat (last ts)))"

lemma rw_ok_new: "rw_ok [] rw_new"
  by (simp add: rw_ok_def rw_new_def slot_ok_def)

lemma slot_ok_other:
  "slot_ok ts i e c \<Longrightarrow> bucket_of t mod kBuckets \<noteq> i \<Longrightarrow> slot_ok (ts @ [t]) i e c"
  by (auto simp: slot_ok_def)

lemma slot_ok_hit:
  assumes s: "slot_ok ts i e c" and i: "bucket_of t mod kBuckets = i" and top: "\<forall>s \<in> set ts. unat s \<le> unat t"
  shows "slot_ok (ts @ [t]) i (t div kBucketNs) ((if e = t div kBucketNs then c else 0) + 1)"
proof -
  have le: "\<forall>s \<in> set ts. bucket_of s \<le> bucket_of t" using top bucket_mono by blast
  have "e = kNever \<Longrightarrow> e \<noteq> t div kBucketNs" using idx_not_never [of t] by simp
  moreover have "e \<noteq> t div kBucketNs \<Longrightarrow> filter (\<lambda>s. bucket_of s = bucket_of t) ts = []"
  proof (rule ccontr)
    assume e: "e \<noteq> t div kBucketNs" and "filter (\<lambda>s. bucket_of s = bucket_of t) ts \<noteq> []"
    then obtain x where x: "x \<in> set ts" "bucket_of x = bucket_of t" by (auto simp: filter_empty_conv)
    have "bucket_of x mod kBuckets = i" using x(2) i by simp
    with x(1) obtain y where y: "y \<in> set ts" "unat e = bucket_of y" "bucket_of x \<le> unat e"
      using s unfolding slot_ok_def by blast
    have "bucket_of y \<le> bucket_of t" using le y(1) by blast
    then have "unat e = bucket_of t" using x(2) y by linarith
    with e show False by (simp add: bucket_eq)
  qed
  ultimately have "length (filter (\<lambda>s. bucket_of s = bucket_of t) ts) = 0 \<and> e \<noteq> t div kBucketNs \<or>
      e = t div kBucketNs \<and> c = of_nat (length (filter (\<lambda>s. bucket_of s = bucket_of t) ts))"
    using s by (cases "e = t div kBucketNs") (auto simp: slot_ok_def unat_idx)
  then show ?thesis unfolding slot_ok_def unat_idx using i le by auto
qed

lemma rw_ok_add:
  assumes ok: "rw_ok ts w" and top: "\<forall>s \<in> set ts. unat s \<le> unat t"
  shows "rw_ok (ts @ [t]) (rw_add t w)"
proof -
  define i where "i = bucket_of t mod kBuckets"
  define idx where "idx = t div kBucketNs"
  have i: "i < kBuckets" by (simp add: i_def kBuckets_def)
  have len: "length (rw_epoch w) = kBuckets" "length (rw_count w) = kBuckets" using ok by (simp_all add: rw_ok_def)
  have e: "rw_epoch (rw_add t w) = (rw_epoch w)[i := idx]"
  proof (cases "rw_epoch w ! i = idx")
    case True
    then have "(rw_epoch w)[i := idx] = rw_epoch w" using list_update_id [of "rw_epoch w" i] by simp
    with True show ?thesis by (simp add: rw_add_def Let_def unat_idx i_def idx_def)
  qed (simp add: rw_add_def Let_def unat_idx i_def idx_def)
  have c: "rw_count (rw_add t w) = (rw_count w)[i := (if rw_epoch w ! i = idx then rw_count w ! i else 0) + 1]"
    using i len by (auto simp: rw_add_def Let_def unat_idx i_def idx_def)
  have n: "rw_now (rw_add t w) = (if idx > rw_now w \<or> rw_now w = kNever then idx else rw_now w)"
    by (simp add: rw_add_def Let_def idx_def)
  have "slot_ok (ts @ [t]) j (rw_epoch (rw_add t w) ! j) (rw_count (rw_add t w) ! j)" if j: "j < kBuckets" for j
  proof (cases "j = i")
    case True
    have "slot_ok ts i (rw_epoch w ! i) (rw_count w ! i)" using ok i by (simp add: rw_ok_def)
    from slot_ok_hit [OF this i_def [symmetric] top] show ?thesis using i len by (simp add: e c True idx_def)
  next
    case False
    have "slot_ok ts j (rw_epoch w ! j) (rw_count w ! j)" using ok j by (simp add: rw_ok_def)
    from slot_ok_other [OF this, of t] show ?thesis using False by (simp add: e c i_def)
  qed
  moreover have "unat (rw_now (rw_add t w)) = bucket_of t"
  proof (cases "ts = []")
    case True
    then show ?thesis using ok by (simp add: n rw_ok_def idx_def unat_idx)
  next
    case False
    then have now: "unat (rw_now w) = bucket_of (last ts)" using ok by (simp add: rw_ok_def)
    then have "rw_now w \<noteq> kNever" using bucket_small [of "last ts"] unat_kNever by auto
    moreover have "bucket_of (last ts) \<le> bucket_of t" using top False bucket_mono by simp
    ultimately show ?thesis using now by (auto simp: n idx_def unat_idx word_less_nat_alt)
  qed
  ultimately show ?thesis using top len by (simp add: rw_ok_def e c)
qed

lemma same_residue: "a mod 10 = b mod 10 \<Longrightarrow> a \<le> b \<Longrightarrow> b < a + 10 \<Longrightarrow> a = (b :: nat)"
proof -
  assume "a mod 10 = b mod 10" "a \<le> b" and lt: "b < a + 10"
  then have "10 dvd b - a" by (metis mod_eq_dvd_iff_nat)
  then show "a = b" using lt \<open>a \<le> b\<close> dvd_imp_le [of 10 "b - a"] by (cases "b - a = 0") auto
qed

text \<open>The messages a trailing window of ten buckets holds, seen from the last message.\<close>

definition in_window :: "nat \<Rightarrow> u64 list \<Rightarrow> u64 list" where
  "in_window now ts = filter (\<lambda>t. bucket_of t \<le> now \<and> now < bucket_of t + kBuckets) ts"

lemma one_slot: "i < n \<Longrightarrow> (\<Sum>j \<leftarrow> [0..<n]. if i = j then 1 else 0 :: nat) = 1"
proof (induction n)
  case (Suc n)
  have "i = n \<Longrightarrow> (\<Sum>j \<leftarrow> [0..<n]. if i = j then 1 else 0 :: nat) = 0" by (simp add: sum_list_eq_0_iff)
  with Suc show ?case by (cases "i = n") simp_all
qed simp

lemma filter_by_residue:
  "length xs = (\<Sum>i \<leftarrow> [0..<kBuckets]. length (filter (\<lambda>t. bucket_of t mod kBuckets = i) xs))"
proof (induction xs)
  case (Cons x xs)
  have "(\<Sum>i \<leftarrow> [0..<kBuckets]. if bucket_of x mod kBuckets = i then 1 else 0 :: nat) = 1"
    by (rule one_slot) (simp add: kBuckets_def)
  moreover have "(\<Sum>i \<leftarrow> [0..<kBuckets]. length (filter (\<lambda>t. bucket_of t mod kBuckets = i) (x # xs))) =
      (\<Sum>i \<leftarrow> [0..<kBuckets]. (if bucket_of x mod kBuckets = i then 1 else 0) +
         length (filter (\<lambda>t. bucket_of t mod kBuckets = i) xs))"
    by (intro arg_cong [of _ _ sum_list] map_cong) auto
  ultimately show ?case using Cons.IH by (simp add: sum_list_addf)
qed simp

lemma slot_counts:
  assumes s: "slot_ok ts i e c" and n: "now < 2 ^ 38" "\<forall>t \<in> set ts. bucket_of t \<le> now"
  shows "(if of_nat now - e < (of_nat kBuckets :: u64) then c else 0) =
     of_nat (length (filter (\<lambda>t. bucket_of t mod kBuckets = i) (in_window now ts)))"
proof -
  consider (none) "e = kNever" "c = 0" "\<forall>t \<in> set ts. bucket_of t mod kBuckets \<noteq> i"
    | (some) t where "unat e mod kBuckets = i" "t \<in> set ts" "unat e = bucket_of t"
        "c = of_nat (length (filter (\<lambda>t. bucket_of t = unat e) ts))"
        "\<forall>t \<in> set ts. bucket_of t mod kBuckets = i \<longrightarrow> bucket_of t \<le> unat e"
    using s unfolding slot_ok_def by blast
  then show ?thesis
  proof cases
    case none
    then have "filter (\<lambda>t. bucket_of t mod kBuckets = i) (in_window now ts) = []"
      by (auto simp: filter_empty_conv in_window_def)
    with none show ?thesis by simp
  next
    case some
    have le: "unat e \<le> now" using some n by simp
    have u: "unat (of_nat now :: u64) = now" using n(1) by (simp add: unat_of_nat64)
    have d: "unat (of_nat now - e) = now - unat e" using le u by (simp add: unat_sub word_le_nat_alt)
    have k: "of_nat now - e < (of_nat kBuckets :: u64) \<longleftrightarrow> now < unat e + kBuckets"
    proof -
      have "of_nat now - e < (of_nat kBuckets :: u64) \<longleftrightarrow> now - unat e < 10"
        by (simp add: word_less_nat_alt d kBuckets_def)
      then show ?thesis using le unfolding kBuckets_def by linarith
    qed
    have same: "bucket_of s mod kBuckets = i \<and> bucket_of s \<le> now \<and> now < bucket_of s + kBuckets \<longleftrightarrow>
        bucket_of s = unat e \<and> now < unat e + kBuckets" if "s \<in> set ts" for s
    proof
      assume a: "bucket_of s mod kBuckets = i \<and> bucket_of s \<le> now \<and> now < bucket_of s + kBuckets"
      then have b: "bucket_of s \<le> unat e" "unat e < bucket_of s + kBuckets" using some that le by auto
      have "bucket_of s mod 10 = unat e mod 10" using a some by (simp add: kBuckets_def)
      then have "bucket_of s = unat e" using b unfolding kBuckets_def by (rule same_residue)
      with a show "bucket_of s = unat e \<and> now < unat e + kBuckets" by simp
    qed (use some le in auto)
    have "filter (\<lambda>t. bucket_of t mod kBuckets = i) (in_window now ts) =
        filter (\<lambda>s. bucket_of s = unat e \<and> now < unat e + kBuckets) ts"
      unfolding in_window_def filter_filter by (rule filter_cong) (use same in auto)
    then show ?thesis using some k by simp
  qed
qed

lemma sum_list_of_nat: "(\<Sum>x \<leftarrow> xs. of_nat (f x) :: 'a::semiring_1) = of_nat (\<Sum>x \<leftarrow> xs. f x)"
  by (induction xs) simp_all

lemma rw_rate_ok:
  assumes ok: "rw_ok ts w" and ne: "ts \<noteq> []"
  shows "rw_rate w = of_nat (length (in_window (bucket_of (last ts)) ts))"
proof -
  let ?n = "bucket_of (last ts)"
  have now: "unat (rw_now w) = ?n" and top: "\<forall>t \<in> set ts. bucket_of t \<le> ?n"
    using ok ne bucket_mono by (auto simp: rw_ok_def)
  have nn: "rw_now w \<noteq> kNever" using now bucket_small [of "last ts"] unat_kNever by auto
  have "rw_now w = of_nat (unat (rw_now w))" by simp
  then have w: "rw_now w = of_nat ?n" by (simp only: now)
  have "rw_rate w = (\<Sum>i \<leftarrow> [0..<kBuckets].
      of_nat (length (filter (\<lambda>t. bucket_of t mod kBuckets = i) (in_window ?n ts))))"
  proof -
    have "(if rw_now w - rw_epoch w ! i < of_nat kBuckets then rw_count w ! i else 0) =
        of_nat (length (filter (\<lambda>t. bucket_of t mod kBuckets = i) (in_window ?n ts)))" if "i < kBuckets" for i
      unfolding w by (rule slot_counts [OF _ bucket_small top]) (use ok that in \<open>simp add: rw_ok_def\<close>)
    then show ?thesis unfolding rw_rate_def if_not_P [OF nn] by (intro arg_cong [of _ _ sum_list] map_cong) auto
  qed
  also have "\<dots> = of_nat (length (in_window ?n ts))"
    by (simp only: sum_list_of_nat filter_by_residue [symmetric])
  finally show ?thesis .
qed

definition rw_fill :: "u64 list \<Rightarrow> rate_window" where
  "rw_fill ts = fold rw_add ts rw_new"

lemma rw_fill_ok: "sorted (map unat ts) \<Longrightarrow> rw_ok ts (rw_fill ts)"
proof (induction ts rule: rev_induct)
  case (snoc t ts)
  then show ?case by (auto simp: rw_fill_def sorted_append intro: rw_ok_add)
qed (simp add: rw_fill_def rw_ok_new)

section \<open>The latch\<close>

lemma trip_at_cases: "live k \<Longrightarrow> r \<noteq> NoTrip \<Longrightarrow> \<not> live (trip_at r a b ts k)" "\<not> live k \<Longrightarrow> trip_at r a b ts k = k"
  by (simp_all add: trip_at_def live_def)

lemmas check_defs = check_position_def check_notional_def check_rate_def check_ratio_def check_drawdown_def

lemma check_report [simp]:
  "\<not> live k \<Longrightarrow> check_position ts p k = k" "\<not> live k \<Longrightarrow> check_notional ts p m k = k"
  "\<not> live k \<Longrightarrow> check_rate ts k = k" "\<not> live k \<Longrightarrow> check_ratio ts k = k" "\<not> live k \<Longrightarrow> check_drawdown ts k = k"
  by (simp_all add: check_defs Let_def trip_at_cases)

lemma live_update [simp]:
  "live (k\<lparr> ks_messages := a \<rparr>) = live k" "live (k\<lparr> ks_orders := a \<rparr>) = live k" "live (k\<lparr> ks_fills := a \<rparr>) = live k"
  "live (k\<lparr> ks_rate := w \<rparr>) = live k" "live (k\<lparr> ks_peak_equity := m \<rparr>) = live k" "live (k\<lparr> ks_peak_seen := b \<rparr>) = live k"
  "live (k\<lparr> ks_last_equity := m \<rparr>) = live k" "live (k\<lparr> ks_backlog_since := a \<rparr>) = live k"
  "live (k\<lparr> ks_peak_occupancy := a \<rparr>) = live k"
  by (simp_all add: live_def)

lemma trip_keeps [simp]:
  "ks_cfg (trip_at r a b ts k) = ks_cfg k" "ks_rate (trip_at r a b ts k) = ks_rate k"
  "ks_orders (trip_at r a b ts k) = ks_orders k" "ks_fills (trip_at r a b ts k) = ks_fills k"
  "ks_peak_seen (trip_at r a b ts k) = ks_peak_seen k" "ks_peak_equity (trip_at r a b ts k) = ks_peak_equity k"
  "ks_last_equity (trip_at r a b ts k) = ks_last_equity k" "ks_backlog_since (trip_at r a b ts k) = ks_backlog_since k"
  by (simp_all add: trip_at_def)

lemma check_position_keeps [simp]:
  "ks_cfg (check_position ts p k) = ks_cfg k"
  "ks_rate (check_position ts p k) = ks_rate k"
  "ks_peak_seen (check_position ts p k) = ks_peak_seen k"
  "ks_peak_equity (check_position ts p k) = ks_peak_equity k"
  "ks_last_equity (check_position ts p k) = ks_last_equity k"
  "ks_backlog_since (check_position ts p k) = ks_backlog_since k"
  by (simp_all add: check_position_def Let_def)

lemma check_notional_keeps [simp]:
  "ks_cfg (check_notional ts p m k) = ks_cfg k"
  "ks_rate (check_notional ts p m k) = ks_rate k"
  "ks_peak_seen (check_notional ts p m k) = ks_peak_seen k"
  "ks_peak_equity (check_notional ts p m k) = ks_peak_equity k"
  "ks_last_equity (check_notional ts p m k) = ks_last_equity k"
  "ks_backlog_since (check_notional ts p m k) = ks_backlog_since k"
  by (simp_all add: check_notional_def Let_def)

lemma check_rate_keeps [simp]:
  "ks_cfg (check_rate ts k) = ks_cfg k"
  "ks_rate (check_rate ts k) = ks_rate k"
  "ks_peak_seen (check_rate ts k) = ks_peak_seen k"
  "ks_peak_equity (check_rate ts k) = ks_peak_equity k"
  "ks_last_equity (check_rate ts k) = ks_last_equity k"
  "ks_backlog_since (check_rate ts k) = ks_backlog_since k"
  by (simp_all add: check_rate_def Let_def)

lemma check_ratio_keeps [simp]:
  "ks_cfg (check_ratio ts k) = ks_cfg k"
  "ks_rate (check_ratio ts k) = ks_rate k"
  "ks_peak_seen (check_ratio ts k) = ks_peak_seen k"
  "ks_peak_equity (check_ratio ts k) = ks_peak_equity k"
  "ks_last_equity (check_ratio ts k) = ks_last_equity k"
  "ks_backlog_since (check_ratio ts k) = ks_backlog_since k"
  by (simp_all add: check_ratio_def Let_def)

lemma check_drawdown_keeps [simp]:
  "ks_cfg (check_drawdown ts k) = ks_cfg k"
  "ks_rate (check_drawdown ts k) = ks_rate k"
  "ks_peak_seen (check_drawdown ts k) = ks_peak_seen k"
  "ks_peak_equity (check_drawdown ts k) = ks_peak_equity k"
  "ks_last_equity (check_drawdown ts k) = ks_last_equity k"
  "ks_backlog_since (check_drawdown ts k) = ks_backlog_since k"
  by (simp_all add: check_drawdown_def Let_def)

lemma observe_cfg [simp]: "ks_cfg (ks_observe ts p q m k) = ks_cfg k"
  by (simp add: ks_observe_def Let_def)

lemma sent_cfg [simp]: "ks_cfg (on_message_sent ts b k) = ks_cfg k"
  by (simp add: on_message_sent_def Let_def)

lemma ring_cfg [simp]: "ks_cfg (on_ring_occupancy ts n k) = ks_cfg k"
  by (simp add: on_ring_occupancy_def Let_def)

lemma step_cfg [simp]: "ks_cfg (ks_step e k) = ks_cfg k"
  by (cases e) (simp_all add: ks_on_fill_def)

lemma run_cfg [simp]: "ks_cfg (ks_run es k) = ks_cfg k"
  by (induction es arbitrary: k) auto

lemma observe_report: "\<not> live k \<Longrightarrow> ks_report (ks_observe ts p q m k) = ks_report k"
  by (simp add: ks_observe_def Let_def)

lemma sent_report: "\<not> live k \<Longrightarrow> ks_report (on_message_sent ts b k) = ks_report k"
  by (simp add: on_message_sent_def Let_def)

lemma ring_report: "\<not> live k \<Longrightarrow> ks_report (on_ring_occupancy ts n k) = ks_report k"
  by (simp add: on_ring_occupancy_def Let_def trip_at_cases)

lemma step_report: "\<not> live k \<Longrightarrow> ks_report (ks_step e k) = ks_report k"
  by (cases e) (simp_all add: ks_on_fill_def observe_report sent_report ring_report)

lemma run_report: "\<not> live k \<Longrightarrow> ks_report (ks_run es k) = ks_report k"
proof (induction es arbitrary: k)
  case (Cons e es)
  have "ks_report (ks_step e k) = ks_report k" by (rule step_report [OF Cons.prems])
  then show ?case using Cons.IH [of "ks_step e k"] Cons.prems by (simp add: live_def)
qed simp

lemma run_live: "live (ks_run es k) \<Longrightarrow> live k"
  by (metis live_def run_report)

section \<open>A live switch has seen nothing beyond its limits\<close>

lemma check_live:
  "live (check_position ts p k) \<longleftrightarrow> live k \<and> (0 < max_position (ks_cfg k) \<longrightarrow> \<bar>p\<bar> \<le> max_position (ks_cfg k))"
  "live (check_notional ts p m k) \<longleftrightarrow>
     live k \<and> (0 < max_notional (ks_cfg k) \<and> 0 < m \<longrightarrow> notional m \<bar>p\<bar> \<le> max_notional (ks_cfg k))"
  "live (check_drawdown ts k) \<longleftrightarrow>
     live k \<and> (0 < max_drawdown (ks_cfg k) \<and> ks_peak_seen k \<longrightarrow> ks_peak_equity k - ks_last_equity k \<le> max_drawdown (ks_cfg k))"
  "live (check_rate ts k) \<longleftrightarrow>
     live k \<and> (max_messages_per_second (ks_cfg k) \<noteq> 0 \<longrightarrow> rw_rate (ks_rate k) \<le> max_messages_per_second (ks_cfg k))"
  by (auto simp: check_defs Let_def trip_at_def live_def abs_if)

text \<open>The equities, the times messages were sent and the ring observations an event list holds.\<close>

fun equities :: "ks_event list \<Rightarrow> money list" where
  "equities [] = []"
| "equities (Filled ts p q m # es) = q # equities es"
| "equities (Marked ts p q m # es) = q # equities es"
| "equities (_ # es) = equities es"

fun sent_times :: "ks_event list \<Rightarrow> u64 list" where
  "sent_times [] = []"
| "sent_times (Sent ts b # es) = ts # sent_times es"
| "sent_times (_ # es) = sent_times es"

fun event_within :: "ks_config \<Rightarrow> ks_event \<Rightarrow> bool" where
  "event_within c (Filled ts p q m) \<longleftrightarrow> (0 < max_position c \<longrightarrow> \<bar>p\<bar> \<le> max_position c) \<and>
     (0 < max_notional c \<and> 0 < m \<longrightarrow> notional m \<bar>p\<bar> \<le> max_notional c)"
| "event_within c (Marked ts p q m) \<longleftrightarrow> (0 < max_position c \<longrightarrow> \<bar>p\<bar> \<le> max_position c) \<and>
     (0 < max_notional c \<and> 0 < m \<longrightarrow> notional m \<bar>p\<bar> \<le> max_notional c)"
| "event_within c _ \<longleftrightarrow> True"

lemma event_lists_append [simp]:
  "equities (es @ fs) = equities es @ equities fs" "sent_times (es @ fs) = sent_times es @ sent_times fs"
  by (induction es rule: equities.induct; simp)+

lemma observe_live:
  "live (ks_observe ts p q m k) \<Longrightarrow> live k \<and>
     (0 < max_position (ks_cfg k) \<longrightarrow> \<bar>p\<bar> \<le> max_position (ks_cfg k)) \<and>
     (0 < max_notional (ks_cfg k) \<and> 0 < m \<longrightarrow> notional m \<bar>p\<bar> \<le> max_notional (ks_cfg k)) \<and>
     (0 < max_drawdown (ks_cfg k) \<longrightarrow> (if ks_peak_seen k then max q (ks_peak_equity k) else q) - q \<le> max_drawdown (ks_cfg k))"
  by (cases "ks_peak_seen k"; cases "ks_peak_equity k < q") (auto simp: ks_observe_def Let_def check_live max_def)

lemma live_step_within: "live (ks_step e k) \<Longrightarrow> event_within (ks_cfg k) e"
  by (cases e) (auto dest!: observe_live simp: ks_on_fill_def)

lemma live_within: "live (ks_run es k) \<Longrightarrow> \<forall>e \<in> set es. event_within (ks_cfg k) e"
proof (induction es arbitrary: k)
  case (Cons e es)
  then have "live (ks_step e k)" using run_live [of es "ks_step e k"] by simp
  from live_step_within [OF this] show ?case using Cons.IH [of "ks_step e k"] Cons.prems by simp
qed simp

lemma observe_peak:
  "ks_peak_seen (ks_observe ts p q m k)"
  "ks_peak_equity (ks_observe ts p q m k) = (if ks_peak_seen k then max q (ks_peak_equity k) else q)"
  by (auto simp: ks_observe_def Let_def max_def)

lemma other_peak [simp]:
  "ks_peak_seen (on_message_sent ts b k) = ks_peak_seen k" "ks_peak_equity (on_message_sent ts b k) = ks_peak_equity k"
  "ks_peak_seen (on_ring_occupancy ts n k) = ks_peak_seen k" "ks_peak_equity (on_ring_occupancy ts n k) = ks_peak_equity k"
  by (simp_all add: on_message_sent_def on_ring_occupancy_def Let_def)

lemma run_peak:
  "ks_peak_seen (ks_run es (ks_new cfg)) = (equities es \<noteq> []) \<and>
   (equities es \<noteq> [] \<longrightarrow> ks_peak_equity (ks_run es (ks_new cfg)) = Max (set (equities es)))"
proof (induction es rule: rev_induct)
  case (snoc e es)
  have m: "Max (insert q (set (equities es))) = max q (Max (set (equities es)))" if "equities es \<noteq> []" for q
    using that by (simp add: Max_insert)
  show ?case using snoc m by (cases e) (auto simp: ks_on_fill_def observe_peak)
qed (simp add: ks_new_def)

lemma live_drawdown:
  assumes "live (ks_run es (ks_new cfg))" "0 < max_drawdown cfg" "i \<le> j" "j < length (equities es)"
  shows "equities es ! i - equities es ! j \<le> max_drawdown cfg"
  using assms
proof (induction es arbitrary: i j rule: rev_induct)
  case (snoc e es)
  let ?k = "ks_run es (ks_new cfg)"
  have l: "live (ks_step e ?k)" using snoc.prems(1) by simp
  then have "live ?k" using run_live [of "[e]" ?k] by simp
  note IH = snoc.IH [OF this snoc.prems(2)]
  have cfg: "ks_cfg ?k = cfg" by (simp add: ks_new_def)
  show ?case
  proof (cases "j < length (equities es)")
    case True
    with IH [of i j] snoc.prems show ?thesis by (simp add: nth_append)
  next
    case False
    with snoc.prems obtain q where q: "equities [e] = [q]" "j = length (equities es)" by (cases e) auto
    have peak: "(if ks_peak_seen ?k then max q (ks_peak_equity ?k) else q) - q \<le> max_drawdown cfg"
      using l q(1) snoc.prems(2) cfg by (cases e) (auto dest!: observe_live simp: ks_on_fill_def split: if_splits)
    show ?thesis
    proof (cases "i = j")
      case False
      then have i: "i < length (equities es)" using snoc.prems(3) q(2) by simp
      then have top: "equities es ! i \<le> Max (set (equities es))" by simp
      have "ks_peak_equity ?k = Max (set (equities es))" "ks_peak_seen ?k"
        using run_peak [of es cfg] i by auto
      then have "Max (set (equities es)) - q \<le> max_drawdown cfg" using peak by (simp add: max_def split: if_splits)
      with top have "equities es ! i - q \<le> max_drawdown cfg" by linarith
      then show ?thesis using q i by (simp add: nth_append)
    qed (use snoc.prems(2) in simp)
  qed
qed simp

lemma sent_rate [simp]: "ks_rate (on_message_sent ts b k) = rw_add ts (ks_rate k)"
  by (simp add: on_message_sent_def Let_def)

lemma other_rate [simp]: "ks_rate (ks_observe ts p q m k) = ks_rate k" "ks_rate (on_ring_occupancy ts n k) = ks_rate k"
  by (simp_all add: ks_observe_def on_ring_occupancy_def Let_def)

lemma run_rate: "ks_rate (ks_run es (ks_new cfg)) = rw_fill (sent_times es)"
proof (induction es rule: rev_induct)
  case (snoc e es)
  then show ?case by (cases e) (simp_all add: rw_fill_def ks_on_fill_def)
qed (simp add: ks_new_def rw_fill_def)

lemma sent_live:
  assumes "live (on_message_sent ts b k)" "max_messages_per_second (ks_cfg k) \<noteq> 0"
  shows "rw_rate (rw_add ts (ks_rate k)) \<le> max_messages_per_second (ks_cfg k)"
proof -
  define k' where "k' = (let k = k\<lparr> ks_messages := ks_messages k + 1 \<rparr>;
     k = (if b then k\<lparr> ks_orders := ks_orders k + 1 \<rparr> else k) in k\<lparr> ks_rate := rw_add ts (ks_rate k) \<rparr>)"
  have s: "on_message_sent ts b k = check_ratio ts (check_rate ts k')" by (simp add: on_message_sent_def k'_def Let_def)
  have "live (check_rate ts k')" using assms(1) unfolding s by (metis check_report(4))
  then show ?thesis using assms(2) by (auto simp: check_live k'_def Let_def split: if_splits)
qed

lemma filter_imp_length: "(\<And>x. x \<in> set xs \<Longrightarrow> P x \<Longrightarrow> Q x) \<Longrightarrow> length (filter P xs) \<le> length (filter Q xs)"
  by (induction xs) (auto simp: le_SucI)

text \<open>A live switch has sent at most its limit in every 900 ms: nine whole buckets fit in any such stretch.\<close>

lemma live_rate:
  assumes l: "live (ks_run es (ks_new cfg))" and m: "max_messages_per_second cfg \<noteq> 0"
    and s: "sorted (map unat (sent_times es))" and n: "length (sent_times es) < 2 ^ 64"
  shows "length (filter (\<lambda>t. a \<le> unat t \<and> unat t < a + 900000000) (sent_times es)) \<le> unat (max_messages_per_second cfg)"
  using l s n
proof (induction es rule: rev_induct)
  case (snoc e es)
  let ?k = "ks_run es (ks_new cfg)" and ?P = "\<lambda>t. a \<le> unat t \<and> unat t < a + 900000000"
  have l: "live (ks_step e ?k)" using snoc.prems(1) by simp
  then have "live ?k" using run_live [of "[e]" ?k] by simp
  then have IH: "length (filter ?P (sent_times es)) \<le> unat (max_messages_per_second cfg)"
    using snoc.IH snoc.prems by (simp add: sorted_append)
  show ?case
  proof (cases "\<exists>t. sent_times [e] = [t] \<and> ?P t")
    case False
    then show ?thesis using IH by (cases e) auto
  next
    case True
    then obtain t where t: "sent_times [e] = [t]" "?P t" by blast
    let ?ts = "sent_times es @ [t]"
    have ok: "rw_ok ?ts (rw_fill ?ts)" by (rule rw_fill_ok) (use snoc.prems(2) t in simp)
    have "rw_rate (rw_fill ?ts) \<le> max_messages_per_second cfg"
      using l t(1) m by (cases e) (auto dest!: sent_live simp: run_rate rw_fill_def)
    then have r: "length (in_window (bucket_of t) ?ts) \<le> unat (max_messages_per_second cfg)"
    proof -
      have "length (in_window (bucket_of t) ?ts) < 2 ^ 64"
        using snoc.prems(3) t(1) length_filter_le [of _ ?ts] unfolding in_window_def
        by (metis (no_types, lifting) event_lists_append(2) le_less_trans)
      then show ?thesis if "rw_rate (rw_fill ?ts) \<le> max_messages_per_second cfg"
        using that rw_rate_ok [OF ok] by (simp add: word_le_nat_alt unat_of_nat64)
    qed
    have top: "\<forall>x \<in> set ?ts. unat x \<le> unat t" using snoc.prems(2) t(1) by (auto simp: sorted_append)
    have "?P x \<longrightarrow> bucket_of x \<le> bucket_of t \<and> bucket_of t < bucket_of x + kBuckets" if "x \<in> set ?ts" for x
    proof
      assume x: "?P x"
      have "bucket_of t \<le> (unat x + 899999999) div 100000000"
        unfolding bucket_of_def by (rule div_le_mono) (use x t(2) in linarith)
      also have "\<dots> \<le> (unat x + 9 * 100000000) div 100000000" by (rule div_le_mono) simp
      finally have "bucket_of t \<le> bucket_of x + 9" by (simp add: bucket_of_def)
      then show "bucket_of x \<le> bucket_of t \<and> bucket_of t < bucket_of x + kBuckets"
        using bucket_mono [of x t] top that by (auto simp: kBuckets_def)
    qed
    then have "length (filter ?P ?ts) \<le> length (in_window (bucket_of t) ?ts)"
      unfolding in_window_def by (intro filter_imp_length) blast
    then show ?thesis using r t(1) by simp
  qed
qed simp

section \<open>A sustained backlog, and nothing else, trips the backlog limit\<close>

definition rings :: "(u64 \<times> u64) list \<Rightarrow> ks_event list" where
  "rings os = map (\<lambda>(ts, n). Occupied ts n) os"

definition over_through :: "u64 \<Rightarrow> (u64 \<times> u64) list \<Rightarrow> nat \<Rightarrow> nat \<Rightarrow> bool" where
  "over_through limit os i j \<longleftrightarrow> i \<le> j \<and> j < length os \<and> (\<forall>m \<in> {i..j}. limit < snd (os ! m))"

definition sustained :: "ks_config \<Rightarrow> (u64 \<times> u64) list \<Rightarrow> bool" where
  "sustained c os \<longleftrightarrow> (\<exists>j < length os. \<exists>i \<le> j. over_through (max_ring_occupancy c) os i j \<and>
     unat (backlog_sustained_ns c) \<le> unat (fst (os ! j)) - unat (fst (os ! i)))"

definition since_ok :: "ks_config \<Rightarrow> (u64 \<times> u64) list \<Rightarrow> u64 \<Rightarrow> bool" where
  "since_ok c os since \<longleftrightarrow>
     (since = kNoBacklog \<and> (os = [] \<or> snd (last os) \<le> max_ring_occupancy c)) \<or>
     (\<exists>i < length os. since = fst (os ! i) \<and> since \<noteq> kNoBacklog \<and> over_through (max_ring_occupancy c) os i (length os - 1) \<and>
        (i = 0 \<or> snd (os ! (i - 1)) \<le> max_ring_occupancy c))"

lemma over_append: "j < length os \<Longrightarrow> over_through l (os @ [x]) i j = over_through l os i j"
  by (auto simp: over_through_def nth_append)

lemma over_last: "over_through l (os @ [x]) i (length os) \<longleftrightarrow>
    i \<le> length os \<and> l < snd x \<and> (i < length os \<longrightarrow> over_through l os i (length os - 1))"
  by (cases "i = length os") (auto simp: over_through_def nth_append)

lemma sustained_snoc: "sustained c (os @ [x]) \<longleftrightarrow> sustained c os \<or>
    (\<exists>i \<le> length os. over_through (max_ring_occupancy c) (os @ [x]) i (length os) \<and>
       unat (backlog_sustained_ns c) \<le> unat (fst x) - unat (fst ((os @ [x]) ! i)))"
proof -
  have "(\<exists>j < length (os @ [x]). P j) \<longleftrightarrow> (\<exists>j < length os. P j) \<or> P (length os)" for P
    by (auto simp: less_Suc_eq)
  moreover have "over_through l (os @ [x]) i j \<and> n \<le> unat (fst ((os @ [x]) ! j)) - unat (fst ((os @ [x]) ! i)) \<longleftrightarrow>
      over_through l os i j \<and> n \<le> unat (fst (os ! j)) - unat (fst (os ! i))" if "j < length os" "i \<le> j" for l i j n
    using that over_append by (simp add: nth_append)
  ultimately show ?thesis unfolding sustained_def by (simp cong: conj_cong)
qed

lemma ring_step:
  assumes c: "max_ring_occupancy (ks_cfg k) \<noteq> 0"
  shows "ks_backlog_since (on_ring_occupancy ts n k) =
      (if n \<le> max_ring_occupancy (ks_cfg k) then kNoBacklog
       else if ks_backlog_since k = kNoBacklog \<or> ts < ks_backlog_since k then ts else ks_backlog_since k)"
    "live (on_ring_occupancy ts n k) \<longleftrightarrow> live k \<and>
      (n \<le> max_ring_occupancy (ks_cfg k) \<or>
       (if ks_backlog_since k = kNoBacklog then backlog_sustained_ns (ks_cfg k) \<noteq> 0
        else ts < ks_backlog_since k \<or> ts - ks_backlog_since k < backlog_sustained_ns (ks_cfg k)))"
  using c by (auto simp: on_ring_occupancy_def Let_def trip_at_def live_def)

lemma rings_ok:
  assumes c: "max_ring_occupancy c \<noteq> 0" and s: "sorted (map (unat \<circ> fst) os)" and n: "\<forall>x \<in> set os. fst x \<noteq> kNoBacklog"
  shows "since_ok c os (ks_backlog_since (ks_run (rings os) (ks_new c))) \<and>
    (live (ks_run (rings os) (ks_new c)) \<longleftrightarrow> \<not> sustained c os)"
  using s n
proof (induction os rule: rev_induct)
  case Nil
  then show ?case by (simp add: rings_def since_ok_def sustained_def ks_new_def live_def no_report_def)
next
  case (snoc x os)
  obtain ts n where x: "x = (ts, n)" by (cases x)
  let ?k = "ks_run (rings os) (ks_new c)" and ?L = "max_ring_occupancy c" and ?s = "unat (backlog_sustained_ns c)"
  have k: "ks_run (rings (os @ [x])) (ks_new c) = on_ring_occupancy ts n ?k" by (simp add: rings_def x)
  have "since_ok c os (ks_backlog_since ?k)" and live: "live ?k \<longleftrightarrow> \<not> sustained c os"
    using snoc by (simp_all add: sorted_append)
  note step = ring_step [of ?k ts n, unfolded run_cfg new_cfg, OF c]
  have ts: "ts \<noteq> kNoBacklog" using snoc.prems(2) x by simp
  have mono: "\<forall>y \<in> set os. unat (fst y) \<le> unat ts" using snoc.prems(1) x by (auto simp: sorted_append)
  show ?case
  proof (cases "n \<le> ?L")
    case True
    then have "\<not> over_through ?L (os @ [x]) i (length os)" for i by (auto simp: over_last x not_less)
    then show ?thesis using True live by (simp add: k [unfolded x] step since_ok_def sustained_snoc x)
  next
    case above: False
    from \<open>since_ok c os _\<close> consider
      (none) "ks_backlog_since ?k = kNoBacklog" "os = [] \<or> snd (last os) \<le> ?L"
      | (some) i where "i < length os" "ks_backlog_since ?k = fst (os ! i)" "fst (os ! i) \<noteq> kNoBacklog"
          "over_through ?L os i (length os - 1)" "i = 0 \<or> snd (os ! (i - 1)) \<le> ?L"
      unfolding since_ok_def by metis
    then show ?thesis
    proof cases
      case none
      have only: "over_through ?L (os @ [x]) i (length os) \<longleftrightarrow> i = length os" for i
      proof
        assume o: "over_through ?L (os @ [x]) i (length os)"
        show "i = length os"
        proof (rule ccontr)
          assume "i \<noteq> length os"
          then have "i < length os" "?L < snd ((os @ [x]) ! (length os - 1))" using o by (auto simp: over_through_def)
          then show False using none(2) by (cases "os = []") (auto simp: nth_append last_conv_nth)
        qed
      qed (use above in \<open>simp add: over_last x\<close>)
      have "since_ok c (os @ [x]) ts"
        unfolding since_ok_def using only [of "length os"] none(2) ts above
        by (intro disjI2 exI [of _ "length os"]) (cases "os = []"; simp add: x nth_append last_conv_nth)
      then show ?thesis using none(1) above live by (auto simp: k [unfolded x] step sustained_snoc only [unfolded x] x unat_eq_zero)
    next
      case some
      have le: "unat (fst (os ! i)) \<le> unat ts" using mono some(1) by simp
      then have nl: "\<not> ts < fst (os ! i)" by (simp add: word_less_nat_alt)
      have d: "unat (ts - fst (os ! i)) = unat ts - unat (fst (os ! i))" using le by (simp add: unat_sub word_le_nat_alt)
      have here: "over_through ?L (os @ [x]) i (length os)" using some(1,4) above by (simp add: over_last x)
      have since: "since_ok c (os @ [x]) (fst (os ! i))"
        unfolding since_ok_def using some here
        by (intro disjI2 exI [of _ i]) (auto simp: nth_append)
      have "(\<exists>j \<le> length os. over_through ?L (os @ [x]) j (length os) \<and>
          ?s \<le> unat ts - unat (fst ((os @ [x]) ! j))) \<longleftrightarrow> ?s \<le> unat ts - unat (fst (os ! i))"
      proof
        assume "\<exists>j \<le> length os. over_through ?L (os @ [x]) j (length os) \<and> ?s \<le> unat ts - unat (fst ((os @ [x]) ! j))"
        then obtain j where j: "j \<le> length os" "over_through ?L (os @ [x]) j (length os)"
          "?s \<le> unat ts - unat (fst ((os @ [x]) ! j))" by blast
        have "i \<le> j"
        proof (rule ccontr)
          assume "\<not> i \<le> j"
          then have "i \<noteq> 0" "i - 1 \<in> {j..length os}" using some(1) by auto
          moreover from this have "?L < snd ((os @ [x]) ! (i - 1))" using j(2) by (auto simp: over_through_def)
          moreover have "i - 1 < length os" using some(1) by simp
          ultimately show False using some(5) by (simp add: nth_append not_less [symmetric])
        qed
        then have "unat (fst (os ! i)) \<le> unat (fst ((os @ [x]) ! j))"
          using sorted_nth_mono [OF snoc.prems(1), of i j] j(1) some(1)
          by (cases "j < length os") (simp_all add: nth_append less_Suc_eq_le)
        with j(3) show "?s \<le> unat ts - unat (fst (os ! i))" by linarith
      next
        assume "?s \<le> unat ts - unat (fst (os ! i))"
        then show "\<exists>j \<le> length os. over_through ?L (os @ [x]) j (length os) \<and> ?s \<le> unat ts - unat (fst ((os @ [x]) ! j))"
          using here some(1) by (intro exI [of _ i]) (simp add: nth_append)
      qed
      then have "sustained c (os @ [x]) \<longleftrightarrow> sustained c os \<or> ?s \<le> unat ts - unat (fst (os ! i))"
        by (simp only: sustained_snoc x fst_conv)
      moreover have "ks_backlog_since (on_ring_occupancy ts n ?k) = fst (os ! i)" using step(1) above some(2,3) nl by simp
      moreover have "live (on_ring_occupancy ts n ?k) \<longleftrightarrow> live ?k \<and> unat ts - unat (fst (os ! i)) < ?s"
        using step(2) above some(2,3) nl d by (simp add: word_less_nat_alt [of "ts - fst (os ! i)"])
      ultimately show ?thesis unfolding k using since live by auto
    qed
  qed
qed

end
