(* ===== verification/Soup.thy ===== *)
theory Soup
  imports Itch
begin

text \<open>
  SoupBinTCP 3.00 on the wire: the framing and accessors of include/itchbook/soupbin/messages.hpp and the
  encoders of include/itchbook/soupbin/encode.hpp. A packet is a two byte length that counts what follows
  it, a type and a payload. An encoder takes the buffer it writes into and returns it with the number of
  bytes written; a C string is its bytes, \<open>None\<close> for a null pointer, and ends at its first NUL.
\<close>

section \<open>Accessors\<close>

definition declared_length :: "u8 list \<Rightarrow> u16" where "declared_length p = be16 p 0"

definition frame_length :: "u8 list \<Rightarrow> nat" where "frame_length p = unat (declared_length p) + 2"

definition packet_type :: "u8 list \<Rightarrow> u8" where "packet_type p = p ! 2"

text \<open>A length is a \<open>size_t\<close>, and the subtraction wraps.\<close>

definition debug_text :: "u8 list \<Rightarrow> u8 list" where "debug_text p = drop 3 p"
definition debug_text_length :: "u8 list \<Rightarrow> u64" where "debug_text_length p = ucast (declared_length p) - 1"

definition login_accepted_session :: "u8 list \<Rightarrow> u8 list" where "login_accepted_session p = bytes_at p 3 10"
definition login_accepted_sequence_number :: "u8 list \<Rightarrow> u8 list" where
  "login_accepted_sequence_number p = bytes_at p 13 20"
definition kLoginAcceptedWireBytes :: nat where "kLoginAcceptedWireBytes = 33"

definition login_rejected_reason :: "u8 list \<Rightarrow> u8" where "login_rejected_reason p = p ! 3"
definition kLoginRejectedWireBytes :: nat where "kLoginRejectedWireBytes = 4"

definition sequenced_message :: "u8 list \<Rightarrow> u8 list" where "sequenced_message p = drop 3 p"
definition sequenced_message_length :: "u8 list \<Rightarrow> u64" where
  "sequenced_message_length p = ucast (declared_length p) - 1"

definition kServerHeartbeatWireBytes :: nat where "kServerHeartbeatWireBytes = 3"
definition kEndOfSessionWireBytes :: nat where "kEndOfSessionWireBytes = 3"

definition login_request_username :: "u8 list \<Rightarrow> u8 list" where "login_request_username p = bytes_at p 3 6"
definition login_request_password :: "u8 list \<Rightarrow> u8 list" where "login_request_password p = bytes_at p 9 10"
definition login_request_session :: "u8 list \<Rightarrow> u8 list" where "login_request_session p = bytes_at p 19 10"
definition login_request_sequence_number :: "u8 list \<Rightarrow> u8 list" where
  "login_request_sequence_number p = bytes_at p 29 20"
definition kLoginRequestWireBytes :: nat where "kLoginRequestWireBytes = 49"

definition unsequenced_message :: "u8 list \<Rightarrow> u8 list" where "unsequenced_message p = drop 3 p"
definition unsequenced_message_length :: "u8 list \<Rightarrow> u64" where
  "unsequenced_message_length p = ucast (declared_length p) - 1"

definition kClientHeartbeatWireBytes :: nat where "kClientHeartbeatWireBytes = 3"
definition kLogoutRequestWireBytes :: nat where "kLogoutRequestWireBytes = 3"

lemmas soup_sizes = kLoginAcceptedWireBytes_def kLoginRejectedWireBytes_def kServerHeartbeatWireBytes_def
  kEndOfSessionWireBytes_def kLoginRequestWireBytes_def kClientHeartbeatWireBytes_def kLogoutRequestWireBytes_def

section \<open>Encoders\<close>

definition c_chars :: "u8 list option \<Rightarrow> u8 list" where
  "c_chars s = (case s of None \<Rightarrow> [] | Some s \<Rightarrow> takeWhile (\<lambda>c. c \<noteq> 0) s)"

definition soup_right_padded :: "nat \<Rightarrow> u8 list option \<Rightarrow> nat \<Rightarrow> u8 list \<Rightarrow> u8 list" where
  "soup_right_padded i s n p =
     (let body = take n (c_chars s)
      in memcpy (i + length body) (replicate (n - length body) (ch CHR '' '')) (memcpy i body p))"

definition soup_left_padded :: "nat \<Rightarrow> u8 list option \<Rightarrow> nat \<Rightarrow> u8 list \<Rightarrow> u8 list" where
  "soup_left_padded i s n p =
     (let len = length (c_chars s);
          used = (if len < n then len else n);
          pad = n - used
      in memcpy (i + pad) (take used (c_chars s)) (memcpy i (replicate pad (ch CHR '' '')) p))"

definition soup_frame :: "u8 list \<Rightarrow> u8 \<Rightarrow> u16 \<Rightarrow> u8 list \<times> nat" where
  "soup_frame p type len = ((put16 0 len p)[2 := type], unat len + 2)"

definition soup_debug :: "u8 list \<Rightarrow> u8 list \<Rightarrow> u8 list \<times> nat" where
  "soup_debug p text = (let (p, n) = soup_frame p (ch CHR ''+'') (of_nat (1 + length text)) in (memcpy 3 text p, n))"

definition soup_login_accepted :: "u8 list \<Rightarrow> u8 list option \<Rightarrow> u8 list option \<Rightarrow> u8 list \<times> nat" where
  "soup_login_accepted p session number =
     (let (p, n) = soup_frame p (ch CHR ''A'') (1 + 10 + 20)
      in (soup_left_padded 13 number 20 (soup_left_padded 3 session 10 p), n))"

definition soup_login_rejected :: "u8 list \<Rightarrow> u8 \<Rightarrow> u8 list \<times> nat" where
  "soup_login_rejected p reason = (let (p, n) = soup_frame p (ch CHR ''J'') (1 + 1) in (p[3 := reason], n))"

definition soup_sequenced :: "u8 list \<Rightarrow> u8 list \<Rightarrow> u8 list \<times> nat" where
  "soup_sequenced p m = (let (p, n) = soup_frame p (ch CHR ''S'') (of_nat (1 + length m)) in (memcpy 3 m p, n))"

definition soup_server_heartbeat :: "u8 list \<Rightarrow> u8 list \<times> nat" where
  "soup_server_heartbeat p = soup_frame p (ch CHR ''H'') 1"

definition soup_end_of_session :: "u8 list \<Rightarrow> u8 list \<times> nat" where
  "soup_end_of_session p = soup_frame p (ch CHR ''Z'') 1"

definition soup_login_request ::
    "u8 list \<Rightarrow> u8 list option \<Rightarrow> u8 list option \<Rightarrow> u8 list option \<Rightarrow> u8 list option \<Rightarrow> u8 list \<times> nat" where
  "soup_login_request p username password session number =
     (let (p, n) = soup_frame p (ch CHR ''L'') (1 + 6 + 10 + 10 + 20)
      in (soup_left_padded 29 number 20 (soup_left_padded 19 session 10
            (soup_right_padded 9 password 10 (soup_right_padded 3 username 6 p))), n))"

definition soup_unsequenced :: "u8 list \<Rightarrow> u8 list \<Rightarrow> u8 list \<times> nat" where
  "soup_unsequenced p m = (let (p, n) = soup_frame p (ch CHR ''U'') (of_nat (1 + length m)) in (memcpy 3 m p, n))"

definition soup_client_heartbeat :: "u8 list \<Rightarrow> u8 list \<times> nat" where
  "soup_client_heartbeat p = soup_frame p (ch CHR ''R'') 1"

definition soup_logout_request :: "u8 list \<Rightarrow> u8 list \<times> nat" where
  "soup_logout_request p = soup_frame p (ch CHR ''O'') 1"

section \<open>What an encoder writes\<close>

text \<open>A packet as bytes.\<close>

definition packet :: "u8 \<Rightarrow> u8 list \<Rightarrow> u8 list" where
  "packet t m = enc16 (of_nat (1 + length m)) @ t # m"

lemma length_packet [simp]: "length (packet t m) = length m + 3"
  by (simp add: packet_def)

lemma soup_frame_bytes: "3 \<le> length p \<Longrightarrow> fst (soup_frame p t n) = enc16 n @ t # drop 3 p"
proof -
  assume p: "3 \<le> length p"
  then obtain a b c q where "p = a # b # c # q"
    by (metis Suc_le_length_iff numeral_3_eq_3)
  then show ?thesis by (simp add: soup_frame_def put16_def enc16_def)
qed

lemma soup_frame_length [simp]: "length (fst (soup_frame p t n)) = length p" "snd (soup_frame p t n) = unat n + 2"
  by (simp_all add: soup_frame_def put16_def)

lemma frame_payload: "3 + length m \<le> length p \<Longrightarrow>
    take (length m + 3) (memcpy 3 m (fst (soup_frame p t (of_nat (1 + length m))))) = packet t m"
  using memcpy_append [of 3 m "fst (soup_frame p t (of_nat (1 + length m)))"] by (simp add: soup_frame_bytes packet_def)

lemma soup_data_packets:
  assumes "3 + length m \<le> length p"
  shows "take (length m + 3) (fst (soup_unsequenced p m)) = packet (ch CHR ''U'') m"
    "take (length m + 3) (fst (soup_sequenced p m)) = packet (ch CHR ''S'') m"
    "take (length m + 3) (fst (soup_debug p m)) = packet (ch CHR ''+'') m"
  using frame_payload [OF assms] by (simp_all add: soup_unsequenced_def soup_sequenced_def soup_debug_def split_def Let_def)

lemma soup_data_length [simp]: "length (fst (soup_unsequenced p m)) = length p" "length (fst (soup_sequenced p m)) = length p"
  by (simp_all add: soup_unsequenced_def soup_sequenced_def split_def Let_def)

text \<open>A padded field is its text cut to the field, and blanks.\<close>

definition right_field :: "u8 list option \<Rightarrow> nat \<Rightarrow> u8 list" where
  "right_field s n = take n (c_chars s) @ replicate (n - length (c_chars s)) (ch CHR '' '')"

definition left_field :: "u8 list option \<Rightarrow> nat \<Rightarrow> u8 list" where
  "left_field s n = replicate (n - length (c_chars s)) (ch CHR '' '') @ take n (c_chars s)"

lemma length_fields [simp]: "length (right_field s n) = n" "length (left_field s n) = n"
  by (simp_all add: right_field_def left_field_def)

lemma memcpy_joins: "i + length a + length b \<le> length p \<Longrightarrow> j = i + length a \<Longrightarrow> memcpy j b (memcpy i a p) = memcpy i (a @ b) p"
  by (rule nth_equalityI) (auto simp: nth_memcpy nth_append)

lemma memcpy_before: "i + length a + length b \<le> length p \<Longrightarrow> j = i + length a \<Longrightarrow> memcpy i a (memcpy j b p) = memcpy i (a @ b) p"
  by (rule nth_equalityI) (auto simp: nth_memcpy nth_append)

lemma right_padded: "i + n \<le> length p \<Longrightarrow> soup_right_padded i s n p = memcpy i (right_field s n) p"
  by (simp add: soup_right_padded_def Let_def right_field_def) (subst memcpy_joins; auto simp: min_def)

lemma left_padded: "i + n \<le> length p \<Longrightarrow> soup_left_padded i s n p = memcpy i (left_field s n) p"
proof -
  assume i: "i + n \<le> length p"
  let ?k = "n - length (c_chars s)"
  have "soup_left_padded i s n p = memcpy (i + ?k) (take n (c_chars s)) (memcpy i (replicate ?k (ch CHR '' '')) p)"
    by (simp add: soup_left_padded_def Let_def)
  also have "\<dots> = memcpy i (left_field s n) p"
    unfolding left_field_def by (rule memcpy_joins) (use i in simp_all)
  finally show ?thesis .
qed

lemma take_frame: "3 \<le> length p \<Longrightarrow> n = length m \<Longrightarrow> length p = 3 + n \<Longrightarrow> memcpy 3 m (fst (soup_frame p t k)) = enc16 k @ t # m"
  using memcpy_append [of 3 m "fst (soup_frame p t k)"] by (simp add: soup_frame_bytes)

lemma soup_login_packets:
  assumes "length p = 49" "length q = 33" "length r = 4"
  shows "soup_login_request p u w se nu =
      (packet (ch CHR ''L'') (right_field u 6 @ right_field w 10 @ left_field se 10 @ left_field nu 20), 49)"
    "soup_login_accepted q se nu = (packet (ch CHR ''A'') (left_field se 10 @ left_field nu 20), 33)"
    "soup_login_rejected r c = (packet (ch CHR ''J'') [c], 4)"
proof -
  have "soup_left_padded 29 nu 20 (soup_left_padded 19 se 10 (soup_right_padded 9 w 10 (soup_right_padded 3 u 6 (fst (soup_frame p t k))))) =
    memcpy 3 (right_field u 6 @ right_field w 10 @ left_field se 10 @ left_field nu 20) (fst (soup_frame p t k))" for t k
    using assms(1) by (simp add: right_padded left_padded memcpy_joins)
  then show "soup_login_request p u w se nu =
      (packet (ch CHR ''L'') (right_field u 6 @ right_field w 10 @ left_field se 10 @ left_field nu 20), 49)"
    using assms(1) by (simp add: soup_login_request_def split_def Let_def take_frame packet_def)
  have "soup_left_padded 13 nu 20 (soup_left_padded 3 se 10 (fst (soup_frame q t k))) =
    memcpy 3 (left_field se 10 @ left_field nu 20) (fst (soup_frame q t k))" for t k
    using assms(2) by (simp add: left_padded memcpy_joins)
  then show "soup_login_accepted q se nu = (packet (ch CHR ''A'') (left_field se 10 @ left_field nu 20), 33)"
    using assms(2) by (simp add: soup_login_accepted_def split_def Let_def take_frame packet_def)
  show "soup_login_rejected r c = (packet (ch CHR ''J'') [c], 4)"
    using take_frame [of r 1 "[c]"] assms(3)
    by (simp add: soup_login_rejected_def split_def Let_def packet_def update_memcpy)
qed

lemma soup_short_packets:
  assumes "length p = 3"
  shows "soup_server_heartbeat p = (packet (ch CHR ''H'') [], 3)" "soup_end_of_session p = (packet (ch CHR ''Z'') [], 3)"
    "soup_client_heartbeat p = (packet (ch CHR ''R'') [], 3)" "soup_logout_request p = (packet (ch CHR ''O'') [], 3)"
  using soup_frame_bytes [of p _ 1] assms
  by (simp_all add: soup_server_heartbeat_def soup_end_of_session_def soup_client_heartbeat_def soup_logout_request_def
      packet_def prod_eq_iff)

section \<open>What a reader sees\<close>

lemma packet_header:
  assumes "length m < 65535"
  shows "frame_length (packet t m @ q) = length m + 3" "(packet t m @ q) ! 2 = t"
    "ucast (declared_length (packet t m @ q)) - 1 = (of_nat (length m) :: u64)"
proof -
  have d: "declared_length (packet t m @ q) = of_nat (1 + length m)"
    using f16.get_append [of 0 "enc16 (of_nat (1 + length m))" "t # m @ q"] be16_enc16 [of "of_nat (1 + length m)"]
    by (simp add: declared_length_def packet_def)
  have u: "unat (of_nat (1 + length m) :: u16) = 1 + length m" by (rule unat_of_nat16) (use assms in simp)
  show "frame_length (packet t m @ q) = length m + 3" using d u by (simp add: frame_length_def)
  show "(packet t m @ q) ! 2 = t" by (simp add: packet_def nth_append)
  have "(ucast (of_nat (1 + length m) :: u16) :: u64) = of_nat (1 + length m)"
    unfolding word_unat_eq_iff using assms u by (simp add: unsigned_ucast_eq unat_of_nat64 take_bit_nat_eq_self del: of_nat_Suc of_nat_add)
  then show "ucast (declared_length (packet t m @ q)) - 1 = (of_nat (length m) :: u64)" by (simp add: d)
qed

end
