(* ===== verification/Session.thy ===== *)
theory Session
  imports Soup
begin

text \<open>
  The SoupBinTCP sessions of include/itchbook/soupbin/session.hpp: the buffer that cuts a byte stream into
  packets, the silence clocks, and the two state machines, client and server. A sink is the list of what it
  was given. The sink of the application is handed a pointer and a length; \<open>app_read\<close> is what it finds there,
  \<open>None\<close> when the length runs past the bytes that arrived. Reentrant calls are excluded by the assertion on
  \<open>in_dispatch_\<close>, which has no counterpart here; the two assertions on the state at a login decision are
  left to the caller and hold in the runs of \<open>SessionOk\<close>.
\<close>

section \<open>States\<close>

datatype soup_state = AwaitingLogin | LoginReceived | LoggedIn | LoginRefused | SessionEnded | LoginTimedOut | Dead |
  ProtocolViolation

definition session_over :: "soup_state \<Rightarrow> bool" where
  "session_over s =
     (case s of
        LoginRefused \<Rightarrow> True
      | SessionEnded \<Rightarrow> True
      | LoginTimedOut \<Rightarrow> True
      | Dead \<Rightarrow> True
      | ProtocolViolation \<Rightarrow> True
      | _ \<Rightarrow> False)"

text \<open>Silence since the last reset; a clock that runs backwards has not moved.\<close>

definition elapsed :: "u64 \<Rightarrow> u64 \<Rightarrow> u64" where
  "elapsed now since = (if now > since then now - since else 0)"

section \<open>The frame buffer\<close>

function drain_frames :: "nat \<Rightarrow> (u8 \<Rightarrow> u8 list \<Rightarrow> nat \<Rightarrow> 's \<Rightarrow> bool \<times> 's) \<Rightarrow> (u8 \<Rightarrow> nat \<Rightarrow> bool) \<Rightarrow> u8 list \<Rightarrow> 's \<Rightarrow>
    bool \<times> 's \<times> u8 list" where
  "drain_frames max_frame dispatch valid p s =
     (if length p < 3 then (True, s, p)
      else if frame_length p > max_frame then (False, s, p)
      else if length p < frame_length p then (True, s, p)
      else if \<not> valid (packet_type p) (frame_length p) then (False, s, p)
      else case dispatch (packet_type p) p (frame_length p) s of
        (False, s) \<Rightarrow> (False, s, p)
      | (True, s) \<Rightarrow> drain_frames max_frame dispatch valid (drop (frame_length p) p) s)"
  by pat_completeness auto
termination by (relation "measure (\<lambda>(m, d, v, p, s). length p)") (auto simp: frame_length_def)

declare drain_frames.simps [simp del]

definition known_fixed_wire_bytes :: "u8 \<Rightarrow> nat" where
  "known_fixed_wire_bytes t =
     (if t = ch CHR ''A'' then kLoginAcceptedWireBytes
      else if t = ch CHR ''J'' then kLoginRejectedWireBytes
      else if t = ch CHR ''H'' then kServerHeartbeatWireBytes
      else if t = ch CHR ''Z'' then kEndOfSessionWireBytes
      else if t = ch CHR ''L'' then kLoginRequestWireBytes
      else if t = ch CHR ''R'' then kClientHeartbeatWireBytes
      else if t = ch CHR ''O'' then kLogoutRequestWireBytes
      else 0)"

definition app_read :: "u8 list \<Rightarrow> u64 \<Rightarrow> u8 list option" where
  "app_read p n = (if unat n \<le> length p then Some (take (unat n) p) else None)"

section \<open>The client\<close>

record client_config =
  cc_heartbeat :: u64
  cc_server_dead :: u64
  cc_login_timeout :: u64
  cc_max_frame :: nat

record client_session =
  cs_cfg :: client_config
  cs_buf :: "u8 list"
  cs_send :: u64
  cs_recv :: u64
  cs_scratch :: "u8 list"
  cs_state :: soup_state
  cs_reject_reason :: u8
  cs_session_id :: "u8 list"
  cs_sequence :: u64
  cs_has_app :: bool
  cs_out :: "u8 list list"
  cs_app :: "u8 list option list"

text \<open>The default of the configuration, for the two thresholds without one.\<close>

definition client_config_default :: "u64 \<Rightarrow> u64 \<Rightarrow> client_config" where
  "client_config_default dead login =
     \<lparr> cc_heartbeat = 1000000000, cc_server_dead = dead, cc_login_timeout = login, cc_max_frame = 4096 \<rparr>"

definition client_put :: "u8 list \<Rightarrow> client_session \<Rightarrow> client_session" where
  "client_put m s = s\<lparr> cs_out := cs_out s @ [m] \<rparr>"

text \<open>An array on the stack, whatever it holds, is zeros here; its encoders write every byte.\<close>

definition client_new :: "client_config \<Rightarrow> u64 \<Rightarrow> u8 list option \<Rightarrow> u8 list option \<Rightarrow> u8 list option \<Rightarrow> u8 list option \<Rightarrow>
    bool \<Rightarrow> client_session" where
  "client_new cfg start username password requested_session requested_number has_app =
     (let s = \<lparr> cs_cfg = cfg, cs_buf = [], cs_send = start, cs_recv = start,
                cs_scratch = replicate (cc_max_frame cfg + 3) 0, cs_state = AwaitingLogin, cs_reject_reason = 0,
                cs_session_id = replicate 10 0, cs_sequence = 0, cs_has_app = has_app, cs_out = [], cs_app = [] \<rparr>;
          (frame, n) = soup_login_request (replicate kLoginRequestWireBytes 0) username password
             requested_session requested_number
      in client_put (take n frame) s)"

definition client_valid :: "u8 \<Rightarrow> nat \<Rightarrow> bool" where
  "client_valid t n =
     (let known = known_fixed_wire_bytes t in
      if t \<noteq> ch CHR ''A'' \<and> t \<noteq> ch CHR ''J'' \<and> t \<noteq> ch CHR ''H'' \<and> t \<noteq> ch CHR ''Z'' \<and>
         t \<noteq> ch CHR ''S'' \<and> t \<noteq> ch CHR ''+'' then False
      else known = 0 \<or> n = known)"

definition client_dispatch :: "u8 \<Rightarrow> u8 list \<Rightarrow> nat \<Rightarrow> client_session \<Rightarrow> bool \<times> client_session" where
  "client_dispatch t p n s =
     (if t = ch CHR ''+'' then (True, s)
      else if t = ch CHR ''A'' then
        (if cs_state s \<noteq> AwaitingLogin then (False, s)
         else (True, s\<lparr> cs_session_id := login_accepted_session p, cs_state := LoggedIn \<rparr>))
      else if t = ch CHR ''J'' then
        (if cs_state s \<noteq> AwaitingLogin then (False, s)
         else (True, s\<lparr> cs_reject_reason := login_rejected_reason p, cs_state := LoginRefused \<rparr>))
      else if t = ch CHR ''H'' then (True, s)
      else if t = ch CHR ''S'' then
        (if cs_state s \<noteq> LoggedIn then (False, s)
         else
           (let s = s\<lparr> cs_sequence := cs_sequence s + 1 \<rparr>
            in (True, if cs_has_app s then
                        s\<lparr> cs_app := cs_app s @ [app_read (sequenced_message p) (sequenced_message_length p)] \<rparr>
                      else s)))
      else if t = ch CHR ''Z'' then
        (if cs_state s \<noteq> LoggedIn then (False, s) else (True, s\<lparr> cs_state := SessionEnded \<rparr>))
      else (False, s))"

definition client_on_bytes :: "u8 list \<Rightarrow> u64 \<Rightarrow> client_session \<Rightarrow> bool \<times> client_session" where
  "client_on_bytes data now s =
     (if data = [] then (False, s)
      else
        (let before = cs_state s;
             (ok, s, rest) = drain_frames (cc_max_frame (cs_cfg s)) client_dispatch client_valid (cs_buf s @ data) s;
             s = s\<lparr> cs_buf := rest \<rparr>;
             s = (if \<not> ok then s\<lparr> cs_state := ProtocolViolation \<rparr>
                  else if \<not> session_over before \<and> \<not> session_over (cs_state s) then s\<lparr> cs_recv := now \<rparr>
                  else s)
         in (cs_state s \<noteq> before, s)))"

definition client_tick :: "u64 \<Rightarrow> client_session \<Rightarrow> bool \<times> client_session" where
  "client_tick now s =
     (if session_over (cs_state s) then (False, s)
      else
        (let before = cs_state s;
             s = (if cs_state s = AwaitingLogin then
                    (if elapsed now (cs_recv s) \<ge> cc_login_timeout (cs_cfg s) then s\<lparr> cs_state := LoginTimedOut \<rparr> else s)
                  else if cs_state s = LoggedIn then
                    (if elapsed now (cs_recv s) \<ge> cc_server_dead (cs_cfg s) then s\<lparr> cs_state := Dead \<rparr> else s)
                  else s);
             s = (if \<not> session_over (cs_state s) \<and> elapsed now (cs_send s) \<ge> cc_heartbeat (cs_cfg s) then
                    (let (frame, n) = soup_client_heartbeat (replicate kClientHeartbeatWireBytes 0)
                     in (client_put (take n frame) s)\<lparr> cs_send := now \<rparr>)
                  else s)
         in (cs_state s \<noteq> before, s)))"

definition client_send_unsequenced :: "u8 list \<Rightarrow> u64 \<Rightarrow> client_session \<Rightarrow> client_session" where
  "client_send_unsequenced m now s =
     (if length m + 3 > length (cs_scratch s) then s
      else
        (let s = s\<lparr> cs_scratch := fst (soup_unsequenced (cs_scratch s) m) \<rparr>
         in (client_put (take (length m + 3) (cs_scratch s)) s)\<lparr> cs_send := now \<rparr>))"

definition client_send_logout :: "u64 \<Rightarrow> client_session \<Rightarrow> client_session" where
  "client_send_logout now s =
     (let (frame, n) = soup_logout_request (replicate kLogoutRequestWireBytes 0)
      in (client_put (take n frame) s)\<lparr> cs_send := now \<rparr>)"

section \<open>The server\<close>

record server_config =
  sc_heartbeat :: u64
  sc_client_dead :: u64
  sc_login_timeout :: u64
  sc_max_frame :: nat

definition server_config_default :: server_config where
  "server_config_default = \<lparr> sc_heartbeat = 1000000000, sc_client_dead = 15000000000, sc_login_timeout = 30000000000,
     sc_max_frame = 4096 \<rparr>"

record server_session =
  ss_cfg :: server_config
  ss_buf :: "u8 list"
  ss_send :: u64
  ss_recv :: u64
  ss_scratch :: "u8 list"
  ss_state :: soup_state
  ss_sequence :: u64
  ss_login_frame :: "u8 list"
  ss_has_app :: bool
  ss_out :: "u8 list list"
  ss_app :: "u8 list option list"

definition server_put :: "u8 list \<Rightarrow> server_session \<Rightarrow> server_session" where
  "server_put m s = s\<lparr> ss_out := ss_out s @ [m] \<rparr>"

definition server_new :: "server_config \<Rightarrow> u64 \<Rightarrow> bool \<Rightarrow> server_session" where
  "server_new cfg start has_app =
     \<lparr> ss_cfg = cfg, ss_buf = [], ss_send = start, ss_recv = start, ss_scratch = replicate (sc_max_frame cfg + 3) 0,
       ss_state = AwaitingLogin, ss_sequence = 1, ss_login_frame = replicate kLoginRequestWireBytes 0,
       ss_has_app = has_app, ss_out = [], ss_app = [] \<rparr>"

definition server_valid :: "u8 \<Rightarrow> nat \<Rightarrow> bool" where
  "server_valid t n =
     (let known = known_fixed_wire_bytes t in
      if t \<noteq> ch CHR ''L'' \<and> t \<noteq> ch CHR ''U'' \<and> t \<noteq> ch CHR ''R'' \<and> t \<noteq> ch CHR ''O'' \<and> t \<noteq> ch CHR ''+'' then False
      else known = 0 \<or> n = known)"

definition server_dispatch :: "u8 \<Rightarrow> u8 list \<Rightarrow> nat \<Rightarrow> server_session \<Rightarrow> bool \<times> server_session" where
  "server_dispatch t p n s =
     (if t = ch CHR ''+'' then (True, s)
      else if t = ch CHR ''L'' then
        (if ss_state s \<noteq> AwaitingLogin then (False, s)
         else (True, s\<lparr> ss_login_frame := bytes_at p 0 kLoginRequestWireBytes, ss_state := LoginReceived \<rparr>))
      else if t = ch CHR ''U'' then
        (if ss_state s \<noteq> LoggedIn then (False, s)
         else (True, if ss_has_app s then
                       s\<lparr> ss_app := ss_app s @ [app_read (unsequenced_message p) (unsequenced_message_length p)] \<rparr>
                     else s))
      else if t = ch CHR ''R'' then (True, s)
      else if t = ch CHR ''O'' then
        (if ss_state s \<noteq> LoggedIn \<and> ss_state s \<noteq> LoginReceived then (False, s)
         else (True, s\<lparr> ss_state := SessionEnded \<rparr>))
      else (False, s))"

definition server_on_bytes :: "u8 list \<Rightarrow> u64 \<Rightarrow> server_session \<Rightarrow> bool \<times> server_session" where
  "server_on_bytes data now s =
     (if data = [] then (False, s)
      else
        (let before = ss_state s;
             (ok, s, rest) = drain_frames (sc_max_frame (ss_cfg s)) server_dispatch server_valid (ss_buf s @ data) s;
             s = s\<lparr> ss_buf := rest \<rparr>;
             s = (if \<not> ok then s\<lparr> ss_state := ProtocolViolation \<rparr>
                  else if \<not> session_over before \<and> \<not> session_over (ss_state s) then s\<lparr> ss_recv := now \<rparr>
                  else s)
         in (ss_state s \<noteq> before, s)))"

definition server_tick :: "u64 \<Rightarrow> server_session \<Rightarrow> bool \<times> server_session" where
  "server_tick now s =
     (if session_over (ss_state s) then (False, s)
      else
        (let before = ss_state s;
             s = (if ss_state s = AwaitingLogin then
                    (if elapsed now (ss_recv s) \<ge> sc_login_timeout (ss_cfg s) then s\<lparr> ss_state := LoginTimedOut \<rparr> else s)
                  else if ss_state s = LoggedIn then
                    (if elapsed now (ss_recv s) \<ge> sc_client_dead (ss_cfg s) then s\<lparr> ss_state := Dead \<rparr> else s)
                  else s);
             s = (if ss_state s = LoggedIn \<and> elapsed now (ss_send s) \<ge> sc_heartbeat (ss_cfg s) then
                    (let (frame, n) = soup_server_heartbeat (replicate kServerHeartbeatWireBytes 0)
                     in (server_put (take n frame) s)\<lparr> ss_send := now \<rparr>)
                  else s)
         in (ss_state s \<noteq> before, s)))"

definition server_accept_login :: "u8 list option \<Rightarrow> u8 list option \<Rightarrow> u64 \<Rightarrow> server_session \<Rightarrow> server_session" where
  "server_accept_login session_id number now s =
     (let (frame, n) = soup_login_accepted (replicate kLoginAcceptedWireBytes 0) session_id number
      in (server_put (take n frame) s)\<lparr> ss_send := now, ss_state := LoggedIn \<rparr>)"

definition server_reject_login :: "u8 \<Rightarrow> server_session \<Rightarrow> server_session" where
  "server_reject_login reason s =
     (let (frame, n) = soup_login_rejected (replicate kLoginRejectedWireBytes 0) reason
      in (server_put (take n frame) s)\<lparr> ss_state := LoginRefused \<rparr>)"

definition server_send_sequenced :: "u8 list \<Rightarrow> u64 \<Rightarrow> server_session \<Rightarrow> server_session" where
  "server_send_sequenced m now s =
     (if length m + 3 > length (ss_scratch s) then s
      else
        (let s = s\<lparr> ss_scratch := fst (soup_sequenced (ss_scratch s) m) \<rparr>
         in (server_put (take (length m + 3) (ss_scratch s)) s)\<lparr> ss_send := now, ss_sequence := ss_sequence s + 1 \<rparr>))"

definition server_send_end_of_session :: "server_session \<Rightarrow> server_session" where
  "server_send_end_of_session s =
     (let (frame, n) = soup_end_of_session (replicate kEndOfSessionWireBytes 0)
      in (server_put (take n frame) s)\<lparr> ss_state := SessionEnded \<rparr>)"

definition server_login_username :: "server_session \<Rightarrow> u8 list" where
  "server_login_username s = login_request_username (ss_login_frame s)"
definition server_login_password :: "server_session \<Rightarrow> u8 list" where
  "server_login_password s = login_request_password (ss_login_frame s)"
definition server_login_session :: "server_session \<Rightarrow> u8 list" where
  "server_login_session s = login_request_session (ss_login_frame s)"
definition server_login_sequence_number :: "server_session \<Rightarrow> u8 list" where
  "server_login_sequence_number s = login_request_sequence_number (ss_login_frame s)"

end
