(* ===== verification/SessionOk.thy ===== *)
theory SessionOk
  imports Session
begin

text \<open>
  What a session promises. The locale \<open>packet_stream\<close> is the contract between the frame buffer and the
  dispatch of a session: a packet is judged by its own bytes, and a refused packet changes nothing and
  stays refused. From it, how the bytes are cut into reads does not matter. The client and the server are its
  interpretations.
\<close>

section \<open>The contract\<close>

lemma frame_length_append: "2 \<le> length p \<Longrightarrow> frame_length (p @ q) = frame_length p"
  using f16.get_append [of 0 p q] by (simp add: frame_length_def declared_length_def)

lemma packet_type_append: "3 \<le> length p \<Longrightarrow> packet_type (p @ q) = packet_type p"
  by (simp add: packet_type_def nth_append)

text \<open>A read of the buffer: what is left of it, and the state, stopped if a packet was refused.\<close>

definition pump :: "nat \<Rightarrow> (u8 \<Rightarrow> u8 list \<Rightarrow> nat \<Rightarrow> 's \<Rightarrow> bool \<times> 's) \<Rightarrow> (u8 \<Rightarrow> nat \<Rightarrow> bool) \<Rightarrow> ('s \<Rightarrow> 's) \<Rightarrow> u8 list \<Rightarrow>
    u8 list \<times> 's \<Rightarrow> u8 list \<times> 's" where
  "pump n dispatch valid halt d x =
     (case drain_frames n dispatch valid (fst x @ d) (snd x) of (ok, s, r) \<Rightarrow> (r, if ok then s else halt s))"

locale packet_stream =
  fixes dispatch :: "u8 \<Rightarrow> u8 list \<Rightarrow> nat \<Rightarrow> 's \<Rightarrow> bool \<times> 's"
    and valid :: "u8 \<Rightarrow> nat \<Rightarrow> bool"
    and halt :: "'s \<Rightarrow> 's"
  assumes own_bytes: "3 \<le> length p \<Longrightarrow> frame_length p \<le> length p \<Longrightarrow> length (p @ q) < 2 ^ 64 \<Longrightarrow>
      valid (packet_type p) (frame_length p) \<Longrightarrow>
      dispatch (packet_type p) (p @ q) (frame_length p) s = dispatch (packet_type p) p (frame_length p) s"
    and refused: "dispatch t p n s = (False, s') \<Longrightarrow> s' = s \<and> dispatch t p n (halt s) = (False, halt s)"
    and halt_halt: "halt (halt s) = halt s"
begin

lemma drain_more:
  "drain_frames n dispatch valid p s = (ok, s', r) \<Longrightarrow> length (p @ q) < 2 ^ 64 \<Longrightarrow>
   drain_frames n dispatch valid (p @ q) s = (if ok then drain_frames n dispatch valid (r @ q) s' else (False, s', r @ q))"
proof (induction "length p" arbitrary: p s rule: less_induct)
  case less
  show ?case
  proof (cases "length p < 3 \<or> frame_length p \<le> n \<and> length p < frame_length p")
    case True
    then have "(ok, s', r) = (True, s, p)"
      using less.prems(1) by (subst (asm) drain_frames.simps) (auto split: if_splits)
    then show ?thesis by simp
  next
    case False
    then have p: "3 \<le> length p" "frame_length p > n \<or> frame_length p \<le> length p" by auto
    have fl: "frame_length (p @ q) = frame_length p" "packet_type (p @ q) = packet_type p" "\<not> length (p @ q) < 3"
      using p by (simp_all add: frame_length_append packet_type_append)
    consider "frame_length p > n" | "frame_length p \<le> n" "frame_length p \<le> length p" "\<not> valid (packet_type p) (frame_length p)"
      | "frame_length p \<le> n" "frame_length p \<le> length p" "valid (packet_type p) (frame_length p)"
      using p(2) by fastforce
    then show ?thesis
    proof cases
      case 1
      then have "(ok, s', r) = (False, s, p)" using less.prems(1) p by (subst (asm) drain_frames.simps) auto
      then show ?thesis using 1 fl by (subst drain_frames.simps) auto
    next
      case 2
      then have "(ok, s', r) = (False, s, p)" using less.prems(1) p by (subst (asm) drain_frames.simps) auto
      then show ?thesis using 2 fl by (subst drain_frames.simps) auto
    next
      case 3
      have same: "dispatch (packet_type p) (p @ q) (frame_length p) s = dispatch (packet_type p) p (frame_length p) s"
        by (rule own_bytes [OF p(1) 3(2) less.prems(2) 3(3)])
      obtain b s1 where d: "dispatch (packet_type p) p (frame_length p) s = (b, s1)" by fastforce
      show ?thesis
      proof (cases b)
        case True
        let ?p = "drop (frame_length p) p"
        have one: "drain_frames n dispatch valid p s = drain_frames n dispatch valid ?p s1"
          using 3 p d True by (subst drain_frames.simps) auto
        have "drain_frames n dispatch valid (p @ q) s = drain_frames n dispatch valid (?p @ q) s1"
          using 3 p d True fl same by (subst drain_frames.simps) auto
        moreover have "length ?p < length p" using p(1) by (auto simp: frame_length_def)
        ultimately show ?thesis using less.hyps [of ?p s1] less.prems one by simp
      next
        case False
        then have "(ok, s', r) = (False, s1, p)"
          using less.prems(1) 3 p d by (subst (asm) drain_frames.simps) auto
        moreover have "drain_frames n dispatch valid (p @ q) s = (False, s1, p @ q)"
          using 3 p d False fl same by (subst drain_frames.simps) auto
        ultimately show ?thesis by simp
      qed
    qed
  qed
qed

lemma drain_stuck:
  "drain_frames n dispatch valid p s = (False, s', r) \<Longrightarrow> length (p @ q) < 2 ^ 64 \<Longrightarrow>
   drain_frames n dispatch valid (r @ q) (halt s') = (False, halt s', r @ q)"
proof (induction "length p" arbitrary: p s rule: less_induct)
  case less
  have p: "3 \<le> length p" using less.prems(1) by (subst (asm) drain_frames.simps) (auto split: if_splits)
  have fl: "frame_length (p @ q) = frame_length p" "packet_type (p @ q) = packet_type p" "\<not> length (p @ q) < 3"
    using p by (simp_all add: frame_length_append packet_type_append)
  consider "frame_length p > n" | "frame_length p \<le> n" "frame_length p \<le> length p" "\<not> valid (packet_type p) (frame_length p)"
    | "frame_length p \<le> n" "frame_length p \<le> length p" "valid (packet_type p) (frame_length p)"
    using less.prems(1) p by (subst (asm) drain_frames.simps) (auto split: if_splits)
  then show ?case
  proof cases
    case 1
    then have "(s', r) = (s, p)" using less.prems(1) p by (subst (asm) drain_frames.simps) auto
    then show ?thesis using 1 fl by (subst drain_frames.simps) auto
  next
    case 2
    then have "(s', r) = (s, p)" using less.prems(1) p by (subst (asm) drain_frames.simps) auto
    then show ?thesis using 2 fl by (subst drain_frames.simps) auto
  next
    case 3
    obtain b s1 where d: "dispatch (packet_type p) p (frame_length p) s = (b, s1)" by fastforce
    show ?thesis
    proof (cases b)
      case True
      let ?p = "drop (frame_length p) p"
      have "drain_frames n dispatch valid p s = drain_frames n dispatch valid ?p s1"
        using 3 p d True by (subst drain_frames.simps) auto
      moreover have "length ?p < length p" using p by (auto simp: frame_length_def)
      ultimately show ?thesis using less.hyps [of ?p s1] less.prems by simp
    next
      case False
      then have r: "s' = s1" "r = p" using less.prems(1) 3 p d by (subst (asm) drain_frames.simps; auto)+
      have "dispatch (packet_type p) p (frame_length p) (halt s) = (False, halt s)" and s1: "s1 = s"
        using refused [of "packet_type p" p "frame_length p" s s1] d False by auto
      then have "dispatch (packet_type p) (p @ q) (frame_length p) (halt s) = (False, halt s)"
        using own_bytes [OF p 3(2) less.prems(2) 3(3)] by simp
      then show ?thesis unfolding r s1 using 3 fl by (subst drain_frames.simps) auto
    qed
  qed
qed

text \<open>What is kept after a clean read is less than a packet.\<close>

lemma drain_rest:
  "drain_frames n dispatch valid p s = (True, s', r) \<Longrightarrow> length r < 3 \<or> frame_length r \<le> n \<and> length r < frame_length r"
proof (induction "length p" arbitrary: p s rule: less_induct)
  case less
  show ?case
  proof (cases "length p < 3 \<or> frame_length p \<le> n \<and> length p < frame_length p")
    case True
    then have "r = p" using less.prems by (subst (asm) drain_frames.simps) (auto split: if_splits)
    then show ?thesis using True by blast
  next
    case False
    then have "\<exists>s1. drain_frames n dispatch valid (drop (frame_length p) p) s1 = (True, s', r)"
      using less.prems by (subst (asm) drain_frames.simps) (auto split: if_splits prod.splits bool.splits)
    moreover have "length (drop (frame_length p) p) < length p" using False by (auto simp: frame_length_def)
    ultimately show ?thesis using less.hyps by blast
  qed
qed

lemma pump_pump:
  assumes "length (fst x @ a @ b) < 2 ^ 64"
  shows "pump n dispatch valid halt b (pump n dispatch valid halt a x) = pump n dispatch valid halt (a @ b) x"
proof -
  obtain ok s r where d: "drain_frames n dispatch valid (fst x @ a) (snd x) = (ok, s, r)" by (metis prod_cases3)
  have l: "length ((fst x @ a) @ b) < 2 ^ 64" using assms by simp
  show ?thesis
  proof (cases ok)
    case True
    then show ?thesis using drain_more [OF d l] d by (simp add: pump_def)
  next
    case False
    then have "drain_frames n dispatch valid (fst x @ a) (snd x) = (False, s, r)" using d by simp
    from drain_stuck [OF this l] show ?thesis using False drain_more [OF d l] d
      by (simp add: pump_def halt_halt)
  qed
qed

end

section \<open>The two sessions meet it\<close>

lemma bytes_at_append: "i + n \<le> length p \<Longrightarrow> bytes_at (p @ q) i n = bytes_at p i n"
  by (simp add: bytes_at_def nth_append)

lemma app_read_own:
  assumes "3 \<le> length p" "frame_length p \<le> length p" "length (p @ q) < 2 ^ 64"
  shows "app_read (drop 3 (p @ q)) (ucast (declared_length (p @ q)) - 1) = app_read (drop 3 p) (ucast (declared_length p) - 1)"
proof -
  have d: "declared_length (p @ q) = declared_length p"
    using f16.get_append [of 0 p q] assms(1) by (simp add: declared_length_def)
  show ?thesis
  proof (cases "declared_length p = 0")
    case True
    have "unat (- 1 :: u64) = 2 ^ 64 - 1" by (simp add: unsigned_minus_1_eq_mask mask_eq_exp_minus_1)
    then show ?thesis using True d assms by (simp add: app_read_def) arith
  next
    case False
    have "unat (declared_length p) < 2 ^ 16" using unsigned_less [of "declared_length p"] by simp
    then have "unat (declared_length p) < 2 ^ 64" by (rule less_trans) simp
    then have "unat (ucast (declared_length p) :: u64) = unat (declared_length p)"
      by (simp add: unsigned_ucast_eq take_bit_nat_eq_self)
    then have u: "unat (ucast (declared_length p) - 1 :: u64) = unat (declared_length p) - 1"
      using False by (simp add: unat_sub word_le_nat_alt unat_gt_0 Suc_le_eq)
    have "unat (declared_length p) - 1 \<le> length p - 3" using assms(2) by (simp add: frame_length_def)
    then show ?thesis using d u assms(1) by (simp add: app_read_def)
  qed
qed

definition client_halt :: "client_session \<Rightarrow> client_session" where
  "client_halt s = s\<lparr> cs_state := ProtocolViolation \<rparr>"

definition server_halt :: "server_session \<Rightarrow> server_session" where
  "server_halt s = s\<lparr> ss_state := ProtocolViolation \<rparr>"

lemma client_valid_cases:
  "client_valid t n \<Longrightarrow> t = ch CHR ''A'' \<and> n = 33 \<or> t = ch CHR ''J'' \<and> n = 4 \<or> t = ch CHR ''H'' \<and> n = 3 \<or>
     t = ch CHR ''Z'' \<and> n = 3 \<or> t = ch CHR ''S'' \<or> t = ch CHR ''+''"
  by (auto simp: client_valid_def known_fixed_wire_bytes_def soup_sizes Let_def split: if_splits)

lemma server_valid_cases:
  "server_valid t n \<Longrightarrow> t = ch CHR ''L'' \<and> n = 49 \<or> t = ch CHR ''R'' \<and> n = 3 \<or> t = ch CHR ''O'' \<and> n = 3 \<or>
     t = ch CHR ''U'' \<or> t = ch CHR ''+''"
  by (auto simp: server_valid_def known_fixed_wire_bytes_def soup_sizes Let_def split: if_splits)

lemma client_own_bytes:
  assumes "3 \<le> length p" "frame_length p \<le> length p" "length (p @ q) < 2 ^ 64" "client_valid t (frame_length p)"
  shows "client_dispatch t (p @ q) n s = client_dispatch t p n s"
  using client_valid_cases [OF assms(4)]
proof (elim disjE conjE)
  assume "t = ch CHR ''S''"
  then show ?thesis
    using app_read_own [OF assms(1-3)]
    by (simp add: client_dispatch_def sequenced_message_def sequenced_message_length_def Let_def del: drop_append)
qed (use assms in \<open>simp_all add: client_dispatch_def login_accepted_session_def login_rejected_reason_def bytes_at_append nth_append\<close>)

lemma server_own_bytes:
  assumes "3 \<le> length p" "frame_length p \<le> length p" "length (p @ q) < 2 ^ 64" "server_valid t (frame_length p)"
  shows "server_dispatch t (p @ q) n s = server_dispatch t p n s"
  using server_valid_cases [OF assms(4)]
proof (elim disjE conjE)
  assume "t = ch CHR ''U''"
  then show ?thesis
    using app_read_own [OF assms(1-3)]
    by (simp add: server_dispatch_def unsequenced_message_def unsequenced_message_length_def Let_def del: drop_append)
qed (use assms in \<open>simp_all add: server_dispatch_def bytes_at_append kLoginRequestWireBytes_def\<close>)

interpretation client: packet_stream client_dispatch client_valid client_halt
proof unfold_locales
  fix p q :: "u8 list" and s
  assume "3 \<le> length p" "frame_length p \<le> length p" "length (p @ q) < 2 ^ 64" "client_valid (packet_type p) (frame_length p)"
  then show "client_dispatch (packet_type p) (p @ q) (frame_length p) s = client_dispatch (packet_type p) p (frame_length p) s"
    by (rule client_own_bytes)
next
  fix t p n s s'
  assume "client_dispatch t p n s = (False, s')"
  then show "s' = s \<and> client_dispatch t p n (client_halt s) = (False, client_halt s)"
    by (auto simp: client_dispatch_def client_halt_def Let_def split: if_splits)
qed (simp add: client_halt_def)

interpretation server: packet_stream server_dispatch server_valid server_halt
proof unfold_locales
  fix p q :: "u8 list" and s
  assume "3 \<le> length p" "frame_length p \<le> length p" "length (p @ q) < 2 ^ 64" "server_valid (packet_type p) (frame_length p)"
  then show "server_dispatch (packet_type p) (p @ q) (frame_length p) s = server_dispatch (packet_type p) p (frame_length p) s"
    by (rule server_own_bytes)
next
  fix t p n s s'
  assume "server_dispatch t p n s = (False, s')"
  then show "s' = s \<and> server_dispatch t p n (server_halt s) = (False, server_halt s)"
    by (auto simp: server_dispatch_def server_halt_def Let_def split: if_splits)
qed (simp add: server_halt_def)

section \<open>Reads of any size\<close>

lemma drain_through:
  assumes "\<And>t p n s. dispatch t p n (f s) = apsnd f (dispatch t p n s)"
  shows "drain_frames n dispatch valid p (f s) = (case drain_frames n dispatch valid p s of (ok, s', r) \<Rightarrow> (ok, f s', r))"
proof (induction "length p" arbitrary: p s rule: less_induct)
  case less
  have "length (drop (frame_length p) p) < length p" if "3 \<le> length p" using that by (auto simp: frame_length_def)
  then show ?case using less [of "drop (frame_length p) p"] assms
    by (subst (1 2) drain_frames.simps) (auto split: prod.splits bool.splits)
qed

lemma drain_keeps:
  assumes "\<And>t p n s. g (snd (dispatch t p n s)) = g s"
  shows "drain_frames n dispatch valid p s = (ok, s', r) \<Longrightarrow> g s' = g s"
proof (induction "length p" arbitrary: p s rule: less_induct)
  case less
  have l: "length (drop (frame_length p) p) < length p" if "3 \<le> length p" using that by (auto simp: frame_length_def)
  obtain b s1 where d: "dispatch (packet_type p) p (frame_length p) s = (b, s1)" by fastforce
  have "g s1 = g s" using assms [of "packet_type p" p "frame_length p" s] d by simp
  moreover have "3 \<le> length p \<Longrightarrow> drain_frames n dispatch valid (drop (frame_length p) p) s1 = (ok, s', r) \<Longrightarrow> g s' = g s1"
    using less.hyps l by blast
  moreover note less.prems [unfolded drain_frames.simps [of n dispatch valid p s] d]
  ultimately show ?case by (auto split: if_splits bool.splits)
qed

text \<open>What a session has made of the bytes: all of it but the time of the last ones.\<close>

definition client_core :: "client_session \<Rightarrow> u8 list \<times> client_session" where
  "client_core s = (cs_buf s, s\<lparr> cs_buf := [], cs_recv := 0 \<rparr>)"

definition server_core :: "server_session \<Rightarrow> u8 list \<times> server_session" where
  "server_core s = (ss_buf s, s\<lparr> ss_buf := [], ss_recv := 0 \<rparr>)"

lemma server_core_reads: "ss_app s = ss_app (snd (server_core s))" "ss_state s = ss_state (snd (server_core s))"
  by (simp_all add: server_core_def)

lemma client_core_reads: "cs_app s = cs_app (snd (client_core s))" "cs_state s = cs_state (snd (client_core s))"
  "cs_sequence s = cs_sequence (snd (client_core s))"
  by (simp_all add: client_core_def)

lemma client_dispatch_core:
  "client_dispatch t p n (s\<lparr> cs_buf := [], cs_recv := 0 \<rparr>) = apsnd (\<lambda>s. s\<lparr> cs_buf := [], cs_recv := 0 \<rparr>) (client_dispatch t p n s)"
  by (simp add: client_dispatch_def Let_def)

lemma server_dispatch_core:
  "server_dispatch t p n (s\<lparr> ss_buf := [], ss_recv := 0 \<rparr>) = apsnd (\<lambda>s. s\<lparr> ss_buf := [], ss_recv := 0 \<rparr>) (server_dispatch t p n s)"
  by (simp add: server_dispatch_def Let_def)

lemma client_reads:
  "d \<noteq> [] \<Longrightarrow> client_core (snd (client_on_bytes d now s)) =
     pump (cc_max_frame (cs_cfg s)) client_dispatch client_valid client_halt d (client_core s)"
  using drain_through [of client_dispatch "\<lambda>s. s\<lparr> cs_buf := [], cs_recv := 0 \<rparr>", OF client_dispatch_core]
  by (auto simp: client_on_bytes_def client_core_def pump_def client_halt_def Let_def split: prod.splits)

lemma server_reads:
  "d \<noteq> [] \<Longrightarrow> server_core (snd (server_on_bytes d now s)) =
     pump (sc_max_frame (ss_cfg s)) server_dispatch server_valid server_halt d (server_core s)"
  using drain_through [of server_dispatch "\<lambda>s. s\<lparr> ss_buf := [], ss_recv := 0 \<rparr>", OF server_dispatch_core]
  by (auto simp: server_on_bytes_def server_core_def pump_def server_halt_def Let_def split: prod.splits)

lemma on_bytes_nothing [simp]: "client_on_bytes [] now s = (False, s)" "server_on_bytes [] now z = (False, z)"
  by (simp_all add: client_on_bytes_def server_on_bytes_def)

lemma client_keeps_cfg [simp]: "cs_cfg (snd (client_on_bytes d now s)) = cs_cfg s"
proof -
  have "cs_cfg (snd (client_dispatch t p n s)) = cs_cfg s" for t p n s by (simp add: client_dispatch_def Let_def)
  from drain_keeps [where g = cs_cfg and dispatch = client_dispatch, OF this]
  show ?thesis by (auto simp: client_on_bytes_def Let_def split: prod.splits)
qed

lemma server_keeps_cfg [simp]: "ss_cfg (snd (server_on_bytes d now s)) = ss_cfg s"
proof -
  have "ss_cfg (snd (server_dispatch t p n s)) = ss_cfg s" for t p n s by (simp add: server_dispatch_def Let_def)
  from drain_keeps [where g = ss_cfg and dispatch = server_dispatch, OF this]
  show ?thesis by (auto simp: server_on_bytes_def Let_def split: prod.splits)
qed

lemma drain_shrinks: "drain_frames n dispatch valid p s = (ok, s', r) \<Longrightarrow> length r \<le> length p"
proof (induction "length p" arbitrary: p s rule: less_induct)
  case less
  have l: "length (drop (frame_length p) p) < length p" if "3 \<le> length p" using that by (auto simp: frame_length_def)
  obtain b s1 where d: "dispatch (packet_type p) p (frame_length p) s = (b, s1)" by fastforce
  have "3 \<le> length p \<Longrightarrow> drain_frames n dispatch valid (drop (frame_length p) p) s1 = (ok, s', r) \<Longrightarrow> length r \<le> length p"
    using less.hyps [OF l] l by fastforce
  then show ?case using less.prems [unfolded drain_frames.simps [of n dispatch valid p s] d]
    by (auto split: if_splits bool.splits)
qed

text \<open>A session whose reads are pumps: what it has made of a stream depends on the bytes alone, not on how
  they were cut into reads or when they came.\<close>

locale byte_session = packet_stream dispatch valid halt
  for dispatch :: "u8 \<Rightarrow> u8 list \<Rightarrow> nat \<Rightarrow> 's \<Rightarrow> bool \<times> 's" and valid halt +
  fixes core :: "'t \<Rightarrow> u8 list \<times> 's"
    and limit :: "'t \<Rightarrow> nat"
    and read :: "u8 list \<Rightarrow> u64 \<Rightarrow> 't \<Rightarrow> 't"
  assumes read_nothing: "read [] now s = s"
    and read_pump: "d \<noteq> [] \<Longrightarrow> core (read d now s) = pump (limit s) dispatch valid halt d (core s)"
    and read_limit: "limit (read d now s) = limit s"
begin

lemma reads_all:
  "length (fst (core s) @ concat (map fst rs)) < 2 ^ 64 \<Longrightarrow>
   core (fold (\<lambda>(d, now). read d now) rs s) = (if concat (map fst rs) = [] then core s else
     pump (limit s) dispatch valid halt (concat (map fst rs)) (core s))"
proof (induction rs arbitrary: s)
  case (Cons r rs)
  obtain d now where r: "r = (d, now)" by (cases r)
  show ?case
  proof (cases "d = []")
    case True
    then show ?thesis using Cons by (simp add: r read_nothing)
  next
    case False
    note c = read_pump [OF False, of now s]
    have "length (fst (core (read d now s))) \<le> length (fst (core s) @ d)"
      unfolding c pump_def using drain_shrinks by (auto split: prod.splits simp del: length_append)
    then have "length (fst (core (read d now s)) @ concat (map fst rs)) < 2 ^ 64" using Cons.prems by (simp add: r)
    from Cons.IH [OF this] show ?thesis
      using False pump_pump [of "core s" d "concat (map fst rs)"] Cons.prems
      by (cases "concat (map fst rs) = []") (simp_all add: c r read_limit del: concat_eq_Nil_conv)
  qed
qed simp

end

interpretation cbytes: byte_session client_dispatch client_valid client_halt client_core "\<lambda>s. cc_max_frame (cs_cfg s)"
    "\<lambda>d now s. snd (client_on_bytes d now s)"
  by unfold_locales (simp_all add: client_reads)

interpretation sbytes: byte_session server_dispatch server_valid server_halt server_core "\<lambda>s. sc_max_frame (ss_cfg s)"
    "\<lambda>d now s. snd (server_on_bytes d now s)"
  by unfold_locales (simp_all add: server_reads)

definition client_reads_all :: "(u8 list \<times> u64) list \<Rightarrow> client_session \<Rightarrow> client_session" where
  "client_reads_all rs = fold (\<lambda>(d, now) s. snd (client_on_bytes d now s)) rs"

definition server_reads_all :: "(u8 list \<times> u64) list \<Rightarrow> server_session \<Rightarrow> server_session" where
  "server_reads_all rs = fold (\<lambda>(d, now) s. snd (server_on_bytes d now s)) rs"

lemmas client_reads_all = cbytes.reads_all [folded client_reads_all_def]
lemmas server_reads_all = sbytes.reads_all [folded server_reads_all_def]

section \<open>Packets that were sent\<close>

lemma drain_packet:
  assumes "length m < 65535" "length m + 3 \<le> n" "valid t (length m + 3)"
  shows "drain_frames n dispatch valid (packet t m @ q) s =
    (case dispatch t (packet t m @ q) (length m + 3) s of
       (False, s) \<Rightarrow> (False, s, packet t m @ q)
     | (True, s) \<Rightarrow> drain_frames n dispatch valid q s)"
proof -
  note h = packet_header(1,2) [OF assms(1), of t q]
  show ?thesis using assms(2,3) h
    by (subst drain_frames.simps) (auto simp: packet_type_def split: prod.splits bool.splits)
qed

lemma drain_nothing [simp]: "drain_frames n dispatch valid [] s = (True, s, [])"
  by (subst drain_frames.simps) simp

lemma app_read_packet:
  assumes "length m < 65535"
  shows "app_read (drop 3 (packet t m @ q)) (ucast (declared_length (packet t m @ q)) - 1) = Some m"
proof -
  have "unat (of_nat (length m) :: u64) = length m" by (rule unat_of_nat64) (use assms in simp)
  moreover have "drop 3 (packet t m @ q) = m @ q" by (simp add: packet_def)
  ultimately show ?thesis by (simp only: packet_header(3) [OF assms]) (simp add: app_read_def)
qed

lemma server_drain_orders:
  "\<forall>m \<in> set ms. length m < 65535 \<and> length m + 3 \<le> n \<Longrightarrow> ss_state s = LoggedIn \<Longrightarrow> ss_has_app s \<Longrightarrow>
   drain_frames n server_dispatch server_valid (concat (map (packet (ch CHR ''U'')) ms)) s =
     (True, s\<lparr> ss_app := ss_app s @ map Some ms \<rparr>, [])"
proof (induction ms arbitrary: s)
  case (Cons m ms)
  have v: "server_valid (ch CHR ''U'') (length m + 3)" by (simp add: server_valid_def known_fixed_wire_bytes_def)
  have d: "server_dispatch (ch CHR ''U'') (packet (ch CHR ''U'') m @ q) k s = (True, s\<lparr> ss_app := ss_app s @ [Some m] \<rparr>)" for q k
    using Cons.prems app_read_packet [of m "ch CHR ''U''" q]
    by (simp add: server_dispatch_def unsequenced_message_def unsequenced_message_length_def del: drop_append)
  show ?case using Cons drain_packet [of m n server_valid "ch CHR ''U''" server_dispatch _ s, OF _ _ v] d by simp
qed simp

lemma client_drain_reports:
  "\<forall>m \<in> set ms. length m < 65535 \<and> length m + 3 \<le> n \<Longrightarrow> cs_state s = LoggedIn \<Longrightarrow> cs_has_app s \<Longrightarrow>
   drain_frames n client_dispatch client_valid (concat (map (packet (ch CHR ''S'')) ms)) s =
     (True, s\<lparr> cs_sequence := cs_sequence s + of_nat (length ms), cs_app := cs_app s @ map Some ms \<rparr>, [])"
proof (induction ms arbitrary: s)
  case (Cons m ms)
  have v: "client_valid (ch CHR ''S'') (length m + 3)" by (simp add: client_valid_def known_fixed_wire_bytes_def)
  have d: "client_dispatch (ch CHR ''S'') (packet (ch CHR ''S'') m @ q) k s =
      (True, s\<lparr> cs_sequence := cs_sequence s + 1, cs_app := cs_app s @ [Some m] \<rparr>)" for q k
    using Cons.prems app_read_packet [of m "ch CHR ''S''" q]
    by (simp add: client_dispatch_def sequenced_message_def sequenced_message_length_def Let_def del: drop_append)
  show ?case using Cons drain_packet [of m n client_valid "ch CHR ''S''" client_dispatch _ s, OF _ _ v]
      d by (simp add: algebra_simps)
qed simp

text \<open>What the other side wrote.\<close>

definition client_sends :: "(u8 list \<times> u64) list \<Rightarrow> client_session \<Rightarrow> client_session" where
  "client_sends ms = fold (\<lambda>(m, now). client_send_unsequenced m now) ms"

definition server_sends :: "(u8 list \<times> u64) list \<Rightarrow> server_session \<Rightarrow> server_session" where
  "server_sends ms = fold (\<lambda>(m, now). server_send_sequenced m now) ms"

lemma client_sends_out:
  "\<forall>(m, now) \<in> set ms. length m + 3 \<le> length (cs_scratch s) \<Longrightarrow>
   cs_out (client_sends ms s) = cs_out s @ map (packet (ch CHR ''U'')) (map fst ms) \<and>
   length (cs_scratch (client_sends ms s)) = length (cs_scratch s)"
proof (induction ms arbitrary: s)
  case (Cons m ms)
  obtain x now where m: "m = (x, now)" by (cases m)
  let ?s = "client_send_unsequenced x now s"
  have "cs_out ?s = cs_out s @ [packet (ch CHR ''U'') x]" "length (cs_scratch ?s) = length (cs_scratch s)"
    using Cons.prems soup_data_packets(1) [of x "cs_scratch s"]
    by (simp_all add: client_send_unsequenced_def client_put_def m Let_def)
  then show ?case using Cons.IH [of ?s] Cons.prems by (simp add: client_sends_def m)
qed (simp add: client_sends_def)

lemma server_sends_out:
  "\<forall>(m, now) \<in> set ms. length m + 3 \<le> length (ss_scratch s) \<Longrightarrow>
   ss_out (server_sends ms s) = ss_out s @ map (packet (ch CHR ''S'')) (map fst ms) \<and>
   length (ss_scratch (server_sends ms s)) = length (ss_scratch s) \<and>
   ss_sequence (server_sends ms s) = ss_sequence s + of_nat (length ms)"
proof (induction ms arbitrary: s)
  case (Cons m ms)
  obtain x now where m: "m = (x, now)" by (cases m)
  let ?s = "server_send_sequenced x now s"
  have "ss_out ?s = ss_out s @ [packet (ch CHR ''S'') x]" "length (ss_scratch ?s) = length (ss_scratch s)"
    "ss_sequence ?s = ss_sequence s + 1"
    using Cons.prems soup_data_packets(2) [of x "ss_scratch s"]
    by (simp_all add: server_send_sequenced_def server_put_def m Let_def)
  then show ?case using Cons.IH [of ?s] Cons.prems by (simp add: server_sends_def m algebra_simps)
qed (simp add: server_sends_def)

text \<open>And what this side makes of it, with nothing kept back from before.\<close>

lemma server_takes_orders:
  assumes "\<forall>m \<in> set ms. length m < 65535 \<and> length m + 3 \<le> sc_max_frame (ss_cfg s)"
    and "ss_state s = LoggedIn" "ss_has_app s" "ss_buf s = []"
    and rs: "concat (map fst rs) = concat (map (packet (ch CHR ''U'')) ms)" "length (concat (map fst rs)) < 2 ^ 64"
  shows "server_core (server_reads_all rs s) = ([], s\<lparr> ss_app := ss_app s @ map Some ms, ss_buf := [], ss_recv := 0 \<rparr>)"
proof -
  have c: "server_core s = ([], s\<lparr> ss_buf := [], ss_recv := 0 \<rparr>)" using assms(4) by (simp add: server_core_def)
  have l: "length (fst (server_core s) @ concat (map fst rs)) < 2 ^ 64" using c rs(2) by simp
  have "server_core (server_reads_all rs s) =
      pump (sc_max_frame (ss_cfg s)) server_dispatch server_valid server_halt (concat (map fst rs)) (server_core s)"
    unfolding server_reads_all [OF l]
    by (cases "concat (map fst rs) = []") (simp_all add: pump_def c del: concat_eq_Nil_conv)
  then show ?thesis
    using server_drain_orders [OF assms(1), of "s\<lparr> ss_buf := [], ss_recv := 0 \<rparr>"] assms(2,3)
    unfolding c rs(1) pump_def by simp
qed

lemma client_takes_reports:
  assumes "\<forall>m \<in> set ms. length m < 65535 \<and> length m + 3 \<le> cc_max_frame (cs_cfg s)"
    and "cs_state s = LoggedIn" "cs_has_app s" "cs_buf s = []"
    and rs: "concat (map fst rs) = concat (map (packet (ch CHR ''S'')) ms)" "length (concat (map fst rs)) < 2 ^ 64"
  shows "client_core (client_reads_all rs s) = ([], s\<lparr> cs_sequence := cs_sequence s + of_nat (length ms),
    cs_app := cs_app s @ map Some ms, cs_buf := [], cs_recv := 0 \<rparr>)"
proof -
  have c: "client_core s = ([], s\<lparr> cs_buf := [], cs_recv := 0 \<rparr>)" using assms(4) by (simp add: client_core_def)
  have l: "length (fst (client_core s) @ concat (map fst rs)) < 2 ^ 64" using c rs(2) by simp
  have "client_core (client_reads_all rs s) =
      pump (cc_max_frame (cs_cfg s)) client_dispatch client_valid client_halt (concat (map fst rs)) (client_core s)"
    unfolding client_reads_all [OF l]
    by (cases "concat (map fst rs) = []") (simp_all add: pump_def c del: concat_eq_Nil_conv)
  then show ?thesis
    using client_drain_reports [OF assms(1), of "s\<lparr> cs_buf := [], cs_recv := 0 \<rparr>"] assms(2,3)
    unfolding c rs(1) pump_def by simp
qed

end
