(* ===== verification/SessionRun.thy ===== *)
theory SessionRun
  imports SessionOk
begin

text \<open>
  The life of a session: its runs as lists of the calls its owner makes, what every state of a run keeps, and
  the dead-peer detection. \<open>last_heard\<close> is the time of the last bytes that arrived, computed from the calls alone.
\<close>

section \<open>Runs\<close>

datatype session_event = Bytes "u8 list" u64 | Tick u64 | Send "u8 list" u64 | Logout u64

datatype server_event = GotBytes "u8 list" u64 | Ticked u64 | Reply "u8 list" u64 |
  AcceptLogin "u8 list option" "u8 list option" u64 | RejectLogin u8 | EndSession

fun client_do :: "session_event \<Rightarrow> client_session \<Rightarrow> client_session" where
  "client_do (Bytes d now) s = snd (client_on_bytes d now s)"
| "client_do (Tick now) s = snd (client_tick now s)"
| "client_do (Send m now) s = client_send_unsequenced m now s"
| "client_do (Logout now) s = client_send_logout now s"

text \<open>A login is decided only while it waits for the decision, as the assertions ask.\<close>

fun server_do :: "server_event \<Rightarrow> server_session \<Rightarrow> server_session" where
  "server_do (GotBytes d now) s = snd (server_on_bytes d now s)"
| "server_do (Ticked now) s = snd (server_tick now s)"
| "server_do (Reply m now) s = server_send_sequenced m now s"
| "server_do (AcceptLogin i n now) s = (if ss_state s = LoginReceived then server_accept_login i n now s else s)"
| "server_do (RejectLogin c) s = (if ss_state s = LoginReceived then server_reject_login c s else s)"
| "server_do EndSession s = server_send_end_of_session s"

definition client_run :: "session_event list \<Rightarrow> client_session \<Rightarrow> client_session" where
  "client_run = fold client_do"

definition server_run :: "server_event list \<Rightarrow> server_session \<Rightarrow> server_session" where
  "server_run = fold server_do"

lemma run_simps [simp]:
  "client_run [] s = s" "client_run [e] s = client_do e s"
  "client_run (es @ fs) s = client_run fs (client_run es s)"
  "server_run [] z = z" "server_run [g] z = server_do g z"
  "server_run (gs @ hs) z = server_run hs (server_run gs z)"
  by (simp_all add: client_run_def server_run_def)

fun heard_of :: "session_event \<Rightarrow> u64 \<Rightarrow> u64" where
  "heard_of (Bytes d now) t = (if d = [] then t else now)"
| "heard_of _ t = t"

fun server_heard_of :: "server_event \<Rightarrow> u64 \<Rightarrow> u64" where
  "server_heard_of (GotBytes d now) t = (if d = [] then t else now)"
| "server_heard_of _ t = t"

definition last_heard :: "u64 \<Rightarrow> session_event list \<Rightarrow> u64" where "last_heard start es = fold heard_of es start"

definition server_last_heard :: "u64 \<Rightarrow> server_event list \<Rightarrow> u64" where
  "server_last_heard start es = fold server_heard_of es start"

lemma heard_snoc [simp]:
  "last_heard t [] = t" "last_heard t (es @ [e]) = heard_of e (last_heard t es)"
  "server_last_heard t [] = t" "server_last_heard t (gs @ [g]) = server_heard_of g (server_last_heard t gs)"
  by (simp_all add: last_heard_def server_last_heard_def)

section \<open>A terminal state stays terminal\<close>

lemma over_simps [simp]:
  "session_over LoginRefused" "session_over SessionEnded" "session_over LoginTimedOut" "session_over Dead"
  "session_over ProtocolViolation" "\<not> session_over AwaitingLogin" "\<not> session_over LoginReceived" "\<not> session_over LoggedIn"
  by (simp_all add: session_over_def)

lemma drain_induct:
  assumes "\<And>t p n s. P s \<Longrightarrow> P (snd (dispatch t p n s))"
  shows "drain_frames n dispatch valid p s = (ok, s', r) \<Longrightarrow> P s \<Longrightarrow> P s'"
proof (induction "length p" arbitrary: p s rule: less_induct)
  case less
  have l: "length (drop (frame_length p) p) < length p" if "3 \<le> length p" using that by (auto simp: frame_length_def)
  obtain b s1 where d: "dispatch (packet_type p) p (frame_length p) s = (b, s1)" by fastforce
  have s1: "P s1" using assms [of s "packet_type p" p "frame_length p"] less.prems(2) d by simp
  have "3 \<le> length p \<Longrightarrow> drain_frames n dispatch valid (drop (frame_length p) p) s1 = (ok, s', r) \<Longrightarrow> P s'"
    using less.hyps [OF l _ s1] by blast
  then show ?case using less.prems(1) [unfolded drain_frames.simps [of n dispatch valid p s] d] s1 less.prems(2)
    by (auto split: if_splits bool.splits)
qed

lemma client_dispatch_over: "session_over (cs_state s) \<Longrightarrow> session_over (cs_state (snd (client_dispatch t p n s)))"
  by (auto simp: client_dispatch_def Let_def)

lemma server_dispatch_over: "session_over (ss_state s) \<Longrightarrow> session_over (ss_state (snd (server_dispatch t p n s)))"
  by (auto simp: server_dispatch_def Let_def)

lemma client_bytes_over: "session_over (cs_state s) \<Longrightarrow> session_over (cs_state (snd (client_on_bytes d now s)))"
proof -
  assume s: "session_over (cs_state s)"
  then have "session_over (cs_state s')" if "drain_frames n client_dispatch client_valid p s = (ok, s', r)" for n p ok s' r
    using that drain_induct [where P = "\<lambda>s. session_over (cs_state s)" and dispatch = client_dispatch, OF client_dispatch_over] by blast
  then show ?thesis using s by (auto simp: client_on_bytes_def Let_def split: prod.splits)
qed

lemma server_bytes_over: "session_over (ss_state s) \<Longrightarrow> session_over (ss_state (snd (server_on_bytes d now s)))"
proof -
  assume s: "session_over (ss_state s)"
  then have "session_over (ss_state s')" if "drain_frames n server_dispatch server_valid p s = (ok, s', r)" for n p ok s' r
    using that drain_induct [where P = "\<lambda>s. session_over (ss_state s)" and dispatch = server_dispatch, OF server_dispatch_over] by blast
  then show ?thesis using s by (auto simp: server_on_bytes_def Let_def split: prod.splits)
qed

lemma client_do_over: "session_over (cs_state s) \<Longrightarrow> session_over (cs_state (client_do e s))"
  by (cases e) (auto simp: client_bytes_over client_tick_def client_send_unsequenced_def client_send_logout_def
      client_put_def Let_def split_def)

lemma server_do_over: "session_over (ss_state s) \<Longrightarrow> session_over (ss_state (server_do e s))"
  by (cases e) (auto simp: server_bytes_over server_tick_def server_send_sequenced_def server_accept_login_def
      server_reject_login_def server_send_end_of_session_def server_put_def Let_def split_def)

lemma client_run_over: "session_over (cs_state s) \<Longrightarrow> session_over (cs_state (client_run es s))"
  by (induction es rule: rev_induct) (simp_all add: client_do_over)

lemma server_run_over: "session_over (ss_state s) \<Longrightarrow> session_over (ss_state (server_run es s))"
  by (induction es rule: rev_induct) (simp_all add: server_do_over)

section \<open>The silence clock\<close>

lemma client_do_cfg [simp]: "cs_cfg (client_do e s) = cs_cfg s"
  by (cases e) (auto simp: client_tick_def client_send_unsequenced_def client_send_logout_def client_put_def Let_def split_def)

lemma server_do_cfg [simp]: "ss_cfg (server_do e s) = ss_cfg s"
  by (cases e) (auto simp: server_tick_def server_send_sequenced_def server_accept_login_def
      server_reject_login_def server_send_end_of_session_def server_put_def Let_def split_def)

lemma client_run_cfg [simp]: "cs_cfg (client_run es s) = cs_cfg s"
  by (induction es rule: rev_induct) simp_all

lemma server_run_cfg [simp]: "ss_cfg (server_run es s) = ss_cfg s"
  by (induction es rule: rev_induct) simp_all

lemma client_bytes_recv:
  "\<not> session_over (cs_state (snd (client_on_bytes d now s))) \<Longrightarrow>
   cs_recv (snd (client_on_bytes d now s)) = (if d = [] then cs_recv s else now)"
  using client_bytes_over [of s d now] by (auto simp: client_on_bytes_def Let_def split: prod.splits)

lemma server_bytes_recv:
  "\<not> session_over (ss_state (snd (server_on_bytes d now s))) \<Longrightarrow>
   ss_recv (snd (server_on_bytes d now s)) = (if d = [] then ss_recv s else now)"
  using server_bytes_over [of s d now] by (auto simp: server_on_bytes_def Let_def split: prod.splits)

lemma client_hears: "\<not> session_over (cs_state (client_run es s)) \<Longrightarrow> cs_recv (client_run es s) = last_heard (cs_recv s) es"
proof (induction es rule: rev_induct)
  case (snoc e es)
  have "\<not> session_over (cs_state (client_run es s))" using snoc.prems client_do_over [of "client_run es s" e] by auto
  with snoc.IH snoc.prems show ?case
    by (cases e) (auto simp: client_bytes_recv client_tick_def client_send_unsequenced_def client_send_logout_def
        client_put_def Let_def split_def)
qed simp

lemma server_hears: "\<not> session_over (ss_state (server_run es s)) \<Longrightarrow> ss_recv (server_run es s) = server_last_heard (ss_recv s) es"
proof (induction es rule: rev_induct)
  case (snoc e es)
  have "\<not> session_over (ss_state (server_run es s))" using snoc.prems server_do_over [of "server_run es s" e] by auto
  with snoc.IH snoc.prems show ?case
    by (cases e) (auto simp: server_bytes_recv server_tick_def server_send_sequenced_def server_accept_login_def
        server_reject_login_def server_send_end_of_session_def server_put_def Let_def split_def)
qed simp

text \<open>Only a tick kills a session, and only a session that has been logged in and silent for its threshold.\<close>

lemma client_bytes_dead: "cs_state (snd (client_on_bytes d now s)) = Dead \<Longrightarrow> cs_state s = Dead"
proof (rule ccontr)
  assume a: "cs_state (snd (client_on_bytes d now s)) = Dead" and s: "cs_state s \<noteq> Dead"
  have "cs_state s' \<noteq> Dead" if d: "drain_frames n client_dispatch client_valid p s = (ok, s', r)" for n p ok s' r
    by (rule drain_induct [where P = "\<lambda>s. cs_state s \<noteq> Dead" and dispatch = client_dispatch, OF _ d s])
      (auto simp: client_dispatch_def Let_def)
  then show False using a s by (auto simp: client_on_bytes_def Let_def split: prod.splits if_splits)
qed

lemma server_bytes_dead: "ss_state (snd (server_on_bytes d now s)) = Dead \<Longrightarrow> ss_state s = Dead"
proof (rule ccontr)
  assume a: "ss_state (snd (server_on_bytes d now s)) = Dead" and s: "ss_state s \<noteq> Dead"
  have "ss_state s' \<noteq> Dead" if d: "drain_frames n server_dispatch server_valid p s = (ok, s', r)" for n p ok s' r
    by (rule drain_induct [where P = "\<lambda>s. ss_state s \<noteq> Dead" and dispatch = server_dispatch, OF _ d s])
      (auto simp: server_dispatch_def Let_def)
  then show False using a s by (auto simp: server_on_bytes_def Let_def split: prod.splits if_splits)
qed

lemma client_tick_state:
  "cs_state (snd (client_tick now s)) =
     (if cs_state s = AwaitingLogin \<and> elapsed now (cs_recv s) \<ge> cc_login_timeout (cs_cfg s) then LoginTimedOut
      else if cs_state s = LoggedIn \<and> elapsed now (cs_recv s) \<ge> cc_server_dead (cs_cfg s) then Dead
      else cs_state s)"
  by (auto simp: client_tick_def client_put_def Let_def split_def)

lemma server_tick_state:
  "ss_state (snd (server_tick now s)) =
     (if ss_state s = AwaitingLogin \<and> elapsed now (ss_recv s) \<ge> sc_login_timeout (ss_cfg s) then LoginTimedOut
      else if ss_state s = LoggedIn \<and> elapsed now (ss_recv s) \<ge> sc_client_dead (ss_cfg s) then Dead
      else ss_state s)"
  by (auto simp: server_tick_def server_put_def Let_def split_def)

lemma client_killed_by_silence:
  "cs_state (client_run es s) = Dead \<Longrightarrow> cs_state s \<noteq> Dead \<Longrightarrow>
   \<exists>es1 now es2. es = es1 @ Tick now # es2 \<and> cs_state (client_run es1 s) = LoggedIn \<and>
     cc_server_dead (cs_cfg s) \<le> elapsed now (last_heard (cs_recv s) es1)"
proof (induction es rule: rev_induct)
  case (snoc e es)
  show ?case
  proof (cases "cs_state (client_run es s) = Dead")
    case True
    with snoc obtain es1 now es2 where "es = es1 @ Tick now # es2" "cs_state (client_run es1 s) = LoggedIn"
      "cc_server_dead (cs_cfg s) \<le> elapsed now (last_heard (cs_recv s) es1)" by blast
    then show ?thesis by (intro exI [of _ es1] exI [of _ now] exI [of _ "es2 @ [e]"]) simp
  next
    case False
    then obtain now where e: "e = Tick now"
      using snoc.prems by (cases e) (auto dest: client_bytes_dead simp: client_send_unsequenced_def client_send_logout_def
          client_put_def Let_def split_def split: if_splits)
    then have l: "cs_state (client_run es s) = LoggedIn" "cc_server_dead (cs_cfg s) \<le> elapsed now (cs_recv (client_run es s))"
      using snoc.prems False by (auto simp: client_tick_state split: if_splits)
    then have "cs_recv (client_run es s) = last_heard (cs_recv s) es" by (intro client_hears) simp
    then show ?thesis using e l by auto
  qed
qed simp

lemma server_killed_by_silence:
  "ss_state (server_run es s) = Dead \<Longrightarrow> ss_state s \<noteq> Dead \<Longrightarrow>
   \<exists>es1 now es2. es = es1 @ Ticked now # es2 \<and> ss_state (server_run es1 s) = LoggedIn \<and>
     sc_client_dead (ss_cfg s) \<le> elapsed now (server_last_heard (ss_recv s) es1)"
proof (induction es rule: rev_induct)
  case (snoc e es)
  show ?case
  proof (cases "ss_state (server_run es s) = Dead")
    case True
    with snoc obtain es1 now es2 where "es = es1 @ Ticked now # es2" "ss_state (server_run es1 s) = LoggedIn"
      "sc_client_dead (ss_cfg s) \<le> elapsed now (server_last_heard (ss_recv s) es1)" by blast
    then show ?thesis by (intro exI [of _ es1] exI [of _ now] exI [of _ "es2 @ [e]"]) simp
  next
    case False
    then obtain now where e: "e = Ticked now"
      using snoc.prems by (cases e) (auto dest: server_bytes_dead simp: server_send_sequenced_def server_accept_login_def
          server_reject_login_def server_send_end_of_session_def server_put_def Let_def split_def split: if_splits)
    then have l: "ss_state (server_run es s) = LoggedIn" "sc_client_dead (ss_cfg s) \<le> elapsed now (ss_recv (server_run es s))"
      using snoc.prems False by (auto simp: server_tick_state split: if_splits)
    then have "ss_recv (server_run es s) = server_last_heard (ss_recv s) es" by (intro server_hears) simp
    then show ?thesis using e l by auto
  qed
qed simp

section \<open>What every state keeps\<close>

definition partial_frame :: "nat \<Rightarrow> u8 list \<Rightarrow> bool" where
  "partial_frame n p \<longleftrightarrow> length p < 3 \<or> frame_length p \<le> n \<and> length p < frame_length p"

definition client_fields :: "client_session \<Rightarrow> bool" where
  "client_fields s \<longleftrightarrow> cs_state s \<noteq> LoginReceived \<and> length (cs_session_id s) = 10 \<and>
     length (cs_scratch s) = cc_max_frame (cs_cfg s) + 3 \<and>
     (if cs_has_app s then cs_sequence s = of_nat (length (cs_app s)) else cs_app s = []) \<and>
     (cs_state s \<in> {AwaitingLogin, LoginRefused, LoginTimedOut} \<longrightarrow> cs_sequence s = 0)"

definition server_fields :: "server_session \<Rightarrow> bool" where
  "server_fields s \<longleftrightarrow> length (ss_login_frame s) = 49 \<and> length (ss_scratch s) = sc_max_frame (ss_cfg s) + 3 \<and>
     ss_sequence s = 1 + of_nat (length (filter (\<lambda>m. m ! 2 = ch CHR ''S'') (ss_out s))) \<and>
     (ss_state s \<in> {AwaitingLogin, LoginReceived, LoginRefused, LoginTimedOut} \<longrightarrow> ss_app s = [])"

definition client_typed :: "client_session \<Rightarrow> bool" where
  "client_typed s \<longleftrightarrow> client_fields s \<and> (\<not> session_over (cs_state s) \<longrightarrow> partial_frame (cc_max_frame (cs_cfg s)) (cs_buf s))"

definition server_typed :: "server_session \<Rightarrow> bool" where
  "server_typed s \<longleftrightarrow> server_fields s \<and> (\<not> session_over (ss_state s) \<longrightarrow> partial_frame (sc_max_frame (ss_cfg s)) (ss_buf s))"

lemma packet_type_nth [simp]: "packet t m ! 2 = t"
  by (simp add: packet_def nth_append)

lemma client_dispatch_fields: "client_fields s \<Longrightarrow> client_fields (snd (client_dispatch t p n s))"
  by (auto simp: client_dispatch_def client_fields_def Let_def login_accepted_session_def)

lemma server_dispatch_fields: "server_fields s \<Longrightarrow> server_fields (snd (server_dispatch t p n s))"
  by (auto simp: server_dispatch_def server_fields_def Let_def kLoginRequestWireBytes_def)

lemma client_bytes_typed: "client_typed s \<Longrightarrow> client_typed (snd (client_on_bytes d now s))"
proof (cases "d = []")
  case False
  assume t: "client_typed s"
  obtain ok s1 r where dr: "drain_frames (cc_max_frame (cs_cfg s)) client_dispatch client_valid (cs_buf s @ d) s = (ok, s1, r)"
    by (metis prod_cases3)
  have "client_fields s1" using drain_induct [where P = client_fields and dispatch = client_dispatch, OF client_dispatch_fields dr] t
    by (simp add: client_typed_def)
  moreover have "cs_cfg s1 = cs_cfg s"
    by (rule drain_keeps [where g = cs_cfg and dispatch = client_dispatch, OF _ dr]) (simp add: client_dispatch_def Let_def)
  moreover have "ok \<Longrightarrow> partial_frame (cc_max_frame (cs_cfg s)) r"
    using client.drain_rest [of _ _ s s1 r] dr by (cases ok) (auto simp: partial_frame_def)
  ultimately show ?thesis using False dr
    by (auto simp: client_on_bytes_def client_typed_def client_fields_def Let_def)
qed simp

lemma server_bytes_typed: "server_typed s \<Longrightarrow> server_typed (snd (server_on_bytes d now s))"
proof (cases "d = []")
  case False
  assume t: "server_typed s"
  obtain ok s1 r where dr: "drain_frames (sc_max_frame (ss_cfg s)) server_dispatch server_valid (ss_buf s @ d) s = (ok, s1, r)"
    by (metis prod_cases3)
  have "server_fields s1" using drain_induct [where P = server_fields and dispatch = server_dispatch, OF server_dispatch_fields dr] t
    by (simp add: server_typed_def)
  moreover have "ss_cfg s1 = ss_cfg s"
    by (rule drain_keeps [where g = ss_cfg and dispatch = server_dispatch, OF _ dr]) (simp add: server_dispatch_def Let_def)
  moreover have "ok \<Longrightarrow> partial_frame (sc_max_frame (ss_cfg s)) r"
    using server.drain_rest [of _ _ s s1 r] dr by (cases ok) (auto simp: partial_frame_def)
  ultimately show ?thesis using False dr
    by (auto simp: server_on_bytes_def server_typed_def server_fields_def Let_def)
qed simp

lemma client_do_typed: "client_typed s \<Longrightarrow> client_typed (client_do e s)"
  by (cases e) (auto simp: client_bytes_typed, auto simp: client_tick_def client_send_unsequenced_def client_send_logout_def
      client_put_def client_typed_def client_fields_def Let_def split_def)

lemma server_do_typed: "server_typed s \<Longrightarrow> server_typed (server_do e s)"
proof (cases e)
  case (Reply m now)
  assume t: "server_typed s"
  have "length m + 3 \<le> length (ss_scratch s) \<Longrightarrow> take (length m + 3) (fst (soup_sequenced (ss_scratch s) m)) = packet (ch CHR ''S'') m"
    using soup_data_packets(2) [of m "ss_scratch s"] by simp
  then show ?thesis using t Reply
    by (auto simp: server_typed_def server_fields_def server_send_sequenced_def server_put_def Let_def)
next
  case (Ticked now)
  assume t: "server_typed s"
  have "server_typed (snd (server_tick now s))" using t soup_short_packets(1) [of "replicate 3 0"]
    by (auto simp: server_tick_def server_put_def server_typed_def server_fields_def Let_def soup_sizes)
  then show ?thesis using Ticked by simp
next
  case (AcceptLogin i n now)
  assume t: "server_typed s"
  then show ?thesis using AcceptLogin soup_login_packets(2) [of "replicate 49 0" "replicate 33 0" "replicate 4 0" i n]
    by (auto simp: server_accept_login_def server_put_def server_typed_def server_fields_def Let_def soup_sizes)
next
  case (RejectLogin c)
  assume t: "server_typed s"
  then show ?thesis using RejectLogin soup_login_packets(3) [of "replicate 49 0" "replicate 33 0" "replicate 4 0" c]
    by (auto simp: server_reject_login_def server_put_def server_typed_def server_fields_def Let_def soup_sizes)
next
  case EndSession
  assume t: "server_typed s"
  then show ?thesis using EndSession soup_short_packets(2) [of "replicate 3 0"]
    by (auto simp: server_send_end_of_session_def server_put_def server_typed_def server_fields_def Let_def soup_sizes)
qed (simp add: server_bytes_typed)

lemma client_new_typed: "client_typed (client_new cfg start u w se nu app)"
  by (simp add: client_new_def client_put_def client_typed_def client_fields_def partial_frame_def Let_def split_def)

lemma server_new_typed: "server_typed (server_new cfg start app)"
  by (simp add: server_new_def server_typed_def server_fields_def partial_frame_def soup_sizes)

lemma client_run_typed: "client_typed s \<Longrightarrow> client_typed (client_run es s)"
  by (induction es rule: rev_induct) (simp_all add: client_do_typed)

lemma server_run_typed: "server_typed s \<Longrightarrow> server_typed (server_run es s)"
  by (induction es rule: rev_induct) (simp_all add: server_do_typed)

end
