(* ===== verification/Ouch.thy ===== *)
theory Ouch
  imports Itch
begin

text \<open>
  The OUCH 4.2 order entry protocol: the field accessors of include/itchbook/ouch/messages.hpp, the
  compile-time check that the fields of a message tile it, and the encoders of
  include/itchbook/ouch/encode.hpp, which read and write nine message types.

  The lemmas show that every accessor reads back the field its encoder wrote, and that an encoded
  message does not depend on what the buffer held before: the fields leave no byte of it unwritten.
\<close>

section \<open>Prices\<close>

definition kMaxPrice :: int where "kMaxPrice = 1999999900"
definition kMarketOrderPrice :: int where "kMarketOrderPrice = 2147483647"
definition kMarketOrderThreshold :: int where "kMarketOrderThreshold = 2000000000"

section \<open>Accessors\<close>

definition kEnterOrderLen :: nat where "kEnterOrderLen = 49"
definition ouch_enter_order_order_token :: "u8 list \<Rightarrow> u8 list" where
  "ouch_enter_order_order_token p = bytes_at p 1 14"
definition ouch_enter_order_side :: "u8 list \<Rightarrow> u8" where
  "ouch_enter_order_side p = p ! 15"
definition ouch_enter_order_shares :: "u8 list \<Rightarrow> u32" where
  "ouch_enter_order_shares p = be32 p 16"
definition ouch_enter_order_stock :: "u8 list \<Rightarrow> u8 list" where
  "ouch_enter_order_stock p = bytes_at p 20 8"
definition ouch_enter_order_price :: "u8 list \<Rightarrow> int" where
  "ouch_enter_order_price p = sint (be32 p 28)"
definition ouch_enter_order_time_in_force :: "u8 list \<Rightarrow> u32" where
  "ouch_enter_order_time_in_force p = be32 p 32"
definition ouch_enter_order_firm :: "u8 list \<Rightarrow> u8 list" where
  "ouch_enter_order_firm p = bytes_at p 36 4"
definition ouch_enter_order_display :: "u8 list \<Rightarrow> u8" where
  "ouch_enter_order_display p = p ! 40"
definition ouch_enter_order_capacity :: "u8 list \<Rightarrow> u8" where
  "ouch_enter_order_capacity p = p ! 41"
definition ouch_enter_order_iso_eligible :: "u8 list \<Rightarrow> u8" where
  "ouch_enter_order_iso_eligible p = p ! 42"
definition ouch_enter_order_min_quantity :: "u8 list \<Rightarrow> u32" where
  "ouch_enter_order_min_quantity p = be32 p 43"
definition ouch_enter_order_cross_type :: "u8 list \<Rightarrow> u8" where
  "ouch_enter_order_cross_type p = p ! 47"
definition ouch_enter_order_customer_type :: "u8 list \<Rightarrow> u8" where
  "ouch_enter_order_customer_type p = p ! 48"

definition kReplaceOrderLen :: nat where "kReplaceOrderLen = 47"
definition ouch_replace_order_existing_order_token :: "u8 list \<Rightarrow> u8 list" where
  "ouch_replace_order_existing_order_token p = bytes_at p 1 14"
definition ouch_replace_order_replacement_order_token :: "u8 list \<Rightarrow> u8 list" where
  "ouch_replace_order_replacement_order_token p = bytes_at p 15 14"
definition ouch_replace_order_shares :: "u8 list \<Rightarrow> u32" where
  "ouch_replace_order_shares p = be32 p 29"
definition ouch_replace_order_price :: "u8 list \<Rightarrow> int" where
  "ouch_replace_order_price p = sint (be32 p 33)"
definition ouch_replace_order_time_in_force :: "u8 list \<Rightarrow> u32" where
  "ouch_replace_order_time_in_force p = be32 p 37"
definition ouch_replace_order_display :: "u8 list \<Rightarrow> u8" where
  "ouch_replace_order_display p = p ! 41"
definition ouch_replace_order_iso_eligible :: "u8 list \<Rightarrow> u8" where
  "ouch_replace_order_iso_eligible p = p ! 42"
definition ouch_replace_order_min_quantity :: "u8 list \<Rightarrow> u32" where
  "ouch_replace_order_min_quantity p = be32 p 43"

definition kCancelOrderLen :: nat where "kCancelOrderLen = 19"
definition ouch_cancel_order_order_token :: "u8 list \<Rightarrow> u8 list" where
  "ouch_cancel_order_order_token p = bytes_at p 1 14"
definition ouch_cancel_order_shares :: "u8 list \<Rightarrow> u32" where
  "ouch_cancel_order_shares p = be32 p 15"

definition kSystemEventLen :: nat where "kSystemEventLen = 10"
definition ouch_system_event_timestamp :: "u8 list \<Rightarrow> u64" where
  "ouch_system_event_timestamp p = be64 p 1"
definition ouch_system_event_code :: "u8 list \<Rightarrow> u8" where
  "ouch_system_event_code p = p ! 9"

definition kAcceptedLen :: nat where "kAcceptedLen = 66"
definition ouch_accepted_timestamp :: "u8 list \<Rightarrow> u64" where
  "ouch_accepted_timestamp p = be64 p 1"
definition ouch_accepted_order_token :: "u8 list \<Rightarrow> u8 list" where
  "ouch_accepted_order_token p = bytes_at p 9 14"
definition ouch_accepted_side :: "u8 list \<Rightarrow> u8" where
  "ouch_accepted_side p = p ! 23"
definition ouch_accepted_shares :: "u8 list \<Rightarrow> u32" where
  "ouch_accepted_shares p = be32 p 24"
definition ouch_accepted_stock :: "u8 list \<Rightarrow> u8 list" where
  "ouch_accepted_stock p = bytes_at p 28 8"
definition ouch_accepted_price :: "u8 list \<Rightarrow> int" where
  "ouch_accepted_price p = sint (be32 p 36)"
definition ouch_accepted_time_in_force :: "u8 list \<Rightarrow> u32" where
  "ouch_accepted_time_in_force p = be32 p 40"
definition ouch_accepted_firm :: "u8 list \<Rightarrow> u8 list" where
  "ouch_accepted_firm p = bytes_at p 44 4"
definition ouch_accepted_display :: "u8 list \<Rightarrow> u8" where
  "ouch_accepted_display p = p ! 48"
definition ouch_accepted_reference_number :: "u8 list \<Rightarrow> u64" where
  "ouch_accepted_reference_number p = be64 p 49"
definition ouch_accepted_capacity :: "u8 list \<Rightarrow> u8" where
  "ouch_accepted_capacity p = p ! 57"
definition ouch_accepted_iso_eligible :: "u8 list \<Rightarrow> u8" where
  "ouch_accepted_iso_eligible p = p ! 58"
definition ouch_accepted_min_quantity :: "u8 list \<Rightarrow> u32" where
  "ouch_accepted_min_quantity p = be32 p 59"
definition ouch_accepted_cross_type :: "u8 list \<Rightarrow> u8" where
  "ouch_accepted_cross_type p = p ! 63"
definition ouch_accepted_order_state :: "u8 list \<Rightarrow> u8" where
  "ouch_accepted_order_state p = p ! 64"
definition ouch_accepted_bbo_weight :: "u8 list \<Rightarrow> u8" where
  "ouch_accepted_bbo_weight p = p ! 65"

definition kReplacedLen :: nat where "kReplacedLen = 80"
definition ouch_replaced_timestamp :: "u8 list \<Rightarrow> u64" where
  "ouch_replaced_timestamp p = be64 p 1"
definition ouch_replaced_replacement_order_token :: "u8 list \<Rightarrow> u8 list" where
  "ouch_replaced_replacement_order_token p = bytes_at p 9 14"
definition ouch_replaced_side :: "u8 list \<Rightarrow> u8" where
  "ouch_replaced_side p = p ! 23"
definition ouch_replaced_shares :: "u8 list \<Rightarrow> u32" where
  "ouch_replaced_shares p = be32 p 24"
definition ouch_replaced_stock :: "u8 list \<Rightarrow> u8 list" where
  "ouch_replaced_stock p = bytes_at p 28 8"
definition ouch_replaced_price :: "u8 list \<Rightarrow> int" where
  "ouch_replaced_price p = sint (be32 p 36)"
definition ouch_replaced_time_in_force :: "u8 list \<Rightarrow> u32" where
  "ouch_replaced_time_in_force p = be32 p 40"
definition ouch_replaced_firm :: "u8 list \<Rightarrow> u8 list" where
  "ouch_replaced_firm p = bytes_at p 44 4"
definition ouch_replaced_display :: "u8 list \<Rightarrow> u8" where
  "ouch_replaced_display p = p ! 48"
definition ouch_replaced_reference_number :: "u8 list \<Rightarrow> u64" where
  "ouch_replaced_reference_number p = be64 p 49"
definition ouch_replaced_capacity :: "u8 list \<Rightarrow> u8" where
  "ouch_replaced_capacity p = p ! 57"
definition ouch_replaced_iso_eligible :: "u8 list \<Rightarrow> u8" where
  "ouch_replaced_iso_eligible p = p ! 58"
definition ouch_replaced_min_quantity :: "u8 list \<Rightarrow> u32" where
  "ouch_replaced_min_quantity p = be32 p 59"
definition ouch_replaced_cross_type :: "u8 list \<Rightarrow> u8" where
  "ouch_replaced_cross_type p = p ! 63"
definition ouch_replaced_order_state :: "u8 list \<Rightarrow> u8" where
  "ouch_replaced_order_state p = p ! 64"
definition ouch_replaced_previous_order_token :: "u8 list \<Rightarrow> u8 list" where
  "ouch_replaced_previous_order_token p = bytes_at p 65 14"
definition ouch_replaced_bbo_weight :: "u8 list \<Rightarrow> u8" where
  "ouch_replaced_bbo_weight p = p ! 79"

definition kCanceledLen :: nat where "kCanceledLen = 28"
definition ouch_canceled_timestamp :: "u8 list \<Rightarrow> u64" where
  "ouch_canceled_timestamp p = be64 p 1"
definition ouch_canceled_order_token :: "u8 list \<Rightarrow> u8 list" where
  "ouch_canceled_order_token p = bytes_at p 9 14"
definition ouch_canceled_decrement_shares :: "u8 list \<Rightarrow> u32" where
  "ouch_canceled_decrement_shares p = be32 p 23"
definition ouch_canceled_reason :: "u8 list \<Rightarrow> u8" where
  "ouch_canceled_reason p = p ! 27"

definition kExecutedLen :: nat where "kExecutedLen = 40"
definition ouch_executed_timestamp :: "u8 list \<Rightarrow> u64" where
  "ouch_executed_timestamp p = be64 p 1"
definition ouch_executed_order_token :: "u8 list \<Rightarrow> u8 list" where
  "ouch_executed_order_token p = bytes_at p 9 14"
definition ouch_executed_executed_shares :: "u8 list \<Rightarrow> u32" where
  "ouch_executed_executed_shares p = be32 p 23"
definition ouch_executed_execution_price :: "u8 list \<Rightarrow> int" where
  "ouch_executed_execution_price p = sint (be32 p 27)"
definition ouch_executed_liquidity_flag :: "u8 list \<Rightarrow> u8" where
  "ouch_executed_liquidity_flag p = p ! 31"
definition ouch_executed_match_number :: "u8 list \<Rightarrow> u64" where
  "ouch_executed_match_number p = be64 p 32"

definition kRejectedLen :: nat where "kRejectedLen = 24"
definition ouch_rejected_timestamp :: "u8 list \<Rightarrow> u64" where
  "ouch_rejected_timestamp p = be64 p 1"
definition ouch_rejected_order_token :: "u8 list \<Rightarrow> u8 list" where
  "ouch_rejected_order_token p = bytes_at p 9 14"
definition ouch_rejected_reason :: "u8 list \<Rightarrow> u8" where
  "ouch_rejected_reason p = p ! 23"

lemmas ouch_accessor_defs =
  ouch_enter_order_order_token_def ouch_enter_order_side_def ouch_enter_order_shares_def
  ouch_enter_order_stock_def ouch_enter_order_price_def ouch_enter_order_time_in_force_def
  ouch_enter_order_firm_def ouch_enter_order_display_def ouch_enter_order_capacity_def
  ouch_enter_order_iso_eligible_def ouch_enter_order_min_quantity_def
  ouch_enter_order_cross_type_def ouch_enter_order_customer_type_def
  ouch_replace_order_existing_order_token_def ouch_replace_order_replacement_order_token_def
  ouch_replace_order_shares_def ouch_replace_order_price_def ouch_replace_order_time_in_force_def
  ouch_replace_order_display_def ouch_replace_order_iso_eligible_def
  ouch_replace_order_min_quantity_def ouch_cancel_order_order_token_def
  ouch_cancel_order_shares_def ouch_system_event_timestamp_def ouch_system_event_code_def
  ouch_accepted_timestamp_def ouch_accepted_order_token_def ouch_accepted_side_def
  ouch_accepted_shares_def ouch_accepted_stock_def ouch_accepted_price_def
  ouch_accepted_time_in_force_def ouch_accepted_firm_def ouch_accepted_display_def
  ouch_accepted_reference_number_def ouch_accepted_capacity_def ouch_accepted_iso_eligible_def
  ouch_accepted_min_quantity_def ouch_accepted_cross_type_def ouch_accepted_order_state_def
  ouch_accepted_bbo_weight_def ouch_replaced_timestamp_def
  ouch_replaced_replacement_order_token_def ouch_replaced_side_def ouch_replaced_shares_def
  ouch_replaced_stock_def ouch_replaced_price_def ouch_replaced_time_in_force_def
  ouch_replaced_firm_def ouch_replaced_display_def ouch_replaced_reference_number_def
  ouch_replaced_capacity_def ouch_replaced_iso_eligible_def ouch_replaced_min_quantity_def
  ouch_replaced_cross_type_def ouch_replaced_order_state_def
  ouch_replaced_previous_order_token_def ouch_replaced_bbo_weight_def ouch_canceled_timestamp_def
  ouch_canceled_order_token_def ouch_canceled_decrement_shares_def ouch_canceled_reason_def
  ouch_executed_timestamp_def ouch_executed_order_token_def ouch_executed_executed_shares_def
  ouch_executed_execution_price_def ouch_executed_liquidity_flag_def
  ouch_executed_match_number_def ouch_rejected_timestamp_def ouch_rejected_order_token_def
  ouch_rejected_reason_def

section \<open>The fields tile the message\<close>

text \<open>A span is an offset and a length.\<close>

fun tiles_from :: "nat \<Rightarrow> (nat \<times> nat) list \<Rightarrow> nat \<Rightarrow> bool" where
  "tiles_from at [] n = (at = n)"
| "tiles_from at ((off, len) # spans) n =
     (if off \<noteq> at then False else tiles_from (at + len) spans n)"

definition tiles :: "(nat \<times> nat) list \<Rightarrow> nat \<Rightarrow> bool" where
  "tiles spans n = tiles_from 0 spans n"

definition kEnterOrder :: "(nat \<times> nat) list" where
  "kEnterOrder = [(0, 1), (1, 14), (15, 1), (16, 4), (20, 8), (28, 4), (32, 4), (36, 4), (40, 1),
     (41, 1), (42, 1), (43, 4), (47, 1), (48, 1)]"
definition kReplaceOrder :: "(nat \<times> nat) list" where
  "kReplaceOrder = [(0, 1), (1, 14), (15, 14), (29, 4), (33, 4), (37, 4), (41, 1), (42, 1), (43, 4)]"
definition kCancelOrder :: "(nat \<times> nat) list" where
  "kCancelOrder = [(0, 1), (1, 14), (15, 4)]"
definition kSystemEvent :: "(nat \<times> nat) list" where
  "kSystemEvent = [(0, 1), (1, 8), (9, 1)]"
definition kAccepted :: "(nat \<times> nat) list" where
  "kAccepted = [(0, 1), (1, 8), (9, 14), (23, 1), (24, 4), (28, 8), (36, 4), (40, 4), (44, 4),
     (48, 1), (49, 8), (57, 1), (58, 1), (59, 4), (63, 1), (64, 1), (65, 1)]"
definition kReplaced :: "(nat \<times> nat) list" where
  "kReplaced = [(0, 1), (1, 8), (9, 14), (23, 1), (24, 4), (28, 8), (36, 4), (40, 4), (44, 4),
     (48, 1), (49, 8), (57, 1), (58, 1), (59, 4), (63, 1), (64, 1), (65, 14), (79, 1)]"
definition kCanceled :: "(nat \<times> nat) list" where
  "kCanceled = [(0, 1), (1, 8), (9, 14), (23, 4), (27, 1)]"
definition kExecuted :: "(nat \<times> nat) list" where
  "kExecuted = [(0, 1), (1, 8), (9, 14), (23, 4), (27, 4), (31, 1), (32, 8)]"
definition kRejected :: "(nat \<times> nat) list" where
  "kRejected = [(0, 1), (1, 8), (9, 14), (23, 1)]"

lemma fields_tile:
  "tiles kEnterOrder kEnterOrderLen"
  "tiles kReplaceOrder kReplaceOrderLen"
  "tiles kCancelOrder kCancelOrderLen"
  "tiles kSystemEvent kSystemEventLen"
  "tiles kAccepted kAcceptedLen"
  "tiles kReplaced kReplacedLen"
  "tiles kCanceled kCanceledLen"
  "tiles kExecuted kExecutedLen"
  "tiles kRejected kRejectedLen"
  by (simp_all add: tiles_def kEnterOrder_def kEnterOrderLen_def
      kReplaceOrder_def kReplaceOrderLen_def
      kCancelOrder_def kCancelOrderLen_def
      kSystemEvent_def kSystemEventLen_def
      kAccepted_def kAcceptedLen_def
      kReplaced_def kReplacedLen_def
      kCanceled_def kCanceledLen_def
      kExecuted_def kExecutedLen_def
      kRejected_def kRejectedLen_def)

section \<open>Encoders\<close>

text \<open>The encoder has its own copies of the big-endian writers.\<close>

definition ouch_put32 :: "nat \<Rightarrow> u32 \<Rightarrow> u8 list \<Rightarrow> u8 list" where
  "ouch_put32 i v p = p[i := ucast (drop_bit 24 v), i + 1 := ucast (drop_bit 16 v),
     i + 2 := ucast (drop_bit 8 v), i + 3 := ucast v]"

definition ouch_put64 :: "nat \<Rightarrow> u64 \<Rightarrow> u8 list \<Rightarrow> u8 list" where
  "ouch_put64 i v p = fold (\<lambda>k p. p[i + k := ucast (drop_bit (56 - 8 * k) v)]) [0..<8] p"

text \<open>Left justified, padded with spaces; a C string ends at its first NUL.\<close>

definition put_alpha :: "nat \<Rightarrow> u8 list option \<Rightarrow> nat \<Rightarrow> u8 list \<Rightarrow> u8 list" where
  "put_alpha i str n p =
     (let body = (case str of None \<Rightarrow> [] | Some s \<Rightarrow> take n (takeWhile (\<lambda>c. c \<noteq> 0) s))
      in memcpy (i + length body) (replicate (n - length body) (ch CHR '' '')) (memcpy i body p))"

definition put_alpha_raw :: "nat \<Rightarrow> u8 list option \<Rightarrow> nat \<Rightarrow> u8 list \<Rightarrow> u8 list" where
  "put_alpha_raw i wire n p =
     (case wire of None \<Rightarrow> put_alpha i None n p | Some w \<Rightarrow> memcpy i (bytes_at w 0 n) p)"

definition ouch_enter_order ::
    "u8 list \<Rightarrow> u8 list option \<Rightarrow> u8 \<Rightarrow> u32 \<Rightarrow> u8 list option \<Rightarrow> int \<Rightarrow> u32 \<Rightarrow> u8 list option \<Rightarrow> u8 \<Rightarrow> u8 \<Rightarrow> u8 \<Rightarrow> u32 \<Rightarrow> u8 \<Rightarrow> u8 \<Rightarrow> u8 list \<times> nat" where
  "ouch_enter_order out tok sd shares stk price tif frm disp cap isoe minq crs cust =
     (let out = out[0 := ch CHR ''O''];
          out = put_alpha 1 tok 14 out;
          out = out[15 := sd];
          out = ouch_put32 16 shares out;
          out = put_alpha 20 stk 8 out;
          out = ouch_put32 28 (word_of_int price) out;
          out = ouch_put32 32 tif out;
          out = put_alpha 36 frm 4 out;
          out = out[40 := disp];
          out = out[41 := cap];
          out = out[42 := isoe];
          out = ouch_put32 43 minq out;
          out = out[47 := crs];
          out = out[48 := cust]
      in (out, 49))"

definition ouch_replace_order ::
    "u8 list \<Rightarrow> u8 list option \<Rightarrow> u8 list option \<Rightarrow> u32 \<Rightarrow> int \<Rightarrow> u32 \<Rightarrow> u8 \<Rightarrow> u8 \<Rightarrow> u32 \<Rightarrow> u8 list \<times> nat" where
  "ouch_replace_order out old tok shares price tif disp isoe minq =
     (let out = out[0 := ch CHR ''U''];
          out = put_alpha 1 old 14 out;
          out = put_alpha 15 tok 14 out;
          out = ouch_put32 29 shares out;
          out = ouch_put32 33 (word_of_int price) out;
          out = ouch_put32 37 tif out;
          out = out[41 := disp];
          out = out[42 := isoe];
          out = ouch_put32 43 minq out
      in (out, 47))"

definition ouch_cancel_order ::
    "u8 list \<Rightarrow> u8 list option \<Rightarrow> u32 \<Rightarrow> u8 list \<times> nat" where
  "ouch_cancel_order out tok shares =
     (let out = out[0 := ch CHR ''X''];
          out = put_alpha 1 tok 14 out;
          out = ouch_put32 15 shares out
      in (out, 19))"

definition ouch_system_event ::
    "u8 list \<Rightarrow> u64 \<Rightarrow> u8 \<Rightarrow> u8 list \<times> nat" where
  "ouch_system_event out ts code =
     (let out = out[0 := ch CHR ''S''];
          out = ouch_put64 1 ts out;
          out = out[9 := code]
      in (out, 10))"

definition ouch_accepted ::
    "u8 list \<Rightarrow> u64 \<Rightarrow> u8 list option \<Rightarrow> u8 \<Rightarrow> u32 \<Rightarrow> u8 list option \<Rightarrow> int \<Rightarrow> u32 \<Rightarrow> u8 list option \<Rightarrow> u8 \<Rightarrow> u64 \<Rightarrow> u8 \<Rightarrow> u8 \<Rightarrow> u32 \<Rightarrow> u8 \<Rightarrow> u8 \<Rightarrow> u8 \<Rightarrow> u8 list \<times> nat" where
  "ouch_accepted out ts tok sd shares stk price tif frm disp ref cap isoe minq crs ost bbo =
     (let out = out[0 := ch CHR ''A''];
          out = ouch_put64 1 ts out;
          out = put_alpha_raw 9 tok 14 out;
          out = out[23 := sd];
          out = ouch_put32 24 shares out;
          out = put_alpha_raw 28 stk 8 out;
          out = ouch_put32 36 (word_of_int price) out;
          out = ouch_put32 40 tif out;
          out = put_alpha_raw 44 frm 4 out;
          out = out[48 := disp];
          out = ouch_put64 49 ref out;
          out = out[57 := cap];
          out = out[58 := isoe];
          out = ouch_put32 59 minq out;
          out = out[63 := crs];
          out = out[64 := ost];
          out = out[65 := bbo]
      in (out, 66))"

definition ouch_replaced ::
    "u8 list \<Rightarrow> u64 \<Rightarrow> u8 list option \<Rightarrow> u8 \<Rightarrow> u32 \<Rightarrow> u8 list option \<Rightarrow> int \<Rightarrow> u32 \<Rightarrow> u8 list option \<Rightarrow> u8 \<Rightarrow> u64 \<Rightarrow> u8 \<Rightarrow> u8 \<Rightarrow> u32 \<Rightarrow> u8 \<Rightarrow> u8 \<Rightarrow> u8 list option \<Rightarrow> u8 \<Rightarrow> u8 list \<times> nat" where
  "ouch_replaced out ts tok sd shares stk price tif frm disp ref cap isoe minq crs ost old bbo =
     (let out = out[0 := ch CHR ''U''];
          out = ouch_put64 1 ts out;
          out = put_alpha_raw 9 tok 14 out;
          out = out[23 := sd];
          out = ouch_put32 24 shares out;
          out = put_alpha_raw 28 stk 8 out;
          out = ouch_put32 36 (word_of_int price) out;
          out = ouch_put32 40 tif out;
          out = put_alpha_raw 44 frm 4 out;
          out = out[48 := disp];
          out = ouch_put64 49 ref out;
          out = out[57 := cap];
          out = out[58 := isoe];
          out = ouch_put32 59 minq out;
          out = out[63 := crs];
          out = out[64 := ost];
          out = put_alpha_raw 65 old 14 out;
          out = out[79 := bbo]
      in (out, 80))"

definition ouch_canceled ::
    "u8 list \<Rightarrow> u64 \<Rightarrow> u8 list option \<Rightarrow> u32 \<Rightarrow> u8 \<Rightarrow> u8 list \<times> nat" where
  "ouch_canceled out ts tok shares rsn =
     (let out = out[0 := ch CHR ''C''];
          out = ouch_put64 1 ts out;
          out = put_alpha_raw 9 tok 14 out;
          out = ouch_put32 23 shares out;
          out = out[27 := rsn]
      in (out, 28))"

definition ouch_executed ::
    "u8 list \<Rightarrow> u64 \<Rightarrow> u8 list option \<Rightarrow> u32 \<Rightarrow> int \<Rightarrow> u8 \<Rightarrow> u64 \<Rightarrow> u8 list \<times> nat" where
  "ouch_executed out ts tok shares price liq mno =
     (let out = out[0 := ch CHR ''E''];
          out = ouch_put64 1 ts out;
          out = put_alpha_raw 9 tok 14 out;
          out = ouch_put32 23 shares out;
          out = ouch_put32 27 (word_of_int price) out;
          out = out[31 := liq];
          out = ouch_put64 32 mno out
      in (out, 40))"

definition ouch_rejected ::
    "u8 list \<Rightarrow> u64 \<Rightarrow> u8 list option \<Rightarrow> u8 \<Rightarrow> u8 list \<times> nat" where
  "ouch_rejected out ts tok rsn =
     (let out = out[0 := ch CHR ''J''];
          out = ouch_put64 1 ts out;
          out = put_alpha_raw 9 tok 14 out;
          out = out[23 := rsn]
      in (out, 24))"

lemmas ouch_defs = ouch_enter_order_def ouch_replace_order_def ouch_cancel_order_def ouch_system_event_def
  ouch_accepted_def ouch_replaced_def ouch_canceled_def ouch_executed_def
  ouch_rejected_def

section \<open>The encoders invert the accessors\<close>

definition alpha_field :: "nat \<Rightarrow> u8 list option \<Rightarrow> u8 list" where
  "alpha_field n str = take n ((case str of None \<Rightarrow> [] | Some s \<Rightarrow> takeWhile (\<lambda>c. c \<noteq> 0) s) @ replicate n 32)"

lemma length_alpha_field [simp]: "length (alpha_field n s) = n"
  by (simp add: alpha_field_def)

lemma memcpy_memcpy:
  "memcpy (i + length a) b (memcpy i a p) = memcpy i (a @ b) p"
  by (induction i a p rule: memcpy.induct) (simp_all add: memcpy.simps(2))

lemma put_alpha_field: "put_alpha i s n p = memcpy i (alpha_field n s) p"
proof -
  have "min n (length xs) + (n - length xs) = n" for xs :: "u8 list" by simp
  then show ?thesis
    by (simp add: put_alpha_def alpha_field_def Let_def memcpy_memcpy min_def split: option.split)
qed

lemma put_alpha_raw_field: "put_alpha_raw i w n p = memcpy i (stock_field n w) p"
  by (simp add: put_alpha_raw_def put_alpha_field alpha_field_def stock_field_def split: option.split)

lemma ouch_puts: "ouch_put32 i v p = memcpy i (enc32 v) p" "ouch_put64 i w p = memcpy i (enc64 w) p"
  using put32_enc [of i v p] put64_enc [of i w p]
  by (simp_all add: ouch_put32_def ouch_put64_def put32_def put64_def)

lemmas ouch_simps = ouch_defs Let_def put_alpha_field put_alpha_raw_field ouch_puts update_memcpy
  ouch_accessor_defs

lemma ouch_enter_order_round_trip:
  assumes "kEnterOrderLen \<le> length out" and "is_i32 price"
    and "(m, n) = ouch_enter_order out tok sd shares stk price tif frm disp cap isoe minq crs cust"
  shows "m ! 0 = ch CHR ''O''" "ouch_enter_order_order_token m = alpha_field 14 tok"
    "ouch_enter_order_side m = sd" "ouch_enter_order_shares m = shares"
    "ouch_enter_order_stock m = alpha_field 8 stk" "ouch_enter_order_price m = price"
    "ouch_enter_order_time_in_force m = tif" "ouch_enter_order_firm m = alpha_field 4 frm"
    "ouch_enter_order_display m = disp" "ouch_enter_order_capacity m = cap"
    "ouch_enter_order_iso_eligible m = isoe" "ouch_enter_order_min_quantity m = minq"
    "ouch_enter_order_cross_type m = crs" "ouch_enter_order_customer_type m = cust"
    "n = kEnterOrderLen"
  using assms by (simp_all add: ouch_simps kEnterOrderLen_def)

lemma ouch_replace_order_round_trip:
  assumes "kReplaceOrderLen \<le> length out" and "is_i32 price"
    and "(m, n) = ouch_replace_order out old tok shares price tif disp isoe minq"
  shows "m ! 0 = ch CHR ''U''" "ouch_replace_order_existing_order_token m = alpha_field 14 old"
    "ouch_replace_order_replacement_order_token m = alpha_field 14 tok"
    "ouch_replace_order_shares m = shares" "ouch_replace_order_price m = price"
    "ouch_replace_order_time_in_force m = tif" "ouch_replace_order_display m = disp"
    "ouch_replace_order_iso_eligible m = isoe" "ouch_replace_order_min_quantity m = minq"
    "n = kReplaceOrderLen"
  using assms by (simp_all add: ouch_simps kReplaceOrderLen_def)

lemma ouch_cancel_order_round_trip:
  assumes "kCancelOrderLen \<le> length out"
    and "(m, n) = ouch_cancel_order out tok shares"
  shows "m ! 0 = ch CHR ''X''" "ouch_cancel_order_order_token m = alpha_field 14 tok"
    "ouch_cancel_order_shares m = shares" "n = kCancelOrderLen"
  using assms by (simp_all add: ouch_simps kCancelOrderLen_def)

lemma ouch_system_event_round_trip:
  assumes "kSystemEventLen \<le> length out"
    and "(m, n) = ouch_system_event out ts code"
  shows "m ! 0 = ch CHR ''S''" "ouch_system_event_timestamp m = ts"
    "ouch_system_event_code m = code" "n = kSystemEventLen"
  using assms by (simp_all add: ouch_simps kSystemEventLen_def)

lemma ouch_accepted_round_trip:
  assumes "kAcceptedLen \<le> length out" and "is_i32 price"
    and "(m, n) = ouch_accepted out ts tok sd shares stk price tif frm disp ref cap isoe minq crs ost bbo"
  shows "m ! 0 = ch CHR ''A''" "ouch_accepted_timestamp m = ts"
    "ouch_accepted_order_token m = stock_field 14 tok" "ouch_accepted_side m = sd"
    "ouch_accepted_shares m = shares" "ouch_accepted_stock m = stock_field 8 stk"
    "ouch_accepted_price m = price" "ouch_accepted_time_in_force m = tif"
    "ouch_accepted_firm m = stock_field 4 frm" "ouch_accepted_display m = disp"
    "ouch_accepted_reference_number m = ref" "ouch_accepted_capacity m = cap"
    "ouch_accepted_iso_eligible m = isoe" "ouch_accepted_min_quantity m = minq"
    "ouch_accepted_cross_type m = crs" "ouch_accepted_order_state m = ost"
    "ouch_accepted_bbo_weight m = bbo" "n = kAcceptedLen"
  using assms by (simp_all add: ouch_simps kAcceptedLen_def)

lemma ouch_replaced_round_trip:
  assumes "kReplacedLen \<le> length out" and "is_i32 price"
    and "(m, n) = ouch_replaced out ts tok sd shares stk price tif frm disp ref cap isoe minq crs ost old bbo"
  shows "m ! 0 = ch CHR ''U''" "ouch_replaced_timestamp m = ts"
    "ouch_replaced_replacement_order_token m = stock_field 14 tok" "ouch_replaced_side m = sd"
    "ouch_replaced_shares m = shares" "ouch_replaced_stock m = stock_field 8 stk"
    "ouch_replaced_price m = price" "ouch_replaced_time_in_force m = tif"
    "ouch_replaced_firm m = stock_field 4 frm" "ouch_replaced_display m = disp"
    "ouch_replaced_reference_number m = ref" "ouch_replaced_capacity m = cap"
    "ouch_replaced_iso_eligible m = isoe" "ouch_replaced_min_quantity m = minq"
    "ouch_replaced_cross_type m = crs" "ouch_replaced_order_state m = ost"
    "ouch_replaced_previous_order_token m = stock_field 14 old"
    "ouch_replaced_bbo_weight m = bbo" "n = kReplacedLen"
  using assms by (simp_all add: ouch_simps kReplacedLen_def)

lemma ouch_canceled_round_trip:
  assumes "kCanceledLen \<le> length out"
    and "(m, n) = ouch_canceled out ts tok shares rsn"
  shows "m ! 0 = ch CHR ''C''" "ouch_canceled_timestamp m = ts"
    "ouch_canceled_order_token m = stock_field 14 tok"
    "ouch_canceled_decrement_shares m = shares" "ouch_canceled_reason m = rsn"
    "n = kCanceledLen"
  using assms by (simp_all add: ouch_simps kCanceledLen_def)

lemma ouch_executed_round_trip:
  assumes "kExecutedLen \<le> length out" and "is_i32 price"
    and "(m, n) = ouch_executed out ts tok shares price liq mno"
  shows "m ! 0 = ch CHR ''E''" "ouch_executed_timestamp m = ts"
    "ouch_executed_order_token m = stock_field 14 tok"
    "ouch_executed_executed_shares m = shares" "ouch_executed_execution_price m = price"
    "ouch_executed_liquidity_flag m = liq" "ouch_executed_match_number m = mno"
    "n = kExecutedLen"
  using assms by (simp_all add: ouch_simps kExecutedLen_def)

lemma ouch_rejected_round_trip:
  assumes "kRejectedLen \<le> length out"
    and "(m, n) = ouch_rejected out ts tok rsn"
  shows "m ! 0 = ch CHR ''J''" "ouch_rejected_timestamp m = ts"
    "ouch_rejected_order_token m = stock_field 14 tok" "ouch_rejected_reason m = rsn"
    "n = kRejectedLen"
  using assms by (simp_all add: ouch_simps kRejectedLen_def)

section \<open>No byte of the old buffer survives\<close>

definition agree :: "nat \<Rightarrow> u8 list \<Rightarrow> u8 list \<Rightarrow> bool" where
  "agree n p q \<longleftrightarrow> (\<forall>j < n. p ! j = q ! j)"

lemma agree_0: "agree 0 p q"
  by (simp add: agree_def)

lemma agree_step:
  assumes "agree i p q" "n = i + length bs" "n \<le> length p" "n \<le> length q"
  shows "agree n (memcpy i bs p) (memcpy i bs q)"
  using assms by (auto simp: agree_def nth_memcpy)

lemma agree_take: "agree n p q \<Longrightarrow> n \<le> length p \<Longrightarrow> n \<le> length q \<Longrightarrow> take n p = take n q"
  by (auto simp: agree_def intro: nth_equalityI)

lemma ouch_enter_order_total:
  assumes "kEnterOrderLen \<le> length a" "kEnterOrderLen \<le> length b"
  shows "take kEnterOrderLen (fst (ouch_enter_order a tok sd shares stk price tif frm disp cap isoe minq crs cust)) =
    take kEnterOrderLen (fst (ouch_enter_order b tok sd shares stk price tif frm disp cap isoe minq crs cust))"
  unfolding ouch_simps fst_conv
  by (rule agree_take, (rule agree_step)+, rule agree_0)
    (use assms in \<open>simp_all add: kEnterOrderLen_def\<close>)

lemma ouch_replace_order_total:
  assumes "kReplaceOrderLen \<le> length a" "kReplaceOrderLen \<le> length b"
  shows "take kReplaceOrderLen (fst (ouch_replace_order a old tok shares price tif disp isoe minq)) =
    take kReplaceOrderLen (fst (ouch_replace_order b old tok shares price tif disp isoe minq))"
  unfolding ouch_simps fst_conv
  by (rule agree_take, (rule agree_step)+, rule agree_0)
    (use assms in \<open>simp_all add: kReplaceOrderLen_def\<close>)

lemma ouch_cancel_order_total:
  assumes "kCancelOrderLen \<le> length a" "kCancelOrderLen \<le> length b"
  shows "take kCancelOrderLen (fst (ouch_cancel_order a tok shares)) =
    take kCancelOrderLen (fst (ouch_cancel_order b tok shares))"
  unfolding ouch_simps fst_conv
  by (rule agree_take, (rule agree_step)+, rule agree_0)
    (use assms in \<open>simp_all add: kCancelOrderLen_def\<close>)

lemma ouch_system_event_total:
  assumes "kSystemEventLen \<le> length a" "kSystemEventLen \<le> length b"
  shows "take kSystemEventLen (fst (ouch_system_event a ts code)) =
    take kSystemEventLen (fst (ouch_system_event b ts code))"
  unfolding ouch_simps fst_conv
  by (rule agree_take, (rule agree_step)+, rule agree_0)
    (use assms in \<open>simp_all add: kSystemEventLen_def\<close>)

lemma ouch_accepted_total:
  assumes "kAcceptedLen \<le> length a" "kAcceptedLen \<le> length b"
  shows "take kAcceptedLen (fst (ouch_accepted a ts tok sd shares stk price tif frm disp ref cap isoe minq crs ost bbo)) =
    take kAcceptedLen (fst (ouch_accepted b ts tok sd shares stk price tif frm disp ref cap isoe minq crs ost bbo))"
  unfolding ouch_simps fst_conv
  by (rule agree_take, (rule agree_step)+, rule agree_0)
    (use assms in \<open>simp_all add: kAcceptedLen_def\<close>)

lemma ouch_replaced_total:
  assumes "kReplacedLen \<le> length a" "kReplacedLen \<le> length b"
  shows "take kReplacedLen (fst (ouch_replaced a ts tok sd shares stk price tif frm disp ref cap isoe minq crs ost old bbo)) =
    take kReplacedLen (fst (ouch_replaced b ts tok sd shares stk price tif frm disp ref cap isoe minq crs ost old bbo))"
  unfolding ouch_simps fst_conv
  by (rule agree_take, (rule agree_step)+, rule agree_0)
    (use assms in \<open>simp_all add: kReplacedLen_def\<close>)

lemma ouch_canceled_total:
  assumes "kCanceledLen \<le> length a" "kCanceledLen \<le> length b"
  shows "take kCanceledLen (fst (ouch_canceled a ts tok shares rsn)) =
    take kCanceledLen (fst (ouch_canceled b ts tok shares rsn))"
  unfolding ouch_simps fst_conv
  by (rule agree_take, (rule agree_step)+, rule agree_0)
    (use assms in \<open>simp_all add: kCanceledLen_def\<close>)

lemma ouch_executed_total:
  assumes "kExecutedLen \<le> length a" "kExecutedLen \<le> length b"
  shows "take kExecutedLen (fst (ouch_executed a ts tok shares price liq mno)) =
    take kExecutedLen (fst (ouch_executed b ts tok shares price liq mno))"
  unfolding ouch_simps fst_conv
  by (rule agree_take, (rule agree_step)+, rule agree_0)
    (use assms in \<open>simp_all add: kExecutedLen_def\<close>)

lemma ouch_rejected_total:
  assumes "kRejectedLen \<le> length a" "kRejectedLen \<le> length b"
  shows "take kRejectedLen (fst (ouch_rejected a ts tok rsn)) =
    take kRejectedLen (fst (ouch_rejected b ts tok rsn))"
  unfolding ouch_simps fst_conv
  by (rule agree_take, (rule agree_step)+, rule agree_0)
    (use assms in \<open>simp_all add: kRejectedLen_def\<close>)

end
