(* ===== verification/Codec.thy ===== *)
theory Codec
  imports Prelude "HOL-Library.Monad_Syntax"
begin

text \<open>
  Scalars in a file of the host: \<open>put\<close> and \<open>get\<close> of include/itchbook/recover/snapshot.hpp, little-endian, at
  the widths the snapshots use. A reader takes the bytes that are left and gives the value and the rest, or
  \<open>None\<close> when too few are left. \<open>exact\<close> is what a reader of a file has to be: it gives back what was written,
  whatever follows, and refuses every proper prefix of it.
\<close>

section \<open>Scalars\<close>

fun to_le :: "nat \<Rightarrow> 'a::len word \<Rightarrow> u8 list" where
  "to_le 0 w = []"
| "to_le (Suc n) w = ucast w # to_le n (drop_bit 8 w)"

fun from_le :: "u8 list \<Rightarrow> 'a::len word" where
  "from_le [] = 0"
| "from_le (b # bs) = ucast b OR push_bit 8 (from_le bs)"

definition get_scalar :: "nat \<Rightarrow> u8 list \<Rightarrow> ('a::len word \<times> u8 list) option" where
  "get_scalar n bs = (if length bs < n then None else Some (from_le (take n bs), drop n bs))"

definition put_u8 :: "u8 \<Rightarrow> u8 list" where "put_u8 v = to_le 1 v"
definition put_u32 :: "u32 \<Rightarrow> u8 list" where "put_u32 v = to_le 4 v"
definition put_u64 :: "u64 \<Rightarrow> u8 list" where "put_u64 v = to_le 8 v"
definition put_i32 :: "int \<Rightarrow> u8 list" where "put_i32 v = put_u32 (word_of_int v)"
definition put_i64 :: "int \<Rightarrow> u8 list" where "put_i64 v = put_u64 (word_of_int v)"
definition put_bool :: "bool \<Rightarrow> u8 list" where "put_bool b = put_u8 (if b then 1 else 0)"

definition get_u8 :: "u8 list \<Rightarrow> (u8 \<times> u8 list) option" where "get_u8 = get_scalar 1"
definition get_u32 :: "u8 list \<Rightarrow> (u32 \<times> u8 list) option" where "get_u32 = get_scalar 4"
definition get_u64 :: "u8 list \<Rightarrow> (u64 \<times> u8 list) option" where "get_u64 = get_scalar 8"
definition get_i32 :: "u8 list \<Rightarrow> (int \<times> u8 list) option" where
  "get_i32 bs = map_option (apfst sint) (get_u32 bs)"
definition get_i64 :: "u8 list \<Rightarrow> (int \<times> u8 list) option" where
  "get_i64 bs = map_option (apfst sint) (get_u64 bs)"
definition get_bool :: "u8 list \<Rightarrow> (bool \<times> u8 list) option" where
  "get_bool bs = map_option (apfst (\<lambda>b. b \<noteq> 0)) (get_u8 bs)"

fun get_n :: "nat \<Rightarrow> (u8 list \<Rightarrow> ('v \<times> u8 list) option) \<Rightarrow> u8 list \<Rightarrow> ('v list \<times> u8 list) option" where
  "get_n 0 p bs = Some ([], bs)"
| "get_n (Suc n) p bs = do { (v, bs) \<leftarrow> p bs; (vs, bs) \<leftarrow> get_n n p bs; Some (v # vs, bs) }"

section \<open>Exact readers\<close>

definition exact :: "(u8 list \<Rightarrow> ('v \<times> u8 list) option) \<Rightarrow> u8 list \<Rightarrow> 'v \<Rightarrow> bool" where
  "exact p bs v \<longleftrightarrow> (\<forall>r. p (bs @ r) = Some (v, r)) \<and> (\<forall>k < length bs. p (take k bs) = None)"

lemma exact_return: "exact (\<lambda>bs. Some (v, bs)) [] v"
  by (simp add: exact_def)

lemma exact_whole: "exact p bs v \<Longrightarrow> p bs = Some (v, [])"
  unfolding exact_def by (metis append_Nil2)

lemma exact_bind:
  assumes "exact p a x" "exact (q x) b y"
  shows "exact (\<lambda>bs. Option.bind (p bs) (\<lambda>(x, bs). q x bs)) (a @ b) y"
  unfolding exact_def
proof (intro conjI allI impI)
  fix r show "Option.bind (p ((a @ b) @ r)) (\<lambda>(x, bs). q x bs) = Some (y, r)" using assms by (simp add: exact_def)
next
  fix k assume "k < length (a @ b)"
  then show "Option.bind (p (take k (a @ b))) (\<lambda>(x, bs). q x bs) = None"
    using assms by (cases "k < length a") (auto simp: exact_def)
qed

lemma exact_map: "exact p a x \<Longrightarrow> exact (\<lambda>bs. map_option (apfst f) (p bs)) a (f x)"
  by (simp add: exact_def)

text \<open>The check of a count against what is left never refuses a whole file.\<close>

lemma exact_bounded:
  assumes "exact q b y" "n * per \<le> length b" "0 < per"
  shows "exact (\<lambda>bs. if n > length bs div per then None else q bs) b y"
proof -
  have "n \<le> (length b + k) div per" for k
    using assms(2,3) by (metis div_le_mono le_add1 le_trans nonzero_mult_div_cancel_right not_less_zero)
  then show ?thesis using assms(1) by (auto simp: exact_def not_less)
qed

lemma exact_n: "\<forall>v \<in> set vs. exact p (f v) v \<Longrightarrow> exact (get_n (length vs) p) (concat (map f vs)) vs"
proof (induction vs)
  case (Cons v vs)
  have "exact (\<lambda>bs. do { (vs, bs) \<leftarrow> get_n (length vs) p bs; Some (v # vs, bs) }) (concat (map f vs) @ []) (v # vs)"
    using Cons by (intro exact_bind) (auto intro: exact_return)
  from exact_bind [of p "f v" v "\<lambda>v bs. do { (vs, bs) \<leftarrow> get_n (length vs) p bs; Some (v # vs, bs) }", OF _ this] Cons.prems
  show ?case by simp
qed (simp add: exact_def)

section \<open>The scalars are exact\<close>

lemma length_to_le [simp]: "length (to_le n w) = n"
  by (induction n arbitrary: w) auto

lemma from_to_le: "from_le (to_le n (w :: 'a::len word)) = take_bit (8 * n) w"
proof (induction n arbitrary: w)
  case (Suc n)
  have "ucast (ucast w :: u8) OR push_bit 8 (take_bit (8 * n) (drop_bit 8 w)) = take_bit (8 * Suc n) w"
    by (rule bit_word_eqI) (auto simp: bit_simps)
  then show ?case using Suc by simp
qed simp

lemma exact_scalar: "LENGTH('a) = 8 * n \<Longrightarrow> exact (get_scalar n) (to_le n w) (w :: 'a::len word)"
  by (auto simp: exact_def get_scalar_def from_to_le take_bit_word_eq_self)

definition is_i64 :: "int \<Rightarrow> bool" where
  "is_i64 x \<longleftrightarrow> - (2 ^ 63) \<le> x \<and> x < 2 ^ 63"

lemma exact_words: "exact get_u8 (put_u8 a) a" "exact get_u32 (put_u32 b) b" "exact get_u64 (put_u64 c) c"
  by (simp_all add: get_u8_def put_u8_def get_u32_def put_u32_def get_u64_def put_u64_def exact_scalar del: to_le.simps)

lemma exact_ints: "is_i32 a \<Longrightarrow> exact get_i32 (put_i32 a) a" "is_i64 b \<Longrightarrow> exact get_i64 (put_i64 b) b"
proof -
  assume "is_i32 a"
  then have "sint (word_of_int a :: u32) = a" using to_i32_id [of a] by (simp add: to_i32_def)
  then show "exact get_i32 (put_i32 a) a"
    using exact_map [OF exact_words(2), of sint "word_of_int a"] by (simp add: get_i32_def [abs_def] put_i32_def)
next
  assume "is_i64 b"
  then have "sint (word_of_int b :: u64) = b" by (simp add: is_i64_def signed_of_int signed_take_bit_int_eq_self)
  then show "exact get_i64 (put_i64 b) b"
    using exact_map [OF exact_words(3), of sint "word_of_int b"] by (simp add: get_i64_def [abs_def] put_i64_def)
qed

lemma exact_bool: "exact get_bool (put_bool b) b"
  using exact_map [OF exact_words(1), of "\<lambda>b. b \<noteq> 0" "if b then 1 else 0"]
  by (cases b) (simp_all add: get_bool_def [abs_def] put_bool_def)

lemma put_lengths [simp]:
  "length (put_u8 a) = 1" "length (put_u32 b) = 4" "length (put_u64 c) = 8" "length (put_i32 d) = 4" "length (put_i64 e) = 8"
  "length (put_bool f) = 1"
  by (simp_all add: put_u8_def put_u32_def put_u64_def put_i32_def put_i64_def put_bool_def del: to_le.simps)

text \<open>One field after another.\<close>

lemma exact_pass: "exact q b y \<Longrightarrow> exact (\<lambda>bs. if m \<noteq> m then None else q bs) b y"
  by simp

lemma exact_fields:
  "exact (q8 a) b y \<Longrightarrow> exact (\<lambda>bs. Option.bind (get_u8 bs) (\<lambda>(x, bs). q8 x bs)) (put_u8 a @ b) y"
  "exact (q32 c) b y \<Longrightarrow> exact (\<lambda>bs. Option.bind (get_u32 bs) (\<lambda>(x, bs). q32 x bs)) (put_u32 c @ b) y"
  "exact (q64 d) b y \<Longrightarrow> exact (\<lambda>bs. Option.bind (get_u64 bs) (\<lambda>(x, bs). q64 x bs)) (put_u64 d @ b) y"
  "is_i32 i \<Longrightarrow> exact (qi i) b y \<Longrightarrow> exact (\<lambda>bs. Option.bind (get_i32 bs) (\<lambda>(x, bs). qi x bs)) (put_i32 i @ b) y"
  "is_i64 j \<Longrightarrow> exact (qi j) b y \<Longrightarrow> exact (\<lambda>bs. Option.bind (get_i64 bs) (\<lambda>(x, bs). qi x bs)) (put_i64 j @ b) y"
  "exact (qb t) b y \<Longrightarrow> exact (\<lambda>bs. Option.bind (get_bool bs) (\<lambda>(x, bs). qb x bs)) (put_bool t @ b) y"
  using exact_bind [OF exact_words(1), where q = q8] exact_bind [OF exact_words(2), where q = q32]
    exact_bind [OF exact_words(3), where q = q64] exact_bind [OF exact_ints(1), where q = qi]
    exact_bind [OF exact_ints(2), where q = qi] exact_bind [OF exact_bool, where q = qb]
  by blast+

text \<open>A counted list, whose count is checked against what is left.\<close>

lemma exact_counted:
  assumes "\<forall>v \<in> set vs. exact p (f v) v" "length vs < 2 ^ 64" "length vs * per \<le> length (concat (map f vs))" "0 < per"
    and "exact (q vs) b y"
  shows "exact (\<lambda>bs. Option.bind (get_u64 bs) (\<lambda>(n, bs). if unat n > length bs div per then None else
      Option.bind (get_n (unat n) p bs) (\<lambda>(vs, bs). q vs bs))) (put_u64 (of_nat (length vs)) @ concat (map f vs) @ b) y"
proof (rule exact_fields(3))
  have n: "unat (of_nat (length vs) :: u64) = length vs" by (rule unat_of_nat64 [OF assms(2)])
  have "exact (\<lambda>bs. Option.bind (get_n (length vs) p bs) (\<lambda>(vs, bs). q vs bs)) (concat (map f vs) @ b) y"
    by (rule exact_bind [where q = q, OF exact_n [OF assms(1)] assms(5)])
  then show "exact (\<lambda>bs. if unat (of_nat (length vs) :: u64) > length bs div per then None else
      Option.bind (get_n (unat (of_nat (length vs) :: u64)) p bs) (\<lambda>(vs, bs). q vs bs)) (concat (map f vs) @ b) y"
    unfolding n by (rule exact_bounded) (use assms(3,4) in simp_all)
qed

end
