(* ===== verification/Resolve.thy ===== *)
theory Resolve
  imports Money BookSet
begin

text \<open>
  A feed message, read against the book as it was before the message, becomes an event of a queue:
  \<open>resolve\<close> of include/itchbook/sim/resolve.hpp. Only an execution at the resting price is a trade of the
  queue; an execution with a price that is not printable, or printed elsewhere, only takes shares out.
\<close>

definition resolve_event :: "u8 \<Rightarrow> u8 list \<Rightarrow> pre_state \<Rightarrow> resolved" where
  "resolve_event t p pre =
    (let r = resolved_new\<lparr> rv_type := t, rv_ts := msg_timestamp p, rv_known := ps_known pre, rv_ref := ps_ref pre \<rparr> in
     if t = ch CHR ''A'' then
       r\<lparr> rv_cls := CAdd, rv_side := from_char (add_order_side p), rv_resting_price := add_order_price p,
          rv_shares := add_order_shares p \<rparr>
     else if t = ch CHR ''F'' then
       r\<lparr> rv_cls := CAdd, rv_side := from_char (add_order_mpid_side p), rv_resting_price := add_order_mpid_price p,
          rv_shares := add_order_mpid_shares p \<rparr>
     else if t = ch CHR ''E'' then
       r\<lparr> rv_cls := CTrade, rv_side := from_char (ps_side pre), rv_resting_price := ps_price pre,
          rv_shares := order_executed_shares p, rv_printable := True, rv_print_price := ps_price pre \<rparr>
     else if t = ch CHR ''C'' then
       (let printable = order_executed_price_printable p;
            print_px = order_executed_price_price p
        in r\<lparr> rv_side := from_char (ps_side pre), rv_resting_price := ps_price pre,
              rv_shares := order_executed_price_shares p, rv_printable := printable, rv_print_price := print_px,
              rv_cls := (if printable \<and> print_px = ps_price pre then CTrade else CCancel) \<rparr>)
     else if t = ch CHR ''X'' then
       r\<lparr> rv_cls := CCancel, rv_side := from_char (ps_side pre), rv_resting_price := ps_price pre,
          rv_shares := order_cancel_shares p \<rparr>
     else if t = ch CHR ''D'' then
       r\<lparr> rv_cls := CCancel, rv_side := from_char (ps_side pre), rv_resting_price := ps_price pre,
          rv_shares := ps_shares pre \<rparr>
     else if t = ch CHR ''U'' then
       r\<lparr> rv_cls := CCancel, rv_side := from_char (ps_side pre), rv_resting_price := ps_price pre,
          rv_shares := ps_shares pre \<rparr>
     else if t = ch CHR ''P'' then
       r\<lparr> rv_cls := CTrade, rv_known := False, rv_shares := trade_shares p, rv_printable := True,
          rv_print_price := trade_price p, rv_resting_price := trade_price p \<rparr>
     else if t = ch CHR ''Q'' then
       r\<lparr> rv_cls := CNone, rv_shares := ucast (cross_trade_shares p), rv_printable := True,
          rv_print_price := cross_trade_price p, rv_resting_price := cross_trade_price p \<rparr>
     else r\<lparr> rv_cls := CNone \<rparr>)"

text \<open>The messages that can fill an order in a queue, and those that can take shares out of one.\<close>

lemma resolve_trades:
  "rv_trades (resolve_event t p pre) \<longleftrightarrow>
     t = ch CHR ''E'' \<or> t = ch CHR ''P'' \<or>
     t = ch CHR ''C'' \<and> order_executed_price_printable p \<and> order_executed_price_price p = ps_price pre"
  by (simp add: resolve_event_def rv_trades_def Let_def)

lemma resolve_cancels:
  "rv_cancels (resolve_event t p pre) \<longleftrightarrow>
     t = ch CHR ''X'' \<or> t = ch CHR ''D'' \<or> t = ch CHR ''U'' \<or>
     t = ch CHR ''C'' \<and> \<not> (order_executed_price_printable p \<and> order_executed_price_price p = ps_price pre)"
  by (simp add: resolve_event_def rv_cancels_def Let_def)

text \<open>What the event says of a queue is where the order rested, not where it printed.\<close>

lemma resolve_rests:
  assumes "references_resting_order t"
  shows "rv_side (resolve_event t p pre) = from_char (ps_side pre)" "rv_resting_price (resolve_event t p pre) = ps_price pre"
    "rv_known (resolve_event t p pre) = ps_known pre" "rv_ref (resolve_event t p pre) = ps_ref pre"
  using assms by (auto simp: resolve_event_def Let_def references_resting_order_def resolved_new_def)

lemma resolve_other: "\<not> references_resting_order t \<Longrightarrow> \<not> ps_known pre \<Longrightarrow> \<not> rv_known (resolve_event t p pre)"
  by (simp add: resolve_event_def Let_def resolved_new_def)

end
