(* ===== verification/QueueModel.thy ===== *)
theory QueueModel
  imports Resolve
begin

text \<open>
  Where a passive order sits in its queue and when it would have filled: class \<open>QueueModel\<close> of
  include/itchbook/sim/queue_model.hpp. An entry is addressed by its index, since the loops of the code change
  the entries in place while other entries are read. A fill is appended to the list of fills; the book
  after the message is an option, as the pointer of the code is. An unordered map is a list in key order,
  which is the order a snapshot sorts it into.
\<close>

section \<open>State\<close>

datatype queue_kind = MNaive | MOptimistic | MPessimistic | MMbo

fun queue_kind_name :: "queue_kind \<Rightarrow> string" where
  "queue_kind_name MNaive = ''naive''"
| "queue_kind_name MOptimistic = ''optimistic''"
| "queue_kind_name MPessimistic = ''pessimistic''"
| "queue_kind_name MMbo = ''mbo''"

record queue_config =
  qc_model :: queue_kind
  qc_clamp :: bool
  qc_naive_fills_hidden :: bool

definition queue_config_default :: queue_config where
  "queue_config_default = \<lparr> qc_model = MPessimistic, qc_clamp = True, qc_naive_fills_hidden = True \<rparr>"

record qentry =
  e_id :: u64
  e_side :: sim_side
  e_price :: int
  e_display :: u32
  e_slice_size :: u32
  e_hidden :: u32
  e_ahead :: u64
  e_ahead0 :: u64
  e_arrived_ns :: u64
  e_refreshes :: u32
  e_live :: bool

definition e_remaining :: "qentry \<Rightarrow> u32" where
  "e_remaining e = e_display e + e_hidden e"

type_synonym ahead_set = "(u64, u32) omap"

record queue_model =
  qm_cfg :: queue_config
  qm_entries :: "qentry list"
  qm_ahead_sets :: "(u64, ahead_set) omap"
  qm_state :: u8
  qm_tradable :: bool
  qm_clamp_events :: u64
  qm_clamp_shares :: u64
  qm_priority_anomalies :: u64
  qm_anomaly_shares :: u64
  qm_hidden_inside_shares :: u64
  qm_naive_hidden_fills :: u64
  qm_naive_hidden_shares :: u64

definition qm_new :: "queue_config \<Rightarrow> queue_model" where
  "qm_new cfg = \<lparr> qm_cfg = cfg, qm_entries = [], qm_ahead_sets = [], qm_state = 0, qm_tradable = False,
     qm_clamp_events = 0, qm_clamp_shares = 0, qm_priority_anomalies = 0, qm_anomaly_shares = 0,
     qm_hidden_inside_shares = 0, qm_naive_hidden_fills = 0, qm_naive_hidden_shares = 0 \<rparr>"

definition om_emplace :: "('k :: linorder) \<Rightarrow> 'v \<Rightarrow> ('k, 'v) omap \<Rightarrow> ('k, 'v) omap" where
  "om_emplace k v m = (if om_get k m = None then om_set k v m else m)"

definition upd_entry :: "nat \<Rightarrow> (qentry \<Rightarrow> qentry) \<Rightarrow> queue_model \<Rightarrow> queue_model" where
  "upd_entry i f s = s\<lparr> qm_entries := (qm_entries s)[i := f (qm_entries s ! i)] \<rparr>"

definition idle :: "qentry \<Rightarrow> bool" where
  "idle e \<longleftrightarrow> \<not> e_live e \<or> e_display e = 0"

definition own_live_ahead :: "sim_side \<Rightarrow> int \<Rightarrow> u64 \<Rightarrow> qentry list \<Rightarrow> u64" where
  "own_live_ahead side price arrived_ns es =
     (\<Sum>e \<leftarrow> es. if idle e then 0 else if e_side e \<noteq> side \<or> e_price e \<noteq> price then 0
                 else if e_arrived_ns e < arrived_ns then ucast (e_display e) else 0)"

section \<open>Placing and pulling orders\<close>

definition orders_at :: "u8 \<Rightarrow> int \<Rightarrow> bstate \<Rightarrow> order list" where
  "orders_at c price sb =
     (case level_at (side_for c (snd sb)) price of
        None \<Rightarrow> []
      | Some lv \<Rightarrow> map (st_heap (fst sb)) (lv_queue (st_heap (fst sb)) lv))"

definition qm_place :: "bstate \<Rightarrow> u64 \<Rightarrow> sim_side \<Rightarrow> int \<Rightarrow> u32 \<Rightarrow> u32 \<Rightarrow> u64 \<Rightarrow> queue_model \<Rightarrow> queue_model" where
  "qm_place sb i side price quantity display_size arrival_ns s =
     (let display = (if display_size > 0 \<and> display_size < quantity then display_size else quantity);
          ahead = shares_at (sim_to_char side) price (snd sb) + own_live_ahead side price arrival_ns (qm_entries s);
          e = \<lparr> e_id = i, e_side = side, e_price = price, e_display = display, e_slice_size = display,
                e_hidden = quantity - display, e_ahead = ahead, e_ahead0 = ahead, e_arrived_ns = arrival_ns,
                e_refreshes = 0, e_live = True \<rparr>;
          s = s\<lparr> qm_entries := qm_entries s @ [e] \<rparr>
      in if qc_model (qm_cfg s) = MMbo then
           (let held = fold (\<lambda>x. om_emplace (o_ref x) (o_shares x)) (orders_at (sim_to_char side) price sb) []
            in s\<lparr> qm_ahead_sets := om_emplace i held (qm_ahead_sets s) \<rparr>)
         else s)"

definition pull :: "qentry \<Rightarrow> qentry" where
  "pull e = e\<lparr> e_live := False, e_display := 0, e_hidden := 0 \<rparr>"

definition qm_cancel_all :: "queue_model \<Rightarrow> queue_model" where
  "qm_cancel_all s = s\<lparr> qm_entries := map (\<lambda>e. if \<not> e_live e then e else pull e) (qm_entries s) \<rparr>"

definition qm_cancel :: "u64 \<Rightarrow> queue_model \<Rightarrow> queue_model" where
  "qm_cancel i s = s\<lparr> qm_entries := map (\<lambda>e. if e_id e = i \<and> e_live e then pull e else e) (qm_entries s),
     qm_ahead_sets := om_del i (qm_ahead_sets s) \<rparr>"

definition qm_find :: "u64 \<Rightarrow> queue_model \<Rightarrow> qentry option" where
  "qm_find i s = find (\<lambda>e. e_id e = i) (qm_entries s)"

definition qm_set_trading_state :: "u8 \<Rightarrow> queue_model \<Rightarrow> queue_model" where
  "qm_set_trading_state c s = s\<lparr> qm_state := c, qm_tradable := (c = ch CHR ''T'') \<rparr>"

section \<open>The two arithmetic rules\<close>

definition qm_refresh :: "nat \<Rightarrow> book option \<Rightarrow> queue_model \<Rightarrow> queue_model" where
  "qm_refresh i post s =
     (let e = qm_entries s ! i;
          slice = min (e_hidden e) (e_slice_size e);
          s = upd_entry i (\<lambda>e. e\<lparr> e_hidden := e_hidden e - slice, e_display := slice, e_refreshes := e_refreshes e + 1 \<rparr>) s;
          ahead = (case post of
                     None \<Rightarrow> 0
                   | Some b \<Rightarrow> shares_at (sim_to_char (e_side e)) (e_price e) b +
                       own_live_ahead (e_side e) (e_price e) (e_arrived_ns e) (qm_entries s))
      in upd_entry i (\<lambda>e. e\<lparr> e_ahead := ahead \<rparr>) s)"

definition trade_class :: "nat \<Rightarrow> u64 \<Rightarrow> u64 \<Rightarrow> trigger \<Rightarrow> book option \<Rightarrow>
    queue_model \<times> sim_fill list \<Rightarrow> queue_model \<times> sim_fill list" where
  "trade_class i removed ts trig post sf =
     (let (s, fills) = sf;
          used = min removed (e_ahead (qm_entries s ! i));
          s = upd_entry i (\<lambda>e. e\<lparr> e_ahead := e_ahead e - used \<rparr>) s;
          overflow = removed - used;
          e = qm_entries s ! i;
          fill = (ucast (min overflow (ucast (e_display e))) :: u32)
      in if overflow = 0 then (s, fills)
         else if fill = 0 then (s, fills)
         else
           (let s = upd_entry i (\<lambda>e. e\<lparr> e_display := e_display e - fill, e_ahead := 0 \<rparr>) s;
                fills = fills @ [\<lparr> sf_order_id = e_id e, sf_side = e_side e, sf_price = e_price e, sf_shares = fill,
                  sf_ts = ts, sf_trigger = trig, sf_liquidity = Added, sf_ahead_at_arrival = e_ahead0 e \<rparr>];
                e = qm_entries s ! i
            in if e_display e = 0 \<and> e_hidden e > 0 then (qm_refresh i post s, fills) else (s, fills)))"

definition cancel_class :: "nat \<Rightarrow> u64 \<Rightarrow> bool \<Rightarrow> queue_model \<Rightarrow> queue_model" where
  "cancel_class i removed from_ahead s =
     (if \<not> from_ahead then s else upd_entry i (\<lambda>e. e\<lparr> e_ahead := e_ahead e - min removed (e_ahead e) \<rparr>) s)"

section \<open>The commits of the models\<close>

definition in_ahead_set :: "u64 \<Rightarrow> u64 \<Rightarrow> queue_model \<Rightarrow> bool" where
  "in_ahead_set i ref s =
     (case om_get i (qm_ahead_sets s) of None \<Rightarrow> False | Some held \<Rightarrow> om_get ref held \<noteq> None)"

definition cancel_is_ahead :: "qentry \<Rightarrow> resolved \<Rightarrow> queue_model \<Rightarrow> bool" where
  "cancel_is_ahead e r s =
     (case qc_model (qm_cfg s) of
        MOptimistic \<Rightarrow> True
      | MPessimistic \<Rightarrow> False
      | MMbo \<Rightarrow> in_ahead_set (e_id e) (rv_ref r) s
      | MNaive \<Rightarrow> False)"

definition halted_commit :: "nat \<Rightarrow> resolved \<Rightarrow> queue_model \<Rightarrow> queue_model" where
  "halted_commit i r s =
     (let e = qm_entries s ! i in
      if \<not> rv_known r \<or> rv_side r \<noteq> e_side e \<or> rv_resting_price r \<noteq> e_price e then s
      else if rv_cls r \<noteq> CCancel then s
      else if qc_model (qm_cfg s) = MNaive then s
      else cancel_class i (ucast (rv_shares r)) (cancel_is_ahead e r s) s)"

definition opposite_reaches_us :: "qentry \<Rightarrow> book option \<Rightarrow> bool" where
  "opposite_reaches_us e post =
     (case post of
        None \<Rightarrow> False
      | Some b \<Rightarrow>
          (case (if e_side e = SBuy then best_ask b else best_bid b) of
             None \<Rightarrow> False
           | Some px \<Rightarrow> at_or_through (e_side e) (e_price e) px))"

definition note_trade_for_mbo :: "nat \<Rightarrow> resolved \<Rightarrow> queue_model \<Rightarrow> queue_model" where
  "note_trade_for_mbo i r s =
     (let e = qm_entries s ! i in
      case om_get (e_id e) (qm_ahead_sets s) of
        None \<Rightarrow> s
      | Some held \<Rightarrow>
          (case om_get (rv_ref r) held of
             None \<Rightarrow>
               (if e_ahead e > 0
                then s\<lparr> qm_priority_anomalies := qm_priority_anomalies s + 1,
                        qm_anomaly_shares := qm_anomaly_shares s + ucast (rv_shares r) \<rparr>
                else s)
           | Some n \<Rightarrow>
               (let held = (if rv_shares r \<ge> n then om_del (rv_ref r) held else om_set (rv_ref r) (n - rv_shares r) held)
                in s\<lparr> qm_ahead_sets := om_set (e_id e) held (qm_ahead_sets s) \<rparr>)))"

definition queued_commit :: "nat \<Rightarrow> resolved \<Rightarrow> book option \<Rightarrow>
    queue_model \<times> sim_fill list \<Rightarrow> queue_model \<times> sim_fill list" where
  "queued_commit i r post sf =
     (let (s, fills) = sf; e = qm_entries s ! i in
      if rv_cls r = CTrade \<and> rv_printable r \<and> strictly_through (e_side e) (e_price e) (rv_print_price r) \<and>
         (\<not> rv_known r \<or> rv_side r = e_side e) \<and> \<not> opposite_reaches_us e post
      then trade_class i (ucast (rv_shares r)) (rv_ts r) Through post (s, fills)
      else if \<not> rv_known r \<or> rv_side r \<noteq> e_side e \<or> rv_resting_price r \<noteq> e_price e then (s, fills)
      else if rv_cls r = CTrade then
        (let (s, fills) = trade_class i (ucast (rv_shares r)) (rv_ts r) Execution post (s, fills)
         in (if qc_model (qm_cfg s) = MMbo then note_trade_for_mbo i r s else s, fills))
      else if rv_cls r = CCancel then (cancel_class i (ucast (rv_shares r)) (cancel_is_ahead e r s) s, fills)
      else (s, fills))"

definition naive_commit :: "nat \<Rightarrow> resolved \<Rightarrow> book option \<Rightarrow>
    queue_model \<times> sim_fill list \<Rightarrow> queue_model \<times> sim_fill list" where
  "naive_commit i r post sf =
     (let (s, fills) = sf; e = qm_entries s ! i in
      if rv_cls r \<noteq> CTrade \<or> \<not> rv_printable r then (s, fills)
      else if rv_type r = ch CHR ''Q'' then (s, fills)
      else if rv_type r = ch CHR ''P'' \<and> \<not> qc_naive_fills_hidden (qm_cfg s) then (s, fills)
      else if \<not> at_or_through (e_side e) (e_price e) (rv_print_price r) then (s, fills)
      else
        (let fill = min (rv_shares r) (e_display e) in
         if fill = 0 then (s, fills)
         else
           (let s = upd_entry i (\<lambda>e. e\<lparr> e_display := e_display e - fill \<rparr>) s;
                fills = fills @ [\<lparr> sf_order_id = e_id e, sf_side = e_side e, sf_price = e_price e, sf_shares = fill,
                  sf_ts = rv_ts r, sf_trigger = Naive, sf_liquidity = Added, sf_ahead_at_arrival = 0 \<rparr>];
                s = (if rv_type r = ch CHR ''P''
                     then s\<lparr> qm_naive_hidden_fills := qm_naive_hidden_fills s + 1,
                             qm_naive_hidden_shares := qm_naive_hidden_shares s + ucast fill \<rparr>
                     else s);
                e = qm_entries s ! i
            in if e_display e = 0 \<and> e_hidden e > 0 then (qm_refresh i post s, fills) else (s, fills))))"

section \<open>The clamp and the reaper\<close>

definition clamp_one :: "book \<Rightarrow> nat \<Rightarrow> queue_model \<Rightarrow> queue_model" where
  "clamp_one post i s =
     (let e = qm_entries s ! i in
      if idle e then s
      else
        (let limit = shares_at (sim_to_char (e_side e)) (e_price e) post +
               own_live_ahead (e_side e) (e_price e) (e_arrived_ns e) (qm_entries s)
         in if e_ahead e > limit then
              (let s = s\<lparr> qm_clamp_events := qm_clamp_events s + 1,
                          qm_clamp_shares := qm_clamp_shares s + (e_ahead e - limit) \<rparr>
               in upd_entry i (\<lambda>e. e\<lparr> e_ahead := limit \<rparr>) s)
            else s))"

definition clamp_all :: "book \<Rightarrow> queue_model \<Rightarrow> queue_model" where
  "clamp_all post s = fold (clamp_one post) [0..<length (qm_entries s)] s"

definition retire :: "qentry \<Rightarrow> qentry" where
  "retire e = (if e_live e \<and> e_display e = 0 \<and> e_hidden e = 0 then e\<lparr> e_live := False \<rparr> else e)"

definition reap :: "queue_model \<Rightarrow> queue_model" where
  "reap s =
     (let es = map retire (qm_entries s)
      in s\<lparr> qm_entries := filter e_live es,
            qm_ahead_sets := fold (\<lambda>e m. if e_live e then m else om_del (e_id e) m) es (qm_ahead_sets s) \<rparr>)"

section \<open>A message, and the other side coming to us\<close>

definition commit_one :: "resolved \<Rightarrow> book \<Rightarrow> nat \<Rightarrow> queue_model \<times> sim_fill list \<Rightarrow> queue_model \<times> sim_fill list" where
  "commit_one r post i sf =
     (if idle (qm_entries (fst sf) ! i) then sf
      else if qc_model (qm_cfg (fst sf)) = MNaive then naive_commit i r (Some post) sf
      else queued_commit i r (Some post) sf)"

definition halted_one :: "resolved \<Rightarrow> nat \<Rightarrow> queue_model \<Rightarrow> queue_model" where
  "halted_one r i s = (if idle (qm_entries s ! i) then s else halted_commit i r s)"

definition qm_commit :: "resolved \<Rightarrow> book \<Rightarrow> queue_model \<times> sim_fill list \<Rightarrow> queue_model \<times> sim_fill list" where
  "qm_commit r post sf =
     (let (s, fills) = sf; n = length (qm_entries s) in
      if \<not> qm_tradable s then
        (let s = fold (halted_one r) [0..<n] s;
             s = (if qc_clamp (qm_cfg s) then clamp_all post s else s)
         in (reap s, fills))
      else
        (let (s, fills) = fold (commit_one r post) [0..<n] (s, fills);
             s = (if qc_clamp (qm_cfg s) then clamp_all post s else s)
         in (reap s, fills)))"

definition reach_of :: "qentry \<Rightarrow> book \<Rightarrow> u64" where
  "reach_of e post =
     (\<Sum>lv \<leftarrow> takeWhile (\<lambda>lv. at_or_through (e_side e) (e_price e) (lw_price lv))
                (bk_top (sim_to_char (sim_opposite (e_side e))) 32 post). lw_shares lv)"

definition priority_one :: "book \<Rightarrow> u64 \<Rightarrow> nat \<Rightarrow> queue_model \<times> sim_fill list \<Rightarrow> queue_model \<times> sim_fill list" where
  "priority_one post ts i sf =
     (let e = qm_entries (fst sf) ! i in
      if idle e then sf
      else case (if e_side e = SBuy then best_ask post else best_bid post) of
        None \<Rightarrow> sf
      | Some px \<Rightarrow>
          if \<not> at_or_through (e_side e) (e_price e) px then sf
          else if reach_of e post = 0 then sf
          else trade_class i (reach_of e post) ts Lock (Some post) sf)"

definition apply_price_priority :: "book \<Rightarrow> u64 \<Rightarrow> queue_model \<times> sim_fill list \<Rightarrow> queue_model \<times> sim_fill list" where
  "apply_price_priority post ts sf =
     (let (s, fills) = sf in
      if \<not> qm_tradable s then sf
      else (let (s, fills) = fold (priority_one post ts) [0..<length (qm_entries s)] (s, fills) in (reap s, fills)))"

section \<open>State for a restart\<close>

record qm_snapshot =
  qs_entries :: "qentry list"
  qs_ahead_sets :: "(u64 \<times> (u64 \<times> u32) list) list"
  qs_state :: u8
  qs_tradable :: bool
  qs_clamp_events :: u64
  qs_clamp_shares :: u64
  qs_priority_anomalies :: u64
  qs_anomaly_shares :: u64
  qs_hidden_inside_shares :: u64
  qs_naive_hidden_fills :: u64
  qs_naive_hidden_shares :: u64

definition state_snapshot :: "queue_model \<Rightarrow> qm_snapshot" where
  "state_snapshot s = \<lparr> qs_entries = qm_entries s, qs_ahead_sets = qm_ahead_sets s, qs_state = qm_state s,
     qs_tradable = qm_tradable s, qs_clamp_events = qm_clamp_events s, qs_clamp_shares = qm_clamp_shares s,
     qs_priority_anomalies = qm_priority_anomalies s, qs_anomaly_shares = qm_anomaly_shares s,
     qs_hidden_inside_shares = qm_hidden_inside_shares s, qs_naive_hidden_fills = qm_naive_hidden_fills s,
     qs_naive_hidden_shares = qm_naive_hidden_shares s \<rparr>"

definition emplace_all :: "(('k :: linorder) \<times> 'v) list \<Rightarrow> ('k, 'v) omap" where
  "emplace_all xs = fold (\<lambda>(k, v). om_emplace k v) xs []"

definition qm_restore :: "qm_snapshot \<Rightarrow> queue_model \<Rightarrow> queue_model" where
  "qm_restore t s = s\<lparr> qm_entries := qs_entries t,
     qm_ahead_sets := emplace_all (map (\<lambda>(i, flat). (i, emplace_all flat)) (qs_ahead_sets t)), qm_state := qs_state t,
     qm_tradable := qs_tradable t, qm_clamp_events := qs_clamp_events t, qm_clamp_shares := qs_clamp_shares t,
     qm_priority_anomalies := qs_priority_anomalies t, qm_anomaly_shares := qs_anomaly_shares t,
     qm_hidden_inside_shares := qs_hidden_inside_shares t, qm_naive_hidden_fills := qs_naive_hidden_fills t,
     qm_naive_hidden_shares := qs_naive_hidden_shares t \<rparr>"

end
