(* ===== verification/Snapshot.thy ===== *)
theory Snapshot
  imports Codec QueueModel BookOps
begin

text \<open>
  The market half of a restart, include/itchbook/recover/snapshot.hpp, with the pieces of
  include/itchbook/book/book.hpp it uses: the tape of a book and its resting orders in fill order. \<open>serialize\<close> and
  \<open>deserialize\<close> are the bytes of a snapshot file; \<open>capture\<close> and \<open>restore\<close> take it from a book and rebuild one.
  A failed \<open>deserialize\<close> is \<open>None\<close>; what it may already have written into its result is not used.
\<close>

section \<open>What a book gives and takes\<close>

record tape_state =
  ts_volume :: u64
  ts_notional :: u64
  ts_trades :: u64
  ts_hidden_volume :: u64
  ts_cross_volume :: u64
  ts_unknown_ref :: u64
  ts_open :: int
  ts_high :: int
  ts_low :: int
  ts_close :: int
  ts_trading_state :: u8
  ts_system_event :: u8

definition bk_tape :: "book \<Rightarrow> tape_state" where
  "bk_tape b = \<lparr> ts_volume = bk_volume b, ts_notional = bk_notional b, ts_trades = bk_trades b,
     ts_hidden_volume = bk_hidden_volume b, ts_cross_volume = bk_cross_volume b, ts_unknown_ref = bk_unknown_ref b,
     ts_open = bk_open b, ts_high = bk_high b, ts_low = bk_low b, ts_close = bk_close b,
     ts_trading_state = bk_trading_state b, ts_system_event = bk_system_event b \<rparr>"

definition bk_restore_tape :: "tape_state \<Rightarrow> book \<Rightarrow> book" where
  "bk_restore_tape t b = b\<lparr> bk_volume := ts_volume t, bk_notional := ts_notional t, bk_trades := ts_trades t,
     bk_hidden_volume := ts_hidden_volume t, bk_cross_volume := ts_cross_volume t, bk_unknown_ref := ts_unknown_ref t,
     bk_open := ts_open t, bk_high := ts_high t, bk_low := ts_low t, bk_close := ts_close t,
     bk_trading_state := ts_trading_state t, bk_system_event := ts_system_event t \<rparr>"

definition orders_in_fill_order :: "u8 \<Rightarrow> bstate \<Rightarrow> order list" where
  "orders_in_fill_order c sb =
     concat (map (\<lambda>lv. orders_at c (lw_price lv) sb) (bk_top c (kMaxDenseLevels * 4) (snd sb)))"

section \<open>The file\<close>

definition kSnapshotMagic :: u32 where "kSnapshotMagic = 0x49544348"
definition kSnapshotVersion :: u32 where "kSnapshotVersion = 1"

record order_record =
  sr_ref :: u64
  sr_price :: int
  sr_shares :: u32
  sr_side :: u8

record snapshot =
  sn_next_sequence :: u64
  sn_last_timestamp :: u64
  sn_tape :: tape_state
  sn_orders :: "order_record list"

definition put_record :: "order_record \<Rightarrow> u8 list" where
  "put_record r = put_u64 (sr_ref r) @ put_i32 (sr_price r) @ put_u32 (sr_shares r) @ put_u8 (sr_side r)"

definition serialize :: "snapshot \<Rightarrow> u8 list" where
  "serialize s =
     put_u32 kSnapshotMagic @ put_u32 kSnapshotVersion @
     put_u64 (sn_next_sequence s) @ put_u64 (sn_last_timestamp s) @
     put_u64 (ts_volume (sn_tape s)) @ put_u64 (ts_notional (sn_tape s)) @ put_u64 (ts_trades (sn_tape s)) @
     put_u64 (ts_hidden_volume (sn_tape s)) @ put_u64 (ts_cross_volume (sn_tape s)) @
     put_u64 (ts_unknown_ref (sn_tape s)) @
     put_i32 (ts_open (sn_tape s)) @ put_i32 (ts_high (sn_tape s)) @ put_i32 (ts_low (sn_tape s)) @
     put_i32 (ts_close (sn_tape s)) @
     put_u8 (ts_trading_state (sn_tape s)) @ put_u8 (ts_system_event (sn_tape s)) @
     put_u64 (of_nat (length (sn_orders s))) @ concat (map put_record (sn_orders s))"

definition get_record :: "u8 list \<Rightarrow> (order_record \<times> u8 list) option" where
  "get_record bs = do {
     (ref, bs) \<leftarrow> get_u64 bs;
     (price, bs) \<leftarrow> get_i32 bs;
     (shares, bs) \<leftarrow> get_u32 bs;
     (c, bs) \<leftarrow> get_u8 bs;
     Some (\<lparr> sr_ref = ref, sr_price = price, sr_shares = shares, sr_side = c \<rparr>, bs) }"

definition kRecordBytes :: nat where "kRecordBytes = 8 + 4 + 4 + 1"

definition read_snapshot :: "u8 list \<Rightarrow> (snapshot \<times> u8 list) option" where
  "read_snapshot bs = do {
     (magic, bs) \<leftarrow> get_u32 bs;
     if magic \<noteq> kSnapshotMagic then None else do {
     (version, bs) \<leftarrow> get_u32 bs;
     if version \<noteq> kSnapshotVersion then None else do {
     (next_sequence, bs) \<leftarrow> get_u64 bs;
     (last_timestamp, bs) \<leftarrow> get_u64 bs;
     (volume, bs) \<leftarrow> get_u64 bs;
     (notional, bs) \<leftarrow> get_u64 bs;
     (trades, bs) \<leftarrow> get_u64 bs;
     (hidden_volume, bs) \<leftarrow> get_u64 bs;
     (cross_volume, bs) \<leftarrow> get_u64 bs;
     (unknown_ref, bs) \<leftarrow> get_u64 bs;
     (open_px, bs) \<leftarrow> get_i32 bs;
     (high, bs) \<leftarrow> get_i32 bs;
     (low, bs) \<leftarrow> get_i32 bs;
     (close_px, bs) \<leftarrow> get_i32 bs;
     (trading_state, bs) \<leftarrow> get_u8 bs;
     (system_event, bs) \<leftarrow> get_u8 bs;
     (n, bs) \<leftarrow> get_u64 bs;
     if unat n > length bs div kRecordBytes then None else do {
     (orders, bs) \<leftarrow> get_n (unat n) get_record bs;
     Some (\<lparr> sn_next_sequence = next_sequence, sn_last_timestamp = last_timestamp,
             sn_tape = \<lparr> ts_volume = volume, ts_notional = notional, ts_trades = trades,
               ts_hidden_volume = hidden_volume, ts_cross_volume = cross_volume, ts_unknown_ref = unknown_ref,
               ts_open = open_px, ts_high = high, ts_low = low, ts_close = close_px,
               ts_trading_state = trading_state, ts_system_event = system_event \<rparr>,
             sn_orders = orders \<rparr>, bs) }}}}"

definition deserialize :: "u8 list \<Rightarrow> snapshot option" where
  "deserialize bs = map_option fst (read_snapshot bs)"

section \<open>Capture and restore\<close>

definition record_of :: "order \<Rightarrow> order_record" where
  "record_of x = \<lparr> sr_ref = o_ref x, sr_price = o_price x, sr_shares = o_shares x, sr_side = o_side x \<rparr>"

definition capture :: "bstate \<Rightarrow> u64 \<Rightarrow> u64 \<Rightarrow> snapshot" where
  "capture sb next_sequence last_timestamp =
     \<lparr> sn_next_sequence = next_sequence, sn_last_timestamp = last_timestamp, sn_tape = bk_tape (snd sb),
       sn_orders = concat (map (\<lambda>c. map record_of (orders_in_fill_order c sb)) [side_B, side_S]) \<rparr>"

definition restore_orders :: "order_record list \<Rightarrow> bstate \<Rightarrow> bstate" where
  "restore_orders rs sb = fold (\<lambda>r. bk_add (sr_ref r) (sr_side r) (sr_price r) (sr_shares r)) rs sb"

definition restore :: "snapshot \<Rightarrow> bstate \<Rightarrow> bstate" where
  "restore s sb = (let (st, b) = restore_orders (sn_orders s) (clear_orders sb) in (st, bk_restore_tape (sn_tape s) b))"

section \<open>The file is exact\<close>

definition snapshot_fits :: "snapshot \<Rightarrow> bool" where
  "snapshot_fits s \<longleftrightarrow> is_i32 (ts_open (sn_tape s)) \<and> is_i32 (ts_high (sn_tape s)) \<and> is_i32 (ts_low (sn_tape s)) \<and>
     is_i32 (ts_close (sn_tape s)) \<and> (\<forall>r \<in> set (sn_orders s). is_i32 (sr_price r)) \<and> length (sn_orders s) < 2 ^ 64"

lemma exact_record: "is_i32 (sr_price r) \<Longrightarrow> exact get_record (put_record r) r"
proof -
  assume p: "is_i32 (sr_price r)"
  have b: "put_record r = put_u64 (sr_ref r) @ put_i32 (sr_price r) @ put_u32 (sr_shares r) @ put_u8 (sr_side r) @ []"
    by (simp add: put_record_def)
  have r: "\<lparr> sr_ref = sr_ref r, sr_price = sr_price r, sr_shares = sr_shares r, sr_side = sr_side r \<rparr> = r" by simp
  show ?thesis
    unfolding get_record_def [abs_def] b
    by (intro exact_fields p) (simp only: r exact_return)
qed

lemma length_records: "length (concat (map put_record rs)) = kRecordBytes * length rs"
  by (induction rs) (simp_all add: put_record_def kRecordBytes_def)

lemma exact_snapshot: "snapshot_fits s \<Longrightarrow> exact read_snapshot (serialize s) s"
proof -
  assume f: "snapshot_fits s"
  have i: "is_i32 (ts_open (sn_tape s))" "is_i32 (ts_high (sn_tape s))" "is_i32 (ts_low (sn_tape s))" "is_i32 (ts_close (sn_tape s))"
    "\<forall>r \<in> set (sn_orders s). exact get_record (put_record r) r" "length (sn_orders s) < 2 ^ 64"
    using f by (simp_all add: snapshot_fits_def exact_record)
  have b: "serialize s = put_u32 kSnapshotMagic @ put_u32 kSnapshotVersion @
     put_u64 (sn_next_sequence s) @ put_u64 (sn_last_timestamp s) @
     put_u64 (ts_volume (sn_tape s)) @ put_u64 (ts_notional (sn_tape s)) @ put_u64 (ts_trades (sn_tape s)) @
     put_u64 (ts_hidden_volume (sn_tape s)) @ put_u64 (ts_cross_volume (sn_tape s)) @
     put_u64 (ts_unknown_ref (sn_tape s)) @
     put_i32 (ts_open (sn_tape s)) @ put_i32 (ts_high (sn_tape s)) @ put_i32 (ts_low (sn_tape s)) @
     put_i32 (ts_close (sn_tape s)) @ put_u8 (ts_trading_state (sn_tape s)) @ put_u8 (ts_system_event (sn_tape s)) @
     put_u64 (of_nat (length (sn_orders s))) @ concat (map put_record (sn_orders s)) @ []"
    by (simp add: serialize_def)
  let ?t = "\<lparr> ts_volume = ts_volume (sn_tape s), ts_notional = ts_notional (sn_tape s), ts_trades = ts_trades (sn_tape s),
      ts_hidden_volume = ts_hidden_volume (sn_tape s), ts_cross_volume = ts_cross_volume (sn_tape s),
      ts_unknown_ref = ts_unknown_ref (sn_tape s), ts_open = ts_open (sn_tape s), ts_high = ts_high (sn_tape s),
      ts_low = ts_low (sn_tape s), ts_close = ts_close (sn_tape s), ts_trading_state = ts_trading_state (sn_tape s),
      ts_system_event = ts_system_event (sn_tape s) \<rparr>"
  have t: "?t = sn_tape s" by simp
  have "exact read_snapshot (serialize s) \<lparr> sn_next_sequence = sn_next_sequence s, sn_last_timestamp = sn_last_timestamp s,
      sn_tape = ?t, sn_orders = sn_orders s \<rparr>"
    unfolding read_snapshot_def [abs_def] b
    by (intro exact_fields(1-4) exact_pass exact_counted exact_return i)
      (simp_all add: length_records kRecordBytes_def)
  moreover have "\<lparr> sn_next_sequence = sn_next_sequence s, sn_last_timestamp = sn_last_timestamp s, sn_tape = ?t,
      sn_orders = sn_orders s \<rparr> = s" unfolding t by simp
  ultimately show ?thesis by (simp only:)
qed

end
