(* ===== verification/SnapshotOk.thy ===== *)
theory SnapshotOk
  imports Snapshot Feed Engine
begin

text \<open>
  A restart resumes: the book rebuilt from a snapshot holds at every price the orders of the book it was taken
  from, in queue order. The condition is the order of the records: best price first and, within a price,
  oldest first, so that adding them one by one rebuilds every queue.
\<close>

section \<open>What is captured\<close>

definition side_prices :: "bstate \<Rightarrow> bool \<Rightarrow> int list" where
  "side_prices sb d = (let P = sorted_list_of_set {p. book_view sb d p \<noteq> []} in if d then rev P else P)"

definition side_ptrs :: "bstate \<Rightarrow> queues \<Rightarrow> bool \<Rightarrow> ptr list" where
  "side_ptrs sb Q d = concat (map (Q d) (side_prices sb d))"

lemma finite_prices: "good sb \<Longrightarrow> finite {p. book_view sb d p \<noteq> []}"
proof -
  assume g: "good sb"
  obtain st b where sb: "sb = (st, b)" by fastforce
  obtain Q where st: "store_ok st" and bk: "book_ok st b Q" using g by (auto simp: good_def sb)
  have "finite (all_of Q)" using book_okD(2) [OF bk] store_okD(4) [OF st] by (simp add: mine_def)
  moreover have "{p. book_view sb d p \<noteq> []} \<subseteq> (\<lambda>x. o_price (st_heap st x)) ` all_of Q"
  proof
    fix p assume "p \<in> {p. book_view sb d p \<noteq> []}"
    then have "Q d p \<noteq> []" by (simp add: sb book_view_ok [OF bk] view_of_def)
    then have x: "hd (Q d p) \<in> set (Q d p)" by simp
    then have "o_price (st_heap st (hd (Q d p))) = p" using pair_okD(6) [OF book_okD(1) [OF bk]] by blast
    moreover have "hd (Q d p) \<in> all_of Q" using x by (auto simp: all_of_iff)
    ultimately show "p \<in> (\<lambda>x. o_price (st_heap st x)) ` all_of Q" by (metis image_eqI)
  qed
  ultimately show ?thesis by (rule finite_subset [rotated, OF finite_imageI])
qed

lemma side_prices_ok: "good sb \<Longrightarrow> distinct (side_prices sb d) \<and> set (side_prices sb d) = {p. book_view sb d p \<noteq> []}"
  using finite_prices [of sb d] by (cases d) (simp_all add: side_prices_def Let_def)

lemma orders_at_ok:
  assumes bk: "book_ok st b Q"
  shows "orders_at c p (st, b) = map (st_heap st) (Q (c = side_B) p)"
proof -
  have ok: "side_ok (st_heap st) (the_side (c = side_B) b) (Q (c = side_B))" by (rule pair_okD(1) [OF book_okD(1) [OF bk]])
  show ?thesis
    using level_at_ok(2) [OF ok, of p] level_at_ok(3) [OF ok, of p] lv_ok_queue
    by (cases "level_at (the_side (c = side_B) b) p") (auto simp: orders_at_def side_for_the_side)
qed

lemma fill_order_ok:
  assumes st: "store_ok st" and bk: "book_ok st b Q" and few: "length (side_prices (st, b) (c = side_B)) \<le> kMaxDenseLevels * 4"
  shows "orders_in_fill_order c (st, b) = map (st_heap st) (side_ptrs (st, b) Q (c = side_B))"
proof -
  have g: "good (st, b)" using st bk by (auto simp: good_def)
  have "bk_top c (kMaxDenseLevels * 4) b = map (depth_at (st, b) (c = side_B)) (side_prices (st, b) (c = side_B))"
    using bk_top_ok [OF g, of c "kMaxDenseLevels * 4"] few by (simp add: side_prices_def Let_def split: if_splits)
  then show ?thesis
    by (simp add: orders_in_fill_order_def side_ptrs_def orders_at_ok [OF bk] depth_at_def map_concat comp_def)
qed

lemma filter_concat_queues:
  "distinct P \<Longrightarrow> (\<And>p x. x \<in> set (q p) \<Longrightarrow> f x = p) \<Longrightarrow>
   filter (\<lambda>x. f x = p) (concat (map q P)) = (if p \<in> set P then q p else [])"
proof (induction P)
  case (Cons a P)
  have "filter (\<lambda>x. f x = p) (q a) = (if a = p then q a else [])" using Cons.prems(2) [of _ a] by (auto intro: filter_True filter_False)
  then show ?case using Cons by auto
qed simp

lemma side_ptrs_ok:
  assumes st: "store_ok st" and bk: "book_ok st b Q"
  shows "filter (at_place (st_heap st) d p) (side_ptrs (st, b) Q d) = Q d p"
    "filter (at_place (st_heap st) d p) (side_ptrs (st, b) Q (\<not> d)) = []"
    "set (side_ptrs (st, b) Q d) \<subseteq> all_of Q" "distinct (side_ptrs (st, b) Q d)"
proof -
  have g: "good (st, b)" using st bk by (auto simp: good_def)
  note P = side_prices_ok [OF g, of d] and pl = pair_okD(2,6) [OF book_okD(1) [OF bk]]
  have v: "book_view (st, b) d p \<noteq> [] \<longleftrightarrow> Q d p \<noteq> []" for p by (simp add: book_view_ok [OF bk] view_of_def)
  have "filter (at_place (st_heap st) d p) (side_ptrs (st, b) Q d) =
      filter (\<lambda>x. o_price (st_heap st x) = p) (concat (map (Q d) (side_prices (st, b) d)))"
    unfolding side_ptrs_def by (rule filter_cong) (use pl in \<open>auto simp: at_place_def\<close>)
  also have "\<dots> = Q d p"
    using filter_concat_queues [of "side_prices (st, b) d" "Q d" "\<lambda>x. o_price (st_heap st x)" p] P pl(2) v by auto
  finally show "filter (at_place (st_heap st) d p) (side_ptrs (st, b) Q d) = Q d p" .
  show "filter (at_place (st_heap st) d p) (side_ptrs (st, b) Q (\<not> d)) = []"
    unfolding side_ptrs_def by (rule filter_False) (use pl in \<open>auto simp: at_place_def\<close>)
  show "set (side_ptrs (st, b) Q d) \<subseteq> all_of Q" unfolding side_ptrs_def all_of_def by auto
  show "distinct (side_ptrs (st, b) Q d)"
    unfolding side_ptrs_def
    by (rule distinct_concat_map) (use P queue_distinct [OF pair_okD(1) [OF book_okD(1) [OF bk]]]
        pair_place [OF book_okD(1) [OF bk]] in \<open>auto 0 3\<close>)
qed

section \<open>Adding the records\<close>

lemma card_refs: "store_ok st \<Longrightarrow> finite (dom (rm_find (st_refs st))) \<and> card (live st) = card (dom (rm_find (st_refs st)))"
proof -
  assume st: "store_ok st"
  have "dom (rm_find (st_refs st)) = (\<lambda>x. o_ref (st_heap st x)) ` live st"
  proof
    show "dom (rm_find (st_refs st)) \<subseteq> (\<lambda>x. o_ref (st_heap st x)) ` live st"
    proof
      fix r assume "r \<in> dom (rm_find (st_refs st))"
      then obtain x where x: "rm_find (st_refs st) r = Some x" by blast
      then have "x \<in> live st" unfolding live_def by (rule ranI)
      then show "r \<in> (\<lambda>x. o_ref (st_heap st x)) ` live st" using store_okD(2) [OF st x] by (metis image_eqI)
    qed
    show "(\<lambda>x. o_ref (st_heap st x)) ` live st \<subseteq> dom (rm_find (st_refs st))"
      using live_find [OF st] by auto
  qed
  moreover have "inj_on (\<lambda>x. o_ref (st_heap st x)) (live st)"
    by (rule inj_onI) (metis live_find [OF st] option.inject)
  ultimately show ?thesis using store_okD(4) [OF st] by (simp add: card_image)
qed

definition record_queue :: "order_record list \<Rightarrow> bool \<Rightarrow> int \<Rightarrow> (u64 \<times> u32) list" where
  "record_queue rs d p = map (\<lambda>r. (sr_ref r, sr_shares r)) (filter (\<lambda>r. (sr_side r = side_B) = d \<and> sr_price r = p) rs)"

lemma restore_orders_ok:
  assumes "store_ok st" "book_ok st b Q" "card (dom (rm_find (st_refs st))) + length rs < 2 ^ 32"
    "distinct (map sr_ref rs)" "\<forall>r \<in> set rs. rm_find (st_refs st) (sr_ref r) = None \<and> is_i32 (sr_price r) \<and> 0 < sr_price r"
  shows "good (restore_orders rs (st, b)) \<and>
    book_view (restore_orders rs (st, b)) = (\<lambda>d p. view_of (st_heap st) Q d p @ record_queue rs d p) \<and>
    same_rest b (snd (restore_orders rs (st, b)))"
  using assms
proof (induction rs arbitrary: st b Q)
  case Nil
  then show ?case by (auto simp: restore_orders_def good_def book_view_ok record_queue_def)
next
  case (Cons r rs)
  obtain st' b' where res: "bk_add (sr_ref r) (sr_side r) (sr_price r) (sr_shares r) (st, b) = (st', b')" by (meson surj_pair)
  have "all_of Q \<subseteq> live st" using book_okD(2) [OF Cons.prems(2)] by (auto simp: mine_def)
  then have "bk_resting_orders b \<le> card (dom (rm_find (st_refs st)))"
    using book_okD(4) [OF Cons.prems(2)] card_refs [OF Cons.prems(1)] store_okD(4) [OF Cons.prems(1)] by (metis card_mono)
  then have room: "bk_resting_orders b + 1 < 2 ^ 32" using Cons.prems(3) by simp
  have r1: "rm_find (st_refs st) (sr_ref r) = None" and r2: "is_i32 (sr_price r)" and r3: "0 < sr_price r"
    using Cons.prems(5) by auto
  obtain Q' where Q': "store_ok st'" "book_ok st' b' Q'" "same_rest b b'"
    "view_of (st_heap st') Q' = (\<lambda>d p. if d = (sr_side r = side_B) \<and> p = sr_price r
       then view_of (st_heap st) Q d p @ [(sr_ref r, sr_shares r)] else view_of (st_heap st) Q d p)"
    "dom (rm_find (st_refs st')) = insert (sr_ref r) (dom (rm_find (st_refs st)))"
    by (rule bk_add_view [OF Cons.prems(1,2) r1 r2 r3 room res]) (rule that)
  have "sr_ref r \<notin> dom (rm_find (st_refs st))" using Cons.prems(5) by auto
  then have "card (dom (rm_find (st_refs st'))) + length rs < 2 ^ 32"
    using Q'(5) Cons.prems(3) card_refs [OF Cons.prems(1)] by simp
  moreover have "rm_find (st_refs st') (sr_ref r') = None" if "r' \<in> set rs" for r'
  proof -
    have "sr_ref r' \<noteq> sr_ref r" using that Cons.prems(4) by (metis distinct.simps(2) image_eqI list.set_map list.simps(9))
    moreover have "sr_ref r' \<notin> dom (rm_find (st_refs st))" using that Cons.prems(5) by auto
    ultimately show ?thesis using Q'(5) by (metis domIff insert_iff)
  qed
  ultimately have "good (restore_orders rs (st', b')) \<and>
    book_view (restore_orders rs (st', b')) = (\<lambda>d p. view_of (st_heap st') Q' d p @ record_queue rs d p) \<and>
    same_rest b' (snd (restore_orders rs (st', b')))"
    using Cons.IH [OF Q'(1,2)] Cons.prems(4,5) by simp
  then show ?case
    using same_rest_trans [OF Q'(3)] Q'(4) res by (simp add: restore_orders_def record_queue_def fun_eq_iff)
qed

lemma restore_tape_ok:
  "good (st, b) \<Longrightarrow> good (st, bk_restore_tape t b) \<and> book_view (st, bk_restore_tape t b) = book_view (st, b) \<and>
     bk_tape (bk_restore_tape t b) = t"
proof -
  assume g: "good (st, b)"
  then obtain Q where Q: "store_ok st" "book_ok st b Q" by (auto simp: good_def)
  have "book_ok st (bk_restore_tape t b) Q" by (rule book_ok_cong [OF Q(2)]) (simp_all add: bk_restore_tape_def)
  then have "good (st, bk_restore_tape t b)" using Q(1) by (auto simp: good_def)
  moreover have "book_view (st, bk_restore_tape t b) = book_view (st, b)"
    by (auto simp: book_view_def the_side_def bk_restore_tape_def fun_eq_iff)
  moreover have "bk_tape (bk_restore_tape t b) = t" by (simp add: bk_tape_def bk_restore_tape_def)
  ultimately show ?thesis by blast
qed

section \<open>A restart\<close>

definition fresh_book :: "heap \<Rightarrow> nat \<Rightarrow> nat \<Rightarrow> nat \<Rightarrow> nat \<Rightarrow> u16 \<Rightarrow> int \<Rightarrow> int \<Rightarrow> bstate" where
  "fresh_book h refs_capacity first_chunk max_chunk levels l tick pct =
     (store_new h refs_capacity first_chunk max_chunk, set_band_levels levels (book_new l tick pct))"

lemma store_new_ok: "store_ok (store_new h c f m)" "rm_find (st_refs (store_new h c f m)) = Map.empty"
proof -
  show e: "rm_find (st_refs (store_new h c f m)) = Map.empty"
    by (simp add: store_new_def rm_find_new fun_eq_iff)
  have "represents (bookset_new h c 100 20 1 f m) []" by (rule bookset_new_represents) simp_all
  then show "store_ok (store_new h c f m)" using representsD(1) by (fastforce simp: bookset_new_def)
qed

lemma fresh_cleared:
  assumes "0 < tick" "levels < 2 ^ 32 - 1" "clear_orders (fresh_book h c f m levels l tick pct) = (st, b)"
  obtains Q where "store_ok st" "book_ok st b Q" "view_of (st_heap st) Q = (\<lambda>d p. [])" "dom (rm_find (st_refs st)) = {}"
proof -
  let ?st = "store_new h c f m" and ?b = "set_band_levels levels (book_new l tick pct)"
  have live: "live ?st = {}" by (simp add: live_def store_new_ok(2))
  then have none: "mine ?st l' = {}" for l' by (simp add: mine_def)
  have g: "good (?st, ?b)" using book_new_ok [OF none assms(1,2)] store_new_ok(1) by (auto simp: good_def)
  have r: "refines (?st, ?b) (st, b) (\<lambda>d p. [])"
    using clear_orders_refines(1) [OF g] assms(3) by (simp add: fresh_book_def)
  then obtain Q where Q: "store_ok st" "book_ok st b Q" by (auto simp: refines_def good_def)
  have v: "view_of (st_heap st) Q = (\<lambda>d p. [])" using r book_view_ok [OF Q(2)] by (simp add: refines_def)
  have e: "Q d p = []" for d p using v [THEN fun_cong, of d, THEN fun_cong, of p] by (simp add: view_of_def)
  have "all_of Q = {}" by (simp add: all_of_def e)
  then have "mine st (bk_locate b) = {}" using book_okD(2) [OF Q(2)] by simp
  moreover have "mine st l' = {}" if "l' \<noteq> bk_locate ?b" for l' using r that none by (simp add: refines_def frame_def)
  moreover have "bk_locate b = bk_locate ?b" using r by (simp add: refines_def)
  ultimately have "mine st l' = {}" for l' by (cases "l' = bk_locate b") auto
  then have "live st = {}" by (auto simp: mine_def)
  then have "dom (rm_find (st_refs st)) = {}" using card_refs [OF Q(1)] by simp
  with that Q v show thesis by blast
qed

lemma captured_records:
  assumes st: "store_ok st" and bk: "book_ok st b Q" and few: "\<And>d. length (side_prices (st, b) d) \<le> kMaxDenseLevels * 4"
  shows "sn_orders (capture (st, b) n t) =
      map (\<lambda>x. record_of (st_heap st x)) (side_ptrs (st, b) Q True @ side_ptrs (st, b) Q False)"
    "record_queue (sn_orders (capture (st, b) n t)) d p = view_of (st_heap st) Q d p"
    "distinct (map sr_ref (sn_orders (capture (st, b) n t)))"
    "length (sn_orders (capture (st, b) n t)) < 2 ^ 32"
proof -
  let ?x = "side_ptrs (st, b) Q True @ side_ptrs (st, b) Q False"
  show s: "sn_orders (capture (st, b) n t) = map (\<lambda>x. record_of (st_heap st x)) ?x"
    using fill_order_ok [OF st bk, of side_B] fill_order_ok [OF st bk, of side_S] few
    by (simp add: capture_def side_B_def side_S_def)
  note P = side_ptrs_ok [OF st bk]
  have x: "filter (at_place (st_heap st) d p) ?x = Q d p" using P(1,2) [of d p] by (cases d) simp_all
  have "map (\<lambda>r. (sr_ref r, sr_shares r)) (filter (\<lambda>r. (sr_side r = side_B) = d \<and> sr_price r = p)
      (map (\<lambda>x. record_of (st_heap st x)) xs)) = map (tag (st_heap st)) (filter (at_place (st_heap st) d p) xs)" for xs
    by (induction xs) (auto simp: record_of_def at_place_def tag_def)
  from this [of ?x] show "record_queue (sn_orders (capture (st, b) n t)) d p = view_of (st_heap st) Q d p"
    unfolding record_queue_def s x by (simp add: view_of_def)
  have disj: "set (side_ptrs (st, b) Q True) \<inter> set (side_ptrs (st, b) Q False) = {}"
    using pair_place [OF book_okD(1) [OF bk], of _ True _ False] by (fastforce simp: side_ptrs_def)
  then have dist: "distinct ?x" using P(4) by simp
  have sub: "set ?x \<subseteq> all_of Q" using P(3) by auto
  have lv: "all_of Q \<subseteq> live st" using book_okD(2) [OF bk] by (auto simp: mine_def)
  have "inj_on (\<lambda>x. o_ref (st_heap st x)) (set ?x)"
    by (rule inj_onI) (metis live_find [OF st] option.inject sub lv subsetD)
  then show "distinct (map sr_ref (sn_orders (capture (st, b) n t)))"
    unfolding s using dist by (simp add: distinct_map record_of_def comp_def del: set_append distinct_append map_append)
  have "length ?x = card (set ?x)" using distinct_card [OF dist] by simp
  also have "\<dots> \<le> card (all_of Q)" by (rule card_mono) (use sub lv store_okD(4) [OF st] finite_subset in blast)+
  also have "\<dots> < 2 ^ 32" using book_okD(4,6) [OF bk] by simp
  finally show "length (sn_orders (capture (st, b) n t)) < 2 ^ 32" by (simp add: s)
qed

lemma restart_ok:
  assumes g: "good sb" and pos: "\<And>d p. book_view sb d p \<noteq> [] \<Longrightarrow> 0 < p"
    and few: "\<And>d. length (side_prices sb d) \<le> kMaxDenseLevels * 4"
    and new: "0 < tick" "levels < 2 ^ 32 - 1"
    and e: "sb' = restore (capture sb n t) (fresh_book h c f m levels l tick pct)"
  shows "good sb'" "book_view sb' = book_view sb" "bk_tape (snd sb') = bk_tape (snd sb)"
proof -
  obtain st b where sb: "sb = (st, b)" by fastforce
  obtain Q where st: "store_ok st" and bk: "book_ok st b Q" using g by (auto simp: good_def sb)
  let ?rs = "sn_orders (capture (st, b) n t)"
  note R = captured_records [OF st bk few [unfolded sb], of n t]
  obtain st0 b0 where c0: "clear_orders (fresh_book h c f m levels l tick pct) = (st0, b0)" by fastforce
  obtain Q0 where Q0: "store_ok st0" "book_ok st0 b0 Q0" "view_of (st_heap st0) Q0 = (\<lambda>d p. [])" "dom (rm_find (st_refs st0)) = {}"
    by (rule fresh_cleared [OF new c0])
  have "rm_find (st_refs st0) (sr_ref r) = None \<and> is_i32 (sr_price r) \<and> 0 < sr_price r" if m: "r \<in> set ?rs" for r
  proof -
    obtain x where x: "x \<in> set (side_ptrs (st, b) Q True) \<union> set (side_ptrs (st, b) Q False)" "r = record_of (st_heap st x)"
      using m unfolding R(1) by auto
    have "x \<in> all_of Q" using x(1) side_ptrs_ok(3) [OF st bk, of True] side_ptrs_ok(3) [OF st bk, of False] by fast
    then obtain d p where q: "x \<in> set (Q d p)" unfolding all_of_iff by fast
    then have "o_price (st_heap st x) = p" "is_i32 p" using pair_okD(6) [OF book_okD(1) [OF bk]] by blast+
    moreover have "0 < p" by (rule pos [of d]) (use q in \<open>auto simp: sb book_view_ok [OF bk] view_of_def\<close>)
    ultimately show ?thesis using x(2) Q0(4) by (auto simp: record_of_def)
  qed
  moreover have "card (dom (rm_find (st_refs st0))) + length ?rs < 2 ^ 32" using Q0(4) R(4) by simp
  ultimately have A: "good (restore_orders ?rs (st0, b0))"
      "book_view (restore_orders ?rs (st0, b0)) = (\<lambda>d p. record_queue ?rs d p)"
    using restore_orders_ok [OF Q0(1,2) _ R(3)] Q0(3) by simp_all
  obtain st1 b1 where r1: "restore_orders ?rs (st0, b0) = (st1, b1)" by fastforce
  have s': "sb' = (st1, bk_restore_tape (bk_tape b) b1)"
    by (simp add: e restore_def sb c0 r1) (simp add: capture_def)
  note T = restore_tape_ok [OF A(1) [unfolded r1], of "bk_tape b"]
  show "good sb'" "bk_tape (snd sb') = bk_tape (snd sb)" using T by (simp_all add: s' sb)
  show "book_view sb' = book_view sb"
    using T A(2) R(2) by (simp add: s' sb r1 book_view_ok [OF bk] fun_eq_iff)
qed

lemma capture_fits:
  assumes g: "good sb" and few: "\<And>d. length (side_prices sb d) \<le> kMaxDenseLevels * 4"
    and tape: "is_i32 (bk_open (snd sb))" "is_i32 (bk_high (snd sb))" "is_i32 (bk_low (snd sb))" "is_i32 (bk_close (snd sb))"
  shows "snapshot_fits (capture sb n t)"
proof -
  obtain st b where sb: "sb = (st, b)" by fastforce
  obtain Q where st: "store_ok st" and bk: "book_ok st b Q" using g by (auto simp: good_def sb)
  note R = captured_records [OF st bk few [unfolded sb], of n t]
  have "is_i32 (sr_price r)" if m: "r \<in> set (sn_orders (capture (st, b) n t))" for r
  proof -
    obtain x where x: "x \<in> set (side_ptrs (st, b) Q True) \<union> set (side_ptrs (st, b) Q False)" "r = record_of (st_heap st x)"
      using m unfolding R(1) by auto
    have "x \<in> all_of Q" using x(1) side_ptrs_ok(3) [OF st bk, of True] side_ptrs_ok(3) [OF st bk, of False] by fast
    then obtain d p where q: "x \<in> set (Q d p)" unfolding all_of_iff by fast
    then have "o_price (st_heap st x) = p" "is_i32 p" using pair_okD(6) [OF book_okD(1) [OF bk]] by blast+
    then show ?thesis by (simp add: x(2) record_of_def)
  qed
  moreover have "sn_tape (capture sb n t) = bk_tape b" by (simp add: capture_def sb)
  moreover have "length (sn_orders (capture (st, b) n t)) < 2 ^ 64" by (rule order_less_trans [OF R(4)]) simp
  ultimately show ?thesis using tape by (simp add: snapshot_fits_def bk_tape_def sb)
qed

section \<open>A sample\<close>

lemma same_rest_tape:
  assumes "same_rest b b'"
  shows "bk_open b' = bk_open b" "bk_high b' = bk_high b" "bk_low b' = bk_low b" "bk_close b' = bk_close b"
  by (subst assms [unfolded same_rest_def], simp)+

lemma two_bids:
  defines "sb \<equiv> bk_add 9 side_B 1000 30 (bk_add 7 side_B 1000 50 sample_book0)"
  shows "good sb" "book_view sb = (\<lambda>d p. if d \<and> p = 1000 then [(7, 50), (9, 30)] else [])"
    "bk_open (snd sb) = - 1" "bk_high (snd sb) = - 1" "bk_low (snd sb) = - 1" "bk_close (snd sb) = - 1"
proof -
  let ?rs = "[\<lparr> sr_ref = 7, sr_price = 1000, sr_shares = 50, sr_side = side_B \<rparr>,
    \<lparr> sr_ref = 9, sr_price = 1000, sr_shares = 30, sr_side = side_B \<rparr>]"
  obtain st b where s0: "sample_book0 = (st, b)" by fastforce
  obtain Q where Q: "store_ok st" "book_ok st b Q" using sample_good by (auto simp: good_def s0)
  have none: "rm_find (st_refs st) = Map.empty" "bk_open b = - 1" "bk_high b = - 1" "bk_low b = - 1" "bk_close b = - 1"
    using s0 store_new_ok(2) [of blank_heap 1 2 2] unfolding sample_book0_def set_band_levels_def book_new_def by auto
  then have "all_of Q = {}" using book_okD(2) [OF Q(2)] by (simp add: mine_def live_def)
  then have "Q d p = []" for d p using all_of_iff [of _ Q] by (metis all_not_in_conv set_empty)
  then have v: "view_of (st_heap st) Q = (\<lambda>d p. [])" by (simp add: view_of_def fun_eq_iff)
  have e: "sb = restore_orders ?rs (st, b)" by (simp add: sb_def restore_orders_def s0)
  have R: "good sb \<and> book_view sb = (\<lambda>d p. view_of (st_heap st) Q d p @ record_queue ?rs d p) \<and> same_rest b (snd sb)"
    unfolding e by (rule restore_orders_ok [OF Q]) (simp_all add: none is_i32_def)
  then show "good sb" by simp
  show "book_view sb = (\<lambda>d p. if d \<and> p = 1000 then [(7, 50), (9, 30)] else [])"
    using R by (auto simp: v record_queue_def fun_eq_iff)
  have "same_rest b (snd sb)" using R by simp
  from same_rest_tape [OF this] show "bk_open (snd sb) = - 1" "bk_high (snd sb) = - 1" "bk_low (snd sb) = - 1" "bk_close (snd sb) = - 1"
    by (simp_all add: none)
qed

end
