(* ===== verification/Split.thy ===== *)
theory Split
  imports SnapshotOk
begin

text \<open>
  The split replayer, include/itchbook/replay/split.hpp: a day of the feed replayed onto books that also hold
  strategy orders. Adds, cancels and the rest are applied as state; an execution is a crossing event that takes
  the strategy orders ahead of the one the feed names. What happens is published again, encoded from the
  fields. \<open>sp_sink\<close> and \<open>sp_trace\<close> are what the attached sink and fill trace were told, or nothing when none
  is attached. The engine holds a reference to the book of its symbol, so a fill through it is run on the
  store and that book as they are. The encoders write into a buffer on the stack; its old contents are an
  argument.
\<close>

section \<open>State\<close>

definition kStrategyRefBit :: u64 where "kStrategyRefBit = push_bit 63 1"

definition is_strategy_ref :: "u64 \<Rightarrow> bool" where
  "is_strategy_ref ref \<longleftrightarrow> ref AND kStrategyRefBit \<noteq> 0"

datatype treatment = AsState | AsAggressor

definition treatment_of :: "u8 \<Rightarrow> treatment" where
  "treatment_of t = (if t = ch CHR ''E'' then AsAggressor else AsState)"

record split_counters =
  sc_messages :: u64
  sc_state_applied :: u64
  sc_aggressors :: u64
  sc_aggressor_shares :: u64
  sc_strategy_taken :: u64
  sc_historical_ahead :: u64
  sc_unknown_ref :: u64
  sc_violations :: u64
  sc_emitted :: u64
  sc_unmodelled :: u64

record split =
  sp_set :: bookset
  sp_sink :: "u8 list list option"
  sp_matcher :: "(u16 \<times> matcher) option"
  sp_trace :: "(u64 \<times> u32 \<times> u64 \<times> u32) list option"
  sp_seq :: "(u8 list list option \<Rightarrow> u64) option"
  sp_ordinals :: "u64 \<Rightarrow> u32"
  sp_c :: split_counters

definition split_new :: "bookset \<Rightarrow> split" where
  "split_new bs = \<lparr> sp_set = bs, sp_sink = None, sp_matcher = None, sp_trace = None, sp_seq = None,
     sp_ordinals = (\<lambda>_. 0), sp_c = \<lparr> sc_messages = 0, sc_state_applied = 0, sc_aggressors = 0, sc_aggressor_shares = 0,
       sc_strategy_taken = 0, sc_historical_ahead = 0, sc_unknown_ref = 0, sc_violations = 0, sc_emitted = 0,
       sc_unmodelled = 0 \<rparr> \<rparr>"

definition partition_held :: "split \<Rightarrow> bool" where
  "partition_held s \<longleftrightarrow> sc_violations (sp_c s) = 0"

section \<open>The reference partition\<close>

definition note_ref :: "u64 \<Rightarrow> split \<Rightarrow> split" where
  "note_ref ref s =
     (if is_strategy_ref ref then s\<lparr> sp_c := (sp_c s)\<lparr> sc_violations := sc_violations (sp_c s) + 1 \<rparr> \<rparr> else s)"

definition check_partition :: "u8 \<Rightarrow> u8 list \<Rightarrow> split \<Rightarrow> split" where
  "check_partition t p s =
     (if t = ch CHR ''A'' then note_ref (add_order_ref p) s
      else if t = ch CHR ''F'' then note_ref (add_order_mpid_ref p) s
      else if t = ch CHR ''E'' then note_ref (order_executed_ref p) s
      else if t = ch CHR ''C'' then note_ref (order_executed_price_ref p) s
      else if t = ch CHR ''X'' then note_ref (order_cancel_ref p) s
      else if t = ch CHR ''D'' then note_ref (order_delete_ref p) s
      else if t = ch CHR ''U'' then note_ref (order_replace_new_ref p) (note_ref (order_replace_original_ref p) s)
      else s)"

section \<open>Publishing\<close>

definition ts_of :: "u8 list \<Rightarrow> u64" where
  "ts_of p = fold (\<lambda>i v. push_bit 8 v OR ucast (p ! (5 + i))) [0..<6] 0"

definition hand_on :: "u8 list \<times> nat \<Rightarrow> split \<Rightarrow> split" where
  "hand_on msg s =
     s\<lparr> sp_sink := map_option (\<lambda>sent. sent @ [take (snd msg) (fst msg)]) (sp_sink s),
        sp_c := (sp_c s)\<lparr> sc_emitted := sc_emitted (sp_c s) + 1 \<rparr> \<rparr>"

definition encode_state :: "u8 list \<Rightarrow> u8 \<Rightarrow> u8 list \<Rightarrow> (u8 list \<times> nat) option" where
  "encode_state stk t p =
     (let loc = stock_locate p; trk = be16 p 3; ts = ts_of p in
      if t = ch CHR ''S'' then Some (emit_system_event stk loc trk ts (system_event_code p))
      else if t = ch CHR ''R'' then
        (let (q, n) = emit_stock_directory stk loc trk ts (Some (stock_directory_stock p)) (stock_directory_category p)
           (stock_directory_status p) (stock_directory_round_lot p)
         in Some (memcpy 25 (bytes_at p 25 14) q, n))
      else if t = ch CHR ''A'' then
        Some (emit_add_order stk loc trk ts (add_order_ref p) (add_order_side p) (add_order_shares p)
          (Some (add_order_stock p)) (add_order_price p))
      else if t = ch CHR ''F'' then
        Some (emit_add_order_mpid stk loc trk ts (add_order_mpid_ref p) (add_order_mpid_side p) (add_order_mpid_shares p)
          (Some (add_order_mpid_stock p)) (add_order_mpid_price p) (Some (add_order_mpid_attribution p)))
      else if t = ch CHR ''C'' then
        Some (emit_order_executed_price stk loc trk ts (order_executed_price_ref p) (order_executed_price_shares p)
          (order_executed_price_match p) (order_executed_price_printable p) (order_executed_price_price p))
      else if t = ch CHR ''X'' then
        Some (emit_order_cancel stk loc trk ts (order_cancel_ref p) (order_cancel_shares p))
      else if t = ch CHR ''D'' then Some (emit_order_delete stk loc trk ts (order_delete_ref p))
      else if t = ch CHR ''U'' then
        Some (emit_order_replace stk loc trk ts (order_replace_original_ref p) (order_replace_new_ref p)
          (order_replace_shares p) (order_replace_price p))
      else if t = ch CHR ''P'' then
        Some (emit_trade stk loc trk ts (trade_ref p) (trade_side p) (trade_shares p) (Some (trade_stock p))
          (trade_price p) (trade_match p))
      else if t = ch CHR ''Q'' then
        Some (emit_cross_trade stk loc trk ts (cross_trade_shares p) (Some (cross_trade_stock p)) (cross_trade_price p)
          (cross_trade_match p) (cross_trade_type p))
      else if t = ch CHR ''H'' then
        Some (emit_trading_action stk loc trk ts (Some (trading_action_stock p)) (trading_action_state p)
          (Some (trading_action_reason p)))
      else if t = ch CHR ''h'' then
        Some (emit_operational_halt stk loc trk ts (Some (operational_halt_stock p)) (operational_halt_market p)
          (operational_halt_action p))
      else if t = ch CHR ''W'' then Some (emit_mwcb_status stk loc trk ts (mwcb_status_level p))
      else if t = ch CHR ''B'' then Some (emit_broken_trade stk loc trk ts (broken_trade_match p))
      else None)"

definition emit_state :: "u8 list \<Rightarrow> u8 \<Rightarrow> u8 list \<Rightarrow> split \<Rightarrow> split" where
  "emit_state stk t p s =
     (if sp_sink s = None then s
      else case encode_state stk t p of
        None \<Rightarrow> s\<lparr> sp_c := (sp_c s)\<lparr> sc_unmodelled := sc_unmodelled (sp_c s) + 1 \<rparr> \<rparr>
      | Some msg \<Rightarrow> hand_on msg s)"

definition emit_exec :: "u8 list \<Rightarrow> u8 list \<Rightarrow> u64 \<Rightarrow> u32 \<Rightarrow> split \<Rightarrow> split" where
  "emit_exec stk p ref shares s =
     (if sp_sink s = None then s
      else hand_on (emit_order_executed stk (stock_locate p) (be16 p 3) (ts_of p) ref shares (order_executed_match p)) s)"

section \<open>An execution as a crossing event\<close>

definition sp_book :: "u16 \<Rightarrow> split \<Rightarrow> bstate" where
  "sp_book l s = (bs_store (sp_set s), the (bs_books (sp_set s) l))"

definition sp_put :: "u16 \<Rightarrow> bstate \<Rightarrow> split \<Rightarrow> split" where
  "sp_put l sb s = s\<lparr> sp_set := bs_put l sb (sp_set s) \<rparr>"

text \<open>The orders the aggressor meets before the one that is named, front of the queue first.\<close>

definition orders_ahead :: "u64 \<Rightarrow> u8 \<Rightarrow> int \<Rightarrow> bstate \<Rightarrow> order list" where
  "orders_ahead ref c price sb =
     takeWhile (\<lambda>q. o_ref q \<noteq> ref) (orders_at c price sb)"

text \<open>What is taken from one strategy order, through the engine or directly; nothing when it is skipped.\<close>

definition take_from :: "u16 \<Rightarrow> u64 \<Rightarrow> u32 \<Rightarrow> int \<Rightarrow> u64 \<Rightarrow> split \<Rightarrow> u32 option \<times> split" where
  "take_from l sref remaining price match_number s =
     (case sp_matcher s of
        Some (at_l, m) \<Rightarrow>
          (let (n, m) = apply_external_fill sref remaining price match_number (m\<lparr> mt_book := sp_book at_l s \<rparr>);
               s = sp_put at_l (mt_book m) (s\<lparr> sp_matcher := Some (at_l, m) \<rparr>)
           in (if n = 0 then None else Some n, s))
      | None \<Rightarrow>
          (case bk_find sref (sp_book l s) of
             None \<Rightarrow> (None, s)
           | Some x \<Rightarrow>
               (let shares = o_shares (st_heap (bs_store (sp_set s)) x);
                    n = (if shares < remaining then shares else remaining)
                in (Some n, sp_put l (bk_take sref n (sp_book l s)) s))))"

definition print_trade :: "u16 \<Rightarrow> int \<Rightarrow> u32 \<Rightarrow> split \<Rightarrow> split" where
  "print_trade l price n s = sp_put l (apsnd (note_feed_trade price n) (sp_book l s)) s"

definition trace_fill :: "u64 \<Rightarrow> u32 \<Rightarrow> split \<Rightarrow> split" where
  "trace_fill sref n s =
     (case sp_trace s of
        None \<Rightarrow> s
      | Some log \<Rightarrow>
          (let ord = sp_ordinals s sref;
               ms = (case sp_seq s of None \<Rightarrow> 0 | Some next_seq \<Rightarrow> next_seq (sp_sink s))
           in s\<lparr> sp_ordinals := (sp_ordinals s)(sref := ord + 1), sp_trace := Some (log @ [(sref, ord, ms, n)]) \<rparr>))"

fun walk_ahead :: "u8 list \<Rightarrow> u8 list \<Rightarrow> u16 \<Rightarrow> int \<Rightarrow> u64 list \<Rightarrow> u32 \<Rightarrow> split \<Rightarrow> u32 \<times> split" where
  "walk_ahead stk p l price [] remaining s = (remaining, s)"
| "walk_ahead stk p l price (sref # rest) remaining s =
     (if remaining = 0 then (remaining, s)
      else case take_from l sref remaining price (order_executed_match p) s of
        (None, s) \<Rightarrow> walk_ahead stk p l price rest remaining s
      | (Some n, s) \<Rightarrow>
          (let s = print_trade l price n s;
               s = s\<lparr> sp_c := (sp_c s)\<lparr> sc_strategy_taken := sc_strategy_taken (sp_c s) + ucast n \<rparr> \<rparr>;
               s = trace_fill sref n s
           in walk_ahead stk p l price rest (remaining - n) (emit_exec stk p sref n s)))"

definition note_aggressor :: "u8 list \<Rightarrow> split \<Rightarrow> split" where
  "note_aggressor p s =
     (let s = s\<lparr> sp_c := (sp_c s)\<lparr> sc_aggressors := sc_aggressors (sp_c s) + 1,
                   sc_aggressor_shares := sc_aggressor_shares (sp_c s) + ucast (order_executed_shares p) \<rparr> \<rparr>
      in s\<lparr> sp_set := snd (bs_at (stock_locate p) (sp_set s)) \<rparr>)"

definition note_historical :: "order list \<Rightarrow> split \<Rightarrow> split" where
  "note_historical before s =
     s\<lparr> sp_c := (sp_c s)\<lparr> sc_historical_ahead := sc_historical_ahead (sp_c s) +
          of_nat (length (filter (\<lambda>q. \<not> is_strategy_ref (o_ref q)) before)) \<rparr> \<rparr>"

definition finish_named :: "u8 list \<Rightarrow> u8 list \<Rightarrow> int \<Rightarrow> u32 \<times> split \<Rightarrow> split" where
  "finish_named stk p price rs =
     (let ref = order_executed_ref p; l = stock_locate p; (remaining, s) = rs in
      if remaining > 0 then
        (let s = print_trade l price remaining s;
             s = sp_put l (bk_take ref remaining (sp_book l s)) s
         in emit_exec stk p ref remaining s)
      else s)"

definition aggress_on :: "u8 list \<Rightarrow> u8 list \<Rightarrow> order \<Rightarrow> split \<Rightarrow> split" where
  "aggress_on stk p named s =
     (let price = o_price named;
          before = orders_ahead (order_executed_ref p) (o_side named) price (sp_book (stock_locate p) s);
          ahead = map o_ref (filter (\<lambda>q. is_strategy_ref (o_ref q)) before)
      in finish_named stk p price
           (walk_ahead stk p (stock_locate p) price ahead (order_executed_shares p) (note_historical before s)))"

definition aggress :: "u8 list \<Rightarrow> u8 list \<Rightarrow> split \<Rightarrow> split \<times> bool" where
  "aggress stk p s =
     (let ref = order_executed_ref p; l = stock_locate p; s = note_aggressor p s
      in case bk_find ref (sp_book l s) of
        None \<Rightarrow>
          (let s = s\<lparr> sp_c := (sp_c s)\<lparr> sc_unknown_ref := sc_unknown_ref (sp_c s) + 1 \<rparr> \<rparr>;
               s = sp_put l (bk_execute ref (order_executed_shares p) (sp_book l s)) s
           in (emit_exec stk p ref (order_executed_shares p) s, True))
      | Some x \<Rightarrow> (aggress_on stk p (st_heap (bs_store (sp_set s)) x) s, True))"

definition split_apply :: "u8 list \<Rightarrow> u8 \<Rightarrow> u8 list \<Rightarrow> split \<Rightarrow> split \<times> bool" where
  "split_apply stk t p s =
     (let s = s\<lparr> sp_c := (sp_c s)\<lparr> sc_messages := sc_messages (sp_c s) + 1 \<rparr> \<rparr>;
          s = check_partition t p s
      in if treatment_of t = AsAggressor then aggress stk p s
         else
           (let s = s\<lparr> sp_c := (sp_c s)\<lparr> sc_state_applied := sc_state_applied (sp_c s) + 1 \<rparr> \<rparr>;
                (bs, mutated) = apply_set t p (sp_set s);
                s = s\<lparr> sp_set := bs \<rparr>
            in (emit_state stk t p s, mutated)))"

section \<open>Encoding what was decoded\<close>

lemma byte_bit: "bit (w :: u8) n \<Longrightarrow> n < 8"
  by (drule bit_imp_le_length) simp

lemma no_high_bits:
  "\<not> bit (w :: u8) (8 + n)" "\<not> bit w (16 + n)" "\<not> bit w (24 + n)" "\<not> bit w (32 + n)" "\<not> bit w (40 + n)"
  "\<not> bit w (48 + n)" "\<not> bit w (56 + n)"
  by (auto dest: byte_bit)

lemma enc16_be16: "enc16 (be16 p i) = bytes_at p i 2"
  by (auto simp: enc16_def be16_def bytes_at_def upt_rec bit_simps no_high_bits intro!: bit_word_eqI dest: byte_bit)

lemma enc32_be32: "enc32 (be32 p i) = bytes_at p i 4"
  unfolding enc32_def bytes_at_def upt_4
  by (auto simp: be32_def bit_simps no_high_bits intro!: bit_word_eqI dest: byte_bit)

lemma enc48_be48: "enc48 (be48 p i) = bytes_at p i 6"
  unfolding enc48_def bytes_at_def upt_6
  by (auto simp: be48_def upt_6 bit_simps no_high_bits intro!: bit_word_eqI dest: byte_bit)

lemma enc64_be64: "enc64 (be64 p i) = bytes_at p i 8"
  unfolding enc64_def bytes_at_def upt_8
  by (auto simp: be64_def upt_8 bit_simps no_high_bits intro!: bit_word_eqI dest: byte_bit)

lemma ts_of_be48: "ts_of p = be48 p 5"
  by (simp add: ts_of_def be48_def)

lemma encode_fields:
  "enc16 (stock_locate p) = bytes_at p 1 2" "enc48 (ts_of p) = bytes_at p 5 6"
  "word_of_int (sint (w :: u32)) = w" "stock_field n (Some (bytes_at p i n)) = bytes_at p i n"
  "bytes_at (bytes_at p i n) 0 n = bytes_at p i n"
  by (simp_all add: stock_locate_def ts_of_be48 enc16_be16 enc48_be48 stock_field_def) (simp_all add: bytes_at_def)

text \<open>Bytes copied one field after the other rebuild the message as far as they go.\<close>

lemma relay:
  "take i q = take i p \<Longrightarrow> k = i + n \<Longrightarrow> k \<le> length p \<Longrightarrow> k \<le> length q \<Longrightarrow> take k (memcpy i (bytes_at p i n) q) = take k p"
proof -
  assume a: "take i q = take i p" "k = i + n" "k \<le> length p" "k \<le> length q"
  have "memcpy i (bytes_at p i n) q = take i p @ bytes_at p i n @ drop k q" using a by (simp add: memcpy_append)
  moreover have "take k p = take i p @ bytes_at p i n"
    by (rule nth_equalityI) (use a in \<open>auto simp: nth_append bytes_at_def\<close>)
  ultimately show ?thesis using a by simp
qed

lemma one_byte: "[p ! i] = bytes_at p i 1"
  by (simp add: bytes_at_def)

definition canonical :: "u8 list \<Rightarrow> bool" where
  "canonical p \<longleftrightarrow> int (length p) = spec_length (p ! 0) \<and>
     (p ! 0 = ch CHR ''C'' \<longrightarrow> p ! 31 = ch CHR ''Y'' \<or> p ! 31 = ch CHR ''N'') \<and>
     (p ! 0 = ch CHR ''H'' \<longrightarrow> p ! 20 = ch CHR '' '')"

lemmas copy_fields = encode_fields enc16_be16 enc32_be32 enc48_be48 enc64_be64 one_byte

text \<open>A message whose bytes hold what its encoder can write is encoded as itself.\<close>

lemma first_byte: "p ! 0 = t \<Longrightarrow> 1 \<le> length p \<Longrightarrow> 1 \<le> length q \<Longrightarrow> take 1 (memcpy 0 [t] q) = take 1 p"
  using relay [of 0 q p 1 1] by (simp add: bytes_at_def)

lemmas copy_simps = emit_simps option.case fst_conv copy_fields

lemma relays:
  assumes "kMaxMessage \<le> length stk"
  shows
    "p ! 0 = ch CHR ''S'' \<Longrightarrow> 12 \<le> length p \<Longrightarrow>
     take 12 (fst (emit_system_event stk (stock_locate p) (be16 p 3) (ts_of p) (system_event_code p))) = take 12 p"
    "p ! 0 = ch CHR ''A'' \<Longrightarrow> 36 \<le> length p \<Longrightarrow>
     take 36 (fst (emit_add_order stk (stock_locate p) (be16 p 3) (ts_of p) (add_order_ref p) (add_order_side p) (add_order_shares p)
      (Some (add_order_stock p)) (add_order_price p))) = take 36 p"
    "p ! 0 = ch CHR ''F'' \<Longrightarrow> 40 \<le> length p \<Longrightarrow>
     take 40 (fst (emit_add_order_mpid stk (stock_locate p) (be16 p 3) (ts_of p) (add_order_mpid_ref p) (add_order_mpid_side p)
      (add_order_mpid_shares p) (Some (add_order_mpid_stock p)) (add_order_mpid_price p) (Some (add_order_mpid_attribution p)))) = take 40 p"
    "p ! 0 = ch CHR ''E'' \<Longrightarrow> 31 \<le> length p \<Longrightarrow>
     take 31 (fst (emit_order_executed stk (stock_locate p) (be16 p 3) (ts_of p) (order_executed_ref p) (order_executed_shares p)
      (order_executed_match p))) = take 31 p"
    "p ! 0 = ch CHR ''X'' \<Longrightarrow> 23 \<le> length p \<Longrightarrow>
     take 23 (fst (emit_order_cancel stk (stock_locate p) (be16 p 3) (ts_of p) (order_cancel_ref p) (order_cancel_shares p))) = take 23 p"
    "p ! 0 = ch CHR ''D'' \<Longrightarrow> 19 \<le> length p \<Longrightarrow>
     take 19 (fst (emit_order_delete stk (stock_locate p) (be16 p 3) (ts_of p) (order_delete_ref p))) = take 19 p"
    "p ! 0 = ch CHR ''U'' \<Longrightarrow> 35 \<le> length p \<Longrightarrow>
     take 35 (fst (emit_order_replace stk (stock_locate p) (be16 p 3) (ts_of p) (order_replace_original_ref p) (order_replace_new_ref p)
      (order_replace_shares p) (order_replace_price p))) = take 35 p"
    "p ! 0 = ch CHR ''P'' \<Longrightarrow> 44 \<le> length p \<Longrightarrow>
     take 44 (fst (emit_trade stk (stock_locate p) (be16 p 3) (ts_of p) (trade_ref p) (trade_side p) (trade_shares p) (Some (trade_stock p))
      (trade_price p) (trade_match p))) = take 44 p"
    "p ! 0 = ch CHR ''Q'' \<Longrightarrow> 40 \<le> length p \<Longrightarrow>
     take 40 (fst (emit_cross_trade stk (stock_locate p) (be16 p 3) (ts_of p) (cross_trade_shares p) (Some (cross_trade_stock p))
      (cross_trade_price p) (cross_trade_match p) (cross_trade_type p))) = take 40 p"
    "p ! 0 = ch CHR ''h'' \<Longrightarrow> 21 \<le> length p \<Longrightarrow>
     take 21 (fst (emit_operational_halt stk (stock_locate p) (be16 p 3) (ts_of p) (Some (operational_halt_stock p)) (operational_halt_market p)
      (operational_halt_action p))) = take 21 p"
    "p ! 0 = ch CHR ''W'' \<Longrightarrow> 12 \<le> length p \<Longrightarrow>
     take 12 (fst (emit_mwcb_status stk (stock_locate p) (be16 p 3) (ts_of p) (mwcb_status_level p))) = take 12 p"
    "p ! 0 = ch CHR ''B'' \<Longrightarrow> 19 \<le> length p \<Longrightarrow>
     take 19 (fst (emit_broken_trade stk (stock_locate p) (be16 p 3) (ts_of p) (broken_trade_match p))) = take 19 p"
  using assms unfolding copy_simps kMaxMessage_def
  by (intro relay first_byte; simp)+

text \<open>Three encoders write what they cannot read back: the printable flag, the reserved byte and, with a copy, the
  rest of a directory entry.\<close>

lemma relays_C:
  assumes "kMaxMessage \<le> length stk" "p ! 0 = ch CHR ''C''" "36 \<le> length p" "p ! 31 = ch CHR ''Y'' \<or> p ! 31 = ch CHR ''N''"
  shows "take 36 (fst (emit_order_executed_price stk (stock_locate p) (be16 p 3) (ts_of p) (order_executed_price_ref p)
      (order_executed_price_shares p) (order_executed_price_match p) (order_executed_price_printable p)
      (order_executed_price_price p))) = take 36 p"
proof -
  have b: "(if p ! 31 = ch CHR ''Y'' then ch CHR ''Y'' else ch CHR ''N'') = p ! 31" using assms(4) by auto
  show ?thesis
    using assms(1-3) unfolding copy_simps kMaxMessage_def b by (intro relay first_byte; simp)
qed

lemma relays_H:
  assumes "kMaxMessage \<le> length stk" "p ! 0 = ch CHR ''H''" "25 \<le> length p" "p ! 20 = ch CHR '' ''"
  shows "take 25 (fst (emit_trading_action stk (stock_locate p) (be16 p 3) (ts_of p) (Some (trading_action_stock p))
      (trading_action_state p) (Some (trading_action_reason p)))) = take 25 p"
proof -
  have b: "ch CHR '' '' = p ! 20" using assms(4) by simp
  show ?thesis
    using assms(1-3) unfolding copy_simps kMaxMessage_def b by (intro relay first_byte; simp)
qed

lemma relays_R:
  assumes "kMaxMessage \<le> length stk" "p ! 0 = ch CHR ''R''" "39 \<le> length p"
  shows "take 39 (memcpy 25 (bytes_at p 25 14) (fst (emit_stock_directory stk (stock_locate p) (be16 p 3) (ts_of p)
      (Some (stock_directory_stock p)) (stock_directory_category p) (stock_directory_status p) (stock_directory_round_lot p)))) =
    take 39 p"
  using assms unfolding copy_simps kMaxMessage_def by (intro relay first_byte; simp)

definition published :: "u8 \<Rightarrow> bool" where
  "published t \<longleftrightarrow> t \<in> set (map ch ''SRAFCXDUPQHhWB'')"

lemma emit_sizes:
  "snd (emit_system_event stk loc trk ts code) = 12"
  "snd (emit_stock_directory stk loc trk ts stock cat fin lot) = 39"
  "snd (emit_add_order stk loc trk ts ref c shares stock price) = 36"
  "snd (emit_add_order_mpid stk loc trk ts ref c shares stock price mpid) = 40"
  "snd (emit_order_executed stk loc trk ts ref shares mn) = 31"
  "snd (emit_order_executed_price stk loc trk ts ref shares mn printable price) = 36"
  "snd (emit_order_cancel stk loc trk ts ref shares) = 23"
  "snd (emit_order_delete stk loc trk ts ref) = 19"
  "snd (emit_order_replace stk loc trk ts orig ref shares price) = 35"
  "snd (emit_trade stk loc trk ts ref c shares stock price mn) = 44"
  "snd (emit_cross_trade stk loc trk ts qty stock price mn ct) = 40"
  "snd (emit_trading_action stk loc trk ts stock state reason) = 25"
  "snd (emit_operational_halt stk loc trk ts stock market action) = 21"
  "snd (emit_mwcb_status stk loc trk ts lvl) = 12"
  "snd (emit_broken_trade stk loc trk ts mn) = 19"
  by (simp_all add: emit_defs Let_def)

lemma encoded_none: "encode_state stk t p = None \<longleftrightarrow> \<not> published t"
  by (auto simp: encode_state_def Let_def published_def split: prod.splits)

lemma encode_copies:
  assumes "canonical p" "kMaxMessage \<le> length stk" "encode_state stk (p ! 0) p = Some msg"
  shows "take (snd msg) (fst msg) = p"
proof -
  note c = assms(1) [unfolded canonical_def spec_length_def]
  note e = assms(3) [unfolded encode_state_def Let_def]
  note r = relays [OF assms(2)] relays_C [OF assms(2)] relays_H [OF assms(2)] relays_R [OF assms(2)]
  have split_dir: "(case d of (q, n) \<Rightarrow> Some (f q, n)) = Some msg \<longleftrightarrow> msg = (f (fst d), snd d)"
    for d :: "u8 list \<times> nat" and f by (auto split: prod.splits)
  show ?thesis
    using c e by (auto split: if_split_asm simp: split_dir r emit_sizes)
qed

end
