(* ===== verification/Gateway.thy ===== *)
theory Gateway
  imports Engine Kill SessionRun Ouch Split
begin

text \<open>
  Order entry (include/itchbook/engine/gateway.hpp): OUCH messages of one session are decoded, checked
  against the limits, and submitted to an engine that shares the book of the replayer; the answers go back
  down the session and the market data they cause to a sink.

  The objects the class holds a pointer to are fields of its state: the session, the engine with its book,
  the source of references and the kill switch. Others may change the first three between two calls; the
  steps of \<open>GatewayOk\<close> do. The tokens and the references are maps, the live set is a set, and the order in
  which a hash set is gone through is an argument of the flatten, which its properties leave open. A buffer
  on the stack, whatever it holds, is zeros here; the encoders write every byte of their message. An
  assertion that would stop the program clears \<open>gw_asserted\<close>. A submission that does not return is \<open>None\<close>.
\<close>

section \<open>Codes, tokens and references\<close>

definition kHaltedReason :: u8 where "kHaltedReason = ch CHR ''H''"
definition kRiskFatFinger :: u8 where "kRiskFatFinger = ch CHR ''e''"
definition kOtherReason :: u8 where "kOtherReason = ch CHR ''O''"
definition kInvalidStock :: u8 where "kInvalidStock = ch CHR ''S''"
definition kRiskAggregate :: u8 where "kRiskAggregate = ch CHR ''v''"
definition kInvalidPrice :: u8 where "kInvalidPrice = ch CHR ''X''"
definition kSafetyThreshold :: u8 where "kSafetyThreshold = ch CHR ''Z''"
definition kUserRequested :: u8 where "kUserRequested = ch CHR ''U''"
definition kSystemCancel :: u8 where "kSystemCancel = ch CHR ''Z''"

type_synonym token = "u8 list"

text \<open>The pointer an accessor returns is the bytes of its field.\<close>

definition make_token :: "u8 list \<Rightarrow> token" where
  "make_token wire = bytes_at wire 0 14"

text \<open>The hash is what an unordered map needs of a token; no result depends on it.\<close>

definition token_hash :: "token \<Rightarrow> u64" where
  "token_hash t = foldl (\<lambda>h c. (h XOR ucast c) * 1099511628211) 1469598103934665603 t"

definition ref_next :: "u64 \<Rightarrow> u64 \<times> u64" where
  "ref_next counter = (let counter = counter + 1 in (kStrategyRefBit OR counter, counter))"

text \<open>For evaluation: the place of a reference in the table, on integers, as the references here are large.\<close>

lemma home_code [code]: "home msk r = nat (uint r AND int msk)"
  unfolding home_def by (simp add: and_nat_def)

section \<open>State\<close>

record gateway_config =
  gc_stock :: "u8 list"
  gc_collar_ticks :: int
  gc_max_position :: int
  gc_max_shares :: u32

definition gateway_config_default :: gateway_config where
  "gateway_config_default = \<lparr> gc_stock = replicate 8 (ch CHR '' ''), gc_collar_ticks = 0, gc_max_position = 0,
     gc_max_shares = 999999 \<rparr>"

record gateway =
  gw_cfg :: gateway_config
  gw_session :: server_session
  gw_matcher :: matcher
  gw_refs :: u64
  gw_kill :: kill_switch
  gw_tokens :: "token \<Rightarrow> u64 option"
  gw_refs_to_token :: "u64 \<Rightarrow> token option"
  gw_live :: "u64 set"
  gw_position :: int
  gw_cancels_sent :: u64
  gw_rejects_sent :: u64
  gw_accepts_sent :: u64
  gw_executes_sent :: u64
  gw_itch_sent :: u64
  gw_fills_cursor :: nat
  gw_itch :: "u8 list list option"
  gw_wall_ns :: u64
  gw_replay_ns :: u64
  gw_have_clock :: bool
  gw_flattened :: bool
  gw_in_flatten :: bool
  gw_death_cause :: soup_state
  gw_asserted :: bool

definition gateway_new :: "gateway_config \<Rightarrow> server_session \<Rightarrow> matcher \<Rightarrow> u64 \<Rightarrow> kill_switch \<Rightarrow> gateway" where
  "gateway_new cfg sess m refs kill =
     \<lparr> gw_cfg = cfg, gw_session = sess, gw_matcher = m, gw_refs = refs, gw_kill = kill, gw_tokens = Map.empty,
       gw_refs_to_token = Map.empty, gw_live = {}, gw_position = 0, gw_cancels_sent = 0, gw_rejects_sent = 0,
       gw_accepts_sent = 0, gw_executes_sent = 0, gw_itch_sent = 0, gw_fills_cursor = 0, gw_itch = None,
       gw_wall_ns = 0, gw_replay_ns = 0, gw_have_clock = False, gw_flattened = False, gw_in_flatten = False,
       gw_death_cause = AwaitingLogin, gw_asserted = True \<rparr>"

definition set_itch_sink :: "u8 list list option \<Rightarrow> gateway \<Rightarrow> gateway" where
  "set_itch_sink s g = g\<lparr> gw_itch := s \<rparr>"

definition set_replay_now :: "u64 \<Rightarrow> gateway \<Rightarrow> gateway" where
  "set_replay_now ns g = g\<lparr> gw_asserted := gw_asserted g \<and> ns < 2 ^ 48, gw_replay_ns := ns \<rparr>"

definition set_wall :: "u64 \<Rightarrow> gateway \<Rightarrow> gateway" where
  "set_wall now g = g\<lparr> gw_wall_ns := now, gw_have_clock := True \<rparr>"

definition gw_live_orders :: "gateway \<Rightarrow> nat" where "gw_live_orders g = card (gw_live g)"

definition adopt_for_test :: "u64 \<Rightarrow> gateway \<Rightarrow> gateway" where
  "adopt_for_test ref g = g\<lparr> gw_live := insert ref (gw_live g) \<rparr>"

section \<open>Helpers\<close>

definition cfg_stock_wire :: "gateway \<Rightarrow> u8 list" where "cfg_stock_wire g = gc_stock (gw_cfg g)"

definition id_token :: "u64 \<Rightarrow> gateway \<Rightarrow> token" where
  "id_token i g = (case gw_refs_to_token g i of None \<Rightarrow> replicate 14 0 | Some t \<Rightarrow> t)"

definition firm_key :: "u8 list \<Rightarrow> u64" where
  "firm_key firm = foldl (\<lambda>k i. push_bit 8 k OR ucast (firm ! i)) 0 [0..<4]"

definition kTick :: int where "kTick = 100"

definition blank_firm :: "u8 list" where "blank_firm = replicate 4 (ch CHR '' '')"

section \<open>Sending\<close>

definition gw_emit :: "u8 list \<Rightarrow> gateway \<Rightarrow> gateway" where
  "gw_emit msg g =
     (if ss_state (gw_session g) \<noteq> LoggedIn then g
      else g\<lparr> gw_session := server_send_sequenced msg (gw_wall_ns g) (gw_session g) \<rparr>)"

definition publish :: "u8 list \<times> nat \<Rightarrow> gateway \<Rightarrow> gateway" where
  "publish msg g =
     (case gw_itch g of
        None \<Rightarrow> g
      | Some sent \<Rightarrow> g\<lparr> gw_itch := Some (sent @ [take (snd msg) (fst msg)]), gw_itch_sent := gw_itch_sent g + 1 \<rparr>)"

definition gw_locate :: "gateway \<Rightarrow> u16" where
  "gw_locate g = bk_locate (snd (mt_book (gw_matcher g)))"

definition emit_itch_add :: "u64 \<Rightarrow> u8 \<Rightarrow> u32 \<Rightarrow> int \<Rightarrow> gateway \<Rightarrow> gateway" where
  "emit_itch_add ref side shares price g =
     (if gw_itch g = None \<or> shares = 0 then g
      else publish (emit_add_order (replicate kMaxMessage 0) (gw_locate g) 0 (gw_replay_ns g) ref side shares
        (Some (cfg_stock_wire g)) price) g)"

definition emit_itch_executed :: "u64 \<Rightarrow> u32 \<Rightarrow> u64 \<Rightarrow> gateway \<Rightarrow> gateway" where
  "emit_itch_executed maker_ref shares mno g =
     (if gw_itch g = None then g
      else publish (emit_order_executed (replicate kMaxMessage 0) (gw_locate g) 0 (gw_replay_ns g) maker_ref shares mno) g)"

definition emit_itch_delete :: "u64 \<Rightarrow> gateway \<Rightarrow> gateway" where
  "emit_itch_delete ref g =
     (if gw_itch g = None then g
      else publish (emit_order_delete (replicate kMaxMessage 0) (gw_locate g) 0 (gw_replay_ns g) ref) g)"

definition send_executed :: "token \<Rightarrow> u32 \<Rightarrow> int \<Rightarrow> u64 \<Rightarrow> gateway \<Rightarrow> gateway" where
  "send_executed tok shares price mno g =
     (let (f, n) = ouch_executed (replicate kExecutedLen 0) (gw_replay_ns g) (Some tok) shares price (ch CHR ''R'') mno;
          g = gw_emit f g
      in g\<lparr> gw_executes_sent := gw_executes_sent g + 1 \<rparr>)"

definition send_accepted :: "token \<Rightarrow> u8 \<Rightarrow> u32 \<Rightarrow> u8 list \<Rightarrow> int \<Rightarrow> u64 \<Rightarrow> u8 \<Rightarrow> gateway \<Rightarrow> gateway" where
  "send_accepted tok side shares stock price ref order_state g =
     (let (f, n) = ouch_accepted (replicate kAcceptedLen 0) (gw_replay_ns g) (Some tok) side shares (Some stock) price 0
            (Some blank_firm) (ch CHR ''Y'') ref (ch CHR ''A'') (ch CHR ''N'') 0 (ch CHR '' '') order_state (ch CHR '' '');
          g = gw_emit f g
      in g\<lparr> gw_accepts_sent := gw_accepts_sent g + 1 \<rparr>)"

definition send_replaced :: "token \<Rightarrow> token \<Rightarrow> u8 \<Rightarrow> u32 \<Rightarrow> int \<Rightarrow> u64 \<Rightarrow> u8 \<Rightarrow> gateway \<Rightarrow> gateway" where
  "send_replaced fresh previous side shares price ref order_state g =
     (let (f, n) = ouch_replaced (replicate kReplacedLen 0) (gw_replay_ns g) (Some fresh) side shares
            (Some (cfg_stock_wire g)) price 0 (Some blank_firm) (ch CHR ''Y'') ref (ch CHR ''A'') (ch CHR ''N'') 0
            (ch CHR '' '') order_state (Some previous) (ch CHR '' '')
      in gw_emit f g)"

definition send_canceled :: "token \<Rightarrow> u32 \<Rightarrow> u8 \<Rightarrow> gateway \<Rightarrow> gateway" where
  "send_canceled tok decrement reason g =
     (let (f, n) = ouch_canceled (replicate kCanceledLen 0) (gw_replay_ns g) (Some tok) decrement reason;
          g = gw_emit f g
      in g\<lparr> gw_cancels_sent := gw_cancels_sent g + 1 \<rparr>)"

definition send_reject :: "token \<Rightarrow> u8 \<Rightarrow> gateway \<Rightarrow> gateway" where
  "send_reject tok reason g =
     (let (f, n) = ouch_rejected (replicate kRejectedLen 0) (gw_replay_ns g) (Some tok) reason;
          g = gw_emit f g
      in g\<lparr> gw_rejects_sent := gw_rejects_sent g + 1 \<rparr>)"

section \<open>Fills, from either direction\<close>

definition delta_for :: "u64 \<Rightarrow> u32 \<Rightarrow> gateway \<Rightarrow> int" where
  "delta_for ref shares g =
     (case om_get ref (mt_orders (gw_matcher g)) of
        None \<Rightarrow> 0
      | Some m \<Rightarrow> if rq_side (m_req m) = Buy then int (unat shares) else - int (unat shares))"

definition drop_if_dead :: "u64 \<Rightarrow> gateway \<Rightarrow> gateway" where
  "drop_if_dead ref g =
     (case om_get ref (mt_orders (gw_matcher g)) of
        None \<Rightarrow> g
      | Some m \<Rightarrow> if is_terminal (m_state m) then g\<lparr> gw_live := gw_live g - {ref} \<rparr> else g)"

definition note_print :: "fill \<Rightarrow> gateway \<Rightarrow> gateway" where
  "note_print f g =
     g\<lparr> gw_matcher := (gw_matcher g)\<lparr> mt_book := (fst (mt_book (gw_matcher g)),
          note_feed_trade (fl_price f) (fl_shares f) (snd (mt_book (gw_matcher g)))) \<rparr> \<rparr>"

text \<open>The body of the loop of \<open>pump_fills\<close>, and one round of it.\<close>

definition pump_fill :: "fill \<Rightarrow> gateway \<Rightarrow> gateway" where
  "pump_fill f g =
     (let taker_ours = gw_refs_to_token g (fl_taker f) \<noteq> None;
          maker_ours = gw_refs_to_token g (fl_maker f) \<noteq> None in
      if \<not> taker_ours \<and> \<not> maker_ours then g
      else
        let g = (if taker_ours then note_print f (emit_itch_executed (fl_maker f) (fl_shares f) (fl_match_number f) g) else g);
            g = (if taker_ours then send_executed (id_token (fl_taker f) g) (fl_shares f) (fl_price f) (fl_match_number f) g else g);
            g = (if maker_ours then send_executed (id_token (fl_maker f) g) (fl_shares f) (fl_price f) (fl_match_number f) g else g);
            g = (if taker_ours then g\<lparr> gw_position := gw_position g + delta_for (fl_taker f) (fl_shares f) g \<rparr> else g);
            g = (if maker_ours then g\<lparr> gw_position := gw_position g + delta_for (fl_maker f) (fl_shares f) g \<rparr> else g);
            g = (if maker_ours then drop_if_dead (fl_maker f) g else g)
        in (if taker_ours then drop_if_dead (fl_taker f) g else g))"

definition pump_round :: "fill \<Rightarrow> gateway \<Rightarrow> gateway" where
  "pump_round f g = (let g = pump_fill f g in g\<lparr> gw_fills_cursor := gw_fills_cursor g + 1 \<rparr>)"

definition pump_fills :: "u64 \<Rightarrow> gateway \<Rightarrow> gateway" where
  "pump_fills now g =
     (let g = set_wall now g;
          fills = mt_fills (gw_matcher g)
      in fold pump_round (drop (gw_fills_cursor g) fills) g)"

section \<open>Validation\<close>

definition collar_breached :: "u8 \<Rightarrow> int \<Rightarrow> gateway \<Rightarrow> bool" where
  "collar_breached side price g =
     (if gc_collar_ticks (gw_cfg g) \<le> 0 then False
      else
        let b = snd (mt_book (gw_matcher g));
            buy = (side = ch CHR ''B'');
            band = gc_collar_ticks (gw_cfg g) * kTick
        in case (if buy then best_ask b else best_bid b) of
             None \<Rightarrow> False
           | Some opp \<Rightarrow> if buy then price > opp + band else price < opp - band)"

definition position_breached :: "u8 \<Rightarrow> u32 \<Rightarrow> gateway \<Rightarrow> bool" where
  "position_breached side shares g =
     (if gc_max_position (gw_cfg g) \<le> 0 then False
      else
        let delta = (if side = ch CHR ''B'' then int (unat shares) else - int (unat shares));
            after = gw_position g + delta
        in after > gc_max_position (gw_cfg g) \<or> after < - gc_max_position (gw_cfg g))"

text \<open>Zero when the order is acceptable, the reason otherwise.\<close>

definition validate_new :: "u8 \<Rightarrow> u32 \<Rightarrow> u8 list \<Rightarrow> int \<Rightarrow> bool \<Rightarrow> gateway \<Rightarrow> u8" where
  "validate_new side shares stock price is_market g =
     (if bytes_at stock 0 8 \<noteq> bytes_at (cfg_stock_wire g) 0 8 then kInvalidStock
      else if side \<noteq> ch CHR ''B'' \<and> side \<noteq> ch CHR ''S'' \<and> side \<noteq> ch CHR ''T'' \<and> side \<noteq> ch CHR ''E'' then kOtherReason
      else if shares = 0 \<or> shares > gc_max_shares (gw_cfg g) then kSafetyThreshold
      else if \<not> is_market \<and> (price \<le> 0 \<or> price > kMaxPrice) then kInvalidPrice
      else if \<not> is_market \<and> collar_breached side price g then kRiskFatFinger
      else if position_breached side shares g then kRiskAggregate
      else 0)"

section \<open>Enter Order\<close>

definition new_request :: "u64 \<Rightarrow> u64 \<Rightarrow> eside \<Rightarrow> bool \<Rightarrow> int \<Rightarrow> u32 \<Rightarrow> request" where
  "new_request i owner side is_market price shares =
     request_new\<lparr> rq_id := i, rq_owner := owner, rq_side := side, rq_type := (if is_market then Market else Limit),
       rq_price := (if is_market then 0 else price), rq_quantity := shares \<rparr>"

text \<open>What follows an accepted submission, of an entry and of a replacement alike: the order is registered,
  and after the answer the fills are handed on, what rests is published and a dead order dropped.\<close>

definition emplace :: "'k \<Rightarrow> 'v \<Rightarrow> ('k \<Rightarrow> 'v option) \<Rightarrow> 'k \<Rightarrow> 'v option" where
  "emplace k v m = (if m k = None then m(k \<mapsto> v) else m)"

definition register_order :: "token \<Rightarrow> u64 \<Rightarrow> result \<Rightarrow> gateway \<Rightarrow> gateway" where
  "register_order tok i res g =
     g\<lparr> gw_tokens := emplace tok i (gw_tokens g), gw_refs_to_token := emplace i tok (gw_refs_to_token g),
        gw_live := (if \<not> is_terminal (rs_state res) then insert i (gw_live g) else gw_live g) \<rparr>"

definition after_answer :: "u64 \<Rightarrow> u8 \<Rightarrow> int \<Rightarrow> result \<Rightarrow> gateway \<Rightarrow> gateway" where
  "after_answer i side price res g =
     (let g = pump_fills (gw_wall_ns g) g;
          g = (case om_get i (mt_orders (gw_matcher g)) of
                 None \<Rightarrow> g
               | Some m \<Rightarrow> if m_in_book m then emit_itch_add i side (m_resting m) price g else g)
      in if is_terminal (rs_state res) then g\<lparr> gw_live := gw_live g - {i} \<rparr> else g)"

definition order_state :: "result \<Rightarrow> u8" where
  "order_state res = (if is_terminal (rs_state res) then ch CHR ''D'' else ch CHR ''L'')"

definition shown_shares :: "result \<Rightarrow> u32 \<Rightarrow> u32" where
  "shown_shares res shares = (if rs_resting res > 0 then rs_resting res else shares)"

definition submit_new :: "token \<Rightarrow> u8 \<Rightarrow> u32 \<Rightarrow> int \<Rightarrow> bool \<Rightarrow> u8 list \<Rightarrow> u8 list \<Rightarrow> gateway \<Rightarrow> gateway option" where
  "submit_new tok side shares price is_market stock p g =
     (let (i, counter) = ref_next (gw_refs g);
          g = g\<lparr> gw_refs := counter \<rparr>;
          r = new_request i (firm_key (ouch_enter_order_firm p)) (if side = ch CHR ''B'' then Buy else Sell)
            is_market price shares
      in do {
        (res, m) \<leftarrow> submit r (gw_matcher g);
        let g = g\<lparr> gw_matcher := m \<rparr>;
        if \<not> rs_accepted res then Some (send_reject tok kOtherReason g)
        else
          let g = register_order tok i res g;
              g = send_accepted tok side (shown_shares res shares) stock price i (order_state res) g
          in Some (after_answer i side (rq_price r) res g)
      })"

definition on_enter :: "u8 list \<Rightarrow> gateway \<Rightarrow> gateway option" where
  "on_enter p g =
     (let tok = make_token (ouch_enter_order_order_token p) in
      if gw_tokens g tok \<noteq> None then Some (send_reject tok kOtherReason g)
      else if \<not> Kill.live (gw_kill g) then Some (send_reject tok kHaltedReason g)
      else
        let price = ouch_enter_order_price p;
            is_market = (price \<ge> kMarketOrderThreshold);
            side = ouch_enter_order_side p;
            shares = ouch_enter_order_shares p;
            why = validate_new side shares (ouch_enter_order_stock p) price is_market g
        in if why \<noteq> 0 then Some (send_reject tok why g)
           else submit_new tok side shares price is_market (ouch_enter_order_stock p) p g)"

section \<open>Replace Order\<close>

text \<open>The part from the cancel of the original on; \<open>m\<close> is its record before.\<close>

definition replace_original ::
    "token \<Rightarrow> token \<Rightarrow> u64 \<Rightarrow> meta \<Rightarrow> u8 \<Rightarrow> u32 \<Rightarrow> int \<Rightarrow> bool \<Rightarrow> gateway \<Rightarrow> gateway option" where
  "replace_original existing fresh old_id m side shares price is_market g =
     (let gone = m_resting m + m_hidden m;
          (went, mt) = cancel old_id (gw_matcher g);
          g = g\<lparr> gw_matcher := mt \<rparr> in
      if \<not> went then Some (send_reject fresh kOtherReason g)
      else
        let g = g\<lparr> gw_live := gw_live g - {old_id} \<rparr>;
            g = send_canceled existing gone kUserRequested g;
            g = (if m_in_book m then emit_itch_delete old_id g else g);
            (i, counter) = ref_next (gw_refs g);
            g = g\<lparr> gw_refs := counter \<rparr>;
            r = new_request i (rq_owner (m_req m)) (rq_side (m_req m)) is_market price shares
        in do {
          (res, mt) \<leftarrow> submit r (gw_matcher g);
          let g = g\<lparr> gw_matcher := mt \<rparr>;
          if \<not> rs_accepted res then Some (send_reject fresh kOtherReason g)
          else
            let g = register_order fresh i res g;
                g = send_replaced fresh existing side (shown_shares res shares) price i (order_state res) g
            in Some (after_answer i side (rq_price r) res g)
        })"

definition restored_position :: "meta \<Rightarrow> int \<Rightarrow> int" where
  "restored_position m position =
     position + (if rq_side (m_req m) = Buy then - int (unat (m_resting m + m_hidden m))
                 else int (unat (m_resting m + m_hidden m)))"

definition on_replace :: "u8 list \<Rightarrow> gateway \<Rightarrow> gateway option" where
  "on_replace p g =
     (let existing = make_token (ouch_replace_order_existing_order_token p);
          fresh = make_token (ouch_replace_order_replacement_order_token p) in
      case gw_tokens g existing of
        None \<Rightarrow> Some (send_reject fresh kOtherReason g)
      | Some old_id \<Rightarrow>
          if old_id \<notin> gw_live g then Some (send_reject fresh kOtherReason g)
          else if gw_tokens g fresh \<noteq> None then Some (send_reject fresh kOtherReason g)
          else if \<not> Kill.live (gw_kill g) then Some (send_reject fresh kHaltedReason g)
          else case om_get old_id (mt_orders (gw_matcher g)) of
            None \<Rightarrow> Some (send_reject fresh kOtherReason g)
          | Some m \<Rightarrow>
              (let price = ouch_replace_order_price p;
                   is_market = (price \<ge> kMarketOrderThreshold);
                   shares = ouch_replace_order_shares p;
                   side = (if rq_side (m_req m) = Buy then ch CHR ''B'' else ch CHR ''S'');
                   why = validate_new side shares (cfg_stock_wire g) price is_market
                     (g\<lparr> gw_position := restored_position m (gw_position g) \<rparr>)
               in if why \<noteq> 0 then Some (send_reject fresh why g)
                  else replace_original existing fresh old_id m side shares price is_market g))"

section \<open>Cancel Order\<close>

definition on_cancel :: "u8 list \<Rightarrow> gateway \<Rightarrow> gateway" where
  "on_cancel p g =
     (let tok = make_token (ouch_cancel_order_order_token p) in
      case gw_tokens g tok of
        None \<Rightarrow> g
      | Some i \<Rightarrow>
          (case om_get i (mt_orders (gw_matcher g)) of
             None \<Rightarrow> g
           | Some m \<Rightarrow>
               (let gone = m_resting m + m_hidden m;
                    (went, mt) = cancel i (gw_matcher g);
                    g = g\<lparr> gw_matcher := mt \<rparr> in
                if \<not> went then g
                else
                  let g = g\<lparr> gw_live := gw_live g - {i} \<rparr>;
                      g = send_canceled tok gone kUserRequested g
                  in if m_in_book m then emit_itch_delete i g else g)))"

section \<open>The inbound path\<close>

definition on_ouch :: "u8 list \<Rightarrow> u64 \<Rightarrow> gateway \<Rightarrow> (bool \<times> gateway) option" where
  "on_ouch p now g =
     (let g = set_wall now g in
      if length p < 1 then Some (False, g)
      else if p ! 0 = ch CHR ''O'' then
        (if length p \<noteq> kEnterOrderLen then Some (False, g) else map_option (Pair True) (on_enter p g))
      else if p ! 0 = ch CHR ''U'' then
        (if length p \<noteq> kReplaceOrderLen then Some (False, g) else map_option (Pair True) (on_replace p g))
      else if p ! 0 = ch CHR ''X'' then
        (if length p \<noteq> kCancelOrderLen then Some (False, g) else Some (True, on_cancel p g))
      else Some (False, g))"

section \<open>The session's end\<close>

text \<open>One order of the flatten, with the number cancelled so far.\<close>

definition flatten_one :: "u64 \<Rightarrow> nat \<times> gateway \<Rightarrow> nat \<times> gateway" where
  "flatten_one i ng =
     (let (n, g) = ng in
      case om_get i (mt_orders (gw_matcher g)) of
        None \<Rightarrow> (n, g)
      | Some m \<Rightarrow>
          if is_terminal (m_state m) then (n, g\<lparr> gw_live := gw_live g - {i} \<rparr>)
          else
            let gone = m_resting m + m_hidden m;
                (went, mt) = cancel i (gw_matcher g);
                g = g\<lparr> gw_matcher := mt \<rparr>
            in if \<not> went then (n, g)
               else
                 let g = g\<lparr> gw_live := gw_live g - {i} \<rparr>;
                     g = (if m_in_book m then emit_itch_delete i g else g)
                 in (n + 1, send_canceled (id_token i g) gone kSystemCancel g))"

definition flatten :: "u64 list \<Rightarrow> gateway \<Rightarrow> nat \<times> gateway" where
  "flatten ids g =
     (let g = g\<lparr> gw_asserted := gw_asserted g \<and> gw_have_clock g \<rparr> in
      if gw_in_flatten g then (0, g)
      else
        let (n, g) = fold flatten_one ids (0, g\<lparr> gw_in_flatten := True \<rparr>)
        in (n, g\<lparr> gw_in_flatten := False \<rparr>))"

definition gw_poll :: "u64 list \<Rightarrow> u64 \<Rightarrow> gateway \<Rightarrow> bool \<times> gateway" where
  "gw_poll ids now g =
     (let g = set_wall now g in
      if gw_flattened g then (False, g)
      else if \<not> session_over (ss_state (gw_session g)) then (False, g)
      else (True, snd (flatten ids (g\<lparr> gw_death_cause := ss_state (gw_session g), gw_flattened := True \<rparr>))))"

definition decide_login :: "bool \<Rightarrow> u8 list option \<Rightarrow> u8 list option \<Rightarrow> u64 \<Rightarrow> gateway \<Rightarrow> gateway" where
  "decide_login accept session_id number now g =
     (let g = set_wall now g in
      if ss_state (gw_session g) \<noteq> LoginReceived then g
      else if accept then g\<lparr> gw_session := server_accept_login session_id number now (gw_session g) \<rparr>
      else g\<lparr> gw_session := server_reject_login (ch CHR ''A'') (gw_session g) \<rparr>)"

end
