(* ===== verification/GatewayOk.thy ===== *)
theory GatewayOk
  imports Gateway
begin

text \<open>
  What the gateway sends, and when. Sending touches the session, the sink and the counters only: \<open>core\<close> is
  what it leaves alone. With a tripped kill switch the engine is reached by cancels only, and the flatten of
  a dead session leaves none of the session's orders able to trade.
\<close>

section \<open>What sending leaves alone\<close>

definition core :: "gateway \<Rightarrow> gateway" where
  "core g = g\<lparr> gw_session := server_new server_config_default 0 False, gw_itch := None, gw_itch_sent := 0,
     gw_cancels_sent := 0, gw_rejects_sent := 0, gw_accepts_sent := 0, gw_executes_sent := 0 \<rparr>"

lemma coreD:
  assumes "core g' = core g"
  shows "gw_cfg g' = gw_cfg g" "gw_matcher g' = gw_matcher g" "gw_refs g' = gw_refs g" "gw_kill g' = gw_kill g"
    "gw_tokens g' = gw_tokens g" "gw_refs_to_token g' = gw_refs_to_token g" "gw_live g' = gw_live g"
    "gw_position g' = gw_position g" "gw_fills_cursor g' = gw_fills_cursor g" "gw_wall_ns g' = gw_wall_ns g"
    "gw_replay_ns g' = gw_replay_ns g" "gw_have_clock g' = gw_have_clock g" "gw_flattened g' = gw_flattened g"
    "gw_in_flatten g' = gw_in_flatten g" "gw_death_cause g' = gw_death_cause g" "gw_asserted g' = gw_asserted g"
  using assms by (cases g; cases g'; simp add: core_def)+

lemma sending:
  "core (gw_emit m g) = core g" "core (publish msg g) = core g"
  "core (emit_itch_add r c n p g) = core g" "core (emit_itch_executed r n k g) = core g"
  "core (emit_itch_delete r g) = core g" "core (send_executed t n p k g) = core g"
  "core (send_accepted t c n stk p r st g) = core g" "core (send_replaced t u c n p r st g) = core g"
  "core (send_canceled t n c g) = core g" "core (send_reject t c g) = core g"
proof -
  show e: "core (gw_emit m g) = core g" for m g by (simp add: gw_emit_def core_def)
  show p: "core (publish msg g) = core g" for msg g by (simp add: publish_def core_def split: option.split)
  show "core (emit_itch_add r c n p g) = core g" "core (emit_itch_executed r n k g) = core g"
    "core (emit_itch_delete r g) = core g"
    by (simp_all add: emit_itch_add_def emit_itch_executed_def emit_itch_delete_def p)
  have "core (g\<lparr> gw_cancels_sent := k \<rparr>) = core g" "core (g\<lparr> gw_rejects_sent := k \<rparr>) = core g"
    "core (g\<lparr> gw_accepts_sent := k \<rparr>) = core g" "core (g\<lparr> gw_executes_sent := k \<rparr>) = core g" for k g
    by (simp_all add: core_def)
  then show "core (send_executed t n p k g) = core g" "core (send_accepted t c n stk p r st g) = core g"
    "core (send_replaced t u c n p r st g) = core g" "core (send_canceled t n c g) = core g"
    "core (send_reject t c g) = core g"
    by (simp_all add: send_executed_def send_accepted_def send_replaced_def send_canceled_def send_reject_def e
        Let_def case_prod_beta)
qed

lemmas sent_core [simp] =
  sending [THEN coreD(1)] sending [THEN coreD(2)] sending [THEN coreD(3)] sending [THEN coreD(4)]
  sending [THEN coreD(5)] sending [THEN coreD(6)] sending [THEN coreD(7)] sending [THEN coreD(8)]
  sending [THEN coreD(9)] sending [THEN coreD(10)] sending [THEN coreD(11)] sending [THEN coreD(12)]
  sending [THEN coreD(13)] sending [THEN coreD(14)] sending [THEN coreD(15)] sending [THEN coreD(16)]

lemma counters [simp]:
  "gw_rejects_sent (gw_emit m g) = gw_rejects_sent g" "gw_accepts_sent (gw_emit m g) = gw_accepts_sent g"
  "gw_rejects_sent (publish msg g) = gw_rejects_sent g" "gw_accepts_sent (publish msg g) = gw_accepts_sent g"
  "gw_rejects_sent (emit_itch_add r c n p g) = gw_rejects_sent g" "gw_accepts_sent (emit_itch_add r c n p g) = gw_accepts_sent g"
  "gw_rejects_sent (emit_itch_executed r n k g) = gw_rejects_sent g"
  "gw_accepts_sent (emit_itch_executed r n k g) = gw_accepts_sent g"
  "gw_rejects_sent (emit_itch_delete r g) = gw_rejects_sent g" "gw_accepts_sent (emit_itch_delete r g) = gw_accepts_sent g"
  "gw_rejects_sent (send_executed t n p k g) = gw_rejects_sent g" "gw_accepts_sent (send_executed t n p k g) = gw_accepts_sent g"
  "gw_rejects_sent (send_canceled t n c g) = gw_rejects_sent g" "gw_accepts_sent (send_canceled t n c g) = gw_accepts_sent g"
  "gw_rejects_sent (send_reject t c g) = gw_rejects_sent g + 1" "gw_accepts_sent (send_reject t c g) = gw_accepts_sent g"
  "gw_rejects_sent (send_accepted t c n stk p r st g) = gw_rejects_sent g"
  "gw_accepts_sent (send_accepted t c n stk p r st g) = gw_accepts_sent g + 1"
  "gw_rejects_sent (send_replaced t u c n p r st g) = gw_rejects_sent g"
  "gw_accepts_sent (send_replaced t u c n p r st g) = gw_accepts_sent g"
proof -
  show e: "gw_rejects_sent (gw_emit m g) = gw_rejects_sent g" "gw_accepts_sent (gw_emit m g) = gw_accepts_sent g" for m g
    by (simp_all add: gw_emit_def)
  show p: "gw_rejects_sent (publish msg g) = gw_rejects_sent g" "gw_accepts_sent (publish msg g) = gw_accepts_sent g" for msg g
    by (simp_all add: publish_def split: option.split)
qed (simp_all add: gw_emit_def publish_def emit_itch_add_def emit_itch_executed_def emit_itch_delete_def send_executed_def
    send_canceled_def send_reject_def send_accepted_def send_replaced_def Let_def case_prod_beta split: option.split)

lemma wall_fields [simp]:
  "gw_cfg (set_wall t g) = gw_cfg g" "gw_matcher (set_wall t g) = gw_matcher g" "gw_refs (set_wall t g) = gw_refs g"
  "gw_kill (set_wall t g) = gw_kill g" "gw_tokens (set_wall t g) = gw_tokens g"
  "gw_refs_to_token (set_wall t g) = gw_refs_to_token g" "gw_live (set_wall t g) = gw_live g"
  "gw_position (set_wall t g) = gw_position g" "gw_fills_cursor (set_wall t g) = gw_fills_cursor g"
  "gw_wall_ns (set_wall t g) = t" "gw_replay_ns (set_wall t g) = gw_replay_ns g" "gw_have_clock (set_wall t g)"
  "gw_flattened (set_wall t g) = gw_flattened g" "gw_in_flatten (set_wall t g) = gw_in_flatten g"
  "gw_asserted (set_wall t g) = gw_asserted g" "gw_session (set_wall t g) = gw_session g"
  "gw_itch (set_wall t g) = gw_itch g" "gw_rejects_sent (set_wall t g) = gw_rejects_sent g"
  "gw_accepts_sent (set_wall t g) = gw_accepts_sent g" "gw_death_cause (set_wall t g) = gw_death_cause g"
  by (simp_all add: set_wall_def)

section \<open>The kill switch\<close>

lemma cancel_result:
  "cancel i s = (went, s') \<Longrightarrow> went \<longleftrightarrow> (\<exists>m. om_get i (mt_orders s) = Some m \<and> \<not> is_terminal (m_state m))"
  "cancel i s = (went, s') \<Longrightarrow> s' = (if went then cancel_meta i s else s)"
  by (auto simp: cancel_def split: option.splits if_splits)

lemma on_cancel_effect:
  "(case gw_tokens g (make_token (ouch_cancel_order_order_token p)) of
      Some i \<Rightarrow> gw_matcher (on_cancel p g) = snd (cancel i (gw_matcher g)) \<and>
        gw_live (on_cancel p g) = (if fst (cancel i (gw_matcher g)) then gw_live g - {i} else gw_live g)
    | None \<Rightarrow> on_cancel p g = g) \<and>
   gw_refs (on_cancel p g) = gw_refs g \<and> gw_tokens (on_cancel p g) = gw_tokens g \<and>
   gw_refs_to_token (on_cancel p g) = gw_refs_to_token g \<and> gw_position (on_cancel p g) = gw_position g \<and>
   gw_kill (on_cancel p g) = gw_kill g \<and> gw_fills_cursor (on_cancel p g) = gw_fills_cursor g"
proof (cases "gw_tokens g (make_token (ouch_cancel_order_order_token p))")
  case None
  then show ?thesis by (simp add: on_cancel_def)
next
  case (Some i)
  obtain went mt where c: "cancel i (gw_matcher g) = (went, mt)" by fastforce
  show ?thesis
  proof (cases "om_get i (mt_orders (gw_matcher g))")
    case None
    then have "cancel i (gw_matcher g) = (False, gw_matcher g)" by (simp add: cancel_def)
    then show ?thesis using Some None by (simp add: on_cancel_def)
  next
    case (Some m)
    then show ?thesis using \<open>gw_tokens g _ = Some i\<close> c cancel_result(2) [OF c]
      by (simp add: on_cancel_def Let_def)
  qed
qed

lemma tripped_enter: "\<not> Kill.live (gw_kill g) \<Longrightarrow> \<exists>c. on_enter p g = Some (send_reject (make_token (ouch_enter_order_order_token p)) c g)"
  by (auto simp: on_enter_def Let_def)

lemma tripped_replace:
  "\<not> Kill.live (gw_kill g) \<Longrightarrow>
   \<exists>c. on_replace p g = Some (send_reject (make_token (ouch_replace_order_replacement_order_token p)) c g)"
  by (auto simp: on_replace_def Let_def split: option.split)

text \<open>A message the switch lets through, then, can only be a cancel.\<close>

lemma tripped_message:
  assumes "\<not> Kill.live (gw_kill g)" "on_ouch p now g = Some (ok, g')"
  shows "if ok \<and> p ! 0 = ch CHR ''X'' then g' = on_cancel p (set_wall now g)
    else core g' = core (set_wall now g)"
proof -
  have k: "\<not> Kill.live (gw_kill (set_wall now g))" using assms(1) by simp
  show ?thesis
    using assms(2) tripped_enter [OF k, of p] tripped_replace [OF k, of p]
    by (auto simp: on_ouch_def Let_def sending split: if_splits)
qed

section \<open>The flatten\<close>

lemma cancel_meta_fields:
  assumes "om_wf (mt_orders s)" "om_get i (mt_orders s) = Some m"
  shows "om_wf (mt_orders (cancel_meta i s))"
    "om_get j (mt_orders (cancel_meta i s)) =
       (if j = i then Some (m\<lparr> m_in_book := False, m_resting := 0, m_hidden := 0,
          m_cancelled := m_cancelled m + (m_resting m + m_hidden m), m_state := Cancelled \<rparr>)
        else om_get j (mt_orders s))"
  by (simp_all add: cancel_known [OF assms] om_get_set assms(1))

lemma flatten_one_effect:
  assumes "flatten_one i (n, g) = (n', g')" "om_wf (mt_orders (gw_matcher g))"
  shows "gw_matcher g' = snd (cancel i (gw_matcher g))"
    "n' = n + (if fst (cancel i (gw_matcher g)) then 1 else 0)"
    "gw_live g' = (if om_get i (mt_orders (gw_matcher g)) = None then gw_live g else gw_live g - {i})"
    "gw_flattened g' = gw_flattened g" "gw_in_flatten g' = gw_in_flatten g" "gw_asserted g' = gw_asserted g"
    "gw_kill g' = gw_kill g" "gw_death_cause g' = gw_death_cause g"
proof -
  obtain went mt where c: "cancel i (gw_matcher g) = (went, mt)" by fastforce
  note R = cancel_result [OF c]
  have "gw_matcher g' = snd (cancel i (gw_matcher g)) \<and> n' = n + (if fst (cancel i (gw_matcher g)) then 1 else 0) \<and>
    gw_live g' = (if om_get i (mt_orders (gw_matcher g)) = None then gw_live g else gw_live g - {i}) \<and>
    gw_flattened g' = gw_flattened g \<and> gw_in_flatten g' = gw_in_flatten g \<and> gw_asserted g' = gw_asserted g \<and>
    gw_kill g' = gw_kill g \<and> gw_death_cause g' = gw_death_cause g"
    using assms(1) R c
    by (auto simp: flatten_one_def Let_def split: option.splits if_splits)
  then show "gw_matcher g' = snd (cancel i (gw_matcher g))"
    "n' = n + (if fst (cancel i (gw_matcher g)) then 1 else 0)"
    "gw_live g' = (if om_get i (mt_orders (gw_matcher g)) = None then gw_live g else gw_live g - {i})"
    "gw_flattened g' = gw_flattened g" "gw_in_flatten g' = gw_in_flatten g" "gw_asserted g' = gw_asserted g"
    "gw_kill g' = gw_kill g" "gw_death_cause g' = gw_death_cause g"
    by blast+
qed

text \<open>One cancel, as the others see it.\<close>

lemma cancel_effect:
  assumes ok: "engine_ok {} no_flight s" and c: "cancel i s = (went, s')"
  shows "engine_ok {} no_flight s'"
    "om_get j (mt_orders s') = (if j = i \<and> went then map_option (\<lambda>m. m\<lparr> m_in_book := False, m_resting := 0, m_hidden := 0,
          m_cancelled := m_cancelled m + (m_resting m + m_hidden m), m_state := Cancelled \<rparr>) (om_get i (mt_orders s))
        else om_get j (mt_orders s))"
    "j \<noteq> i \<Longrightarrow> rests (mt_book s') j d p n \<longleftrightarrow> rests (mt_book s) j d p n"
    "bound (mt_book s') j \<Longrightarrow> bound (mt_book s) j"
    "set (mt_pending_stops s') \<subseteq> set (mt_pending_stops s)" "mt_fills s' = mt_fills s"
    "bk_locate (snd (mt_book s')) = bk_locate (snd (mt_book s))"
proof -
  note D = engine_okD [OF ok]
  have "engine_ok {} no_flight s' \<and>
    om_get j (mt_orders s') = (if j = i \<and> went then map_option (\<lambda>m. m\<lparr> m_in_book := False, m_resting := 0, m_hidden := 0,
          m_cancelled := m_cancelled m + (m_resting m + m_hidden m), m_state := Cancelled \<rparr>) (om_get i (mt_orders s))
        else om_get j (mt_orders s)) \<and>
    (j \<noteq> i \<longrightarrow> (rests (mt_book s') j d p n \<longleftrightarrow> rests (mt_book s) j d p n)) \<and>
    (bound (mt_book s') j \<longrightarrow> bound (mt_book s) j) \<and>
    set (mt_pending_stops s') \<subseteq> set (mt_pending_stops s) \<and> mt_fills s' = mt_fills s \<and>
    bk_locate (snd (mt_book s')) = bk_locate (snd (mt_book s))"
  proof (cases went)
    case False
    then show ?thesis using ok cancel_result(2) [OF c] by simp
  next
    case True
    then obtain m where m: "om_get i (mt_orders s) = Some m" and "s' = cancel_meta i s"
      using cancel_result [OF c] by auto
    moreover have "engine_ok {} no_flight s'" using cancel_ok(1) [OF ok, of i] c by simp
    moreover have "rq_id (m_req m) = i" using D(6) [OF m] by (simp add: meta_ok_def)
    moreover have "bk_locate (snd (bk_remove i (mt_book s))) = bk_locate (snd (mt_book s))"
      using remove_refines [of "fst (mt_book s)" "snd (mt_book s)" i] D(1) by (simp add: refines_def)
    moreover have "bound (bk_remove i (mt_book s)) j \<longrightarrow> bound (mt_book s) j"
      using bk.remove_bound [OF D(1)] by blast
    ultimately show ?thesis
      using True cancel_meta_fields(2) [OF D(2) m] bk.remove_rests [OF D(1)]
      by (auto simp: cancel_known [OF D(2) m] dest: set_remove1_subset [THEN subsetD])
  qed
  then show "engine_ok {} no_flight s'"
    "om_get j (mt_orders s') = (if j = i \<and> went then map_option (\<lambda>m. m\<lparr> m_in_book := False, m_resting := 0, m_hidden := 0,
          m_cancelled := m_cancelled m + (m_resting m + m_hidden m), m_state := Cancelled \<rparr>) (om_get i (mt_orders s))
        else om_get j (mt_orders s))"
    "j \<noteq> i \<Longrightarrow> rests (mt_book s') j d p n \<longleftrightarrow> rests (mt_book s) j d p n"
    "bound (mt_book s') j \<Longrightarrow> bound (mt_book s) j"
    "set (mt_pending_stops s') \<subseteq> set (mt_pending_stops s)" "mt_fills s' = mt_fills s"
    "bk_locate (snd (mt_book s')) = bk_locate (snd (mt_book s))"
    by blast+
qed

text \<open>What the flatten leaves of an engine: the listed orders dead, everything else as it was.\<close>

definition disarmed :: "u64 set \<Rightarrow> matcher \<Rightarrow> matcher \<Rightarrow> bool" where
  "disarmed I s s' \<longleftrightarrow> engine_ok {} no_flight s' \<and> mt_fills s' = mt_fills s \<and>
     set (mt_pending_stops s') \<subseteq> set (mt_pending_stops s) \<and>
     (\<forall>i \<in> I. \<forall>m. om_get i (mt_orders s) = Some m \<longrightarrow>
        (\<exists>m'. om_get i (mt_orders s') = Some m' \<and> is_terminal (m_state m') \<and> m_req m' = m_req m \<and>
          m_filled m' = m_filled m)) \<and>
     (\<forall>i. i \<notin> I \<or> om_get i (mt_orders s) = None \<longrightarrow> om_get i (mt_orders s') = om_get i (mt_orders s) \<and>
        (\<forall>d p n. rests (mt_book s') i d p n \<longleftrightarrow> rests (mt_book s) i d p n))"

lemma flatten_effect:
  "fold flatten_one ids (n, g) = (n', g') \<Longrightarrow> engine_ok {} no_flight (gw_matcher g) \<Longrightarrow> distinct ids \<Longrightarrow>
   disarmed (set ids) (gw_matcher g) (gw_matcher g') \<and>
   n' = n + length (filter (\<lambda>i. fst (cancel i (gw_matcher g))) ids) \<and>
   gw_live g' = gw_live g - {i \<in> set ids. om_get i (mt_orders (gw_matcher g)) \<noteq> None} \<and>
   gw_flattened g' = gw_flattened g \<and> gw_asserted g' = gw_asserted g \<and> gw_kill g' = gw_kill g \<and>
   gw_death_cause g' = gw_death_cause g"
proof (induction ids arbitrary: n g)
  case Nil
  then show ?case by (simp add: disarmed_def)
next
  case (Cons i ids)
  let ?s = "gw_matcher g"
  obtain n1 g1 where s: "flatten_one i (n, g) = (n1, g1)" by fastforce
  obtain went mt where c: "cancel i ?s = (went, mt)" by fastforce
  note E = flatten_one_effect [OF s engine_okD(2) [OF Cons.prems(2)]] and C = cancel_effect [OF Cons.prems(2) c]
  have g1: "gw_matcher g1 = mt" using E(1) c by simp
  have "fold flatten_one ids (n1, g1) = (n', g')" using Cons.prems(1) s by simp
  note I = Cons.IH [OF this, unfolded g1, OF C(1)]
  have others: "fst (cancel j mt) = fst (cancel j ?s)" if "j \<noteq> i" for j
    using C(2) [of j] that by (auto simp: cancel_def split: option.splits)
  have "filter (\<lambda>j. fst (cancel j mt)) ids = filter (\<lambda>j. fst (cancel j ?s)) ids"
  proof (rule filter_cong [OF refl])
    fix j assume "j \<in> set ids"
    then have "j \<noteq> i" using Cons.prems(3) by auto
    then show "fst (cancel j mt) = fst (cancel j ?s)" by (rule others)
  qed
  then have num: "n' = n + length (filter (\<lambda>i. fst (cancel i ?s)) (i # ids))"
    using I Cons.prems(3) E(2) by simp
  have known: "om_get j (mt_orders mt) = None \<longleftrightarrow> om_get j (mt_orders ?s) = None" for j
    using C(2) [of j] by auto
  have J: "disarmed (set ids) mt (gw_matcher g')" using I Cons.prems(3) by simp
  have i: "om_get i (mt_orders (gw_matcher g')) = om_get i (mt_orders mt)"
    "rests (mt_book (gw_matcher g')) i d p k = rests (mt_book mt) i d p k" for d p k
    using J Cons.prems(3) by (simp_all add: disarmed_def)
  have dead: "is_terminal (m_state m)" if "\<not> went" "om_get i (mt_orders ?s) = Some m" for m
    using cancel_result(1) [OF c] that by auto
  have "disarmed (set (i # ids)) ?s (gw_matcher g')"
    unfolding disarmed_def
  proof (intro conjI ballI allI impI)
    show "engine_ok {} no_flight (gw_matcher g')" using J by (simp add: disarmed_def)
    show "mt_fills (gw_matcher g') = mt_fills ?s" using J C(6) by (simp add: disarmed_def)
    show "set (mt_pending_stops (gw_matcher g')) \<subseteq> set (mt_pending_stops ?s)"
      using J C(5) unfolding disarmed_def by blast
  next
    fix j m assume j: "j \<in> set (i # ids)" "om_get j (mt_orders ?s) = Some m"
    show "\<exists>m'. om_get j (mt_orders (gw_matcher g')) = Some m' \<and> is_terminal (m_state m') \<and> m_req m' = m_req m \<and>
        m_filled m' = m_filled m"
    proof (cases "j = i")
      case True
      then show ?thesis using j C(2) [of i] i(1) dead by (cases went) auto
    next
      case False
      then have "j \<in> set ids" "om_get j (mt_orders mt) = Some m" using j C(2) [of j] by auto
      then show ?thesis using J unfolding disarmed_def by blast
    qed
  next
    fix j assume j: "j \<notin> set (i # ids) \<or> om_get j (mt_orders ?s) = None"
    then have "j \<notin> set ids \<or> om_get j (mt_orders mt) = None" using known by auto
    then have 1: "om_get j (mt_orders (gw_matcher g')) = om_get j (mt_orders mt)"
      "rests (mt_book (gw_matcher g')) j d p k = rests (mt_book mt) j d p k" for d p k
      using J by (auto simp: disarmed_def)
    show "om_get j (mt_orders (gw_matcher g')) = om_get j (mt_orders ?s)"
      using 1(1) C(2) [of j] j by auto
    have same: "rests (mt_book mt) j d p k = rests (mt_book ?s) j d p k" for d p k
    proof (cases "j = i")
      case True
      then have "om_get i (mt_orders ?s) = None" using j by simp
      then have "mt = ?s" using c by (simp add: cancel_def)
      then show ?thesis by simp
    qed (rule C(3))
    fix d p k
    show "rests (mt_book (gw_matcher g')) j d p k = rests (mt_book ?s) j d p k" by (simp add: 1(2) same)
  qed
  moreover have "gw_live g' = gw_live g - {j \<in> set (i # ids). om_get j (mt_orders ?s) \<noteq> None}"
    using I Cons.prems(3) E(3) known by auto
  ultimately show ?case using num I Cons.prems(3) E(4-) by simp
qed

end
