(* ===== verification/EngineLog.thy ===== *)
theory EngineLog
  imports Engine
begin

text \<open>
  What an operation of the engine leaves of its records and of its log of fills. Records are never erased
  and keep their request, a dead order stays dead, no reference the engine does not know gets into the book,
  and the log only grows, by fills between orders it knows and orders that rest: \<open>grows\<close>. A run of the loop
  is followed by \<open>match_rule\<close>, an invariant of its rounds.
\<close>

section \<open>The relation\<close>

definition known :: "matcher \<Rightarrow> u64 \<Rightarrow> bool" where
  "known s i \<longleftrightarrow> om_get i (mt_orders s) \<noteq> None"

definition fill_known :: "matcher \<Rightarrow> fill \<Rightarrow> bool" where
  "fill_known s f \<longleftrightarrow> (fl_taker f = 0 \<or> known s (fl_taker f)) \<and> (known s (fl_maker f) \<or> bound (mt_book s) (fl_maker f))"

definition grows :: "matcher \<Rightarrow> matcher \<Rightarrow> bool" where
  "grows s s' \<longleftrightarrow>
     (\<forall>i. known s' i = known s i) \<and>
     (\<forall>i m. om_get i (mt_orders s) = Some m \<longrightarrow> (\<exists>m'. om_get i (mt_orders s') = Some m' \<and> m_req m' = m_req m \<and>
        (is_terminal (m_state m) \<longrightarrow> m_state m' = m_state m))) \<and>
     (\<forall>i. bound (mt_book s') i \<longrightarrow> bound (mt_book s) i \<or> known s i) \<and>
     (\<exists>new. mt_fills s' = mt_fills s @ new \<and> (\<forall>f \<in> set new. fill_known s f)) \<and>
     bk_locate (snd (mt_book s')) = bk_locate (snd (mt_book s))"

lemma grows_refl [simp]: "grows s s"
  by (simp add: grows_def)

lemma grows_trans:
  assumes "grows a b" "grows b c"
  shows "grows a c"
  unfolding grows_def
proof (intro conjI allI impI)
  show k: "known c i = known a i" for i using assms by (simp add: grows_def)
  show "bound (mt_book c) i \<Longrightarrow> bound (mt_book a) i \<or> known a i" for i using assms unfolding grows_def by metis
  show "bk_locate (snd (mt_book c)) = bk_locate (snd (mt_book a))" using assms by (simp add: grows_def)
  show "\<exists>m'. om_get i (mt_orders c) = Some m' \<and> m_req m' = m_req m \<and> (is_terminal (m_state m) \<longrightarrow> m_state m' = m_state m)"
    if "om_get i (mt_orders a) = Some m" for i m
    using assms that unfolding grows_def by metis
  have "fill_known a f" if "fill_known b f" for f using that assms(1) unfolding fill_known_def grows_def by metis
  then show "\<exists>new. mt_fills c = mt_fills a @ new \<and> (\<forall>f \<in> set new. fill_known a f)"
    using assms unfolding grows_def by (metis (no_types, lifting) append.assoc Un_iff set_append)
qed

lemma growsD:
  assumes "grows s s'"
  shows "known s' i = known s i" "bound (mt_book s') i \<Longrightarrow> bound (mt_book s) i \<or> known s i"
    "bk_locate (snd (mt_book s')) = bk_locate (snd (mt_book s))"
  using assms unfolding grows_def by blast+

lemma grows_meta:
  assumes "grows s s'" "om_get i (mt_orders s) = Some m"
  obtains m' where "om_get i (mt_orders s') = Some m'" "m_req m' = m_req m" "is_terminal (m_state m) \<Longrightarrow> m_state m' = m_state m"
  using assms unfolding grows_def by blast

lemma grows_fills:
  assumes "grows s s'"
  obtains new where "mt_fills s' = mt_fills s @ new" "\<forall>f \<in> set new. fill_known s f"
  using assms unfolding grows_def by blast

text \<open>One record changes.\<close>

lemma grows_put:
  assumes "om_wf (mt_orders s)" "om_get i (mt_orders s) = Some m" "mt_orders s' = om_set i m' (mt_orders s)"
    and "m_req m' = m_req m" "is_terminal (m_state m) \<Longrightarrow> m_state m' = m_state m"
    and "\<And>j. bound (mt_book s') j \<Longrightarrow> bound (mt_book s) j \<or> known s j"
    and "bk_locate (snd (mt_book s')) = bk_locate (snd (mt_book s))"
    and "mt_fills s' = mt_fills s @ new" "\<forall>f \<in> set new. fill_known s f"
  shows "grows s s'"
  using assms by (auto simp: grows_def known_def om_get_set)

lemma grows_same:
  "mt_orders s' = mt_orders s \<Longrightarrow> mt_book s' = mt_book s \<Longrightarrow> mt_fills s' = mt_fills s \<Longrightarrow> grows s s'"
  by (simp add: grows_def known_def)

section \<open>The book\<close>

lemma book_laws:
  assumes g: "good sb"
  shows "bk_locate (snd (bk_take r k sb)) = bk_locate (snd sb)" "bk_locate (snd (bk_remove r sb)) = bk_locate (snd sb)"
    "bound (bk_take r k sb) j \<Longrightarrow> bound sb j" "bound (bk_remove r sb) j \<Longrightarrow> bound sb j"
    "book_view (bk_take r k sb) = (\<lambda>d p. a_reduce r k (book_view sb d p))"
    "book_view (bk_remove r sb) = (\<lambda>d p. a_remove r (book_view sb d p))"
proof -
  obtain st b where sb: "sb = (st, b)" by (meson surj_pair)
  have g': "good (st, b)" using g sb by simp
  show "bk_locate (snd (bk_take r k sb)) = bk_locate (snd sb)" "bk_locate (snd (bk_remove r sb)) = bk_locate (snd sb)"
    "book_view (bk_take r k sb) = (\<lambda>d p. a_reduce r k (book_view sb d p))"
    "book_view (bk_remove r sb) = (\<lambda>d p. a_remove r (book_view sb d p))"
    using take_refines [OF g', of r k] remove_refines [OF g', of r] by (simp_all add: refines_def sb)
  show "bound (bk_take r k sb) j \<Longrightarrow> bound sb j" "bound (bk_remove r sb) j \<Longrightarrow> bound sb j"
    using bk.take_bound [OF g] bk.remove_bound [OF g] by blast+
qed

lemma add_book_laws:
  assumes g: "good sb" and u: "\<not> bound sb r" and p: "is_i32 p" "0 < p" and room: "bk_resting_orders (snd sb) + 1 < 2 ^ 32"
  shows "bk_locate (snd (bk_add r (side_char d) p n sb)) = bk_locate (snd sb)"
    "bound (bk_add r (side_char d) p n sb) j \<Longrightarrow> bound sb j \<or> j = r"
    "book_view (bk_add r (side_char d) p n sb) = a_add d p r n (book_view sb)"
proof -
  obtain st b where sb: "sb = (st, b)" by (meson surj_pair)
  have "refines (st, b) (bk_add r (side_char d) p n (st, b)) (a_add (side_char d = side_B) p r n (book_view (st, b)))"
    by (rule add_refines) (use assms in \<open>simp_all add: sb bound_def\<close>)
  then show "bk_locate (snd (bk_add r (side_char d) p n sb)) = bk_locate (snd sb)"
    "book_view (bk_add r (side_char d) p n sb) = a_add d p r n (book_view sb)"
    by (simp_all add: refines_def sb)
  show "bound (bk_add r (side_char d) p n sb) j \<Longrightarrow> bound sb j \<or> j = r"
    using bk.add_bound [OF g u p room] by blast
qed

section \<open>The rounds of the loop\<close>

lemma transition_fills [simp]:
  "mt_fills (transition i d s) = mt_fills s" "mt_book (transition i d s) = mt_book s"
  by (simp_all add: transition_def)

lemma settle_fills [simp]: "mt_fills (settle_maker i s) = mt_fills s"
  by (simp add: settle_maker_def refresh_iceberg_def book_add_def Let_def)

lemma own_trade_fills: "mt_fills (own_trade tid r mk q f s) = mt_fills s @ [f]"
  by (simp add: own_trade_def Let_def note_trade_def)

text \<open>What a round does, case by case.\<close>

lemma match_step_cases:
  assumes ok: "engine_ok {} fl s" and tk: "runs s tid tk"
  obtains (leave) killed where "match_step tid t (rem, s) = Inl (rem, killed, s)"
      "killed \<Longrightarrow> rq_stp (m_req tk) \<noteq> StpNone"
    | (kill) r mk d p n where "match_step tid t (rem, s) = Inl (rem, True, cancel_meta r s)"
      "om_get r (mt_orders s) = Some mk" "rests (mt_book s) r d p n" "rq_stp (m_req tk) \<noteq> StpNone"
    | (skip) r mk d p n where "match_step tid t (rem, s) = Inr (rem, cancel_meta r s)"
      "om_get r (mt_orders s) = Some mk" "rests (mt_book s) r d p n" "rq_stp (m_req tk) \<noteq> StpNone"
    | (own) r mk f d p n where "match_step tid t (rem, s) = Inr (rem - min rem n, own_trade tid r mk (min rem n) f s)"
      "om_get r (mt_orders s) = Some mk" "rests (mt_book s) r d p n" "rem \<noteq> 0"
      "fl_taker f = rq_id (m_req tk)" "fl_maker f = r" "fl_shares f = min rem n" "fl_price f = p"
    | (other) r f d p n s' where "match_step tid t (rem, s) = Inr (rem - min rem n, s')"
      "om_get r (mt_orders s) = None" "rests (mt_book s) r d p n" "rem \<noteq> 0"
      "fl_taker f = rq_id (m_req tk)" "fl_maker f = r" "fl_shares f = min rem n" "fl_price f = p"
      "mt_orders s' = om_set tid (tk\<lparr> m_filled := m_filled tk + min rem n \<rparr>) (mt_orders s)"
      "mt_book s' = bk_take r (min rem n) (mt_book s)" "mt_fills s' = mt_fills s @ [f]"
      "mt_pending_stops s' = mt_pending_stops s"
proof -
  note D = engine_okD [OF ok] and T = tk [unfolded runs_def]
  have t: "om_get tid (mt_orders s) = Some tk" using T by blast
  have mt: "meta_of s tid = tk" by (rule meta_of_known [OF t])
  let ?d = "rq_side (m_req tk) \<noteq> Buy"
  obtain st b where sb: "mt_book s = (st, b)" by (meson surj_pair)
  have g: "good (st, b)" using D(1) sb by simp
  show thesis
  proof (cases "rem = 0 \<or> best_order (side_char ?d) b = None")
    case True
    then show thesis by (intro leave [of False]) (auto simp: match_step_def mt Let_def sb)
  next
    case False
    then obtain x where x: "best_order (side_char ?d) b = Some x" and rem: "rem \<noteq> 0" by auto
    let ?r = "o_ref (st_heap st x)" and ?p = "o_price (st_heap st x)" and ?n = "o_shares (st_heap st x)"
    have r: "rests (mt_book s) ?r ?d ?p ?n" unfolding sb using front_rests(2) [OF g x] by blast
    show thesis
    proof (cases "crosses (m_req tk) t ?p")
      case False
      then show thesis using x rem by (intro leave [of False]) (simp_all add: match_step_def mt Let_def sb)
    next
      case cr: True
      show thesis
      proof (cases "om_get ?r (mt_orders s)")
        case None
        define s' where "s' = snd (projr (match_step tid t (rem, s)))"
        have e: "match_step tid t (rem, s) = Inr (rem - min rem ?n, s')"
          using rem x cr None by (simp add: s'_def match_step_def mt Let_def sb if_min)
        show thesis
          by (rule other [OF e None r rem, of "last (mt_fills s')"])
            (use rem x cr None in \<open>simp_all add: s'_def match_step_def mt Let_def sb if_min note_trade_def meta_of_def t\<close>)
      next
        case mk: (Some mk)
        let ?same = "rq_owner (m_req mk) = rq_owner (m_req tk)"
        consider "rq_stp (m_req tk) = CancelNewest \<and> ?same"
          | "rq_stp (m_req tk) = CancelOldest \<and> ?same" | "rq_stp (m_req tk) = CancelBoth \<and> ?same"
          | "\<not> (rq_stp (m_req tk) = CancelNewest \<and> ?same)" "\<not> (rq_stp (m_req tk) = CancelOldest \<and> ?same)"
            "\<not> (rq_stp (m_req tk) = CancelBoth \<and> ?same)" by blast
        then show thesis
        proof cases
          case 1
          then show thesis using rem x cr mk by (intro leave [of True]) (simp_all add: match_step_def mt Let_def sb)
        next
          case 2
          then show thesis using rem x cr mk by (intro skip [OF _ mk r]) (simp_all add: match_step_def mt Let_def sb)
        next
          case 3
          then show thesis using rem x cr mk by (intro kill [OF _ mk r]) (simp_all add: match_step_def mt Let_def sb)
        next
          case 4
          let ?f = "\<lparr> fl_taker = rq_id (m_req tk), fl_maker = ?r, fl_taker_owner = rq_owner (m_req tk),
              fl_maker_owner = rq_owner (m_req mk), fl_price = ?p, fl_shares = min rem ?n,
              fl_maker_sequence = m_sequence mk, fl_match_number = mt_match_no s, fl_external = False \<rparr>"
          have "\<not> ?same \<or> rq_stp (m_req tk) = StpNone" using 4 by (cases "rq_stp (m_req tk)") auto
          then have "match_step tid t (rem, s) = Inr (rem - min rem ?n, own_trade tid ?r mk (min rem ?n) ?f s)"
            using rem x cr mk by (elim disjE) (simp_all add: match_step_def own_trade_def mt Let_def sb if_min)
          from own [OF this mk r rem] show thesis by simp
        qed
      qed
    qed
  qed
qed

text \<open>An invariant of the rounds is one of the loop.\<close>

lemma match_rule:
  assumes m: "match tid t (rem, s) = Some (rem', killed, s')"
    and st: "engine_ok {} fl s" "runs s tid tk" "fl tid = unat rem" "\<And>j. j \<noteq> tid \<Longrightarrow> fl j = 0" "m_req tk = req" "P rem s"
    and leave: "\<And>fl s tk rem rem' killed s'. engine_ok {} fl s \<Longrightarrow> runs s tid tk \<Longrightarrow> fl tid = unat rem \<Longrightarrow>
      (\<And>j. j \<noteq> tid \<Longrightarrow> fl j = 0) \<Longrightarrow> m_req tk = req \<Longrightarrow> P rem s \<Longrightarrow> match_step tid t (rem, s) = Inl (rem', killed, s') \<Longrightarrow>
      Q rem' killed s'"
    and again: "\<And>fl s tk rem rem' s'. engine_ok {} fl s \<Longrightarrow> runs s tid tk \<Longrightarrow> fl tid = unat rem \<Longrightarrow>
      (\<And>j. j \<noteq> tid \<Longrightarrow> fl j = 0) \<Longrightarrow> m_req tk = req \<Longrightarrow> P rem s \<Longrightarrow> match_step tid t (rem, s) = Inr (rem', s') \<Longrightarrow>
      P rem' s'"
  shows "Q rem' killed s'"
  using m st
proof (induction "nat (effort rem s)" arbitrary: rem s fl tk rule: less_induct)
  case less
  note S = match_step_ok [OF less.prems(2,3,4,5), of t]
  show ?case
  proof (cases "match_step tid t (rem, s)")
    case (Inl res)
    then have "match_step tid t (rem, s) = Inl (rem', killed, s')"
      using less.prems(1) by (subst (asm) match.simps) simp
    from leave [OF less.prems(2-4) _ less.prems(6,7) this] less.prems(5) show ?thesis by blast
  next
    case (Inr rs)
    obtain rem1 s1 where rs: "rs = (rem1, s1)" by (cases rs)
    from S obtain tk1 where 1: "engine_ok {} (fl(tid := unat rem1)) s1" "runs s1 tid tk1" "m_req tk1 = m_req tk"
      "effort rem1 s1 < effort rem s"
      by (auto simp: Inr rs)
    have "0 \<le> effort rem1 s1" using hsum_nonneg [of "mt_orders s1"] by (simp add: effort_def)
    then have e: "nat (effort rem1 s1) < nat (effort rem s)" using 1(4) by linarith
    have m1: "match tid t (rem1, s1) = Some (rem', killed, s')"
      using less.prems(1) by (subst (asm) match.simps) (simp add: Inr rs)
    have "match_step tid t (rem, s) = Inr (rem1, s1)" by (simp add: Inr rs)
    from again [OF less.prems(2-4) _ less.prems(6,7) this] less.prems(5) have "P rem1 s1" by blast
    then show ?thesis
      using less.hyps [OF e m1 1(1,2)] less.prems(5,6) 1(3) by simp
  qed
qed

section \<open>Every operation grows\<close>

lemma settle_grows:
  assumes ok: "engine_ok {i} fl s" and m: "om_get i (mt_orders s) = Some m" and u: "unsettled (mt_book s) i m"
    and room: "m_resting m = 0 \<Longrightarrow> bk_resting_orders (snd (mt_book s)) + 1 < 2 ^ 32"
  shows "grows s (settle_maker i s)"
proof -
  note D = engine_okD [OF ok]
  note U = u [unfolded unsettled_def]
  have nt: "\<not> is_terminal (m_state m)" using U by auto
  note [simp] = om_get_set [OF D(2)]
  consider "m_resting m \<noteq> 0" | "m_resting m = 0" "m_hidden m = 0" | "m_resting m = 0" "m_hidden m \<noteq> 0" by blast
  then show ?thesis
  proof cases
    case 1
    then have "settle_maker i s = transition i PartiallyFilled s" by (simp add: settle_known [OF D(2) m])
    then show ?thesis
      by (intro grows_put [OF D(2) m, where new = "[]" and m' = "m\<lparr> m_state := PartiallyFilled \<rparr>"])
        (use nt in \<open>simp_all add: transition_known [OF m]\<close>)
  next
    case 2
    then have "settle_maker i s = transition i Filled (s\<lparr> mt_orders := om_set i (m\<lparr> m_in_book := False \<rparr>) (mt_orders s) \<rparr>)"
      by (simp add: settle_known [OF D(2) m])
    then show ?thesis
      by (intro grows_put [OF D(2) m, where new = "[]" and m' = "m\<lparr> m_in_book := False, m_state := Filled \<rparr>"])
        (use nt in \<open>simp_all add: transition_known [of i _ "m\<lparr> m_in_book := False \<rparr>"] om_set_set\<close>)
  next
    case 3
    let ?sl = "min (m_hidden m) (rq_display (m_req m))"
    have nb: "\<not> bound (mt_book s) i" and p: "is_i32 (rq_price (m_req m))" "0 < rq_price (m_req m)"
      and rid: "rq_id (m_req m) = i"
      using U 3 by auto
    note A = add_book_laws [OF D(1) nb p room [OF 3(1)], of "rq_side (m_req m) = Buy" ?sl]
    have k: "known s i" using m by (simp add: known_def)
    let ?m = "m\<lparr> m_hidden := m_hidden m - ?sl, m_resting := ?sl, m_sequence := mt_seq s + 1, m_in_book := True,
        m_state := PartiallyFilled \<rparr>"
    have e: "mt_orders (settle_maker i s) = om_set i ?m (mt_orders s)" "mt_fills (settle_maker i s) = mt_fills s"
      "mt_book (settle_maker i s) = bk_add i (side_char (rq_side (m_req m) = Buy)) (rq_price (m_req m)) ?sl (mt_book s)"
      using 3 rid by (simp_all add: settle_known [OF D(2) m] refresh_known [of _ i "m\<lparr> m_in_book := False \<rparr>"] D(2)
          Let_def om_set_set)
    show ?thesis
      by (rule grows_put [OF D(2) m, where new = "[]" and m' = ?m])
        (use nt A k in \<open>auto simp: e\<close>)
  qed
qed

lemma cancel_grows:
  assumes ok: "engine_ok X fl s" and m: "om_get i (mt_orders s) = Some m" "\<not> is_terminal (m_state m)"
  shows "grows s (cancel_meta i s)"
proof -
  note D = engine_okD [OF ok]
  show ?thesis
    by (rule grows_put [OF D(2) m(1), where new = "[]" and m' = "m\<lparr> m_in_book := False, m_resting := 0, m_hidden := 0,
          m_cancelled := m_cancelled m + (m_resting m + m_hidden m), m_state := Cancelled \<rparr>"])
      (use m(2) book_laws [OF D(1)] in \<open>auto simp: cancel_known [OF D(2) m(1)] split: if_splits\<close>)
qed

lemma rests_live:
  assumes ok: "engine_ok {} fl s" and mk: "om_get r (mt_orders s) = Some mk" and r: "rests (mt_book s) r d p n"
  shows "\<not> is_terminal (m_state mk)" "m_in_book mk" "rq_id (m_req mk) = r"
proof -
  have "meta_ok (mt_book s) r (fl r) mk" using engine_okD(6) [OF ok mk] by simp
  then show "\<not> is_terminal (m_state mk)" "m_in_book mk" "rq_id (m_req mk) = r"
    using known_rests(1) [OF ok mk r] by (auto simp: meta_ok_def)
qed

lemma own_trade_grows:
  assumes ok: "engine_ok {} fl s" and tk: "runs s tid tk" and fl: "fl tid = unat rem" "\<And>j. j \<noteq> tid \<Longrightarrow> fl j = 0"
    and mk: "om_get r (mt_orders s) = Some mk" and r: "rests (mt_book s) r d p n" and q: "q = min rem n"
    and f: "fl_taker f = 0 \<or> known s (fl_taker f)" "fl_maker f = r"
  shows "grows s (own_trade tid r mk q f s)"
proof -
  note D = engine_okD [OF ok] and K = known_rests [OF ok mk r] and T = tk [unfolded runs_def]
  note [simp] = om_get_set [OF D(2)]
  have ne: "tid \<noteq> r" using K(1) T mk by auto
  have t: "om_get tid (mt_orders s) = Some tk" using T by blast
  have flr: "fl r = 0" using fl(2) ne by auto
  have qn: "q \<le> n" using q by simp
  let ?mk = "mk\<lparr> m_resting := m_resting mk - q, m_filled := m_filled mk + q \<rparr>"
  define s1 where "s1 = s\<lparr> mt_book := bk_take r q (mt_book s), mt_orders := om_set r ?mk (mt_orders s),
      mt_filled_total := mt_filled_total s + ucast q \<rparr>"
  define s2 where "s2 = s1\<lparr> mt_orders := om_set tid (tk\<lparr> m_filled := m_filled tk + q \<rparr>) (mt_orders s1),
      mt_filled_total := mt_filled_total s1 + ucast q, mt_fills := mt_fills s1 @ [f],
      mt_last_trade := fl_price f, mt_has_last_trade := True \<rparr>"
  note S1 = take_maker [OF ok mk r flr qn, of s1]
  have 1: "engine_ok {r} fl s1" "unsettled (mt_book s1) r ?mk"
    "m_resting ?mk = 0 \<Longrightarrow> bk_resting_orders (snd (mt_book s1)) + 1 < 2 ^ 32"
    using S1 by (simp_all add: s1_def)
  have t1: "runs s1 tid tk" using T ne by (simp add: runs_def s1_def)
  have qr: "q \<le> rem" using q by simp
  have 2: "engine_ok {r} (fl(tid := unat (rem - q))) s2"
    using fill_taker [OF 1(1) t1 qr fl(1), of s2] ne engine_okD(1) [OF 1(1)] by (simp_all add: s2_def)
  have m2: "om_get r (mt_orders s2) = Some ?mk" using ne D(2) by (simp add: s2_def s1_def om_get_set)
  have u2: "unsettled (mt_book s2) r ?mk" and room2: "m_resting ?mk = 0 \<Longrightarrow> bk_resting_orders (snd (mt_book s2)) + 1 < 2 ^ 32"
    using 1(2,3) by (simp_all add: s2_def)
  have kr: "known s r" using mk by (simp add: known_def)
  have "grows s s1"
    by (rule grows_put [OF D(2) mk, where new = "[]" and m' = ?mk]) (use book_laws [OF D(1)] in \<open>auto simp: s1_def\<close>)
  moreover have "grows s1 s2"
    by (rule grows_put [OF engine_okD(2) [OF 1(1)], where new = "[f]" and i = tid and m = tk and m' = "tk\<lparr> m_filled := m_filled tk + q \<rparr>"])
      (use t1 f kr in \<open>auto simp: s2_def runs_def fill_known_def known_def s1_def\<close>)
  moreover have "grows s2 (settle_maker r s2)" by (rule settle_grows [OF 2 m2 u2 room2])
  moreover have "own_trade tid r mk q f s = settle_maker r s2"
  proof -
    have "unat (m_resting mk) < 2 ^ 31"
      using D(6) [OF mk] flr K(1) by (auto simp: meta_ok_def split: if_splits)
    then have "unat q < 2 ^ 31" using qn K(4) by (simp add: word_le_nat_alt)
    note dbl = double_fits [OF this]
    show ?thesis
      unfolding own_trade_def Let_def
      by (simp add: note_trade_def upd_meta_def s1_def s2_def meta_of_def mk t ne dbl add.assoc)
  qed
  ultimately show ?thesis using grows_trans by metis
qed

lemma match_grows:
  assumes m: "match tid t (rem, s) = Some (rem', killed, s')"
    and st: "engine_ok {} fl s" "runs s tid tk" "fl tid = unat rem" "\<And>j. j \<noteq> tid \<Longrightarrow> fl j = 0"
  shows "grows s s'"
proof (rule match_rule [OF m st refl, where P = "\<lambda>_ s'. grows s s'" and Q = "\<lambda>_ _ s'. grows s s'"])
  show "grows s s" by simp
next
  fix fl u tk' rem rem' killed s'
  assume a: "engine_ok {} fl u" "runs u tid tk'" "grows s u" "match_step tid t (rem, u) = Inl (rem', killed, s')"
  show "grows s s'"
    using a(1,2)
  proof (cases rule: match_step_cases [where t = t and rem = rem])
    case (kill r mk d p n)
    from cancel_grows [OF a(1) kill(2) rests_live(1) [OF a(1) kill(2,3)]] a(3,4) kill(1) grows_trans show ?thesis by auto
  qed (use a(3,4) in auto)
next
  fix fl u tk' rem rem' s'
  assume a: "engine_ok {} fl u" "runs u tid tk'" "fl tid = unat rem" "\<And>j. j \<noteq> tid \<Longrightarrow> fl j = 0" "grows s u"
    "match_step tid t (rem, u) = Inr (rem', s')"
  have t: "om_get tid (mt_orders u) = Some tk'" "rq_id (m_req tk') = tid"
    using a(2) engine_okD(6) [OF a(1), of tid tk'] by (auto simp: runs_def meta_ok_def)
  have kt: "known u tid" using t(1) by (simp add: known_def)
  have "grows u s'"
    using a(1,2)
  proof (cases rule: match_step_cases [where t = t and rem = rem])
    case (skip r mk d p n)
    from cancel_grows [OF a(1) skip(2) rests_live(1) [OF a(1) skip(2,3)]] a(6) skip(1) show ?thesis by simp
  next
    case (own r mk f d p n)
    have "grows u (own_trade tid r mk (min rem n) f u)"
      by (rule own_trade_grows [OF a(1,2,3) a(4) own(2,3) refl]) (use own kt t in auto)
    then show ?thesis using a(6) own(1) by simp
  next
    case (other r f d p n s1)
    note D = engine_okD [OF a(1)]
    have "grows u s1"
      by (rule grows_put [OF D(2) t(1) other(9), where new = "[f]"])
        (use other kt t bk.rests_bound [OF D(1) other(3)] book_laws [OF D(1)] in \<open>auto simp: fill_known_def\<close>)
    then show ?thesis using a(6) other(1) by simp
  qed (use a(6) in auto)
  with a(5) grows_trans show "grows s s'" by blast
qed

section \<open>Running an order\<close>

text \<open>How a run of an order goes: refused before it enters, or matched and then finished.\<close>

lemma run_order_cases:
  assumes ok: "engine_ok {} no_flight s" and m: "ready s i m"
    and r: "run_order i r t s = Some (went, r', s')"
  obtains (refused) st where "\<not> went" "s' = transition i st s" "rs_state r' = st" "is_terminal st" "rs_reject r' \<noteq> NoReject"
    | (filled) killed s1 s2 tk where "went" "rs_reject r' = rs_reject r" "rs_state r' = Filled"
      "engine_ok {} (no_flight(i := unat (rq_quantity (m_req m)))) s1" "runs s1 i (m\<lparr> m_entered := True \<rparr>)"
      "grows s s1" "mt_book s1 = mt_book s" "mt_fills s1 = mt_fills s" "mt_orders s1 = om_set i (m\<lparr> m_entered := True \<rparr>) (mt_orders s)"
      "match i t (rq_quantity (m_req m), s1) = Some (0, killed, s2)"
      "engine_ok {} (no_flight(i := 0)) s2" "runs s2 i tk" "m_req tk = m_req m"
      "mt_orders s' = om_set i (tk\<lparr> m_state := Filled \<rparr>) (mt_orders s2)" "mt_book s' = mt_book s2" "mt_fills s' = mt_fills s2"
      "mt_pending_stops s' = mt_pending_stops s" "rs_resting r' = rs_resting r"
    | (cancelled) rem killed s1 s2 tk where "went" "rs_reject r' = rs_reject r" "rs_state r' = Cancelled"
      "engine_ok {} (no_flight(i := unat (rq_quantity (m_req m)))) s1" "runs s1 i (m\<lparr> m_entered := True \<rparr>)"
      "grows s s1" "mt_book s1 = mt_book s" "mt_fills s1 = mt_fills s" "mt_orders s1 = om_set i (m\<lparr> m_entered := True \<rparr>) (mt_orders s)"
      "match i t (rq_quantity (m_req m), s1) = Some (rem, killed, s2)" "rem \<noteq> 0" "\<not> can_rest t \<or> killed"
      "engine_ok {} (no_flight(i := unat rem)) s2" "runs s2 i tk" "m_req tk = m_req m"
      "mt_orders s' = om_set i (tk\<lparr> m_cancelled := m_cancelled tk + rem, m_state := Cancelled \<rparr>) (mt_orders s2)"
      "mt_book s' = mt_book s2" "mt_fills s' = mt_fills s2" "mt_pending_stops s' = mt_pending_stops s"
      "rs_resting r' = rs_resting r"
    | (rested) rem killed s1 s2 tk st where "went" "rs_reject r' = rs_reject r" "rs_state r' = st"
      "st \<in> {Accepted, PartiallyFilled}"
      "engine_ok {} (no_flight(i := unat (rq_quantity (m_req m)))) s1" "runs s1 i (m\<lparr> m_entered := True \<rparr>)"
      "grows s s1" "mt_book s1 = mt_book s" "mt_fills s1 = mt_fills s" "mt_orders s1 = om_set i (m\<lparr> m_entered := True \<rparr>) (mt_orders s)"
      "match i t (rq_quantity (m_req m), s1) = Some (rem, killed, s2)" "rem \<noteq> 0" "can_rest t" "\<not> killed"
      "engine_ok {} (no_flight(i := unat rem)) s2" "runs s2 i tk" "m_req tk = m_req m" "resting_of s2 \<le> resting_of s"
      "mt_orders s' = om_set i (tk\<lparr> m_resting := slice_of (m_req m) rem, m_hidden := rem - slice_of (m_req m) rem,
         m_in_book := True, m_state := st \<rparr>) (mt_orders s2)"
      "mt_book s' = bk_add i (side_char (rq_side (m_req m) = Buy)) (rq_price (m_req m)) (slice_of (m_req m) rem) (mt_book s2)"
      "mt_fills s' = mt_fills s2" "mt_pending_stops s' = mt_pending_stops s" "rs_resting r' = rem"
proof -
  note D = engine_okD [OF ok] and R = m [unfolded ready_def]
  have t: "om_get i (mt_orders s) = Some m" using R by blast
  have M: "meta_ok (mt_book s) i 0 m" using D(6) [OF t] by simp
  have mi: "meta_of s i = m" by (rule meta_of_known [OF t])
  let ?q = "rq_quantity (m_req m)"
  let ?ref = "if m_state m = New then Rejected else Cancelled"
  consider "t = FOK \<and> available (m_req m) t s < ?q"
    | "\<not> (t = FOK \<and> available (m_req m) t s < ?q)" "t = Market \<and> \<not> has_liquidity (m_req m) s"
    | "\<not> (t = FOK \<and> available (m_req m) t s < ?q)" "\<not> (t = Market \<and> \<not> has_liquidity (m_req m) s)"
    by blast
  then show thesis
  proof cases
    case 1
    from r [unfolded run_order_def mi Let_def if_P [OF 1]] show thesis by (intro refused [of ?ref]) auto
  next
    case 2
    from r [unfolded run_order_def mi Let_def if_not_P [OF 2(1)] if_P [OF 2(2)]] show thesis
      by (intro refused [of ?ref]) auto
  next
    case 3
    define s1 where "s1 = s\<lparr> mt_submitted := mt_submitted s + ucast ?q,
        mt_orders := om_set i (m\<lparr> m_entered := True \<rparr>) (mt_orders s) \<rparr>"
    have o1: "mt_book s1 = mt_book s" "mt_fills s1 = mt_fills s"
      "mt_orders s1 = om_set i (m\<lparr> m_entered := True \<rparr>) (mt_orders s)" by (simp_all add: s1_def)
    have 1: "engine_ok {} (no_flight(i := unat ?q)) s1"
      by (rule engine_put [OF ok t, of _ "m\<lparr> m_entered := True \<rparr>"])
        (use R D M in \<open>auto simp: s1_def meta_ok_def\<close>)
    have r1: "runs s1 i (m\<lparr> m_entered := True \<rparr>)" using R by (simp add: runs_def s1_def om_get_set D(2))
    have g1: "grows s s1" by (rule grows_put [OF D(2) t o1(3), where new = "[]"]) (simp_all add: o1)
    from match_ok [OF 1 r1, of ?q t] obtain rem killed s2 tk where
      2: "match i t (?q, s1) = Some (rem, killed, s2)" "engine_ok {} (no_flight(i := unat rem)) s2" "runs s2 i tk"
        "m_req tk = m_req m" "m_state tk = m_state m" "shrinks s1 s2" by auto
    have p2: "mt_pending_stops s2 = mt_pending_stops s" and res2: "resting_of s2 \<le> resting_of s"
      using 2(6) by (auto simp: shrinks_def s1_def)
    note D2 = engine_okD [OF 2(2)]
    have t2: "om_get i (mt_orders s2) = Some tk" and T2: "m_state tk \<in> {New, Accepted}" using 2(3) by (auto simp: runs_def)
    have rid: "rq_id (m_req m) = i" using M by (simp add: meta_ok_def)
    have s1': "upd_meta i (\<lambda>m. m\<lparr> m_entered := True \<rparr>) (s\<lparr> mt_submitted := mt_submitted s + ucast ?q \<rparr>) = s1"
      by (simp add: upd_meta_def s1_def meta_of_def t)
    have f: "(went, r', s') = (True, finish_order i r t rem killed s2)"
      using r unfolding run_order_def mi Let_def s1' if_not_P [OF 3(1)] if_not_P [OF 3(2)] by (simp add: 2(1))
    then have went: "went" and fin: "finish_order i r t rem killed s2 = (r', s')" by simp_all
    consider "rem = 0" | "rem \<noteq> 0" "\<not> can_rest t \<or> killed" | "rem \<noteq> 0" "can_rest t" "\<not> killed" by blast
    then show thesis
    proof cases
      case a: 1
      then have e: "s' = transition i Filled s2" "rs_state r' = m_state (meta_of s' i)" "rs_reject r' = rs_reject r"
        "rs_resting r' = rs_resting r"
        using fin by (auto simp: finish_order_def Let_def)
      then have "rs_state r' = Filled" by (simp add: transition_known [OF t2] meta_of_def om_get_set D2(2))
      from filled [OF went e(3) this 1 r1 g1 o1, of killed s2 tk] 2 a e p2 show thesis
        by (simp add: transition_known [OF t2])
    next
      case b: 2
      then have rem: "rem > 0" and nc: "\<not> (rem > 0 \<and> can_rest t \<and> \<not> killed)" by (auto simp: word_gt_0)
      have e: "s' = s2\<lparr> mt_orders := om_set i (tk\<lparr> m_cancelled := m_cancelled tk + rem, m_state := Cancelled \<rparr>) (mt_orders s2),
            mt_cancelled_total := mt_cancelled_total s2 + ucast rem,
            mt_asserted := mt_asserted s2 \<and> legal_transition (m_state tk) Cancelled \<rparr>"
        "rs_state r' = m_state (meta_of s' i)" "rs_reject r' = rs_reject r" "rs_resting r' = rs_resting r"
        using fin unfolding finish_order_def Let_def if_not_P [OF nc] if_P [OF rem]
        by (auto simp: transition_def upd_meta_def meta_of_def t2 om_get_set D2(2) om_set_set)
      then have "rs_state r' = Cancelled" by (simp add: meta_of_def om_get_set D2(2))
      from cancelled [OF went e(3) this 1 r1 g1 o1 2(1) b 2(2,3,4)] e p2 show thesis by simp
    next
      case c: 3
      then have rem: "rem > 0" by (simp add: word_gt_0)
      let ?sl = "slice_of (m_req m) rem"
      let ?want = "if m_filled tk > 0 then PartiallyFilled else Accepted"
      let ?m = "tk\<lparr> m_resting := ?sl, m_hidden := rem - ?sl, m_in_book := True, m_state := ?want \<rparr>"
      define s3 where "s3 = (let s = rest_order i rem s2 in if m_state tk \<noteq> ?want then transition i ?want s else s)"
      have rk: "rest_order i rem s2 = s2\<lparr> mt_orders := om_set i (tk\<lparr> m_resting := ?sl, m_hidden := rem - ?sl,
           m_in_book := True \<rparr>) (mt_orders s2), mt_book := bk_add (rq_id (m_req m))
             (side_char (rq_side (m_req m) = Buy)) (rq_price (m_req m)) ?sl (mt_book s2) \<rparr>"
        using rest_known [OF D2(2) t2, of rem] 2(4) by simp
      have mr: "meta_of (rest_order i rem s2) i = tk\<lparr> m_resting := ?sl, m_hidden := rem - ?sl, m_in_book := True \<rparr>"
        by (simp add: rk meta_of_def om_get_set D2(2))
      have e: "s' = s3" "rs_state r' = m_state (meta_of s3 i)" "rs_reject r' = rs_reject r" "rs_resting r' = ?sl + (rem - ?sl)"
        using fin unfolding finish_order_def s3_def Let_def mr using rem c by (auto simp: meta_of_known [OF t2])
      have s3: "mt_orders s3 = om_set i ?m (mt_orders s2)"
        "mt_book s3 = bk_add i (side_char (rq_side (m_req m) = Buy)) (rq_price (m_req m)) ?sl (mt_book s2)"
        "mt_fills s3 = mt_fills s2" "mt_pending_stops s3 = mt_pending_stops s2"
        using T2 rid by (cases tk; auto simp: s3_def Let_def rk transition_def upd_meta_def meta_of_def om_get_set D2(2) om_set_set)+
      have "rs_state r' = ?want" using e(2) by (simp add: s3(1) meta_of_def om_get_set D2(2))
      from rested [OF went e(3) this _ 1 r1 g1 o1 2(1) c 2(2,3,4) res2] s3 p2 e show thesis by simp
    qed
  qed
qed

lemma run_order_grows:
  assumes ok: "engine_ok {} no_flight s" and m: "ready s i m" and room: "resting_of s + 1 < 2 ^ 32"
    and pos: "can_rest t \<Longrightarrow> 0 < rq_price (m_req m)"
    and r: "run_order i r t s = Some (went, r', s')"
  shows "grows s s'" "\<exists>m'. om_get i (mt_orders s') = Some m' \<and> m_state m' = rs_state r'"
proof -
  note D = engine_okD [OF ok] and R = m [unfolded ready_def]
  have t: "om_get i (mt_orders s) = Some m" and nt: "\<not> is_terminal (m_state m)" using R by auto
  have "grows s s' \<and> (\<exists>m'. om_get i (mt_orders s') = Some m' \<and> m_state m' = rs_state r')"
    using ok m r
  proof (cases rule: run_order_cases)
    case (refused st)
    have "grows s s'"
      by (rule grows_put [OF D(2) t, where new = "[]" and m' = "m\<lparr> m_state := st \<rparr>"])
        (use nt in \<open>simp_all add: refused(2) transition_known [OF t]\<close>)
    then show ?thesis using refused(2,3) by (simp add: transition_known [OF t] om_get_set D(2))
  next
    case (filled killed s1 s2 tk)
    note D2 = engine_okD [OF filled(11)]
    have t2: "om_get i (mt_orders s2) = Some tk" and n2: "\<not> is_terminal (m_state tk)" using filled(12) by (auto simp: runs_def)
    have "grows s1 s2" by (rule match_grows [OF filled(10,4,5)]) simp_all
    moreover have "grows s2 s'"
      by (rule grows_put [OF D2(2) t2 filled(14), where new = "[]"]) (use n2 filled in simp_all)
    ultimately have "grows s s'" using filled(6) grows_trans by metis
    then show ?thesis using filled(3,14) by (simp add: om_get_set D2(2))
  next
    case (cancelled rem killed s1 s2 tk)
    note D2 = engine_okD [OF cancelled(13)]
    have t2: "om_get i (mt_orders s2) = Some tk" and n2: "\<not> is_terminal (m_state tk)" using cancelled(14) by (auto simp: runs_def)
    have "grows s1 s2" by (rule match_grows [OF cancelled(10,4,5)]) simp_all
    moreover have "grows s2 s'"
      by (rule grows_put [OF D2(2) t2 cancelled(16), where new = "[]"]) (use n2 cancelled in simp_all)
    ultimately have "grows s s'" using cancelled(6) grows_trans by metis
    then show ?thesis using cancelled(3,16) by (simp add: om_get_set D2(2))
  next
    case (rested rem killed s1 s2 tk st)
    note D2 = engine_okD [OF rested(15)]
    have t2: "om_get i (mt_orders s2) = Some tk" and n2: "\<not> is_terminal (m_state tk)" using rested(16) by (auto simp: runs_def)
    have nb: "\<not> bound (mt_book s2) i" using D2(6) [OF t2] rested(16) by (auto simp: meta_ok_def runs_def)
    have p: "is_i32 (rq_price (m_req m))" "0 < rq_price (m_req m)" and room2: "resting_of s2 + 1 < 2 ^ 32"
      using R pos rested(13,18) room by auto
    note A = add_book_laws [OF D2(1) nb p room2, of "rq_side (m_req m) = Buy" "slice_of (m_req m) rem"]
    have k: "known s2 i" using t2 by (simp add: known_def)
    have "grows s1 s2" by (rule match_grows [OF rested(11,5,6)]) simp_all
    moreover have "grows s2 s'"
      by (rule grows_put [OF D2(2) t2 rested(19), where new = "[]"]) (use n2 k A rested(20,21) in auto)
    ultimately have "grows s s'" using rested(7) grows_trans by metis
    then show ?thesis using rested(3,19) by (simp add: om_get_set D2(2))
  qed
  then show "grows s s'" "\<exists>m'. om_get i (mt_orders s') = Some m' \<and> m_state m' = rs_state r'" by blast+
qed

lemma elect_grows:
  assumes ok: "engine_ok {} no_flight s" and i: "om_get i (mt_orders s) = Some m" "stop_parked m"
    and np: "i \<notin> set (mt_pending_stops s)" and room: "resting_of s + 1 < 2 ^ 32"
    and e: "elect_stop i s = Some (went, r, s')"
  shows "grows s s'"
proof -
  note D = engine_okD [OF ok]
  let ?m = "m\<lparr> m_sequence := mt_seq s + 1 \<rparr>"
  define s1 where "s1 = s\<lparr> mt_seq := mt_seq s + 1, mt_orders := om_set i ?m (mt_orders s) \<rparr>"
  have "engine_ok {} (no_flight(i := 0)) s1"
    by (rule engine_put [OF ok i(1), of _ ?m]) (use D D(6) [OF i(1)] np in \<open>auto simp: s1_def meta_ok_def\<close>)
  then have 1: "engine_ok {} no_flight s1" by (simp add: fun_upd_idem)
  have i1: "om_get i (mt_orders s1) = Some ?m" "stop_parked ?m" "i \<notin> set (mt_pending_stops s1)"
    using i np by (simp_all add: s1_def om_get_set D(2) stop_parked_def)
  have e1: "elect_stop i s = run_order i (result_new\<lparr> rs_first_fill := length (mt_fills s) \<rparr>)
      (effective_type (rq_type (m_req m))) s1"
    by (simp add: elect_stop_def Let_def upd_meta_def s1_def meta_of_def i om_get_set D(2))
  have room1: "resting_of s1 + 1 < 2 ^ 32" using room by (simp add: s1_def)
  have "grows s s1" by (rule grows_put [OF D(2) i(1), where new = "[]" and m' = ?m]) (simp_all add: s1_def)
  moreover have "grows s1 s'"
    by (rule run_order_grows(1) [OF 1 stop_ready(1) [OF 1 i1] room1 _ e [unfolded e1]]) (use stop_ready(2) [OF 1 i1] in simp)
  ultimately show ?thesis using grows_trans by blast
qed

lemma fire_stops_grows:
  "engine_ok {} no_flight s \<Longrightarrow> load s < 2 ^ 32 \<Longrightarrow> fire_stops s = Some (any, s') \<Longrightarrow> grows s s'"
proof (induction "length (mt_pending_stops s)" arbitrary: s any s' rule: less_induct)
  case less
  note ok = less.prems(1) and D = engine_okD [OF less.prems(1)]
  obtain pend res where n: "next_stop s [] (mt_pending_stops s) = (pend, res)" by (meson surj_pair)
  have P: "set pend \<subseteq> set (mt_pending_stops s)" "distinct pend" "length pend \<le> length (mt_pending_stops s)"
    "\<And>i. res = Some i \<Longrightarrow> i \<in> set (mt_pending_stops s) \<and> i \<notin> set pend \<and> length pend < length (mt_pending_stops s)"
    using next_stop_spec [OF n] D(5) by auto
  define s0 where "s0 = s\<lparr> mt_pending_stops := pend \<rparr>"
  have 0: "engine_ok {} no_flight s0"
    using ok P(1,2) unfolding engine_ok_def totals_ok_def s0_def by auto
  have u0: "resting_of s0 = resting_of s" "mt_pending_stops s0 = pend" "mt_orders s0 = mt_orders s"
    by (simp_all add: s0_def)
  have g0: "grows s s0" by (rule grows_same) (simp_all add: s0_def)
  show ?case
  proof (cases res)
    case None
    then have "fire_stops s = Some (False, s0)" by (subst fire_stops.simps) (simp add: n s0_def)
    with less.prems(3) g0 show ?thesis by simp
  next
    case (Some i)
    from P(4) [OF Some] D(7) obtain m where m: "om_get i (mt_orders s) = Some m" "stop_parked m" by blast
    have np: "i \<notin> set (mt_pending_stops s0)" using P(4) [OF Some] by (simp add: u0)
    have room: "resting_of s0 + 1 < 2 ^ 32" using less.prems(2) P(4) [OF Some] by (simp add: load_def u0)
    have m0: "om_get i (mt_orders s0) = Some m" using m by (simp add: u0)
    from elect_ok [OF 0 m0 m(2) np room] obtain went r s1 where
      1: "elect_stop i s0 = Some (went, r, s1)" "engine_ok {} no_flight s1" "resting_of s1 \<le> resting_of s + 1"
        "mt_pending_stops s1 = pend" by (auto simp: u0)
    have g1: "grows s0 s1" by (rule elect_grows [OF 0 m0 m(2) np room 1(1)])
    have l1: "load s1 < 2 ^ 32" "length (mt_pending_stops s1) < length (mt_pending_stops s)"
      using 1(3,4) P(4) [OF Some] less.prems(2) by (simp_all add: load_def)
    obtain a s2 where 2: "(if went then fire_stops s1 else Some (False, s1)) = Some (a, s2)"
      "engine_ok {} no_flight s2" "load s2 < 2 ^ 32" "length (mt_pending_stops s2) \<le> length (mt_pending_stops s1)"
      using fire_stops_ok [OF 1(2) l1(1)] 1(2) l1(1) by (cases went) fastforce+
    have g2: "grows s1 s2"
      using 2(1) less.hyps [OF l1(2) 1(2) l1(1)] by (cases went) auto
    have l2: "length (mt_pending_stops s2) < length (mt_pending_stops s)" using 2(4) l1 by simp
    have "fire_stops s = (case fire_stops s2 of None \<Rightarrow> None | Some (any, s3) \<Rightarrow> Some (True, s3))"
      by (subst fire_stops.simps) (simp add: n Some s0_def [symmetric] 1(1) 2(1) split: option.split)
    then obtain a' where "fire_stops s2 = Some (a', s')" using less.prems(3) by (auto split: option.splits)
    from less.hyps [OF l2 2(2,3) this] g0 g1 g2 grows_trans show ?thesis by metis
  qed
qed

lemma run_grows:
  assumes ok: "engine_ok {} no_flight s" and m: "ready s i m" and room: "load s + 1 < 2 ^ 32"
    and pos: "can_rest t \<Longrightarrow> 0 < rq_price (m_req m)" and r: "run i r t s = Some (r', s')"
  shows "grows s s'"
    "\<exists>m'. om_get i (mt_orders s') = Some m' \<and> (is_terminal (rs_state r') \<longrightarrow> is_terminal (m_state m'))"
    "rs_reject r = NoReject \<Longrightarrow> rs_reject r' \<noteq> NoReject \<Longrightarrow> is_terminal (rs_state r')"
proof -
  have room': "resting_of s + 1 < 2 ^ 32" using room by (simp add: load_def)
  from run_order_ok [OF ok m this pos, of t r] obtain went r1 s1 where
    1: "run_order i r t s = Some (went, r1, s1)" "engine_ok {} no_flight s1" "resting_of s1 \<le> resting_of s + 1"
      "mt_pending_stops s1 = mt_pending_stops s" "rs_reject r1 = (if went then rs_reject r else if t = FOK then FokUnfillable else NoLiquidity)"
    by auto
  note G = run_order_grows [OF ok m room' pos 1(1)]
  from G(2) obtain m1 where m1: "om_get i (mt_orders s1) = Some m1" "m_state m1 = rs_state r1" by blast
  have l1: "load s1 < 2 ^ 32" using 1(3,4) room by (simp add: load_def)
  have "grows s s' \<and> (\<exists>m'. om_get i (mt_orders s') = Some m' \<and> (is_terminal (rs_state r') \<longrightarrow> is_terminal (m_state m'))) \<and>
    (rs_reject r = NoReject \<longrightarrow> rs_reject r' \<noteq> NoReject \<longrightarrow> is_terminal (rs_state r'))"
  proof (cases went)
    case False
    then have e: "r' = r1" "s' = s1" using r by (simp_all add: run_def 1(1))
    have "is_terminal (rs_state r1)" using ok m 1(1) by (cases rule: run_order_cases) (use False in auto)
    with False e G(1) m1 show ?thesis by auto
  next
    case True
    from fire_stops_ok [OF 1(2) l1] obtain any s2 where 2: "fire_stops s1 = Some (any, s2)" by blast
    then have e: "r' = r1\<lparr> rs_triggered_stops := any \<rparr>" "s' = s2" using r True by (simp_all add: run_def 1(1))
    have g: "grows s1 s2" by (rule fire_stops_grows [OF 1(2) l1 2])
    from grows_meta [OF g m1(1)] obtain m2 where "om_get i (mt_orders s2) = Some m2"
      "is_terminal (m_state m1) \<Longrightarrow> m_state m2 = m_state m1" by blast
    then show ?thesis using G(1) g grows_trans m1(2) e 1(5) True by auto
  qed
  then show "grows s s'"
    "\<exists>m'. om_get i (mt_orders s') = Some m' \<and> (is_terminal (rs_state r') \<longrightarrow> is_terminal (m_state m'))"
    "rs_reject r = NoReject \<Longrightarrow> rs_reject r' \<noteq> NoReject \<Longrightarrow> is_terminal (rs_state r')" by blast+
qed

section \<open>Submitting\<close>

text \<open>A submission first puts the new record in, then only grows.\<close>

definition entered :: "request \<Rightarrow> matcher \<Rightarrow> matcher \<Rightarrow> bool" where
  "entered req s s1 \<longleftrightarrow> (\<exists>m0. mt_orders s1 = om_set (rq_id req) m0 (mt_orders s) \<and> m_req m0 = req) \<and>
     mt_book s1 = mt_book s \<and> mt_fills s1 = mt_fills s"

lemma submit_log:
  assumes ok: "engine_ok {} no_flight s" and req: "request_ok s req" and r: "submit req s = Some (r, s')"
  shows "known s (rq_id req) \<Longrightarrow> \<not> rs_accepted r \<and> mt_orders s' = mt_orders s \<and> mt_book s' = mt_book s \<and> mt_fills s' = mt_fills s"
    "\<not> known s (rq_id req) \<Longrightarrow> \<exists>s1. entered req s s1 \<and> grows s1 s'"
    "\<not> known s (rq_id req) \<Longrightarrow> \<exists>m'. om_get (rq_id req) (mt_orders s') = Some m' \<and> (is_terminal (rs_state r) \<longrightarrow> is_terminal (m_state m'))"
    "\<not> known s (rq_id req) \<Longrightarrow> \<not> rs_accepted r \<Longrightarrow> is_terminal (rs_state r)"
proof -
  note D = engine_okD [OF ok] and Q = req [unfolded request_ok_def]
  let ?i = "rq_id req"
  let ?r = "result_new\<lparr> rs_first_fill := length (mt_fills s) \<rparr>"
  define s0 where "s0 = s\<lparr> mt_match_no := mt_match_no s + 1 \<rparr>"
  have v: "validate req s0 = validate req s" by (simp add: s0_def validate_def)
  have "(known s ?i \<longrightarrow> \<not> rs_accepted r \<and> mt_orders s' = mt_orders s \<and> mt_book s' = mt_book s \<and> mt_fills s' = mt_fills s) \<and>
    (\<not> known s ?i \<longrightarrow> (\<exists>s1. entered req s s1 \<and> grows s1 s') \<and>
      (\<exists>m'. om_get ?i (mt_orders s') = Some m' \<and> (is_terminal (rs_state r) \<longrightarrow> is_terminal (m_state m'))) \<and>
      (\<not> rs_accepted r \<longrightarrow> is_terminal (rs_state r)))"
  proof (cases "validate req s = NoReject")
    case False
    let ?m = "meta_new\<lparr> m_req := req, m_state := Rejected \<rparr>"
    define s1 where "s1 = (if om_get ?i (mt_orders s) = None then s0\<lparr> mt_orders := om_set ?i ?m (mt_orders s0) \<rparr> else s0)"
    have e: "r = ?r\<lparr> rs_state := Rejected, rs_reject := validate req s \<rparr>" "s' = s1"
      using r False v by (cases "om_get ?i (mt_orders s)"; simp add: submit_def Let_def s1_def s0_def)+
    have new: "entered req s s1" "om_get ?i (mt_orders s1) = Some ?m" if "\<not> known s ?i"
    proof -
      have "om_get ?i (mt_orders s) = None" using that by (simp add: known_def)
      then have "s1 = s0\<lparr> mt_orders := om_set ?i ?m (mt_orders s0) \<rparr>" unfolding s1_def by (rule if_P)
      then show "entered req s s1" "om_get ?i (mt_orders s1) = Some ?m"
        by (auto simp: entered_def s0_def om_get_set D(2))
    qed
    have old: "s1 = s0" if "known s ?i"
    proof -
      have "\<not> om_get ?i (mt_orders s) = None" using that by (simp add: known_def)
      then show ?thesis unfolding s1_def by (rule if_not_P)
    qed
    show ?thesis
      using False new old by (auto simp: e rs_accepted_def s0_def)
  next
    case good: True
    then have new: "om_get ?i (mt_orders s) = None" and nb: "\<not> bound (mt_book s) ?i"
      and price: "rq_type req \<noteq> Market \<Longrightarrow> rq_type req \<noteq> StopMarket \<Longrightarrow> 0 < rq_price req"
      using Q by (auto simp: validate_def split: if_splits)
    let ?m = "meta_new\<lparr> m_req := req, m_sequence := mt_seq s + 1 \<rparr>"
    define s1 where "s1 = s\<lparr> mt_match_no := mt_match_no s + 1, mt_seq := mt_seq s + 1,
        mt_orders := om_set ?i ?m (mt_orders s) \<rparr>"
    have "meta_ok (mt_book s) ?i 0 ?m" using Q nb by (simp add: meta_ok_def meta_new_def)
    note N = engine_new [OF ok new this, of s1]
    have 1: "engine_ok {} no_flight s1" "?i \<notin> set (mt_pending_stops s1)"
      using N by (simp_all add: meta_new_def s1_def)
    have i1: "om_get ?i (mt_orders s1) = Some ?m" by (simp add: s1_def om_get_set D(2))
    have rd: "ready s1 ?i ?m" using 1(2) i1 Q by (simp add: ready_def meta_new_def)
    have l1: "load s1 + 1 < 2 ^ 32" using Q by (simp add: s1_def load_def)
    have ent: "entered req s s1" by (auto simp: entered_def s1_def)
    have e: "submit req s =
      (if is_stop (rq_type req) then
         if stop_is_triggered req s1 then run ?i ?r (effective_type (rq_type req)) s1
         else Some (?r\<lparr> rs_state := Accepted \<rparr>, (upd_meta ?i (\<lambda>m. m\<lparr> m_resting := 0 \<rparr>) (transition ?i Accepted s1))
            \<lparr> mt_pending_stops := mt_pending_stops s1 @ [?i] \<rparr>)
       else run ?i ?r (rq_type req) s1)"
      using good v by (simp add: submit_def Let_def s1_def s0_def upd_meta_def transition_def)
    have run: "(\<exists>s1. entered req s s1 \<and> grows s1 s') \<and>
      (\<exists>m'. om_get ?i (mt_orders s') = Some m' \<and> (is_terminal (rs_state r) \<longrightarrow> is_terminal (m_state m'))) \<and>
      (\<not> rs_accepted r \<longrightarrow> is_terminal (rs_state r))"
      if "run ?i ?r t s1 = Some (r, s')" "can_rest t \<Longrightarrow> 0 < rq_price req" for t
      using run_grows [OF 1(1) rd l1 _ that(1)] that(2) ent by (auto simp: rs_accepted_def result_new_def)
    have nk: "\<not> known s ?i" using new by (simp add: known_def)
    consider "is_stop (rq_type req)" "stop_is_triggered req s1" | "is_stop (rq_type req)" "\<not> stop_is_triggered req s1"
      | "\<not> is_stop (rq_type req)" by blast
    then show ?thesis
    proof cases
      case 1
      then have "run ?i ?r (effective_type (rq_type req)) s1 = Some (r, s')" using r e by simp
      moreover have "can_rest (effective_type (rq_type req)) \<Longrightarrow> 0 < rq_price req"
        using 1 price by (auto simp: can_rest_def effective_type_def is_stop_def split: if_splits)
      ultimately show ?thesis using run nk by blast
    next
      case 2
      then have s': "r = ?r\<lparr> rs_state := Accepted \<rparr>" "s' = (upd_meta ?i (\<lambda>m. m\<lparr> m_resting := 0 \<rparr>) (transition ?i Accepted s1))
            \<lparr> mt_pending_stops := mt_pending_stops s1 @ [?i] \<rparr>"
        using r e by simp_all
      have o: "mt_orders s' = om_set ?i (?m\<lparr> m_state := Accepted, m_resting := 0 \<rparr>) (mt_orders s1)"
        by (simp add: s' transition_known [OF i1] meta_of_def i1 om_get_set engine_okD(2) [OF 1(1)] om_set_set)
      have "grows s1 s'"
        by (rule grows_put [OF engine_okD(2) [OF 1(1)] i1 o, where new = "[]"])
          (simp_all add: s' transition_known [OF i1] meta_new_def)
      then show ?thesis
        using nk ent o by (auto simp: s'(1) rs_accepted_def result_new_def om_get_set engine_okD(2) [OF 1(1)])
    next
      case 3
      then have "run ?i ?r (rq_type req) s1 = Some (r, s')" using r e by simp
      moreover have "can_rest (rq_type req) \<Longrightarrow> 0 < rq_price req" using price by (auto simp: can_rest_def)
      ultimately show ?thesis using run nk by blast
    qed
  qed
  then show "known s (rq_id req) \<Longrightarrow> \<not> rs_accepted r \<and> mt_orders s' = mt_orders s \<and> mt_book s' = mt_book s \<and> mt_fills s' = mt_fills s"
    "\<not> known s (rq_id req) \<Longrightarrow> \<exists>s1. entered req s s1 \<and> grows s1 s'"
    "\<not> known s (rq_id req) \<Longrightarrow> \<exists>m'. om_get (rq_id req) (mt_orders s') = Some m' \<and> (is_terminal (rs_state r) \<longrightarrow> is_terminal (m_state m'))"
    "\<not> known s (rq_id req) \<Longrightarrow> \<not> rs_accepted r \<Longrightarrow> is_terminal (rs_state r)"
    by blast+
qed

lemma entered_grows:
  assumes "engine_ok {} no_flight s" "\<not> known s (rq_id req)" "entered req s s1" "grows s1 s'"
  shows "known s' i \<longleftrightarrow> known s i \<or> i = rq_id req"
    "om_get i (mt_orders s) = Some m \<Longrightarrow> \<exists>m'. om_get i (mt_orders s') = Some m' \<and> m_req m' = m_req m \<and>
        (is_terminal (m_state m) \<longrightarrow> m_state m' = m_state m)"
    "\<exists>m'. om_get (rq_id req) (mt_orders s') = Some m' \<and> m_req m' = req"
    "bound (mt_book s') i \<Longrightarrow> bound (mt_book s) i \<or> known s i \<or> i = rq_id req"
    "\<exists>new. mt_fills s' = mt_fills s @ new \<and> (\<forall>f \<in> set new. fill_known s1 f)"
    "bk_locate (snd (mt_book s')) = bk_locate (snd (mt_book s))"
proof -
  note [simp] = om_get_set [OF engine_okD(2) [OF assms(1)]]
  obtain m0 where e: "mt_orders s1 = om_set (rq_id req) m0 (mt_orders s)" "m_req m0 = req"
    "mt_book s1 = mt_book s" "mt_fills s1 = mt_fills s" using assms(3) by (auto simp: entered_def)
  have k1: "known s1 i \<longleftrightarrow> known s i \<or> i = rq_id req" for i by (simp add: known_def e)
  show "known s' i \<longleftrightarrow> known s i \<or> i = rq_id req" using growsD(1) [OF assms(4)] k1 by simp
  show "\<exists>m'. om_get i (mt_orders s') = Some m' \<and> m_req m' = m_req m \<and> (is_terminal (m_state m) \<longrightarrow> m_state m' = m_state m)"
    if "om_get i (mt_orders s) = Some m"
  proof -
    have "om_get i (mt_orders s1) = Some m" using that assms(2) by (auto simp: e known_def)
    from grows_meta [OF assms(4) this] show ?thesis by blast
  qed
  have "om_get (rq_id req) (mt_orders s1) = Some m0" by (simp add: e)
  from grows_meta [OF assms(4) this] show "\<exists>m'. om_get (rq_id req) (mt_orders s') = Some m' \<and> m_req m' = req"
    using e(2) by metis
  show "bound (mt_book s') i \<Longrightarrow> bound (mt_book s) i \<or> known s i \<or> i = rq_id req"
    using growsD(2) [OF assms(4), of i] k1 e(3) by auto
  show "\<exists>new. mt_fills s' = mt_fills s @ new \<and> (\<forall>f \<in> set new. fill_known s1 f)"
    using grows_fills [OF assms(4)] e(4) by metis
  show "bk_locate (snd (mt_book s')) = bk_locate (snd (mt_book s))" using growsD(3) [OF assms(4)] e(3) by simp
qed

lemma external_fill_grows:
  assumes ok: "engine_ok {} no_flight s" and r: "apply_external_fill i n p x s = (q, s')"
  shows "grows s s'"
proof (cases "s' = s")
  case False
  note D = engine_okD [OF ok]
  obtain m where m: "om_get i (mt_orders s) = Some m" "m_in_book m" "m_resting m \<noteq> 0"
    using r False by (auto simp: apply_external_fill_def split: option.splits if_splits)
  let ?q = "min n (m_resting m)"
  let ?m = "m\<lparr> m_resting := m_resting m - ?q, m_filled := m_filled m + ?q \<rparr>"
  let ?f = "\<lparr> fl_taker = 0, fl_maker = i, fl_taker_owner = 0, fl_maker_owner = rq_owner (m_req m),
                    fl_price = p, fl_shares = ?q, fl_maker_sequence = m_sequence m,
                    fl_match_number = x, fl_external = True \<rparr>"
  define s1 where "s1 = s\<lparr> mt_book := bk_take i ?q (mt_book s), mt_orders := om_set i ?m (mt_orders s),
      mt_filled_total := mt_filled_total s + ucast ?q, mt_external_filled := mt_external_filled s + ucast ?q,
      mt_fills := mt_fills s @ [?f], mt_last_trade := p, mt_has_last_trade := True \<rparr>"
  have "settle_maker i s1 = s'"
    using r False m
    by (auto simp: apply_external_fill_def Let_def if_min s1_def upd_meta_def meta_of_def note_trade_def
        split: option.splits if_splits)
  then have e: "s' = settle_maker i s1" by simp
  have M: "meta_ok (mt_book s) i 0 m" using D(6) [OF m(1)] by simp
  let ?d = "rq_side (m_req m) = Buy" and ?p = "rq_price (m_req m)"
  have R: "rests (mt_book s) i ?d ?p (m_resting m)" using M m(2) by (simp add: meta_ok_def)
  note T = take_maker [OF ok m(1) R, of ?q s1]
  have 1: "engine_ok {i} no_flight s1" "unsettled (mt_book s1) i ?m"
    "m_resting ?m = 0 \<Longrightarrow> bk_resting_orders (snd (mt_book s1)) + 1 < 2 ^ 32"
    using T by (simp_all add: s1_def)
  have i1: "om_get i (mt_orders s1) = Some ?m" by (simp add: s1_def om_get_set D(2))
  have "grows s s1"
    by (rule grows_put [OF D(2) m(1), where new = "[?f]" and m' = ?m])
      (use book_laws [OF D(1)] m(1) in \<open>auto simp: s1_def fill_known_def known_def\<close>)
  moreover have "grows s1 s'" unfolding e by (rule settle_grows [OF 1(1) i1 1(2,3)])
  ultimately show ?thesis using grows_trans by blast
qed simp

end
