(* ===== verification/GatewayRun.thy ===== *)
theory GatewayRun
  imports GatewayOk EngineLog
begin

text \<open>
  A gateway among others on its venue, and what every state of its life keeps. The venue is the engine and
  the counter of references; between two calls of the gateway others submit, cancel, fill and move the
  market. References of the strategies' half are handed out once, so the tokens, the references and the
  records of the engine stay in step, and the position is the net of the fills handed on so far.
\<close>

section \<open>References\<close>

definition issued :: "u64 \<Rightarrow> u64 \<Rightarrow> bool" where
  "issued c i \<longleftrightarrow> (\<exists>k. 0 < k \<and> k \<le> unat c \<and> k < 2 ^ 63 \<and> i = kStrategyRefBit OR of_nat k)"

lemma ref_bit: "bit kStrategyRefBit n \<longleftrightarrow> n = 63"
  unfolding kStrategyRefBit_def by (subst bit_push_bit_iff) (auto simp: bit_1_iff)

lemma ref_or_bit: "bit (kStrategyRefBit OR x) 63"
  by (simp add: bit_simps ref_bit)

lemma strategy_iff: "is_strategy_ref i \<longleftrightarrow> bit i 63"
proof
  assume "is_strategy_ref i"
  then obtain n where "bit (i AND kStrategyRefBit) n" unfolding is_strategy_ref_def by (metis bit_eqI bit_0_eq bot_apply bot_bool_def)
  then show "bit i 63" by (auto simp: bit_simps ref_bit)
next
  assume "bit i 63"
  then have "bit (i AND kStrategyRefBit) 63" by (simp add: bit_simps ref_bit)
  then show "is_strategy_ref i" unfolding is_strategy_ref_def by auto
qed

lemma low_bit: "k < 2 ^ 63 \<Longrightarrow> \<not> bit (of_nat k :: u64) 63"
proof -
  assume "k < 2 ^ 63"
  then have "\<not> bit k 63" by (simp add: bit_iff_odd)
  then show ?thesis by (simp add: bit_simps)
qed

lemma ref_inj:
  assumes "k < 2 ^ 63" "l < 2 ^ 63" "kStrategyRefBit OR of_nat k = kStrategyRefBit OR of_nat l"
  shows "k = l"
proof -
  have "(of_nat k :: u64) = of_nat l"
  proof (rule bit_eqI)
    fix n
    show "bit (of_nat k :: u64) n \<longleftrightarrow> bit (of_nat l :: u64) n"
    proof (cases "n = 63")
      case False
      then show ?thesis using arg_cong [OF assms(3), of "\<lambda>x. bit x n"] by (simp add: bit_or_iff ref_bit)
    qed (use low_bit assms in simp)
  qed
  then have "unat (of_nat k :: u64) = unat (of_nat l :: u64)" by simp
  then show ?thesis using assms(1,2) by (simp add: unat_of_nat64)
qed

lemma ref_next_new:
  assumes "unat c + 1 < 2 ^ 63" "ref_next c = (i, c')"
  shows "\<not> issued c i" "issued c' i" "is_strategy_ref i" "unat c' = unat c + 1"
    "issued c j \<Longrightarrow> issued c' j"
proof -
  have c': "c' = c + 1" "i = kStrategyRefBit OR (c + 1)" using assms(2) by (auto simp: ref_next_def Let_def)
  have "unat (c + 1) = (unat c + 1) mod 2 ^ 64" by (simp add: unat_word_ariths)
  also have "\<dots> = unat c + 1" using assms(1) by (intro mod_less) simp
  finally show u: "unat c' = unat c + 1" by (simp add: c'(1))
  have i: "i = kStrategyRefBit OR of_nat (unat c + 1)" using c' by (simp add: add.commute)
  show "issued c' i" unfolding issued_def using i u assms(1) by auto
  show "is_strategy_ref i" by (simp add: strategy_iff c'(2) ref_or_bit)
  show "issued c j \<Longrightarrow> issued c' j" using u by (auto simp: issued_def)
  show "\<not> issued c i"
  proof
    assume "issued c i"
    then obtain k where "k \<le> unat c" "k < 2 ^ 63" "kStrategyRefBit OR of_nat k = kStrategyRefBit OR of_nat (unat c + 1)"
      unfolding issued_def i by auto
    with ref_inj [OF this(2) assms(1) this(3)] show False by simp
  qed
qed

section \<open>The venue\<close>

definition venue_ok :: "matcher \<Rightarrow> u64 \<Rightarrow> bool" where
  "venue_ok s c \<longleftrightarrow> engine_ok {} no_flight s \<and>
     (\<forall>i. is_strategy_ref i \<longrightarrow> bound (mt_book s) i \<longrightarrow> known s i) \<and>
     (\<forall>i. is_strategy_ref i \<longrightarrow> known s i \<longrightarrow> issued c i) \<and>
     (\<forall>f \<in> set (mt_fills s). \<forall>i \<in> {fl_taker f, fl_maker f}. is_strategy_ref i \<longrightarrow> known s i)"

lemma venue_okD:
  assumes "venue_ok s c"
  shows "engine_ok {} no_flight s" "is_strategy_ref i \<Longrightarrow> bound (mt_book s) i \<Longrightarrow> known s i"
    "is_strategy_ref i \<Longrightarrow> known s i \<Longrightarrow> issued c i"
    "f \<in> set (mt_fills s) \<Longrightarrow> is_strategy_ref (fl_taker f) \<Longrightarrow> known s (fl_taker f)"
    "f \<in> set (mt_fills s) \<Longrightarrow> is_strategy_ref (fl_maker f) \<Longrightarrow> known s (fl_maker f)"
  using assms unfolding venue_ok_def by blast+

text \<open>What any step of the venue leaves to rely on.\<close>

definition evolves :: "matcher \<Rightarrow> matcher \<Rightarrow> bool" where
  "evolves s s' \<longleftrightarrow>
     (\<forall>i m. om_get i (mt_orders s) = Some m \<longrightarrow> (\<exists>m'. om_get i (mt_orders s') = Some m' \<and> m_req m' = m_req m \<and>
        (is_terminal (m_state m) \<longrightarrow> m_state m' = m_state m))) \<and>
     (\<exists>new. mt_fills s' = mt_fills s @ new)"

lemma evolves_refl [simp]: "evolves s s"
  by (simp add: evolves_def)

lemma evolves_trans: "evolves a b \<Longrightarrow> evolves b c \<Longrightarrow> evolves a c"
  unfolding evolves_def by (metis append.assoc)

lemma grows_evolves: "grows s s' \<Longrightarrow> evolves s s'"
  unfolding grows_def evolves_def by blast

lemma evolves_known: "evolves s s' \<Longrightarrow> known s i \<Longrightarrow> known s' i"
  unfolding evolves_def known_def by blast

lemma evolves_meta:
  assumes "evolves s s'" "om_get i (mt_orders s) = Some m"
  obtains m' where "om_get i (mt_orders s') = Some m'" "m_req m' = m_req m" "is_terminal (m_state m) \<Longrightarrow> m_state m' = m_state m"
  using assms unfolding evolves_def by blast

lemma zero_not_strategy: "\<not> is_strategy_ref 0"
  by (simp add: strategy_iff)

lemma venue_grows:
  assumes v: "venue_ok s c" and g: "grows s s'" and ok: "engine_ok {} no_flight s'"
  shows "venue_ok s' c"
proof -
  note V = venue_okD [OF v] and G = growsD [OF g]
  obtain new where n: "mt_fills s' = mt_fills s @ new" "\<forall>f \<in> set new. fill_known s f" using grows_fills [OF g] .
  have "known s' i" if "f \<in> set (mt_fills s')" "i \<in> {fl_taker f, fl_maker f}" "is_strategy_ref i" for f i
  proof (cases "f \<in> set (mt_fills s)")
    case True
    then show ?thesis using that V(4,5) [OF True] G(1) by auto
  next
    case False
    then have "fill_known s f" using that(1) n by auto
    then show ?thesis using that(2,3) V(2) G(1) zero_not_strategy by (auto simp: fill_known_def)
  qed
  then show ?thesis
    using ok V(2,3) G unfolding venue_ok_def by blast
qed

lemma request_room:
  assumes v: "venue_ok s c" and i: "is_strategy_ref (rq_id req)" "\<not> issued c (rq_id req)"
    and q: "is_i32 (rq_price req)" "unat (rq_quantity req) < 2 ^ 31" and room: "load s + 1 < 2 ^ 32"
  shows "\<not> known s (rq_id req)" "request_ok s req"
proof -
  note V = venue_okD [OF v]
  show n: "\<not> known s (rq_id req)" using V(3) i by blast
  then have "\<not> bound (mt_book s) (rq_id req)" using V(2) i(1) by blast
  then show "request_ok s req" using q room by (simp add: request_ok_def)
qed

text \<open>A submission under a fresh reference.\<close>

lemma venue_submit:
  assumes v: "venue_ok s c" and n: "ref_next c = (rq_id req, c')" "unat c + 1 < 2 ^ 63"
    and q: "is_i32 (rq_price req)" "unat (rq_quantity req) < 2 ^ 31" and room: "load s + 1 < 2 ^ 32"
  shows "\<exists>r s'. submit req s = Some (r, s')"
    "submit req s = Some (r, s') \<Longrightarrow> venue_ok s' c'"
    "submit req s = Some (r, s') \<Longrightarrow> evolves s s'"
    "submit req s = Some (r, s') \<Longrightarrow> \<exists>m'. om_get (rq_id req) (mt_orders s') = Some m' \<and> m_req m' = req \<and>
       (is_terminal (rs_state r) \<longrightarrow> is_terminal (m_state m'))"
    "submit req s = Some (r, s') \<Longrightarrow> \<not> rs_accepted r \<Longrightarrow> is_terminal (rs_state r)"
    "\<not> known s (rq_id req)"
proof -
  note N = ref_next_new [OF n(2,1)] and V = venue_okD [OF v]
  note R = request_room [OF v N(3,1) q room]
  show nk: "\<not> known s (rq_id req)" by (rule R(1))
  note S = submit_ok [OF V(1) R(2)]
  then show "\<exists>r s'. submit req s = Some (r, s')" by blast
  assume s: "submit req s = Some (r, s')"
  note L = submit_log [OF V(1) R(2) s]
  from L(2) [OF nk] obtain s1 where e: "entered req s s1" "grows s1 s'" by blast
  note E = entered_grows [OF V(1) nk e]
  have ok: "engine_ok {} no_flight s'" using S s by auto
  show ev: "evolves s s'" unfolding evolves_def using E(2,5) by blast
  obtain m1 m2 where "om_get (rq_id req) (mt_orders s') = Some m1" "is_terminal (rs_state r) \<longrightarrow> is_terminal (m_state m1)"
    "om_get (rq_id req) (mt_orders s') = Some m2" "m_req m2 = req" using L(3) [OF nk] E(3) by blast
  then show "\<exists>m'. om_get (rq_id req) (mt_orders s') = Some m' \<and> m_req m' = req \<and>
       (is_terminal (rs_state r) \<longrightarrow> is_terminal (m_state m'))" by simp
  show "\<not> rs_accepted r \<Longrightarrow> is_terminal (rs_state r)" by (rule L(4) [OF nk])
  have k1: "known s1 i \<longleftrightarrow> known s i \<or> i = rq_id req" for i
    using e(1) by (auto simp: entered_def known_def om_get_set engine_okD(2) [OF V(1)])
  have b1: "mt_book s1 = mt_book s" using e(1) by (simp add: entered_def)
  have "known s' i" if "f \<in> set (mt_fills s')" "i \<in> {fl_taker f, fl_maker f}" "is_strategy_ref i" for f i
  proof (cases "f \<in> set (mt_fills s)")
    case True
    then show ?thesis using that V(4,5) [OF True] E(1) by auto
  next
    case False
    then have "fill_known s1 f" using that(1) E(5) by auto
    then show ?thesis using that(2,3) V(2) E(1) k1 b1 zero_not_strategy by (auto simp: fill_known_def)
  qed
  moreover have "known s' i" if "is_strategy_ref i" "bound (mt_book s') i" for i
    using E(1,4) V(2) that by blast
  moreover have "issued c' i" if "is_strategy_ref i" "known s' i" for i
    using that E(1) V(3) N(2,5) by blast
  ultimately show "venue_ok s' c'" using ok unfolding venue_ok_def by blast
qed

text \<open>What others may do. Their orders take references from the same source; the replayer keeps to the other
  half and leaves the engine's orders to the engine.\<close>

inductive venue_step :: "matcher \<Rightarrow> u64 \<Rightarrow> matcher \<Rightarrow> u64 \<Rightarrow> bool" where
  submits: "ref_next c = (rq_id req, c') \<Longrightarrow> unat c + 1 < 2 ^ 63 \<Longrightarrow> is_i32 (rq_price req) \<Longrightarrow>
    unat (rq_quantity req) < 2 ^ 31 \<Longrightarrow> load s + 1 < 2 ^ 32 \<Longrightarrow> submit req s = Some (r, s') \<Longrightarrow> venue_step s c s' c'"
| cancels: "cancel i s = (b, s') \<Longrightarrow> venue_step s c s' c"
| fills: "apply_external_fill i n p x s = (q, s') \<Longrightarrow> venue_step s c s' c"
| pumps: "load s < 2 ^ 32 \<Longrightarrow> pump_stops s = Some (b, s') \<Longrightarrow> venue_step s c s' c"
| moves: "good sb \<Longrightarrow> (\<And>i. known s i \<Longrightarrow> undisturbed (mt_book s) sb i) \<Longrightarrow>
    (\<And>i. is_strategy_ref i \<Longrightarrow> bound sb i \<Longrightarrow> bound (mt_book s) i) \<Longrightarrow> venue_step s c (s\<lparr> mt_book := sb \<rparr>) c"

lemma cancel_grows':
  assumes ok: "engine_ok {} no_flight s" and c: "cancel i s = (b, s')"
  shows "grows s s'"
  using cancel_result [OF c] cancel_grows [OF ok] by auto

lemma venue_step_ok:
  assumes "venue_step s c s' c'" "venue_ok s c"
  shows "venue_ok s' c' \<and> evolves s s'"
  using assms
proof (induction rule: venue_step.induct)
  case (submits c req c' s r s')
  then show ?case using venue_submit(2,3) [OF submits(7) submits(1-5)] by simp
next
  case (cancels i s b s' c)
  note V = venue_okD [OF cancels(2)]
  have "grows s s'" by (rule cancel_grows' [OF V(1) cancels(1)])
  moreover have "engine_ok {} no_flight s'" using cancel_ok(1) [OF V(1), of i] cancels(1) by simp
  ultimately show ?case using venue_grows [OF cancels(2)] grows_evolves by blast
next
  case (fills i n p x s q s' c)
  note V = venue_okD [OF fills(2)]
  have "grows s s'" by (rule external_fill_grows [OF V(1) fills(1)])
  moreover have "engine_ok {} no_flight s'" by (rule external_fill_ok(1) [OF V(1) fills(1)])
  ultimately show ?case using venue_grows [OF fills(2)] grows_evolves by blast
next
  case (pumps s b s' c)
  note V = venue_okD [OF pumps(3)]
  have "grows s s'" using fire_stops_grows [OF V(1) pumps(1)] pumps(2) by (simp add: pump_stops_def)
  moreover have "engine_ok {} no_flight s'"
    using fire_stops_ok [OF V(1) pumps(1)] pumps(2) by (auto simp: pump_stops_def)
  ultimately show ?case using venue_grows [OF pumps(3)] grows_evolves by blast
next
  case (moves sb s c)
  note V = venue_okD [OF moves(4)] and D = engine_okD [OF venue_okD(1) [OF moves(4)]]
  have "meta_ok sb i 0 m" if "om_get i (mt_orders s) = Some m" for i m
    by (rule meta_ok_undisturbed [OF moves(2)]) (use D(6) [OF that] that in \<open>simp_all add: known_def\<close>)
  then have "engine_ok {} no_flight (s\<lparr> mt_book := sb \<rparr>)" using V(1) moves(1) by (simp add: engine_ok_def totals_ok_def)
  moreover have "known (s\<lparr> mt_book := sb \<rparr>) i = known s i" for i by (simp add: known_def)
  ultimately show ?case using V moves(3) by (auto simp: venue_ok_def evolves_def)
qed

section \<open>The gateway's own books\<close>

text \<open>What a fill adds to the position: its shares, signed by the side, for each side of it that is ours.\<close>

definition fill_delta :: "gateway \<Rightarrow> fill \<Rightarrow> int" where
  "fill_delta g f = (if gw_refs_to_token g (fl_taker f) \<noteq> None then delta_for (fl_taker f) (fl_shares f) g else 0) +
     (if gw_refs_to_token g (fl_maker f) \<noteq> None then delta_for (fl_maker f) (fl_shares f) g else 0)"

definition net_of :: "gateway \<Rightarrow> fill list \<Rightarrow> int" where
  "net_of g fs = (\<Sum>f \<leftarrow> fs. fill_delta g f)"

definition books_ok :: "gateway \<Rightarrow> bool" where
  "books_ok g \<longleftrightarrow>
     venue_ok (gw_matcher g) (gw_refs g) \<and>
     (\<forall>t i. gw_tokens g t = Some i \<longleftrightarrow> gw_refs_to_token g i = Some t) \<and>
     (\<forall>i. gw_refs_to_token g i \<noteq> None \<longrightarrow> is_strategy_ref i \<and> known (gw_matcher g) i) \<and>
     gw_live g \<subseteq> dom (gw_refs_to_token g) \<and>
     (\<forall>i m. gw_refs_to_token g i \<noteq> None \<longrightarrow> om_get i (mt_orders (gw_matcher g)) = Some m \<longrightarrow>
        \<not> is_terminal (m_state m) \<longrightarrow> i \<in> gw_live g) \<and>
     gw_fills_cursor g \<le> length (mt_fills (gw_matcher g)) \<and>
     gw_position g = net_of g (take (gw_fills_cursor g) (mt_fills (gw_matcher g))) \<and>
     unat (gc_max_shares (gw_cfg g)) < 2 ^ 31"

lemma books_okD:
  assumes "books_ok g"
  shows "venue_ok (gw_matcher g) (gw_refs g)" "gw_tokens g t = Some i \<longleftrightarrow> gw_refs_to_token g i = Some t"
    "gw_refs_to_token g i \<noteq> None \<Longrightarrow> is_strategy_ref i" "gw_refs_to_token g i \<noteq> None \<Longrightarrow> known (gw_matcher g) i"
    "gw_live g \<subseteq> dom (gw_refs_to_token g)"
    "gw_refs_to_token g i \<noteq> None \<Longrightarrow> om_get i (mt_orders (gw_matcher g)) = Some m \<Longrightarrow>
        \<not> is_terminal (m_state m) \<Longrightarrow> i \<in> gw_live g"
    "gw_fills_cursor g \<le> length (mt_fills (gw_matcher g))"
    "gw_position g = net_of g (take (gw_fills_cursor g) (mt_fills (gw_matcher g)))"
    "unat (gc_max_shares (gw_cfg g)) < 2 ^ 31"
  using assms unfolding books_ok_def by blast+

lemma net_cong:
  "gw_refs_to_token g' = gw_refs_to_token g \<Longrightarrow>
   (\<And>i m. gw_refs_to_token g i \<noteq> None \<Longrightarrow> om_get i (mt_orders (gw_matcher g)) = Some m \<Longrightarrow>
     \<exists>m'. om_get i (mt_orders (gw_matcher g')) = Some m' \<and> m_req m' = m_req m) \<Longrightarrow>
   (\<And>i. gw_refs_to_token g i \<noteq> None \<Longrightarrow> known (gw_matcher g) i) \<Longrightarrow> net_of g' fs = net_of g fs"
proof -
  assume a: "gw_refs_to_token g' = gw_refs_to_token g"
    "\<And>i m. gw_refs_to_token g i \<noteq> None \<Longrightarrow> om_get i (mt_orders (gw_matcher g)) = Some m \<Longrightarrow>
     \<exists>m'. om_get i (mt_orders (gw_matcher g')) = Some m' \<and> m_req m' = m_req m"
    "\<And>i. gw_refs_to_token g i \<noteq> None \<Longrightarrow> known (gw_matcher g) i"
  have "delta_for i n g' = delta_for i n g" if "gw_refs_to_token g i \<noteq> None" for i n
    using a(2) [OF that] a(3) [OF that] by (force simp: delta_for_def known_def)
  then have "fill_delta g' f = fill_delta g f" for f unfolding fill_delta_def a(1) by simp
  then show ?thesis by (simp add: net_of_def)
qed

text \<open>The venue moves on, or the rest of the state that the books do not mention.\<close>

lemma books_evolve:
  assumes b: "books_ok g" and e: "evolves (gw_matcher g) (gw_matcher g')" and v: "venue_ok (gw_matcher g') (gw_refs g')"
    and eq: "gw_tokens g' = gw_tokens g" "gw_refs_to_token g' = gw_refs_to_token g" "gw_live g' = gw_live g"
      "gw_position g' = gw_position g" "gw_fills_cursor g' = gw_fills_cursor g" "gw_cfg g' = gw_cfg g"
  shows "books_ok g'"
proof -
  note B = books_okD [OF b]
  obtain new where n: "mt_fills (gw_matcher g') = mt_fills (gw_matcher g) @ new" using e by (auto simp: evolves_def)
  have net: "net_of g' fs = net_of g fs" for fs
  proof (rule net_cong [OF eq(2)])
    show "\<exists>m'. om_get i (mt_orders (gw_matcher g')) = Some m' \<and> m_req m' = m_req m"
      if "om_get i (mt_orders (gw_matcher g)) = Some m" for i m
      using e that unfolding evolves_def by blast
  qed (rule B(4))
  have live: "i \<in> gw_live g" if i: "gw_refs_to_token g i \<noteq> None" "om_get i (mt_orders (gw_matcher g')) = Some m'"
    "\<not> is_terminal (m_state m')" for i m'
  proof -
    obtain m where m: "om_get i (mt_orders (gw_matcher g)) = Some m" using B(4) [OF i(1)] by (auto simp: known_def)
    have "\<not> is_terminal (m_state m)" by (rule evolves_meta [OF e m]) (use i(2,3) in auto)
    from B(6) [OF i(1) m this] show ?thesis .
  qed
  show ?thesis
    unfolding books_ok_def eq net
  proof (intro conjI allI impI)
    show "venue_ok (gw_matcher g') (gw_refs g')" by (rule v)
    show "gw_tokens g t = Some i \<longleftrightarrow> gw_refs_to_token g i = Some t" for t i by (rule B(2))
    show "is_strategy_ref i" "known (gw_matcher g') i" if "gw_refs_to_token g i \<noteq> None" for i
      using B(3) [OF that] evolves_known [OF e B(4) [OF that]] by blast+
    show "gw_live g \<subseteq> dom (gw_refs_to_token g)" by (rule B(5))
    show "i \<in> gw_live g" if "gw_refs_to_token g i \<noteq> None" "om_get i (mt_orders (gw_matcher g')) = Some m"
      "\<not> is_terminal (m_state m)" for i m by (rule live [OF that])
    show "gw_fills_cursor g \<le> length (mt_fills (gw_matcher g'))" using B(7) by (simp add: n)
    show "gw_position g = net_of g (take (gw_fills_cursor g) (mt_fills (gw_matcher g')))" using B(7,8) by (simp add: n)
    show "unat (gc_max_shares (gw_cfg g)) < 2 ^ 31" by (rule B(9))
  qed
qed

lemma books_core:
  assumes "books_ok g" "core g' = core g"
  shows "books_ok g'"
  by (rule books_evolve [OF assms(1)]) (use books_okD(1) [OF assms(1)] in \<open>simp_all add: coreD [OF assms(2)]\<close>)

lemma print_keeps:
  assumes "venue_ok s c"
  shows "venue_ok (s\<lparr> mt_book := (fst (mt_book s), note_feed_trade p n (snd (mt_book s))) \<rparr>) c"
proof -
  note V = venue_okD [OF assms] and D = engine_okD [OF venue_okD(1) [OF assms]]
  obtain st b where sb: "mt_book s = (st, b)" by (meson surj_pair)
  obtain Q where Q: "store_ok st" "book_ok st b Q" using D(1) by (auto simp: sb good_def)
  have g: "good (st, record_trade p (ucast n) b)" using Q(1) book_ok_trade [OF Q(2)] unfolding good_def by auto
  have v: "book_view (st, record_trade p (ucast n) b) = book_view (st, b)"
    by (simp add: book_view_ok [OF Q(2)] book_view_ok [OF book_ok_trade [OF Q(2)]])
  have "undisturbed (mt_book s) (st, record_trade p (ucast n) b) i" for i
    by (simp add: undisturbed_def sb rests_def v bound_def)
  from venue_step.moves [OF g this] have "venue_step s c (s\<lparr> mt_book := (st, record_trade p (ucast n) b) \<rparr>) c"
    by (simp add: sb bound_def)
  from venue_step_ok [OF this assms] show ?thesis by (simp add: sb note_feed_trade_def)
qed

section \<open>Handing on the fills\<close>

lemma drop_fields [simp]:
  "gw_cfg (drop_if_dead i g) = gw_cfg g" "gw_matcher (drop_if_dead i g) = gw_matcher g"
  "gw_refs (drop_if_dead i g) = gw_refs g" "gw_kill (drop_if_dead i g) = gw_kill g"
  "gw_tokens (drop_if_dead i g) = gw_tokens g" "gw_refs_to_token (drop_if_dead i g) = gw_refs_to_token g"
  "gw_position (drop_if_dead i g) = gw_position g" "gw_fills_cursor (drop_if_dead i g) = gw_fills_cursor g"
  "gw_in_flatten (drop_if_dead i g) = gw_in_flatten g" "gw_flattened (drop_if_dead i g) = gw_flattened g"
  "gw_itch (drop_if_dead i g) = gw_itch g" "gw_session (drop_if_dead i g) = gw_session g"
  "gw_replay_ns (drop_if_dead i g) = gw_replay_ns g" "gw_wall_ns (drop_if_dead i g) = gw_wall_ns g"
  "gw_asserted (drop_if_dead i g) = gw_asserted g" "gw_have_clock (drop_if_dead i g) = gw_have_clock g"
  "gw_accepts_sent (drop_if_dead i g) = gw_accepts_sent g" "gw_rejects_sent (drop_if_dead i g) = gw_rejects_sent g"
  by (simp_all add: drop_if_dead_def split: option.split)

lemma note_print_fields [simp]:
  "gw_cfg (note_print f g) = gw_cfg g" "gw_refs (note_print f g) = gw_refs g" "gw_kill (note_print f g) = gw_kill g"
  "gw_tokens (note_print f g) = gw_tokens g" "gw_refs_to_token (note_print f g) = gw_refs_to_token g"
  "gw_live (note_print f g) = gw_live g" "gw_position (note_print f g) = gw_position g"
  "gw_fills_cursor (note_print f g) = gw_fills_cursor g" "gw_in_flatten (note_print f g) = gw_in_flatten g"
  "gw_flattened (note_print f g) = gw_flattened g" "gw_itch (note_print f g) = gw_itch g"
  "gw_session (note_print f g) = gw_session g" "gw_replay_ns (note_print f g) = gw_replay_ns g"
  "gw_wall_ns (note_print f g) = gw_wall_ns g" "gw_asserted (note_print f g) = gw_asserted g"
  "gw_have_clock (note_print f g) = gw_have_clock g" "gw_accepts_sent (note_print f g) = gw_accepts_sent g"
  "gw_rejects_sent (note_print f g) = gw_rejects_sent g"
  "mt_orders (gw_matcher (note_print f g)) = mt_orders (gw_matcher g)"
  "mt_fills (gw_matcher (note_print f g)) = mt_fills (gw_matcher g)"
  by (simp_all add: note_print_def)

lemma live_drop: "gw_live (drop_if_dead i g) = gw_live g - {j. j = i \<and>
    (\<exists>m. om_get j (mt_orders (gw_matcher g)) = Some m \<and> is_terminal (m_state m))}"
  by (auto simp: drop_if_dead_def split: option.split)

definition ours :: "gateway \<Rightarrow> u64 \<Rightarrow> bool" where
  "ours g i \<longleftrightarrow> gw_refs_to_token g i \<noteq> None"

lemma pump_fill_fields:
  "gw_cfg (pump_fill f g) = gw_cfg g" "gw_refs (pump_fill f g) = gw_refs g" "gw_kill (pump_fill f g) = gw_kill g"
  "gw_tokens (pump_fill f g) = gw_tokens g" "gw_refs_to_token (pump_fill f g) = gw_refs_to_token g"
  "gw_fills_cursor (pump_fill f g) = gw_fills_cursor g" "gw_in_flatten (pump_fill f g) = gw_in_flatten g"
  "gw_flattened (pump_fill f g) = gw_flattened g" "gw_replay_ns (pump_fill f g) = gw_replay_ns g"
  "gw_wall_ns (pump_fill f g) = gw_wall_ns g" "gw_accepts_sent (pump_fill f g) = gw_accepts_sent g"
  "gw_rejects_sent (pump_fill f g) = gw_rejects_sent g"
  "gw_matcher (pump_fill f g) = (if ours g (fl_taker f) then gw_matcher (note_print f g) else gw_matcher g)"
  "gw_position (pump_fill f g) = gw_position g + fill_delta g f"
  "gw_live (pump_fill f g) = gw_live g - {i. i \<in> {fl_taker f, fl_maker f} \<and> ours g i \<and>
     (\<exists>m. om_get i (mt_orders (gw_matcher g)) = Some m \<and> is_terminal (m_state m))}"
  by (cases "gw_refs_to_token g (fl_taker f)"; cases "gw_refs_to_token g (fl_maker f)";
      auto simp: pump_fill_def Let_def ours_def fill_delta_def live_drop delta_for_def note_print_def)+

text \<open>What handing on the fills leaves alone.\<close>

definition behind :: "gateway \<Rightarrow> gateway \<Rightarrow> bool" where
  "behind g g' \<longleftrightarrow> mt_orders (gw_matcher g') = mt_orders (gw_matcher g) \<and> mt_fills (gw_matcher g') = mt_fills (gw_matcher g) \<and>
     gw_cfg g' = gw_cfg g \<and> gw_refs g' = gw_refs g \<and> gw_kill g' = gw_kill g \<and> gw_tokens g' = gw_tokens g \<and>
     gw_refs_to_token g' = gw_refs_to_token g \<and> gw_flattened g' = gw_flattened g \<and> gw_in_flatten g' = gw_in_flatten g \<and>
     gw_live g' \<subseteq> gw_live g \<and>
     gw_accepts_sent g' = gw_accepts_sent g \<and> gw_rejects_sent g' = gw_rejects_sent g \<and>
     gw_replay_ns g' = gw_replay_ns g"

lemma behind_trans: "behind a b \<Longrightarrow> behind b c \<Longrightarrow> behind a c"
  by (auto simp: behind_def)

lemma pump_one:
  assumes b: "books_ok g" and f: "gw_fills_cursor g < length (mt_fills (gw_matcher g))"
    "f = mt_fills (gw_matcher g) ! gw_fills_cursor g"
    and g1: "g' = pump_round f g"
  shows "books_ok g'" "behind g g'" "gw_fills_cursor g' = gw_fills_cursor g + 1"
proof -
  note B = books_okD [OF b] and F = pump_fill_fields [of f g] and g' = g1 [unfolded pump_round_def Let_def]
  have o: "mt_orders (gw_matcher g') = mt_orders (gw_matcher g)" "mt_fills (gw_matcher g') = mt_fills (gw_matcher g)"
    by (simp_all add: g' F(13))
  show c: "gw_fills_cursor g' = gw_fills_cursor g + 1" by (simp add: g' F)
  show "behind g g'" using o F by (auto simp: behind_def g')
  have v: "venue_ok (gw_matcher g') (gw_refs g')"
    using B(1) print_keeps [OF B(1)] by (simp add: g' F(2,13) note_print_def)
  have e: "fill_delta g' h = fill_delta g h" for h by (simp add: fill_delta_def g' F(5,13) delta_for_def)
  then have net: "net_of g' fs = net_of g fs" for fs by (simp add: net_of_def)
  have p: "gw_position g' = gw_position g + fill_delta g f" by (simp add: g' F(14))
  have pos: "gw_position g' = net_of g' (take (gw_fills_cursor g') (mt_fills (gw_matcher g')))"
    using B(8) f(1) by (simp add: p c o e f(2) take_Suc_conv_app_nth net_of_def)
  have k: "known (gw_matcher g') i = known (gw_matcher g) i" for i by (simp add: known_def o)
  have l: "gw_live g' = gw_live g - {i. i \<in> {fl_taker f, fl_maker f} \<and> ours g i \<and>
     (\<exists>m. om_get i (mt_orders (gw_matcher g)) = Some m \<and> is_terminal (m_state m))}" by (simp add: g' F(15))
  have r: "gw_refs_to_token g' = gw_refs_to_token g" "gw_tokens g' = gw_tokens g" "gw_in_flatten g' = gw_in_flatten g"
    "gw_cfg g' = gw_cfg g" by (simp_all add: g' F)
  show "books_ok g'"
    unfolding books_ok_def k r
  proof (intro conjI allI impI)
    show "venue_ok (gw_matcher g') (gw_refs g')" by (rule v)
    show "gw_tokens g t = Some i \<longleftrightarrow> gw_refs_to_token g i = Some t" for t i by (rule B(2))
    show "is_strategy_ref i" "known (gw_matcher g) i" if "gw_refs_to_token g i \<noteq> None" for i
      using B(3,4) that by blast+
    show "gw_live g' \<subseteq> dom (gw_refs_to_token g)" using B(5) l by blast
    show "i \<in> gw_live g'" if "gw_refs_to_token g i \<noteq> None" "om_get i (mt_orders (gw_matcher g')) = Some m"
      "\<not> is_terminal (m_state m)" for i m
      using B(6) [OF that(1) that(2) [unfolded o] that(3)] that(2,3) l o(1) by auto
    show "gw_fills_cursor g' \<le> length (mt_fills (gw_matcher g'))" using f c o by simp
    show "gw_position g' = net_of g' (take (gw_fills_cursor g') (mt_fills (gw_matcher g')))" by (rule pos)
    show "unat (gc_max_shares (gw_cfg g)) < 2 ^ 31" by (rule B(9))
  qed
qed

lemma pump_fold:
  "books_ok g \<Longrightarrow> drop (gw_fills_cursor g) (mt_fills (gw_matcher g)) = fs \<Longrightarrow>
   books_ok (fold pump_round fs g) \<and>
   behind g (fold pump_round fs g) \<and>
   gw_fills_cursor (fold pump_round fs g) =
     length (mt_fills (gw_matcher g))"
proof (induction fs arbitrary: g)
  case Nil
  then show ?case using books_okD(7) [OF Nil(1)] by (simp add: behind_def)
next
  case (Cons f fs)
  define g1 where "g1 = pump_round f g"
  have c: "gw_fills_cursor g < length (mt_fills (gw_matcher g))"
    using Cons.prems(2) by (metis drop_all list.distinct(1) not_le)
  have f: "f = mt_fills (gw_matcher g) ! gw_fills_cursor g" using Cons.prems(2) c
    by (metis hd_drop_conv_nth list.sel(1))
  note P = pump_one [OF Cons.prems(1) c f g1_def]
  have "drop (gw_fills_cursor g1) (mt_fills (gw_matcher g1)) = fs"
    using Cons.prems(2) P(2,3) by (simp add: behind_def) (metis drop_Suc list.sel(3) tl_drop)
  from Cons.IH [OF P(1) this] have I: "books_ok (fold pump_round fs g1)" "behind g1 (fold pump_round fs g1)"
    "gw_fills_cursor (fold pump_round fs g1) = length (mt_fills (gw_matcher g1))" by blast+
  have "mt_fills (gw_matcher g1) = mt_fills (gw_matcher g)" using P(2) by (simp add: behind_def)
  then show ?case using I behind_trans [OF P(2) I(2)] by (simp add: g1_def)
qed

lemma pump_ok:
  assumes "books_ok g"
  shows "books_ok (pump_fills now g)" "behind g (pump_fills now g)"
    "gw_fills_cursor (pump_fills now g) = length (mt_fills (gw_matcher g))"
proof -
  have b: "books_ok (set_wall now g)"
    by (rule books_evolve [OF assms]) (use books_okD(1) [OF assms] in simp_all)
  have w: "behind g (set_wall now g)" by (simp add: behind_def)
  note P = pump_fold [OF b refl]
  have e: "pump_fills now g =
      fold pump_round (drop (gw_fills_cursor (set_wall now g)) (mt_fills (gw_matcher (set_wall now g)))) (set_wall now g)"
    by (simp add: pump_fills_def Let_def)
  show "books_ok (pump_fills now g)" "behind g (pump_fills now g)"
    "gw_fills_cursor (pump_fills now g) = length (mt_fills (gw_matcher g))"
    unfolding e using P behind_trans [OF w P [THEN conjunct2, THEN conjunct1]] by simp_all
qed

section \<open>An order of ours\<close>

text \<open>A submission of ours under the next reference, up to the registration.\<close>

lemma books_register:
  assumes b: "books_ok g" and tok: "gw_tokens g tok = None" and i: "gw_refs_to_token g i = None" "is_strategy_ref i"
    and m: "om_get i (mt_orders (gw_matcher g)) = Some m" "is_terminal (rs_state res) \<Longrightarrow> is_terminal (m_state m)"
    and new: "\<forall>f \<in> set (take (gw_fills_cursor g) (mt_fills (gw_matcher g))). fl_taker f \<noteq> i \<and> fl_maker f \<noteq> i"
  shows "books_ok (register_order tok i res g)"
proof -
  note B = books_okD [OF b]
  let ?g = "register_order tok i res g"
  have r: "gw_tokens ?g = (gw_tokens g)(tok \<mapsto> i)" "gw_refs_to_token ?g = (gw_refs_to_token g)(i \<mapsto> tok)"
    "gw_live ?g = (if is_terminal (rs_state res) then gw_live g else insert i (gw_live g))"
    "gw_matcher ?g = gw_matcher g" "gw_refs ?g = gw_refs g" "gw_position ?g = gw_position g"
    "gw_fills_cursor ?g = gw_fills_cursor g" "gw_cfg ?g = gw_cfg g"
    using tok i(1) by (simp_all add: register_order_def emplace_def)
  have "fill_delta ?g f = fill_delta g f" if "fl_taker f \<noteq> i" "fl_maker f \<noteq> i" for f
    using that by (simp add: fill_delta_def r delta_for_def)
  then have net: "net_of ?g (take (gw_fills_cursor g) (mt_fills (gw_matcher g))) =
      net_of g (take (gw_fills_cursor g) (mt_fills (gw_matcher g)))"
    unfolding net_of_def using new by (intro arg_cong [where f = sum_list] map_cong) auto
  show ?thesis
    unfolding books_ok_def r net
  proof (intro conjI allI impI)
    show "venue_ok (gw_matcher g) (gw_refs g)" by (rule B(1))
    have "gw_tokens g t \<noteq> Some i" for t using B(2) i(1) by simp
    moreover have "gw_refs_to_token g j \<noteq> Some tok" for j using B(2) tok by (metis option.distinct(1))
    ultimately show "((gw_tokens g)(tok \<mapsto> i)) t = Some j \<longleftrightarrow> ((gw_refs_to_token g)(i \<mapsto> tok)) j = Some t" for t j
      using B(2) by (cases "t = tok"; cases "j = i") simp_all
    show "is_strategy_ref j" "known (gw_matcher g) j" if "((gw_refs_to_token g)(i \<mapsto> tok)) j \<noteq> None" for j
      using that B(3,4) i m(1) by (auto simp: known_def split: if_splits)
    show "(if is_terminal (rs_state res) then gw_live g else insert i (gw_live g)) \<subseteq> dom ((gw_refs_to_token g)(i \<mapsto> tok))"
      using B(5) by auto
    show "j \<in> (if is_terminal (rs_state res) then gw_live g else insert i (gw_live g))"
      if "((gw_refs_to_token g)(i \<mapsto> tok)) j \<noteq> None" "om_get j (mt_orders (gw_matcher g)) = Some n" "\<not> is_terminal (m_state n)"
      for j n using that B(6) m by (cases "j = i") auto
    show "gw_fills_cursor g \<le> length (mt_fills (gw_matcher g))" by (rule B(7))
    show "gw_position g = net_of g (take (gw_fills_cursor g) (mt_fills (gw_matcher g)))" by (rule B(8))
    show "unat (gc_max_shares (gw_cfg g)) < 2 ^ 31" by (rule B(9))
  qed
qed

lemma books_drop:
  assumes b: "books_ok g" and m: "om_get i (mt_orders (gw_matcher g)) = Some m" "is_terminal (m_state m)"
  shows "books_ok (g\<lparr> gw_live := gw_live g - {i} \<rparr>)"
proof -
  let ?g = "g\<lparr> gw_live := gw_live g - {i} \<rparr>"
  have "net_of ?g fs = net_of g fs" for fs
    by (rule net_cong) (use books_okD(4) [OF b] in auto)
  then show ?thesis using b m unfolding books_ok_def by auto
qed

lemma answer_ok:
  assumes b: "books_ok g" and m: "om_get i (mt_orders (gw_matcher g)) = Some m" "is_terminal (rs_state res) \<Longrightarrow> is_terminal (m_state m)"
  shows "books_ok (after_answer i side price res g)" "behind g (after_answer i side price res g)"
proof -
  define g1 where "g1 = pump_fills (gw_wall_ns g) g"
  note P = pump_ok [OF b, of "gw_wall_ns g", folded g1_def]
  define g2 where "g2 = (case om_get i (mt_orders (gw_matcher g1)) of
                 None \<Rightarrow> g1
               | Some m \<Rightarrow> if m_in_book m then emit_itch_add i side (m_resting m) price g1 else g1)"
  have c: "core g2 = core g1" by (auto simp: g2_def sending split: option.split)
  have 2: "books_ok g2" by (rule books_core [OF P(1) c])
  have a: "gw_accepts_sent g2 = gw_accepts_sent g1" "gw_rejects_sent g2 = gw_rejects_sent g1"
    by (simp_all add: g2_def split: option.split)
  have b2: "behind g g2" using P(2) a by (simp add: behind_def coreD [OF c])
  have m2: "om_get i (mt_orders (gw_matcher g2)) = Some m" using b2 m(1) by (simp add: behind_def)
  have e: "after_answer i side price res g = (if is_terminal (rs_state res) then g2\<lparr> gw_live := gw_live g2 - {i} \<rparr> else g2)"
    unfolding after_answer_def Let_def g2_def g1_def ..
  show "books_ok (after_answer i side price res g)"
    using 2 books_drop [OF 2 m2] m(2) by (simp add: e)
  show "behind g (after_answer i side price res g)"
    using b2 unfolding e by (auto simp: behind_def)
qed

text \<open>What an operation may do to the engine and the counter: one submission under the next reference.\<close>

lemma own_submit:
  assumes b: "books_ok g" and n: "ref_next (gw_refs g) = (i, c')" "unat (gw_refs g) + 1 < 2 ^ 63"
    and q: "is_i32 price" "unat shares < 2 ^ 31" and room: "load (gw_matcher g) + 1 < 2 ^ 32"
    and tok: "gw_tokens g tok = None"
  obtains res s' m where "submit (new_request i owner sd is_market price shares) (gw_matcher g) = Some (res, s')"
    "books_ok (g\<lparr> gw_refs := c', gw_matcher := s' \<rparr>)"
    "books_ok (register_order tok i res (g\<lparr> gw_refs := c', gw_matcher := s' \<rparr>))"
    "om_get i (mt_orders s') = Some m" "m_req m = new_request i owner sd is_market price shares"
    "is_terminal (rs_state res) \<Longrightarrow> is_terminal (m_state m)"
    "\<not> rs_accepted res \<Longrightarrow> is_terminal (rs_state res)" "evolves (gw_matcher g) s'" "gw_refs_to_token g i = None"
proof -
  note B = books_okD [OF b]
  let ?req = "new_request i owner sd is_market price shares"
  have r: "rq_id ?req = i" "is_i32 (rq_price ?req)" "unat (rq_quantity ?req) < 2 ^ 31"
    using q by (simp_all add: new_request_def is_i32_def)
  note N = ref_next_new [OF n(2,1)]
  have n': "ref_next (gw_refs g) = (rq_id ?req, c')" using n(1) by (simp add: r)
  note V = venue_submit [OF B(1) n' n(2) r(2,3) room]
  from V(1) obtain res s' where s: "submit ?req (gw_matcher g) = Some (res, s')" by blast
  from V(4) [OF s] obtain m where m: "om_get i (mt_orders s') = Some m" "m_req m = ?req"
    "is_terminal (rs_state res) \<longrightarrow> is_terminal (m_state m)" by (auto simp: r)
  let ?g = "g\<lparr> gw_refs := c', gw_matcher := s' \<rparr>"
  have b': "books_ok ?g"
    by (rule books_evolve [OF b]) (use V(2,3) [OF s] in simp_all)
  have nk: "\<not> known (gw_matcher g) i" using V(6) by (simp add: r)
  have un: "gw_refs_to_token g i = None" using B(4) nk by blast
  have "fl_taker f \<noteq> i \<and> fl_maker f \<noteq> i" if "f \<in> set (take (gw_fills_cursor g) (mt_fills s'))" for f
  proof -
    obtain new where "mt_fills s' = mt_fills (gw_matcher g) @ new" using V(3) [OF s] by (auto simp: evolves_def)
    then have "f \<in> set (mt_fills (gw_matcher g))" using that B(7) by (auto dest: in_set_takeD)
    then show ?thesis using venue_okD(4,5) [OF B(1)] nk N(3) by blast
  qed
  then have reg: "books_ok (register_order tok i res ?g)"
    using tok un N(3) m by (intro books_register [OF b']) auto
  show thesis by (rule that [OF s b' reg m(1,2)]) (use m(3) V(3,5) [OF s] un in auto)
qed

section \<open>The handlers\<close>

lemma validated: "validate_new side shares stk price is_market g = 0 \<Longrightarrow> shares \<le> gc_max_shares (gw_cfg g)"
  by (auto simp: validate_new_def kInvalidStock_def kOtherReason_def kSafetyThreshold_def split: if_splits)

lemma reject_ok: "books_ok g \<Longrightarrow> books_ok (send_reject t c g)"
  by (erule books_core) (rule sending)

definition room_for :: "gateway \<Rightarrow> bool" where
  "room_for g \<longleftrightarrow> load (gw_matcher g) + 1 < 2 ^ 32 \<and> unat (gw_refs g) + 1 < 2 ^ 63"

text \<open>How an entry is answered: refused, with the token free for another try, or registered under the next
  reference.\<close>

definition refused :: "gateway \<Rightarrow> gateway \<Rightarrow> bool" where
  "refused g g' \<longleftrightarrow> gw_rejects_sent g' = gw_rejects_sent g + 1 \<and> gw_accepts_sent g' = gw_accepts_sent g \<and>
     gw_tokens g' = gw_tokens g \<and> gw_refs_to_token g' = gw_refs_to_token g"

definition registered :: "token \<Rightarrow> gateway \<Rightarrow> gateway \<Rightarrow> bool" where
  "registered tok g g' \<longleftrightarrow> gw_rejects_sent g' = gw_rejects_sent g \<and> gw_tokens g tok = None \<and>
     gw_tokens g' = (gw_tokens g)(tok \<mapsto> fst (ref_next (gw_refs g))) \<and>
     gw_refs_to_token g' = (gw_refs_to_token g)(fst (ref_next (gw_refs g)) \<mapsto> tok)"

lemma register_fields:
  "gw_tokens g tok = None \<Longrightarrow> gw_refs_to_token g i = None \<Longrightarrow>
   gw_tokens (register_order tok i res g) = (gw_tokens g)(tok \<mapsto> i) \<and>
   gw_refs_to_token (register_order tok i res g) = (gw_refs_to_token g)(i \<mapsto> tok)"
  "gw_matcher (register_order tok i res g) = gw_matcher g" "gw_accepts_sent (register_order tok i res g) = gw_accepts_sent g"
  "gw_rejects_sent (register_order tok i res g) = gw_rejects_sent g" "gw_kill (register_order tok i res g) = gw_kill g"
  "gw_itch (register_order tok i res g) = gw_itch g" "gw_cfg (register_order tok i res g) = gw_cfg g"
  "gw_replay_ns (register_order tok i res g) = gw_replay_ns g" "gw_fills_cursor (register_order tok i res g) = gw_fills_cursor g"
  "gw_flattened (register_order tok i res g) = gw_flattened g" "gw_in_flatten (register_order tok i res g) = gw_in_flatten g"
  by (simp_all add: register_order_def emplace_def)

lemma submit_new_ok:
  assumes b: "books_ok g" and room: "room_for g" and tok: "gw_tokens g tok = None"
    and q: "is_i32 price" "unat shares < 2 ^ 31"
  shows "\<exists>g'. submit_new tok side shares price is_market stk p g = Some g' \<and> books_ok g' \<and>
    evolves (gw_matcher g) (gw_matcher g') \<and> gw_kill g' = gw_kill g \<and> gw_flattened g' = gw_flattened g \<and> gw_in_flatten g' = gw_in_flatten g \<and>
    (refused g g' \<or> registered tok g g' \<and> gw_accepts_sent g' = gw_accepts_sent g + 1)"
proof -
  obtain i c' where n: "ref_next (gw_refs g) = (i, c')" by fastforce
  from own_submit [OF b n _ q _ tok, of "firm_key (ouch_enter_order_firm p)" "if side = ch CHR ''B'' then Buy else Sell" is_market]
    room obtain res s' m where
    s: "submit (new_request i (firm_key (ouch_enter_order_firm p)) (if side = ch CHR ''B'' then Buy else Sell) is_market price shares)
        (gw_matcher g) = Some (res, s')"
    and bk: "books_ok (g\<lparr> gw_refs := c', gw_matcher := s' \<rparr>)"
      "books_ok (register_order tok i res (g\<lparr> gw_refs := c', gw_matcher := s' \<rparr>))"
    and m: "om_get i (mt_orders s') = Some m" "is_terminal (rs_state res) \<Longrightarrow> is_terminal (m_state m)"
    and ev: "evolves (gw_matcher g) s'" and un: "gw_refs_to_token g i = None"
    unfolding room_for_def by metis
  let ?g = "g\<lparr> gw_refs := c', gw_matcher := s' \<rparr>"
  have m0: "gw_matcher (g\<lparr> gw_refs := c' \<rparr>) = gw_matcher g" by simp
  show ?thesis
  proof (cases "rs_accepted res")
    case False
    then have "submit_new tok side shares price is_market stk p g = Some (send_reject tok kOtherReason ?g)"
      unfolding submit_new_def n Let_def prod.case m0 s by simp
    then show ?thesis using reject_ok [OF bk(1)] ev by (simp add: refused_def)
  next
    case True
    let ?g1 = "register_order tok i res ?g"
    let ?g2 = "send_accepted tok side (shown_shares res shares) stk price i (order_state res) ?g1"
    let ?r = "new_request i (firm_key (ouch_enter_order_firm p)) (if side = ch CHR ''B'' then Buy else Sell) is_market price shares"
    have e: "submit_new tok side shares price is_market stk p g = Some (after_answer i side (rq_price ?r) res ?g2)"
      using True unfolding submit_new_def n Let_def prod.case m0 s by simp
    have 2: "books_ok ?g2" by (rule books_core [OF bk(2) sending(7)])
    have m2: "om_get i (mt_orders (gw_matcher ?g2)) = Some m" using m(1) by (simp add: register_fields)
    note A = answer_ok [where side = side and price = "rq_price ?r", OF 2 m2 m(2)]
    have ev': "evolves s' (gw_matcher (after_answer i side (rq_price ?r) res ?g2))"
      using A(2) by (simp add: behind_def evolves_def register_fields)
    show ?thesis
      using e A evolves_trans [OF ev ev'] register_fields(1) [of ?g tok i res] tok un n
      by (simp add: behind_def registered_def register_fields)
  qed
qed

lemma on_enter_ok:
  assumes b: "books_ok g" and room: "room_for g"
  shows "\<exists>g'. on_enter p g = Some g' \<and> books_ok g' \<and> evolves (gw_matcher g) (gw_matcher g') \<and> gw_kill g' = gw_kill g \<and>
    gw_flattened g' = gw_flattened g \<and> gw_in_flatten g' = gw_in_flatten g \<and>
    (refused g g' \<or> registered (make_token (ouch_enter_order_order_token p)) g g' \<and> gw_accepts_sent g' = gw_accepts_sent g + 1)"
proof -
  let ?tok = "make_token (ouch_enter_order_order_token p)"
  let ?price = "ouch_enter_order_price p" and ?sh = "ouch_enter_order_shares p" and ?side = "ouch_enter_order_side p"
  let ?mk = "?price \<ge> kMarketOrderThreshold"
  have rej: "refused g (send_reject t c g)" for t c by (simp add: refused_def)
  have "(\<exists>c. on_enter p g = Some (send_reject ?tok c g)) \<or> gw_tokens g ?tok = None \<and>
      validate_new ?side ?sh (ouch_enter_order_stock p) ?price ?mk g = 0 \<and>
      on_enter p g = submit_new ?tok ?side ?sh ?price ?mk (ouch_enter_order_stock p) p g"
    unfolding on_enter_def Let_def by auto
  then show ?thesis
  proof (elim disjE exE conjE)
    fix c assume "on_enter p g = Some (send_reject ?tok c g)"
    then show ?thesis using reject_ok [OF b] rej by simp
  next
    assume 2: "gw_tokens g ?tok = None" "validate_new ?side ?sh (ouch_enter_order_stock p) ?price ?mk g = 0"
      "on_enter p g = submit_new ?tok ?side ?sh ?price ?mk (ouch_enter_order_stock p) p g"
    have "unat ?sh < 2 ^ 31" using validated [OF 2(2)] books_okD(9) [OF b] by (simp add: word_le_nat_alt)
    moreover have "is_i32 ?price" by (simp add: ouch_enter_order_price_def)
    ultimately show ?thesis unfolding 2(3) by (intro submit_new_ok [OF b room 2(1)])
  qed
qed

text \<open>A cancel of an order of ours, on the books.\<close>

lemma books_cancel:
  assumes b: "books_ok g" and c: "cancel i (gw_matcher g) = (went, s')" and i: "went \<Longrightarrow> gw_refs_to_token g i \<noteq> None"
  shows "books_ok (g\<lparr> gw_matcher := s', gw_live := (if went then gw_live g - {i} else gw_live g) \<rparr>)"
    "evolves (gw_matcher g) s'" "load s' \<le> load (gw_matcher g)"
proof -
  note B = books_okD [OF b] and V = venue_okD [OF books_okD(1) [OF b]]
  have g: "grows (gw_matcher g) s'" by (rule cancel_grows' [OF V(1) c])
  have "engine_ok {} no_flight s'" using cancel_ok(1) [OF V(1), of i] c by simp
  note v = venue_grows [OF B(1) g this]
  show "evolves (gw_matcher g) s'" by (rule grows_evolves [OF g])
  have b': "books_ok (g\<lparr> gw_matcher := s' \<rparr>)"
    by (rule books_evolve [OF b]) (use v grows_evolves [OF g] in simp_all)
  show "load s' \<le> load (gw_matcher g)" using cancel_ok(2) [OF V(1), of i] c by simp
  show "books_ok (g\<lparr> gw_matcher := s', gw_live := (if went then gw_live g - {i} else gw_live g) \<rparr>)"
  proof (cases went)
    case False
    then show ?thesis using b' by simp
  next
    case True
    then obtain m where "om_get i (mt_orders (gw_matcher g)) = Some m" using cancel_result(1) [OF c] by blast
    then have "om_get i (mt_orders s') = Some (m\<lparr> m_in_book := False, m_resting := 0, m_hidden := 0,
          m_cancelled := m_cancelled m + (m_resting m + m_hidden m), m_state := Cancelled \<rparr>)"
      using cancel_effect(2) [OF V(1) c, of i] True by simp
    then show ?thesis using books_drop [OF b'] True by simp
  qed
qed

lemma on_cancel_ok:
  assumes "books_ok g"
  shows "books_ok (on_cancel p g)" "evolves (gw_matcher g) (gw_matcher (on_cancel p g))"
    "gw_in_flatten (on_cancel p g) = gw_in_flatten g" "gw_flattened (on_cancel p g) = gw_flattened g"
proof -
  let ?tok = "make_token (ouch_cancel_order_order_token p)"
  have "books_ok (on_cancel p g) \<and> evolves (gw_matcher g) (gw_matcher (on_cancel p g)) \<and>
    gw_in_flatten (on_cancel p g) = gw_in_flatten g \<and> gw_flattened (on_cancel p g) = gw_flattened g"
  proof (cases "\<exists>i m. gw_tokens g ?tok = Some i \<and> om_get i (mt_orders (gw_matcher g)) = Some m")
    case False
    then have "on_cancel p g = g" by (auto simp: on_cancel_def Let_def split: option.split)
    then show ?thesis using assms by simp
  next
    case True
    then obtain i m where i: "gw_tokens g ?tok = Some i" "om_get i (mt_orders (gw_matcher g)) = Some m" by blast
    obtain went s' where c: "cancel i (gw_matcher g) = (went, s')" by fastforce
    have "gw_refs_to_token g i \<noteq> None" using books_okD(2) [OF assms] i(1) by simp
    note C = books_cancel [OF assms c this]
    let ?g = "g\<lparr> gw_matcher := s', gw_live := (if went then gw_live g - {i} else gw_live g) \<rparr>"
    have "core (on_cancel p g) = core ?g"
    proof (cases went)
      case True
      then show ?thesis by (simp add: on_cancel_def Let_def i c sending)
    next
      case False
      then show ?thesis by (simp add: on_cancel_def Let_def i c)
    qed
    from books_core [OF C(1) this] coreD [OF this] C(2) show ?thesis by simp
  qed
  then show "books_ok (on_cancel p g)" "evolves (gw_matcher g) (gw_matcher (on_cancel p g))"
    "gw_in_flatten (on_cancel p g) = gw_in_flatten g" "gw_flattened (on_cancel p g) = gw_flattened g" by blast+
qed

lemma replace_original_ok:
  assumes b: "books_ok g" and room: "room_for g" and fresh: "gw_tokens g fresh = None"
    and old: "gw_refs_to_token g old_id \<noteq> None" and q: "is_i32 price" "unat shares < 2 ^ 31"
  shows "\<exists>g'. replace_original existing fresh old_id m side shares price is_market g = Some g' \<and> books_ok g' \<and>
    evolves (gw_matcher g) (gw_matcher g') \<and> gw_kill g' = gw_kill g \<and> gw_flattened g' = gw_flattened g \<and>
    gw_in_flatten g' = gw_in_flatten g \<and>
    (refused g g' \<or> registered fresh g g' \<and> gw_accepts_sent g' = gw_accepts_sent g)"
proof -
  obtain went s1 where c: "cancel old_id (gw_matcher g) = (went, s1)" by fastforce
  note C = books_cancel [OF b c old]
  show ?thesis
  proof (cases went)
    case False
    then have "s1 = gw_matcher g" using cancel_result(2) [OF c] by simp
    then have "replace_original existing fresh old_id m side shares price is_market g = Some (send_reject fresh kOtherReason g)"
      using False by (simp add: replace_original_def c)
    then show ?thesis using reject_ok [OF b] by (simp add: refused_def)
  next
    case True
    define g1 where "g1 = (if m_in_book m then emit_itch_delete old_id (send_canceled existing (m_resting m + m_hidden m) kUserRequested
        (g\<lparr> gw_matcher := s1, gw_live := gw_live g - {old_id} \<rparr>))
      else send_canceled existing (m_resting m + m_hidden m) kUserRequested
        (g\<lparr> gw_matcher := s1, gw_live := gw_live g - {old_id} \<rparr>))"
    have c1: "core g1 = core (g\<lparr> gw_matcher := s1, gw_live := gw_live g - {old_id} \<rparr>)" by (simp add: g1_def sending)
    note K = coreD [OF c1, simplified]
    have a1: "gw_accepts_sent g1 = gw_accepts_sent g" "gw_rejects_sent g1 = gw_rejects_sent g"
      by (simp_all add: g1_def)
    have b1: "books_ok g1" by (rule books_core [OF C(1) [unfolded if_P [OF True]] c1])
    obtain i c' where n: "ref_next (gw_refs g1) = (i, c')" by fastforce
    have room1: "load (gw_matcher g1) + 1 < 2 ^ 32" "unat (gw_refs g1) + 1 < 2 ^ 63"
      using room C(3) by (simp_all add: room_for_def K)
    have fresh1: "gw_tokens g1 fresh = None" using fresh by (simp add: K)
    obtain res s' n' where
      s: "submit (new_request i (rq_owner (m_req m)) (rq_side (m_req m)) is_market price shares) (gw_matcher g1) = Some (res, s')"
      and bk: "books_ok (g1\<lparr> gw_refs := c', gw_matcher := s' \<rparr>)"
        "books_ok (register_order fresh i res (g1\<lparr> gw_refs := c', gw_matcher := s' \<rparr>))"
      and m: "om_get i (mt_orders s') = Some n'" "is_terminal (rs_state res) \<Longrightarrow> is_terminal (m_state n')"
      and ev: "evolves (gw_matcher g1) s'" and un: "gw_refs_to_token g1 i = None"
      by (rule own_submit [OF b1 n room1(2) q room1(1) fresh1]) blast
    let ?g = "g1\<lparr> gw_refs := c', gw_matcher := s' \<rparr>"
    let ?r = "new_request i (rq_owner (m_req m)) (rq_side (m_req m)) is_market price shares"
    have ev1: "evolves (gw_matcher g) s'" using evolves_trans [OF C(2)] ev by (simp add: K)
    have m0: "gw_matcher (g1\<lparr> gw_refs := c' \<rparr>) = gw_matcher g1" by simp
    have e: "replace_original existing fresh old_id m side shares price is_market g =
      (if \<not> rs_accepted res then Some (send_reject fresh kOtherReason ?g)
       else Some (after_answer i side (rq_price ?r) res (send_replaced fresh existing side (shown_shares res shares) price i
          (order_state res) (register_order fresh i res ?g))))"
    proof -
      have "(if m_in_book m then emit_itch_delete old_id (send_canceled existing (m_resting m + m_hidden m) kUserRequested
          ((g\<lparr> gw_matcher := s1 \<rparr>)\<lparr> gw_live := gw_live (g\<lparr> gw_matcher := s1 \<rparr>) - {old_id} \<rparr>))
        else send_canceled existing (m_resting m + m_hidden m) kUserRequested
          ((g\<lparr> gw_matcher := s1 \<rparr>)\<lparr> gw_live := gw_live (g\<lparr> gw_matcher := s1 \<rparr>) - {old_id} \<rparr>)) = g1"
        by (simp add: g1_def)
      note f = this
      show ?thesis
        using True unfolding replace_original_def c Let_def prod.case f n m0 s by simp
    qed
    show ?thesis
    proof (cases "rs_accepted res")
      case False
      then show ?thesis using e reject_ok [OF bk(1)] ev1 a1 by (simp add: refused_def K)
    next
      case True
      let ?g1 = "register_order fresh i res ?g"
      let ?g2 = "send_replaced fresh existing side (shown_shares res shares) price i (order_state res) ?g1"
      have 2: "books_ok ?g2" by (rule books_core [OF bk(2) sending(8)])
      have m2: "om_get i (mt_orders (gw_matcher ?g2)) = Some n'" using m(1) by (simp add: register_fields)
      note A = answer_ok [where side = side and price = "rq_price ?r", OF 2 m2 m(2)]
      have ev': "evolves s' (gw_matcher (after_answer i side (rq_price ?r) res ?g2))"
        using A(2) by (simp add: behind_def evolves_def register_fields)
      show ?thesis
        using e True A evolves_trans [OF ev1 ev'] register_fields(1) [of ?g fresh i res] fresh1 un n a1
        by (simp add: behind_def registered_def register_fields K)
    qed
  qed
qed

lemma on_replace_ok:
  assumes b: "books_ok g" and room: "room_for g"
  shows "\<exists>g'. on_replace p g = Some g' \<and> books_ok g' \<and> evolves (gw_matcher g) (gw_matcher g') \<and> gw_kill g' = gw_kill g \<and>
    gw_flattened g' = gw_flattened g \<and> gw_in_flatten g' = gw_in_flatten g \<and>
    (refused g g' \<or> registered (make_token (ouch_replace_order_replacement_order_token p)) g g' \<and>
       gw_accepts_sent g' = gw_accepts_sent g)"
proof -
  let ?old = "make_token (ouch_replace_order_existing_order_token p)"
  let ?tok = "make_token (ouch_replace_order_replacement_order_token p)"
  let ?price = "ouch_replace_order_price p" and ?sh = "ouch_replace_order_shares p"
  let ?mk = "?price \<ge> kMarketOrderThreshold"
  have rej: "refused g (send_reject t c g)" for t c by (simp add: refused_def)
  have "(\<exists>c. on_replace p g = Some (send_reject ?tok c g)) \<or> (\<exists>old_id m side. gw_tokens g ?old = Some old_id \<and>
      gw_tokens g ?tok = None \<and> ?sh \<le> gc_max_shares (gw_cfg g) \<and>
      on_replace p g = replace_original ?old ?tok old_id m side ?sh ?price ?mk g)"
    using validated [of _ ?sh "cfg_stock_wire g" ?price ?mk "g\<lparr> gw_position := restored_position _ (gw_position g) \<rparr>"]
    unfolding on_replace_def Let_def by (auto split: option.split)
  then show ?thesis
  proof (elim disjE exE conjE)
    fix c assume "on_replace p g = Some (send_reject ?tok c g)"
    then show ?thesis using reject_ok [OF b] rej by simp
  next
    fix old_id m side
    assume 2: "gw_tokens g ?old = Some old_id" "gw_tokens g ?tok = None" "?sh \<le> gc_max_shares (gw_cfg g)"
      "on_replace p g = replace_original ?old ?tok old_id m side ?sh ?price ?mk g"
    have "unat ?sh < 2 ^ 31" using 2(3) books_okD(9) [OF b] by (simp add: word_le_nat_alt)
    moreover have "is_i32 ?price" by (simp add: ouch_replace_order_price_def)
    moreover have "gw_refs_to_token g old_id \<noteq> None" using books_okD(2) [OF b] 2(1) by simp
    ultimately show ?thesis unfolding 2(4) by (intro replace_original_ok [OF b room 2(2)])
  qed
qed

section \<open>The end of the session\<close>

lemma flatten_one_books:
  assumes b: "books_ok g" and i: "i \<in> dom (gw_refs_to_token g)" and f: "flatten_one i (n, g) = (n', g')"
  shows "books_ok g'" "gw_refs_to_token g' = gw_refs_to_token g" "evolves (gw_matcher g) (gw_matcher g')"
    "gw_tokens g' = gw_tokens g" "gw_refs g' = gw_refs g" "gw_position g' = gw_position g"
proof -
  obtain m where m: "om_get i (mt_orders (gw_matcher g)) = Some m" using books_okD(4) [OF b] i by (auto simp: known_def)
  obtain went s' where c: "cancel i (gw_matcher g) = (went, s')" by fastforce
  note R = cancel_result [OF c] and C = books_cancel [OF b c, of]
  have C: "books_ok (g\<lparr> gw_matcher := s', gw_live := (if went then gw_live g - {i} else gw_live g) \<rparr>)"
    "evolves (gw_matcher g) s'" using books_cancel [OF b c] i by auto
  have "books_ok g' \<and> gw_refs_to_token g' = gw_refs_to_token g \<and> evolves (gw_matcher g) (gw_matcher g') \<and>
    gw_tokens g' = gw_tokens g \<and> gw_refs g' = gw_refs g \<and> gw_position g' = gw_position g"
  proof (cases "is_terminal (m_state m)")
    case True
    then have "g' = g\<lparr> gw_live := gw_live g - {i} \<rparr>" using f m by (simp add: flatten_one_def)
    then show ?thesis using books_drop [OF b m True] by simp
  next
    case False
    then have went: went using R(1) m by simp
    have "core g' = core (g\<lparr> gw_matcher := s', gw_live := gw_live g - {i} \<rparr>)"
      using f m False went by (auto simp: flatten_one_def c Let_def sending)
    from books_core [OF _ this] coreD [OF this] C went show ?thesis by simp
  qed
  then show "books_ok g'" "gw_refs_to_token g' = gw_refs_to_token g" "evolves (gw_matcher g) (gw_matcher g')"
    "gw_tokens g' = gw_tokens g" "gw_refs g' = gw_refs g" "gw_position g' = gw_position g" by blast+
qed

lemma flatten_books:
  "books_ok g \<Longrightarrow> set ids \<subseteq> dom (gw_refs_to_token g) \<Longrightarrow> fold flatten_one ids (n, g) = (n', g') \<Longrightarrow>
   books_ok g' \<and> gw_refs_to_token g' = gw_refs_to_token g \<and> evolves (gw_matcher g) (gw_matcher g') \<and>
   gw_tokens g' = gw_tokens g \<and> gw_refs g' = gw_refs g \<and> gw_position g' = gw_position g"
proof (induction ids arbitrary: n g)
  case (Cons i ids)
  obtain n1 g1 where f: "flatten_one i (n, g) = (n1, g1)" by fastforce
  have "i \<in> dom (gw_refs_to_token g)" using Cons.prems(2) by simp
  note F = flatten_one_books [OF Cons.prems(1) this f]
  have "set ids \<subseteq> dom (gw_refs_to_token g1)" "fold flatten_one ids (n1, g1) = (n', g')"
    using Cons.prems(2,3) F(2) f by auto
  from Cons.IH [OF F(1) this] F evolves_trans [OF F(3)] show ?case by simp
qed simp

lemma books_fields: "books_ok g \<Longrightarrow> gw_matcher g' = gw_matcher g \<Longrightarrow> gw_refs g' = gw_refs g \<Longrightarrow> gw_tokens g' = gw_tokens g \<Longrightarrow>
  gw_refs_to_token g' = gw_refs_to_token g \<Longrightarrow> gw_live g' = gw_live g \<Longrightarrow> gw_position g' = gw_position g \<Longrightarrow>
  gw_fills_cursor g' = gw_fills_cursor g \<Longrightarrow> gw_cfg g' = gw_cfg g \<Longrightarrow> books_ok g'"
  by (rule books_evolve [of g]) (simp_all add: books_okD(1))

lemma poll_ok:
  assumes b: "books_ok g" and ids: "distinct ids" "set ids = gw_live g" and nf: "\<not> gw_in_flatten g"
    and p: "gw_poll ids now g = (done, g')"
  shows "books_ok g'" "evolves (gw_matcher g) (gw_matcher g')" "\<not> gw_in_flatten g'"
    "done \<longleftrightarrow> \<not> gw_flattened g \<and> session_over (ss_state (gw_session g))"
    "gw_flattened g' \<longleftrightarrow> gw_flattened g \<or> done" "\<not> done \<Longrightarrow> g' = set_wall now g"
    "done \<Longrightarrow> disarmed (gw_live g) (gw_matcher g) (gw_matcher g')" "done \<Longrightarrow> gw_live g' = {}"
    "done \<Longrightarrow> gw_death_cause g' = ss_state (gw_session g)" "gw_kill g' = gw_kill g"
    "gw_refs_to_token g' = gw_refs_to_token g"
proof -
  have w: "books_ok (set_wall now g)" by (rule books_fields [OF b]) simp_all
  have d: "done \<longleftrightarrow> \<not> gw_flattened g \<and> session_over (ss_state (gw_session g))"
    using p by (auto simp: gw_poll_def Let_def split: if_splits)
  have "books_ok g' \<and> evolves (gw_matcher g) (gw_matcher g') \<and> \<not> gw_in_flatten g' \<and>
    (gw_flattened g' \<longleftrightarrow> gw_flattened g \<or> done) \<and> (\<not> done \<longrightarrow> g' = set_wall now g) \<and>
    (done \<longrightarrow> disarmed (gw_live g) (gw_matcher g) (gw_matcher g') \<and> gw_live g' = {} \<and>
      gw_death_cause g' = ss_state (gw_session g)) \<and> gw_kill g' = gw_kill g \<and> gw_refs_to_token g' = gw_refs_to_token g"
  proof (cases "done")
    case False
    then have "g' = set_wall now g" using p d by (auto simp: gw_poll_def Let_def split: if_splits)
    then show ?thesis using False w nf by simp
  next
    case True
    define g0 where "g0 = (set_wall now g)\<lparr> gw_death_cause := ss_state (gw_session g), gw_flattened := True,
        gw_asserted := gw_asserted g \<and> gw_have_clock (set_wall now g), gw_in_flatten := True \<rparr>"
    obtain n g1 where f: "fold flatten_one ids (0, g0) = (n, g1)" by fastforce
    have g': "g' = g1\<lparr> gw_in_flatten := False \<rparr>"
      using p True d nf f by (auto simp: gw_poll_def Let_def flatten_def g0_def)
    have b0: "books_ok g0" by (rule books_fields [OF w]) (simp_all add: g0_def)
    have g0: "gw_matcher g0 = gw_matcher g" "gw_live g0 = gw_live g" "gw_refs_to_token g0 = gw_refs_to_token g"
      "gw_flattened g0" "gw_death_cause g0 = ss_state (gw_session g)" "gw_kill g0 = gw_kill g" by (simp_all add: g0_def)
    have dom: "set ids \<subseteq> dom (gw_refs_to_token g0)" using ids(2) books_okD(5) [OF b] by (simp add: g0)
    note F = flatten_books [OF b0 dom f]
    have eng: "engine_ok {} no_flight (gw_matcher g0)" using venue_okD(1) [OF books_okD(1) [OF b0]] .
    note E = flatten_effect [OF f eng ids(1)]
    have "gw_live g1 = {}"
    proof -
      have "om_get i (mt_orders (gw_matcher g0)) \<noteq> None" if "i \<in> set ids" for i
        using that ids(2) books_okD(5) [OF b] books_okD(4) [OF b, of i] unfolding g0 known_def by blast
      then have "{i \<in> set ids. om_get i (mt_orders (gw_matcher g0)) \<noteq> None} = set ids" by blast
      then show ?thesis using E ids(2) by (simp add: g0)
    qed
    moreover have "books_ok g'" by (rule books_fields [of g1]) (use F in \<open>simp_all add: g'\<close>)
    ultimately show ?thesis using True F E ids(2) by (simp add: g' g0)
  qed
  then show "books_ok g'" "evolves (gw_matcher g) (gw_matcher g')" "\<not> gw_in_flatten g'"
    "gw_flattened g' \<longleftrightarrow> gw_flattened g \<or> done" "\<not> done \<Longrightarrow> g' = set_wall now g"
    "done \<Longrightarrow> disarmed (gw_live g) (gw_matcher g) (gw_matcher g')" "done \<Longrightarrow> gw_live g' = {}"
    "done \<Longrightarrow> gw_death_cause g' = ss_state (gw_session g)" "gw_kill g' = gw_kill g"
    "gw_refs_to_token g' = gw_refs_to_token g" by blast+
  show "done \<longleftrightarrow> \<not> gw_flattened g \<and> session_over (ss_state (gw_session g))" by (rule d)
qed

section \<open>The life of a gateway\<close>

lemma on_ouch_ok:
  assumes b: "books_ok g" and room: "room_for g"
  shows "\<exists>ok g'. on_ouch p now g = Some (ok, g') \<and> books_ok g' \<and> evolves (gw_matcher g) (gw_matcher g') \<and>
    gw_in_flatten g' = gw_in_flatten g \<and> gw_flattened g' = gw_flattened g"
proof -
  have w: "books_ok (set_wall now g)" by (rule books_fields [OF b]) simp_all
  have r: "room_for (set_wall now g)" using room by (simp add: room_for_def)
  note E = on_enter_ok [OF w r, of p] and R = on_replace_ok [OF w r, of p] and C = on_cancel_ok [OF w, of p]
  consider "on_ouch p now g = Some (False, set_wall now g)"
    | "on_ouch p now g = map_option (Pair True) (on_enter p (set_wall now g))"
    | "on_ouch p now g = map_option (Pair True) (on_replace p (set_wall now g))"
    | "on_ouch p now g = Some (True, on_cancel p (set_wall now g))"
    unfolding on_ouch_def Let_def by presburger
  then show ?thesis
  proof cases
    case 1
    then show ?thesis using w by auto
  next
    case 2
    then show ?thesis using E by auto
  next
    case 3
    then show ?thesis using R by auto
  next
    case 4
    then show ?thesis using C by auto
  qed
qed

inductive gateway_run :: "gateway \<Rightarrow> bool" where
  opens: "venue_ok m c \<Longrightarrow> unat (gc_max_shares cfg) < 2 ^ 31 \<Longrightarrow> gateway_run (gateway_new cfg sess m c kill)"
| message: "gateway_run g \<Longrightarrow> room_for g \<Longrightarrow> on_ouch p now g = Some (ok, g') \<Longrightarrow> gateway_run g'"
| polled: "gateway_run g \<Longrightarrow> distinct ids \<Longrightarrow> set ids = gw_live g \<Longrightarrow> gw_poll ids now g = (done, g') \<Longrightarrow> gateway_run g'"
| pumped: "gateway_run g \<Longrightarrow> gateway_run (pump_fills now g)"
| login: "gateway_run g \<Longrightarrow> gateway_run (decide_login accept session_id number now g)"
| clock: "gateway_run g \<Longrightarrow> gateway_run (set_replay_now ns g)"
| sink: "gateway_run g \<Longrightarrow> gateway_run (set_itch_sink to g)"
| session: "gateway_run g \<Longrightarrow> gateway_run (g\<lparr> gw_session := server_do e (gw_session g) \<rparr>)"
| switch: "gateway_run g \<Longrightarrow> gateway_run (g\<lparr> gw_kill := k \<rparr>)"
| venue: "gateway_run g \<Longrightarrow> venue_step (gw_matcher g) (gw_refs g) s' c' \<Longrightarrow>
    gateway_run (g\<lparr> gw_matcher := s', gw_refs := c' \<rparr>)"

theorem gateway_run_ok: "gateway_run g \<Longrightarrow> books_ok g \<and> \<not> gw_in_flatten g"
proof (induction rule: gateway_run.induct)
  case (opens m c cfg sess kill)
  then show ?case by (simp add: books_ok_def gateway_new_def net_of_def)
next
  case (message g p now ok g')
  then show ?case using on_ouch_ok [of g p now] by auto
next
  case (polled g ids now "done" g')
  then show ?case using poll_ok(1,3) by blast
next
  case (pumped g now)
  then show ?case using pump_ok [of g now] by (auto simp: behind_def)
next
  case (login g accept session_id number now)
  then show ?case using books_fields [of g "decide_login accept session_id number now g"] by (simp add: decide_login_def Let_def)
next
  case (clock g ns)
  then show ?case using books_fields [of g "set_replay_now ns g"] by (simp add: set_replay_now_def)
next
  case (sink g to)
  then show ?case using books_fields [of g "set_itch_sink to g"] by (simp add: set_itch_sink_def)
next
  case (session g e)
  then show ?case using books_fields [of g "g\<lparr> gw_session := server_do e (gw_session g) \<rparr>"] by simp
next
  case (switch g k)
  then show ?case using books_fields [of g "g\<lparr> gw_kill := k \<rparr>"] by simp
next
  case (venue g s' c')
  then have b: "books_ok g" and n: "\<not> gw_in_flatten g" by simp_all
  note V = venue_step_ok [OF venue.hyps(2) books_okD(1) [OF b]]
  have "books_ok (g\<lparr> gw_matcher := s', gw_refs := c' \<rparr>)" by (rule books_evolve [OF b]) (use V in simp_all)
  then show ?case using n by simp
qed

end
