(* ===== verification/GatewayAnswer.thy ===== *)
theory GatewayAnswer
  imports GatewayRun
begin

text \<open>
  What the client is told. The messages a handler of the gateway sends down a session that is logged in,
  one by one and field by field: the answer to the request first, then one Executed message for each side
  of the session's in each fill it has not been told of.
\<close>

section \<open>The messages\<close>

definition rejects :: "token \<Rightarrow> u8 list \<Rightarrow> bool" where
  "rejects t m \<longleftrightarrow> length m = kRejectedLen \<and> m ! 0 = ch CHR ''J'' \<and> ouch_rejected_order_token m = t"

definition accepts :: "token \<Rightarrow> u8 \<Rightarrow> int \<Rightarrow> u64 \<Rightarrow> u8 list \<Rightarrow> bool" where
  "accepts t side price i m \<longleftrightarrow> length m = kAcceptedLen \<and> m ! 0 = ch CHR ''A'' \<and> ouch_accepted_order_token m = t \<and>
     ouch_accepted_side m = side \<and> ouch_accepted_price m = price \<and> ouch_accepted_reference_number m = i"

definition replaces :: "token \<Rightarrow> token \<Rightarrow> int \<Rightarrow> u64 \<Rightarrow> u8 list \<Rightarrow> bool" where
  "replaces t previous price i m \<longleftrightarrow> length m = kReplacedLen \<and> m ! 0 = ch CHR ''U'' \<and>
     ouch_replaced_replacement_order_token m = t \<and> ouch_replaced_previous_order_token m = previous \<and>
     ouch_replaced_price m = price \<and> ouch_replaced_reference_number m = i"

definition withdraws :: "token \<Rightarrow> u32 \<Rightarrow> u8 list \<Rightarrow> bool" where
  "withdraws t n m \<longleftrightarrow> length m = kCanceledLen \<and> m ! 0 = ch CHR ''C'' \<and> ouch_canceled_order_token m = t \<and>
     ouch_canceled_decrement_shares m = n"

text \<open>An Executed message names an order, its shares and the match. Each fill is due once for each side of it
  that is ours, the taker first.\<close>

definition execution :: "u8 list \<Rightarrow> token \<times> u32 \<times> u64" where
  "execution m = (ouch_executed_order_token m, ouch_executed_executed_shares m, ouch_executed_match_number m)"

definition sides_due :: "gateway \<Rightarrow> fill \<Rightarrow> (token \<times> u32 \<times> u64) list" where
  "sides_due g f = [(the (gw_refs_to_token g i), fl_shares f, fl_match_number f).
     i \<leftarrow> [fl_taker f, fl_maker f], gw_refs_to_token g i \<noteq> None]"

definition due_since :: "nat \<Rightarrow> gateway \<Rightarrow> (token \<times> u32 \<times> u64) list" where
  "due_since k g = concat (map (sides_due g) (drop k (mt_fills (gw_matcher g))))"

definition executes :: "(token \<times> u32 \<times> u64) list \<Rightarrow> u8 list list \<Rightarrow> bool" where
  "executes es ms \<longleftrightarrow> map execution ms = es \<and> (\<forall>m \<in> set ms. length m = kExecutedLen \<and> m ! 0 = ch CHR ''E'')"

lemma executes_append: "executes a x \<Longrightarrow> executes b y \<Longrightarrow> executes (a @ b) (x @ y)"
  by (auto simp: executes_def)

lemma executes_Nil [simp]: "executes [] []"
  by (simp add: executes_def)

section \<open>Down the session\<close>

definition wired :: "gateway \<Rightarrow> bool" where
  "wired g \<longleftrightarrow> ss_state (gw_session g) = LoggedIn \<and> kReplacedLen + 3 \<le> length (ss_scratch (gw_session g))"

definition tells :: "u8 list list \<Rightarrow> gateway \<Rightarrow> gateway \<Rightarrow> bool" where
  "tells ms g g' \<longleftrightarrow> (wired g \<longrightarrow> wired g' \<and>
     ss_out (gw_session g') = ss_out (gw_session g) @ map (packet (ch CHR ''S'')) ms)"

lemma tells_trans: "tells a g h \<Longrightarrow> tells b h k \<Longrightarrow> tells (a @ b) g k"
  by (simp add: tells_def)

lemma tells_quiet: "gw_session g' = gw_session g \<Longrightarrow> tells [] g g'"
  by (simp add: tells_def wired_def)

lemma tells_then: "tells ms g h \<Longrightarrow> gw_session k = gw_session h \<Longrightarrow> tells ms g k"
  by (simp add: tells_def wired_def)

lemma tells_after: "gw_session h = gw_session g \<Longrightarrow> tells ms h k \<Longrightarrow> tells ms g k"
  by (simp add: tells_def wired_def)

lemma tells_from: "gw_session h = gw_session g \<Longrightarrow> tells ms h k \<longleftrightarrow> tells ms g k"
  by (simp add: tells_def wired_def)

lemma emit_tells:
  assumes "length m \<le> kReplacedLen"
  shows "tells [m] g (gw_emit m g)"
proof -
  have "3 + length m \<le> length (ss_scratch (gw_session g))" if "wired g"
    using assms that by (simp add: wired_def)
  then show ?thesis
    using soup_data_packets(2) [of m "ss_scratch (gw_session g)"]
    by (auto simp: tells_def wired_def gw_emit_def server_send_sequenced_def server_put_def Let_def)
qed

lemma whole_token: "length t = 14 \<Longrightarrow> stock_field 14 (Some t) = t"
  by (auto simp: stock_field_def bytes_at_def intro: nth_equalityI)

lemma make_token_length [simp]: "length (make_token w) = 14"
  by (simp add: make_token_def)

text \<open>What each send puts on the wire.\<close>

lemma send_reject_tells:
  assumes "length t = 14"
  shows "\<exists>m. rejects t m \<and> tells [m] g (send_reject t c g)"
proof -
  obtain m n where e: "ouch_rejected (replicate kRejectedLen 0) (gw_replay_ns g) (Some t) c = (m, n)" by fastforce
  have l: "length m = kRejectedLen" using e by (auto simp: ouch_rejected_def ouch_puts put_alpha_raw_field)
  have "rejects t m"
    using ouch_rejected_round_trip [OF _ e [symmetric]] l whole_token [OF assms] by (simp add: rejects_def)
  moreover have "gw_session (send_reject t c g) = gw_session (gw_emit m g)"
    unfolding send_reject_def e Let_def prod.case by simp
  ultimately show ?thesis
    using tells_then [OF emit_tells [of m g]] l by (auto simp: kRejectedLen_def kReplacedLen_def)
qed

lemma send_accepted_tells:
  assumes "length t = 14" "is_i32 price"
  shows "\<exists>m. accepts t side price i m \<and> tells [m] g (send_accepted t side n stk price i st g)"
proof -
  obtain m k where e: "ouch_accepted (replicate kAcceptedLen 0) (gw_replay_ns g) (Some t) side n (Some stk) price 0
            (Some blank_firm) (ch CHR ''Y'') i (ch CHR ''A'') (ch CHR ''N'') 0 (ch CHR '' '') st (ch CHR '' '') = (m, k)"
    by fastforce
  have l: "length m = kAcceptedLen" using e by (auto simp: ouch_accepted_def ouch_puts put_alpha_raw_field)
  have "accepts t side price i m"
    using ouch_accepted_round_trip [OF _ assms(2) e [symmetric]] l whole_token [OF assms(1)] by (simp add: accepts_def)
  moreover have "gw_session (send_accepted t side n stk price i st g) = gw_session (gw_emit m g)"
    unfolding send_accepted_def e Let_def prod.case by simp
  ultimately show ?thesis
    using tells_then [OF emit_tells [of m g]] l by (auto simp: kAcceptedLen_def kReplacedLen_def)
qed

lemma send_replaced_tells:
  assumes "length t = 14" "length u = 14" "is_i32 price"
  shows "\<exists>m. replaces t u price i m \<and> tells [m] g (send_replaced t u side n price i st g)"
proof -
  obtain m k where e: "ouch_replaced (replicate kReplacedLen 0) (gw_replay_ns g) (Some t) side n
            (Some (cfg_stock_wire g)) price 0 (Some blank_firm) (ch CHR ''Y'') i (ch CHR ''A'') (ch CHR ''N'') 0
            (ch CHR '' '') st (Some u) (ch CHR '' '') = (m, k)"
    by fastforce
  have l: "length m = kReplacedLen" using e by (auto simp: ouch_replaced_def ouch_puts put_alpha_raw_field)
  have "replaces t u price i m"
    using ouch_replaced_round_trip [OF _ assms(3) e [symmetric]] l whole_token [OF assms(1)] whole_token [OF assms(2)]
    by (simp add: replaces_def)
  moreover have "gw_session (send_replaced t u side n price i st g) = gw_session (gw_emit m g)"
    unfolding send_replaced_def e Let_def prod.case by simp
  ultimately show ?thesis
    using tells_then [OF emit_tells [of m g]] l by auto
qed

lemma send_canceled_tells:
  assumes "length t = 14"
  shows "\<exists>m. withdraws t n m \<and> tells [m] g (send_canceled t n c g)"
proof -
  obtain m k where e: "ouch_canceled (replicate kCanceledLen 0) (gw_replay_ns g) (Some t) n c = (m, k)" by fastforce
  have l: "length m = kCanceledLen" using e by (auto simp: ouch_canceled_def ouch_puts put_alpha_raw_field)
  have "withdraws t n m"
    using ouch_canceled_round_trip [OF _ e [symmetric]] l whole_token [OF assms] by (simp add: withdraws_def)
  moreover have "gw_session (send_canceled t n c g) = gw_session (gw_emit m g)"
    unfolding send_canceled_def e Let_def prod.case by simp
  ultimately show ?thesis
    using tells_then [OF emit_tells [of m g]] l by (auto simp: kCanceledLen_def kReplacedLen_def)
qed

lemma send_executed_tells:
  assumes "length t = 14"
  shows "\<exists>ms. executes [(t, n, k)] ms \<and> tells ms g (send_executed t n price k g)"
proof -
  obtain m j where e: "ouch_executed (replicate kExecutedLen 0) (gw_replay_ns g) (Some t) n price (ch CHR ''R'') k = (m, j)"
    by fastforce
  have l: "length m = kExecutedLen" using e by (auto simp: ouch_executed_def ouch_puts put_alpha_raw_field)
  have "m ! 0 = ch CHR ''E'' \<and> ouch_executed_order_token m = stock_field 14 (Some t) \<and>
      ouch_executed_executed_shares m = n \<and> ouch_executed_match_number m = k"
    using e by (auto simp: ouch_simps kExecutedLen_def)
  then have "executes [(t, n, k)] [m]" using l whole_token [OF assms] by (simp add: executes_def execution_def)
  moreover have "gw_session (send_executed t n price k g) = gw_session (gw_emit m g)"
    unfolding send_executed_def e Let_def prod.case by simp
  ultimately show ?thesis
    using tells_then [OF emit_tells [of m g]] l by (auto simp: kExecutedLen_def kReplacedLen_def)
qed

lemma feed_quiet:
  "gw_session (emit_itch_add r c n p g) = gw_session g" "gw_session (emit_itch_executed r n k g) = gw_session g"
  "gw_session (emit_itch_delete r g) = gw_session g" "gw_session (register_order tok i res g) = gw_session g"
  by (simp_all add: emit_itch_add_def emit_itch_executed_def emit_itch_delete_def publish_def register_order_def
      split: option.split)

section \<open>Every fill once\<close>

definition tokens_whole :: "gateway \<Rightarrow> bool" where
  "tokens_whole g \<longleftrightarrow> (\<forall>i t. gw_refs_to_token g i = Some t \<longrightarrow> length t = 14)"

lemma pump_fill_tells:
  assumes "tokens_whole g"
  shows "\<exists>ms. executes (sides_due g f) ms \<and> tells ms g (pump_fill f g)"
proof -
  let ?a = "gw_refs_to_token g (fl_taker f)" and ?b = "gw_refs_to_token g (fl_maker f)"
  define g1 where "g1 = (if ?a \<noteq> None then note_print f (emit_itch_executed (fl_maker f) (fl_shares f) (fl_match_number f) g) else g)"
  define g2 where "g2 = (if ?a \<noteq> None then send_executed (id_token (fl_taker f) g) (fl_shares f) (fl_price f) (fl_match_number f) g1 else g1)"
  define g3 where "g3 = (if ?b \<noteq> None then send_executed (id_token (fl_maker f) g) (fl_shares f) (fl_price f) (fl_match_number f) g2 else g2)"
  have t: "id_token i g = the (gw_refs_to_token g i)" "length (the (gw_refs_to_token g i)) = 14"
    if "gw_refs_to_token g i \<noteq> None" for i using assms that by (auto simp: tokens_whole_def id_token_def)
  have 1: "gw_session g1 = gw_session g" by (simp add: g1_def feed_quiet)
  have E: "\<exists>ms. executes (if gw_refs_to_token g i \<noteq> None then [(the (gw_refs_to_token g i), fl_shares f, fl_match_number f)] else []) ms \<and>
      tells ms h (if gw_refs_to_token g i \<noteq> None then send_executed (id_token i g) (fl_shares f) (fl_price f) (fl_match_number f) h else h)"
    for i h
  proof (cases "gw_refs_to_token g i = None")
    case True
    then show ?thesis using tells_quiet [of h h] by (auto intro: exI [where x = "[]"])
  next
    case False
    then show ?thesis using send_executed_tells [OF t(2) [OF False]] by (simp add: t(1))
  qed
  note 2 = E [of "fl_taker f" g1, folded g2_def, unfolded tells_from [OF 1]] and 3 = E [of "fl_maker f" g2, folded g3_def]
  have id: "id_token i g1 = id_token i g" "id_token i g2 = id_token i g" for i
    by (simp_all add: id_token_def g1_def g2_def)
  have "gw_session (pump_fill f g) = gw_session g3"
    using id by (auto simp: pump_fill_def Let_def g3_def g2_def g1_def)
  moreover obtain x y where "executes (if ?a \<noteq> None then [(the ?a, fl_shares f, fl_match_number f)] else []) x" "tells x g g2"
    "executes (if ?b \<noteq> None then [(the ?b, fl_shares f, fl_match_number f)] else []) y" "tells y g2 g3" using 2 3 by blast
  moreover from this have "executes (sides_due g f) (x @ y)" "tells (x @ y) g g3"
    using executes_append tells_trans by (force simp: sides_due_def)+
  ultimately show ?thesis using tells_then by blast
qed

lemma pump_fold_tells:
  "tokens_whole g \<Longrightarrow> \<exists>ms. executes (concat (map (sides_due g) fs)) ms \<and> tells ms g (fold pump_round fs g)"
proof (induction fs arbitrary: g)
  case Nil
  then show ?case using tells_quiet [of g g] by (auto intro: exI [where x = "[]"])
next
  case (Cons f fs)
  let ?g = "pump_round f g"
  have r: "gw_refs_to_token ?g = gw_refs_to_token g" "gw_session ?g = gw_session (pump_fill f g)"
    by (simp_all add: pump_round_def Let_def pump_fill_fields)
  have "tokens_whole ?g" using Cons.prems by (simp add: tokens_whole_def r)
  from Cons.IH [OF this] obtain y where "executes (concat (map (sides_due ?g) fs)) y" "tells y ?g (fold pump_round fs ?g)" by blast
  moreover have "sides_due ?g = sides_due g" by (simp add: fun_eq_iff sides_due_def r)
  moreover obtain x where "executes (sides_due g f) x" "tells x g (pump_fill f g)" using pump_fill_tells [OF Cons.prems] by blast
  ultimately show ?case using executes_append tells_trans [OF tells_then] r(2) by (simp, blast)
qed

lemma pump_fold_behind: "behind g (fold pump_round fs g)"
proof (induction fs arbitrary: g)
  case (Cons f fs)
  have "behind g (pump_round f g)" by (auto simp: behind_def pump_round_def Let_def pump_fill_fields note_print_def)
  then show ?case using behind_trans Cons.IH by fastforce
qed (simp add: behind_def)

lemma answer_behind: "behind g (after_answer i side price res g)"
proof -
  have "behind g (pump_fills (gw_wall_ns g) g)"
    using behind_trans [OF _ pump_fold_behind] by (simp add: pump_fills_def Let_def behind_def)
  then show ?thesis by (auto simp: after_answer_def Let_def behind_def split: option.split)
qed

lemma answer_tells:
  assumes "tokens_whole g"
  shows "\<exists>ms. executes (due_since (gw_fills_cursor g) g) ms \<and> tells ms g (after_answer i side price res g)"
proof -
  let ?w = "set_wall (gw_wall_ns g) g"
  have "tokens_whole ?w" "sides_due ?w = sides_due g" using assms by (simp_all add: tokens_whole_def fun_eq_iff sides_due_def)
  then obtain ms where "executes (due_since (gw_fills_cursor g) g) ms" "tells ms ?w (pump_fills (gw_wall_ns g) g)"
    using pump_fold_tells [of ?w "drop (gw_fills_cursor g) (mt_fills (gw_matcher g))"]
    by (auto simp: due_since_def pump_fills_def Let_def)
  moreover have "gw_session (after_answer i side price res g) = gw_session (pump_fills (gw_wall_ns g) g)"
    by (simp add: after_answer_def Let_def feed_quiet split: option.split)
  ultimately show ?thesis using tells_then [OF tells_after [of ?w g]] by force
qed

section \<open>An entry\<close>

lemma due_behind: "behind g g' \<Longrightarrow> due_since k g' = due_since k g"
proof -
  assume b: "behind g g'"
  then have "gw_refs_to_token g' = gw_refs_to_token g" by (simp add: behind_def)
  then have "sides_due g' = sides_due g" unfolding sides_due_def fun_eq_iff by simp
  then show ?thesis using b by (simp add: behind_def due_since_def)
qed

text \<open>The end of an accepted submission, of an entry and of a replacement alike.\<close>

lemma registered_answer:
  assumes w: "tokens_whole g" "length tok = 14" and new: "gw_refs_to_token g i = None"
    and h: "gw_refs_to_token h = gw_refs_to_token (register_order tok i res g)"
      "gw_matcher h = gw_matcher g" "gw_fills_cursor h = gw_fills_cursor g"
      "gw_rejects_sent h = gw_rejects_sent g"
    and m: "tells [m] g h"
  shows "\<exists>es. executes (due_since (gw_fills_cursor g) (after_answer i side price res h)) es \<and>
      tells (m # es) g (after_answer i side price res h) \<and>
      gw_rejects_sent (after_answer i side price res h) = gw_rejects_sent g"
proof -
  have "tokens_whole h" using w new by (simp add: tokens_whole_def h(1) register_order_def emplace_def)
  from answer_tells [OF this] obtain es where es: "executes (due_since (gw_fills_cursor h) h) es"
    "tells es h (after_answer i side price res h)" by blast
  note B = answer_behind [of h i side price res]
  show ?thesis
    using es tells_trans [OF m es(2)] due_behind [OF B] B h(3,4) by (auto simp: behind_def)
qed

lemma submit_new_tells:
  assumes w: "tokens_whole g" "length tok = 14" and new: "gw_refs_to_token g (fst (ref_next (gw_refs g))) = None"
    and q: "is_i32 price" and e: "submit_new tok side shares price is_market stk p g = Some g'"
  shows "\<exists>m es. tells (m # es) g g' \<and>
    (gw_rejects_sent g' = gw_rejects_sent g + 1 \<and> rejects tok m \<and> es = [] \<or>
     gw_rejects_sent g' = gw_rejects_sent g \<and> accepts tok side price (fst (ref_next (gw_refs g))) m \<and>
     executes (due_since (gw_fills_cursor g) g') es)"
proof -
  obtain i c' where n: "ref_next (gw_refs g) = (i, c')" by fastforce
  let ?r = "new_request i (firm_key (ouch_enter_order_firm p)) (if side = ch CHR ''B'' then Buy else Sell) is_market price shares"
  have m0: "gw_matcher (g\<lparr> gw_refs := c' \<rparr>) = gw_matcher g" by simp
  obtain res s' where s: "submit ?r (gw_matcher g) = Some (res, s')"
    using e unfolding submit_new_def n Let_def prod.case m0 by (auto simp: bind_eq_Some_conv)
  let ?g = "g\<lparr> gw_refs := c', gw_matcher := s' \<rparr>"
  have o: "tells ms ?g h \<longleftrightarrow> tells ms g h" for ms h by (rule tells_from) simp
  show ?thesis
  proof (cases "rs_accepted res")
    case False
    then have "g' = send_reject tok kOtherReason ?g" using e unfolding submit_new_def n Let_def prod.case m0 s by simp
    then show ?thesis using send_reject_tells [OF w(2), of ?g kOtherReason] o by auto
  next
    case True
    let ?h = "send_accepted tok side (shown_shares res shares) stk price i (order_state res) (register_order tok i res ?g)"
    have g': "g' = after_answer i side (rq_price ?r) res ?h"
      using e True unfolding submit_new_def n Let_def prod.case m0 s by simp
    obtain m where m: "accepts tok side price i m" "tells [m] (register_order tok i res ?g) ?h"
      using send_accepted_tells [OF w(2) q] by blast
    have "tokens_whole ?g" using w(1) by (simp add: tokens_whole_def)
    from registered_answer [where h = ?h and m = m, OF this w(2)] new n m(2)
    have "\<exists>es. executes (due_since (gw_fills_cursor ?g) g') es \<and> tells (m # es) ?g g' \<and> gw_rejects_sent g' = gw_rejects_sent ?g"
      unfolding g' by (simp add: register_fields tells_from [OF feed_quiet(4)])
    then show ?thesis using m(1) n o by auto
  qed
qed

section \<open>A replacement\<close>

text \<open>What the client is told when the original was cancelled and the replacement submitted.\<close>

definition replaced_answer :: "token \<Rightarrow> token \<Rightarrow> u32 \<Rightarrow> int \<Rightarrow> u64 \<Rightarrow> (token \<times> u32 \<times> u64) list \<Rightarrow> u8 list list \<Rightarrow> bool" where
  "replaced_answer existing fresh gone price i due ms \<longleftrightarrow>
     (\<exists>c m es. ms = c # m # es \<and> withdraws existing gone c \<and> replaces fresh existing price i m \<and> executes due es)"

definition refused_answer :: "token \<Rightarrow> token \<Rightarrow> u8 list list \<Rightarrow> bool" where
  "refused_answer existing fresh ms \<longleftrightarrow>
     (\<exists>m. rejects fresh m \<and> (ms = [m] \<or> (\<exists>c gone. withdraws existing gone c \<and> ms = [c, m])))"

lemma replace_original_tells:
  assumes w: "tokens_whole g" "length fresh = 14" "length existing = 14"
    and new: "gw_refs_to_token g (fst (ref_next (gw_refs g))) = None"
    and q: "is_i32 price" and e: "replace_original existing fresh old_id m side shares price is_market g = Some g'"
  shows "\<exists>ms. tells ms g g' \<and> (gw_rejects_sent g' = gw_rejects_sent g + 1 \<and> refused_answer existing fresh ms \<or>
     gw_rejects_sent g' = gw_rejects_sent g \<and>
     replaced_answer existing fresh (m_resting m + m_hidden m) price (fst (ref_next (gw_refs g)))
       (due_since (gw_fills_cursor g) g') ms)"
proof -
  let ?gone = "m_resting m + m_hidden m"
  obtain went s1 where c: "cancel old_id (gw_matcher g) = (went, s1)" by fastforce
  show ?thesis
  proof (cases went)
    case False
    then have g': "g' = send_reject fresh kOtherReason (g\<lparr> gw_matcher := s1 \<rparr>)" using e by (simp add: replace_original_def c)
    obtain r where "rejects fresh r" "tells [r] (g\<lparr> gw_matcher := s1 \<rparr>) g'" using send_reject_tells [OF w(2)] g' by blast
    then have "rejects fresh r" "tells [r] g g'" using tells_from [of "g\<lparr> gw_matcher := s1 \<rparr>" g] by simp_all
    then show ?thesis unfolding g' refused_answer_def by auto
  next
    case True
    define g0 where "g0 = g\<lparr> gw_matcher := s1, gw_live := gw_live g - {old_id} \<rparr>"
    define g1 where "g1 = (if m_in_book m then emit_itch_delete old_id (send_canceled existing ?gone kUserRequested g0)
      else send_canceled existing ?gone kUserRequested g0)"
    have 0: "tells ms g0 h \<longleftrightarrow> tells ms g h" for ms h by (rule tells_from) (simp add: g0_def)
    obtain k where k: "withdraws existing ?gone k" "tells [k] g0 (send_canceled existing ?gone kUserRequested g0)"
      using send_canceled_tells [OF w(3)] by blast
    then have k1: "tells [k] g g1" using tells_then [OF k(2), of g1] 0 by (simp add: g1_def feed_quiet)
    have c1: "core g1 = core g0" by (simp add: g1_def sending)
    note K = coreD [OF c1, unfolded g0_def, simplified]
    have rj: "gw_rejects_sent g1 = gw_rejects_sent g" by (simp add: g1_def g0_def)
    obtain i c' where n: "ref_next (gw_refs g1) = (i, c')" by fastforce
    let ?r = "new_request i (rq_owner (m_req m)) (rq_side (m_req m)) is_market price shares"
    have m0: "gw_matcher (g1\<lparr> gw_refs := c' \<rparr>) = gw_matcher g1" by simp
    have f: "(if m_in_book m then emit_itch_delete old_id (send_canceled existing ?gone kUserRequested
          ((g\<lparr> gw_matcher := s1 \<rparr>)\<lparr> gw_live := gw_live (g\<lparr> gw_matcher := s1 \<rparr>) - {old_id} \<rparr>))
        else send_canceled existing ?gone kUserRequested
          ((g\<lparr> gw_matcher := s1 \<rparr>)\<lparr> gw_live := gw_live (g\<lparr> gw_matcher := s1 \<rparr>) - {old_id} \<rparr>)) = g1"
      by (simp add: g1_def g0_def)
    obtain res s' where s: "submit ?r (gw_matcher g1) = Some (res, s')"
      using e True unfolding replace_original_def c Let_def prod.case f n m0 by (auto simp: bind_eq_Some_conv)
    let ?g = "g1\<lparr> gw_refs := c', gw_matcher := s' \<rparr>"
    let ?h = "send_replaced fresh existing side (shown_shares res shares) price i (order_state res) (register_order fresh i res ?g)"
    have o: "tells ms ?g h \<longleftrightarrow> tells ms g1 h" for ms h by (rule tells_from) simp
    have g': "g' = (if \<not> rs_accepted res then send_reject fresh kOtherReason ?g else after_answer i side (rq_price ?r) res ?h)"
      using e True unfolding replace_original_def c Let_def prod.case f n m0 s by (simp split: if_splits)
    show ?thesis
    proof (cases "rs_accepted res")
      case False
      then obtain r where "rejects fresh r" "tells [r] ?g g'" using send_reject_tells [OF w(2)] g' by force
      then have "refused_answer existing fresh [k, r]" "tells [k, r] g g'"
        using k(1) tells_trans [OF k1, of "[r]" g'] o by (auto simp: refused_answer_def)
      moreover have "gw_rejects_sent g' = gw_rejects_sent g + 1" using False by (simp add: g' rj)
      ultimately show ?thesis by blast
    next
      case True
      obtain r where r: "replaces fresh existing price i r" "tells [r] (register_order fresh i res ?g) ?h"
        using send_replaced_tells [OF w(2,3) q] by blast
      have "tokens_whole ?g" using w(1) by (simp add: tokens_whole_def K)
      from registered_answer [where h = ?h and m = r and side = side and price = "rq_price ?r" and res = res,
          OF this w(2), of i] new n r(2)
      obtain es where "executes (due_since (gw_fills_cursor g) g') es" "tells (r # es) g1 g'" "gw_rejects_sent g' = gw_rejects_sent g"
        using True by (auto simp: g' K rj register_fields tells_from [OF feed_quiet(4)] o)
      then have "replaced_answer existing fresh ?gone price i (due_since (gw_fills_cursor g) g') (k # r # es)"
        "tells (k # r # es) g g'" "gw_rejects_sent g' = gw_rejects_sent g"
        using k(1) r(1) tells_trans [OF k1, of "r # es" g'] by (auto simp: replaced_answer_def)
      then show ?thesis using n by (auto simp: K)
    qed
  qed
qed

section \<open>The handlers\<close>

lemma next_is_free:
  assumes b: "books_ok g" and room: "room_for g"
  shows "gw_refs_to_token g (fst (ref_next (gw_refs g))) = None"
proof -
  obtain i c' where n: "ref_next (gw_refs g) = (i, c')" by fastforce
  have u: "unat (gw_refs g) + 1 < 2 ^ 63" using room by (simp add: room_for_def)
  note N = ref_next_new [OF u n] and V = venue_okD [OF books_okD(1) [OF b]]
  have "\<not> known (gw_matcher g) i" using V(3) N(1,3) by blast
  then have "gw_refs_to_token g i = None" using books_okD(4) [OF b, of i] by blast
  then show ?thesis by (simp add: n)
qed

lemma rejects_tells:
  "length t = 14 \<Longrightarrow> \<exists>ms. tells ms g (send_reject t c g) \<and> refused g (send_reject t c g) \<and> (\<exists>m. ms = [m] \<and> rejects t m)"
  using send_reject_tells [of t g c] by (force simp: refused_def)

lemma on_enter_tells:
  assumes b: "books_ok g" and room: "room_for g" and w: "tokens_whole g" and e: "on_enter p g = Some g'"
  shows "\<exists>ms. tells ms g g' \<and>
    (refused g g' \<and> (\<exists>m. ms = [m] \<and> rejects (make_token (ouch_enter_order_order_token p)) m) \<or>
     registered (make_token (ouch_enter_order_order_token p)) g g' \<and>
     (\<exists>m es. ms = m # es \<and> accepts (make_token (ouch_enter_order_order_token p)) (ouch_enter_order_side p)
          (ouch_enter_order_price p) (fst (ref_next (gw_refs g))) m \<and> executes (due_since (gw_fills_cursor g) g') es))"
proof -
  let ?tok = "make_token (ouch_enter_order_order_token p)"
  let ?price = "ouch_enter_order_price p" and ?sh = "ouch_enter_order_shares p" and ?side = "ouch_enter_order_side p"
  have "(\<exists>c. on_enter p g = Some (send_reject ?tok c g)) \<or>
      on_enter p g = submit_new ?tok ?side ?sh ?price (?price \<ge> kMarketOrderThreshold) (ouch_enter_order_stock p) p g"
    unfolding on_enter_def Let_def by auto
  then show ?thesis
  proof (elim disjE exE)
    fix c assume "on_enter p g = Some (send_reject ?tok c g)"
    then show ?thesis using rejects_tells [of ?tok g c] e by auto
  next
    assume s: "on_enter p g = submit_new ?tok ?side ?sh ?price (?price \<ge> kMarketOrderThreshold) (ouch_enter_order_stock p) p g"
    have "is_i32 ?price" by (simp add: ouch_enter_order_price_def)
    from submit_new_tells [OF w make_token_length next_is_free [OF b room] this e [unfolded s]]
    obtain m es where m: "tells (m # es) g g'" "gw_rejects_sent g' = gw_rejects_sent g + 1 \<and> rejects ?tok m \<and> es = [] \<or>
     gw_rejects_sent g' = gw_rejects_sent g \<and> accepts ?tok ?side ?price (fst (ref_next (gw_refs g))) m \<and>
     executes (due_since (gw_fills_cursor g) g') es" by blast
    moreover have "refused g g' \<or> registered ?tok g g'" using on_enter_ok [OF b room, of p] e by auto
    ultimately show ?thesis by (auto simp: refused_def registered_def)
  qed
qed

lemma on_replace_tells:
  assumes b: "books_ok g" and room: "room_for g" and w: "tokens_whole g" and e: "on_replace p g = Some g'"
  shows "\<exists>ms. tells ms g g' \<and>
    (refused g g' \<and> refused_answer (make_token (ouch_replace_order_existing_order_token p))
       (make_token (ouch_replace_order_replacement_order_token p)) ms \<or>
     registered (make_token (ouch_replace_order_replacement_order_token p)) g g' \<and>
     (\<exists>old m. gw_tokens g (make_token (ouch_replace_order_existing_order_token p)) = Some old \<and>
       om_get old (mt_orders (gw_matcher g)) = Some m \<and>
       replaced_answer (make_token (ouch_replace_order_existing_order_token p))
         (make_token (ouch_replace_order_replacement_order_token p)) (m_resting m + m_hidden m) (ouch_replace_order_price p)
         (fst (ref_next (gw_refs g))) (due_since (gw_fills_cursor g) g') ms))"
proof -
  let ?old = "make_token (ouch_replace_order_existing_order_token p)"
  let ?tok = "make_token (ouch_replace_order_replacement_order_token p)"
  let ?price = "ouch_replace_order_price p" and ?sh = "ouch_replace_order_shares p"
  have "(\<exists>c. on_replace p g = Some (send_reject ?tok c g)) \<or> (\<exists>old_id m side. gw_tokens g ?old = Some old_id \<and>
      om_get old_id (mt_orders (gw_matcher g)) = Some m \<and>
      on_replace p g = replace_original ?old ?tok old_id m side ?sh ?price (?price \<ge> kMarketOrderThreshold) g)"
    unfolding on_replace_def Let_def by (auto split: option.split)
  then show ?thesis
  proof (elim disjE exE conjE)
    fix c assume "on_replace p g = Some (send_reject ?tok c g)"
    then show ?thesis using rejects_tells [of ?tok g c] e by (auto simp: refused_answer_def)
  next
    fix old m side
    assume o: "gw_tokens g ?old = Some old" "om_get old (mt_orders (gw_matcher g)) = Some m"
      and s: "on_replace p g = replace_original ?old ?tok old m side ?sh ?price (?price \<ge> kMarketOrderThreshold) g"
    have "is_i32 ?price" by (simp add: ouch_replace_order_price_def)
    from replace_original_tells [OF w make_token_length make_token_length next_is_free [OF b room] this e [unfolded s]]
    obtain ms where m: "tells ms g g'" "gw_rejects_sent g' = gw_rejects_sent g + 1 \<and> refused_answer ?old ?tok ms \<or>
       gw_rejects_sent g' = gw_rejects_sent g \<and> replaced_answer ?old ?tok (m_resting m + m_hidden m) ?price
         (fst (ref_next (gw_refs g))) (due_since (gw_fills_cursor g) g') ms" by blast
    moreover have "refused g g' \<or> registered ?tok g g'" using on_replace_ok [OF b room, of p] e by auto
    ultimately show ?thesis using o by (auto simp: refused_def registered_def)
  qed
qed

lemma on_cancel_tells:
  "\<exists>ms. tells ms g (on_cancel p g) \<and>
    (case gw_tokens g (make_token (ouch_cancel_order_order_token p)) of
       None \<Rightarrow> ms = []
     | Some i \<Rightarrow> if fst (cancel i (gw_matcher g))
         then \<exists>c. ms = [c] \<and> withdraws (make_token (ouch_cancel_order_order_token p))
           (m_resting (meta_of (gw_matcher g) i) + m_hidden (meta_of (gw_matcher g) i)) c
         else ms = [])"
proof (cases "\<exists>i m. gw_tokens g (make_token (ouch_cancel_order_order_token p)) = Some i \<and> om_get i (mt_orders (gw_matcher g)) = Some m")
  case False
  then have "on_cancel p g = g" by (auto simp: on_cancel_def Let_def split: option.split)
  moreover have "\<not> fst (cancel i (gw_matcher g))" if "gw_tokens g (make_token (ouch_cancel_order_order_token p)) = Some i" for i
    using False that by (auto simp: cancel_def split: option.split)
  ultimately show ?thesis using tells_quiet [of g g] by (auto split: option.split)
next
  case True
  let ?tok = "make_token (ouch_cancel_order_order_token p)"
  obtain i m where i: "gw_tokens g ?tok = Some i" "om_get i (mt_orders (gw_matcher g)) = Some m" using True by blast
  obtain went s' where c: "cancel i (gw_matcher g) = (went, s')" by fastforce
  show ?thesis
  proof (cases went)
    case False
    then have "gw_session (on_cancel p g) = gw_session g" by (simp add: on_cancel_def i c)
    then show ?thesis using tells_quiet i c False by (auto intro!: exI [where x = "[]"])
  next
    case True
    let ?g = "g\<lparr> gw_matcher := s', gw_live := gw_live g - {i} \<rparr>"
    obtain k where k: "withdraws ?tok (m_resting m + m_hidden m) k"
      "tells [k] ?g (send_canceled ?tok (m_resting m + m_hidden m) kUserRequested ?g)"
      using send_canceled_tells [OF make_token_length] by blast
    have "gw_session (on_cancel p g) = gw_session (send_canceled ?tok (m_resting m + m_hidden m) kUserRequested ?g)"
      using True by (simp add: on_cancel_def i c Let_def feed_quiet)
    from tells_then [OF k(2) this] have "tells [k] g (on_cancel p g)" using tells_from [of ?g g] by simp
    then show ?thesis using k(1) i c True by (auto simp: meta_of_def intro!: exI [where x = "[k]"])
  qed
qed

text \<open>Which handler a message goes to.\<close>

definition well_formed :: "u8 list \<Rightarrow> bool" where
  "well_formed p \<longleftrightarrow> p \<noteq> [] \<and> (p ! 0, length p) \<in>
     {(ch CHR ''O'', kEnterOrderLen), (ch CHR ''U'', kReplaceOrderLen), (ch CHR ''X'', kCancelOrderLen)}"

lemma on_ouch_shape:
  "on_ouch p now g =
     (if \<not> well_formed p then Some (False, set_wall now g)
      else if p ! 0 = ch CHR ''O'' then map_option (Pair True) (on_enter p (set_wall now g))
      else if p ! 0 = ch CHR ''U'' then map_option (Pair True) (on_replace p (set_wall now g))
      else Some (True, on_cancel p (set_wall now g)))"
  by (cases p) (auto simp: on_ouch_def well_formed_def Let_def)

section \<open>The tokens of a gateway\<close>

lemma registered_whole: "tokens_whole g \<Longrightarrow> length t = 14 \<Longrightarrow> refused g g' \<or> registered t g g' \<Longrightarrow> tokens_whole g'"
  by (auto simp: tokens_whole_def refused_def registered_def split: if_splits)

lemma on_ouch_whole:
  assumes b: "books_ok g" and room: "room_for g" and w: "tokens_whole g" and o: "on_ouch p now g = Some (ok, g')"
  shows "tokens_whole g'"
proof -
  have b: "books_ok (set_wall now g)" and r: "room_for (set_wall now g)" and w: "tokens_whole (set_wall now g)"
    using books_fields [OF b] room w by (simp_all add: room_for_def tokens_whole_def)
  have E: "tokens_whole g2" if "on_enter p (set_wall now g) = Some g2" for g2
    using registered_whole [OF w make_token_length] on_enter_ok [OF b r, of p] that by (metis option.inject)
  have R: "tokens_whole g2" if "on_replace p (set_wall now g) = Some g2" for g2
    using registered_whole [OF w make_token_length] on_replace_ok [OF b r, of p] that by (metis option.inject)
  have C: "tokens_whole (on_cancel p (set_wall now g))"
    using w on_cancel_effect [of p "set_wall now g"] by (simp add: tokens_whole_def)
  show ?thesis using o E R C w by (auto simp: on_ouch_def Let_def split: if_splits)
qed

lemma gateway_run_whole: "gateway_run g \<Longrightarrow> tokens_whole g"
proof (induction rule: gateway_run.induct)
  case (opens m c cfg sess kill)
  then show ?case by (simp add: tokens_whole_def gateway_new_def)
next
  case (message g p now ok g')
  then show ?case using on_ouch_whole gateway_run_ok by blast
next
  case (polled g ids now "done" g')
  note G = gateway_run_ok [OF polled(1)]
  show ?case using poll_ok(11) [OF G [THEN conjunct1] polled(2,3) G [THEN conjunct2] polled(4)] polled(5)
    by (simp add: tokens_whole_def)
next
  case (pumped g now)
  then show ?case using pump_ok(2) [of g now] gateway_run_ok by (force simp: behind_def tokens_whole_def)
qed (simp_all add: tokens_whole_def decide_login_def Let_def set_replay_now_def set_itch_sink_def)

end
