(* ===== verification/GatewayTrial.thy ===== *)
theory GatewayTrial
  imports Gateway
begin

text \<open>
  A gateway on a small venue, tried out: the messages of a client, byte for byte, and what a few of them come to.
\<close>

section \<open>A client\<close>

text \<open>A session that is logged in, a gateway on it, and the messages of a client.\<close>

definition sample_session :: server_session where
  "sample_session = (server_new (server_config_default\<lparr> sc_max_frame := 80 \<rparr>) 0 True)\<lparr> ss_state := LoggedIn \<rparr>"

definition sample_gateway :: "gateway_config \<Rightarrow> matcher \<Rightarrow> gateway" where
  "sample_gateway cfg s = gateway_new cfg sample_session s 0 (ks_new ks_config_default)"

definition padded :: "u8 \<Rightarrow> u8 list" where "padded c = c # replicate 13 (ch CHR '' '')"

definition enter_of :: "u8 \<Rightarrow> u8 \<Rightarrow> u32 \<Rightarrow> int \<Rightarrow> u8 list" where
  "enter_of t side n price = fst (ouch_enter_order (replicate 49 0) (Some (padded t)) side n
     (Some (replicate 8 (ch CHR '' ''))) price 0 (Some (replicate 4 (ch CHR ''F''))) (ch CHR ''Y'') (ch CHR ''A'')
     (ch CHR ''N'') 0 (ch CHR '' '') (ch CHR '' ''))"

definition replace_of :: "u8 \<Rightarrow> u8 \<Rightarrow> u32 \<Rightarrow> int \<Rightarrow> u8 list" where
  "replace_of t u n price = fst (ouch_replace_order (replicate 47 0) (Some (padded t)) (Some (padded u)) n price 0
     (ch CHR ''Y'') (ch CHR ''N'') 0)"

fun told :: "u8 list list \<Rightarrow> gateway \<Rightarrow> gateway option" where
  "told [] g = Some g"
| "told (p # ps) g = (case on_ouch p 7 g of None \<Rightarrow> None | Some (ok, g) \<Rightarrow> told ps g)"

definition logged_out :: "gateway \<Rightarrow> gateway" where
  "logged_out g = g\<lparr> gw_session := server_do (GotBytes [0, 1, ch CHR ''O''] 9) (gw_session g) \<rparr>"

lemma sample_enter:
  "enter_of 65 (ch CHR ''S'') 100 2000 ! 0 = ch CHR ''O''" "length (enter_of 65 (ch CHR ''S'') 100 2000) = kEnterOrderLen"
  "enter_of 65 (ch CHR ''S'') 100 2000 \<noteq> []"
  by code_simp+

section \<open>What they come to\<close>

lemma sample_entered:
  "map_option (\<lambda>g. (gw_live g = {9223372036854775809}, gw_flattened g, ss_state (gw_session (logged_out g)))) (told [enter_of 65 (ch CHR ''S'') 100 2000] (sample_gateway gateway_config_default (matcher_on sample_book0))) =
      Some (True, False, SessionEnded)"
  by code_simp

definition limited_gateway :: gateway where
  "limited_gateway = sample_gateway (gateway_config_default\<lparr> gc_max_position := 100 \<rparr>) (matcher_on sample_book0)"

lemma sample_bought:
  "map_option (\<lambda>g. (Kill.live (gw_kill g), gw_tokens g (padded 65), 9223372036854775809 \<in> gw_live g, gw_tokens g (padded 66),
       map_option (\<lambda>m. (rq_side (m_req m), m_resting m, m_hidden m)) (om_get 9223372036854775809 (mt_orders (gw_matcher g))),
       gw_position g, gw_cfg g))
     (told [enter_of 65 (ch CHR ''B'') 100 1000] limited_gateway) =
   Some (True, Some 9223372036854775809, True, None, Some (Buy, 100, 0), 0, gateway_config_default\<lparr> gc_max_position := 100 \<rparr>)"
  by code_simp

lemma sample_replace:
  "make_token (ouch_replace_order_existing_order_token (replace_of 65 66 200 2000)) = padded 65"
  "make_token (ouch_replace_order_replacement_order_token (replace_of 65 66 200 2000)) = padded 66"
  "ouch_replace_order_shares (replace_of 65 66 200 2000) = 200" "ouch_replace_order_price (replace_of 65 66 200 2000) = 2000"
  by code_simp+

end
