(* ===== verification/FillOrKill.thy ===== *)
theory FillOrKill
  imports EngineLog
begin

text \<open>
  Fill-or-kill orders. Whether one is let in is decided by the totals of at most 64 levels, added up in 32
  bits; what it then trades is decided order by order, self-trade prevention included. The lemmas say what
  each of the two comes to, and the properties where they part.
\<close>

section \<open>What counts as available\<close>

definition reachable_levels :: "request \<Rightarrow> matcher \<Rightarrow> level_view list" where
  "reachable_levels req s =
     takeWhile (\<lambda>lv. crosses req FOK (lw_price lv)) (bk_top (to_char (opposite (rq_side req))) 64 (snd (mt_book s)))"

definition shares32 :: "level_view list \<Rightarrow> u32" where
  "shares32 lvs = (\<Sum>lv \<leftarrow> lvs. ucast (lw_shares lv))"

lemma available_loop_short:
  "acc < rq_quantity req \<Longrightarrow>
   available_loop req t lvs acc < rq_quantity req \<longleftrightarrow>
   (\<forall>k. acc + shares32 (take k (takeWhile (\<lambda>lv. crosses req t (lw_price lv)) lvs)) < rq_quantity req)"
proof (induction lvs arbitrary: acc)
  case (Cons lv lvs)
  let ?acc = "acc + ucast (lw_shares lv)" and ?cs = "takeWhile (\<lambda>lv. crosses req t (lw_price lv)) lvs"
  show ?case
  proof (cases "crosses req t (lw_price lv)")
    case True
    have split: "(\<forall>k. acc + shares32 (take k (lv # ?cs)) < rq_quantity req) \<longleftrightarrow>
        ?acc < rq_quantity req \<and> (\<forall>k. ?acc + shares32 (take k ?cs) < rq_quantity req)"
    proof
      assume a: "\<forall>k. acc + shares32 (take k (lv # ?cs)) < rq_quantity req"
      have "acc + shares32 (take (Suc k) (lv # ?cs)) = ?acc + shares32 (take k ?cs)" for k by (simp add: shares32_def)
      then have b: "?acc + shares32 (take k ?cs) < rq_quantity req" for k using a by metis
      from b b [of 0] show "?acc < rq_quantity req \<and> (\<forall>k. ?acc + shares32 (take k ?cs) < rq_quantity req)"
        by (simp add: shares32_def)
    next
      assume a: "?acc < rq_quantity req \<and> (\<forall>k. ?acc + shares32 (take k ?cs) < rq_quantity req)"
      show "\<forall>k. acc + shares32 (take k (lv # ?cs)) < rq_quantity req"
      proof
        fix k
        show "acc + shares32 (take k (lv # ?cs)) < rq_quantity req"
          using a Cons.prems by (cases k) (simp_all add: shares32_def add.assoc)
      qed
    qed
    show ?thesis
    proof (cases "?acc < rq_quantity req")
      case False
      then have "available_loop req t (lv # lvs) acc = ?acc" using True by (simp add: Let_def not_less)
      moreover have "\<not> (\<forall>k. acc + shares32 (take k (lv # ?cs)) < rq_quantity req)" using split False by blast
      ultimately show ?thesis using True False by (simp del: take_Cons)
    next
      case acc: True
      then have "available_loop req t (lv # lvs) acc = available_loop req t lvs ?acc" using True leD [of "rq_quantity req" ?acc] by (auto simp: Let_def)
      then show ?thesis using Cons.IH [OF acc] split acc True by simp
    qed
  next
    case False
    then show ?thesis using Cons.prems by (simp add: shares32_def)
  qed
qed (simp add: shares32_def)

lemma available_short:
  assumes "0 < rq_quantity req"
  shows "available req FOK s < rq_quantity req \<longleftrightarrow> (\<forall>k. shares32 (take k (reachable_levels req s)) < rq_quantity req)"
  using available_loop_short [OF assms, of FOK] by (simp add: available_def reachable_levels_def)

section \<open>A submission\<close>

text \<open>A valid fill-or-kill order becomes a record of the engine and runs.\<close>

definition recorded :: "request \<Rightarrow> matcher \<Rightarrow> matcher" where
  "recorded req s = s\<lparr> mt_match_no := mt_match_no s + 1, mt_seq := mt_seq s + 1,
     mt_orders := om_set (rq_id req) (meta_new\<lparr> m_req := req, m_sequence := mt_seq s + 1 \<rparr>) (mt_orders s) \<rparr>"

lemma recorded_fields [simp]:
  "mt_book (recorded req s) = mt_book s" "mt_fills (recorded req s) = mt_fills s"
  "mt_orders (recorded req s) = om_set (rq_id req) (meta_new\<lparr> m_req := req, m_sequence := mt_seq s + 1 \<rparr>) (mt_orders s)"
  by (simp_all add: recorded_def)

lemma submit_fok:
  assumes "rq_type req = FOK" "validate req s = NoReject"
  shows "submit req s = run (rq_id req) (result_new\<lparr> rs_first_fill := length (mt_fills s) \<rparr>) FOK (recorded req s)"
proof -
  have "validate req (s\<lparr> mt_match_no := mt_match_no s + 1 \<rparr>) = NoReject" using assms(2) by (simp add: validate_def)
  then show ?thesis using assms(1) by (simp add: submit_def is_stop_def recorded_def Let_def)
qed

lemma finish_keeps_reject: "rs_reject (fst (finish_order i r t n k s)) = rs_reject r"
  by (auto simp: finish_order_def Let_def split: prod.split)

lemma run_order_fok:
  assumes "om_get i (mt_orders s) = Some m" "m_state m = New"
  shows "run_order i r FOK s =
     (if available (m_req m) FOK s < rq_quantity (m_req m)
      then Some (False, r\<lparr> rs_state := Rejected, rs_reject := FokUnfillable \<rparr>, transition i Rejected s)
      else do {
        (remaining, stp_killed, s) \<leftarrow> match i FOK (rq_quantity (m_req m),
          upd_meta i (\<lambda>m. m\<lparr> m_entered := True \<rparr>) (s\<lparr> mt_submitted := mt_submitted s + ucast (rq_quantity (m_req m)) \<rparr>));
        Some (True, finish_order i r FOK remaining stp_killed s)
      })"
  using assms by (simp add: run_order_def meta_of_def Let_def)

lemma fok_decision:
  assumes w: "om_wf (mt_orders s)" and f: "rq_type req = FOK" and v: "validate req s = NoReject"
    and s': "submit req s = Some (r, s')"
  shows "rs_reject r = FokUnfillable \<longleftrightarrow> available req FOK s < rq_quantity req"
    "rs_reject r = FokUnfillable \<Longrightarrow> rs_state r = Rejected \<and> rs_filled r = 0 \<and> mt_book s' = mt_book s \<and> mt_fills s' = mt_fills s"
proof -
  let ?i = "rq_id req" and ?s = "recorded req s" and ?r = "result_new\<lparr> rs_first_fill := length (mt_fills s) \<rparr>"
  let ?m = "meta_new\<lparr> m_req := req, m_sequence := mt_seq s + 1 \<rparr>"
  have m: "om_get ?i (mt_orders ?s) = Some ?m" "m_state ?m = New" by (simp_all add: om_get_set w meta_new_def)
  have a: "available req FOK ?s = available req FOK s" by (simp add: available_def)
  have "(rs_reject r = FokUnfillable \<longleftrightarrow> available req FOK s < rq_quantity req) \<and>
    (rs_reject r = FokUnfillable \<longrightarrow> rs_state r = Rejected \<and> rs_filled r = 0 \<and> mt_book s' = mt_book s \<and> mt_fills s' = mt_fills s)"
  proof (cases "available req FOK s < rq_quantity req")
    case True
    then have "r = ?r\<lparr> rs_state := Rejected, rs_reject := FokUnfillable \<rparr>" "s' = transition ?i Rejected ?s"
      using s' by (simp_all add: submit_fok [OF f v] run_def run_order_fok [OF m] a)
    then show ?thesis using True by (simp add: transition_def upd_meta_def result_new_def)
  next
    case False
    then obtain n k s2 any where "r = (fst (finish_order ?i ?r FOK n k s2))\<lparr> rs_triggered_stops := any \<rparr>"
      using s' by (auto simp: submit_fok [OF f v] run_def run_order_fok [OF m] a bind_eq_Some_conv split: prod.splits)
        (metis fst_conv)+
    then have "rs_reject r = NoReject" by (simp add: finish_keeps_reject result_new_def)
    then show ?thesis using False by simp
  qed
  then show "rs_reject r = FokUnfillable \<longleftrightarrow> available req FOK s < rq_quantity req"
    "rs_reject r = FokUnfillable \<Longrightarrow> rs_state r = Rejected \<and> rs_filled r = 0 \<and> mt_book s' = mt_book s \<and> mt_fills s' = mt_fills s"
    by blast+
qed

section \<open>What trades\<close>

lemma best_queue:
  assumes g: "good sb" and p: "best_ask (snd sb) = Some p" and q: "book_view sb False p = (r, n) # q"
  obtains x where "best_order (side_char False) (snd sb) = Some x" "o_ref (st_heap (fst sb) x) = r"
    "o_price (st_heap (fst sb) x) = p" "o_shares (st_heap (fst sb) x) = n"
proof -
  obtain st b where sb: "sb = (st, b)" by (meson surj_pair)
  have "best (the_side False b) = Some p" using p by (simp add: sb best_ask_def the_side_def)
  then have "\<exists>x. best_order (side_char False) b = Some x \<and> o_price (st_heap st x) = p \<and>
      tag (st_heap st) x = hd (book_view (st, b) False p)"
    using best_order_ok [of st b "side_char False" p] g by (simp add: sb)
  then show thesis using q that by (auto simp: sb tag_def)
qed

lemma ask_after_front:
  assumes g: "good sb" and p: "best_ask (snd sb) = Some p" and q: "book_view sb False p = (r, n) # (j, k) # q" and "j \<noteq> r"
  shows "best_ask (snd (bk_take r n sb)) = Some p" "book_view (bk_take r n sb) False p = (j, k) # a_reduce r n q"
proof -
  obtain st b where sb: "sb = (st, b)" by (meson surj_pair)
  obtain st' b' where sb': "bk_take r n sb = (st', b')" by (meson surj_pair)
  have v: "book_view (bk_take r n sb) = (\<lambda>d p. a_reduce r n (book_view sb d p))" by (rule book_laws(5) [OF g])
  then show q': "book_view (bk_take r n sb) False p = (j, k) # a_reduce r n q" using q \<open>j \<noteq> r\<close> by simp
  have g': "good (st', b')" using bk.take_ok [OF g] by (simp add: sb' [symmetric])
  have "p \<le> x" if "book_view (st', b') False x \<noteq> []" for x
  proof -
    have "book_view sb False x \<noteq> []" using that v by (auto simp: sb')
    then show ?thesis using p best_side_ok(1) [of st b False p] g by (simp add: sb best_ask_def the_side_def)
  qed
  then have "best (the_side False b') = Some p" using q' by (subst best_side_ok(1) [OF g']) (simp add: sb')
  then show "best_ask (snd (bk_take r n sb)) = Some p" by (simp add: sb' best_ask_def the_side_def)
qed

text \<open>Two rounds of the loop: an order of the feed trades, an order of the taker's own owner ends it.\<close>

lemma fok_rounds:
  assumes g: "good (mt_book s)" and w: "om_wf (mt_orders s)" and tk: "om_get i (mt_orders s) = Some m"
    and rq: "rq_side (m_req m) = Buy" "rq_stp (m_req m) = CancelNewest" "p \<le> rq_price (m_req m)"
    and book: "best_ask (snd (mt_book s)) = Some p" "book_view (mt_book s) False p = (e, n) # (j, k) # q"
    and e: "om_get e (mt_orders s) = None" and j: "om_get j (mt_orders s) = Some mk" "rq_owner (m_req mk) = rq_owner (m_req m)" "j \<noteq> i"
    and n: "n < rem"
  shows "\<exists>s'. match i FOK (rem, s) = Some (rem - n, True, s') \<and> om_wf (mt_orders s') \<and>
    om_get i (mt_orders s') = Some (m\<lparr> m_filled := m_filled m + n \<rparr>)"
proof -
  have ne: "j \<noteq> e" "e \<noteq> i" using e j tk by auto
  have rem: "rem \<noteq> 0" "rem - n \<noteq> 0" "\<not> rem < n" using n by auto
  have mt: "meta_of s i = m" using tk by (simp add: meta_of_def)
  obtain x where x: "best_order (side_char False) (snd (mt_book s)) = Some x" "o_ref (st_heap (fst (mt_book s)) x) = e"
    "o_price (st_heap (fst (mt_book s)) x) = p" "o_shares (st_heap (fst (mt_book s)) x) = n" by (rule best_queue [OF g book])
  define s1 where "s1 = snd (projr (match_step i FOK (rem, s)))"
  have 1: "match_step i FOK (rem, s) = Inr (rem - n, s1)"
    using rem(1,3) x e n rq by (simp add: s1_def match_step_def mt Let_def crosses_def)
  have s1: "mt_book s1 = bk_take e n (mt_book s)" "mt_orders s1 = om_set i (m\<lparr> m_filled := m_filled m + n \<rparr>) (mt_orders s)"
    using rem(1,3) x e n rq by (simp_all add: s1_def match_step_def mt Let_def crosses_def note_trade_def upd_meta_def meta_of_def tk)
  have g1: "good (mt_book s1)" unfolding s1 by (rule bk.take_ok [OF g])
  note A = ask_after_front [OF g book ne(1), folded s1(1)]
  obtain y where y: "best_order (side_char False) (snd (mt_book s1)) = Some y" "o_ref (st_heap (fst (mt_book s1)) y) = j"
    "o_price (st_heap (fst (mt_book s1)) y) = p" by (rule best_queue [OF g1 A])
  have t1: "om_get i (mt_orders s1) = Some (m\<lparr> m_filled := m_filled m + n \<rparr>)" "om_get j (mt_orders s1) = Some mk"
    using j by (simp_all add: s1 om_get_set w)
  have "meta_of s1 i = m\<lparr> m_filled := m_filled m + n \<rparr>" using t1(1) by (simp add: meta_of_def)
  then have "match_step i FOK (rem - n, s1) = Inl (rem - n, True, s1)"
    using rem(2) y t1(2) rq j(2) by (simp add: match_step_def Let_def crosses_def)
  then have "match i FOK (rem - n, s1) = Some (rem - n, True, s1)" by (subst match.simps) simp
  moreover have "match i FOK (rem, s) = match i FOK (rem - n, s1)" by (subst match.simps) (simp add: 1)
  ultimately show ?thesis using t1(1) w by (simp add: s1)
qed

lemma finish_fok:
  assumes "om_wf (mt_orders s)" "om_get i (mt_orders s) = Some m" "n \<noteq> 0"
  shows "fst (finish_order i r FOK n True s) = r\<lparr> rs_filled := m_filled m, rs_fill_count := length (mt_fills s) - rs_first_fill r,
      rs_cancelled := n, rs_state := Cancelled \<rparr>"
  using assms by (simp add: finish_order_def can_rest_def Let_def meta_of_def upd_meta_def transition_def om_get_set word_gt_0)

lemma fok_partial:
  assumes w: "engine_ok {} no_flight s" and ends: "submit req s = Some (r, s')"
    and f: "rq_type req = FOK" "rq_side req = Buy" "rq_stp req = CancelNewest" and v: "validate req s = NoReject"
    and new: "\<not> bound (mt_book s) (rq_id req)"
    and book: "best_ask (snd (mt_book s)) = Some p" "p \<le> rq_price req"
      "book_view (mt_book s) False p = (e, n) # (j, k) # q"
    and e: "om_get e (mt_orders s) = None" and j: "om_get j (mt_orders s) = Some mk" "rq_owner (m_req mk) = rq_owner req"
    and n: "n < rq_quantity req" and enough: "rq_quantity req \<le> available req FOK s"
  shows "rs_reject r = NoReject \<and> rs_state r = Cancelled \<and> rs_filled r = n \<and> rs_cancelled r = rq_quantity req - n"
proof -
  note D = engine_okD [OF w]
  let ?i = "rq_id req" and ?r = "result_new\<lparr> rs_first_fill := length (mt_fills s) \<rparr>"
  let ?m = "meta_new\<lparr> m_req := req, m_sequence := mt_seq s + 1 \<rparr>"
  define s1 where "s1 = upd_meta ?i (\<lambda>m. m\<lparr> m_entered := True \<rparr>)
      ((recorded req s)\<lparr> mt_submitted := mt_submitted (recorded req s) + ucast (rq_quantity req) \<rparr>)"
  have m: "om_get ?i (mt_orders (recorded req s)) = Some ?m" "m_state ?m = New" by (simp_all add: om_get_set D(2) meta_new_def)
  have none: "om_get ?i (mt_orders s) = None" using v by (auto simp: validate_def split: if_splits)
  have s1: "mt_book s1 = mt_book s" "om_wf (mt_orders s1)" "om_get ?i (mt_orders s1) = Some (?m\<lparr> m_entered := True \<rparr>)"
    "x \<noteq> ?i \<Longrightarrow> om_get x (mt_orders s1) = om_get x (mt_orders s)" for x
    by (simp_all add: s1_def upd_meta_def meta_of_def om_get_set D(2))
  have ne: "j \<noteq> ?i" "e \<noteq> ?i"
    using j(1) none new bk.rests_bound [OF D(1), of e False p n] book(3) by (auto simp: rests_def)
  have e1: "om_get e (mt_orders s1) = None" and j1: "om_get j (mt_orders s1) = Some mk" using s1(4) ne e j by simp_all
  have rq: "rq_side (m_req (?m\<lparr> m_entered := True \<rparr>)) = Buy" "rq_stp (m_req (?m\<lparr> m_entered := True \<rparr>)) = CancelNewest"
    "p \<le> rq_price (m_req (?m\<lparr> m_entered := True \<rparr>))" "rq_owner (m_req mk) = rq_owner (m_req (?m\<lparr> m_entered := True \<rparr>))"
    using f book(2) j(2) by simp_all
  from fok_rounds [OF D(1) [folded s1(1)] s1(2,3) rq(1-3) book(1,3) [folded s1(1)] e1 j1 rq(4) ne(1) n]
  obtain s2 where s2: "match ?i FOK (rq_quantity req, s1) = Some (rq_quantity req - n, True, s2)" "om_wf (mt_orders s2)"
    "om_get ?i (mt_orders s2) = Some (?m\<lparr> m_entered := True, m_filled := n \<rparr>)" by (auto simp: meta_new_def)
  have a: "available req FOK (recorded req s) = available req FOK s" by (simp add: available_def)
  have "run_order ?i ?r FOK (recorded req s) = Some (True, finish_order ?i ?r FOK (rq_quantity req - n) True s2)"
    using run_order_fok [OF m, of ?r] enough s2(1) by (simp add: a leD s1_def)
  then obtain any where "r = (fst (finish_order ?i ?r FOK (rq_quantity req - n) True s2))\<lparr> rs_triggered_stops := any \<rparr>"
    using ends by (auto simp: submit_fok [OF f(1) v] run_def bind_eq_Some_conv split: prod.splits)
  moreover have "rq_quantity req - n \<noteq> 0" using n by auto
  ultimately show ?thesis by (simp add: finish_fok [OF s2(2,3)] result_new_def)
qed

end
