(* ===== verification/Mold.thy ===== *)
theory Mold
  imports Itch
begin

text \<open>
  MoldUDP64: the packet format (include/itchbook/mold/packet.hpp) and the publisher that packs
  messages into datagrams (include/itchbook/mold/publisher.hpp). A datagram is a byte list; the
  publisher's \<open>send\<close> callback is the list of the datagrams it was called with.

  \<open>data_packet\<close> says what a well-formed datagram is: a header with the sequence number of its first
  message and the count, then the messages behind their lengths. The lemmas show that iterating over
  such a datagram gives its messages back, and that everything a publisher sends is one, over
  consecutive runs of the messages that were added.
\<close>

section \<open>The header\<close>

definition kHeaderLen :: nat where "kHeaderLen = 20"
definition kSessionLen :: nat where "kSessionLen = 10"
definition kEndOfSession :: u16 where "kEndOfSession = 0xFFFF"

record mold_header =
  mh_session :: "u8 list"
  mh_sequence :: u64
  mh_count :: u16

definition mh_heartbeat :: "mold_header \<Rightarrow> bool" where "mh_heartbeat hdr = (mh_count hdr = 0)"
definition mh_end_of_session :: "mold_header \<Rightarrow> bool" where
  "mh_end_of_session hdr = (mh_count hdr = kEndOfSession)"
definition mh_message_count :: "mold_header \<Rightarrow> u16" where
  "mh_message_count hdr = (if mh_end_of_session hdr then 0 else mh_count hdr)"

definition parse_header :: "u8 list \<Rightarrow> mold_header option" where
  "parse_header p =
     (if length p < kHeaderLen then None
      else Some \<lparr> mh_session = bytes_at p 0 kSessionLen @ [0], mh_sequence = be64 p kSessionLen,
                  mh_count = be16 p (kSessionLen + 8) \<rparr>)"

section \<open>Walking the blocks\<close>

record block_iter =
  bi_p :: "u8 list"
  bi_len :: nat
  bi_remaining :: u16
  bi_off :: nat
  bi_truncated :: bool

definition block_iter :: "u8 list \<Rightarrow> nat \<Rightarrow> u16 \<Rightarrow> block_iter" where
  "block_iter packet len cnt =
     \<lparr> bi_p = packet, bi_len = len, bi_remaining = cnt, bi_off = kHeaderLen, bi_truncated = False \<rparr>"

definition block_next :: "block_iter \<Rightarrow> u8 list option \<times> block_iter" where
  "block_next it =
     (if bi_remaining it = 0 then (None, it)
      else if bi_off it + 2 > bi_len it then (None, it\<lparr> bi_truncated := True \<rparr>)
      else
        let n = unat (be16 (bi_p it) (bi_off it)) in
        if bi_off it + 2 + n > bi_len it then (None, it\<lparr> bi_truncated := True \<rparr>)
        else (Some (bytes_at (bi_p it) (bi_off it + 2) n),
              it\<lparr> bi_off := bi_off it + (2 + n), bi_remaining := bi_remaining it - 1 \<rparr>))"

section \<open>Writing\<close>

definition write_be16 :: "nat \<Rightarrow> u16 \<Rightarrow> u8 list \<Rightarrow> u8 list" where
  "write_be16 i v p = p[i := ucast (drop_bit 8 v), i + 1 := ucast (v AND 0xff)]"

definition write_be64 :: "nat \<Rightarrow> u64 \<Rightarrow> u8 list \<Rightarrow> u8 list" where
  "write_be64 i v p = fold (\<lambda>k p. p[i + k := ucast (drop_bit (8 * (7 - k)) v)]) [0..<8] p"

definition write_header :: "u8 list \<Rightarrow> u64 \<Rightarrow> u16 \<Rightarrow> u8 list \<Rightarrow> u8 list" where
  "write_header session sequence cnt p =
     (let p = memcpy 0 (replicate kSessionLen (ch CHR '' '')) p;
          session = takeWhile (\<lambda>c. c \<noteq> 0) session;
          n = length session;
          p = memcpy 0 (take (if n < kSessionLen then n else kSessionLen) session) p;
          p = write_be64 kSessionLen sequence p
      in write_be16 (kSessionLen + 8) cnt p)"

section \<open>The publisher\<close>

record publisher =
  pb_session :: "u8 list"
  pb_mtu :: nat
  pb_packet :: "u8 list"
  pb_used :: nat
  pb_count :: u16
  pb_sequence :: u64
  pb_messages :: u64
  pb_packets :: u64
  pb_heartbeats :: u64
  pb_last_hb_ns :: u64
  pb_ended :: bool
  pb_sent :: "u8 list list"

definition publisher_new :: "u8 list \<Rightarrow> nat \<Rightarrow> publisher" where
  "publisher_new session mtu =
     \<lparr> pb_session = session, pb_mtu = mtu, pb_packet = replicate mtu 0, pb_used = kHeaderLen,
       pb_count = 0, pb_sequence = 1, pb_messages = 0, pb_packets = 0, pb_heartbeats = 0,
       pb_last_hb_ns = 0, pb_ended = False, pb_sent = [] \<rparr>"

definition send :: "u8 list \<Rightarrow> publisher \<Rightarrow> publisher" where
  "send datagram s = s\<lparr> pb_sent := pb_sent s @ [datagram] \<rparr>"

definition pb_flush :: "publisher \<Rightarrow> publisher" where
  "pb_flush s =
     (if pb_count s = 0 then s
      else
        let s = s\<lparr> pb_packet := write_header (pb_session s) (pb_sequence s) (pb_count s) (pb_packet s) \<rparr>;
            s = send (take (pb_used s) (pb_packet s)) s;
            s = s\<lparr> pb_sequence := pb_sequence s + ucast (pb_count s) \<rparr>;
            s = s\<lparr> pb_used := kHeaderLen \<rparr>;
            s = s\<lparr> pb_count := 0 \<rparr>
        in s\<lparr> pb_packets := pb_packets s + 1 \<rparr>)"

definition pb_add :: "u8 list \<Rightarrow> publisher \<Rightarrow> bool \<times> publisher" where
  "pb_add msg s =
     (let need = 2 + length msg in
      if pb_mtu s \<le> kHeaderLen \<or> need > pb_mtu s - kHeaderLen then (False, s)
      else
        let s = (if pb_used s + need > pb_mtu s \<or> pb_count s = kEndOfSession - 1 then pb_flush s else s);
            s = s\<lparr> pb_packet := write_be16 (pb_used s) (of_nat (length msg)) (pb_packet s) \<rparr>;
            s = s\<lparr> pb_packet := memcpy (pb_used s + 2) msg (pb_packet s) \<rparr>;
            s = s\<lparr> pb_used := pb_used s + need \<rparr>;
            s = s\<lparr> pb_count := pb_count s + 1 \<rparr>;
            s = s\<lparr> pb_messages := pb_messages s + 1 \<rparr>
        in (True, s))"

definition pb_maybe_heartbeat :: "u64 \<Rightarrow> u64 \<Rightarrow> publisher \<Rightarrow> publisher" where
  "pb_maybe_heartbeat wall_ns period_ns s =
     (if period_ns = 0 then s
      else if pb_last_hb_ns s = 0 then s\<lparr> pb_last_hb_ns := wall_ns \<rparr>
      else if wall_ns - pb_last_hb_ns s < period_ns then s
      else
        let s = pb_flush s;
            hb = write_header (pb_session s) (pb_sequence s) 0 (replicate kHeaderLen 0);
            s = send hb s;
            s = s\<lparr> pb_last_hb_ns := wall_ns \<rparr>
        in s\<lparr> pb_heartbeats := pb_heartbeats s + 1 \<rparr>)"

definition pb_end_of_session :: "publisher \<Rightarrow> publisher" where
  "pb_end_of_session s =
     (let s = pb_flush s;
          eos = write_header (pb_session s) (pb_sequence s) kEndOfSession (replicate kHeaderLen 0);
          s = send eos s;
          s = s\<lparr> pb_packets := pb_packets s + 1 \<rparr>
      in s\<lparr> pb_ended := True \<rparr>)"

definition sequence_of_next_add :: "publisher \<Rightarrow> u64" where
  "sequence_of_next_add s = pb_sequence s + ucast (pb_count s)"

section \<open>What a datagram carries\<close>

text \<open>The session as it stands in a header: ten bytes, space padded.\<close>

definition session_field :: "u8 list \<Rightarrow> u8 list" where
  "session_field s = take kSessionLen (takeWhile (\<lambda>c. c \<noteq> 0) s @ replicate kSessionLen 32)"

definition mold_datagram :: "u8 list \<Rightarrow> u64 \<Rightarrow> u16 \<Rightarrow> u8 list \<Rightarrow> u8 list" where
  "mold_datagram session sequence cnt body = session @ enc64 sequence @ enc16 cnt @ body"

definition data_packet :: "u8 list \<Rightarrow> u64 \<Rightarrow> u8 list list \<Rightarrow> u8 list" where
  "data_packet session sequence ms = mold_datagram session sequence (of_nat (length ms)) (frame_file ms)"

lemma length_session_field [simp]: "length (session_field s) = 10"
  by (simp add: session_field_def kSessionLen_def)

lemma get_prefix: "be64 (s @ enc64 v @ r) (length s) = v" "be16 (s @ enc16 w @ r) (length s) = w"
proof -
  have "be64 (s @ enc64 v @ r) (length s) = be64 (enc64 v) 0"
    by (rule f64.get_local) (simp add: nth_append)
  then show "be64 (s @ enc64 v @ r) (length s) = v" by (simp add: be64_enc64)
  have "be16 (s @ enc16 w @ r) (length s) = be16 (enc16 w) 0"
    by (rule f16.get_local) (simp add: nth_append)
  then show "be16 (s @ enc16 w @ r) (length s) = w" by (simp add: be16_enc16)
qed

lemma parse_datagram:
  assumes "length session = 10"
  shows "parse_header (mold_datagram session sequence cnt body) =
    Some \<lparr> mh_session = session @ [0], mh_sequence = sequence, mh_count = cnt \<rparr>"
proof -
  let ?p = "mold_datagram session sequence cnt body"
  have "be64 ?p 10 = sequence" using get_prefix(1) [of session sequence "enc16 cnt @ body"] assms
    by (simp add: mold_datagram_def)
  moreover have "be16 ?p 18 = cnt" using get_prefix(2) [of "session @ enc64 sequence" cnt body] assms
    by (simp add: mold_datagram_def)
  moreover have "bytes_at ?p 0 10 = session"
    by (rule nth_equalityI) (simp_all add: assms bytes_at_def mold_datagram_def nth_append)
  ultimately show ?thesis
    using assms by (simp add: parse_header_def kHeaderLen_def kSessionLen_def mold_datagram_def)
qed

text \<open>Reading a block at a position of a datagram.\<close>

lemma block_at:
  assumes "length m < 2 ^ 16" "off = length pre"
  shows "be16 (pre @ enc16 (of_nat (length m)) @ m @ rest) off = of_nat (length m)"
    "unat (of_nat (length m) :: u16) = length m"
    "bytes_at (pre @ enc16 (of_nat (length m)) @ m @ rest) (off + 2) (length m) = m"
proof -
  show "be16 (pre @ enc16 (of_nat (length m)) @ m @ rest) off = of_nat (length m)"
    using get_prefix(2) [of pre "of_nat (length m)" "m @ rest"] assms(2) by simp
  show "unat (of_nat (length m) :: u16) = length m"
    using assms(1) by (simp add: unsigned_of_nat take_bit_nat_eq_self)
  show "bytes_at (pre @ enc16 (of_nat (length m)) @ m @ rest) (off + 2) (length m) = m"
    by (rule nth_equalityI) (simp_all add: bytes_at_def assms(2) nth_append)
qed

lemma block_next_frame:
  assumes "length m < 2 ^ 16" "bi_remaining it \<noteq> 0" "bi_len it = length (bi_p it)"
    and p: "bi_p it = pre @ frame_file (m # ms)" and o: "bi_off it = length pre"
  shows "block_next it = (Some m, it\<lparr> bi_off := length (pre @ enc16 (of_nat (length m)) @ m),
    bi_remaining := bi_remaining it - 1 \<rparr>)"
proof -
  have p': "bi_p it = pre @ enc16 (of_nat (length m)) @ m @ frame_file ms"
    using p by (simp add: frame_file_def)
  note B = block_at(1,3) [OF assms(1) o, of "frame_file ms"] block_at(2) [OF assms(1) o]
  have "bi_len it = length pre + 2 + length m + length (frame_file ms)" using assms(3) p' by simp
  with assms(2) B o show ?thesis
    unfolding block_next_def Let_def p' by simp
qed

section \<open>What a publisher sends\<close>

lemma write_be16_enc: "write_be16 i v p = memcpy i (enc16 v) p"
proof -
  have "(0xff :: u16) = mask 8" by (simp add: mask_eq_exp_minus_1)
  then have "v AND 0xff = take_bit 8 v" by (metis take_bit_eq_mask)
  then have "(ucast (v AND 0xff) :: u8) = ucast v"
    by (intro bit_word_eqI) (simp add: bit_simps)
  then show ?thesis by (simp add: write_be16_def flip: put16_enc) (simp add: put16_def)
qed

lemma write_be64_enc: "write_be64 i v p = memcpy i (enc64 v) p"
  unfolding put64_enc [symmetric] write_be64_def put64_def
  by (rule fold_cong) (auto simp: diff_mult_distrib2)

lemma write_header_eq:
  assumes "20 \<le> length p"
  shows "write_header session k c p = mold_datagram (session_field session) k c (drop 20 p)"
proof -
  let ?n = "length (takeWhile (\<lambda>c. c \<noteq> 0) session)"
  let ?s = "take (if ?n < 10 then ?n else 10) (takeWhile (\<lambda>c. c \<noteq> 0) session)"
  have "memcpy 0 ?s (memcpy 0 (replicate 10 32) p) = session_field session @ drop 10 p"
    using assms by (simp add: memcpy_append session_field_def kSessionLen_def min_def)
  then have "write_header session k c p =
      memcpy 18 (enc16 c) (memcpy 10 (enc64 k) (session_field session @ drop 10 p))"
    unfolding write_header_def Let_def kSessionLen_def write_be16_enc write_be64_enc by simp
  also have "\<dots> = session_field session @ enc64 k @ enc16 c @ drop 20 p"
    using assms by (simp add: memcpy_append)
  finally show ?thesis by (simp add: mold_datagram_def)
qed

text \<open>\<open>publishes session M ds\<close>: the datagrams \<open>ds\<close> carry the messages \<open>M\<close>, numbered from 1.\<close>

inductive publishes :: "u8 list \<Rightarrow> u8 list list \<Rightarrow> u8 list list \<Rightarrow> bool" for session where
  none: "publishes session [] []"
| data: "publishes session M ds \<Longrightarrow> ms \<noteq> [] \<Longrightarrow> length ms < 65535 \<Longrightarrow>
    publishes session (M @ ms) (ds @ [data_packet (session_field session) (of_nat (1 + length M)) ms])"
| heartbeat: "publishes session M ds \<Longrightarrow>
    publishes session M (ds @ [mold_datagram (session_field session) (of_nat (1 + length M)) 0 []])"
| ended: "publishes session M ds \<Longrightarrow>
    publishes session M (ds @ [mold_datagram (session_field session) (of_nat (1 + length M)) kEndOfSession []])"

definition pub_ok :: "publisher \<Rightarrow> u8 list list \<Rightarrow> u8 list list \<Rightarrow> bool" where
  "pub_ok s M pending \<longleftrightarrow>
     publishes (pb_session s) M (pb_sent s) \<and> kHeaderLen < pb_mtu s \<and>
     length (pb_packet s) = pb_mtu s \<and> length pending < 65535 \<and>
     pb_count s = of_nat (length pending) \<and> pb_sequence s = of_nat (1 + length M) \<and>
     pb_used s = 20 + length (frame_file pending) \<and> pb_used s \<le> pb_mtu s \<and>
     take (length (frame_file pending)) (drop 20 (pb_packet s)) = frame_file pending"

lemma publisher_new_ok: "kHeaderLen < mtu \<Longrightarrow> pub_ok (publisher_new session mtu) [] []"
  by (simp add: pub_ok_def publisher_new_def publishes.none kHeaderLen_def frame_file_def)

lemma count_zero: "n < 65535 \<Longrightarrow> (of_nat n :: u16) = 0 \<longleftrightarrow> n = 0"
proof -
  assume "n < 65535"
  then have "unat (of_nat n :: u16) = n" by (simp add: unsigned_of_nat take_bit_nat_eq_self)
  then show ?thesis by (simp add: word_unat_eq_iff)
qed

lemma ucast_of_nat: "n < 2 ^ 16 \<Longrightarrow> (ucast (of_nat n :: u16) :: u64) = of_nat n"
proof -
  assume "n < 2 ^ 16"
  then have "unat (of_nat n :: u16) = n" by (simp add: unsigned_of_nat take_bit_nat_eq_self)
  then show ?thesis by (metis of_nat_unat)
qed

lemma pb_flush_ok:
  assumes ok: "pub_ok s M pending"
  shows "pub_ok (pb_flush s) (M @ pending) []" "pb_session (pb_flush s) = pb_session s"
    "pb_mtu (pb_flush s) = pb_mtu s" "pb_messages (pb_flush s) = pb_messages s"
proof -
  have P: "pub_ok (pb_flush s) (M @ pending) [] \<and> pb_session (pb_flush s) = pb_session s \<and>
    pb_mtu (pb_flush s) = pb_mtu s \<and> pb_messages (pb_flush s) = pb_messages s"
  proof (cases "pending = []")
    case True
    then have "pb_flush s = s" using ok by (simp add: pub_ok_def pb_flush_def)
    then show ?thesis using ok True by simp
  next
    case False
    let ?p = "write_header (pb_session s) (pb_sequence s) (pb_count s) (pb_packet s)"
    note O = ok [unfolded pub_ok_def kHeaderLen_def]
    have c: "pb_count s \<noteq> 0" using O False count_zero by simp
    have hd: "?p = mold_datagram (session_field (pb_session s)) (pb_sequence s) (pb_count s) (drop 20 (pb_packet s))"
      by (rule write_header_eq) (use O in simp)
    have "20 < length (pb_packet s)" using O by simp
    then have "length ?p = length (pb_packet s)" unfolding hd by (simp add: mold_datagram_def)
    then have lp: "length ?p = pb_mtu s" using O by simp
    have sent: "take (pb_used s) ?p = data_packet (session_field (pb_session s)) (of_nat (1 + length M)) pending"
      unfolding hd using O by (simp add: mold_datagram_def data_packet_def)
    have "publishes (pb_session s) (M @ pending) (pb_sent s @ [take (pb_used s) ?p])"
      unfolding sent by (rule publishes.data) (use O False in simp_all)
    moreover have "pb_sequence s + ucast (pb_count s) = of_nat (1 + length (M @ pending))"
      using O by (simp add: ucast_of_nat)
    ultimately show ?thesis
      using O c lp by (simp add: pb_flush_def send_def pub_ok_def kHeaderLen_def frame_file_def)
  qed
  then show "pub_ok (pb_flush s) (M @ pending) []" "pb_session (pb_flush s) = pb_session s"
    "pb_mtu (pb_flush s) = pb_mtu s" "pb_messages (pb_flush s) = pb_messages s" by blast+
qed

lemma frame_file_snoc: "frame_file (ms @ [m]) = frame_file ms @ enc16 (of_nat (length m)) @ m"
  by (simp add: frame_file_def)

lemma pb_add_ok:
  assumes ok: "pub_ok s M pending" and fit: "length msg + 2 \<le> pb_mtu s - kHeaderLen"
    and res: "pb_add msg s = (b, s')"
  shows "b \<and> (pub_ok s' M (pending @ [msg]) \<or> pub_ok s' (M @ pending) [msg])"
    "pb_session s' = pb_session s" "pb_mtu s' = pb_mtu s"
proof -
  note O = ok [unfolded pub_ok_def kHeaderLen_def]
  let ?must = "pb_used s + (2 + length msg) > pb_mtu s \<or> pb_count s = kEndOfSession - 1"
  define s1 where "s1 = (if ?must then pb_flush s else s)"
  define M1 where "M1 = (if ?must then M @ pending else M)"
  define p1 where "p1 = (if ?must then [] else pending)"
  have ok1: "pub_ok s1 M1 p1" and same: "pb_session s1 = pb_session s" "pb_mtu s1 = pb_mtu s"
    using ok pb_flush_ok [OF ok] by (simp_all add: s1_def M1_def p1_def)
  note O1 = ok1 [unfolded pub_ok_def kHeaderLen_def]
  have room: "pb_used s1 + (2 + length msg) \<le> pb_mtu s1"
  proof (cases ?must)
    case True
    then have "pb_used s1 = 20" using O1 by (simp add: p1_def frame_file_def)
    then show ?thesis using fit same O by (simp add: kHeaderLen_def)
  qed (use same s1_def in simp)
  have cnt: "length p1 + 1 < 65535"
  proof (cases ?must)
    case False
    have "pb_count s = of_nat (length pending)" "length pending < 65535" using O by simp_all
    moreover have "length pending \<noteq> 65534"
    proof
      assume "length pending = 65534"
      then show False using False O by (simp add: kEndOfSession_def)
    qed
    ultimately show ?thesis using False by (simp add: p1_def)
  qed (simp add: p1_def)
  let ?p = "memcpy (pb_used s1 + 2) msg (memcpy (pb_used s1) (enc16 (of_nat (length msg))) (pb_packet s1))"
  have p: "take (length (frame_file (p1 @ [msg]))) (drop 20 ?p) = frame_file (p1 @ [msg])"
    using O1 room by (simp add: memcpy_append frame_file_snoc take_drop add.commute)
  have s': "b" "s' = s1\<lparr> pb_packet := ?p, pb_used := pb_used s1 + (2 + length msg),
      pb_count := pb_count s1 + 1, pb_messages := pb_messages s1 + 1 \<rparr>"
    using res fit O by (auto simp: pb_add_def Let_def s1_def write_be16_enc kHeaderLen_def)
  have "pub_ok s' M1 (p1 @ [msg])"
    using O1 room cnt p unfolding pub_ok_def kHeaderLen_def s'(2) by (simp add: frame_file_snoc)
  then show "b \<and> (pub_ok s' M (pending @ [msg]) \<or> pub_ok s' (M @ pending) [msg])"
    using s'(1) by (simp add: M1_def p1_def split: if_splits)
  show "pb_session s' = pb_session s" "pb_mtu s' = pb_mtu s" using same by (simp_all add: s'(2))
qed

lemma pb_heartbeat_ok:
  assumes ok: "pub_ok s M pending"
  shows "\<exists>M' p'. pub_ok (pb_maybe_heartbeat w per s) M' p' \<and> M' @ p' = M @ pending"
    "pb_session (pb_maybe_heartbeat w per s) = pb_session s"
    "pb_mtu (pb_maybe_heartbeat w per s) = pb_mtu s"
proof -
  let ?f = "pb_flush s"
  note F = pb_flush_ok [OF ok]
  have hb: "write_header (pb_session ?f) (pb_sequence ?f) 0 (replicate kHeaderLen 0) =
      mold_datagram (session_field (pb_session s)) (of_nat (1 + length (M @ pending))) 0 []"
    using F by (subst write_header_eq) (simp_all add: kHeaderLen_def pub_ok_def)
  have "publishes (pb_session s) (M @ pending) (pb_sent ?f @
      [mold_datagram (session_field (pb_session s)) (of_nat (1 + length (M @ pending))) 0 []])"
    by (rule publishes.heartbeat) (use F in \<open>simp add: pub_ok_def\<close>)
  then have fl: "pub_ok (pb_maybe_heartbeat w per s) (M @ pending) []"
    if "pb_maybe_heartbeat w per s \<noteq> s" "pb_maybe_heartbeat w per s \<noteq> s\<lparr> pb_last_hb_ns := w \<rparr>"
    using that F hb by (auto simp: pb_maybe_heartbeat_def Let_def send_def pub_ok_def split: if_splits)
  have "pub_ok (s\<lparr> pb_last_hb_ns := w \<rparr>) M pending" using ok by (simp add: pub_ok_def)
  with ok fl show "\<exists>M' p'. pub_ok (pb_maybe_heartbeat w per s) M' p' \<and> M' @ p' = M @ pending"
    by (metis append_Nil2)
  show "pb_session (pb_maybe_heartbeat w per s) = pb_session s"
    "pb_mtu (pb_maybe_heartbeat w per s) = pb_mtu s"
    using F by (simp_all add: pb_maybe_heartbeat_def Let_def send_def)
qed

lemma pb_end_ok:
  assumes ok: "pub_ok s M pending"
  shows "pub_ok (pb_end_of_session s) (M @ pending) []" "pb_session (pb_end_of_session s) = pb_session s"
    "pb_mtu (pb_end_of_session s) = pb_mtu s"
proof -
  let ?f = "pb_flush s"
  note F = pb_flush_ok [OF ok]
  have eos: "write_header (pb_session ?f) (pb_sequence ?f) kEndOfSession (replicate kHeaderLen 0) =
      mold_datagram (session_field (pb_session s)) (of_nat (1 + length (M @ pending))) kEndOfSession []"
    using F by (subst write_header_eq) (simp_all add: kHeaderLen_def pub_ok_def)
  have "publishes (pb_session s) (M @ pending) (pb_sent ?f @
      [mold_datagram (session_field (pb_session s)) (of_nat (1 + length (M @ pending))) kEndOfSession []])"
    by (rule publishes.ended) (use F in \<open>simp add: pub_ok_def\<close>)
  then show "pub_ok (pb_end_of_session s) (M @ pending) []"
    using F eos by (simp add: pb_end_of_session_def Let_def send_def pub_ok_def)
  show "pb_session (pb_end_of_session s) = pb_session s" "pb_mtu (pb_end_of_session s) = pb_mtu s"
    using F by (simp_all add: pb_end_of_session_def Let_def send_def)
qed

text \<open>A run of the publisher, as its owner drives it.\<close>

datatype pub_call = Add "u8 list" | Flush | Heartbeat u64 u64 | EndOfSession

fun pub_step :: "pub_call \<Rightarrow> publisher \<Rightarrow> publisher" where
  "pub_step (Add m) s = snd (pb_add m s)"
| "pub_step Flush s = pb_flush s"
| "pub_step (Heartbeat w per) s = pb_maybe_heartbeat w per s"
| "pub_step EndOfSession s = pb_end_of_session s"

fun added :: "pub_call list \<Rightarrow> u8 list list" where
  "added [] = []"
| "added (Add m # cs) = m # added cs"
| "added (_ # cs) = added cs"

lemma pub_step_ok:
  assumes ok: "pub_ok s M pending" and fit: "\<forall>m. c = Add m \<longrightarrow> length m + 2 \<le> pb_mtu s - kHeaderLen"
  shows "\<exists>M' p'. pub_ok (pub_step c s) M' p' \<and> M' @ p' = M @ pending @ added [c]"
    "pb_session (pub_step c s) = pb_session s" "pb_mtu (pub_step c s) = pb_mtu s"
proof -
  have "(\<exists>M' p'. pub_ok (pub_step c s) M' p' \<and> M' @ p' = M @ pending @ added [c]) \<and>
    pb_session (pub_step c s) = pb_session s \<and> pb_mtu (pub_step c s) = pb_mtu s"
  proof (cases c)
    case (Add m)
    obtain b s' where r: "pb_add m s = (b, s')" by (cases "pb_add m s")
    have "length m + 2 \<le> pb_mtu s - kHeaderLen" using fit Add by simp
    note A = pb_add_ok [OF ok this r]
    from A(1) consider "pub_ok s' M (pending @ [m])" | "pub_ok s' (M @ pending) [m]" by blast
    then have "\<exists>M' p'. pub_ok s' M' p' \<and> M' @ p' = M @ pending @ [m]"
      by cases (rule exI [of _ M], rule exI [of _ "pending @ [m]"], simp,
        rule exI [of _ "M @ pending"], rule exI [of _ "[m]"], simp)
    then show ?thesis using A(2,3) r Add by simp
  next
    case Flush
    with pb_flush_ok [OF ok] show ?thesis by auto
  next
    case (Heartbeat w per)
    with pb_heartbeat_ok [OF ok] show ?thesis by simp
  next
    case EndOfSession
    with pb_end_ok [OF ok] show ?thesis by auto
  qed
  then show "\<exists>M' p'. pub_ok (pub_step c s) M' p' \<and> M' @ p' = M @ pending @ added [c]"
    "pb_session (pub_step c s) = pb_session s" "pb_mtu (pub_step c s) = pb_mtu s" by blast+
qed

lemma added_Cons: "added (c # cs) = added [c] @ added cs"
  by (cases c) simp_all

lemma pub_run_ok:
  "pub_ok s M pending \<Longrightarrow> \<forall>m \<in> set (added cs). length m + 2 \<le> pb_mtu s - kHeaderLen \<Longrightarrow>
   \<exists>M' p'. pub_ok (fold pub_step cs s) M' p' \<and> M' @ p' = M @ pending @ added cs \<and>
     pb_session (fold pub_step cs s) = pb_session s"
proof (induction cs arbitrary: s M pending)
  case (Cons c cs)
  have f: "\<forall>m. c = Add m \<longrightarrow> length m + 2 \<le> pb_mtu s - kHeaderLen" using Cons.prems(2) by auto
  obtain M1 p1 where 1: "pub_ok (pub_step c s) M1 p1" "M1 @ p1 = M @ pending @ added [c]"
      "pb_session (pub_step c s) = pb_session s" "pb_mtu (pub_step c s) = pb_mtu s"
    using pub_step_ok [OF Cons.prems(1) f] by blast
  have "\<forall>m \<in> set (added cs). length m + 2 \<le> pb_mtu (pub_step c s) - kHeaderLen"
    using Cons.prems(2) 1(4) by (simp add: added_Cons [of c cs])
  moreover have "M1 @ p1 @ added cs = M @ pending @ added (c # cs)"
    using 1(2) by (metis added_Cons append.assoc)
  ultimately show ?case using Cons.IH [OF 1(1)] 1(3) by simp
qed auto

theorem publisher_sends:
  assumes "kHeaderLen < mtu" "\<forall>m \<in> set (added cs). length m + 2 \<le> mtu - kHeaderLen"
  shows "publishes session (added cs) (pb_sent (pb_flush (fold pub_step cs (publisher_new session mtu))))"
proof -
  let ?s = "publisher_new session mtu"
  have "pb_mtu ?s = mtu" "pb_session ?s = session" by (simp_all add: publisher_new_def)
  with pub_run_ok [OF publisher_new_ok [OF assms(1)], of cs session] assms(2)
  obtain M p where "pub_ok (fold pub_step cs ?s) M p" "M @ p = added cs" "pb_session (fold pub_step cs ?s) = session"
    by auto
  from pb_flush_ok [OF this(1)] this(2,3) show ?thesis by (simp add: pub_ok_def)
qed

end
