(* ===== verification/Sequencer.thy ===== *)
theory Sequencer
  imports Mold
begin

text \<open>
  The receiving half of MoldUDP64 (class \<open>Sequencer\<close> of include/itchbook/mold/sequencer.hpp): deciding
  whether the whole feed arrived. The handler is the log of the calls it got. The reorder buffer is a
  map from sequence number to datagram.

  \<open>accounts M a k log k'\<close> reads such a log against the stream \<open>M\<close> whose first message has number \<open>a\<close>: from
  position \<open>k\<close> on, every call delivers the message that is due or reports a gap that starts there,
  and after the last call position \<open>k'\<close> is due. The main lemma shows this of any sequence of datagrams
  of one stream, however they are lost, duplicated, reordered and overlapped.
\<close>

section \<open>State\<close>

record seq_config =
  cf_reorder_depth :: nat
  cf_reorder_patience :: u64

definition seq_config_default :: seq_config where
  "seq_config_default = \<lparr> cf_reorder_depth = 64, cf_reorder_patience = 256 \<rparr>"

record seq_stats =
  sq_packets :: u64
  sq_messages :: u64
  sq_heartbeats :: u64
  sq_duplicate_packets :: u64
  sq_duplicate_messages :: u64
  sq_reordered_packets :: u64
  sq_gaps :: u64
  sq_messages_lost :: u64
  sq_truncated_packets :: u64
  sq_session_changes :: u64

definition seq_stats_new :: seq_stats where
  "seq_stats_new =
     \<lparr> sq_packets = 0, sq_messages = 0, sq_heartbeats = 0, sq_duplicate_packets = 0,
       sq_duplicate_messages = 0, sq_reordered_packets = 0, sq_gaps = 0, sq_messages_lost = 0,
       sq_truncated_packets = 0, sq_session_changes = 0 \<rparr>"

datatype seq_call = Message "u8 list" | Gap u64 u64

record sequencer =
  se_cfg :: seq_config
  se_stats :: seq_stats
  se_buffer :: "(u64, u8 list) omap"
  se_session :: "u8 list"
  se_expected :: u64
  se_since_gap :: u64
  se_started :: bool
  se_ended :: bool
  se_log :: "seq_call list"

definition sequencer_new :: "seq_config \<Rightarrow> sequencer" where
  "sequencer_new cfg =
     \<lparr> se_cfg = cfg, se_stats = seq_stats_new, se_buffer = [], se_session = replicate 11 0,
       se_expected = 0, se_since_gap = 0, se_started = False, se_ended = False, se_log = [] \<rparr>"

text \<open>The counters, and the two handler calls.\<close>

definition count_packet :: "sequencer \<Rightarrow> sequencer" where
  "count_packet s = s\<lparr> se_stats := (se_stats s)\<lparr> sq_packets := sq_packets (se_stats s) + 1 \<rparr> \<rparr>"
definition count_heartbeat :: "sequencer \<Rightarrow> sequencer" where
  "count_heartbeat s = s\<lparr> se_stats := (se_stats s)\<lparr> sq_heartbeats := sq_heartbeats (se_stats s) + 1 \<rparr> \<rparr>"
definition count_duplicate :: "sequencer \<Rightarrow> sequencer" where
  "count_duplicate s =
     s\<lparr> se_stats := (se_stats s)\<lparr> sq_duplicate_packets := sq_duplicate_packets (se_stats s) + 1 \<rparr> \<rparr>"
definition count_duplicate_messages :: "u64 \<Rightarrow> sequencer \<Rightarrow> sequencer" where
  "count_duplicate_messages n s =
     s\<lparr> se_stats := (se_stats s)\<lparr> sq_duplicate_messages := sq_duplicate_messages (se_stats s) + n \<rparr> \<rparr>"
definition count_reordered :: "sequencer \<Rightarrow> sequencer" where
  "count_reordered s =
     s\<lparr> se_stats := (se_stats s)\<lparr> sq_reordered_packets := sq_reordered_packets (se_stats s) + 1 \<rparr> \<rparr>"
definition count_truncated :: "sequencer \<Rightarrow> sequencer" where
  "count_truncated s =
     s\<lparr> se_stats := (se_stats s)\<lparr> sq_truncated_packets := sq_truncated_packets (se_stats s) + 1 \<rparr> \<rparr>"
definition count_session_change :: "sequencer \<Rightarrow> sequencer" where
  "count_session_change s =
     s\<lparr> se_stats := (se_stats s)\<lparr> sq_session_changes := sq_session_changes (se_stats s) + 1 \<rparr> \<rparr>"

definition on_message :: "u8 list \<Rightarrow> sequencer \<Rightarrow> sequencer" where
  "on_message m s =
     s\<lparr> se_log := se_log s @ [Message m],
        se_stats := (se_stats s)\<lparr> sq_messages := sq_messages (se_stats s) + 1 \<rparr> \<rparr>"

text \<open>Reporting a range as lost: the two counters, the call, and resuming behind it.\<close>

definition lose :: "u64 \<Rightarrow> sequencer \<Rightarrow> sequencer" where
  "lose missing s =
     s\<lparr> se_stats := (se_stats s)\<lparr> sq_gaps := sq_gaps (se_stats s) + 1,
          sq_messages_lost := sq_messages_lost (se_stats s) + missing \<rparr>,
        se_log := se_log s @ [Gap (se_expected s) missing],
        se_expected := se_expected s + missing \<rparr>"

section \<open>Operations\<close>

text \<open>The loop of \<open>deliver\<close> over the blocks; \<open>index\<close> counts the blocks read.\<close>

lemma block_next_remaining:
  "block_next it = (Some m, it') \<Longrightarrow> unat (bi_remaining it') < unat (bi_remaining it)"
  by (auto simp: block_next_def Let_def unat_minus_one word_gt_0 unat_gt_0 split: if_splits)

function deliver_blocks :: "block_iter \<Rightarrow> u64 \<Rightarrow> u64 \<Rightarrow> sequencer \<Rightarrow> block_iter \<times> sequencer" where
  "deliver_blocks it index skip s =
     (case block_next it of
        (None, it) \<Rightarrow> (it, s)
      | (Some msg, it) \<Rightarrow>
          (if index < skip then deliver_blocks it (index + 1) skip s
           else
             let s = (if length msg > 0 then on_message msg s else s)
             in deliver_blocks it (index + 1) skip (s\<lparr> se_expected := se_expected s + 1 \<rparr>)))"
  by pat_completeness auto
termination
  by (relation "measure (\<lambda>(it, i, k, s). unat (bi_remaining it))") (auto dest: block_next_remaining sym)

declare deliver_blocks.simps [simp del]

definition deliver :: "u8 list \<Rightarrow> mold_header \<Rightarrow> u64 \<Rightarrow> sequencer \<Rightarrow> sequencer" where
  "deliver p hdr skip s =
     (let (it, s) = deliver_blocks (block_iter p (length p) (mh_message_count hdr)) 0 skip s in
      if bi_truncated it then
        let s = count_truncated s;
            missing = ucast (bi_remaining it)
        in if missing > 0 then lose missing s else s
      else s)"

definition declare_gap :: "u64 \<Rightarrow> sequencer \<Rightarrow> sequencer" where
  "declare_gap up_to s =
     (if up_to \<le> se_expected s then s
      else (lose (up_to - se_expected s) s)\<lparr> se_since_gap := 0 \<rparr>)"

text \<open>The loop of \<open>drain\<close>; every round that goes on takes a packet out of the buffer.\<close>

function drain_loop :: "sequencer \<Rightarrow> sequencer" where
  "drain_loop s =
     (case se_buffer s of
        [] \<Rightarrow> s
      | (k, pkt) # rest \<Rightarrow>
          (case parse_header pkt of
             None \<Rightarrow> drain_loop (s\<lparr> se_buffer := rest \<rparr>)
           | Some hdr \<Rightarrow>
               (let end_seq = mh_sequence hdr + ucast (mh_message_count hdr) in
                if end_seq \<le> se_expected s
                then drain_loop ((count_duplicate s)\<lparr> se_buffer := rest \<rparr>)
                else if mh_sequence hdr > se_expected s then s
                else
                  let already = se_expected s - mh_sequence hdr;
                      s = s\<lparr> se_buffer := rest \<rparr>;
                      s = count_reordered s
                  in drain_loop (deliver pkt hdr already s))))"
  by pat_completeness auto

lemma deliver_blocks_frame:
  "se_buffer (snd (deliver_blocks it i k s)) = se_buffer s \<and>
   se_since_gap (snd (deliver_blocks it i k s)) = se_since_gap s \<and>
   se_session (snd (deliver_blocks it i k s)) = se_session s \<and>
   se_started (snd (deliver_blocks it i k s)) = se_started s \<and>
   se_cfg (snd (deliver_blocks it i k s)) = se_cfg s"
proof (induction it i k s rule: deliver_blocks.induct)
  case (1 it index skip s)
  then show ?case
    by (subst (1 2 3 4 5) deliver_blocks.simps) (auto simp: on_message_def Let_def split: prod.split option.split)
qed

lemma deliver_frame [simp]:
  "se_buffer (deliver p hdr k s) = se_buffer s" "se_session (deliver p hdr k s) = se_session s"
  "se_started (deliver p hdr k s) = se_started s" "se_cfg (deliver p hdr k s) = se_cfg s"
  using deliver_blocks_frame [of "block_iter p (length p) (mh_message_count hdr)" 0 k s]
  by (auto simp: deliver_def lose_def count_truncated_def Let_def split: prod.split)

termination drain_loop
  by (relation "measure (\<lambda>s. length (se_buffer s))") (auto simp: count_reordered_def count_duplicate_def)

declare drain_loop.simps [simp del]

definition drain :: "sequencer \<Rightarrow> sequencer" where
  "drain s = (let s = drain_loop s in if se_buffer s = [] then s\<lparr> se_since_gap := 0 \<rparr> else s)"

definition buffer_packet :: "u8 list \<Rightarrow> mold_header \<Rightarrow> sequencer \<Rightarrow> sequencer" where
  "buffer_packet p hdr s =
     (let s = (case om_get (mh_sequence hdr) (se_buffer s) of
                 None \<Rightarrow> s\<lparr> se_buffer := om_set (mh_sequence hdr) p (se_buffer s) \<rparr>
               | Some _ \<Rightarrow> count_duplicate s);
          s = s\<lparr> se_since_gap := se_since_gap s + 1 \<rparr>
      in if length (se_buffer s) \<ge> cf_reorder_depth (se_cfg s) \<or>
            se_since_gap s > cf_reorder_patience (se_cfg s)
         then drain (declare_gap (fst (hd (se_buffer s))) s) else s)"

definition c_str :: "u8 list \<Rightarrow> u8 list" where
  "c_str s = takeWhile (\<lambda>c. c \<noteq> 0) s"

definition on_packet :: "u8 list \<Rightarrow> sequencer \<Rightarrow> sequencer" where
  "on_packet p s =
     (case parse_header p of
        None \<Rightarrow> count_truncated s
      | Some hdr \<Rightarrow>
          let s = count_packet s;
              s = (if \<not> se_started s \<or> c_str (se_session s) \<noteq> c_str (mh_session hdr) then
                     (let s = (if se_started s then count_session_change s else s)
                      in s\<lparr> se_session := mh_session hdr, se_expected := mh_sequence hdr,
                            se_buffer := [], se_started := True \<rparr>)
                   else s)
          in if mh_end_of_session hdr then s\<lparr> se_ended := True \<rparr>
             else if mh_heartbeat hdr then
               (let s = count_heartbeat s
                in if mh_sequence hdr > se_expected s then declare_gap (mh_sequence hdr) s else s)
             else if mh_sequence hdr = se_expected s then drain (deliver p hdr 0 s)
             else if mh_sequence hdr < se_expected s then
               (let end_seq = mh_sequence hdr + ucast (mh_message_count hdr) in
                if end_seq \<le> se_expected s
                then count_duplicate_messages (ucast (mh_message_count hdr)) (count_duplicate s)
                else
                  let already = se_expected s - mh_sequence hdr;
                      s = count_duplicate_messages already s
                  in drain (deliver p hdr already s))
             else buffer_packet p hdr s)"

text \<open>
  The loop of \<open>flush\<close> ends when the buffer is empty. Nothing in the code bounds it, so it takes fuel,
  and \<open>None\<close> is a loop that did not end.
\<close>

fun flush_loop :: "nat \<Rightarrow> sequencer \<Rightarrow> sequencer option" where
  "flush_loop n s =
     (if se_buffer s = [] then Some s
      else case n of
        0 \<Rightarrow> None
      | Suc n \<Rightarrow> flush_loop n (drain (declare_gap (fst (hd (se_buffer s))) s)))"

definition seq_flush :: "sequencer \<Rightarrow> sequencer option" where
  "seq_flush s = flush_loop (length (se_buffer s)) s"

definition run_packets :: "u8 list list \<Rightarrow> sequencer \<Rightarrow> sequencer" where
  "run_packets ps s = fold on_packet ps s"

section \<open>Reading the log against the stream\<close>

fun accounts :: "u8 list list \<Rightarrow> nat \<Rightarrow> nat \<Rightarrow> seq_call list \<Rightarrow> nat \<Rightarrow> bool" where
  "accounts M a k [] k' \<longleftrightarrow> k = k'"
| "accounts M a k (Message m # log) k' \<longleftrightarrow>
     a \<le> k \<and> k < a + length M \<and> M ! (k - a) = m \<and> accounts M a (k + 1) log k'"
| "accounts M a k (Gap f n # log) k' \<longleftrightarrow> unat f = k \<and> 0 < n \<and> accounts M a (k + unat n) log k'"

lemma accounts_append:
  "accounts M a k (log @ log') k'' \<longleftrightarrow> (\<exists>k'. accounts M a k log k' \<and> accounts M a k' log' k'')"
proof (induction log arbitrary: k)
  case (Cons c log)
  then show ?case by (cases c) auto
qed simp

lemma accounts_messages:
  "a \<le> k \<Longrightarrow> k + n \<le> a + length M \<Longrightarrow> accounts M a k (map Message (take n (drop (k - a) M))) (k + n)"
proof (induction n arbitrary: k)
  case (Suc n)
  have d: "drop (k - a) M = M ! (k - a) # drop (Suc k - a) M"
    using Suc.prems by (simp add: Cons_nth_drop_Suc Suc_diff_le)
  show ?case using Suc.IH [of "Suc k"] Suc.prems by (simp add: d)
qed simp

section \<open>Delivering a well-formed packet\<close>

definition deliver_all :: "u8 list list \<Rightarrow> sequencer \<Rightarrow> sequencer" where
  "deliver_all ms s = fold (\<lambda>m s. (on_message m s)\<lparr> se_expected := se_expected s + 1 \<rparr>) ms s"

lemma deliver_all_simps [simp]:
  "deliver_all [] s = s"
  "deliver_all (m # ms) s = deliver_all ms ((on_message m s)\<lparr> se_expected := se_expected s + 1 \<rparr>)"
  by (simp_all add: deliver_all_def)

lemma deliver_all_fields:
  "se_log (deliver_all ms s) = se_log s @ map Message ms"
  "se_expected (deliver_all ms s) = se_expected s + of_nat (length ms)"
  "se_buffer (deliver_all ms s) = se_buffer s" "se_session (deliver_all ms s) = se_session s"
  "se_started (deliver_all ms s) = se_started s" "se_cfg (deliver_all ms s) = se_cfg s"
  by (induction ms arbitrary: s) (auto simp: on_message_def algebra_simps)

definition message_ok :: "u8 list \<Rightarrow> bool" where
  "message_ok m \<longleftrightarrow> m \<noteq> [] \<and> length m < 2 ^ 16"

lemma block_next_done: "bi_remaining it = 0 \<Longrightarrow> block_next it = (None, it)"
  by (simp add: block_next_def)

lemma deliver_blocks_frames:
  "bi_p it = pre @ frame_file ms \<Longrightarrow> bi_off it = length pre \<Longrightarrow> bi_len it = length (bi_p it) \<Longrightarrow>
   bi_remaining it = of_nat (length ms) \<Longrightarrow> \<not> bi_truncated it \<Longrightarrow> length ms < 65535 \<Longrightarrow>
   \<forall>m \<in> set ms. message_ok m \<Longrightarrow> i + length ms < 2 ^ 64 \<Longrightarrow> k < 2 ^ 64 \<Longrightarrow>
   \<exists>it'. deliver_blocks it (of_nat i) (of_nat k) s = (it', deliver_all (drop (k - i) ms) s) \<and>
     \<not> bi_truncated it'"
proof (induction ms arbitrary: it pre i s)
  case Nil
  then show ?case by (subst deliver_blocks.simps) (simp add: block_next_done)
next
  case (Cons m ms)
  let ?it = "it\<lparr> bi_off := length (pre @ enc16 (of_nat (length m)) @ m),
    bi_remaining := bi_remaining it - 1 \<rparr>"
  have rem: "bi_remaining it \<noteq> 0" using Cons.prems(4,6) count_zero [of "length (m # ms)"] by simp
  have m: "message_ok m" using Cons.prems(7) by simp
  have nxt: "block_next it = (Some m, ?it)"
    by (rule block_next_frame [OF _ rem Cons.prems(3,1,2)]) (use m in \<open>simp add: message_ok_def\<close>)
  have IH: "\<exists>it'. deliver_blocks ?it (of_nat (Suc i)) (of_nat k) s =
      (it', deliver_all (drop (k - Suc i) ms) s) \<and> \<not> bi_truncated it'" for s
    by (rule Cons.IH [of ?it "pre @ enc16 (of_nat (length m)) @ m"])
      (use Cons.prems in \<open>simp_all add: frame_file_def\<close>)
  have less: "(of_nat i :: u64) < of_nat k \<longleftrightarrow> i < k"
    using Cons.prems(8,9) by (simp add: word_less_nat_alt unsigned_of_nat take_bit_nat_eq_self)
  show ?case
  proof (cases "i < k")
    case True
    then have "drop (k - i) (m # ms) = drop (k - Suc i) ms" by (simp add: drop_Cons')
    with IH [of s] True less show ?thesis
      by (subst deliver_blocks.simps) (simp add: nxt add.commute)
  next
    case False
    then have "drop (k - i) (m # ms) = m # drop (k - Suc i) ms" by simp
    with IH [of "(on_message m s)\<lparr> se_expected := se_expected s + 1 \<rparr>"] False less m show ?thesis
      by (subst deliver_blocks.simps) (simp add: nxt message_ok_def Let_def on_message_def add.commute)
  qed
qed

definition the_header :: "u8 list \<Rightarrow> u64 \<Rightarrow> u16 \<Rightarrow> mold_header" where
  "the_header S k c = \<lparr> mh_session = S @ [0], mh_sequence = k, mh_count = c \<rparr>"

lemma count_not_eos: "n < 65535 \<Longrightarrow> (of_nat n :: u16) \<noteq> kEndOfSession"
proof
  assume "n < 65535" "(of_nat n :: u16) = kEndOfSession"
  then have "unat (of_nat n :: u16) = unat kEndOfSession" "unat (of_nat n :: u16) = n"
    using unat_of_nat16 [of n] by simp_all
  with \<open>n < 65535\<close> show False by (simp add: kEndOfSession_def)
qed

lemma deliver_data:
  assumes "length S = 10" "length ms < 65535" "\<forall>m \<in> set ms. message_ok m" "k < 2 ^ 64"
  shows "deliver (data_packet S q ms) (the_header S q (of_nat (length ms))) (of_nat k) s =
    deliver_all (drop k ms) s"
proof -
  let ?p = "data_packet S q ms" and ?pre = "S @ enc64 q @ enc16 (of_nat (length ms))"
  let ?it = "block_iter ?p (length ?p) (of_nat (length ms))"
  have "bi_p ?it = ?pre @ frame_file ms" "bi_off ?it = length ?pre"
    using assms(1) by (simp_all add: block_iter_def data_packet_def mold_datagram_def kHeaderLen_def)
  from deliver_blocks_frames [OF this, of 0 k s] assms
  obtain it' where "deliver_blocks ?it 0 (of_nat k) s = (it', deliver_all (drop k ms) s)" "\<not> bi_truncated it'"
    by (auto simp: block_iter_def)
  then show ?thesis
    using count_not_eos [OF assms(2)]
    by (simp add: deliver_def the_header_def mh_message_count_def mh_end_of_session_def)
qed

section \<open>The invariant\<close>

text \<open>A data packet of the stream: \<open>n\<close> messages from position \<open>k\<close> on.\<close>

definition part :: "u8 list list \<Rightarrow> nat \<Rightarrow> nat \<Rightarrow> nat \<Rightarrow> u8 list list" where
  "part M a k n = take n (drop (k - a) M)"

definition stream_ok :: "u8 list \<Rightarrow> nat \<Rightarrow> u8 list list \<Rightarrow> bool" where
  "stream_ok S a M \<longleftrightarrow> length S = 10 \<and> a + length M < 2 ^ 64 \<and> (\<forall>m \<in> set M. message_ok m)"

definition data_at :: "u8 list \<Rightarrow> nat \<Rightarrow> u8 list list \<Rightarrow> nat \<Rightarrow> nat \<Rightarrow> u8 list \<Rightarrow> bool" where
  "data_at S a M k n p \<longleftrightarrow> 0 < n \<and> n < 65535 \<and> a \<le> k \<and> k + n \<le> a + length M \<and>
     p = data_packet S (of_nat k) (part M a k n)"

definition from_stream :: "u8 list \<Rightarrow> nat \<Rightarrow> u8 list list \<Rightarrow> u8 list \<Rightarrow> bool" where
  "from_stream S a M p \<longleftrightarrow>
     (\<exists>k n. data_at S a M k n p) \<or>
     (\<exists>k c. a \<le> k \<and> k \<le> a + length M \<and> (c = 0 \<or> c = kEndOfSession) \<and>
        p = mold_datagram S (of_nat k) c [])"

definition seq_inv :: "u8 list \<Rightarrow> nat \<Rightarrow> u8 list list \<Rightarrow> nat \<Rightarrow> sequencer \<Rightarrow> bool" where
  "seq_inv S a M k0 s \<longleftrightarrow>
     se_started s \<and> se_session s = S @ [0] \<and>
     accounts M a k0 (se_log s) (unat (se_expected s)) \<and>
     a \<le> unat (se_expected s) \<and> unat (se_expected s) \<le> a + length M \<and>
     om_wf (se_buffer s) \<and> (\<forall>(q, p) \<in> set (se_buffer s). \<exists>k n. q = of_nat k \<and> data_at S a M k n p)"

text \<open>The numbers a datagram covers, from the first up to the next one after it.\<close>

definition first_sequence :: "u8 list \<Rightarrow> nat" where
  "first_sequence p = unat (mh_sequence (the (parse_header p)))"

definition next_sequence :: "u8 list \<Rightarrow> nat" where
  "next_sequence p = first_sequence p + unat (mh_message_count (the (parse_header p)))"

lemma length_part: "a \<le> k \<Longrightarrow> k + n \<le> a + length M \<Longrightarrow> length (part M a k n) = n"
  by (simp add: part_def)

lemma data_header:
  assumes "stream_ok S a M" "data_at S a M k n p"
  shows "parse_header p = Some (the_header S (of_nat k) (of_nat n))" "k < 2 ^ 64"
    "unat (of_nat k :: u64) = k" "(of_nat n :: u16) \<noteq> 0" "mh_message_count (the_header S q (of_nat n)) = of_nat n"
    "(ucast (of_nat n :: u16) :: u64) = of_nat n" "unat (of_nat k + of_nat n :: u64) = k + n"
proof -
  note A = assms [unfolded stream_ok_def data_at_def]
  show "parse_header p = Some (the_header S (of_nat k) (of_nat n))"
    using A parse_datagram [of S] by (simp add: data_packet_def length_part the_header_def)
  show k: "k < 2 ^ 64" using A by linarith
  then show "unat (of_nat k :: u64) = k" by (rule unat_of_nat64)
  show "(of_nat n :: u16) \<noteq> 0" using A count_zero by simp
  show "mh_message_count (the_header S q (of_nat n)) = of_nat n"
    using A count_not_eos by (simp add: mh_message_count_def mh_end_of_session_def the_header_def)
  show "(ucast (of_nat n :: u16) :: u64) = of_nat n" using A by (intro ucast_of_nat) simp
  have "k + n < 2 ^ 64" using A by linarith
  from unat_of_nat64 [OF this] show "unat (of_nat k + of_nat n :: u64) = k + n" by simp
qed

lemma data_covers:
  assumes "stream_ok S a M" "data_at S a M k n p"
  shows "first_sequence p = k" "next_sequence p = k + n"
proof -
  note H = data_header [OF assms]
  have "n < 2 ^ 16" using assms(2) by (simp add: data_at_def)
  then have "unat (of_nat n :: u16) = n" by (rule unat_of_nat16)
  moreover show f: "first_sequence p = k" using H(3) by (simp add: first_sequence_def H(1)) (simp add: the_header_def)
  ultimately show "next_sequence p = k + n" using H(5) by (simp add: next_sequence_def f H(1))
qed

lemma deliver_inv:
  assumes st: "stream_ok S a M" and inv: "seq_inv S a M k0 s" and d: "data_at S a M k n p"
    and lo: "k \<le> unat (se_expected s)" and hi: "unat (se_expected s) < k + n"
  shows "seq_inv S a M k0 (deliver p (the_header S (of_nat k) (of_nat n)) (se_expected s - of_nat k) s)"
    "unat (se_expected (deliver p (the_header S (of_nat k) (of_nat n)) (se_expected s - of_nat k) s)) = k + n"
proof -
  let ?e = "unat (se_expected s)" and ?ms = "part M a k n"
  note H = data_header [OF st d] and D = d [unfolded data_at_def] and I = inv [unfolded seq_inv_def]
  have sk: "se_expected s - of_nat k = of_nat (?e - k)"
    using lo by (simp add: of_nat_diff)
  have ms: "length ?ms = n" "\<forall>m \<in> set ?ms. message_ok m"
    using D st by (auto simp: length_part part_def stream_ok_def dest!: in_set_takeD in_set_dropD)
  have "?e - k < 2 ^ 64" using lo hi D st unfolding stream_ok_def by linarith
  with deliver_data [of S ?ms "?e - k" "of_nat k" s] st ms D
  have del: "deliver p (the_header S (of_nat k) (of_nat n)) (se_expected s - of_nat k) s =
      deliver_all (drop (?e - k) ?ms) s"
    by (simp add: sk stream_ok_def)
  have part: "drop (?e - k) ?ms = part M a ?e (k + n - ?e)"
    using lo hi D by (simp add: part_def drop_take add.commute)
  have e': "se_expected s + of_nat (k + n - ?e) = of_nat (k + n)"
    using hi by (simp add: of_nat_diff)
  have u: "unat (of_nat (k + n) :: u64) = k + n" using H(7) by simp
  have acc: "accounts M a ?e (map Message (part M a ?e (k + n - ?e))) (k + n)"
    using accounts_messages [of a ?e "k + n - ?e" M] lo hi D I by (simp add: part_def)
  have len: "length (part M a ?e (k + n - ?e)) = k + n - ?e"
    using lo hi D I by (intro length_part) simp_all
  show "seq_inv S a M k0 (deliver p (the_header S (of_nat k) (of_nat n)) (se_expected s - of_nat k) s)"
    unfolding del part seq_inv_def using I acc D e' u len
    by (auto simp: deliver_all_fields accounts_append)
  show "unat (se_expected (deliver p (the_header S (of_nat k) (of_nat n)) (se_expected s - of_nat k) s)) = k + n"
    unfolding del part using e' u len by (simp add: deliver_all_fields)
qed

lemma lose_inv:
  assumes inv: "seq_inv S a M k0 s" and up: "se_expected s < u" "unat u \<le> a + length M"
  shows "seq_inv S a M k0 (lose (u - se_expected s) s)" "se_expected (lose (u - se_expected s) s) = u"
proof -
  let ?d = "u - se_expected s"
  have d: "unat ?d = unat u - unat (se_expected s)" "unat (se_expected s) < unat u"
    using up(1) by (simp_all add: unat_sub word_le_nat_alt word_less_nat_alt)
  then have "0 < ?d" by (simp add: word_less_nat_alt)
  then show "seq_inv S a M k0 (lose ?d s)"
    using inv up(2) d by (auto simp: seq_inv_def lose_def accounts_append)
  show "se_expected (lose ?d s) = u" by (simp add: lose_def)
qed

lemma seq_inv_cong:
  "seq_inv S a M k0 s \<Longrightarrow> se_started s' = se_started s \<Longrightarrow> se_session s' = se_session s \<Longrightarrow>
   se_log s' = se_log s \<Longrightarrow> se_expected s' = se_expected s \<Longrightarrow> se_buffer s' = se_buffer s \<Longrightarrow>
   seq_inv S a M k0 s'"
  by (simp add: seq_inv_def)

lemma seq_inv_rest:
  "seq_inv S a M k0 s \<Longrightarrow> se_buffer s = x # rest \<Longrightarrow> seq_inv S a M k0 (s\<lparr> se_buffer := rest \<rparr>)"
  using om_wf_tl [of "se_buffer s"] by (simp add: seq_inv_def)

lemma count_fields [simp]:
  "se_log (count_duplicate s) = se_log s" "se_expected (count_duplicate s) = se_expected s"
  "se_buffer (count_duplicate s) = se_buffer s" "se_session (count_duplicate s) = se_session s"
  "se_started (count_duplicate s) = se_started s"
  "se_log (count_reordered s) = se_log s" "se_expected (count_reordered s) = se_expected s"
  "se_buffer (count_reordered s) = se_buffer s" "se_session (count_reordered s) = se_session s"
  "se_started (count_reordered s) = se_started s"
  "se_log (count_packet s) = se_log s" "se_expected (count_packet s) = se_expected s"
  "se_buffer (count_packet s) = se_buffer s" "se_session (count_packet s) = se_session s"
  "se_started (count_packet s) = se_started s"
  "se_log (count_heartbeat s) = se_log s" "se_expected (count_heartbeat s) = se_expected s"
  "se_buffer (count_heartbeat s) = se_buffer s" "se_session (count_heartbeat s) = se_session s"
  "se_started (count_heartbeat s) = se_started s"
  "se_log (count_duplicate_messages n s) = se_log s"
  "se_expected (count_duplicate_messages n s) = se_expected s"
  "se_buffer (count_duplicate_messages n s) = se_buffer s"
  "se_session (count_duplicate_messages n s) = se_session s"
  "se_started (count_duplicate_messages n s) = se_started s"
  by (simp_all add: count_duplicate_def count_reordered_def count_packet_def count_heartbeat_def
      count_duplicate_messages_def)

lemma drain_loop_Nil: "se_buffer s = [] \<Longrightarrow> drain_loop s = s"
  by (subst drain_loop.simps) simp

text \<open>One round of the loop, on a packet of the stream.\<close>

lemma drain_round:
  assumes st: "stream_ok S a M" and inv: "seq_inv S a M k0 s" and b: "se_buffer s = (q, p) # rest"
  obtains (wait) "\<not> q \<le> se_expected s" "drain_loop s = s"
  | (go) s' where "drain_loop s = drain_loop s'" "seq_inv S a M k0 s'" "se_buffer s' = rest"
      "unat (se_expected s) \<le> unat (se_expected s')" "next_sequence p \<le> unat (se_expected s')"
proof -
  from inv b obtain k n where q: "q = of_nat k" and d: "data_at S a M k n p" by (auto simp: seq_inv_def)
  note H = data_header [OF st d]
  let ?h = "the_header S (of_nat k) (of_nat n)"
  have fields: "mh_sequence ?h = of_nat k" by (simp add: the_header_def)
  have end_le: "mh_sequence ?h + ucast (mh_message_count ?h) \<le> se_expected s \<longleftrightarrow> k + n \<le> unat (se_expected s)"
    using H by (simp add: fields word_le_nat_alt)
  have seq_gt: "mh_sequence ?h > se_expected s \<longleftrightarrow> unat (se_expected s) < k"
    using H(3) by (simp add: fields word_less_nat_alt)
  have r: "seq_inv S a M k0 (s\<lparr> se_buffer := rest \<rparr>)" by (rule seq_inv_rest [OF inv b])
  consider "k + n \<le> unat (se_expected s)" | "unat (se_expected s) < k"
    | "k \<le> unat (se_expected s)" "unat (se_expected s) < k + n" by linarith
  then show thesis
  proof cases
    case 1
    have "drain_loop s = drain_loop ((count_duplicate s)\<lparr> se_buffer := rest \<rparr>)"
      using 1 end_le by (subst drain_loop.simps) (simp add: b H(1) Let_def)
    moreover have "seq_inv S a M k0 ((count_duplicate s)\<lparr> se_buffer := rest \<rparr>)"
      by (rule seq_inv_cong [OF r]) simp_all
    ultimately show thesis by (rule go) (use 1 data_covers(2) [OF st d] in simp_all)
  next
    case 2
    then have "drain_loop s = s"
      using end_le seq_gt by (subst drain_loop.simps) (simp add: b H(1) Let_def)
    with 2 q H(3) show thesis by (intro wait) (simp_all add: word_le_nat_alt)
  next
    case 3
    let ?s = "count_reordered (s\<lparr> se_buffer := rest \<rparr>)"
    have e: "se_expected ?s = se_expected s" by simp
    have "seq_inv S a M k0 ?s" by (rule seq_inv_cong [OF r]) simp_all
    from deliver_inv [OF st this d] 3
    have "seq_inv S a M k0 (deliver p ?h (se_expected s - of_nat k) ?s)"
      "unat (se_expected (deliver p ?h (se_expected s - of_nat k) ?s)) = k + n" by simp_all
    moreover have "drain_loop s = drain_loop (deliver p ?h (se_expected s - of_nat k) ?s)"
      using 3 end_le seq_gt by (subst drain_loop.simps) (simp add: b H(1) Let_def fields)
    moreover have "se_buffer (deliver p ?h (se_expected s - of_nat k) ?s) = rest"
      by (simp add: count_reordered_def)
    ultimately show thesis by (intro go) (assumption | use 3 data_covers(2) [OF st d] in linarith)+
  qed
qed

lemma drain_loop_inv:
  "stream_ok S a M \<Longrightarrow> seq_inv S a M k0 s \<Longrightarrow>
   seq_inv S a M k0 (drain_loop s) \<and> length (se_buffer (drain_loop s)) \<le> length (se_buffer s)"
proof (induction "length (se_buffer s)" arbitrary: s rule: less_induct)
  case less
  show ?case
  proof (cases "se_buffer s")
    case Nil
    with less.prems show ?thesis by (simp add: drain_loop_Nil)
  next
    case (Cons x rest)
    obtain q p where "x = (q, p)" by (cases x)
    then have b: "se_buffer s = (q, p) # rest" using Cons by simp
    show ?thesis
      using less.prems b
    proof (cases rule: drain_round)
      case wait
      then show ?thesis using less.prems by simp
    next
      case (go s')
      with less.hyps [of s'] less.prems(1) b show ?thesis by simp
    qed
  qed
qed

lemma drain_inv:
  assumes "stream_ok S a M" "seq_inv S a M k0 s"
  shows "seq_inv S a M k0 (drain s)" "length (se_buffer (drain s)) \<le> length (se_buffer s)"
  using drain_loop_inv [OF assms] seq_inv_cong [of S a M k0 "drain_loop s"]
  by (simp_all add: drain_def Let_def)

lemma declare_gap_inv:
  assumes "seq_inv S a M k0 s" "unat u \<le> a + length M"
  shows "seq_inv S a M k0 (declare_gap u s)" "u \<le> se_expected (declare_gap u s)"
    "se_buffer (declare_gap u s) = se_buffer s"
proof -
  have "seq_inv S a M k0 ((lose (u - se_expected s) s)\<lparr> se_since_gap := 0 \<rparr>)" if "se_expected s < u"
    using lose_inv(1) [OF assms(1) that assms(2)] by (rule seq_inv_cong) simp_all
  then show "seq_inv S a M k0 (declare_gap u s)"
    using assms(1) by (simp add: declare_gap_def not_le)
  show "u \<le> se_expected (declare_gap u s)"
    using lose_inv(2) [OF assms(1) _ assms(2)] by (simp add: declare_gap_def not_le)
  show "se_buffer (declare_gap u s) = se_buffer s" by (simp add: declare_gap_def lose_def)
qed

text \<open>Declaring the gap in front of the buffer and draining takes at least one packet out of it.\<close>

lemma release_front:
  assumes st: "stream_ok S a M" and inv: "seq_inv S a M k0 s" and ne: "se_buffer s \<noteq> []"
    and s': "s' = drain (declare_gap (fst (hd (se_buffer s))) s)"
  shows "seq_inv S a M k0 s'" "length (se_buffer s') < length (se_buffer s)"
proof -
  obtain q p rest where b: "se_buffer s = (q, p) # rest" using ne by (cases "se_buffer s") auto
  from inv b obtain k n where q: "q = of_nat k" and d: "data_at S a M k n p" by (auto simp: seq_inv_def)
  note H = data_header [OF st d]
  have "unat q \<le> a + length M" using d H(3) by (simp add: q data_at_def)
  note G = declare_gap_inv [OF inv this]
  show "seq_inv S a M k0 s'" using drain_inv(1) [OF st G(1)] by (simp add: s' b)
  have b': "se_buffer (declare_gap q s) = (q, p) # rest" using G(3) b by simp
  have "length (se_buffer (drain_loop (declare_gap q s))) < length (se_buffer s)"
    using st G(1) b'
  proof (cases rule: drain_round)
    case wait
    with G(2) show ?thesis by simp
  next
    case (go t)
    with drain_loop_inv [OF st go(2)] b show ?thesis by simp
  qed
  then show "length (se_buffer s') < length (se_buffer s)" by (simp add: s' b drain_def Let_def)
qed

lemma flush_loop_ok:
  "stream_ok S a M \<Longrightarrow> seq_inv S a M k0 s \<Longrightarrow> length (se_buffer s) \<le> n \<Longrightarrow>
   \<exists>s'. flush_loop n s = Some s' \<and> seq_inv S a M k0 s' \<and> se_buffer s' = []"
proof (induction n arbitrary: s)
  case (Suc n)
  show ?case
  proof (cases "se_buffer s = []")
    case False
    note R = release_front [OF Suc.prems(1,2) False refl]
    from Suc.IH [OF Suc.prems(1) R(1)] R(2) Suc.prems(3) False show ?thesis by simp
  qed (use Suc.prems in simp)
qed simp

lemma buffer_inv:
  assumes st: "stream_ok S a M" and inv: "seq_inv S a M k0 s" and d: "data_at S a M k n p"
  shows "seq_inv S a M k0 (buffer_packet p (the_header S (of_nat k) (of_nat n)) s)"
proof -
  let ?h = "the_header S (of_nat k) (of_nat n)"
  define s1 where "s1 = (case om_get (mh_sequence ?h) (se_buffer s) of
                 None \<Rightarrow> s\<lparr> se_buffer := om_set (mh_sequence ?h) p (se_buffer s) \<rparr>
               | Some _ \<Rightarrow> count_duplicate s)"
  define s2 where "s2 = s1\<lparr> se_since_gap := se_since_gap s1 + 1 \<rparr>"
  have h: "mh_sequence ?h = of_nat k" by (simp add: the_header_def)
  have ins: "seq_inv S a M k0 (s\<lparr> se_buffer := om_set (of_nat k) p (se_buffer s) \<rparr>)"
  proof -
    have "\<exists>k n. q = of_nat k \<and> data_at S a M k n p'"
      if "(q, p') \<in> set (om_set (of_nat k) p (se_buffer s))" for q p'
    proof (cases "q = of_nat k")
      case True
      have wf: "om_wf (om_set (of_nat k) p (se_buffer s))" using inv by (simp add: seq_inv_def)
      then have "om_get q (om_set (of_nat k) p (se_buffer s)) = Some p'" using that by (simp add: om_get_mem)
      then have "p' = p" using True inv by (simp add: om_get_set seq_inv_def)
      with d True show ?thesis by blast
    next
      case False
      have wf: "om_wf (se_buffer s)" using inv by (simp add: seq_inv_def)
      have "om_get q (om_set (of_nat k) p (se_buffer s)) = Some p'" using that wf by (simp add: om_get_mem)
      then have "om_get q (se_buffer s) = Some p'" using False wf by (simp add: om_get_set)
      then have "(q, p') \<in> set (se_buffer s)" using wf by (simp add: om_get_mem)
      with inv show ?thesis by (auto simp: seq_inv_def)
    qed
    with inv show ?thesis by (auto simp: seq_inv_def)
  qed
  have "seq_inv S a M k0 (count_duplicate s)" by (rule seq_inv_cong [OF inv]) simp_all
  with ins have 1: "seq_inv S a M k0 s1" by (simp add: s1_def h split: option.split)
  then have 2: "seq_inv S a M k0 s2" by (rule seq_inv_cong) (simp_all add: s2_def)
  have "se_buffer s1 \<noteq> []"
    using om_set_keys [of "of_nat k" p "se_buffer s"] by (auto simp: s1_def h split: option.split)
  then have ne: "se_buffer s2 \<noteq> []" by (simp add: s2_def)
  have "buffer_packet p ?h s = (if length (se_buffer s2) \<ge> cf_reorder_depth (se_cfg s2) \<or>
            se_since_gap s2 > cf_reorder_patience (se_cfg s2)
         then drain (declare_gap (fst (hd (se_buffer s2))) s2) else s2)"
    by (simp add: buffer_packet_def Let_def s2_def s1_def)
  with 2 release_front(1) [OF st 2 ne refl] show ?thesis by simp
qed

section \<open>Any sequence of datagrams of one stream\<close>

text \<open>What \<open>on_packet\<close> does once the session is settled.\<close>

definition accept :: "u8 list \<Rightarrow> mold_header \<Rightarrow> sequencer \<Rightarrow> sequencer" where
  "accept p hdr s =
     (if mh_end_of_session hdr then s\<lparr> se_ended := True \<rparr>
      else if mh_heartbeat hdr then
        (let s = count_heartbeat s
         in if mh_sequence hdr > se_expected s then declare_gap (mh_sequence hdr) s else s)
      else if mh_sequence hdr = se_expected s then drain (deliver p hdr 0 s)
      else if mh_sequence hdr < se_expected s then
        (let end_seq = mh_sequence hdr + ucast (mh_message_count hdr) in
         if end_seq \<le> se_expected s
         then count_duplicate_messages (ucast (mh_message_count hdr)) (count_duplicate s)
         else
           let already = se_expected s - mh_sequence hdr;
               s = count_duplicate_messages already s
           in drain (deliver p hdr already s))
      else buffer_packet p hdr s)"

lemma on_packet_accept:
  "parse_header p = Some hdr \<Longrightarrow> on_packet p s = accept p hdr
     (let s = count_packet s in
      if \<not> se_started s \<or> c_str (se_session s) \<noteq> c_str (mh_session hdr) then
        (let s = (if se_started s then count_session_change s else s)
         in s\<lparr> se_session := mh_session hdr, se_expected := mh_sequence hdr,
               se_buffer := [], se_started := True \<rparr>)
      else s)"
  by (simp add: on_packet_def accept_def Let_def)

lemma accept_data_inv:
  assumes st: "stream_ok S a M" and inv: "seq_inv S a M k0 s" and d: "data_at S a M k n p"
  shows "seq_inv S a M k0 (accept p (the_header S (of_nat k) (of_nat n)) s)"
proof -
  let ?h = "the_header S (of_nat k) (of_nat n)" and ?e = "unat (se_expected s)"
  note H = data_header [OF st d]
  have n: "n < 65535" using d by (simp add: data_at_def)
  have h: "mh_sequence ?h = of_nat k" "\<not> mh_end_of_session ?h" "\<not> mh_heartbeat ?h"
    using H(4) count_not_eos [OF n] by (simp_all add: the_header_def mh_end_of_session_def mh_heartbeat_def)
  have end_le: "mh_sequence ?h + ucast (mh_message_count ?h) \<le> se_expected s \<longleftrightarrow> k + n \<le> ?e"
    using H by (simp add: h word_le_nat_alt)
  have cmp: "mh_sequence ?h < se_expected s \<longleftrightarrow> k < ?e" "mh_sequence ?h = se_expected s \<longleftrightarrow> k = ?e"
    using H(3) by (auto simp add: h word_less_nat_alt)
  consider "k = ?e" | "k < ?e" "k + n \<le> ?e" | "k < ?e" "?e < k + n" | "?e < k" by linarith
  then show ?thesis
  proof cases
    case 1
    have "0 < n" using d by (simp add: data_at_def)
    with deliver_inv(1) [OF st inv d] 1 have "seq_inv S a M k0 (deliver p ?h (se_expected s - of_nat k) s)"
      by simp
    moreover have "se_expected s - of_nat k = 0" using 1 by simp
    ultimately show ?thesis using 1 drain_inv(1) [OF st] h cmp by (simp add: accept_def)
  next
    case 2
    have "seq_inv S a M k0 (count_duplicate_messages m (count_duplicate s))" for m
      by (rule seq_inv_cong [OF inv]) simp_all
    with 2 h cmp end_le show ?thesis by (simp add: accept_def Let_def)
  next
    case 3
    let ?s = "count_duplicate_messages (se_expected s - of_nat k) s"
    have "seq_inv S a M k0 ?s" by (rule seq_inv_cong [OF inv]) simp_all
    from deliver_inv(1) [OF st this d] 3
    have "seq_inv S a M k0 (deliver p ?h (se_expected s - of_nat k) ?s)" by simp
    from drain_inv(1) [OF st this] 3 h cmp end_le show ?thesis
      by (simp add: accept_def Let_def)
  next
    case 4
    with h cmp buffer_inv [OF st inv d] show ?thesis by (simp add: accept_def)
  qed
qed

lemma accept_mark_inv:
  assumes st: "stream_ok S a M" and inv: "seq_inv S a M k0 s" and k: "k \<le> a + length M"
    and c: "c = 0 \<or> c = kEndOfSession"
  shows "seq_inv S a M k0 (accept p (the_header S (of_nat k) c) s)"
proof -
  have "k < 2 ^ 64" using k st unfolding stream_ok_def by linarith
  then have "unat (of_nat k :: u64) \<le> a + length M" using k by (simp only: unat_of_nat64)
  moreover have "seq_inv S a M k0 (count_heartbeat s)" "seq_inv S a M k0 (s\<lparr> se_ended := True \<rparr>)"
    by (rule seq_inv_cong [OF inv]; simp)+
  ultimately show ?thesis
    using c declare_gap_inv(1) [of S a M k0 "count_heartbeat s" "of_nat k"]
    by (auto simp: accept_def the_header_def mh_end_of_session_def mh_heartbeat_def kEndOfSession_def Let_def)
qed

lemma from_stream_cases:
  assumes st: "stream_ok S a M" and p: "from_stream S a M p"
  obtains k c where "parse_header p = Some (the_header S (of_nat k) c)" "a \<le> k" "k \<le> a + length M"
    "first_sequence p = k" "\<And>k0 s. seq_inv S a M k0 s \<Longrightarrow> seq_inv S a M k0 (accept p (the_header S (of_nat k) c) s)"
proof (cases "\<exists>k n. data_at S a M k n p")
  case True
  then obtain k n where d: "data_at S a M k n p" by blast
  note H = data_header [OF st d]
  have r: "a \<le> k" "k \<le> a + length M" using d by (simp_all add: data_at_def)
  have "first_sequence p = k" by (rule data_covers(1) [OF st d])
  then show thesis by (rule that [OF H(1) r]) (rule accept_data_inv [OF st _ d])
next
  case False
  then obtain k c where k: "a \<le> k" "k \<le> a + length M" and c: "c = 0 \<or> c = kEndOfSession"
    and p: "p = mold_datagram S (of_nat k) c []"
    using p unfolding from_stream_def by blast
  have h: "parse_header p = Some (the_header S (of_nat k) c)"
    using st p parse_datagram [of S] by (simp add: the_header_def stream_ok_def)
  have "k < 2 ^ 64" using k st unfolding stream_ok_def by linarith
  then have "first_sequence p = k"
    by (simp add: first_sequence_def h) (simp add: the_header_def unat_of_nat64)
  then show thesis by (rule that [OF h k]) (rule accept_mark_inv [OF st _ k(2) c])
qed

lemma on_packet_inv:
  assumes st: "stream_ok S a M" and inv: "seq_inv S a M k0 s" and p: "from_stream S a M p"
  shows "seq_inv S a M k0 (on_packet p s)"
  using st p
proof (cases rule: from_stream_cases)
  case (1 k c)
  have "seq_inv S a M k0 (count_packet s)" by (rule seq_inv_cong [OF inv]) simp_all
  moreover have "se_started s" "se_session s = S @ [0]" using inv by (simp_all add: seq_inv_def)
  ultimately show ?thesis
    using 1(5) by (simp add: on_packet_accept [OF 1(1)]) (simp add: the_header_def)
qed

lemma first_packet_inv:
  assumes st: "stream_ok S a M" and p: "from_stream S a M p"
  shows "seq_inv S a M (first_sequence p) (on_packet p (sequencer_new cfg))"
  using st p
proof (cases rule: from_stream_cases)
  case (1 k c)
  let ?s = "(count_packet (sequencer_new cfg))\<lparr> se_session := S @ [0], se_expected := of_nat k,
               se_buffer := [], se_started := True \<rparr>"
  have "k < 2 ^ 64" using 1 st unfolding stream_ok_def by linarith
  then have u: "unat (of_nat k :: u64) = k" by (rule unat_of_nat64)
  have "seq_inv S a M k ?s"
    using 1(2,3) u by (simp add: seq_inv_def) (simp add: sequencer_new_def count_packet_def)
  from 1(5) [OF this] 1(4) show ?thesis
    by (simp add: on_packet_accept [OF 1(1)] Let_def)
      (simp add: sequencer_new_def count_packet_def the_header_def)
qed

lemma run_packets_inv:
  "stream_ok S a M \<Longrightarrow> \<forall>p \<in> set ps. from_stream S a M p \<Longrightarrow> seq_inv S a M k0 s \<Longrightarrow>
   seq_inv S a M k0 (run_packets ps s)"
  by (induction ps arbitrary: s) (auto simp: run_packets_def on_packet_inv)

text \<open>
  The result: from the first sequence number heard to the one expected next, the handler was told of
  every message of the stream exactly once, in order, as a delivery or inside a reported gap. Flushing
  ends and leaves nothing held back.
\<close>

theorem sequencer_accounts:
  assumes st: "stream_ok S a M" and ps: "\<forall>p \<in> set (p # ps). from_stream S a M p"
    and s: "s = run_packets (p # ps) (sequencer_new cfg)"
  shows "accounts M a (first_sequence p) (se_log s) (unat (se_expected s))"
    "unat (se_expected s) \<le> a + length M"
    "\<exists>s'. seq_flush s = Some s' \<and> se_buffer s' = [] \<and>
       accounts M a (first_sequence p) (se_log s') (unat (se_expected s'))"
proof -
  have "seq_inv S a M (first_sequence p) (on_packet p (sequencer_new cfg))"
    by (rule first_packet_inv [OF st]) (use ps in simp)
  then have inv: "seq_inv S a M (first_sequence p) s"
    using run_packets_inv [OF st, of ps] ps s by (simp add: run_packets_def)
  then show "accounts M a (first_sequence p) (se_log s) (unat (se_expected s))"
    "unat (se_expected s) \<le> a + length M" by (simp_all add: seq_inv_def)
  from flush_loop_ok [OF st inv order_refl]
  show "\<exists>s'. seq_flush s = Some s' \<and> se_buffer s' = [] \<and>
       accounts M a (first_sequence p) (se_log s') (unat (se_expected s'))"
    by (auto simp: seq_flush_def seq_inv_def)
qed

section \<open>A publisher's stream, received in order\<close>

lemma on_packet_started:
  assumes "seq_inv S a M k0 s" "parse_header p = Some (the_header S q c)"
  shows "on_packet p s = accept p (the_header S q c) (count_packet s)" "seq_inv S a M k0 (count_packet s)"
proof -
  have "se_started s" "se_session s = S @ [0]" using assms(1) by (simp_all add: seq_inv_def)
  moreover have "mh_session (the_header S q c) = S @ [0]" by (simp add: the_header_def)
  ultimately show "on_packet p s = accept p (the_header S q c) (count_packet s)"
    using on_packet_accept [OF assms(2), of s] by simp
  show "seq_inv S a M k0 (count_packet s)" by (rule seq_inv_cong [OF assms(1)]) simp_all
qed

definition settled :: "u8 list \<Rightarrow> u64 \<Rightarrow> seq_config \<Rightarrow> sequencer" where
  "settled S q cfg = (count_packet (sequencer_new cfg))\<lparr> se_session := S @ [0], se_expected := q,
     se_buffer := [], se_started := True \<rparr>"

lemma on_packet_fresh:
  assumes "parse_header p = Some (the_header S q c)"
  shows "on_packet p (sequencer_new cfg) = accept p (the_header S q c) (settled S q cfg)"
proof -
  have "\<not> se_started (count_packet (sequencer_new cfg))" by (simp add: sequencer_new_def)
  then show ?thesis
    by (simp add: on_packet_accept [OF assms] Let_def settled_def del: count_fields)
      (simp add: the_header_def sequencer_new_def count_packet_def)
qed

lemma settled_inv:
  assumes "stream_ok S a M" "a \<le> k" "k \<le> a + length M"
  shows "seq_inv S a M k (settled S (of_nat k) cfg)" "se_log (settled S (of_nat k) cfg) = []"
    "unat (se_expected (settled S (of_nat k) cfg)) = k" "se_buffer (settled S (of_nat k) cfg) = []"
proof -
  have "k < 2 ^ 64" using assms unfolding stream_ok_def by linarith
  then have u: "unat (of_nat k :: u64) = k" by (rule unat_of_nat64)
  show "se_log (settled S (of_nat k) cfg) = []"
    by (simp add: settled_def sequencer_new_def count_packet_def)
  then show "seq_inv S a M k (settled S (of_nat k) cfg)"
    using assms u by (simp add: seq_inv_def) (simp add: settled_def)
  show "unat (se_expected (settled S (of_nat k) cfg)) = k" "se_buffer (settled S (of_nat k) cfg) = []"
    using u by (simp_all add: settled_def)
qed

lemma accept_next:
  assumes st: "stream_ok S a M" and d: "data_at S a M k n p"
    and k: "unat (se_expected s) = k" and b: "se_buffer s = []"
    and s': "s' = accept p (the_header S (of_nat k) (of_nat n)) s"
  shows "se_log s' = se_log s @ map Message (part M a k n)" "unat (se_expected s') = k + n"
    "se_buffer s' = []"
proof -
  note H = data_header [OF st d] and D = d [unfolded data_at_def]
  let ?h = "the_header S (of_nat k) (of_nat n)" and ?ms = "part M a k n"
  have h: "\<not> mh_end_of_session ?h" "\<not> mh_heartbeat ?h" "mh_sequence ?h = se_expected s"
    using H(4) count_not_eos [of n] D k by (auto simp: the_header_def mh_end_of_session_def mh_heartbeat_def)
  have ms: "length ?ms = n" "\<forall>m \<in> set ?ms. message_ok m"
    using D st by (auto simp: length_part part_def stream_ok_def dest!: in_set_takeD in_set_dropD)
  have "deliver p ?h (of_nat 0) s = deliver_all (drop 0 ?ms) s"
    using deliver_data [of S ?ms 0 "of_nat k" s] ms st D by (simp add: stream_ok_def)
  then have "deliver p ?h 0 s = deliver_all ?ms s" by simp
  then have "s' = drain (deliver_all ?ms s)" using h unfolding s' accept_def by simp
  moreover have "drain t = t\<lparr> se_since_gap := 0 \<rparr>" if "se_buffer t = []" for t
    using that by (simp add: drain_def drain_loop_Nil)
  ultimately have r: "s' = (deliver_all ?ms s)\<lparr> se_since_gap := 0 \<rparr>"
    using b by (simp add: deliver_all_fields)
  have "se_expected s = of_nat k" using k by (metis of_nat_unat ucast_id)
  then have "unat (se_expected s + of_nat n) = k + n" using H(7) by simp
  with ms(1) b show "se_log s' = se_log s @ map Message (part M a k n)"
    "unat (se_expected s') = k + n" "se_buffer s' = []"
    by (simp_all add: r deliver_all_fields)
qed

definition caught_up :: "u8 list \<Rightarrow> u8 list list \<Rightarrow> u8 list list \<Rightarrow> sequencer \<Rightarrow> bool" where
  "caught_up S Full M s \<longleftrightarrow> seq_inv S 1 Full 1 s \<and> se_log s = map Message M \<and>
     unat (se_expected s) = 1 + length M \<and> se_buffer s = []"

lemma mark_caught_up:
  assumes c: "caught_up S Full M s" and q: "q = of_nat (1 + length M)" and k: "k = 0 \<or> k = kEndOfSession"
  shows "caught_up S Full M (accept p (the_header S q k) s)"
proof -
  have "se_expected s = q"
    using c unfolding caught_up_def q by (metis of_nat_unat ucast_id)
  then have "accept p (the_header S q k) s = count_heartbeat s \<or>
      accept p (the_header S q k) s = s\<lparr> se_ended := True \<rparr>"
    using k by (auto simp: accept_def the_header_def mh_end_of_session_def mh_heartbeat_def
        kEndOfSession_def Let_def)
  moreover have "caught_up S Full M (count_heartbeat s)" "caught_up S Full M (s\<lparr> se_ended := True \<rparr>)"
    using c seq_inv_cong [of S 1 Full 1 s "count_heartbeat s"] seq_inv_cong [of S 1 Full 1 s "s\<lparr> se_ended := True \<rparr>"]
    by (simp_all add: caught_up_def)
  ultimately show ?thesis by metis
qed

lemma data_caught_up:
  assumes st: "stream_ok S 1 Full" and pre: "Full = M @ ms @ rest" and c: "caught_up S Full M s"
    and ms: "ms \<noteq> []" "length ms < 65535" and p: "p = data_packet S (of_nat (1 + length M)) ms"
  shows "caught_up S Full (M @ ms) (accept p (the_header S (of_nat (1 + length M)) (of_nat (length ms))) s)"
proof -
  have pt: "part Full 1 (1 + length M) (length ms) = ms" by (simp add: part_def pre)
  have d: "data_at S 1 Full (1 + length M) (length ms) p"
    using ms pt by (simp add: data_at_def p pre)
  from c have e: "unat (se_expected s) = 1 + length M" "se_buffer s = []" and inv: "seq_inv S 1 Full 1 s"
    and l: "se_log s = map Message M"
    by (simp_all add: caught_up_def)
  from accept_next [OF st d e refl] accept_data_inv [OF st inv d] l pt show ?thesis
    by (simp add: caught_up_def)
qed

lemma run_packets_snoc: "run_packets (ps @ [p]) s = on_packet p (run_packets ps s)"
  by (simp add: run_packets_def)

lemma in_order_step:
  assumes st: "stream_ok S 1 Full" and pre: "Full = M @ rest"
    and ph: "parse_header p = Some (the_header S (of_nat (1 + length M)) c)"
    and c: "ds = [] \<and> M = [] \<or> caught_up S Full M (run_packets ds (sequencer_new cfg))"
  obtains s where "caught_up S Full M s"
    "run_packets (ds @ [p]) (sequencer_new cfg) = accept p (the_header S (of_nat (1 + length M)) c) s"
  using c
proof
  assume e: "ds = [] \<and> M = []"
  have "caught_up S Full M (settled S (of_nat 1) cfg)"
    using settled_inv [OF st, of 1 cfg] e by (simp add: caught_up_def)
  moreover have "run_packets (ds @ [p]) (sequencer_new cfg) =
      accept p (the_header S (of_nat (1 + length M)) c) (settled S (of_nat 1) cfg)"
    using on_packet_fresh [OF ph] e by (simp add: run_packets_def)
  ultimately show thesis by (rule that)
next
  assume c: "caught_up S Full M (run_packets ds (sequencer_new cfg))"
  let ?s = "run_packets ds (sequencer_new cfg)"
  note P = on_packet_started [OF _ ph, of 1 Full 1 ?s]
  have "caught_up S Full M (count_packet ?s)" using c P(2) by (simp add: caught_up_def)
  moreover have "run_packets (ds @ [p]) (sequencer_new cfg) =
      accept p (the_header S (of_nat (1 + length M)) c) (count_packet ?s)"
    using c P(1) by (simp add: run_packets_snoc caught_up_def)
  ultimately show thesis by (rule that)
qed

lemma in_order_caught_up:
  "publishes session M ds \<Longrightarrow> Full = M @ rest \<Longrightarrow> stream_ok (session_field session) 1 Full \<Longrightarrow>
   ds = [] \<and> M = [] \<or> caught_up (session_field session) Full M (run_packets ds (sequencer_new cfg))"
proof (induction M ds arbitrary: rest rule: publishes.induct)
  case none
  then show ?case by simp
next
  case (data M ds ms)
  let ?S = "session_field session" and ?p = "data_packet (session_field session) (of_nat (1 + length M)) ms"
  have pre: "Full = M @ ms @ rest" using data.prems(1) by simp
  have ph: "parse_header ?p = Some (the_header ?S (of_nat (1 + length M)) (of_nat (length ms)))"
    using parse_datagram [of ?S] by (simp add: data_packet_def the_header_def)
  obtain s where s: "caught_up ?S Full M s" "run_packets (ds @ [?p]) (sequencer_new cfg) =
      accept ?p (the_header ?S (of_nat (1 + length M)) (of_nat (length ms))) s"
    using in_order_step [OF data.prems(2) pre ph data.IH [OF pre data.prems(2)]] by blast
  from data_caught_up [OF data.prems(2) pre s(1) data.hyps(2,3) refl] s(2) show ?case by simp
next
  case (heartbeat M ds)
  let ?S = "session_field session" and ?p = "mold_datagram (session_field session) (of_nat (1 + length M)) 0 []"
  have ph: "parse_header ?p = Some (the_header ?S (of_nat (1 + length M)) 0)"
    using parse_datagram [of ?S] by (simp add: the_header_def)
  obtain s where s: "caught_up ?S Full M s" "run_packets (ds @ [?p]) (sequencer_new cfg) =
      accept ?p (the_header ?S (of_nat (1 + length M)) 0) s"
    using in_order_step [OF heartbeat.prems(2,1) ph heartbeat.IH [OF heartbeat.prems]] by blast
  from mark_caught_up [OF s(1) refl, of 0] s(2) show ?case by simp
next
  case (ended M ds)
  let ?S = "session_field session"
  let ?p = "mold_datagram (session_field session) (of_nat (1 + length M)) kEndOfSession []"
  have ph: "parse_header ?p = Some (the_header ?S (of_nat (1 + length M)) kEndOfSession)"
    using parse_datagram [of ?S] by (simp add: the_header_def)
  obtain s where s: "caught_up ?S Full M s" "run_packets (ds @ [?p]) (sequencer_new cfg) =
      accept ?p (the_header ?S (of_nat (1 + length M)) kEndOfSession) s"
    using in_order_step [OF ended.prems(2,1) ph ended.IH [OF ended.prems]] by blast
  from mark_caught_up [OF s(1) refl, of kEndOfSession] s(2) show ?case by simp
qed

section \<open>A publisher behind a lossy link\<close>

lemma from_stream_extend:
  assumes "from_stream S a M p"
  shows "from_stream S a (M @ N) p"
proof (cases "\<exists>k n. data_at S a M k n p")
  case True
  then obtain k n where "data_at S a M k n p" by blast
  then have "data_at S a (M @ N) k n p" by (auto simp: data_at_def part_def)
  then show ?thesis unfolding from_stream_def by blast
next
  case False
  then obtain k c where "a \<le> k" "k \<le> a + length M" "c = 0 \<or> c = kEndOfSession"
      "p = mold_datagram S (of_nat k) c []"
    using assms unfolding from_stream_def by blast
  then show ?thesis
    unfolding from_stream_def by (intro disjI2 exI [of _ k] exI [of _ c]) simp
qed

lemma publishes_from_stream:
  "publishes session M ds \<Longrightarrow> \<forall>p \<in> set ds. from_stream (session_field session) 1 M p"
proof (induction M ds rule: publishes.induct)
  case none
  then show ?case by simp
next
  case (data M ds ms)
  have "data_at (session_field session) 1 (M @ ms) (1 + length M) (length ms)
      (data_packet (session_field session) (of_nat (1 + length M)) ms)"
    using data.hyps by (simp add: data_at_def part_def)
  then have "from_stream (session_field session) 1 (M @ ms)
      (data_packet (session_field session) (of_nat (1 + length M)) ms)"
    unfolding from_stream_def by blast
  then show ?case using data.IH from_stream_extend by auto
next
  case (heartbeat M ds)
  have "from_stream (session_field session) 1 M (mold_datagram (session_field session) (of_nat (1 + length M)) 0 [])"
    unfolding from_stream_def by (intro disjI2 exI [of _ "1 + length M"] exI [of _ 0]) simp
  then show ?case using heartbeat.IH by simp
next
  case (ended M ds)
  have "from_stream (session_field session) 1 M
      (mold_datagram (session_field session) (of_nat (1 + length M)) kEndOfSession [])"
    unfolding from_stream_def by (intro disjI2 exI [of _ "1 + length M"] exI [of _ kEndOfSession]) simp
  then show ?case using ended.IH by simp
qed

text \<open>The datagrams of a run of the publisher whose messages were all added and flushed.\<close>

definition wire_of :: "u8 list \<Rightarrow> nat \<Rightarrow> pub_call list \<Rightarrow> u8 list list" where
  "wire_of session mtu cs = pb_sent (pb_flush (fold pub_step cs (publisher_new session mtu)))"

definition calls_ok :: "nat \<Rightarrow> pub_call list \<Rightarrow> bool" where
  "calls_ok mtu cs \<longleftrightarrow> kHeaderLen < mtu \<and> 1 + length (added cs) < 2 ^ 64 \<and>
     (\<forall>m \<in> set (added cs). message_ok m \<and> length m + 2 \<le> mtu - kHeaderLen)"

lemma wire_publishes: "calls_ok mtu cs \<Longrightarrow> publishes session (added cs) (wire_of session mtu cs)"
  using publisher_sends [of mtu cs session] by (simp add: calls_ok_def wire_of_def)

lemma calls_stream_ok: "calls_ok mtu cs \<Longrightarrow> stream_ok (session_field session) 1 (added cs)"
  by (simp add: calls_ok_def stream_ok_def)

theorem lossy_link:
  assumes ok: "calls_ok mtu cs" and ps: "set (p # ps) \<subseteq> set (wire_of session mtu cs)"
    and s: "s = run_packets (p # ps) (sequencer_new cfg)"
  shows "\<exists>s'. seq_flush s = Some s' \<and> se_buffer s' = [] \<and>
    accounts (added cs) 1 (first_sequence p) (se_log s') (unat (se_expected s'))"
proof -
  note P = publishes_from_stream [OF wire_publishes [OF ok, of session]]
  have "\<forall>q \<in> set (p # ps). from_stream (session_field session) 1 (added cs) q"
    using P ps by blast
  from sequencer_accounts(3) [OF calls_stream_ok [OF ok] this s] show ?thesis .
qed

theorem in_order_all:
  assumes ok: "calls_ok mtu cs"
  shows "se_log (run_packets (wire_of session mtu cs) (sequencer_new cfg)) = map Message (added cs)"
  using in_order_caught_up [OF wire_publishes [OF ok] _ calls_stream_ok [OF ok], of "[]" session cfg]
  by (auto simp: caught_up_def run_packets_def sequencer_new_def)

end
