(* ===== verification/Heard.thy ===== *)
theory Heard
  imports Sequencer
begin

text \<open>
  What the log of the sequencer reaches: every datagram that carries messages, and every heartbeat, is behind
  the number expected next or held in the buffer under its own number; after a flush nothing is held, so no
  message that was received is left out of the account.
\<close>

section \<open>Reached or held\<close>

definition number_of :: "u8 list \<Rightarrow> u64" where
  "number_of p = mh_sequence (the (parse_header p))"

definition heard :: "u8 list \<Rightarrow> sequencer \<Rightarrow> bool" where
  "heard p s \<longleftrightarrow> next_sequence p \<le> unat (se_expected s) \<or> om_get (number_of p) (se_buffer s) = Some p"

text \<open>Nothing is forgotten, and nothing new is held.\<close>

definition advances :: "sequencer \<Rightarrow> sequencer \<Rightarrow> bool" where
  "advances s s' \<longleftrightarrow> unat (se_expected s) \<le> unat (se_expected s') \<and> (\<forall>p. heard p s \<longrightarrow> heard p s') \<and>
     set (se_buffer s') \<subseteq> set (se_buffer s)"

lemma advances_trans: "advances a b \<Longrightarrow> advances b c \<Longrightarrow> advances a c"
  unfolding advances_def by (meson le_trans subset_trans)

lemma advances_same: "se_expected s' = se_expected s \<Longrightarrow> se_buffer s' = se_buffer s \<Longrightarrow> advances s s'"
  by (simp add: advances_def heard_def)

lemma advances_up: "unat (se_expected s) \<le> unat (se_expected s') \<Longrightarrow> se_buffer s' = se_buffer s \<Longrightarrow> advances s s'"
  by (auto simp: advances_def heard_def)

lemma number_at: "stream_ok S a M \<Longrightarrow> data_at S a M k n p \<Longrightarrow> number_of p = of_nat k"
  by (simp add: number_of_def data_header(1)) (simp add: the_header_def)

lemma advances_round:
  assumes wf: "om_wf ((q, p) # rest)" and b: "se_buffer s = (q, p) # rest" "se_buffer s' = rest"
    and e: "unat (se_expected s) \<le> unat (se_expected s')" "next_sequence p \<le> unat (se_expected s')"
  shows "advances s s'"
proof -
  have "heard x s'" if "heard x s" for x
  proof (cases "next_sequence x \<le> unat (se_expected s)")
    case True
    then show ?thesis using e(1) by (simp add: heard_def)
  next
    case False
    then have "(number_of x, x) \<in> set ((q, p) # rest)" using that wf b by (simp add: heard_def om_get_mem)
    then consider "x = p" | "(number_of x, x) \<in> set rest" by auto
    then show ?thesis
    proof cases
      case 2
      then show ?thesis using wf b(2) om_wf_tl [OF wf] by (simp add: heard_def om_get_mem)
    qed (use e(2) in \<open>simp add: heard_def\<close>)
  qed
  then show ?thesis using e(1) b by (auto simp: advances_def)
qed

lemma drain_loop_advances:
  "stream_ok S a M \<Longrightarrow> seq_inv S a M k0 s \<Longrightarrow> advances s (drain_loop s)"
proof (induction "length (se_buffer s)" arbitrary: s rule: less_induct)
  case less
  show ?case
  proof (cases "se_buffer s")
    case Nil
    then show ?thesis by (simp add: drain_loop_Nil advances_same)
  next
    case (Cons x rest)
    obtain q p where "x = (q, p)" by (cases x)
    then have b: "se_buffer s = (q, p) # rest" using Cons by simp
    show ?thesis
      using less.prems b
    proof (cases rule: drain_round)
      case wait
      then show ?thesis by (simp add: advances_same)
    next
      case (go s')
      have "om_wf ((q, p) # rest)" using less.prems(2) b by (simp add: seq_inv_def)
      from advances_round [OF this b go(3-5)] less.hyps [of s'] go(1-3) less.prems(1) b show ?thesis
        by (auto intro: advances_trans)
    qed
  qed
qed

lemma drain_advances: "stream_ok S a M \<Longrightarrow> seq_inv S a M k0 s \<Longrightarrow> advances s (drain s)"
  using advances_trans [OF drain_loop_advances advances_same, of S a M k0 s "drain s"]
  by (simp add: drain_def Let_def)

lemma gap_advances:
  assumes "seq_inv S a M k0 s" "unat u \<le> a + length M"
  shows "advances s (declare_gap u s)"
proof -
  have "unat (se_expected s) \<le> unat (se_expected (declare_gap u s))"
    using lose_inv(2) [OF assms(1) _ assms(2)] by (auto simp: declare_gap_def not_le word_less_nat_alt)
  then show ?thesis using declare_gap_inv(3) [OF assms] by (rule advances_up)
qed

lemma front_bound:
  assumes "stream_ok S a M" "seq_inv S a M k0 s" "se_buffer s \<noteq> []"
  shows "unat (fst (hd (se_buffer s))) \<le> a + length M"
proof -
  obtain q p rest where b: "se_buffer s = (q, p) # rest" using assms(3) by (cases "se_buffer s") auto
  then obtain k n where "q = of_nat k" "data_at S a M k n p" using assms(2) by (auto simp: seq_inv_def)
  then show ?thesis using data_header(3) [OF assms(1), of k n p] by (simp add: b data_at_def)
qed

lemma release_advances:
  assumes "stream_ok S a M" "seq_inv S a M k0 s" "se_buffer s \<noteq> []"
  shows "advances s (drain (declare_gap (fst (hd (se_buffer s))) s))"
  using advances_trans [OF gap_advances [OF assms(2) front_bound [OF assms]]
      drain_advances [OF assms(1) declare_gap_inv(1) [OF assms(2) front_bound [OF assms]]]] .

lemma flush_advances:
  "stream_ok S a M \<Longrightarrow> seq_inv S a M k0 s \<Longrightarrow> flush_loop n s = Some s' \<Longrightarrow> advances s s'"
proof (induction n arbitrary: s)
  case 0
  then show ?case by (simp add: advances_same split: if_splits)
next
  case (Suc n)
  show ?case
  proof (cases "se_buffer s = []")
    case True
    then show ?thesis using Suc.prems(3) by (simp add: advances_same)
  next
    case False
    note R = release_front [OF Suc.prems(1,2) False refl] and A = release_advances [OF Suc.prems(1,2) False]
    from Suc.IH [OF Suc.prems(1) R(1)] Suc.prems(3) False show ?thesis by (auto intro: advances_trans [OF A])
  qed
qed

section \<open>A datagram\<close>

lemma buffer_heard:
  assumes st: "stream_ok S a M" and inv: "seq_inv S a M k0 s" and d: "data_at S a M k n p"
    and same: "\<And>x. (number_of p, x) \<in> set (se_buffer s) \<Longrightarrow> x = p"
  shows "heard p (buffer_packet p (the_header S (of_nat k) (of_nat n)) s)"
    "heard x s \<Longrightarrow> heard x (buffer_packet p (the_header S (of_nat k) (of_nat n)) s)"
    "set (se_buffer (buffer_packet p (the_header S (of_nat k) (of_nat n)) s)) \<subseteq> insert (number_of p, p) (set (se_buffer s))"
proof -
  let ?h = "the_header S (of_nat k) (of_nat n)"
  define s1 where "s1 = (case om_get (mh_sequence ?h) (se_buffer s) of
                 None \<Rightarrow> s\<lparr> se_buffer := om_set (mh_sequence ?h) p (se_buffer s) \<rparr>
               | Some _ \<Rightarrow> count_duplicate s)"
  define s2 where "s2 = s1\<lparr> se_since_gap := se_since_gap s1 + 1 \<rparr>"
  have h: "mh_sequence ?h = number_of p" using number_at [OF st d] by (simp add: the_header_def)
  have wf: "om_wf (se_buffer s)" using inv by (simp add: seq_inv_def)
  have b2: "se_buffer s2 = om_set (number_of p) p (se_buffer s) \<or> se_buffer s2 = se_buffer s \<and> (number_of p, p) \<in> set (se_buffer s)"
    using same om_get_mem [OF wf] by (auto simp: s2_def s1_def h split: option.split)
  have e2: "se_expected s2 = se_expected s" by (simp add: s2_def s1_def split: option.split)
  have get: "om_get (number_of p) (se_buffer s2) = Some p" using b2 wf by (auto simp: om_get_set om_get_mem)
  have keep: "heard x s2" if "heard x s" for x
  proof (cases "number_of x = number_of p")
    case True
    then show ?thesis
      using that get same [of x] om_get_mem [OF wf, of "number_of x" x] by (auto simp: heard_def e2)
  next
    case False
    then show ?thesis using that b2 wf by (auto simp: heard_def e2 om_get_set)
  qed
  have "om_wf (se_buffer s2)" using b2 wf by auto
  then have sub: "set (se_buffer s2) \<subseteq> insert (number_of p, p) (set (se_buffer s))"
  proof (intro subsetI)
    fix z assume w: "om_wf (se_buffer s2)" and z: "z \<in> set (se_buffer s2)"
    obtain q y where zz: "z = (q, y)" by fastforce
    then have "om_get q (se_buffer s2) = Some y" using w z by (simp add: om_get_mem)
    then show "z \<in> insert (number_of p, p) (set (se_buffer s))"
      using b2 wf by (auto simp: zz om_get_set om_get_mem split: if_splits)
  qed
  have inv2: "seq_inv S a M k0 s2"
  proof -
    have "\<exists>k n. q = of_nat k \<and> data_at S a M k n y" if "(q, y) \<in> set (se_buffer s2)" for q y
      using that sub inv d number_at [OF st d] unfolding seq_inv_def by blast
    then have "\<forall>(q, y) \<in> set (se_buffer s2). \<exists>k n. q = of_nat k \<and> data_at S a M k n y" by blast
    moreover have "se_started s2 = se_started s" "se_session s2 = se_session s" "se_log s2 = se_log s"
      by (simp_all add: s2_def s1_def split: option.split)
    ultimately show ?thesis using inv \<open>om_wf (se_buffer s2)\<close> by (simp add: seq_inv_def e2)
  qed
  have ne: "se_buffer s2 \<noteq> []" using get by auto
  define s3 where "s3 = buffer_packet p ?h s"
  have "s3 = (if length (se_buffer s2) \<ge> cf_reorder_depth (se_cfg s2) \<or>
            se_since_gap s2 > cf_reorder_patience (se_cfg s2)
         then drain (declare_gap (fst (hd (se_buffer s2))) s2) else s2)"
    by (simp add: s3_def buffer_packet_def Let_def s2_def s1_def)
  then have A: "advances s2 s3" using release_advances [OF st inv2 ne] advances_same [of s2 s2] by simp
  have "heard p s2" using get by (simp add: heard_def)
  then show "heard p (buffer_packet p ?h s)" "heard x s \<Longrightarrow> heard x (buffer_packet p ?h s)"
    "set (se_buffer (buffer_packet p ?h s)) \<subseteq> insert (number_of p, p) (set (se_buffer s))"
    using A keep sub unfolding s3_def [symmetric] advances_def by blast+
qed

definition is_end :: "u8 list \<Rightarrow> bool" where
  "is_end p \<longleftrightarrow> mh_end_of_session (the (parse_header p))"

text \<open>Accepting a datagram: it is heard, unless it marks the end, and nothing else is forgotten.\<close>

definition takes_in :: "u8 list \<Rightarrow> sequencer \<Rightarrow> sequencer \<Rightarrow> bool" where
  "takes_in p s s' \<longleftrightarrow> (\<not> is_end p \<longrightarrow> heard p s') \<and> (\<forall>x. heard x s \<longrightarrow> heard x s') \<and>
     set (se_buffer s') \<subseteq> insert (number_of p, p) (set (se_buffer s))"

lemma takes_advances: "advances s s' \<Longrightarrow> is_end p \<or> next_sequence p \<le> unat (se_expected s') \<Longrightarrow> takes_in p s s'"
  by (auto simp: takes_in_def advances_def heard_def)

lemma accept_data_takes:
  assumes st: "stream_ok S a M" and inv: "seq_inv S a M k0 s" and d: "data_at S a M k n p"
    and same: "\<And>x. (number_of p, x) \<in> set (se_buffer s) \<Longrightarrow> x = p"
  shows "takes_in p s (accept p (the_header S (of_nat k) (of_nat n)) s)"
proof -
  let ?h = "the_header S (of_nat k) (of_nat n)" and ?e = "unat (se_expected s)"
  note H = data_header [OF st d] and N = data_covers(2) [OF st d]
  have n: "n < 65535" using d by (simp add: data_at_def)
  have h: "mh_sequence ?h = of_nat k" "\<not> mh_end_of_session ?h" "\<not> mh_heartbeat ?h"
    using H(4) count_not_eos [OF n] by (simp_all add: the_header_def mh_end_of_session_def mh_heartbeat_def)
  have end_le: "mh_sequence ?h + ucast (mh_message_count ?h) \<le> se_expected s \<longleftrightarrow> k + n \<le> ?e"
    using H by (simp add: h word_le_nat_alt)
  have cmp: "mh_sequence ?h < se_expected s \<longleftrightarrow> k < ?e" "mh_sequence ?h = se_expected s \<longleftrightarrow> k = ?e"
    using H(3) by (auto simp add: h word_less_nat_alt)
  have del: "takes_in p s (drain (deliver p ?h (se_expected s - of_nat k) t))"
    if t: "k \<le> ?e" "?e < k + n" "se_expected t = se_expected s" "se_buffer t = se_buffer s" "seq_inv S a M k0 t" for t
  proof -
    let ?d = "deliver p ?h (se_expected s - of_nat k) t"
    note D = deliver_inv [OF st t(5) d, unfolded t(3), OF t(1,2)]
    have "advances s ?d" by (rule advances_up) (use D(2) t(2,4) in simp_all)
    moreover note A = drain_advances [OF st D(1)]
    moreover have "next_sequence p \<le> unat (se_expected (drain ?d))" using A D(2) N by (simp add: advances_def)
    ultimately show ?thesis by (intro takes_advances) (auto intro: advances_trans)
  qed
  consider "k = ?e" | "k < ?e" "k + n \<le> ?e" | "k < ?e" "?e < k + n" | "?e < k" by linarith
  then show ?thesis
  proof cases
    case 1
    have "0 < n" using d by (simp add: data_at_def)
    moreover have "se_expected s - of_nat k = 0" using 1 by simp
    ultimately show ?thesis using 1 del [of s] inv h cmp by (simp add: accept_def)
  next
    case 2
    have "advances s (count_duplicate_messages m (count_duplicate s))" for m by (rule advances_same) simp_all
    then show ?thesis using 2 h cmp end_le N by (simp add: accept_def Let_def takes_advances)
  next
    case 3
    have "seq_inv S a M k0 (count_duplicate_messages m s)" for m by (rule seq_inv_cong [OF inv]) simp_all
    then show ?thesis
      using 3 h cmp end_le del [of "count_duplicate_messages (se_expected s - of_nat k) s"] by (simp add: accept_def Let_def)
  next
    case 4
    with h cmp buffer_heard [OF st inv d same] show ?thesis by (auto simp: accept_def takes_in_def)
  qed
qed

lemma accept_mark_takes:
  assumes st: "stream_ok S a M" and inv: "seq_inv S a M k0 s" and k: "k \<le> a + length M"
    and c: "c = 0 \<or> c = kEndOfSession" and p: "parse_header p = Some (the_header S (of_nat k) c)"
  shows "takes_in p s (accept p (the_header S (of_nat k) c) s)"
proof -
  let ?h = "the_header S (of_nat k) c"
  have "k < 2 ^ 64" using k st unfolding stream_ok_def by linarith
  then have u: "unat (of_nat k :: u64) = k" by (rule unat_of_nat64)
  show ?thesis
  proof (cases "c = kEndOfSession")
    case True
    have "advances s (s\<lparr> se_ended := True \<rparr>)" by (rule advances_same) simp_all
    then show ?thesis using True p
      by (simp add: accept_def the_header_def mh_end_of_session_def takes_advances is_end_def)
  next
    case False
    then have c0: "c = 0" using c by simp
    have h: "\<not> mh_end_of_session ?h" "mh_heartbeat ?h" "mh_sequence ?h = of_nat k" "mh_message_count ?h = 0"
      by (simp_all add: the_header_def mh_end_of_session_def mh_heartbeat_def mh_message_count_def c0 kEndOfSession_def)
    have n: "next_sequence p = k" using u by (simp add: next_sequence_def first_sequence_def p h)
    have i: "seq_inv S a M k0 (count_heartbeat s)" by (rule seq_inv_cong [OF inv]) simp_all
    have A: "advances s (count_heartbeat s)" by (rule advances_same) simp_all
    have B: "advances (count_heartbeat s) (declare_gap (of_nat k) (count_heartbeat s))"
      by (rule gap_advances [OF i]) (use u k in simp)
    have C: "of_nat k \<le> se_expected (declare_gap (of_nat k) (count_heartbeat s))"
      by (rule declare_gap_inv(2) [OF i]) (use u k in simp)
    have e: "accept p ?h s = (if of_nat k > se_expected s then declare_gap (of_nat k) (count_heartbeat s) else count_heartbeat s)"
      using h by (simp add: accept_def Let_def)
    show ?thesis
    proof (cases "of_nat k > se_expected s")
      case True
      then have "accept p ?h s = declare_gap (of_nat k) (count_heartbeat s)" by (simp add: e)
      moreover have "next_sequence p \<le> unat (se_expected (declare_gap (of_nat k) (count_heartbeat s)))"
        using C u n by (simp add: word_le_nat_alt)
      ultimately show ?thesis using takes_advances [OF advances_trans [OF A B]] by simp
    next
      case False
      then have "accept p ?h s = count_heartbeat s" by (simp add: e)
      moreover have "next_sequence p \<le> unat (se_expected (count_heartbeat s))"
        using False u n by (simp add: not_less word_le_nat_alt)
      ultimately show ?thesis using takes_advances [OF A] by simp
    qed
  qed
qed

section \<open>A run\<close>

text \<open>The packets of a stream are told apart by their first number.\<close>

definition told_apart :: "u8 list set \<Rightarrow> bool" where
  "told_apart R \<longleftrightarrow> (\<forall>p \<in> R. \<forall>q \<in> R. first_sequence p < next_sequence p \<longrightarrow> first_sequence q < next_sequence q \<longrightarrow>
     number_of p = number_of q \<longrightarrow> p = q)"

definition held_from :: "u8 list set \<Rightarrow> sequencer \<Rightarrow> bool" where
  "held_from R s \<longleftrightarrow> (\<forall>(q, x) \<in> set (se_buffer s). x \<in> R \<and> q = number_of x \<and> first_sequence x < next_sequence x)"

lemma on_packet_hears:
  assumes st: "stream_ok S a M" and inv: "seq_inv S a M k0 s" and p: "from_stream S a M p" "p \<in> R"
    and R: "told_apart R" "held_from R s"
  shows "takes_in p s (on_packet p s)" "held_from R (on_packet p s)"
proof -
  have cp: "seq_inv S a M k0 (count_packet s)" "held_from R (count_packet s)"
    using seq_inv_cong [OF inv, of "count_packet s"] R(2) by (simp_all add: held_from_def)
  have via: "takes_in p s (on_packet p s)"
    if "takes_in p (count_packet s) (accept p (the_header S (of_nat k) c) (count_packet s))"
      "parse_header p = Some (the_header S (of_nat k) c)" for k c
    using that on_packet_started [OF inv that(2)] by (simp add: takes_in_def heard_def)
  show t: "takes_in p s (on_packet p s)"
  proof (cases "\<exists>k n. data_at S a M k n p")
    case True
    then obtain k n where d: "data_at S a M k n p" by blast
    have lt: "first_sequence p < next_sequence p" using data_covers [OF st d] d by (simp add: data_at_def)
    have "x = p" if "(number_of p, x) \<in> set (se_buffer (count_packet s))" for x
    proof -
      have "x \<in> R" "number_of p = number_of x" "first_sequence x < next_sequence x"
        using that cp(2) by (auto simp: held_from_def)
      then show ?thesis using R(1) p(2) lt unfolding told_apart_def by blast
    qed
    then show ?thesis by (intro via [OF accept_data_takes [OF st cp(1) d] data_header(1) [OF st d]])
  next
    case False
    then obtain k c where k: "k \<le> a + length M" and c: "c = 0 \<or> c = kEndOfSession" and q: "p = mold_datagram S (of_nat k) c []"
      using p(1) unfolding from_stream_def by blast
    have h: "parse_header p = Some (the_header S (of_nat k) c)"
      using st q parse_datagram [of S] by (simp add: the_header_def stream_ok_def)
    show ?thesis by (rule via [OF accept_mark_takes [OF st cp(1) k c h] h])
  qed
  show "held_from R (on_packet p s)"
    unfolding held_from_def
  proof (intro ballI, clarify)
    fix q x assume x: "(q, x) \<in> set (se_buffer (on_packet p s))"
    then obtain k n where d: "q = of_nat k" "data_at S a M k n x"
      using on_packet_inv [OF st inv p(1)] by (auto simp: seq_inv_def)
    have "x \<in> R" using x t p(2) R(2) unfolding takes_in_def held_from_def by blast
    then show "x \<in> R \<and> q = number_of x \<and> first_sequence x < next_sequence x"
      using d number_at [OF st d(2)] data_covers [OF st d(2)] by (simp add: data_at_def)
  qed
qed

lemma run_hears:
  "stream_ok S a M \<Longrightarrow> seq_inv S a M k0 s \<Longrightarrow> \<forall>p \<in> set ps. from_stream S a M p \<Longrightarrow> set ps \<subseteq> R \<Longrightarrow> told_apart R \<Longrightarrow>
   held_from R s \<Longrightarrow> (\<forall>x. heard x s \<longrightarrow> heard x (run_packets ps s)) \<and>
   (\<forall>p \<in> set ps. \<not> is_end p \<longrightarrow> heard p (run_packets ps s))"
proof (induction ps arbitrary: s)
  case Nil
  then show ?case by (simp add: run_packets_def)
next
  case (Cons p ps)
  have p: "from_stream S a M p" "p \<in> R" using Cons.prems(3,4) by simp_all
  note P = on_packet_hears [OF Cons.prems(1,2) p Cons.prems(5,6)]
  have r: "run_packets (p # ps) s = run_packets ps (on_packet p s)" by (simp add: run_packets_def)
  have "\<forall>p \<in> set ps. from_stream S a M p" "set ps \<subseteq> R" using Cons.prems(3,4) by simp_all
  note I = Cons.IH [OF Cons.prems(1) on_packet_inv [OF Cons.prems(1,2) p(1)] this Cons.prems(5) P(2)]
  show ?case using I P(1) unfolding r takes_in_def by auto
qed

lemma first_hears:
  assumes st: "stream_ok S a M" and p: "from_stream S a M p" "p \<in> R" and R: "told_apart R"
  shows "\<not> is_end p \<Longrightarrow> heard p (on_packet p (sequencer_new cfg))" "held_from R (on_packet p (sequencer_new cfg))"
proof -
  obtain k c where h: "parse_header p = Some (the_header S (of_nat k) c)" "a \<le> k" "k \<le> a + length M"
    using from_stream_cases [OF st p(1)] by metis
  note I = settled_inv [OF st h(2,3), of cfg]
  let ?s = "settled S (of_nat k) cfg"
  text \<open>A settled sequencer that hears the packet again is in the same position.\<close>
  have e: "on_packet p (sequencer_new cfg) = accept p (the_header S (of_nat k) c) ?s" by (rule on_packet_fresh [OF h(1)])
  have "held_from R ?s" using I(4) by (simp add: held_from_def)
  note P = on_packet_hears [OF st I(1) p R this]
  have "on_packet p ?s = accept p (the_header S (of_nat k) c) (count_packet ?s)"
    by (rule on_packet_started(1) [OF I(1) h(1)])
  have b: "\<forall>s. se_expected s = of_nat k \<longrightarrow> se_buffer s = [] \<longrightarrow> seq_inv S a M k s \<longrightarrow> takes_in p s (accept p (the_header S (of_nat k) c) s)"
  proof (intro allI impI)
    fix s assume s: "se_expected s = of_nat k" "se_buffer s = []" "seq_inv S a M k s"
    show "takes_in p s (accept p (the_header S (of_nat k) c) s)"
    proof (cases "\<exists>k n. data_at S a M k n p")
      case True
      then obtain k' n where d: "data_at S a M k' n p" by blast
      have "the_header S (of_nat k) c = the_header S (of_nat k') (of_nat n)" using data_header(1) [OF st d] h(1) by simp
      then show ?thesis using accept_data_takes [OF st s(3) d] s(2) by simp
    next
      case False
      then obtain k' c' where k': "k' \<le> a + length M" "c' = 0 \<or> c' = kEndOfSession" "p = mold_datagram S (of_nat k') c' []"
        using p(1) unfolding from_stream_def by blast
      have "parse_header p = Some (the_header S (of_nat k') c')"
        using st k'(3) parse_datagram [of S] by (simp add: the_header_def stream_ok_def)
      then show ?thesis using accept_mark_takes [OF st s(3) k'(1,2)] h(1) by simp
    qed
  qed
  have "se_expected ?s = of_nat k" by (simp add: settled_def)
  then have t: "takes_in p ?s (on_packet p (sequencer_new cfg))" using b I(1,4) unfolding e by blast
  then show "\<not> is_end p \<Longrightarrow> heard p (on_packet p (sequencer_new cfg))" by (simp add: takes_in_def)
  show "held_from R (on_packet p (sequencer_new cfg))"
    unfolding held_from_def
  proof (intro ballI, clarify)
    fix q x assume x: "(q, x) \<in> set (se_buffer (on_packet p (sequencer_new cfg)))"
    then have "x = p" "q = number_of p" using t I(4) by (auto simp: takes_in_def)
    moreover obtain k' n where "q = of_nat k'" "data_at S a M k' n x"
      using x first_packet_inv [OF st p(1), of cfg] by (auto simp: seq_inv_def)
    ultimately show "x \<in> R \<and> q = number_of x \<and> first_sequence x < next_sequence x"
      using p(2) data_covers [OF st, of k' n x] by (simp add: data_at_def)
  qed
qed

text \<open>The datagrams a publisher sends are told apart by their numbers.\<close>

lemma mark_empty:
  assumes "length S = 10" "c = 0 \<or> c = kEndOfSession"
  shows "next_sequence (mold_datagram S k c []) = first_sequence (mold_datagram S k c [])"
  using assms parse_datagram [of S k c "[]"]
  by (auto simp: next_sequence_def mh_message_count_def mh_end_of_session_def)

lemma apart_insert:
  assumes "told_apart R" "first_sequence p < next_sequence p \<Longrightarrow>
    \<forall>q \<in> R. first_sequence q < next_sequence q \<longrightarrow> number_of q \<noteq> number_of p"
  shows "told_apart (insert p R)"
  using assms unfolding told_apart_def by (metis insert_iff)

lemma publishes_apart:
  "publishes session M ds \<Longrightarrow> stream_ok (session_field session) 1 (M @ N) \<Longrightarrow> told_apart (set ds) \<and>
   (\<forall>p \<in> set ds. first_sequence p < next_sequence p \<longrightarrow> unat (number_of p) < 1 + length M)"
proof (induction M ds arbitrary: N rule: publishes.induct)
  case none
  then show ?case by (simp add: told_apart_def)
next
  case (data M ds ms)
  let ?S = "session_field session" and ?p = "data_packet (session_field session) (of_nat (1 + length M)) ms"
  have st: "stream_ok ?S 1 (M @ ms @ N)" using data.prems by simp
  have d: "data_at ?S 1 (M @ ms @ N) (1 + length M) (length ms) ?p"
    using data.hyps by (simp add: data_at_def part_def)
  have n: "unat (number_of ?p) = 1 + length M" using number_at [OF st d] data_header(3) [OF st d] by simp
  note I = data.IH [OF st]
  have "told_apart (insert ?p (set ds))"
    by (rule apart_insert [OF I [THEN conjunct1]]) (use I [THEN conjunct2] n in fastforce)
  moreover have "unat (number_of q) < 1 + length (M @ ms)"
    if "q \<in> insert ?p (set ds)" "first_sequence q < next_sequence q" for q
  proof (cases "q = ?p")
    case True
    then show ?thesis unfolding True n using data.hyps(2) by simp
  next
    case False
    then have "unat (number_of q) < 1 + length M" using that I by blast
    then show ?thesis by simp
  qed
  ultimately show ?case by simp
next
  case (heartbeat M ds)
  have "told_apart (insert (mold_datagram (session_field session) (of_nat (1 + length M)) 0 []) (set ds))"
    by (rule apart_insert) (use heartbeat mark_empty [of "session_field session" 0] in \<open>auto simp: stream_ok_def\<close>)
  then show ?case using heartbeat mark_empty [of "session_field session" 0] by (auto simp: stream_ok_def)
next
  case (ended M ds)
  have "told_apart (insert (mold_datagram (session_field session) (of_nat (1 + length M)) kEndOfSession []) (set ds))"
    by (rule apart_insert) (use ended mark_empty [of "session_field session" kEndOfSession] in \<open>auto simp: stream_ok_def\<close>)
  then show ?case using ended mark_empty [of "session_field session" kEndOfSession] by (auto simp: stream_ok_def)
qed

text \<open>After a flush the account reaches past every datagram that was heard, but for the end of session packets.\<close>

theorem lossy_link_reaches:
  assumes ok: "calls_ok mtu cs" and ps: "set (p # ps) \<subseteq> set (wire_of session mtu cs)"
    and s: "s = run_packets (p # ps) (sequencer_new cfg)"
  shows "\<exists>s'. seq_flush s = Some s' \<and> se_buffer s' = [] \<and>
    accounts (added cs) 1 (first_sequence p) (se_log s') (unat (se_expected s')) \<and>
    unat (se_expected s') \<le> 1 + length (added cs) \<and>
    (\<forall>q \<in> set (p # ps). \<not> is_end q \<longrightarrow> next_sequence q \<le> unat (se_expected s'))"
proof -
  let ?S = "session_field session" and ?M = "added cs" and ?R = "set (wire_of session mtu cs)"
  note W = wire_publishes [OF ok, of session]
  note st = calls_stream_ok [OF ok, of session]
  have from_wire: "\<forall>q \<in> set (p # ps). from_stream ?S 1 ?M q" using publishes_from_stream [OF W] ps by blast
  have R: "told_apart ?R" using publishes_apart [OF W, of "[]"] st by simp
  let ?s0 = "on_packet p (sequencer_new cfg)"
  have p: "from_stream ?S 1 ?M p" "p \<in> ?R" using from_wire ps by simp_all
  note F = first_hears [OF st p R, of cfg]
  have inv0: "seq_inv ?S 1 ?M (first_sequence p) ?s0" by (rule first_packet_inv [OF st p(1)])
  have r: "s = run_packets ps ?s0" by (simp add: s run_packets_def)
  have inv: "seq_inv ?S 1 ?M (first_sequence p) s"
    unfolding r by (rule run_packets_inv [OF st _ inv0]) (use from_wire in simp)
  have H: "(\<forall>x. heard x ?s0 \<longrightarrow> heard x s) \<and> (\<forall>q \<in> set ps. \<not> is_end q \<longrightarrow> heard q s)"
    unfolding r by (rule run_hears [OF st inv0 _ _ R F(2)]) (use from_wire ps in auto)
  obtain s' where s': "seq_flush s = Some s'" "seq_inv ?S 1 ?M (first_sequence p) s'" "se_buffer s' = []"
    using flush_loop_ok [OF st inv order_refl] by (auto simp: seq_flush_def)
  have "advances s s'" by (rule flush_advances [OF st inv]) (use s'(1) in \<open>simp add: seq_flush_def\<close>)
  then have "\<forall>q \<in> set (p # ps). \<not> is_end q \<longrightarrow> heard q s'" using H F(1) by (auto simp: advances_def)
  then have "\<forall>q \<in> set (p # ps). \<not> is_end q \<longrightarrow> next_sequence q \<le> unat (se_expected s')" using s'(3) by (simp add: heard_def)
  then show ?thesis using s' by (auto simp: seq_inv_def)
qed

section \<open>What the sequencer does not account for\<close>

text \<open>The end of session packet is not read beyond its count.\<close>

lemma end_ignored:
  assumes "parse_header p = Some hdr" "mh_end_of_session hdr" "se_started s" "c_str (se_session s) = c_str (mh_session hdr)"
  shows "on_packet p s = (count_packet s)\<lparr> se_ended := True \<rparr>"
  using assms by (simp add: on_packet_def Let_def count_packet_def)

text \<open>A heartbeat ahead: one gap up to its number, and what is held stays where it is.\<close>

lemma heartbeat_declares:
  assumes "parse_header p = Some hdr" "mh_heartbeat hdr" "\<not> mh_end_of_session hdr" "se_started s"
    "c_str (se_session s) = c_str (mh_session hdr)" "se_expected s < mh_sequence hdr"
  shows "se_log (on_packet p s) = se_log s @ [Gap (se_expected s) (mh_sequence hdr - se_expected s)]"
    "se_expected (on_packet p s) = mh_sequence hdr" "se_buffer (on_packet p s) = se_buffer s"
proof -
  have "\<not> mh_sequence hdr \<le> se_expected s" using assms(6) by simp
  then show "se_log (on_packet p s) = se_log s @ [Gap (se_expected s) (mh_sequence hdr - se_expected s)]"
    "se_expected (on_packet p s) = mh_sequence hdr" "se_buffer (on_packet p s) = se_buffer s"
    using assms by (simp_all add: on_packet_accept [OF assms(1)] accept_def declare_gap_def lose_def Let_def)
qed

text \<open>Packets held below the number expected are thrown away.\<close>

definition stale :: "u64 \<Rightarrow> u8 list \<Rightarrow> bool" where
  "stale e p \<longleftrightarrow> (case parse_header p of None \<Rightarrow> True | Some hdr \<Rightarrow> mh_sequence hdr + ucast (mh_message_count hdr) \<le> e)"

lemma drain_stale:
  "\<forall>x \<in> set (se_buffer s). stale (se_expected s) (snd x) \<Longrightarrow>
   se_log (drain_loop s) = se_log s \<and> se_expected (drain_loop s) = se_expected s \<and> se_buffer (drain_loop s) = []"
proof (induction "length (se_buffer s)" arbitrary: s rule: less_induct)
  case less
  show ?case
  proof (cases "se_buffer s")
    case Nil
    then show ?thesis by (simp add: drain_loop_Nil)
  next
    case (Cons x rest)
    obtain k pkt where x: "x = (k, pkt)" by fastforce
    have st: "stale (se_expected s) pkt" using less.prems Cons x by simp
    show ?thesis
    proof (cases "parse_header pkt")
      case None
      have "drain_loop s = drain_loop (s\<lparr> se_buffer := rest \<rparr>)" by (subst drain_loop.simps) (simp add: Cons x None)
      then show ?thesis using less.hyps [of "s\<lparr> se_buffer := rest \<rparr>"] less.prems Cons by simp
    next
      case (Some hdr)
      then have "mh_sequence hdr + ucast (mh_message_count hdr) \<le> se_expected s" using st by (simp add: stale_def)
      then have "drain_loop s = drain_loop ((count_duplicate s)\<lparr> se_buffer := rest \<rparr>)"
        by (subst drain_loop.simps) (simp add: Cons x Some Let_def)
      then show ?thesis using less.hyps [of "(count_duplicate s)\<lparr> se_buffer := rest \<rparr>"] less.prems Cons by simp
    qed
  qed
qed

lemma flush_stale:
  assumes "\<forall>x \<in> set (se_buffer s). fst x \<le> se_expected s \<and> stale (se_expected s) (snd x)"
  obtains s' where "seq_flush s = Some s'" "se_log s' = se_log s" "se_buffer s' = []" "se_expected s' = se_expected s"
proof (cases "se_buffer s")
  case Nil
  then show thesis by (intro that [of s]) (simp_all add: seq_flush_def)
next
  case (Cons x rest)
  have "fst x \<le> se_expected s" using assms Cons by simp
  then have g: "declare_gap (fst (hd (se_buffer s))) s = s" by (simp add: declare_gap_def Cons)
  have d: "se_log (drain s) = se_log s \<and> se_expected (drain s) = se_expected s \<and> se_buffer (drain s) = []"
    using drain_stale [of s] assms by (simp add: drain_def Let_def)
  have f: "flush_loop n s = Some s" if "se_buffer s = []" for n s using that by (cases n) simp_all
  have "seq_flush s = Some (drain s)" using Cons d g by (simp add: seq_flush_def f [of "drain s"])
  with d show thesis by (intro that [of "drain s"]) simp_all
qed

text \<open>A datagram cut off behind \<open>j\<close> of its blocks, all of them delivered before.\<close>

lemma deliver_cut:
  "bi_p it = pre @ frame_file ms \<Longrightarrow> bi_off it = length pre \<Longrightarrow> bi_len it = length (bi_p it) \<Longrightarrow>
   bi_remaining it = of_nat c \<Longrightarrow> length ms < c \<Longrightarrow> c < 65535 \<Longrightarrow> \<forall>m \<in> set ms. message_ok m \<Longrightarrow>
   i + length ms \<le> k \<Longrightarrow> k < 2 ^ 64 \<Longrightarrow>
   \<exists>it'. deliver_blocks it (of_nat i) (of_nat k) s = (it', s) \<and> bi_truncated it' \<and> bi_remaining it' = of_nat (c - length ms)"
proof (induction ms arbitrary: it pre i c)
  case Nil
  have "bi_remaining it \<noteq> 0" using Nil.prems(4-6) count_zero [of c] by simp
  then have "block_next it = (None, it\<lparr> bi_truncated := True \<rparr>)"
    using Nil.prems(1-3) by (simp add: block_next_def frame_file_def)
  then show ?case using Nil.prems(4) by (subst deliver_blocks.simps) simp
next
  case (Cons m ms)
  let ?it = "it\<lparr> bi_off := length (pre @ enc16 (of_nat (length m)) @ m),
    bi_remaining := bi_remaining it - 1 \<rparr>"
  have rem: "bi_remaining it \<noteq> 0" using Cons.prems(4-6) count_zero [of c] by simp
  have nxt: "block_next it = (Some m, ?it)"
    by (rule block_next_frame [OF _ rem Cons.prems(3,1,2)]) (use Cons.prems(7) in \<open>simp add: message_ok_def\<close>)
  have "bi_remaining ?it = of_nat (c - 1)" using Cons.prems(4,5) by (simp add: of_nat_diff)
  then have IH: "\<exists>it'. deliver_blocks ?it (of_nat (Suc i)) (of_nat k) s = (it', s) \<and> bi_truncated it' \<and>
      bi_remaining it' = of_nat (c - 1 - length ms)"
    by (intro Cons.IH [of ?it "pre @ enc16 (of_nat (length m)) @ m"])
      (use Cons.prems in \<open>simp_all add: frame_file_def\<close>)
  have "(of_nat i :: u64) < of_nat k"
    using Cons.prems(8,9) by (simp add: word_less_nat_alt unsigned_of_nat take_bit_nat_eq_self)
  then show ?case using IH by (subst deliver_blocks.simps) (simp add: nxt add.commute)
qed

definition cut_packet :: "u8 list \<Rightarrow> u64 \<Rightarrow> nat \<Rightarrow> u8 list list \<Rightarrow> u8 list" where
  "cut_packet S q c ms = mold_datagram S q (of_nat c) (frame_file ms)"

text \<open>With \<open>e\<close> expected, a packet for \<open>k\<close> to \<open>k + c\<close> that overlaps what was delivered and breaks off early: the
  blocks it is short of are reported lost from \<open>e\<close> on, those below \<open>e\<close> included.\<close>

lemma cut_overlap:
  assumes S: "length S = 10" and s: "se_started s" "c_str (se_session s) = c_str (S @ [0])" "se_buffer s = []"
    and e: "unat (se_expected s) = e" and k: "k < e" "e < k + c" and c: "c < 65535" "k + c < 2 ^ 64"
    and ms: "k + length ms \<le> e" "\<forall>m \<in> set ms. message_ok m"
  shows "se_log (on_packet (cut_packet S (of_nat k) c ms) s) = se_log s @ [Gap (se_expected s) (of_nat (c - length ms))]"
    "se_expected (on_packet (cut_packet S (of_nat k) c ms) s) = se_expected s + of_nat (c - length ms)"
    "se_buffer (on_packet (cut_packet S (of_nat k) c ms) s) = []"
    "se_started (on_packet (cut_packet S (of_nat k) c ms) s)"
    "se_session (on_packet (cut_packet S (of_nat k) c ms) s) = se_session s"
proof -
  let ?p = "cut_packet S (of_nat k) c ms" and ?h = "the_header S (of_nat k) (of_nat c)"
  have h: "parse_header ?p = Some ?h" using parse_datagram [OF S] by (simp add: cut_packet_def the_header_def)
  have lc: "length ms < c" using k ms(1) by linarith
  have cz: "(of_nat c :: u16) \<noteq> 0" using count_zero [of c] c lc by simp
  have hh: "\<not> mh_end_of_session ?h" "\<not> mh_heartbeat ?h" "mh_sequence ?h = of_nat k" "mh_message_count ?h = of_nat c"
    "mh_session ?h = S @ [0]"
    using cz count_not_eos [OF c(1)] by (simp_all add: the_header_def mh_end_of_session_def mh_heartbeat_def mh_message_count_def)
  have uk: "unat (of_nat k :: u64) = k" "unat (of_nat k + of_nat c :: u64) = k + c"
    using c(2) unat_of_nat64 [of k] unat_of_nat64 [of "k + c"] by simp_all
  have uc: "(ucast (of_nat c :: u16) :: u64) = of_nat c" using c(1) by (intro ucast_of_nat) simp
  have e': "se_expected s = of_nat e" using e by (metis of_nat_unat ucast_id)
  have cmp: "mh_sequence ?h < se_expected s" "\<not> mh_sequence ?h + ucast (mh_message_count ?h) \<le> se_expected s"
    using k by (simp_all add: hh uk uc word_less_nat_alt word_le_nat_alt e)
  have sk: "se_expected s - of_nat k = of_nat (e - k)" using k by (simp add: e' of_nat_diff)
  define t where "t = count_duplicate_messages (se_expected s - of_nat k) (count_packet s)"
  have t: "se_log t = se_log s" "se_expected t = se_expected s" "se_buffer t = []" "se_started t" "se_session t = se_session s"
    using s by (simp_all add: t_def)
  let ?it = "block_iter ?p (length ?p) (of_nat c)"
  have "bi_p ?it = (S @ enc64 (of_nat k) @ enc16 (of_nat c)) @ frame_file ms"
    "bi_off ?it = length (S @ enc64 (of_nat k :: u64) @ enc16 (of_nat c))"
    using S by (simp_all add: block_iter_def cut_packet_def mold_datagram_def kHeaderLen_def)
  note D = deliver_cut [OF this, of c 0 "e - k" t]
  have "\<exists>it'. deliver_blocks ?it (of_nat 0) (of_nat (e - k)) t = (it', t) \<and> bi_truncated it' \<and>
      bi_remaining it' = of_nat (c - length ms)"
    by (rule D) (use lc c ms k in \<open>simp_all add: block_iter_def\<close>)
  then obtain it' where
    it: "deliver_blocks ?it (of_nat 0) (of_nat (e - k)) t = (it', t)" "bi_truncated it'" "bi_remaining it' = of_nat (c - length ms)"
    by blast
  define z where "z = c - length ms"
  have z: "0 < z" "z < 65535" using lc c(1) by (simp_all add: z_def)
  note it = it(1,2) it(3) [folded z_def]
  have r: "(ucast (bi_remaining it') :: u64) = of_nat z" "(of_nat z :: u64) > 0"
    using it(3) z by (simp_all add: ucast_of_nat word_less_nat_alt unat_of_nat64)
  have d: "deliver ?p ?h (se_expected s - of_nat k) t = lose (of_nat z) (count_truncated t)"
    using r using it by (simp add: deliver_def hh(4) sk Let_def)
  have "on_packet ?p s = accept ?p ?h (count_packet s)"
    using s by (simp add: on_packet_accept [OF h] hh)
  then have "on_packet ?p s = drain (deliver ?p ?h (se_expected s - of_nat k) t)"
    using cmp less_imp_neq [OF cmp(1)] hh(1,2) by (simp add: accept_def Let_def t_def hh(3))
  moreover have "drain u = u\<lparr> se_since_gap := 0 \<rparr>" if "se_buffer u = []" for u
    using that by (simp add: drain_def drain_loop_Nil)
  ultimately have o: "on_packet ?p s = (lose (of_nat z) (count_truncated t))\<lparr> se_since_gap := 0 \<rparr>"
    using t(3) by (simp add: d lose_def count_truncated_def)
  show "se_log (on_packet ?p s) = se_log s @ [Gap (se_expected s) (of_nat (c - length ms))]"
    "se_expected (on_packet ?p s) = se_expected s + of_nat (c - length ms)" "se_buffer (on_packet ?p s) = []"
    "se_started (on_packet ?p s)" "se_session (on_packet ?p s) = se_session s"
    unfolding z_def [symmetric] using t by (simp_all add: o lose_def count_truncated_def)
qed

text \<open>A packet behind the number expected is dropped.\<close>

lemma behind_dropped:
  assumes "parse_header p = Some hdr" "\<not> mh_end_of_session hdr" "\<not> mh_heartbeat hdr" "se_started s"
    "c_str (se_session s) = c_str (mh_session hdr)" "mh_sequence hdr < se_expected s"
    "mh_sequence hdr + ucast (mh_message_count hdr) \<le> se_expected s"
  shows "se_log (on_packet p s) = se_log s" "se_expected (on_packet p s) = se_expected s"
  using assms less_imp_neq [OF assms(6)] by (simp_all add: on_packet_accept [OF assms(1)] accept_def Let_def)

end
