(* ===== verification/Ledger.thy ===== *)
theory Ledger
  imports Money
begin

text \<open>
  Position, cash and where the money came from: class \<open>Ledger\<close> of include/itchbook/sim/ledger.hpp. The
  result is the decomposition the class is for: equity is edge plus drift less fees, exactly, up to
  what halving an odd doubled mark loses.
\<close>

record ledger_fill =
  lf_ts :: u64
  lf_side :: sim_side
  lf_price :: int
  lf_shares :: u32
  lf_two_mid :: int
  lf_mid_ok :: bool
  lf_fee :: money
  lf_liquidity :: liquidity

record ledger =
  lg_schedule :: fee_schedule
  lg_cash :: money
  lg_position :: int
  lg_fees_total :: money
  lg_two_edge :: int
  lg_fills_without_mid :: u64
  lg_fills :: "ledger_fill list"

definition ledger_new :: "fee_schedule \<Rightarrow> ledger" where
  "ledger_new schedule = \<lparr> lg_schedule = schedule, lg_cash = 0, lg_position = 0, lg_fees_total = 0,
     lg_two_edge = 0, lg_fills_without_mid = 0, lg_fills = [] \<rparr>"

definition lg_on_fill :: "sim_fill \<Rightarrow> mid \<Rightarrow> ledger \<Rightarrow> ledger" where
  "lg_on_fill f m s =
     (let signed_shares = (if sf_side f = SBuy then uint (sf_shares f) else - uint (sf_shares f));
          fee = total_fee (lg_schedule s) (sf_liquidity f) (sf_side f = SSell) (sf_price f) (ucast (sf_shares f));
          s = s\<lparr> lg_cash := lg_cash s - notional (sf_price f) signed_shares \<rparr>;
          s = s\<lparr> lg_cash := lg_cash s - fee \<rparr>;
          s = s\<lparr> lg_position := lg_position s + signed_shares \<rparr>;
          s = s\<lparr> lg_fees_total := lg_fees_total s + fee \<rparr>;
          lf = \<lparr> lf_ts = sf_ts f, lf_side = sf_side f, lf_price = sf_price f, lf_shares = sf_shares f,
                 lf_two_mid = two_mid m, lf_mid_ok = mid_ok m, lf_fee = fee, lf_liquidity = sf_liquidity f \<rparr>;
          s = s\<lparr> lg_fills := lg_fills s @ [lf] \<rparr>
      in if mid_ok m then
           (let sgn = (if sf_side f = SBuy then 1 else -1)
            in s\<lparr> lg_two_edge := lg_two_edge s + sgn * (two_mid m - 2 * sf_price f) * uint (sf_shares f) \<rparr>)
         else s\<lparr> lg_fills_without_mid := lg_fills_without_mid s + 1 \<rparr>)"

definition equity :: "int \<Rightarrow> ledger \<Rightarrow> money" where
  "equity mark s = lg_cash s + notional mark (lg_position s)"

definition edge :: "ledger \<Rightarrow> money" where
  "edge s = lg_two_edge s * (kMicrosPerPrice4 sdiv 2)"

definition drift_of :: "int \<Rightarrow> ledger_fill list \<Rightarrow> int" where
  "drift_of two_mark fs =
     (\<Sum>f \<leftarrow> fs. if \<not> lf_mid_ok f then 0
                 else (if lf_side f = SBuy then 1 else -1) * (two_mark - lf_two_mid f) * uint (lf_shares f))"

definition drift :: "int \<Rightarrow> ledger \<Rightarrow> money" where
  "drift two_mark s = drift_of two_mark (lg_fills s) * (kMicrosPerPrice4 sdiv 2)"

definition reconciliation_error :: "int \<Rightarrow> ledger \<Rightarrow> money" where
  "reconciliation_error two_mark s =
     (let mark = to_i32 (two_mark sdiv 2)
      in equity mark s - (edge s + drift two_mark s - lg_fees_total s))"

definition shares_traded :: "ledger \<Rightarrow> u64" where
  "shares_traded s = (\<Sum>f \<leftarrow> lg_fills s. ucast (lf_shares f))"

definition per_share :: "money \<Rightarrow> ledger \<Rightarrow> money" where
  "per_share amount s =
     (let shares = shares_traded s in if shares = 0 then 0 else divide_round amount (sint shares))"

record ledger_state =
  ls_cash :: money
  ls_position :: int
  ls_fees_total :: money
  ls_two_edge :: int
  ls_fills_without_mid :: u64
  ls_fills :: "ledger_fill list"

definition lg_state :: "ledger \<Rightarrow> ledger_state" where
  "lg_state s = \<lparr> ls_cash = lg_cash s, ls_position = lg_position s, ls_fees_total = lg_fees_total s,
     ls_two_edge = lg_two_edge s, ls_fills_without_mid = lg_fills_without_mid s, ls_fills = lg_fills s \<rparr>"

definition lg_restore :: "ledger_state \<Rightarrow> ledger \<Rightarrow> ledger" where
  "lg_restore t s = s\<lparr> lg_cash := ls_cash t, lg_position := ls_position t, lg_fees_total := ls_fees_total t,
     lg_two_edge := ls_two_edge t, lg_fills_without_mid := ls_fills_without_mid t, lg_fills := ls_fills t \<rparr>"

definition run_fills :: "(sim_fill \<times> mid) list \<Rightarrow> ledger \<Rightarrow> ledger" where
  "run_fills fs s = fold (\<lambda>(f, m). lg_on_fill f m) fs s"

section \<open>Every dollar has a source\<close>

text \<open>
  What a fill that had no usable mid leaves out of the decomposition: its shares at the mark against
  what was paid for them.
\<close>

definition unexplained :: "int \<Rightarrow> ledger_fill list \<Rightarrow> int" where
  "unexplained two_mark fs =
     (\<Sum>f \<leftarrow> fs. if lf_mid_ok f then 0
                 else (if lf_side f = SBuy then 1 else -1) * (two_mark - 2 * lf_price f) * uint (lf_shares f))"

lemma half_price4 [simp]: "kMicrosPerPrice4 sdiv 2 = 50"
  by (simp add: kMicrosPerPrice4_def signed_divide_int_def)

definition sources_ok :: "ledger \<Rightarrow> bool" where
  "sources_ok s \<longleftrightarrow> (\<forall>two_mark.
     lg_cash s + 50 * two_mark * lg_position s =
       edge s + drift two_mark s - lg_fees_total s + 50 * unexplained two_mark (lg_fills s)) \<and>
   lg_fills_without_mid s = of_nat (length (filter (\<lambda>f. \<not> lf_mid_ok f) (lg_fills s)))"

lemma on_fill_sources: "sources_ok s \<Longrightarrow> sources_ok (lg_on_fill f m s)"
  by (cases "mid_ok m"; cases "sf_side f")
    (auto simp: sources_ok_def lg_on_fill_def Let_def edge_def drift_def drift_of_def unexplained_def notional_def
      kMicrosPerPrice4_def algebra_simps)

lemma run_fills_sources: "sources_ok s \<Longrightarrow> sources_ok (run_fills fs s)"
  unfolding run_fills_def by (induction fs arbitrary: s) (auto simp: on_fill_sources)

lemma new_sources: "sources_ok (ledger_new schedule)"
  by (simp add: sources_ok_def ledger_new_def edge_def drift_def drift_of_def unexplained_def)

lemma no_unexplained: "\<forall>f \<in> set fs. lf_mid_ok f \<Longrightarrow> unexplained t fs = 0"
  by (induction fs) (auto simp: unexplained_def)

lemma run_fills_mids:
  "\<forall>(f, m) \<in> set fs. mid_ok m \<Longrightarrow> \<forall>f \<in> set (lg_fills s). lf_mid_ok f \<Longrightarrow> \<forall>f \<in> set (lg_fills (run_fills fs s)). lf_mid_ok f"
proof (induction fs arbitrary: s)
  case (Cons x fs)
  obtain f m where x: "x = (f, m)" by (cases x)
  have "\<forall>g \<in> set (lg_fills (lg_on_fill f m s)). lf_mid_ok g"
    using Cons.prems by (auto simp: x lg_on_fill_def Let_def)
  with Cons.IH Cons.prems(1) show ?case by (simp add: x run_fills_def)
qed (simp add: run_fills_def)

lemma reconciles:
  assumes mids: "\<forall>(f, m) \<in> set fs. mid_ok m" and mark: "is_i32 (two_mark sdiv 2)"
    and s: "s = run_fills fs (ledger_new schedule)"
  shows "reconciliation_error two_mark s = 50 * lg_position s * (2 * (two_mark sdiv 2) - two_mark)"
proof -
  have "sources_ok s" unfolding s by (rule run_fills_sources [OF new_sources])
  moreover have "unexplained two_mark (lg_fills s) = 0"
    by (rule no_unexplained) (use run_fills_mids [OF mids, of "ledger_new schedule"] in \<open>simp add: s ledger_new_def\<close>)
  ultimately have "edge s + drift two_mark s - lg_fees_total s = lg_cash s + 50 * two_mark * lg_position s"
    by (simp add: sources_ok_def)
  moreover have "to_i32 (two_mark sdiv 2) = two_mark sdiv 2" using mark by (rule to_i32_id)
  ultimately show ?thesis
    by (simp add: reconciliation_error_def Let_def equity_def notional_def kMicrosPerPrice4_def algebra_simps)
qed

lemma restore_state: "lg_schedule s = lg_schedule t \<Longrightarrow> lg_restore (lg_state s) t = s"
  by (simp add: lg_restore_def lg_state_def)

end
