(* ===== verification/QueueOk.thy ===== *)
theory QueueOk
  imports QueueModel
begin

text \<open>
  What a message does to a queue model, entry by entry: no share of an order is filled twice or lost, and the
  shares in front of it only ever fall, but for the refresh of an iceberg.
\<close>

section \<open>One entry\<close>

definition tot :: "qentry \<Rightarrow> nat" where
  "tot e = unat (e_display e) + unat (e_hidden e)"

definition same_order :: "qentry \<Rightarrow> qentry \<Rightarrow> bool" where
  "same_order e e' \<longleftrightarrow> e_id e' = e_id e \<and> e_side e' = e_side e \<and> e_price e' = e_price e \<and>
     e_arrived_ns e' = e_arrived_ns e \<and> e_live e' = e_live e"

definition fill_sum :: "sim_fill list \<Rightarrow> nat" where
  "fill_sum fs = (\<Sum>f \<leftarrow> fs. unat (sf_shares f))"

definition entry_step :: "qentry \<Rightarrow> qentry \<Rightarrow> sim_fill list \<Rightarrow> bool" where
  "entry_step e e' new \<longleftrightarrow> same_order e e' \<and>
     (\<forall>f \<in> set new. sf_order_id f = e_id e \<and> sf_side f = e_side e \<and> sf_price f = e_price e) \<and>
     fill_sum new + tot e' = tot e \<and> (e_ahead e' \<le> e_ahead e \<or> e_refreshes e' = e_refreshes e + 1)"

definition steps_at :: "nat \<Rightarrow> queue_model \<times> sim_fill list \<Rightarrow> queue_model \<times> sim_fill list \<Rightarrow> bool" where
  "steps_at k sf sf' \<longleftrightarrow> (\<exists>e' new. qm_entries (fst sf') = (qm_entries (fst sf))[k := e'] \<and> snd sf' = snd sf @ new \<and>
     entry_step (qm_entries (fst sf) ! k) e' new \<and> qm_cfg (fst sf') = qm_cfg (fst sf) \<and>
     qm_tradable (fst sf') = qm_tradable (fst sf))"

lemma steps_atI:
  "qm_entries s' = (qm_entries s)[k := e'] \<Longrightarrow> fs' = fs @ new \<Longrightarrow> entry_step (qm_entries s ! k) e' new \<Longrightarrow>
   qm_cfg s' = qm_cfg s \<Longrightarrow> qm_tradable s' = qm_tradable s \<Longrightarrow> steps_at k (s, fs) (s', fs')"
  by (auto simp: steps_at_def)

lemma entry_step_refl: "entry_step e e []"
  by (simp add: entry_step_def same_order_def fill_sum_def)

lemma steps_at_refl: "steps_at k sf sf"
  unfolding steps_at_def by (intro exI [of _ "qm_entries (fst sf) ! k"] exI [of _ "[]"]) (simp add: entry_step_refl)

lemma upd_entry_simps [simp]:
  "qm_entries (upd_entry k f s) = (qm_entries s)[k := f (qm_entries s ! k)]"
  "qm_cfg (upd_entry k f s) = qm_cfg s" "qm_tradable (upd_entry k f s) = qm_tradable s"
  "qm_ahead_sets (upd_entry k f s) = qm_ahead_sets s"
  by (simp_all add: upd_entry_def)

lemma refresh_entry:
  assumes k: "k < length (qm_entries s)" and d: "e_display (qm_entries s ! k) = 0"
  shows "\<exists>e'. qm_entries (qm_refresh k post s) = (qm_entries s)[k := e'] \<and> same_order (qm_entries s ! k) e' \<and>
      tot e' = tot (qm_entries s ! k) \<and> e_refreshes e' = e_refreshes (qm_entries s ! k) + 1"
    "qm_cfg (qm_refresh k post s) = qm_cfg s" "qm_tradable (qm_refresh k post s) = qm_tradable s"
    "qm_ahead_sets (qm_refresh k post s) = qm_ahead_sets s"
proof -
  let ?e = "qm_entries s ! k"
  have le: "unat (min (e_hidden ?e) (e_slice_size ?e)) \<le> unat (e_hidden ?e)" by (simp add: min_def word_le_nat_alt)
  then have "unat (e_hidden ?e - min (e_hidden ?e) (e_slice_size ?e)) = unat (e_hidden ?e) - unat (min (e_hidden ?e) (e_slice_size ?e))"
    by (simp add: unat_sub word_le_nat_alt)
  moreover define a where "a = e_ahead (qm_entries (qm_refresh k post s) ! k)"
  moreover have "qm_entries (qm_refresh k post s) = (qm_entries s)[k := ?e\<lparr>
      e_hidden := e_hidden ?e - min (e_hidden ?e) (e_slice_size ?e), e_display := min (e_hidden ?e) (e_slice_size ?e),
      e_refreshes := e_refreshes ?e + 1, e_ahead := a \<rparr>]"
    using k by (simp add: a_def qm_refresh_def Let_def)
  ultimately show "\<exists>e'. qm_entries (qm_refresh k post s) = (qm_entries s)[k := e'] \<and> same_order (qm_entries s ! k) e' \<and>
      tot e' = tot (qm_entries s ! k) \<and> e_refreshes e' = e_refreshes (qm_entries s ! k) + 1"
    using le d by (auto simp: same_order_def tot_def)
  show "qm_cfg (qm_refresh k post s) = qm_cfg s" "qm_tradable (qm_refresh k post s) = qm_tradable s"
    "qm_ahead_sets (qm_refresh k post s) = qm_ahead_sets s"
    by (simp_all add: qm_refresh_def Let_def)
qed

lemma word_sub_min: "e - min a e \<le> (e :: 'a::len word)"
proof -
  have "min a e \<le> e" by simp
  then show ?thesis by (metis word_sub_le)
qed

text \<open>The rule of a trade, with its result written out.\<close>

definition after_trade :: "u64 \<Rightarrow> qentry \<Rightarrow> qentry" where
  "after_trade removed e = e\<lparr> e_ahead := e_ahead e - min removed (e_ahead e) \<rparr>"

definition trade_fill :: "u64 \<Rightarrow> qentry \<Rightarrow> u32" where
  "trade_fill removed e = ucast (min (removed - min removed (e_ahead e)) (ucast (e_display e) :: u64))"

lemma unat_trade_fill:
  "unat (trade_fill removed e) = min (unat removed - unat (e_ahead e)) (unat (e_display e))"
proof -
  have "unat (removed - min removed (e_ahead e)) = unat removed - unat (e_ahead e)"
    by (cases "removed \<le> e_ahead e") (simp_all add: min_def unat_sub word_le_nat_alt)
  then have m: "unat (min (removed - min removed (e_ahead e)) (ucast (e_display e) :: u64)) =
      min (unat removed - unat (e_ahead e)) (unat (e_display e))"
    by (simp add: min_def word_le_nat_alt)
  have "min (unat removed - unat (e_ahead e)) (unat (e_display e)) < 2 ^ 32"
  proof -
    have "unat (e_display e) < 2 ^ 32" using unsigned_less [of "e_display e"] by simp
    then show ?thesis by (simp add: min_less_iff_disj)
  qed
  then show ?thesis unfolding trade_fill_def unsigned_ucast_eq m by (simp add: take_bit_nat_eq_self)
qed

lemma trade_class_cases:
  assumes k: "k < length (qm_entries s)"
  defines "e \<equiv> qm_entries s ! k"
  shows "trade_fill removed e = 0 \<Longrightarrow> trade_class k removed ts trig post (s, fs) = (upd_entry k (after_trade removed) s, fs)"
    "trade_fill removed e \<noteq> 0 \<Longrightarrow> trade_class k removed ts trig post (s, fs) =
       (let s = upd_entry k (\<lambda>e. e\<lparr> e_display := e_display e - trade_fill removed e, e_ahead := 0 \<rparr>) s;
            fs = fs @ [\<lparr> sf_order_id = e_id e, sf_side = e_side e, sf_price = e_price e, sf_shares = trade_fill removed e,
                  sf_ts = ts, sf_trigger = trig, sf_liquidity = Added, sf_ahead_at_arrival = e_ahead0 e \<rparr>]
        in if e_display e = trade_fill removed e \<and> e_hidden e > 0 then (qm_refresh k post s, fs) else (s, fs))"
proof -
  have z: "removed - min removed (e_ahead e) = 0 \<Longrightarrow> trade_fill removed e = 0"
    by (simp add: trade_fill_def min_def)
  show "trade_fill removed e = 0 \<Longrightarrow> trade_class k removed ts trig post (s, fs) = (upd_entry k (after_trade removed) s, fs)"
    using k by (simp add: trade_class_def Let_def e_def trade_fill_def upd_entry_def after_trade_def)
  assume f: "trade_fill removed e \<noteq> 0"
  then have "removed - min removed (e_ahead e) \<noteq> 0" using z by blast
  then show "trade_class k removed ts trig post (s, fs) =
       (let s = upd_entry k (\<lambda>e. e\<lparr> e_display := e_display e - trade_fill removed e, e_ahead := 0 \<rparr>) s;
            fs = fs @ [\<lparr> sf_order_id = e_id e, sf_side = e_side e, sf_price = e_price e, sf_shares = trade_fill removed e,
                  sf_ts = ts, sf_trigger = trig, sf_liquidity = Added, sf_ahead_at_arrival = e_ahead0 e \<rparr>]
        in if e_display e = trade_fill removed e \<and> e_hidden e > 0 then (qm_refresh k post s, fs) else (s, fs))"
    using k f by (simp add: trade_class_def Let_def e_def trade_fill_def upd_entry_def)
qed

lemma fill_step:
  assumes k: "k < length (qm_entries s)" and n: "unat n \<le> unat (e_display (qm_entries s ! k))"
    and s1: "qm_entries s1 = (qm_entries s)[k := (qm_entries s ! k)\<lparr> e_display := e_display (qm_entries s ! k) - n, e_ahead := a \<rparr>]"
      "qm_cfg s1 = qm_cfg s" "qm_tradable s1 = qm_tradable s" and a: "a \<le> e_ahead (qm_entries s ! k)"
    and f: "sf_order_id f = e_id (qm_entries s ! k)" "sf_side f = e_side (qm_entries s ! k)"
      "sf_price f = e_price (qm_entries s ! k)" "sf_shares f = n"
  shows "steps_at k (s, fs) (if e_display (qm_entries s ! k) = n \<and> b then (qm_refresh k post s1, fs @ [f]) else (s1, fs @ [f]))"
proof -
  let ?e = "qm_entries s ! k" and ?e1 = "(qm_entries s ! k)\<lparr> e_display := e_display (qm_entries s ! k) - n, e_ahead := a \<rparr>"
  have t: "unat n + tot ?e1 = tot ?e" using n by (simp add: tot_def unat_sub word_le_nat_alt)
  have e1: "qm_entries s1 ! k = ?e1" "k < length (qm_entries s1)" using k by (simp_all add: s1)
  show ?thesis
  proof (cases "e_display ?e = n \<and> b")
    case True
    then have "e_display (qm_entries s1 ! k) = 0" by (simp add: e1)
    from refresh_entry [OF e1(2) this, of post] obtain e' where e':
      "qm_entries (qm_refresh k post s1) = (qm_entries s1)[k := e']" "same_order ?e1 e'" "tot e' = tot ?e1"
      "e_refreshes e' = e_refreshes ?e1 + 1" "qm_cfg (qm_refresh k post s1) = qm_cfg s1"
      "qm_tradable (qm_refresh k post s1) = qm_tradable s1" by (auto simp: e1(1))
    have "entry_step ?e e' [f]"
      using e'(2-4) t f by (simp add: entry_step_def same_order_def fill_sum_def)
    then show ?thesis unfolding if_P [OF True] using e' s1 by (intro steps_atI [where new = "[f]"]) simp_all
  next
    case False
    have "entry_step ?e ?e1 [f]" using t f a by (simp add: entry_step_def same_order_def fill_sum_def)
    then show ?thesis unfolding if_not_P [OF False] using s1 by (intro steps_atI [where new = "[f]"]) simp_all
  qed
qed

lemma trade_step:
  assumes k: "k < length (qm_entries s)"
  shows "steps_at k (s, fs) (trade_class k removed ts trig post (s, fs))"
proof (cases "trade_fill removed (qm_entries s ! k) = 0")
  case True
  have "entry_step (qm_entries s ! k) (after_trade removed (qm_entries s ! k)) []"
    by (simp add: entry_step_def same_order_def fill_sum_def after_trade_def tot_def word_sub_min)
  then show ?thesis unfolding trade_class_cases(1) [OF k True] by (intro steps_atI [where new = "[]"]) simp_all
next
  case False
  show ?thesis unfolding trade_class_cases(2) [OF k False] Let_def
    by (rule fill_step [OF k, where a = 0]) (simp_all add: unat_trade_fill)
qed

section \<open>A commit and the other side, entry by entry\<close>

lemma cancel_step: "steps_at k (s, fs) (cancel_class k removed b s, fs)"
proof (cases b)
  case True
  have "entry_step (qm_entries s ! k) ((qm_entries s ! k)\<lparr> e_ahead := e_ahead (qm_entries s ! k) - min removed (e_ahead (qm_entries s ! k)) \<rparr>) []"
    by (simp add: entry_step_def same_order_def fill_sum_def tot_def word_sub_min)
  then show ?thesis unfolding cancel_class_def using True by (intro steps_atI [where new = "[]"]) simp_all
qed (simp add: cancel_class_def steps_at_refl)

lemma steps_at_cong:
  "steps_at k sf (s, fs) \<Longrightarrow> qm_entries s' = qm_entries s \<Longrightarrow> qm_cfg s' = qm_cfg s \<Longrightarrow> qm_tradable s' = qm_tradable s \<Longrightarrow>
   steps_at k sf (s', fs)"
  by (simp add: steps_at_def)

lemma note_keeps [simp]:
  "qm_entries (note_trade_for_mbo k r s) = qm_entries s" "qm_cfg (note_trade_for_mbo k r s) = qm_cfg s"
  "qm_tradable (note_trade_for_mbo k r s) = qm_tradable s"
  by (auto simp: note_trade_for_mbo_def Let_def split: option.splits)

lemma queued_step:
  assumes k: "k < length (qm_entries s)"
  shows "steps_at k (s, fs) (queued_commit k r post (s, fs))"
proof -
  obtain s' fs' where t: "trade_class k (ucast (rv_shares r)) (rv_ts r) Execution post (s, fs) = (s', fs')"
    by (cases "trade_class k (ucast (rv_shares r)) (rv_ts r) Execution post (s, fs)")
  have e: "steps_at k (s, fs) (s', fs')" using trade_step [OF k, of fs _ _ Execution post] t by metis
  have "steps_at k (s, fs) (if qc_model (qm_cfg s') = MMbo then note_trade_for_mbo k r s' else s', fs')"
    using steps_at_cong [OF e, of "note_trade_for_mbo k r s'"] e by simp
  then show ?thesis
    unfolding queued_commit_def Let_def prod.case t
    by (auto simp: steps_at_refl trade_step [OF k] cancel_step simp del: prod.case)
qed

lemma naive_step:
  assumes k: "k < length (qm_entries s)"
  shows "steps_at k (s, fs) (naive_commit k r post (s, fs))"
proof -
  let ?e = "qm_entries s ! k"
  define n where "n = min (rv_shares r) (e_display ?e)"
  define s0 where "s0 = upd_entry k (\<lambda>e. e\<lparr> e_display := e_display e - n \<rparr>) s"
  define s1 where "s1 = (if rv_type r = ch CHR ''P''
     then s0\<lparr> qm_naive_hidden_fills := qm_naive_hidden_fills s0 + 1, qm_naive_hidden_shares := qm_naive_hidden_shares s0 + ucast n \<rparr>
     else s0)"
  define f where "f = \<lparr> sf_order_id = e_id ?e, sf_side = e_side ?e, sf_price = e_price ?e, sf_shares = n,
     sf_ts = rv_ts r, sf_trigger = Naive, sf_liquidity = Added, sf_ahead_at_arrival = 0 \<rparr>"
  have s1: "qm_entries s1 = (qm_entries s)[k := ?e\<lparr> e_display := e_display ?e - n, e_ahead := e_ahead ?e \<rparr>]"
    "qm_cfg s1 = qm_cfg s" "qm_tradable s1 = qm_tradable s" by (simp_all add: s1_def s0_def)
  have n: "unat n \<le> unat (e_display ?e)" by (simp add: n_def min_def word_le_nat_alt)
  have z: "e_display (qm_entries s1 ! k) = 0 \<longleftrightarrow> e_display ?e = n" "e_hidden (qm_entries s1 ! k) = e_hidden ?e"
    using k by (simp_all add: s1)
  have v: "naive_commit k r post (s, fs) =
    (if rv_cls r \<noteq> CTrade \<or> \<not> rv_printable r \<or> rv_type r = ch CHR ''Q'' \<or>
        rv_type r = ch CHR ''P'' \<and> \<not> qc_naive_fills_hidden (qm_cfg s) \<or>
        \<not> at_or_through (e_side ?e) (e_price ?e) (rv_print_price r) \<or> n = 0 then (s, fs)
     else if e_display ?e = n \<and> e_hidden ?e > 0 then (qm_refresh k post s1, fs @ [f]) else (s1, fs @ [f]))"
    unfolding naive_commit_def Let_def prod.case n_def [symmetric] s0_def [symmetric] s1_def [symmetric] f_def [symmetric] z
    by simp
  have "steps_at k (s, fs) (if e_display ?e = n \<and> e_hidden ?e > 0 then (qm_refresh k post s1, fs @ [f]) else (s1, fs @ [f]))"
    by (rule fill_step [OF k n s1]) (simp_all add: f_def)
  then show ?thesis unfolding v by (simp add: steps_at_refl)
qed

lemma commit_one_step: "k < length (qm_entries (fst sf)) \<Longrightarrow> steps_at k sf (commit_one r post k sf)"
  by (cases sf) (simp add: commit_one_def steps_at_refl naive_step queued_step)

lemma halted_step: "steps_at k (s, fs) (halted_one r k s, fs)"
  by (simp add: halted_one_def halted_commit_def Let_def steps_at_refl cancel_step)

lemma priority_step: "k < length (qm_entries (fst sf)) \<Longrightarrow> steps_at k sf (priority_one post ts k sf)"
  by (cases sf) (simp add: priority_one_def Let_def steps_at_refl trade_step split: option.split)

section \<open>All entries\<close>

definition rem_of :: "u64 \<Rightarrow> qentry list \<Rightarrow> nat" where
  "rem_of i es = (\<Sum>e \<leftarrow> es. if e_id e = i then tot e else 0)"

definition filled_of :: "u64 \<Rightarrow> sim_fill list \<Rightarrow> nat" where
  "filled_of i fs = (\<Sum>f \<leftarrow> fs. if sf_order_id f = i then unat (sf_shares f) else 0)"

lemma filled_append [simp]: "filled_of i (fs @ gs) = filled_of i fs + filled_of i gs"
  by (simp add: filled_of_def)

lemma filled_all: "\<forall>f \<in> set fs. sf_order_id f = j \<Longrightarrow> filled_of i fs = (if j = i then fill_sum fs else 0)"
  by (induction fs) (auto simp: filled_of_def fill_sum_def)

lemma rem_update:
  "k < length es \<Longrightarrow> e_id e' = e_id (es ! k) \<Longrightarrow> tot e' \<le> tot (es ! k) \<Longrightarrow>
   rem_of i (es[k := e']) + (if e_id (es ! k) = i then tot (es ! k) - tot e' else 0) = rem_of i es"
proof (induction es arbitrary: k)
  case (Cons e es)
  show ?case
  proof (cases k)
    case (Suc j)
    then show ?thesis using Cons.IH [of j] Cons.prems unfolding rem_of_def by (auto split: if_splits)
  qed (use Cons.prems in \<open>auto simp: rem_of_def\<close>)
qed simp

text \<open>After the entries below \<open>n\<close> were stepped, each at most once.\<close>

definition stepped :: "nat \<Rightarrow> queue_model \<times> sim_fill list \<Rightarrow> queue_model \<times> sim_fill list \<Rightarrow> bool" where
  "stepped n sf sf' \<longleftrightarrow> length (qm_entries (fst sf')) = length (qm_entries (fst sf)) \<and>
     qm_cfg (fst sf') = qm_cfg (fst sf) \<and> qm_tradable (fst sf') = qm_tradable (fst sf) \<and>
     (\<forall>k < length (qm_entries (fst sf)). if k < n then \<exists>new. entry_step (qm_entries (fst sf) ! k) (qm_entries (fst sf') ! k) new
        else qm_entries (fst sf') ! k = qm_entries (fst sf) ! k) \<and>
     (\<forall>i. rem_of i (qm_entries (fst sf')) + filled_of i (snd sf') = rem_of i (qm_entries (fst sf)) + filled_of i (snd sf))"

lemma stepped_next:
  assumes st: "stepped n sf sf'" and k: "n < length (qm_entries (fst sf))" and s: "steps_at n sf' sf''"
  shows "stepped (Suc n) sf sf''"
proof -
  let ?es = "qm_entries (fst sf)" and ?es' = "qm_entries (fst sf')"
  obtain e' new where e: "qm_entries (fst sf'') = ?es'[n := e']" "snd sf'' = snd sf' @ new" "entry_step (?es' ! n) e' new"
    "qm_cfg (fst sf'') = qm_cfg (fst sf')" "qm_tradable (fst sf'') = qm_tradable (fst sf')"
    using s by (auto simp: steps_at_def)
  have len: "length ?es' = length ?es" and at: "?es' ! n = ?es ! n" using st k by (auto simp: stepped_def)
  have id: "e_id e' = e_id (?es' ! n)" "fill_sum new + tot e' = tot (?es' ! n)"
    "\<forall>f \<in> set new. sf_order_id f = e_id (?es' ! n)" using e(3) by (auto simp: entry_step_def same_order_def)
  have a: "rem_of i (?es'[n := e']) + (if e_id (?es' ! n) = i then tot (?es' ! n) - tot e' else 0) = rem_of i ?es'" for i
    by (rule rem_update) (use k len id in simp_all)
  have b: "filled_of i new = (if e_id (?es' ! n) = i then tot (?es' ! n) - tot e' else 0)" for i
    using filled_all [OF id(3), of i] id(2) by auto
  have c: "rem_of i ?es' + filled_of i (snd sf') = rem_of i ?es + filled_of i (snd sf)" for i
    using st by (simp add: stepped_def)
  have "rem_of i (?es'[n := e']) + filled_of i (snd sf' @ new) = rem_of i ?es + filled_of i (snd sf)" for i
    unfolding filled_append b using a [of i] c [of i] by linarith
  then show ?thesis using st e len at k unfolding stepped_def by (auto simp: nth_list_update less_Suc_eq)
qed

lemma stepped_0: "stepped 0 sf sf"
  by (simp add: stepped_def)

lemma fold_stepped:
  assumes f: "\<And>k sf'. k < length (qm_entries (fst sf')) \<Longrightarrow> steps_at k sf' (f k sf')"
  shows "n \<le> length (qm_entries (fst sf)) \<Longrightarrow> stepped n sf (fold f [0..<n] sf)"
proof (induction n)
  case (Suc n)
  then have st: "stepped n sf (fold f [0..<n] sf)" by simp
  then have "n < length (qm_entries (fst (fold f [0..<n] sf)))" using Suc.prems by (simp add: stepped_def)
  from stepped_next [OF st _ f [OF this]] Suc.prems show ?case by simp
qed (simp add: stepped_0)

lemma fold_left: "fold (\<lambda>k (s, fs). (g k s, fs)) xs (s, fs) = (fold g xs s, fs)"
  by (induction xs arbitrary: s) simp_all

text \<open>The clamp only lowers what is ahead; the reaper only lets go of entries with nothing left.\<close>

definition lowered :: "qentry \<Rightarrow> qentry \<Rightarrow> bool" where
  "lowered e e' \<longleftrightarrow> e_ahead e' \<le> e_ahead e \<and> same_order e e' \<and> e_display e' = e_display e \<and> e_hidden e' = e_hidden e \<and>
     e_refreshes e' = e_refreshes e"

definition clamped :: "qentry list \<Rightarrow> qentry list \<Rightarrow> bool" where
  "clamped = list_all2 lowered"

lemma lowered_refl: "lowered e e"
  by (simp add: lowered_def same_order_def)

lemma lowered_trans: "lowered e e' \<Longrightarrow> lowered e' e'' \<Longrightarrow> lowered e e''"
  by (auto simp: lowered_def same_order_def)

lemma clamped_refl: "clamped es es"
  by (simp add: clamped_def list.rel_refl lowered_refl)

lemma clamped_trans: "clamped es es' \<Longrightarrow> clamped es' es'' \<Longrightarrow> clamped es es''"
  unfolding clamped_def by (rule list_all2_trans [OF lowered_trans])

lemma clamped_update: "a \<le> e_ahead (es ! k) \<Longrightarrow> clamped es (es[k := (es ! k)\<lparr> e_ahead := a \<rparr>])"
  unfolding clamped_def list_all2_conv_all_nth
  by (cases "k < length es") (auto simp: nth_list_update lowered_refl, simp add: lowered_def same_order_def)

lemma clamp_one_clamped: "clamped (qm_entries s) (qm_entries (clamp_one post k s)) \<and>
    qm_cfg (clamp_one post k s) = qm_cfg s \<and> qm_tradable (clamp_one post k s) = qm_tradable s"
  by (auto simp: clamp_one_def Let_def clamped_refl upd_entry_def intro!: clamped_update)

lemma clamp_fold: "clamped (qm_entries s) (qm_entries (fold (clamp_one post) ks s)) \<and>
    qm_cfg (fold (clamp_one post) ks s) = qm_cfg s \<and> qm_tradable (fold (clamp_one post) ks s) = qm_tradable s"
proof (induction ks arbitrary: s)
  case (Cons k ks)
  note c = clamp_one_clamped [of s post k]
  from Cons.IH [of "clamp_one post k s"] c clamped_trans [OF conjunct1 [OF c]] show ?case by simp
qed (simp add: clamped_refl)

lemma clamped_rem: "clamped es es' \<Longrightarrow> rem_of i es' = rem_of i es"
  unfolding clamped_def
  by (induction rule: list_all2_induct) (simp_all add: rem_of_def tot_def lowered_def same_order_def)

definition qm_ok :: "queue_model \<Rightarrow> bool" where
  "qm_ok s \<longleftrightarrow> (\<forall>e \<in> set (qm_entries s). e_live e \<or> tot e = 0)"

lemma retire_simps [simp]: "tot (retire e) = tot e" "e_id (retire e) = e_id e"
  "e_ahead (retire e) = e_ahead e" "e_refreshes (retire e) = e_refreshes e" "e_side (retire e) = e_side e"
  "e_price (retire e) = e_price e" "e_arrived_ns (retire e) = e_arrived_ns e"   "e_live (retire e) \<longleftrightarrow> e_live e \<and> tot e \<noteq> 0"
  by (auto simp: retire_def tot_def unat_eq_zero)

lemma reap_rem: "\<forall>e \<in> set es. e_live e \<or> tot e = 0 \<Longrightarrow> rem_of i (filter e_live (map retire es)) = rem_of i es"
  by (induction es) (auto simp: rem_of_def)

lemma reap_ok:
  assumes "qm_ok s"
  shows "qm_ok (reap s)" "rem_of i (qm_entries (reap s)) = rem_of i (qm_entries s)" "qm_cfg (reap s) = qm_cfg s"
    "qm_tradable (reap s) = qm_tradable s" "set (qm_entries (reap s)) \<subseteq> retire ` set (qm_entries s)"
  using assms reap_rem [of "qm_entries s" i] by (auto simp: qm_ok_def reap_def Let_def)

section \<open>A message as a whole\<close>

definition descends :: "qentry list \<Rightarrow> qentry list \<Rightarrow> bool" where
  "descends es es' \<longleftrightarrow> (\<forall>e' \<in> set es'. \<exists>e \<in> set es. e_id e' = e_id e \<and> e_side e' = e_side e \<and> e_price e' = e_price e \<and>
     e_live e \<and> e_live e' \<and> (e_ahead e' \<le> e_ahead e \<or> e_refreshes e' = e_refreshes e + 1))"

lemma stepped_at:
  assumes "stepped (length (qm_entries s)) (s, fs) (s', fs')"
  shows "length (qm_entries s') = length (qm_entries s)"
    "k < length (qm_entries s) \<Longrightarrow> \<exists>new. entry_step (qm_entries s ! k) (qm_entries s' ! k) new"
    "qm_cfg s' = qm_cfg s" "qm_tradable s' = qm_tradable s"
    "rem_of i (qm_entries s') + filled_of i fs' = rem_of i (qm_entries s) + filled_of i fs"
  using assms unfolding stepped_def by simp_all

lemma stepped_ok:
  assumes st: "stepped (length (qm_entries s)) (s, fs) (s', fs')" and ok: "qm_ok s"
  shows "qm_ok s'"
proof -
  have "e_live e' \<or> tot e' = 0" if m: "e' \<in> set (qm_entries s')" for e'
  proof -
    obtain k where k: "k < length (qm_entries s')" "e' = qm_entries s' ! k" using m by (metis in_set_conv_nth)
    then obtain new where "entry_step (qm_entries s ! k) e' new" using stepped_at [OF st] by auto
    moreover have "e_live (qm_entries s ! k) \<or> tot (qm_entries s ! k) = 0"
      using ok k stepped_at(1) [OF st] by (simp add: qm_ok_def)
    ultimately show ?thesis by (auto simp: entry_step_def same_order_def)
  qed
  then show ?thesis by (simp add: qm_ok_def)
qed

lemma clamped_ok: "clamped (qm_entries s) (qm_entries s') \<Longrightarrow> qm_ok s \<Longrightarrow> qm_ok s'"
proof -
  assume c: "clamped (qm_entries s) (qm_entries s')" and ok: "qm_ok s"
  have "e_live e' \<or> tot e' = 0" if m: "e' \<in> set (qm_entries s')" for e'
  proof -
    obtain k where k: "k < length (qm_entries s')" "e' = qm_entries s' ! k" using m by (metis in_set_conv_nth)
    then have "lowered (qm_entries s ! k) e'" "k < length (qm_entries s)" using c by (auto simp: clamped_def list_all2_conv_all_nth)
    then show ?thesis using ok nth_mem [of k "qm_entries s"] by (auto simp: qm_ok_def tot_def lowered_def same_order_def)
  qed
  then show ?thesis by (simp add: qm_ok_def)
qed

lemma queue_finish_ok:
  assumes st: "stepped (length (qm_entries s)) (s, fs) (s1, fs')" and c: "clamped (qm_entries s1) (qm_entries s2)"
    and ok: "qm_ok s"
  shows "qm_ok (reap s2)" "rem_of i (qm_entries (reap s2)) + filled_of i fs' = rem_of i (qm_entries s) + filled_of i fs"
    "descends (qm_entries s) (qm_entries (reap s2))"
proof -
  have ok1: "qm_ok s1" by (rule stepped_ok [OF st ok])
  have ok2: "qm_ok s2" by (rule clamped_ok [OF c ok1])
  show "qm_ok (reap s2)" by (rule reap_ok(1) [OF ok2])
  show "rem_of i (qm_entries (reap s2)) + filled_of i fs' = rem_of i (qm_entries s) + filled_of i fs"
    using stepped_at(5) [OF st, of i] reap_ok(2) [OF ok2, of i] clamped_rem [OF c, of i] by simp
  have "\<exists>e \<in> set (qm_entries s). e_id e' = e_id e \<and> e_side e' = e_side e \<and> e_price e' = e_price e \<and>
     e_live e \<and> e_live e' \<and> (e_ahead e' \<le> e_ahead e \<or> e_refreshes e' = e_refreshes e + 1)"
    if m: "e' \<in> set (qm_entries (reap s2))" for e'
  proof -
    have live: "e_live e'" using m by (simp add: reap_def Let_def)
    obtain e2 where e2: "e2 \<in> set (qm_entries s2)" "e' = retire e2" using m reap_ok(5) [OF ok2] by blast
    then obtain k where k: "k < length (qm_entries s2)" "e2 = qm_entries s2 ! k" by (metis in_set_conv_nth)
    with c have a: "lowered (qm_entries s1 ! k) e2" "k < length (qm_entries s1)"
      by (auto simp: clamped_def list_all2_conv_all_nth)
    then obtain new where n: "entry_step (qm_entries s ! k) (qm_entries s1 ! k) new" "k < length (qm_entries s)"
      using stepped_at [OF st] by auto
    have "e_live e2" using live e2(2) by simp
    then show ?thesis
      using n a e2(2) live by (intro bexI [of _ "qm_entries s ! k"]) (auto simp: entry_step_def same_order_def lowered_def)
  qed
  then show "descends (qm_entries s) (qm_entries (reap s2))" by (simp add: descends_def)
qed

lemma clamp_if: "clamped (qm_entries s) (qm_entries (if b then clamp_all post s else s)) \<and>
    qm_cfg (if b then clamp_all post s else s) = qm_cfg s \<and> qm_tradable (if b then clamp_all post s else s) = qm_tradable s"
  using clamp_fold [of s post "[0..<length (qm_entries s)]"] by (simp add: clamp_all_def clamped_refl)

lemma finish_all:
  assumes st: "stepped (length (qm_entries s)) (s, fs) (s1, fs1)" and ok: "qm_ok s"
    and s': "s' = reap (if b then clamp_all post s1 else s1)"
  shows "qm_ok s' \<and> rem_of i (qm_entries s') + filled_of i fs1 = rem_of i (qm_entries s) + filled_of i fs \<and>
    descends (qm_entries s) (qm_entries s') \<and> qm_cfg s' = qm_cfg s \<and> qm_tradable s' = qm_tradable s"
proof -
  note c = clamp_if [of s1 b post]
  have "qm_ok (if b then clamp_all post s1 else s1)" by (rule clamped_ok [OF conjunct1 [OF c] stepped_ok [OF st ok]])
  from reap_ok(3,4) [OF this] queue_finish_ok [OF st conjunct1 [OF c] ok] c stepped_at(3,4) [OF st] show ?thesis
    unfolding s' by simp
qed

lemma commit_ok:
  assumes ok: "qm_ok s" and c: "qm_commit r post (s, fs) = (s', fs')"
  shows "qm_ok s' \<and> rem_of i (qm_entries s') + filled_of i fs' = rem_of i (qm_entries s) + filled_of i fs \<and>
    descends (qm_entries s) (qm_entries s') \<and> qm_cfg s' = qm_cfg s \<and> qm_tradable s' = qm_tradable s"
proof (cases "qm_tradable s")
  case False
  define s1 where "s1 = fold (halted_one r) [0..<length (qm_entries s)] s"
  have st: "stepped (length (qm_entries s)) (s, fs) (s1, fs)"
    unfolding s1_def fold_left [symmetric]
    by (rule fold_stepped [where sf = "(s, fs)"]) (auto intro: halted_step)
  have "qm_commit r post (s, fs) = (reap (if qc_clamp (qm_cfg s1) then clamp_all post s1 else s1), fs)"
    using False by (simp only: qm_commit_def Let_def prod.case s1_def if_True if_False not_False_eq_True)
  with c have "s' = reap (if qc_clamp (qm_cfg s1) then clamp_all post s1 else s1)" "fs' = fs" by simp_all
  from finish_all [OF st ok this(1)] this(2) show ?thesis by simp
next
  case True
  obtain s1 fs1 where f: "fold (commit_one r post) [0..<length (qm_entries s)] (s, fs) = (s1, fs1)"
    by (cases "fold (commit_one r post) [0..<length (qm_entries s)] (s, fs)")
  have st: "stepped (length (qm_entries s)) (s, fs) (s1, fs1)"
    unfolding f [symmetric] by (rule fold_stepped [where sf = "(s, fs)"]) (simp_all add: commit_one_step)
  have "qm_commit r post (s, fs) = (reap (if qc_clamp (qm_cfg s1) then clamp_all post s1 else s1), fs1)"
    using True by (simp only: qm_commit_def Let_def prod.case f if_True if_False not_True_eq_False)
  with c have "s' = reap (if qc_clamp (qm_cfg s1) then clamp_all post s1 else s1)" "fs' = fs1" by simp_all
  from finish_all [OF st ok this(1)] this(2) show ?thesis by simp
qed

lemma priority_ok:
  assumes ok: "qm_ok s" and c: "apply_price_priority post ts (s, fs) = (s', fs')"
  shows "qm_ok s' \<and> rem_of i (qm_entries s') + filled_of i fs' = rem_of i (qm_entries s) + filled_of i fs \<and>
    qm_cfg s' = qm_cfg s \<and> qm_tradable s' = qm_tradable s"
proof (cases "qm_tradable s")
  case False
  with c ok show ?thesis by (simp add: apply_price_priority_def)
next
  case True
  obtain s1 fs1 where f: "fold (priority_one post ts) [0..<length (qm_entries s)] (s, fs) = (s1, fs1)"
    by (cases "fold (priority_one post ts) [0..<length (qm_entries s)] (s, fs)")
  have st: "stepped (length (qm_entries s)) (s, fs) (s1, fs1)"
    unfolding f [symmetric] by (rule fold_stepped [where sf = "(s, fs)"]) (simp_all add: priority_step)
  have "s' = reap (if False then clamp_all post s1 else s1)" "fs' = fs1"
    using c True by (simp_all add: apply_price_priority_def Let_def f)
  from finish_all [OF st ok this(1)] this(2) show ?thesis by simp
qed

end
