(* ===== verification/QueueBracket.thy ===== *)
theory QueueBracket
  imports QueueOk
begin

text \<open>
  The bounds contain the truth: over the same messages the optimistic model is never behind the \<open>mbo\<close> model
  and that one never behind the pessimistic one. The three differ in one answer only, whether a cancel was
  in front; everything else they do to an order is monotone in what is ahead of it and what is left of it.
\<close>

section \<open>Runs\<close>

datatype queue_event = QMessage resolved book | QOtherSide book u64 | QState u8

fun qm_step :: "queue_event \<Rightarrow> queue_model \<times> sim_fill list \<Rightarrow> queue_model \<times> sim_fill list" where
  "qm_step (QMessage r post) sf = qm_commit r post sf"
| "qm_step (QOtherSide post ts) sf = apply_price_priority post ts sf"
| "qm_step (QState c) (s, fs) = (qm_set_trading_state c s, fs)"

lemma qm_step_ok:
  assumes ok: "qm_ok s" and st: "qm_step e (s, fs) = (s', fs')"
  shows "qm_ok s'" "rem_of i (qm_entries s') + filled_of i fs' = rem_of i (qm_entries s) + filled_of i fs" "qm_cfg s' = qm_cfg s"
proof -
  have "qm_ok s' \<and> rem_of i (qm_entries s') + filled_of i fs' = rem_of i (qm_entries s) + filled_of i fs \<and> qm_cfg s' = qm_cfg s"
  proof (cases e)
    case (QMessage r post)
    then show ?thesis using commit_ok [OF ok, of r post fs s' fs' i] st by simp
  next
    case (QOtherSide post ts)
    then show ?thesis using priority_ok [OF ok, of post ts fs s' fs' i] st by simp
  next
    case (QState c)
    then show ?thesis using ok st by (auto simp: qm_set_trading_state_def qm_ok_def)
  qed
  then show "qm_ok s'" "rem_of i (qm_entries s') + filled_of i fs' = rem_of i (qm_entries s) + filled_of i fs" "qm_cfg s' = qm_cfg s"
    by blast+
qed

lemma qm_run_ok:
  "qm_ok s \<Longrightarrow> fold qm_step es (s, fs) = (s', fs') \<Longrightarrow>
   qm_ok s' \<and> rem_of i (qm_entries s') + filled_of i fs' = rem_of i (qm_entries s) + filled_of i fs"
proof (induction es arbitrary: s fs)
  case (Cons e es)
  obtain s1 fs1 where e: "qm_step e (s, fs) = (s1, fs1)" by (cases "qm_step e (s, fs)")
  note st = qm_step_ok [OF Cons.prems(1) e]
  from Cons.IH [OF st(1), of fs1] Cons.prems(2) st(2) [of i] e show ?case by simp
qed simp

lemma new_queue_ok [simp]: "qm_ok (qm_new cfg)" "qm_entries (qm_new cfg) = []" "qm_cfg (qm_new cfg) = cfg"
  by (simp_all add: qm_ok_def qm_new_def)

lemma place_keeps [simp]: "qm_cfg (qm_place sb i side price q d t s) = qm_cfg s"
  "qm_tradable (qm_place sb i side price q d t s) = qm_tradable s"
  by (simp_all add: qm_place_def Let_def)

lemma place_ok: "qm_ok s \<Longrightarrow> qm_ok (qm_place sb i side price q d t s)"
  by (simp add: qm_ok_def qm_place_def Let_def)

lemma place_rem: "rem_of j (qm_entries (qm_place sb i side price q d t s)) =
    rem_of j (qm_entries s) + (if j = i then unat q else 0)"
proof -
  have "d < q \<Longrightarrow> unat d + unat (q - d) = unat q" by (simp add: unat_sub word_less_nat_alt word_le_nat_alt)
  then show ?thesis by (auto simp: qm_place_def Let_def rem_of_def tot_def)
qed

section \<open>One plain order\<close>

definition plain :: "qentry \<Rightarrow> bool" where
  "plain e \<longleftrightarrow> e_live e \<and> e_hidden e = 0"

definition adv :: "u64 \<Rightarrow> qentry \<Rightarrow> qentry" where
  "adv x e = e\<lparr> e_ahead := e_ahead e - min x (e_ahead e), e_display := e_display e - trade_fill x e \<rparr>"

definition can :: "u64 \<Rightarrow> bool \<Rightarrow> qentry \<Rightarrow> qentry" where
  "can x b e = (if b then e\<lparr> e_ahead := e_ahead e - min x (e_ahead e) \<rparr> else e)"

definition effect :: "bool \<Rightarrow> resolved \<Rightarrow> book option \<Rightarrow> bool \<Rightarrow> qentry \<Rightarrow> qentry" where
  "effect trades r post b e =
     (let x = ucast (rv_shares r); here = rv_known r \<and> rv_side r = e_side e \<and> rv_resting_price r = e_price e in
      if trades \<and> rv_cls r = CTrade \<and> rv_printable r \<and> strictly_through (e_side e) (e_price e) (rv_print_price r) \<and>
         (\<not> rv_known r \<or> rv_side r = e_side e) \<and> \<not> opposite_reaches_us e post then adv x e
      else if \<not> here then e
      else if rv_cls r = CTrade then (if trades then adv x e else e)
      else if rv_cls r = CCancel then can x b e
      else e)"

definition settle_one :: "bool \<Rightarrow> u64 \<Rightarrow> qentry \<Rightarrow> qentry list" where
  "settle_one c limit e = (if e_display e = 0 then [] else [if c then e\<lparr> e_ahead := min (e_ahead e) limit \<rparr> else e])"

lemma trade_one:
  assumes s: "qm_entries s = [e]" and p: "plain e"
  shows "qm_entries (fst (trade_class 0 x ts trig post (s, fs))) = [adv x e]"
    "qm_cfg (fst (trade_class 0 x ts trig post (s, fs))) = qm_cfg s"
    "qm_tradable (fst (trade_class 0 x ts trig post (s, fs))) = qm_tradable s"
proof -
  have k: "0 < length (qm_entries s)" using s by simp
  have e: "qm_entries s ! 0 = e" using s by simp
  have "qm_entries (fst (trade_class 0 x ts trig post (s, fs))) = [adv x e] \<and>
    qm_cfg (fst (trade_class 0 x ts trig post (s, fs))) = qm_cfg s \<and>
    qm_tradable (fst (trade_class 0 x ts trig post (s, fs))) = qm_tradable s"
  proof (cases "trade_fill x e = 0")
    case True
    then have "adv x e = after_trade x e" by (simp add: adv_def after_trade_def)
    then show ?thesis unfolding trade_class_cases(1) [OF k, unfolded e, OF True] by (simp add: s)
  next
    case False
    then have "unat (e_ahead e) \<le> unat x" using unat_trade_fill [of x e] by (auto simp flip: unat_eq_zero)
    then have "min x (e_ahead e) = e_ahead e" by (simp add: min_def word_le_nat_alt word_unat_eq_iff)
    then have "adv x e = e\<lparr> e_display := e_display e - trade_fill x e, e_ahead := 0 \<rparr>" by (simp add: adv_def)
    moreover have "\<not> (e_display e = trade_fill x e \<and> e_hidden e > 0)" using p by (simp add: plain_def)
    ultimately show ?thesis
      unfolding trade_class_cases(2) [OF k, unfolded e, OF False] Let_def by (simp only: if_False fst_conv) (simp add: s)
  qed
  then show "qm_entries (fst (trade_class 0 x ts trig post (s, fs))) = [adv x e]"
    "qm_cfg (fst (trade_class 0 x ts trig post (s, fs))) = qm_cfg s"
    "qm_tradable (fst (trade_class 0 x ts trig post (s, fs))) = qm_tradable s" by blast+
qed

lemma queued_one:
  assumes s: "qm_entries s = [e]" and p: "plain e"
  shows "qm_entries (fst (queued_commit 0 r post (s, fs))) = [effect True r post (cancel_is_ahead e r s) e] \<and>
    qm_cfg (fst (queued_commit 0 r post (s, fs))) = qm_cfg s \<and> qm_tradable (fst (queued_commit 0 r post (s, fs))) = qm_tradable s"
proof -
  obtain s' fs' where t: "trade_class 0 (ucast (rv_shares r)) (rv_ts r) Execution post (s, fs) = (s', fs')"
    by (cases "trade_class 0 (ucast (rv_shares r)) (rv_ts r) Execution post (s, fs)")
  note o1 = trade_one [OF s p, of "ucast (rv_shares r)" "rv_ts r" _ post fs]
  have s': "qm_entries s' = [adv (ucast (rv_shares r)) e]" "qm_cfg s' = qm_cfg s" "qm_tradable s' = qm_tradable s"
    using o1 [of Execution] by (simp_all add: t)
  show ?thesis
    unfolding queued_commit_def effect_def Let_def prod.case t
    using o1 s' s by (simp add: cancel_class_def can_def)
qed

lemma own_none: "own_live_ahead (e_side e) (e_price e) (e_arrived_ns e) [e] = 0"
  by (simp add: own_live_ahead_def)

lemma clamp_settle:
  assumes s: "qm_entries s = [e]" and p: "plain e"
  shows "qm_entries (reap (if c then clamp_all post s else s)) = settle_one c (shares_at (sim_to_char (e_side e)) (e_price e) post) e"
  using p own_none [of e] s
  by (auto simp: settle_one_def clamp_all_def clamp_one_def Let_def idle_def plain_def reap_def retire_def upd_entry_def min_def)

lemma commit_one_entry:
  assumes s: "qm_entries s = [e]" and p: "plain e" "e_display e \<noteq> 0" and m: "qc_model (qm_cfg s) \<noteq> MNaive"
  shows "qm_entries (fst (qm_commit r post (s, fs))) =
    settle_one (qc_clamp (qm_cfg s)) (shares_at (sim_to_char (e_side e)) (e_price e) post)
      (effect (qm_tradable s) r (Some post) (cancel_is_ahead e r s) e)"
proof -
  let ?e = "effect (qm_tradable s) r (Some post) (cancel_is_ahead e r s) e"
  have pe: "plain ?e" "e_side ?e = e_side e" "e_price ?e = e_price e"
    using p by (simp_all add: effect_def adv_def can_def plain_def Let_def)
  have ni: "\<not> idle e" using p by (simp add: idle_def plain_def)
  show ?thesis
  proof (cases "qm_tradable s")
    case True
    define s1 where "s1 = fst (queued_commit 0 r (Some post) (s, fs))"
    have s1: "qm_entries s1 = [?e]" "qm_cfg s1 = qm_cfg s" using queued_one [OF s p(1), of r "Some post" fs] True by (simp_all add: s1_def)
    have "fst (qm_commit r post (s, fs)) = reap (if qc_clamp (qm_cfg s1) then clamp_all post s1 else s1)"
      using True s ni m by (simp add: qm_commit_def Let_def commit_one_def s1_def split: prod.splits)
    then show ?thesis using clamp_settle [OF s1(1) pe(1), of "qc_clamp (qm_cfg s1)" post] pe by (simp add: s1(2))
  next
    case False
    define s1 where "s1 = halted_commit 0 r s"
    have s1: "qm_entries s1 = [?e]" "qm_cfg s1 = qm_cfg s"
      using False s m by (auto simp: s1_def halted_commit_def effect_def Let_def cancel_class_def can_def)
    have "fst (qm_commit r post (s, fs)) = reap (if qc_clamp (qm_cfg s1) then clamp_all post s1 else s1)"
      using False s ni by (simp add: qm_commit_def Let_def halted_one_def s1_def)
    then show ?thesis using clamp_settle [OF s1(1) pe(1), of "qc_clamp (qm_cfg s1)" post] pe by (simp add: s1(2))
  qed
qed

section \<open>Monotone\<close>

definition leq :: "qentry \<Rightarrow> qentry \<Rightarrow> bool" where
  "leq e e' \<longleftrightarrow> plain e \<and> plain e' \<and> same_order e e' \<and> e_ahead e \<le> e_ahead e' \<and> e_display e \<le> e_display e'"

lemma unat_ahead: "unat (e_ahead e - min x (e_ahead e)) = unat (e_ahead e) - unat x"
proof (cases "x \<le> e_ahead e")
  case True
  then show ?thesis by (simp add: min_def unat_sub)
next
  case False
  then show ?thesis by (simp add: min_def word_le_nat_alt)
qed

lemma unat_left: "unat (e_display e - trade_fill x e) = unat (e_display e) - (unat x - unat (e_ahead e))"
proof -
  have "trade_fill x e \<le> e_display e" by (simp add: word_le_nat_alt unat_trade_fill)
  then have "unat (e_display e - trade_fill x e) = unat (e_display e) - unat (trade_fill x e)" by (rule unat_sub)
  then show ?thesis by (simp add: unat_trade_fill min_def)
qed

lemma adv_mono: "leq e e' \<Longrightarrow> leq (adv x e) (adv x e')"
  by (simp add: leq_def adv_def plain_def same_order_def word_le_nat_alt unat_ahead unat_left) linarith

lemma can_mono: "leq e e' \<Longrightarrow> (b' \<Longrightarrow> b) \<Longrightarrow> leq (can x b e) (can x b' e')"
  by (auto simp: leq_def can_def plain_def same_order_def word_le_nat_alt unat_ahead)

lemma effect_mono: "leq e e' \<Longrightarrow> (b' \<Longrightarrow> b) \<Longrightarrow> leq (effect t r post b e) (effect t r post b' e')"
proof -
  assume l: "leq e e'" and b: "b' \<Longrightarrow> b"
  have "e_side e' = e_side e" "e_price e' = e_price e" "opposite_reaches_us e' post = opposite_reaches_us e post"
    using l by (simp_all add: leq_def same_order_def opposite_reaches_us_def cong: option.case_cong)
  then show ?thesis using adv_mono [OF l] can_mono [OF l b] l by (simp add: effect_def Let_def)
qed

definition behind :: "qentry list \<Rightarrow> qentry list \<Rightarrow> bool" where
  "behind es es' \<longleftrightarrow> es = [] \<or> (\<exists>e e'. es = [e] \<and> es' = [e'] \<and> leq e e' \<and> e_display e \<noteq> 0)"

lemma settle_mono: "leq e e' \<Longrightarrow> behind (settle_one c limit e) (settle_one c limit e')"
proof -
  assume l: "leq e e'"
  have "e_display e \<noteq> 0 \<Longrightarrow> e_display e' \<noteq> 0"
    using l by (auto simp: leq_def word_le_nat_alt unat_eq_zero simp flip: unat_eq_zero)
  then show ?thesis using l
    by (auto simp: behind_def settle_one_def leq_def plain_def same_order_def min_def)
qed

text \<open>One model is at most as far ahead as another: it calls every cancel ahead, or the other calls none.\<close>

definition quicker :: "queue_kind \<Rightarrow> queue_kind \<Rightarrow> bool" where
  "quicker m m' \<longleftrightarrow> m \<noteq> MNaive \<and> m' \<noteq> MNaive \<and> (m = MOptimistic \<or> m' = MPessimistic)"

definition bracketed :: "queue_model \<Rightarrow> queue_model \<Rightarrow> bool" where
  "bracketed s s' \<longleftrightarrow> quicker (qc_model (qm_cfg s)) (qc_model (qm_cfg s')) \<and> qc_clamp (qm_cfg s) = qc_clamp (qm_cfg s') \<and>
     qm_tradable s = qm_tradable s' \<and> behind (qm_entries s) (qm_entries s')"

lemma quicker_cancels:
  "quicker (qc_model (qm_cfg s)) (qc_model (qm_cfg s')) \<Longrightarrow> cancel_is_ahead e' r s' \<Longrightarrow> cancel_is_ahead e r s"
  by (auto simp: quicker_def cancel_is_ahead_def split: queue_kind.splits)

lemma reap_empty: "qm_entries s = [] \<Longrightarrow> qm_entries (reap s) = []"
  by (simp add: reap_def)

lemma commit_empty: "qm_entries s = [] \<Longrightarrow> qm_entries (fst (qm_commit r post (s, fs))) = []"
  by (simp add: qm_commit_def clamp_all_def reap_empty)

lemma priority_empty: "qm_entries s = [] \<Longrightarrow> qm_entries (fst (apply_price_priority post ts (s, fs))) = []"
  by (simp add: apply_price_priority_def reap_empty)

lemma step_cfg_tradable:
  "qm_ok s \<Longrightarrow> qm_cfg (fst (qm_commit r post (s, fs))) = qm_cfg s \<and> qm_tradable (fst (qm_commit r post (s, fs))) = qm_tradable s"
  "qm_ok s \<Longrightarrow> qm_cfg (fst (apply_price_priority post ts (s, fs))) = qm_cfg s \<and>
     qm_tradable (fst (apply_price_priority post ts (s, fs))) = qm_tradable s"
  using commit_ok [of s r post fs "fst (qm_commit r post (s, fs))" "snd (qm_commit r post (s, fs))"]
    priority_ok [of s post ts fs "fst (apply_price_priority post ts (s, fs))" "snd (apply_price_priority post ts (s, fs))"]
  by simp_all

lemma commit_bracketed:
  assumes b: "bracketed s s'" and ok: "qm_ok s" "qm_ok s'"
  shows "bracketed (fst (qm_commit r post (s, fs))) (fst (qm_commit r post (s', fs')))"
proof -
  have "behind (qm_entries (fst (qm_commit r post (s, fs)))) (qm_entries (fst (qm_commit r post (s', fs'))))"
  proof (cases "qm_entries s = []")
    case True
    then show ?thesis by (simp add: commit_empty behind_def)
  next
    case False
    then obtain e e' where e: "qm_entries s = [e]" "qm_entries s' = [e']" "leq e e'" "e_display e \<noteq> 0"
      using b by (auto simp: bracketed_def behind_def)
    have e': "plain e" "plain e'" "e_side e' = e_side e" "e_price e' = e_price e" using e(3) by (simp_all add: leq_def same_order_def)
    have "e_display e' \<noteq> 0" using e(3,4) by (auto simp: leq_def word_le_nat_alt simp flip: unat_eq_zero)
    have m: "qc_model (qm_cfg s) \<noteq> MNaive" "qc_model (qm_cfg s') \<noteq> MNaive"
      and q: "quicker (qc_model (qm_cfg s)) (qc_model (qm_cfg s'))"
      and same: "qc_clamp (qm_cfg s') = qc_clamp (qm_cfg s)" "qm_tradable s' = qm_tradable s"
      using b by (simp_all add: bracketed_def quicker_def)
    show ?thesis
      unfolding commit_one_entry [OF e(1) e'(1) e(4) m(1)] commit_one_entry [OF e(2) e'(2) \<open>e_display e' \<noteq> 0\<close> m(2)] same e'(3,4)
      by (rule settle_mono [OF effect_mono [OF e(3) quicker_cancels [OF q]]])
  qed
  then show ?thesis using b step_cfg_tradable(1) [OF ok(1)] step_cfg_tradable(1) [OF ok(2)] by (simp add: bracketed_def)
qed

lemma priority_one_entry:
  assumes s: "qm_entries s = [e]" and p: "plain e" "e_display e \<noteq> 0" and t: "qm_tradable s"
  shows "qm_entries (fst (apply_price_priority post ts (s, fs))) =
    settle_one False 0 (if opposite_reaches_us e (Some post) \<and> reach_of e post \<noteq> 0 then adv (reach_of e post) e else e)"
proof -
  define s1 where "s1 = fst (priority_one post ts 0 (s, fs))"
  let ?e = "if opposite_reaches_us e (Some post) \<and> reach_of e post \<noteq> 0 then adv (reach_of e post) e else e"
  have ni: "\<not> idle e" using p by (simp add: idle_def plain_def)
  have s1: "qm_entries s1 = [?e]"
    using trade_one(1) [OF s p(1), of "reach_of e post" ts Lock "Some post" fs] s ni
    by (auto simp: s1_def priority_one_def Let_def opposite_reaches_us_def split: option.splits)
  have pe: "plain ?e" using p by (simp add: adv_def plain_def)
  have "fst (apply_price_priority post ts (s, fs)) = reap (if False then clamp_all post s1 else s1)"
    using t s by (simp add: apply_price_priority_def s1_def split: prod.splits)
  then show ?thesis using clamp_settle [OF s1 pe, of False post] by (simp add: settle_one_def)
qed

lemma priority_bracketed:
  assumes b: "bracketed s s'" and ok: "qm_ok s" "qm_ok s'"
  shows "bracketed (fst (apply_price_priority post ts (s, fs))) (fst (apply_price_priority post ts (s', fs')))"
proof (cases "qm_tradable s")
  case False
  then have "\<not> qm_tradable s'" using b by (simp add: bracketed_def)
  with False b show ?thesis by (simp add: apply_price_priority_def)
next
  case True
  then have t': "qm_tradable s'" using b by (simp add: bracketed_def)
  have "behind (qm_entries (fst (apply_price_priority post ts (s, fs)))) (qm_entries (fst (apply_price_priority post ts (s', fs'))))"
  proof (cases "qm_entries s = []")
    case True
    then show ?thesis by (simp add: priority_empty behind_def)
  next
    case False
    then obtain e e' where e: "qm_entries s = [e]" "qm_entries s' = [e']" "leq e e'" "e_display e \<noteq> 0"
      using b by (auto simp: bracketed_def behind_def)
    have p: "plain e" "plain e'" and same: "e_side e' = e_side e" "e_price e' = e_price e"
      using e(3) by (simp_all add: leq_def same_order_def)
    have d': "e_display e' \<noteq> 0" using e(3,4) by (auto simp: leq_def word_le_nat_alt simp flip: unat_eq_zero)
    have r: "reach_of e' post = reach_of e post" "opposite_reaches_us e' (Some post) = opposite_reaches_us e (Some post)"
      by (simp_all add: reach_of_def opposite_reaches_us_def same cong: option.case_cong)
    show ?thesis
      unfolding priority_one_entry [OF e(1) p(1) e(4) True] priority_one_entry [OF e(2) p(2) d' t'] r
      by (rule settle_mono) (use e(3) adv_mono [OF e(3)] in simp)
  qed
  then show ?thesis using b step_cfg_tradable(2) [OF ok(1)] step_cfg_tradable(2) [OF ok(2)] by (simp add: bracketed_def)
qed

lemma step_bracketed:
  assumes "bracketed s s'" "qm_ok s" "qm_ok s'"
  shows "bracketed (fst (qm_step e (s, fs))) (fst (qm_step e (s', fs')))"
proof (cases e)
  case (QState c)
  then show ?thesis using assms by (simp add: bracketed_def qm_set_trading_state_def)
qed (use assms in \<open>simp_all add: commit_bracketed priority_bracketed\<close>)

lemma run_bracketed:
  assumes "bracketed s s'" "qm_ok s" "qm_ok s'"
  shows "bracketed (fst (fold qm_step es (s, fs))) (fst (fold qm_step es (s', fs')))"
  using assms
proof (induction es arbitrary: s s' fs fs')
  case (Cons e es)
  obtain s1 fs1 s1' fs1' where e: "qm_step e (s, fs) = (s1, fs1)" "qm_step e (s', fs') = (s1', fs1')"
    by (metis surj_pair)
  have "bracketed s1 s1'" using step_bracketed [OF Cons.prems, of e fs fs'] e by simp
  from Cons.IH [OF this qm_step_ok(1) [OF Cons.prems(2) e(1)] qm_step_ok(1) [OF Cons.prems(3) e(2)], of fs1 fs1']
  show ?case by (simp add: e)
qed simp

lemma behind_rem: "behind es es' \<Longrightarrow> rem_of i es \<le> rem_of i es'"
  by (auto simp: behind_def rem_of_def leq_def tot_def plain_def same_order_def word_le_nat_alt)

text \<open>What a model fills of one order placed on a book by an otherwise empty model, over a run of events.\<close>

definition fills_under :: "queue_kind \<Rightarrow> queue_config \<Rightarrow> bstate \<Rightarrow> u64 \<Rightarrow> sim_side \<Rightarrow> int \<Rightarrow> u32 \<Rightarrow> u32 \<Rightarrow> u64 \<Rightarrow>
    queue_event list \<Rightarrow> sim_fill list" where
  "fills_under m cfg sb i side price q d t es =
     snd (fold qm_step es (qm_place sb i side price q d t (qm_new (cfg\<lparr> qc_model := m \<rparr>)), []))"

lemma place_bracketed:
  assumes "quicker m m'" "q \<noteq> 0" "d = 0 \<or> q \<le> d"
  shows "bracketed (qm_place sb i side price q d t (qm_new (cfg\<lparr> qc_model := m \<rparr>)))
    (qm_place sb i side price q d t (qm_new (cfg\<lparr> qc_model := m' \<rparr>)))"
proof -
  define e where "e = hd (qm_entries (qm_place sb i side price q d t (qm_new cfg)))"
  have e: "qm_entries (qm_place sb i side price q d t (qm_new c)) = [e]" for c
    by (simp add: e_def qm_place_def Let_def qm_new_def)
  have "plain e" "e_display e = q" using assms(3) by (auto simp: e_def qm_place_def Let_def qm_new_def plain_def)
  then have "behind [e] [e]" using assms(2) by (simp add: behind_def leq_def same_order_def)
  then show ?thesis using assms(1) by (simp add: bracketed_def e) (simp add: qm_new_def)
qed

lemma none_left [simp]: "rem_of i [] = 0" "filled_of i [] = 0"
  by (simp_all add: rem_of_def filled_of_def)

lemma fills_rem:
  "filled_of i (fills_under m cfg sb i side price q d t es) +
     rem_of i (qm_entries (fst (fold qm_step es (qm_place sb i side price q d t (qm_new (cfg\<lparr> qc_model := m \<rparr>)), [])))) = unat q"
proof -
  let ?s = "qm_place sb i side price q d t (qm_new (cfg\<lparr> qc_model := m \<rparr>))"
  have "qm_ok ?s" by (simp add: place_ok)
  from qm_run_ok [OF this, of es "[]" "fst (fold qm_step es (?s, []))" "snd (fold qm_step es (?s, []))" i]
  show ?thesis by (simp add: fills_under_def place_rem)
qed

lemma fills_bracketed:
  assumes "quicker m m'" "d = 0 \<or> q \<le> d"
  shows "filled_of i (fills_under m' cfg sb i side price q d t es) \<le> filled_of i (fills_under m cfg sb i side price q d t es)"
proof (cases "q = 0")
  case True
  then show ?thesis using fills_rem [of i m' cfg sb side price q d t es] by simp
next
  case False
  let ?s = "\<lambda>m. qm_place sb i side price q d t (qm_new (cfg\<lparr> qc_model := m \<rparr>))"
  have "bracketed (fst (fold qm_step es (?s m, []))) (fst (fold qm_step es (?s m', [])))"
    by (rule run_bracketed [OF place_bracketed [OF assms(1) False assms(2)]]) (simp_all add: place_ok)
  then have "behind (qm_entries (fst (fold qm_step es (?s m, [])))) (qm_entries (fst (fold qm_step es (?s m', []))))"
    by (simp add: bracketed_def)
  from behind_rem [OF this, of i] fills_rem [of i m cfg sb side price q d t es] fills_rem [of i m' cfg sb side price q d t es]
  show ?thesis by linarith
qed

end
