(* ===== verification/QueueRestart.thy ===== *)
theory QueueRestart
  imports QueueBracket
begin

text \<open>
  A snapshot of a queue model, taken in any state it can reach, restores it: the entries with their queue
  positions, the sets of what was ahead, and every counter.
\<close>

section \<open>A restart\<close>

lemma om_set_append: "om_wf (m @ [(k, v)]) \<Longrightarrow> om_set k v m = m @ [(k, v)]"
proof (induction m)
  case (Cons a m)
  obtain x y where a: "a = (x, y)" by (cases a)
  have "x < k" "om_wf (m @ [(k, v)])" using Cons.prems by (auto simp: a om_wf_Cons)
  then show ?case using Cons.IH by (auto simp: a)
qed simp

lemma emplace_all_wf: "om_wf m \<Longrightarrow> emplace_all m = m"
proof (induction m rule: rev_induct)
  case (snoc a m)
  obtain k v where a: "a = (k, v)" by (cases a)
  have "om_wf m" using snoc.prems by (auto simp: om_wf_def sorted_wrt_append)
  then have "emplace_all m = m" by (rule snoc.IH)
  moreover have "om_get k m = None" using snoc.prems by (auto simp: a om_get_None om_wf_def sorted_wrt_append)
  ultimately show ?case using om_set_append [of m k v] snoc.prems by (simp add: emplace_all_def om_emplace_def a)
qed (simp add: emplace_all_def)

definition sets_ok :: "queue_model \<Rightarrow> bool" where
  "sets_ok s \<longleftrightarrow> om_wf (qm_ahead_sets s) \<and> (\<forall>(i, m) \<in> set (qm_ahead_sets s). om_wf m)"

lemma restore_snapshot:
  assumes "sets_ok s" "qm_cfg t = qm_cfg s"
  shows "qm_restore (state_snapshot s) t = s"
proof -
  have "map (\<lambda>(i, flat). (i, emplace_all flat)) (qm_ahead_sets s) = qm_ahead_sets s"
    by (rule map_idI) (use assms in \<open>auto simp: sets_ok_def emplace_all_wf\<close>)
  then show ?thesis using assms by (simp add: qm_restore_def state_snapshot_def sets_ok_def emplace_all_wf)
qed

text \<open>Every state the model can reach can be restored.\<close>

inductive qm_reached :: "queue_config \<Rightarrow> queue_model \<Rightarrow> bool" for cfg where
  reached_new: "qm_reached cfg (qm_new cfg)"
| reached_place: "qm_reached cfg s \<Longrightarrow> qm_reached cfg (qm_place sb i side price q d t s)"
| reached_cancel: "qm_reached cfg s \<Longrightarrow> qm_reached cfg (qm_cancel i s)"
| reached_cancel_all: "qm_reached cfg s \<Longrightarrow> qm_reached cfg (qm_cancel_all s)"
| reached_step: "qm_reached cfg s \<Longrightarrow> qm_step e (s, fs) = (s', fs') \<Longrightarrow> qm_reached cfg s'"

definition nested_ok :: "(u64, ahead_set) omap \<Rightarrow> bool" where
  "nested_ok m \<longleftrightarrow> om_wf m \<and> (\<forall>p \<in> set m. om_wf (snd p))"

lemma om_set_elems: "set (om_set k v m) \<subseteq> insert (k, v) (set m)"
  by (induction k v m rule: om_set.induct) auto

lemma nested_set: "nested_ok m \<Longrightarrow> om_wf v \<Longrightarrow> nested_ok (om_set k v m)"
  using om_set_elems [of k v m] by (auto simp: nested_ok_def)

lemma nested_del: "nested_ok m \<Longrightarrow> nested_ok (om_del k m)"
  by (auto simp: nested_ok_def om_del_def om_wf_def sorted_wrt_map sorted_wrt_filter)

lemma nested_get: "nested_ok m \<Longrightarrow> om_get k m = Some v \<Longrightarrow> om_wf v"
  using om_get_mem [of m k v] by (auto simp: nested_ok_def)

lemma emplace_fold_wf: "om_wf m \<Longrightarrow> om_wf (fold (\<lambda>x. om_emplace (f x) (g x)) xs m)"
  by (induction xs arbitrary: m) (auto simp: om_emplace_def)

lemma reap_nested: "nested_ok (qm_ahead_sets s) \<Longrightarrow> nested_ok (qm_ahead_sets (reap s))"
proof -
  have "nested_ok m \<Longrightarrow> nested_ok (fold (\<lambda>e m. if e_live e then m else om_del (e_id e) m) es m)" for es m
    by (induction es arbitrary: m) (auto intro: nested_del)
  then show "nested_ok (qm_ahead_sets s) \<Longrightarrow> nested_ok (qm_ahead_sets (reap s))" by (simp add: reap_def Let_def)
qed

lemma sets_same [simp]:
  "qm_ahead_sets (qm_refresh k post s) = qm_ahead_sets s" "qm_ahead_sets (cancel_class k x b s) = qm_ahead_sets s"
  "qm_ahead_sets (clamp_one bk k s) = qm_ahead_sets s" "qm_ahead_sets (halted_one r k s) = qm_ahead_sets s"
  by (simp_all add: qm_refresh_def cancel_class_def clamp_one_def halted_one_def halted_commit_def Let_def upd_entry_def)

lemma trade_sets [simp]: "qm_ahead_sets (fst (trade_class k x ts trig post sf)) = qm_ahead_sets (fst sf)"
  by (cases sf) (simp add: trade_class_def Let_def)

lemma note_nested: "nested_ok (qm_ahead_sets s) \<Longrightarrow> nested_ok (qm_ahead_sets (note_trade_for_mbo k r s))"
  by (auto simp: note_trade_for_mbo_def Let_def split: option.split intro!: nested_set dest: nested_get)

lemma commit_one_nested:
  "nested_ok (qm_ahead_sets (fst sf)) \<Longrightarrow> nested_ok (qm_ahead_sets (fst (commit_one r post k sf)))"
proof -
  assume n: "nested_ok (qm_ahead_sets (fst sf))"
  obtain s fs where sf: "sf = (s, fs)" by (cases sf)
  have "nested_ok (qm_ahead_sets (fst (naive_commit k r (Some post) (s, fs))))"
    using n by (simp add: naive_commit_def Let_def sf)
  moreover have "nested_ok (qm_ahead_sets (fst (queued_commit k r (Some post) (s, fs))))"
  proof -
    obtain s' fs' where t: "trade_class k (ucast (rv_shares r)) (rv_ts r) Execution (Some post) (s, fs) = (s', fs')"
      by (cases "trade_class k (ucast (rv_shares r)) (rv_ts r) Execution (Some post) (s, fs)")
    have "qm_ahead_sets s' = qm_ahead_sets s"
      using trade_sets [of k "ucast (rv_shares r)" "rv_ts r" Execution "Some post" "(s, fs)"] by (simp add: t)
    then show ?thesis using n note_nested [of s' k r] unfolding queued_commit_def Let_def prod.case t by (simp add: sf)
  qed
  ultimately show ?thesis using n by (simp add: commit_one_def sf)
qed

lemma fold_nested:
  assumes "\<And>k x. nested_ok (g x) \<Longrightarrow> nested_ok (g (f k x))"
  shows "nested_ok (g x) \<Longrightarrow> nested_ok (g (fold f ks x))"
  by (induction ks arbitrary: x) (auto intro: assms)

lemma clamp_sets: "qm_ahead_sets (if b then clamp_all post s else s) = qm_ahead_sets s"
proof -
  have "qm_ahead_sets (fold (clamp_one post) ks s) = qm_ahead_sets s" for ks by (induction ks arbitrary: s) simp_all
  then show ?thesis by (simp add: clamp_all_def)
qed

lemma commit_nested: "nested_ok (qm_ahead_sets s) \<Longrightarrow> nested_ok (qm_ahead_sets (fst (qm_commit r post (s, fs))))"
proof (cases "qm_tradable s")
  case True
  assume n: "nested_ok (qm_ahead_sets s)"
  obtain s1 fs1 where f: "fold (commit_one r post) [0..<length (qm_entries s)] (s, fs) = (s1, fs1)"
    by (cases "fold (commit_one r post) [0..<length (qm_entries s)] (s, fs)")
  have "nested_ok (qm_ahead_sets (fst (fold (commit_one r post) [0..<length (qm_entries s)] (s, fs))))"
    by (rule fold_nested [where g = "\<lambda>sf. qm_ahead_sets (fst sf)"]) (use n commit_one_nested in auto)
  then have "nested_ok (qm_ahead_sets (reap (if qc_clamp (qm_cfg s1) then clamp_all post s1 else s1)))"
    by (intro reap_nested) (simp only: clamp_sets f fst_conv)
  then show ?thesis using True by (simp add: qm_commit_def Let_def f)
next
  case False
  assume n: "nested_ok (qm_ahead_sets s)"
  define s1 where "s1 = fold (halted_one r) [0..<length (qm_entries s)] s"
  have "nested_ok (qm_ahead_sets s1)" unfolding s1_def
    by (rule fold_nested [where g = qm_ahead_sets]) (use n in auto)
  then have "nested_ok (qm_ahead_sets (reap (if qc_clamp (qm_cfg s1) then clamp_all post s1 else s1)))"
    by (intro reap_nested) (simp only: clamp_sets)
  moreover have "qm_commit r post (s, fs) = (reap (if qc_clamp (qm_cfg s1) then clamp_all post s1 else s1), fs)"
    using False by (simp only: qm_commit_def Let_def prod.case s1_def if_True if_False not_False_eq_True)
  ultimately show ?thesis by simp
qed

lemma priority_nested: "nested_ok (qm_ahead_sets s) \<Longrightarrow> nested_ok (qm_ahead_sets (fst (apply_price_priority post ts (s, fs))))"
proof -
  assume n: "nested_ok (qm_ahead_sets s)"
  obtain s1 fs1 where f: "fold (priority_one post ts) [0..<length (qm_entries s)] (s, fs) = (s1, fs1)"
    by (cases "fold (priority_one post ts) [0..<length (qm_entries s)] (s, fs)")
  have "nested_ok (qm_ahead_sets (fst (fold (priority_one post ts) [0..<length (qm_entries s)] (s, fs))))"
    by (rule fold_nested [where g = "\<lambda>sf. qm_ahead_sets (fst sf)"])
      (use n in \<open>auto simp: priority_one_def Let_def split: option.split\<close>)
  then have "nested_ok (qm_ahead_sets (reap s1))" by (intro reap_nested) (simp add: f)
  then show ?thesis using n by (simp add: apply_price_priority_def f)
qed

lemma reached_ok: "qm_reached cfg s \<Longrightarrow> qm_cfg s = cfg \<and> qm_ok s \<and> nested_ok (qm_ahead_sets s)"
proof (induction rule: qm_reached.induct)
  case reached_new
  show ?case by (simp add: nested_ok_def) (simp add: qm_new_def)
next
  case (reached_place s sb i side price q d t)
  have "nested_ok (qm_ahead_sets (qm_place sb i side price q d t s))"
    using reached_place.IH by (auto simp: qm_place_def Let_def om_emplace_def intro!: nested_set emplace_fold_wf)
  with reached_place.IH place_ok [of s sb i side price q d t] show ?case by simp
next
  case (reached_cancel s i)
  then show ?case by (auto simp: qm_cancel_def qm_ok_def pull_def tot_def intro: nested_del)
next
  case (reached_cancel_all s)
  then show ?case by (auto simp: qm_cancel_all_def qm_ok_def pull_def tot_def)
next
  case (reached_step s e fs s' fs')
  have "nested_ok (qm_ahead_sets (fst (qm_step e (s, fs))))"
    using reached_step.IH by (cases e) (simp_all add: commit_nested priority_nested qm_set_trading_state_def)
  then show ?case using reached_step qm_step_ok [of s e fs s' fs'] by simp
qed

lemma reached_restore: "qm_reached cfg s \<Longrightarrow> qm_restore (state_snapshot s) (qm_new cfg) = s"
  using reached_ok [of cfg s] by (intro restore_snapshot) (auto simp: sets_ok_def nested_ok_def)

end
