(* ===== verification/StrategySnapshot.thy ===== *)
theory StrategySnapshot
  imports SnapshotOk Ledger QueueRestart
begin

text \<open>
  The strategy half of a restart, include/itchbook/recover/strategy_snapshot.hpp: the ledger and the queue
  model of one lane as bytes. A byte that names no enumerator, which the writer never produces, is read as
  the last one.
\<close>

section \<open>Writing\<close>

definition kStrategyMagic :: u32 where "kStrategyMagic = 0x53545254"
definition kStrategyVersion :: u32 where "kStrategyVersion = 1"

record strategy_snapshot =
  st_ledger :: ledger_state
  st_queue :: qm_snapshot

definition side_byte :: "sim_side \<Rightarrow> u8" where
  "side_byte s = (case s of SBuy \<Rightarrow> 0 | SSell \<Rightarrow> 1)"

definition byte_side :: "u8 \<Rightarrow> sim_side" where
  "byte_side b = (if b = 0 then SBuy else SSell)"

definition liquidity_byte :: "liquidity \<Rightarrow> u8" where
  "liquidity_byte l = (case l of Added \<Rightarrow> 0 | Removed \<Rightarrow> 1 | Cross \<Rightarrow> 2)"

definition byte_liquidity :: "u8 \<Rightarrow> liquidity" where
  "byte_liquidity b = (if b = 0 then Added else if b = 1 then Removed else Cross)"

definition put_fill :: "ledger_fill \<Rightarrow> u8 list" where
  "put_fill f = put_u64 (lf_ts f) @ put_u8 (side_byte (lf_side f)) @ put_i32 (lf_price f) @ put_u32 (lf_shares f) @
     put_i64 (lf_two_mid f) @ put_bool (lf_mid_ok f) @ put_i64 (lf_fee f) @ put_u8 (liquidity_byte (lf_liquidity f))"

definition put_entry :: "qentry \<Rightarrow> u8 list" where
  "put_entry e = put_u64 (e_id e) @ put_u8 (side_byte (e_side e)) @ put_i32 (e_price e) @ put_u32 (e_display e) @
     put_u32 (e_slice_size e) @ put_u32 (e_hidden e) @ put_u64 (e_ahead e) @ put_u64 (e_ahead0 e) @
     put_u64 (e_arrived_ns e) @ put_u32 (e_refreshes e) @ put_bool (e_live e)"

definition put_pair :: "u64 \<times> u32 \<Rightarrow> u8 list" where
  "put_pair p = put_u64 (fst p) @ put_u32 (snd p)"

definition put_ahead_set :: "u64 \<times> (u64 \<times> u32) list \<Rightarrow> u8 list" where
  "put_ahead_set p = put_u64 (fst p) @ put_u64 (of_nat (length (snd p))) @ concat (map put_pair (snd p))"

definition serialize_strategy :: "strategy_snapshot \<Rightarrow> u8 list" where
  "serialize_strategy s =
     (let L = st_ledger s; Q = st_queue s in
      put_u32 kStrategyMagic @ put_u32 kStrategyVersion @
      put_i64 (ls_cash L) @ put_i64 (ls_position L) @ put_i64 (ls_fees_total L) @ put_i64 (ls_two_edge L) @
      put_u64 (ls_fills_without_mid L) @
      put_u64 (of_nat (length (ls_fills L))) @ concat (map put_fill (ls_fills L)) @
      put_u64 (of_nat (length (qs_entries Q))) @ concat (map put_entry (qs_entries Q)) @
      put_u64 (of_nat (length (qs_ahead_sets Q))) @ concat (map put_ahead_set (qs_ahead_sets Q)) @
      put_u8 (qs_state Q) @ put_bool (qs_tradable Q) @
      put_u64 (qs_clamp_events Q) @ put_u64 (qs_clamp_shares Q) @ put_u64 (qs_priority_anomalies Q) @
      put_u64 (qs_anomaly_shares Q) @ put_u64 (qs_hidden_inside_shares Q) @
      put_u64 (qs_naive_hidden_fills Q) @ put_u64 (qs_naive_hidden_shares Q))"

section \<open>Reading\<close>

definition kWireLedgerFill :: nat where "kWireLedgerFill = 8 + 1 + 4 + 4 + 8 + 1 + 8 + 1"
definition kWireEntry :: nat where "kWireEntry = 8 + 1 + 4 + 4 * 3 + 8 * 3 + 4 + 1"
definition kWireAheadPair :: nat where "kWireAheadPair = 8 + 4"
definition kWireAheadSetMin :: nat where "kWireAheadSetMin = 8 + 8"

definition get_fill :: "u8 list \<Rightarrow> (ledger_fill \<times> u8 list) option" where
  "get_fill bs = do {
     (ts, bs) \<leftarrow> get_u64 bs;
     (c, bs) \<leftarrow> get_u8 bs;
     (price, bs) \<leftarrow> get_i32 bs;
     (shares, bs) \<leftarrow> get_u32 bs;
     (two_mid, bs) \<leftarrow> get_i64 bs;
     (ok, bs) \<leftarrow> get_bool bs;
     (fee, bs) \<leftarrow> get_i64 bs;
     (liq, bs) \<leftarrow> get_u8 bs;
     Some (\<lparr> lf_ts = ts, lf_side = byte_side c, lf_price = price, lf_shares = shares, lf_two_mid = two_mid,
             lf_mid_ok = ok, lf_fee = fee, lf_liquidity = byte_liquidity liq \<rparr>, bs) }"

definition get_entry :: "u8 list \<Rightarrow> (qentry \<times> u8 list) option" where
  "get_entry bs = do {
     (i, bs) \<leftarrow> get_u64 bs;
     (c, bs) \<leftarrow> get_u8 bs;
     (price, bs) \<leftarrow> get_i32 bs;
     (display, bs) \<leftarrow> get_u32 bs;
     (slice_size, bs) \<leftarrow> get_u32 bs;
     (hidden, bs) \<leftarrow> get_u32 bs;
     (ahead, bs) \<leftarrow> get_u64 bs;
     (ahead0, bs) \<leftarrow> get_u64 bs;
     (arrived_ns, bs) \<leftarrow> get_u64 bs;
     (refreshes, bs) \<leftarrow> get_u32 bs;
     (live, bs) \<leftarrow> get_bool bs;
     Some (\<lparr> e_id = i, e_side = byte_side c, e_price = price, e_display = display, e_slice_size = slice_size,
             e_hidden = hidden, e_ahead = ahead, e_ahead0 = ahead0, e_arrived_ns = arrived_ns,
             e_refreshes = refreshes, e_live = live \<rparr>, bs) }"

definition get_pair :: "u8 list \<Rightarrow> ((u64 \<times> u32) \<times> u8 list) option" where
  "get_pair bs = do { (ref, bs) \<leftarrow> get_u64 bs; (shares, bs) \<leftarrow> get_u32 bs; Some ((ref, shares), bs) }"

definition get_ahead_set :: "u8 list \<Rightarrow> ((u64 \<times> (u64 \<times> u32) list) \<times> u8 list) option" where
  "get_ahead_set bs = do {
     (i, bs) \<leftarrow> get_u64 bs;
     (m, bs) \<leftarrow> get_u64 bs;
     if unat m > length bs div kWireAheadPair then None else do {
     (flat, bs) \<leftarrow> get_n (unat m) get_pair bs;
     Some ((i, flat), bs) }}"

definition read_strategy :: "u8 list \<Rightarrow> (strategy_snapshot \<times> u8 list) option" where
  "read_strategy bs = do {
     (magic, bs) \<leftarrow> get_u32 bs;
     if magic \<noteq> kStrategyMagic then None else do {
     (version, bs) \<leftarrow> get_u32 bs;
     if version \<noteq> kStrategyVersion then None else do {
     (cash, bs) \<leftarrow> get_i64 bs;
     (position, bs) \<leftarrow> get_i64 bs;
     (fees_total, bs) \<leftarrow> get_i64 bs;
     (two_edge, bs) \<leftarrow> get_i64 bs;
     (fills_without_mid, bs) \<leftarrow> get_u64 bs;
     (n, bs) \<leftarrow> get_u64 bs;
     if unat n > length bs div kWireLedgerFill then None else do {
     (fills, bs) \<leftarrow> get_n (unat n) get_fill bs;
     (n, bs) \<leftarrow> get_u64 bs;
     if unat n > length bs div kWireEntry then None else do {
     (entries, bs) \<leftarrow> get_n (unat n) get_entry bs;
     (n, bs) \<leftarrow> get_u64 bs;
     if unat n > length bs div kWireAheadSetMin then None else do {
     (ahead_sets, bs) \<leftarrow> get_n (unat n) get_ahead_set bs;
     (state, bs) \<leftarrow> get_u8 bs;
     (tradable, bs) \<leftarrow> get_bool bs;
     (clamp_events, bs) \<leftarrow> get_u64 bs;
     (clamp_shares, bs) \<leftarrow> get_u64 bs;
     (priority_anomalies, bs) \<leftarrow> get_u64 bs;
     (anomaly_shares, bs) \<leftarrow> get_u64 bs;
     (hidden_inside_shares, bs) \<leftarrow> get_u64 bs;
     (naive_hidden_fills, bs) \<leftarrow> get_u64 bs;
     (naive_hidden_shares, bs) \<leftarrow> get_u64 bs;
     Some (\<lparr> st_ledger = \<lparr> ls_cash = cash, ls_position = position, ls_fees_total = fees_total, ls_two_edge = two_edge,
               ls_fills_without_mid = fills_without_mid, ls_fills = fills \<rparr>,
             st_queue = \<lparr> qs_entries = entries, qs_ahead_sets = ahead_sets, qs_state = state, qs_tradable = tradable,
               qs_clamp_events = clamp_events, qs_clamp_shares = clamp_shares,
               qs_priority_anomalies = priority_anomalies, qs_anomaly_shares = anomaly_shares,
               qs_hidden_inside_shares = hidden_inside_shares, qs_naive_hidden_fills = naive_hidden_fills,
               qs_naive_hidden_shares = naive_hidden_shares \<rparr> \<rparr>, bs) }}}}}}"

definition deserialize_strategy :: "u8 list \<Rightarrow> strategy_snapshot option" where
  "deserialize_strategy bs = map_option fst (read_strategy bs)"

section \<open>The file is exact\<close>

definition fill_fits :: "ledger_fill \<Rightarrow> bool" where
  "fill_fits f \<longleftrightarrow> is_i32 (lf_price f) \<and> is_i64 (lf_two_mid f) \<and> is_i64 (lf_fee f)"

definition strategy_fits :: "strategy_snapshot \<Rightarrow> bool" where
  "strategy_fits s \<longleftrightarrow> is_i64 (ls_cash (st_ledger s)) \<and> is_i64 (ls_position (st_ledger s)) \<and>
     is_i64 (ls_fees_total (st_ledger s)) \<and> is_i64 (ls_two_edge (st_ledger s)) \<and>
     (\<forall>f \<in> set (ls_fills (st_ledger s)). fill_fits f) \<and> length (ls_fills (st_ledger s)) < 2 ^ 64 \<and>
     (\<forall>e \<in> set (qs_entries (st_queue s)). is_i32 (e_price e)) \<and> length (qs_entries (st_queue s)) < 2 ^ 64 \<and>
     (\<forall>p \<in> set (qs_ahead_sets (st_queue s)). length (snd p) < 2 ^ 64) \<and> length (qs_ahead_sets (st_queue s)) < 2 ^ 64"

lemma byte_round [simp]: "byte_side (side_byte s) = s" "byte_liquidity (liquidity_byte l) = l"
  by (cases s; simp add: byte_side_def side_byte_def) (cases l; simp add: byte_liquidity_def liquidity_byte_def)

lemma exact_fill: "fill_fits f \<Longrightarrow> exact get_fill (put_fill f) f"
proof -
  assume f: "fill_fits f"
  then have i: "is_i32 (lf_price f)" "is_i64 (lf_two_mid f)" "is_i64 (lf_fee f)" by (simp_all add: fill_fits_def)
  have b: "put_fill f = put_u64 (lf_ts f) @ put_u8 (side_byte (lf_side f)) @ put_i32 (lf_price f) @ put_u32 (lf_shares f) @
     put_i64 (lf_two_mid f) @ put_bool (lf_mid_ok f) @ put_i64 (lf_fee f) @ put_u8 (liquidity_byte (lf_liquidity f)) @ []"
    by (simp add: put_fill_def)
  have r: "\<lparr> lf_ts = lf_ts f, lf_side = byte_side (side_byte (lf_side f)), lf_price = lf_price f, lf_shares = lf_shares f,
     lf_two_mid = lf_two_mid f, lf_mid_ok = lf_mid_ok f, lf_fee = lf_fee f,
     lf_liquidity = byte_liquidity (liquidity_byte (lf_liquidity f)) \<rparr> = f" by simp
  show ?thesis unfolding get_fill_def [abs_def] b by (intro exact_fields i) (simp only: r exact_return)
qed

lemma exact_entry: "is_i32 (e_price e) \<Longrightarrow> exact get_entry (put_entry e) e"
proof -
  assume i: "is_i32 (e_price e)"
  have b: "put_entry e = put_u64 (e_id e) @ put_u8 (side_byte (e_side e)) @ put_i32 (e_price e) @ put_u32 (e_display e) @
     put_u32 (e_slice_size e) @ put_u32 (e_hidden e) @ put_u64 (e_ahead e) @ put_u64 (e_ahead0 e) @
     put_u64 (e_arrived_ns e) @ put_u32 (e_refreshes e) @ put_bool (e_live e) @ []"
    by (simp add: put_entry_def)
  have r: "\<lparr> e_id = e_id e, e_side = byte_side (side_byte (e_side e)), e_price = e_price e, e_display = e_display e,
     e_slice_size = e_slice_size e, e_hidden = e_hidden e, e_ahead = e_ahead e, e_ahead0 = e_ahead0 e,
     e_arrived_ns = e_arrived_ns e, e_refreshes = e_refreshes e, e_live = e_live e \<rparr> = e" by simp
  show ?thesis unfolding get_entry_def [abs_def] b by (intro exact_fields i) (simp only: r exact_return)
qed

lemma exact_pair: "exact get_pair (put_pair p) p"
proof -
  have b: "put_pair p = put_u64 (fst p) @ put_u32 (snd p) @ []" by (simp add: put_pair_def)
  show ?thesis unfolding get_pair_def [abs_def] b by (intro exact_fields) (simp add: exact_return)
qed

lemma length_items:
  "length (concat (map put_fill fs)) = kWireLedgerFill * length fs" "length (concat (map put_entry es)) = kWireEntry * length es"
  "length (concat (map put_pair ps)) = kWireAheadPair * length ps"
  "length ss * kWireAheadSetMin \<le> length (concat (map put_ahead_set ss))"
proof -
  show "length (concat (map put_fill fs)) = kWireLedgerFill * length fs"
    by (induction fs) (simp_all add: put_fill_def kWireLedgerFill_def)
  show "length (concat (map put_entry es)) = kWireEntry * length es"
    by (induction es) (simp_all add: put_entry_def kWireEntry_def)
  show "length (concat (map put_pair ps)) = kWireAheadPair * length ps"
    by (induction ps) (simp_all add: put_pair_def kWireAheadPair_def)
  show "length ss * kWireAheadSetMin \<le> length (concat (map put_ahead_set ss))"
    by (induction ss) (simp_all add: put_ahead_set_def kWireAheadSetMin_def)
qed

lemma exact_ahead_set: "length (snd p) < 2 ^ 64 \<Longrightarrow> exact get_ahead_set (put_ahead_set p) p"
proof -
  assume l: "length (snd p) < 2 ^ 64"
  have b: "put_ahead_set p = put_u64 (fst p) @ put_u64 (of_nat (length (snd p))) @ concat (map put_pair (snd p)) @ []"
    by (simp add: put_ahead_set_def)
  have r: "(fst p, snd p) = p" by simp
  show ?thesis unfolding get_ahead_set_def [abs_def] b
    by (rule exact_fields(3), rule exact_counted)
      (use l exact_pair in \<open>simp_all add: r exact_return length_items kWireAheadPair_def\<close>)
qed

lemma exact_strategy: "strategy_fits s \<Longrightarrow> exact read_strategy (serialize_strategy s) s"
proof -
  assume f: "strategy_fits s"
  let ?L = "st_ledger s" and ?Q = "st_queue s"
  have i: "is_i64 (ls_cash ?L)" "is_i64 (ls_position ?L)" "is_i64 (ls_fees_total ?L)" "is_i64 (ls_two_edge ?L)"
    "\<forall>f \<in> set (ls_fills ?L). exact get_fill (put_fill f) f" "length (ls_fills ?L) < 2 ^ 64"
    "\<forall>e \<in> set (qs_entries ?Q). exact get_entry (put_entry e) e" "length (qs_entries ?Q) < 2 ^ 64"
    "\<forall>p \<in> set (qs_ahead_sets ?Q). exact get_ahead_set (put_ahead_set p) p" "length (qs_ahead_sets ?Q) < 2 ^ 64"
    using f by (simp_all add: strategy_fits_def exact_fill exact_entry exact_ahead_set)
  have n: "length (ls_fills ?L) * kWireLedgerFill \<le> length (concat (map put_fill (ls_fills ?L)))" "0 < kWireLedgerFill"
    "length (qs_entries ?Q) * kWireEntry \<le> length (concat (map put_entry (qs_entries ?Q)))" "0 < kWireEntry"
    "length (qs_ahead_sets ?Q) * kWireAheadSetMin \<le> length (concat (map put_ahead_set (qs_ahead_sets ?Q)))" "0 < kWireAheadSetMin"
    using length_items(4) [of "qs_ahead_sets ?Q"]
    by (simp_all add: length_items(1,2) kWireLedgerFill_def kWireEntry_def kWireAheadSetMin_def)
  have b: "serialize_strategy s = put_u32 kStrategyMagic @ put_u32 kStrategyVersion @
      put_i64 (ls_cash ?L) @ put_i64 (ls_position ?L) @ put_i64 (ls_fees_total ?L) @ put_i64 (ls_two_edge ?L) @
      put_u64 (ls_fills_without_mid ?L) @
      put_u64 (of_nat (length (ls_fills ?L))) @ concat (map put_fill (ls_fills ?L)) @
      put_u64 (of_nat (length (qs_entries ?Q))) @ concat (map put_entry (qs_entries ?Q)) @
      put_u64 (of_nat (length (qs_ahead_sets ?Q))) @ concat (map put_ahead_set (qs_ahead_sets ?Q)) @
      put_u8 (qs_state ?Q) @ put_bool (qs_tradable ?Q) @
      put_u64 (qs_clamp_events ?Q) @ put_u64 (qs_clamp_shares ?Q) @ put_u64 (qs_priority_anomalies ?Q) @
      put_u64 (qs_anomaly_shares ?Q) @ put_u64 (qs_hidden_inside_shares ?Q) @
      put_u64 (qs_naive_hidden_fills ?Q) @ put_u64 (qs_naive_hidden_shares ?Q) @ []"
    by (simp add: serialize_strategy_def Let_def)
  let ?l = "\<lparr> ls_cash = ls_cash ?L, ls_position = ls_position ?L, ls_fees_total = ls_fees_total ?L, ls_two_edge = ls_two_edge ?L,
      ls_fills_without_mid = ls_fills_without_mid ?L, ls_fills = ls_fills ?L \<rparr>"
  let ?q = "\<lparr> qs_entries = qs_entries ?Q, qs_ahead_sets = qs_ahead_sets ?Q, qs_state = qs_state ?Q, qs_tradable = qs_tradable ?Q,
      qs_clamp_events = qs_clamp_events ?Q, qs_clamp_shares = qs_clamp_shares ?Q,
      qs_priority_anomalies = qs_priority_anomalies ?Q, qs_anomaly_shares = qs_anomaly_shares ?Q,
      qs_hidden_inside_shares = qs_hidden_inside_shares ?Q, qs_naive_hidden_fills = qs_naive_hidden_fills ?Q,
      qs_naive_hidden_shares = qs_naive_hidden_shares ?Q \<rparr>"
  have "exact read_strategy (serialize_strategy s) \<lparr> st_ledger = ?l, st_queue = ?q \<rparr>"
    unfolding read_strategy_def [abs_def] b
    by (intro exact_fields(1,2) exact_fields(5) exact_pass exact_counted [OF i(5,6) n(1,2)] exact_counted [OF i(7,8) n(3,4)]
        exact_counted [OF i(9,10) n(5,6)] exact_fields(3) exact_fields(6) exact_return i)
  moreover have "?l = ?L" "?q = ?Q" by simp_all
  moreover have "\<lparr> st_ledger = ?L, st_queue = ?Q \<rparr> = s" by simp
  ultimately show ?thesis by (simp only:)
qed

end
