(* ===== verification/SplitOk.thy ===== *)
theory SplitOk
  imports Split
begin

text \<open>
  The replayer and a consumer of what it publishes. An execution it takes from a strategy order, or from the
  order the feed names, leaves the book as \<open>Book::execute\<close> would: so whatever strategy orders rest among the
  historical ones, with the engine of the exchange attached or not, a consumer that applies the published messages has the books of the exchange.
\<close>

section \<open>A print and a reduction commute\<close>

definition set_tape :: "u64 \<Rightarrow> u64 \<Rightarrow> u64 \<Rightarrow> int \<Rightarrow> int \<Rightarrow> int \<Rightarrow> int \<Rightarrow> book \<Rightarrow> book" where
  "set_tape v n k op cl hi lw b = b\<lparr> bk_volume := v, bk_notional := n, bk_trades := k, bk_open := op, bk_close := cl,
     bk_high := hi, bk_low := lw \<rparr>"

lemma set_tape_sides [simp]:
  "side_for c (set_tape v n k op cl hi lw b) = side_for c b" "bk_locate (set_tape v n k op cl hi lw b) = bk_locate b"
  "put_side c sd (set_tape v n k op cl hi lw b) = set_tape v n k op cl hi lw (put_side c sd b)"
  "(set_tape v n k op cl hi lw b)\<lparr> bk_resting_shares := x \<rparr> = set_tape v n k op cl hi lw (b\<lparr> bk_resting_shares := x \<rparr>)"
  "(set_tape v n k op cl hi lw b)\<lparr> bk_resting_orders := y \<rparr> = set_tape v n k op cl hi lw (b\<lparr> bk_resting_orders := y \<rparr>)"
  "bk_resting_shares (set_tape v n k op cl hi lw b) = bk_resting_shares b"
  "bk_resting_orders (set_tape v n k op cl hi lw b) = bk_resting_orders b"
  by (simp_all add: set_tape_def side_for_def put_side_def)

lemma reduce_set_tape:
  "reduce x m slot (st, set_tape v n k op cl hi lw b) = apsnd (set_tape v n k op cl hi lw) (reduce x m slot (st, b))"
  by (simp add: reduce_def destroy_def pop_order_def Let_def split: prod.splits option.splits)

definition same_tape :: "book \<Rightarrow> book \<Rightarrow> bool" where
  "same_tape b b' \<longleftrightarrow> bk_volume b' = bk_volume b \<and> bk_notional b' = bk_notional b \<and> bk_trades b' = bk_trades b \<and>
     bk_open b' = bk_open b \<and> bk_close b' = bk_close b \<and> bk_high b' = bk_high b \<and> bk_low b' = bk_low b"

lemma reduce_tape: "same_tape b (snd (reduce x m slot (st, b)))"
  by (simp add: reduce_def destroy_def pop_order_def put_side_def Let_def same_tape_def split: prod.splits option.splits)

lemma record_trade_set:
  "\<exists>v n k op cl hi lw. \<forall>b'. same_tape b b' \<longrightarrow> record_trade p s b' = set_tape v n k op cl hi lw b'"
proof (cases "s = 0")
  case True
  have "b' = set_tape (bk_volume b) (bk_notional b) (bk_trades b) (bk_open b) (bk_close b) (bk_high b) (bk_low b) b'"
    if "same_tape b b'" for b' using that by (cases b') (simp add: set_tape_def same_tape_def)
  then show ?thesis using True by (simp add: record_trade_def) blast
next
  case False
  have "record_trade p s b' = set_tape (bk_volume b + s) (bk_notional b + word_of_int p * s) (bk_trades b + 1)
      (if bk_open b < 0 then p else bk_open b) p (if bk_high b < 0 \<or> p > bk_high b then p else bk_high b)
      (if bk_low b < 0 \<or> p < bk_low b then p else bk_low b) b'"
    if "same_tape b b'" for b' using that False by (cases b') (simp add: record_trade_def set_tape_def same_tape_def Let_def)
  then show ?thesis by blast
qed

lemma reduce_trade: "reduce x m slot (st, record_trade p s b) = apsnd (record_trade p s) (reduce x m slot (st, b))"
proof -
  obtain v n k op cl hi lw where t: "\<And>b'. same_tape b b' \<Longrightarrow> record_trade p s b' = set_tape v n k op cl hi lw b'"
    using record_trade_set [of b p s] by blast
  have "same_tape b b" by (simp add: same_tape_def)
  moreover obtain st' b' where r: "reduce x m slot (st, b) = (st', b')" by fastforce
  moreover have "same_tape b b'" using reduce_tape [of b x m slot st] r by simp
  ultimately show ?thesis by (simp add: t reduce_set_tape)
qed

text \<open>So taking from an order and printing, in either order, is an execution of it.\<close>

lemma find_resolve:
  assumes "store_ok st" "bk_find ref (st, b) = Some x"
  obtains slot where "resolve ref (st, b) = (Some slot, st, b)" "order_at (st, b) slot = x"
    "\<And>p s. resolve ref (st, record_trade p s b) = (Some slot, st, record_trade p s b)"
proof -
  have loc: "bk_locate (record_trade p s b) = bk_locate b" for p s by (simp add: record_trade_def Let_def)
  from assms(2) have f: "rm_find (st_refs st) ref = Some x" "o_locate (st_heap st x) = bk_locate b"
    by (auto simp: bk_find_def split: option.splits if_splits)
  then obtain slot where i: "rm_find_index (st_refs st) ref = Some slot" "rm_at (st_refs st) slot = Some x"
    by (auto simp: rm_find_def rm_at_def split: option.splits)
  then have "resolve ref (st, b) = (Some slot, st, b)" "order_at (st, b) slot = x"
    "resolve ref (st, record_trade p s b) = (Some slot, st, record_trade p s b)" for p s
    using f(2) by (simp_all add: resolve_def order_at_def loc)
  with that show thesis by blast
qed

lemma execute_is_take_and_print:
  assumes "store_ok st" "bk_find ref (st, b) = Some x" "o_price (st_heap st x) = p"
  shows "bk_execute ref n (st, b) = apsnd (note_feed_trade p n) (bk_take ref n (st, b))"
    "bk_execute ref n (st, b) = bk_take ref n (st, note_feed_trade p n b)"
proof -
  obtain slot where R: "resolve ref (st, b) = (Some slot, st, b)" "order_at (st, b) slot = x"
    "\<And>p s. resolve ref (st, record_trade p s b) = (Some slot, st, record_trade p s b)"
    by (rule find_resolve [OF assms(1,2)]) blast
  have "order_at (st, record_trade p s b) slot = x" for s using R(2) by (simp add: order_at_def)
  then have "bk_execute ref n (st, b) = reduce x n slot (st, record_trade p (ucast n) b)"
    "bk_take ref n (st, b) = reduce x n slot (st, b)"
    "bk_take ref n (st, record_trade p (ucast n) b) = reduce x n slot (st, record_trade p (ucast n) b)"
    using R(2) assms(3) by (simp_all add: bk_execute_def bk_take_def R(1,3) Let_def)
  then show "bk_execute ref n (st, b) = apsnd (note_feed_trade p n) (bk_take ref n (st, b))"
    "bk_execute ref n (st, b) = bk_take ref n (st, note_feed_trade p n b)"
    by (simp_all add: note_feed_trade_def [abs_def] reduce_trade)
qed

section \<open>Names and prices in the market\<close>

lemma find_named:
  assumes r: "represents s M" and b: "bs_books s l = Some b" and x: "bk_find ref (bs_store s, b) = Some x"
  obtains e where "e \<in> set M" "names l ref e" "re_price e = o_price (st_heap (bs_store s) x)"
proof -
  let ?st = "bs_store s"
  obtain Q where st: "store_ok ?st" and bk: "book_ok ?st b Q" using representsD(8) [OF r b] by (auto simp: good_def)
  have f: "rm_find (st_refs ?st) ref = Some x" "o_locate (st_heap ?st x) = bk_locate b"
    using x by (auto simp: bk_find_def split: option.splits if_splits)
  obtain p l' r' where q: "Q (o_side (st_heap ?st x) = side_B) p = l' @ x # r'" using named_place [OF st bk f] .
  then have "o_price (st_heap ?st x) = p"
    using pair_okD(6) [OF book_okD(1) [OF bk], of x "o_side (st_heap ?st x) = side_B" p] by simp
  moreover have "o_ref (st_heap ?st x) = ref" using store_okD(2) [OF st f(1)] .
  ultimately have "(ref, o_shares (st_heap ?st x)) \<in> set (book_view (?st, b) (o_side (st_heap ?st x) = side_B) (o_price (st_heap ?st x)))"
    using q by (simp add: book_view_ok [OF bk] view_of_def tag_def)
  then show thesis using that mview_mem unfolding representsD(9) [OF r b] names_def by blast
qed

lemma named_find:
  assumes r: "represents s M" and b: "bs_books s l = Some b" and e: "e \<in> set M" "names l ref e"
  obtains x where "bk_find ref (bs_store s, b) = Some x"
proof -
  have "(ref, re_shares e) \<in> set (mview l M (re_bid e) (re_price e))"
    using e by (force simp: mview_def names_def)
  then show thesis using that view_found [OF representsD(8) [OF r b]] unfolding representsD(9) [OF r b] by blast
qed

lemma named_once: "distinct (map re_ref M) \<Longrightarrow> e \<in> set M \<Longrightarrow> e' \<in> set M \<Longrightarrow> names l r e \<Longrightarrow> names l r e' \<Longrightarrow> e' = e"
  by (auto simp: names_def distinct_map dest: inj_onD)

text \<open>The orders ahead of the named one rest at its price.\<close>

lemma ahead_named:
  assumes r: "represents s M" and b: "bs_books s l = Some b" and q: "q \<in> set (orders_ahead ref c p (bs_store s, b))"
  shows "\<exists>e \<in> set M. names l (o_ref q) e \<and> re_price e = p"
proof -
  obtain Q where st: "store_ok (bs_store s)" and bk: "book_ok (bs_store s) b Q" using representsD(8) [OF r b] by (auto simp: good_def)
  have "q \<in> set (orders_at c p (bs_store s, b))" using q by (auto simp: orders_ahead_def dest: set_takeWhileD)
  then have "(o_ref q, o_shares q) \<in> set (book_view (bs_store s, b) (c = side_B) p)"
    by (auto simp: orders_at_ok [OF bk] book_view_ok [OF bk] view_of_def tag_def)
  then show ?thesis using mview_mem unfolding representsD(9) [OF r b] names_def by blast
qed

lemma ahead_price:
  assumes r: "represents s M" and b: "bs_books s l = Some b" and q: "q \<in> set (orders_ahead ref c p (bs_store s, b))"
    and e: "e \<in> set M" "re_ref e = o_ref q"
  shows "re_locate e = l \<and> re_price e = p"
proof -
  obtain e' where e': "e' \<in> set M" "names l (o_ref q) e'" "re_price e' = p" using ahead_named [OF r b q] by blast
  have "inj_on re_ref (set M)" using representsD(2) [OF r] by (simp add: distinct_map)
  then have "e' = e" using e e'(1,2) unfolding names_def by (metis inj_onD)
  then show ?thesis using e' by (simp add: names_def)
qed

lemma reduce_names:
  "e \<in> set (mk_reduce l r n M) \<Longrightarrow> \<exists>e' \<in> set M. re_locate e' = re_locate e \<and> re_ref e' = re_ref e \<and> re_price e' = re_price e"
  by (force simp: mk_reduce_def split: if_splits)

lemma reduce_keeps: "e \<in> set M \<Longrightarrow> \<not> names l r e \<Longrightarrow> e \<in> set (mk_reduce l r n M)"
  by (force simp: mk_reduce_def)

section \<open>What the consumer does with an execution\<close>

definition exec_msg :: "u8 list \<Rightarrow> u8 list \<Rightarrow> u64 \<times> u32 \<Rightarrow> u8 list" where
  "exec_msg stk p rn = take 31 (fst (emit_order_executed stk (stock_locate p) (be16 p 3) (ts_of p) (fst rn) (snd rn)
     (order_executed_match p)))"

lemma be48_bound: "be48 p i < 2 ^ 48"
proof -
  have "\<not> bit (be48 p i) n" if "48 \<le> n" for n
    using that by (auto simp: be48_def upt_6 bit_simps dest!: byte_bit)
  then have "be48 p i = take_bit 48 (be48 p i)"
    by (intro bit_word_eqI) (metis bit_take_bit_iff not_le)
  then have "unat (be48 p i) = take_bit 48 (unat (be48 p i))" by (metis unsigned_take_bit_eq)
  moreover have "take_bit 48 (unat (be48 p i)) < 2 ^ 48" by (rule take_bit_nat_less_exp)
  ultimately have "unat (be48 p i) < 2 ^ 48" by simp
  then show ?thesis by (simp add: word_less_nat_alt)
qed

lemma exec_msg_fields:
  assumes "kMaxMessage \<le> length stk"
  shows "exec_msg stk p rn ! 0 = ch CHR ''E''" "stock_locate (exec_msg stk p rn) = stock_locate p"
    "order_executed_ref (exec_msg stk p rn) = fst rn" "order_executed_shares (exec_msg stk p rn) = snd rn"
proof -
  let ?m = "fst (emit_order_executed stk (stock_locate p) (be16 p 3) (ts_of p) (fst rn) (snd rn) (order_executed_match p))"
  have ts: "ts_of p < 2 ^ 48"
    unfolding ts_of_be48 by (rule be48_bound)
  have l: "31 \<le> length ?m" using assms emit_lengths(5) by (simp add: kMaxMessage_def)
  have t: "take 31 ?m ! k = ?m ! k" if "k < 31" for k using that by simp
  note R = order_executed_round_trip [OF assms ts refl, of "stock_locate p" "be16 p 3" "fst rn" "snd rn" "order_executed_match p"]
  show "exec_msg stk p rn ! 0 = ch CHR ''E''" using R(1) t by (simp add: exec_msg_def)
  show "stock_locate (exec_msg stk p rn) = stock_locate p"
    using R(2) f16.get_local [of "take 31 ?m" 1 ?m 1] t by (simp add: exec_msg_def stock_locate_def)
  show "order_executed_ref (exec_msg stk p rn) = fst rn"
    using R(4) f64.get_local [of "take 31 ?m" 11 ?m 11] t by (simp add: exec_msg_def order_executed_ref_def)
  show "order_executed_shares (exec_msg stk p rn) = snd rn"
    using R(5) f32.get_local [of "take 31 ?m" 19 ?m 19] t by (simp add: exec_msg_def order_executed_shares_def)
qed

lemma consume_exec:
  assumes "kMaxMessage \<le> length stk" "bs_books s (stock_locate p) = Some b" "si_directoried (bs_dir s (stock_locate p))"
  shows "fst (apply_set (exec_msg stk p rn ! 0) (exec_msg stk p rn) s) =
    bs_put (stock_locate p) (bk_execute (fst rn) (snd rn) (bs_store s, b)) s"
  using assms by (simp add: exec_msg_fields apply_set_def modelled_def apply_book_def bs_at_def Let_def)

lemma market_exec:
  assumes "kMaxMessage \<le> length stk"
  shows "mk_apply (exec_msg stk p rn) M = mk_reduce (stock_locate p) (fst rn) (snd rn) M" "msg_ok M (exec_msg stk p rn)"
  using assms by (simp_all add: exec_msg_fields mk_apply_def msg_ok_def Let_def)

lemma execs_ok: "kMaxMessage \<le> length stk \<Longrightarrow> feed_ok M (map (exec_msg stk p) fs)"
  by (induction fs arbitrary: M) (simp_all add: market_exec)

lemma execs_keep:
  "kMaxMessage \<le> length stk \<Longrightarrow> e \<in> set M \<Longrightarrow> names l r e \<Longrightarrow> r \<notin> fst ` set fs \<Longrightarrow>
   e \<in> set (fold mk_apply (map (exec_msg stk p) fs) M)"
proof (induction fs arbitrary: M)
  case (Cons f fs)
  have "e \<in> set (mk_apply (exec_msg stk p f) M)"
    using Cons.prems reduce_keeps [of e M] by (auto simp: market_exec names_def)
  then show ?case using Cons by simp
qed simp

lemma put_twice [simp]:
  "sp_book l (sp_put l sb s) = sb" "sp_put l sb (sp_put l sb' s) = sp_put l sb s"
  "sp_sink (sp_put l sb s) = sp_sink s" "sp_matcher (sp_put l sb s) = sp_matcher s"
  "sp_set (sp_put l sb s) = bs_put l sb (sp_set s)"
  by (simp_all add: sp_book_def sp_put_def bs_put_def)

lemma put_fields [simp]:
  "bs_books (bs_put l sb s) l = Some (snd sb)" "bs_dir (bs_put l sb s) = bs_dir s" "bs_store (bs_put l sb s) = fst sb"
  by (simp_all add: bs_put_def)

lemma quiet_fields [simp]:
  "sp_set (trace_fill r n s) = sp_set s" "sp_sink (trace_fill r n s) = sp_sink s" "sp_matcher (trace_fill r n s) = sp_matcher s"
  "sp_set (emit_exec stk p r n s) = sp_set s" "sp_matcher (emit_exec stk p r n s) = sp_matcher s"
  "sp_set (emit_state stk t p s) = sp_set s" "sp_matcher (emit_state stk t p s) = sp_matcher s"
  by (simp_all add: trace_fill_def emit_exec_def emit_state_def hand_on_def Let_def split: option.split)

lemma emit_exec_sends:
  "sp_sink s = Some sent \<Longrightarrow> sp_sink (emit_exec stk p r n s) = Some (sent @ [exec_msg stk p (r, n)])"
  by (simp add: emit_exec_def hand_on_def exec_msg_def emit_sizes)

text \<open>An engine the replayer can be given: its book is there, and none of its orders holds a reserve back, as an
  order entered through the gateway never does.\<close>

definition no_reserves :: "matcher \<Rightarrow> bool" where
  "no_reserves m \<longleftrightarrow> om_wf (mt_orders m) \<and> (\<forall>i n. om_get i (mt_orders m) = Some n \<longrightarrow> m_hidden n = 0)"

definition engine_fits :: "split \<Rightarrow> bool" where
  "engine_fits s \<longleftrightarrow>
     (case sp_matcher s of None \<Rightarrow> True | Some (l, m) \<Rightarrow> bs_books (sp_set s) l \<noteq> None \<and> no_reserves m)"

lemma fits_cong:
  "engine_fits s \<Longrightarrow> sp_matcher s' = sp_matcher s \<Longrightarrow> (\<And>l. bs_books (sp_set s) l \<noteq> None \<Longrightarrow> bs_books (sp_set s') l \<noteq> None) \<Longrightarrow>
   engine_fits s'"
  by (auto simp: engine_fits_def split: option.splits)

lemma books_put: "bs_books s k \<noteq> None \<Longrightarrow> bs_books (bs_put l sb s) k \<noteq> None"
  by (simp add: bs_put_def)

lemma books_at: "bs_books s k \<noteq> None \<Longrightarrow> bs_books (snd (bs_at l s)) k \<noteq> None"
  by (simp add: bs_at_def Let_def split: option.split)

lemma books_apply: "bs_books s k \<noteq> None \<Longrightarrow> bs_books (fst (apply_set t p s)) k \<noteq> None"
proof -
  assume b: "bs_books s k \<noteq> None"
  show ?thesis
    using b books_put books_at [OF b]
    by (auto simp: apply_set_def set_system_event_def set_directory_def set_operational_halt_def set_mwcb_breached_def
        note_broken_trade_def Let_def split_def)
qed

lemma fits_put: "engine_fits s \<Longrightarrow> engine_fits (sp_put l sb s)"
  by (rule fits_cong) (use books_put in simp_all)

lemma quiet_fits [simp]:
  "engine_fits (trace_fill r n s) = engine_fits s" "engine_fits (emit_exec stk p r n s) = engine_fits s"
  "engine_fits (emit_state stk t p s) = engine_fits s"
  "engine_fits (s\<lparr> sp_c := c \<rparr>) = engine_fits s"
  by (simp_all add: engine_fits_def split: option.split)

lemma put_back: "bs_books (sp_set s) l = Some b \<Longrightarrow> bs_put l (sp_book l s) (sp_set s) = sp_set s"
  by (simp add: sp_book_def bs_put_def fun_upd_idem)

text \<open>A fill through such an engine takes from the book what it reports, and nothing else.\<close>

lemma transition_plain:
  assumes "om_wf (mt_orders m)" "om_get i (mt_orders m) = Some n"
  shows "mt_book (transition i d m) = mt_book m" "om_wf (mt_orders (transition i d m))"
    "om_get j (mt_orders (transition i d m)) = (if j = i then Some (n\<lparr> m_state := d \<rparr>) else om_get j (mt_orders m))"
  using assms by (simp_all add: transition_def upd_meta_def meta_of_def om_get_set)

lemma settle_plain:
  assumes w: "om_wf (mt_orders m)" and n: "om_get i (mt_orders m) = Some n" "m_hidden n = 0"
  shows "mt_book (settle_maker i m) = mt_book m" "om_wf (mt_orders (settle_maker i m))"
    "\<And>j n'. om_get j (mt_orders (settle_maker i m)) = Some n' \<Longrightarrow> j \<noteq> i \<Longrightarrow> om_get j (mt_orders m) = Some n'"
    "\<And>n'. om_get i (mt_orders (settle_maker i m)) = Some n' \<Longrightarrow> m_hidden n' = 0"
proof -
  define m1 where "m1 = upd_meta i (\<lambda>m. m\<lparr> m_in_book := False \<rparr>) m"
  have m1: "mt_book m1 = mt_book m" "om_wf (mt_orders m1)"
    "om_get j (mt_orders m1) = (if j = i then Some (n\<lparr> m_in_book := False \<rparr>) else om_get j (mt_orders m))" for j
    using w n by (simp_all add: m1_def upd_meta_def meta_of_def om_get_set)
  have h: "m_hidden (meta_of m1 i) = 0" using m1(3) n(2) by (simp add: meta_of_def)
  have e: "settle_maker i m = (if m_resting n = 0 then transition i Filled m1 else transition i PartiallyFilled m)"
    using n h by (simp add: settle_maker_def meta_of_def Let_def flip: m1_def)
  have i1: "om_get i (mt_orders m1) = Some (n\<lparr> m_in_book := False \<rparr>)" by (simp add: m1(3))
  note A = transition_plain [OF m1(2) i1] and B = transition_plain [OF w n(1)]
  show "mt_book (settle_maker i m) = mt_book m" "om_wf (mt_orders (settle_maker i m))"
    using A(1,2) B(1,2) m1(1) by (simp_all add: e)
  show "om_get j (mt_orders (settle_maker i m)) = Some n' \<Longrightarrow> j \<noteq> i \<Longrightarrow> om_get j (mt_orders m) = Some n'" for j n'
    using A(3) B(3) m1(3) by (simp add: e split: if_splits)
  show "om_get i (mt_orders (settle_maker i m)) = Some n' \<Longrightarrow> m_hidden n' = 0" for n'
    using A(3) B(3) m1(3) n(2) by (auto simp: e split: if_splits)
qed

lemma external_fill_plain:
  assumes "no_reserves m" "apply_external_fill i n price mn m = (q, m')"
  shows "no_reserves m'" "q = 0 \<Longrightarrow> mt_book m' = mt_book m"
    "q \<noteq> 0 \<Longrightarrow> mt_book m' = bk_take i q (mt_book m) \<and> bk_find i (mt_book m) \<noteq> None \<and> q \<le> n"
proof -
  have "(q = 0 \<and> m' = m) \<or> (q \<noteq> 0 \<and> no_reserves m' \<and> mt_book m' = bk_take i q (mt_book m) \<and> bk_find i (mt_book m) \<noteq> None \<and> q \<le> n)"
  proof (cases "\<exists>k. om_get i (mt_orders m) = Some k \<and> n \<noteq> 0 \<and> m_resting k \<noteq> 0 \<and> m_entered k \<and> \<not> is_terminal (m_state k) \<and>
      m_in_book k \<and> bk_find i (mt_book m) \<noteq> None")
    case False
    then show ?thesis using assms(2) by (auto simp: apply_external_fill_def split: option.splits if_splits)
  next
    case True
    then obtain k where k: "om_get i (mt_orders m) = Some k" "n \<noteq> 0" "m_resting k \<noteq> 0" "m_entered k" "\<not> is_terminal (m_state k)"
      "m_in_book k" "bk_find i (mt_book m) \<noteq> None" by blast
    define qty where "qty = (if n < m_resting k then n else m_resting k)"
    have qty: "qty \<noteq> 0" "qty \<le> n" using k(2,3) by (auto simp: qty_def)
    define m1 where "m1 = upd_meta i (\<lambda>m. m\<lparr> m_resting := m_resting m - qty, m_filled := m_filled m + qty \<rparr>)
      (m\<lparr> mt_book := bk_take i qty (mt_book m) \<rparr>)"
    define m2 where "m2 = note_trade \<lparr> fl_taker = 0, fl_maker = i, fl_taker_owner = 0, fl_maker_owner = rq_owner (m_req k),
        fl_price = price, fl_shares = qty, fl_maker_sequence = m_sequence k, fl_match_number = mn, fl_external = True \<rparr>
      (m1\<lparr> mt_filled_total := mt_filled_total m1 + ucast qty, mt_external_filled := mt_external_filled m1 + ucast qty \<rparr>)"
    have m2: "mt_book m2 = mt_book m1" "mt_orders m2 = mt_orders m1" "(q, m') = (qty, settle_maker i m2)"
    proof -
      have "\<not> (\<not> m_entered k \<or> is_terminal (m_state k) \<or> \<not> m_in_book k \<or> m_resting k = 0)" using k by simp
      then show "(q, m') = (qty, settle_maker i m2)"
        using assms(2) k(2,7) unfolding apply_external_fill_def k(1) option.case Let_def qty_def m2_def m1_def by (auto split: if_split_asm)
    qed (simp_all add: m2_def note_trade_def)
    have w: "om_wf (mt_orders m)" "m_hidden k = 0" using assms(1) k(1) by (simp_all add: no_reserves_def)
    have g: "om_wf (mt_orders m1)" "mt_book m1 = bk_take i qty (mt_book m)"
      "om_get j (mt_orders m1) = (if j = i then Some (k\<lparr> m_resting := m_resting k - qty, m_filled := m_filled k + qty \<rparr>)
        else om_get j (mt_orders m))" for j
      using w k(1) by (simp_all add: m1_def upd_meta_def meta_of_def om_get_set)
    have i2: "om_get i (mt_orders m2) = Some (k\<lparr> m_resting := m_resting k - qty, m_filled := m_filled k + qty \<rparr>)"
      using g(3) by (simp add: m2)
    have w2: "om_wf (mt_orders m2)" using g(1) by (simp add: m2)
    note S = settle_plain [OF w2 i2]
    have S4: "om_get i (mt_orders (settle_maker i m2)) = Some n' \<Longrightarrow> m_hidden n' = 0" for n'
      by (rule S(4)) (use w(2) in simp_all)
    have S3: "om_get j (mt_orders (settle_maker i m2)) = Some n' \<Longrightarrow> j \<noteq> i \<Longrightarrow> om_get j (mt_orders m) = Some n'" for j n'
      using S(3) [of j n'] w(2) g(3) by (simp add: m2(2))
    have "no_reserves m'"
      unfolding no_reserves_def
    proof (intro conjI allI impI)
      show "om_wf (mt_orders m')" using S(2) w(2) m2(3) by simp
      show "m_hidden n' = 0" if "om_get j (mt_orders m') = Some n'" for j n'
        using that S3 [of j n'] S4 [of n'] assms(1) m2(3) by (cases "j = i") (auto simp: no_reserves_def)
    qed
    then show ?thesis using S(1) w(2) m2 g(2) qty k(7) by simp
  qed
  then show "no_reserves m'" "q = 0 \<Longrightarrow> mt_book m' = mt_book m"
    "q \<noteq> 0 \<Longrightarrow> mt_book m' = bk_take i q (mt_book m) \<and> bk_find i (mt_book m) \<noteq> None \<and> q \<le> n"
    using assms(1) by auto
qed

text \<open>Taking from a strategy order and printing the trade, through the engine or directly, is what the consumer does
  with the message.\<close>

lemma take_direct:
  assumes r: "represents (sp_set s) M" and b: "bs_books (sp_set s) l = Some b" and x: "bk_find r (bs_store (sp_set s), b) = Some x"
    and pr: "\<forall>e \<in> set M. re_ref e = r \<longrightarrow> re_locate e = l \<and> re_price e = price"
  shows "apsnd (note_feed_trade price n) (bk_take r n (bs_store (sp_set s), b)) = bk_execute r n (bs_store (sp_set s), b)"
proof -
  obtain e where e: "e \<in> set M" "names l r e" "re_price e = o_price (st_heap (bs_store (sp_set s)) x)" using find_named [OF r b x] .
  then have "o_price (st_heap (bs_store (sp_set s)) x) = price" using pr by (simp add: names_def)
  then show ?thesis using execute_is_take_and_print(1) [OF representsD(1) [OF r] x] by simp
qed

lemma take_print:
  assumes fits: "engine_fits s" and r: "represents (sp_set s) M" and b: "bs_books (sp_set s) l = Some b"
    and pr: "\<forall>e \<in> set M. re_ref e = r \<longrightarrow> re_locate e = l \<and> re_price e = price" and t: "take_from l r rem price mn s = (n, s')"
  shows "engine_fits s' \<and> sp_sink s' = sp_sink s \<and> (case n of None \<Rightarrow> sp_set s' = sp_set s
    | Some n \<Rightarrow> unat n \<le> unat rem \<and> sp_set (print_trade l price n s') = bs_put l (bk_execute r n (bs_store (sp_set s), b)) (sp_set s))"
proof (cases "sp_matcher s")
  case None
  show ?thesis
  proof (cases "bk_find r (sp_book l s)")
    case no: None
    then show ?thesis using t fits None by (auto simp: take_from_def)
  next
    case (Some x)
    let ?st = "bs_store (sp_set s)"
    have sb: "sp_book l s = (?st, b)" using b by (simp add: sp_book_def)
    have x: "bk_find r (?st, b) = Some x" using Some sb by simp
    let ?n = "if o_shares (st_heap ?st x) < rem then o_shares (st_heap ?st x) else rem"
    have e: "n = Some ?n" "s' = sp_put l (bk_take r ?n (?st, b)) s"
      using t None by (auto simp: take_from_def sb x Let_def split: if_splits)
    have "unat ?n \<le> unat rem" by (simp add: word_less_nat_alt)
    then show ?thesis
      unfolding e option.case using take_direct [OF r b x pr, of ?n] fits_put [OF fits] by (simp add: print_trade_def)
  qed
next
  case (Some lm)
  obtain at m where lm: "lm = (at, m)" by fastforce
  have m: "no_reserves (m\<lparr> mt_book := sp_book at s \<rparr>)" and at: "bs_books (sp_set s) at \<noteq> None"
    using fits Some lm by (simp_all add: engine_fits_def no_reserves_def)
  obtain b' where b': "bs_books (sp_set s) at = Some b'" using at by blast
  obtain q m' where f: "apply_external_fill r rem price mn (m\<lparr> mt_book := sp_book at s \<rparr>) = (q, m')" by fastforce
  note F = external_fill_plain [OF m f]
  have s': "n = (if q = 0 then None else Some q)" "s' = sp_put at (mt_book m') (s\<lparr> sp_matcher := Some (at, m') \<rparr>)"
    using t f by (auto simp: take_from_def Some lm Let_def split: if_splits)
  have fits': "engine_fits s'" "sp_sink s' = sp_sink s" "sp_set s' = bs_put at (mt_book m') (sp_set s)"
    using F(1) by (simp_all add: s'(2) engine_fits_def sp_put_def)
  show ?thesis
  proof (cases "q = 0")
    case True
    then have "sp_set s' = sp_set s" using F(2) put_back [OF b'] fits'(3) by simp
    then show ?thesis using fits' True by (simp add: s'(1))
  next
    case False
    have sb: "sp_book at s = (bs_store (sp_set s), b')" using b' by (simp add: sp_book_def)
    obtain x where x: "bk_find r (bs_store (sp_set s), b') = Some x" using F(3) [OF False] sb by auto
    have "at = l" using find_named [OF r b' x] pr unfolding names_def by metis
    then have bb: "b' = b" using b b' by simp
    have tk: "mt_book m' = bk_take r q (bs_store (sp_set s), b)" "q \<le> rem" using F(3) [OF False] sb bb by simp_all
    have "sp_set (print_trade l price q s') = bs_put l (apsnd (note_feed_trade price q) (bk_take r q (bs_store (sp_set s), b))) (sp_set s)"
      using tk(1) \<open>at = l\<close> by (simp add: print_trade_def s'(2))
    then show ?thesis
      using fits'(1,2) False tk(2) take_direct [OF r b x [unfolded bb] pr, of q] by (simp add: s'(1) word_le_nat_alt)
  qed
qed

lemma walk_consumed:
  assumes k: "kMaxMessage \<le> length stk" and l: "l = stock_locate p"
  shows "engine_fits s \<Longrightarrow> sp_sink s = Some sent \<Longrightarrow> represents (sp_set s) M \<Longrightarrow> bs_books (sp_set s) l = Some b \<Longrightarrow>
    si_directoried (bs_dir (sp_set s) l) \<Longrightarrow>
    \<forall>r \<in> set rs. \<forall>e \<in> set M. re_ref e = r \<longrightarrow> re_locate e = l \<and> re_price e = price \<Longrightarrow>
    walk_ahead stk p l price rs rem s = (rem', s') \<Longrightarrow>
    \<exists>fs. sp_sink s' = Some (sent @ map (exec_msg stk p) fs) \<and> sp_set s' = run_feed (map (exec_msg stk p) fs) (sp_set s) \<and>
      engine_fits s' \<and> sum_list (map (unat \<circ> snd) fs) + unat rem' = unat rem \<and> fst ` set fs \<subseteq> set rs \<and>
      (\<exists>b'. bs_books (sp_set s') l = Some b') \<and> si_directoried (bs_dir (sp_set s') l)"
proof (induction rs arbitrary: s sent M b rem)
  case Nil
  then show ?case by (intro exI [of _ "[]"]) (simp add: run_feed_def)
next
  case (Cons r rs)
  obtain n s1 where t: "take_from l r rem price (order_executed_match p) s = (n, s1)" by fastforce
  note T = take_print [OF Cons.prems(1,3,4) _ t]
  show ?case
  proof (cases "rem = 0")
    case True
    then show ?thesis using Cons.prems by (intro exI [of _ "[]"]) (simp add: run_feed_def)
  next
    case False
    show ?thesis
    proof (cases n)
      case None
      then have w: "walk_ahead stk p l price rs rem s1 = (rem', s')" using t False Cons.prems(7) by simp
      have s1: "engine_fits s1" "sp_sink s1 = Some sent" "sp_set s1 = sp_set s" using T None Cons.prems(2,6) by simp_all
      have "\<forall>r \<in> set rs. \<forall>e \<in> set M. re_ref e = r \<longrightarrow> re_locate e = l \<and> re_price e = price" using Cons.prems(6) by simp
      then obtain fs where
        "sp_sink s' = Some (sent @ map (exec_msg stk p) fs) \<and> sp_set s' = run_feed (map (exec_msg stk p) fs) (sp_set s) \<and>
          engine_fits s' \<and> sum_list (map (unat \<circ> snd) fs) + unat rem' = unat rem \<and> fst ` set fs \<subseteq> set rs \<and>
          (\<exists>b'. bs_books (sp_set s') l = Some b') \<and> si_directoried (bs_dir (sp_set s') l)"
        using Cons.IH [OF s1(1,2) _ _ _ _ w, unfolded s1(3)] Cons.prems(3-5) by blast
      then show ?thesis by (intro exI [of _ fs]) (auto simp: comp_def)
    next
      case (Some m)
      let ?x = "bk_execute r m (bs_store (sp_set s), b)"
      define u where "u = print_trade l price m s1"
      have le: "unat m \<le> unat rem" and pt: "sp_set u = bs_put l ?x (sp_set s)" "engine_fits u" "sp_sink u = Some sent"
        using T Some Cons.prems(2,6) fits_put [of s1] by (simp_all add: u_def) (simp_all add: print_trade_def)
      define s2 where "s2 = emit_exec stk p r m (trace_fill r m (u\<lparr> sp_c := (sp_c u)\<lparr> sc_strategy_taken :=
        sc_strategy_taken (sp_c u) + ucast m \<rparr> \<rparr>))"
      have w: "walk_ahead stk p l price rs (rem - m) s2 = (rem', s')"
        using Cons.prems(7) t False Some by (simp add: s2_def u_def Let_def)
      let ?e = "exec_msg stk p (r, m)"
      have c: "fst (apply_set (?e ! 0) ?e (sp_set s)) = bs_put l ?x (sp_set s)"
        using consume_exec [OF k, of "sp_set s" p b "(r, m)"] Cons.prems(4,5) l by simp
      have s2: "sp_set s2 = bs_put l ?x (sp_set s)" "engine_fits s2" "sp_sink s2 = Some (sent @ [?e])"
        using pt by (simp_all add: s2_def emit_exec_sends)
      have r2: "represents (sp_set s2) (mk_reduce l r m M)"
        using apply_set_refines [OF Cons.prems(3) market_exec(2) [OF k, of M p "(r, m)"]] c s2(1) l
        by (simp add: market_exec [OF k])
      have bk: "bs_books (sp_set s2) l = Some (snd ?x)" "si_directoried (bs_dir (sp_set s2) l)"
        using Cons.prems(5) by (simp_all add: s2(1))
      have pr: "\<forall>r' \<in> set rs. \<forall>e \<in> set (mk_reduce l r m M). re_ref e = r' \<longrightarrow> re_locate e = l \<and> re_price e = price"
        using Cons.prems(6) reduce_names by (metis list.set_intros(2))
      obtain fs where F:
        "sp_sink s' = Some ((sent @ [?e]) @ map (exec_msg stk p) fs)" "sp_set s' = run_feed (map (exec_msg stk p) fs) (sp_set s2)"
        "engine_fits s'" "sum_list (map (unat \<circ> snd) fs) + unat rem' = unat (rem - m)" "fst ` set fs \<subseteq> set rs"
        "\<exists>b'. bs_books (sp_set s') l = Some b'" "si_directoried (bs_dir (sp_set s') l)"
        using Cons.IH [OF s2(2,3) r2 bk pr w] by blast
      have "unat (rem - m) = unat rem - unat m" using le by (simp add: unat_sub word_le_nat_alt)
      then show ?thesis
        using F le by (intro exI [of _ "(r, m) # fs"]) (auto simp: run_feed_def c s2(1) comp_def)
    qed
  qed
qed

text \<open>An execution, whole: nothing but the messages it publishes has happened to the books, and their shares add up.\<close>

lemma at_known:
  assumes r: "represents s M" and d: "si_directoried (bs_dir s l)"
  obtains b where "bs_books (snd (bs_at l s)) l = Some b" "represents (snd (bs_at l s)) M"
    "si_directoried (bs_dir (snd (bs_at l s)) l)" "bs_at l (snd (bs_at l s)) = (b, snd (bs_at l s))"
    "bs_at l s = (b, snd (bs_at l s))"
proof -
  obtain b s' where at: "bs_at l s = (b, s')" by fastforce
  have "bs_dir s' = bs_dir s" using at by (auto simp: bs_at_def Let_def split: option.splits if_splits)
  moreover note A = bs_at_represents [OF r at]
  moreover have "bs_at l s' = (b, s')" using A(2) d calculation(1) by (simp add: bs_at_def)
  ultimately show thesis using that [of b] at d by simp
qed

lemma aggress_consumed:
  assumes k: "kMaxMessage \<le> length stk" and s: "engine_fits s" "sp_sink s = Some sent" "represents (sp_set s) M"
    and d: "si_directoried (bs_dir (sp_set s) (stock_locate p))" and n: "order_executed_shares p \<noteq> 0"
    and res: "aggress stk p s = (s', a)"
  shows "\<exists>fs. sp_sink s' = Some (sent @ map (exec_msg stk p) fs) \<and> sp_set s' = run_feed (map (exec_msg stk p) fs) (sp_set s) \<and>
      engine_fits s' \<and> a \<and> sum_list (map (unat \<circ> snd) fs) = unat (order_executed_shares p) \<and>
      ((\<forall>e \<in> set M. \<not> is_strategy_ref (re_ref e)) \<longrightarrow> fs = [(order_executed_ref p, order_executed_shares p)])"
proof -
  let ?ref = "order_executed_ref p" and ?n = "order_executed_shares p" and ?l = "stock_locate p"
  obtain b where A: "bs_books (snd (bs_at ?l (sp_set s))) ?l = Some b" "represents (snd (bs_at ?l (sp_set s))) M"
    "si_directoried (bs_dir (snd (bs_at ?l (sp_set s))) ?l)"
    "bs_at ?l (snd (bs_at ?l (sp_set s))) = (b, snd (bs_at ?l (sp_set s)))"
    "bs_at ?l (sp_set s) = (b, snd (bs_at ?l (sp_set s)))" by (rule at_known [OF s(3) d])
  define s1 where "s1 = note_aggressor p s"
  have s1: "engine_fits s1" "sp_sink s1 = Some sent" "sp_set s1 = snd (bs_at ?l (sp_set s))"
  proof -
    show "engine_fits s1"
      by (rule fits_cong [OF s(1)]) (use books_at in \<open>simp_all add: s1_def note_aggressor_def Let_def\<close>)
  qed (use s(2) in \<open>simp_all add: s1_def note_aggressor_def Let_def\<close>)
  note B = A [folded s1(3)]
  let ?st = "bs_store (sp_set s1)"
  have sb: "sp_book ?l s1 = (?st, b)" using B(1) by (simp add: sp_book_def)
  text \<open>A consumer looks the book up as well.\<close>
  have first: "fst (apply_set (exec_msg stk p rn ! 0) (exec_msg stk p rn) (sp_set s)) =
      fst (apply_set (exec_msg stk p rn ! 0) (exec_msg stk p rn) (sp_set s1))" for rn
    using B(4,5) by (simp add: apply_set_def exec_msg_fields [OF k] modelled_def)
  have go: "run_feed (map (exec_msg stk p) (rn # fs)) (sp_set s) = run_feed (map (exec_msg stk p) (rn # fs)) (sp_set s1)" for rn fs
    by (simp add: run_feed_def first)
  show ?thesis
  proof (cases "bk_find ?ref (?st, b)")
    case None
    then have e: "a" "s' = emit_exec stk p ?ref ?n (sp_put ?l (bk_execute ?ref ?n (?st, b))
        (s1\<lparr> sp_c := (sp_c s1)\<lparr> sc_unknown_ref := sc_unknown_ref (sp_c s1) + 1 \<rparr> \<rparr>))"
      using res sb by (simp_all add: aggress_def Let_def sp_book_def flip: s1_def)
    have "sp_sink s' = Some (sent @ [exec_msg stk p (?ref, ?n)])" "engine_fits s'"
      "sp_set s' = bs_put ?l (bk_execute ?ref ?n (?st, b)) (sp_set s1)"
      using s1 by (simp_all add: e(2) emit_exec_sends fits_put)
    then show ?thesis
      using consume_exec [OF k B(1,3), of "(?ref, ?n)"] go [of "(?ref, ?n)" "[]"] e(1)
      by (intro exI [of _ "[(?ref, ?n)]"]) (simp add: run_feed_def)
  next
    case (Some x)
    let ?o = "st_heap ?st x"
    define before where "before = orders_ahead ?ref (o_side ?o) (o_price ?o) (?st, b)"
    define rs where "rs = map o_ref (filter (\<lambda>q. is_strategy_ref (o_ref q)) before)"
    define s2 where "s2 = note_historical before s1"
    have s2: "engine_fits s2" "sp_sink s2 = Some sent" "sp_set s2 = sp_set s1" using s1 by (simp_all add: s2_def note_historical_def)
    obtain rem s3 where w: "walk_ahead stk p ?l (o_price ?o) rs ?n s2 = (rem, s3)" by fastforce
    have "(s', a) = (finish_named stk p (o_price ?o) (rem, s3), True)"
      using res Some w by (simp add: aggress_def Let_def aggress_on_def sb rs_def before_def s2_def flip: s1_def)
    then have r3: "a" "s' = finish_named stk p (o_price ?o) (rem, s3)" by simp_all
    have pr: "\<forall>r \<in> set rs. \<forall>e \<in> set M. re_ref e = r \<longrightarrow> re_locate e = ?l \<and> re_price e = o_price ?o"
      using ahead_price [OF B(2,1)] unfolding rs_def before_def by auto
    obtain fs b3 where F:
      "sp_sink s3 = Some (sent @ map (exec_msg stk p) fs)" "sp_set s3 = run_feed (map (exec_msg stk p) fs) (sp_set s1)"
      "engine_fits s3" "sum_list (map (unat \<circ> snd) fs) + unat rem = unat ?n" "fst ` set fs \<subseteq> set rs"
      "bs_books (sp_set s3) ?l = Some b3" "si_directoried (bs_dir (sp_set s3) ?l)"
      using walk_consumed [OF k refl s2(1,2) B(2,1,3) [folded s2(3)] pr w] unfolding s2(3) by blast
    have none: "fs = [] \<and> rem = ?n" if m: "\<forall>e \<in> set M. \<not> is_strategy_ref (re_ref e)"
    proof -
      have "\<not> is_strategy_ref (o_ref q)" if "q \<in> set before" for q
        using ahead_named [OF B(2,1), of q] that m unfolding before_def names_def by metis
      then have "rs = []" by (simp add: rs_def filter_empty_conv)
      then have "fs = []" using F(5) by simp
      then show ?thesis using F(4) by (simp add: word_unat_eq_iff)
    qed
    have ahead: "?ref \<notin> set rs" unfolding rs_def before_def orders_ahead_def by (auto dest: set_takeWhileD)
    show ?thesis
    proof (cases "rem = 0")
      case True
      then have e: "s' = s3" "a" using r3 by (simp_all add: finish_named_def)
      have "fs \<noteq> []" using True F(4) n by (auto simp: unat_eq_zero)
      then obtain rn fs' where fs: "fs = rn # fs'" by (cases fs) auto
      show ?thesis using F True none n go [of rn fs'] e(2) unfolding e(1) fs by (intro exI [of _ "rn # fs'"]) auto
    next
      case False
      have r3': "represents (sp_set s3) (fold mk_apply (map (exec_msg stk p) fs) M)"
        unfolding F(2) using feed_refines [OF B(2) execs_ok [OF k]] .
      obtain e where "e \<in> set M" "names ?l ?ref e" "re_price e = o_price ?o" using find_named [OF B(2,1) Some] .
      then have e3: "e \<in> set (fold mk_apply (map (exec_msg stk p) fs) M)" "names ?l ?ref e" "re_price e = o_price ?o"
        using execs_keep [OF k, of e M ?l ?ref fs p] F(5) ahead by auto
      obtain x3 where x3: "bk_find ?ref (bs_store (sp_set s3), b3) = Some x3" using named_find [OF r3' F(6) e3(1,2)] .
      obtain e' where e': "e' \<in> set (fold mk_apply (map (exec_msg stk p) fs) M)" "names ?l ?ref e'"
        "re_price e' = o_price (st_heap (bs_store (sp_set s3)) x3)" using find_named [OF r3' F(6) x3] .
      have "o_price (st_heap (bs_store (sp_set s3)) x3) = o_price ?o"
        using named_once [OF representsD(2) [OF r3'] e'(1) e3(1) e'(2) e3(2)] e3(3) e'(3) by simp
      note X = execute_is_take_and_print(2) [OF representsD(1) [OF r3'] x3 this, of rem]
      have b3: "sp_book ?l s3 = (bs_store (sp_set s3), b3)" using F(6) by (simp add: sp_book_def)
      have e: "a" "s' = emit_exec stk p ?ref rem (sp_put ?l (bk_execute ?ref rem (bs_store (sp_set s3), b3)) s3)"
        using r3 False by (simp_all add: finish_named_def print_trade_def Let_def b3 X word_neq_0_conv)
      have "sp_set s' = run_feed (map (exec_msg stk p) (fs @ [(?ref, rem)])) (sp_set s1)"
        using consume_exec [OF k F(6,7), of "(?ref, rem)"] F(2) by (simp add: e(2) run_feed_def)
      moreover have "run_feed (map (exec_msg stk p) (fs @ [(?ref, rem)])) (sp_set s1) =
          run_feed (map (exec_msg stk p) (fs @ [(?ref, rem)])) (sp_set s)"
        using go by (cases fs) (simp_all only: append_Nil append_Cons)
      ultimately show ?thesis
        using F(1,3,4) none e(1) by (intro exI [of _ "fs @ [(?ref, rem)]"]) (auto simp: e(2) emit_exec_sends fits_put)
    qed
  qed
qed

section \<open>Runs\<close>

definition split_run :: "(u8 list \<times> u8 list) list \<Rightarrow> split \<Rightarrow> split" where
  "split_run qs s = fold (\<lambda>(stk, p) s. fst (split_apply stk (p ! 0) p s)) qs s"

text \<open>What a message adds to the stream that is published.\<close>

definition newly_sent :: "split \<Rightarrow> split \<Rightarrow> u8 list list" where
  "newly_sent s s' = drop (length (the (sp_sink s))) (the (sp_sink s'))"

text \<open>A feed the replayer can be given, with the market its own messages leave.\<close>

fun split_valid :: "resting list \<Rightarrow> (u8 list \<times> u8 list) list \<Rightarrow> split \<Rightarrow> bool" where
  "split_valid M [] s \<longleftrightarrow> True"
| "split_valid M ((stk, p) # qs) s \<longleftrightarrow>
     kMaxMessage \<le> length stk \<and> canonical p \<and> msg_ok M p \<and> (p ! 0 = ch CHR ''E'' \<longrightarrow> order_executed_shares p \<noteq> 0) \<and>
     (let s' = fst (split_apply stk (p ! 0) p s) in split_valid (fold mk_apply (newly_sent s s') M) qs s')"

definition republished :: "u8 list \<Rightarrow> bool" where
  "republished p \<longleftrightarrow> published (p ! 0) \<or> p ! 0 = ch CHR ''E''"

definition refs_named :: "u8 list \<Rightarrow> u64 list" where
  "refs_named p =
     (let t = p ! 0 in
      if t = ch CHR ''A'' then [add_order_ref p]
      else if t = ch CHR ''F'' then [add_order_mpid_ref p]
      else if t = ch CHR ''E'' then [order_executed_ref p]
      else if t = ch CHR ''C'' then [order_executed_price_ref p]
      else if t = ch CHR ''X'' then [order_cancel_ref p]
      else if t = ch CHR ''D'' then [order_delete_ref p]
      else if t = ch CHR ''U'' then [order_replace_original_ref p, order_replace_new_ref p]
      else [])"

lemma check_partition_refs: "check_partition (p ! 0) p s = fold note_ref (refs_named p) s"
  by (simp add: check_partition_def refs_named_def Let_def)

lemma note_fields [simp]:
  "sp_set (fold note_ref rs s) = sp_set s" "sp_sink (fold note_ref rs s) = sp_sink s"
  "sp_matcher (fold note_ref rs s) = sp_matcher s"
  by (induction rs arbitrary: s) (simp_all add: note_ref_def)

lemma note_fits [simp]: "engine_fits (fold note_ref rs s) = engine_fits s"
  by (simp add: engine_fits_def split: option.split)

lemma note_count: "sc_violations (sp_c (fold note_ref rs s)) = sc_violations (sp_c s) + of_nat (length (filter is_strategy_ref rs))"
  by (induction rs arbitrary: s) (simp_all add: note_ref_def)

lemma violations_kept [simp]:
  "sc_violations (sp_c (hand_on m s)) = sc_violations (sp_c s)"
  "sc_violations (sp_c (emit_state stk t p s)) = sc_violations (sp_c s)"
  "sc_violations (sp_c (emit_exec stk p r n s)) = sc_violations (sp_c s)"
  "sc_violations (sp_c (sp_put l sb s)) = sc_violations (sp_c s)"
  "sc_violations (sp_c (print_trade l price n s)) = sc_violations (sp_c s)"
  "sc_violations (sp_c (trace_fill r n s)) = sc_violations (sp_c s)"
  by (simp_all add: hand_on_def emit_state_def emit_exec_def sp_put_def print_trade_def trace_fill_def Let_def split: option.split)

lemma take_violations: "take_from l r rem price mn s = (n, s') \<Longrightarrow> sc_violations (sp_c s') = sc_violations (sp_c s)"
  by (auto simp: take_from_def sp_put_def Let_def split: option.splits prod.splits)

lemma walk_violations: "sc_violations (sp_c (snd (walk_ahead stk p l price rs rem s))) = sc_violations (sp_c s)"
  by (induction rs arbitrary: rem s) (auto simp: Let_def take_violations split: prod.split option.split)

lemma aggress_violations: "sc_violations (sp_c (fst (aggress stk p s))) = sc_violations (sp_c s)"
proof -
  have "sc_violations (sp_c (finish_named stk p price rs)) = sc_violations (sp_c (snd rs))" for price rs
    by (cases rs) (simp add: finish_named_def Let_def)
  moreover have "sc_violations (sp_c (note_aggressor p s)) = sc_violations (sp_c s)"
    "sc_violations (sp_c (note_historical before s)) = sc_violations (sp_c s)" for before s
    by (simp_all add: note_aggressor_def note_historical_def Let_def)
  ultimately show ?thesis
    by (simp add: aggress_def aggress_on_def walk_violations Let_def split: option.split)
qed

lemma step_violations:
  "sc_violations (sp_c (fst (split_apply stk (p ! 0) p s))) =
     sc_violations (sp_c s) + of_nat (length (filter is_strategy_ref (refs_named p)))"
  by (simp add: split_apply_def check_partition_refs note_count aggress_violations Let_def split: prod.split)

lemma run_violations:
  "sc_violations (sp_c (split_run qs s)) =
     sc_violations (sp_c s) + of_nat (length (filter is_strategy_ref (concat (map (refs_named \<circ> snd) qs))))"
  by (induction qs arbitrary: s) (simp_all add: split_run_def step_violations split_def)

lemma refs_few: "length (concat (map (refs_named \<circ> snd) qs)) \<le> 2 * length qs"
proof (induction qs)
  case (Cons q qs)
  have "length (refs_named (snd q)) \<le> 2" by (simp add: refs_named_def Let_def)
  then show ?case using Cons by simp
qed simp

text \<open>The counter tells: it is still zero exactly when no message named a reference of the strategies' half.\<close>

lemma partition_counts:
  assumes "sc_violations (sp_c s) = 0" "length qs < 2 ^ 63"
  shows "partition_held (split_run qs s) \<longleftrightarrow> (\<forall>q \<in> set qs. \<forall>r \<in> set (refs_named (snd q)). \<not> is_strategy_ref r)"
proof -
  let ?bad = "filter is_strategy_ref (concat (map (refs_named \<circ> snd) qs))"
  have "length ?bad \<le> 2 * length qs" using refs_few length_filter_le le_trans by blast
  then have "unat (of_nat (length ?bad) :: u64) = length ?bad" using assms(2) by (intro unat_of_nat64) simp
  then have "(of_nat (length ?bad) :: u64) = 0 \<longleftrightarrow> ?bad = []" by (metis length_0_conv unat_eq_zero)
  then show ?thesis by (auto simp: partition_held_def run_violations assms(1) filter_empty_conv)
qed

section \<open>The consumer has the books of the exchange\<close>

lemma directory_kept: "si_directoried (bs_dir s l) \<Longrightarrow> si_directoried (bs_dir (fst (apply_set t p s)) l)"
proof -
  assume d: "si_directoried (bs_dir s l)"
  have "bs_dir (snd (bs_at k s)) = bs_dir s" for k by (simp add: bs_at_def Let_def split: option.split)
  then show ?thesis using d
    by (auto simp: apply_set_def set_system_event_def set_directory_def set_operational_halt_def set_mwcb_breached_def
        note_broken_trade_def bs_put_def Let_def split_def)
qed

lemma directory_run: "si_directoried (bs_dir s l) \<Longrightarrow> si_directoried (bs_dir (run_feed ps s) l)"
  by (induction ps arbitrary: s) (simp_all add: run_feed_def directory_kept)

lemma split_step:
  assumes k: "kMaxMessage \<le> length stk" and c: "canonical p" and s: "engine_fits s" "sp_sink s = Some sent"
    "represents (sp_set s) M" "si_directoried (bs_dir (sp_set s) (stock_locate p))" and ok: "msg_ok M p"
    and n: "p ! 0 = ch CHR ''E'' \<Longrightarrow> order_executed_shares p \<noteq> 0" and s': "s' = fst (split_apply stk (p ! 0) p s)"
  obtains ms where "sp_sink s' = Some (sent @ ms)" "sp_set s' = run_feed ms (sp_set s)" "engine_fits s'"
    "feed_ok M ms" "\<forall>e \<in> set M. \<not> is_strategy_ref (re_ref e) \<Longrightarrow> ms = (if republished p then [p] else [])"
proof (cases "p ! 0 = ch CHR ''E''")
  case True
  define s1 where "s1 = check_partition (p ! 0) p (s\<lparr> sp_c := (sp_c s)\<lparr> sc_messages := sc_messages (sp_c s) + 1 \<rparr> \<rparr>)"
  have s1: "engine_fits s1" "sp_sink s1 = Some sent" "sp_set s1 = sp_set s" using s by (simp_all add: s1_def check_partition_refs)
  obtain a where a: "aggress stk p s1 = (s', a)"
  proof -
    have "s' = fst (aggress stk p s1)"
      unfolding s' split_apply_def treatment_of_def Let_def s1_def True by simp
    with that show thesis by (metis prod.collapse)
  qed
  obtain fs where F: "sp_sink s' = Some (sent @ map (exec_msg stk p) fs)" "sp_set s' = run_feed (map (exec_msg stk p) fs) (sp_set s)"
    "engine_fits s'" "(\<forall>e \<in> set M. \<not> is_strategy_ref (re_ref e)) \<longrightarrow> fs = [(order_executed_ref p, order_executed_shares p)]"
    using aggress_consumed [OF k s1(1,2) s(3) [folded s1(3)] s(4) [folded s1(3)] n [OF True] a] s1(3) by auto
  have "length p = 31" using c True by (simp add: canonical_def spec_length_def)
  then have "exec_msg stk p (order_executed_ref p, order_executed_shares p) = p"
    using relays(4) [OF k True] by (simp add: exec_msg_def)
  then show thesis using F that [of "map (exec_msg stk p) fs"] execs_ok [OF k] True by (auto simp: republished_def)
next
  case False
  define s1 where "s1 = check_partition (p ! 0) p (s\<lparr> sp_c := (sp_c s)\<lparr> sc_messages := sc_messages (sp_c s) + 1 \<rparr> \<rparr>)"
  have s1: "engine_fits s1" "sp_sink s1 = Some sent" "sp_set s1 = sp_set s" using s by (simp_all add: s1_def check_partition_refs)
  define s2 where "s2 = s1\<lparr> sp_c := (sp_c s1)\<lparr> sc_state_applied := sc_state_applied (sp_c s1) + 1 \<rparr>,
      sp_set := fst (apply_set (p ! 0) p (sp_set s)) \<rparr>"
  have e: "s' = emit_state stk (p ! 0) p s2"
    using s' False s1(3) by (simp add: split_apply_def treatment_of_def Let_def s2_def split_def flip: s1_def)
  have "engine_fits s2" by (rule fits_cong [OF s1(1)]) (use s1(3) books_apply in \<open>simp_all add: s2_def\<close>)
  then have s2: "sp_set s' = fst (apply_set (p ! 0) p (sp_set s))" "engine_fits s'" "sp_sink s2 = Some sent"
    using s1 by (simp_all add: e) (simp_all add: s2_def)
  have rep: "republished p \<longleftrightarrow> published (p ! 0)" using False by (simp add: republished_def)
  show thesis
  proof (cases "published (p ! 0)")
    case True
    then obtain msg where m: "encode_state stk (p ! 0) p = Some msg" using encoded_none by blast
    have "sp_sink s' = Some (sent @ [p])"
      using encode_copies [OF c k m] s2(3) by (simp add: e emit_state_def m hand_on_def)
    then show thesis using that [of "[p]"] s2 ok True rep by (simp add: run_feed_def)
  next
    case unp: False
    then have "encode_state stk (p ! 0) p = None" by (simp add: encoded_none)
    then have "sp_sink s' = Some sent" using s2(3) by (simp add: e emit_state_def)
    moreover have "fst (apply_set (p ! 0) p (sp_set s)) = sp_set s"
      using unp False by (simp add: apply_set_def published_def modelled_def)
    ultimately show thesis using that [of "[]"] s2 unp rep by (simp add: run_feed_def)
  qed
qed

lemma run_consumed:
  "engine_fits s \<Longrightarrow> sp_sink s = Some sent \<Longrightarrow> represents (sp_set s) M \<Longrightarrow>
   \<forall>q \<in> set qs. si_directoried (bs_dir (sp_set s) (stock_locate (snd q))) \<Longrightarrow>
   split_valid M qs s \<Longrightarrow>
   \<exists>ms. sp_sink (split_run qs s) = Some (sent @ ms) \<and> sp_set (split_run qs s) = run_feed ms (sp_set s) \<and> feed_ok M ms"
proof (induction qs arbitrary: s sent M)
  case Nil
  then show ?case by (intro exI [of _ "[]"]) (simp add: split_run_def run_feed_def)
next
  case (Cons q qs)
  obtain stk p where q: "q = (stk, p)" by fastforce
  define s' where "s' = fst (split_apply stk (p ! 0) p s)"
  have v: "kMaxMessage \<le> length stk" "canonical p" "msg_ok M p" "p ! 0 = ch CHR ''E'' \<Longrightarrow> order_executed_shares p \<noteq> 0"
    "split_valid (fold mk_apply (newly_sent s s') M) qs s'"
    using Cons.prems(5) by (simp_all add: q s'_def Let_def)
  have d: "si_directoried (bs_dir (sp_set s) (stock_locate p))" using Cons.prems(4) q by simp
  obtain ms where S: "sp_sink s' = Some (sent @ ms)" "sp_set s' = run_feed ms (sp_set s)" "engine_fits s'" "feed_ok M ms"
    using split_step [OF v(1,2) Cons.prems(1-3) d v(3,4) s'_def] by metis
  have "newly_sent s s' = ms" using Cons.prems(2) S(1) by (simp add: newly_sent_def)
  then have v': "split_valid (fold mk_apply ms M) qs s'" using v(5) by simp
  have r': "represents (sp_set s') (fold mk_apply ms M)" unfolding S(2) by (rule feed_refines [OF Cons.prems(3) S(4)])
  have d': "\<forall>q \<in> set qs. si_directoried (bs_dir (sp_set s') (stock_locate (snd q)))"
    using Cons.prems(4) directory_run unfolding S(2) by simp
  obtain ms' where M: "sp_sink (split_run qs s') = Some ((sent @ ms) @ ms')" "sp_set (split_run qs s') = run_feed ms' (sp_set s')"
    "feed_ok (fold mk_apply ms M) ms'"
    using Cons.IH [OF S(3,1) r' d' v'] by blast
  have "feed_ok M (ms @ ms')" using S(4) M(3) by (induction ms arbitrary: M) simp_all
  then show ?case using M S(2) by (intro exI [of _ "ms @ ms'"]) (simp add: split_run_def q s'_def run_feed_def)
qed

definition relayable :: "u8 list \<times> u8 list \<Rightarrow> bool" where
  "relayable q \<longleftrightarrow> kMaxMessage \<le> length (fst q) \<and> canonical (snd q) \<and>
     (snd q ! 0 = ch CHR ''E'' \<longrightarrow> order_executed_shares (snd q) \<noteq> 0)"

lemma unpublished_idle: "\<not> republished p \<Longrightarrow> fst (apply_set (p ! 0) p s) = s \<and> mk_apply p M = M"
  by (simp add: republished_def apply_set_def published_def modelled_def mk_apply_def)

lemma add_refs: "re_ref ` set (mk_add l r d px n M) \<subseteq> insert r (re_ref ` set M)"
  by (auto simp: mk_add_def)

lemma remove_refs: "re_ref ` set (mk_remove l r M) \<subseteq> re_ref ` set M"
  by (auto simp: mk_remove_def)

lemma replace_refs: "re_ref ` set (mk_replace l orig r px n M) \<subseteq> insert r (re_ref ` set M)"
proof (cases "List.find (names l orig) M")
  case (Some e)
  then show ?thesis using add_refs [of l r "re_bid e" px n "mk_remove l orig M"] remove_refs [of l orig M]
    by (simp add: mk_replace_def) blast
qed (auto simp: mk_replace_def)

lemma apply_refs: "re_ref ` set (mk_apply p M) \<subseteq> re_ref ` set M \<union> set (refs_named p)"
proof -
  have "re_ref ` set (mk_reduce l r n M) \<subseteq> insert q (re_ref ` set M)" "re_ref ` set (mk_remove l r M) \<subseteq> insert q (re_ref ` set M)"
    for l r n q by (intro subset_insertI2 reduce_refs remove_refs)+
  moreover have "re_ref ` set (mk_replace l orig r px n M) \<subseteq> re_ref ` set M \<union> {x. x = q \<or> x = r}" for l r n q px orig
    by (rule subset_trans [OF replace_refs]) auto
  ultimately show ?thesis by (simp add: mk_apply_def refs_named_def Let_def add_refs)
qed

lemma market_refs:
  assumes "\<forall>e \<in> set M. \<not> is_strategy_ref (re_ref e)" "\<forall>r \<in> set (refs_named p). \<not> is_strategy_ref r"
  shows "\<forall>e \<in> set (mk_apply p M). \<not> is_strategy_ref (re_ref e)"
proof
  fix e assume "e \<in> set (mk_apply p M)"
  then have "re_ref e \<in> re_ref ` set M \<union> set (refs_named p)" using apply_refs [of p M] by (meson imageI subsetD)
  then show "\<not> is_strategy_ref (re_ref e)" using assms by (elim UnE imageE) simp_all
qed

lemma run_transparent:
  "engine_fits s \<Longrightarrow> sp_sink s = Some sent \<Longrightarrow> represents (sp_set s) M \<Longrightarrow>
   \<forall>q \<in> set qs. si_directoried (bs_dir (sp_set s) (stock_locate (snd q))) \<Longrightarrow>
   \<forall>q \<in> set qs. relayable q \<Longrightarrow> feed_ok M (map snd qs) \<Longrightarrow> \<forall>e \<in> set M. \<not> is_strategy_ref (re_ref e) \<Longrightarrow>
   \<forall>q \<in> set qs. \<forall>r \<in> set (refs_named (snd q)). \<not> is_strategy_ref r \<Longrightarrow>
   sp_sink (split_run qs s) = Some (sent @ filter republished (map snd qs)) \<and>
   sp_set (split_run qs s) = run_feed (map snd qs) (sp_set s)"
proof (induction qs arbitrary: s sent M)
  case Nil
  then show ?case by (simp add: split_run_def run_feed_def)
next
  case (Cons q qs)
  obtain stk p where q: "q = (stk, p)" by fastforce
  define s' where "s' = fst (split_apply stk (p ! 0) p s)"
  have v: "kMaxMessage \<le> length stk" "canonical p" "msg_ok M p" "p ! 0 = ch CHR ''E'' \<Longrightarrow> order_executed_shares p \<noteq> 0"
    using Cons.prems(5,6) by (simp_all add: q relayable_def)
  have d: "si_directoried (bs_dir (sp_set s) (stock_locate p))" using Cons.prems(4) q by simp
  obtain ms where S: "sp_sink s' = Some (sent @ ms)" "sp_set s' = run_feed ms (sp_set s)" "engine_fits s'" "feed_ok M ms"
      "ms = (if republished p then [p] else [])"
    by (rule split_step [OF v(1,2) Cons.prems(1-3) d v(3,4) s'_def]) (use Cons.prems(7) in blast)+
  have e: "sp_set s' = fst (apply_set (p ! 0) p (sp_set s))"
    using S(2,5) unpublished_idle by (simp add: run_feed_def split: if_splits)
  have r': "represents (sp_set s') (mk_apply p M)" unfolding e by (rule apply_set_refines [OF Cons.prems(3) v(3)])
  have d': "\<forall>q \<in> set qs. si_directoried (bs_dir (sp_set s') (stock_locate (snd q)))"
    using Cons.prems(4) directory_run unfolding S(2) by simp
  have m': "\<forall>e \<in> set (mk_apply p M). \<not> is_strategy_ref (re_ref e)"
    by (rule market_refs) (use Cons.prems(7,8) q in auto)
  have "sp_sink (split_run qs s') = Some ((sent @ ms) @ filter republished (map snd qs)) \<and>
      sp_set (split_run qs s') = run_feed (map snd qs) (sp_set s')"
    using Cons.prems(5,6,8) by (intro Cons.IH [OF S(3,1) r' d' _ _ m']) (simp_all add: q)
  then show ?case by (simp add: split_run_def q s'_def [symmetric] S(5) run_feed_def e)
qed

section \<open>Shares\<close>

lemma external_fill_bound: "apply_external_fill i n price mn m = (q, m') \<Longrightarrow> q \<le> n"
  by (auto simp: apply_external_fill_def Let_def split: if_splits option.splits)

lemma take_bound: "take_from l r rem price mn s = (Some n, s') \<Longrightarrow> n \<le> rem \<and> sp_sink s' = sp_sink s"
  by (auto simp: take_from_def Let_def split: if_splits option.splits prod.splits dest: external_fill_bound)

lemma take_none: "take_from l r rem price mn s = (None, s') \<Longrightarrow> sp_sink s' = sp_sink s"
  by (auto simp: take_from_def Let_def split: if_splits option.splits prod.splits)

lemma walk_sent:
  "sp_sink s = Some sent \<Longrightarrow> walk_ahead stk p l price rs rem s = (rem', s') \<Longrightarrow>
   \<exists>fs. sp_sink s' = Some (sent @ map (exec_msg stk p) fs) \<and> sum_list (map (unat \<circ> snd) fs) + unat rem' = unat rem \<and>
     fst ` set fs \<subseteq> set rs"
proof (induction rs arbitrary: s sent rem)
  case Nil
  then show ?case by (intro exI [of _ "[]"]) simp
next
  case (Cons r rs)
  obtain n s1 where t: "take_from l r rem price (order_executed_match p) s = (n, s1)" by fastforce
  show ?case
  proof (cases "rem = 0")
    case True
    then show ?thesis using Cons.prems by (intro exI [of _ "[]"]) simp
  next
    case False
    show ?thesis
    proof (cases n)
      case None
      then have "walk_ahead stk p l price rs rem s1 = (rem', s')" "sp_sink s1 = Some sent"
        using t False Cons.prems take_none [of l r rem price] by auto
      from Cons.IH [OF this(2,1)] show ?thesis by (auto simp: comp_def)
    next
      case (Some m)
      have T: "m \<le> rem" "sp_sink s1 = Some sent" using take_bound t Some Cons.prems(1) by force+
      obtain s2 where w: "walk_ahead stk p l price rs (rem - m) s2 = (rem', s')" "sp_sink s2 = Some (sent @ [exec_msg stk p (r, m)])"
        using Cons.prems(2) t False Some T(2) by (auto simp: Let_def emit_exec_sends print_trade_def)
      obtain fs where F: "sp_sink s' = Some ((sent @ [exec_msg stk p (r, m)]) @ map (exec_msg stk p) fs)"
        "sum_list (map (unat \<circ> snd) fs) + unat rem' = unat (rem - m)" "fst ` set fs \<subseteq> set rs"
        using Cons.IH [OF w(2,1)] by blast
      have "unat (rem - m) = unat rem - unat m" "unat m \<le> unat rem" using T(1) by (simp_all add: unat_sub word_le_nat_alt)
      then show ?thesis using F by (intro exI [of _ "(r, m) # fs"]) (auto simp: comp_def)
    qed
  qed
qed

text \<open>Through the engine or not: the executions published for a message add up to its shares.\<close>

lemma shares_published:
  assumes "sp_sink s = Some sent" "p ! 0 = ch CHR ''E''"
  shows "\<exists>fs. sp_sink (fst (split_apply stk (p ! 0) p s)) = Some (sent @ map (exec_msg stk p) fs) \<and>
    sum_list (map (unat \<circ> snd) fs) = unat (order_executed_shares p) \<and>
    (\<forall>f \<in> set fs. fst f = order_executed_ref p \<or> is_strategy_ref (fst f))"
proof -
  define s1 where "s1 = note_aggressor p (check_partition (p ! 0) p (s\<lparr> sp_c := (sp_c s)\<lparr> sc_messages := sc_messages (sp_c s) + 1 \<rparr> \<rparr>))"
  let ?ref = "order_executed_ref p" and ?n = "order_executed_shares p" and ?l = "stock_locate p"
  have s1: "sp_sink s1 = Some sent" using assms(1) by (simp add: s1_def note_aggressor_def check_partition_refs Let_def)
  have e: "fst (split_apply stk (p ! 0) p s) = (case bk_find ?ref (sp_book ?l s1) of
      None \<Rightarrow> emit_exec stk p ?ref ?n (sp_put ?l (bk_execute ?ref ?n (sp_book ?l s1))
        (s1\<lparr> sp_c := (sp_c s1)\<lparr> sc_unknown_ref := sc_unknown_ref (sp_c s1) + 1 \<rparr> \<rparr>))
    | Some x \<Rightarrow> aggress_on stk p (st_heap (bs_store (sp_set s1)) x) s1)"
    unfolding split_apply_def treatment_of_def Let_def assms(2)
    by (simp add: aggress_def Let_def sp_book_def s1_def assms(2) split: option.split)
  show ?thesis
  proof (cases "bk_find ?ref (sp_book ?l s1)")
    case None
    then show ?thesis using s1 unfolding e by (intro exI [of _ "[(?ref, ?n)]"]) (simp add: emit_exec_sends)
  next
    case (Some x)
    let ?o = "st_heap (bs_store (sp_set s1)) x"
    define before where "before = orders_ahead ?ref (o_side ?o) (o_price ?o) (sp_book ?l s1)"
    define rs where "rs = map o_ref (filter (\<lambda>q. is_strategy_ref (o_ref q)) before)"
    obtain rem s3 where w: "walk_ahead stk p ?l (o_price ?o) rs ?n (note_historical before s1) = (rem, s3)" by fastforce
    have "sp_sink (note_historical before s1) = Some sent" using s1 by (simp add: note_historical_def)
    from walk_sent [OF this w] obtain fs where F: "sp_sink s3 = Some (sent @ map (exec_msg stk p) fs)"
      "sum_list (map (unat \<circ> snd) fs) + unat rem = unat ?n" "fst ` set fs \<subseteq> set rs" by blast
    have st: "\<forall>f \<in> set fs. is_strategy_ref (fst f)" using F(3) by (auto simp: rs_def)
    have e': "fst (split_apply stk (p ! 0) p s) = finish_named stk p (o_price ?o) (rem, s3)"
      unfolding e using Some w by (simp add: aggress_on_def Let_def rs_def before_def)
    show ?thesis
    proof (cases "rem = 0")
      case True
      then show ?thesis using F st unfolding e' by (intro exI [of _ fs]) (auto simp: finish_named_def comp_def)
    next
      case False
      then show ?thesis using F st unfolding e'
        by (intro exI [of _ "fs @ [(?ref, rem)]"])
          (auto simp: finish_named_def comp_def emit_exec_sends print_trade_def word_neq_0_conv Let_def)
    qed
  qed
qed

end
