(* ===== verification/Gap.thy ===== *)
theory Gap
  imports Prelude
begin

text \<open>
  What to do about a hole in the feed: the gap policy of include/itchbook/recover/gap_policy.hpp. After a gap
  the book is rebuilt from the next message on and is not trusted until few enough of the recent references
  were unknown. The lemmas say what the sixteen buckets of the tracker count, in terms of the list of
  references since the gap, and from that when trust comes back.
\<close>

section \<open>The tracker\<close>

datatype recovery_state = Trusted | Recovering | StoppedForGood

fun recovery_name :: "recovery_state \<Rightarrow> string" where
  "recovery_name Trusted = ''trusted''"
| "recovery_name Recovering = ''recovering''"
| "recovery_name StoppedForGood = ''halted''"

datatype gap_policy = RebuildForward | HaltOnGap

record gap_config =
  gc_policy :: gap_policy
  gc_window :: u64
  gc_tolerance :: u64
  gc_max_gaps :: u64

definition gap_config_default :: gap_config where
  "gap_config_default = \<lparr> gc_policy = RebuildForward, gc_window = 50000, gc_tolerance = 5, gc_max_gaps = 100 \<rparr>"

record gap_stats =
  gs_gaps :: u64
  gs_messages_lost :: u64
  gs_rebuilds :: u64
  gs_recoveries :: u64
  gs_unknown_refs :: u64
  gs_untrusted :: u64
  gs_stream_ends :: u64
  gs_truncated :: u64

record gap_tracker =
  gt_cfg :: gap_config
  gt_stats :: gap_stats
  gt_state :: recovery_state
  gt_last_gap_at :: u64
  gt_buckets :: "u64 list"
  gt_head :: nat
  gt_in_bucket :: u64
  gt_window_unknown :: u64
  gt_refs :: u64

definition kGapBuckets :: nat where "kGapBuckets = 16"

definition gap_new :: "gap_config \<Rightarrow> gap_tracker" where
  "gap_new cfg = \<lparr> gt_cfg = cfg, gt_stats = \<lparr> gs_gaps = 0, gs_messages_lost = 0, gs_rebuilds = 0, gs_recoveries = 0,
     gs_unknown_refs = 0, gs_untrusted = 0, gs_stream_ends = 0, gs_truncated = 0 \<rparr>, gt_state = Trusted,
     gt_last_gap_at = 0, gt_buckets = replicate kGapBuckets 0, gt_head = 0, gt_in_bucket = 0, gt_window_unknown = 0,
     gt_refs = 0 \<rparr>"

definition bucket_size :: "gap_tracker \<Rightarrow> u64" where
  "bucket_size s = (let n = gc_window (gt_cfg s) div of_nat kGapBuckets in if n = 0 then 1 else n)"

definition reset_window :: "gap_tracker \<Rightarrow> gap_tracker" where
  "reset_window s = s\<lparr> gt_buckets := replicate kGapBuckets 0, gt_head := 0, gt_in_bucket := 0, gt_window_unknown := 0,
     gt_refs := 0 \<rparr>"

definition gt_on_gap :: "u64 \<Rightarrow> u64 \<Rightarrow> gap_tracker \<Rightarrow> bool \<times> gap_tracker" where
  "gt_on_gap first_missing n s =
     (let s = s\<lparr> gt_stats := (gt_stats s)\<lparr> gs_gaps := gs_gaps (gt_stats s) + 1 \<rparr> \<rparr>;
          s = s\<lparr> gt_stats := (gt_stats s)\<lparr> gs_messages_lost := gs_messages_lost (gt_stats s) + n \<rparr> \<rparr>;
          s = s\<lparr> gt_last_gap_at := first_missing \<rparr>;
          s = reset_window s
      in if gc_policy (gt_cfg s) = HaltOnGap \<or> gs_gaps (gt_stats s) > gc_max_gaps (gt_cfg s) then
           (False, s\<lparr> gt_state := StoppedForGood \<rparr>)
         else
           (True, s\<lparr> gt_state := Recovering, gt_stats := (gt_stats s)\<lparr> gs_rebuilds := gs_rebuilds (gt_stats s) + 1 \<rparr> \<rparr>))"

definition count_unknown :: "bool \<Rightarrow> gap_tracker \<Rightarrow> gap_tracker" where
  "count_unknown resolved s =
     (if resolved then s
      else s\<lparr> gt_stats := (gt_stats s)\<lparr> gs_unknown_refs := gs_unknown_refs (gt_stats s) + 1 \<rparr>,
              gt_buckets := (gt_buckets s)[gt_head s := gt_buckets s ! gt_head s + 1],
              gt_window_unknown := gt_window_unknown s + 1 \<rparr>)"

definition advance_bucket :: "gap_tracker \<Rightarrow> gap_tracker" where
  "advance_bucket s =
     (let s = s\<lparr> gt_in_bucket := gt_in_bucket s + 1 \<rparr> in
      if gt_in_bucket s \<ge> bucket_size s then
        (let head = (gt_head s + 1) mod kGapBuckets
         in s\<lparr> gt_in_bucket := 0, gt_head := head, gt_window_unknown := gt_window_unknown s - gt_buckets s ! head,
               gt_buckets := (gt_buckets s)[head := 0] \<rparr>)
      else s)"

definition gt_on_reference :: "bool \<Rightarrow> gap_tracker \<Rightarrow> gap_tracker" where
  "gt_on_reference resolved s =
     (if gt_state s \<noteq> Recovering then s
      else
        (let s = s\<lparr> gt_stats := (gt_stats s)\<lparr> gs_untrusted := gs_untrusted (gt_stats s) + 1 \<rparr> \<rparr>;
             s = s\<lparr> gt_refs := gt_refs s + 1 \<rparr>;
             s = count_unknown resolved s;
             s = advance_bucket s
         in if gt_refs s \<ge> gc_window (gt_cfg s) \<and> gt_window_unknown s \<le> gc_tolerance (gt_cfg s) then
              reset_window (s\<lparr> gt_state := Trusted,
                gt_stats := (gt_stats s)\<lparr> gs_recoveries := gs_recoveries (gt_stats s) + 1 \<rparr> \<rparr>)
            else s))"

definition gt_on_stream_end :: "bool \<Rightarrow> gap_tracker \<Rightarrow> gap_tracker" where
  "gt_on_stream_end saw_end_of_session s =
     (let s = s\<lparr> gt_stats := (gt_stats s)\<lparr> gs_stream_ends := gs_stream_ends (gt_stats s) + 1 \<rparr> \<rparr> in
      if saw_end_of_session then s
      else s\<lparr> gt_stats := (gt_stats s)\<lparr> gs_truncated := gs_truncated (gt_stats s) + 1 \<rparr>, gt_state := StoppedForGood \<rparr>)"

definition gt_trusted :: "gap_tracker \<Rightarrow> bool" where "gt_trusted s \<longleftrightarrow> gt_state s = Trusted"
definition gt_halted :: "gap_tracker \<Rightarrow> bool" where "gt_halted s \<longleftrightarrow> gt_state s = StoppedForGood"

section \<open>What the buckets hold\<close>

text \<open>The references since the gap, whether each was resolved; \<open>unknown k hs\<close> of them from the \<open>k\<close>th on were not.\<close>

definition unknown :: "nat \<Rightarrow> bool list \<Rightarrow> nat" where
  "unknown k hs = length (filter Not (drop k hs))"

definition per_bucket :: "gap_tracker \<Rightarrow> nat" where
  "per_bucket s = unat (bucket_size s)"

text \<open>The first reference the window still covers: the current bucket and the fifteen before it.\<close>

definition window_from :: "nat \<Rightarrow> nat \<Rightarrow> nat" where
  "window_from b n = (n div b - 15) * b"

definition gap_ok :: "bool list \<Rightarrow> gap_tracker \<Rightarrow> bool" where
  "gap_ok hs s \<longleftrightarrow>
     (let n = length hs; b = per_bucket s; m = n div b in
      gt_state s = Recovering \<and> gt_refs s = of_nat n \<and> gt_in_bucket s = of_nat (n mod b) \<and> gt_head s = m mod 16 \<and>
      length (gt_buckets s) = 16 \<and> gt_window_unknown s = of_nat (unknown (window_from b n) hs) \<and>
      (\<forall>q \<le> m. m < q + 16 \<longrightarrow> gt_buckets s ! (q mod 16) = of_nat (unknown (q * b) hs - unknown ((q + 1) * b) hs)) \<and>
      (\<forall>j < 16. m < j \<longrightarrow> gt_buckets s ! j = 0))"

lemma bucket_pos: "0 < per_bucket s"
  by (simp add: per_bucket_def bucket_size_def Let_def unat_gt_0 split: if_splits)

lemma unknown_snoc: "k \<le> length hs \<Longrightarrow> unknown k (hs @ [r]) = unknown k hs + (if r then 0 else 1)"
  by (simp add: unknown_def)

lemma unknown_past: "length hs \<le> k \<Longrightarrow> unknown k hs = 0"
  by (simp add: unknown_def)

lemma unknown_antimono: "k \<le> k' \<Longrightarrow> unknown k' hs \<le> unknown k hs"
proof -
  assume "k \<le> k'"
  then have "drop k hs = take (k' - k) (drop k hs) @ drop k' hs" by (metis append_take_drop_id drop_drop le_add_diff_inverse2)
  then show ?thesis unfolding unknown_def by (metis filter_append le_add2 length_append)
qed

lemma bucket_apart: "q < m \<Longrightarrow> m < q + 16 \<Longrightarrow> q mod 16 \<noteq> m mod (16 :: nat)"
  by (metis add.commute less_diff_conv2 less_imp_le_nat mod_eq_dvd_iff_nat nat_dvd_not_less zero_less_diff)

lemma advance_cases:
  "\<not> bucket_size u \<le> gt_in_bucket u + 1 \<Longrightarrow> advance_bucket u = u\<lparr> gt_in_bucket := gt_in_bucket u + 1 \<rparr>"
  "bucket_size u \<le> gt_in_bucket u + 1 \<Longrightarrow> advance_bucket u = u\<lparr> gt_in_bucket := 0, gt_head := (gt_head u + 1) mod kGapBuckets,
     gt_window_unknown := gt_window_unknown u - gt_buckets u ! ((gt_head u + 1) mod kGapBuckets),
     gt_buckets := (gt_buckets u)[(gt_head u + 1) mod kGapBuckets := 0] \<rparr>"
proof -
  have "bucket_size (u\<lparr> gt_in_bucket := x \<rparr>) = bucket_size u" for x by (simp add: bucket_size_def)
  then show "\<not> bucket_size u \<le> gt_in_bucket u + 1 \<Longrightarrow> advance_bucket u = u\<lparr> gt_in_bucket := gt_in_bucket u + 1 \<rparr>"
    "bucket_size u \<le> gt_in_bucket u + 1 \<Longrightarrow> advance_bucket u = u\<lparr> gt_in_bucket := 0, gt_head := (gt_head u + 1) mod kGapBuckets,
     gt_window_unknown := gt_window_unknown u - gt_buckets u ! ((gt_head u + 1) mod kGapBuckets),
     gt_buckets := (gt_buckets u)[(gt_head u + 1) mod kGapBuckets := 0] \<rparr>"
    by (simp_all add: advance_bucket_def Let_def)
qed

lemma gap_step:
  assumes ok: "gap_ok hs s" and small: "Suc (length hs) < 2 ^ 64"
    and t_def: "t = advance_bucket (count_unknown r (s\<lparr> gt_stats := st, gt_refs := gt_refs s + 1 \<rparr>))"
  shows "gap_ok (hs @ [r]) t" "gt_cfg t = gt_cfg s"
proof -
  define n b m where "n = length hs" and "b = per_bucket s" and "m = n div b"
  have b: "0 < b" by (simp add: b_def bucket_pos)
  have bs: "bucket_size s = of_nat b" "b < 2 ^ 64"
    using unsigned_less [of "bucket_size s"] by (simp_all add: b_def per_bucket_def)
  have G: "gt_state s = Recovering" "gt_refs s = of_nat n" "gt_in_bucket s = of_nat (n mod b)" "gt_head s = m mod 16"
    "length (gt_buckets s) = 16" "gt_window_unknown s = of_nat (unknown (window_from b n) hs)"
    and Gq: "\<And>q. q \<le> m \<Longrightarrow> m < q + 16 \<Longrightarrow> gt_buckets s ! (q mod 16) = of_nat (unknown (q * b) hs - unknown ((q + 1) * b) hs)"
    and Gj: "\<And>j. j < 16 \<Longrightarrow> m < j \<Longrightarrow> gt_buckets s ! j = 0"
    using ok unfolding gap_ok_def Let_def n_def [symmetric] b_def [symmetric] m_def [symmetric] by blast+
  define u where "u = count_unknown r (s\<lparr> gt_stats := st, gt_refs := gt_refs s + 1 \<rparr>)"
  let ?hs = "hs @ [r]" and ?bu = "gt_buckets u"
  have mb: "m * b \<le> n" "n < (m + 1) * b"
    using b by (simp_all add: m_def div_times_less_eq_dividend dividend_less_div_times)
  have u: "gt_state u = Recovering" "gt_refs u = of_nat (Suc n)" "gt_in_bucket u = of_nat (n mod b)" "gt_head u = m mod 16"
    "length ?bu = 16" "bucket_size u = of_nat b" "gt_cfg u = gt_cfg s"
    using G bs by (simp_all add: u_def count_unknown_def bucket_size_def)
  have win: "gt_window_unknown u = of_nat (unknown (window_from b n) ?hs)"
  proof -
    have "window_from b n \<le> n" unfolding window_from_def m_def [symmetric] using mb(1) by (metis diff_le_self le_trans mult_le_mono1)
    then show ?thesis using G(6) by (simp add: u_def count_unknown_def unknown_snoc n_def)
  qed
  have bq: "?bu ! (q mod 16) = of_nat (unknown (q * b) ?hs - unknown ((q + 1) * b) ?hs)" if q: "q \<le> m" "m < q + 16" for q
  proof (cases "q = m")
    case True
    have "unknown ((m + 1) * b) hs = 0" "unknown ((m + 1) * b) ?hs = 0" using mb(2) by (simp_all add: unknown_past n_def)
    then show ?thesis using Gq [of m] G(4,5) mb(1) by (simp add: True u_def count_unknown_def unknown_snoc n_def)
  next
    case False
    then have lt: "q < m" using q by simp
    have "(q + 1) * b \<le> m * b" using lt by (intro mult_le_mono1) simp
    then have k: "(q + 1) * b \<le> length hs" "q * b \<le> length hs" using mb(1) by (simp_all add: n_def)
    have "?bu ! (q mod 16) = gt_buckets s ! (q mod 16)" using bucket_apart [OF lt q(2)] G(4) by (simp add: u_def count_unknown_def)
    then show ?thesis unfolding Gq [OF q] unknown_snoc [OF k(1)] unknown_snoc [OF k(2)] by simp
  qed
  have bj: "?bu ! j = 0" if "j < 16" "m < j" for j
    using Gj [OF that] that G(4) by (simp add: u_def count_unknown_def)
  have t: "t = advance_bucket u" by (simp add: t_def u_def)
  show "gt_cfg t = gt_cfg s" using u(7) by (simp add: t advance_bucket_def Let_def)
  have pb: "per_bucket t = b" using u(6,7) \<open>gt_cfg t = gt_cfg s\<close> by (simp add: b_def per_bucket_def bucket_size_def)
  have small': "n mod b + 1 < 2 ^ 64" using small mod_less_eq_dividend [of n b] unfolding n_def by linarith
  have cmp: "gt_in_bucket u + 1 \<ge> bucket_size u \<longleftrightarrow> b \<le> n mod b + 1"
  proof -
    have "gt_in_bucket u + 1 = of_nat (n mod b + 1)" by (simp add: u(3))
    then show ?thesis using small' bs(2) unfolding u(6) by (simp only: word_le_nat_alt unat_of_nat64)
  qed
  show "gap_ok ?hs t"
  proof (cases "n mod b + 1 = b")
    case False
    then have "n mod b + 1 < b" using b mod_less_divisor [of b n] by linarith
    then have dm: "Suc n div b = m" "Suc n mod b = n mod b + 1" unfolding m_def by (simp_all add: div_Suc mod_Suc)
    have t': "t = u\<lparr> gt_in_bucket := of_nat (n mod b + 1) \<rparr>"
      unfolding t using cmp \<open>n mod b + 1 < b\<close> u(3) by (simp add: advance_cases(1))
    have "window_from b (Suc n) = window_from b n" by (simp add: window_from_def dm m_def)
    then show ?thesis
      unfolding gap_ok_def Let_def pb using u win bq bj by (simp add: t' dm flip: n_def)
  next
    case True
    then have dm: "Suc n div b = m + 1" "Suc n mod b = 0" unfolding m_def by (simp_all add: div_Suc mod_Suc)
    let ?k = "(m + 1) mod 16"
    have t': "t = u\<lparr> gt_in_bucket := 0, gt_head := ?k, gt_window_unknown := gt_window_unknown u - ?bu ! ?k,
        gt_buckets := ?bu[?k := 0] \<rparr>"
      unfolding t using cmp True u(3,4) by (simp add: advance_cases(2) kGapBuckets_def mod_Suc_eq)
    have full: "(m + 1) * b = Suc n" using dm(1,2) by (metis div_mult_mod_eq add_0_right)
    have z: "unknown (Suc n) ?hs = 0" "unknown ((m + 1 + 1) * b) ?hs = 0" using full by (simp_all add: unknown_past n_def)
    have w: "gt_window_unknown u - ?bu ! ?k = of_nat (unknown (window_from b (Suc n)) ?hs)"
    proof (cases "15 \<le> m")
      case True
      have "m + 1 = (m - 15) + 16" using True by simp
      then have "?k = (m - 15) mod 16" by (metis mod_add_self2)
      moreover have "m - 15 + 1 = m - 14" using True by simp
      ultimately have "?bu ! ?k = of_nat (unknown ((m - 15) * b) ?hs - unknown ((m - 14) * b) ?hs)"
        using bq [of "m - 15"] True by simp
      moreover have "window_from b n = (m - 15) * b" "window_from b (Suc n) = (m - 14) * b"
        unfolding window_from_def m_def [symmetric] dm using True by simp_all
      moreover have "unknown ((m - 14) * b) ?hs \<le> unknown ((m - 15) * b) ?hs"
        by (rule unknown_antimono) (intro mult_le_mono1, simp)
      ultimately show ?thesis using win by (simp add: of_nat_diff)
    next
      case False
      then have "?k = m + 1" "?bu ! (m + 1) = 0" using bj [of "m + 1"] by simp_all
      moreover have "window_from b n = 0" "window_from b (Suc n) = 0"
        unfolding window_from_def m_def [symmetric] dm using False by simp_all
      ultimately show ?thesis using win by simp
    qed
    have q': "gt_buckets t ! (q mod 16) = of_nat (unknown (q * b) ?hs - unknown ((q + 1) * b) ?hs)" if q: "q \<le> m + 1" "m + 1 < q + 16" for q
    proof (cases "q = m + 1")
      case True
      then show ?thesis using full z u(5) by (simp add: t')
    next
      case False
      then have "q \<le> m" "m < q + 16" "q mod 16 \<noteq> ?k" using q bucket_apart [of q "m + 1"] by auto
      then show ?thesis using bq by (simp add: t')
    qed
    have j': "gt_buckets t ! j = 0" if "j < 16" "m + 1 < j" for j
      using bj [of j] that u(5) by (simp add: t' nth_list_update)
    show ?thesis
      unfolding gap_ok_def Let_def pb using u w q' j' by (simp add: t' dm flip: n_def)
  qed
qed

section \<open>When trust comes back\<close>

definition gap_bucket :: "gap_config \<Rightarrow> nat" where
  "gap_bucket cfg = max 1 (unat (gc_window cfg) div 16)"

text \<open>Some prefix of the references fills the window and has few enough unknown ones in what the window covers.\<close>

definition earned :: "gap_config \<Rightarrow> bool list \<Rightarrow> bool" where
  "earned cfg hs \<longleftrightarrow> (\<exists>k \<in> {1..length hs}. unat (gc_window cfg) \<le> k \<and>
     unknown (window_from (gap_bucket cfg) k) (take k hs) \<le> unat (gc_tolerance cfg))"

lemma per_bucket_cfg: "per_bucket s = gap_bucket (gt_cfg s)"
proof -
  have "unat (gc_window (gt_cfg s) div 16) = unat (gc_window (gt_cfg s)) div 16" by (simp add: unat_div)
  then show ?thesis by (auto simp: per_bucket_def gap_bucket_def bucket_size_def kGapBuckets_def Let_def max_def
      simp flip: unat_eq_zero)
qed

lemma reference_step:
  assumes ok: "gap_ok hs s" and small: "Suc (length hs) < 2 ^ 64"
  shows "gt_cfg (gt_on_reference r s) = gt_cfg s"
    "unat (gc_window (gt_cfg s)) \<le> Suc (length hs) \<Longrightarrow>
     unknown (window_from (gap_bucket (gt_cfg s)) (Suc (length hs))) (hs @ [r]) \<le> unat (gc_tolerance (gt_cfg s)) \<Longrightarrow>
     gt_state (gt_on_reference r s) = Trusted"
    "\<not> (unat (gc_window (gt_cfg s)) \<le> Suc (length hs) \<and>
     unknown (window_from (gap_bucket (gt_cfg s)) (Suc (length hs))) (hs @ [r]) \<le> unat (gc_tolerance (gt_cfg s))) \<Longrightarrow>
     gap_ok (hs @ [r]) (gt_on_reference r s)"
proof -
  define t where "t = advance_bucket (count_unknown r (s\<lparr> gt_stats := (gt_stats s)\<lparr> gs_untrusted := gs_untrusted (gt_stats s) + 1 \<rparr>,
      gt_refs := gt_refs s + 1 \<rparr>))"
  note t = gap_step [OF ok small t_def]
  have rec: "gt_state s = Recovering" using ok by (simp add: gap_ok_def Let_def)
  have s': "gt_on_reference r s = (if gt_refs t \<ge> gc_window (gt_cfg t) \<and> gt_window_unknown t \<le> gc_tolerance (gt_cfg t) then
      reset_window (t\<lparr> gt_state := Trusted, gt_stats := (gt_stats t)\<lparr> gs_recoveries := gs_recoveries (gt_stats t) + 1 \<rparr> \<rparr>) else t)"
    using rec by (simp add: gt_on_reference_def t_def Let_def)
  let ?k = "unknown (window_from (gap_bucket (gt_cfg s)) (Suc (length hs))) (hs @ [r])"
  have f: "gt_refs t = of_nat (Suc (length hs))" "gt_window_unknown t = of_nat ?k"
    using t by (simp_all add: gap_ok_def Let_def per_bucket_cfg)
  have "?k \<le> length (drop (window_from (gap_bucket (gt_cfg s)) (Suc (length hs))) (hs @ [r]))"
    unfolding unknown_def by (rule length_filter_le)
  also have "\<dots> \<le> Suc (length hs)" by simp
  finally have "?k \<le> Suc (length hs)" .
  then have "?k < 2 ^ 64" using small by linarith
  then have "unat (of_nat ?k :: u64) = ?k" "unat (of_nat (Suc (length hs)) :: u64) = Suc (length hs)"
    by (rule unat_of_nat64) (rule unat_of_nat64 [OF small])
  then have c: "gt_refs t \<ge> gc_window (gt_cfg t) \<longleftrightarrow> unat (gc_window (gt_cfg s)) \<le> Suc (length hs)"
    "gt_window_unknown t \<le> gc_tolerance (gt_cfg t) \<longleftrightarrow> ?k \<le> unat (gc_tolerance (gt_cfg s))"
    unfolding f t(2) by (simp_all only: word_le_nat_alt)
  show "gt_cfg (gt_on_reference r s) = gt_cfg s" using t(2) by (simp add: s' reset_window_def)
  show "unat (gc_window (gt_cfg s)) \<le> Suc (length hs) \<Longrightarrow> ?k \<le> unat (gc_tolerance (gt_cfg s)) \<Longrightarrow>
      gt_state (gt_on_reference r s) = Trusted"
    unfolding s' c by (simp add: reset_window_def)
  show "\<not> (unat (gc_window (gt_cfg s)) \<le> Suc (length hs) \<and> ?k \<le> unat (gc_tolerance (gt_cfg s))) \<Longrightarrow>
      gap_ok (hs @ [r]) (gt_on_reference r s)"
    unfolding s' c using t(1) by (simp only: if_False)
qed

lemma trusted_stays: "gt_state s = Trusted \<Longrightarrow> gt_state (fold gt_on_reference hs s) = Trusted"
  by (induction hs arbitrary: s) (simp_all add: gt_on_reference_def)

lemma earned_snoc:
  "earned cfg (hs @ [r]) \<longleftrightarrow> earned cfg hs \<or> unat (gc_window cfg) \<le> Suc (length hs) \<and>
     unknown (window_from (gap_bucket cfg) (Suc (length hs))) (hs @ [r]) \<le> unat (gc_tolerance cfg)"
proof -
  have "{1..length (hs @ [r])} = insert (Suc (length hs)) {1..length hs}" by auto
  then show ?thesis unfolding earned_def by auto
qed

lemma recovery_run:
  assumes "gap_ok [] s" "length hs < 2 ^ 64"
  shows "if earned (gt_cfg s) hs then gt_state (fold gt_on_reference hs s) = Trusted
    else gap_ok hs (fold gt_on_reference hs s) \<and> gt_cfg (fold gt_on_reference hs s) = gt_cfg s"
  using assms(2)
proof (induction hs rule: rev_induct)
  case Nil
  then show ?case using assms(1) by (simp add: earned_def)
next
  case (snoc r hs)
  let ?s = "fold gt_on_reference hs s"
  show ?case
  proof (cases "earned (gt_cfg s) hs")
    case True
    then have "gt_state ?s = Trusted" using snoc by simp
    then have "gt_state (gt_on_reference r ?s) = Trusted" by (simp add: gt_on_reference_def)
    then show ?thesis using True by (simp add: earned_snoc)
  next
    case False
    then have ok: "gap_ok hs ?s" "gt_cfg ?s = gt_cfg s" using snoc by simp_all
    have small: "Suc (length hs) < 2 ^ 64" using snoc.prems by simp
    note R = reference_step [OF ok(1) small, of r, unfolded ok(2)]
    show ?thesis using R False by (auto simp: earned_snoc)
  qed
qed

lemma gap_starts: "gt_on_gap f n s = (True, s') \<Longrightarrow> gap_ok [] s' \<and> gt_cfg s' = gt_cfg s"
  by (auto simp: gt_on_gap_def Let_def reset_window_def gap_ok_def unknown_def kGapBuckets_def split: if_splits)

text \<open>A stretch without an unknown reference, long enough to fill the window, brings it back.\<close>

lemma quiet_earns:
  assumes "16 * gap_bucket cfg \<le> k" "unat (gc_window cfg) \<le> k" "0 < k"
  shows "earned cfg (hs @ replicate k True)"
proof -
  let ?n = "length hs + k" and ?b = "gap_bucket cfg"
  have b: "0 < ?b" by (simp add: gap_bucket_def)
  have "?n < (?n div ?b + 1) * ?b" using b by (simp add: dividend_less_div_times)
  then have "?n < (?n div ?b - 15) * ?b + 16 * ?b" by (simp add: algebra_simps diff_mult_distrib)
  then have "length hs \<le> window_from ?b ?n" using assms(1) by (simp add: window_from_def)
  then have "drop (window_from ?b ?n) (hs @ replicate k True) = replicate (?n - window_from ?b ?n) True" by simp
  then have "unknown (window_from ?b ?n) (take ?n (hs @ replicate k True)) = 0" by (simp add: unknown_def)
  then show ?thesis unfolding earned_def using assms by (intro bexI [of _ ?n]) auto
qed

end
