(* ===== verification/Halt.thy ===== *)
theory Halt
  imports Book
begin

text \<open>
  The invariant that is only true some of the time: the halt tracker of include/itchbook/recover/halt.hpp. It
  keeps a symbol's trading session from the 'H' messages, the time spent halted, and which crossed books it
  saw are legal and which are defects. The lemmas are about a run of its operations: the halted time it
  reports is the halted time of the timeline, and every crossed book seen is counted on the side it belongs to.
\<close>

section \<open>The tracker\<close>

datatype trade_session = InUnknown | InTrading | InHalted | InQuotationOnly | InPaused

definition session_from :: "char \<Rightarrow> trade_session" where
  "session_from c =
     (if c = CHR ''T'' then InTrading
      else if c = CHR ''H'' then InHalted
      else if c = CHR ''Q'' then InQuotationOnly
      else if c = CHR ''P'' then InPaused
      else InUnknown)"

fun session_label :: "trade_session \<Rightarrow> string" where
  "session_label InUnknown = ''unknown''"
| "session_label InTrading = ''trading''"
| "session_label InHalted = ''halted''"
| "session_label InQuotationOnly = ''quotation-only''"
| "session_label InPaused = ''paused''"

definition can_trade :: "trade_session \<Rightarrow> bool" where "can_trade s \<longleftrightarrow> s = InTrading"

record halt_stats =
  hs_halts :: u64
  hs_resumes :: u64
  hs_halted_ns :: u64
  hs_messages :: u64
  hs_halt_crosses :: u64
  hs_crossed_halted :: u64
  hs_crossed_trading :: u64
  hs_deepest_halted :: int
  hs_deepest_trading :: int
  hs_at_resume :: u64

record halt_tracker =
  ht_session :: trade_session
  ht_stats :: halt_stats
  ht_last_ts :: u64
  ht_resuming :: bool

definition halt_new :: halt_tracker where
  "halt_new = \<lparr> ht_session = InUnknown, ht_stats = \<lparr> hs_halts = 0, hs_resumes = 0, hs_halted_ns = 0, hs_messages = 0,
     hs_halt_crosses = 0, hs_crossed_halted = 0, hs_crossed_trading = 0, hs_deepest_halted = 0, hs_deepest_trading = 0,
     hs_at_resume = 0 \<rparr>, ht_last_ts = 0, ht_resuming = False \<rparr>"

definition accrue :: "u64 \<Rightarrow> halt_tracker \<Rightarrow> halt_tracker" where
  "accrue ts h =
     (if ht_last_ts h = 0 \<or> ts < ht_last_ts h then h
      else if \<not> can_trade (ht_session h) \<and> ht_session h \<noteq> InUnknown then
        h\<lparr> ht_stats := (ht_stats h)\<lparr> hs_halted_ns := hs_halted_ns (ht_stats h) + (ts - ht_last_ts h) \<rparr> \<rparr>
      else h)"

definition halt_on_trading_action :: "char \<Rightarrow> u64 \<Rightarrow> halt_tracker \<Rightarrow> halt_tracker" where
  "halt_on_trading_action c ts h =
     (let next = session_from c in
      if next = ht_session h then h
      else
        let h = accrue ts h;
            h = (if ht_session h = InTrading \<and> \<not> can_trade next then
                   h\<lparr> ht_stats := (ht_stats h)\<lparr> hs_halts := hs_halts (ht_stats h) + 1 \<rparr> \<rparr> else h);
            h = (if ht_session h \<noteq> InUnknown \<and> \<not> can_trade (ht_session h) \<and> can_trade next then
                   h\<lparr> ht_stats := (ht_stats h)\<lparr> hs_resumes := hs_resumes (ht_stats h) + 1 \<rparr>, ht_resuming := True \<rparr>
                 else h)
        in h\<lparr> ht_session := next, ht_last_ts := ts \<rparr>)"

definition halt_on_cross :: "char \<Rightarrow> halt_tracker \<Rightarrow> halt_tracker" where
  "halt_on_cross type h =
     (if type = CHR ''H'' then h\<lparr> ht_stats := (ht_stats h)\<lparr> hs_halt_crosses := hs_halt_crosses (ht_stats h) + 1 \<rparr> \<rparr>
      else h)"

definition observe_at :: "u64 \<Rightarrow> halt_tracker \<Rightarrow> halt_tracker" where
  "observe_at ts h = (accrue ts h)\<lparr> ht_last_ts := ts \<rparr>"

definition cross_depth :: "book \<Rightarrow> int" where
  "cross_depth b = (case (best_bid b, best_ask b) of (Some bid, Some ask) \<Rightarrow> (if bid > ask then bid - ask else 0) | _ \<Rightarrow> 0)"

definition count_crossed :: "int \<Rightarrow> halt_tracker \<Rightarrow> halt_tracker" where
  "count_crossed depth h =
     (if can_trade (ht_session h) then
        h\<lparr> ht_stats := (ht_stats h)\<lparr> hs_crossed_trading := hs_crossed_trading (ht_stats h) + 1,
             hs_deepest_trading := (if depth > hs_deepest_trading (ht_stats h) then depth
                                    else hs_deepest_trading (ht_stats h)) \<rparr> \<rparr>
      else
        h\<lparr> ht_stats := (ht_stats h)\<lparr> hs_crossed_halted := hs_crossed_halted (ht_stats h) + 1,
             hs_deepest_halted := (if depth > hs_deepest_halted (ht_stats h) then depth
                                   else hs_deepest_halted (ht_stats h)) \<rparr> \<rparr>)"

definition halt_observe :: "book \<Rightarrow> u64 \<Rightarrow> halt_tracker \<Rightarrow> halt_tracker" where
  "halt_observe b ts h =
     (let h = observe_at ts h;
          h = (if \<not> can_trade (ht_session h) then
                 h\<lparr> ht_stats := (ht_stats h)\<lparr> hs_messages := hs_messages (ht_stats h) + 1 \<rparr> \<rparr> else h);
          is_crossed = strictly_crossed b;
          h = (if is_crossed then count_crossed (cross_depth b) h else h)
      in if ht_resuming h then
           let h = h\<lparr> ht_resuming := False \<rparr>
           in if is_crossed then h\<lparr> ht_stats := (ht_stats h)\<lparr> hs_at_resume := hs_at_resume (ht_stats h) + 1 \<rparr> \<rparr> else h
         else h)"

section \<open>A run of the tracker\<close>

datatype halt_event = Action char u64 | Cross char u64 | Quiet u64 | Look book u64

fun event_ts :: "halt_event \<Rightarrow> u64" where
  "event_ts (Action c ts) = ts"
| "event_ts (Cross c ts) = ts"
| "event_ts (Quiet ts) = ts"
| "event_ts (Look b ts) = ts"

fun halt_step :: "halt_event \<Rightarrow> halt_tracker \<Rightarrow> halt_tracker" where
  "halt_step (Action c ts) h = halt_on_trading_action c ts h"
| "halt_step (Cross c ts) h = halt_on_cross c h"
| "halt_step (Quiet ts) h = observe_at ts h"
| "halt_step (Look b ts) h = halt_observe b ts h"

fun session_after :: "trade_session \<Rightarrow> halt_event \<Rightarrow> trade_session" where
  "session_after s (Action c ts) = session_from c"
| "session_after s e = s"

definition stopped :: "trade_session \<Rightarrow> bool" where
  "stopped s \<longleftrightarrow> s \<noteq> InTrading \<and> s \<noteq> InUnknown"

text \<open>The halted time of a timeline: each stretch between two events counts when the session in force is a halt.\<close>

fun halted_time :: "trade_session \<Rightarrow> nat \<Rightarrow> halt_event list \<Rightarrow> nat" where
  "halted_time s t [] = 0"
| "halted_time s t (e # es) =
     (if stopped s then unat (event_ts e) - t else 0) + halted_time (session_after s e) (unat (event_ts e)) es"

text \<open>The crossed books of a timeline that were seen in a session of the kind \<open>P\<close>.\<close>

fun crossed_seen :: "(trade_session \<Rightarrow> bool) \<Rightarrow> trade_session \<Rightarrow> halt_event list \<Rightarrow> nat" where
  "crossed_seen P s [] = 0"
| "crossed_seen P s (e # es) =
     (case e of Look b _ \<Rightarrow> (if P s \<and> strictly_crossed b then 1 else 0) | _ \<Rightarrow> 0) + crossed_seen P (session_after s e) es"

fun in_order :: "nat \<Rightarrow> halt_event list \<Rightarrow> bool" where
  "in_order t [] \<longleftrightarrow> True"
| "in_order t (e # es) \<longleftrightarrow> t \<le> unat (event_ts e) \<and> in_order (unat (event_ts e)) es"

lemma step_session [simp]: "ht_session (halt_step e h) = session_after (ht_session h) e"
  by (cases e) (auto simp: halt_on_trading_action_def halt_on_cross_def observe_at_def halt_observe_def accrue_def
      count_crossed_def Let_def)

text \<open>What is owed at time \<open>t\<close>: the halted time reported so far and the stretch not accrued yet.\<close>

definition owed :: "nat \<Rightarrow> halt_tracker \<Rightarrow> nat" where
  "owed t h = unat (hs_halted_ns (ht_stats h)) + (if stopped (ht_session h) then t - unat (ht_last_ts h) else 0)"

definition clock_ok :: "nat \<Rightarrow> halt_tracker \<Rightarrow> bool" where
  "clock_ok t h \<longleftrightarrow> unat (ht_last_ts h) \<le> t \<and> (stopped (ht_session h) \<longrightarrow> 0 < ht_last_ts h) \<and> owed t h \<le> t"

lemma accrued:
  assumes ok: "clock_ok t h" and le: "t \<le> unat ts"
  shows "unat (hs_halted_ns (ht_stats (accrue ts h))) = owed (unat ts) h" "owed (unat ts) h \<le> unat ts"
proof -
  note ok' = ok [unfolded clock_ok_def owed_def]
  show le': "owed (unat ts) h \<le> unat ts" unfolding owed_def using ok' le by (auto split: if_splits)
  show "unat (hs_halted_ns (ht_stats (accrue ts h))) = owed (unat ts) h"
  proof (cases "stopped (ht_session h)")
    case True
    then have p: "ht_last_ts h \<noteq> 0" "ht_last_ts h \<le> ts" using ok' le by (auto simp: word_le_nat_alt)
    have d: "unat (ts - ht_last_ts h) = unat ts - unat (ht_last_ts h)" using p(2) by (simp add: unat_sub word_le_nat_alt)
    have "unat ts < 2 ^ 64" by (rule order_less_le_trans [OF unsigned_less]) simp
    then have "unat (hs_halted_ns (ht_stats h)) + unat (ts - ht_last_ts h) < 2 ^ 64"
      using le' True by (simp add: owed_def d)
    then have "unat (hs_halted_ns (ht_stats h) + (ts - ht_last_ts h)) = unat (hs_halted_ns (ht_stats h)) + unat (ts - ht_last_ts h)"
      by (simp add: unat_word_ariths)
    then show ?thesis using p True by (simp add: accrue_def owed_def d stopped_def can_trade_def not_less)
  next
    case False
    then show ?thesis by (auto simp: accrue_def owed_def stopped_def can_trade_def)
  qed
qed

lemma step_stats:
  "unat (ht_last_ts (halt_step e h)) \<in> {unat (ht_last_ts h), unat (event_ts e)}"
  by (cases e) (auto simp: halt_on_trading_action_def halt_on_cross_def observe_at_def halt_observe_def accrue_def
      count_crossed_def Let_def)

text \<open>A step either accrues up to its own time, or leaves both the clock and the session alone.\<close>

lemma step_clock:
  "ht_last_ts (halt_step e h) = event_ts e \<and>
     hs_halted_ns (ht_stats (halt_step e h)) = hs_halted_ns (ht_stats (accrue (event_ts e) h)) \<or>
   ht_last_ts (halt_step e h) = ht_last_ts h \<and> ht_session (halt_step e h) = ht_session h \<and>
     hs_halted_ns (ht_stats (halt_step e h)) = hs_halted_ns (ht_stats h)"
  by (cases e) (auto simp: halt_on_trading_action_def halt_on_cross_def observe_at_def halt_observe_def
      count_crossed_def Let_def)

lemma clock_step:
  assumes ok: "clock_ok t h" and le: "t \<le> unat (event_ts e)" "0 < event_ts e"
  shows "clock_ok (unat (event_ts e)) (halt_step e h)"
    "owed (unat (event_ts e)) (halt_step e h) = owed t h + (if stopped (ht_session h) then unat (event_ts e) - t else 0)"
proof -
  note A = accrued [OF ok le(1)]
  have ow: "owed (unat (event_ts e)) h = owed t h + (if stopped (ht_session h) then unat (event_ts e) - t else 0)"
    using ok le by (auto simp: clock_ok_def owed_def)
  show "owed (unat (event_ts e)) (halt_step e h) = owed t h + (if stopped (ht_session h) then unat (event_ts e) - t else 0)"
    using step_clock [of e h] A ow by (auto simp: owed_def)
  then have "owed (unat (event_ts e)) (halt_step e h) \<le> unat (event_ts e)" using A(2) ow by simp
  then show "clock_ok (unat (event_ts e)) (halt_step e h)"
    using step_clock [of e h] ok le by (auto simp: clock_ok_def)
qed

lemma clock_run:
  assumes "clock_ok t h" "in_order t es" "\<forall>e \<in> set es. 0 < event_ts e" "es \<noteq> []"
  shows "clock_ok (unat (event_ts (last es))) (fold halt_step es h)"
    "owed (unat (event_ts (last es))) (fold halt_step es h) = owed t h + halted_time (ht_session h) t es"
proof -
  have "clock_ok (unat (event_ts (last es))) (fold halt_step es h) \<and>
      owed (unat (event_ts (last es))) (fold halt_step es h) = owed t h + halted_time (ht_session h) t es"
    using assms
  proof (induction es arbitrary: t h)
    case (Cons e es)
    note S = clock_step [OF Cons.prems(1), of e]
    show ?case
    proof (cases "es = []")
      case True
      then show ?thesis using S Cons.prems by simp
    next
      case False
      then show ?thesis using Cons.IH [of "unat (event_ts e)" "halt_step e h"] S Cons.prems by simp
    qed
  qed simp
  then show "clock_ok (unat (event_ts (last es))) (fold halt_step es h)"
    "owed (unat (event_ts (last es))) (fold halt_step es h) = owed t h + halted_time (ht_session h) t es" by simp_all
qed

lemma halt_new_ok: "clock_ok 0 halt_new" "owed 0 halt_new = 0" "ht_session halt_new = InUnknown"
  "hs_crossed_trading (ht_stats halt_new) = 0" "hs_crossed_halted (ht_stats halt_new) = 0"
  by (simp_all add: clock_ok_def owed_def halt_new_def stopped_def)

lemma in_order_snoc: "in_order t (es @ [e]) \<longleftrightarrow>
    in_order t es \<and> (if es = [] then t else unat (event_ts (last es))) \<le> unat (event_ts e)"
  by (induction es arbitrary: t) auto

text \<open>Every look at a book: a crossed one is counted on the side of the session it was seen in.\<close>

lemma look_counts:
  "hs_crossed_trading (ht_stats (halt_step e h)) = hs_crossed_trading (ht_stats h) +
     (case e of Look b _ \<Rightarrow> (if ht_session h = InTrading \<and> strictly_crossed b then 1 else 0) | _ \<Rightarrow> 0)"
  "hs_crossed_halted (ht_stats (halt_step e h)) = hs_crossed_halted (ht_stats h) +
     (case e of Look b _ \<Rightarrow> (if ht_session h \<noteq> InTrading \<and> strictly_crossed b then 1 else 0) | _ \<Rightarrow> 0)"
  by (cases e; auto simp: halt_on_trading_action_def halt_on_cross_def observe_at_def halt_observe_def accrue_def
      count_crossed_def can_trade_def Let_def)+

lemma crossed_run:
  "hs_crossed_trading (ht_stats (fold halt_step es h)) =
     hs_crossed_trading (ht_stats h) + of_nat (crossed_seen (\<lambda>s. s = InTrading) (ht_session h) es)"
  "hs_crossed_halted (ht_stats (fold halt_step es h)) =
     hs_crossed_halted (ht_stats h) + of_nat (crossed_seen (\<lambda>s. s \<noteq> InTrading) (ht_session h) es)"
proof (induction es arbitrary: h)
  case (Cons e es)
  { case 1 show ?case using Cons.IH(1) [of "halt_step e h"]
      by (simp add: look_counts del: halt_step.simps split: halt_event.split) }
  { case 2 show ?case using Cons.IH(2) [of "halt_step e h"]
      by (simp add: look_counts del: halt_step.simps split: halt_event.split) }
qed simp_all

text \<open>The first known session is the one trading starts in; from there halts and resumes alternate.\<close>

lemma halts_alternate:
  assumes "\<forall>e \<in> set es. case e of Action c _ \<Rightarrow> session_from c \<noteq> InUnknown | _ \<Rightarrow> True" "ht_session h \<noteq> InUnknown"
  shows "hs_halts (ht_stats (fold halt_step es h)) - hs_resumes (ht_stats (fold halt_step es h))
      + (if ht_session (fold halt_step es h) = InTrading then 1 else 0)
    = hs_halts (ht_stats h) - hs_resumes (ht_stats h) + (if ht_session h = InTrading then 1 else 0)"
  using assms
proof (induction es arbitrary: h)
  case (Cons e es)
  let ?h = "halt_step e h"
  have "ht_session ?h \<noteq> InUnknown"
    using Cons.prems by (auto simp del: halt_step.simps split: halt_event.splits)
  then have "hs_halts (ht_stats (fold halt_step es ?h)) - hs_resumes (ht_stats (fold halt_step es ?h))
      + (if ht_session (fold halt_step es ?h) = InTrading then 1 else 0)
    = hs_halts (ht_stats ?h) - hs_resumes (ht_stats ?h) + (if ht_session ?h = InTrading then 1 else 0)"
    by (rule Cons.IH [rotated]) (use Cons.prems in simp)
  also have "\<dots> = hs_halts (ht_stats h) - hs_resumes (ht_stats h) + (if ht_session h = InTrading then 1 else 0)"
    using Cons.prems by (cases e) (auto simp: halt_on_trading_action_def halt_on_cross_def observe_at_def halt_observe_def
        accrue_def count_crossed_def can_trade_def Let_def)
  finally show ?case by simp
qed simp

lemma crossed_seen_append:
  "crossed_seen P s (es @ fs) = crossed_seen P s es + crossed_seen P (fold (\<lambda>e s. session_after s e) es s) fs"
  by (induction es arbitrary: s) simp_all

lemma session_run: "ht_session (fold halt_step es h) = fold (\<lambda>e s. session_after s e) es (ht_session h)"
  by (induction es arbitrary: h) simp_all

text \<open>Asked at the end, the tracker has accrued everything that is owed.\<close>

lemma quiet_run:
  assumes "in_order 0 (es @ [Quiet t])" "\<forall>e \<in> set (es @ [Quiet t]). 0 < event_ts e"
  shows "unat (hs_halted_ns (ht_stats (fold halt_step (es @ [Quiet t]) halt_new))) = halted_time InUnknown 0 (es @ [Quiet t])"
  using clock_run(2) [OF halt_new_ok(1) assms] halt_new_ok(2,3) by (auto simp: owed_def observe_at_def split: if_splits)

end
