(* ===== verification/Tape.thy ===== *)
theory Tape
  imports BookOps
begin

text \<open>
  The daily statistics a book keeps of its prints (\<open>Book::record_trade\<close> of
  include/itchbook/book/book.hpp) against the list of the prints: volume, notional and count are
  sums over it, open and close its ends, high and low its extremes. A print of zero shares (an
  auction that did not happen) is not one.
\<close>

type_synonym print = "int \<times> u64"

definition run_tape :: "print list \<Rightarrow> book \<Rightarrow> book" where
  "run_tape ps b = fold (\<lambda>(p, n) b. record_trade p n b) ps b"

definition real_prints :: "print list \<Rightarrow> print list" where
  "real_prints ps = filter (\<lambda>(p, n). n \<noteq> 0) ps"

definition tape_ok :: "print list \<Rightarrow> book \<Rightarrow> bool" where
  "tape_ok ps b \<longleftrightarrow>
     bk_volume b = sum_list (map snd ps) \<and>
     bk_notional b = sum_list (map (\<lambda>(p, n). word_of_int p * n) ps) \<and>
     bk_trades b = of_nat (length ps) \<and>
     bk_open b = (if ps = [] then - 1 else fst (hd ps)) \<and>
     bk_close b = (if ps = [] then - 1 else fst (last ps)) \<and>
     bk_high b = (if ps = [] then - 1 else Max (fst ` set ps)) \<and>
     bk_low b = (if ps = [] then - 1 else Min (fst ` set ps))"

lemma tape_ok_snoc:
  assumes ok: "tape_ok ps b" and nn: "\<forall>(q, m) \<in> set ps. 0 \<le> q" and p: "0 \<le> p" and n: "n \<noteq> 0"
  shows "tape_ok (ps @ [(p, n)]) (record_trade p n b)"
proof (cases "ps = []")
  case True
  with ok n p show ?thesis by (simp add: tape_ok_def record_trade_def Let_def)
next
  case False
  have fin: "finite (fst ` set ps)" "fst ` set ps \<noteq> {}" using False by auto
  have nn': "\<forall>q \<in> fst ` set ps. 0 \<le> q" using nn by auto
  have "Max (fst ` set ps) \<in> fst ` set ps" "Min (fst ` set ps) \<in> fst ` set ps" "fst (hd ps) \<in> fst ` set ps"
    using fin False by (auto intro: Max_in Min_in)
  with nn' have ge: "\<not> Max (fst ` set ps) < 0" "\<not> Min (fst ` set ps) < 0" "\<not> fst (hd ps) < 0"
    using linorder_not_less by blast+
  have mx: "Max (insert p (fst ` set ps)) = max p (Max (fst ` set ps))"
    "Min (insert p (fst ` set ps)) = min p (Min (fst ` set ps))"
    using fin by (rule Max_insert, rule Min_insert)
  define H L where "H = Max (fst ` set ps)" and "L = Min (fst ` set ps)"
  have img: "fst ` set (ps @ [(p, n)]) = insert p (fst ` set ps)" by simp
  show ?thesis
    using ok False ge n
    unfolding tape_ok_def img mx H_def [symmetric] L_def [symmetric]
    by (simp add: record_trade_def Let_def max_def min_def)
qed

lemma run_tape_snoc: "run_tape (ps @ [(p, n)]) b = record_trade p n (run_tape ps b)"
  by (simp add: run_tape_def)

lemma tape_new: "tape_ok [] (book_new l tick pct)"
  by (simp add: tape_ok_def book_new_def)

lemma run_tape_ok:
  "\<forall>(p, n) \<in> set ps. 0 \<le> p \<Longrightarrow> tape_ok [] b \<Longrightarrow> tape_ok (real_prints ps) (run_tape ps b)"
proof (induction ps rule: rev_induct)
  case Nil
  then show ?case by (simp add: real_prints_def run_tape_def)
next
  case (snoc x ps)
  obtain p n where x: "x = (p, n)" by (cases x)
  have IH: "tape_ok (real_prints ps) (run_tape ps b)" using snoc by simp
  have nn: "\<forall>(q, m) \<in> set (real_prints ps). 0 \<le> q" "0 \<le> p"
    using snoc.prems(1) x by (auto simp: real_prints_def)
  show ?case
  proof (cases "n = 0")
    case True
    then show ?thesis using IH by (simp add: x run_tape_snoc real_prints_def record_trade_def)
  next
    case False
    from tape_ok_snoc [OF IH nn this] False show ?thesis
      by (simp add: x run_tape_snoc real_prints_def)
  qed
qed

end
