(* ===== verification/Ring.thy ===== *)
theory Ring
  imports Prelude
begin

text \<open>
  The single producer, single consumer ring of include/itchbook/pipe/spsc_ring.hpp. The counters are
  words and wrap as the code's do; \<open>Capacity\<close> is the number of slots. Every operation touches at most one
  location the other thread writes, so the interleavings of the two threads are the sequences of the
  steps below; what the release and acquire orders give (a published slot is seen as written) is
  taken from the language. The results hold for every interleaving and across the wrap of the
  counters: the consumer takes what was published, in order, once.
\<close>

section \<open>The ring and its operations\<close>

record 'a ring =
  r_head :: u64
  r_tail :: u64
  r_cached_tail :: u64
  r_cached_head :: u64
  r_slots :: "'a list"

definition ring_new :: "nat \<Rightarrow> 'a \<Rightarrow> 'a ring" where
  "ring_new n blank = \<lparr> r_head = 0, r_tail = 0, r_cached_tail = 0, r_cached_head = 0, r_slots = replicate n blank \<rparr>"

definition capacity :: "'a ring \<Rightarrow> u64" where
  "capacity r = of_nat (length (r_slots r))"

definition kMask :: "'a ring \<Rightarrow> u64" where
  "kMask r = of_nat (length (r_slots r) - 1)"

definition writable :: "'a ring \<Rightarrow> u64 \<times> 'a ring" where
  "writable r =
     (let free_slots = capacity r - (r_head r - r_cached_tail r)
      in if free_slots = 0 then
           (let r = r\<lparr> r_cached_tail := r_tail r \<rparr> in (capacity r - (r_head r - r_cached_tail r), r))
         else (free_slots, r))"

definition writable_exact :: "'a ring \<Rightarrow> u64 \<times> 'a ring" where
  "writable_exact r =
     (let r = r\<lparr> r_cached_tail := r_tail r \<rparr> in (capacity r - (r_head r - r_cached_tail r), r))"

definition write_slot :: "u64 \<Rightarrow> 'a \<Rightarrow> 'a ring \<Rightarrow> 'a ring" where
  "write_slot n v r = r\<lparr> r_slots := (r_slots r)[unat ((r_head r + n) AND kMask r) := v] \<rparr>"

definition publish_asserts :: "u64 \<Rightarrow> 'a ring \<Rightarrow> bool" where
  "publish_asserts n r \<longleftrightarrow> r_head r + n - r_tail r \<le> capacity r"

definition ring_publish :: "u64 \<Rightarrow> 'a ring \<Rightarrow> 'a ring" where
  "ring_publish n r = r\<lparr> r_head := r_head r + n \<rparr>"

definition ring_push :: "'a \<Rightarrow> 'a ring \<Rightarrow> bool \<times> 'a ring" where
  "ring_push v r =
     (let (n, r) = writable r in if n = 0 then (False, r) else (True, ring_publish 1 (write_slot 0 v r)))"

definition readable :: "'a ring \<Rightarrow> u64 \<times> 'a ring" where
  "readable r =
     (let ready = r_cached_head r - r_tail r
      in if ready = 0 then
           (let r = r\<lparr> r_cached_head := r_head r \<rparr> in (r_cached_head r - r_tail r, r))
         else (ready, r))"

definition read_slot :: "u64 \<Rightarrow> 'a ring \<Rightarrow> 'a" where
  "read_slot n r = r_slots r ! unat ((r_tail r + n) AND kMask r)"

definition consume_asserts :: "u64 \<Rightarrow> 'a ring \<Rightarrow> bool" where
  "consume_asserts n r \<longleftrightarrow> r_tail r + n \<le> r_head r"

definition consume :: "u64 \<Rightarrow> 'a ring \<Rightarrow> 'a ring" where
  "consume n r = r\<lparr> r_tail := r_tail r + n \<rparr>"

definition ring_pop :: "'a ring \<Rightarrow> 'a option \<times> 'a ring" where
  "ring_pop r =
     (let (n, r) = readable r in if n = 0 then (None, r) else (Some (read_slot 0 r), consume 1 r))"

definition ring_size :: "'a ring \<Rightarrow> u64" where
  "ring_size r = r_head r - r_tail r"

definition ring_empty :: "'a ring \<Rightarrow> bool" where
  "ring_empty r \<longleftrightarrow> ring_size r = 0"

definition ring_full :: "'a ring \<Rightarrow> bool" where
  "ring_full r \<longleftrightarrow> ring_size r = capacity r"

section \<open>The interleavings of the two threads\<close>

text \<open>
  A world is the ring, what was published and what was taken so far. The producer writes and publishes
  no more than \<open>writable\<close> last offered it, the consumer takes no more than \<open>readable\<close> offered: the
  preconditions the code states, in terms of the copies each thread keeps.
\<close>

definition offered :: "'a ring \<Rightarrow> nat" where
  "offered r = length (r_slots r) - unat (r_head r - r_cached_tail r)"

definition ready :: "'a ring \<Rightarrow> nat" where
  "ready r = unat (r_cached_head r - r_tail r)"

type_synonym 'a world = "'a ring \<times> 'a list \<times> 'a list"

definition slots_from :: "'a ring \<Rightarrow> u64 \<Rightarrow> nat \<Rightarrow> 'a list" where
  "slots_from r start n = map (\<lambda>i. r_slots r ! unat ((start + of_nat i) AND kMask r)) [0..<n]"

inductive ring_step :: "'a world \<Rightarrow> 'a world \<Rightarrow> bool" where
  step_writable: "ring_step (r, pub, tak) (snd (writable r), pub, tak)"
| step_exact: "ring_step (r, pub, tak) (snd (writable_exact r), pub, tak)"
| step_write: "n < offered r \<Longrightarrow> ring_step (r, pub, tak) (write_slot (of_nat n) v r, pub, tak)"
| step_publish: "n \<le> offered r \<Longrightarrow>
    ring_step (r, pub, tak) (ring_publish (of_nat n) r, pub @ slots_from r (r_head r) n, tak)"
| step_readable: "ring_step (r, pub, tak) (snd (readable r), pub, tak)"
| step_consume: "n \<le> ready r \<Longrightarrow>
    ring_step (r, pub, tak) (consume (of_nat n) r, pub, tak @ slots_from r (r_tail r) n)"

inductive ring_run :: "'a world \<Rightarrow> 'a world \<Rightarrow> bool" where
  run_refl: "ring_run w w"
| run_step: "ring_run w w' \<Longrightarrow> ring_step w' w'' \<Longrightarrow> ring_run w w''"

definition at_counts :: "'a ring \<Rightarrow> nat \<Rightarrow> nat \<Rightarrow> nat \<Rightarrow> nat \<Rightarrow> bool" where
  "at_counts r p t ct ch \<longleftrightarrow>
     (\<exists>k < 64. length (r_slots r) = 2 ^ k) \<and> ct \<le> t \<and> t \<le> ch \<and> ch \<le> p \<and> p \<le> ct + length (r_slots r) \<and>
     r_head r = of_nat p \<and> r_tail r = of_nat t \<and> r_cached_tail r = of_nat ct \<and> r_cached_head r = of_nat ch"

definition world_ok :: "'a world \<Rightarrow> bool" where
  "world_ok w \<longleftrightarrow> (case w of (r, pub, tak) \<Rightarrow>
     (\<exists>ct ch. at_counts r (length pub) (length tak) ct ch) \<and> tak = take (length tak) pub \<and>
     (\<forall>i. length tak \<le> i \<and> i < length pub \<longrightarrow> r_slots r ! (i mod length (r_slots r)) = pub ! i))"

lemma cap_bounds:
  assumes "at_counts r p t ct ch"
  shows "0 < length (r_slots r)" "length (r_slots r) < 2 ^ 64" "length (r_slots r) dvd 2 ^ 64"
proof -
  obtain k where k: "k < 64" "length (r_slots r) = 2 ^ k" using assms by (auto simp: at_counts_def)
  show "0 < length (r_slots r)" using k(2) by simp
  show "length (r_slots r) < 2 ^ 64" unfolding k(2) by (rule power_strict_increasing) (use k(1) in simp_all)
  show "length (r_slots r) dvd 2 ^ 64" unfolding k(2) by (rule le_imp_power_dvd) (use k(1) in simp)
qed

lemma word_distance: "b \<le> a \<Longrightarrow> a < b + 2 ^ 64 \<Longrightarrow> unat (of_nat a - of_nat b :: u64) = a - b"
proof -
  assume "b \<le> a" "a < b + 2 ^ 64"
  then have "of_nat a - of_nat b = (of_nat (a - b) :: u64)" "a - b < 2 ^ 64" by (simp_all add: of_nat_diff)
  then show ?thesis by (simp add: unat_of_nat64)
qed

lemma unat_of_nat_mod: "unat (of_nat n :: u64) = n mod 2 ^ 64"
  by (simp add: unsigned_of_nat take_bit_eq_mod)

lemma at_slot:
  assumes "at_counts r p t ct ch"
  shows "unat ((of_nat a + of_nat i) AND kMask r) = (a + i) mod length (r_slots r)"
proof -
  obtain k where k: "k < 64" "length (r_slots r) = 2 ^ k" using assms by (auto simp: at_counts_def)
  have "unat (of_nat (a + i) :: u64) = (a + i) mod 2 ^ 64" by (rule unat_of_nat_mod)
  then have "unat ((of_nat (a + i) :: u64) AND of_nat (2 ^ k - 1)) = (a + i) mod 2 ^ 64 mod 2 ^ k"
    by (simp only: unat_and_mask_mod)
  also have "\<dots> = (a + i) mod 2 ^ k" using cap_bounds(3) [OF assms] k(2) by (simp add: mod_mod_cancel)
  finally show ?thesis by (simp add: kMask_def k(2) del: of_nat_diff)
qed

lemma counts_facts:
  assumes "at_counts r p t ct ch"
  shows "offered r = ct + length (r_slots r) - p" "ready r = ch - t"
    "unat (capacity r) = length (r_slots r)" "unat (ring_size r) = p - t"
    "unat (capacity r - (r_head r - r_cached_tail r)) = ct + length (r_slots r) - p"
    "unat (capacity r - (r_head r - r_tail r)) = t + length (r_slots r) - p"
proof -
  note b = cap_bounds(2) [OF assms]
  have a: "ct \<le> t" "t \<le> ch" "ch \<le> p" "p \<le> ct + length (r_slots r)" "r_head r = of_nat p" "r_tail r = of_nat t"
    "r_cached_tail r = of_nat ct" "r_cached_head r = of_nat ch" using assms by (auto simp: at_counts_def)
  have d: "unat (r_head r - r_cached_tail r) = p - ct" "unat (r_cached_head r - r_tail r) = ch - t"
    "unat (r_head r - r_tail r) = p - t"
    using a b by (auto intro!: word_distance simp: a(5-8))
  show c: "unat (capacity r) = length (r_slots r)" using b by (simp add: capacity_def unat_of_nat64)
  show "offered r = ct + length (r_slots r) - p" "ready r = ch - t" "unat (ring_size r) = p - t"
    using d a by (simp_all add: offered_def ready_def ring_size_def)
  have sub: "unat (capacity r - x) = length (r_slots r) - unat x" if "unat x \<le> length (r_slots r)" for x
    using that c by (simp add: unat_sub word_le_nat_alt)
  show "unat (capacity r - (r_head r - r_cached_tail r)) = ct + length (r_slots r) - p"
    "unat (capacity r - (r_head r - r_tail r)) = t + length (r_slots r) - p"
    using sub [of "r_head r - r_cached_tail r"] sub [of "r_head r - r_tail r"] d a by simp_all
qed

lemma at_slots_from:
  "at_counts r p t ct ch \<Longrightarrow> slots_from r (of_nat a) n = map (\<lambda>i. r_slots r ! ((a + i) mod length (r_slots r))) [0..<n]"
  by (simp add: slots_from_def at_slot)

lemma at_counts_cong:
  "length (r_slots r') = length (r_slots r) \<Longrightarrow> r_head r' = r_head r \<Longrightarrow> r_tail r' = r_tail r \<Longrightarrow>
   r_cached_tail r' = r_cached_tail r \<Longrightarrow> r_cached_head r' = r_cached_head r \<Longrightarrow>
   at_counts r' p t ct ch = at_counts r p t ct ch"
  by (simp add: at_counts_def)

lemma refresh_tail: "at_counts r p t ct ch \<Longrightarrow> at_counts (r\<lparr> r_cached_tail := r_tail r \<rparr>) p t t ch"
  by (auto simp: at_counts_def)

lemma refresh_head: "at_counts r p t ct ch \<Longrightarrow> at_counts (r\<lparr> r_cached_head := r_head r \<rparr>) p t ct p"
  by (auto simp: at_counts_def)

lemma writable_keeps:
  "at_counts r p t ct ch \<Longrightarrow> \<exists>ct'. at_counts (snd (writable r)) p t ct' ch \<and> r_slots (snd (writable r)) = r_slots r"
  using refresh_tail [of r p t ct ch] by (auto simp: writable_def Let_def)

lemma readable_keeps:
  "at_counts r p t ct ch \<Longrightarrow> \<exists>ch'. at_counts (snd (readable r)) p t ct ch' \<and> r_slots (snd (readable r)) = r_slots r"
  using refresh_head [of r p t ct ch] by (auto simp: readable_def Let_def)

lemma mod_apart: "a < b \<Longrightarrow> b < a + c \<Longrightarrow> a mod c \<noteq> b mod (c :: nat)"
proof
  assume ab: "a < b" "b < a + c" and "a mod c = b mod c"
  then have "c dvd b - a" by (metis less_imp_le mod_eq_dvd_iff_nat)
  then have "c \<le> b - a" using ab by (intro dvd_imp_le) simp_all
  then show False using ab by linarith
qed

lemma step_world_ok:
  assumes s: "ring_step w w'" and ok: "world_ok w"
  shows "world_ok w'"
  using s
proof (cases rule: ring_step.cases)
  case (step_writable r pub tak)
  then obtain ct ch where a: "at_counts r (length pub) (length tak) ct ch" using ok by (auto simp: world_ok_def)
  from writable_keeps [OF this] show ?thesis using ok step_writable by (auto simp: world_ok_def)
next
  case (step_exact r pub tak)
  then obtain ct ch where a: "at_counts r (length pub) (length tak) ct ch" using ok by (auto simp: world_ok_def)
  from refresh_tail [OF this] show ?thesis using ok step_exact by (auto simp: world_ok_def writable_exact_def Let_def)
next
  case (step_readable r pub tak)
  then obtain ct ch where a: "at_counts r (length pub) (length tak) ct ch" using ok by (auto simp: world_ok_def)
  from readable_keeps [OF this] show ?thesis using ok step_readable by (auto simp: world_ok_def)
next
  case (step_write n r pub tak v)
  then obtain ct ch where a: "at_counts r (length pub) (length tak) ct ch" using ok by (auto simp: world_ok_def)
  let ?C = "length (r_slots r)" and ?p = "length pub"
  have h: "r_head r = of_nat ?p" using a by (simp add: at_counts_def)
  have n: "?p + n < ct + ?C" using step_write(3) counts_facts(1) [OF a] by linarith
  have "i mod ?C \<noteq> (?p + n) mod ?C" if "length tak \<le> i" "i < ?p" for i
    by (rule mod_apart) (use that n a in \<open>auto simp: at_counts_def\<close>)
  moreover have sl: "r_slots (write_slot (of_nat n) v r) = (r_slots r)[(?p + n) mod ?C := v]"
    by (simp add: write_slot_def h at_slot [OF a])
  ultimately have kept: "r_slots (write_slot (of_nat n) v r) ! (i mod ?C) = r_slots r ! (i mod ?C)"
    if "length tak \<le> i" "i < ?p" for i
    using that by (metis nth_list_update_neq)
  have "at_counts (write_slot (of_nat n) v r) ?p (length tak) ct ch"
    using a by (subst at_counts_cong [of _ r]) (simp_all add: write_slot_def)
  moreover have "length (r_slots (write_slot (of_nat n) v r)) = ?C" by (simp add: sl)
  ultimately show ?thesis using ok kept step_write by (auto simp: world_ok_def)
next
  case (step_publish n r pub tak)
  then obtain ct ch where a: "at_counts r (length pub) (length tak) ct ch" using ok by (auto simp: world_ok_def)
  let ?C = "length (r_slots r)" and ?p = "length pub"
  have h: "r_head r = of_nat ?p" using a by (simp add: at_counts_def)
  have n: "?p + n \<le> ct + ?C" using step_publish(3) counts_facts(1) [OF a] a unfolding at_counts_def by linarith
  have sf: "slots_from r (r_head r) n = map (\<lambda>i. r_slots r ! ((?p + i) mod ?C)) [0..<n]"
    unfolding h by (rule at_slots_from [OF a])
  have "at_counts (ring_publish (of_nat n) r) (?p + n) (length tak) ct ch"
    using a n by (auto simp: at_counts_def ring_publish_def)
  moreover have "(pub @ slots_from r (r_head r) n) ! i = r_slots r ! (i mod ?C)"
    if "length tak \<le> i" "i < ?p + n" for i
    using that ok step_publish by (cases "i < ?p") (auto simp: nth_append sf world_ok_def)
  moreover have "length tak \<le> length pub" using a unfolding at_counts_def by linarith
  ultimately show ?thesis using ok step_publish
    by (auto simp: world_ok_def sf ring_publish_def)
next
  case (step_consume n r pub tak)
  then obtain ct ch where a: "at_counts r (length pub) (length tak) ct ch" using ok by (auto simp: world_ok_def)
  let ?C = "length (r_slots r)" and ?t = "length tak"
  have h: "r_tail r = of_nat ?t" using a by (simp add: at_counts_def)
  have n: "?t + n \<le> ch" using step_consume(3) counts_facts(2) [OF a] a unfolding at_counts_def by linarith
  have p: "?t + n \<le> length pub" using n a by (simp add: at_counts_def)
  have sf: "slots_from r (r_tail r) n = map (\<lambda>i. r_slots r ! ((?t + i) mod ?C)) [0..<n]"
    unfolding h by (rule at_slots_from [OF a])
  have "slots_from r (r_tail r) n = take n (drop ?t pub)"
    unfolding sf by (rule nth_equalityI) (use p ok step_consume in \<open>auto simp: world_ok_def\<close>)
  moreover have "at_counts (consume (of_nat n) r) (length pub) (?t + n) ct ch"
    using a n by (auto simp: at_counts_def consume_def)
  moreover have "tak = take ?t pub" using ok step_consume by (simp add: world_ok_def)
  moreover have "take (?t + n) pub = take ?t pub @ take n (drop ?t pub)" by (rule take_add)
  ultimately show ?thesis using ok step_consume p
    by (auto simp: world_ok_def consume_def)
qed

lemma run_world_ok: "ring_run w w' \<Longrightarrow> world_ok w \<Longrightarrow> world_ok w'"
  by (induction rule: ring_run.induct) (auto intro: step_world_ok)

lemma new_world_ok: "k < 64 \<Longrightarrow> world_ok (ring_new (2 ^ k) b, [], [])"
  by (auto simp: world_ok_def at_counts_def ring_new_def)

lemma step_capacity: "ring_step (r, p, t) (r', p', t') \<Longrightarrow> length (r_slots r') = length (r_slots r)"
  by (erule ring_step.cases)
    (auto simp: writable_def writable_exact_def readable_def write_slot_def ring_publish_def consume_def Let_def)

lemma run_capacity: "ring_run w w' \<Longrightarrow> length (r_slots (fst w')) = length (r_slots (fst w))"
  by (induction rule: ring_run.induct) (auto dest: step_capacity)

lemma world_counts:
  assumes "world_ok (r, pub, tak)"
  obtains ct ch where "at_counts r (length pub) (length tak) ct ch"
  using assms by (auto simp: world_ok_def)

text \<open>No slot the producer may still write is one the consumer may still read.\<close>

lemma no_race:
  assumes ok: "world_ok (r, pub, tak)" and n: "n < offered r" and m: "m < ready r"
  shows "unat ((r_head r + of_nat n) AND kMask r) \<noteq> unat ((r_tail r + of_nat m) AND kMask r)"
proof -
  obtain ct ch where a: "at_counts r (length pub) (length tak) ct ch" using world_counts [OF ok] .
  have h: "r_head r = of_nat (length pub)" "r_tail r = of_nat (length tak)" using a by (simp_all add: at_counts_def)
  have "length tak + m < length pub + n" "length pub + n < length tak + m + length (r_slots r)"
    using a n m counts_facts(1,2) [OF a] by (auto simp: at_counts_def)
  from mod_apart [OF this] show ?thesis unfolding h at_slot [OF a] by simp
qed

lemma publish_asserts_ok:
  assumes ok: "world_ok (r, pub, tak)" and n: "n \<le> offered r"
  shows "publish_asserts (of_nat n) r"
proof -
  obtain ct ch where a: "at_counts r (length pub) (length tak) ct ch" using world_counts [OF ok] .
  have b: "length tak \<le> length pub + n" "length pub + n - length tak \<le> length (r_slots r)"
    using a n counts_facts(1) [OF a] by (auto simp: at_counts_def)
  have "r_head r + of_nat n - r_tail r = of_nat (length pub + n) - of_nat (length tak)" using a unfolding at_counts_def by simp
  then have "unat (r_head r + of_nat n - r_tail r) = length pub + n - length tak"
    using word_distance [OF b(1)] b cap_bounds(2) [OF a] by (simp only:)
  then show ?thesis using b(2) counts_facts(3) [OF a] by (simp add: publish_asserts_def word_le_nat_alt)
qed

lemma consume_asserts_ok:
  assumes ok: "world_ok (r, pub, tak)" and n: "n \<le> ready r" and short: "length pub < 2 ^ 64"
  shows "consume_asserts (of_nat n) r"
proof -
  obtain ct ch where a: "at_counts r (length pub) (length tak) ct ch" using world_counts [OF ok] .
  have "length tak + n \<le> length pub" using a n counts_facts(2) [OF a] by (auto simp: at_counts_def)
  moreover have "r_tail r + of_nat n = of_nat (length tak + n)" "r_head r = of_nat (length pub)"
    using a by (simp_all add: at_counts_def)
  ultimately show ?thesis using short by (simp add: consume_asserts_def word_le_nat_alt unat_of_nat64 del: of_nat_add)
qed

text \<open>What the counts answer: a lower bound on the room or on what waits, zero only when there is none.\<close>

lemma writable_bound:
  assumes ok: "world_ok (r, pub, tak)"
  defines "room \<equiv> length tak + length (r_slots r) - length pub"
  shows "unat (fst (writable r)) \<le> room" "fst (writable r) = 0 \<longleftrightarrow> room = 0" "unat (fst (writable_exact r)) = room"
    "offered (snd (writable r)) = unat (fst (writable r))" "offered (snd (writable_exact r)) = room"
proof -
  obtain ct ch where a: "at_counts r (length pub) (length tak) ct ch" using world_counts [OF ok] .
  note f = counts_facts [OF a]
  have ct: "ct \<le> length tak" using a by (simp add: at_counts_def)
  have z: "(x :: u64) = 0 \<longleftrightarrow> unat x = 0" for x by (simp add: unat_eq_zero)
  show "unat (fst (writable r)) \<le> room" "fst (writable r) = 0 \<longleftrightarrow> room = 0" "unat (fst (writable_exact r)) = room"
    using f(5,6) ct by (auto simp: writable_def writable_exact_def Let_def room_def capacity_def z)
  note g = counts_facts [OF refresh_tail [OF a]]
  show "offered (snd (writable r)) = unat (fst (writable r))"
    using f(1,5) g(1,5) by (simp add: writable_def Let_def)
  show "offered (snd (writable_exact r)) = room"
    using g(1) by (simp add: writable_exact_def Let_def room_def)
qed

lemma readable_bound:
  assumes ok: "world_ok (r, pub, tak)"
  shows "unat (fst (readable r)) \<le> length pub - length tak" "fst (readable r) = 0 \<longleftrightarrow> length pub = length tak"
    "ready (snd (readable r)) = unat (fst (readable r))"
proof -
  obtain ct ch where a: "at_counts r (length pub) (length tak) ct ch" using world_counts [OF ok] .
  note f = counts_facts [OF a] and g = counts_facts [OF refresh_head [OF a]]
  have ch: "ch \<le> length pub" "length tak \<le> length pub" using a by (auto simp: at_counts_def)
  have z: "(x :: u64) = 0 \<longleftrightarrow> unat x = 0" for x by (simp add: unat_eq_zero)
  show "unat (fst (readable r)) \<le> length pub - length tak" "fst (readable r) = 0 \<longleftrightarrow> length pub = length tak"
    "ready (snd (readable r)) = unat (fst (readable r))"
    using f(2) g(2) ch by (auto simp: readable_def Let_def ready_def z)
qed

section \<open>A bounded queue\<close>

text \<open>
  What a component on one side of the ring relies on when both ends are called in turn: a queue of a
  fixed room, whose push reports a full queue and whose pop gives the oldest element.
\<close>

datatype 'a queue_op = Push 'a | Pop

fun run_ops :: "('a \<Rightarrow> 'q \<Rightarrow> bool \<times> 'q) \<Rightarrow> ('q \<Rightarrow> 'a option \<times> 'q) \<Rightarrow> 'a queue_op list \<Rightarrow> 'q \<Rightarrow>
    ('a option \<times> bool) list \<times> 'q" where
  "run_ops push pop [] q = ([], q)"
| "run_ops push pop (Push v # os) q = (let (ok, q) = push v q; (rs, q) = run_ops push pop os q in ((None, ok) # rs, q))"
| "run_ops push pop (Pop # os) q = (let (v, q) = pop q; (rs, q) = run_ops push pop os q in ((v, v \<noteq> None) # rs, q))"

fun spec_ops :: "nat \<Rightarrow> 'a queue_op list \<Rightarrow> 'a list \<Rightarrow> ('a option \<times> bool) list \<times> 'a list" where
  "spec_ops n [] xs = ([], xs)"
| "spec_ops n (Push v # os) xs =
     (let ok = length xs < n; (rs, xs) = spec_ops n os (if ok then xs @ [v] else xs) in ((None, ok) # rs, xs))"
| "spec_ops n (Pop # os) xs =
     (let v = (if xs = [] then None else Some (hd xs)); (rs, xs) = spec_ops n os (tl xs) in ((v, v \<noteq> None) # rs, xs))"

locale bounded_queue =
  fixes holds :: "'q \<Rightarrow> 'a list \<Rightarrow> bool"
    and room :: "'q \<Rightarrow> nat"
    and push :: "'a \<Rightarrow> 'q \<Rightarrow> bool \<times> 'q"
    and pop :: "'q \<Rightarrow> 'a option \<times> 'q"
  assumes within: "holds q xs \<Longrightarrow> length xs \<le> room q"
    and push_law: "holds q xs \<Longrightarrow> push v q = (ok, q') \<Longrightarrow>
      room q' = room q \<and> ok = (length xs < room q) \<and> holds q' (if ok then xs @ [v] else xs)"
    and pop_law: "holds q xs \<Longrightarrow> pop q = (w, q') \<Longrightarrow>
      room q' = room q \<and> w = (if xs = [] then None else Some (hd xs)) \<and> holds q' (tl xs)"
begin

lemma run_refines:
  "holds q xs \<Longrightarrow> fst (run_ops push pop os q) = fst (spec_ops (room q) os xs) \<and>
     holds (snd (run_ops push pop os q)) (snd (spec_ops (room q) os xs))"
proof (induction os arbitrary: q xs)
  case (Cons e os)
  show ?case
  proof (cases e)
    case (Push v)
    obtain ok q' where p: "push v q = (ok, q')" by (cases "push v q")
    note l = push_law [OF Cons.prems p]
    let ?ys = "if length xs < room q then xs @ [v] else xs"
    obtain rs q2 where a: "run_ops push pop os q' = (rs, q2)" by (cases "run_ops push pop os q'")
    obtain ss zs where b: "spec_ops (room q) os ?ys = (ss, zs)" by (cases "spec_ops (room q) os ?ys")
    have h: "holds q' ?ys" using l by (cases ok) auto
    show ?thesis using l Cons.IH [OF h] unfolding Push by (simp add: p a b Let_def del: if_split)
  next
    case Pop
    obtain v q' where p: "pop q = (v, q')" by (cases "pop q")
    note l = pop_law [OF Cons.prems p]
    obtain rs q2 where a: "run_ops push pop os q' = (rs, q2)" by (cases "run_ops push pop os q'")
    obtain ss zs where b: "spec_ops (room q) os (tl xs) = (ss, zs)" by (cases "spec_ops (room q) os (tl xs)")
    show ?thesis using l Cons.IH [of q' "tl xs"] unfolding Pop by (simp add: p a b Let_def)
  qed
qed simp

end

definition ring_holds :: "'a ring \<Rightarrow> 'a list \<Rightarrow> bool" where
  "ring_holds r xs \<longleftrightarrow> (\<exists>pub tak. world_ok (r, pub, tak) \<and> xs = drop (length tak) pub)"

lemma push_steps:
  assumes ok: "world_ok (r, pub, tak)" and p: "ring_push v r = (b, r')"
  shows "b \<longleftrightarrow> length pub < length tak + length (r_slots r)" "ring_run (r, pub, tak) (r', if b then pub @ [v] else pub, tak)"
proof -
  let ?r = "snd (writable r)"
  have s: "ring_step (r, pub, tak) (?r, pub, tak)" by (rule step_writable)
  have b: "b \<longleftrightarrow> fst (writable r) \<noteq> 0" using p by (auto simp: ring_push_def split: prod.splits if_splits)
  then show "b \<longleftrightarrow> length pub < length tak + length (r_slots r)" using writable_bound(2) [OF ok] by auto
  have one: "ring_run (r, pub, tak) (?r, pub, tak)" using s by (meson run_refl run_step)
  show "ring_run (r, pub, tak) (r', if b then pub @ [v] else pub, tak)"
  proof (cases b)
    case False
    then show ?thesis using one p by (auto simp: ring_push_def split: prod.splits if_splits)
  next
    case True
    let ?w = "write_slot (of_nat 0) v ?r"
    have off: "0 < offered ?r" using True b writable_bound(4) [OF ok] by (metis bot_nat_0.not_eq_extremum unat_eq_zero)
    have ok1: "world_ok (?r, pub, tak)" by (rule step_world_ok [OF s ok])
    have s2: "ring_step (?r, pub, tak) (?w, pub, tak)" by (rule step_write [OF off])
    have off2: "1 \<le> offered ?w" using off by (simp add: offered_def write_slot_def)
    have s3: "ring_step (?w, pub, tak) (ring_publish (of_nat 1) ?w, pub @ slots_from ?w (r_head ?w) 1, tak)"
      by (rule step_publish [OF off2])
    obtain ct ch where a: "at_counts ?r (length pub) (length tak) ct ch" using world_counts [OF ok1] .
    have h: "r_head ?r = of_nat (length pub)" using a by (simp add: at_counts_def)
    have sl: "r_slots ?w = (r_slots ?r)[length pub mod length (r_slots ?r) := v]"
      using at_slot [OF a, of "length pub" 0] by (simp add: write_slot_def h)
    have "kMask ?w = kMask ?r" "r_head ?w = of_nat (length pub)" using h by (simp_all add: kMask_def write_slot_def)
    then have "slots_from ?w (r_head ?w) 1 = [v]"
      using at_slot [OF a, of "length pub" 0] cap_bounds(1) [OF a] by (simp add: slots_from_def sl [simplified])
    moreover have "r' = ring_publish (of_nat 1) ?w" using p True by (auto simp: ring_push_def split: prod.splits if_splits)
    ultimately show ?thesis using one s2 s3 True by (auto intro: run_step)
  qed
qed

lemma pop_steps:
  assumes ok: "world_ok (r, pub, tak)" and p: "ring_pop r = (v, r')"
  shows "v = (if length pub = length tak then None else Some (pub ! length tak))"
    "ring_run (r, pub, tak) (r', pub, case v of None \<Rightarrow> tak | Some x \<Rightarrow> tak @ [x])"
proof -
  let ?r = "snd (readable r)"
  have s: "ring_step (r, pub, tak) (?r, pub, tak)" by (rule step_readable)
  have ok1: "world_ok (?r, pub, tak)" by (rule step_world_ok [OF s ok])
  obtain ct ch where a: "at_counts ?r (length pub) (length tak) ct ch" using world_counts [OF ok1] .
  have t: "r_tail ?r = of_nat (length tak)" "length tak \<le> length pub" using a unfolding at_counts_def by auto
  have one: "ring_run (r, pub, tak) (?r, pub, tak)" using s by (meson run_refl run_step)
  have "v = (if length pub = length tak then None else Some (pub ! length tak)) \<and>
    ring_run (r, pub, tak) (r', pub, case v of None \<Rightarrow> tak | Some x \<Rightarrow> tak @ [x])"
  proof (cases "fst (readable r) = 0")
    case True
    then have "length pub = length tak" using readable_bound(2) [OF ok] by simp
    with True show ?thesis using one p by (auto simp: ring_pop_def split: prod.splits if_splits)
  next
    case False
    then have ne: "length tak < length pub" using readable_bound(2) [OF ok] t(2) by simp
    have "1 \<le> ready ?r" using False readable_bound(3) [OF ok] unat_gt_0 [of "fst (readable r)"] by simp
    from step_consume [OF this] have s2: "ring_step (?r, pub, tak) (consume (of_nat 1) ?r, pub, tak @ slots_from ?r (r_tail ?r) 1)" .
    have "r_slots ?r ! (length tak mod length (r_slots ?r)) = pub ! length tak"
      using ok1 ne by (simp add: world_ok_def)
    then have "slots_from ?r (r_tail ?r) 1 = [pub ! length tak]" "read_slot 0 ?r = pub ! length tak"
      using at_slot [OF a, of "length tak" 0] by (simp_all add: slots_from_def read_slot_def t(1))
    moreover have "v = Some (read_slot 0 ?r)" "r' = consume (of_nat 1) ?r"
      using p False by (auto simp: ring_pop_def split: prod.splits if_splits)
    ultimately show ?thesis using one s2 ne by (auto intro: run_step)
  qed
  then show "v = (if length pub = length tak then None else Some (pub ! length tak))"
    "ring_run (r, pub, tak) (r', pub, case v of None \<Rightarrow> tak | Some x \<Rightarrow> tak @ [x])" by blast+
qed

interpretation spsc: bounded_queue ring_holds "\<lambda>r. length (r_slots r)" ring_push ring_pop
proof
  fix r :: "'a ring" and xs
  assume "ring_holds r xs"
  then obtain pub tak where ok: "world_ok (r, pub, tak)" "xs = drop (length tak) pub" by (auto simp: ring_holds_def)
  obtain ct ch where a: "at_counts r (length pub) (length tak) ct ch" using world_counts [OF ok(1)] .
  then show "length xs \<le> length (r_slots r)" using ok(2) unfolding at_counts_def by auto
next
  fix r r' :: "'a ring" and xs v b
  assume "ring_holds r xs" and p: "ring_push v r = (b, r')"
  then obtain pub tak where ok: "world_ok (r, pub, tak)" "xs = drop (length tak) pub" by (auto simp: ring_holds_def)
  obtain ct ch where a: "at_counts r (length pub) (length tak) ct ch" using world_counts [OF ok(1)] .
  then have le: "length tak \<le> length pub" unfolding at_counts_def by linarith
  note st = push_steps [OF ok(1) p]
  have "b = (length xs < length (r_slots r))" unfolding st(1) ok(2) using le by auto
  moreover have "ring_holds r' (if b then xs @ [v] else xs)"
    using run_world_ok [OF st(2) ok(1)] le ok(2) unfolding ring_holds_def
    by (intro exI [of _ "if b then pub @ [v] else pub"] exI [of _ tak]) auto
  ultimately show "length (r_slots r') = length (r_slots r) \<and> b = (length xs < length (r_slots r)) \<and>
      ring_holds r' (if b then xs @ [v] else xs)"
    using run_capacity [OF st(2)] by simp
next
  fix r r' :: "'a ring" and xs w
  assume "ring_holds r xs" and p: "ring_pop r = (w, r')"
  then obtain pub tak where ok: "world_ok (r, pub, tak)" "xs = drop (length tak) pub" by (auto simp: ring_holds_def)
  obtain ct ch where a: "at_counts r (length pub) (length tak) ct ch" using world_counts [OF ok(1)] .
  then have le: "length tak \<le> length pub" unfolding at_counts_def by linarith
  note st = pop_steps [OF ok(1) p]
  have w: "w = (if xs = [] then None else Some (hd xs))" unfolding st(1) ok(2) using le by (auto simp: hd_drop_conv_nth)
  have "ring_holds r' (tl xs)"
    using run_world_ok [OF st(2) ok(1)] w ok(2) unfolding ring_holds_def
    by (intro exI [of _ pub] exI [of _ "case w of None \<Rightarrow> tak | Some x \<Rightarrow> tak @ [x]"])
      (auto simp: drop_Suc tl_drop split: if_splits)
  with w show "length (r_slots r') = length (r_slots r) \<and> w = (if xs = [] then None else Some (hd xs)) \<and> ring_holds r' (tl xs)"
    using run_capacity [OF st(2)] by simp
qed

lemma new_holds: "k < 64 \<Longrightarrow> ring_holds (ring_new (2 ^ k) b) []"
  using new_world_ok [of k b] by (auto simp: ring_holds_def)

end
