(* ===== verification/LiveOrders.thy ===== *)
theory LiveOrders
  imports RefMap
begin

text \<open>
  How many orders rest at once: class \<open>LiveOrders\<close> of include/itchbook/itch/live_orders.hpp, the table the
  census counts with. It is the reference table over again, with a share count where that one has a
  pointer and a flag where that one has a null. The results are a simulation: every operation acts on
  the slots as the reference table's does, so it acts on the lookup as on a finite map, and the
  count of arrivals balances.
\<close>

section \<open>State and operations\<close>

record lslot =
  l_ref :: u64
  l_shares :: u32
  l_used :: bool

definition lslot_new :: lslot where
  "lslot_new = \<lparr> l_ref = 0, l_shares = 0, l_used = False \<rparr>"

record live_orders =
  lo_slots :: "lslot list"
  lo_mask :: nat
  lo_size :: nat
  lo_peak :: nat
  lo_unknown :: u64
  lo_inserts :: u64
  lo_duplicates :: u64
  lo_removed :: u64
  lo_emptied :: u64
  lo_rehashes :: u64

definition lo_new :: "nat \<Rightarrow> live_orders" where
  "lo_new capacity =
     (let cap = cap_from 16 capacity
      in \<lparr> lo_slots = replicate cap lslot_new, lo_mask = cap - 1, lo_size = 0, lo_peak = 0, lo_unknown = 0,
           lo_inserts = 0, lo_duplicates = 0, lo_removed = 0, lo_emptied = 0, lo_rehashes = 0 \<rparr>)"

fun lo_probe :: "nat \<Rightarrow> lslot list \<Rightarrow> nat \<Rightarrow> u64 \<Rightarrow> nat \<Rightarrow> probed" where
  "lo_probe 0 ss msk r i = Diverges"
| "lo_probe (Suc fuel) ss msk r i =
     (if l_used (ss ! i) then (if l_ref (ss ! i) = r then At i else lo_probe fuel ss msk r ((i + 1) AND msk))
      else Vacant i)"

definition lo_find :: "u64 \<Rightarrow> live_orders \<Rightarrow> nat option" where
  "lo_find r s =
     (case lo_probe (length (lo_slots s)) (lo_slots s) (lo_mask s) r (home (lo_mask s) r) of
        At i \<Rightarrow> Some i
      | _ \<Rightarrow> None)"

definition lo_place :: "u64 \<Rightarrow> u32 \<Rightarrow> live_orders \<Rightarrow> bool \<times> live_orders" where
  "lo_place r n s =
     (case lo_probe (length (lo_slots s)) (lo_slots s) (lo_mask s) r (home (lo_mask s) r) of
        At i \<Rightarrow> (False, s\<lparr> lo_slots := (lo_slots s)[i := (lo_slots s ! i)\<lparr> l_shares := n \<rparr>] \<rparr>)
      | Vacant i \<Rightarrow>
          (let s = s\<lparr> lo_slots := (lo_slots s)[i := \<lparr> l_ref = r, l_shares = n, l_used = True \<rparr>] \<rparr>;
               s = s\<lparr> lo_size := lo_size s + 1 \<rparr>
           in (True, if lo_size s > lo_peak s then s\<lparr> lo_peak := lo_size s \<rparr> else s))
      | Diverges \<Rightarrow> (False, s))"

definition lo_replace :: "lslot \<Rightarrow> live_orders \<Rightarrow> live_orders" where
  "lo_replace sl s = (if l_used sl then snd (lo_place (l_ref sl) (l_shares sl) s) else s)"

definition lo_grow :: "live_orders \<Rightarrow> live_orders" where
  "lo_grow s =
     (let old = lo_slots s;
          s = s\<lparr> lo_slots := replicate (length old * 2) lslot_new \<rparr>;
          s = s\<lparr> lo_mask := length (lo_slots s) - 1 \<rparr>;
          s = s\<lparr> lo_size := 0, lo_rehashes := lo_rehashes s + 1 \<rparr>
      in fold lo_replace old s)"

definition lo_insert :: "u64 \<Rightarrow> u32 \<Rightarrow> live_orders \<Rightarrow> live_orders" where
  "lo_insert r n s =
     (let s = (if (lo_size s + 1) * 2 > length (lo_slots s) then lo_grow s else s);
          (placed, s) = lo_place r n s
      in if placed then s\<lparr> lo_inserts := lo_inserts s + 1 \<rparr> else s\<lparr> lo_duplicates := lo_duplicates s + 1 \<rparr>)"

fun lo_shift :: "nat \<Rightarrow> nat \<Rightarrow> lslot list \<Rightarrow> nat \<Rightarrow> nat \<Rightarrow> lslot list" where
  "lo_shift 0 msk ss i j = ss"
| "lo_shift (Suc fuel) msk ss i j =
     (let j = (j + 1) AND msk in
      if \<not> l_used (ss ! j) then ss
      else if movable i j (home msk (l_ref (ss ! j)))
      then lo_shift fuel msk (ss[i := ss ! j, j := (ss ! j)\<lparr> l_used := False \<rparr>]) j j
      else lo_shift fuel msk ss i j)"

definition lo_erase_at :: "nat \<Rightarrow> live_orders \<Rightarrow> live_orders" where
  "lo_erase_at i s =
     s\<lparr> lo_slots := lo_shift (length (lo_slots s)) (lo_mask s)
                      ((lo_slots s)[i := (lo_slots s ! i)\<lparr> l_used := False \<rparr>]) i i,
        lo_size := lo_size s - 1 \<rparr>"

definition lo_reduce :: "u64 \<Rightarrow> u32 \<Rightarrow> live_orders \<Rightarrow> bool \<times> live_orders" where
  "lo_reduce r by_shares s =
     (case lo_find r s of
        None \<Rightarrow> (False, s\<lparr> lo_unknown := lo_unknown s + 1 \<rparr>)
      | Some i \<Rightarrow>
          if by_shares \<ge> l_shares (lo_slots s ! i) then
            (let s = lo_erase_at i s in (True, s\<lparr> lo_emptied := lo_emptied s + 1 \<rparr>))
          else (False, s\<lparr> lo_slots := (lo_slots s)[i := (lo_slots s ! i)\<lparr> l_shares := l_shares (lo_slots s ! i) - by_shares \<rparr>] \<rparr>))"

definition lo_erase :: "u64 \<Rightarrow> live_orders \<Rightarrow> bool \<times> live_orders" where
  "lo_erase r s =
     (case lo_find r s of
        None \<Rightarrow> (False, s\<lparr> lo_unknown := lo_unknown s + 1 \<rparr>)
      | Some i \<Rightarrow> (let s = lo_erase_at i s in (True, s\<lparr> lo_removed := lo_removed s + 1 \<rparr>)))"

definition lo_accounts :: "live_orders \<Rightarrow> bool" where
  "lo_accounts s \<longleftrightarrow> lo_inserts s = of_nat (lo_size s) + lo_removed s + lo_emptied s"

section \<open>The simulation by the reference table\<close>

definition lo_abs :: "lslot \<Rightarrow> u32 slot" where
  "lo_abs sl = \<lparr> s_ref = l_ref sl, s_ptr = (if l_used sl then Some (l_shares sl) else None) \<rparr>"

definition lo_table :: "live_orders \<Rightarrow> u32 refmap" where
  "lo_table s = \<lparr> rm_slots = map lo_abs (lo_slots s), rm_mask = lo_mask s, rm_size = lo_size s \<rparr>"

definition lo_lookup :: "live_orders \<Rightarrow> u64 \<Rightarrow> u32 option" where
  "lo_lookup s = rm_find (lo_table s)"

lemma lo_table_simps [simp]:
  "rm_slots (lo_table s) = map lo_abs (lo_slots s)" "rm_mask (lo_table s) = lo_mask s" "rm_size (lo_table s) = lo_size s"
  by (simp_all add: lo_table_def)

lemma lo_abs_simps [simp]:
  "s_ref (lo_abs sl) = l_ref sl" "s_ptr (lo_abs sl) = None \<longleftrightarrow> \<not> l_used sl"
  "l_used sl \<Longrightarrow> s_ptr (lo_abs sl) = Some (l_shares sl)" "(\<exists>n. s_ptr (lo_abs sl) = Some n) \<longleftrightarrow> l_used sl"
  "lo_abs (sl\<lparr> l_used := False \<rparr>) = (lo_abs sl)\<lparr> s_ptr := None \<rparr>"
  "l_used sl \<Longrightarrow> lo_abs (sl\<lparr> l_shares := n \<rparr>) = (lo_abs sl)\<lparr> s_ptr := Some n \<rparr>"
  "lo_abs \<lparr> l_ref = r, l_shares = n, l_used = True \<rparr> = \<lparr> s_ref = r, s_ptr = Some n \<rparr>"
  "lo_abs lslot_new = empty_slot"
  by (simp_all add: lo_abs_def lslot_new_def empty_slot_def)

lemma geom_less: "geom ss m \<Longrightarrow> i AND m < length ss"
  by (metis geom_and geom_pos mod_less_divisor)

lemma probe_sim:
  "geom (map lo_abs ss) m \<Longrightarrow> i < length ss \<Longrightarrow> probe fuel (map lo_abs ss) m r i = lo_probe fuel ss m r i"
proof (induction fuel arbitrary: i)
  case (Suc fuel)
  have "(i + 1) AND m < length ss" using geom_less [OF Suc.prems(1)] by simp
  with Suc show ?case by simp
qed simp

lemma shift_sim:
  "geom (map lo_abs ss) m \<Longrightarrow> i < length ss \<Longrightarrow> j < length ss \<Longrightarrow>
   map lo_abs (lo_shift fuel m ss i j) = shift_back fuel m (map lo_abs ss) i j"
proof (induction fuel arbitrary: ss i j)
  case (Suc fuel)
  define k where "k = (j + 1) AND m"
  have k: "k < length ss" using geom_less [OF Suc.prems(1)] by (simp add: k_def)
  have s: "s_ptr (map lo_abs ss ! k) = None \<longleftrightarrow> \<not> l_used (ss ! k)" "s_ref (map lo_abs ss ! k) = l_ref (ss ! k)"
    using k by simp_all
  have u: "map lo_abs (ss[i := ss ! k, k := (ss ! k)\<lparr> l_used := False \<rparr>]) =
      (map lo_abs ss)[i := map lo_abs ss ! k, k := (map lo_abs ss ! k)\<lparr> s_ptr := None \<rparr>]"
    using k by (simp add: map_update)
  have g: "geom (map lo_abs (ss[i := ss ! k, k := (ss ! k)\<lparr> l_used := False \<rparr>])) m"
    using Suc.prems(1) by (simp add: u)
  have L: "lo_shift (Suc fuel) m ss i j =
      (if \<not> l_used (ss ! k) then ss
       else if movable i k (home m (l_ref (ss ! k))) then lo_shift fuel m (ss[i := ss ! k, k := (ss ! k)\<lparr> l_used := False \<rparr>]) k k
       else lo_shift fuel m ss i k)"
    by (simp only: lo_shift.simps Let_def k_def)
  have S: "shift_back (Suc fuel) m (map lo_abs ss) i j =
      (if \<not> l_used (ss ! k) then map lo_abs ss
       else if movable i k (home m (l_ref (ss ! k)))
       then shift_back fuel m (map lo_abs (ss[i := ss ! k, k := (ss ! k)\<lparr> l_used := False \<rparr>])) k k
       else shift_back fuel m (map lo_abs ss) i k)"
    by (simp only: shift_back.simps Let_def k_def [symmetric] s u)
  have "k < length (ss[i := ss ! k, k := (ss ! k)\<lparr> l_used := False \<rparr>])" using k by simp
  note IH = Suc.IH [OF g this this] Suc.IH [OF Suc.prems(1,2) k]
  show ?case unfolding L S IH [symmetric] by (simp only: if_distrib [of "map lo_abs"])
qed simp

lemma lo_probe_at: "lo_probe fuel ss m r i = At j \<Longrightarrow> l_used (ss ! j)"
  by (induction fuel arbitrary: i) (auto split: if_splits)

lemma lo_probe_sim:
  "rm_wf (lo_table s) \<Longrightarrow>
   lo_probe (length (lo_slots s)) (lo_slots s) (lo_mask s) r (home (lo_mask s) r) =
   probe (length (rm_slots (lo_table s))) (rm_slots (lo_table s)) (rm_mask (lo_table s)) r (home (rm_mask (lo_table s)) r)"
  using geom_home [of "map lo_abs (lo_slots s)" "lo_mask s" r] by (simp add: rm_wf_def probe_sim)

lemma find_sim: "rm_wf (lo_table s) \<Longrightarrow> lo_find r s = rm_find_index (lo_table s) r"
  unfolding lo_find_def rm_find_index_def by (simp only: lo_probe_sim)

lemma occ_abs: "occ (map lo_abs ss) i \<longleftrightarrow> i < length ss \<and> l_used (ss ! i)"
  by (cases "i < length ss") (simp_all add: occ_def del: not_None_eq)

lemma find_used: "rm_wf (lo_table s) \<Longrightarrow> lo_find r s = Some i \<Longrightarrow>
    i < length (lo_slots s) \<and> l_used (lo_slots s ! i) \<and> lo_lookup s r = Some (l_shares (lo_slots s ! i))"
proof -
  assume wf: "rm_wf (lo_table s)" and "lo_find r s = Some i"
  then have f: "rm_find_index (lo_table s) r = Some i" by (simp add: find_sim)
  then have "i < length (lo_slots s)" "l_used (lo_slots s ! i)"
    using find_index_iff [OF wf, of r i] by (simp_all add: occ_abs)
  with f show ?thesis by (simp add: lo_lookup_def rm_find_def)
qed

lemma find_none: "rm_wf (lo_table s) \<Longrightarrow> lo_find r s = None \<longleftrightarrow> lo_lookup s r = None"
  using find_used [of s r] by (cases "lo_find r s") (auto simp: find_sim lo_lookup_def rm_find_def)

lemma place_sim:
  assumes wf: "rm_wf (lo_table s)"
  shows "lo_table (snd (lo_place r n s)) = rm_put r n (lo_table s)"
    "fst (lo_place r n s) \<longleftrightarrow> lo_lookup s r = None"
    "lo_peak s \<ge> lo_size s \<Longrightarrow> lo_peak (snd (lo_place r n s)) = max (lo_peak s) (lo_size (snd (lo_place r n s)))"
    "lo_inserts (snd (lo_place r n s)) = lo_inserts s" "lo_duplicates (snd (lo_place r n s)) = lo_duplicates s"
    "lo_removed (snd (lo_place r n s)) = lo_removed s" "lo_emptied (snd (lo_place r n s)) = lo_emptied s"
    "lo_unknown (snd (lo_place r n s)) = lo_unknown s"
proof -
  note p = lo_probe_sim [OF wf, of r]
  have "lo_table (snd (lo_place r n s)) = rm_put r n (lo_table s) \<and> (fst (lo_place r n s) \<longleftrightarrow> lo_lookup s r = None) \<and>
    (lo_peak s \<ge> lo_size s \<longrightarrow> lo_peak (snd (lo_place r n s)) = max (lo_peak s) (lo_size (snd (lo_place r n s)))) \<and>
    lo_inserts (snd (lo_place r n s)) = lo_inserts s \<and> lo_duplicates (snd (lo_place r n s)) = lo_duplicates s \<and>
    lo_removed (snd (lo_place r n s)) = lo_removed s \<and> lo_emptied (snd (lo_place r n s)) = lo_emptied s \<and>
    lo_unknown (snd (lo_place r n s)) = lo_unknown s"
    using wf
  proof (cases rule: probe_cases [where r = r])
    case (found i)
    then have at: "lo_probe (length (lo_slots s)) (lo_slots s) (lo_mask s) r (home (lo_mask s) r) = At i"
      using p by simp
    then have u: "l_used (lo_slots s ! i)" by (rule lo_probe_at)
    have i: "i < length (lo_slots s)" using found by (simp add: occ_abs)
    have "rm_find (lo_table s) r \<noteq> None" using found i u by (simp add: rm_find_def rm_find_index_def)
    then show ?thesis using found i u at
      by (simp add: lo_place_def rm_put_def lo_table_def map_update lo_lookup_def max_def)
  next
    case (vacant i)
    then have at: "lo_probe (length (lo_slots s)) (lo_slots s) (lo_mask s) r (home (lo_mask s) r) = Vacant i"
      using p by simp
    have "rm_find (lo_table s) r = None" using vacant by (simp add: rm_find_def rm_find_index_def)
    then show ?thesis using vacant at
      by (simp add: lo_place_def rm_put_def lo_table_def map_update lo_lookup_def max_def Let_def)
  qed
  then show "lo_table (snd (lo_place r n s)) = rm_put r n (lo_table s)"
    "fst (lo_place r n s) \<longleftrightarrow> lo_lookup s r = None"
    "lo_peak s \<ge> lo_size s \<Longrightarrow> lo_peak (snd (lo_place r n s)) = max (lo_peak s) (lo_size (snd (lo_place r n s)))"
    "lo_inserts (snd (lo_place r n s)) = lo_inserts s" "lo_duplicates (snd (lo_place r n s)) = lo_duplicates s"
    "lo_removed (snd (lo_place r n s)) = lo_removed s" "lo_emptied (snd (lo_place r n s)) = lo_emptied s"
    "lo_unknown (snd (lo_place r n s)) = lo_unknown s"
    by blast+
qed

text \<open>The size of a well-formed table is the number of references it holds.\<close>

lemma rm_size_card: "rm_wf t \<Longrightarrow> rm_size t = card (dom (rm_find t)) \<and> finite (dom (rm_find t))"
proof -
  assume wf: "rm_wf t"
  let ?f = "\<lambda>p. s_ref (rm_slots t ! p)" and ?O = "{p. occ (rm_slots t) p}"
  have "dom (rm_find t) = ?f ` ?O"
    using rm_find_iff [OF wf] by (auto simp: dom_def entry_index occ_def image_iff)
  moreover have "inj_on ?f ?O" using wf by (auto simp: rm_wf_def distinct_refs_def inj_on_def)
  ultimately show ?thesis using wf by (simp add: rm_wf_def card_image)
qed

section \<open>The table is a finite map, and its accounts balance\<close>

definition lo_ok :: "live_orders \<Rightarrow> bool" where
  "lo_ok s \<longleftrightarrow> rm_inv (lo_table s) \<and> lo_size s \<le> lo_peak s \<and> lo_accounts s"

lemma lo_size_card: "rm_wf (lo_table s) \<Longrightarrow> lo_size s = card (dom (lo_lookup s)) \<and> finite (dom (lo_lookup s))"
  using rm_size_card [of "lo_table s"] by (simp add: lo_lookup_def)

lemma replace_sim:
  "rm_wf (lo_table s) \<Longrightarrow> lo_table (lo_replace sl s) = put_slot (lo_abs sl) (lo_table s)"
  by (simp add: lo_replace_def put_slot_def place_sim(1) split: option.splits)
    (auto simp: lo_abs_def split: if_splits)

lemma replace_keeps:
  assumes "rm_wf (lo_table s)" "lo_size s \<le> lo_peak s"
  shows "lo_peak (lo_replace sl s) = max (lo_peak s) (lo_size (lo_replace sl s))"
    "lo_inserts (lo_replace sl s) = lo_inserts s" "lo_duplicates (lo_replace sl s) = lo_duplicates s"
    "lo_removed (lo_replace sl s) = lo_removed s" "lo_emptied (lo_replace sl s) = lo_emptied s"
    "lo_unknown (lo_replace sl s) = lo_unknown s"
  using assms place_sim(3-8) [OF assms(1)] by (simp_all add: lo_replace_def max_def)

lemma size_fold:
  "rm_wf t \<Longrightarrow> (rm_size t + occupied ss) * 2 \<le> length (rm_slots t) \<Longrightarrow> rm_size t \<le> rm_size (fold put_slot ss t)"
proof (induction ss arbitrary: t)
  case (Cons s ss)
  have one: "(rm_size t + occupied [s]) * 2 \<le> length (rm_slots t)"
    using Cons.prems(2) by (simp add: occupied_def split: if_splits)
  note p = put_slots_spec [OF Cons.prems(1) one]
  have "occupied (s # ss) = occupied [s] + occupied ss" by (simp add: occupied_def)
  then have "(rm_size (put_slot s t) + occupied ss) * 2 \<le> length (rm_slots (put_slot s t))"
    using Cons.prems(2) p by simp
  with Cons.IH [of "put_slot s t"] p have le: "rm_size (put_slot s t) \<le> rm_size (fold put_slot (s # ss) t)" by simp
  have "rm_size t \<le> rm_size (put_slot s t)"
    by (simp add: put_slot_def rm_put_def split: option.split probed.split)
  with le show ?case by linarith
qed simp

text \<open>Regrowing the table puts every order back and counts none of them as new.\<close>

lemma replace_all:
  assumes "rm_wf (lo_table s)" "(lo_size s + occupied (map lo_abs sls)) * 2 \<le> length (lo_slots s)" "lo_size s \<le> lo_peak s"
  shows "lo_table (fold lo_replace sls s) = fold put_slot (map lo_abs sls) (lo_table s) \<and>
    lo_peak (fold lo_replace sls s) = max (lo_peak s) (lo_size (fold lo_replace sls s)) \<and>
    lo_inserts (fold lo_replace sls s) = lo_inserts s \<and> lo_duplicates (fold lo_replace sls s) = lo_duplicates s \<and>
    lo_removed (fold lo_replace sls s) = lo_removed s \<and> lo_emptied (fold lo_replace sls s) = lo_emptied s \<and>
    lo_unknown (fold lo_replace sls s) = lo_unknown s"
  using assms
proof (induction sls arbitrary: s)
  case (Cons sl sls)
  let ?s = "lo_replace sl s"
  note k = replace_keeps [OF Cons.prems(1,3), of sl] and t = replace_sim [OF Cons.prems(1), of sl]
  have one: "(rm_size (lo_table s) + occupied [lo_abs sl]) * 2 \<le> length (rm_slots (lo_table s))"
    using Cons.prems(2) by (simp add: occupied_def split: if_splits)
  have put: "rm_wf (lo_table ?s)" "lo_size ?s \<le> lo_size s + occupied [lo_abs sl]" "length (lo_slots ?s) = length (lo_slots s)"
    using put_slots_spec [OF Cons.prems(1) one] by (simp_all add: t [symmetric])
  have sum: "occupied (map lo_abs (sl # sls)) = occupied [lo_abs sl] + occupied (map lo_abs sls)"
    by (simp add: occupied_def)
  have room: "(lo_size ?s + occupied (map lo_abs sls)) * 2 \<le> length (lo_slots ?s)"
    using Cons.prems(2) put(2,3) unfolding sum by simp
  have "lo_size ?s \<le> lo_peak ?s" using k(1) by simp
  note IH = Cons.IH [OF put(1) room this]
  have rest: "fold lo_replace (sl # sls) s = fold lo_replace sls ?s" by simp
  have "lo_size ?s \<le> lo_size (fold lo_replace sls ?s)"
  proof -
    have "rm_size (lo_table ?s) \<le> rm_size (fold put_slot (map lo_abs sls) (lo_table ?s))"
      by (rule size_fold [OF put(1)]) (use room in simp)
    also have "fold put_slot (map lo_abs sls) (lo_table ?s) = lo_table (fold lo_replace sls ?s)" using IH by simp
    finally show ?thesis by simp
  qed
  then show ?case unfolding rest using IH k t by (simp add: max_def)
qed (simp add: max_def)

lemma grow_sim:
  assumes ok: "rm_wf (lo_table s)" "lo_size s \<le> lo_peak s"
  shows "lo_table (lo_grow s) = rm_grow (lo_table s) \<and> lo_peak (lo_grow s) = max (lo_peak s) (lo_size (lo_grow s)) \<and>
    lo_inserts (lo_grow s) = lo_inserts s \<and> lo_duplicates (lo_grow s) = lo_duplicates s \<and>
    lo_removed (lo_grow s) = lo_removed s \<and> lo_emptied (lo_grow s) = lo_emptied s \<and> lo_unknown (lo_grow s) = lo_unknown s"
proof -
  let ?n = "length (lo_slots s)"
  define s0 where "s0 = s\<lparr> lo_slots := replicate (?n * 2) lslot_new, lo_mask := ?n * 2 - 1, lo_size := 0,
    lo_rehashes := lo_rehashes s + 1 \<rparr>"
  have t0: "lo_table s0 = rm_cleared (?n * 2)" by (simp add: s0_def lo_table_def rm_cleared_def)
  obtain k where "?n = 2 ^ k" using ok(1) by (auto simp: rm_wf_def geom_def)
  then have "?n * 2 = 2 ^ Suc k" by simp
  then have wf: "rm_wf (lo_table s0)" unfolding t0 by (metis rm_cleared_wf)
  have "(lo_size s0 + occupied (map lo_abs (lo_slots s))) * 2 \<le> length (lo_slots s0)"
    using occupied_le [of "map lo_abs (lo_slots s)"] by (simp add: s0_def)
  note all = replace_all [OF wf this]
  have "lo_grow s = fold lo_replace (lo_slots s) s0" by (simp add: lo_grow_def Let_def s0_def)
  then show ?thesis using all by (simp add: t0 rm_grow_def) (simp add: s0_def)
qed

lemma insert_sim:
  assumes ok: "rm_inv (lo_table s)" "lo_size s \<le> lo_peak s"
  shows "lo_table (lo_insert r n s) = rm_insert r n (lo_table s)"
    "lo_peak (lo_insert r n s) = max (lo_peak s) (lo_size (lo_insert r n s))"
    "lo_inserts (lo_insert r n s) = (if lo_lookup s r = None then lo_inserts s + 1 else lo_inserts s)"
    "lo_duplicates (lo_insert r n s) = (if lo_lookup s r = None then lo_duplicates s else lo_duplicates s + 1)"
    "lo_removed (lo_insert r n s) = lo_removed s" "lo_emptied (lo_insert r n s) = lo_emptied s"
    "lo_unknown (lo_insert r n s) = lo_unknown s"
proof -
  define g where "g = (if (lo_size s + 1) * 2 > length (lo_slots s) then lo_grow s else s)"
  have wf: "rm_wf (lo_table s)" using ok by (simp add: rm_inv_def)
  note gr = grow_sim [OF wf ok(2)]
  have g: "lo_table g = (if rm_full (lo_table s) then rm_grow (lo_table s) else lo_table s)"
    "lo_peak g = max (lo_peak s) (lo_size g)" "lo_inserts g = lo_inserts s" "lo_duplicates g = lo_duplicates s"
    "lo_removed g = lo_removed s" "lo_emptied g = lo_emptied s" "lo_unknown g = lo_unknown s"
    using gr ok(2) by (simp_all add: g_def rm_full_def max_def)
  have gwf: "rm_wf (lo_table g)" using rm_grow_spec(1) [OF wf] wf by (simp add: g(1))
  have gfind: "lo_lookup g = lo_lookup s" using rm_grow_spec(2) [OF wf] by (simp add: g(1) lo_lookup_def)
  have size: "lo_size g \<le> lo_size s" using rm_grow_spec(3) [OF wf] arg_cong [OF g(1), of rm_size] by (simp split: if_splits)
  note p = place_sim [OF gwf, of r n]
  have v: "lo_insert r n s = (let (b, s) = lo_place r n g in if b then s\<lparr> lo_inserts := lo_inserts s + 1 \<rparr>
      else s\<lparr> lo_duplicates := lo_duplicates s + 1 \<rparr>)"
    by (simp add: lo_insert_def Let_def g_def)
  obtain b s' where q: "lo_place r n g = (b, s')" by (cases "lo_place r n g")
  have t: "lo_table (s'\<lparr> lo_inserts := x \<rparr>) = lo_table s'" "lo_table (s'\<lparr> lo_duplicates := x \<rparr>) = lo_table s'" for x
    by (simp_all add: lo_table_def)
  show "lo_table (lo_insert r n s) = rm_insert r n (lo_table s)"
    using p(1) by (simp add: v q t g(1) rm_insert_def)
  show "lo_peak (lo_insert r n s) = max (lo_peak s) (lo_size (lo_insert r n s))"
    using p(3) g(2) size ok(2) by (simp add: v q max_def split: if_splits)
  show "lo_inserts (lo_insert r n s) = (if lo_lookup s r = None then lo_inserts s + 1 else lo_inserts s)"
    "lo_duplicates (lo_insert r n s) = (if lo_lookup s r = None then lo_duplicates s else lo_duplicates s + 1)"
    "lo_removed (lo_insert r n s) = lo_removed s" "lo_emptied (lo_insert r n s) = lo_emptied s"
    "lo_unknown (lo_insert r n s) = lo_unknown s"
    using p(2,4-8) g(3-7) by (simp_all add: v q gfind)
qed

lemma erase_at_sim:
  assumes ok: "rm_inv (lo_table s)" and f: "lo_find r s = Some i"
  shows "lo_table (lo_erase_at i s) = rm_erase_at i (lo_table s)"
    "lo_lookup (lo_erase_at i s) = (lo_lookup s)(r := None)" "rm_inv (lo_table (lo_erase_at i s))"
    "lo_size (lo_erase_at i s) + 1 = lo_size s"
proof -
  have wf: "rm_wf (lo_table s)" using ok by (simp add: rm_inv_def)
  have i: "i < length (lo_slots s)" using find_used [OF wf f] by simp
  have g: "geom (map lo_abs ((lo_slots s)[i := (lo_slots s ! i)\<lparr> l_used := False \<rparr>])) (lo_mask s)"
    using wf i by (simp add: rm_wf_def map_update)
  have len: "i < length ((lo_slots s)[i := (lo_slots s ! i)\<lparr> l_used := False \<rparr>])" using i by simp
  show sim: "lo_table (lo_erase_at i s) = rm_erase_at i (lo_table s)"
    using shift_sim [OF g len len, of "length (lo_slots s)"] i
    by (simp add: lo_erase_at_def rm_erase_at_def lo_table_def map_update)
  have fi: "rm_find_index (lo_table s) r = Some i" using f find_sim [OF wf] by simp
  note e = rm_erase_at_spec [OF ok fi]
  show "lo_lookup (lo_erase_at i s) = (lo_lookup s)(r := None)" "rm_inv (lo_table (lo_erase_at i s))"
    using e by (simp_all add: lo_lookup_def sim)
  have "lo_size s \<noteq> 0" using lo_size_card [OF wf] find_used [OF wf f] by (auto simp: card_eq_0_iff)
  then show "lo_size (lo_erase_at i s) + 1 = lo_size s" by (simp add: lo_erase_at_def)
qed

lemma lo_table_update [simp]:
  "lo_table (s\<lparr> lo_inserts := x \<rparr>) = lo_table s" "lo_table (s\<lparr> lo_duplicates := x \<rparr>) = lo_table s"
  "lo_table (s\<lparr> lo_removed := x \<rparr>) = lo_table s" "lo_table (s\<lparr> lo_emptied := x \<rparr>) = lo_table s"
  "lo_table (s\<lparr> lo_unknown := x \<rparr>) = lo_table s"
  by (simp_all add: lo_table_def)

lemma new_ok: "lo_ok (lo_new capacity)" "lo_lookup (lo_new capacity) = Map.empty"
proof -
  have t: "lo_table (lo_new capacity) = rm_new capacity"
    by (simp add: lo_new_def lo_table_def rm_new_def rm_cleared_def Let_def)
  show "lo_ok (lo_new capacity)" by (simp add: lo_ok_def t lo_accounts_def) (simp add: lo_new_def Let_def)
  show "lo_lookup (lo_new capacity) = Map.empty" by (simp add: lo_lookup_def t fun_eq_iff)
qed

lemma size_after:
  "rm_wf (lo_table s) \<Longrightarrow> rm_wf (lo_table s') \<Longrightarrow> lo_lookup s' = (lo_lookup s)(r \<mapsto> n) \<Longrightarrow>
   lo_size s' = (if lo_lookup s r = None then lo_size s + 1 else lo_size s)"
  using lo_size_card [of s] lo_size_card [of s']
  by (cases "r \<in> dom (lo_lookup s)") (auto simp: insert_absorb simp flip: domIff)

lemma insert_ok:
  assumes ok: "lo_ok s"
  shows "lo_ok (lo_insert r n s)" "lo_lookup (lo_insert r n s) = (lo_lookup s)(r \<mapsto> n)"
    "lo_peak (lo_insert r n s) = max (lo_peak s) (lo_size (lo_insert r n s))"
proof -
  have inv: "rm_inv (lo_table s)" "lo_size s \<le> lo_peak s" using ok by (simp_all add: lo_ok_def)
  note i = insert_sim [OF inv, of r n]
  have inv': "rm_inv (lo_table (lo_insert r n s))" using rm_insert_spec [OF inv(1)] by (simp add: i(1))
  show l: "lo_lookup (lo_insert r n s) = (lo_lookup s)(r \<mapsto> n)"
    using rm_insert_spec [OF inv(1)] by (simp add: i(1) lo_lookup_def)
  have "lo_size (lo_insert r n s) = (if lo_lookup s r = None then lo_size s + 1 else lo_size s)"
    by (rule size_after [OF _ _ l]) (use inv inv' in \<open>simp_all add: rm_inv_def\<close>)
  then show "lo_ok (lo_insert r n s)" using ok inv' i by (simp add: lo_ok_def lo_accounts_def)
  show "lo_peak (lo_insert r n s) = max (lo_peak s) (lo_size (lo_insert r n s))" by (rule i(2))
qed

lemma reduce_ok:
  assumes ok: "lo_ok s"
  shows "lo_ok (snd (lo_reduce r k s))"
    "lo_lookup (snd (lo_reduce r k s)) =
       (case lo_lookup s r of None \<Rightarrow> lo_lookup s
        | Some n \<Rightarrow> if n \<le> k then (lo_lookup s)(r := None) else (lo_lookup s)(r \<mapsto> n - k))"
    "fst (lo_reduce r k s) \<longleftrightarrow> (\<exists>n. lo_lookup s r = Some n \<and> n \<le> k)"
    "lo_peak (snd (lo_reduce r k s)) = lo_peak s"
proof -
  have inv: "rm_inv (lo_table s)" and wf: "rm_wf (lo_table s)" using ok by (simp_all add: lo_ok_def rm_inv_def)
  have "lo_ok (snd (lo_reduce r k s)) \<and> lo_lookup (snd (lo_reduce r k s)) =
       (case lo_lookup s r of None \<Rightarrow> lo_lookup s
        | Some n \<Rightarrow> if n \<le> k then (lo_lookup s)(r := None) else (lo_lookup s)(r \<mapsto> n - k)) \<and>
    (fst (lo_reduce r k s) \<longleftrightarrow> (\<exists>n. lo_lookup s r = Some n \<and> n \<le> k)) \<and> lo_peak (snd (lo_reduce r k s)) = lo_peak s"
  proof (cases "lo_find r s")
    case None
    then have "lo_lookup s r = None" using find_none [OF wf] by simp
    with None ok show ?thesis by (simp add: lo_reduce_def lo_ok_def lo_accounts_def lo_lookup_def)
  next
    case (Some i)
    note u = find_used [OF wf Some]
    show ?thesis
    proof (cases "l_shares (lo_slots s ! i) \<le> k")
      case True
      note e = erase_at_sim [OF inv Some]
      have sz: "of_nat (lo_size s) = (of_nat (lo_size (lo_erase_at i s)) + 1 :: u64)" using e(4) by (metis of_nat_add of_nat_1)
      have v: "lo_reduce r k s = (True, (lo_erase_at i s)\<lparr> lo_emptied := lo_emptied s + 1 \<rparr>)"
        using Some True by (simp add: lo_reduce_def Let_def) (simp add: lo_erase_at_def)
      have k: "lo_peak (lo_erase_at i s) = lo_peak s" "lo_inserts (lo_erase_at i s) = lo_inserts s"
        "lo_removed (lo_erase_at i s) = lo_removed s" by (simp_all add: lo_erase_at_def)
      show ?thesis unfolding v using ok e(2-4) u True sz k by (simp add: lo_ok_def lo_accounts_def lo_lookup_def)
    next
      case False
      let ?n = "l_shares (lo_slots s ! i) - k"
      define s' where "s' = s\<lparr> lo_slots := (lo_slots s)[i := (lo_slots s ! i)\<lparr> l_shares := ?n \<rparr>] \<rparr>"
      have v: "lo_reduce r k s = (False, s')" using Some False by (simp add: lo_reduce_def s'_def)
      have fi: "rm_find_index (lo_table s) r = Some i" using Some find_sim [OF wf] by simp
      then have at: "occ (rm_slots (lo_table s)) i" "s_ref (rm_slots (lo_table s) ! i) = r"
        using find_index_iff [OF wf, of r i] by blast+
      have t: "lo_table s' = (lo_table s)\<lparr> rm_slots := (rm_slots (lo_table s))[i := (rm_slots (lo_table s) ! i)\<lparr> s_ptr := Some ?n \<rparr>] \<rparr>"
        using u by (simp add: s'_def lo_table_def map_update)
      from rm_put_overwrite [OF wf at t]
      have "rm_wf (lo_table s')" "lo_lookup s' = (lo_lookup s)(r \<mapsto> ?n)" by (simp_all add: lo_lookup_def)
      then show ?thesis using ok u False unfolding v
        by (simp add: lo_ok_def lo_accounts_def rm_inv_def) (simp add: s'_def)
    qed
  qed
  then show "lo_ok (snd (lo_reduce r k s))"
    "lo_lookup (snd (lo_reduce r k s)) =
       (case lo_lookup s r of None \<Rightarrow> lo_lookup s
        | Some n \<Rightarrow> if n \<le> k then (lo_lookup s)(r := None) else (lo_lookup s)(r \<mapsto> n - k))"
    "fst (lo_reduce r k s) \<longleftrightarrow> (\<exists>n. lo_lookup s r = Some n \<and> n \<le> k)"
    "lo_peak (snd (lo_reduce r k s)) = lo_peak s"
    by blast+
qed

lemma erase_ok:
  assumes ok: "lo_ok s"
  shows "lo_ok (snd (lo_erase r s))" "lo_lookup (snd (lo_erase r s)) = (lo_lookup s)(r := None)"
    "lo_peak (snd (lo_erase r s)) = lo_peak s"
proof -
  have inv: "rm_inv (lo_table s)" and wf: "rm_wf (lo_table s)" using ok by (simp_all add: lo_ok_def rm_inv_def)
  have "lo_ok (snd (lo_erase r s)) \<and> lo_lookup (snd (lo_erase r s)) = (lo_lookup s)(r := None) \<and>
    lo_peak (snd (lo_erase r s)) = lo_peak s"
  proof (cases "lo_find r s")
    case None
    then have "lo_lookup s r = None" using find_none [OF wf] by simp
    with None ok show ?thesis by (auto simp: lo_erase_def lo_ok_def lo_accounts_def lo_lookup_def)
  next
    case (Some i)
    note e = erase_at_sim [OF inv Some]
    have sz: "of_nat (lo_size s) = (of_nat (lo_size (lo_erase_at i s)) + 1 :: u64)" using e(4) by (metis of_nat_add of_nat_1)
    have v: "lo_erase r s = (True, (lo_erase_at i s)\<lparr> lo_removed := lo_removed s + 1 \<rparr>)"
      using Some by (simp add: lo_erase_def Let_def) (simp add: lo_erase_at_def)
    have k: "lo_peak (lo_erase_at i s) = lo_peak s" "lo_inserts (lo_erase_at i s) = lo_inserts s"
      "lo_emptied (lo_erase_at i s) = lo_emptied s" by (simp_all add: lo_erase_at_def)
    show ?thesis unfolding v using ok e(2-4) sz k by (simp add: lo_ok_def lo_accounts_def lo_lookup_def)
  qed
  then show "lo_ok (snd (lo_erase r s))" "lo_lookup (snd (lo_erase r s)) = (lo_lookup s)(r := None)"
    "lo_peak (snd (lo_erase r s)) = lo_peak s"
    by blast+
qed

interpretation census: ref_table lo_ok lo_lookup lo_insert "\<lambda>r s. snd (lo_erase r s)"
  by unfold_locales (simp_all add: insert_ok erase_ok)

text \<open>The census as the feed drives it, and the map and the peak it stands for.\<close>

datatype lo_op = Arrive u64 u32 | Lower u64 u32 | Leave u64

fun lo_step :: "lo_op \<Rightarrow> live_orders \<Rightarrow> live_orders" where
  "lo_step (Arrive r n) s = lo_insert r n s"
| "lo_step (Lower r k) s = snd (lo_reduce r k s)"
| "lo_step (Leave r) s = snd (lo_erase r s)"

fun live_step :: "lo_op \<Rightarrow> (u64 \<Rightarrow> u32 option) \<times> nat \<Rightarrow> (u64 \<Rightarrow> u32 option) \<times> nat" where
  "live_step (Arrive r n) (m, peak) = (m(r \<mapsto> n), max peak (card (dom (m(r \<mapsto> n)))))"
| "live_step (Lower r k) (m, peak) =
     (case m r of None \<Rightarrow> m | Some n \<Rightarrow> if n \<le> k then m(r := None) else m(r \<mapsto> n - k), peak)"
| "live_step (Leave r) (m, peak) = (m(r := None), peak)"

lemma lo_ok_card: "lo_ok s \<Longrightarrow> lo_size s = card (dom (lo_lookup s))"
  using lo_size_card [of s] by (simp add: lo_ok_def rm_inv_def)

lemma lo_step_ok:
  assumes ok: "lo_ok s"
  shows "lo_ok (lo_step e s) \<and> live_step e (lo_lookup s, lo_peak s) = (lo_lookup (lo_step e s), lo_peak (lo_step e s))"
proof (cases e)
  case (Arrive r n)
  note i = insert_ok [OF ok, of r n]
  from i(1) have "lo_size (lo_insert r n s) = card (dom (lo_lookup (lo_insert r n s)))" by (rule lo_ok_card)
  then show ?thesis using i unfolding Arrive by (simp del: dom_fun_upd)
qed (use ok in \<open>simp_all add: reduce_ok erase_ok\<close>)

lemma lo_run_ok:
  "lo_ok s \<Longrightarrow> lo_ok (fold lo_step es s) \<and>
     (lo_lookup (fold lo_step es s), lo_peak (fold lo_step es s)) = fold live_step es (lo_lookup s, lo_peak s)"
proof (induction es arbitrary: s)
  case (Cons e es)
  from lo_step_ok [OF Cons.prems, of e] Cons.IH [of "lo_step e s"] show ?case by simp
qed simp

end
