(* ===== verification/Spec2Isabelle.thy ===== *)
theory Spec2Isabelle
  imports GatewayAnswer GatewayTrial FillOrKill Heard GatewayRun StrategySnapshot SplitOk Gap Halt Feed Tape Sequencer Ouch Engine Ledger Kill Ring LiveOrders SessionRun
begin

text \<open>
  A verification library for itchbook, a C++ library that rebuilds limit order books from the NASDAQ
  TotalView-ITCH feed, matches orders on such a book, and runs and guards simulated trading on top. It
  follows the headers under include/itchbook/, component by component; this theory imports all of them
  and holds the properties that matter most, each with a witness on a concrete input.

  How the parts fit together. A file or a MoldUDP64 stream carries length-framed ITCH messages; the parser
  or the sequencer hands them on one by one; the dispatch turns a message into an operation of the book
  of its symbol; a book keeps two sides of price levels, a level is an intrusive queue of orders, an
  order is found by its reference in a hash table and lives in a pooled node. The matching engine trades
  on such a book and owns some of its orders. The simulator turns messages into events, keeps the queue
  position of passive orders and books their fills; the kill switch watches it. The ring carries
  messages between the thread that reads the wire and the thread that keeps the book.

  Which theory models what.

  Prelude: the integer types, a \<open>std::map\<close> as a list in key order, lemmas on lists and words.

  RefMap (book/book.hpp, class RefMap): the reference table, open addressing with backward-shift deletion.
  \<open>rm_inv\<close> is its invariant, \<open>rm_find\<close> the finite map it stands for; the locale \<open>ref_table\<close> is its interface.

  Links (book/order.hpp, book/level.hpp): orders in a heap with their links, a level as an intrusive queue.
  Side (book/book.hpp, class Side): the dense band of levels with its cursor, the overflow map, the depth.
  Book, BookOps (book/book.hpp, book/pool.hpp): the pool, the storage and every operation of Book; the
  invariant \<open>book_ok\<close> ties heap, pool, table and both sides to a pair of queues by price. BookSet, Feed
  (book/book_set.hpp, book/dispatch.hpp): the books of a day by locate code and the dispatch of every message
  type; Feed proves that they refine a plain list of resting orders. Tape: the statistics of the prints.

  Wire, Itch (itch/messages.hpp, itch/reader.hpp, itch/parser.hpp, emit/itch_encode.hpp): big-endian fields,
  accessors, encoders, framing and the parser. Ouch (ouch/messages.hpp, ouch/encode.hpp): the order entry
  messages and their layout. Mold, Sequencer (mold/): the packet codec, the publisher, and the sequencer
  with its reorder buffer and gap reports. Heard: how far a lossy link takes the sequencer, and the three
  kinds of packet at which its account goes wrong or loses what was received.

  Resting (a locale \<open>resting_book\<close>: what a client that owns orders on a book relies on, interpreted on the
  book of BookOps), OrderTypes, Matcher, MatcherOk, Engine (engine/order_types.hpp, engine/matcher.hpp): the
  order types and states, every operation of the matcher, its invariant and the inductive runs of an
  engine that shares its book with others. The requests of a run are for fewer than 2^31 shares: from there
  on the code's own totals go wrong (\<open>large_fill_breaks_the_balance\<close>). FillOrKill: which fill-or-kill orders
  are let in, and what self-trade prevention makes of one.

  Money, Ledger (sim/money.hpp, sim/fees.hpp, sim/event.hpp, sim/mid.hpp, sim/ledger.hpp): amounts, fees,
  events, the mid and the ledger. Kill (risk/kill_switch.hpp): the rate window and the kill switch. Ring
  (pipe/spsc_ring.hpp): the ring, its two threads as interleaved steps, and the locale \<open>bounded_queue\<close>.
  LiveOrders (itch/live_orders.hpp): the census table, proved by a simulation of RefMap.

  Soup, Session (soupbin/): the packets of SoupBinTCP, the buffer that cuts a stream into them, and the two
  session machines. SessionOk: the locale \<open>packet_stream\<close>, from which reads of any size are equivalent. SessionRun:
  runs of a session, what every state keeps, the dead-peer detection.

  Resolve, QueueModel (sim/resolve.hpp, sim/queue_model.hpp): what a message means to a queue, and the four
  models of a passive order's place in one. QueueOk: what each operation keeps (shares, places). QueueBracket:
  the bounds, by a simulation between two models run on the same events, for an order without a reserve. QueueRestart: the states a model can
  reach, and their snapshots.

  Codec, Snapshot, StrategySnapshot (recover/snapshot.hpp, recover/strategy_snapshot.hpp): the two files of a
  restart. \<open>exact\<close> says a reader gives back what was written and refuses every proper prefix of it; SnapshotOk
  shows that the orders written best price first and oldest first rebuild every queue. Gap
  (recover/gap_policy.hpp): the tracker of gaps, its sixteen buckets as counts over the list of references.
  Halt (recover/halt.hpp): the halt tracker over a timeline of events.

  Split (replay/split.hpp): the replay of a day onto books that also hold strategy orders, and what it
  publishes. SplitOk: the encoders give back the bytes of the message, taking and printing is an execution,
  and so a consumer of what is published has the books of the exchange. \<open>engine_fits\<close> says what is asked of an
  engine the strategy orders belong to, if one is attached: the set has the book of its symbol, and no order
  of its holds a reserve back.

  Gateway (engine/gateway.hpp): order entry, from the bytes of a message of the client over the limits to the
  engine and back, with the flatten at the end of the session. GatewayOk: what sending leaves alone, the tripped
  switch, the flatten. EngineLog: what every operation of the engine keeps of its records and its log of
  fills. GatewayRun: the runs of a gateway on a venue that others use too, and what its tables say in each.
  GatewayAnswer: the messages every handler sends down a session that is logged in. GatewayTrial: a small
  gateway and the messages of a client for the witnesses.

  Conventions. Unsigned integers are words of their width and wrap; signed ones are \<open>int\<close>, cut to 32 bits
  with \<open>to_i32\<close> where the code narrows; 64-bit signed overflow, undefined in C++, is not modelled. Sizes and
  indices are \<open>nat\<close>. A \<open>char\<close> is its byte. A pointer is a natural number into a heap of orders. A result by
  reference or a \<open>nullptr\<close> is an option. An \<open>assert\<close> is a flag of the state (the matcher) or a separate
  predicate (the ring), and the theorems show it holds. A callback is an argument, its effects the state
  it is folded over. A file behind \<open>gzread\<close> is the list of bytes left in it.

  Fuel and partial functions. The probes of the tables get the number of slots as fuel, which an
  invariant shows they never use up (\<open>probe_cases\<close>, \<open>shift_back_spec\<close>). The walk along a level gets its
  count. \<open>match\<close> and \<open>fire_stops\<close> of the matcher are \<open>partial_function (option)\<close>; \<open>submit_always_returns\<close>
  shows that they return.

  Not modelled. \<open>PoolMode::PerBook\<close>, an alternative layout of the same pool. The strategies, markouts, latency
  models and intensity estimates of sim/ compute in floating point and are judged by statistics. A byte of a strategy file that names no side or no liquidity, which the code never
  writes, is read as the nearest one. The reader thread, the measurement code and the tools are operating system calls,
  clocks, arguments and printing.
\<close>
section \<open>The market\<close>

text \<open>C1. The feed handler. After any valid feed, whatever its interleaving of symbols,
  the book of every symbol shows at every price of either side exactly the orders that a plain list of
  the resting orders of the whole market holds for it, in arrival order. A symbol without a book has
  no orders. So routing by locate, the shared order pool and reference table, the dense price band,
  its re-centring and the overflow map are invisible.\<close>

theorem feed_is_the_market:
  assumes "0 < tick" "levels < 2 ^ 32 - 1" "feed_ok [] ps"
    and s: "s = run_feed ps (bookset_new h cap tick pct levels first max_chunk)"
  shows "case bs_books s l of
      None \<Rightarrow> mview l (fold mk_apply ps []) d p = []
    | Some b \<Rightarrow> book_view (bs_store s, b) d p = mview l (fold mk_apply ps []) d p"
proof -
  have r: "represents s (fold mk_apply ps [])"
    unfolding s by (rule feed_refines [OF bookset_new_represents [OF assms(1,2)] assms(3)])
  show ?thesis
    using representsD(6,9) [OF r] by (auto simp: mview_def filter_empty_conv split: option.split)
qed

lemma feed_is_the_market_witness:
  "case bs_books (sample_set blank_heap) 7 of
     None \<Rightarrow> False
   | Some b \<Rightarrow> book_view (bs_store (sample_set blank_heap), b) True 1000 = [(1, 60), (4, 20)]"
proof -
  have "mview 7 (fold mk_apply sample_feed []) True 1000 = [(1, 60), (4, 20)]"
    by (simp add: sample_market) (simp add: sample_market_def mview_def)
  moreover obtain b where "bs_books (sample_set blank_heap) 7 = Some b" by (rule sample_book)
  ultimately show ?thesis
    using feed_is_the_market [OF _ _ sample_ok sample_set_def, of 7 True 1000 blank_heap] by simp
qed

text \<open>C2. The quote of a symbol is that of the market: the best bid of its book is
  the highest price any resting buy order of the symbol has, the best ask the lowest of its sell
  orders, and there is none exactly when there are no such orders. This holds after any valid feed from the
  empty set of books: whenever a message empties or opens the best level, the cursor, the dense band and the
  overflow map agree on the next one.\<close>

theorem best_quote_is_extremal:
  assumes "0 < tick" "levels < 2 ^ 32 - 1" "feed_ok [] ps"
    and s: "s = run_feed ps (bookset_new h cap tick pct levels first max_chunk)" and b: "bs_books s l = Some b"
  shows "best (the_side d b) =
    (let P = re_price ` {e \<in> set (fold mk_apply ps []). re_locate e = l \<and> re_bid e = d}
     in if P = {} then None else Some (if d then Max P else Min P))"
proof -
  let ?P = "re_price ` {e \<in> set (fold mk_apply ps []). re_locate e = l \<and> re_bid e = d}"
  have r: "represents s (fold mk_apply ps [])"
    unfolding s by (rule feed_refines [OF bookset_new_represents [OF assms(1,2)] assms(3)])
  note g = representsD(8) [OF r b] and v = representsD(9) [OF r b]
  have mem: "book_view (bs_store s, b) d p \<noteq> [] \<longleftrightarrow> p \<in> ?P" for p
    unfolding v by (auto simp: mview_def filter_empty_conv)
  have fin: "finite ?P" by simp
  show ?thesis
  proof (cases "?P = {}")
    case True
    then have "best (the_side d b) = None"
      unfolding best_side_ok(2) [OF g] using mem by blast
    with True show ?thesis by simp
  next
    case False
    let ?p = "if d then Max ?P else Min ?P"
    have "?p \<in> ?P" using Max_in [OF fin False] Min_in [OF fin False] by (cases d) simp_all
    moreover have "\<forall>q \<in> ?P. if d then q \<le> ?p else ?p \<le> q"
      using Max_ge [OF fin] Min_le [OF fin] by (cases d) simp_all
    ultimately have "best (the_side d b) = Some ?p"
      unfolding best_side_ok(1) [OF g] mem by blast
    with False show ?thesis by (simp add: Let_def)
  qed
qed

lemma best_quote_is_extremal_witness:
  "\<exists>b. bs_books (sample_set blank_heap) 7 = Some b \<and> best (the_side True b) = Some 1000
     \<and> best (the_side False b) = None"
proof -
  obtain b where b: "bs_books (sample_set blank_heap) 7 = Some b" by (rule sample_book)
  have P: "re_price ` {e \<in> set sample_market. re_locate e = 7 \<and> re_bid e = True} = {1000}"
    "re_price ` {e \<in> set sample_market. re_locate e = 7 \<and> re_bid e = False} = {}"
    by (force simp: sample_market_def)+
  show ?thesis
    using best_quote_is_extremal [OF _ _ sample_ok sample_set_def b, of True]
      best_quote_is_extremal [OF _ _ sample_ok sample_set_def b, of False] b unfolding sample_market P by simp
qed

text \<open>Recovery after a gap: clearing every order and applying a feed from there gives
  the market of that feed alone. Nothing of the state before the gap, however it was reached, shows in
  any book afterwards.\<close>

theorem rebuild_starts_clean:
  assumes "represents s M" "feed_ok [] ps"
  shows "represents (run_feed ps (clear_all_orders s)) (fold mk_apply ps [])"
  by (rule feed_refines [OF clear_all_represents [OF assms(1)] assms(2)])

lemma rebuild_starts_clean_witness:
  "represents (run_feed sample_feed (clear_all_orders (sample_set blank_heap))) sample_market"
  using rebuild_starts_clean [OF sample_represents sample_ok] by (simp only: sample_market)

section \<open>A book\<close>

text \<open>Adding an order with a fresh reference puts it at the back of the queue of its
  price and changes no other queue of the book and nothing of another book, wherever the price lies
  and whether or not the add opens or moves the dense band.\<close>

theorem add_joins_the_back:
  assumes "good (st, b)" "rm_find (st_refs st) ref = None" "is_i32 price" "0 < price"
    "bk_resting_orders b + 1 < 2 ^ 32"
  shows "refines (st, b) (bk_add ref c price n (st, b)) (a_add (c = side_B) price ref n (book_view (st, b)))"
  by (rule add_refines [OF assms])

lemma add_joins_the_back_witness:
  "\<exists>b. bs_books (sample_set blank_heap) 7 = Some b \<and>
     book_view (bk_add 5 side_B 1000 10 (bs_store (sample_set blank_heap), b)) True 1000 = [(1, 60), (4, 20), (5, 10)]"
proof -
  obtain b where b: "bs_books (sample_set blank_heap) 7 = Some b" "good (bs_store (sample_set blank_heap), b)"
      "book_view (bs_store (sample_set blank_heap), b) = mview 7 sample_market" by (rule sample_book)
  have "rm_find (st_refs (bs_store (sample_set blank_heap))) 5 = None"
    by (rule fresh_unbound [OF sample_represents]) (simp add: sample_market_def)
  moreover have "bk_resting_orders b + 1 < 2 ^ 32"
    using resting_bound [OF sample_represents b(1)] by (simp add: sample_market_def)
  ultimately show ?thesis
    using add_joins_the_back [OF b(2), of 5 1000 side_B 10] b(1,3)
    by (simp add: refines_def is_i32_def a_add_def mview_def sample_market_def)
qed

text \<open>Executions, priced executions, partial cancels and the matcher's fills take
  shares off the order they name where it stands: it keeps its place in the queue, leaves when nothing
  is left of it, and no other order is touched. An unknown reference, or one of another symbol, changes
  no order at all.\<close>

theorem fills_keep_their_place:
  assumes "good (st, b)"
  shows "\<forall>op \<in> {bk_execute ref n, bk_execute_with_price ref n price printable, bk_cancel ref n, bk_take ref n}.
    refines (st, b) (op (st, b)) (\<lambda>d p. a_reduce ref n (book_view (st, b) d p))"
  using execute_refines [OF assms] execute_with_price_refines [OF assms] cancel_refines [OF assms]
    take_refines [OF assms] by simp

lemma fills_keep_their_place_witness:
  "\<exists>b. bs_books (sample_set blank_heap) 7 = Some b \<and>
     book_view (bk_execute 1 20 (bs_store (sample_set blank_heap), b)) True 1000 = [(1, 40), (4, 20)] \<and>
     book_view (bk_cancel 1 60 (bs_store (sample_set blank_heap), b)) True 1000 = [(4, 20)]"
proof -
  obtain b where b: "bs_books (sample_set blank_heap) 7 = Some b" "good (bs_store (sample_set blank_heap), b)"
      "book_view (bs_store (sample_set blank_heap), b) = mview 7 sample_market" by (rule sample_book)
  then show ?thesis
    using fills_keep_their_place [OF b(2), of 1 20 0 False] fills_keep_their_place [OF b(2), of 1 60 0 False]
    by (simp add: refines_def a_reduce_def mview_def sample_market_def)
qed

text \<open>A replace takes the old order out, wherever it rests, and puts the new one at the
  back of the queue of its new price on the side of the old one, even when the price is unchanged.\<close>

theorem replace_loses_priority:
  assumes "good (st, b)" "bk_find orig (st, b) = Some x"
    "rm_find (st_refs st) ref = None \<or> ref = orig" "is_i32 price" "0 < price"
  shows "refines (st, b) (bk_replace orig ref price n (st, b))
    (a_add (o_side (st_heap st x) = side_B) price ref n (\<lambda>d p. a_remove orig (book_view (st, b) d p)))"
  by (rule replace_refines [OF assms])

lemma replace_loses_priority_witness:
  "\<exists>b. bs_books (sample_set blank_heap) 7 = Some b \<and>
     book_view (bk_replace 1 1 1000 10 (bs_store (sample_set blank_heap), b)) True 1000 = [(4, 20), (1, 10)]"
proof -
  let ?st = "bs_store (sample_set blank_heap)"
  obtain b where b: "bs_books (sample_set blank_heap) 7 = Some b" "good (?st, b)"
      "book_view (?st, b) = mview 7 sample_market" by (rule sample_book)
  have "(1, 60) \<in> set (book_view (?st, b) True 1000)" by (simp add: b(3) mview_def sample_market_def)
  from view_found [OF b(2) this] obtain x where x: "bk_find 1 (?st, b) = Some x" "o_side (st_heap ?st x) = side_B"
    by auto
  show ?thesis
    using replace_loses_priority [OF b(2) x(1), of 1 1000 10] b(1)
    by (simp add: refines_def is_i32_def a_add_def a_remove_def x(2) b(3) mview_def sample_market_def)
qed

text \<open>Deleting an order removes it and nothing else.\<close>

theorem remove_takes_one_order:
  assumes "good (st, b)"
  shows "refines (st, b) (bk_remove ref (st, b)) (\<lambda>d p. a_remove ref (book_view (st, b) d p))"
  by (rule remove_refines [OF assms])

lemma remove_takes_one_order_witness:
  "\<exists>b. bs_books (sample_set blank_heap) 7 = Some b \<and>
     book_view (bk_remove 1 (bs_store (sample_set blank_heap), b)) True 1000 = [(4, 20)]"
proof -
  obtain b where b: "bs_books (sample_set blank_heap) 7 = Some b" "good (bs_store (sample_set blank_heap), b)"
      "book_view (bs_store (sample_set blank_heap), b) = mview 7 sample_market" by (rule sample_book)
  then show ?thesis
    using remove_takes_one_order [OF b(2), of 1]
    by (simp add: refines_def a_remove_def mview_def sample_market_def)
qed

text \<open>Price then time: the order the matcher and the fill models take first is the oldest
  one at the best price.\<close>

theorem front_is_oldest:
  assumes "good (st, b)" "best (the_side (c = side_B) b) = Some p"
  shows "\<exists>x. best_order c b = Some x \<and> tag (st_heap st) x = hd (book_view (st, b) (c = side_B) p)"
  using best_order_ok [OF assms] by blast

lemma front_is_oldest_witness:
  "\<exists>b x. bs_books (sample_set blank_heap) 7 = Some b \<and> best_order side_B b = Some x \<and>
     tag (st_heap (bs_store (sample_set blank_heap))) x = (1, 60)"
proof -
  let ?st = "bs_store (sample_set blank_heap)"
  obtain b where b: "bs_books (sample_set blank_heap) 7 = Some b" "good (?st, b)"
      "book_view (?st, b) = mview 7 sample_market" by (rule sample_book)
  have "best (the_side (side_B = side_B) b) = Some 1000"
    unfolding best_side_ok(1) [OF b(2)] b(3) by (auto simp: mview_def sample_market_def)
  from front_is_oldest [OF b(2) this] b show ?thesis by (simp add: mview_def sample_market_def)
qed

text \<open>The first n levels of the depth of a side are its n best occupied prices, best first,
  each with the number of its orders and the sum of their shares, whichever of band and overflow a
  level lies in.\<close>

theorem depth_is_best_first:
  assumes "good (st, b)"
  shows "bk_top c n b = map (depth_at (st, b) (c = side_B)) (take n
      (let P = sorted_list_of_set {p. book_view (st, b) (c = side_B) p \<noteq> []}
       in if c = side_B then rev P else P))"
  by (rule bk_top_ok [OF assms])

lemma depth_is_best_first_witness:
  "\<exists>b. bs_books (sample_set blank_heap) 7 = Some b \<and>
     bk_top side_B 5 b = [\<lparr> lw_price = 1000, lw_shares = 80, lw_count = 2 \<rparr>]"
proof -
  let ?st = "bs_store (sample_set blank_heap)"
  obtain b where b: "bs_books (sample_set blank_heap) 7 = Some b" "good (?st, b)"
      "book_view (?st, b) = mview 7 sample_market" by (rule sample_book)
  have "{p. book_view (?st, b) (side_B = side_B) p \<noteq> []} = {1000}"
    unfolding b(3) by (auto simp: mview_def sample_market_def)
  with depth_is_best_first [OF b(2), of side_B 5] b(1,3) show ?thesis
    by (simp add: depth_at_def shown_def mview_def sample_market_def)
qed

text \<open>Moving the dense band to any centre, with the orders that leave it going to the
  overflow map and those it now covers coming in, changes no queue of the book.\<close>

theorem band_move_is_invisible:
  assumes "good (st, b)" "is_i32 centre" "move_band_to centre (st_heap st, b) = (h', b')"
  shows "book_view (st\<lparr> st_heap := h' \<rparr>, b') = book_view (st, b)"
  by (rule move_band_view [OF assms])

lemma band_move_is_invisible_witness:
  "\<exists>b h' b'. bs_books (sample_set blank_heap) 7 = Some b \<and>
     move_band_to 5000 (st_heap (bs_store (sample_set blank_heap)), b) = (h', b') \<and>
     book_view (bs_store (sample_set blank_heap)\<lparr> st_heap := h' \<rparr>, b') True 1000 = [(1, 60), (4, 20)]"
proof -
  let ?st = "bs_store (sample_set blank_heap)"
  obtain b where b: "bs_books (sample_set blank_heap) 7 = Some b" "good (?st, b)"
      "book_view (?st, b) = mview 7 sample_market" by (rule sample_book)
  obtain h' b' where m: "move_band_to 5000 (st_heap ?st, b) = (h', b')" by (meson surj_pair)
  have "is_i32 5000" by (simp add: is_i32_def)
  from band_move_is_invisible [OF b(2) this m] b(1,3) m show ?thesis
    by (auto simp: mview_def sample_market_def)
qed

section \<open>The containers\<close>

text \<open>Inserting a reference into the open-addressing table, growing it when it is half full,
  binds exactly that reference and keeps the table well formed.\<close>

theorem refmap_insert:
  assumes "rm_inv t"
  shows "rm_inv (rm_insert r v t) \<and> rm_find (rm_insert r v t) = (rm_find t)(r \<mapsto> v)"
  using rm_insert_spec [OF assms] by blast

lemma refmap_insert_witness: "rm_find (rm_insert 21 (9 :: nat) (rm_insert 5 7 (rm_new 16))) 5 = Some 7"
proof -
  have "rm_inv (rm_insert 5 (7 :: nat) (rm_new 16))" by (simp add: rm_insert_spec)
  from refmap_insert [OF this, of 21 9] show ?thesis by (simp add: rm_insert_spec)
qed

text \<open>Backward-shift deletion from the open-addressing table removes exactly the binding of
  the erased reference: every other reference is still found, with its value, and the table stays well
  formed.\<close>

theorem refmap_erase_at:
  assumes "rm_inv t" and "rm_find_index t r = Some i"
  shows "rm_inv (rm_erase_at i t) \<and> rm_find (rm_erase_at i t) = (rm_find t)(r := None)"
  using rm_erase_at_spec [OF assms] by blast

lemma refmap_erase_at_witness: "rm_find (rm_erase_at 5 (rm_insert 5 (7 :: nat) (rm_new 16))) 5 = None"
proof -
  have t: "rm_inv (rm_insert 5 (7 :: nat) (rm_new 16))" by (simp add: rm_insert_spec)
  have "rm_find_index (rm_insert 5 (7 :: nat) (rm_new 16)) 5 = Some 5" by code_simp
  from refmap_erase_at [OF t this] show ?thesis by simp
qed

text \<open>The order pool: an allocation, from the free list or from a fresh chunk, gives a
  node no live order uses, moves no live order, and keeps the free list a list of distinct free nodes.\<close>

theorem pool_never_hands_out_a_live_node:
  assumes "pool_ok h pl L" "allocate (h, pl) = (x, h', pl')"
  shows "x \<notin> L \<and> pool_ok h' pl' (insert x L) \<and> (\<forall>y \<in> L. h' y = h y)"
  using allocate_ok [OF assms] by blast

lemma pool_never_hands_out_a_live_node_witness:
  "pool_ok (fst (snd (allocate (blank_heap, pool_new 4 8)))) (snd (snd (allocate (blank_heap, pool_new 4 8))))
     {fst (allocate (blank_heap, pool_new 4 8))}"
  using pool_never_hands_out_a_live_node [OF pool_new_ok surjective_pairing [THEN trans [OF _
      arg_cong2 [where f = Pair, OF refl surjective_pairing]]], of blank_heap 4 8] by simp

text \<open>Unlinking an order from anywhere in the queue of a level leaves the others in their
  order, with the count and the sum of the shares of what is left.\<close>

theorem unlink_keeps_time_order:
  assumes "lv_ok h lv (p @ x # q)" "lv_unlink x (h, lv) = (h', lv')"
  shows "lv_ok h' lv' (p @ q)"
  using lv_unlink_ok [OF assms] by blast

lemma unlink_keeps_time_order_witness:
  "lv_ok (fst (lv_unlink 1 two_orders)) (snd (lv_unlink 1 two_orders)) [2]"
  using unlink_keeps_time_order [of "fst two_orders" "snd two_orders" "[]" 1 "[2]"] two_orders_ok by simp

section \<open>The wire\<close>

text \<open>C6. The encoders and the dispatcher agree: dispatching the message an
  encoder writes, under the type byte it wrote, is the book operation with the encoder's arguments, for
  every message that touches an order. The timestamp has to fit its 48 bits, the price its 32.\<close>

theorem emitted_messages_drive_the_book:
  assumes "kMaxMessage \<le> length out" "ts < 2 ^ 48" "is_i32 price"
  shows
    "(let m = fst (emit_add_order out l k ts ref sd n stk price) in fst (apply_book (m ! 0) m sb) = bk_add ref sd price n sb)
     \<and> (let m = fst (emit_add_order_mpid out l k ts ref sd n stk price mpid) in
         fst (apply_book (m ! 0) m sb) = bk_add ref sd price n sb)
     \<and> (let m = fst (emit_order_executed out l k ts ref n mno) in fst (apply_book (m ! 0) m sb) = bk_execute ref n sb)
     \<and> (let m = fst (emit_order_executed_price out l k ts ref n mno pr price) in
         fst (apply_book (m ! 0) m sb) = bk_execute_with_price ref n price pr sb)
     \<and> (let m = fst (emit_order_cancel out l k ts ref n) in fst (apply_book (m ! 0) m sb) = bk_cancel ref n sb)
     \<and> (let m = fst (emit_order_delete out l k ts ref) in fst (apply_book (m ! 0) m sb) = bk_remove ref sb)
     \<and> (let m = fst (emit_order_replace out l k ts orig ref n price) in
         fst (apply_book (m ! 0) m sb) = bk_replace orig ref price n sb)"
  unfolding Let_def add_order_round_trip(1) [OF assms refl] add_order_mpid_round_trip(1) [OF assms refl]
    order_executed_round_trip(1) [OF assms(1,2) refl] order_executed_price_round_trip(1) [OF assms refl]
    order_cancel_round_trip(1) [OF assms(1,2) refl] order_delete_round_trip(1) [OF assms(1,2) refl]
    order_replace_round_trip(1) [OF assms refl]
  by (intro conjI dispatch_encoded [OF assms])

lemma emitted_messages_drive_the_book_witness:
  "let m = fst (emit_order_delete buf 7 0 9 3) in
   fst (apply_book (m ! 0) m (store_new blank_heap 16 4 8, book_new 7 100 20)) =
     bk_remove 3 (store_new blank_heap 16 4 8, book_new 7 100 20)"
  using emitted_messages_drive_the_book [OF buf_room, of 9 0] unfolding Let_def by (simp add: is_i32_def)

text \<open>Every encoder returns the length the specification table has for the type
  byte it writes, and no message is longer than the buffer the callers keep.\<close>

theorem encoders_keep_the_spec_lengths:
  assumes "kMaxMessage \<le> length out"
  shows "\<forall>m n. (m, n) \<in> {emit_system_event out loc trk ts code,
      emit_stock_directory out loc trk ts stock cat fin lot,
      emit_add_order out loc trk ts ref side shares stock price,
      emit_add_order_mpid out loc trk ts ref side shares stock price mpid,
      emit_order_executed out loc trk ts ref shares mn,
      emit_order_executed_price out loc trk ts ref shares mn printable price,
      emit_order_cancel out loc trk ts ref shares, emit_order_delete out loc trk ts ref,
      emit_order_replace out loc trk ts orig ref shares price,
      emit_trade out loc trk ts ref side shares stock price mn,
      emit_cross_trade out loc trk ts qty stock price mn ct,
      emit_trading_action out loc trk ts stock state reason,
      emit_operational_halt out loc trk ts stock market action,
      emit_mwcb_status out loc trk ts lvl, emit_broken_trade out loc trk ts mn} \<longrightarrow>
    spec_length (m ! 0) = int n \<and> n \<le> kMaxMessage"
  by (rule emit_spec_lengths [OF assms])

lemma encoders_keep_the_spec_lengths_witness:
  "spec_length (fst (emit_order_delete buf 7 0 9 3) ! 0) = int (snd (emit_order_delete buf 7 0 9 3))"
proof -
  have "spec_length (m ! 0) = int n \<and> n \<le> kMaxMessage" if "(m, n) = emit_order_delete buf 7 0 9 3" for m n
    by (rule encoders_keep_the_spec_lengths [where loc = 7 and trk = 0 and ts = 9 and ref = 3, OF buf_room,
          THEN spec, THEN spec, THEN mp]) (simp add: that)
  then show ?thesis by (metis prod.collapse)
qed

text \<open>C14. Parsing a file of framed messages gives the handler every message once, in order,
  with its type byte and length, and returns their number.\<close>

theorem framed_file_parses:
  assumes "\<forall>m \<in> set ms. framed m" "rd_stream r = frame_file ms"
  shows "parse handler r s n = Inr (fold (\<lambda>m s. handler s (m ! 0) m (of_nat (length m))) ms s, n + of_nat (length ms))"
  by (rule parse_frames [OF assms])

lemma framed_file_parses_witness:
  "parse (\<lambda>s t m n. s @ [m]) (reader_open (frame_file [[1, 2], [3]])) [] 0 = Inr ([[1, 2], [3]], 2)"
  using framed_file_parses [of "[[1, 2], [3]]" "reader_open (frame_file [[1, 2], [3]])" "\<lambda>s t m n. s @ [m]" "[]" 0]
  by (simp add: framed_def spec_length_def reader_open_def)

text \<open>A frame whose length is not the one the specification has for its type byte stops the
  parse at that frame: every earlier message was handled, the frame and all after it were not, and the
  error names the type and both lengths.\<close>

theorem desync_stops_the_parse:
  assumes "\<forall>m \<in> set ms. framed m"
    "m \<noteq> []" "length m < 2 ^ 16" "spec_length (m ! 0) > 0" "int (length m) \<noteq> spec_length (m ! 0)"
    "rd_stream r = frame_file ms @ enc16 (of_nat (length m)) @ m @ rest"
  shows "parse handler r s n = Inl (Mismatch (m ! 0) (length m) (spec_length (m ! 0)),
    fold (\<lambda>m s. handler s (m ! 0) m (of_nat (length m))) ms s)"
  by (rule parse_desync [OF assms])

lemma desync_stops_the_parse_witness:
  "parse (\<lambda>s t m n. s @ [m]) (reader_open (frame_file [[1, 2]] @ enc16 2 @ [ch CHR ''D'', 0] @ [9, 9, 9])) [] 0 =
   Inl (Mismatch (ch CHR ''D'') 2 19, [[1, 2]])"
  using desync_stops_the_parse [of "[[1, 2]]" "[ch CHR ''D'', 0]" _ "[9, 9, 9]" "\<lambda>s t m n. s @ [m]" "[]" 0]
  by (simp add: framed_def spec_length_def reader_open_def)

text \<open>The dispatch that also reports what a message referred to: it knows the order
  exactly when the order rests in that book before the message, and reports its side, price and the
  shares it then has.\<close>

theorem pre_state_names_the_order:
  assumes "good (st, b)" "references_resting_order t" "apply_ex t p (st, b) = (ps, res)"
  shows "(ps_known ps \<longleftrightarrow> (\<exists>d q n. (referenced_ref t p, n) \<in> set (book_view (st, b) d q))) \<and>
    (ps_known ps \<longrightarrow>
      (referenced_ref t p, ps_shares ps) \<in> set (book_view (st, b) (ps_side ps = side_B) (ps_price ps)))"
  using apply_ex_known [OF assms] by blast

lemma pre_state_names_the_order_witness:
  "\<exists>b. bs_books (sample_set blank_heap) 7 = Some b \<and>
     ps_known (fst (apply_ex (ch CHR ''D'') (fst (emit_order_delete buf 7 0 9 4)) (bs_store (sample_set blank_heap), b)))"
proof -
  let ?st = "bs_store (sample_set blank_heap)" and ?p = "fst (emit_order_delete buf 7 0 9 4)"
  obtain b where b: "bs_books (sample_set blank_heap) 7 = Some b" "good (?st, b)"
      "book_view (?st, b) = mview 7 sample_market" by (rule sample_book)
  have t: "references_resting_order (ch CHR ''D'')" by (simp add: references_resting_order_def)
  have ref: "referenced_ref (ch CHR ''D'') ?p = 4"
    using order_delete_round_trip [OF buf_room _ refl, of 9 7 0 4] by (simp add: referenced_ref_def)
  have "(4, 20) \<in> set (book_view (?st, b) True 1000)" by (simp add: b(3) mview_def sample_market_def)
  with pre_state_names_the_order [OF b(2) t surjective_pairing, of ?p] ref have
    "ps_known (fst (apply_ex (ch CHR ''D'') ?p (?st, b)))" by metis
  with b(1) show ?thesis by blast
qed

section \<open>The tape\<close>

text \<open>The daily statistics of a book after any prints are those of the list of the prints that
  traded shares: volume, notional and number are sums, open and close its first and last price, high
  and low its extremes.\<close>

theorem tape_sums_the_prints:
  assumes "\<forall>(p, n) \<in> set ps. 0 \<le> p" "tape_ok [] b"
  shows "tape_ok (real_prints ps) (run_tape ps b)"
  by (rule run_tape_ok [OF assms])

lemma tape_sums_the_prints_witness:
  "bk_high (run_tape [(100, 5), (90, 0), (110, 7), (95, 1)] (book_new 7 100 20)) = 110 \<and>
   bk_low (run_tape [(100, 5), (90, 0), (110, 7), (95, 1)] (book_new 7 100 20)) = 95"
  using tape_sums_the_prints [OF _ tape_new, of "[(100, 5), (90, 0), (110, 7), (95, 1)]" 7 100 20]
  by (simp add: tape_ok_def real_prints_def)

section \<open>Publishing and sequencing\<close>

text \<open>C7. Whatever the order in which the owner adds messages, flushes, lets the
  heartbeat timer run and ends the session, the datagrams sent by the next flush are a well-formed
  stream that carries every added message once, in order, under consecutive sequence numbers.\<close>

theorem publisher_sends_every_message:
  assumes "kHeaderLen < mtu" "\<forall>m \<in> set (added cs). length m + 2 \<le> mtu - kHeaderLen"
  shows "publishes session (added cs) (pb_sent (pb_flush (fold pub_step cs (publisher_new session mtu))))"
  by (rule publisher_sends [OF assms])

lemma publisher_sends_every_message_witness:
  "publishes [83] [[65], [66, 67]]
     (pb_sent (pb_flush (fold pub_step [Add [65], Heartbeat 5 1, Add [66, 67]] (publisher_new [83] 64))))"
  using publisher_sends_every_message [of 64 "[Add [65], Heartbeat 5 1, Add [66, 67]]" "[83]"]
  by (simp add: kHeaderLen_def)

text \<open>Publisher and sequencer together: a receiver that gets the datagrams of a session in
  order hands on every message the publisher was given, once, in order, and reports no gap.\<close>

theorem in_order_delivers_all:
  assumes "calls_ok mtu cs"
  shows "se_log (run_packets (wire_of session mtu cs) (sequencer_new cfg)) = map Message (added cs)"
  by (rule in_order_all [OF assms])

lemma in_order_delivers_all_witness:
  "se_log (run_packets (wire_of [83] 64 [Add [65], Flush, Add [66, 67]]) (sequencer_new seq_config_default)) =
   [Message [65], Message [66, 67]]"
  using in_order_delivers_all [of 64 "[Add [65], Flush, Add [66, 67]]" "[83]" seq_config_default]
  by (simp add: calls_ok_def message_ok_def kHeaderLen_def)

text \<open>C8. Over a link that loses, repeats and reorders datagrams, once the sequencer is flushed
  the handler has been told of every sequence number from the first packet heard on exactly once and in
  order, either as the message the publisher sent under it or inside a gap. Nothing is left held back,
  flushing ends, and the account goes past the last message of every datagram and the number of every
  heartbeat that was heard, though never past the stream. End of session packets are the exception: the
  next property says what becomes of the messages behind the last datagram heard.\<close>

theorem lossy_link_accounts:
  assumes "calls_ok mtu cs" "set (p # ps) \<subseteq> set (wire_of session mtu cs)"
    "s = run_packets (p # ps) (sequencer_new cfg)"
  shows "\<exists>s'. seq_flush s = Some s' \<and> se_buffer s' = [] \<and>
    accounts (added cs) 1 (first_sequence p) (se_log s') (unat (se_expected s')) \<and>
    unat (se_expected s') \<le> 1 + length (added cs) \<and>
    (\<forall>q \<in> set (p # ps). \<not> is_end q \<longrightarrow> next_sequence q \<le> unat (se_expected s'))"
  by (rule lossy_link_reaches [OF assms])

definition two_packets :: "u8 list list" where
  "two_packets = wire_of [83] 64 [Add [65], Flush, Add [66, 67]]"

lemma two_packets: "two_packets =
   [data_packet (session_field [83]) 1 [[65]], data_packet (session_field [83]) 2 [[66, 67]]]"
  by code_simp

lemma lossy_link_accounts_witness:
  "\<exists>s'. seq_flush (run_packets [two_packets ! 1, two_packets ! 0] (sequencer_new seq_config_default)) = Some s' \<and>
     accounts [[65], [66, 67]] 1 (first_sequence (two_packets ! 1)) (se_log s') (unat (se_expected s')) \<and>
     3 \<le> unat (se_expected s')"
proof -
  have "calls_ok 64 [Add [65], Flush, Add [66, 67]]"
    by (simp add: calls_ok_def message_ok_def kHeaderLen_def)
  note L = lossy_link_accounts [OF this _ refl, of "two_packets ! 1" "[two_packets ! 0]" "[83]" seq_config_default]
  have "\<not> is_end (two_packets ! 1)" "next_sequence (two_packets ! 1) = 3" by code_simp+
  moreover have "set [two_packets ! 1, two_packets ! 0] \<subseteq> set (wire_of [83] 64 [Add [65], Flush, Add [66, 67]])"
    unfolding two_packets_def [symmetric] by (simp add: two_packets)
  ultimately show ?thesis using L by fastforce
qed

text \<open>C9. The end of session packet carries the next sequence number, and the sequencer
  does not look at it: of any stream whose first part arrives whole and in order and whose rest is lost, the
  end of session packet of the whole stream is taken for a clean end. The handler was told of the first
  part, no gap is reported then or by a flush, and the session counts as ended.\<close>

theorem end_of_session_hides_tail_loss:
  assumes "publishes session M ds" "ds \<noteq> []" "stream_ok (session_field session) 1 (M @ rest)"
    and "s = run_packets (ds @ [mold_datagram (session_field session) (of_nat (1 + length (M @ rest))) kEndOfSession []])
      (sequencer_new cfg)"
  shows "se_log s = map Message M \<and> se_ended s \<and> seq_flush s = Some s"
proof -
  let ?S = "session_field session" and ?s = "run_packets ds (sequencer_new cfg)"
  let ?p = "mold_datagram ?S (of_nat (1 + length (M @ rest))) kEndOfSession []"
  let ?h = "the_header ?S (of_nat (1 + length (M @ rest))) kEndOfSession"
  have c: "caught_up ?S (M @ rest) M ?s" using in_order_caught_up [OF assms(1) refl assms(3), of cfg] assms(2) by blast
  then have i: "se_started ?s" "se_session ?s = ?S @ [0]" by (simp_all add: caught_up_def seq_inv_def)
  have h: "parse_header ?p = Some ?h" using parse_datagram [of ?S] by (simp add: the_header_def)
  have e: "mh_end_of_session ?h" "mh_session ?h = ?S @ [0]" by (simp_all add: the_header_def mh_end_of_session_def)
  have "s = (count_packet ?s)\<lparr> se_ended := True \<rparr>"
    unfolding assms(4) run_packets_snoc by (rule end_ignored [OF h e(1) i(1)]) (simp only: i e)
  then show ?thesis using c by (simp add: caught_up_def seq_flush_def)
qed

lemma end_of_session_hides_tail_loss_witness:
  "let s = run_packets [data_packet (session_field [83]) 1 [[65]], mold_datagram (session_field [83]) 3 kEndOfSession []]
     (sequencer_new seq_config_default)
   in se_log s = [Message [65]] \<and> se_ended s \<and> seq_flush s = Some s"
proof -
  have "publishes [83] ([] @ [[65]]) ([] @ [data_packet (session_field [83]) (of_nat (1 + length ([] :: u8 list list))) [[65]]])"
    by (rule publishes.data [OF publishes.none]) simp_all
  from end_of_session_hides_tail_loss [OF this _ _ refl, of "[[66]]" seq_config_default]
  show ?thesis by (simp add: stream_ok_def message_ok_def Let_def)
qed

text \<open>C10. A datagram for the messages from \<open>k\<close> to \<open>k + c\<close> that repeats what was
  delivered and is cut off behind blocks that were all delivered before makes the sequencer count repeated
  messages as lost: it reports a gap as long as all the missing blocks, from the number expected on. So it
  overshoots the end of that datagram, and the next good packet, which carries other messages and lies
  inside the overshoot, is dropped as a duplicate.\<close>

theorem truncated_overlap_loses_a_good_packet:
  assumes "length S = 10" "se_started s" "se_session s = S @ [0]" "se_buffer s = []"
    and "unat (se_expected s) = e" "k < e" "e < k + c" "c < 65535" "k + c < 2 ^ 64"
    and "k + length blocks \<le> e" "\<forall>m \<in> set blocks. message_ok m"
    and "ms \<noteq> []" "length ms < 65535" "k + c \<le> k'" "k' + length ms \<le> e + (c - length blocks)" "e + c < 2 ^ 64"
  shows "se_log (run_packets [cut_packet S (of_nat k) c blocks, data_packet S (of_nat k') ms] s) =
      se_log s @ [Gap (se_expected s) (of_nat (c - length blocks))] \<and>
    unat (se_expected (run_packets [cut_packet S (of_nat k) c blocks, data_packet S (of_nat k') ms] s)) =
      e + (c - length blocks)"
proof -
  let ?d = "c - length blocks" and ?s = "on_packet (cut_packet S (of_nat k) c blocks) s"
  let ?p = "data_packet S (of_nat k') ms" and ?h = "the_header S (of_nat k') (of_nat (length ms))"
  have c: "c_str (se_session s) = c_str (S @ [0])" using assms(3) by simp
  note C = cut_overlap [OF assms(1,2) c assms(4-11)]
  have h: "parse_header ?p = Some ?h" using parse_datagram [OF assms(1)] by (simp add: data_packet_def the_header_def)
  have n: "(of_nat (length ms) :: u16) \<noteq> 0" "(of_nat (length ms) :: u16) \<noteq> kEndOfSession"
    using count_zero [of "length ms"] count_not_eos [of "length ms"] assms(12,13) by simp_all
  then have hh: "\<not> mh_end_of_session ?h" "\<not> mh_heartbeat ?h" "mh_sequence ?h = of_nat k'"
    "mh_message_count ?h = of_nat (length ms)" "mh_session ?h = S @ [0]"
    by (simp_all add: the_header_def mh_end_of_session_def mh_heartbeat_def mh_message_count_def)
  have lt: "e + ?d < 2 ^ 64" using assms(16) by linarith
  have "se_expected s = of_nat e" using assms(5) by (metis of_nat_unat ucast_id)
  then have "se_expected s + of_nat ?d = of_nat (e + ?d)" by (simp only: of_nat_add)
  then have ue: "unat (se_expected ?s) = e + ?d" unfolding C(2) using unat_of_nat64 [OF lt] by (simp only:)
  have "k' + length ms < 2 ^ 64" using assms(15) lt by linarith
  then have u: "unat (of_nat k' :: u64) = k'" "unat (of_nat k' + of_nat (length ms) :: u64) = k' + length ms"
    using unat_of_nat64 [of k'] unat_of_nat64 [of "k' + length ms"] by simp_all
  have uc: "(ucast (of_nat (length ms) :: u16) :: u64) = of_nat (length ms)" using assms(13) by (intro ucast_of_nat) simp
  have "k' < e + ?d" using assms(12,15) by (cases ms) simp_all
  then have cmp: "mh_sequence ?h < se_expected ?s" "mh_sequence ?h + ucast (mh_message_count ?h) \<le> se_expected ?s"
    using assms(15) by (simp_all add: hh u uc ue word_less_nat_alt word_le_nat_alt)
  note B = behind_dropped [OF h hh(1,2) C(4) _ cmp]
  show ?thesis using B C(1,5) ue assms(3) by (simp add: run_packets_def hh(5))
qed

lemma truncated_overlap_loses_a_good_packet_witness:
  "let S = session_field [83];
       s = run_packets [data_packet S 1 [[65], [66], [67]]] (sequencer_new seq_config_default)
   in se_log (run_packets [cut_packet S 1 5 [[65]], data_packet S 6 [[70]]] s) =
     [Message [65], Message [66], Message [67], Gap 4 4]"
proof -
  let ?S = "session_field [83]"
  let ?s = "run_packets [data_packet ?S 1 [[65], [66], [67]]] (sequencer_new seq_config_default)"
  have "se_started ?s" "se_session ?s = ?S @ [0]" "se_buffer ?s = []" "se_expected ?s = 4"
    "se_log ?s = [Message [65], Message [66], Message [67]]" by code_simp+
  with truncated_overlap_loses_a_good_packet [of ?S ?s 4 1 5 "[[65]]" "[[70]]" 6]
  show ?thesis by (simp add: Let_def message_ok_def)
qed

text \<open>C11. A heartbeat ahead of the expected number has everything up to it reported lost in
  one gap, although packets are held that were received and only wait for an earlier one: those that end
  below the heartbeat's number are thrown away by the flush, and no message of them is handed on.\<close>

theorem heartbeat_drops_held_packets:
  assumes "parse_header p = Some hdr" "mh_heartbeat hdr" "se_started s" "c_str (se_session s) = c_str (mh_session hdr)"
    and "se_expected s < mh_sequence hdr"
    and "\<forall>(q, held) \<in> set (se_buffer s). q \<le> mh_sequence hdr \<and> stale (mh_sequence hdr) held"
  shows "\<exists>s'. seq_flush (on_packet p s) = Some s' \<and> se_buffer s' = [] \<and>
    se_log s' = se_log s @ [Gap (se_expected s) (mh_sequence hdr - se_expected s)]"
proof -
  have "\<not> mh_end_of_session hdr" using assms(2) by (simp add: mh_heartbeat_def mh_end_of_session_def kEndOfSession_def)
  note H = heartbeat_declares [OF assms(1,2) this assms(3-5)]
  have "\<forall>x \<in> set (se_buffer (on_packet p s)). fst x \<le> se_expected (on_packet p s) \<and> stale (se_expected (on_packet p s)) (snd x)"
    unfolding H(2,3) using assms(6) by auto
  from flush_stale [OF this] H(1) show ?thesis by metis
qed

lemma heartbeat_drops_held_packets_witness:
  "let S = session_field [83];
       s = run_packets [data_packet S 1 [[65]], data_packet S 3 [[67]]] (sequencer_new seq_config_default)
   in \<exists>s'. seq_flush (on_packet (mold_datagram S 4 0 []) s) = Some s' \<and> se_log s' = [Message [65], Gap 2 2]"
proof -
  let ?S = "session_field [83]"
  let ?s = "run_packets [data_packet ?S 1 [[65]], data_packet ?S 3 [[67]]] (sequencer_new seq_config_default)"
  let ?h = "the_header ?S 4 0"
  have s: "se_started ?s" "se_session ?s = ?S @ [0]" "se_expected ?s = 2" "se_log ?s = [Message [65]]"
    "se_buffer ?s = [(3, data_packet ?S 3 [[67]])]" "stale 4 (data_packet ?S 3 [[67]])" by code_simp+
  have h: "parse_header (mold_datagram ?S 4 0 []) = Some ?h" using parse_datagram [of ?S] by (simp add: the_header_def)
  have "mh_heartbeat ?h" "mh_session ?h = ?S @ [0]" "mh_sequence ?h = 4" by (simp_all add: the_header_def mh_heartbeat_def)
  with heartbeat_drops_held_packets [OF h, of ?s] s show ?thesis by (auto simp: Let_def)
qed

section \<open>Order entry messages\<close>

text \<open>What the gateway writes in an Accepted message is what the session's reader gets from
  it, field by field, in a buffer of any content.\<close>

theorem accepted_round_trip:
  assumes "kAcceptedLen \<le> length out" "is_i32 price"
    "(m, n) = ouch_accepted out ts tok sd shares stk price tif frm disp ref cap isoe minq crs ost bbo"
  shows "m ! 0 = ch CHR ''A'' \<and> ouch_accepted_timestamp m = ts \<and>
    ouch_accepted_order_token m = stock_field 14 tok \<and> ouch_accepted_side m = sd \<and>
    ouch_accepted_shares m = shares \<and> ouch_accepted_stock m = stock_field 8 stk \<and>
    ouch_accepted_price m = price \<and> ouch_accepted_time_in_force m = tif \<and>
    ouch_accepted_firm m = stock_field 4 frm \<and> ouch_accepted_display m = disp \<and>
    ouch_accepted_reference_number m = ref \<and> ouch_accepted_capacity m = cap \<and>
    ouch_accepted_iso_eligible m = isoe \<and> ouch_accepted_min_quantity m = minq \<and>
    ouch_accepted_cross_type m = crs \<and> ouch_accepted_order_state m = ost \<and>
    ouch_accepted_bbo_weight m = bbo \<and> n = kAcceptedLen"
  by (intro conjI ouch_accepted_round_trip [OF assms])

lemma accepted_round_trip_witness:
  "ouch_accepted_price (fst (ouch_accepted (replicate 80 7) 5 None 66 100 None 1000 0 None 89 1 80 78 0 78 76 32)) = 1000"
  using accepted_round_trip [OF _ _ prod.collapse, of "replicate 80 7" 1000 5 None 66 100 None 0 None 89 1 80 78 0 78 76 32]
  by (simp add: kAcceptedLen_def is_i32_def)

text \<open>The bytes of an order message do not depend on what the buffer held: encoding into
  two buffers gives the same message, so nothing of an earlier message, of another customer, leaves
  with it.\<close>

theorem no_stale_bytes_leave:
  assumes "kAcceptedLen \<le> length a" "kAcceptedLen \<le> length b"
  shows "take kAcceptedLen (fst (ouch_accepted a ts tok sd shares stk price tif frm disp ref cap isoe minq crs ost bbo)) =
      take kAcceptedLen (fst (ouch_accepted b ts tok sd shares stk price tif frm disp ref cap isoe minq crs ost bbo))
    \<and> take kExecutedLen (fst (ouch_executed a ts tok shares price liq mno)) =
      take kExecutedLen (fst (ouch_executed b ts tok shares price liq mno))
    \<and> take kCanceledLen (fst (ouch_canceled a ts tok shares rsn)) =
      take kCanceledLen (fst (ouch_canceled b ts tok shares rsn))
    \<and> take kRejectedLen (fst (ouch_rejected a ts tok rsn)) = take kRejectedLen (fst (ouch_rejected b ts tok rsn))"
  using assms
  by (intro conjI ouch_accepted_total ouch_executed_total ouch_canceled_total ouch_rejected_total)
    (simp_all add: kAcceptedLen_def kExecutedLen_def kCanceledLen_def kRejectedLen_def)

lemma no_stale_bytes_leave_witness:
  "take kRejectedLen (fst (ouch_rejected (replicate 80 7) 5 None 72)) =
   take kRejectedLen (fst (ouch_rejected (replicate 70 0) 5 None 72))"
  using no_stale_bytes_leave [of "replicate 80 7" "replicate 70 0"] by (simp add: kAcceptedLen_def)

section \<open>The matching engine\<close>

text \<open>C3. In every state the engine can reach through requests it can count, cancels, fills
  applied from outside, stop pumps and changes of the shared book around its orders: every share that
  entered is filled, cancelled, resting or hidden, order by order and in the totals; the book holds
  exactly the orders the engine's records say, with the shares they say; and no assertion of the order
  state machine has failed. The requests of such a run (\<open>request_ok\<close>) are for fewer than 2^31 shares, at a
  32-bit price, under a reference that is the engine's already (a duplicate, refused) or rests nowhere in
  the book, while the book has room for another order; from 2^31 shares on the totals do go wrong.\<close>

theorem engine_balances_its_shares:
  assumes "engine_run s"
  shows "conserves_shares s \<and> agrees_with_book s \<and> mt_asserted s"
  using conserves_ok [OF engine_run_ok [OF assms]] agrees_ok [OF engine_run_ok [OF assms]]
    engine_okD(3) [OF engine_run_ok [OF assms]] by blast

lemma engine_balances_its_shares_witness:
  "\<exists>r s. submit (sell_limit 1 5 1000 50) (matcher_on sample_book0) = Some (r, s) \<and> conserves_shares s \<and> agrees_with_book s"
proof -
  have run: "engine_run (matcher_on sample_book0)" by (rule engine_run.start [OF sample_good])
  from submit_ok [OF engine_run_ok [OF run] sample_request]
  obtain r s where s: "submit (sell_limit 1 5 1000 50) (matcher_on sample_book0) = Some (r, s)" by blast
  from engine_balances_its_shares [OF engine_run.submitted [OF run sample_request s]] s show ?thesis by blast
qed

text \<open>C4. A submission ends: the matching loop, the iceberg refreshes and the cascade of stops
  its trades elect all terminate, and the result of an accepted order that is not a stop accounts for
  every share of it as filled, resting or cancelled.\<close>

theorem submit_always_returns:
  assumes "engine_run s" "request_ok s req"
  shows "\<exists>r s'. submit req s = Some (r, s') \<and>
    (rs_reject r = NoReject \<longrightarrow> \<not> is_stop (rq_type req) \<longrightarrow> accounts_for r req)"
  using submit_ok [OF engine_run_ok [OF assms(1)] assms(2)] by blast

lemma submit_always_returns_witness:
  "\<exists>r s'. submit (sell_limit 1 5 1000 50) (matcher_on sample_book0) = Some (r, s') \<and>
    (rs_reject r = NoReject \<longrightarrow> accounts_for r (sell_limit 1 5 1000 50))"
  using submit_always_returns [OF engine_run.start [OF sample_good] sample_request]
  by (simp add: sell_limit_def request_new_def is_stop_def)

text \<open>C5. A submission does not leave a book crossed or locked that was not: what rests of an order
  rests behind every order of the other side it could have traded with, whatever its type, its display
  size, self-trade prevention and the stops that fire.\<close>

theorem submit_never_crosses_the_book:
  assumes "engine_run s" "request_ok s req" "\<not> crossed (snd (mt_book s))" "submit req s = Some (r, s')"
  shows "\<not> crossed (snd (mt_book s'))"
proof -
  have ok: "engine_ok {} no_flight s" by (rule engine_run_ok [OF assms(1)])
  with submit_ok [OF ok assms(2)] assms(4) have ok': "engine_ok {} no_flight s'" and u: "uncrossed s \<longrightarrow> uncrossed s'"
    by auto
  from u assms(3) show ?thesis by (simp add: uncrossed_iff engine_okD(1) [OF ok] engine_okD(1) [OF ok'])
qed

lemma submit_never_crosses_the_book_witness:
  "\<exists>r s. submit (sell_limit 1 5 1000 50) (matcher_on sample_book0) = Some (r, s) \<and> \<not> crossed (snd (mt_book s))"
proof -
  have run: "engine_run (matcher_on sample_book0)" by (rule engine_run.start [OF sample_good])
  from submit_ok [OF engine_run_ok [OF run] sample_request]
  obtain r s where s: "submit (sell_limit 1 5 1000 50) (matcher_on sample_book0) = Some (r, s)" by blast
  have "\<not> crossed (snd (mt_book (matcher_on sample_book0)))"
    by (simp add: matcher_on_def sample_book0_def crossed_def best_bid_def best_ask_def set_band_levels_def book_new_def
        side_new_def best_def)
  from submit_never_crosses_the_book [OF run sample_request this s] s show ?thesis by blast
qed

text \<open>C13. The check of a fill-or-kill order adds 64-bit level totals cut to 32 bits: it is
  refused exactly when no prefix of the levels it could reach, at most 64 of them, adds up to its quantity
  in a 32-bit sum. It then leaves the book and the fills alone. So it is refused at a price where two orders
  of 2^31 shares rest, whatever its quantity.\<close>

theorem fok_is_decided_in_32_bits:
  assumes "engine_run s" "request_ok s req" "rq_type req = FOK" "validate req s = NoReject"
  shows "\<exists>r s'. submit req s = Some (r, s') \<and>
    (rs_reject r = FokUnfillable \<longleftrightarrow>
      (\<forall>k. (\<Sum>lv \<leftarrow> take k (takeWhile (\<lambda>lv. crosses req FOK (lw_price lv))
          (bk_top (to_char (opposite (rq_side req))) 64 (snd (mt_book s)))). ucast (lw_shares lv)) < rq_quantity req)) \<and>
    (rs_reject r = FokUnfillable \<longrightarrow> rs_state r = Rejected \<and> rs_filled r = 0 \<and> mt_book s' = mt_book s \<and> mt_fills s' = mt_fills s)"
proof -
  have ok: "engine_ok {} no_flight s" by (rule engine_run_ok [OF assms(1)])
  obtain r s' where s: "submit req s = Some (r, s')" using submit_ok [OF ok assms(2)] by blast
  have "0 < rq_quantity req" using assms(4) by (auto simp: validate_def word_gt_0 split: if_splits)
  from fok_decision [OF engine_okD(2) [OF ok] assms(3,4) s] s available_short [OF this, of s] show ?thesis
    unfolding reachable_levels_def shares32_def by blast
qed

definition deep_book :: bstate where
  "deep_book = bk_add 2 (side_char False) 1000 (2 ^ 31) (bk_add 1 (side_char False) 1000 (2 ^ 31) sample_book0)"

lemma deep_book: "good deep_book" "\<not> bound deep_book 3" "bk_resting_orders (snd deep_book) = 2"
  "bk_top (side_char False) 64 (snd deep_book) = [\<lparr> lw_price = 1000, lw_shares = 2 ^ 32, lw_count = 2 \<rparr>]"
proof -
  let ?b = "bk_add 1 (side_char False) 1000 (2 ^ 31) sample_book0"
  have 0: "\<not> bound sample_book0 i" "bk_resting_orders (snd sample_book0) = 0" for i
    by (simp_all add: bound_def sample_book0_def store_new_def rm_find_new set_band_levels_def book_new_def)
  have i: "is_i32 1000" by (simp add: is_i32_def)
  have 1: "good ?b" "bk_resting_orders (snd ?b) = 1"
    using bk.add_ok [OF sample_good 0(1) i] bk.add_resting [OF sample_good 0(1) i] 0(2) by simp_all
  have u: "\<not> bound ?b j" if "j \<noteq> 1" for j
    using bk.add_bound [OF sample_good 0(1) i _ _ 0(1) that] 0(2) by simp
  show "good deep_book" "bk_resting_orders (snd deep_book) = 2"
    using bk.add_ok [OF 1(1) u i] bk.add_resting [OF 1(1) u i] 1(2) by (simp_all add: deep_book_def)
  show "\<not> bound deep_book 3"
    using bk.add_bound [OF 1(1) u i _ _ u] 1(2) by (simp add: deep_book_def)
  show "bk_top (side_char False) 64 (snd deep_book) = [\<lparr> lw_price = 1000, lw_shares = 2 ^ 32, lw_count = 2 \<rparr>]"
    by code_simp
qed

lemma fok_is_decided_in_32_bits_witness:
  "\<exists>r s'. submit (buy_fok 3 7 1000 100 StpNone) (matcher_on deep_book) = Some (r, s') \<and> rs_reject r = FokUnfillable"
proof -
  let ?q = "buy_fok 3 7 1000 100 StpNone" and ?s = "matcher_on deep_book"
  have run: "engine_run ?s" by (rule engine_run.start [OF deep_book(1)])
  have q: "rq_type ?q = FOK" "validate ?q ?s = NoReject" "request_ok ?s ?q" "rq_side ?q = Buy" "rq_quantity ?q = 100" "mt_book ?s = deep_book"
    using deep_book(2,3)
    by (simp_all add: buy_fok_def request_new_def validate_def matcher_on_def is_stop_def request_ok_def is_i32_def load_def)
  have "(\<Sum>lv \<leftarrow> take k [\<lparr> lw_price = 1000, lw_shares = 2 ^ 32, lw_count = 2 \<rparr>]. ucast (lw_shares lv)) < (100 :: u32)" for k
    by (cases k) simp_all
  then have "(\<Sum>lv \<leftarrow> take k (takeWhile P [\<lparr> lw_price = 1000, lw_shares = 2 ^ 32, lw_count = 2 \<rparr>]). ucast (lw_shares lv)) < (100 :: u32)"
    for k P by simp
  moreover have "side_char (Sell = Buy) = side_char False" by simp
  ultimately show ?thesis
    using fok_is_decided_in_32_bits [OF run q(3,1,2)] unfolding q(4-6) opposite.simps to_char_side by (metis deep_book(4))
qed

text \<open>C12. Fill-or-kill is not all-or-nothing when self-trade prevention steps in: the check of
  what is available counts the owner's own resting orders, which the matching loop then refuses to trade
  with. Whenever the best ask is headed by an order of the feed for fewer shares than wanted and the next in
  its queue is the owner's own, an order to buy that is let in fills against the first and is cancelled at
  the second.\<close>

theorem fok_can_fill_in_part:
  assumes "engine_run s" "request_ok s req" "validate req s = NoReject"
    and "rq_type req = FOK" "rq_side req = Buy" "rq_stp req = CancelNewest" "rq_quantity req \<le> available req FOK s"
    and "best_ask (snd (mt_book s)) = Some p" "p \<le> rq_price req"
    and "book_view (mt_book s) False p = (e, n) # (j, k) # q" "n < rq_quantity req"
    and "om_get e (mt_orders s) = None" "om_get j (mt_orders s) = Some m" "rq_owner (m_req m) = rq_owner req"
  shows "\<exists>r s'. submit req s = Some (r, s') \<and> rs_reject r = NoReject \<and> rs_state r = Cancelled \<and>
    rs_filled r = n \<and> rs_cancelled r = rq_quantity req - n"
proof -
  have ok: "engine_ok {} no_flight s" by (rule engine_run_ok [OF assms(1)])
  obtain r s' where s: "submit req s = Some (r, s')" using submit_ok [OF ok assms(2)] by blast
  have "\<not> bound (mt_book s) (rq_id req)"
    using assms(2,3) by (auto simp: request_ok_def validate_def split: if_splits)
  from fok_partial [OF ok s assms(4-6,3) this assms(8-10,12-14,11,7)] s show ?thesis by blast
qed

definition mixed_queue :: matcher where
  "mixed_queue = snd (the (submit (sell_limit 2 7 1000 50) (matcher_on (bk_add 1 (side_char False) 1000 50 sample_book0))))"

lemma mixed_queue:
  "let s = mixed_queue; q = buy_fok 3 7 1000 100 CancelNewest in
   validate q s = NoReject \<and> rq_quantity q \<le> available q FOK s \<and> best_ask (snd (mt_book s)) = Some 1000 \<and>
   book_view (mt_book s) False 1000 = [(1, 50), (2, 50)] \<and> om_get 1 (mt_orders s) = None \<and>
   map_option (\<lambda>m. rq_owner (m_req m)) (om_get 2 (mt_orders s)) = Some 7 \<and>
   rm_find (st_refs (fst (mt_book s))) 3 = None \<and> load s = 2"
  by code_simp

lemma fok_can_fill_in_part_witness:
  "\<exists>r s'. submit (buy_fok 3 7 1000 100 CancelNewest) mixed_queue = Some (r, s') \<and> rs_state r = Cancelled \<and> rs_filled r = 50"
proof -
  let ?q = "buy_fok 3 7 1000 100 CancelNewest" and ?b = "bk_add 1 (side_char False) 1000 50 sample_book0"
  have 0: "\<not> bound sample_book0 i" "bk_resting_orders (snd sample_book0) = 0" for i
    by (simp_all add: bound_def sample_book0_def store_new_def rm_find_new set_band_levels_def book_new_def)
  have i: "is_i32 1000" by (simp add: is_i32_def)
  have b: "good ?b" "bk_resting_orders (snd ?b) = 1" "\<not> bound ?b 2"
    using bk.add_ok [OF sample_good 0(1) i] bk.add_resting [OF sample_good 0(1) i] bk.add_bound [OF sample_good 0(1) i _ _ 0(1)] 0(2)
    by simp_all
  have start: "engine_run (matcher_on ?b)" by (rule engine_run.start [OF b(1)])
  have r: "request_ok (matcher_on ?b) (sell_limit 2 7 1000 50)"
    using b by (simp add: request_ok_def sell_limit_def request_new_def is_i32_def matcher_on_def load_def)
  from submit_ok [OF engine_run_ok [OF start] r] obtain x where "submit (sell_limit 2 7 1000 50) (matcher_on ?b) = Some (x, mixed_queue)"
    unfolding mixed_queue_def by auto
  from engine_run.submitted [OF start r this] have run: "engine_run mixed_queue" .
  note M = mixed_queue [unfolded Let_def]
  have q: "request_ok mixed_queue ?q" "rq_type ?q = FOK" "rq_side ?q = Buy" "rq_stp ?q = CancelNewest" "rq_quantity ?q = 100"
    "rq_price ?q = 1000" "rq_owner ?q = 7"
    using M by (simp_all add: request_ok_def buy_fok_def request_new_def is_i32_def bound_def)
  from M obtain m where m: "om_get 2 (mt_orders mixed_queue) = Some m" "rq_owner (m_req m) = 7" by auto
  from fok_can_fill_in_part [OF run q(1) _ q(2-4), of 1000 1 50 2 50 "[]" m] M m q(5-7) show ?thesis by auto
qed

text \<open>The bound on the shares of a request is needed. The total of filled shares adds twice the fill, doubled in 32 bits: a fill of 2^31
  shares adds nothing, and the engine's own balance check fails.\<close>

lemma large_fill_breaks_the_balance:
  "map_option (\<lambda>(rs, s). (map rs_filled rs, mt_filled_total s, conserves_shares s, agrees_with_book s))
     (submit_all [sell_limit 1 5 1000 (2 ^ 31), buy_fok 3 7 1000 (2 ^ 31) StpNone] (matcher_on sample_book0)) =
   Some ([0, 2 ^ 31], 0, False, True)"
  by code_simp

section \<open>Position and the source of every dollar\<close>

text \<open>C19. When every fill had a usable mid, equity at the mark is edge plus drift less
  fees, to the last micro-dollar: the only difference the ledger can report is what halving an odd
  doubled mark loses, fifty micro-dollars a share, and at an even mark there is none.\<close>

theorem ledger_reconciles:
  assumes "\<forall>(f, m) \<in> set fs. mid_ok m" "is_i32 (two_mark sdiv 2)"
  shows "reconciliation_error two_mark (run_fills fs (ledger_new schedule)) =
    50 * lg_position (run_fills fs (ledger_new schedule)) * (2 * (two_mark sdiv 2) - two_mark)"
  using reconciles [OF assms refl] .

definition one_fill :: sim_fill where
  "one_fill = \<lparr> sf_order_id = 1, sf_side = SBuy, sf_price = 1000000, sf_shares = 300, sf_ts = 5, sf_trigger = Execution,
     sf_liquidity = Added, sf_ahead_at_arrival = 0 \<rparr>"

lemma ledger_reconciles_witness:
  "reconciliation_error 2000301
     (run_fills [(one_fill, \<lparr> two_mid = 2000100, mid_status = Ok \<rparr>)] (ledger_new fee_schedule_default)) = - 15000"
proof -
  have "lg_position (run_fills [(one_fill, \<lparr> two_mid = 2000100, mid_status = Ok \<rparr>)] (ledger_new fee_schedule_default)) = 300"
    by (simp add: run_fills_def lg_on_fill_def ledger_new_def one_fill_def Let_def mid_ok_def usable_def)
  then show ?thesis
    using ledger_reconciles [of "[(one_fill, \<lparr> two_mid = 2000100, mid_status = Ok \<rparr>)]" 2000301 fee_schedule_default]
    by (simp add: mid_ok_def usable_def is_i32_def signed_divide_int_def)
qed

section \<open>The kill switch\<close>

text \<open>C15. As long as the switch is live, nothing it was shown broke a limit that is
  set: no position and no exposure beyond theirs, no fall of the equity from any earlier value beyond
  the drawdown, and in no stretch of 900 ms more messages than a second may hold.\<close>

theorem a_live_switch_is_within_its_limits:
  assumes "live (ks_run es (ks_new cfg))"
  shows "(\<forall>e \<in> set es. event_within cfg e) \<and>
    (0 < max_drawdown cfg \<longrightarrow> (\<forall>i j. i \<le> j \<and> j < length (equities es) \<longrightarrow>
       equities es ! i - equities es ! j \<le> max_drawdown cfg)) \<and>
    (max_messages_per_second cfg \<noteq> 0 \<and> sorted (map unat (sent_times es)) \<and> length (sent_times es) < 2 ^ 64 \<longrightarrow>
       (\<forall>a. length (filter (\<lambda>t. a \<le> unat t \<and> unat t < a + 900000000) (sent_times es)) \<le> unat (max_messages_per_second cfg)))"
  using live_within [OF assms] live_drawdown [OF assms] live_rate [OF assms] by simp

lemma a_live_switch_is_within_its_limits_witness:
  "\<forall>a. length (filter (\<lambda>t. a \<le> unat t \<and> unat t < a + 900000000) [50000000, 1000000000 :: u64]) \<le> 1"
proof -
  let ?c = "ks_config_default\<lparr> max_messages_per_second := 1 \<rparr>" and ?es = "[Sent 50000000 True, Sent 1000000000 True]"
  have "live (ks_run ?es (ks_new ?c))" by code_simp
  from a_live_switch_is_within_its_limits [OF this] show ?thesis by (simp add: ks_config_default_def)
qed

text \<open>The limit on messages is for any one-second window, but the ten buckets cover
  between 0.9 and 1 second: a switch that allows one message a second stays live when two are sent 950 ms
  apart.\<close>

theorem rate_limit_spares_a_full_second:
  "live (ks_run [Sent 50000000 True, Sent 1000000000 True] (ks_new (ks_config_default\<lparr> max_messages_per_second := 1 \<rparr>)))"
  by code_simp

text \<open>C16. A switch that has tripped keeps its first report through every later event, whatever
  else is breached; only the operator's reset makes it live again.\<close>

theorem the_first_report_stays:
  assumes "\<not> live (ks_run es k)"
  shows "ks_report (ks_run (es @ fs) k) = ks_report (ks_run es k) \<and> live (ks_reset (ks_run (es @ fs) k))"
  using run_report [OF assms, of fs] by (simp add: ks_reset_def live_def no_report_def)

lemma the_first_report_stays_witness:
  "ks_report (ks_run ([Marked 5 200 0 10] @ [Marked 6 0 0 10]) (ks_new (ks_config_default\<lparr> max_position := 100 \<rparr>))) =
     \<lparr> tr_reason = Position, tr_observed = 200, tr_limit = 100, tr_ts = 5 \<rparr>"
proof -
  let ?k = "ks_new (ks_config_default\<lparr> max_position := 100 \<rparr>)"
  have r: "ks_report (ks_run [Marked 5 200 0 10] ?k) = \<lparr> tr_reason = Position, tr_observed = 200, tr_limit = 100, tr_ts = 5 \<rparr>"
    by code_simp
  then have "\<not> live (ks_run [Marked 5 200 0 10] ?k)" by (simp add: live_def)
  from the_first_report_stays [OF this, of "[Marked 6 0 0 10]"] r show ?thesis by (simp only:)
qed

text \<open>C17. Under the limit on the ring alone, with a clock that does not run
  backwards, the switch trips exactly when some observations in a row were all above the limit and the
  last came at least the sustained time after the first: a ring that dips below the line in between never
  trips it, however deep its peaks.\<close>

theorem backlog_trips_exactly_when_sustained:
  assumes "max_ring_occupancy cfg \<noteq> 0" "sorted (map (unat \<circ> fst) os)" "\<forall>x \<in> set os. fst x \<noteq> kNoBacklog"
  shows "live (ks_run (rings os) (ks_new cfg)) \<longleftrightarrow> \<not> sustained cfg os"
  using rings_ok [OF assms] by blast

lemma backlog_trips_exactly_when_sustained_witness:
  "sustained (ks_config_default\<lparr> max_ring_occupancy := 5 \<rparr>) [(1, 6), (2, 4), (3, 9), (100000003, 7)]"
proof -
  let ?c = "ks_config_default\<lparr> max_ring_occupancy := 5 \<rparr>" and ?os = "[(1, 6), (2, 4), (3, 9), (100000003, 7)]"
  have "\<not> live (ks_run (rings ?os) (ks_new ?c))" by code_simp
  with backlog_trips_exactly_when_sustained [of ?c ?os] show ?thesis by (simp add: ks_config_default_def kNoBacklog_def)
qed

section \<open>The ring between two threads\<close>

text \<open>C18. However the atomic accesses of the two threads interleave, and across the wrap of
  the counters: what the consumer took is what the producer published, in order, without loss or
  repetition; the ring holds the rest, never more than its capacity; no slot the producer may write is one
  the consumer may read; and the assertion in \<open>publish\<close> holds.\<close>

theorem ring_hands_over_in_order:
  assumes "ring_run (ring_new (2 ^ k) b, [], []) (r, pub, tak)" "k < 64"
  shows "tak = take (length tak) pub \<and> unat (ring_size r) = length pub - length tak \<and> length pub \<le> length tak + 2 ^ k \<and>
    (\<forall>n < offered r. \<forall>m < ready r. unat ((r_head r + of_nat n) AND kMask r) \<noteq> unat ((r_tail r + of_nat m) AND kMask r)) \<and>
    (\<forall>n \<le> offered r. publish_asserts (of_nat n) r)"
proof -
  have ok: "world_ok (r, pub, tak)" by (rule run_world_ok [OF assms(1) new_world_ok [OF assms(2)]])
  obtain ct ch where a: "at_counts r (length pub) (length tak) ct ch" using world_counts [OF ok] .
  have "length (r_slots r) = 2 ^ k" using run_capacity [OF assms(1)] by (simp add: ring_new_def)
  then have "length pub \<le> length tak + 2 ^ k" using a unfolding at_counts_def by linarith
  moreover have "tak = take (length tak) pub" using ok by (simp add: world_ok_def)
  ultimately show ?thesis
    using counts_facts(4) [OF a] no_race [OF ok] publish_asserts_ok [OF ok] by blast
qed

lemma ring_hands_over_in_order_witness:
  "\<exists>r. ring_run (ring_new (2 ^ 1) 0, [], []) (r, [7 :: nat], []) \<and> unat (ring_size r) = 1"
proof -
  have "ring_push 7 (ring_new 2 (0 :: nat)) = (True, snd (ring_push 7 (ring_new 2 0)))" by code_simp
  from push_steps(2) [OF new_world_ok [of 1 "0 :: nat"], simplified, OF this]
  have r: "ring_run (ring_new (2 ^ 1) 0, [], []) (snd (ring_push 7 (ring_new 2 0)), [7 :: nat], [])" by simp
  from ring_hands_over_in_order [OF this] r show ?thesis by (intro exI [of _ "snd (ring_push 7 (ring_new 2 0))"]) simp
qed

text \<open>Called in turn, push and pop of the ring answer every sequence of calls as a plain
  queue of its capacity does: a push is refused exactly when the queue is full, a pop gives the oldest
  element or nothing.\<close>

theorem ring_is_a_bounded_queue:
  assumes "k < 64"
  shows "fst (run_ops ring_push ring_pop os (ring_new (2 ^ k) b)) = fst (spec_ops (2 ^ k) os [])"
  using spsc.run_refines [OF new_holds [OF assms, of b], of os] by (simp add: ring_new_def)

lemma ring_is_a_bounded_queue_witness:
  "fst (run_ops ring_push ring_pop [Push 1, Push 2, Push 3, Pop, Pop, Pop] (ring_new (2 ^ 1) 0)) =
    [(None, True), (None, True), (None, False), (Some (1 :: nat), True), (Some 2, True), (None, False)]"
proof -
  have "fst (run_ops ring_push ring_pop [Push 1, Push 2, Push 3, Pop, Pop, Pop] (ring_new (2 ^ 1) (0 :: nat))) =
      fst (spec_ops (2 ^ 1) [Push 1, Push 2, Push 3, Pop, Pop, Pop] [])"
    by (rule ring_is_a_bounded_queue) simp
  also have "\<dots> = [(None, True), (None, True), (None, False), (Some 1, True), (Some 2, True), (None, False)]" by simp
  finally show ?thesis .
qed

section \<open>The census of live orders\<close>

text \<open>C20. The table the census counts with acts as a finite map from references to shares under
  every sequence of arrivals, reductions and departures; its size is the number of live orders, its peak
  the largest that number was, and its arrivals balance against what is live, left or was emptied.\<close>

theorem census_is_a_finite_map:
  "(lo_lookup (fold lo_step es (lo_new c)), lo_peak (fold lo_step es (lo_new c))) =
     fold live_step es (Map.empty, 0) \<and>
   lo_size (fold lo_step es (lo_new c)) = card (dom (lo_lookup (fold lo_step es (lo_new c)))) \<and>
   lo_accounts (fold lo_step es (lo_new c))"
proof -
  have p: "lo_peak (lo_new c) = 0" by (simp add: lo_new_def Let_def)
  note r = lo_run_ok [OF new_ok(1), of es c, unfolded new_ok(2) p]
  from r have ok: "lo_ok (fold lo_step es (lo_new c))" by blast
  with r lo_ok_card [OF ok] show ?thesis by (simp add: lo_ok_def)
qed

section \<open>A place in the queue\<close>

text \<open>C21. Over the same messages, whatever they are, for one order without a hidden
  reserve in an otherwise empty model: the pessimistic model never fills more of it than the model that
  follows every order ahead, and that one never more than the optimistic model, which never fills more than
  the order is for. So the two bounds bracket it. For icebergs they need not: an earlier fill sends the
  order to the back of the queue earlier.\<close>

theorem queue_bounds_contain_the_truth:
  assumes "display = 0 \<or> q \<le> display"
  shows "filled_of i (fills_under MPessimistic cfg sb i side price q display t es) \<le>
      filled_of i (fills_under MMbo cfg sb i side price q display t es) \<and>
    filled_of i (fills_under MMbo cfg sb i side price q display t es) \<le>
      filled_of i (fills_under MOptimistic cfg sb i side price q display t es) \<and>
    filled_of i (fills_under MOptimistic cfg sb i side price q display t es) \<le> unat q"
  using fills_bracketed [OF _ assms, of MMbo MPessimistic i cfg sb side price t es]
    fills_bracketed [OF _ assms, of MOptimistic MMbo i cfg sb side price t es]
    fills_rem [of i MOptimistic cfg sb side price q display t es]
  by (simp add: quicker_def)

lemma queue_bounds_contain_the_truth_witness:
  "filled_of 7 (fills_under MPessimistic queue_config_default sample_book0 7 SBuy 1000 50 0 5 [QState (ch CHR ''T'')]) \<le>
   filled_of 7 (fills_under MMbo queue_config_default sample_book0 7 SBuy 1000 50 0 5 [QState (ch CHR ''T'')])"
  using queue_bounds_contain_the_truth [of 0 50 7 queue_config_default sample_book0 SBuy 1000 5 "[QState (ch CHR ''T'')]"] by simp

text \<open>C22. In every state a queue model can reach, under each of the four models, a
  message fills what it takes off an order: what is left of an order and what was filled of it add up as
  before. No order moves back in its queue except by the refresh of an iceberg.\<close>

theorem queue_accounts_for_every_share:
  assumes "qm_reached cfg s" "qm_commit r post (s, fs) = (s', fs')"
  shows "rem_of i (qm_entries s') + filled_of i fs' = rem_of i (qm_entries s) + filled_of i fs \<and>
    descends (qm_entries s) (qm_entries s')"
  using commit_ok [of s r post fs s' fs' i] reached_ok [OF assms(1)] assms(2) by simp

lemma queue_accounts_for_every_share_witness:
  "let s = qm_place sample_book0 7 SBuy 1000 50 20 5 (qm_new queue_config_default);
       r = resolve_event (ch CHR ''P'') (fst (emit_trade (replicate 44 0) 1 2 9 0 (ch CHR ''B'') 30 None 900 4)) \<lparr> ps_known = False, ps_side = 0, ps_price = 0, ps_shares = 0, ps_ref = 0 \<rparr> in
   rem_of 7 (qm_entries (fst (qm_commit r (snd sample_book0) (s, [])))) +
   filled_of 7 (snd (qm_commit r (snd sample_book0) (s, []))) = 50"
proof -
  let ?s = "qm_place sample_book0 7 SBuy 1000 50 20 5 (qm_new queue_config_default)"
  let ?r = "resolve_event (ch CHR ''P'') (fst (emit_trade (replicate 44 0) 1 2 9 0 (ch CHR ''B'') 30 None 900 4)) \<lparr> ps_known = False, ps_side = 0, ps_price = 0, ps_shares = 0, ps_ref = 0 \<rparr>"
  have "qm_reached queue_config_default ?s" by (rule reached_place, rule reached_new)
  from queue_accounts_for_every_share [OF this, of ?r "snd sample_book0" "[]" "fst (qm_commit ?r (snd sample_book0) (?s, []))"
      "snd (qm_commit ?r (snd sample_book0) (?s, []))" 7]
  show ?thesis by (simp add: place_rem Let_def)
qed

text \<open>A snapshot taken in any state a queue model can reach restores that state exactly:
  orders, places in the queue, the sets of what was ahead, and every counter.\<close>

theorem queue_restart_resumes:
  assumes "qm_reached cfg s"
  shows "qm_restore (state_snapshot s) (qm_new cfg) = s"
  using assms by (rule reached_restore)

lemma queue_restart_resumes_witness:
  "let s = qm_cancel 7 (qm_place sample_book0 7 SBuy 1000 50 20 5 (qm_new queue_config_default)) in
   qm_restore (state_snapshot s) (qm_new queue_config_default) = s"
  unfolding Let_def by (rule queue_restart_resumes, rule reached_cancel, rule reached_place, rule reached_new)

section \<open>The session under the orders\<close>

text \<open>C31. How the bytes of a peer are cut into reads, and when they come, makes no difference to
  what a session makes of them: state, messages handed on, counts, replies and the bytes kept back are
  the same, for client and server, protocol violations included.\<close>

theorem reads_of_any_size:
  assumes "concat (map fst rs) = concat (map fst rs')" "length (cs_buf c @ concat (map fst rs)) < 2 ^ 64"
    "length (ss_buf s @ concat (map fst rs)) < 2 ^ 64"
  shows "client_core (client_reads_all rs c) = client_core (client_reads_all rs' c) \<and>
    server_core (server_reads_all rs s) = server_core (server_reads_all rs' s)"
  using client_reads_all [of c rs] client_reads_all [of c rs'] server_reads_all [of s rs] server_reads_all [of s rs'] assms
  by (simp add: client_core_def server_core_def del: concat_eq_Nil_conv)

lemma reads_of_any_size_witness:
  "let c = client_new (client_config_default 5 5) 0 None None None None True; s = server_new server_config_default 0 True in
   client_core (client_reads_all [([0, 1], 1), ([72], 2)] c) = client_core (client_reads_all [([0, 1, 72], 9)] c) \<and>
   server_core (server_reads_all [([0, 1], 1), ([72], 2)] s) = server_core (server_reads_all [([0, 1, 72], 9)] s)"
  unfolding Let_def
  by (rule reads_of_any_size)
    (simp_all add: client_new_def server_new_def client_put_def Let_def split_def)

text \<open>C32. Every message a client sends that fits the frame limit reaches the application of a
  logged in server once, in order and byte for byte, however the stream is cut into reads; and every report of a server reaches the
  application of its client so, with both sides' sequence numbers advanced by as much.\<close>

theorem orders_cross_the_wire:
  assumes fits: "\<forall>(m, t) \<in> set ms. length m + 3 \<le> sc_max_frame (ss_cfg s) \<and> length m + 3 \<le> cc_max_frame (cs_cfg c) \<and>
      length m < 65535"
    and scratch: "sc_max_frame (ss_cfg s) \<le> length (ss_scratch s)" "cc_max_frame (cs_cfg c) \<le> length (cs_scratch c)"
    and up: "cs_out c = []" "ss_state s = LoggedIn" "ss_has_app s" "ss_buf s = []"
      "concat (map fst rs) = concat (cs_out (client_sends ms c))" "length (concat (map fst rs)) < 2 ^ 64"
    and down: "ss_out s = []" "cs_state c = LoggedIn" "cs_has_app c" "cs_buf c = []"
      "concat (map fst qs) = concat (ss_out (server_sends ms s))" "length (concat (map fst qs)) < 2 ^ 64"
  shows "ss_app (server_reads_all rs s) = ss_app s @ map (Some \<circ> fst) ms \<and> ss_state (server_reads_all rs s) = LoggedIn \<and>
    cs_app (client_reads_all qs c) = cs_app c @ map (Some \<circ> fst) ms \<and> cs_state (client_reads_all qs c) = LoggedIn \<and>
    cs_sequence (client_reads_all qs c) = cs_sequence c + of_nat (length ms) \<and>
    ss_sequence (server_sends ms s) = ss_sequence s + of_nat (length ms)"
proof -
  have m: "\<forall>m \<in> set (map fst ms). length m < 65535 \<and> length m + 3 \<le> sc_max_frame (ss_cfg s)"
    "\<forall>m \<in> set (map fst ms). length m < 65535 \<and> length m + 3 \<le> cc_max_frame (cs_cfg c)" using fits by auto
  have w: "\<forall>(m, now) \<in> set ms. length m + 3 \<le> length (cs_scratch c)" "\<forall>(m, now) \<in> set ms. length m + 3 \<le> length (ss_scratch s)"
    using fits scratch by fastforce+
  note outs = client_sends_out [OF w(1)] server_sends_out [OF w(2)]
  have "cs_out (client_sends ms c) = map (packet (ch CHR ''U'')) (map fst ms)"
    "ss_out (server_sends ms s) = map (packet (ch CHR ''S'')) (map fst ms)" using outs up(1) down(1) by simp_all
  note sc = server_takes_orders [OF m(1) up(2-4) up(5) [unfolded this(1)] up(6)]
    and cc = client_takes_reports [OF m(2) down(2-4) down(5) [unfolded this(2)] down(6)]
  show ?thesis
    unfolding server_core_reads [of "server_reads_all rs s"] client_core_reads [of "client_reads_all qs c"] sc cc
    using up(2) down(2) outs(2) by simp
qed

lemma orders_cross_the_wire_witness:
  "let s = (server_new server_config_default 0 True)\<lparr> ss_state := LoggedIn \<rparr>;
       c = (client_new (client_config_default 5 5) 0 None None None None True)\<lparr> cs_out := [], cs_state := LoggedIn \<rparr>;
       ms = [([7, 8], 1), ([9], 2)] in
   ss_app (server_reads_all [([0, 3, 85, 7], 1), ([8, 0, 2, 85, 9], 2)] s) = [Some [7, 8], Some [9]] \<and>
   cs_app (client_reads_all [([0], 1), ([3, 83, 7, 8, 0, 2, 83, 9], 2)] c) = [Some [7, 8], Some [9]]"
proof -
  let ?s = "(server_new server_config_default 0 True)\<lparr> ss_state := LoggedIn \<rparr>"
  let ?c = "(client_new (client_config_default 5 5) 0 None None None None True)\<lparr> cs_out := [], cs_state := LoggedIn \<rparr>"
  let ?ms = "[([7, 8], 1), ([9], 2)] :: (u8 list \<times> u64) list"
  let ?rs = "[([0, 3, 85, 7], 1), ([8, 0, 2, 85, 9], 2)] :: (u8 list \<times> u64) list"
  let ?qs = "[([0], 1), ([3, 83, 7, 8, 0, 2, 83, 9], 2)] :: (u8 list \<times> u64) list"
  have s: "sc_max_frame (ss_cfg ?s) = 4096" "length (ss_scratch ?s) = 4099" "ss_out ?s = []" "ss_state ?s = LoggedIn"
    "ss_has_app ?s" "ss_buf ?s = []" "ss_app ?s = []"
    by (simp_all add: server_new_def server_config_default_def)
  have c: "cc_max_frame (cs_cfg ?c) = 4096" "length (cs_scratch ?c) = 4099" "cs_out ?c = []" "cs_state ?c = LoggedIn"
    "cs_has_app ?c" "cs_buf ?c = []" "cs_app ?c = []"
    by (simp_all add: client_new_def client_config_default_def client_put_def Let_def split_def)
  have p: "concat (map (packet (ch CHR ''U'')) (map fst ?ms)) = [0, 3, 85, 7, 8, 0, 2, 85, 9]"
    "concat (map (packet (ch CHR ''S'')) (map fst ?ms)) = [0, 3, 83, 7, 8, 0, 2, 83, 9]"
    by (simp_all add: packet_def enc16_def)
  have w: "\<forall>(m, t) \<in> set ?ms. length m + 3 \<le> length (cs_scratch ?c)" "\<forall>(m, t) \<in> set ?ms. length m + 3 \<le> length (ss_scratch ?s)"
    unfolding s(2) c(2) by simp_all
  have o: "concat (cs_out (client_sends ?ms ?c)) = [0, 3, 85, 7, 8, 0, 2, 85, 9]"
    "concat (ss_out (server_sends ?ms ?s)) = [0, 3, 83, 7, 8, 0, 2, 83, 9]"
    using client_sends_out [OF w(1)] server_sends_out [OF w(2)] p s(3) c(3) by (simp_all only: append_Nil)
  have "ss_app (server_reads_all ?rs ?s) = ss_app ?s @ map (Some \<circ> fst) ?ms \<and> ss_state (server_reads_all ?rs ?s) = LoggedIn \<and>
    cs_app (client_reads_all ?qs ?c) = cs_app ?c @ map (Some \<circ> fst) ?ms \<and> cs_state (client_reads_all ?qs ?c) = LoggedIn \<and>
    cs_sequence (client_reads_all ?qs ?c) = cs_sequence ?c + of_nat (length ?ms) \<and>
    ss_sequence (server_sends ?ms ?s) = ss_sequence ?s + of_nat (length ?ms)"
    by (rule orders_cross_the_wire) (simp_all only: s c o, simp_all)
  then show ?thesis unfolding Let_def by (simp only: s(7) c(7)) simp
qed

text \<open>C33. Dead-peer detection of the server. In a run of a session, whatever is read, sent and
  decided: a logged in session dies at a tick exactly when its client has been silent for the threshold by
  the clock of its own reads; no session is ever found dead otherwise; and once a session is over no later
  call brings it back.\<close>

theorem dead_only_of_silence:
  defines "life \<equiv> \<lambda>cfg start app es. server_run es (server_new cfg start app)"
  shows "(ss_state (life cfg start app es) = LoggedIn \<longrightarrow>
      (ss_state (life cfg start app (es @ [Ticked now])) = Dead \<longleftrightarrow>
        sc_client_dead cfg \<le> elapsed now (server_last_heard start es))) \<and>
    (ss_state (life cfg start app es) = Dead \<longrightarrow>
      (\<exists>es1 t es2. es = es1 @ Ticked t # es2 \<and> ss_state (life cfg start app es1) = LoggedIn \<and>
         sc_client_dead cfg \<le> elapsed t (server_last_heard start es1))) \<and>
    (session_over (ss_state (life cfg start app es)) \<longrightarrow> session_over (ss_state (life cfg start app (es @ fs))))"
proof -
  let ?s = "server_new cfg start app"
  have n: "ss_cfg ?s = cfg" "ss_recv ?s = start" "ss_state ?s \<noteq> Dead" by (simp_all add: server_new_def)
  have "ss_state (server_run es ?s) = LoggedIn \<Longrightarrow> ss_recv (server_run es ?s) = server_last_heard start es"
    using server_hears [of es ?s] n(2) by simp
  then show ?thesis
    using server_killed_by_silence [of es ?s] server_run_over [of "server_run es ?s" fs]
    unfolding life_def by (auto simp: n server_tick_state)
qed

lemma dead_only_of_silence_witness:
  "let es = [GotBytes (packet (ch CHR ''L'') (replicate 46 32)) 5, AcceptLogin None None 6, GotBytes [0] 7] in
   ss_state (server_run (es @ [Ticked 15000000007]) (server_new server_config_default 0 True)) = Dead"
proof -
  let ?es = "[GotBytes (packet (ch CHR ''L'') (replicate 46 32)) 5, AcceptLogin None None 6, GotBytes [0] 7]"
  have "ss_state (server_run ?es (server_new server_config_default 0 True)) = LoggedIn" by code_simp
  then have "ss_state (server_run (?es @ [Ticked 15000000007]) (server_new server_config_default 0 True)) = Dead \<longleftrightarrow>
      sc_client_dead server_config_default \<le> elapsed 15000000007 (server_last_heard 0 ?es)"
    using dead_only_of_silence [where cfg = server_config_default and start = 0 and app = True and es = ?es and now = 15000000007]
    by blast
  moreover have "sc_client_dead server_config_default \<le> elapsed 15000000007 (server_last_heard 0 ?es)"
    by (simp add: server_config_default_def elapsed_def server_last_heard_def packet_def)
  ultimately show ?thesis unfolding Let_def by (simp only:)
qed

text \<open>C34. Every state a session can reach is well formed: a client is never in the
  state that only a server has; the counts of the two sides are the number of messages handed on and of
  sequenced packets sent; nothing is handed on before a login; the buffers have their sizes; and while a
  session lives it keeps back less than one packet, of at most the configured size.\<close>

theorem session_state_is_well_typed:
  "client_typed (client_run es (client_new ccfg start u w se nu app)) \<and> server_typed (server_run fs (server_new scfg start app))"
  using client_run_typed [OF client_new_typed] server_run_typed [OF server_new_typed] by blast

text \<open>C35. A packet that declares a length of zero passes the checks, because its type
  is read beyond it, and its message length wraps: the application is told to read 2^64 - 1 bytes of which
  none has arrived, and the session goes on as if nothing had happened.\<close>

theorem zero_length_packet_over_reads:
  assumes "ss_state s = LoggedIn" "ss_has_app s" "ss_buf s = []" "2 \<le> sc_max_frame (ss_cfg s)"
  defines "p \<equiv> [0, 0, ch CHR ''U'']"
  shows "unat (unsequenced_message_length p) = 2 ^ 64 - 1 \<and>
    ss_app (snd (server_on_bytes p now s)) = ss_app s @ [None] \<and> ss_state (snd (server_on_bytes p now s)) = LoggedIn"
proof -
  have h: "declared_length p = 0" "frame_length p = 2" "packet_type p = ch CHR ''U''" "length p = 3"
    by (simp_all add: p_def frame_length_def declared_length_def be16_def packet_type_def)
  have n: "unat (unsequenced_message_length p) = 2 ^ 64 - 1"
    by (simp add: unsequenced_message_length_def h unsigned_minus_1_eq_mask mask_eq_exp_minus_1)
  then have d: "server_dispatch (ch CHR ''U'') p 2 s = (True, s\<lparr> ss_app := ss_app s @ [None] \<rparr>)"
    using assms(1,2) by (simp add: server_dispatch_def app_read_def unsequenced_message_def p_def)
  have "drain_frames (sc_max_frame (ss_cfg s)) server_dispatch server_valid p s = (True, s\<lparr> ss_app := ss_app s @ [None] \<rparr>, [ch CHR ''U''])"
    using assms(4) d by (subst drain_frames.simps) (simp add: h server_valid_def known_fixed_wire_bytes_def,
      subst drain_frames.simps, simp add: p_def)
  then show ?thesis using n assms(1,3)
    by (simp add: server_on_bytes_def Let_def) (simp add: p_def)
qed

lemma zero_length_packet_over_reads_witness:
  "let s = (server_new server_config_default 0 True)\<lparr> ss_state := LoggedIn \<rparr> in
   ss_app (snd (server_on_bytes [0, 0, ch CHR ''U''] 1 s)) = [None]"
  using zero_length_packet_over_reads [of "(server_new server_config_default 0 True)\<lparr> ss_state := LoggedIn \<rparr>" 1]
  by (simp add: server_new_def server_config_default_def)

text \<open>A client sends messages of up to its \<open>max_frame_bytes\<close>, but a server with the
  same limit counts the three bytes of the header against it: it takes a message it is sent within the last
  three bytes of the limit for a violation of the protocol.\<close>

theorem longest_messages_are_refused:
  assumes "n < length m + 3" "length m \<le> n" "length m < 65535" "length (cs_scratch c) = n + 3" "cs_out c = []"
    and "sc_max_frame (ss_cfg s) = n" "ss_buf s = []"
  shows "cs_out (client_send_unsequenced m t c) = [packet (ch CHR ''U'') m] \<and>
    ss_state (snd (server_on_bytes (packet (ch CHR ''U'') m) t s)) = ProtocolViolation"
proof -
  have "cs_out (client_sends [(m, t)] c) = [packet (ch CHR ''U'') m]" using client_sends_out [of "[(m, t)]" c] assms by simp
  moreover have "frame_length (packet (ch CHR ''U'') m) = length m + 3" using packet_header(1) [OF assms(3), of _ "[]"] by simp
  then have "drain_frames n server_dispatch server_valid (packet (ch CHR ''U'') m) s = (False, s, packet (ch CHR ''U'') m)"
    using assms(1) by (subst drain_frames.simps) simp
  ultimately show ?thesis using assms(6,7) by (simp add: server_on_bytes_def Let_def client_sends_def packet_def)
qed

lemma longest_messages_are_refused_witness:
  "ss_state (snd (server_on_bytes (packet (ch CHR ''U'') (replicate 4096 0)) 1 (server_new server_config_default 0 True))) =
    ProtocolViolation"
  using longest_messages_are_refused [of 4096 "replicate 4096 0"
      "(client_new (client_config_default 5 5) 0 None None None None True)\<lparr> cs_out := [] \<rparr>"
      "server_new server_config_default 0 True" 1]
  by (simp add: client_new_def client_put_def client_config_default_def server_new_def server_config_default_def Let_def split_def)

section \<open>A restart\<close>

text \<open>C26. The market half of a restart. The file written from a well formed book is read
  back, and the book rebuilt from it on fresh storage holds at every price the same orders with the same
  shares in the same order of arrival, with the same daily statistics and the sequence number to go on
  from. A file that is cut off anywhere is refused.\<close>

theorem restart_resumes_the_market:
  assumes "good sb" "\<And>d p. book_view sb d p \<noteq> [] \<Longrightarrow> 0 < p"
    and "\<And>d. length (side_prices sb d) \<le> kMaxDenseLevels * 4"
    and "is_i32 (bk_open (snd sb))" "is_i32 (bk_high (snd sb))" "is_i32 (bk_low (snd sb))" "is_i32 (bk_close (snd sb))"
    and "0 < tick" "levels < 2 ^ 32 - 1"
  shows "\<exists>s. deserialize (serialize (capture sb n t)) = Some s \<and> sn_next_sequence s = n \<and> sn_last_timestamp s = t \<and>
      book_view (restore s (fresh_book h c f m levels l tick pct)) = book_view sb \<and>
      bk_tape (snd (restore s (fresh_book h c f m levels l tick pct))) = bk_tape (snd sb) \<and>
      good (restore s (fresh_book h c f m levels l tick pct)) \<and>
      (\<forall>k < length (serialize (capture sb n t)). deserialize (take k (serialize (capture sb n t))) = None)"
proof -
  have x: "exact read_snapshot (serialize (capture sb n t)) (capture sb n t)"
    by (rule exact_snapshot [OF capture_fits]) (use assms in blast)+
  have "deserialize (serialize (capture sb n t)) = Some (capture sb n t)"
    using exact_whole [OF x] by (simp add: deserialize_def)
  moreover have "\<forall>k < length (serialize (capture sb n t)). deserialize (take k (serialize (capture sb n t))) = None"
    using x by (simp add: exact_def deserialize_def)
  moreover note restart_ok [OF assms(1-3,8,9) refl, where n = n and t = t and h = h and c = c and f = f and m = m and l = l and pct = pct]
  ultimately show ?thesis by (auto simp: capture_def)
qed

lemma restart_resumes_the_market_witness:
  "let sb = bk_add 9 side_B 1000 30 (bk_add 7 side_B 1000 50 sample_book0) in
   \<exists>s. deserialize (serialize (capture sb 12 34)) = Some s \<and>
     book_view (restore s (fresh_book blank_heap 4 2 2 8 1 100 20)) True 1000 = [(7, 50), (9, 30)]"
proof -
  let ?sb = "bk_add 9 side_B 1000 30 (bk_add 7 side_B 1000 50 sample_book0)"
  have V: "good ?sb" "book_view ?sb = (\<lambda>d p. if d \<and> p = 1000 then [(7, 50), (9, 30)] else [])"
    "bk_open (snd ?sb) = - 1" "bk_high (snd ?sb) = - 1" "bk_low (snd ?sb) = - 1" "bk_close (snd ?sb) = - 1" by (rule two_bids)+
  have "{p. book_view ?sb d p \<noteq> []} = (if d then {1000} else {})" for d by (auto simp: V(2))
  then have "length (side_prices ?sb d) \<le> kMaxDenseLevels * 4" for d
    by (cases d) (simp_all add: side_prices_def Let_def kMaxDenseLevels_def)
  then have "\<exists>s. deserialize (serialize (capture ?sb 12 34)) = Some s \<and> sn_next_sequence s = 12 \<and> sn_last_timestamp s = 34 \<and>
      book_view (restore s (fresh_book blank_heap 4 2 2 8 1 100 20)) = book_view ?sb \<and>
      bk_tape (snd (restore s (fresh_book blank_heap 4 2 2 8 1 100 20))) = bk_tape (snd ?sb) \<and>
      good (restore s (fresh_book blank_heap 4 2 2 8 1 100 20)) \<and>
      (\<forall>k < length (serialize (capture ?sb 12 34)). deserialize (take k (serialize (capture ?sb 12 34))) = None)"
    by (intro restart_resumes_the_market V(1)) (simp_all add: V is_i32_def split: if_splits)
  then show ?thesis unfolding Let_def by (elim exE conjE) (auto simp: V(2))
qed

text \<open>C27. The strategy half. What is written of a ledger and of a queue model in a state it
  can reach restores both exactly: cash, position, fees, edge and every fill, every order with its place
  in the queue and the set of orders ahead of it. A file that is cut off anywhere is refused.\<close>

theorem restart_resumes_the_strategy:
  assumes "qm_reached cfg q" "lg_schedule lg' = lg_schedule lg"
    and "strategy_fits \<lparr> st_ledger = lg_state lg, st_queue = state_snapshot q \<rparr>"
  shows "\<exists>s. deserialize_strategy (serialize_strategy \<lparr> st_ledger = lg_state lg, st_queue = state_snapshot q \<rparr>) = Some s \<and>
      lg_restore (st_ledger s) lg' = lg \<and> qm_restore (st_queue s) (qm_new cfg) = q \<and>
      (\<forall>k < length (serialize_strategy \<lparr> st_ledger = lg_state lg, st_queue = state_snapshot q \<rparr>).
        deserialize_strategy (take k (serialize_strategy \<lparr> st_ledger = lg_state lg, st_queue = state_snapshot q \<rparr>)) = None)"
proof -
  note x = exact_strategy [OF assms(3)]
  then show ?thesis
    using exact_whole [OF x] reached_restore [OF assms(1)] restore_state [OF assms(2) [symmetric]]
    by (simp add: exact_def deserialize_strategy_def)
qed

lemma restart_resumes_the_strategy_witness:
  "let lg = lg_on_fill one_fill \<lparr> two_mid = 2000100, mid_status = Ok \<rparr> (ledger_new fee_schedule_default);
       q = qm_place sample_book0 7 SBuy 1000 50 20 5 (qm_new queue_config_default) in
   \<exists>s. deserialize_strategy (serialize_strategy \<lparr> st_ledger = lg_state lg, st_queue = state_snapshot q \<rparr>) = Some s \<and>
     lg_restore (st_ledger s) (ledger_new fee_schedule_default) = lg \<and>
     qm_restore (st_queue s) (qm_new queue_config_default) = q"
proof -
  let ?lg = "lg_on_fill one_fill \<lparr> two_mid = 2000100, mid_status = Ok \<rparr> (ledger_new fee_schedule_default)"
  let ?q = "qm_place sample_book0 7 SBuy 1000 50 20 5 (qm_new queue_config_default)"
  have q: "qm_reached queue_config_default ?q" by (rule reached_place, rule reached_new)
  have l: "lg_schedule (ledger_new fee_schedule_default) = lg_schedule ?lg"
    by (simp add: lg_on_fill_def ledger_new_def Let_def split: if_splits)
  have "state_snapshot ?q = \<lparr> qs_entries = [\<lparr> e_id = 7, e_side = SBuy, e_price = 1000, e_display = 20, e_slice_size = 20,
      e_hidden = 30, e_ahead = 0, e_ahead0 = 0, e_arrived_ns = 5, e_refreshes = 0, e_live = True \<rparr>], qs_ahead_sets = [],
      qs_state = 0, qs_tradable = False, qs_clamp_events = 0, qs_clamp_shares = 0, qs_priority_anomalies = 0,
      qs_anomaly_shares = 0, qs_hidden_inside_shares = 0, qs_naive_hidden_fills = 0, qs_naive_hidden_shares = 0 \<rparr>"
    by code_simp
  moreover have "lg_state ?lg = \<lparr> ls_cash = -29999400000, ls_position = 300, ls_fees_total = -600000, ls_two_edge = 30000,
      ls_fills_without_mid = 0, ls_fills = [\<lparr> lf_ts = 5, lf_side = SBuy, lf_price = 1000000, lf_shares = 300,
        lf_two_mid = 2000100, lf_mid_ok = True, lf_fee = -600000, lf_liquidity = Added \<rparr>] \<rparr>"
    by code_simp
  ultimately have f: "strategy_fits \<lparr> st_ledger = lg_state ?lg, st_queue = state_snapshot ?q \<rparr>"
    by (simp only:) (simp add: strategy_fits_def fill_fits_def is_i32_def is_i64_def)
  from restart_resumes_the_strategy [OF q l f] show ?thesis unfolding Let_def by blast
qed

section \<open>After a gap\<close>

text \<open>C28. After a gap the book is trusted again exactly when some stretch of the
  references since the gap has filled the window with no more unknown ones in what the buckets cover
  than the tolerance; once back, trust is not lost to a reference. And it does come back: whatever came
  before, a quiet stretch that fills the window and all sixteen buckets is enough.\<close>

theorem trust_returns_exactly_when_earned:
  assumes "gt_on_gap first lost s = (True, s0)" "length hs < 2 ^ 64"
  shows "gt_state (fold gt_on_reference hs s0) = (if earned (gt_cfg s) hs then Trusted else Recovering) \<and>
    (\<forall>k pre. hs = pre @ replicate k True \<and> 0 < k \<and> 16 * gap_bucket (gt_cfg s) \<le> k \<and> unat (gc_window (gt_cfg s)) \<le> k \<longrightarrow>
      gt_state (fold gt_on_reference hs s0) = Trusted)"
proof -
  note G = gap_starts [OF assms(1)]
  have "gt_state (fold gt_on_reference hs s0) = (if earned (gt_cfg s) hs then Trusted else Recovering)"
    using recovery_run [OF conjunct1 [OF G] assms(2)] conjunct2 [OF G] by (auto simp: gap_ok_def Let_def)
  moreover have "earned (gt_cfg s) (pre @ replicate k True)"
    if "0 < k" "16 * gap_bucket (gt_cfg s) \<le> k" "unat (gc_window (gt_cfg s)) \<le> k" for k pre
    using that by (intro quiet_earns)
  ultimately show ?thesis by auto
qed

definition small_window :: gap_config where
  "small_window = \<lparr> gc_policy = RebuildForward, gc_window = 32, gc_tolerance = 1, gc_max_gaps = 3 \<rparr>"

lemma trust_returns_exactly_when_earned_witness:
  "let s0 = snd (gt_on_gap 5 2 (gap_new small_window)); noisy = replicate 20 True @ [False, False] in
   gt_state (fold gt_on_reference noisy s0) = Recovering \<and>
   gt_state (fold gt_on_reference (noisy @ replicate 32 True) s0) = Trusted"
proof -
  let ?s0 = "snd (gt_on_gap 5 2 (gap_new small_window))" and ?noisy = "replicate 20 True @ [False, False]"
  have g: "gt_on_gap 5 2 (gap_new small_window) = (True, ?s0)" "gt_cfg (gap_new small_window) = small_window"
    by (simp_all add: gt_on_gap_def gap_new_def small_window_def Let_def reset_window_def)
  have n: "\<not> earned small_window ?noisy" by (auto simp: earned_def small_window_def)
  have b: "gap_bucket small_window = 2" "unat (gc_window small_window) = 32"
    by (simp_all add: gap_bucket_def small_window_def)
  have "gt_state (fold gt_on_reference ?noisy ?s0) = Recovering"
    using conjunct1 [OF trust_returns_exactly_when_earned [OF g(1), of ?noisy]] n by (simp add: g(2))
  moreover have "gt_state (fold gt_on_reference (?noisy @ replicate 32 True) ?s0) = Trusted"
    by (rule conjunct2 [OF trust_returns_exactly_when_earned [OF g(1), of "?noisy @ replicate 32 True"], rule_format, of ?noisy 32])
      (simp_all add: g(2) b)
  ultimately show ?thesis unfolding Let_def by (rule conjI)
qed

text \<open>C29. The window is shorter than configured: the buckets drop the oldest sixteenth as the
  newest starts. With the default of 5 unknown references in 50000, trust comes back at the 50000th
  reference after a gap although 3125 of those 50000 were unknown.\<close>

theorem trust_returns_early:
  "let hs = replicate 3125 False @ replicate 46875 True; s0 = snd (gt_on_gap first lost (gap_new gap_config_default)) in
   gt_state (fold gt_on_reference hs s0) = Trusted \<and>
   length hs = unat (gc_window gap_config_default) \<and> unat (gc_tolerance gap_config_default) < length (filter Not hs)"
proof -
  let ?hs = "replicate 3125 False @ replicate 46875 True" and ?s = "gap_new gap_config_default"
  have g: "gt_on_gap first lost ?s = (True, snd (gt_on_gap first lost ?s))" "gt_cfg ?s = gap_config_default"
    by (simp_all add: gt_on_gap_def gap_new_def gap_config_default_def Let_def reset_window_def)
  have b: "gap_bucket gap_config_default = 3125" "unat (gc_window gap_config_default) = 50000"
    by (simp_all add: gap_bucket_def gap_config_default_def)
  have "unknown (window_from 3125 50000) (take 50000 ?hs) = 0" by (simp add: unknown_def window_from_def)
  then have "earned gap_config_default ?hs"
    unfolding earned_def b by (intro bexI [of _ 50000]) simp_all
  moreover note R = recovery_run [OF conjunct1 [OF gap_starts [OF g(1)]], of ?hs]
  ultimately have "gt_state (fold gt_on_reference ?hs (snd (gt_on_gap first lost ?s))) = Trusted"
    using conjunct2 [OF gap_starts [OF g(1)]] g(2) by (simp only: if_True) (simp split: if_splits)
  then show ?thesis by (simp add: Let_def b del: fold_append) (simp add: gap_config_default_def)
qed

section \<open>Halts\<close>

text \<open>C30. Over any timeline of trading actions, crosses, heartbeats and looks at the book with
  times that never run backwards, a tracker that is then asked at a later time reports exactly the halted
  time of the timeline, counts every crossed book it was shown once, as a defect when the symbol was
  trading and as legal otherwise, and agrees with the last trading action on the session.\<close>

theorem halts_are_accounted_for:
  assumes "in_order 0 (es @ [Quiet t])" "\<forall>e \<in> set (es @ [Quiet t]). 0 < event_ts e"
  defines "h \<equiv> fold halt_step (es @ [Quiet t]) halt_new"
  shows "unat (hs_halted_ns (ht_stats h)) = halted_time InUnknown 0 (es @ [Quiet t]) \<and>
    hs_crossed_trading (ht_stats h) = of_nat (crossed_seen (\<lambda>s. s = InTrading) InUnknown es) \<and>
    hs_crossed_halted (ht_stats h) = of_nat (crossed_seen (\<lambda>s. s \<noteq> InTrading) InUnknown es) \<and>
    ht_session h = fold (\<lambda>e s. session_after s e) es InUnknown"
proof -
  have "ht_session h = fold (\<lambda>e s. session_after s e) es InUnknown"
    unfolding h_def session_run by (simp add: halt_new_ok(3))
  moreover have "crossed_seen P InUnknown (es @ [Quiet t]) = crossed_seen P InUnknown es" for P
    by (simp add: crossed_seen_append)
  ultimately show ?thesis
    using quiet_run [OF assms(1,2)] crossed_run [of "es @ [Quiet t]" halt_new, unfolded halt_new_ok]
    unfolding h_def by simp
qed

lemma halts_are_accounted_for_witness:
  "let es = [Action (CHR ''T'') 10, Action (CHR ''H'') 40, Look (snd sample_book0) 55, Action (CHR ''Q'') 60, Action (CHR ''T'') 100] in
   unat (hs_halted_ns (ht_stats (fold halt_step (es @ [Quiet 120]) halt_new))) = 60"
proof -
  let ?es = "[Action (CHR ''T'') 10, Action (CHR ''H'') 40, Look (snd sample_book0) 55, Action (CHR ''Q'') 60, Action (CHR ''T'') 100]"
  have "unat (hs_halted_ns (ht_stats (fold halt_step (?es @ [Quiet 120]) halt_new))) = halted_time InUnknown 0 (?es @ [Quiet 120])"
    by (rule conjunct1 [OF halts_are_accounted_for]) auto
  also have "\<dots> = 60" by (simp add: session_from_def stopped_def)
  finally show ?thesis unfolding Let_def .
qed

section \<open>The split replay\<close>

text \<open>C24. Without strategy orders the replayer is invisible, an engine attached or not: it leaves the books exactly as the
  plain dispatch of the same feed does, and publishes the feed again, byte for byte and in order, but for
  the types it does not know, provided no message named a reference of the strategies' half, which its
  counter shows.\<close>

theorem replay_is_transparent:
  assumes "represents (sp_set s) M" "\<forall>e \<in> set M. \<not> is_strategy_ref (re_ref e)" "feed_ok M (map snd qs)"
    and "engine_fits s" "sp_sink s = Some sent" "sc_violations (sp_c s) = 0" "length qs < 2 ^ 63"
    and "\<forall>q \<in> set qs. relayable q \<and> si_directoried (bs_dir (sp_set s) (stock_locate (snd q)))"
    and "partition_held (split_run qs s)"
  shows "sp_set (split_run qs s) = run_feed (map snd qs) (sp_set s) \<and>
    sp_sink (split_run qs s) = Some (sent @ filter republished (map snd qs))"
  using run_transparent [OF assms(4,5,1)] assms(2,3,8) partition_counts [OF assms(6,7)] assms(9) by blast

definition sample_split :: split where
  "sample_split = (split_new (set_directory 7 (replicate 8 32) 8 0 0 100 (sample_set blank_heap)))\<lparr> sp_sink := Some [] \<rparr>"

definition add_to_7 :: "u64 \<Rightarrow> u32 \<Rightarrow> u8 list" where
  "add_to_7 ref n = take 36 (fst (emit_add_order buf 7 0 0 ref (ch CHR ''B'') n None 1000))"

definition execute_in_7 :: "u64 \<Rightarrow> u32 \<Rightarrow> u8 list" where
  "execute_in_7 ref n = take 31 (fst (emit_order_executed buf 7 0 0 ref n 3))"

lemma sample_split_ok:
  "represents (sp_set sample_split) sample_market" "sp_matcher sample_split = None" "sp_sink sample_split = Some []"
  "sc_violations (sp_c sample_split) = 0" "si_directoried (bs_dir (sp_set sample_split) 7)"
proof -
  show "represents (sp_set sample_split) sample_market"
    by (rule represents_cong [OF sample_represents [of blank_heap]])
      (simp_all add: sample_split_def split_new_def set_directory_def Let_def)
qed (simp_all add: sample_split_def split_new_def set_directory_def Let_def)

lemma replay_is_transparent_witness:
  "let qs = [(buf, add_to_7 5 10), (buf, execute_in_7 1 25)] in
   sp_set (split_run qs sample_split) = run_feed (map snd qs) (sp_set sample_split) \<and>
   sp_sink (split_run qs sample_split) = Some (map snd qs)"
proof -
  let ?qs = "[(buf, add_to_7 5 10), (buf, execute_in_7 1 25)]"
  have f: "stock_locate (add_to_7 5 10) = 7" "stock_locate (execute_in_7 1 25) = 7" "add_to_7 5 10 ! 0 = ch CHR ''A''"
    "execute_in_7 1 25 ! 0 = ch CHR ''E''" "add_order_ref (add_to_7 5 10) = 5" "add_order_price (add_to_7 5 10) = 1000"
    "order_executed_ref (execute_in_7 1 25) = 1" "order_executed_shares (execute_in_7 1 25) = 25"
    "length (add_to_7 5 10) = 36" "length (execute_in_7 1 25) = 31"
    by code_simp+
  have r: "\<forall>q \<in> set ?qs. \<forall>r \<in> set (refs_named (snd q)). \<not> is_strategy_ref r"
    using f by (simp add: refs_named_def is_strategy_ref_def kStrategyRefBit_def)
  then have "partition_held (split_run ?qs sample_split)"
    by (subst partition_counts [OF sample_split_ok(4)]) simp_all
  moreover have "feed_ok sample_market (map snd ?qs)" using f by (simp add: msg_ok_def sample_market_def)
  moreover have "\<forall>e \<in> set sample_market. \<not> is_strategy_ref (re_ref e)"
    by (simp add: sample_market_def is_strategy_ref_def kStrategyRefBit_def)
  moreover have "\<forall>q \<in> set ?qs. relayable q \<and> si_directoried (bs_dir (sp_set sample_split) (stock_locate (snd q)))"
    using f sample_split_ok(5) by (simp add: relayable_def canonical_def spec_length_def)
  ultimately have "sp_set (split_run ?qs sample_split) = run_feed (map snd ?qs) (sp_set sample_split) \<and>
      sp_sink (split_run ?qs sample_split) = Some ([] @ filter republished (map snd ?qs))"
    using replay_is_transparent [OF sample_split_ok(1) _ _ _ sample_split_ok(3,4)] sample_split_ok(2) by (simp add: engine_fits_def)
  moreover have "filter republished (map snd ?qs) = map snd ?qs" using f by (simp add: republished_def published_def)
  ultimately show ?thesis unfolding Let_def by simp
qed

text \<open>C23. With strategy orders among the historical ones: a consumer that starts from the same
  books and applies what is published has exactly the books of the exchange, order by order, with the same
  statistics, whatever was taken from strategy orders on the way. The engine that owns the strategy orders
  may be attached, as in the exchange, so that their fills go through it, or not. If it is, its book is there
  and its orders hold no reserve back, since the refresh of an iceberg is not published here; the gateway
  enters no icebergs.\<close>

theorem consumer_has_the_books:
  assumes "represents (sp_set s) M" "split_valid M qs s" "engine_fits s" "sp_sink s = Some sent"
    and "\<forall>q \<in> set qs. si_directoried (bs_dir (sp_set s) (stock_locate (snd q)))"
  shows "\<exists>ms. sp_sink (split_run qs s) = Some (sent @ ms) \<and> sp_set (split_run qs s) = run_feed ms (sp_set s) \<and>
    represents (sp_set (split_run qs s)) (fold mk_apply ms M)"
  using run_consumed [OF assms(3,4,1,5,2)] feed_refines [OF assms(1)] by metis

definition strategy_ref_1 :: u64 where "strategy_ref_1 = kStrategyRefBit OR 1"

lemma strategy_added:
  "add_to_7 strategy_ref_1 30 ! 0 = ch CHR ''A''" "canonical (add_to_7 strategy_ref_1 30)"
  "stock_locate (add_to_7 strategy_ref_1 30) = 7" "add_order_ref (add_to_7 strategy_ref_1 30) = 9223372036854775809"
  "add_order_price (add_to_7 strategy_ref_1 30) = 1000"
  "sp_sink (fst (split_apply buf (ch CHR ''A'') (add_to_7 strategy_ref_1 30) sample_split)) = Some [add_to_7 strategy_ref_1 30]"
proof -
  show a: "add_to_7 strategy_ref_1 30 ! 0 = ch CHR ''A''" "canonical (add_to_7 strategy_ref_1 30)"
    "stock_locate (add_to_7 strategy_ref_1 30) = 7" "add_order_ref (add_to_7 strategy_ref_1 30) = 9223372036854775809"
    "add_order_price (add_to_7 strategy_ref_1 30) = 1000" by code_simp+
  obtain msg where g: "encode_state buf (ch CHR ''A'') (add_to_7 strategy_ref_1 30) = Some msg"
    using encoded_none [of buf "ch CHR ''A''" "add_to_7 strategy_ref_1 30"]
    by (cases "encode_state buf (ch CHR ''A'') (add_to_7 strategy_ref_1 30)") (simp_all add: published_def)
  have "take (snd msg) (fst msg) = add_to_7 strategy_ref_1 30" using encode_copies [OF a(2) buf_room] g a(1) by simp
  then show "sp_sink (fst (split_apply buf (ch CHR ''A'') (add_to_7 strategy_ref_1 30) sample_split)) = Some [add_to_7 strategy_ref_1 30]"
    using sample_split_ok(3) check_partition_refs [of "add_to_7 strategy_ref_1 30"] a(1) g
    by (simp add: split_apply_def treatment_of_def Let_def split_def emit_state_def hand_on_def)
qed

text \<open>The engine of the exchange with one strategy order, which rests in the book of symbol 7 in front of what comes.\<close>

definition sample_engine :: matcher where
  "sample_engine = (matcher_on sample_book0)\<lparr> mt_orders := [(strategy_ref_1, meta_new\<lparr> m_req := request_new\<lparr> rq_id := strategy_ref_1,
     rq_price := 1000, rq_quantity := 30 \<rparr>, m_state := Accepted, m_resting := 30, m_in_book := True, m_entered := True \<rparr>)] \<rparr>"

definition exchange_split :: split where
  "exchange_split = sample_split\<lparr> sp_set := run_feed [add_to_7 strategy_ref_1 30] (sp_set sample_split),
     sp_matcher := Some (7, sample_engine) \<rparr>"

lemma exchange_split_ok:
  "represents (sp_set exchange_split) (mk_apply (add_to_7 strategy_ref_1 30) sample_market)" "engine_fits exchange_split"
  "sp_sink exchange_split = Some []" "si_directoried (bs_dir (sp_set exchange_split) 7)"
proof -
  have s: "sp_set exchange_split = fst (apply_set (ch CHR ''A'') (add_to_7 strategy_ref_1 30) (sp_set sample_split))"
    by (simp add: exchange_split_def run_feed_def strategy_added(1))
  have "msg_ok sample_market (add_to_7 strategy_ref_1 30)" using strategy_added(1,3-5) by (simp add: msg_ok_def sample_market_def)
  from apply_set_refines [OF sample_split_ok(1) this] show "represents (sp_set exchange_split) (mk_apply (add_to_7 strategy_ref_1 30) sample_market)"
    by (simp add: s strategy_added(1))
  obtain b where "bs_books (sample_set blank_heap) 7 = Some b" by (rule sample_book)
  then have "bs_books (sp_set sample_split) 7 \<noteq> None"
    by (simp add: sample_split_def split_new_def set_directory_def Let_def)
  then have "bs_books (sp_set exchange_split) 7 \<noteq> None" unfolding s by (rule books_apply)
  moreover have "no_reserves sample_engine" by (simp add: no_reserves_def sample_engine_def om_wf_Cons om_get_def meta_new_def)
  ultimately show "engine_fits exchange_split" by (simp add: engine_fits_def exchange_split_def)
  show "si_directoried (bs_dir (sp_set exchange_split) 7)"
    unfolding s by (rule directory_kept [OF sample_split_ok(5)])
qed (simp add: exchange_split_def sample_split_ok(3))

lemma consumer_has_the_books_witness:
  "let qs = [(buf, add_to_7 5 10), (buf, execute_in_7 5 10)] in
   \<exists>ms. sp_sink (split_run qs exchange_split) = Some ms \<and>
     sp_set (split_run qs exchange_split) = run_feed ms (sp_set exchange_split)"
proof -
  let ?qs = "[(buf, add_to_7 5 10), (buf, execute_in_7 5 10)]"
  have f: "stock_locate (add_to_7 5 10) = 7" "stock_locate (execute_in_7 5 10) = 7" "add_to_7 5 10 ! 0 = ch CHR ''A''"
    "execute_in_7 5 10 ! 0 = ch CHR ''E''" "add_order_ref (add_to_7 5 10) = 5" "add_order_price (add_to_7 5 10) = 1000"
    "order_executed_shares (execute_in_7 5 10) = 10" "canonical (add_to_7 5 10)" "canonical (execute_in_7 5 10)"
    by code_simp+
  have "split_valid (mk_apply (add_to_7 strategy_ref_1 30) sample_market) ?qs exchange_split"
    using f strategy_added(1,3-5) by (simp add: msg_ok_def sample_market_def mk_apply_def mk_add_def Let_def)
  from consumer_has_the_books [OF exchange_split_ok(1) this exchange_split_ok(2,3)] f(1,2) exchange_split_ok(4)
  show ?thesis unfolding Let_def by auto
qed

text \<open>C25. However an execution is split over strategy orders and the order it names, through
  the engine or directly: the executions published for it carry its shares in total, and name the order
  the feed named or strategy orders.\<close>

theorem published_shares_add_up:
  assumes "sp_sink s = Some sent" "p ! 0 = ch CHR ''E''"
  shows "\<exists>fs. sp_sink (fst (split_apply stk (p ! 0) p s)) = Some (sent @ map (exec_msg stk p) fs) \<and>
    sum_list (map (unat \<circ> snd) fs) = unat (order_executed_shares p) \<and>
    (\<forall>f \<in> set fs. fst f = order_executed_ref p \<or> is_strategy_ref (fst f))"
  by (rule shares_published [OF assms])

lemma published_shares_add_up_witness:
  "\<exists>fs. sp_sink (fst (split_apply buf (ch CHR ''E'') (execute_in_7 4 15)
      (fst (split_apply buf (ch CHR ''A'') (add_to_7 strategy_ref_1 30) sample_split)))) =
      Some (add_to_7 strategy_ref_1 30 # map (exec_msg buf (execute_in_7 4 15)) fs) \<and> sum_list (map (unat \<circ> snd) fs) = 15"
proof -
  have e: "execute_in_7 4 15 ! 0 = ch CHR ''E''" "order_executed_shares (execute_in_7 4 15) = 15" by code_simp+
  from published_shares_add_up [OF strategy_added(6) e(1), of buf] e show ?thesis by (simp, blast)
qed

section \<open>The order entry gateway\<close>

lemma sample_venue: "venue_ok (matcher_on sample_book0) 0"
proof -
  have "engine_ok {} no_flight (matcher_on sample_book0)" by (rule engine_run_ok [OF engine_run.start [OF sample_good]])
  moreover have "\<not> bound (mt_book (matcher_on sample_book0)) i" for i
    by (simp add: bound_def matcher_on_def sample_book0_def store_new_def rm_find_new)
  ultimately show ?thesis by (simp add: venue_ok_def known_def matcher_on_def)
qed

lemma sample_run: "gateway_run (sample_gateway gateway_config_default (matcher_on sample_book0))"
  unfolding sample_gateway_def by (rule gateway_run.opens [OF sample_venue]) (simp add: gateway_config_default_def)

lemma sample_room: "room_for (sample_gateway gateway_config_default (matcher_on sample_book0))"
  by (simp add: room_for_def sample_gateway_def gateway_new_def matcher_on_def load_def sample_book0_def
      set_band_levels_def book_new_def)

text \<open>C36. In every state a gateway can reach, whatever the other clients of the venue, the replayer,
  the session and the operator of the kill switch do in between: tokens and references name each other,
  every reference is of the strategies' half and known to the engine, an order of the session that can
  still trade is in the live set, and the position is the signed sum of the shares of the session's orders
  in the fills it was told of, on both sides of each fill.\<close>

theorem gateway_books_are_true:
  assumes "gateway_run g"
  shows "engine_ok {} no_flight (gw_matcher g) \<and>
    (\<forall>t i. gw_tokens g t = Some i \<longleftrightarrow> gw_refs_to_token g i = Some t) \<and>
    (\<forall>i. gw_refs_to_token g i \<noteq> None \<longrightarrow> is_strategy_ref i \<and> (\<exists>m. om_get i (mt_orders (gw_matcher g)) = Some m \<and>
       (\<not> is_terminal (m_state m) \<longrightarrow> i \<in> gw_live g))) \<and>
    gw_live g \<subseteq> dom (gw_refs_to_token g) \<and>
    gw_position g = (\<Sum>f \<leftarrow> take (gw_fills_cursor g) (mt_fills (gw_matcher g)).
      (\<Sum>i \<leftarrow> [fl_taker f, fl_maker f]. if gw_refs_to_token g i = None then 0
         else if rq_side (m_req (meta_of (gw_matcher g) i)) = Buy then int (unat (fl_shares f)) else - int (unat (fl_shares f))))"
proof -
  note B = gateway_run_ok [OF assms, THEN conjunct1]
  note D = books_okD [OF B]
  have "\<exists>m. om_get i (mt_orders (gw_matcher g)) = Some m \<and> (\<not> is_terminal (m_state m) \<longrightarrow> i \<in> gw_live g)"
    if "gw_refs_to_token g i \<noteq> None" for i
    using D(4) [OF that] D(6) [OF that] by (auto simp: known_def)
  moreover have one: "delta_for i n g = (if rq_side (m_req (meta_of (gw_matcher g) i)) = Buy then int (unat n) else - int (unat n))"
    if "gw_refs_to_token g i \<noteq> None" for i n
    using D(4) [OF that] by (auto simp: delta_for_def meta_of_def known_def)
  moreover have "fill_delta g f = (\<Sum>i \<leftarrow> [fl_taker f, fl_maker f]. if gw_refs_to_token g i = None then 0
      else if rq_side (m_req (meta_of (gw_matcher g) i)) = Buy then int (unat (fl_shares f)) else - int (unat (fl_shares f)))" for f
    using one [of "fl_taker f"] one [of "fl_maker f"] by (simp add: fill_delta_def)
  ultimately show ?thesis
    using venue_okD(1) [OF D(1)] D(2,3,5,8) by (simp add: net_of_def)
qed

lemma gateway_books_are_true_witness:
  "\<exists>g. told [enter_of 65 (ch CHR ''S'') 100 2000] (sample_gateway gateway_config_default (matcher_on sample_book0)) = Some g \<and>
    engine_ok {} no_flight (gw_matcher g) \<and> gw_live g \<subseteq> dom (gw_refs_to_token g)"
proof -
  obtain b g where g: "on_ouch (enter_of 65 (ch CHR ''S'') 100 2000) 7
      (sample_gateway gateway_config_default (matcher_on sample_book0)) = Some (b, g)"
    using on_ouch_ok [OF gateway_run_ok [OF sample_run, THEN conjunct1] sample_room] by blast
  from gateway_books_are_true [OF gateway_run.message [OF sample_run sample_room g]] g show ?thesis by auto
qed



text \<open>C38. Once the kill switch has tripped no message of the client adds to the exposure:
  entries and replacements are rejected and leave the engine and its book as they are, and a cancel does
  exactly what the cancel of the engine does to the named order. References and tokens do not move.\<close>

theorem tripped_gateway_only_cancels:
  assumes "\<not> Kill.live (gw_kill g)" "on_ouch p now g = Some (ok, g')"
  shows "gw_refs g' = gw_refs g \<and> gw_tokens g' = gw_tokens g \<and> gw_position g' = gw_position g \<and>
    (if ok \<and> p ! 0 = ch CHR ''X'' then
       (case gw_tokens g (make_token (ouch_cancel_order_order_token p)) of
          None \<Rightarrow> gw_matcher g' = gw_matcher g | Some i \<Rightarrow> gw_matcher g' = snd (cancel i (gw_matcher g)))
     else gw_matcher g' = gw_matcher g \<and> gw_live g' = gw_live g)"
proof -
  note T = tripped_message [OF assms] and C = on_cancel_effect [where g = "set_wall now g" and p = p]
  show ?thesis
  proof (cases "ok \<and> p ! 0 = ch CHR ''X''")
    case True
    then have "g' = on_cancel p (set_wall now g)" using T by simp
    then show ?thesis using True C by (auto split: option.splits)
  next
    case False
    then have "core g' = core (set_wall now g)" using T by (simp split: if_splits)
    from coreD [OF this] False show ?thesis by auto
  qed
qed

lemma tripped_gateway_only_cancels_witness:
  "let g = (sample_gateway gateway_config_default (matcher_on sample_book0))
       \<lparr> gw_kill := trip_at Position 5 4 1 (ks_new ks_config_default) \<rparr>
   in \<exists>g'. on_ouch (enter_of 65 (ch CHR ''S'') 100 2000) 7 g = Some (True, g') \<and> gw_matcher g' = gw_matcher g"
proof -
  let ?g = "(sample_gateway gateway_config_default (matcher_on sample_book0))
       \<lparr> gw_kill := trip_at Position 5 4 1 (ks_new ks_config_default) \<rparr>" and ?p = "enter_of 65 (ch CHR ''S'') 100 2000"
  have 0: "\<not> Kill.live (gw_kill ?g)" by (simp add: Kill.live_def trip_at_def ks_new_def no_report_def)
  note p = sample_enter
  have "gateway_run ?g" by (rule gateway_run.switch [OF sample_run])
  moreover have "room_for ?g" using sample_room by (simp add: room_for_def)
  ultimately obtain g' where "on_ouch ?p 7 ?g = Some (True, g')"
    using tripped_enter [OF _, of "set_wall 7 ?g" ?p] 0 p by (auto simp: on_ouch_def Let_def)
  with tripped_gateway_only_cancels [OF 0 this] p show ?thesis by (auto simp: Let_def)
qed

text \<open>C39. The first look at the gateway after its session is over, however it ended and in
  whatever order the live set is gone through, leaves every order of the session unable to trade again and
  every other order of the venue where it was; it empties the live set, keeps the cause, and later looks do
  nothing.\<close>

theorem flatten_disarms_every_order:
  assumes "gateway_run g" "distinct ids" "set ids = gw_live g" "gw_poll ids now g = (done, g')"
  shows "(done \<longleftrightarrow> \<not> gw_flattened g \<and> session_over (ss_state (gw_session g))) \<and>
    (done \<longrightarrow> gw_live g' = {} \<and> gw_death_cause g' = ss_state (gw_session g) \<and>
      (\<forall>i m. gw_refs_to_token g i \<noteq> None \<longrightarrow> om_get i (mt_orders (gw_matcher g')) = Some m \<longrightarrow> is_terminal (m_state m)) \<and>
      (\<forall>i. gw_refs_to_token g i = None \<longrightarrow> om_get i (mt_orders (gw_matcher g')) = om_get i (mt_orders (gw_matcher g)) \<and>
        (\<forall>d p n. rests (mt_book (gw_matcher g')) i d p n \<longleftrightarrow> rests (mt_book (gw_matcher g)) i d p n)) \<and>
      mt_fills (gw_matcher g') = mt_fills (gw_matcher g) \<and> (\<forall>ids now. \<not> fst (gw_poll ids now g')))"
proof -
  note G = gateway_run_ok [OF assms(1)]
  note P = poll_ok [OF G [THEN conjunct1] assms(2,3) G [THEN conjunct2] assms(4)]
  have "\<not> fst (gw_poll ids now g')" if "done" for ids now
    using P(5) that by (simp add: gw_poll_def Let_def set_wall_def)
  moreover have "is_terminal (m_state m)"
    if "done" "gw_refs_to_token g i \<noteq> None" "om_get i (mt_orders (gw_matcher g')) = Some m" for i m
    using books_okD(6) [OF P(1), of i m] P(8) [OF that(1)] P(11) that(2,3) by auto
  moreover have "i \<notin> gw_live g" if "gw_refs_to_token g i = None" for i
    using books_okD(5) [OF G [THEN conjunct1]] that by auto
  ultimately show ?thesis using P(4,7-9) unfolding disarmed_def by blast
qed

lemma flatten_disarms_every_order_witness:
  "\<exists>g. told [enter_of 65 (ch CHR ''S'') 100 2000] (sample_gateway gateway_config_default (matcher_on sample_book0)) = Some g \<and>
     gw_live g = {9223372036854775809} \<and>
     (let (done, g') = gw_poll [9223372036854775809] 10 (logged_out g) in done \<and> gw_live g' = {} \<and> gw_death_cause g' = SessionEnded)"
proof -
  let ?g0 = "sample_gateway gateway_config_default (matcher_on sample_book0)" and ?p = "enter_of 65 (ch CHR ''S'') 100 2000"
  from sample_entered obtain g where g: "told [?p] ?g0 = Some g" "gw_live g = {9223372036854775809}" "\<not> gw_flattened g"
    "ss_state (gw_session (logged_out g)) = SessionEnded" by auto
  then obtain b where "on_ouch ?p 7 ?g0 = Some (b, g)" by (auto split: option.splits)
  then have r: "gateway_run (logged_out g)"
    unfolding logged_out_def using gateway_run.session [OF gateway_run.message [OF sample_run sample_room]] by blast
  obtain d g' where p: "gw_poll [9223372036854775809] 10 (logged_out g) = (d, g')" by fastforce
  have l: "gw_live (logged_out g) = gw_live g" "gw_flattened (logged_out g) = gw_flattened g" by (simp_all add: logged_out_def)
  from flatten_disarms_every_order [OF r _ _ p] g l have "d \<and> gw_live g' = {} \<and> gw_death_cause g' = SessionEnded" by simp
  with g p show ?thesis by auto
qed




end
